(* ===== verification/Mectov_Prelude.thy ===== *)
theory Mectov_Prelude
  imports Main "HOL-Library.Word"
begin

text \<open>
  Shared vocabulary of the development: the machine integer types of
  \<open>src/include/types.h\<close>, the loop shapes that the kernel's table-driven code
  repeats (a linear scan for the first matching slot, a counted loop, a block copy
  into a buffer), circular slices, and the lemmas the component theories share.
  Every array of the kernel with a fixed number of slots is a function from slot
  numbers; the theorems state that the code stays inside its bounds.
\<close>

unbundle bit_operations_syntax

section \<open>Machine integers\<close>

type_synonym u8 = "8 word"
type_synonym u16 = "16 word"
type_synonym u32 = "32 word"
type_synonym u64 = "64 word"

named_theorems scan_simps \<open>facts about linear scans over slot tables\<close>
named_theorems ring_simps \<open>facts about circular slices\<close>

section \<open>Types and constants of several components\<close>

text \<open>The node types of \<open>include/vfs.h\<close> and the superuser.\<close>

datatype fs_type = FS_FILE | FS_DIR | FS_DEV | FS_EXT2_FILE | FS_EXT2_DIR | FS_FAT32_FILE | FS_FAT32_DIR
  | FS_PROC | FS_SYMLINK | FS_RAM_DIR | FS_RAM_FILE

definition ROOT_UID :: int where
  "ROOT_UID = 0"

section \<open>Scanning a table for the first matching slot\<close>

text \<open>
  \<open>for (int i = lo; i < hi; i++) if (P(i)) return i;\<close> -- the shape behind every slot
  allocator and lookup of the kernel.
\<close>

function first_idx :: "(nat \<Rightarrow> bool) \<Rightarrow> nat \<Rightarrow> nat \<Rightarrow> nat option" where
  "first_idx P lo hi =
     (if lo < hi then if P lo then Some lo else first_idx P (Suc lo) hi else None)"
  by pat_completeness auto
termination
  by (relation "measure (\<lambda>(P, lo, hi). hi - lo)") auto

declare first_idx.simps [simp del]

text \<open>The counted loop \<open>for (int i = 0; i < n; i++) body(i)\<close>.\<close>

primrec for_upto :: "nat \<Rightarrow> (nat \<Rightarrow> 's \<Rightarrow> 's) \<Rightarrow> 's \<Rightarrow> 's" where
  "for_upto 0 f s = s"
| "for_upto (Suc n) f s = f n (for_upto n f s)"

text \<open>\<open>memcpy(dst + off, src, len)\<close> into a buffer held as a list.\<close>

definition blit :: "nat \<Rightarrow> 'a list \<Rightarrow> 'a list \<Rightarrow> 'a list" where
  "blit off src dst = take off dst @ src @ drop (off + length src) dst"

text \<open>The last \<open>n\<close> elements of a list.\<close>

definition last_n :: "nat \<Rightarrow> 'a list \<Rightarrow> 'a list" where
  "last_n n xs = drop (length xs - n) xs"

text \<open>\<open>len\<close> elements of a circular buffer of \<open>cap\<close> slots, from \<open>start\<close> on.\<close>

definition ring_slice :: "(nat \<Rightarrow> 'a) \<Rightarrow> nat \<Rightarrow> nat \<Rightarrow> nat \<Rightarrow> 'a list" where
  "ring_slice buf cap start len = map (\<lambda>i. buf ((start + i) mod cap)) [0..<len]"

section \<open>Lemmas on scans\<close>

lemma first_idx_Some:
  "first_idx P lo hi = Some k \<Longrightarrow>
     lo \<le> k \<and> k < hi \<and> P k \<and> (\<forall>j. lo \<le> j \<and> j < k \<longrightarrow> \<not> P j)"
proof (induction P lo hi rule: first_idx.induct)
  case (1 P lo hi)
  show ?case
  proof (cases "lo < hi \<and> \<not> P lo")
    case True
    with "1.prems" have "first_idx P (Suc lo) hi = Some k"
      by (simp add: first_idx.simps [of P lo hi])
    with "1.IH" True have ih: "Suc lo \<le> k \<and> k < hi \<and> P k \<and> (\<forall>j. Suc lo \<le> j \<and> j < k \<longrightarrow> \<not> P j)"
      by blast
    then show ?thesis using True by (metis Suc_leD not_less_eq_eq le_antisym)
  next
    case False
    with "1.prems" show ?thesis by (auto simp: first_idx.simps [of P lo hi] split: if_splits)
  qed
qed

lemma first_idx_None [scan_simps]:
  "first_idx P lo hi = None \<longleftrightarrow> (\<forall>j. lo \<le> j \<and> j < hi \<longrightarrow> \<not> P j)"
proof (induction P lo hi rule: first_idx.induct)
  case (1 P lo hi)
  show ?case
  proof (cases "lo < hi \<and> \<not> P lo")
    case True
    with "1.IH" have "first_idx P lo hi = None \<longleftrightarrow> (\<forall>j. Suc lo \<le> j \<and> j < hi \<longrightarrow> \<not> P j)"
      by (simp add: first_idx.simps [of P lo hi])
    then show ?thesis using True by (metis Suc_leD Suc_leI le_neq_implies_less)
  next
    case False
    then show ?thesis by (auto simp: first_idx.simps [of P lo hi])
  qed
qed

lemma first_idx_bound: "first_idx P lo hi = Some k \<Longrightarrow> k < hi"
  by (simp add: first_idx_Some)

lemma first_idx_holds: "first_idx P lo hi = Some k \<Longrightarrow> P k"
  by (simp add: first_idx_Some)

lemma first_idx_complete: "lo \<le> j \<Longrightarrow> j < hi \<Longrightarrow> P j \<Longrightarrow> \<exists>k. first_idx P lo hi = Some k"
  by (metis first_idx_None not_Some_eq)

lemma first_idx_unique:
  "lo \<le> j \<Longrightarrow> j < hi \<Longrightarrow> P j \<Longrightarrow> (\<And>i. lo \<le> i \<Longrightarrow> i < hi \<Longrightarrow> P i \<Longrightarrow> i = j) \<Longrightarrow> first_idx P lo hi = Some j"
  by (metis first_idx_Some first_idx_complete)

lemma first_idx_cong:
  "(\<And>j. lo \<le> j \<Longrightarrow> j < hi \<Longrightarrow> P j = Q j) \<Longrightarrow> first_idx P lo hi = first_idx Q lo hi"
proof (induction P lo hi rule: first_idx.induct)
  case (1 P lo hi)
  then show ?case
    by (simp add: first_idx.simps [of P lo hi] first_idx.simps [of Q lo hi])
qed

section \<open>Lemmas on counted loops\<close>

lemma for_upto_invariant:
  "I s \<Longrightarrow> (\<And>i s. i < n \<Longrightarrow> I s \<Longrightarrow> I (f i s)) \<Longrightarrow> I (for_upto n f s)"
  by (induction n) auto

lemma for_upto_indexed:
  "I 0 s \<Longrightarrow> (\<And>i s. i < n \<Longrightarrow> I i s \<Longrightarrow> I (Suc i) (f i s)) \<Longrightarrow> I n (for_upto n f s)"
  by (induction n) auto

section \<open>Lemmas on copies and slices\<close>

lemma length_blit: "off + length src \<le> length dst \<Longrightarrow> length (blit off src dst) = length dst"
  by (simp add: blit_def)

lemma blit_0: "blit 0 src dst = src @ drop (length src) dst"
  by (simp add: blit_def)

lemma take_blit_0: "take (length src) (blit 0 src dst) = src"
  by (simp add: blit_def)

lemma blit_Nil [simp]: "blit off [] dst = dst"
  by (simp add: blit_def)

lemma nth_blit:
  "off + length src \<le> length dst \<Longrightarrow> i < length dst \<Longrightarrow>
     blit off src dst ! i = (if off \<le> i \<and> i < off + length src then src ! (i - off) else dst ! i)"
  by (auto simp: blit_def nth_append min_def)

lemma last_n_all [simp]: "length xs \<le> n \<Longrightarrow> last_n n xs = xs"
  by (simp add: last_n_def)

lemma length_last_n [simp]: "length (last_n n xs) = min n (length xs)"
  by (auto simp: last_n_def)

lemma last_n_append1:
  "last_n n (last_n n xs @ [x]) = last_n n (xs @ [x])"
  by (cases "n \<le> length xs") (auto simp: last_n_def Suc_diff_le)

lemma length_ring_slice [simp]: "length (ring_slice buf cap start len) = len"
  by (simp add: ring_slice_def)

lemma ring_slice_0 [simp]: "ring_slice buf cap start 0 = []"
  by (simp add: ring_slice_def)

lemma ring_slice_Suc [ring_simps]:
  "ring_slice buf cap start (Suc len) = ring_slice buf cap start len @ [buf ((start + len) mod cap)]"
  by (simp add: ring_slice_def)

lemma nth_ring_slice: "i < len \<Longrightarrow> ring_slice buf cap start len ! i = buf ((start + i) mod cap)"
  by (simp add: ring_slice_def)

lemma mod_add_less_inj:
  fixes start i j cap :: nat
  assumes "(start + i) mod cap = (start + j) mod cap" "i \<le> j" "j < cap"
  shows "i = j"
proof -
  have "cap dvd (start + j) - (start + i)"
    using assms(1,2) by (metis add_le_cancel_left mod_eq_dvd_iff_nat)
  then have "cap dvd j - i" by simp
  then show ?thesis using assms(2,3) by (metis diff_is_0_eq dvd_imp_le le_antisym less_imp_diff_less linorder_not_less not_gr0)
qed

lemma mod_add_inj:
  fixes start i j cap :: nat
  assumes "(start + i) mod cap = (start + j) mod cap" "i < cap" "j < cap"
  shows "i = j"
  using mod_add_less_inj [of start i cap j] mod_add_less_inj [of start j cap i] assms
  by (cases "i \<le> j") auto

lemma ring_slice_upd_outside [ring_simps]:
  assumes "len \<le> k" "k < cap"
  shows "ring_slice (buf((start + k) mod cap := x)) cap start len = ring_slice buf cap start len"
proof (rule nth_equalityI)
  fix i assume "i < length (ring_slice (buf((start + k) mod cap := x)) cap start len)"
  then have i: "i < len" by simp
  have "(start + i) mod cap \<noteq> (start + k) mod cap"
    using mod_add_inj [of start i cap k] i assms by auto
  then show "ring_slice (buf((start + k) mod cap := x)) cap start len ! i
      = ring_slice buf cap start len ! i"
    using i by (simp add: nth_ring_slice)
qed simp

lemma ring_slice_Cons [ring_simps]:
  assumes "0 < len"
  shows "ring_slice buf cap start len
    = buf (start mod cap) # ring_slice buf cap (Suc start mod cap) (len - 1)"
proof (rule nth_equalityI)
  fix i assume "i < length (ring_slice buf cap start len)"
  then show "ring_slice buf cap start len ! i
      = (buf (start mod cap) # ring_slice buf cap (Suc start mod cap) (len - 1)) ! i"
    using assms by (cases i) (auto simp: nth_ring_slice mod_simps)
qed (use assms in auto)

lemma ring_slice_start_mod [simp]:
  "ring_slice buf cap (start mod cap) len = ring_slice buf cap start len"
  by (simp add: ring_slice_def mod_simps)

lemma drop_ring_slice:
  assumes "k \<le> len"
  shows "drop k (ring_slice buf cap start len) = ring_slice buf cap (start + k) (len - k)"
  by (rule nth_equalityI) (use assms in \<open>auto simp: nth_ring_slice add.assoc\<close>)

end
