(* ===== verification/Klog.thy ===== *)
theory Klog
  imports Mectov_Prelude
begin

text \<open>
  The kernel message ring of \<open>src/sys/klog.c\<close> (the source of \<open>dmesg\<close>): a circular
  buffer of \<open>KLOG_SIZE\<close> bytes. The abstract view \<open>klog_text\<close> is the byte sequence
  from the oldest to the newest byte; writing appends to it and drops what no longer
  fits, and a snapshot returns a suffix of it.
  The \<open>uint32_t\<close> head and length stay below \<open>2 * KLOG_SIZE\<close> (\<open>klog_inv\<close>), so
  their sums never wrap and natural numbers model them exactly.
\<close>

definition KLOG_SIZE :: nat where
  "KLOG_SIZE = 65536"

record klog =
  kl_buf :: "nat \<Rightarrow> u8"
  kl_head :: nat
  kl_len :: nat

definition klog_init :: klog where
  "klog_init = \<lparr>kl_buf = (\<lambda>_. 0), kl_head = 0, kl_len = 0\<rparr>"

definition klog_putc :: "u8 \<Rightarrow> klog \<Rightarrow> klog" where
  "klog_putc c k =
     (if kl_len k < KLOG_SIZE
      then k\<lparr>kl_buf := (kl_buf k)((kl_head k + kl_len k) mod KLOG_SIZE := c),
             kl_len := kl_len k + 1\<rparr>
      else k\<lparr>kl_buf := (kl_buf k)(kl_head k := c),
             kl_head := (kl_head k + 1) mod KLOG_SIZE\<rparr>)"

text \<open>
  \<open>klog_snapshot(dst, max)\<close>: \<open>None\<close> is a NULL destination; the result is the return
  value and the destination buffer after the call.
\<close>

definition klog_snapshot :: "klog \<Rightarrow> u8 list option \<Rightarrow> int \<Rightarrow> int \<times> u8 list option" where
  "klog_snapshot k dst maxlen =
     (case dst of
        None \<Rightarrow> (0, None)
      | Some d \<Rightarrow>
          if maxlen \<le> 0 then (0, Some d)
          else
            (let m = nat maxlen;
                 start = (if kl_len k > m then (kl_head k + kl_len k - m) mod KLOG_SIZE
                          else kl_head k);
                 n = (if kl_len k < m then kl_len k else m);
                 d1 = blit 0 (map (\<lambda>i. kl_buf k ((start + i) mod KLOG_SIZE)) [0..<n]) d;
                 d2 = (if n < m then d1[n := 0] else d1)
             in (int n, Some d2)))"

definition klog_bytes :: "klog \<Rightarrow> int" where
  "klog_bytes k = int (kl_len k)"

definition klog_inv :: "klog \<Rightarrow> bool" where
  "klog_inv k \<longleftrightarrow> kl_head k < KLOG_SIZE \<and> kl_len k \<le> KLOG_SIZE"

definition klog_text :: "klog \<Rightarrow> u8 list" where
  "klog_text k = ring_slice (kl_buf k) KLOG_SIZE (kl_head k) (kl_len k)"

definition klog_write :: "u8 list \<Rightarrow> klog \<Rightarrow> klog" where
  "klog_write cs k = fold klog_putc cs k"

lemma KLOG_SIZE_pos [simp]: "0 < KLOG_SIZE"
  by (simp add: KLOG_SIZE_def)

lemma klog_inv_init [simp]: "klog_inv klog_init"
  by (simp add: klog_inv_def klog_init_def)

lemma klog_text_init [simp]: "klog_text klog_init = []"
  by (simp add: klog_text_def klog_init_def)

lemma length_klog_text [simp]: "length (klog_text k) = kl_len k"
  by (simp add: klog_text_def)

lemma klog_putc_inv: "klog_inv k \<Longrightarrow> klog_inv (klog_putc c k)"
  by (auto simp: klog_inv_def klog_putc_def)

lemma klog_putc_text:
  assumes "klog_inv k"
  shows "klog_text (klog_putc c k) = last_n KLOG_SIZE (klog_text k @ [c])"
proof (cases "kl_len k < KLOG_SIZE")
  case True
  then have "klog_text (klog_putc c k) = klog_text k @ [c]"
    by (simp add: klog_putc_def klog_text_def ring_slice_Suc ring_slice_upd_outside)
  then show ?thesis using True by simp
next
  case False
  with assms have len: "kl_len k = KLOG_SIZE" and hd: "kl_head k < KLOG_SIZE"
    by (auto simp: klog_inv_def)
  let ?b = "(kl_buf k)(kl_head k := c)"
  have "ring_slice ?b KLOG_SIZE (kl_head k + 1) KLOG_SIZE
      = ring_slice ?b KLOG_SIZE (kl_head k + 1) (KLOG_SIZE - 1) @ [c]"
    using ring_slice_Suc [of ?b KLOG_SIZE "kl_head k + 1" "KLOG_SIZE - 1"] hd by simp
  also have "ring_slice ?b KLOG_SIZE (kl_head k + 1) (KLOG_SIZE - 1)
      = ring_slice (kl_buf k) KLOG_SIZE (kl_head k + 1) (KLOG_SIZE - 1)"
    using ring_slice_upd_outside [of "KLOG_SIZE - 1" "KLOG_SIZE - 1" KLOG_SIZE "kl_buf k"
        "kl_head k + 1" c] hd by simp
  also have "\<dots> = tl (klog_text k)"
    using ring_slice_Cons [of KLOG_SIZE "kl_buf k" KLOG_SIZE "kl_head k"]
    by (simp add: klog_text_def len)
  finally have new: "klog_text (klog_putc c k) = tl (klog_text k) @ [c]"
    using False hd by (simp add: klog_putc_def klog_text_def len fun_upd_def)
  have ne: "klog_text k \<noteq> []" using len by (metis KLOG_SIZE_pos length_klog_text list.size(3) less_irrefl)
  have "last_n KLOG_SIZE (klog_text k @ [c]) = drop 1 (klog_text k @ [c])"
    by (simp add: last_n_def len)
  also have "\<dots> = tl (klog_text k) @ [c]" using ne by (cases "klog_text k") auto
  finally show ?thesis using new by simp
qed

lemma klog_write_inv: "klog_inv k \<Longrightarrow> klog_inv (klog_write cs k)"
  by (induction cs arbitrary: k) (auto simp: klog_write_def klog_putc_inv)

lemma klog_write_text:
  "klog_inv k \<Longrightarrow> klog_text (klog_write cs k) = last_n KLOG_SIZE (klog_text k @ cs)"
proof (induction cs rule: rev_induct)
  case Nil
  then show ?case by (simp add: klog_write_def klog_inv_def)
next
  case (snoc c cs)
  then have "klog_text (klog_write (cs @ [c]) k)
      = last_n KLOG_SIZE (last_n KLOG_SIZE (klog_text k @ cs) @ [c])"
    using klog_putc_text [OF klog_write_inv [of k cs]] by (simp add: klog_write_def)
  then show ?case by (simp add: last_n_append1)
qed

text \<open>After any sequence of kernel messages the ring holds exactly the newest KLOG_SIZE
  bytes of everything ever written, in order.\<close>

theorem klog_keeps_newest:
  "klog_text (klog_write cs klog_init) = last_n KLOG_SIZE cs"
  using klog_write_text [of klog_init cs] by simp

text \<open>A snapshot into a buffer with room for \<open>max\<close> bytes copies the newest \<open>max\<close>
  bytes of the log (all of it when it is shorter), NUL-terminates when there is room, and
  leaves the rest of the buffer alone.\<close>

theorem klog_snapshot_is_tail:
  assumes "klog_inv k" and "0 < maxlen" and "maxlen \<le> int (length d)"
  shows "\<exists>n d'. klog_snapshot k (Some d) maxlen = (int n, Some d')
     \<and> n = min (nat maxlen) (kl_len k)
     \<and> take n d' = last_n (nat maxlen) (klog_text k)
     \<and> (n < nat maxlen \<longrightarrow> d' ! n = 0)
     \<and> length d' = length d \<and> drop (Suc n) d' = drop (Suc n) d"
proof -
  let ?m = "nat maxlen" and ?len = "kl_len k"
  let ?n = "min ?m ?len"
  let ?start = "if ?len > ?m then (kl_head k + ?len - ?m) mod KLOG_SIZE else kl_head k"
  let ?src = "map (\<lambda>i. kl_buf k ((?start + i) mod KLOG_SIZE)) [0..<?n]"
  have src: "?src = last_n ?m (klog_text k)"
  proof (cases "?len > ?m")
    case True
    then have start: "?start = (kl_head k + (?len - ?m)) mod KLOG_SIZE" and n: "?n = ?m" by auto
    have "?src = ring_slice (kl_buf k) KLOG_SIZE ((kl_head k + (?len - ?m)) mod KLOG_SIZE) ?m"
      unfolding start n ring_slice_def ..
    also have "\<dots> = last_n ?m (klog_text k)"
      using True by (simp add: last_n_def klog_text_def drop_ring_slice)
    finally show ?thesis .
  next
    case False
    then have "?n = ?len" "?start = kl_head k" by auto
    moreover have "last_n ?m (klog_text k) = klog_text k" using False by simp
    ultimately show ?thesis by (simp only: klog_text_def ring_slice_def)
  qed
  let ?d1 = "blit 0 ?src d"
  let ?d' = "if ?n < ?m then ?d1[?n := 0] else ?d1"
  have "klog_snapshot k (Some d) maxlen = (int ?n, Some ?d')"
    using assms by (simp add: klog_snapshot_def Let_def min_def)
  moreover have "length ?src = ?n" by simp
  moreover have "?n \<le> length d" using assms by linarith
  moreover have "take ?n ?d' = ?src"
    using \<open>length ?src = ?n\<close> by (simp add: blit_0 take_update_swap list_update_beyond)
  moreover have "?n < ?m \<longrightarrow> ?d' ! ?n = 0"
    using \<open>?n \<le> length d\<close> assms by (simp add: blit_0)
  moreover have "length ?d' = length d"
    using \<open>?n \<le> length d\<close> by (simp add: blit_0)
  moreover have "drop (Suc ?n) ?d' = drop (Suc ?n) d"
    by (simp add: blit_0)
  ultimately show ?thesis unfolding src by blast
qed

theorem klog_snapshot_is_tail_witness:
  "\<exists>n d'. klog_snapshot (klog_write [1, 2, 3] klog_init) (Some [9, 9, 9]) 2 = (int n, Some d')
     \<and> take n d' = [2, 3]"
proof -
  let ?k = "klog_write [1, 2, 3] klog_init"
  have t: "klog_text ?k = [1, 2, 3]" using klog_write_text [of klog_init "[1, 2, 3]"]
    by (simp add: KLOG_SIZE_def)
  have "\<exists>n d'. klog_snapshot ?k (Some [9, 9, 9]) 2 = (int n, Some d')
     \<and> n = min (nat 2) (kl_len ?k) \<and> take n d' = last_n (nat 2) (klog_text ?k)
     \<and> (n < nat 2 \<longrightarrow> d' ! n = 0) \<and> length d' = length [9::u8, 9, 9] \<and> drop (Suc n) d' = drop (Suc n) [9, 9, 9]"
    by (rule klog_snapshot_is_tail) (simp_all add: klog_write_inv)
  moreover have "last_n (nat 2) (klog_text ?k) = [2, 3]"
    unfolding t by (simp add: last_n_def)
  ultimately show ?thesis by metis
qed

end
