(* ===== verification/Clipboard.thy ===== *)
theory Clipboard
  imports Mectov_Prelude
begin

text \<open>
  The kernel clipboard of \<open>src/sys/clipboard.c\<close>: one NUL-terminated buffer of
  \<open>CLIPBOARD_MAX_SIZE\<close> bytes shared by all tasks, copied in by \<open>clipboard_copy\<close> and
  out by \<open>clipboard_paste\<close>. Both run under \<open>clipboard_lock\<close>, so each call is one
  atomic step of the model.
\<close>

definition CLIPBOARD_MAX_SIZE :: int where
  "CLIPBOARD_MAX_SIZE = 4096"

record clipboard =
  cb_buf :: "nat \<Rightarrow> u8"
  cb_len :: nat

definition clipboard_init :: "clipboard \<Rightarrow> clipboard" where
  "clipboard_init cb = cb\<lparr>cb_buf := (cb_buf cb)(0 := 0), cb_len := 0\<rparr>"

text \<open>The copy loop: stops at \<open>len\<close> bytes or at the first NUL of the source.\<close>

fun clip_copy_loop :: "u8 list \<Rightarrow> nat \<Rightarrow> nat \<Rightarrow> (nat \<Rightarrow> u8) \<Rightarrow> nat \<times> (nat \<Rightarrow> u8)" where
  "clip_copy_loop [] len i buf = (i, buf)"
| "clip_copy_loop (c # cs) len i buf =
     (if i < len \<and> c \<noteq> 0 then clip_copy_loop cs len (Suc i) (buf(i := c)) else (i, buf))"

text \<open>
  \<open>data\<close> is the source string as the bytes from the pointer on (the caller owns at least
  \<open>len\<close> of them or a NUL before that), \<open>None\<close> a NULL pointer. The result is the return
  value and the clipboard.
\<close>

definition clipboard_copy :: "u8 list option \<Rightarrow> int \<Rightarrow> clipboard \<Rightarrow> int \<times> clipboard" where
  "clipboard_copy data len cb =
     (case data of
        None \<Rightarrow> (0, cb\<lparr>cb_len := 0, cb_buf := (cb_buf cb)(0 := 0)\<rparr>)
      | Some d \<Rightarrow>
          if len \<le> 0 then (0, cb\<lparr>cb_len := 0, cb_buf := (cb_buf cb)(0 := 0)\<rparr>)
          else
            (let l = (if len \<ge> CLIPBOARD_MAX_SIZE then CLIPBOARD_MAX_SIZE - 1 else len);
                 (i, b) = clip_copy_loop d (nat l) 0 (cb_buf cb)
             in (int i, cb\<lparr>cb_buf := b(i := 0), cb_len := i\<rparr>)))"

definition clipboard_paste :: "clipboard \<Rightarrow> u8 list option \<Rightarrow> int \<Rightarrow> int \<times> u8 list option" where
  "clipboard_paste cb buf max_len =
     (case buf of
        None \<Rightarrow> (-1, None)
      | Some b \<Rightarrow>
          if max_len \<le> 0 then (-1, Some b)
          else
            (let to_copy = (if int (cb_len cb) \<ge> max_len then max_len - 1 else int (cb_len cb));
                 n = nat to_copy;
                 b1 = blit 0 (map (cb_buf cb) [0..<n]) b
             in (int n, Some (b1[n := 0]))))"

definition clip_text :: "clipboard \<Rightarrow> u8 list" where
  "clip_text cb = map (cb_buf cb) [0..<cb_len cb]"

definition clip_inv :: "clipboard \<Rightarrow> bool" where
  "clip_inv cb \<longleftrightarrow> int (cb_len cb) < CLIPBOARD_MAX_SIZE \<and> cb_buf cb (cb_len cb) = 0
     \<and> (\<forall>i < cb_len cb. cb_buf cb i \<noteq> 0)"

text \<open>The text a C string holds: the bytes before its first NUL.\<close>

definition c_text :: "u8 list \<Rightarrow> u8 list" where
  "c_text d = takeWhile (\<lambda>c. c \<noteq> 0) d"

lemma clip_copy_loop_result:
  "clip_copy_loop d len i buf = (i', buf') \<Longrightarrow> i \<le> len \<Longrightarrow>
     i' = i + length (take (len - i) (c_text d))
     \<and> (\<forall>j. buf' j = (if i \<le> j \<and> j < i' then c_text d ! (j - i) else buf j))"
proof (induction d len i buf rule: clip_copy_loop.induct)
  case (1 len i buf)
  then show ?case by (auto simp: c_text_def)
next
  case (2 c cs len i buf)
  show ?case
  proof (cases "i < len \<and> c \<noteq> 0")
    case True
    then have "clip_copy_loop cs len (Suc i) (buf(i := c)) = (i', buf')"
      using "2.prems" by simp
    with "2.IH" [OF True this] True have ih: "i' = Suc i + length (take (len - Suc i) (c_text cs))"
      "\<And>j. buf' j = (if Suc i \<le> j \<and> j < i' then c_text cs ! (j - Suc i) else (buf(i := c)) j)"
      by auto
    have ct: "c_text (c # cs) = c # c_text cs" using True by (simp add: c_text_def)
    have len: "len - i = Suc (len - Suc i)" using True by linarith
    have "i' = i + length (take (len - i) (c_text (c # cs)))"
      using ih(1) by (simp add: ct len)
    moreover have "buf' j = (if i \<le> j \<and> j < i' then c_text (c # cs) ! (j - i) else buf j)" for j
      using ih(1) ih(2) [of j] by (auto simp: ct nth_Cons' Suc_diff_Suc)
    ultimately show ?thesis by blast
  next
    case False
    then show ?thesis using "2.prems" by (auto simp: c_text_def)
  qed
qed

lemma clipboard_copy_spec:
  assumes "clipboard_copy (Some d) len cb = (r, cb')" and "0 < len"
  shows "clip_text cb' = take (nat (min len (CLIPBOARD_MAX_SIZE - 1))) (c_text d)
     \<and> r = int (length (clip_text cb')) \<and> clip_inv cb'"
proof -
  let ?l = "nat (min len (CLIPBOARD_MAX_SIZE - 1))"
  obtain i b where loop: "clip_copy_loop d ?l 0 (cb_buf cb) = (i, b)" by fastforce
  have lim: "(if len \<ge> CLIPBOARD_MAX_SIZE then CLIPBOARD_MAX_SIZE - 1 else len)
      = min len (CLIPBOARD_MAX_SIZE - 1)"
    by simp
  have cb': "cb' = cb\<lparr>cb_buf := b(i := 0), cb_len := i\<rparr>" and r: "r = int i"
    using assms loop by (auto simp: clipboard_copy_def lim split: prod.splits)
  from clip_copy_loop_result [OF loop]
  have i: "i = length (take ?l (c_text d))"
    and b: "\<And>j. j < i \<Longrightarrow> b j = c_text d ! j" by auto
  have held: "clip_text cb' = take ?l (c_text d)"
    by (rule nth_equalityI) (auto simp: clip_text_def cb' i b)
  have "i \<le> ?l" by (simp add: i)
  then have "int i < CLIPBOARD_MAX_SIZE" by (simp add: CLIPBOARD_MAX_SIZE_def)
  moreover have "b j \<noteq> 0" if "j < i" for j
  proof -
    have "c_text d ! j \<in> set (c_text d)" using that i by simp
    then show ?thesis using b [OF that] by (auto simp: c_text_def dest: set_takeWhileD)
  qed
  ultimately have "clip_inv cb'" by (simp add: clip_inv_def cb')
  then show ?thesis using held r i by simp
qed

lemma clipboard_paste_spec:
  assumes "0 < max_len" and "max_len \<le> int (length b)"
  shows "\<exists>n b'. clipboard_paste cb (Some b) max_len = (int n, Some b')
     \<and> n = min (cb_len cb) (nat max_len - 1) \<and> take n b' = take n (clip_text cb)
     \<and> b' ! n = 0 \<and> length b' = length b"
proof -
  let ?n = "min (cb_len cb) (nat max_len - 1)"
  let ?src = "map (cb_buf cb) [0..<?n]"
  have lim: "nat (if int (cb_len cb) \<ge> max_len then max_len - 1 else int (cb_len cb)) = ?n"
    using assms by auto
  have "clipboard_paste cb (Some b) max_len = (int ?n, Some ((blit 0 ?src b)[?n := 0]))"
    using assms by (simp only: clipboard_paste_def option.case lim Let_def) auto
  moreover have "?n < length b" using assms by linarith
  ultimately show ?thesis
    by (intro exI [of _ ?n] exI [of _ "(blit 0 ?src b)[?n := 0]"])
       (auto simp: blit_0 take_update_swap clip_text_def take_map nth_list_update list_update_beyond)
qed

text \<open>Pasting returns what the last copy stored: the source text cut at its first NUL, at
  \<open>len\<close> and at the clipboard's capacity, then at the size of the destination, always
  NUL-terminated.\<close>

theorem clipboard_roundtrip:
  assumes "clipboard_copy (Some d) len cb = (r, cb')" and "0 < len"
    and "0 < max_len" and "max_len \<le> int (length b)"
  shows "\<exists>n b'. clipboard_paste cb' (Some b) max_len = (int n, Some b')
     \<and> take n b' = take (nat max_len - 1) (take (nat (min len (CLIPBOARD_MAX_SIZE - 1))) (c_text d))
     \<and> n = length (take n b') \<and> b' ! n = 0"
proof -
  from clipboard_copy_spec [OF assms(1,2)]
  have held: "clip_text cb' = take (nat (min len (CLIPBOARD_MAX_SIZE - 1))) (c_text d)" by simp
  have lt: "length (clip_text cb') = cb_len cb'" by (simp add: clip_text_def)
  from clipboard_paste_spec [OF assms(3,4), of cb'] obtain n b' where
    p: "clipboard_paste cb' (Some b) max_len = (int n, Some b')"
    and n: "n = min (cb_len cb') (nat max_len - 1)" and t: "take n b' = take n (clip_text cb')"
    and z: "b' ! n = 0" and l: "length b' = length b"
    by blast
  have "take n (clip_text cb') = take (nat max_len - 1) (clip_text cb')"
    using n lt by (simp add: min_def)
  moreover have "n \<le> length b'" using n l assms(3,4) by linarith
  ultimately have "take n b' = take (nat max_len - 1) (clip_text cb')" "n = length (take n b')"
    using t n lt by simp_all
  then show ?thesis using p z unfolding held [symmetric] by blast
qed

theorem clipboard_roundtrip_witness:
  "\<exists>n b'. clipboard_paste (snd (clipboard_copy (Some [65, 66, 0]) 3 \<lparr>cb_buf = (\<lambda>_. 7), cb_len = 0\<rparr>)) (Some [9, 9]) 2
     = (int n, Some b') \<and> take n b' = [65]"
proof -
  let ?c = "clipboard_copy (Some [65, 66, 0]) 3 \<lparr>cb_buf = (\<lambda>_. 7), cb_len = 0\<rparr>"
  have "c_text [65, 66, 0] = [65, 66]" by (simp add: c_text_def)
  then show ?thesis
    using clipboard_roundtrip [of "[65, 66, 0]" 3 "\<lparr>cb_buf = (\<lambda>_. 7), cb_len = 0\<rparr>" "fst ?c" "snd ?c" 2 "[9, 9]"]
    by (auto simp: CLIPBOARD_MAX_SIZE_def)
qed

end
