(* ===== verification/Blkcache.thy ===== *)
theory Blkcache
  imports Mectov_Prelude
begin

text \<open>
  The sector cache of \<open>src/sys/blkcache.c\<close>: \<open>BLKCACHE_ENTRIES\<close> slots holding one
  512-byte sector each, with an LRU stamp per slot and a global write generation. A
  reader that missed commits what it read from disk only when no write has bumped the
  generation since, so the cache never holds bytes that predate a write. Every entry
  point runs under \<open>blkcache_lock\<close> and is one atomic step here; the interleaving of
  readers and writers on different cores is a sequence of such steps
  (\<open>blk_event\<close>, \<open>blk_step\<close> below).
\<close>

section \<open>The cache\<close>

definition BLKCACHE_ENTRIES :: nat where
  "BLKCACHE_ENTRIES = 512"

definition BLKCACHE_SECTOR :: nat where
  "BLKCACHE_SECTOR = 512"

type_synonym sector = "u8 list"

record blk_entry =
  be_lba :: u32
  be_drive :: int
  be_stamp :: u32
  be_valid :: bool
  be_data :: sector

record blkcache =
  bc_ent :: "nat \<Rightarrow> blk_entry"
  bc_stamp :: u32
  bc_gen :: u32

definition blkcache_zero :: blkcache where
  "blkcache_zero = \<lparr>bc_ent = (\<lambda>_. \<lparr>be_lba = 0, be_drive = 0, be_stamp = 0, be_valid = False, be_data = replicate BLKCACHE_SECTOR 0\<rparr>),
     bc_stamp = 0, bc_gen = 0\<rparr>"

definition blk_match :: "blkcache \<Rightarrow> int \<Rightarrow> u32 \<Rightarrow> nat \<Rightarrow> bool" where
  "blk_match bc drive lba i \<longleftrightarrow>
     be_valid (bc_ent bc i) \<and> be_drive (bc_ent bc i) = drive \<and> be_lba (bc_ent bc i) = lba"

definition blkcache_find_slot :: "blkcache \<Rightarrow> int \<Rightarrow> u32 \<Rightarrow> nat option" where
  "blkcache_find_slot bc drive lba = first_idx (blk_match bc drive lba) 0 BLKCACHE_ENTRIES"

text \<open>\<open>e->stamp = ++blkcache_stamp\<close>\<close>

definition blk_touch :: "nat \<Rightarrow> blkcache \<Rightarrow> blkcache" where
  "blk_touch i bc = bc\<lparr>bc_stamp := bc_stamp bc + 1,
     bc_ent := (bc_ent bc)(i := (bc_ent bc i)\<lparr>be_stamp := bc_stamp bc + 1\<rparr>)\<rparr>"

text \<open>The second pass of a hit: stamp each sector's slot and copy it out, in order.\<close>

fun blk_copy_out :: "int \<Rightarrow> u32 \<Rightarrow> nat \<Rightarrow> blkcache \<Rightarrow> blkcache \<times> u8 list" where
  "blk_copy_out drive lba 0 bc = (bc, [])"
| "blk_copy_out drive lba (Suc s) bc =
     (case blkcache_find_slot bc drive lba of
        None \<Rightarrow> (bc, [])
      | Some i \<Rightarrow>
          let (bc', rest) = blk_copy_out drive (lba + 1) s (blk_touch i bc)
          in (bc', be_data (bc_ent bc i) @ rest))"

text \<open>
  \<open>blkcache_read\<close>: \<open>Inr bytes\<close> is a full hit (return value 1 and the bytes stored into
  \<open>buf\<close>), \<open>Inl (Some g)\<close> a miss that reports the generation, \<open>Inl None\<close> the rejected
  call (\<open>count < 1\<close> or a NULL buffer).
\<close>

definition blkcache_read :: "int \<Rightarrow> u32 \<Rightarrow> int \<Rightarrow> bool \<Rightarrow> blkcache \<Rightarrow> (u32 option + u8 list) \<times> blkcache" where
  "blkcache_read drive lba count buf_nonnull bc =
     (if count < 1 \<or> \<not> buf_nonnull then (Inl None, bc)
      else if \<forall>s \<in> set [0..<nat count]. blkcache_find_slot bc drive (lba + of_nat s) \<noteq> None
      then let (bc', out) = blk_copy_out drive lba (nat count) bc in (Inr out, bc')
      else (Inl (Some (bc_gen bc)), bc))"

text \<open>
  The victim scan of \<open>blkcache_commit\<close>: the first free slot, else the slot with the
  smallest stamp (the first of them).
\<close>

definition blk_lru :: "blkcache \<Rightarrow> nat \<Rightarrow> nat" where
  "blk_lru bc n = for_upto n (\<lambda>i lru. if be_stamp (bc_ent bc i) < be_stamp (bc_ent bc lru) then i else lru) 0"

definition blk_victim :: "blkcache \<Rightarrow> nat" where
  "blk_victim bc =
     (case first_idx (\<lambda>i. \<not> be_valid (bc_ent bc i)) 0 BLKCACHE_ENTRIES of
        Some i \<Rightarrow> i
      | None \<Rightarrow> blk_lru bc BLKCACHE_ENTRIES)"

definition blk_fill :: "int \<Rightarrow> u32 \<Rightarrow> sector \<Rightarrow> blkcache \<Rightarrow> blkcache" where
  "blk_fill drive l sec bc =
     (let (i, bc1) =
        (case blkcache_find_slot bc drive l of
           Some i \<Rightarrow> (i, bc)
         | None \<Rightarrow>
             let v = blk_victim bc
             in (v, bc\<lparr>bc_ent := (bc_ent bc)(v := (bc_ent bc v)\<lparr>be_valid := True, be_drive := drive, be_lba := l\<rparr>)\<rparr>));
          bc2 = blk_touch i bc1
      in bc2\<lparr>bc_ent := (bc_ent bc2)(i := (bc_ent bc2 i)\<lparr>be_data := sec\<rparr>)\<rparr>)"

fun blk_fill_all :: "int \<Rightarrow> u32 \<Rightarrow> sector list \<Rightarrow> blkcache \<Rightarrow> blkcache" where
  "blk_fill_all drive l [] bc = bc"
| "blk_fill_all drive l (sec # secs) bc = blk_fill_all drive (l + 1) secs (blk_fill drive l sec bc)"

text \<open>The buffer of \<open>count\<close> sectors, sector by sector.\<close>

fun sectors_of :: "nat \<Rightarrow> u8 list \<Rightarrow> sector list" where
  "sectors_of 0 buf = []"
| "sectors_of (Suc n) buf = take BLKCACHE_SECTOR buf # sectors_of n (drop BLKCACHE_SECTOR buf)"

definition blkcache_commit :: "int \<Rightarrow> u32 \<Rightarrow> int \<Rightarrow> u8 list option \<Rightarrow> u32 \<Rightarrow> blkcache \<Rightarrow> blkcache" where
  "blkcache_commit drive lba count buf gen bc =
     (case buf of
        None \<Rightarrow> bc
      | Some b \<Rightarrow>
          if count < 1 then bc
          else if gen \<noteq> bc_gen bc then bc
          else blk_fill_all drive lba (sectors_of (nat count) b) bc)"

definition blkcache_invalidate :: "int \<Rightarrow> u32 \<Rightarrow> int \<Rightarrow> blkcache \<Rightarrow> blkcache" where
  "blkcache_invalidate drive lba count bc =
     (if count < 1 then bc
      else bc\<lparr>bc_gen := bc_gen bc + 1,
              bc_ent := (\<lambda>i. if i < BLKCACHE_ENTRIES \<and> be_valid (bc_ent bc i) \<and> be_drive (bc_ent bc i) = drive
                             \<and> lba \<le> be_lba (bc_ent bc i) \<and> be_lba (bc_ent bc i) < lba + of_int count
                           then (bc_ent bc i)\<lparr>be_valid := False\<rparr> else bc_ent bc i)\<rparr>)"

definition blkcache_gen_now :: "blkcache \<Rightarrow> u32" where
  "blkcache_gen_now bc = bc_gen bc"

section \<open>Coherence\<close>

text \<open>
  The disk as the drives' sectors. The cache is coherent when no two valid slots describe
  the same sector and every valid slot holds the sector's current contents.
\<close>

type_synonym disk = "int \<Rightarrow> u32 \<Rightarrow> sector"

definition blk_distinct :: "blkcache \<Rightarrow> bool" where
  "blk_distinct bc \<longleftrightarrow> (\<forall>i < BLKCACHE_ENTRIES. \<forall>j < BLKCACHE_ENTRIES.
     be_valid (bc_ent bc i) \<and> be_valid (bc_ent bc j) \<and> be_drive (bc_ent bc i) = be_drive (bc_ent bc j)
       \<and> be_lba (bc_ent bc i) = be_lba (bc_ent bc j) \<longrightarrow> i = j)"

definition blk_coherent :: "disk \<Rightarrow> blkcache \<Rightarrow> bool" where
  "blk_coherent dk bc \<longleftrightarrow> (\<forall>i < BLKCACHE_ENTRIES.
     be_valid (bc_ent bc i) \<longrightarrow> be_data (bc_ent bc i) = dk (be_drive (bc_ent bc i)) (be_lba (bc_ent bc i)))"

primrec disk_sectors :: "disk \<Rightarrow> int \<Rightarrow> u32 \<Rightarrow> nat \<Rightarrow> sector list" where
  "disk_sectors dk drive lba 0 = []"
| "disk_sectors dk drive lba (Suc n) = dk drive lba # disk_sectors dk drive (lba + 1) n"

definition disk_read :: "disk \<Rightarrow> int \<Rightarrow> u32 \<Rightarrow> nat \<Rightarrow> u8 list" where
  "disk_read dk drive lba n = concat (disk_sectors dk drive lba n)"

definition disk_ok :: "disk \<Rightarrow> bool" where
  "disk_ok dk \<longleftrightarrow> (\<forall>d l. length (dk d l) = BLKCACHE_SECTOR)"

lemma find_slot_Some:
  "blkcache_find_slot bc drive lba = Some i \<Longrightarrow> i < BLKCACHE_ENTRIES \<and> blk_match bc drive lba i"
  by (auto simp: blkcache_find_slot_def dest: first_idx_Some)

lemma find_slot_None:
  "blkcache_find_slot bc drive lba = None \<longleftrightarrow> (\<forall>i < BLKCACHE_ENTRIES. \<not> blk_match bc drive lba i)"
  by (simp add: blkcache_find_slot_def first_idx_None)

lemma touch_fields [simp]:
  "be_valid (bc_ent (blk_touch j bc) i) = be_valid (bc_ent bc i)"
  "be_drive (bc_ent (blk_touch j bc) i) = be_drive (bc_ent bc i)"
  "be_lba (bc_ent (blk_touch j bc) i) = be_lba (bc_ent bc i)"
  "be_data (bc_ent (blk_touch j bc) i) = be_data (bc_ent bc i)"
  "bc_gen (blk_touch j bc) = bc_gen bc"
  by (simp_all add: blk_touch_def)

lemma find_slot_touch [simp]: "blkcache_find_slot (blk_touch j bc) drive lba = blkcache_find_slot bc drive lba"
proof -
  have "blk_match (blk_touch j bc) drive lba = blk_match bc drive lba" by (rule ext) (simp add: blk_match_def)
  then show ?thesis by (simp add: blkcache_find_slot_def)
qed

text \<open>A copy-out changes stamps only.\<close>

definition same_but_stamps :: "blkcache \<Rightarrow> blkcache \<Rightarrow> bool" where
  "same_but_stamps a b \<longleftrightarrow> bc_gen a = bc_gen b \<and> (\<forall>i.
     be_valid (bc_ent a i) = be_valid (bc_ent b i) \<and> be_drive (bc_ent a i) = be_drive (bc_ent b i)
     \<and> be_lba (bc_ent a i) = be_lba (bc_ent b i) \<and> be_data (bc_ent a i) = be_data (bc_ent b i))"

lemma same_but_stamps_refl [simp]: "same_but_stamps bc bc"
  by (simp add: same_but_stamps_def)

lemma copy_out_same: "same_but_stamps (fst (blk_copy_out drive lba n bc)) bc"
proof (induction drive lba n bc rule: blk_copy_out.induct)
  case (2 drive lba s bc)
  show ?case
  proof (cases "blkcache_find_slot bc drive lba")
    case (Some i)
    from "2.IH" [OF this] have "same_but_stamps (fst (blk_copy_out drive (lba + 1) s (blk_touch i bc))) (blk_touch i bc)" .
    with Some show ?thesis by (simp add: same_but_stamps_def case_prod_beta)
  qed simp
qed simp

lemma same_but_stamps_distinct: "same_but_stamps a b \<Longrightarrow> blk_distinct a = blk_distinct b"
  by (simp add: same_but_stamps_def blk_distinct_def)

lemma same_but_stamps_coherent: "same_but_stamps a b \<Longrightarrow> blk_coherent dk a = blk_coherent dk b"
  by (simp add: same_but_stamps_def blk_coherent_def)

lemma all_resident_Suc:
  "(\<forall>s < Suc n. F (lba + of_nat s)) \<longleftrightarrow> F (lba :: u32) \<and> (\<forall>s < n. F (lba + 1 + of_nat s))"
  by (auto simp: less_Suc_eq_0_disj add.assoc)

definition range_coherent :: "disk \<Rightarrow> blkcache \<Rightarrow> int \<Rightarrow> u32 \<Rightarrow> nat \<Rightarrow> bool" where
  "range_coherent dk bc drive lba n \<longleftrightarrow> (\<forall>k < n. \<forall>i < BLKCACHE_ENTRIES.
     blk_match bc drive (lba + of_nat k) i \<longrightarrow> be_data (bc_ent bc i) = dk drive (lba + of_nat k))"

lemma coherent_range: "blk_coherent dk bc \<Longrightarrow> range_coherent dk bc drive lba n"
  by (auto simp: blk_coherent_def range_coherent_def blk_match_def)

lemma range_coherent_Suc:
  "range_coherent dk bc drive lba (Suc n) \<longleftrightarrow>
     (\<forall>i < BLKCACHE_ENTRIES. blk_match bc drive lba i \<longrightarrow> be_data (bc_ent bc i) = dk drive lba)
     \<and> range_coherent dk bc drive (lba + 1) n"
  unfolding range_coherent_def
  by (rule all_resident_Suc [where F = "\<lambda>l. \<forall>i < BLKCACHE_ENTRIES. blk_match bc drive l i \<longrightarrow> be_data (bc_ent bc i) = dk drive l"])

lemma range_coherent_touch [simp]: "range_coherent dk (blk_touch j bc) drive lba n = range_coherent dk bc drive lba n"
  by (simp add: range_coherent_def blk_match_def)

lemma copy_out_data:
  "range_coherent dk bc drive lba n \<Longrightarrow> \<forall>s < n. blkcache_find_slot bc drive (lba + of_nat s) \<noteq> None \<Longrightarrow>
     snd (blk_copy_out drive lba n bc) = disk_read dk drive lba n"
proof (induction drive lba n bc rule: blk_copy_out.induct)
  case (1 drive lba bc)
  then show ?case by (simp add: disk_read_def)
next
  case (2 drive lba s bc)
  from "2.prems"(2) obtain i where i: "blkcache_find_slot bc drive lba = Some i"
    and rest: "\<forall>k < s. blkcache_find_slot bc drive (lba + 1 + of_nat k) \<noteq> None"
    unfolding all_resident_Suc [where F = "\<lambda>l. blkcache_find_slot bc drive l \<noteq> None"] by blast
  from "2.IH" [OF i] rest "2.prems"(1)
  have ih: "snd (blk_copy_out drive (lba + 1) s (blk_touch i bc)) = disk_read dk drive (lba + 1) s"
    by (simp add: range_coherent_Suc)
  have "be_data (bc_ent bc i) = dk drive lba"
    using find_slot_Some [OF i] "2.prems"(1) by (auto simp: range_coherent_Suc)
  then show ?case using i ih by (simp add: disk_read_def case_prod_beta)
qed

lemma blk_lru_bound: "blk_lru bc n < Suc n"
  unfolding blk_lru_def
  by (rule for_upto_indexed [where I = "\<lambda>i s. s < Suc i"]) auto

lemma blk_lru_le: "0 < n \<Longrightarrow> blk_lru bc n < n"
proof -
  assume "0 < n"
  have "for_upto n (\<lambda>i lru. if be_stamp (bc_ent bc i) < be_stamp (bc_ent bc lru) then i else lru) 0 < n"
    by (rule for_upto_invariant [where I = "\<lambda>s. s < n"]) (use \<open>0 < n\<close> in auto)
  then show ?thesis by (simp add: blk_lru_def)
qed

lemma blk_lru_least: "i < n \<Longrightarrow> be_stamp (bc_ent bc (blk_lru bc n)) \<le> be_stamp (bc_ent bc i)"
proof (induction n arbitrary: i)
  case 0
  then show ?case by simp
next
  case (Suc n)
  have step: "blk_lru bc (Suc n) = (if be_stamp (bc_ent bc n) < be_stamp (bc_ent bc (blk_lru bc n)) then n else blk_lru bc n)"
    by (simp add: blk_lru_def)
  show ?case
  proof (cases "i = n")
    case True
    then show ?thesis by (auto simp: step not_less)
  next
    case False
    with Suc have "be_stamp (bc_ent bc (blk_lru bc n)) \<le> be_stamp (bc_ent bc i)" by simp
    then show ?thesis by (auto simp: step intro: order.trans less_imp_le)
  qed
qed

lemma blk_victim_bound: "blk_victim bc < BLKCACHE_ENTRIES"
proof -
  have "0 < BLKCACHE_ENTRIES" by (simp add: BLKCACHE_ENTRIES_def)
  then show ?thesis
    by (auto simp: blk_victim_def blk_lru_le dest: first_idx_bound split: option.splits)
qed

text \<open>The slot a fill writes, and what it leaves behind.\<close>

definition blk_target :: "int \<Rightarrow> u32 \<Rightarrow> blkcache \<Rightarrow> nat" where
  "blk_target drive l bc = (case blkcache_find_slot bc drive l of Some i \<Rightarrow> i | None \<Rightarrow> blk_victim bc)"

lemma blk_target_bound: "blk_target drive l bc < BLKCACHE_ENTRIES"
  using blk_victim_bound find_slot_Some by (auto simp: blk_target_def split: option.splits)

lemma blk_fill_ent:
  "bc_ent (blk_fill drive l sec bc) =
     (bc_ent bc)(blk_target drive l bc := \<lparr>be_lba = l, be_drive = drive, be_stamp = bc_stamp bc + 1, be_valid = True, be_data = sec\<rparr>)"
  using find_slot_Some [of bc drive l]
  by (auto simp: blk_fill_def blk_target_def blk_touch_def blk_match_def Let_def fun_eq_iff split: option.splits)

lemma blk_fill_gen [simp]: "bc_gen (blk_fill drive l sec bc) = bc_gen bc"
  by (auto simp: blk_fill_def blk_touch_def Let_def split: option.splits)

lemma blk_target_unique:
  assumes "i < BLKCACHE_ENTRIES" "blk_match bc drive l i" "blk_distinct bc"
  shows "i = blk_target drive l bc"
proof -
  obtain j where j: "blkcache_find_slot bc drive l = Some j"
    using assms(1,2) find_slot_None [of bc drive l] by fastforce
  with find_slot_Some [OF j] assms show ?thesis
    by (auto simp: blk_target_def blk_match_def blk_distinct_def)
qed

lemma blk_fill_distinct:
  assumes "blk_distinct bc"
  shows "blk_distinct (blk_fill drive l sec bc)"
  unfolding blk_distinct_def
proof (intro allI impI)
  fix i j
  assume ij: "i < BLKCACHE_ENTRIES" "j < BLKCACHE_ENTRIES"
    and eq: "be_valid (bc_ent (blk_fill drive l sec bc) i) \<and> be_valid (bc_ent (blk_fill drive l sec bc) j)
      \<and> be_drive (bc_ent (blk_fill drive l sec bc) i) = be_drive (bc_ent (blk_fill drive l sec bc) j)
      \<and> be_lba (bc_ent (blk_fill drive l sec bc) i) = be_lba (bc_ent (blk_fill drive l sec bc) j)"
  let ?t = "blk_target drive l bc"
  have other: "k = ?t"
    if "k < BLKCACHE_ENTRIES" "be_valid (bc_ent bc k)" "be_drive (bc_ent bc k) = drive" "be_lba (bc_ent bc k) = l" for k
    using blk_target_unique [of k bc drive l] that assms by (simp add: blk_match_def)
  show "i = j"
  proof (cases "i = ?t \<or> j = ?t")
    case True
    then show ?thesis using eq other [of i] other [of j] ij by (auto simp: blk_fill_ent split: if_splits)
  next
    case False
    then show ?thesis using eq ij assms by (simp add: blk_fill_ent blk_distinct_def)
  qed
qed

lemma blk_fill_coherent:
  "blk_coherent dk bc \<Longrightarrow> sec = dk drive l \<Longrightarrow> blk_coherent dk (blk_fill drive l sec bc)"
  by (auto simp: blk_coherent_def blk_fill_ent)

lemma blk_fill_all_props:
  "blk_distinct bc \<Longrightarrow> blk_distinct (blk_fill_all drive l secs bc) \<and> bc_gen (blk_fill_all drive l secs bc) = bc_gen bc"
  by (induction drive l secs bc rule: blk_fill_all.induct) (auto simp: blk_fill_distinct)

lemma blk_fill_all_coherent:
  "blk_coherent dk bc \<Longrightarrow> blk_coherent dk (blk_fill_all drive l (disk_sectors dk drive l n) bc)"
  by (induction n arbitrary: l bc) (auto simp: blk_fill_coherent)

lemma sectors_of_disk:
  "disk_ok dk \<Longrightarrow> sectors_of n (disk_read dk drive lba n) = disk_sectors dk drive lba n"
  by (induction n arbitrary: lba) (auto simp: disk_ok_def disk_read_def)

lemma commit_props:
  "blk_distinct bc \<Longrightarrow> blk_distinct (blkcache_commit drive lba count buf gen bc)
     \<and> bc_gen (blkcache_commit drive lba count buf gen bc) = bc_gen bc"
  by (auto simp: blkcache_commit_def blk_fill_all_props split: option.splits)

lemma commit_coherent:
  assumes "blk_coherent dk bc" and "gen = bc_gen bc \<longrightarrow> buf = Some (disk_read dk drive lba (nat count))"
    and "disk_ok dk"
  shows "blk_coherent dk (blkcache_commit drive lba count buf gen bc)"
  using assms
  by (auto simp: blkcache_commit_def sectors_of_disk blk_fill_all_coherent split: option.splits)

lemma invalidate_distinct: "blk_distinct bc \<Longrightarrow> blk_distinct (blkcache_invalidate drive lba count bc)"
  unfolding blk_distinct_def blkcache_invalidate_def by (auto split: if_splits)

text \<open>A write to sectors of a range that does not wrap, followed by the invalidation.\<close>

lemma invalidate_coherent:
  assumes coh: "blk_coherent dk bc"
    and same: "\<And>d l. \<not> (d = drive \<and> lba \<le> l \<and> l < lba + of_int count) \<Longrightarrow> dk' d l = dk d l"
    and "1 \<le> count"
  shows "blk_coherent dk' (blkcache_invalidate drive lba count bc)"
  unfolding blk_coherent_def
proof (intro allI impI)
  fix i
  assume i: "i < BLKCACHE_ENTRIES" and v: "be_valid (bc_ent (blkcache_invalidate drive lba count bc) i)"
  let ?e = "bc_ent bc i"
  have keep: "\<not> (be_drive ?e = drive \<and> lba \<le> be_lba ?e \<and> be_lba ?e < lba + of_int count)"
    and val: "be_valid ?e" and ent: "bc_ent (blkcache_invalidate drive lba count bc) i = ?e"
    using v i assms(3) by (auto simp: blkcache_invalidate_def split: if_splits)
  have "be_data ?e = dk (be_drive ?e) (be_lba ?e)" using coh i val by (simp add: blk_coherent_def)
  then show "be_data (bc_ent (blkcache_invalidate drive lba count bc) i)
      = dk' (be_drive (bc_ent (blkcache_invalidate drive lba count bc) i)) (be_lba (bc_ent (blkcache_invalidate drive lba count bc) i))"
    by (simp add: ent same [OF keep])
qed

section \<open>The read-through interface\<close>

text \<open>
  What a caller of a sector cache relies on: a hit returns the true contents of the range
  it asked for, a miss reports a token, and committing with that token the bytes just read
  from the disk keeps the cache truthful. \<open>read_through\<close> is the client: look up, fall
  back to the device, commit.
\<close>

definition read_through ::
  "('s \<Rightarrow> ('g option + 'b) \<times> 's) \<Rightarrow> ('b \<Rightarrow> 'g option \<Rightarrow> 's \<Rightarrow> 's) \<Rightarrow> 'b option \<Rightarrow> 's \<Rightarrow> 'b option \<times> 's" where
  "read_through look commit fetched s =
     (case look s of
        (Inr b, s') \<Rightarrow> (Some b, s')
      | (Inl g, s') \<Rightarrow> (case fetched of None \<Rightarrow> (None, s') | Some b \<Rightarrow> (Some b, commit b g s')))"

locale sector_cache =
  fixes truthful :: "'s \<Rightarrow> bool"
    and contents :: 'b
    and look :: "'s \<Rightarrow> ('g option + 'b) \<times> 's"
    and commit :: "'b \<Rightarrow> 'g option \<Rightarrow> 's \<Rightarrow> 's"
  assumes hit_true: "truthful s \<Longrightarrow> look s = (Inr b, s') \<Longrightarrow> b = contents \<and> truthful s'"
    and miss_keeps: "truthful s \<Longrightarrow> look s = (Inl g, s') \<Longrightarrow> truthful s'"
    and commit_keeps: "truthful s \<Longrightarrow> truthful (commit contents g s)"
begin

lemma read_through_correct:
  assumes "truthful s" and "fetched = None \<or> fetched = Some contents"
    and "read_through look commit fetched s = (r, s')"
  shows "truthful s' \<and> (r = None \<or> r = Some contents)"
proof (cases "look s")
  case (Pair x s1)
  show ?thesis
  proof (cases x)
    case (Inr b)
    with Pair have l: "look s = (Inr b, s1)" by simp
    with hit_true [OF assms(1) l] assms(3) show ?thesis by (auto simp: read_through_def)
  next
    case (Inl g)
    with Pair have l: "look s = (Inl g, s1)" by simp
    with miss_keeps [OF assms(1) l] assms(2,3) commit_keeps [of s1 g] show ?thesis
      by (auto simp: read_through_def)
  qed
qed

end

definition cache_truthful :: "disk \<Rightarrow> blkcache \<Rightarrow> bool" where
  "cache_truthful dk bc \<longleftrightarrow> blk_coherent dk bc \<and> blk_distinct bc \<and> disk_ok dk"

definition blk_look :: "int \<Rightarrow> u32 \<Rightarrow> int \<Rightarrow> blkcache \<Rightarrow> (u32 option + u8 list) \<times> blkcache" where
  "blk_look drive lba count bc = blkcache_read drive lba count True bc"

definition blk_store :: "int \<Rightarrow> u32 \<Rightarrow> int \<Rightarrow> u8 list \<Rightarrow> u32 option \<Rightarrow> blkcache \<Rightarrow> blkcache" where
  "blk_store drive lba count b g bc =
     (case g of None \<Rightarrow> bc | Some gen \<Rightarrow> blkcache_commit drive lba count (Some b) gen bc)"

lemma blkcache_read_hit:
  assumes "cache_truthful dk bc" and "blkcache_read drive lba count nn bc = (Inr b, bc')"
  shows "b = disk_read dk drive lba (nat count) \<and> cache_truthful dk bc'"
proof -
  from assms(2) have all: "\<forall>s < nat count. blkcache_find_slot bc drive (lba + of_nat s) \<noteq> None"
    and out: "blk_copy_out drive lba (nat count) bc = (bc', b)"
    by (auto simp: blkcache_read_def split: if_splits prod.splits)
  have "b = disk_read dk drive lba (nat count)"
    using copy_out_data [OF coherent_range all, of dk] assms(1) out by (simp add: cache_truthful_def)
  moreover have "same_but_stamps bc' bc"
    using copy_out_same [of drive lba "nat count" bc] out by simp
  ultimately show ?thesis
    using assms(1) by (simp add: cache_truthful_def same_but_stamps_coherent same_but_stamps_distinct)
qed

lemma blkcache_read_miss: "blkcache_read drive lba count nn bc = (Inl g, bc') \<Longrightarrow> bc' = bc"
  by (auto simp: blkcache_read_def split: if_splits prod.splits)

interpretation blkc: sector_cache "cache_truthful dk" "disk_read dk drive lba (nat count)"
  "blk_look drive lba count" "blk_store drive lba count"
  for dk drive lba count
proof unfold_locales
  fix s s' :: blkcache and b
  assume "cache_truthful dk s" "blk_look drive lba count s = (Inr b, s')"
  then show "b = disk_read dk drive lba (nat count) \<and> cache_truthful dk s'"
    unfolding blk_look_def by (rule blkcache_read_hit)
next
  fix s s' :: blkcache and g
  assume "cache_truthful dk s" "blk_look drive lba count s = (Inl g, s')"
  then show "cache_truthful dk s'"
    unfolding blk_look_def by (auto dest: blkcache_read_miss)
next
  fix s :: blkcache and g
  assume "cache_truthful dk s"
  then show "cache_truthful dk (blk_store drive lba count (disk_read dk drive lba (nat count)) g s)"
    by (auto simp: cache_truthful_def blk_store_def commit_coherent commit_props split: option.splits)
qed

section \<open>Readers and writers interleaved\<close>

text \<open>
  What the ATA layer does on several cores, as atomic steps. A reader that missed has a
  pending read (its range and the generation it saw); the disk transfer gives it the
  bytes of the disk at that moment, and its commit follows later. A writer stores to the
  disk first and invalidates afterwards: its range is outstanding in between, and a
  transfer or a commit may fall there. \<open>bs_writes\<close> counts invalidations; the 32-bit
  generation of the code is that count modulo \<open>2 ^ 32\<close>.
\<close>

record blk_pending =
  pe_drive :: int
  pe_lba :: u32
  pe_count :: nat
  pe_gen :: u32
  pe_born :: nat
  pe_bytes :: "u8 list option"

record blk_sys =
  bs_disk :: disk
  bs_cache :: blkcache
  bs_readers :: "nat \<Rightarrow> blk_pending option"
  bs_outstanding :: "nat \<Rightarrow> (int \<times> u32 \<times> int) option"
  bs_writes :: nat

definition in_range :: "int \<times> u32 \<times> int \<Rightarrow> int \<Rightarrow> u32 \<Rightarrow> bool" where
  "in_range r d l = (case r of (drive, lba, count) \<Rightarrow> d = drive \<and> lba \<le> l \<and> l < lba + of_int count)"

definition outstanding :: "blk_sys \<Rightarrow> int \<Rightarrow> u32 \<Rightarrow> bool" where
  "outstanding s d l \<longleftrightarrow> (\<exists>w r. bs_outstanding s w = Some r \<and> in_range r d l)"

inductive blk_step :: "blk_sys \<Rightarrow> blk_sys \<Rightarrow> bool" where
  hit: "blkcache_read drive lba (int n) True (bs_cache s) = (Inr out, bc') \<Longrightarrow>
     blk_step s (s\<lparr>bs_cache := bc'\<rparr>)"
| miss: "blkcache_read drive lba (int n) True (bs_cache s) = (Inl (Some g), bc') \<Longrightarrow>
     blk_step s (s\<lparr>bs_cache := bc', bs_readers := (bs_readers s)(t \<mapsto>
       \<lparr>pe_drive = drive, pe_lba = lba, pe_count = n, pe_gen = g, pe_born = bs_writes s, pe_bytes = None\<rparr>)\<rparr>)"
| transfer: "bs_readers s t = Some p \<Longrightarrow>
     blk_step s (s\<lparr>bs_readers := (bs_readers s)(t \<mapsto>
       p\<lparr>pe_bytes := Some (disk_read (bs_disk s) (pe_drive p) (pe_lba p) (pe_count p))\<rparr>)\<rparr>)"
| commit: "bs_readers s t = Some p \<Longrightarrow> pe_bytes p = Some b \<Longrightarrow>
     blk_step s (s\<lparr>bs_cache := blkcache_commit (pe_drive p) (pe_lba p) (int (pe_count p)) (Some b) (pe_gen p) (bs_cache s),
       bs_readers := (bs_readers s)(t := None)\<rparr>)"
| disk_write: "bs_outstanding s w = None \<Longrightarrow> 1 \<le> count \<Longrightarrow> disk_ok dk' \<Longrightarrow>
     (\<And>d l. \<not> in_range (drive, lba, count) d l \<Longrightarrow> dk' d l = bs_disk s d l) \<Longrightarrow>
     blk_step s (s\<lparr>bs_disk := dk', bs_outstanding := (bs_outstanding s)(w \<mapsto> (drive, lba, count))\<rparr>)"
| invalidate: "bs_outstanding s w = Some (drive, lba, count) \<Longrightarrow>
     blk_step s (s\<lparr>bs_cache := blkcache_invalidate drive lba count (bs_cache s),
       bs_outstanding := (bs_outstanding s)(w := None), bs_writes := Suc (bs_writes s)\<rparr>)"

inductive blk_reach :: "disk \<Rightarrow> blk_sys \<Rightarrow> bool" for dk :: disk where
  start: "disk_ok dk \<Longrightarrow> blk_reach dk \<lparr>bs_disk = dk, bs_cache = blkcache_zero,
     bs_readers = (\<lambda>_. None), bs_outstanding = (\<lambda>_. None), bs_writes = 0\<rparr>"
| step: "blk_reach dk s \<Longrightarrow> blk_step s t \<Longrightarrow> blk_reach dk t"

text \<open>
  The invariant: a valid slot may differ from the disk only inside an outstanding write,
  and so may the bytes of a pending reader of the current generation.
\<close>

definition bytes_ok :: "blk_sys \<Rightarrow> blk_pending \<Rightarrow> u8 list \<Rightarrow> bool" where
  "bytes_ok s p b \<longleftrightarrow> (\<exists>view. disk_ok view \<and> b = disk_read view (pe_drive p) (pe_lba p) (pe_count p)
     \<and> (\<forall>d l. outstanding s d l \<or> view d l = bs_disk s d l))"

definition blk_inv :: "blk_sys \<Rightarrow> bool" where
  "blk_inv s \<longleftrightarrow>
     disk_ok (bs_disk s) \<and> blk_distinct (bs_cache s) \<and> bc_gen (bs_cache s) = of_nat (bs_writes s)
     \<and> (\<forall>w drive lba count. bs_outstanding s w = Some (drive, lba, count) \<longrightarrow> 1 \<le> count)
     \<and> (\<forall>i < BLKCACHE_ENTRIES. be_valid (bc_ent (bs_cache s) i) \<longrightarrow>
          outstanding s (be_drive (bc_ent (bs_cache s) i)) (be_lba (bc_ent (bs_cache s) i))
          \<or> be_data (bc_ent (bs_cache s) i) = bs_disk s (be_drive (bc_ent (bs_cache s) i)) (be_lba (bc_ent (bs_cache s) i)))
     \<and> (\<forall>t p. bs_readers s t = Some p \<longrightarrow> pe_gen p = of_nat (pe_born p) \<and> pe_born p \<le> bs_writes s
          \<and> (\<forall>b. pe_bytes p = Some b \<and> pe_born p = bs_writes s \<longrightarrow> bytes_ok s p b))"

lemma fill_all_entries:
  assumes "\<And>st l. Q \<lparr>be_lba = l, be_drive = drive, be_stamp = st, be_valid = True, be_data = view drive l\<rparr>"
    and "\<forall>i < BLKCACHE_ENTRIES. Q (bc_ent bc i)"
  shows "\<forall>i < BLKCACHE_ENTRIES. Q (bc_ent (blk_fill_all drive l (disk_sectors view drive l n) bc) i)"
  using assms(2)
proof (induction n arbitrary: l bc)
  case (Suc n)
  have "\<forall>i < BLKCACHE_ENTRIES. Q (bc_ent (blk_fill drive l (view drive l) bc) i)"
    using Suc.prems assms(1) by (simp add: blk_fill_ent)
  then show ?case using Suc.IH by simp
qed simp

definition slot_ok :: "blk_sys \<Rightarrow> blk_entry \<Rightarrow> bool" where
  "slot_ok s e \<longleftrightarrow> be_valid e \<longrightarrow>
     outstanding s (be_drive e) (be_lba e) \<or> be_data e = bs_disk s (be_drive e) (be_lba e)"

lemma blk_inv_slots: "blk_inv s \<Longrightarrow> \<forall>i < BLKCACHE_ENTRIES. slot_ok s (bc_ent (bs_cache s) i)"
  by (simp add: blk_inv_def slot_ok_def)

lemma blk_invI:
  assumes "disk_ok (bs_disk s)" "blk_distinct (bs_cache s)" "bc_gen (bs_cache s) = of_nat (bs_writes s)"
    and "\<And>w drive lba count. bs_outstanding s w = Some (drive, lba, count) \<Longrightarrow> 1 \<le> count"
    and "\<forall>i < BLKCACHE_ENTRIES. slot_ok s (bc_ent (bs_cache s) i)"
    and "\<And>t p. bs_readers s t = Some p \<Longrightarrow> pe_gen p = of_nat (pe_born p) \<and> pe_born p \<le> bs_writes s
          \<and> (\<forall>b. pe_bytes p = Some b \<and> pe_born p = bs_writes s \<longrightarrow> bytes_ok s p b)"
  shows "blk_inv s"
  unfolding blk_inv_def using assms by (simp add: slot_ok_def)

lemma blk_invD:
  assumes "blk_inv s"
  shows "disk_ok (bs_disk s)" "blk_distinct (bs_cache s)" "bc_gen (bs_cache s) = of_nat (bs_writes s)"
    and "bs_outstanding s w = Some (drive, lba, count) \<Longrightarrow> 1 \<le> count"
    and "bs_readers s t = Some p \<Longrightarrow> pe_gen p = of_nat (pe_born p) \<and> pe_born p \<le> bs_writes s
          \<and> (\<forall>b. pe_bytes p = Some b \<and> pe_born p = bs_writes s \<longrightarrow> bytes_ok s p b)"
  using assms unfolding blk_inv_def by blast+

lemma outstanding_simps [simp]:
  "outstanding (s\<lparr>bs_cache := c\<rparr>) = outstanding s"
  "outstanding (s\<lparr>bs_readers := r\<rparr>) = outstanding s"
  by (auto simp: outstanding_def fun_eq_iff)

lemma bytes_ok_simps [simp]:
  "bytes_ok (s\<lparr>bs_cache := c\<rparr>) = bytes_ok s"
  "bytes_ok (s\<lparr>bs_readers := r\<rparr>) = bytes_ok s"
  "slot_ok (s\<lparr>bs_cache := c\<rparr>) = slot_ok s"
  "slot_ok (s\<lparr>bs_readers := r\<rparr>) = slot_ok s"
  by (auto simp: bytes_ok_def slot_ok_def fun_eq_iff)

lemma blk_inv_cache:
  assumes "blk_inv s" "same_but_stamps bc (bs_cache s)"
  shows "blk_inv (s\<lparr>bs_cache := bc\<rparr>)"
  using assms same_but_stamps_distinct [OF assms(2)]
  by (simp add: blk_inv_def same_but_stamps_def)

lemma blk_inv_commit:
  assumes inv: "blk_inv s" and p: "bs_readers s t = Some p" "pe_bytes p = Some b"
    and few: "bs_writes s < 2 ^ 32"
  shows "blk_inv (s\<lparr>bs_cache := blkcache_commit (pe_drive p) (pe_lba p) (int (pe_count p)) (Some b) (pe_gen p) (bs_cache s),
       bs_readers := (bs_readers s)(t := None)\<rparr>)" (is "blk_inv ?s")
proof (rule blk_invI)
  note D = blk_invD [OF inv]
  show "disk_ok (bs_disk ?s)" using D(1) by simp
  show "blk_distinct (bs_cache ?s)" "bc_gen (bs_cache ?s) = of_nat (bs_writes ?s)"
    using D(2,3) commit_props by simp_all
  show "1 \<le> count" if "bs_outstanding ?s w = Some (drive, lba, count)" for w drive lba count
    using D(4) that by simp
  show "pe_gen q = of_nat (pe_born q) \<and> pe_born q \<le> bs_writes ?s
      \<and> (\<forall>b. pe_bytes q = Some b \<and> pe_born q = bs_writes ?s \<longrightarrow> bytes_ok ?s q b)"
    if "bs_readers ?s u = Some q" for u q
    using D(5) [of u q] that by (auto split: if_splits)
  show "\<forall>i < BLKCACHE_ENTRIES. slot_ok ?s (bc_ent (bs_cache ?s) i)"
  proof (cases "pe_gen p = bc_gen (bs_cache s) \<and> 1 \<le> pe_count p")
    case True
    from D(5) [OF p(1)] have born: "pe_gen p = of_nat (pe_born p)" "pe_born p \<le> bs_writes s" by auto
    then have "(of_nat (pe_born p) :: u32) = of_nat (bs_writes s)" using True D(3) by simp
    then have "unat (of_nat (pe_born p) :: u32) = unat (of_nat (bs_writes s) :: u32)" by simp
    then have "pe_born p mod 2 ^ 32 = bs_writes s mod 2 ^ 32" by (simp add: unat_of_nat)
    then have "pe_born p = bs_writes s" using few born(2) by simp
    with D(5) [OF p(1)] p(2) obtain view where view: "disk_ok view"
      "b = disk_read view (pe_drive p) (pe_lba p) (pe_count p)"
      "\<forall>d l. outstanding s d l \<or> view d l = bs_disk s d l"
      unfolding bytes_ok_def by blast
    have "\<forall>i < BLKCACHE_ENTRIES. slot_ok s (bc_ent (blk_fill_all (pe_drive p) (pe_lba p)
        (disk_sectors view (pe_drive p) (pe_lba p) (pe_count p)) (bs_cache s)) i)"
      by (rule fill_all_entries) (use view(3) blk_inv_slots [OF inv] in \<open>auto simp: slot_ok_def\<close>)
    then show ?thesis using True view(1,2) by (simp add: blkcache_commit_def sectors_of_disk)
  next
    case False
    then have "blkcache_commit (pe_drive p) (pe_lba p) (int (pe_count p)) (Some b) (pe_gen p) (bs_cache s) = bs_cache s"
      by (auto simp: blkcache_commit_def)
    then show ?thesis using blk_inv_slots [OF inv] by simp
  qed
qed

lemma blk_inv_disk_write:
  assumes inv: "blk_inv s" and w: "bs_outstanding s w = None" "1 \<le> count" "disk_ok dk'"
    and same: "\<And>d l. \<not> in_range (drive, lba, count) d l \<Longrightarrow> dk' d l = bs_disk s d l"
  shows "blk_inv (s\<lparr>bs_disk := dk', bs_outstanding := (bs_outstanding s)(w \<mapsto> (drive, lba, count))\<rparr>)"
    (is "blk_inv ?s")
proof (rule blk_invI)
  note D = blk_invD [OF inv]
  have out: "outstanding ?s d l \<longleftrightarrow> outstanding s d l \<or> in_range (drive, lba, count) d l" for d l
    using w(1) by (auto simp: outstanding_def) (metis option.distinct(1))
  show "disk_ok (bs_disk ?s)" "blk_distinct (bs_cache ?s)" "bc_gen (bs_cache ?s) = of_nat (bs_writes ?s)"
    using D(2,3) w(3) by simp_all
  show "1 \<le> cnt" if "bs_outstanding ?s v = Some (dr, lb, cnt)" for v dr lb cnt
    using D(4) [of v dr lb cnt] that w(2) by (auto split: if_splits)
  show "\<forall>i < BLKCACHE_ENTRIES. slot_ok ?s (bc_ent (bs_cache ?s) i)"
    using blk_inv_slots [OF inv] unfolding slot_ok_def out by simp (metis same)
  have bytes: "bytes_ok s p b \<Longrightarrow> bytes_ok ?s p b" for p b
    unfolding bytes_ok_def out using same by (auto; metis)
  show "pe_gen p = of_nat (pe_born p) \<and> pe_born p \<le> bs_writes ?s
      \<and> (\<forall>b. pe_bytes p = Some b \<and> pe_born p = bs_writes ?s \<longrightarrow> bytes_ok ?s p b)"
    if "bs_readers ?s t = Some p" for t p
    using D(5) [of t p] that bytes by simp
qed

lemma blk_inv_invalidate:
  assumes inv: "blk_inv s" and w: "bs_outstanding s w = Some (drive, lba, count)"
  shows "blk_inv (s\<lparr>bs_cache := blkcache_invalidate drive lba count (bs_cache s),
       bs_outstanding := (bs_outstanding s)(w := None), bs_writes := Suc (bs_writes s)\<rparr>)" (is "blk_inv ?s")
proof (rule blk_invI)
  note D = blk_invD [OF inv]
  have pos: "1 \<le> count" using D(4) w by blast
  have out: "outstanding s d l \<Longrightarrow> outstanding ?s d l \<or> in_range (drive, lba, count) d l" for d l
    using w unfolding outstanding_def by simp (metis option.inject)
  show "disk_ok (bs_disk ?s)" "blk_distinct (bs_cache ?s)"
    using D(1,2) invalidate_distinct by simp_all
  show "bc_gen (bs_cache ?s) = of_nat (bs_writes ?s)"
    using D(3) pos by (simp add: blkcache_invalidate_def)
  show "1 \<le> cnt" if "bs_outstanding ?s v = Some (dr, lb, cnt)" for v dr lb cnt
    using D(4) [of v dr lb cnt] that by (auto split: if_splits)
  show "\<forall>i < BLKCACHE_ENTRIES. slot_ok ?s (bc_ent (bs_cache ?s) i)"
  proof (intro allI impI)
    fix i assume i: "i < BLKCACHE_ENTRIES"
    let ?e = "bc_ent (bs_cache s) i"
    from blk_inv_slots [OF inv] i have ok: "slot_ok s ?e" by blast
    show "slot_ok ?s (bc_ent (bs_cache ?s) i)"
      using ok out [of "be_drive ?e" "be_lba ?e"] pos i
      by (auto simp: slot_ok_def blkcache_invalidate_def in_range_def)
  qed
  show "pe_gen p = of_nat (pe_born p) \<and> pe_born p \<le> bs_writes ?s
      \<and> (\<forall>b. pe_bytes p = Some b \<and> pe_born p = bs_writes ?s \<longrightarrow> bytes_ok ?s p b)"
    if "bs_readers ?s t = Some p" for t p
    using D(5) [of t p] that by simp
qed

lemma blk_step_inv: "blk_step s t \<Longrightarrow> blk_inv s \<Longrightarrow> bs_writes s < 2 ^ 32 \<Longrightarrow> blk_inv t"
proof (induction rule: blk_step.induct)
  case (hit drive lba n s out bc')
  have "same_but_stamps bc' (bs_cache s)"
    using hit.hyps copy_out_same [of drive lba n "bs_cache s"]
    by (auto simp: blkcache_read_def split: if_splits prod.splits)
  with hit.prems(1) show ?case by (rule blk_inv_cache)
next
  case (miss drive lba n s g bc' t)
  have "bc' = bs_cache s" "g = bc_gen (bs_cache s)"
    using miss.hyps by (auto simp: blkcache_read_def split: if_splits prod.splits)
  with miss.prems(1) show ?case by (auto simp: blk_inv_def)
next
  case (transfer s t p)
  have "bytes_ok s p' (disk_read (bs_disk s) (pe_drive p') (pe_lba p') (pe_count p'))" for p'
    using transfer.prems(1) by (auto simp: bytes_ok_def blk_inv_def)
  then have "bytes_ok s (p\<lparr>pe_bytes := x\<rparr>) (disk_read (bs_disk s) (pe_drive p) (pe_lba p) (pe_count p))" for x
    by (metis blk_pending.select_convs(1,2,3) blk_pending.surjective blk_pending.update_convs(6))
  with transfer show ?case by (auto simp: blk_inv_def)
next
  case (commit s t p b)
  show ?case by (rule blk_inv_commit [OF commit.prems(1) commit.hyps commit.prems(2)])
next
  case (disk_write s w count dk' drive lba)
  show ?case by (rule blk_inv_disk_write [OF disk_write.prems(1) disk_write.hyps])
next
  case (invalidate s w drive lba count)
  show ?case by (rule blk_inv_invalidate [OF invalidate.prems(1) invalidate.hyps])
qed

lemma blk_step_writes: "blk_step s t \<Longrightarrow> bs_writes s \<le> bs_writes t"
  by (induction rule: blk_step.induct) auto

lemma blk_reach_inv: "blk_reach dk s \<Longrightarrow> bs_writes s < 2 ^ 32 \<Longrightarrow> blk_inv s"
proof (induction rule: blk_reach.induct)
  case start
  then show ?case by (simp add: blk_inv_def blkcache_zero_def blk_distinct_def)
next
  case (step s t)
  then have "bs_writes s < 2 ^ 32" using blk_step_writes by fastforce
  with step show ?case by (blast intro: blk_step_inv)
qed

text \<open>C1: On any interleaving of cache hits, misses, disk transfers, commits, disk writes
  and invalidations by any number of tasks, a cache hit returns exactly what the disk holds,
  unless one of its sectors is being written at that moment.\<close>

theorem blkcache_never_stale:
  assumes "blk_reach dk s" and "bs_writes s < 2 ^ 32"
    and "blkcache_read drive lba count nn (bs_cache s) = (Inr out, bc')"
    and "\<And>k. k < nat count \<Longrightarrow> \<not> outstanding s drive (lba + of_nat k)"
  shows "out = disk_read (bs_disk s) drive lba (nat count)"
proof -
  have inv: "blk_inv s" using assms(1,2) by (rule blk_reach_inv)
  from assms(3) have all: "\<forall>k < nat count. blkcache_find_slot (bs_cache s) drive (lba + of_nat k) \<noteq> None"
    and out: "blk_copy_out drive lba (nat count) (bs_cache s) = (bc', out)"
    by (auto simp: blkcache_read_def split: if_splits prod.splits)
  have "range_coherent (bs_disk s) (bs_cache s) drive lba (nat count)"
    using blk_inv_slots [OF inv] assms(4) by (auto simp: range_coherent_def slot_ok_def blk_match_def)
  from copy_out_data [OF this all] out show ?thesis by simp
qed

lemma cold_cache_hits_after_commit:
  "blkcache_read drive lba 1 True (blkcache_commit drive lba 1 (Some b) 0 blkcache_zero)
     = (Inr (take BLKCACHE_SECTOR b), blk_touch 0 (blkcache_commit drive lba 1 (Some b) 0 blkcache_zero))"
proof -
  let ?c = "blkcache_commit drive lba 1 (Some b) 0 blkcache_zero"
  have miss: "blkcache_find_slot blkcache_zero drive lba = None"
    by (simp add: blkcache_find_slot_def first_idx_None blk_match_def blkcache_zero_def)
  have vic: "blk_victim blkcache_zero = 0"
    by (simp add: blk_victim_def blkcache_zero_def BLKCACHE_ENTRIES_def first_idx.simps [of _ 0])
  have z: "bc_gen blkcache_zero = 0" "bc_stamp blkcache_zero = 0" by (simp_all add: blkcache_zero_def)
  have ent: "bc_ent ?c 0 = \<lparr>be_lba = lba, be_drive = drive, be_stamp = 1, be_valid = True, be_data = take BLKCACHE_SECTOR b\<rparr>"
    by (simp add: blkcache_commit_def blk_fill_def miss vic Let_def blk_touch_def z)
  then have hit: "blkcache_find_slot ?c drive lba = Some 0"
    by (simp add: blkcache_find_slot_def BLKCACHE_ENTRIES_def first_idx.simps [of _ 0] blk_match_def)
  show ?thesis by (simp add: blkcache_read_def hit ent)
qed

theorem blkcache_never_stale_witness:
  "\<exists>s out bc'. blk_reach (\<lambda>_ _. replicate BLKCACHE_SECTOR 3) s
     \<and> blkcache_read 0 7 1 True (bs_cache s) = (Inr out, bc')
     \<and> out = disk_read (bs_disk s) 0 7 (nat 1)"
proof -
  let ?dk = "\<lambda>_ _. replicate BLKCACHE_SECTOR 3 :: sector"
  let ?b = "disk_read ?dk 0 7 1"
  let ?p = "\<lparr>pe_drive = 0, pe_lba = 7, pe_count = 1, pe_gen = 0, pe_born = 0, pe_bytes = None\<rparr>"
  let ?s0 = "\<lparr>bs_disk = ?dk, bs_cache = blkcache_zero, bs_readers = (\<lambda>_. None), bs_outstanding = (\<lambda>_. None), bs_writes = 0\<rparr>"
  let ?s1 = "?s0\<lparr>bs_readers := [0 \<mapsto> ?p]\<rparr>"
  let ?s2 = "?s0\<lparr>bs_readers := [0 \<mapsto> ?p\<lparr>pe_bytes := Some ?b\<rparr>]\<rparr>"
  let ?s3 = "?s0\<lparr>bs_cache := blkcache_commit 0 7 1 (Some ?b) 0 blkcache_zero, bs_readers := (\<lambda>_. None)\<rparr>"
  have miss: "blkcache_read 0 7 (int 1) True blkcache_zero = (Inl (Some 0), blkcache_zero)"
    by (simp add: blkcache_read_def blkcache_find_slot_def first_idx_None blk_match_def blkcache_zero_def)
  have r0: "blk_reach ?dk ?s0" by (rule blk_reach.start) (simp add: disk_ok_def)
  have "blk_step ?s0 ?s1" using blk_step.miss [of 0 7 1 ?s0 0 blkcache_zero 0] miss by simp
  with r0 have r1: "blk_reach ?dk ?s1" by (rule blk_reach.step)
  have "blk_step ?s1 ?s2" using blk_step.transfer [of ?s1 0 ?p] by simp
  with r1 have r2: "blk_reach ?dk ?s2" by (rule blk_reach.step)
  have "blk_step ?s2 ?s3" using blk_step.commit [of ?s2 0 "?p\<lparr>pe_bytes := Some ?b\<rparr>" ?b] by simp
  with r2 have r3: "blk_reach ?dk ?s3" by (rule blk_reach.step)
  have hit: "blkcache_read 0 7 1 True (bs_cache ?s3) = (Inr (take BLKCACHE_SECTOR ?b), blk_touch 0 (bs_cache ?s3))"
    by (simp add: cold_cache_hits_after_commit)
  have "take BLKCACHE_SECTOR ?b = disk_read (bs_disk ?s3) 0 7 (nat 1)"
    by (rule blkcache_never_stale [OF r3 _ hit]) (simp_all add: outstanding_def)
  with r3 hit show ?thesis by blast
qed

end
