(* ===== verification/Ata.thy ===== *)
theory Ata
  imports Blkcache
begin

text \<open>
  The cached ATA entry points of \<open>src/drivers/ata.c\<close>: single- and multi-sector reads and
  writes over the sector cache, with the sequential readahead. The port-level transfer
  of a batch (\<open>ata_read_sectors_drive_io\<close>, \<open>ata_write_sectors_drive_io\<close> and their DMA
  variants talk to the IDE controller) is hardware and enters as a parameter: \<open>rd\<close> gives
  the bytes of a successful read, \<open>wr\<close> the success of a write and the disk it leaves.
  Each wrapper is modelled as one uninterrupted run on one core; the interleavings are
  the step relation of theory Blkcache.
\<close>

definition ATA_DRIVE_COUNT :: int where
  "ATA_DRIVE_COUNT = 4"

definition BLOCK_BATCH_MAX :: int where
  "BLOCK_BATCH_MAX = 128"

definition RA_SECTORS :: int where
  "RA_SECTORS = 64"

definition RA_SMALL_MAX :: int where
  "RA_SMALL_MAX = 16"

definition RA_MAX_STREAMS :: int where
  "RA_MAX_STREAMS = 16"

definition block_batch_limit :: "u32 \<Rightarrow> int \<Rightarrow> int" where
  "block_batch_limit lba count =
     (let c1 = (if count > BLOCK_BATCH_MAX then BLOCK_BATCH_MAX else count);
          boundary = BLOCK_BATCH_MAX - uint (lba AND 127);
          c2 = (if c1 > boundary then boundary else c1)
      in if c2 < 1 then 1 else c2)"

record ra_stream =
  ra_prev_end :: u32
  ra_streak :: u32

record ata =
  at_disk :: disk
  at_cache :: blkcache
  at_streams :: "int \<Rightarrow> ra_stream"
  at_ra_fills :: u32

type_synonym ata_rd = "int \<Rightarrow> u32 \<Rightarrow> int \<Rightarrow> disk \<Rightarrow> u8 list option"
type_synonym ata_wr = "int \<Rightarrow> u32 \<Rightarrow> int \<Rightarrow> u8 list \<Rightarrow> disk \<Rightarrow> bool \<times> disk"

definition ata_ra_note :: "int \<Rightarrow> u32 \<Rightarrow> int \<Rightarrow> ata \<Rightarrow> ata" where
  "ata_ra_note drive lba count a =
     (if drive < 0 \<or> drive \<ge> RA_MAX_STREAMS \<or> count < 1 then a
      else let st = at_streams a drive in
        a\<lparr>at_streams := (at_streams a)(drive :=
           \<lparr>ra_prev_end = lba + of_int count,
            ra_streak = (if lba = ra_prev_end st then ra_streak st + 1 else 1)\<rparr>)\<rparr>)"

definition ata_ra_maybe_prefetch :: "ata_rd \<Rightarrow> int \<Rightarrow> u32 \<Rightarrow> int \<Rightarrow> u32 \<Rightarrow> ata \<Rightarrow> ata" where
  "ata_ra_maybe_prefetch rd drive lba count gen a =
     (if drive < 0 \<or> drive \<ge> RA_MAX_STREAMS then a
      else if count < 1 \<or> count > RA_SMALL_MAX then a
      else if ra_streak (at_streams a drive) < 2 then a
      else
        (let start = lba + of_int count;
             n = block_batch_limit start RA_SECTORS
         in if n < 1 then a
            else case rd drive start n (at_disk a) of
                   None \<Rightarrow> a
                 | Some b \<Rightarrow>
                     a\<lparr>at_ra_fills := at_ra_fills a + 1,
                       at_cache := blkcache_commit drive start n (Some b) gen (at_cache a)\<rparr>))"

text \<open>Single-sector read: \<open>Some b\<close> is return value 0 with \<open>b\<close> stored, \<open>None\<close> a failure.\<close>

definition ata_read_sector_drive :: "ata_rd \<Rightarrow> int \<Rightarrow> u32 \<Rightarrow> ata \<Rightarrow> u8 list option \<times> ata" where
  "ata_read_sector_drive rd drive lba a =
     (if drive < 0 \<or> drive \<ge> ATA_DRIVE_COUNT then (None, a)
      else
        let (r, c) = read_through (blk_look drive lba 1) (blk_store drive lba 1)
                       (rd drive lba 1 (at_disk a)) (at_cache a)
        in (r, a\<lparr>at_cache := c\<rparr>))"

definition ata_read_sectors_drive :: "ata_rd \<Rightarrow> int \<Rightarrow> u32 \<Rightarrow> int \<Rightarrow> ata \<Rightarrow> u8 list option \<times> ata" where
  "ata_read_sectors_drive rd drive lba count0 a0 =
     (if drive < 0 \<or> drive \<ge> ATA_DRIVE_COUNT then (None, a0)
      else if count0 < 1 then (None, a0)
      else
        (let count = block_batch_limit lba count0;
             a = ata_ra_note drive lba count a0
         in case blkcache_read drive lba count True (at_cache a) of
              (Inr b, c) \<Rightarrow> (Some b, a\<lparr>at_cache := c\<rparr>)
            | (Inl None, c) \<Rightarrow> (rd drive lba count (at_disk a), a\<lparr>at_cache := c\<rparr>)
            | (Inl (Some gen), c) \<Rightarrow>
                (case rd drive lba count (at_disk a) of
                   None \<Rightarrow> (None, a\<lparr>at_cache := c\<rparr>)
                 | Some b \<Rightarrow>
                     let a1 = a\<lparr>at_cache := blkcache_commit drive lba count (Some b) gen c\<rparr>
                     in (Some b, ata_ra_maybe_prefetch rd drive lba count gen a1))))"

definition ata_write_sectors_drive :: "ata_wr \<Rightarrow> int \<Rightarrow> u32 \<Rightarrow> int \<Rightarrow> u8 list \<Rightarrow> ata \<Rightarrow> bool \<times> ata" where
  "ata_write_sectors_drive wr drive lba count b a =
     (if drive < 0 \<or> drive \<ge> ATA_DRIVE_COUNT then (False, a)
      else
        (let (ok, dk) = wr drive lba count b (at_disk a);
             a1 = a\<lparr>at_disk := dk\<rparr>
         in (ok, if ok then a1\<lparr>at_cache := blkcache_invalidate drive lba count (at_cache a1)\<rparr> else a1)))"

definition ata_write_sector_drive :: "ata_wr \<Rightarrow> int \<Rightarrow> u32 \<Rightarrow> u8 list \<Rightarrow> ata \<Rightarrow> bool \<times> ata" where
  "ata_write_sector_drive wr drive lba b a =
     (if drive < 0 \<or> drive \<ge> ATA_DRIVE_COUNT then (False, a)
      else
        (let (ok, dk) = wr drive lba 1 b (at_disk a);
             a1 = a\<lparr>at_disk := dk\<rparr>
         in (ok, if ok then a1\<lparr>at_cache := blkcache_invalidate drive lba 1 (at_cache a1)\<rparr> else a1)))"

section \<open>What the transfers promise\<close>

definition rd_faithful :: "ata_rd \<Rightarrow> bool" where
  "rd_faithful rd \<longleftrightarrow> (\<forall>drive lba n dk b. rd drive lba n dk = Some b \<longrightarrow> b = disk_read dk drive lba (nat n))"

text \<open>A write touches nothing outside its range, keeps sectors 512 bytes long, and a write
  of no sectors writes nothing. Nothing is said about what a failed write did.\<close>

definition wr_in_range :: "ata_wr \<Rightarrow> bool" where
  "wr_in_range wr \<longleftrightarrow> (\<forall>drive lba n b dk ok dk'. wr drive lba n b dk = (ok, dk') \<longrightarrow>
     (ok \<longrightarrow> 1 \<le> n) \<and> (disk_ok dk \<longrightarrow> disk_ok dk')
     \<and> (\<forall>d l. \<not> in_range (drive, lba, n) d l \<longrightarrow> dk' d l = dk d l))"

definition ata_ok :: "ata \<Rightarrow> bool" where
  "ata_ok a \<longleftrightarrow> cache_truthful (at_disk a) (at_cache a)"

lemma block_batch_limit_range: "1 \<le> block_batch_limit lba count \<and> block_batch_limit lba count \<le> BLOCK_BATCH_MAX"
  by (auto simp: block_batch_limit_def Let_def BLOCK_BATCH_MAX_def)

lemma block_batch_limit_le: "1 \<le> count \<Longrightarrow> block_batch_limit lba count \<le> count"
  by (auto simp: block_batch_limit_def Let_def BLOCK_BATCH_MAX_def)

text \<open>A batch never crosses a 128-sector boundary.\<close>

lemma block_batch_limit_boundary:
  "uint (lba AND 127) + block_batch_limit lba count \<le> BLOCK_BATCH_MAX"
proof -
  have "(lba AND 127) \<le> 127" by (rule word_and_le1)
  then have "uint (lba AND 127) \<le> 127" by (simp add: word_le_def)
  then show ?thesis by (auto simp: block_batch_limit_def Let_def BLOCK_BATCH_MAX_def)
qed

lemma ra_note_simps [simp]:
  "at_disk (ata_ra_note drive lba count a) = at_disk a"
  "at_cache (ata_ra_note drive lba count a) = at_cache a"
  "ata_ok (ata_ra_note drive lba count a) = ata_ok a"
  by (simp_all add: ata_ra_note_def ata_ok_def Let_def)

lemma commit_truthful:
  "cache_truthful dk bc \<Longrightarrow> cache_truthful dk (blkcache_commit drive lba n (Some (disk_read dk drive lba (nat n))) gen bc)"
  by (simp add: cache_truthful_def commit_coherent commit_props)

lemma prefetch_ok:
  assumes "rd_faithful rd" and "ata_ok a"
  shows "ata_ok (ata_ra_maybe_prefetch rd drive lba count gen a)
     \<and> at_disk (ata_ra_maybe_prefetch rd drive lba count gen a) = at_disk a"
proof -
  let ?s = "lba + word_of_int count"
  let ?n = "block_batch_limit ?s RA_SECTORS"
  show ?thesis
  proof (cases "rd drive ?s ?n (at_disk a)")
    case None
    then show ?thesis using assms(2) by (simp add: ata_ra_maybe_prefetch_def Let_def)
  next
    case (Some b)
    then have "b = disk_read (at_disk a) drive ?s (nat ?n)" using assms(1) by (auto simp: rd_faithful_def)
    then show ?thesis using Some assms(2)
      by (simp add: ata_ra_maybe_prefetch_def Let_def ata_ok_def commit_truthful)
  qed
qed

lemma ata_read_sector_drive_ok:
  assumes "rd_faithful rd" "ata_ok a" "ata_read_sector_drive rd drive lba a = (r, a')"
  shows "ata_ok a' \<and> at_disk a' = at_disk a \<and> (r = None \<or> r = Some (disk_read (at_disk a) drive lba 1))"
proof -
  let ?f = "rd drive lba 1 (at_disk a)"
  have f: "?f = None \<or> ?f = Some (disk_read (at_disk a) drive lba (nat 1))"
    using assms(1) unfolding rd_faithful_def by (metis not_Some_eq)
  obtain r1 c1 where rt: "read_through (blk_look drive lba 1) (blk_store drive lba 1) ?f (at_cache a) = (r1, c1)"
    by fastforce
  from blkc.read_through_correct [OF _ f rt] assms(2)
  have "cache_truthful (at_disk a) c1 \<and> (r1 = None \<or> r1 = Some (disk_read (at_disk a) drive lba (nat 1)))"
    by (simp add: ata_ok_def)
  then show ?thesis using assms(2,3) rt by (auto simp: ata_read_sector_drive_def ata_ok_def split: if_splits)
qed

lemma ata_write_ok:
  assumes "wr_in_range wr" "ata_ok a" "ata_write_sectors_drive wr drive lba count b a = (True, a')"
  shows "ata_ok a'"
proof -
  obtain ok dk where w: "wr drive lba count b (at_disk a) = (ok, dk)" by fastforce
  with assms(1) have c: "ok \<Longrightarrow> 1 \<le> count" "disk_ok (at_disk a) \<Longrightarrow> disk_ok dk"
    "\<And>d l. \<not> in_range (drive, lba, count) d l \<Longrightarrow> dk d l = at_disk a d l"
    unfolding wr_in_range_def by blast+
  have a': "a' = a\<lparr>at_disk := dk, at_cache := blkcache_invalidate drive lba count (at_cache a)\<rparr>" and ok
    using assms(3) w by (auto simp: ata_write_sectors_drive_def Let_def split: if_splits)
  have "blk_coherent dk (blkcache_invalidate drive lba count (at_cache a))"
    using assms(2) c \<open>ok\<close> by (intro invalidate_coherent [where dk = "at_disk a"])
      (auto simp: ata_ok_def cache_truthful_def in_range_def)
  then show ?thesis
    using assms(2) c(2) a' by (simp add: ata_ok_def cache_truthful_def invalidate_distinct)
qed

lemma ata_write_sector_eq: "ata_write_sector_drive wr drive lba b a = ata_write_sectors_drive wr drive lba 1 b a"
  by (simp add: ata_write_sector_drive_def ata_write_sectors_drive_def)

section \<open>Properties\<close>

text \<open>C2: A cached multi-sector read (with its readahead) that succeeds returns exactly the
  disk's current bytes for the clamped batch, and leaves the disk and the cache's
  truthfulness untouched.\<close>

theorem ata_read_returns_disk:
  assumes "rd_faithful rd" and "ata_ok a" and "ata_read_sectors_drive rd drive lba count a = (r, a')"
  shows "ata_ok a' \<and> at_disk a' = at_disk a
     \<and> (r = None \<or> r = Some (disk_read (at_disk a) drive lba (nat (block_batch_limit lba count))))"
proof (cases "drive < 0 \<or> drive \<ge> ATA_DRIVE_COUNT \<or> count < 1")
  case True
  then have "ata_read_sectors_drive rd drive lba count a = (None, a)"
    unfolding ata_read_sectors_drive_def by presburger
  with assms(3) have "r = None" "a' = a" by auto
  then show ?thesis using assms(2) by simp
next
  case False
  let ?n = "block_batch_limit lba count"
  let ?a = "ata_ra_note drive lba ?n a"
  have n1: "1 \<le> ?n" using block_batch_limit_range by blast
  have tr: "cache_truthful (at_disk a) (at_cache a)" using assms(2) by (simp add: ata_ok_def)
  have rd: "b = disk_read (at_disk a) drive lba (nat ?n)" if "rd drive lba ?n (at_disk a) = Some b" for b
    using assms(1) that by (auto simp: rd_faithful_def)
  obtain x c where look: "blkcache_read drive lba ?n True (at_cache a) = (x, c)" by fastforce
  show ?thesis
  proof (cases x)
    case (Inr b)
    with blkcache_read_hit [OF tr] look have "b = disk_read (at_disk a) drive lba (nat ?n)" "cache_truthful (at_disk a) c"
      by auto
    then show ?thesis using False assms(3) look Inr
      by (auto simp: ata_read_sectors_drive_def Let_def ata_ok_def)
  next
    case (Inl g)
    with look have c: "c = at_cache a" using blkcache_read_miss by blast
    from Inl look n1 have g: "g = Some (bc_gen (at_cache a))"
      by (auto simp: blkcache_read_def split: if_splits prod.splits)
    let ?a1 = "\<lambda>b. ?a\<lparr>at_cache := blkcache_commit drive lba ?n (Some b) (bc_gen (at_cache a)) c\<rparr>"
    have ok1: "ata_ok (?a1 (disk_read (at_disk a) drive lba (nat ?n)))"
      using commit_truthful [OF tr] c by (simp add: ata_ok_def)
    have "ata_read_sectors_drive rd drive lba count a = (case rd drive lba ?n (at_disk a) of
        None \<Rightarrow> (None, ?a\<lparr>at_cache := c\<rparr>)
      | Some b \<Rightarrow> (Some b, ata_ra_maybe_prefetch rd drive lba ?n (bc_gen (at_cache a)) (?a1 b)))"
      using False look Inl g
      by (cases "rd drive lba ?n (at_disk a)") (simp_all add: ata_read_sectors_drive_def Let_def)
    note res = this [unfolded assms(3)]
    show ?thesis
    proof (cases "rd drive lba ?n (at_disk a)")
      case None
      then show ?thesis using res c tr by (simp add: ata_ok_def)
    next
      case (Some b)
      then show ?thesis using res rd [OF Some] prefetch_ok [OF assms(1) ok1] by simp
    qed
  qed
qed

text \<open>The code does not invalidate after a failed write, so a device that stored part of
  a batch before it failed leaves the cache serving the old bytes: the cached read returns
  what the disk no longer holds.\<close>

theorem ata_failed_write_stale:
  assumes "ata_ok a" and "0 \<le> drive" and "drive < ATA_DRIVE_COUNT"
    and "blkcache_read drive lba 1 True (at_cache a) = (Inr old, c)"
    and "wr drive lba count b (at_disk a) = (False, dk')" and "dk' drive lba \<noteq> at_disk a drive lba"
  shows "\<exists>a'. ata_write_sectors_drive wr drive lba count b a = (False, a')
     \<and> fst (ata_read_sector_drive rd drive lba a') = Some old \<and> old \<noteq> disk_read (at_disk a') drive lba 1"
proof -
  let ?a' = "a\<lparr>at_disk := dk'\<rparr>"
  have "ata_write_sectors_drive wr drive lba count b a = (False, ?a')"
    using assms by (simp add: ata_write_sectors_drive_def)
  moreover have "fst (ata_read_sector_drive rd drive lba ?a') = Some old"
    using assms by (simp add: ata_read_sector_drive_def read_through_def blk_look_def)
  moreover have "old = at_disk a drive lba"
    using blkcache_read_hit [OF _ assms(4), of "at_disk a"] assms(1) by (simp add: ata_ok_def disk_read_def)
  ultimately show ?thesis using assms(6) by (auto simp: disk_read_def)
qed

theorem ata_read_returns_disk_witness:
  "\<exists>r a'. ata_read_sectors_drive (\<lambda>d l n dk. Some (disk_read dk d l (nat n))) 1 130 500
       \<lparr>at_disk = (\<lambda>_ _. replicate 512 3), at_cache = blkcache_zero, at_streams = (\<lambda>_. \<lparr>ra_prev_end = 0, ra_streak = 0\<rparr>), at_ra_fills = 0\<rparr>
     = (r, a') \<and> ata_ok a' \<and> (r = None \<or> r = Some (disk_read (\<lambda>_ _. replicate 512 3) 1 130 (nat (block_batch_limit 130 500))))"
proof -
  let ?rd = "\<lambda>d l n dk. Some (disk_read dk d l (nat n))"
  let ?a = "\<lparr>at_disk = (\<lambda>_ _. replicate 512 3), at_cache = blkcache_zero, at_streams = (\<lambda>_. \<lparr>ra_prev_end = 0, ra_streak = 0\<rparr>), at_ra_fills = 0\<rparr>"
  have f: "rd_faithful ?rd" by (simp add: rd_faithful_def)
  have o: "ata_ok ?a"
    by (simp add: ata_ok_def cache_truthful_def blk_coherent_def blk_distinct_def disk_ok_def blkcache_zero_def BLKCACHE_SECTOR_def)
  obtain r a' where e: "ata_read_sectors_drive ?rd 1 130 500 ?a = (r, a')" by fastforce
  from ata_read_returns_disk [OF f o e] e show ?thesis by auto
qed

theorem ata_failed_write_stale_witness:
  "\<exists>a a' old. ata_ok a \<and> ata_write_sectors_drive (\<lambda>d l n b dk. (False, dk(d := (dk d)(l := replicate 512 9)))) 0 7 2 [] a = (False, a')
     \<and> fst (ata_read_sector_drive (\<lambda>d l n dk. Some (disk_read dk d l (nat n))) 0 7 a') = Some old
     \<and> old \<noteq> disk_read (at_disk a') 0 7 1"
proof -
  let ?dk = "\<lambda>_ _. replicate 512 3 :: sector"
  let ?c = "blkcache_commit 0 7 1 (Some (disk_read ?dk 0 7 (nat 1))) 0 blkcache_zero"
  let ?a = "\<lparr>at_disk = ?dk, at_cache = ?c, at_streams = (\<lambda>_. \<lparr>ra_prev_end = 0, ra_streak = 0\<rparr>), at_ra_fills = 0\<rparr>"
  let ?wr = "\<lambda>d l n (b :: u8 list) dk. (False, dk(d := (dk d)(l := replicate 512 (9::u8))))"
  have "cache_truthful ?dk blkcache_zero"
    by (simp add: cache_truthful_def blk_coherent_def blk_distinct_def disk_ok_def blkcache_zero_def BLKCACHE_SECTOR_def)
  then have o: "ata_ok ?a" unfolding ata_ok_def ata.simps by (rule commit_truthful)
  have h: "blkcache_read 0 7 1 True (at_cache ?a)
      = (Inr (take BLKCACHE_SECTOR (disk_read ?dk 0 7 (nat 1))), blk_touch 0 ?c)"
    by (simp only: ata.simps cold_cache_hits_after_commit)
  have ne: "(?dk(0 := (?dk 0)(7 := replicate 512 9))) 0 7 \<noteq> at_disk ?a 0 7"
    by simp
  from ata_failed_write_stale [OF o _ _ h, of ?wr 2 "[]" _ "\<lambda>d l n dk. Some (disk_read dk d l (nat n))"] ne
  show ?thesis using o by (fastforce simp: ATA_DRIVE_COUNT_def)
qed

end
