(* ===== verification/Frames.thy ===== *)
theory Frames
  imports Mectov_Prelude
begin

text \<open>
  Doubly-linked lists threaded through numbered nodes, as the kernel keeps them: a head
  pointer, and a next and a previous pointer per node. \<open>dseg nxt prv p h xs l e\<close> says that
  from pointer \<open>h\<close> the nodes \<open>xs\<close> are linked in order, the first one's previous pointer
  is \<open>p\<close>, the last node (or \<open>p\<close>) is \<open>l\<close> and the pointer after it is \<open>e\<close>.
\<close>

primrec dseg :: "('a \<Rightarrow> 'a option) \<Rightarrow> ('a \<Rightarrow> 'a option) \<Rightarrow> 'a option \<Rightarrow> 'a option \<Rightarrow> 'a list
    \<Rightarrow> 'a option \<Rightarrow> 'a option \<Rightarrow> bool" where
  "dseg nxt prv p h [] l e \<longleftrightarrow> h = e \<and> l = p"
| "dseg nxt prv p h (x # xs) l e \<longleftrightarrow> h = Some x \<and> prv x = p \<and> dseg nxt prv (Some x) (nxt x) xs l e"

definition dll :: "('a \<Rightarrow> 'a option) \<Rightarrow> ('a \<Rightarrow> 'a option) \<Rightarrow> 'a option \<Rightarrow> 'a list \<Rightarrow> bool" where
  "dll nxt prv h xs \<longleftrightarrow> distinct xs \<and> (\<exists>l. dseg nxt prv None h xs l None)"

lemma dseg_append:
  "dseg nxt prv p h (xs @ ys) l e \<longleftrightarrow> (\<exists>m n. dseg nxt prv p h xs m n \<and> dseg nxt prv m n ys l e)"
  by (induction xs arbitrary: p h) auto

lemma dseg_cong:
  "(\<And>x. x \<in> set xs \<Longrightarrow> nxt x = nxt' x) \<Longrightarrow> (\<And>x. x \<in> set xs \<Longrightarrow> prv x = prv' x) \<Longrightarrow>
     dseg nxt prv p h xs l e = dseg nxt' prv' p h xs l e"
  by (induction xs arbitrary: p h) auto

lemma dll_cong:
  "(\<And>x. x \<in> set xs \<Longrightarrow> nxt x = nxt' x) \<Longrightarrow> (\<And>x. x \<in> set xs \<Longrightarrow> prv x = prv' x) \<Longrightarrow>
     dll nxt prv h xs = dll nxt' prv' h xs"
  unfolding dll_def using dseg_cong [of xs nxt nxt' prv prv'] by blast

lemma dll_Nil [simp]: "dll nxt prv h [] \<longleftrightarrow> h = None"
  by (auto simp: dll_def)

lemma dll_None [simp]: "dll nxt prv None xs \<longleftrightarrow> xs = []"
  by (cases xs) (auto simp: dll_def)

lemma dll_hd: "dll nxt prv (Some h) xs \<Longrightarrow> xs \<noteq> [] \<and> hd xs = h"
  by (cases xs) (auto simp: dll_def)

lemma dll_distinct: "dll nxt prv h xs \<Longrightarrow> distinct xs"
  by (simp add: dll_def)

text \<open>Inserting a node at the head.\<close>

lemma dseg_set_first_prev:
  "dseg nxt prv p (Some y) (y # ys) l e \<Longrightarrow> y \<notin> set ys \<Longrightarrow> dseg nxt (prv(y := q)) q (Some y) (y # ys) l e"
  by (simp, subst dseg_cong [where nxt' = nxt and prv' = prv]) auto

lemma dll_insert_head:
  assumes "dll nxt prv h xs" and "x \<notin> set xs"
  shows "dll (nxt(x := h)) (case h of None \<Rightarrow> prv(x := None) | Some y \<Rightarrow> (prv(x := None))(y := Some x)) (Some x) (x # xs)"
proof (cases xs)
  case Nil
  then show ?thesis using assms by (simp add: dll_def)
next
  case (Cons y ys)
  with assms obtain l where d: "distinct xs" and l: "dseg nxt prv None h xs l None" by (auto simp: dll_def)
  then have h: "h = Some y" using Cons by simp
  have ne: "x \<noteq> y" using assms(2) Cons by auto
  have "dseg nxt (prv(y := Some x)) (Some x) (Some y) (y # ys) l None"
    using l d Cons h by (intro dseg_set_first_prev [where p = None]) auto
  then have "dseg (nxt(x := h)) ((prv(x := None))(y := Some x)) (Some x) (Some y) (y # ys) l None"
    using assms(2) Cons by (subst dseg_cong [where nxt' = nxt and prv' = "prv(y := Some x)"]) auto
  then show ?thesis using assms(2) d Cons h ne by (auto simp: dll_def simp del: fun_upd_apply intro!: exI [of _ l])
      (auto simp: fun_upd_def)
qed

text \<open>Unlinking a node: its neighbours (or the head) are joined.\<close>

definition unlink_nxt :: "('a \<Rightarrow> 'a option) \<Rightarrow> ('a \<Rightarrow> 'a option) \<Rightarrow> 'a \<Rightarrow> 'a \<Rightarrow> 'a option" where
  "unlink_nxt nxt prv x = (case prv x of Some p \<Rightarrow> nxt(p := nxt x) | None \<Rightarrow> nxt)"

definition unlink_prv :: "('a \<Rightarrow> 'a option) \<Rightarrow> ('a \<Rightarrow> 'a option) \<Rightarrow> 'a \<Rightarrow> 'a \<Rightarrow> 'a option" where
  "unlink_prv nxt prv x = (case nxt x of Some n \<Rightarrow> prv(n := prv x) | None \<Rightarrow> prv)"

definition unlink_head :: "('a \<Rightarrow> 'a option) \<Rightarrow> ('a \<Rightarrow> 'a option) \<Rightarrow> 'a \<Rightarrow> 'a option \<Rightarrow> 'a option" where
  "unlink_head nxt prv x h = (case prv x of Some p \<Rightarrow> h | None \<Rightarrow> nxt x)"

lemma dll_middle:
  assumes "dll nxt prv h (as @ x # bs)"
  shows "prv x = (if as = [] then None else Some (last as))" and "nxt x = (if bs = [] then None else Some (hd bs))"
    and "\<exists>l. dseg nxt prv None h as (prv x) (Some x) \<and> dseg nxt prv (Some x) (nxt x) bs l None"
proof -
  from assms obtain l m n where a: "dseg nxt prv None h as m n" and b: "dseg nxt prv m n (x # bs) l None"
    by (auto simp: dll_def dseg_append)
  have "m = (if as = [] then None else Some (last as))"
    using a by (induction as arbitrary: h rule: rev_induct) (auto simp: dseg_append)
  with b show "prv x = (if as = [] then None else Some (last as))" by simp
  show "nxt x = (if bs = [] then None else Some (hd bs))" using b by (cases bs) auto
  show "\<exists>l. dseg nxt prv None h as (prv x) (Some x) \<and> dseg nxt prv (Some x) (nxt x) bs l None"
    using a b by auto
qed

lemma dseg_set_last_next:
  "dseg nxt prv p h (as @ [q]) l e \<Longrightarrow> q \<notin> set as \<Longrightarrow> dseg (nxt(q := e')) prv p h (as @ [q]) (Some q) e'"
  by (induction as arbitrary: p h) auto

lemma dll_unlink:
  assumes "dll nxt prv h (as @ x # bs)"
  shows "dll (unlink_nxt nxt prv x) (unlink_prv nxt prv x) (unlink_head nxt prv x h) (as @ bs)"
proof -
  from dll_distinct [OF assms] have d: "distinct as" "distinct bs" "set as \<inter> set bs = {}" "x \<notin> set as" "x \<notin> set bs"
    by auto
  note px = dll_middle(1) [OF assms] and nx = dll_middle(2) [OF assms]
  from dll_middle(3) [OF assms] obtain l where
    a: "dseg nxt prv None h as (prv x) (Some x)" and b: "dseg nxt prv (Some x) (nxt x) bs l None" by blast
  let ?n = "unlink_nxt nxt prv x" and ?p = "unlink_prv nxt prv x"
  have A: "dseg ?n ?p None (unlink_head nxt prv x h) as (prv x) (nxt x)"
  proof (cases as rule: rev_cases)
    case Nil
    then show ?thesis using px by (simp add: unlink_head_def)
  next
    case (snoc as0 q)
    then have q: "prv x = Some q" using px by simp
    have "dseg (nxt(q := nxt x)) prv None h as (Some q) (nxt x)"
      using a d(1) snoc by (auto intro: dseg_set_last_next)
    moreover have "prv y = ?p y" if "y \<in> set as" for y
      using that d(3) nx by (cases bs) (auto simp: unlink_prv_def)
    ultimately show ?thesis using q
      by (subst dseg_cong [where nxt' = "nxt(q := nxt x)" and prv' = prv]) (auto simp: unlink_nxt_def unlink_head_def)
  qed
  have nb: "?n y = nxt y" if "y \<in> set bs" for y
    using that d(3) px by (cases as rule: rev_cases) (auto simp: unlink_nxt_def)
  have B: "\<exists>l. dseg ?n ?p (prv x) (nxt x) bs l None"
  proof (cases bs)
    case Nil
    then show ?thesis using nx by simp
  next
    case (Cons y ys)
    then have y: "nxt x = Some y" using nx by simp
    have "dseg nxt (prv(y := prv x)) (prv x) (Some y) (y # ys) l None"
      using b d(2) Cons y by (intro dseg_set_first_prev [where p = "Some x"]) auto
    then have "dseg ?n ?p (prv x) (Some y) (y # ys) l None"
      using nb Cons y by (subst dseg_cong [where nxt' = nxt and prv' = "prv(y := prv x)"]) (auto simp: unlink_prv_def)
    then show ?thesis using Cons y by auto
  qed
  show ?thesis using A B d unfolding dll_def by (auto simp: dseg_append)
qed

text \<open>Unlinking touches only the node's neighbours.\<close>

lemma unlink_outside:
  assumes "dll nxt prv h (as @ x # bs)" and "y \<notin> set (as @ x # bs)"
  shows "unlink_nxt nxt prv x y = nxt y" and "unlink_prv nxt prv x y = prv y"
proof -
  note px = dll_middle(1) [OF assms(1)] and nx = dll_middle(2) [OF assms(1)]
  show "unlink_nxt nxt prv x y = nxt y"
    using assms(2) px by (cases as rule: rev_cases) (auto simp: unlink_nxt_def)
  show "unlink_prv nxt prv x y = prv y"
    using assms(2) nx by (cases bs) (auto simp: unlink_prv_def)
qed

chapter \<open>The frame allocator\<close>

text \<open>
  The physical frame allocator of \<open>src/sys/vmm.c\<close>: the frame bitmap, the buddy free lists
  (doubly-linked through the free frames themselves), the reference counts and the per-CPU
  frame caches in front of them. Frames are numbered; a physical address is the number
  times 4096, as \<open>paddr / 4096\<close> and \<open>frame_idx * 4096\<close> have it (at most
  \<open>PHYS_MAX_PAGES\<close> frames, so these never wrap). The in-frame list nodes are the maps
  \<open>fr_next\<close> and \<open>fr_prev\<close>. A cache is the live prefix \<open>frames[0..<count]\<close> of its array.
  Each \<open>vmm_lock\<close> or cache-lock section runs as one step; \<open>cid\<close> is the calling CPU.
  Messages on the serial line are left out.
\<close>

definition PHYS_MAX_PAGES :: nat where
  "PHYS_MAX_PAGES = 131072"

definition BUDDY_MAX_ORDER :: nat where
  "BUDDY_MAX_ORDER = 9"

definition BUDDY_ALLOCATED :: nat where
  "BUDDY_ALLOCATED = 255"

definition BUDDY_CACHED :: nat where
  "BUDDY_CACHED = 254"

definition FRAME_PINNED :: nat where
  "FRAME_PINNED = 255"

definition PERCPU_CACHE_SIZE :: nat where
  "PERCPU_CACHE_SIZE = 32"

definition PERCPU_REFILL_THRESHOLD :: nat where
  "PERCPU_REFILL_THRESHOLD = 8"

definition PERCPU_REFILL_BATCH :: nat where
  "PERCPU_REFILL_BATCH = 16"

definition PERCPU_FLUSH_KEEP :: nat where
  "PERCPU_FLUSH_KEEP = PERCPU_CACHE_SIZE div 2"

definition MAX_CORES :: nat where
  "MAX_CORES = 16"

record frames =
  fr_total :: nat
  fr_reserved :: nat
  fr_bitmap :: "nat \<Rightarrow> bool"
  fr_order :: "nat \<Rightarrow> nat"
  fr_refs :: "nat \<Rightarrow> nat"
  fr_next :: "nat \<Rightarrow> nat option"
  fr_prev :: "nat \<Rightarrow> nat option"
  fr_heads :: "nat \<Rightarrow> nat option"
  fr_built :: bool
  fr_used :: nat
  fr_zero :: nat
  fr_cache :: "nat \<Rightarrow> nat list"
  fr_hits :: "nat \<Rightarrow> u32"
  fr_direct :: "nat \<Rightarrow> u32"
  fr_refilled :: "nat \<Rightarrow> u32"
  fr_parked :: "nat \<Rightarrow> u32"
  fr_spilled :: "nat \<Rightarrow> u32"
  fr_coalesces :: u32
  fr_oom :: u32
  fr_overfree :: u32

section \<open>Buddy lists\<close>

definition buddy_address :: "nat \<Rightarrow> nat \<Rightarrow> nat" where
  "buddy_address f order = f XOR push_bit order 1"

definition is_aligned_to_order :: "nat \<Rightarrow> nat \<Rightarrow> bool" where
  "is_aligned_to_order f order \<longleftrightarrow> f AND (push_bit order 1 - 1) = 0"

definition buddy_list_add :: "nat \<Rightarrow> nat \<Rightarrow> frames \<Rightarrow> frames" where
  "buddy_list_add f order s =
     s\<lparr>fr_next := (fr_next s)(f := fr_heads s order),
       fr_prev := (case fr_heads s order of
                     None \<Rightarrow> (fr_prev s)(f := None)
                   | Some h \<Rightarrow> ((fr_prev s)(f := None))(h := Some f)),
       fr_heads := (fr_heads s)(order := Some f),
       fr_order := (fr_order s)(f := order)\<rparr>"

definition buddy_list_remove :: "nat \<Rightarrow> nat \<Rightarrow> frames \<Rightarrow> frames" where
  "buddy_list_remove f order s =
     (let s1 = (case fr_prev s f of
                  Some p \<Rightarrow> s\<lparr>fr_next := (fr_next s)(p := fr_next s f)\<rparr>
                | None \<Rightarrow> s\<lparr>fr_heads := (fr_heads s)(order := fr_next s f)\<rparr>);
          s2 = (case fr_next s1 f of
                  Some n \<Rightarrow> s1\<lparr>fr_prev := (fr_prev s1)(n := fr_prev s1 f)\<rparr>
                | None \<Rightarrow> s1)
      in s2\<lparr>fr_order := (fr_order s2)(f := BUDDY_ALLOCATED)\<rparr>)"

definition buddy_init :: "frames \<Rightarrow> frames" where
  "buddy_init s =
     s\<lparr>fr_heads := (\<lambda>o'. if o' \<le> BUDDY_MAX_ORDER then None else fr_heads s o'),
       fr_order := (\<lambda>i. if i < fr_total s then (if fr_bitmap s i then BUDDY_ALLOCATED else 0)
                        else fr_order s i)\<rparr>"

definition buddy_rebuild_lists :: "frames \<Rightarrow> frames" where
  "buddy_rebuild_lists s =
     (fold (\<lambda>i s. if \<not> fr_bitmap s i then buddy_list_add i 0 s else s) [fr_reserved s..<fr_total s]
       (s\<lparr>fr_heads := (\<lambda>o'. if o' \<le> BUDDY_MAX_ORDER then None else fr_heads s o')\<rparr>))\<lparr>fr_built := True\<rparr>"

text \<open>Splitting a block of order \<open>k\<close> down to order 0: the upper halves go on the lists.\<close>

primrec buddy_split :: "nat \<Rightarrow> nat \<Rightarrow> frames \<Rightarrow> frames" where
  "buddy_split f 0 s = s"
| "buddy_split f (Suc k) s = buddy_split f k (buddy_list_add (f + push_bit k 1) k s)"

definition buddy_alloc_locked :: "frames \<Rightarrow> nat \<times> frames" where
  "buddy_alloc_locked s0 =
     (let s = (if fr_built s0 then s0 else buddy_rebuild_lists s0)
      in case first_idx (\<lambda>o'. fr_heads s o' \<noteq> None) 0 (Suc BUDDY_MAX_ORDER) of
           None \<Rightarrow> (0, s)
         | Some k \<Rightarrow>
             (let f = the (fr_heads s k);
                  s1 = buddy_split f k (buddy_list_remove f k s)
              in (f * 4096, s1\<lparr>fr_bitmap := (fr_bitmap s1)(f := True),
                               fr_refs := (fr_refs s1)(f := 1),
                               fr_used := fr_used s1 + 1\<rparr>)))"

text \<open>The coalescing loop of \<open>buddy_free_locked\<close>: merge upwards while the buddy is a free
  block of the same order. The result is the block's first frame, its order and the state.\<close>

function buddy_coalesce :: "nat \<Rightarrow> nat \<Rightarrow> frames \<Rightarrow> nat \<times> nat \<times> frames" where
  "buddy_coalesce cur order s =
     (if order < BUDDY_MAX_ORDER then
        (let b = buddy_address cur order
         in if b < fr_reserved s \<or> b \<ge> fr_total s \<or> fr_order s b \<noteq> order
               \<or> \<not> is_aligned_to_order (if cur < b then cur else b) (order + 1)
            then (cur, order, s)
            else buddy_coalesce (if b < cur then b else cur) (order + 1) (buddy_list_remove b order s))
      else (cur, order, s))"
  by pat_completeness auto
termination by (relation "measure (\<lambda>(cur, order, s). BUDDY_MAX_ORDER - order)") auto

declare buddy_coalesce.simps [simp del]

definition buddy_free_locked :: "nat \<Rightarrow> frames \<Rightarrow> frames" where
  "buddy_free_locked paddr s =
     (let idx = paddr div 4096
      in if idx < fr_reserved s \<or> idx \<ge> fr_total s then s
         else if fr_refs s idx \<ge> FRAME_PINNED then s
         else
           (let s1 = s\<lparr>fr_refs := (fr_refs s)(idx := 0),
                       fr_used := (if fr_used s > 0 then fr_used s - 1 else fr_used s),
                       fr_bitmap := (fr_bitmap s)(idx := False)\<rparr>;
                (cur, order, s2) = buddy_coalesce idx 0 s1;
                s3 = buddy_list_add cur order s2
            in s3\<lparr>fr_coalesces := fr_coalesces s3 + of_nat order\<rparr>))"

section \<open>Per-CPU caches\<close>

primrec fetch_frames :: "nat \<Rightarrow> frames \<Rightarrow> nat list \<times> frames" where
  "fetch_frames 0 s = ([], s)"
| "fetch_frames (Suc want) s =
     (let (p, s1) = buddy_alloc_locked s
      in if p = 0 then ([], s1)
         else let (ps, s2) = fetch_frames want s1 in (p # ps, s2))"

definition percpu_fetch_batch :: "nat \<Rightarrow> nat \<Rightarrow> frames \<Rightarrow> nat list \<times> frames" where
  "percpu_fetch_batch cid want s =
     (let (out, s1) = fetch_frames want s
      in (out, s1\<lparr>fr_refilled := (fr_refilled s1)(cid := fr_refilled s1 cid + of_nat (length out))\<rparr>))"

text \<open>What fits of a batch stays in the cache, the rest is surplus.\<close>

fun stock_cache :: "nat list \<Rightarrow> nat list \<Rightarrow> nat list \<Rightarrow> nat list \<times> nat list" where
  "stock_cache c sur [] = (c, sur)"
| "stock_cache c sur (p # ps) =
     (if length c < PERCPU_CACHE_SIZE then stock_cache (c @ [p]) sur ps
      else stock_cache c (sur @ [p]) ps)"

definition percpu_cache_refill :: "nat \<Rightarrow> frames \<Rightarrow> frames" where
  "percpu_cache_refill cid s =
     (if length (fr_cache s cid) \<ge> PERCPU_REFILL_THRESHOLD then s
      else
        (let (batch, s1) = percpu_fetch_batch cid PERCPU_REFILL_BATCH s;
             (c, surplus) = stock_cache (fr_cache s1 cid) [] batch;
             s2 = s1\<lparr>fr_cache := (fr_cache s1)(cid := c)\<rparr>
         in fold buddy_free_locked surplus s2))"

definition percpu_cache_alloc :: "nat \<Rightarrow> frames \<Rightarrow> nat \<times> frames" where
  "percpu_cache_alloc cid s0 =
     (let s = (if length (fr_cache s0 cid) < PERCPU_REFILL_THRESHOLD then percpu_cache_refill cid s0 else s0)
      in if fr_cache s cid \<noteq> [] then
           (let paddr = last (fr_cache s cid)
            in (paddr, s\<lparr>fr_cache := (fr_cache s)(cid := butlast (fr_cache s cid)),
                         fr_hits := (fr_hits s)(cid := fr_hits s cid + 1),
                         fr_order := (fr_order s)(paddr div 4096 := BUDDY_ALLOCATED)\<rparr>))
         else (0, s))"

definition percpu_cache_free :: "nat \<Rightarrow> nat \<Rightarrow> frames \<Rightarrow> frames" where
  "percpu_cache_free cid paddr s =
     (let c = fr_cache s cid
      in if length c < PERCPU_CACHE_SIZE then
           s\<lparr>fr_cache := (fr_cache s)(cid := c @ [paddr]),
             fr_order := (fr_order s)(paddr div 4096 := BUDDY_CACHED),
             fr_parked := (fr_parked s)(cid := fr_parked s cid + 1)\<rparr>
         else
           (let spill = rev (drop PERCPU_FLUSH_KEEP c) @ [paddr];
                s1 = s\<lparr>fr_cache := (fr_cache s)(cid := take PERCPU_FLUSH_KEEP c),
                       fr_spilled := (fr_spilled s)(cid := fr_spilled s cid + of_nat (length spill))\<rparr>
            in fold buddy_free_locked spill s1))"

section \<open>The allocator's interface\<close>

definition frame_alloc :: "nat \<Rightarrow> frames \<Rightarrow> nat \<times> frames" where
  "frame_alloc cid s =
     (let (paddr, s1) = percpu_cache_alloc cid s
      in if paddr \<noteq> 0 then (paddr, s1)
         else
           (let (paddr2, s2) = buddy_alloc_locked s1
            in if paddr2 \<noteq> 0 then (paddr2, s2\<lparr>fr_direct := (fr_direct s2)(cid := fr_direct s2 cid + 1)\<rparr>)
               else (paddr2, s2\<lparr>fr_oom := fr_oom s2 + 1\<rparr>)))"

definition frame_free :: "nat \<Rightarrow> nat \<Rightarrow> frames \<Rightarrow> frames" where
  "frame_free cid paddr s =
     (if paddr = 0 then s
      else if paddr = fr_zero s then s
      else
        (let idx = paddr div 4096
         in if idx < fr_reserved s \<or> idx \<ge> fr_total s then s
            else if fr_order s idx = BUDDY_CACHED \<or> fr_refs s idx = 0
            then s\<lparr>fr_overfree := fr_overfree s + 1\<rparr>
            else if fr_refs s idx \<ge> FRAME_PINNED then s
            else if fr_refs s idx > 1 then s\<lparr>fr_refs := (fr_refs s)(idx := fr_refs s idx - 1)\<rparr>
            else percpu_cache_free cid paddr (s\<lparr>fr_order := (fr_order s)(idx := BUDDY_CACHED)\<rparr>)))"

definition phys_get_used_pages :: "frames \<Rightarrow> nat" where
  "phys_get_used_pages s = fr_used s"

definition phys_get_zero_page :: "frames \<Rightarrow> nat" where
  "phys_get_zero_page s = fr_zero s"

definition phys_reserved_bytes :: "frames \<Rightarrow> nat" where
  "phys_reserved_bytes s = fr_reserved s * 4096"

text \<open>Reserving a region: its frames are marked, counted and pinned; when one of them was
  free and the lists exist, the lists are rebuilt. The region's end is computed in 32 bits.\<close>

definition phys_reserve_region :: "u32 \<Rightarrow> u32 \<Rightarrow> frames \<Rightarrow> frames" where
  "phys_reserve_region start len s =
     (if start = 0 \<or> len = 0 then s
      else
        (let first = unat (start div 4096);
             last0 = unat ((start + len + 4095) div 4096);
             last = (if last0 > fr_total s then fr_total s else last0);
             (stole, s1) = fold (\<lambda>i (stole, s).
                 (stole \<or> \<not> fr_bitmap s i,
                  s\<lparr>fr_used := (if fr_bitmap s i then fr_used s else fr_used s + 1),
                    fr_bitmap := (fr_bitmap s)(i := True),
                    fr_refs := (fr_refs s)(i := FRAME_PINNED)\<rparr>))
               [first..<last] (False, s)
         in if stole \<and> fr_built s1 then buddy_rebuild_lists s1 else s1))"

record frame_stats =
  fs_hits :: u32
  fs_direct :: u32
  fs_refilled :: u32
  fs_parked :: u32
  fs_spilled :: u32
  fs_coalesces :: u32
  fs_oom :: u32
  fs_overfree :: u32
  fs_cached :: u32

definition phys_get_stats :: "frames \<Rightarrow> frame_stats" where
  "phys_get_stats s =
     \<lparr>fs_hits = (\<Sum>i \<leftarrow> [0..<MAX_CORES]. fr_hits s i),
      fs_direct = (\<Sum>i \<leftarrow> [0..<MAX_CORES]. fr_direct s i),
      fs_refilled = (\<Sum>i \<leftarrow> [0..<MAX_CORES]. fr_refilled s i),
      fs_parked = (\<Sum>i \<leftarrow> [0..<MAX_CORES]. fr_parked s i),
      fs_spilled = (\<Sum>i \<leftarrow> [0..<MAX_CORES]. fr_spilled s i),
      fs_coalesces = fr_coalesces s, fs_oom = fr_oom s, fs_overfree = fr_overfree s,
      fs_cached = (\<Sum>i \<leftarrow> [0..<MAX_CORES]. of_nat (length (fr_cache s i)))\<rparr>"

end
