(* ===== verification/Frames_Inv.thy ===== *)
theory Frames_Inv
  imports Frames
begin

text \<open>
  Correctness of the frame allocator. \<open>buddy_parts s L H\<close>: the lists \<open>L\<close> (one per order)
  are linked in the frames, every block on them is aligned, inside RAM and carries its
  order at its head, blocks do not overlap, and together they are exactly the free frames
  other than those of the hole \<open>H\<close> (a block the allocator is just moving); a frame in use
  carries no valid order. With an empty hole this is the partition that the kernel's own
  boot self-test checks.
\<close>

section \<open>Aligned blocks\<close>

definition blk :: "nat \<Rightarrow> nat \<Rightarrow> nat set" where
  "blk x order = {x..<x + 2 ^ order}"

lemma in_blk [simp]: "f \<in> blk x order \<longleftrightarrow> x \<le> f \<and> f < x + 2 ^ order"
  by (simp add: blk_def)

lemma blk_head [simp]: "x \<le> x \<and> x < x + 2 ^ order" for x order :: nat
  by simp

lemma blk_0: "blk f 0 = {f}"
  by (auto simp: blk_def)

lemma is_aligned_iff: "is_aligned_to_order f order \<longleftrightarrow> 2 ^ order dvd f"
proof -
  have "push_bit order 1 - 1 = (mask order :: nat)"
    by (simp add: mask_eq_exp_minus_1 push_bit_eq_mult)
  then have "f AND (push_bit order 1 - 1) = f mod 2 ^ order"
    by (simp only: take_bit_eq_mask [symmetric] take_bit_eq_mod)
  then show ?thesis by (simp add: is_aligned_to_order_def dvd_eq_mod_eq_0)
qed

lemma blocks_nested:
  fixes m x b n k :: nat
  assumes "2 ^ n dvd m" "2 ^ k dvd x" "n \<le> k" "b \<in> blk m n" "b \<in> blk x k"
  shows "blk m n \<subseteq> blk x k"
proof -
  obtain d where k: "k = n + d" using assms(3) le_Suc_ex by blast
  obtain a where a: "m = 2 ^ n * a" using assms(1) by blast
  have "2 ^ n dvd x" using assms(2) k by (metis power_add dvd_mult_left)
  then obtain c where c: "x = 2 ^ n * c" by blast
  let ?p = "2 ^ n :: nat"
  have p: "0 < ?p" by simp
  have "?p * c < ?p * (a + 1)" using assms(4,5) a c by (simp add: algebra_simps)
  then have ca: "c \<le> a" using p by (metis Suc_eq_plus1 less_Suc_eq_le mult_less_cancel1)
  have "?p * a < ?p * (c + 2 ^ d)" using assms(4,5) a c k by (simp add: algebra_simps power_add)
  then have "a < c + 2 ^ d" using p by (metis mult_less_cancel1)
  then have "a + 1 \<le> c + 2 ^ d" by simp
  then have "?p * (a + 1) \<le> ?p * (c + 2 ^ d)" by (rule mult_le_mono2)
  then have "m + ?p \<le> x + 2 ^ k" using a c k by (simp add: algebra_simps power_add)
  moreover have "x \<le> m" using ca a c by simp
  ultimately show ?thesis by auto
qed

lemma same_start:
  fixes b x k :: nat
  assumes "2 ^ k dvd b" "2 ^ k dvd x" "b \<in> blk x k"
  shows "b = x"
proof -
  have "x \<in> blk b k" using blocks_nested [OF assms(2,1) order_refl, of b] assms(3) blocks_nested [OF assms(1,2) order_refl, of b] by auto
  then show ?thesis using assms(3) by auto
qed

lemma buddy_cases:
  fixes x order :: nat
  assumes "2 ^ order dvd x"
  shows "(2 ^ Suc order dvd x \<and> buddy_address x order = x + 2 ^ order)
    \<or> (2 ^ order \<le> x \<and> 2 ^ Suc order dvd x - 2 ^ order \<and> buddy_address x order = x - 2 ^ order)"
proof -
  obtain q where q: "x = 2 ^ order * q" using assms by blast
  have fb: "buddy_address x order = flip_bit order x"
    by (simp add: buddy_address_def flip_bit_eq_xor)
  have bit: "bit x order \<longleftrightarrow> odd q" by (simp add: q bit_iff_odd)
  have sh: "push_bit order (flip_bit 0 q) = flip_bit order x"
    by (rule bit_eqI) (auto simp: bit_simps q push_bit_eq_mult [symmetric] mult.commute)
  show ?thesis
  proof (cases "even q")
    case True
    then have "flip_bit 0 q = q + 1" by (auto elim!: evenE simp: flip_bit_0)
    then have "buddy_address x order = x + 2 ^ order"
      unfolding fb sh [symmetric] by (simp add: push_bit_eq_mult q algebra_simps)
    then show ?thesis using True q by (auto simp: mult.commute [of 2])
  next
    case False
    then have "flip_bit 0 q = q - 1" "1 \<le> q" by (auto elim!: oddE simp: flip_bit_0)
    then have "buddy_address x order = x - 2 ^ order"
      unfolding fb sh [symmetric] by (simp add: push_bit_eq_mult q algebra_simps)
    moreover have "x - 2 ^ order = 2 ^ order * (q - 1)" using q by (simp add: algebra_simps)
    moreover have "even (q - 1)" using False by simp
    ultimately show ?thesis using q \<open>1 \<le> q\<close> by (auto simp: mult.commute [of 2])
  qed
qed


section \<open>The partition\<close>

definition buddy_parts :: "frames \<Rightarrow> (nat \<Rightarrow> nat list) \<Rightarrow> nat set \<Rightarrow> bool" where
  "buddy_parts s L H \<longleftrightarrow>
     (\<forall>k \<le> BUDDY_MAX_ORDER. dll (fr_next s) (fr_prev s) (fr_heads s k) (L k))
     \<and> (\<forall>k \<le> BUDDY_MAX_ORDER. \<forall>x \<in> set (L k).
          fr_reserved s \<le> x \<and> x + 2 ^ k \<le> fr_total s \<and> 2 ^ k dvd x \<and> fr_order s x = k)
     \<and> (\<forall>k \<le> BUDDY_MAX_ORDER. \<forall>k' \<le> BUDDY_MAX_ORDER. \<forall>x \<in> set (L k). \<forall>x' \<in> set (L k').
          \<forall>f. f \<in> blk x k \<and> f \<in> blk x' k' \<longrightarrow> x = x' \<and> k = k')
     \<and> (\<forall>f. (\<exists>k \<le> BUDDY_MAX_ORDER. \<exists>x \<in> set (L k). f \<in> blk x k)
          \<longleftrightarrow> fr_reserved s \<le> f \<and> f < fr_total s \<and> \<not> fr_bitmap s f \<and> f \<notin> H)
     \<and> (\<forall>f. fr_reserved s \<le> f \<and> f < fr_total s \<and> fr_bitmap s f \<longrightarrow> BUDDY_MAX_ORDER < fr_order s f)"

lemma buddy_partsD:
  assumes "buddy_parts s L H"
  shows parts_dll: "\<And>k. k \<le> BUDDY_MAX_ORDER \<Longrightarrow> dll (fr_next s) (fr_prev s) (fr_heads s k) (L k)"
    and parts_block: "\<And>k x. k \<le> BUDDY_MAX_ORDER \<Longrightarrow> x \<in> set (L k) \<Longrightarrow>
          fr_reserved s \<le> x \<and> x + 2 ^ k \<le> fr_total s \<and> 2 ^ k dvd x \<and> fr_order s x = k"
    and parts_disjoint: "\<And>k k' x x' f. k \<le> BUDDY_MAX_ORDER \<Longrightarrow> k' \<le> BUDDY_MAX_ORDER \<Longrightarrow> x \<in> set (L k) \<Longrightarrow>
          x' \<in> set (L k') \<Longrightarrow> f \<in> blk x k \<Longrightarrow> f \<in> blk x' k' \<Longrightarrow> x = x' \<and> k = k'"
    and parts_free: "\<And>f. (\<exists>k \<le> BUDDY_MAX_ORDER. \<exists>x \<in> set (L k). f \<in> blk x k)
          \<longleftrightarrow> fr_reserved s \<le> f \<and> f < fr_total s \<and> \<not> fr_bitmap s f \<and> f \<notin> H"
    and parts_used: "\<And>f. fr_reserved s \<le> f \<Longrightarrow> f < fr_total s \<Longrightarrow> fr_bitmap s f \<Longrightarrow> BUDDY_MAX_ORDER < fr_order s f"
proof -
  note D = assms [unfolded buddy_parts_def]
  note D3 = D [THEN conjunct2, THEN conjunct2]
  show "\<And>k. k \<le> BUDDY_MAX_ORDER \<Longrightarrow> dll (fr_next s) (fr_prev s) (fr_heads s k) (L k)"
    using D [THEN conjunct1] by blast
  show "\<And>k x. k \<le> BUDDY_MAX_ORDER \<Longrightarrow> x \<in> set (L k) \<Longrightarrow>
          fr_reserved s \<le> x \<and> x + 2 ^ k \<le> fr_total s \<and> 2 ^ k dvd x \<and> fr_order s x = k"
    using D [THEN conjunct2, THEN conjunct1] by blast
  show "\<And>k k' x x' f. k \<le> BUDDY_MAX_ORDER \<Longrightarrow> k' \<le> BUDDY_MAX_ORDER \<Longrightarrow> x \<in> set (L k) \<Longrightarrow>
          x' \<in> set (L k') \<Longrightarrow> f \<in> blk x k \<Longrightarrow> f \<in> blk x' k' \<Longrightarrow> x = x' \<and> k = k'"
    using D3 [THEN conjunct1] by blast
  show "\<And>f. (\<exists>k \<le> BUDDY_MAX_ORDER. \<exists>x \<in> set (L k). f \<in> blk x k)
          \<longleftrightarrow> fr_reserved s \<le> f \<and> f < fr_total s \<and> \<not> fr_bitmap s f \<and> f \<notin> H"
    using D3 [THEN conjunct2, THEN conjunct1] by blast
  show "\<And>f. fr_reserved s \<le> f \<Longrightarrow> f < fr_total s \<Longrightarrow> fr_bitmap s f \<Longrightarrow> BUDDY_MAX_ORDER < fr_order s f"
    using D3 [THEN conjunct2, THEN conjunct2] by blast
qed

lemma parts_in_free:
  "buddy_parts s L H \<Longrightarrow> k \<le> BUDDY_MAX_ORDER \<Longrightarrow> x \<in> set (L k) \<Longrightarrow> f \<in> blk x k \<Longrightarrow>
     fr_reserved s \<le> f \<and> f < fr_total s \<and> \<not> fr_bitmap s f \<and> f \<notin> H"
  using parts_free by blast

text \<open>Fields the list operations leave alone.\<close>

definition same_frames :: "frames \<Rightarrow> frames \<Rightarrow> bool" where
  "same_frames s t \<longleftrightarrow>
     fr_total s = fr_total t \<and> fr_reserved s = fr_reserved t \<and> fr_bitmap s = fr_bitmap t
     \<and> fr_refs s = fr_refs t \<and> fr_built s = fr_built t \<and> fr_used s = fr_used t \<and> fr_zero s = fr_zero t
     \<and> fr_cache s = fr_cache t \<and> fr_overfree s = fr_overfree t
     \<and> (\<forall>g. fr_bitmap t g \<longrightarrow> fr_order s g = fr_order t g)"

lemma same_frames_refl [simp]: "same_frames s s"
  by (simp add: same_frames_def)

lemma same_frames_trans: "same_frames s t \<Longrightarrow> same_frames t u \<Longrightarrow> same_frames s u"
  by (simp add: same_frames_def)

lemma list_add_same: "\<not> fr_bitmap s f \<Longrightarrow> same_frames (buddy_list_add f k s) s"
  by (auto simp: buddy_list_add_def same_frames_def)

lemma list_remove_fields:
  assumes "fr_prev s x \<noteq> Some x"
  shows "fr_next (buddy_list_remove x k s) = unlink_nxt (fr_next s) (fr_prev s) x"
    and "fr_prev (buddy_list_remove x k s) = unlink_prv (fr_next s) (fr_prev s) x"
    and "fr_heads (buddy_list_remove x k s) = (fr_heads s)(k := unlink_head (fr_next s) (fr_prev s) x (fr_heads s k))"
    and "fr_order (buddy_list_remove x k s) = (fr_order s)(x := BUDDY_ALLOCATED)"
    and "\<not> fr_bitmap s x \<Longrightarrow> same_frames (buddy_list_remove x k s) s"
  using assms
  by (auto simp: buddy_list_remove_def unlink_nxt_def unlink_prv_def unlink_head_def same_frames_def Let_def
      split: option.splits)

text \<open>Putting a block of the hole on its list.\<close>

lemma parts_add:
  assumes P: "buddy_parts s L (blk x k \<union> H)" and dj: "blk x k \<inter> H = {}" and k: "k \<le> BUDDY_MAX_ORDER"
    and al: "2 ^ k dvd x" and lo: "fr_reserved s \<le> x" and hi: "x + 2 ^ k \<le> fr_total s"
    and fr: "\<forall>f \<in> blk x k. \<not> fr_bitmap s f"
  shows "buddy_parts (buddy_list_add x k s) (L(k := x # L k)) H"
proof -
  let ?t = "buddy_list_add x k s" and ?L = "L(k := x # L k)"
  have out: "f \<notin> blk x k" if "j \<le> BUDDY_MAX_ORDER" "y \<in> set (L j)" "f \<in> blk y j" for f j y
    using parts_in_free [OF P that] by blast
  have xout: "x \<notin> set (L j)" if "j \<le> BUDDY_MAX_ORDER" for j
    using out [OF that, of x x] by auto
  have dist: "y \<noteq> z" if "j \<le> BUDDY_MAX_ORDER" "i \<le> BUDDY_MAX_ORDER" "j \<noteq> i" "y \<in> set (L j)" "z \<in> set (L i)" for i j y z
    using parts_disjoint [OF P that(1,2,4,5), of y] that(3) by auto
  have 1: "dll (fr_next ?t) (fr_prev ?t) (fr_heads ?t j) (?L j)" if j: "j \<le> BUDDY_MAX_ORDER" for j
  proof (cases "j = k")
    case True
    then show ?thesis using dll_insert_head [OF parts_dll [OF P k] xout [OF k]]
      by (simp add: buddy_list_add_def)
  next
    case False
    have "h \<notin> set (L j)" if "fr_heads s k = Some h" for h
      using dll_hd [of "fr_next s" "fr_prev s" h "L k"] parts_dll [OF P k] that dist [OF j k False]
      by (metis hd_in_set)
    then have "dll (fr_next ?t) (fr_prev ?t) (fr_heads s j) (L j) = dll (fr_next s) (fr_prev s) (fr_heads s j) (L j)"
      using xout [OF j] by (intro dll_cong) (auto simp: buddy_list_add_def split: option.splits)
    then show ?thesis using parts_dll [OF P j] False by (simp add: buddy_list_add_def)
  qed
  have 2: "fr_reserved ?t \<le> y \<and> y + 2 ^ j \<le> fr_total ?t \<and> 2 ^ j dvd y \<and> fr_order ?t y = j"
    if "j \<le> BUDDY_MAX_ORDER" "y \<in> set (?L j)" for j y
    using that parts_block [OF P, of j y] xout [OF that(1)] al lo hi
    by (auto simp: buddy_list_add_def split: if_splits)
  have 3: "y = y' \<and> j = j'"
    if "j \<le> BUDDY_MAX_ORDER" "j' \<le> BUDDY_MAX_ORDER" "y \<in> set (?L j)" "y' \<in> set (?L j')" "f \<in> blk y j" "f \<in> blk y' j'" for j j' y y' f
    using that parts_disjoint [OF P, of j j' y y' f] out [of j y f] out [of j' y' f]
    by (auto split: if_splits simp del: in_blk)
  have 4: "(\<exists>j \<le> BUDDY_MAX_ORDER. \<exists>y \<in> set (?L j). f \<in> blk y j)
      \<longleftrightarrow> fr_reserved ?t \<le> f \<and> f < fr_total ?t \<and> \<not> fr_bitmap ?t f \<and> f \<notin> H" for f
  proof -
    have "(\<exists>j \<le> BUDDY_MAX_ORDER. \<exists>y \<in> set (?L j). f \<in> blk y j)
        \<longleftrightarrow> f \<in> blk x k \<or> (\<exists>j \<le> BUDDY_MAX_ORDER. \<exists>y \<in> set (L j). f \<in> blk y j)"
      using k by (auto simp del: in_blk split: if_splits)
    also have "\<dots> \<longleftrightarrow> f \<in> blk x k \<or> fr_reserved s \<le> f \<and> f < fr_total s \<and> \<not> fr_bitmap s f \<and> f \<notin> blk x k \<union> H"
      unfolding parts_free [OF P] ..
    also have "\<dots> \<longleftrightarrow> fr_reserved s \<le> f \<and> f < fr_total s \<and> \<not> fr_bitmap s f \<and> f \<notin> H"
      using dj lo hi fr by (auto simp: disjoint_iff)
    finally show ?thesis by (simp add: buddy_list_add_def)
  qed
  have 5: "BUDDY_MAX_ORDER < fr_order ?t f" if "fr_reserved ?t \<le> f" "f < fr_total ?t" "fr_bitmap ?t f" for f
    using that parts_used [OF P, of f] fr by (auto simp: buddy_list_add_def)
  show ?thesis unfolding buddy_parts_def using 1 2 3 4 5 by (intro conjI allI impI ballI; blast)
qed

text \<open>Taking a block off its list makes it part of the hole.\<close>

lemma parts_remove:
  assumes P: "buddy_parts s L H" and k: "k \<le> BUDDY_MAX_ORDER" and x: "x \<in> set (L k)"
  shows "buddy_parts (buddy_list_remove x k s) (L(k := remove1 x (L k))) (blk x k \<union> H)"
    and "same_frames (buddy_list_remove x k s) s"
    and "fr_order (buddy_list_remove x k s) = (fr_order s)(x := BUDDY_ALLOCATED)"
proof -
  obtain as bs where sp: "L k = as @ x # bs" using x by (meson split_list)
  note d = parts_dll [OF P k, unfolded sp]
  have dist: "distinct (as @ x # bs)" by (rule dll_distinct [OF d])
  have "fr_prev s x = (if as = [] then None else Some (last as))" by (rule dll_middle(1) [OF d])
  then have self: "fr_prev s x \<noteq> Some x" using dist by (auto split: if_splits)
  note fl = list_remove_fields [OF self, of k]
  have "\<not> fr_bitmap s x" using parts_in_free [OF P k x, of x] by simp
  then show same: "same_frames (buddy_list_remove x k s) s" by (rule fl)
  show ord: "fr_order (buddy_list_remove x k s) = (fr_order s)(x := BUDDY_ALLOCATED)" by (rule fl)
  let ?t = "buddy_list_remove x k s" and ?L = "L(k := remove1 x (L k))"
  have rm: "remove1 x (L k) = as @ bs" using dist by (simp add: sp remove1_append)
  have mem: "y \<in> set (?L j) \<longleftrightarrow> y \<in> set (L j) \<and> \<not> (j = k \<and> y = x)" for j y
    using dist by (auto simp: rm sp)
  have other: "y \<notin> set (L k)" if "j \<le> BUDDY_MAX_ORDER" "j \<noteq> k" "y \<in> set (L j)" for j y
    using parts_disjoint [OF P that(1) k that(3), of y y] that(2) by auto
  have f0: "fr_total ?t = fr_total s" "fr_reserved ?t = fr_reserved s" "fr_bitmap ?t = fr_bitmap s"
    using same by (auto simp: same_frames_def)
  have 1: "dll (fr_next ?t) (fr_prev ?t) (fr_heads ?t j) (?L j)" if j: "j \<le> BUDDY_MAX_ORDER" for j
  proof (cases "j = k")
    case True
    then show ?thesis using dll_unlink [OF d] by (simp add: fl rm)
  next
    case False
    have "dll (fr_next ?t) (fr_prev ?t) (fr_heads s j) (L j) = dll (fr_next s) (fr_prev s) (fr_heads s j) (L j)"
      using unlink_outside [OF d] other [OF j False] by (intro dll_cong) (auto simp: fl sp)
    then show ?thesis using parts_dll [OF P j] False by (simp add: fl)
  qed
  have 2: "fr_reserved ?t \<le> y \<and> y + 2 ^ j \<le> fr_total ?t \<and> 2 ^ j dvd y \<and> fr_order ?t y = j"
    if j: "j \<le> BUDDY_MAX_ORDER" and y: "y \<in> set (?L j)" for j y
  proof -
    from y have "y \<in> set (L j) \<and> \<not> (j = k \<and> y = x)" unfolding mem .
    moreover from this have "y \<noteq> x" using other [OF j] x by blast
    ultimately have "y \<in> set (L j)" "y \<noteq> x" by simp_all
    then show ?thesis using parts_block [OF P j, of y] by (simp add: f0 ord)
  qed
  have 3: "y = y' \<and> j = j'"
    if "j \<le> BUDDY_MAX_ORDER" "j' \<le> BUDDY_MAX_ORDER" "y \<in> set (?L j)" "y' \<in> set (?L j')" "f \<in> blk y j" "f \<in> blk y' j'" for j j' y y' f
    using that parts_disjoint [OF P, of j j' y y' f] by (simp only: mem)
  have 4: "(\<exists>j \<le> BUDDY_MAX_ORDER. \<exists>y \<in> set (?L j). f \<in> blk y j)
      \<longleftrightarrow> fr_reserved ?t \<le> f \<and> f < fr_total ?t \<and> \<not> fr_bitmap ?t f \<and> f \<notin> blk x k \<union> H" for f
  proof -
    have "(\<exists>j \<le> BUDDY_MAX_ORDER. \<exists>y \<in> set (?L j). f \<in> blk y j)
        \<longleftrightarrow> (\<exists>j \<le> BUDDY_MAX_ORDER. \<exists>y \<in> set (L j). f \<in> blk y j) \<and> f \<notin> blk x k"
    proof -
      have dj: "y = x \<and> j = k" if "j \<le> BUDDY_MAX_ORDER" "y \<in> set (L j)" "f \<in> blk y j" "f \<in> blk x k" for j y
        using parts_disjoint [OF P that(1) k that(2) x that(3,4)] .
      show ?thesis unfolding Bex_def mem using dj by blast
    qed
    then show ?thesis unfolding parts_free [OF P] f0 by blast
  qed
  have 5: "BUDDY_MAX_ORDER < fr_order ?t f" if "fr_reserved ?t \<le> f" "f < fr_total ?t" "fr_bitmap ?t f" for f
    using that parts_used [OF P, of f] by (auto simp: f0 ord BUDDY_ALLOCATED_def BUDDY_MAX_ORDER_def)
  show "buddy_parts ?t ?L (blk x k \<union> H)" unfolding buddy_parts_def using 1 2 3 4 5 by (intro conjI allI impI ballI; blast)
qed

end
