(* ===== verification/Frames_Alloc.thy ===== *)
theory Frames_Alloc
  imports Frames_Inv
begin

text \<open>
  The buddy core preserves the partition (theory Frames_Inv): building the lists,
  allocating with splits, freeing with merges; and the per-CPU caches over it never lose,
  duplicate or re-issue a frame.
\<close>

section \<open>Freeing with coalescing\<close>

lemma parts_stats:
  "buddy_parts (s\<lparr>fr_coalesces := c\<rparr>) L H = buddy_parts s L H"
  "buddy_parts (s\<lparr>fr_built := b\<rparr>) L H = buddy_parts s L H"
  by (simp_all add: buddy_parts_def)

lemma buddy_merge:
  assumes P: "buddy_parts s L (blk cur k)" and k: "k < BUDDY_MAX_ORDER"
    and al: "2 ^ k dvd cur" and lo: "fr_reserved s \<le> cur"
    and b: "fr_reserved s \<le> buddy_address cur k" "buddy_address cur k < fr_total s"
           "fr_order s (buddy_address cur k) = k"
  defines "m \<equiv> (if buddy_address cur k < cur then buddy_address cur k else cur)"
  shows "buddy_address cur k \<in> set (L k)" and "2 ^ Suc k dvd m"
    and "blk (buddy_address cur k) k \<union> blk cur k = blk m (Suc k)"
proof -
  let ?b = "buddy_address cur k"
  have c: "2 ^ Suc k dvd m \<and> (?b = m \<and> cur = m + 2 ^ k \<or> cur = m \<and> ?b = m + 2 ^ k)"
  proof -
    have "cur - 2 ^ k < cur" if "2 ^ k \<le> cur"
      using that by (metis diff_less less_le_trans zero_less_numeral zero_less_power)
    then show ?thesis using buddy_cases [OF al] unfolding m_def by auto
  qed
  then show m2: "2 ^ Suc k dvd m" ..
  show un: "blk ?b k \<union> blk cur k = blk m (Suc k)" using c by (auto simp: blk_def)
  have bal: "2 ^ k dvd ?b" using c by (metis dvd_add_triv_right_iff dvd_mult_right power_Suc dvd_mult_left mult.commute)
  have "\<not> fr_bitmap s ?b" using parts_used [OF P b(1,2)] b(3) k by auto
  moreover have "?b \<notin> blk cur k" using c by auto
  ultimately obtain k' x where kx: "k' \<le> BUDDY_MAX_ORDER" "x \<in> set (L k')" "?b \<in> blk x k'"
    using parts_free [OF P, of ?b] b by blast
  note B = parts_block [OF P kx(1,2)]
  show "?b \<in> set (L k)"
  proof (cases "k' \<le> k")
    case True
    then have "2 ^ k' dvd ?b" using bal by (meson dvd_trans le_imp_power_dvd)
    then have "?b = x" using B kx(3) by (blast intro: same_start)
    then show ?thesis using B kx(2) b(3) by simp
  next
    case False
    then have sk: "Suc k \<le> k'" by simp
    have bm: "?b \<in> blk m (Suc k)" using un by auto
    have xd: "2 ^ k' dvd x" using B by blast
    have "blk m (Suc k) \<subseteq> blk x k'" by (rule blocks_nested [OF m2 xd sk bm kx(3)])
    moreover have "cur \<in> blk m (Suc k)" unfolding un [symmetric] by simp
    ultimately have "cur \<in> blk x k'" by blast
    from parts_in_free [OF P kx(1,2) this] show ?thesis by auto
  qed
qed

lemma coalesce_parts:
  assumes "buddy_parts s L (blk cur k)" and "k \<le> BUDDY_MAX_ORDER" and "2 ^ k dvd cur"
    and "fr_reserved s \<le> cur" and "cur + 2 ^ k \<le> fr_total s" and "\<forall>f \<in> blk cur k. \<not> fr_bitmap s f"
    and "buddy_coalesce cur k s = (c, k2, t)"
  shows "\<exists>L'. buddy_parts t L' (blk c k2) \<and> k2 \<le> BUDDY_MAX_ORDER \<and> 2 ^ k2 dvd c
     \<and> fr_reserved t \<le> c \<and> c + 2 ^ k2 \<le> fr_total t \<and> (\<forall>f \<in> blk c k2. \<not> fr_bitmap t f)
     \<and> same_frames t s \<and> k \<le> k2"
  using assms
proof (induction cur k s arbitrary: L rule: buddy_coalesce.induct)
  case (1 cur k s)
  let ?b = "buddy_address cur k"
  let ?m = "if ?b < cur then ?b else cur"
  let ?go = "k < BUDDY_MAX_ORDER \<and> fr_reserved s \<le> ?b \<and> ?b < fr_total s \<and> fr_order s ?b = k"
  show ?case
  proof (cases ?go)
    case False
    then have "buddy_coalesce cur k s = (cur, k, s)" by (auto simp: buddy_coalesce.simps [of cur k s] Let_def)
    then have "c = cur" "k2 = k" "t = s" using "1.prems"(7) by auto
    then show ?thesis using "1.prems" by auto
  next
    case go: True
    then have kM: "k < BUDDY_MAX_ORDER" by blast
    from go have gb: "fr_reserved s \<le> ?b" "?b < fr_total s" "fr_order s ?b = k" by blast+
    note M = buddy_merge [OF "1.prems"(1) kM "1.prems"(3,4) gb]
    let ?t = "buddy_list_remove ?b k s"
    note R = parts_remove [OF "1.prems"(1) _ M(1)]
    have k9: "k \<le> BUDDY_MAX_ORDER" using kM by simp
    have R1: "buddy_parts ?t (L(k := remove1 ?b (L k))) (blk ?m (Suc k))"
      using R(1) [OF k9] unfolding M(3) .
    have same: "same_frames ?t s" using R(2) [OF k9] .
    then have f0: "fr_total ?t = fr_total s" "fr_reserved ?t = fr_reserved s" "fr_bitmap ?t = fr_bitmap s"
      by (auto simp: same_frames_def)
    have al: "is_aligned_to_order (if cur < ?b then cur else ?b) (k + 1)"
    proof -
      have "(if cur < ?b then cur else ?b) = ?m" by auto
      then show ?thesis using M(2) by (simp only: is_aligned_iff Suc_eq_plus1)
    qed
    have step: "buddy_coalesce cur k s = buddy_coalesce ?m (k + 1) ?t"
      using go al by (subst buddy_coalesce.simps) (simp add: Let_def)
    note B = parts_block [OF "1.prems"(1) k9 M(1)]
    have bfree: "\<forall>f \<in> blk ?b k. \<not> fr_bitmap s f"
      using parts_in_free [OF "1.prems"(1) k9 M(1)] by blast
    have allfree: "\<forall>f \<in> blk ?m (Suc k). \<not> fr_bitmap ?t f"
      using bfree "1.prems"(6) unfolding M(3) [symmetric] f0 by blast
    have hi: "?m + 2 ^ Suc k \<le> fr_total ?t"
    proof -
      have "?m + 2 ^ Suc k = (if ?b < cur then cur + 2 ^ k else ?b + 2 ^ k)"
        using buddy_cases [OF "1.prems"(3)] by auto
      then show ?thesis using B "1.prems"(5) f0 by auto
    qed
    have "\<exists>L'. buddy_parts t L' (blk c k2) \<and> k2 \<le> BUDDY_MAX_ORDER \<and> 2 ^ k2 dvd c
       \<and> fr_reserved t \<le> c \<and> c + 2 ^ k2 \<le> fr_total t \<and> (\<forall>f \<in> blk c k2. \<not> fr_bitmap t f)
       \<and> same_frames t ?t \<and> k + 1 \<le> k2"
    proof (rule "1.IH")
      show "k < BUDDY_MAX_ORDER" by (rule kM)
      show "\<not> (?b < fr_reserved s \<or> fr_total s \<le> ?b \<or> fr_order s ?b \<noteq> k
         \<or> \<not> is_aligned_to_order (if cur < ?b then cur else ?b) (k + 1))" using go al by auto
      show "buddy_parts ?t (L(k := remove1 ?b (L k))) (blk ?m (k + 1))" using R1 by simp
      show "2 ^ (k + 1) dvd ?m" using M(2) by simp
      show "fr_reserved ?t \<le> ?m" using gb "1.prems"(4) f0 by auto
      show "?m + 2 ^ (k + 1) \<le> fr_total ?t" using hi by simp
      show "\<forall>f \<in> blk ?m (k + 1). \<not> fr_bitmap ?t f" using allfree by simp
      show "buddy_coalesce ?m (k + 1) ?t = (c, k2, t)" using step "1.prems"(7) by simp
    qed (use kM in simp_all)
    then show ?thesis using same same_frames_trans by (metis add_leD1)
  qed
qed

text \<open>The state between freeing the frame's bookkeeping and relinking its block.\<close>

lemma free_locked_parts:
  assumes P: "buddy_parts s L {}" and f: "fr_reserved s \<le> f" "f < fr_total s" "fr_bitmap s f"
    and r: "fr_refs s f < FRAME_PINNED"
  shows "\<exists>L'. buddy_parts (buddy_free_locked (f * 4096) s) L' {}"
    and "same_frames (buddy_free_locked (f * 4096) s)
      (s\<lparr>fr_refs := (fr_refs s)(f := 0), fr_used := fr_used s - 1, fr_bitmap := (fr_bitmap s)(f := False)\<rparr>)"
proof -
  let ?s1 = "s\<lparr>fr_refs := (fr_refs s)(f := 0), fr_used := fr_used s - 1, fr_bitmap := (fr_bitmap s)(f := False)\<rparr>"
  have P1: "buddy_parts ?s1 L (blk f 0)"
  proof -
    have "(\<exists>k \<le> BUDDY_MAX_ORDER. \<exists>x \<in> set (L k). g \<in> blk x k)
        \<longleftrightarrow> fr_reserved ?s1 \<le> g \<and> g < fr_total ?s1 \<and> \<not> fr_bitmap ?s1 g \<and> g \<notin> blk f 0" for g
      unfolding parts_free [OF P] using f by (auto simp: blk_0)
    moreover have "BUDDY_MAX_ORDER < fr_order ?s1 g"
      if "fr_reserved ?s1 \<le> g" "g < fr_total ?s1" "fr_bitmap ?s1 g" for g
      using that parts_used [OF P, of g] by (auto split: if_splits)
    ultimately show ?thesis
      using P unfolding buddy_parts_def by simp
  qed
  obtain c k t where co: "buddy_coalesce f 0 ?s1 = (c, k, t)" by (metis prod_cases3)
  have "\<exists>L'. buddy_parts t L' (blk c k) \<and> k \<le> BUDDY_MAX_ORDER \<and> 2 ^ k dvd c
     \<and> fr_reserved t \<le> c \<and> c + 2 ^ k \<le> fr_total t \<and> (\<forall>f \<in> blk c k. \<not> fr_bitmap t f)
     \<and> same_frames t ?s1 \<and> 0 \<le> k"
    by (rule coalesce_parts [OF P1 _ _ _ _ _ co]) (use f in \<open>auto simp: blk_0\<close>)
  then obtain L' where C: "buddy_parts t L' (blk c k \<union> {})" "k \<le> BUDDY_MAX_ORDER" "2 ^ k dvd c"
    "fr_reserved t \<le> c" "c + 2 ^ k \<le> fr_total t" "\<forall>f \<in> blk c k. \<not> fr_bitmap t f" "same_frames t ?s1"
    by auto
  have res: "buddy_free_locked (f * 4096) s
      = (buddy_list_add c k t)\<lparr>fr_coalesces := fr_coalesces (buddy_list_add c k t) + of_nat k\<rparr>"
  proof -
    have u: "(if fr_used s > 0 then fr_used s - 1 else fr_used s) = fr_used s - 1" by simp
    show ?thesis unfolding buddy_free_locked_def Let_def u using f r co by simp
  qed
  have "buddy_parts (buddy_list_add c k t) (L'(k := c # L' k)) {}"
    by (rule parts_add [OF C(1) _ C(2-6)]) simp
  then show "\<exists>L'. buddy_parts (buddy_free_locked (f * 4096) s) L' {}"
    unfolding res parts_stats by blast
  show "same_frames (buddy_free_locked (f * 4096) s) ?s1"
    using C(6,7) list_add_same [of t c k] unfolding res by (simp add: same_frames_def)
qed

section \<open>Building the lists\<close>

lemma rebuild_loop:
  assumes "buddy_parts s L {f. i \<le> f \<and> f < n \<and> \<not> fr_bitmap s f}" and "fr_reserved s \<le> i" and "n = fr_total s" and "i \<le> n"
  shows "\<exists>L'. buddy_parts (fold (\<lambda>i s. if \<not> fr_bitmap s i then buddy_list_add i 0 s else s) [i..<n] s) L' {}
    \<and> same_frames (fold (\<lambda>i s. if \<not> fr_bitmap s i then buddy_list_add i 0 s else s) [i..<n] s) s"
  using assms
proof (induction "n - i" arbitrary: i s L)
  case 0
  then have "{f. i \<le> f \<and> f < n \<and> \<not> fr_bitmap s f} = {}" and nil: "[i..<n] = []" by auto
  with "0.prems"(1) have "buddy_parts s L {}" by metis
  then show ?case unfolding nil by auto
next
  case (Suc d)
  then have i: "i < n" and rng: "[i..<n] = i # [Suc i..<n]" by (auto simp: upt_conv_Cons)
  let ?H = "\<lambda>s i. {f. i \<le> f \<and> f < n \<and> \<not> fr_bitmap s f}"
  let ?t = "if \<not> fr_bitmap s i then buddy_list_add i 0 s else s"
  have same: "same_frames ?t s" by (simp add: list_add_same)
  then have f0: "fr_total ?t = fr_total s" "fr_reserved ?t = fr_reserved s" "fr_bitmap ?t = fr_bitmap s"
    unfolding same_frames_def by blast+
  have "\<exists>L'. buddy_parts ?t L' (?H ?t (Suc i))"
  proof (cases "fr_bitmap s i")
    case True
    then have "?H s i = ?H s (Suc i)" by (auto simp: Suc_le_eq le_less)
    then show ?thesis using Suc.prems(1) True by auto
  next
    case False
    then have "?H s i = blk i 0 \<union> ?H s (Suc i)" using i by (auto simp: blk_0 Suc_le_eq le_less)
    with Suc.prems(1) have "buddy_parts s L (blk i 0 \<union> ?H s (Suc i))" by (simp only:)
    then have "buddy_parts (buddy_list_add i 0 s) (L(0 := i # L 0)) (?H s (Suc i))"
      by (rule parts_add) (use False i Suc.prems in \<open>auto simp: blk_0\<close>)
    then show ?thesis using False by (auto simp: buddy_list_add_def)
  qed
  then obtain L' where "buddy_parts ?t L' (?H ?t (Suc i))" ..
  from Suc.hyps(1) [OF _ this] have "\<exists>L'. buddy_parts (fold (\<lambda>i s. if \<not> fr_bitmap s i then buddy_list_add i 0 s else s) [Suc i..<n] ?t) L' {}
    \<and> same_frames (fold (\<lambda>i s. if \<not> fr_bitmap s i then buddy_list_add i 0 s else s) [Suc i..<n] ?t) ?t"
    using Suc.hyps(2) Suc.prems f0 i by auto
  then show ?case unfolding rng using same same_frames_trans by (auto simp del: upt_Suc)
qed

definition used_unordered :: "frames \<Rightarrow> bool" where
  "used_unordered s \<longleftrightarrow>
     (\<forall>f. fr_reserved s \<le> f \<and> f < fr_total s \<and> fr_bitmap s f \<longrightarrow> BUDDY_MAX_ORDER < fr_order s f)"

lemma rebuild_parts:
  assumes "used_unordered s" and "fr_reserved s \<le> fr_total s"
  shows "\<exists>L. buddy_parts (buddy_rebuild_lists s) L {}"
    and "same_frames (buddy_rebuild_lists s) (s\<lparr>fr_built := True\<rparr>)"
proof -
  let ?s0 = "s\<lparr>fr_heads := (\<lambda>o'. if o' \<le> BUDDY_MAX_ORDER then None else fr_heads s o')\<rparr>"
  let ?loop = "fold (\<lambda>i s. if \<not> fr_bitmap s i then buddy_list_add i 0 s else s) [fr_reserved s..<fr_total s] ?s0"
  have "buddy_parts ?s0 (\<lambda>_. []) {f. fr_reserved s \<le> f \<and> f < fr_total s \<and> \<not> fr_bitmap ?s0 f}"
    using assms(1) by (auto simp: buddy_parts_def used_unordered_def)
  from rebuild_loop [OF this] assms(2) obtain L' where
    L: "buddy_parts ?loop L' {}" "same_frames ?loop ?s0" by auto
  have res: "buddy_rebuild_lists s = ?loop\<lparr>fr_built := True\<rparr>" by (simp add: buddy_rebuild_lists_def)
  show "\<exists>L. buddy_parts (buddy_rebuild_lists s) L {}"
    using L(1) unfolding res parts_stats by blast
  show "same_frames (buddy_rebuild_lists s) (s\<lparr>fr_built := True\<rparr>)"
    using L(2) unfolding res by (simp add: same_frames_def)
qed

section \<open>Allocating with splits\<close>

lemma split_parts:
  assumes "buddy_parts s L (blk f k)" and "k \<le> BUDDY_MAX_ORDER" and "2 ^ k dvd f"
    and "fr_reserved s \<le> f" and "f + 2 ^ k \<le> fr_total s" and "\<forall>g \<in> blk f k. \<not> fr_bitmap s g"
  shows "\<exists>L'. buddy_parts (buddy_split f k s) L' {f}
    \<and> same_frames (buddy_split f k s) s \<and> fr_order (buddy_split f k s) f = fr_order s f"
  using assms
proof (induction k arbitrary: s L)
  case 0
  then show ?case by (auto simp: blk_0)
next
  case (Suc k)
  let ?h = "f + 2 ^ k"
  have un: "blk f (Suc k) = blk ?h k \<union> blk f k" and dj: "blk ?h k \<inter> blk f k = {}" by (auto simp: blk_def)
  have al: "2 ^ k dvd f" using Suc.prems(3) by (metis dvd_mult_right power_Suc)
  have P: "buddy_parts s L (blk ?h k \<union> blk f k)" using Suc.prems(1) unfolding un .
  have A: "buddy_parts (buddy_list_add ?h k s) (L(k := ?h # L k)) (blk f k)"
    by (rule parts_add [OF P dj]) (use Suc.prems al un in auto)
  have f0: "fr_total (buddy_list_add ?h k s) = fr_total s" "fr_reserved (buddy_list_add ?h k s) = fr_reserved s"
    "fr_bitmap (buddy_list_add ?h k s) = fr_bitmap s" "fr_order (buddy_list_add ?h k s) f = fr_order s f"
    by (simp_all add: buddy_list_add_def)
  from Suc.IH [OF A] have "\<exists>L'. buddy_parts (buddy_split f k (buddy_list_add ?h k s)) L' {f}
    \<and> same_frames (buddy_split f k (buddy_list_add ?h k s)) (buddy_list_add ?h k s)
    \<and> fr_order (buddy_split f k (buddy_list_add ?h k s)) f = fr_order (buddy_list_add ?h k s) f"
    using Suc.prems al f0 un by auto
  moreover have "\<not> fr_bitmap s ?h" using Suc.prems(6) un by auto
  ultimately show ?case using list_add_same [of s ?h k] same_frames_trans f0
    by (auto simp: push_bit_eq_mult)
qed

text \<open>Before the lists exist every list head is empty and the in-use frames carry no order.\<close>

definition buddy_ok :: "frames \<Rightarrow> bool" where
  "buddy_ok s \<longleftrightarrow> fr_reserved s \<le> fr_total s \<and>
     (if fr_built s then \<exists>L. buddy_parts s L {} else used_unordered s)"

definition with_built :: "frames \<Rightarrow> frames" where
  "with_built s = (if fr_built s then s else buddy_rebuild_lists s)"

lemma with_built_parts:
  assumes "buddy_ok s"
  shows "\<exists>L. buddy_parts (with_built s) L {}" and "same_frames (with_built s) (s\<lparr>fr_built := True\<rparr>)"
proof -
  show "\<exists>L. buddy_parts (with_built s) L {}"
    using assms rebuild_parts(1) [of s] unfolding buddy_ok_def with_built_def by (auto split: if_splits)
  show "same_frames (with_built s) (s\<lparr>fr_built := True\<rparr>)"
    using assms rebuild_parts(2) [of s] unfolding buddy_ok_def with_built_def
    by (auto simp: same_frames_def split: if_splits)
qed

lemma buddy_okI: "buddy_parts s L {} \<Longrightarrow> fr_reserved s \<le> fr_total s \<Longrightarrow> fr_built s \<Longrightarrow> buddy_ok s"
  by (auto simp: buddy_ok_def)

lemma alloc_locked:
  assumes ok: "buddy_ok s" and a: "buddy_alloc_locked s = (p, t)" and r0: "0 < fr_reserved s"
  shows "buddy_ok t"
    and "p = 0 \<Longrightarrow> (\<forall>f. fr_reserved s \<le> f \<and> f < fr_total s \<longrightarrow> fr_bitmap s f) \<and> same_frames t (s\<lparr>fr_built := True\<rparr>)"
    and "p \<noteq> 0 \<Longrightarrow> \<exists>f. p = f * 4096 \<and> fr_reserved s \<le> f \<and> f < fr_total s \<and> \<not> fr_bitmap s f
       \<and> same_frames t (s\<lparr>fr_built := True, fr_bitmap := (fr_bitmap s)(f := True),
                          fr_order := (fr_order s)(f := BUDDY_ALLOCATED), fr_refs := (fr_refs s)(f := 1), fr_used := fr_used s + 1\<rparr>)"
proof -
  let ?s = "with_built s"
  obtain L where P: "buddy_parts ?s L {}" using with_built_parts(1) [OF ok] by blast
  note W = with_built_parts(2) [OF ok]
  then have f0: "fr_total ?s = fr_total s" "fr_reserved ?s = fr_reserved s" "fr_bitmap ?s = fr_bitmap s" "fr_built ?s"
    by (auto simp: same_frames_def)
  have rt: "fr_reserved s \<le> fr_total s" using ok by (simp add: buddy_ok_def)
  let ?find = "first_idx (\<lambda>k. fr_heads ?s k \<noteq> None) 0 (Suc BUDDY_MAX_ORDER)"
  have a': "(case ?find of None \<Rightarrow> (0, ?s)
         | Some k \<Rightarrow>
             (let f = the (fr_heads ?s k);
                  s1 = buddy_split f k (buddy_list_remove f k ?s)
              in (f * 4096, s1\<lparr>fr_bitmap := (fr_bitmap s1)(f := True),
                               fr_refs := (fr_refs s1)(f := 1),
                               fr_used := fr_used s1 + 1\<rparr>))) = (p, t)"
    using a by (simp only: buddy_alloc_locked_def with_built_def Let_def)
  have "buddy_ok t \<and> (p = 0 \<longrightarrow> (\<forall>f. fr_reserved s \<le> f \<and> f < fr_total s \<longrightarrow> fr_bitmap s f) \<and> same_frames t (s\<lparr>fr_built := True\<rparr>))
    \<and> (p \<noteq> 0 \<longrightarrow> (\<exists>f. p = f * 4096 \<and> fr_reserved s \<le> f \<and> f < fr_total s \<and> \<not> fr_bitmap s f
       \<and> same_frames t (s\<lparr>fr_built := True, fr_bitmap := (fr_bitmap s)(f := True),
                          fr_order := (fr_order s)(f := BUDDY_ALLOCATED), fr_refs := (fr_refs s)(f := 1), fr_used := fr_used s + 1\<rparr>)))"
  proof (cases ?find)
    case None
    then have heads: "fr_heads ?s k = None" if "k \<le> BUDDY_MAX_ORDER" for k
      using that by (auto simp: first_idx_None)
    have "L k = []" if "k \<le> BUDDY_MAX_ORDER" for k
      using parts_dll [OF P that] heads [OF that] by simp
    then have "\<forall>f. fr_reserved s \<le> f \<and> f < fr_total s \<longrightarrow> fr_bitmap s f"
    proof (intro allI impI)
      fix f assume "fr_reserved s \<le> f \<and> f < fr_total s"
      moreover have "\<not> (\<exists>k \<le> BUDDY_MAX_ORDER. \<exists>x \<in> set (L k). f \<in> blk x k)"
        using \<open>\<And>k. k \<le> BUDDY_MAX_ORDER \<Longrightarrow> L k = []\<close> by (metis empty_iff list.set(1))
      ultimately show "fr_bitmap s f" unfolding parts_free [OF P] f0 by blast
    qed
    moreover have "p = 0" "t = ?s" using a' None by auto
    ultimately show ?thesis using buddy_okI [OF P] f0 rt W by auto
  next
    case (Some k)
    then have k: "k \<le> BUDDY_MAX_ORDER" and hk: "fr_heads ?s k \<noteq> None"
      using first_idx_Some [OF Some] by auto
    then obtain f where f: "fr_heads ?s k = Some f" by auto
    have fL: "f \<in> set (L k)" using parts_dll [OF P k] f dll_hd by (metis hd_in_set)
    note B = parts_block [OF P k fL]
    note R = parts_remove [OF P k fL]
    let ?r = "buddy_list_remove f k ?s"
    have R1: "buddy_parts ?r (L(k := remove1 f (L k))) (blk f k)" using R(1) by simp
    have r0': "fr_total ?r = fr_total s" "fr_reserved ?r = fr_reserved s" "fr_bitmap ?r = fr_bitmap s"
      using R(2) f0 by (auto simp: same_frames_def)
    have bf: "\<forall>g \<in> blk f k. \<not> fr_bitmap s g"
    proof
      fix g assume "g \<in> blk f k"
      from parts_in_free [OF P k fL this] show "\<not> fr_bitmap s g" unfolding f0 by blast
    qed
    have "\<exists>L'. buddy_parts (buddy_split f k ?r) L' {f}
      \<and> same_frames (buddy_split f k ?r) ?r \<and> fr_order (buddy_split f k ?r) f = fr_order ?r f"
      by (rule split_parts [OF R1 k]) (use B r0' f0 bf in auto)
    then obtain L' where S: "buddy_parts (buddy_split f k ?r) L' {f}"
      "same_frames (buddy_split f k ?r) ?r" "fr_order (buddy_split f k ?r) f = BUDDY_ALLOCATED"
      using R(3) by auto
    let ?u = "buddy_split f k ?r"
    have pt: "p = f * 4096" "t = ?u\<lparr>fr_bitmap := (fr_bitmap ?u)(f := True), fr_refs := (fr_refs ?u)(f := 1), fr_used := fr_used ?u + 1\<rparr>"
      using a' Some f by (auto simp: Let_def)
    have u0: "fr_total ?u = fr_total s" "fr_reserved ?u = fr_reserved s" "fr_bitmap ?u = fr_bitmap s"
      using S(2) r0' by (auto simp: same_frames_def)
    have Pt: "buddy_parts t L' {}"
    proof -
      have "(\<exists>k \<le> BUDDY_MAX_ORDER. \<exists>x \<in> set (L' k). g \<in> blk x k)
          \<longleftrightarrow> fr_reserved t \<le> g \<and> g < fr_total t \<and> \<not> fr_bitmap t g \<and> g \<notin> {}" for g
        unfolding parts_free [OF S(1)] pt by auto
      moreover have "BUDDY_MAX_ORDER < fr_order t g" if "fr_reserved t \<le> g" "g < fr_total t" "fr_bitmap t g" for g
        using that parts_used [OF S(1), of g] S(3)
        by (auto simp: pt BUDDY_ALLOCATED_def BUDDY_MAX_ORDER_def split: if_splits)
      ultimately show ?thesis using S(1) unfolding buddy_parts_def pt by simp
    qed
    have same: "same_frames t (s\<lparr>fr_built := True, fr_bitmap := (fr_bitmap s)(f := True),
        fr_order := (fr_order s)(f := BUDDY_ALLOCATED), fr_refs := (fr_refs s)(f := 1), fr_used := fr_used s + 1\<rparr>)"
      using S(2,3) R(2) W unfolding pt by (simp add: same_frames_def)
    have bt: "fr_built t" "fr_reserved t \<le> fr_total t" using same rt by (auto simp: same_frames_def)
    have p0: "p \<noteq> 0" using B f0 r0 pt by simp
    have nb: "\<not> fr_bitmap s f" using bf by auto
    have lo: "fr_reserved s \<le> f" using B f0 by simp
    have hi: "f < fr_total s"
      using parts_in_free [OF P k fL, of f] f0 by auto
    have okt: "buddy_ok t" by (rule buddy_okI [OF Pt bt(2,1)])
    from pt(1) lo hi nb same have "\<exists>f. p = f * 4096 \<and> fr_reserved s \<le> f \<and> f < fr_total s \<and> \<not> fr_bitmap s f
       \<and> same_frames t (s\<lparr>fr_built := True, fr_bitmap := (fr_bitmap s)(f := True),
                          fr_order := (fr_order s)(f := BUDDY_ALLOCATED), fr_refs := (fr_refs s)(f := 1), fr_used := fr_used s + 1\<rparr>)" by blast
    then show ?thesis using okt p0 by blast
  qed
  then show "buddy_ok t"
    and "p = 0 \<Longrightarrow> (\<forall>f. fr_reserved s \<le> f \<and> f < fr_total s \<longrightarrow> fr_bitmap s f) \<and> same_frames t (s\<lparr>fr_built := True\<rparr>)"
    and "p \<noteq> 0 \<Longrightarrow> \<exists>f. p = f * 4096 \<and> fr_reserved s \<le> f \<and> f < fr_total s \<and> \<not> fr_bitmap s f
       \<and> same_frames t (s\<lparr>fr_built := True, fr_bitmap := (fr_bitmap s)(f := True),
                          fr_order := (fr_order s)(f := BUDDY_ALLOCATED), fr_refs := (fr_refs s)(f := 1), fr_used := fr_used s + 1\<rparr>)"
    by blast+
qed

end
