(* ===== verification/Frames_Cache.thy ===== *)
theory Frames_Cache
  imports Frames_Alloc "HOL-Library.Multiset"
begin

text \<open>
  The frame allocator as its callers see it. \<open>frames_ok s M\<close> is the allocator's invariant
  with the pages \<open>M\<close> in flight between the free lists and the caches: the buddy
  partition, no page parked twice, every parked page in use with one reference, the
  used-page counter exact. A frame is live when a caller holds it: in use, not pinned, and
  not parked.
\<close>

definition parked :: "frames \<Rightarrow> nat multiset" where
  "parked s = (\<Sum>c < MAX_CORES. mset (fr_cache s c))"

definition live :: "frames \<Rightarrow> nat multiset \<Rightarrow> nat \<Rightarrow> bool" where
  "live s M f \<longleftrightarrow> fr_reserved s \<le> f \<and> f < fr_total s \<and> fr_bitmap s f \<and> fr_refs s f < FRAME_PINNED
     \<and> f * 4096 \<notin># M + parked s"

definition frames_ok :: "frames \<Rightarrow> nat multiset \<Rightarrow> bool" where
  "frames_ok s M \<longleftrightarrow>
     buddy_ok s \<and> 0 < fr_reserved s
     \<and> (\<forall>p. count (M + parked s) p \<le> 1)
     \<and> (\<forall>p \<in># M + parked s. \<exists>f. p = f * 4096 \<and> fr_reserved s \<le> f \<and> f < fr_total s \<and> fr_bitmap s f \<and> fr_refs s f = 1)
     \<and> (\<forall>c < MAX_CORES. length (fr_cache s c) \<le> PERCPU_CACHE_SIZE)
     \<and> (\<forall>f < fr_total s. fr_bitmap s f \<longleftrightarrow> f < fr_reserved s \<or> 0 < fr_refs s f)
     \<and> fr_used s = card {f. f < fr_total s \<and> fr_bitmap s f}
     \<and> (fr_zero s \<noteq> 0 \<longrightarrow> FRAME_PINNED \<le> fr_refs s (fr_zero s div 4096))
     \<and> (\<forall>f. fr_reserved s \<le> f \<and> f < fr_total s \<and> fr_bitmap s f \<longrightarrow> fr_built s \<or> FRAME_PINNED \<le> fr_refs s f)
     \<and> (\<forall>f. live s M f \<longrightarrow> fr_order s f \<noteq> BUDDY_CACHED)"

text \<open>What the callers hold: the live frames with their reference counts.\<close>

definition held :: "frames \<Rightarrow> nat multiset \<Rightarrow> nat \<Rightarrow> nat option" where
  "held s M f = (if live s M f then Some (fr_refs s f) else None)"

definition exhausted :: "frames \<Rightarrow> bool" where
  "exhausted s \<longleftrightarrow> (\<forall>f. fr_reserved s \<le> f \<and> f < fr_total s \<longrightarrow> fr_bitmap s f)"

lemma parked_upd:
  assumes "cid < MAX_CORES"
  shows "parked (s\<lparr>fr_cache := (fr_cache s)(cid := c)\<rparr>) + mset (fr_cache s cid) = parked s + mset c"
proof -
  have "(\<Sum>i < MAX_CORES. mset (((fr_cache s)(cid := c)) i))
      = mset c + (\<Sum>i \<in> {..<MAX_CORES} - {cid}. mset (fr_cache s i))"
    using assms by (subst sum.remove [of _ cid]) auto
  moreover have "(\<Sum>i < MAX_CORES. mset (fr_cache s i))
      = mset (fr_cache s cid) + (\<Sum>i \<in> {..<MAX_CORES} - {cid}. mset (fr_cache s i))"
    using assms by (subst sum.remove [of _ cid]) auto
  ultimately show ?thesis by (simp add: parked_def)
qed

lemma parked_ge: "cid < MAX_CORES \<Longrightarrow> mset (fr_cache s cid) \<subseteq># parked s"
  using parked_upd [of cid s "[]"] by (metis add.right_neutral mset.simps(1) mset_subset_eq_add_right)


lemma frames_okD:
  assumes "frames_ok s M"
  shows "buddy_ok s" "0 < fr_reserved s" "\<And>p. count (M + parked s) p \<le> 1"
    and "\<And>p. p \<in># M + parked s \<Longrightarrow> \<exists>f. p = f * 4096 \<and> fr_reserved s \<le> f \<and> f < fr_total s \<and> fr_bitmap s f \<and> fr_refs s f = 1"
    and "\<And>c. c < MAX_CORES \<Longrightarrow> length (fr_cache s c) \<le> PERCPU_CACHE_SIZE"
    and "\<And>f. f < fr_total s \<Longrightarrow> fr_bitmap s f \<longleftrightarrow> f < fr_reserved s \<or> 0 < fr_refs s f"
    and "fr_used s = card {f. f < fr_total s \<and> fr_bitmap s f}"
    and "fr_zero s \<noteq> 0 \<Longrightarrow> FRAME_PINNED \<le> fr_refs s (fr_zero s div 4096)"
    and "\<And>f. fr_reserved s \<le> f \<Longrightarrow> f < fr_total s \<Longrightarrow> fr_bitmap s f \<Longrightarrow> fr_refs s f < FRAME_PINNED \<Longrightarrow> fr_built s"
    and "\<And>f. live s M f \<Longrightarrow> fr_order s f \<noteq> BUDDY_CACHED"
proof -
  note A = assms [unfolded frames_ok_def]
  note A3 = A [THEN conjunct2, THEN conjunct2]
  note A5 = A3 [THEN conjunct2, THEN conjunct2]
  note A7 = A5 [THEN conjunct2, THEN conjunct2]
  show "buddy_ok s" by (rule A [THEN conjunct1])
  show "0 < fr_reserved s" by (rule A [THEN conjunct2, THEN conjunct1])
  show "\<And>p. count (M + parked s) p \<le> 1" by (rule A3 [THEN conjunct1, rule_format])
  show "\<And>p. p \<in># M + parked s \<Longrightarrow> \<exists>f. p = f * 4096 \<and> fr_reserved s \<le> f \<and> f < fr_total s \<and> fr_bitmap s f \<and> fr_refs s f = 1"
    by (rule A3 [THEN conjunct2, THEN conjunct1, rule_format])
  show "\<And>c. c < MAX_CORES \<Longrightarrow> length (fr_cache s c) \<le> PERCPU_CACHE_SIZE"
    by (rule A5 [THEN conjunct1, rule_format])
  show "\<And>f. f < fr_total s \<Longrightarrow> fr_bitmap s f \<longleftrightarrow> f < fr_reserved s \<or> 0 < fr_refs s f"
    by (rule A5 [THEN conjunct2, THEN conjunct1, rule_format])
  show "fr_used s = card {f. f < fr_total s \<and> fr_bitmap s f}" by (rule A7 [THEN conjunct1])
  show "fr_zero s \<noteq> 0 \<Longrightarrow> FRAME_PINNED \<le> fr_refs s (fr_zero s div 4096)"
    by (rule A7 [THEN conjunct2, THEN conjunct1, THEN mp])
  show "\<And>f. fr_reserved s \<le> f \<Longrightarrow> f < fr_total s \<Longrightarrow> fr_bitmap s f \<Longrightarrow> fr_refs s f < FRAME_PINNED \<Longrightarrow> fr_built s"
    using A7 [THEN conjunct2, THEN conjunct2, THEN conjunct1] by (meson not_le)
  show "\<And>f. live s M f \<Longrightarrow> fr_order s f \<noteq> BUDDY_CACHED"
    by (rule A7 [THEN conjunct2, THEN conjunct2, THEN conjunct2, rule_format])
qed

text \<open>Only the fields of \<open>same_frames\<close> and the partition matter.\<close>

lemma same_parked: "same_frames t s \<Longrightarrow> parked t = parked s"
  by (simp add: same_frames_def parked_def)

lemma live_same: "same_frames t s \<Longrightarrow> live t M f = live s M f"
  using same_parked [of t s] unfolding live_def same_frames_def by simp

lemma live_used: "live s M f \<Longrightarrow> fr_bitmap s f"
  by (simp add: live_def)

lemma frames_ok_same:
  assumes same: "same_frames t s" and "buddy_ok t" and "frames_ok s M"
  shows "frames_ok t M"
proof -
  have "fr_order t f = fr_order s f" if "live s M f" for f
    using same live_used [OF that] by (simp add: same_frames_def)
  then show ?thesis
    using assms same_parked [OF same] live_same [OF same] unfolding frames_ok_def same_frames_def by simp
qed

lemma alloc_locked_ok:
  assumes ok: "frames_ok s M" and a: "buddy_alloc_locked s = (p, t)"
  shows "p = 0 \<Longrightarrow> frames_ok t M \<and> held t M = held s M \<and> exhausted t \<and> exhausted s \<and> fr_cache t = fr_cache s"
    and "p \<noteq> 0 \<Longrightarrow> \<exists>f. p = f * 4096 \<and> \<not> live s M f \<and> frames_ok t (add_mset p M)
      \<and> held t (add_mset p M) = held s M \<and> held t M = (held s M)(f \<mapsto> 1) \<and> fr_cache t = fr_cache s"
proof -
  note D = frames_okD [OF ok]
  note A = alloc_locked [OF D(1) a D(2)]
  {
    assume p0: "p = 0"
    note A0 = A(2) [OF p0]
    then have sb: "same_frames t (s\<lparr>fr_built := True\<rparr>)" and ex: "exhausted s" by (auto simp: exhausted_def)
    have sl: "live (s\<lparr>fr_built := True\<rparr>) M = live s M" by (simp add: live_def parked_def fun_eq_iff)
    have lvt: "live t M = live s M" using live_same [OF sb] sl by (simp add: fun_eq_iff)
    then have "held t M = held s M" using sb by (simp add: held_def fun_eq_iff same_frames_def)
    moreover have "frames_ok t M"
    proof -
      have "fr_order t f = fr_order s f" if "live s M f" for f
        using sb live_used [OF that] by (simp add: same_frames_def)
      then show ?thesis
        using ok A(1) sb lvt unfolding frames_ok_def same_frames_def parked_def by simp
    qed
    ultimately show "frames_ok t M \<and> held t M = held s M \<and> exhausted t \<and> exhausted s \<and> fr_cache t = fr_cache s"
      using ex sb by (auto simp: exhausted_def same_frames_def)
  }
  {
    assume p0: "p \<noteq> 0"
    from A(3) [OF p0] obtain f where f: "p = f * 4096" "fr_reserved s \<le> f" "f < fr_total s" "\<not> fr_bitmap s f"
      and sb: "same_frames t (s\<lparr>fr_built := True, fr_bitmap := (fr_bitmap s)(f := True),
                          fr_order := (fr_order s)(f := BUDDY_ALLOCATED), fr_refs := (fr_refs s)(f := 1), fr_used := fr_used s + 1\<rparr>)" by blast
    then have f0: "fr_total t = fr_total s" "fr_reserved t = fr_reserved s" "fr_bitmap t = (fr_bitmap s)(f := True)"
      "fr_refs t = (fr_refs s)(f := 1)" "fr_used t = fr_used s + 1" "fr_zero t = fr_zero s" "fr_cache t = fr_cache s"
      "parked t = parked s" "\<And>g. g \<noteq> f \<Longrightarrow> fr_bitmap s g \<Longrightarrow> fr_order t g = fr_order s g"
      by (auto simp: same_frames_def parked_def)
    have new: "p \<notin># M + parked s" using D(4) [of p] f by fastforce
    have refs0: "fr_refs s f = 0" using D(6) [OF f(3)] f by auto
    have zero: "fr_zero s div 4096 \<noteq> f" if "fr_zero s \<noteq> 0"
      using D(8) [OF that] refs0 by (auto simp: FRAME_PINNED_def)
    have card: "fr_used t = card {g. g < fr_total t \<and> fr_bitmap t g}"
    proof -
      have "{g. g < fr_total t \<and> fr_bitmap t g} = insert f {g. g < fr_total s \<and> fr_bitmap s g}"
        using f by (auto simp: f0)
      then show ?thesis using D(7) f by (simp add: f0)
    qed
    have lvs: "live t (add_mset p M) g = live s M g" for g
      using f by (auto simp: live_def f0(1-8))
    have "frames_ok t (add_mset p M)"
      unfolding frames_ok_def
    proof (intro conjI allI impI ballI)
      show "buddy_ok t" by (rule A(1))
      show "0 < fr_reserved t" using D(2) f0 by simp
      show "count (add_mset p M + parked t) q \<le> 1" for q
        using D(3) [of q] new by (auto simp: f0 not_in_iff)
      show "\<exists>f. q = f * 4096 \<and> fr_reserved t \<le> f \<and> f < fr_total t \<and> fr_bitmap t f \<and> fr_refs t f = 1"
        if "q \<in># add_mset p M + parked t" for q
      proof (cases "q = p")
        case True
        then show ?thesis using f by (intro exI [of _ f]) (simp add: f0)
      next
        case False
        then have "q \<in># M + parked s" using that by (auto simp: f0)
        from D(4) [OF this] False f show ?thesis by (auto simp: f0)
      qed
      show "length (fr_cache t c) \<le> PERCPU_CACHE_SIZE" if "c < MAX_CORES" for c
        using D(5) [OF that] f0 by simp
      show "fr_bitmap t g = (g < fr_reserved t \<or> 0 < fr_refs t g)" if "g < fr_total t" for g
        using D(6) [of g] that by (auto simp: f0)
      show "fr_used t = card {g. g < fr_total t \<and> fr_bitmap t g}" by (rule card)
      show "FRAME_PINNED \<le> fr_refs t (fr_zero t div 4096)" if "fr_zero t \<noteq> 0"
        using D(8) zero that by (simp add: f0)
      show "fr_built t \<or> FRAME_PINNED \<le> fr_refs t g" for g
        using sb by (simp add: same_frames_def)
      show "fr_order t g \<noteq> BUDDY_CACHED" if "live t (add_mset p M) g" for g
      proof -
        have l: "live s M g" using that lvs by simp
        then have "g \<noteq> f" using f live_used by blast
        then show ?thesis using f0(9) [OF _ live_used [OF l]] D(10) [OF l] by simp
      qed
    qed
    moreover have "held t (add_mset p M) = held s M" using lvs f
      by (auto simp: held_def fun_eq_iff f0(4) live_def)
    moreover have "live t M g \<longleftrightarrow> g = f \<or> live s M g" for g
      using f new by (auto simp: live_def f0 FRAME_PINNED_def)
    then have "held t M = (held s M)(f \<mapsto> 1)" by (simp add: held_def fun_eq_iff f0(4))
    moreover have "\<not> live s M f" using f by (simp add: live_def)
    ultimately show "\<exists>f. p = f * 4096 \<and> \<not> live s M f \<and> frames_ok t (add_mset p M)
      \<and> held t (add_mset p M) = held s M \<and> held t M = (held s M)(f \<mapsto> 1) \<and> fr_cache t = fr_cache s"
      using f(1) f0 by auto
  }
qed

lemma parked_built:
  assumes "frames_ok s M" and "p \<in># M + parked s"
  shows "fr_built s"
proof -
  note D = frames_okD [OF assms(1)]
  from D(4) [OF assms(2)] obtain f where "fr_reserved s \<le> f" "f < fr_total s" "fr_bitmap s f" "fr_refs s f = 1" by blast
  then show ?thesis using D(9) [of f] by (simp add: FRAME_PINNED_def)
qed

definition same_geometry :: "frames \<Rightarrow> frames \<Rightarrow> bool" where
  "same_geometry t s \<longleftrightarrow> fr_total t = fr_total s \<and> fr_reserved t = fr_reserved s \<and> fr_zero t = fr_zero s"

lemma free_locked_ok:
  assumes ok: "frames_ok s (add_mset p M)"
  shows "frames_ok (buddy_free_locked p s) M \<and> held (buddy_free_locked p s) M = held s (add_mset p M)
     \<and> fr_cache (buddy_free_locked p s) = fr_cache s \<and> same_geometry (buddy_free_locked p s) s
     \<and> fr_refs (buddy_free_locked p s) (p div 4096) = 0"
proof -
  note D = frames_okD [OF ok]
  have bt: "fr_built s" by (rule parked_built [OF ok, of p]) simp
  define t where "t = buddy_free_locked p s"
  obtain f where f: "p = f * 4096" "fr_reserved s \<le> f" "f < fr_total s" "fr_bitmap s f" "fr_refs s f = 1"
    using D(4) [of p] by auto
  from D(1) bt obtain L where P: "buddy_parts s L {}" and rt: "fr_reserved s \<le> fr_total s" by (auto simp: buddy_ok_def)
  have r1: "fr_refs s f < FRAME_PINNED" using f by (simp add: FRAME_PINNED_def)
  note F = free_locked_parts [OF P f(2-4) r1, folded f(1) t_def]
  from F(2) have f0: "fr_total t = fr_total s" "fr_reserved t = fr_reserved s" "fr_bitmap t = (fr_bitmap s)(f := False)"
      "fr_refs t = (fr_refs s)(f := 0)" "fr_used t = fr_used s - 1" "fr_zero t = fr_zero s" "fr_cache t = fr_cache s"
      "parked t = parked s" "fr_built t" "\<And>g. g \<noteq> f \<Longrightarrow> fr_bitmap s g \<Longrightarrow> fr_order t g = fr_order s g"
    using bt by (auto simp: same_frames_def parked_def)
  have once: "p \<notin># M + parked s" using D(3) [of p] by (simp add: not_in_iff)
  have zero: "fr_zero s div 4096 \<noteq> f" if "fr_zero s \<noteq> 0"
    using D(8) [OF that] f by (auto simp: FRAME_PINNED_def)
  have card: "fr_used t = card {g. g < fr_total t \<and> fr_bitmap t g}"
  proof -
    have "{g. g < fr_total t \<and> fr_bitmap t g} = {g. g < fr_total s \<and> fr_bitmap s g} - {f}"
      by (auto simp: f0)
    then show ?thesis using D(7) f(3,4) f0(5) by simp
  qed
  have lvs: "live t M g = live s (add_mset p M) g" for g
    using f by (auto simp: live_def f0(1-8))
  have okt: "frames_ok t M"
    unfolding frames_ok_def
  proof (intro conjI allI impI ballI)
    show "buddy_ok t" using F(1) f0 rt unfolding buddy_ok_def by auto
    show "0 < fr_reserved t" using D(2) f0 by simp
    show "count (M + parked t) q \<le> 1" for q
      using D(3) [of q] by (auto simp: f0 split: if_splits)
    show "\<exists>f. q = f * 4096 \<and> fr_reserved t \<le> f \<and> f < fr_total t \<and> fr_bitmap t f \<and> fr_refs t f = 1"
      if "q \<in># M + parked t" for q
    proof -
      have "q \<in># M + parked s" "q \<noteq> p" using that once by (auto simp: f0)
      then have "q \<in># add_mset p M + parked s" by simp
      from D(4) [OF this] \<open>q \<noteq> p\<close> f show ?thesis by (auto simp: f0)
    qed
    show "length (fr_cache t c) \<le> PERCPU_CACHE_SIZE" if "c < MAX_CORES" for c
      using D(5) [OF that] f0 by simp
    show "fr_bitmap t g = (g < fr_reserved t \<or> 0 < fr_refs t g)" if "g < fr_total t" for g
      using D(6) [of g] that f by (auto simp: f0)
    show "fr_used t = card {g. g < fr_total t \<and> fr_bitmap t g}" by (rule card)
    show "FRAME_PINNED \<le> fr_refs t (fr_zero t div 4096)" if "fr_zero t \<noteq> 0"
      using D(8) zero that by (simp add: f0)
    show "fr_built t \<or> FRAME_PINNED \<le> fr_refs t g" for g
      using f0 by simp
    show "fr_order t g \<noteq> BUDDY_CACHED" if "live t M g" for g
    proof -
      have l: "live s (add_mset p M) g" using that lvs by simp
      then have "g \<noteq> f" using f by (auto simp: live_def)
      then show ?thesis using f0(10) [OF _ live_used [OF l]] D(10) [OF l] by simp
    qed
  qed
  show ?thesis
  proof -
    have "held t M = held s (add_mset p M)"
      using lvs f by (auto simp: held_def fun_eq_iff f0(4) live_def)
    moreover have "same_geometry t s" "fr_refs t (p div 4096) = 0" using f0 f(1) by (simp_all add: same_geometry_def)
    ultimately show ?thesis using okt f0(7) unfolding t_def by blast
  qed
qed

lemma fold_free_ok:
  "frames_ok s (M + mset ps) \<Longrightarrow>
     frames_ok (fold buddy_free_locked ps s) M \<and> held (fold buddy_free_locked ps s) M = held s (M + mset ps)
     \<and> fr_cache (fold buddy_free_locked ps s) = fr_cache s \<and> same_geometry (fold buddy_free_locked ps s) s"
proof (induction ps arbitrary: s)
  case Nil
  then show ?case by (simp add: same_geometry_def)
next
  case (Cons p ps)
  then have "frames_ok s (add_mset p (M + mset ps))" by simp
  from free_locked_ok [OF this] Cons.IH [of "buddy_free_locked p s"]
  show ?case by (simp add: same_geometry_def)
qed


section \<open>The per-CPU layer\<close>

lemma fetch_ok:
  "frames_ok s M \<Longrightarrow> fetch_frames n s = (ps, t) \<Longrightarrow>
     frames_ok t (M + mset ps) \<and> held t (M + mset ps) = held s M \<and> fr_cache t = fr_cache s
     \<and> length ps \<le> n \<and> (ps = [] \<longrightarrow> n = 0 \<or> exhausted t \<and> exhausted s)"
proof (induction n arbitrary: s M ps t)
  case 0
  then show ?case by simp
next
  case (Suc n)
  obtain p s1 where a: "buddy_alloc_locked s = (p, s1)" by fastforce
  show ?case
  proof (cases "p = 0")
    case True
    then show ?thesis using alloc_locked_ok(1) [OF Suc.prems(1) a True] Suc.prems(2) a by auto
  next
    case False
    obtain qs s2 where f: "fetch_frames n s1 = (qs, s2)" by fastforce
    from alloc_locked_ok(2) [OF Suc.prems(1) a False]
    have A: "frames_ok s1 (add_mset p M)" "held s1 (add_mset p M) = held s M" "fr_cache s1 = fr_cache s"
      by blast+
    have res: "ps = p # qs" "t = s2" using Suc.prems(2) a f False by auto
    from Suc.IH [OF A(1) f] A(2,3) show ?thesis unfolding res by simp
  qed
qed

lemma stock_cache_result:
  "stock_cache c sur ps = (c', sur') \<Longrightarrow> length c \<le> PERCPU_CACHE_SIZE \<Longrightarrow>
     mset c' + mset sur' = mset c + mset sur + mset ps \<and> length c' \<le> PERCPU_CACHE_SIZE \<and> length c \<le> length c'
     \<and> (ps \<noteq> [] \<longrightarrow> c' \<noteq> []) \<and> (ps = [] \<longrightarrow> c' = c \<and> sur' = sur)"
proof (induction c sur ps rule: stock_cache.induct)
  case (2 c sur p ps)
  show ?case
  proof (cases "length c < PERCPU_CACHE_SIZE")
    case True
    then show ?thesis using 2 by fastforce
  next
    case False
    then have "c \<noteq> []" using "2.prems" by (auto simp: PERCPU_CACHE_SIZE_def)
    then show ?thesis using 2 False by fastforce
  qed
qed auto

text \<open>Moving pages between the in-flight set and a cache.\<close>

lemma frames_ok_cache:
  assumes "frames_ok s M" and "cid < MAX_CORES" and "length c \<le> PERCPU_CACHE_SIZE"
    and "M + mset (fr_cache s cid) = M' + mset c"
  shows "frames_ok (s\<lparr>fr_cache := (fr_cache s)(cid := c)\<rparr>) M'"
    and "held (s\<lparr>fr_cache := (fr_cache s)(cid := c)\<rparr>) M' = held s M"
proof -
  let ?t = "s\<lparr>fr_cache := (fr_cache s)(cid := c)\<rparr>"
  have "M' + parked ?t + mset (fr_cache s cid) = M' + (parked s + mset c)"
    using parked_upd [OF assms(2)] by (simp add: add.assoc)
  also have "\<dots> = M + parked s + mset (fr_cache s cid)"
    using assms(4) by (metis add.assoc add.commute)
  finally have eq: "M' + parked ?t = M + parked s" by simp
  have sb: "buddy_ok ?t = buddy_ok s" by (simp add: buddy_ok_def used_unordered_def buddy_parts_def)
  have len: "\<forall>d < MAX_CORES. length (fr_cache ?t d) \<le> PERCPU_CACHE_SIZE"
    using assms(1,3) by (simp add: frames_ok_def)
  have lv: "live ?t M' = live s M"
    unfolding live_def eq by (simp add: fun_eq_iff)
  show "frames_ok ?t M'"
    using assms(1) len unfolding frames_ok_def eq sb lv by simp
  show "held ?t M' = held s M" by (simp add: held_def lv fun_eq_iff)
qed

text \<open>Counters and markers do not matter either.\<close>

lemma frames_ok_stats [simp]:
  "frames_ok (s\<lparr>fr_hits := a\<rparr>) M = frames_ok s M" "held (s\<lparr>fr_hits := a\<rparr>) = held s"
  "frames_ok (s\<lparr>fr_direct := a\<rparr>) M = frames_ok s M" "held (s\<lparr>fr_direct := a\<rparr>) = held s"
  "frames_ok (s\<lparr>fr_refilled := a\<rparr>) M = frames_ok s M" "held (s\<lparr>fr_refilled := a\<rparr>) = held s"
  "frames_ok (s\<lparr>fr_parked := a\<rparr>) M = frames_ok s M" "held (s\<lparr>fr_parked := a\<rparr>) = held s"
  "frames_ok (s\<lparr>fr_spilled := a\<rparr>) M = frames_ok s M" "held (s\<lparr>fr_spilled := a\<rparr>) = held s"
  "frames_ok (s\<lparr>fr_oom := b\<rparr>) M = frames_ok s M" "held (s\<lparr>fr_oom := b\<rparr>) = held s"
  "frames_ok (s\<lparr>fr_overfree := b\<rparr>) M = frames_ok s M" "held (s\<lparr>fr_overfree := b\<rparr>) = held s"
  by (simp_all add: frames_ok_def held_def live_def parked_def buddy_ok_def used_unordered_def buddy_parts_def fun_eq_iff)

lemma parts_mark:
  assumes "buddy_parts s L {}" and "fr_bitmap s f" and "BUDDY_MAX_ORDER < v"
  shows "buddy_parts (s\<lparr>fr_order := (fr_order s)(f := v)\<rparr>) L {}"
proof -
  have "x \<noteq> f" if "k \<le> BUDDY_MAX_ORDER" "x \<in> set (L k)" for k x
    using parts_in_free [OF assms(1) that, of x] assms(2) by auto
  then show ?thesis using assms unfolding buddy_parts_def by simp
qed

lemma frames_ok_mark:
  assumes "frames_ok s M" and "fr_bitmap s f" and "BUDDY_MAX_ORDER < v" and "v \<noteq> BUDDY_CACHED \<or> \<not> live s M f"
  shows "frames_ok (s\<lparr>fr_order := (fr_order s)(f := v)\<rparr>) M" and "held (s\<lparr>fr_order := (fr_order s)(f := v)\<rparr>) = held s"
proof -
  have "buddy_ok (s\<lparr>fr_order := (fr_order s)(f := v)\<rparr>)"
    using frames_okD(1) [OF assms(1)] parts_mark [OF _ assms(2,3)] assms(3)
    unfolding buddy_ok_def used_unordered_def by (auto split: if_splits)
  moreover have lv: "live (s\<lparr>fr_order := (fr_order s)(f := v)\<rparr>) = live s"
    by (simp add: live_def parked_def fun_eq_iff)
  ultimately show "frames_ok (s\<lparr>fr_order := (fr_order s)(f := v)\<rparr>) M"
    using assms(1,4) unfolding frames_ok_def lv parked_def by auto
  show "held (s\<lparr>fr_order := (fr_order s)(f := v)\<rparr>) = held s"
    by (simp add: held_def lv fun_eq_iff)
qed


text \<open>Handing an in-flight page to a caller, and taking a caller's last reference.\<close>

lemma frames_ok_drop:
  assumes ok: "frames_ok s (add_mset (f * 4096) M)" and o: "fr_order s f \<noteq> BUDDY_CACHED"
  shows "frames_ok s M \<and> held s M = (held s (add_mset (f * 4096) M))(f \<mapsto> 1)"
proof -
  note D = frames_okD [OF ok]
  have once: "f * 4096 \<notin># M + parked s" using D(3) [of "f * 4096"] by (simp add: not_in_iff)
  have f: "fr_reserved s \<le> f" "f < fr_total s" "fr_bitmap s f" "fr_refs s f = 1"
    using D(4) [of "f * 4096"] by auto
  have lv: "live s M g \<longleftrightarrow> g = f \<or> live s (add_mset (f * 4096) M) g" for g
    using f once by (auto simp: live_def FRAME_PINNED_def)
  have "frames_ok s M" unfolding frames_ok_def
  proof (intro conjI allI impI ballI)
    show "count (M + parked s) q \<le> 1" for q using D(3) [of q] by (simp split: if_splits)
    show "\<exists>f. q = f * 4096 \<and> fr_reserved s \<le> f \<and> f < fr_total s \<and> fr_bitmap s f \<and> fr_refs s f = 1"
      if "q \<in># M + parked s" for q using D(4) [of q] that by auto
    show "fr_built s \<or> FRAME_PINNED \<le> fr_refs s g" if "fr_reserved s \<le> g \<and> g < fr_total s \<and> fr_bitmap s g" for g
      using D(9) [of g] that by (meson not_le)
    show "fr_order s g \<noteq> BUDDY_CACHED" if "live s M g" for g
      using that lv [of g] D(10) [of g] o by auto
  qed (use D in simp_all)
  then show ?thesis using lv f by (auto simp: held_def fun_eq_iff)
qed

lemma frames_ok_take:
  assumes ok: "frames_ok s M" and l: "live s M f" and r: "fr_refs s f = 1"
  shows "frames_ok s (add_mset (f * 4096) M) \<and> held s (add_mset (f * 4096) M) = (held s M)(f := None)"
proof -
  note D = frames_okD [OF ok]
  have f: "fr_reserved s \<le> f" "f < fr_total s" "fr_bitmap s f" "f * 4096 \<notin># M + parked s"
    using l by (auto simp: live_def)
  have lv: "live s (add_mset (f * 4096) M) g \<longleftrightarrow> g \<noteq> f \<and> live s M g" for g
    by (auto simp: live_def)
  have "frames_ok s (add_mset (f * 4096) M)" unfolding frames_ok_def
  proof (intro conjI allI impI ballI)
    show "count (add_mset (f * 4096) M + parked s) q \<le> 1" for q
      using D(3) [of q] f(4) by (auto simp: not_in_iff)
    show "\<exists>f. q = f * 4096 \<and> fr_reserved s \<le> f \<and> f < fr_total s \<and> fr_bitmap s f \<and> fr_refs s f = 1"
      if "q \<in># add_mset (f * 4096) M + parked s" for q using D(4) [of q] that f r by auto
    show "fr_built s \<or> FRAME_PINNED \<le> fr_refs s g" if "fr_reserved s \<le> g \<and> g < fr_total s \<and> fr_bitmap s g" for g
      using D(9) [of g] that by (meson not_le)
    show "fr_order s g \<noteq> BUDDY_CACHED" if "live s (add_mset (f * 4096) M) g" for g
      using that lv [of g] D(10) [of g] by auto
  qed (use D in simp_all)
  then show ?thesis using lv f by (auto simp: held_def fun_eq_iff)
qed

lemma refill_ok:
  assumes ok: "frames_ok s {#}" and cid: "cid < MAX_CORES"
  shows "frames_ok (percpu_cache_refill cid s) {#}
     \<and> held (percpu_cache_refill cid s) {#} = held s {#}
     \<and> (fr_cache (percpu_cache_refill cid s) cid = [] \<longrightarrow> fr_cache s cid = [] \<and> exhausted s \<and> exhausted (percpu_cache_refill cid s))"
proof (cases "length (fr_cache s cid) \<ge> PERCPU_REFILL_THRESHOLD")
  case True
  then show ?thesis using ok by (auto simp: percpu_cache_refill_def PERCPU_REFILL_THRESHOLD_def)
next
  case False
  obtain batch s0 where f: "fetch_frames PERCPU_REFILL_BATCH s = (batch, s0)" by fastforce
  from fetch_ok [OF ok f] have F: "frames_ok s0 (mset batch)" "held s0 (mset batch) = held s {#}"
    "fr_cache s0 = fr_cache s" "batch = [] \<longrightarrow> exhausted s0 \<and> exhausted s"
    by (auto simp: PERCPU_REFILL_BATCH_def)
  let ?s1 = "s0\<lparr>fr_refilled := (fr_refilled s0)(cid := fr_refilled s0 cid + of_nat (length batch))\<rparr>"
  obtain c sur where st: "stock_cache (fr_cache ?s1 cid) [] batch = (c, sur)" by fastforce
  have len: "length (fr_cache ?s1 cid) \<le> PERCPU_CACHE_SIZE"
    using frames_okD(5) [OF ok cid] F(3) by simp
  note S = stock_cache_result [OF st len]
  let ?s2 = "?s1\<lparr>fr_cache := (fr_cache ?s1)(cid := c)\<rparr>"
  have eq: "mset batch + mset (fr_cache ?s1 cid) = mset sur + mset c" using S by (simp add: add.commute)
  have ok1: "frames_ok ?s1 (mset batch)" using F(1) by simp
  have lc: "length c \<le> PERCPU_CACHE_SIZE" using S by simp
  have ok2: "frames_ok ?s2 ({#} + mset sur)" using frames_ok_cache(1) [OF ok1 cid lc eq] by simp
  have l2: "held ?s2 (mset sur) = held s {#}"
    using frames_ok_cache(2) [OF ok1 cid lc eq] F(2) by simp
  note R = fold_free_ok [OF ok2]
  have res: "percpu_cache_refill cid s = fold buddy_free_locked sur ?s2"
    using False f st by (simp add: percpu_cache_refill_def percpu_fetch_batch_def)
  have empty: "fr_cache s cid = [] \<and> exhausted s \<and> exhausted (fold buddy_free_locked sur ?s2)" if "c = []"
  proof -
    have "batch = []" "fr_cache s cid = []" "sur = []" using S that F(3) by auto
    then show ?thesis using F(4) by (simp add: exhausted_def)
  qed
  show ?thesis unfolding res using R l2 empty by simp
qed

lemma last_in_parked: "cid < MAX_CORES \<Longrightarrow> fr_cache s cid \<noteq> [] \<Longrightarrow> last (fr_cache s cid) \<in># parked s"
  using parked_ge [of cid s] by (meson last_in_set mset_subset_eqD set_mset_mset[THEN equalityD2, THEN subsetD])

lemma cache_alloc_ok:
  assumes ok: "frames_ok s {#}" and cid: "cid < MAX_CORES" and a: "percpu_cache_alloc cid s = (p, t)"
  shows "p = 0 \<Longrightarrow> frames_ok t {#} \<and> held t {#} = held s {#} \<and> fr_cache s cid = [] \<and> exhausted s \<and> exhausted t"
    and "p \<noteq> 0 \<Longrightarrow> \<exists>f. p = f * 4096 \<and> held s {#} f = None \<and> frames_ok t {#}
      \<and> held t {#} = (held s {#})(f \<mapsto> 1)"
proof -
  define u where "u = (if length (fr_cache s cid) < PERCPU_REFILL_THRESHOLD then percpu_cache_refill cid s else s)"
  have U: "frames_ok u {#}" "held u {#} = held s {#}"
    "fr_cache u cid = [] \<Longrightarrow> fr_cache s cid = [] \<and> exhausted s \<and> exhausted u"
    using ok refill_ok [OF ok cid] by (auto simp: u_def PERCPU_REFILL_THRESHOLD_def split: if_splits)
  note D = frames_okD [OF U(1)]
  let ?c = "fr_cache u cid"
  have res: "(p, t) = (if ?c \<noteq> [] then
       (last ?c, u\<lparr>fr_cache := (fr_cache u)(cid := butlast ?c), fr_hits := (fr_hits u)(cid := fr_hits u cid + 1),
                   fr_order := (fr_order u)(last ?c div 4096 := BUDDY_ALLOCATED)\<rparr>) else (0, u))"
    using a unfolding percpu_cache_alloc_def Let_def u_def [symmetric] by (rule sym)
  have nz: "?c \<noteq> [] \<Longrightarrow> \<exists>f. last ?c = f * 4096 \<and> fr_reserved u \<le> f \<and> f < fr_total u \<and> fr_bitmap u f \<and> fr_refs u f = 1"
    using D(4) [of "last ?c"] last_in_parked [OF cid, of u] by simp
  {
    assume "p = 0"
    then have "?c = []" "t = u" using res nz D(2) by (auto split: if_splits)
    then show "frames_ok t {#} \<and> held t {#} = held s {#} \<and> fr_cache s cid = [] \<and> exhausted s \<and> exhausted t"
      using U by blast
  }
  {
    assume "p \<noteq> 0"
    then have ne: "?c \<noteq> []" using res by (auto split: if_splits)
    from nz [OF this] obtain f where f: "last ?c = f * 4096" "fr_reserved u \<le> f" "f < fr_total u" "fr_bitmap u f" "fr_refs u f = 1"
      by blast
    let ?m = "u\<lparr>fr_order := (fr_order u)(f := BUDDY_ALLOCATED)\<rparr>\<lparr>fr_hits := (fr_hits u)(cid := fr_hits u cid + 1)\<rparr>"
    have m: "frames_ok ?m {#}" "held ?m = held u"
      using frames_ok_mark [OF U(1) f(4), of BUDDY_ALLOCATED]
      by (simp_all add: BUDDY_ALLOCATED_def BUDDY_MAX_ORDER_def BUDDY_CACHED_def)
    have pt: "p = f * 4096" "t = ?m\<lparr>fr_cache := (fr_cache ?m)(cid := butlast ?c)\<rparr>"
      using res ne f(1) by simp_all
    have split: "mset ?c = {#p#} + mset (butlast ?c)"
      using ne f(1) pt(1) by (metis append_butlast_last_id mset_append mset.simps add.commute add_mset_add_single mset_single_iff_right)
    have eq: "{#} + mset (fr_cache ?m cid) = {#p#} + mset (butlast ?c)" using split by simp
    have lb: "length (butlast ?c) \<le> PERCPU_CACHE_SIZE" using D(5) [OF cid] by simp
    note C = frames_ok_cache [OF m(1) cid lb eq, folded pt(2)]
    have inp: "p \<in># parked u" using last_in_parked [OF cid ne] f(1) pt(1) by simp
    have cnt: "p \<notin># parked t"
      using frames_okD(3) [OF C(1), of p] by (simp add: not_in_iff)
    have "fr_order t f \<noteq> BUDDY_CACHED" unfolding pt by (simp add: BUDDY_CACHED_def BUDDY_ALLOCATED_def)
    with C(1) have dr: "frames_ok t {#} \<and> held t {#} = (held t {#p#})(f \<mapsto> 1)"
      unfolding pt(1) by (intro frames_ok_drop)
    then have drop: "frames_ok t {#}" and lv: "held t {#} = (held t {#p#})(f \<mapsto> 1)" by auto
    have "held t {#p#} = held s {#}" using C(2) m(2) U(2) by simp
    moreover have "held u {#} f = None" using inp pt(1) by (simp add: held_def live_def)
    ultimately show "\<exists>f. p = f * 4096 \<and> held s {#} f = None \<and> frames_ok t {#}
      \<and> held t {#} = (held s {#})(f \<mapsto> 1)"
      using pt(1) drop lv U(2) by (intro exI [of _ f]) simp
  }
qed

lemma cache_free_ok:
  assumes ok: "frames_ok s {#p#}" and cid: "cid < MAX_CORES"
  shows "frames_ok (percpu_cache_free cid p s) {#} \<and> held (percpu_cache_free cid p s) {#} = held s {#p#}"
proof -
  note D = frames_okD [OF ok]
  let ?c = "fr_cache s cid"
  obtain f where f: "p = f * 4096" "fr_bitmap s f" using D(4) [of p] by auto
  show ?thesis
  proof (cases "length ?c < PERCPU_CACHE_SIZE")
    case True
    let ?m = "s\<lparr>fr_order := (fr_order s)(f := BUDDY_CACHED)\<rparr>\<lparr>fr_parked := (fr_parked s)(cid := fr_parked s cid + 1)\<rparr>"
    have m: "frames_ok ?m {#p#}" "held ?m = held s"
      using frames_ok_mark [OF ok f(2), of BUDDY_CACHED] f(1)
      by (simp_all add: BUDDY_CACHED_def BUDDY_MAX_ORDER_def live_def)
    have res: "percpu_cache_free cid p s = ?m\<lparr>fr_cache := (fr_cache ?m)(cid := ?c @ [p])\<rparr>"
      using True f(1) by (simp add: percpu_cache_free_def Let_def)
    have "{#p#} + mset (fr_cache ?m cid) = {#} + mset (?c @ [p])" by simp
    from frames_ok_cache [OF m(1) cid _ this] True show ?thesis unfolding res m(2) [symmetric] by simp
  next
    case False
    let ?spill = "rev (drop PERCPU_FLUSH_KEEP ?c) @ [p]"
    let ?m = "s\<lparr>fr_spilled := (fr_spilled s)(cid := fr_spilled s cid + of_nat (length ?spill))\<rparr>"
    let ?u = "?m\<lparr>fr_cache := (fr_cache ?m)(cid := take PERCPU_FLUSH_KEEP ?c)\<rparr>"
    have "s\<lparr>fr_cache := (fr_cache s)(cid := take PERCPU_FLUSH_KEEP ?c),
        fr_spilled := (fr_spilled s)(cid := fr_spilled s cid + of_nat (length ?spill))\<rparr> = ?u" by simp
    then have res: "percpu_cache_free cid p s = fold buddy_free_locked ?spill ?u"
      unfolding percpu_cache_free_def Let_def using False by (simp only: if_False)
    have m: "frames_ok ?m {#p#}" "held ?m = held s" using ok by simp_all
    have "mset ?c = mset (take PERCPU_FLUSH_KEEP ?c) + mset (drop PERCPU_FLUSH_KEEP ?c)"
      by (metis append_take_drop_id mset_append)
    then have eq: "{#p#} + mset (fr_cache ?m cid) = ({#} + mset ?spill) + mset (take PERCPU_FLUSH_KEEP ?c)" by simp
    have len: "length (take PERCPU_FLUSH_KEEP ?c) \<le> PERCPU_CACHE_SIZE"
      using D(5) [OF cid] by simp
    note C = frames_ok_cache [OF m(1) cid len eq]
    from fold_free_ok [OF C(1)] C(2) show ?thesis unfolding res m(2) [symmetric] by simp
  qed
qed


section \<open>The allocator's contract\<close>

abbreviation phys_ok :: "frames \<Rightarrow> bool" where
  "phys_ok s \<equiv> frames_ok s {#}"

abbreviation owned :: "frames \<Rightarrow> nat \<Rightarrow> nat option" where
  "owned s \<equiv> held s {#}"

lemma frame_alloc_contract:
  assumes ok: "phys_ok s" and cid: "cid < MAX_CORES" and a: "frame_alloc cid s = (p, t)"
  shows "phys_ok t \<and> (if p = 0 then owned t = owned s \<and> exhausted s \<and> fr_cache s cid = []
     else \<exists>f. p = f * 4096 \<and> owned s f = None \<and> owned t = (owned s)(f \<mapsto> 1))"
proof -
  obtain q s1 where c: "percpu_cache_alloc cid s = (q, s1)" by fastforce
  show ?thesis
  proof (cases "q = 0")
    case False
    have pt: "p = q" "t = s1" using a c False by (auto simp: frame_alloc_def)
    from cache_alloc_ok(2) [OF ok cid c False] False show ?thesis
      unfolding pt by (auto simp: fun_eq_iff)
  next
    case True
    note C = cache_alloc_ok(1) [OF ok cid c True]
    obtain r s2 where b: "buddy_alloc_locked s1 = (r, s2)" by fastforce
    have ok1: "phys_ok s1" and ex: "exhausted s1" using C by blast+
    have r0: "r = 0"
      using alloc_locked(3) [OF frames_okD(1) [OF ok1] b frames_okD(2) [OF ok1]] ex by (auto simp: exhausted_def)
    note B = alloc_locked_ok(1) [OF ok1 b r0]
    have pt: "p = 0" "t = s2\<lparr>fr_oom := fr_oom s2 + 1\<rparr>" using a c True b r0 by (auto simp: frame_alloc_def)
    show ?thesis unfolding pt using B C by (auto simp: fun_eq_iff exhausted_def)
  qed
qed

lemma frame_free_contract:
  assumes ok: "phys_ok s" and cid: "cid < MAX_CORES" and h: "owned s f = Some r"
  shows "phys_ok (frame_free cid (f * 4096) s)
     \<and> owned (frame_free cid (f * 4096) s) = (owned s)(f := (if r = 1 then None else Some (r - 1)))"
proof -
  have l: "live s {#} f" and rr: "r = fr_refs s f" using h by (auto simp: held_def split: if_splits)
  note D = frames_okD [OF ok]
  from l have f: "fr_reserved s \<le> f" "f < fr_total s" "fr_bitmap s f" "fr_refs s f < FRAME_PINNED" "f * 4096 \<notin># parked s"
    by (auto simp: live_def)
  have nz: "f * 4096 \<noteq> 0" using f(1) D(2) by simp
  have z: "f * 4096 \<noteq> fr_zero s"
  proof
    assume eq: "f * 4096 = fr_zero s"
    from eq [symmetric] nz D(8) f(4) show False by simp
  qed
  have r0: "0 < fr_refs s f" using D(6) [OF f(2)] f(1,3) by simp
  have o: "fr_order s f \<noteq> BUDDY_CACHED" by (rule D(10) [OF l])
  let ?t = "frame_free cid (f * 4096) s"
  show ?thesis
  proof (cases "fr_refs s f = 1")
    case True
    let ?m = "s\<lparr>fr_order := (fr_order s)(f := BUDDY_CACHED)\<rparr>"
    have t: "?t = percpu_cache_free cid (f * 4096) ?m"
      using f z nz o True by (simp add: frame_free_def Let_def FRAME_PINNED_def)
    note T = frames_ok_take [OF ok l True]
    have m: "frames_ok ?m {#f * 4096#}" "held ?m = held s"
      using frames_ok_mark [OF T [THEN conjunct1] f(3), of BUDDY_CACHED]
      by (auto simp: BUDDY_CACHED_def BUDDY_MAX_ORDER_def live_def)
    from cache_free_ok [OF m(1) cid] T show ?thesis
      unfolding t m(2) using True rr by (auto simp: fun_eq_iff)
  next
    case False
    then have r: "1 < fr_refs s f" using r0 by simp
    have t: "?t = s\<lparr>fr_refs := (fr_refs s)(f := fr_refs s f - 1)\<rparr>"
      using f z nz o r by (simp add: frame_free_def Let_def)
    have np: "f * 4096 \<noteq> q" if "q \<in># parked s" for q using f(5) that by auto
    have lv: "live ?t {#} = live s {#}" unfolding t using f r
      by (auto simp: live_def parked_def fun_eq_iff)
    have "phys_ok ?t" unfolding frames_ok_def
    proof (intro conjI allI impI ballI)
      show "buddy_ok ?t" 
      proof -
        have "buddy_ok ?t = buddy_ok s" unfolding t by (simp add: buddy_ok_def used_unordered_def buddy_parts_def)
        then show ?thesis using D(1) by simp
      qed
      show "count ({#} + parked ?t) q \<le> 1" for q using D(3) [of q] by (simp add: t parked_def)
      show "\<exists>f. q = f * 4096 \<and> fr_reserved ?t \<le> f \<and> f < fr_total ?t \<and> fr_bitmap ?t f \<and> fr_refs ?t f = 1"
        if "q \<in># {#} + parked ?t" for q
      proof -
        have "q \<in># {#} + parked s" using that by (simp add: t parked_def)
        from D(4) [OF this] np [of q] this show ?thesis by (auto simp: t)
      qed
      show "fr_bitmap ?t g = (g < fr_reserved ?t \<or> 0 < fr_refs ?t g)" if "g < fr_total ?t" for g
        using D(6) [of g] that r f by (auto simp: t)
      show "FRAME_PINNED \<le> fr_refs ?t (fr_zero ?t div 4096)" if "fr_zero ?t \<noteq> 0"
        using D(8) that f(4) by (auto simp: t)
      show "fr_built ?t \<or> FRAME_PINNED \<le> fr_refs ?t g" if "fr_reserved ?t \<le> g \<and> g < fr_total ?t \<and> fr_bitmap ?t g" for g
        using D(9) [OF f(1-4)] by (simp add: t)
      show "fr_order ?t g \<noteq> BUDDY_CACHED" if "live ?t {#} g" for g
        using that D(10) unfolding lv by (simp add: t)
    qed (use D in \<open>simp_all add: t\<close>)
    moreover have "owned ?t = (owned s)(f \<mapsto> fr_refs s f - 1)"
      using lv l by (auto simp: held_def fun_eq_iff t)
    ultimately show ?thesis using False rr by simp
  qed
qed

end
