(* ===== verification/Phys.thy ===== *)
theory Phys
  imports Frames_Cache
begin

text \<open>
  Boot of the frame allocator (\<open>phys_init\<close>), its boot self-test, and what the whole
  component guarantees: the ownership map \<open>owned\<close> (which frames callers hold, with their
  reference counts) is exactly what \<open>frame_alloc\<close> and \<open>frame_free\<close> promise. Two places
  where the code does not keep its own contract are proved as such.
\<close>

section \<open>The self-test's partition scan\<close>

text \<open>The walk along one free list: \<open>Inl\<close> is the message of a broken invariant.\<close>

fun st_block :: "frames \<Rightarrow> nat \<Rightarrow> nat \<Rightarrow> (nat \<Rightarrow> bool) \<Rightarrow> string + (nat \<Rightarrow> bool)" where
  "st_block s f 0 seen = Inr seen"
| "st_block s f (Suc n) seen =
     (if f \<ge> fr_total s then Inl ''block runs past RAM''
      else if fr_bitmap s f then Inl ''free-listed frame marked used''
      else if seen f then Inl ''frame is on two free lists''
      else st_block s (f + 1) n (seen(f := True)))"

function st_list :: "frames \<Rightarrow> nat \<Rightarrow> nat option \<Rightarrow> nat \<Rightarrow> (nat \<Rightarrow> bool) \<Rightarrow> string + nat \<times> (nat \<Rightarrow> bool)" where
  "st_list s order None scanned seen = Inr (scanned, seen)"
| "st_list s order (Some h) scanned seen =
     (if scanned + 1 > fr_total s then Inl ''free list too long''
      else if h < fr_reserved s \<or> h \<ge> fr_total s then Inl ''block head outside RAM''
      else if fr_order s h \<noteq> order then Inl ''block head has wrong order''
      else if \<not> is_aligned_to_order h order then Inl ''block head not aligned to its order''
      else case st_block s h (push_bit order 1) seen of
             Inl e \<Rightarrow> Inl e
           | Inr seen' \<Rightarrow> st_list s order (fr_next s h) (scanned + 1) seen')"
  by pat_completeness auto
termination by (relation "measure (\<lambda>(s, order, h, scanned, seen). fr_total s - scanned)") auto

declare st_list.simps(2) [simp del]

fun st_orders :: "frames \<Rightarrow> nat list \<Rightarrow> nat \<Rightarrow> (nat \<Rightarrow> bool) \<Rightarrow> string + nat \<times> (nat \<Rightarrow> bool)" where
  "st_orders s [] scanned seen = Inr (scanned, seen)"
| "st_orders s (k # ks) scanned seen =
     (case st_list s k (fr_heads s k) scanned seen of
        Inl e \<Rightarrow> Inl e
      | Inr (scanned', seen') \<Rightarrow> st_orders s ks scanned' seen')"

definition selftest_check_partition :: "frames \<Rightarrow> string option" where
  "selftest_check_partition s =
     (case st_orders s [0..<Suc BUDDY_MAX_ORDER] 0 (\<lambda>_. False) of
        Inl e \<Rightarrow> Some e
      | Inr (scanned, seen) \<Rightarrow>
          (if \<exists>f \<in> set [fr_reserved s..<fr_total s]. \<not> seen f \<and> \<not> fr_bitmap s f
           then Some ''free frame on no list'' else None))"

definition selftest_flush_caches :: "nat \<Rightarrow> frames \<Rightarrow> frames" where
  "selftest_flush_caches cid s =
     for_upto MAX_CORES (\<lambda>c s.
       let ps = fr_cache s c; s1 = s\<lparr>fr_cache := (fr_cache s)(c := [])\<rparr>
       in if ps = [] then s1
          else fold buddy_free_locked ps
                 (s1\<lparr>fr_spilled := (fr_spilled s1)(cid := fr_spilled s1 cid + of_nat (length ps))\<rparr>)) s"

section \<open>The self-test\<close>

definition SELFTEST_CHURN :: nat where
  "SELFTEST_CHURN = 128"

definition selftest_fast_path :: "nat \<Rightarrow> frames \<Rightarrow> string option \<times> frames" where
  "selftest_fast_path cid s =
     (let (a, s1) = frame_alloc cid s; (b, s2) = frame_alloc cid s1
      in if a = 0 \<or> b = 0 \<or> a = b then (Some ''alloc returned bad frames'', s2)
         else
           (let (c, s3) = frame_alloc cid (frame_free cid b s2)
            in if c = a then (Some ''handed out a live frame'', s3)
               else (None, frame_free cid c (frame_free cid a s3))))"

definition selftest_overfree :: "nat \<Rightarrow> frames \<Rightarrow> string option \<times> frames" where
  "selftest_overfree cid s =
     (let used_before = phys_get_used_pages s; (d, s1) = frame_alloc cid s
      in if d = 0 then (Some ''alloc failed before over-free probe'', s1)
         else
           (let s2 = frame_free cid d s1; before = fr_overfree s2; s3 = frame_free cid d s2
            in if fr_overfree s3 \<noteq> before + 1 then (Some ''double free was not detected'', s3)
               else if phys_get_used_pages s3 \<noteq> used_before then (Some ''double free moved the used count'', s3)
               else
                 (let (e, s4) = frame_alloc cid s3; (f, s5) = frame_alloc cid s4
                  in if e = 0 \<or> f = 0 \<or> e = f then (Some ''over-free put a frame into circulation twice'', s5)
                     else (None, frame_free cid f (frame_free cid e s5)))))"

primrec st_churn :: "nat \<Rightarrow> nat \<Rightarrow> nat list \<Rightarrow> frames \<Rightarrow> string option \<times> nat list \<times> frames" where
  "st_churn cid 0 batch s = (None, batch, s)"
| "st_churn cid (Suc n) batch s =
     (let (p, s1) = frame_alloc cid s
      in if p = 0 then (Some ''churn alloc failed'', batch, s1)
         else if p \<in> set batch then (Some ''duplicate frame handed out'', batch, s1)
         else st_churn cid n (batch @ [p]) s1)"

definition selftest_churn :: "nat \<Rightarrow> frames \<Rightarrow> string option \<times> frames" where
  "selftest_churn cid s0 =
     (let s = selftest_flush_caches cid s0; used_before = phys_get_used_pages s;
          (r, batch, s1) = st_churn cid SELFTEST_CHURN [] s
      in case r of
           Some e \<Rightarrow> (Some e, s1)
         | None \<Rightarrow>
             (case selftest_check_partition s1 of
                Some bad \<Rightarrow> (Some bad, s1)
              | None \<Rightarrow>
                  (let s2 = selftest_flush_caches cid (fold (frame_free cid) batch s1)
                   in if phys_get_used_pages s2 \<noteq> used_before then (Some ''frames leaked'', s2)
                      else (selftest_check_partition s2, s2))))"

definition selftest_coalesce :: "frames \<Rightarrow> string option \<times> frames" where
  "selftest_coalesce s =
     (let (run, s1) = fetch_frames 16 s;
          s2 = fold buddy_free_locked run s1;
          (still, s3) = buddy_alloc_locked s2;
          s4 = (if still \<noteq> 0 then buddy_free_locked still s3 else s3);
          bad = selftest_check_partition s4
      in if length run < 16 then (Some ''buddy alloc exhausted during run test'', s4)
         else if still = 0 then (Some ''buddy empty after freeing the run'', s4)
         else (bad, s4))"

definition phys_allocator_self_test :: "nat \<Rightarrow> frames \<Rightarrow> string option \<times> frames" where
  "phys_allocator_self_test cid s =
     (case selftest_fast_path cid s of
        (Some e, s1) \<Rightarrow> (Some e, s1)
      | (None, s1) \<Rightarrow>
          (case selftest_overfree cid s1 of
             (Some e, s2) \<Rightarrow> (Some e, s2)
           | (None, s2) \<Rightarrow>
               (case selftest_churn cid s2 of
                  (Some e, s3) \<Rightarrow> (Some e, s3)
                | (None, s3) \<Rightarrow> selftest_coalesce s3)))"

section \<open>Boot\<close>

definition KERNEL_RESERVED_PAGES :: nat where
  "KERNEL_RESERVED_PAGES = 80 * 256"

definition KERNEL_RESERVED_PAGES_BIG :: nat where
  "KERNEL_RESERVED_PAGES_BIG = 160 * 256"

definition KERNEL_RESERVED_PAGES_BIG_MIN :: nat where
  "KERNEL_RESERVED_PAGES_BIG_MIN = 384 * 256"

definition KERNEL_HEAP_BASE_BYTES :: nat where
  "KERNEL_HEAP_BASE_BYTES = 24 * 1024 * 1024"

definition KERNEL_HEAP_MIN_BYTES :: nat where
  "KERNEL_HEAP_MIN_BYTES = 4 * 1024 * 1024"

definition phys_reserve_pages :: "nat \<Rightarrow> nat" where
  "phys_reserve_pages npages =
     (let r0 = (if npages \<ge> KERNEL_RESERVED_PAGES_BIG_MIN then KERNEL_RESERVED_PAGES_BIG else KERNEL_RESERVED_PAGES);
          min_free = npages div 4;
          r1 = (if r0 + min_free > npages then npages - min_free else r0);
          reserve_min = KERNEL_HEAP_BASE_BYTES div 4096 + KERNEL_HEAP_MIN_BYTES div 4096;
          r2 = (if r1 < reserve_min then reserve_min else r1)
      in if r2 > npages then npages else r2)"

text \<open>Everything \<open>phys_init\<close> sets up before it runs the self-test.\<close>

definition phys_setup :: "nat \<Rightarrow> frames \<Rightarrow> frames" where
  "phys_setup total_pages s =
     (let npages = (if total_pages > PHYS_MAX_PAGES then PHYS_MAX_PAGES else total_pages);
          reserve = phys_reserve_pages npages;
          s1 = s\<lparr>fr_total := npages, fr_reserved := reserve,
                 fr_bitmap := (\<lambda>i. i < reserve), fr_refs := (\<lambda>i. if i < reserve then 1 else 0),
                 fr_used := reserve\<rparr>;
          s2 = (case first_idx (\<lambda>i. \<not> fr_bitmap s1 i) reserve npages of
                  None \<Rightarrow> s1
                | Some i \<Rightarrow> s1\<lparr>fr_zero := i * 4096, fr_bitmap := (fr_bitmap s1)(i := True),
                               fr_refs := (fr_refs s1)(i := 255), fr_used := fr_used s1 + 1\<rparr>);
          s3 = buddy_init s2
      in s3\<lparr>fr_cache := (\<lambda>c. if c < MAX_CORES then [] else fr_cache s3 c)\<rparr>)"

definition phys_init :: "nat \<Rightarrow> nat \<Rightarrow> frames \<Rightarrow> string option \<times> frames" where
  "phys_init cid total_pages s =
     (if fr_total s \<noteq> 0 then (None, s)
      else phys_allocator_self_test cid (phys_setup total_pages s))"


section \<open>Boot establishes the invariant\<close>

lemma reserve_pages_le: "phys_reserve_pages npages \<le> npages"
  by (simp add: phys_reserve_pages_def Let_def)

lemma reserve_pages_pos: "0 < npages \<Longrightarrow> 0 < phys_reserve_pages npages"
  by (simp add: phys_reserve_pages_def Let_def KERNEL_HEAP_BASE_BYTES_def KERNEL_HEAP_MIN_BYTES_def)

lemma phys_setup_fields:
  assumes "fr_built s = False" and "fr_zero s = 0" and "0 < npages"
  defines "n \<equiv> (if npages > PHYS_MAX_PAGES then PHYS_MAX_PAGES else npages)" and "t \<equiv> phys_setup npages s"
  defines "r \<equiv> phys_reserve_pages n"
  shows "fr_total t = n" "fr_reserved t = r" "fr_built t = False"
    "fr_bitmap t = (\<lambda>i. i < r \<or> r < n \<and> i = r)"
    "fr_refs t = (\<lambda>i. if i < r then 1 else if r < n \<and> i = r then 255 else 0)"
    "fr_used t = (if r < n then r + 1 else r)" "fr_zero t = (if r < n then r * 4096 else 0)"
    "\<And>i. i < n \<Longrightarrow> fr_order t i = (if fr_bitmap t i then BUDDY_ALLOCATED else 0)"
    "\<And>c. c < MAX_CORES \<Longrightarrow> fr_cache t c = []"
proof -
  have zp: "first_idx (\<lambda>i. \<not> i < r) r n = (if r < n then Some r else None)"
    by (simp add: first_idx.simps [of _ r n])
  show "fr_total t = n" "fr_reserved t = r" "fr_built t = False"
    "fr_bitmap t = (\<lambda>i. i < r \<or> r < n \<and> i = r)"
    "fr_refs t = (\<lambda>i. if i < r then 1 else if r < n \<and> i = r then 255 else 0)"
    "fr_used t = (if r < n then r + 1 else r)" "fr_zero t = (if r < n then r * 4096 else 0)"
    "\<And>i. i < n \<Longrightarrow> fr_order t i = (if fr_bitmap t i then BUDDY_ALLOCATED else 0)"
    "\<And>c. c < MAX_CORES \<Longrightarrow> fr_cache t c = []"
    unfolding t_def phys_setup_def Let_def n_def [symmetric] r_def [symmetric] using assms(1,2) zp
    by (auto simp: buddy_init_def fun_eq_iff)
qed

lemma phys_setup_ok:
  assumes "fr_built s = False" and "fr_zero s = 0" and "0 < npages"
  shows "phys_ok (phys_setup npages s)" and "owned (phys_setup npages s) = Map.empty"
proof -
  define n where "n = (if npages > PHYS_MAX_PAGES then PHYS_MAX_PAGES else npages)"
  define r where "r = phys_reserve_pages n"
  have n0: "0 < n" using assms(3) by (simp add: n_def PHYS_MAX_PAGES_def)
  have r: "r \<le> n" "0 < r" using reserve_pages_le reserve_pages_pos n0 by (auto simp: r_def)
  define t where "t = phys_setup npages s"
  note t = phys_setup_fields [OF assms, folded n_def, folded r_def t_def]
  have parked: "parked t = {#}" by (simp add: parked_def t(9))
  have lv: "\<not> live t {#} f" for f using r by (auto simp: live_def t FRAME_PINNED_def split: if_splits)
  have used: "fr_used t = card {f. f < fr_total t \<and> fr_bitmap t f}"
  proof -
    have "{f. f < fr_total t \<and> fr_bitmap t f} = {..<(if r < n then r + 1 else r)}"
      using r by (auto simp: t)
    then show ?thesis by (simp add: t)
  qed
  have "phys_ok t" unfolding frames_ok_def
  proof (intro conjI allI impI ballI)
    show "buddy_ok t" using r by (auto simp: buddy_ok_def t used_unordered_def BUDDY_ALLOCATED_def BUDDY_MAX_ORDER_def)
    show "0 < fr_reserved t" using r by (simp add: t)
    show "count ({#} + parked t) p \<le> 1" for p by (simp add: parked)
    show "length (fr_cache t c) \<le> PERCPU_CACHE_SIZE" if "c < MAX_CORES" for c using that by (simp add: t)
    show "fr_bitmap t f = (f < fr_reserved t \<or> 0 < fr_refs t f)" for f using r by (auto simp: t)
    show "fr_used t = card {f. f < fr_total t \<and> fr_bitmap t f}" by (rule used)
    show "FRAME_PINNED \<le> fr_refs t (fr_zero t div 4096)" if "fr_zero t \<noteq> 0"
      using that r by (auto simp: t FRAME_PINNED_def split: if_splits)
    show "fr_built t \<or> FRAME_PINNED \<le> fr_refs t f" if "fr_reserved t \<le> f \<and> f < fr_total t \<and> fr_bitmap t f" for f
      using that by (auto simp: t FRAME_PINNED_def)
    show "fr_order t f \<noteq> BUDDY_CACHED" if "live t {#} f" for f using that lv by simp
  qed (simp add: parked)
  then show "phys_ok (phys_setup npages s)" by (simp add: t_def)
  show "owned (phys_setup npages s) = Map.empty" using lv by (simp add: held_def fun_eq_iff flip: t_def)
qed

section \<open>The partition scan is exact\<close>

primrec chain :: "(nat \<Rightarrow> nat option) \<Rightarrow> nat option \<Rightarrow> nat list \<Rightarrow> bool" where
  "chain nxt h [] \<longleftrightarrow> h = None"
| "chain nxt h (x # xs) \<longleftrightarrow> h = Some x \<and> chain nxt (nxt x) xs"

lemma chain_None [simp]: "chain nxt None xs \<longleftrightarrow> xs = []"
  by (cases xs) auto

lemma dseg_chain: "dseg nxt prv p h xs l None \<Longrightarrow> chain nxt h xs"
  by (induction xs arbitrary: p h) auto

definition good_block :: "frames \<Rightarrow> nat \<Rightarrow> nat \<Rightarrow> bool" where
  "good_block s k x \<longleftrightarrow> fr_reserved s \<le> x \<and> fr_order s x = k \<and> 2 ^ k dvd x
     \<and> (\<forall>f \<in> blk x k. f < fr_total s \<and> \<not> fr_bitmap s f)"

lemma st_block_iff:
  "st_block s f n seen = Inr seen' \<longleftrightarrow>
     (\<forall>g. f \<le> g \<and> g < f + n \<longrightarrow> g < fr_total s \<and> \<not> fr_bitmap s g \<and> \<not> seen g)
     \<and> seen' = (\<lambda>g. seen g \<or> f \<le> g \<and> g < f + n)"
proof (induction n arbitrary: f seen)
  case 0
  have "(f \<le> g \<and> g < f + 0) = False" for g by arith
  then show ?case unfolding st_block.simps by auto
next
  case (Suc n)
  show ?case
  proof (cases "f < fr_total s \<and> \<not> fr_bitmap s f \<and> \<not> seen f")
    case False
    have "\<not> (\<forall>g. f \<le> g \<and> g < f + Suc n \<longrightarrow> g < fr_total s \<and> \<not> fr_bitmap s g \<and> \<not> seen g)"
    proof
      assume "\<forall>g. f \<le> g \<and> g < f + Suc n \<longrightarrow> g < fr_total s \<and> \<not> fr_bitmap s g \<and> \<not> seen g"
      from spec [OF this, of f] False show False by simp
    qed
    moreover have "st_block s f (Suc n) seen \<noteq> Inr seen'" using False by auto
    ultimately show ?thesis by blast
  next
    case True
    have rng: "(f \<le> g \<and> g < f + Suc n) \<longleftrightarrow> g = f \<or> (f + 1 \<le> g \<and> g < f + 1 + n)" for g by arith
    have all: "(\<forall>g. f + 1 \<le> g \<and> g < f + 1 + n \<longrightarrow> g < fr_total s \<and> \<not> fr_bitmap s g \<and> \<not> (seen(f := True)) g)
        \<longleftrightarrow> (\<forall>g. f \<le> g \<and> g < f + Suc n \<longrightarrow> g < fr_total s \<and> \<not> fr_bitmap s g \<and> \<not> seen g)"
    proof (intro iffI allI impI)
      fix g assume h: "\<forall>g. f + 1 \<le> g \<and> g < f + 1 + n \<longrightarrow> g < fr_total s \<and> \<not> fr_bitmap s g \<and> \<not> (seen(f := True)) g"
        and g: "f \<le> g \<and> g < f + Suc n"
      show "g < fr_total s \<and> \<not> fr_bitmap s g \<and> \<not> seen g"
      proof (cases "g = f")
        case False
        with g have "f + 1 \<le> g \<and> g < f + 1 + n" by arith
        with h have "g < fr_total s \<and> \<not> fr_bitmap s g \<and> \<not> (seen(f := True)) g" by blast
        then show ?thesis using False by simp
      qed (use True in simp)
    next
      fix g assume h: "\<forall>g. f \<le> g \<and> g < f + Suc n \<longrightarrow> g < fr_total s \<and> \<not> fr_bitmap s g \<and> \<not> seen g"
        and g: "f + 1 \<le> g \<and> g < f + 1 + n"
      then have "g < fr_total s \<and> \<not> fr_bitmap s g \<and> \<not> seen g" by auto
      then show "g < fr_total s \<and> \<not> fr_bitmap s g \<and> \<not> (seen(f := True)) g" using g by simp
    qed
    have fn: "(\<lambda>g. (seen(f := True)) g \<or> f + 1 \<le> g \<and> g < f + 1 + n) = (\<lambda>g. seen g \<or> f \<le> g \<and> g < f + Suc n)"
      unfolding rng by (rule ext) simp
    have step: "st_block s f (Suc n) seen = st_block s (f + 1) n (seen(f := True))" using True by simp
    show ?thesis unfolding step Suc.IH [of "f + 1" "seen(f := True)"] all fn ..
  qed
qed

fun blocks_apart :: "nat \<Rightarrow> (nat \<Rightarrow> bool) \<Rightarrow> nat list \<Rightarrow> bool" where
  "blocks_apart k seen [] \<longleftrightarrow> True"
| "blocks_apart k seen (x # xs) \<longleftrightarrow>
     (\<forall>f \<in> blk x k. \<not> seen f) \<and> blocks_apart k (\<lambda>f. seen f \<or> f \<in> blk x k) xs"

lemma st_list_Some:
  assumes "good_block s k h" "n + 1 \<le> fr_total s" "\<forall>f \<in> blk h k. \<not> seen f"
  shows "st_list s k (Some h) n seen = st_list s k (fr_next s h) (n + 1) (\<lambda>f. seen f \<or> f \<in> blk h k)"
proof -
  note G = assms(1) [unfolded good_block_def]
  have "h \<in> blk h k" by simp
  with G have ht: "\<not> h \<ge> fr_total s" by (meson not_le)
  have b: "st_block s h (push_bit k 1) seen = Inr (\<lambda>f. seen f \<or> f \<in> blk h k)"
    using G assms(3) by (simp add: st_block_iff push_bit_eq_mult)
  show ?thesis using G ht assms(2) by (simp add: st_list.simps(2) b [simplified] is_aligned_iff)
qed

lemma st_list_SomeD:
  assumes "st_list s k (Some h) n seen = Inr r"
  shows "good_block s k h \<and> n + 1 \<le> fr_total s \<and> (\<forall>f \<in> blk h k. \<not> seen f)"
proof -
  from assms obtain s' where o: "n + 1 \<le> fr_total s" "fr_reserved s \<le> h" "fr_order s h = k" "is_aligned_to_order h k"
    and b: "st_block s h (push_bit k 1) seen = Inr s'"
    by (auto simp: st_list.simps(2) split: if_splits sum.splits)
  from b have "\<forall>f \<in> blk h k. f < fr_total s \<and> \<not> fr_bitmap s f \<and> \<not> seen f"
    by (auto simp: st_block_iff push_bit_eq_mult)
  then show ?thesis using o by (simp add: good_block_def is_aligned_iff)
qed

lemma st_list_iff:
  "chain (fr_next s) h xs \<Longrightarrow> st_list s k h n seen = Inr (n', seen') \<longleftrightarrow>
     n' = n + length xs \<and> (xs \<noteq> [] \<longrightarrow> n' \<le> fr_total s)
        \<and> (\<forall>x \<in> set xs. good_block s k x) \<and> blocks_apart k seen xs
        \<and> seen' = (\<lambda>f. seen f \<or> (\<exists>x \<in> set xs. f \<in> blk x k))"
proof (induction xs arbitrary: h n seen)
  case Nil
  then show ?case by auto
next
  case (Cons x xs)
  then have h: "h = Some x" and c: "chain (fr_next s) (fr_next s x) xs" by auto
  let ?seen = "\<lambda>f. seen f \<or> f \<in> blk x k"
  have fn: "(\<lambda>f. ?seen f \<or> (\<exists>y \<in> set xs. f \<in> blk y k)) = (\<lambda>f. seen f \<or> (\<exists>y \<in> set (x # xs). f \<in> blk y k))"
    by (simp only: list.set bex_simps disj_assoc)
  show ?case
  proof (cases "good_block s k x \<and> n + 1 \<le> fr_total s \<and> (\<forall>f \<in> blk x k. \<not> seen f)")
    case True
    then have e: "st_list s k h n seen = st_list s k (fr_next s x) (n + 1) ?seen"
      unfolding h by (blast intro: st_list_Some)
    have "(xs \<noteq> [] \<longrightarrow> n' \<le> fr_total s) \<longleftrightarrow> n' \<le> fr_total s" if "n' = n + 1 + length xs"
      using True that by (cases xs) simp_all
    then show ?thesis unfolding e Cons.IH [OF c] fn using True by auto
  next
    case False
    then have "st_list s k h n seen \<noteq> Inr (n', seen')" using st_list_SomeD unfolding h by blast
    moreover have "\<not> (n' = n + length (x # xs) \<and> n' \<le> fr_total s \<and> good_block s k x \<and> (\<forall>f \<in> blk x k. \<not> seen f))"
      using False by auto
    ultimately show ?thesis by auto
  qed
qed

lemma st_list_chain: "st_list s k h n seen = Inr r \<Longrightarrow> \<exists>xs. chain (fr_next s) h xs"
proof (induction s k h n seen rule: st_list.induct)
  case (1 s k n seen)
  show ?case by (intro exI [of _ "[]"]) simp
next
  case (2 s k h n seen)
  note G = st_list_SomeD [OF "2.prems"]
  let ?seen = "\<lambda>f. seen f \<or> f \<in> blk h k"
  from "2.prems" obtain s' where hd: "\<not> n + 1 > fr_total s" "\<not> (h < fr_reserved s \<or> h \<ge> fr_total s)" "\<not> fr_order s h \<noteq> k"
      "\<not> \<not> is_aligned_to_order h k" and b: "st_block s h (push_bit k 1) seen = Inr s'"
    by (auto simp: st_list.simps(2) split: if_splits sum.splits)
  then have "st_list s k (fr_next s h) (n + 1) s' = Inr r" using "2.prems" by (simp add: st_list.simps(2))
  from "2.IH" [OF hd b this] obtain xs where "chain (fr_next s) (fr_next s h) xs" ..
  then show ?case by (intro exI [of _ "h # xs"]) simp
qed


text \<open>What the scan establishes, over the blocks as (order, head) pairs.\<close>

definition pblk :: "nat \<times> nat \<Rightarrow> nat set" where
  "pblk p = blk (snd p) (fst p)"

fun apart :: "(nat \<Rightarrow> bool) \<Rightarrow> (nat \<times> nat) list \<Rightarrow> bool" where
  "apart seen [] \<longleftrightarrow> True"
| "apart seen (p # ps) \<longleftrightarrow> (\<forall>f \<in> pblk p. \<not> seen f) \<and> apart (\<lambda>f. seen f \<or> f \<in> pblk p) ps"

definition marks :: "(nat \<Rightarrow> bool) \<Rightarrow> (nat \<times> nat) list \<Rightarrow> nat \<Rightarrow> bool" where
  "marks seen ps f \<longleftrightarrow> seen f \<or> (\<exists>p \<in> set ps. f \<in> pblk p)"

definition pairs :: "(nat \<Rightarrow> nat list) \<Rightarrow> nat list \<Rightarrow> (nat \<times> nat) list" where
  "pairs L ks = concat (map (\<lambda>k. map (Pair k) (L k)) ks)"

lemma marks_Nil: "marks seen [] = seen"
  by (simp add: marks_def fun_eq_iff)

lemma marks_Cons: "marks seen (p # ps) = marks (\<lambda>f. seen f \<or> f \<in> pblk p) ps"
  by (auto simp: marks_def fun_eq_iff)

lemma apart_append: "apart seen (ps @ qs) \<longleftrightarrow> apart seen ps \<and> apart (marks seen ps) qs"
  by (induction ps arbitrary: seen) (simp_all add: marks_Nil marks_Cons)

lemma marks_append: "marks seen (ps @ qs) = marks (marks seen ps) qs"
  by (auto simp: marks_def fun_eq_iff)

lemma blocks_apart_pairs: "blocks_apart k seen xs = apart seen (map (Pair k) xs)"
  by (induction xs arbitrary: seen) (simp_all add: pblk_def)

lemma apart_iff:
  "apart seen ps \<longleftrightarrow> (\<forall>p \<in> set ps. \<forall>f \<in> pblk p. \<not> seen f) \<and> sorted_wrt (\<lambda>p q. pblk p \<inter> pblk q = {}) ps"
  by (induction ps arbitrary: seen) (auto simp: disjoint_iff)

lemma pairs_Cons: "pairs L (k # ks) = map (Pair k) (L k) @ pairs L ks"
  by (simp add: pairs_def)

lemma set_pairs: "set (pairs L ks) = {(k, x). k \<in> set ks \<and> x \<in> set (L k)}"
  by (auto simp: pairs_def)

lemma st_orders_iff:
  assumes "\<forall>k \<in> set ks. chain (fr_next s) (fr_heads s k) (L k)"
  shows "st_orders s ks n seen = Inr (n', seen') \<longleftrightarrow>
     n' = n + length (pairs L ks) \<and> (pairs L ks \<noteq> [] \<longrightarrow> n' \<le> fr_total s)
     \<and> (\<forall>p \<in> set (pairs L ks). good_block s (fst p) (snd p)) \<and> apart seen (pairs L ks)
     \<and> seen' = marks seen (pairs L ks)"
  using assms
proof (induction ks arbitrary: n seen)
  case Nil
  then show ?case by (auto simp: pairs_def marks_def)
next
  case (Cons k ks)
  let ?ps = "map (Pair k) (L k)"
  have c: "chain (fr_next s) (fr_heads s k) (L k)" using Cons.prems by simp
  have m: "(\<lambda>f. seen f \<or> (\<exists>x \<in> set (L k). f \<in> blk x k)) = marks seen ?ps"
    by (auto simp: marks_def fun_eq_iff pblk_def)
  note I = st_list_iff [OF c, of k n seen, unfolded blocks_apart_pairs m]
  let ?ok = "(L k \<noteq> [] \<longrightarrow> n + length (L k) \<le> fr_total s) \<and> (\<forall>x \<in> set (L k). good_block s k x) \<and> apart seen ?ps"
  show ?case
  proof (cases ?ok)
    case True
    then have "st_list s k (fr_heads s k) n seen = Inr (n + length (L k), marks seen ?ps)" using I by blast
    then have e: "st_orders s (k # ks) n seen = st_orders s ks (n + length (L k)) (marks seen ?ps)" by simp
    have IH: "st_orders s ks (n + length (L k)) (marks seen ?ps) = Inr (n', seen') \<longleftrightarrow>
        n' = n + length (L k) + length (pairs L ks) \<and> (pairs L ks \<noteq> [] \<longrightarrow> n' \<le> fr_total s)
        \<and> (\<forall>p \<in> set (pairs L ks). good_block s (fst p) (snd p)) \<and> apart (marks seen ?ps) (pairs L ks)
        \<and> seen' = marks (marks seen ?ps) (pairs L ks)"
      using Cons.prems by (intro Cons.IH) simp
    have cap: "(pairs L ks \<noteq> [] \<longrightarrow> n' \<le> fr_total s) \<longleftrightarrow> (?ps @ pairs L ks \<noteq> [] \<longrightarrow> n' \<le> fr_total s)"
      if "n' = n + length (L k) + length (pairs L ks)" using True that by auto
    show ?thesis unfolding e IH pairs_Cons apart_append marks_append using True cap
      by (auto simp: add.assoc)
  next
    case False
    have "st_list s k (fr_heads s k) n seen \<noteq> Inr r" for r
      using I [of "fst r" "snd r"] False by (cases r) auto
    then obtain e where "st_list s k (fr_heads s k) n seen = Inl e" by (metis sum.exhaust)
    then have "st_orders s (k # ks) n seen \<noteq> Inr (n', seen')" by simp
    moreover have ?ok if "n' = n + length (?ps @ pairs L ks) \<and> (?ps @ pairs L ks \<noteq> [] \<longrightarrow> n' \<le> fr_total s)
        \<and> (\<forall>p \<in> set (?ps @ pairs L ks). good_block s (fst p) (snd p)) \<and> apart seen (?ps @ pairs L ks)"
    proof -
      have "good_block s k x" if "x \<in> set (L k)" for x
        using \<open>n' = _ \<and> _\<close> that by (metis fst_conv snd_conv imageI in_set_conv_decomp set_map set_append UnI1)
      then show ?thesis using that by (auto simp: apart_append)
    qed
    ultimately show ?thesis unfolding pairs_Cons using False by blast
  qed
qed

lemma st_orders_chain:
  "st_orders s ks n seen = Inr r \<Longrightarrow> \<forall>k \<in> set ks. \<exists>xs. chain (fr_next s) (fr_heads s k) xs"
proof (induction ks arbitrary: n seen)
  case (Cons k ks)
  then obtain n1 seen1 where a: "st_list s k (fr_heads s k) n seen = Inr (n1, seen1)"
    and b: "st_orders s ks n1 seen1 = Inr r" by (auto split: sum.splits)
  from Cons.IH [OF b] st_list_chain [OF a] show ?case by simp
qed simp

text \<open>
  The partition property: the free lists end, their blocks are aligned to their order,
  carry it, and consist of free frames inside RAM; no two blocks share a frame; every free
  frame is in a block.
\<close>

definition partition_by :: "frames \<Rightarrow> (nat \<Rightarrow> nat list) \<Rightarrow> bool" where
  "partition_by s L \<longleftrightarrow>
     (\<forall>k \<le> BUDDY_MAX_ORDER. chain (fr_next s) (fr_heads s k) (L k) \<and> distinct (L k) \<and> (\<forall>x \<in> set (L k). good_block s k x))
     \<and> (\<forall>k \<le> BUDDY_MAX_ORDER. \<forall>k' \<le> BUDDY_MAX_ORDER. \<forall>x \<in> set (L k). \<forall>x' \<in> set (L k').
          \<forall>f. f \<in> blk x k \<and> f \<in> blk x' k' \<longrightarrow> x = x' \<and> k = k')
     \<and> (\<forall>f. fr_reserved s \<le> f \<and> f < fr_total s \<and> \<not> fr_bitmap s f \<longrightarrow>
          (\<exists>k \<le> BUDDY_MAX_ORDER. \<exists>x \<in> set (L k). f \<in> blk x k))"

definition free_lists_partition :: "frames \<Rightarrow> bool" where
  "free_lists_partition s \<longleftrightarrow> (\<exists>L. partition_by s L)"

lemma partition_byD:
  assumes "partition_by s L"
  shows "\<And>k. k \<le> BUDDY_MAX_ORDER \<Longrightarrow> chain (fr_next s) (fr_heads s k) (L k) \<and> distinct (L k) \<and> (\<forall>x \<in> set (L k). good_block s k x)"
    and "\<And>k k' x x' f. k \<le> BUDDY_MAX_ORDER \<Longrightarrow> k' \<le> BUDDY_MAX_ORDER \<Longrightarrow> x \<in> set (L k) \<Longrightarrow> x' \<in> set (L k')
       \<Longrightarrow> f \<in> blk x k \<Longrightarrow> f \<in> blk x' k' \<Longrightarrow> x = x' \<and> k = k'"
    and "\<And>f. fr_reserved s \<le> f \<Longrightarrow> f < fr_total s \<Longrightarrow> \<not> fr_bitmap s f \<Longrightarrow>
          \<exists>k \<le> BUDDY_MAX_ORDER. \<exists>x \<in> set (L k). f \<in> blk x k"
proof -
  note A = assms [unfolded partition_by_def]
  show "\<And>k. k \<le> BUDDY_MAX_ORDER \<Longrightarrow> chain (fr_next s) (fr_heads s k) (L k) \<and> distinct (L k) \<and> (\<forall>x \<in> set (L k). good_block s k x)"
    by (rule A [THEN conjunct1, rule_format])
  show "\<And>k k' x x' f. k \<le> BUDDY_MAX_ORDER \<Longrightarrow> k' \<le> BUDDY_MAX_ORDER \<Longrightarrow> x \<in> set (L k) \<Longrightarrow> x' \<in> set (L k')
       \<Longrightarrow> f \<in> blk x k \<Longrightarrow> f \<in> blk x' k' \<Longrightarrow> x = x' \<and> k = k'"
    using A [THEN conjunct2, THEN conjunct1] by blast
  show "\<And>f. fr_reserved s \<le> f \<Longrightarrow> f < fr_total s \<Longrightarrow> \<not> fr_bitmap s f \<Longrightarrow>
          \<exists>k \<le> BUDDY_MAX_ORDER. \<exists>x \<in> set (L k). f \<in> blk x k"
    using A [THEN conjunct2, THEN conjunct2] by blast
qed

lemma sorted_wrt_irrefl_distinct: "sorted_wrt R xs \<Longrightarrow> (\<And>x. \<not> R x x) \<Longrightarrow> distinct xs"
  by (induction xs) auto

lemma sorted_wrt_disjoint:
  assumes "distinct ps" and "\<And>p q. p \<in> set ps \<Longrightarrow> q \<in> set ps \<Longrightarrow> p \<noteq> q \<Longrightarrow> pblk p \<inter> pblk q = {}"
  shows "sorted_wrt (\<lambda>p q. pblk p \<inter> pblk q = {}) ps"
  using assms
proof (induction ps)
  case (Cons r ps)
  have "pblk r \<inter> pblk q = {}" if "q \<in> set ps" for q
    using Cons.prems(2) [of r q] Cons.prems(1) that by auto
  moreover have "sorted_wrt (\<lambda>p q. pblk p \<inter> pblk q = {}) ps"
    using Cons.prems by (intro Cons.IH) auto
  ultimately show ?case by simp
qed simp

lemma sorted_wrt_disjointD:
  assumes "sorted_wrt (\<lambda>p q. pblk p \<inter> pblk q = {}) ps" and "p \<in> set ps" "q \<in> set ps" "f \<in> pblk p" "f \<in> pblk q"
  shows "p = q"
  using assms
proof (induction ps)
  case (Cons r ps)
  then show ?case by (auto simp: disjoint_iff)
qed simp

lemma distinct_pairs: "distinct ks \<Longrightarrow> (\<And>k. k \<in> set ks \<Longrightarrow> distinct (L k)) \<Longrightarrow> distinct (pairs L ks)"
  by (induction ks) (auto simp: pairs_Cons set_pairs distinct_map inj_on_def, simp add: pairs_def)

lemma pairs_length_le:
  assumes "distinct (pairs L ks)" and "sorted_wrt (\<lambda>p q. pblk p \<inter> pblk q = {}) (pairs L ks)"
    and "\<forall>p \<in> set (pairs L ks). good_block s (fst p) (snd p)"
  shows "length (pairs L ks) \<le> fr_total s"
proof -
  have hd: "snd p \<in> pblk p" for p by (simp add: pblk_def)
  have "inj_on snd (set (pairs L ks))"
    using sorted_wrt_disjointD [OF assms(2)] hd by (intro inj_onI) metis
  then have "length (pairs L ks) = card (snd ` set (pairs L ks))"
    using assms(1) by (simp add: card_image distinct_card)
  also have "\<dots> \<le> card {..<fr_total s}"
  proof (rule card_mono)
    have "snd p < fr_total s" if "p \<in> set (pairs L ks)" for p
      using assms(3) that hd [of p] unfolding good_block_def pblk_def by blast
    then show "snd ` set (pairs L ks) \<subseteq> {..<fr_total s}" by auto
  qed simp
  finally show ?thesis by simp
qed

end
