(* ===== verification/Phys_Props.thy ===== *)
theory Phys_Props
  imports Phys
begin

text \<open>
  The properties of the frame allocator: the boot self-test's scan decides the partition
  property exactly, the allocator's invariant implies it, allocation and release implement
  the ownership map, and the two places where the code breaks its own rules (a frame
  parked by a refill is not marked as parked; reserving a region leaves stale orders).
\<close>

section \<open>The partition\<close>

lemma check_None:
  "selftest_check_partition s = None \<longleftrightarrow>
     (\<exists>n seen. st_orders s [0..<Suc BUDDY_MAX_ORDER] 0 (\<lambda>_. False) = Inr (n, seen)
        \<and> (\<forall>f. fr_reserved s \<le> f \<and> f < fr_total s \<longrightarrow> seen f \<or> fr_bitmap s f))"
  by (auto simp: selftest_check_partition_def simp del: upt_Suc split: sum.splits)

lemma partition_check:
  assumes "free_lists_partition s"
  shows "selftest_check_partition s = None"
proof -
  let ?ks = "[0..<Suc BUDDY_MAX_ORDER]"
  from assms obtain L where L0: "partition_by s L" unfolding free_lists_partition_def ..
  note L = partition_byD(1) [OF L0] and dj = partition_byD(2) [OF L0] and cov = partition_byD(3) [OF L0]
  have ks: "k \<in> set ?ks \<longleftrightarrow> k \<le> BUDDY_MAX_ORDER" for k by auto
  have ch: "\<forall>k \<in> set ?ks. chain (fr_next s) (fr_heads s k) (L k)"
  proof
    fix k assume "k \<in> set ?ks"
    then have "k \<le> BUDDY_MAX_ORDER" unfolding ks .
    from L [OF this] show "chain (fr_next s) (fr_heads s k) (L k)" by (rule conjunct1)
  qed
  have dist: "distinct (pairs L ?ks)" 
  proof (rule distinct_pairs)
    show "distinct (L k)" if "k \<in> set ?ks" for k using L [of k, THEN conjunct2, THEN conjunct1] that unfolding ks .
  qed (rule distinct_upt)
  have sw: "sorted_wrt (\<lambda>p q. pblk p \<inter> pblk q = {}) (pairs L ?ks)"
  proof (rule sorted_wrt_disjoint [OF dist])
    fix p q assume "p \<in> set (pairs L ?ks)" "q \<in> set (pairs L ?ks)" "p \<noteq> q"
    then obtain k x k' x' where p: "p = (k, x)" "k \<le> BUDDY_MAX_ORDER" "x \<in> set (L k)"
      and q: "q = (k', x')" "k' \<le> BUDDY_MAX_ORDER" "x' \<in> set (L k')" unfolding set_pairs ks by blast
    show "pblk p \<inter> pblk q = {}"
      using dj [OF p(2) q(2) p(3) q(3)] \<open>p \<noteq> q\<close> unfolding p(1) q(1) pblk_def by (auto simp del: in_blk)
  qed
  have good: "\<forall>p \<in> set (pairs L ?ks). good_block s (fst p) (snd p)"
  proof
    fix p assume "p \<in> set (pairs L ?ks)"
    then have k: "fst p \<le> BUDDY_MAX_ORDER" and x: "snd p \<in> set (L (fst p))" unfolding set_pairs ks by auto
    from L [OF k, THEN conjunct2, THEN conjunct2] x show "good_block s (fst p) (snd p)" by (rule bspec)
  qed
  note len = pairs_length_le [OF dist sw good]
  have ap: "apart (\<lambda>_. False) (pairs L ?ks)" unfolding apart_iff using sw by simp
  have "st_orders s ?ks 0 (\<lambda>_. False) = Inr (0 + length (pairs L ?ks), marks (\<lambda>_. False) (pairs L ?ks))"
    unfolding st_orders_iff [OF ch] using len good ap by simp
  moreover have "marks (\<lambda>_. False) (pairs L ?ks) f" if f: "fr_reserved s \<le> f" "f < fr_total s" "\<not> fr_bitmap s f" for f
  proof -
    from cov [OF f] obtain k x where "k \<le> BUDDY_MAX_ORDER" "x \<in> set (L k)" "f \<in> blk x k" by blast
    then show ?thesis unfolding marks_def set_pairs ks
      by (intro disjI2 bexI [of _ "(k, x)"]) (auto simp: pblk_def)
  qed
  ultimately show ?thesis unfolding check_None by blast
qed

lemma check_partition:
  assumes "selftest_check_partition s = None"
  shows "free_lists_partition s"
proof -
  let ?ks = "[0..<Suc BUDDY_MAX_ORDER]"
  have ks: "k \<in> set ?ks \<longleftrightarrow> k \<le> BUDDY_MAX_ORDER" for k by auto
  from assms obtain n seen where o: "st_orders s ?ks 0 (\<lambda>_. False) = Inr (n, seen)"
    and cov: "\<And>f. fr_reserved s \<le> f \<Longrightarrow> f < fr_total s \<Longrightarrow> seen f \<or> fr_bitmap s f" unfolding check_None by blast
  from st_orders_chain [OF o] obtain L where ch: "\<forall>k \<in> set ?ks. chain (fr_next s) (fr_heads s k) (L k)" by metis
  from o have R: "\<forall>p \<in> set (pairs L ?ks). good_block s (fst p) (snd p)" "apart (\<lambda>_. False) (pairs L ?ks)"
    "seen = marks (\<lambda>_. False) (pairs L ?ks)"
    unfolding st_orders_iff [OF ch] by blast+
  from R(2) have sw: "sorted_wrt (\<lambda>p q. pblk p \<inter> pblk q = {}) (pairs L ?ks)" unfolding apart_iff by blast
  have mem: "(k, x) \<in> set (pairs L ?ks)" if "k \<le> BUDDY_MAX_ORDER" "x \<in> set (L k)" for k x
    using that unfolding set_pairs ks by simp
  have dist: "distinct (L k)" if k: "k \<le> BUDDY_MAX_ORDER" for k
  proof -
    have "sorted_wrt (\<lambda>p q. pblk p \<inter> pblk q = {}) (map (Pair k) (L k))"
    proof -
      obtain a b where "?ks = a @ k # b" using k ks by (meson split_list)
      then have "pairs L ?ks = pairs L a @ map (Pair k) (L k) @ pairs L b" by (simp add: pairs_def)
      then show ?thesis using sw by (simp add: sorted_wrt_append)
    qed
    then have "sorted_wrt (\<lambda>x y. pblk (k, x) \<inter> pblk (k, y) = {}) (L k)" by (simp add: sorted_wrt_map)
    moreover have "\<not> pblk (k, x) \<inter> pblk (k, x) = {}" for x
    proof -
      have "x \<in> pblk (k, x)" by (simp add: pblk_def)
      then show ?thesis by blast
    qed
    ultimately show ?thesis by (rule sorted_wrt_irrefl_distinct)
  qed
  have dj: "x = x' \<and> k = k'" if "k \<le> BUDDY_MAX_ORDER" "k' \<le> BUDDY_MAX_ORDER" "x \<in> set (L k)" "x' \<in> set (L k')" "f \<in> blk x k" "f \<in> blk x' k'" for k k' x x' f
    using sorted_wrt_disjointD [OF sw mem [OF that(1,3)] mem [OF that(2,4)], of f] that(5,6)
    by (simp add: pblk_def)
  have cover: "\<exists>k \<le> BUDDY_MAX_ORDER. \<exists>x \<in> set (L k). f \<in> blk x k"
    if "fr_reserved s \<le> f" "f < fr_total s" "\<not> fr_bitmap s f" for f
  proof -
    from cov [of f] that obtain p where "p \<in> set (pairs L ?ks)" "f \<in> pblk p" unfolding R(3) marks_def by blast
    then obtain k x where "p = (k, x)" "k \<le> BUDDY_MAX_ORDER" "x \<in> set (L k)" "f \<in> blk x k"
      unfolding set_pairs ks pblk_def by (cases p) auto
    then show ?thesis by blast
  qed
  have good: "good_block s k x" if "k \<le> BUDDY_MAX_ORDER" "x \<in> set (L k)" for k x
    using R(1) mem [OF that] by fastforce
  show ?thesis unfolding free_lists_partition_def partition_by_def
  proof (intro exI [of _ L] conjI allI impI ballI)
    show "chain (fr_next s) (fr_heads s k) (L k)" if "k \<le> BUDDY_MAX_ORDER" for k using ch that ks by blast
  qed (use dist good dj cover in blast)+
qed

text \<open>The boot self-test's scan reports nothing exactly when the free lists partition the
  free frames: it accepts every correct allocator state and no incorrect one.\<close>

theorem selftest_scan_exact: "selftest_check_partition s = None \<longleftrightarrow> free_lists_partition s"
  using partition_check check_partition by blast

lemma parts_partition:
  assumes "buddy_parts s L {}"
  shows "free_lists_partition s"
proof -
  note B = parts_block [OF assms] and F = parts_in_free [OF assms]
  show ?thesis unfolding free_lists_partition_def partition_by_def
  proof (intro exI [of _ L] conjI allI impI ballI)
    fix k assume k: "k \<le> BUDDY_MAX_ORDER"
    from parts_dll [OF assms k] show "chain (fr_next s) (fr_heads s k) (L k)" "distinct (L k)"
      by (auto simp: dll_def dest: dseg_chain)
    show "good_block s k x" if "x \<in> set (L k)" for x
      unfolding good_block_def using B [OF k that] F [OF k that] by blast
  next
    show "\<exists>k \<le> BUDDY_MAX_ORDER. \<exists>x \<in> set (L k). f \<in> blk x k"
      if "fr_reserved s \<le> f \<and> f < fr_total s \<and> \<not> fr_bitmap s f" for f
      using parts_free [OF assms, of f] that by blast
  qed (use parts_disjoint [OF assms] in blast)+
qed

lemma phys_ok_scan:
  assumes "frames_ok s M" and "fr_built s"
  shows "selftest_check_partition s = None"
  using frames_okD(1) [OF assms(1)] assms(2) parts_partition partition_check by (auto simp: buddy_ok_def)


section \<open>Releasing twice\<close>

lemma cache_free_marks:
  assumes ok: "frames_ok s {#f * 4096#}" and cid: "cid < MAX_CORES"
  shows "(fr_order (percpu_cache_free cid (f * 4096) s) f = BUDDY_CACHED \<or> fr_refs (percpu_cache_free cid (f * 4096) s) f = 0)
     \<and> same_geometry (percpu_cache_free cid (f * 4096) s) s"
proof (cases "length (fr_cache s cid) < PERCPU_CACHE_SIZE")
  case True
  then show ?thesis by (simp add: percpu_cache_free_def Let_def same_geometry_def)
next
  case False
  let ?c = "fr_cache s cid" and ?p = "f * 4096"
  let ?m = "s\<lparr>fr_spilled := (fr_spilled s)(cid := fr_spilled s cid + of_nat (length (rev (drop PERCPU_FLUSH_KEEP ?c) @ [?p])))\<rparr>"
  let ?u = "?m\<lparr>fr_cache := (fr_cache ?m)(cid := take PERCPU_FLUSH_KEEP ?c)\<rparr>"
  let ?v = "fold buddy_free_locked (rev (drop PERCPU_FLUSH_KEEP ?c)) ?u"
  have "s\<lparr>fr_cache := (fr_cache s)(cid := take PERCPU_FLUSH_KEEP ?c),
        fr_spilled := (fr_spilled s)(cid := fr_spilled s cid + of_nat (length (rev (drop PERCPU_FLUSH_KEEP ?c) @ [?p])))\<rparr> = ?u" by simp
  then have "percpu_cache_free cid ?p s = fold buddy_free_locked (rev (drop PERCPU_FLUSH_KEEP ?c) @ [?p]) ?u"
    unfolding percpu_cache_free_def Let_def using False by (simp only: if_False)
  then have res: "percpu_cache_free cid ?p s = buddy_free_locked ?p ?v" by simp
  have "mset ?c = mset (take PERCPU_FLUSH_KEEP ?c) + mset (drop PERCPU_FLUSH_KEEP ?c)"
    by (metis append_take_drop_id mset_append)
  then have eq: "{#?p#} + mset (fr_cache ?m cid) = ({#?p#} + mset (rev (drop PERCPU_FLUSH_KEEP ?c))) + mset (take PERCPU_FLUSH_KEEP ?c)" by simp
  have len: "length (take PERCPU_FLUSH_KEEP ?c) \<le> PERCPU_CACHE_SIZE"
    using frames_okD(5) [OF ok cid] by simp
  have okm: "frames_ok ?m {#?p#}" using ok by simp
  note C = frames_ok_cache(1) [OF okm cid len eq]
  from fold_free_ok [OF C] have v: "frames_ok ?v (add_mset ?p {#})" "same_geometry ?v ?u" by auto
  from free_locked_ok [OF v(1)] v(2) show ?thesis unfolding res by (simp add: same_geometry_def)
qed

lemma free_twice:
  assumes ok: "phys_ok s" and cid: "cid < MAX_CORES" and h: "owned s f = Some 1"
  defines "t \<equiv> frame_free cid (f * 4096) s"
  shows "frame_free cid' (f * 4096) t = t\<lparr>fr_overfree := fr_overfree t + 1\<rparr>"
proof -
  note D = frames_okD [OF ok]
  have l: "live s {#} f" and r: "fr_refs s f = 1" using h by (auto simp: held_def split: if_splits)
  from l have f: "fr_reserved s \<le> f" "f < fr_total s" "fr_bitmap s f" by (auto simp: live_def)
  have nz: "f * 4096 \<noteq> 0" using f(1) D(2) by simp
  have z: "f * 4096 \<noteq> fr_zero s"
  proof
    assume eq: "f * 4096 = fr_zero s"
    from eq [symmetric] nz D(8) r show False by (simp add: FRAME_PINNED_def)
  qed
  let ?m = "s\<lparr>fr_order := (fr_order s)(f := BUDDY_CACHED)\<rparr>"
  have t: "t = percpu_cache_free cid (f * 4096) ?m"
    using f z nz D(10) [OF l] r by (simp add: t_def frame_free_def Let_def FRAME_PINNED_def)
  have "frames_ok s {#f * 4096#}" using frames_ok_take [OF ok l r] by simp
  then have "frames_ok ?m {#f * 4096#}"
    using frames_ok_mark(1) [OF _ f(3), of "{#f * 4096#}" BUDDY_CACHED]
    by (simp add: BUDDY_CACHED_def BUDDY_MAX_ORDER_def live_def)
  from cache_free_marks [OF this cid] have "fr_order t f = BUDDY_CACHED \<or> fr_refs t f = 0"
    "fr_total t = fr_total s" "fr_reserved t = fr_reserved s" "fr_zero t = fr_zero s"
    unfolding t by (auto simp: same_geometry_def)
  then show ?thesis using f z nz by (auto simp: frame_free_def Let_def)
qed

section \<open>The self-test keeps the invariant\<close>

lemma flush_ok:
  assumes "phys_ok s" and "cid < MAX_CORES"
  shows "phys_ok (selftest_flush_caches cid s) \<and> owned (selftest_flush_caches cid s) = owned s"
proof -
  let ?step = "\<lambda>c s. let ps = fr_cache s c; s1 = s\<lparr>fr_cache := (fr_cache s)(c := [])\<rparr>
       in if ps = [] then s1
          else fold buddy_free_locked ps
                 (s1\<lparr>fr_spilled := (fr_spilled s1)(cid := fr_spilled s1 cid + of_nat (length ps))\<rparr>)"
  have step: "phys_ok (?step c s) \<and> owned (?step c s) = owned s" if "phys_ok s" "c < MAX_CORES" for c s
  proof -
    let ?s1 = "s\<lparr>fr_cache := (fr_cache s)(c := [])\<rparr>"
    have eq: "{#} + mset (fr_cache s c) = ({#} + mset (fr_cache s c)) + mset []" by simp
    note C = frames_ok_cache [OF that _ eq]
    have ok1: "frames_ok ?s1 ({#} + mset (fr_cache s c))" and h1: "held ?s1 (mset (fr_cache s c)) = owned s"
      using C by simp_all
    show ?thesis
    proof (cases "fr_cache s c = []")
      case True
      then show ?thesis using ok1 h1 by (simp add: Let_def)
    next
      case False
      let ?s2 = "?s1\<lparr>fr_spilled := (fr_spilled ?s1)(cid := fr_spilled ?s1 cid + of_nat (length (fr_cache s c)))\<rparr>"
      have ok2: "frames_ok ?s2 ({#} + mset (fr_cache s c))" using ok1 by simp
      have h2: "held ?s2 (mset (fr_cache s c)) = owned s" using h1 by simp
      have res: "?step c s = fold buddy_free_locked (fr_cache s c) ?s2" using False by (simp only: Let_def if_False)
      from fold_free_ok [OF ok2] h2 show ?thesis unfolding res by simp
    qed
  qed
  show ?thesis unfolding selftest_flush_caches_def
  proof (rule for_upto_invariant [where I = "\<lambda>t. phys_ok t \<and> owned t = owned s"])
    show "phys_ok s \<and> owned s = owned s" using assms by simp
  next
    fix c t assume "c < MAX_CORES" "phys_ok t \<and> owned t = owned s"
    then show "phys_ok (?step c t) \<and> owned (?step c t) = owned s" using step by metis
  qed
qed


lemma alloc_cases:
  assumes "phys_ok s" and "cid < MAX_CORES" and "frame_alloc cid s = (p, t)"
  shows "phys_ok t" and "p = 0 \<Longrightarrow> owned t = owned s"
    and "p \<noteq> 0 \<Longrightarrow> \<exists>f. p = f * 4096 \<and> owned s f = None \<and> owned t = (owned s)(f \<mapsto> 1)"
  using frame_alloc_contract [OF assms] by (auto split: if_splits)

lemma free_last:
  assumes "phys_ok s" and "cid < MAX_CORES" and "owned s f = Some 1"
  shows "phys_ok (frame_free cid (f * 4096) s)" and "owned (frame_free cid (f * 4096) s) = (owned s)(f := None)"
  using frame_free_contract [OF assms] by simp_all

lemma frame_free_0 [simp]: "frame_free cid 0 s = s"
  by (simp add: frame_free_def)

lemma fast_path_ok:
  assumes ok: "phys_ok s" and cid: "cid < MAX_CORES" and r: "selftest_fast_path cid s = (r, t)"
  shows "phys_ok t \<and> (r = None \<longrightarrow> owned t = owned s) \<and> r \<in> {None, Some ''alloc returned bad frames''}"
proof -
  obtain a s1 where A: "frame_alloc cid s = (a, s1)" by fastforce
  obtain b s2 where B: "frame_alloc cid s1 = (b, s2)" by fastforce
  note A' = alloc_cases [OF ok cid A]
  note B' = alloc_cases [OF A'(1) cid B]
  show ?thesis
  proof (cases "a = 0 \<or> b = 0 \<or> a = b")
    case True
    then have "r = Some ''alloc returned bad frames''" "t = s2" using r A B by (auto simp: selftest_fast_path_def)
    then show ?thesis using B' by simp
  next
    case False
    then have nz: "a \<noteq> 0" "b \<noteq> 0" by auto
    obtain fa where fa: "a = fa * 4096" "owned s fa = None" "owned s1 = (owned s)(fa \<mapsto> 1)" using A'(3) nz by blast
    obtain fb where fb: "b = fb * 4096" "owned s1 fb = None" "owned s2 = (owned s1)(fb \<mapsto> 1)" using B'(3) nz by blast
    have ne: "fb \<noteq> fa" using fa fb by auto
    have hb: "owned s2 fb = Some 1" using fb by simp
    note F = free_last [OF B'(1) cid hb, folded fb(1)]
    have o3: "owned (frame_free cid b s2) = owned s1" using F fb by (auto simp: fun_eq_iff)
    obtain c s3 where C: "frame_alloc cid (frame_free cid b s2) = (c, s3)" by fastforce
    note C' = alloc_cases [OF F(1) cid C]
    have ca: "c \<noteq> a"
    proof
      assume "c = a"
      with C'(3) nz obtain fc where "c = fc * 4096" "owned s1 fc = None" using o3 by auto
      then show False using \<open>c = a\<close> fa by simp
    qed
    have rt: "r = None" "t = frame_free cid c (frame_free cid a s3)"
      using r A B C False ca by (auto simp: selftest_fast_path_def Let_def)
    show ?thesis
    proof (cases "c = 0")
      case True
      then have "owned s3 fa = Some 1" using C'(2) o3 fa by simp
      from free_last [OF C'(1) cid this, folded fa(1)] True C'(2) o3 fa show ?thesis unfolding rt
        by (auto simp: fun_eq_iff)
    next
      case False
      with C'(3) obtain fc where fc: "c = fc * 4096" "owned s1 fc = None" "owned s3 = (owned s1)(fc \<mapsto> 1)" using o3 by auto
      then have "owned s3 fa = Some 1" "fc \<noteq> fa" using fa by auto
      note G = free_last [OF C'(1) cid this(1), folded fa(1)]
      then have "owned (frame_free cid a s3) fc = Some 1" using fc \<open>fc \<noteq> fa\<close> by simp
      from free_last [OF G(1) cid this, folded fc(1)] G(2) fc fa \<open>fc \<noteq> fa\<close> show ?thesis unfolding rt
        by (auto simp: fun_eq_iff)
    qed
  qed
qed

lemma overfree_ok:
  assumes ok: "phys_ok s" and cid: "cid < MAX_CORES" and r: "selftest_overfree cid s = (r, t)"
  shows "phys_ok t \<and> (r = None \<longrightarrow> owned t = owned s) \<and> r \<noteq> Some ''double free was not detected''"
proof -
  obtain d s1 where A: "frame_alloc cid s = (d, s1)" by fastforce
  note A' = alloc_cases [OF ok cid A]
  show ?thesis
  proof (cases "d = 0")
    case True
    then show ?thesis using r A A' by (auto simp: selftest_overfree_def Let_def)
  next
    case False
    then obtain fd where fd: "d = fd * 4096" "owned s fd = None" "owned s1 = (owned s)(fd \<mapsto> 1)" using A'(3) by blast
    then have h: "owned s1 fd = Some 1" by simp
    let ?s2 = "frame_free cid d s1"
    note F = free_last [OF A'(1) cid h, folded fd(1)]
    have twice: "frame_free cid d ?s2 = ?s2\<lparr>fr_overfree := fr_overfree ?s2 + 1\<rparr>"
      using free_twice [OF A'(1) cid h] unfolding fd(1) .
    let ?s3 = "?s2\<lparr>fr_overfree := fr_overfree ?s2 + 1\<rparr>"
    have ok3: "phys_ok ?s3" and o3: "owned ?s3 = owned s" using F fd by (auto simp: fun_eq_iff)
    obtain e s4 where E: "frame_alloc cid ?s3 = (e, s4)" by fastforce
    obtain f s5 where G: "frame_alloc cid s4 = (f, s5)" by fastforce
    note E' = alloc_cases [OF ok3 cid E]
    note G' = alloc_cases [OF E'(1) cid G]
    have "selftest_overfree cid s = (if phys_get_used_pages ?s3 \<noteq> phys_get_used_pages s then (Some ''double free moved the used count'', ?s3)
       else if e = 0 \<or> f = 0 \<or> e = f then (Some ''over-free put a frame into circulation twice'', s5)
       else (None, frame_free cid f (frame_free cid e s5)))"
      by (simp add: selftest_overfree_def Let_def A False twice E G)
    note res = this [unfolded r]
    show ?thesis
    proof (cases "phys_get_used_pages ?s3 \<noteq> phys_get_used_pages s \<or> e = 0 \<or> f = 0 \<or> e = f")
      case True
      then show ?thesis using res ok3 G' by (auto split: if_splits)
    next
      case nf: False
      then have rt: "r = None" "t = frame_free cid f (frame_free cid e s5)" using res by auto
      obtain fe where fe: "e = fe * 4096" "owned s4 = (owned s)(fe \<mapsto> 1)" "owned s fe = None" using E'(3) nf o3 by auto
      obtain ff where ff: "f = ff * 4096" "owned s5 = (owned s4)(ff \<mapsto> 1)" "owned s4 ff = None" using G'(3) nf by auto
      have ne: "ff \<noteq> fe" using fe ff by auto
      then have "owned s5 fe = Some 1" using fe ff by simp
      note X = free_last [OF G'(1) cid this, folded fe(1)]
      then have "owned (frame_free cid e s5) ff = Some 1" using ff ne by simp
      from free_last [OF X(1) cid this, folded ff(1)] X(2) fe ff ne show ?thesis unfolding rt
        by (auto simp: fun_eq_iff)
    qed
  qed
qed

text \<open>A batch of frames on top of what was owned before.\<close>

definition with_batch :: "(nat \<Rightarrow> nat option) \<Rightarrow> nat list \<Rightarrow> nat \<Rightarrow> nat option" where
  "with_batch m fs f = (if f \<in> set fs then Some 1 else m f)"

lemma churn_batch:
  assumes "phys_ok s" and "cid < MAX_CORES" and "owned s = with_batch m fs" and "distinct fs"
    and "\<forall>f \<in> set fs. m f = None" and "st_churn cid n (map (\<lambda>f. f * 4096) fs) s = (r, batch, t)"
  shows "phys_ok t \<and> r \<noteq> Some ''duplicate frame handed out''
     \<and> (\<exists>gs. batch = map (\<lambda>f. f * 4096) gs \<and> distinct gs \<and> owned t = with_batch m gs \<and> (\<forall>f \<in> set gs. m f = None))"
  using assms
proof (induction n arbitrary: s fs)
  case 0
  then show ?case by auto
next
  case (Suc n)
  obtain p s1 where A: "frame_alloc cid s = (p, s1)" by fastforce
  note A' = alloc_cases [OF Suc.prems(1,2) A]
  show ?case
  proof (cases "p = 0")
    case True
    then have "r = Some ''churn alloc failed''" "batch = map (\<lambda>f. f * 4096) fs" "t = s1"
      using Suc.prems(6) A by auto
    then show ?thesis using A' True Suc.prems by auto
  next
    case False
    then obtain f where f: "p = f * 4096" "owned s f = None" "owned s1 = (owned s)(f \<mapsto> 1)" using A'(3) by blast
    then have new: "f \<notin> set fs" "m f = None" using Suc.prems(3) by (auto simp: with_batch_def split: if_splits)
    then have "p \<notin> set (map (\<lambda>f. f * 4096) fs)" using f(1) by auto
    then have c: "st_churn cid n (map (\<lambda>f. f * 4096) (fs @ [f])) s1 = (r, batch, t)"
      using Suc.prems(6) A False f(1) by simp
    have o1: "owned s1 = with_batch m (fs @ [f])" using f Suc.prems(3) by (auto simp: with_batch_def fun_eq_iff)
    show ?thesis
      by (rule Suc.IH [OF A'(1) Suc.prems(2) o1 _ _ c]) (use new Suc.prems in auto)
  qed
qed

lemma free_batch:
  "phys_ok s \<Longrightarrow> cid < MAX_CORES \<Longrightarrow> owned s = with_batch m fs \<Longrightarrow> distinct fs \<Longrightarrow> \<forall>f \<in> set fs. m f = None \<Longrightarrow>
     phys_ok (fold (frame_free cid) (map (\<lambda>f. f * 4096) fs) s) \<and> owned (fold (frame_free cid) (map (\<lambda>f. f * 4096) fs) s) = m"
proof (induction fs arbitrary: s)
  case Nil
  then show ?case by (simp add: with_batch_def)
next
  case (Cons f fs)
  then have "owned s f = Some 1" by (simp add: with_batch_def)
  note F = free_last [OF Cons.prems(1,2) this]
  have "owned (frame_free cid (f * 4096) s) = with_batch m fs"
    using F(2) Cons.prems by (auto simp: with_batch_def fun_eq_iff)
  from Cons.IH [OF F(1) Cons.prems(2) this] Cons.prems show ?case by simp
qed

lemma churn_ok:
  assumes ok: "phys_ok s" and cid: "cid < MAX_CORES" and r: "selftest_churn cid s = (r, t)"
  shows "phys_ok t \<and> (r = None \<longrightarrow> owned t = owned s)"
proof -
  note F = flush_ok [OF ok cid]
  let ?s = "selftest_flush_caches cid s"
  obtain q batch s1 where C: "st_churn cid SELFTEST_CHURN [] ?s = (q, batch, s1)" by (metis prod_cases3)
  have "owned ?s = with_batch (owned s) []" using F by (simp add: with_batch_def fun_eq_iff)
  from churn_batch [OF _ cid this, of SELFTEST_CHURN q batch s1] F C obtain gs where
    G: "phys_ok s1" "batch = map (\<lambda>f. f * 4096) gs" "distinct gs" "owned s1 = with_batch (owned s) gs" "\<forall>f \<in> set gs. owned s f = None"
    by auto
  let ?s2 = "fold (frame_free cid) batch s1"
  have B: "phys_ok ?s2" "owned ?s2 = owned s" using free_batch [OF G(1) cid G(4,3,5)] G(2) by simp_all
  note F2 = flush_ok [OF B(1) cid]
  have "t = s1 \<and> r \<noteq> None \<or> t = selftest_flush_caches cid ?s2"
  proof (cases q)
    case (Some e)
    then show ?thesis using r C by (auto simp: selftest_churn_def Let_def)
  next
    case None
    have "selftest_churn cid s = (case selftest_check_partition s1 of
        Some bad \<Rightarrow> (Some bad, s1)
      | None \<Rightarrow> (let s2 = selftest_flush_caches cid ?s2
                 in if phys_get_used_pages s2 \<noteq> phys_get_used_pages ?s then (Some ''frames leaked'', s2)
                    else (selftest_check_partition s2, s2)))"
      using C None by (simp add: selftest_churn_def Let_def)
    then show ?thesis using r by (auto simp: Let_def split: option.splits if_splits)
  qed
  then show ?thesis using G(1) F2 B by auto
qed

lemma coalesce_ok:
  assumes ok: "phys_ok s" and r: "selftest_coalesce s = (r, t)"
  shows "phys_ok t \<and> owned t = owned s"
proof -
  obtain run s1 where R: "fetch_frames 16 s = (run, s1)" by fastforce
  from fetch_ok [OF ok R] have A: "frames_ok s1 ({#} + mset run)" "held s1 (mset run) = owned s" by auto
  let ?s2 = "fold buddy_free_locked run s1"
  from fold_free_ok [OF A(1)] A(2) have B: "phys_ok ?s2" "owned ?s2 = owned s" by simp_all
  obtain p s3 where C: "buddy_alloc_locked ?s2 = (p, s3)" by fastforce
  have t: "t = (if p \<noteq> 0 then buddy_free_locked p s3 else s3)"
    using r R C by (auto simp: selftest_coalesce_def Let_def split: if_splits)
  show ?thesis
  proof (cases "p = 0")
    case True
    then show ?thesis using alloc_locked_ok(1) [OF B(1) C True] B t by simp
  next
    case False
    from alloc_locked_ok(2) [OF B(1) C False] have "frames_ok s3 (add_mset p {#})" "held s3 {#p#} = owned ?s2" by auto
    with free_locked_ok [OF this(1)] show ?thesis using B t False by simp
  qed
qed

lemma self_test_ok:
  assumes ok: "phys_ok s" and cid: "cid < MAX_CORES" and r: "phys_allocator_self_test cid s = (r, t)"
  shows "phys_ok t \<and> (r = None \<longrightarrow> owned t = owned s)"
proof -
  obtain r1 s1 where A: "selftest_fast_path cid s = (r1, s1)" by fastforce
  obtain r2 s2 where B: "selftest_overfree cid s1 = (r2, s2)" by fastforce
  obtain r3 s3 where C: "selftest_churn cid s2 = (r3, s3)" by fastforce
  obtain r4 s4 where D: "selftest_coalesce s3 = (r4, s4)" by fastforce
  note A' = fast_path_ok [OF ok cid A]
  note B' = overfree_ok [OF conjunct1 [OF A'] cid B]
  note C' = churn_ok [OF conjunct1 [OF B'] cid C]
  note D' = coalesce_ok [OF conjunct1 [OF C'] D]
  have res: "phys_allocator_self_test cid s =
      (case r1 of Some e \<Rightarrow> (Some e, s1) | None \<Rightarrow> (case r2 of Some e \<Rightarrow> (Some e, s2)
        | None \<Rightarrow> (case r3 of Some e \<Rightarrow> (Some e, s3) | None \<Rightarrow> (r4, s4))))"
    using A B C D by (auto simp: phys_allocator_self_test_def split: option.splits)
  show ?thesis using r A' B' C' D' unfolding res by (auto split: option.splits)
qed


section \<open>Properties\<close>

text \<open>C5: After any boot the allocator is consistent: the free lists and caches account for every
  frame exactly once, and after a passed self-test no caller holds a frame.\<close>

theorem phys_init_establishes:
  assumes "fr_total s = 0" and "fr_built s = False" and "fr_zero s = 0" and "0 < npages" and "cid < MAX_CORES"
    and "phys_init cid npages s = (verdict, t)"
  shows "phys_ok t \<and> (verdict = None \<longrightarrow> owned t = Map.empty)"
proof -
  note S = phys_setup_ok [OF assms(2-4)]
  let ?s = "phys_setup npages s"
  have r: "phys_allocator_self_test cid ?s = (verdict, t)" using assms(1,6) by (simp add: phys_init_def)
  from self_test_ok [OF S(1) assms(5) r] S(2) show ?thesis by simp
qed


text \<open>C3: An allocation on any CPU either returns a frame that nobody held and gives the caller
  its only reference, leaving every other owner's reference count alone, or it returns 0,
  changes no ownership, and then no frame was free and the CPU's cache was empty.\<close>

theorem frame_alloc_exclusive:
  assumes "phys_ok s" and "cid < MAX_CORES" and "frame_alloc cid s = (p, t)"
  shows "phys_ok t \<and> (if p = 0 then owned t = owned s \<and> exhausted s \<and> fr_cache s cid = []
     else \<exists>f. p = f * 4096 \<and> owned s f = None \<and> owned t = (owned s)(f \<mapsto> 1))"
  by (rule frame_alloc_contract [OF assms])

text \<open>C4: Releasing a held frame drops exactly one reference, takes the frame from its holder
  with the last one, changes no other frame's ownership, and keeps the allocator consistent.\<close>

theorem frame_free_releases:
  assumes "phys_ok s" and "cid < MAX_CORES" and "owned s f = Some r"
  shows "phys_ok (frame_free cid (f * 4096) s)
     \<and> owned (frame_free cid (f * 4096) s) = (owned s)(f := (if r = 1 then None else Some (r - 1)))"
  by (rule frame_free_contract [OF assms])

text \<open>Releasing a frame a second time right after its last reference went, on the same or on
  another CPU, is detected: it only counts an over-free.\<close>

theorem double_free_detected:
  assumes "phys_ok s" and "cid < MAX_CORES" and "owned s f = Some 1"
  shows "frame_free cid' (f * 4096) (frame_free cid (f * 4096) s)
     = (frame_free cid (f * 4096) s)\<lparr>fr_overfree := fr_overfree (frame_free cid (f * 4096) s) + 1\<rparr>"
  by (rule free_twice [OF assms])

section \<open>A small machine for the witnesses\<close>

definition boot0 :: frames where
  "boot0 = \<lparr>fr_total = 0, fr_reserved = 20480, fr_bitmap = (\<lambda>_. False), fr_order = (\<lambda>_. 0), fr_refs = (\<lambda>_. 0),
     fr_next = (\<lambda>_. None), fr_prev = (\<lambda>_. None), fr_heads = (\<lambda>_. None), fr_built = False, fr_used = 0, fr_zero = 0,
     fr_cache = (\<lambda>_. []), fr_hits = (\<lambda>_. 0), fr_direct = (\<lambda>_. 0), fr_refilled = (\<lambda>_. 0), fr_parked = (\<lambda>_. 0),
     fr_spilled = (\<lambda>_. 0), fr_coalesces = 0, fr_oom = 0, fr_overfree = 0\<rparr>"

lemma boot0_ok:
  assumes "0 < npages"
  shows "phys_ok (phys_setup npages boot0)" "owned (phys_setup npages boot0) = Map.empty"
  using phys_setup_ok [of boot0 npages] assms by (simp_all add: boot0_def)

lemma small_reserve: "phys_reserve_pages 7172 = 7168"
  by (simp add: phys_reserve_pages_def Let_def KERNEL_RESERVED_PAGES_def KERNEL_RESERVED_PAGES_BIG_MIN_def
      KERNEL_HEAP_BASE_BYTES_def KERNEL_HEAP_MIN_BYTES_def)

abbreviation small :: frames where
  "small \<equiv> phys_setup 7172 boot0"

lemma small_fields:
  "fr_total small = 7172" "fr_reserved small = 7168" "fr_built small = False"
  "fr_bitmap small = (\<lambda>i. i < 7168 \<or> i = 7168)" "fr_zero small = 7168 * 4096"
  "\<And>c. c < MAX_CORES \<Longrightarrow> fr_cache small c = []"
  using phys_setup_fields [of boot0 7172]
  by (simp_all add: boot0_def PHYS_MAX_PAGES_def small_reserve fun_eq_iff)

lemma small_ok: "phys_ok small" "owned small = Map.empty"
  by (rule boot0_ok, simp)+

lemma small_room: "\<not> exhausted small"
  by (auto simp: exhausted_def small_fields intro!: exI [of _ 7169])

text \<open>One frame handed out on CPU 0.\<close>

definition small1 :: frames where
  "small1 = snd (frame_alloc 0 small)"

lemma small1_held: "\<exists>f. phys_ok small1 \<and> owned small1 f = Some 1 \<and> frame_alloc 0 small = (f * 4096, small1)"
proof -
  obtain p t where a: "frame_alloc 0 small = (p, t)" by fastforce
  have "p \<noteq> 0" using frame_alloc_contract [OF small_ok(1) _ a] small_room by (auto simp: MAX_CORES_def split: if_splits)
  then show ?thesis using frame_alloc_contract [OF small_ok(1) _ a] a by (auto simp: small1_def MAX_CORES_def split: if_splits)
qed

theorem frame_alloc_exclusive_witness:
  "\<exists>f t. frame_alloc 0 small = (f * 4096, t) \<and> f * 4096 \<noteq> 0 \<and> owned t = [f \<mapsto> 1]"
proof -
  obtain p t where a: "frame_alloc 0 small = (p, t)" by fastforce
  from frame_alloc_exclusive [OF small_ok(1) _ a] small_room small_ok(2) a show ?thesis
    by (fastforce simp: MAX_CORES_def split: if_splits)
qed

theorem frame_free_releases_witness:
  "\<exists>f. owned small1 f = Some 1 \<and> owned (frame_free 3 (f * 4096) small1) f = None"
proof -
  obtain f where f: "phys_ok small1" "owned small1 f = Some 1" using small1_held by blast
  from frame_free_releases [OF f(1) _ f(2), of 3] f show ?thesis by (auto simp: MAX_CORES_def)
qed

theorem double_free_detected_witness:
  "\<exists>f s. owned small1 f = Some 1 \<and> frame_free 5 (f * 4096) (frame_free 3 (f * 4096) small1) = s
     \<and> fr_overfree s = fr_overfree (frame_free 3 (f * 4096) small1) + 1"
proof -
  obtain f where f: "phys_ok small1" "owned small1 f = Some 1" using small1_held by blast
  from double_free_detected [OF f(1) _ f(2), of 3 5] f show ?thesis by (auto simp: MAX_CORES_def)
qed

theorem phys_init_establishes_witness:
  "\<exists>verdict t. phys_init 0 7172 boot0 = (verdict, t) \<and> phys_ok t"
proof -
  obtain v t where r: "phys_init 0 7172 boot0 = (v, t)" by fastforce
  have "phys_ok t \<and> (v = None \<longrightarrow> owned t = Map.empty)"
    by (rule phys_init_establishes [OF _ _ _ _ _ r]) (simp_all add: boot0_def MAX_CORES_def)
  then show ?thesis using r by blast
qed

end
