(* ===== verification/Phys_Findings.thy ===== *)
theory Phys_Findings
  imports Phys_Props
begin

text \<open>
  Two states the frame allocator's code reaches although its comments rule them out. A
  frame that a refill parks keeps the order byte \<open>BUDDY_ALLOCATED\<close>, so a stray release of
  it parks it twice and two callers get it. And \<open>phys_reserve_region\<close> leaves the order
  byte of a frame it pins, so releasing the frame's buddy merges the pinned frame into a
  free block.
\<close>

section \<open>Parked frames without the mark\<close>

lemma alloc_locked_order:
  assumes "frames_ok s M" and "buddy_alloc_locked s = (p, t)"
  shows "\<forall>g. fr_bitmap s g \<longrightarrow> fr_bitmap t g \<and> fr_order t g = fr_order s g"
    and "p \<noteq> 0 \<Longrightarrow> fr_bitmap t (p div 4096) \<and> fr_order t (p div 4096) = BUDDY_ALLOCATED"
proof -
  note D = frames_okD [OF assms(1)]
  note A = alloc_locked [OF D(1) assms(2) D(2)]
  show "\<forall>g. fr_bitmap s g \<longrightarrow> fr_bitmap t g \<and> fr_order t g = fr_order s g"
  proof (cases "p = 0")
    case True
    then show ?thesis using A(2) by (simp add: same_frames_def)
  next
    case False
    then show ?thesis using A(3) by (fastforce simp: same_frames_def)
  qed
  show "fr_bitmap t (p div 4096) \<and> fr_order t (p div 4096) = BUDDY_ALLOCATED" if "p \<noteq> 0"
    using A(3) [OF that] by (auto simp: same_frames_def)
qed

lemma fetch_order:
  "frames_ok s M \<Longrightarrow> fetch_frames n s = (ps, t) \<Longrightarrow>
     (\<forall>g. fr_bitmap s g \<longrightarrow> fr_bitmap t g \<and> fr_order t g = fr_order s g)
     \<and> (\<forall>p \<in> set ps. fr_order t (p div 4096) = BUDDY_ALLOCATED)"
proof (induction n arbitrary: s M ps t)
  case 0
  then show ?case by simp
next
  case (Suc n)
  obtain p s1 where a: "buddy_alloc_locked s = (p, s1)" by fastforce
  note O = alloc_locked_order [OF Suc.prems(1) a]
  show ?case
  proof (cases "p = 0")
    case True
    then show ?thesis using Suc.prems(2) a O(1) by auto
  next
    case False
    obtain qs s2 where f: "fetch_frames n s1 = (qs, s2)" by fastforce
    from alloc_locked_ok(2) [OF Suc.prems(1) a False] have "frames_ok s1 (add_mset p M)" by blast
    from Suc.IH [OF this] f have I: "\<forall>g. fr_bitmap s1 g \<longrightarrow> fr_bitmap s2 g \<and> fr_order s2 g = fr_order s1 g"
      "\<forall>p \<in> set qs. fr_order s2 (p div 4096) = BUDDY_ALLOCATED" by auto
    have "ps = p # qs" "t = s2" using Suc.prems(2) a f False by auto
    then show ?thesis using I O False by auto
  qed
qed

lemma exhausted_used:
  assumes "frames_ok s M" and "exhausted s"
  shows "fr_used s = fr_total s"
proof -
  note D = frames_okD [OF assms(1)]
  have "fr_bitmap s f" if "f < fr_total s" for f
    using assms(2) D(6) [OF that] that unfolding exhausted_def by (cases "f < fr_reserved s") auto
  then have "{f. f < fr_total s \<and> fr_bitmap s f} = {..<fr_total s}" by auto
  then show ?thesis using D(7) by simp
qed

lemma fetch_length:
  "frames_ok s M \<Longrightarrow> fetch_frames n s = (ps, t) \<Longrightarrow> fr_used s + n \<le> fr_total s \<Longrightarrow> length ps = n"
proof (induction n arbitrary: s M ps t)
  case 0
  then show ?case by simp
next
  case (Suc n)
  obtain p s1 where a: "buddy_alloc_locked s = (p, s1)" by fastforce
  note D = frames_okD [OF Suc.prems(1)]
  have nz: "p \<noteq> 0"
    using alloc_locked_ok(1) [OF Suc.prems(1) a] exhausted_used [OF Suc.prems(1)] Suc.prems(3) by auto
  obtain qs s2 where f: "fetch_frames n s1 = (qs, s2)" by fastforce
  from alloc_locked_ok(2) [OF Suc.prems(1) a nz] have ok1: "frames_ok s1 (add_mset p M)" by blast
  have "fr_used s1 = fr_used s + 1" "fr_total s1 = fr_total s"
    using alloc_locked(3) [OF D(1) a D(2) nz] by (auto simp: same_frames_def)
  then have "length qs = n" using Suc.IH [OF ok1 f] Suc.prems(3) by simp
  then show ?case using Suc.prems(2) a f nz by auto
qed

lemma frame_alloc_from_cache:
  assumes ok: "phys_ok s" and cid: "cid < MAX_CORES" and a: "frame_alloc cid s = (p, t)" and p: "p \<noteq> 0"
  shows "percpu_cache_alloc cid s = (p, t)"
proof -
  obtain q s1 where c: "percpu_cache_alloc cid s = (q, s1)" by fastforce
  show ?thesis
  proof (cases "q = 0")
    case True
    note C = cache_alloc_ok(1) [OF ok cid c True]
    then have ok1: "phys_ok s1" and ex: "exhausted s1" by blast+
    obtain r s2 where b: "buddy_alloc_locked s1 = (r, s2)" by fastforce
    have "r = 0"
      using alloc_locked(3) [OF frames_okD(1) [OF ok1] b frames_okD(2) [OF ok1]] ex by (auto simp: exhausted_def)
    then show ?thesis using a c b True p by (simp add: frame_alloc_def)
  next
    case False
    then show ?thesis using a c by (simp add: frame_alloc_def)
  qed
qed

text \<open>After an allocation on an empty cache, everything still parked there is unmarked.\<close>

lemma alloc_on_empty_cache:
  assumes ok: "phys_ok s" and cid: "cid < MAX_CORES" and e: "fr_cache s cid = []"
    and a: "frame_alloc cid s = (p, t)" and p: "p \<noteq> 0"
  shows "\<forall>q \<in> set (fr_cache t cid). fr_order t (q div 4096) = BUDDY_ALLOCATED"
    and "length (fr_cache t cid) < PERCPU_CACHE_SIZE"
    and "fr_used s + PERCPU_REFILL_BATCH \<le> fr_total s \<Longrightarrow> length (fr_cache t cid) = PERCPU_REFILL_BATCH - 1"
proof -
  obtain batch s0 where f: "fetch_frames PERCPU_REFILL_BATCH s = (batch, s0)" by fastforce
  have F: "length batch \<le> PERCPU_REFILL_BATCH" "fr_cache s0 = fr_cache s" "batch = [] \<Longrightarrow> exhausted s"
    using fetch_ok [OF ok f] by (auto simp: PERCPU_REFILL_BATCH_def)
  have O: "\<forall>p \<in> set batch. fr_order s0 (p div 4096) = BUDDY_ALLOCATED" using fetch_order [OF ok f] by blast
  have st: "stock_cache c sur ps = (c @ ps, sur)" if "length c + length ps \<le> PERCPU_CACHE_SIZE" for c sur ps
    using that by (induction c sur ps rule: stock_cache.induct) auto
  let ?s1 = "s0\<lparr>fr_refilled := (fr_refilled s0)(cid := fr_refilled s0 cid + of_nat (length batch))\<rparr>"
  let ?r = "?s1\<lparr>fr_cache := (fr_cache ?s1)(cid := batch)\<rparr>"
  have r: "percpu_cache_refill cid s = ?r"
    using e f F st [of "[]" batch "[]"]
    by (simp add: percpu_cache_refill_def percpu_fetch_batch_def PERCPU_REFILL_THRESHOLD_def PERCPU_REFILL_BATCH_def PERCPU_CACHE_SIZE_def)
  have ca: "percpu_cache_alloc cid s = (if batch \<noteq> [] then
       (last batch, ?r\<lparr>fr_cache := (fr_cache ?r)(cid := butlast batch), fr_hits := (fr_hits ?r)(cid := fr_hits ?r cid + 1),
                   fr_order := (fr_order ?r)(last batch div 4096 := BUDDY_ALLOCATED)\<rparr>) else (0, ?r))"
    using e by (simp add: percpu_cache_alloc_def r PERCPU_REFILL_THRESHOLD_def Let_def)
  note pc = frame_alloc_from_cache [OF ok cid a p]
  have ne: "batch \<noteq> []" using pc ca p by (auto split: if_splits)
  have t: "fr_cache t cid = butlast batch" "fr_order t = (fr_order s0)(p div 4096 := BUDDY_ALLOCATED)"
    using pc ca ne by auto
  show "\<forall>q \<in> set (fr_cache t cid). fr_order t (q div 4096) = BUDDY_ALLOCATED"
    using O t by (auto dest: in_set_butlastD)
  show "length (fr_cache t cid) < PERCPU_CACHE_SIZE"
    using F(1) t(1) by (simp add: PERCPU_REFILL_BATCH_def PERCPU_CACHE_SIZE_def)
  show "length (fr_cache t cid) = PERCPU_REFILL_BATCH - 1" if "fr_used s + PERCPU_REFILL_BATCH \<le> fr_total s"
    using fetch_length [OF ok f that] t(1) by simp
qed

text \<open>A frame that a refill parked, which no caller holds, is not recognised as parked: a stray
  release of it is not counted as an over-free but parks it a second time, and the next two
  allocations on that CPU hand the same frame to two callers.\<close>

theorem refill_parks_unmarked:
  assumes "phys_ok s" and "cid < MAX_CORES" and "fr_cache s cid = []" and "frame_alloc cid s = (p, t)" and "p \<noteq> 0"
    and "8 \<le> length (fr_cache t cid)"
  shows "\<exists>q u v. owned t (q div 4096) = None \<and> q \<in> set (fr_cache t cid)
     \<and> fr_overfree (frame_free cid q t) = fr_overfree t
     \<and> frame_alloc cid (frame_free cid q t) = (q, u) \<and> frame_alloc cid u = (q, v)"
proof -
  have okt: "phys_ok t" using frame_alloc_contract [OF assms(1,2,4)] by simp
  note D = frames_okD [OF okt]
  let ?c = "fr_cache t cid"
  have ne: "?c \<noteq> []" using assms(6) by auto
  define q where "q = last ?c"
  have qc: "q \<in> set ?c" using ne by (simp add: q_def)
  have par: "q \<in># parked t" using parked_ge [OF assms(2), of t] qc by (meson mset_subset_eqD set_mset_mset[THEN equalityD2, THEN subsetD])
  then obtain f where f: "q = f * 4096" "fr_reserved t \<le> f" "f < fr_total t" "fr_bitmap t f" "fr_refs t f = 1"
    using D(4) [of q] by auto
  have o: "fr_order t f = BUDDY_ALLOCATED"
    using alloc_on_empty_cache(1) [OF assms(1-5)] qc f(1) by auto
  have nz: "q \<noteq> 0" using f D(2) by simp
  have z: "q \<noteq> fr_zero t"
  proof
    assume eq: "q = fr_zero t"
    then have zf: "fr_zero t = f * 4096" using f(1) by simp
    then have "FRAME_PINNED \<le> fr_refs t f" using D(8) eq nz by simp
    then show False using f(5) by (simp add: FRAME_PINNED_def)
  qed
  have fr: "owned t f = None" using par f(1) by (simp add: held_def live_def)
  have short: "length ?c < PERCPU_CACHE_SIZE" by (rule alloc_on_empty_cache(2) [OF assms(1-5)])
  let ?m = "t\<lparr>fr_order := (fr_order t)(f := BUDDY_CACHED)\<rparr>"
  let ?u = "percpu_cache_free cid q ?m"
  have u: "frame_free cid q t = ?u"
    using f z nz o by (simp add: frame_free_def Let_def FRAME_PINNED_def BUDDY_ALLOCATED_def BUDDY_CACHED_def)
  have uc: "fr_cache ?u cid = ?c @ [q]" "fr_overfree ?u = fr_overfree t"
    using short by (simp_all add: percpu_cache_free_def Let_def)
  have pop: "\<exists>v. frame_alloc cid w = (last (fr_cache w cid), v) \<and> fr_cache v cid = butlast (fr_cache w cid)"
    if "8 \<le> length (fr_cache w cid)" "last (fr_cache w cid) \<noteq> 0" for w
    using that by (auto simp: frame_alloc_def percpu_cache_alloc_def PERCPU_REFILL_THRESHOLD_def Let_def)
  obtain v where v: "frame_alloc cid ?u = (q, v)" "fr_cache v cid = ?c"
    using pop [of ?u] uc nz assms(6) by auto
  obtain w where "frame_alloc cid v = (q, w)"
    using pop [of v] v(2) nz assms(6) q_def by auto
  then show ?thesis using fr f(1) qc u uc(2) v(1) by (intro exI [of _ q] exI [of _ v] exI [of _ w]) simp
qed


section \<open>Reserved frames with a stale order\<close>

lemma rebuild_keeps_used:
  assumes "fr_bitmap s g"
  shows "fr_order (buddy_rebuild_lists s) g = fr_order s g"
    and "fr_bitmap (buddy_rebuild_lists s) = fr_bitmap s" "fr_refs (buddy_rebuild_lists s) = fr_refs s"
    "fr_total (buddy_rebuild_lists s) = fr_total s" "fr_reserved (buddy_rebuild_lists s) = fr_reserved s"
proof -
  let ?f = "\<lambda>i s. if \<not> fr_bitmap s i then buddy_list_add i 0 s else s"
  have "fr_order (fold ?f is u) g = fr_order u g \<and> fr_bitmap (fold ?f is u) = fr_bitmap u \<and> fr_refs (fold ?f is u) = fr_refs u
     \<and> fr_total (fold ?f is u) = fr_total u \<and> fr_reserved (fold ?f is u) = fr_reserved u"
    if "fr_bitmap u g" for "is" u
    using that by (induction "is" arbitrary: u) (auto simp: buddy_list_add_def)
  from this [of "s\<lparr>fr_heads := (\<lambda>o'. if o' \<le> BUDDY_MAX_ORDER then None else fr_heads s o')\<rparr>" "[fr_reserved s..<fr_total s]"] assms
  show "fr_order (buddy_rebuild_lists s) g = fr_order s g"
    and "fr_bitmap (buddy_rebuild_lists s) = fr_bitmap s" "fr_refs (buddy_rebuild_lists s) = fr_refs s"
    "fr_total (buddy_rebuild_lists s) = fr_total s" "fr_reserved (buddy_rebuild_lists s) = fr_reserved s"
    by (auto simp: buddy_rebuild_lists_def)
qed

lemma coalesce_covers:
  "buddy_coalesce cur k s = (c, k2, t) \<Longrightarrow> 2 ^ k dvd cur \<Longrightarrow>
     blk cur k \<subseteq> blk c k2 \<and> fr_bitmap t = fr_bitmap s \<and> fr_refs t = fr_refs s \<and> (k \<le> BUDDY_MAX_ORDER \<longrightarrow> k2 \<le> BUDDY_MAX_ORDER)"
proof (induction cur k s rule: buddy_coalesce.induct)
  case (1 cur k s)
  let ?b = "buddy_address cur k"
  let ?m = "if ?b < cur then ?b else cur"
  let ?stop = "?b < fr_reserved s \<or> ?b \<ge> fr_total s \<or> fr_order s ?b \<noteq> k \<or> \<not> is_aligned_to_order (if cur < ?b then cur else ?b) (k + 1)"
  show ?case
  proof (cases "k < BUDDY_MAX_ORDER \<and> \<not> ?stop")
    case False
    then have "buddy_coalesce cur k s = (cur, k, s)" by (subst buddy_coalesce.simps) (auto simp: Let_def)
    then show ?thesis using "1.prems" by auto
  next
    case True
    then have kM: "k < BUDDY_MAX_ORDER" and ns: "\<not> ?stop" by blast+
    have "buddy_coalesce cur k s = buddy_coalesce ?m (k + 1) (buddy_list_remove ?b k s)"
      using kM ns by (subst buddy_coalesce.simps) (simp add: Let_def)
    with "1.prems" have step: "buddy_coalesce ?m (k + 1) (buddy_list_remove ?b k s) = (c, k2, t)" by simp
    have c: "2 ^ Suc k dvd ?m \<and> (?b = ?m \<and> cur = ?m + 2 ^ k \<or> cur = ?m \<and> ?b = ?m + 2 ^ k)"
    proof -
      have "cur - 2 ^ k < cur" if "2 ^ k \<le> cur"
        using that by (metis diff_less less_le_trans zero_less_numeral zero_less_power)
      then show ?thesis using buddy_cases [OF "1.prems"(2)] by auto
    qed
    then have "blk cur k \<subseteq> blk ?m (k + 1)" by (auto simp: blk_def)
    moreover have "fr_bitmap (buddy_list_remove ?b k s) = fr_bitmap s" "fr_refs (buddy_list_remove ?b k s) = fr_refs s"
      by (simp_all add: buddy_list_remove_def Let_def split: option.splits)
    moreover have "2 ^ (k + 1) dvd ?m" using c by simp
    ultimately show ?thesis using "1.IH" [OF kM refl ns step] kM by auto
  qed
qed

text \<open>Reserving a region that covers a free single frame leaves the frame's order byte, so when
  the frame's buddy is released the reserved (pinned) frame is merged into a free block: the
  free lists then contain a frame that must never be handed out, and the kernel's own
  partition scan fails.\<close>

theorem reserve_region_corrupts:
  assumes "phys_ok s" and "fr_built s" and "owned s g = Some 1" and "f = buddy_address g 0"
    and "fr_reserved s \<le> f" and "f < fr_total s" and "\<not> fr_bitmap s f" and "fr_order s f = 0"
    and "fr_total s \<le> PHYS_MAX_PAGES"
  defines "u \<equiv> buddy_free_locked (g * 4096) (phys_reserve_region (of_nat (f * 4096)) 4096 s)"
  shows "fr_refs u f = FRAME_PINNED \<and> fr_bitmap u f
     \<and> (\<exists>k c. k \<le> BUDDY_MAX_ORDER \<and> fr_heads u k = Some c \<and> f \<in> blk c k)
     \<and> selftest_check_partition u \<noteq> None"
proof -
  note D = frames_okD [OF assms(1)]
  have g: "fr_reserved s \<le> g" "g < fr_total s" "fr_refs s g = 1" "fr_bitmap s g"
    using assms(3) by (auto simp: held_def live_def split: if_splits)
  have gf: "g \<noteq> f" using g(4) assms(7) by auto
  have fb: "f < 131072" using assms(6,9) by (simp add: PHYS_MAX_PAGES_def)
  define t where "t = phys_reserve_region (of_nat (f * 4096)) 4096 s"
  let ?s1 = "s\<lparr>fr_used := fr_used s + 1, fr_bitmap := (fr_bitmap s)(f := True), fr_refs := (fr_refs s)(f := FRAME_PINNED)\<rparr>"
  have fpos: "0 < f" using assms(5) D(2) by simp
  define n where "n = f * 4096"
  have n: "n < 2 ^ 30" "0 < n" using fb fpos by (simp_all add: n_def)
  have un: "unat (of_nat n :: u32) = n" using n by (simp add: unsigned_of_nat take_bit_nat_eq_self)
  have un2: "unat (of_nat n + 4096 + 4095 :: u32) = n + 8191"
  proof -
    have "of_nat n + 4096 + 4095 = (of_nat (n + 8191) :: u32)" by simp
    then show ?thesis using n by (simp only: unsigned_of_nat) (simp add: take_bit_nat_eq_self)
  qed
  have w1: "of_nat n \<noteq> (0::u32)" using un n by auto
  have w2: "unat (of_nat n div 4096 :: u32) = f" using un by (simp add: unat_div) (simp add: n_def)
  have w3: "unat ((of_nat n + 4096 + 4095) div 4096 :: u32) = f + 1"
  proof -
    have "unat ((of_nat n + 4096 + 4095) div 4096 :: u32) = (n + 8191) div 4096"
      unfolding unat_div un2 by simp
    then show ?thesis by (simp add: n_def)
  qed
  have "t = phys_reserve_region (of_nat n) 4096 s" by (simp add: t_def n_def)
  then have t: "t = buddy_rebuild_lists ?s1"
    unfolding phys_reserve_region_def Let_def w2 w3 using w1 assms(2,6,7) by (simp add: upt_rec)
  note K = rebuild_keeps_used [of ?s1 f, folded t] rebuild_keeps_used [of ?s1 g, folded t]
  have tf: "fr_order t f = 0" "fr_bitmap t f" "fr_refs t f = FRAME_PINNED" "fr_total t = fr_total s" "fr_reserved t = fr_reserved s"
    "fr_refs t g = 1"
    using K assms(8) g gf by auto
  let ?r = "t\<lparr>fr_refs := (fr_refs t)(g := 0), fr_used := (if fr_used t > 0 then fr_used t - 1 else fr_used t), fr_bitmap := (fr_bitmap t)(g := False)\<rparr>"
  obtain c k v where co: "buddy_coalesce g 0 ?r = (c, k, v)" by (metis prod_cases3)
  have u: "u = (buddy_list_add c k v)\<lparr>fr_coalesces := fr_coalesces (buddy_list_add c k v) + of_nat k\<rparr>"
  proof -
    have "u = buddy_free_locked (g * 4096) t" by (simp only: u_def t_def)
    moreover have "g * 4096 div 4096 = g" by simp
    ultimately show ?thesis using co g tf unfolding buddy_free_locked_def Let_def FRAME_PINNED_def by simp
  qed
  let ?m = "if f < g then f else g"
  have gb: "buddy_address g 0 = f" using assms(4) by simp
  have c0: "2 ^ 1 dvd ?m \<and> (f = ?m \<and> g = ?m + 1 \<or> g = ?m \<and> f = ?m + 1)"
    using buddy_cases [of 0 g] gb gf by auto
  then have al: "is_aligned_to_order (if g < f then g else f) (0 + 1)"
  proof -
    have "(if g < f then g else f) = ?m" using gf by auto
    then show ?thesis using c0 by (simp only: is_aligned_iff) simp
  qed
  have step: "buddy_coalesce g 0 ?r = buddy_coalesce ?m 1 (buddy_list_remove f 0 ?r)"
    using tf al assms(5,6) g by (subst buddy_coalesce.simps) (simp add: gb Let_def BUDDY_MAX_ORDER_def)
  have "buddy_coalesce ?m 1 (buddy_list_remove f 0 ?r) = (c, k, v)" using step co by simp
  note C = coalesce_covers [OF this]
  have rm: "fr_bitmap (buddy_list_remove f 0 ?r) = fr_bitmap ?r" "fr_refs (buddy_list_remove f 0 ?r) = fr_refs ?r"
    by (simp_all add: buddy_list_remove_def Let_def split: option.splits)
  note C = C [OF conjunct1 [OF c0]]
  have fm: "f \<in> blk ?m 1" using c0 by auto
  then have fc: "f \<in> blk c k" using C by blast
  have kM: "k \<le> BUDDY_MAX_ORDER" using C by (simp add: BUDDY_MAX_ORDER_def)
  have v: "fr_bitmap v f" "fr_refs v f = FRAME_PINNED" using C rm tf gf by simp_all
  then have uf: "fr_bitmap u f" "fr_refs u f = FRAME_PINNED" "fr_heads u k = Some c"
    by (simp_all add: u buddy_list_add_def)
  have "selftest_check_partition u \<noteq> None"
  proof
    assume "selftest_check_partition u = None"
    then obtain L where "partition_by u L" using check_partition by (auto simp: free_lists_partition_def)
    from partition_byD(1) [OF this kM] uf(3) have "good_block u k c" by (cases "L k") auto
    then show False using fc uf(1) unfolding good_block_def by blast
  qed
  then show ?thesis using uf fc kM by blast
qed


section \<open>Witnesses\<close>

lemma medium_reserve: "phys_reserve_pages 7300 = 7168"
  by (simp add: phys_reserve_pages_def Let_def KERNEL_RESERVED_PAGES_def KERNEL_RESERVED_PAGES_BIG_MIN_def
      KERNEL_HEAP_BASE_BYTES_def KERNEL_HEAP_MIN_BYTES_def)

theorem refill_parks_unmarked_witness:
  "\<exists>p t q u v. frame_alloc 0 (phys_setup 7300 boot0) = (p, t) \<and> owned t (q div 4096) = None
     \<and> frame_alloc 0 (frame_free 0 q t) = (q, u) \<and> frame_alloc 0 u = (q, v)"
proof -
  let ?s = "phys_setup 7300 boot0"
  have F: "fr_total ?s = 7300" "fr_used ?s = 7169" "fr_cache ?s 0 = []" "fr_bitmap ?s = (\<lambda>i. i < 7168 \<or> i = 7168)" "fr_reserved ?s = 7168"
    using phys_setup_fields [of boot0 7300]
    by (simp_all add: boot0_def PHYS_MAX_PAGES_def medium_reserve MAX_CORES_def fun_eq_iff)
  have ok: "phys_ok ?s" by (rule boot0_ok) simp
  have cid: "0 < MAX_CORES" by (simp add: MAX_CORES_def)
  obtain p t where a: "frame_alloc 0 ?s = (p, t)" by fastforce
  have "\<not> exhausted ?s" by (auto simp: exhausted_def F intro!: exI [of _ 7169])
  then have p: "p \<noteq> 0" using frame_alloc_contract [OF ok cid a] by (auto split: if_splits)
  have "8 \<le> length (fr_cache t 0)"
    using alloc_on_empty_cache(3) [OF ok cid F(3) a p] F by (simp add: PERCPU_REFILL_BATCH_def)
  from refill_parks_unmarked [OF ok cid F(3) a p this] a show ?thesis by blast
qed

definition small2 :: frames where
  "small2 = snd (buddy_alloc_locked small)"

lemma small2_alloc: "buddy_alloc_locked small = (7171 * 4096, small2)"
  and small2_fields: "fr_built small2" "\<not> fr_bitmap small2 7170" "fr_order small2 7170 = 0" "fr_order small2 7171 = BUDDY_ALLOCATED"
    "fr_total small2 = 7172" "fr_reserved small2 = 7168"
proof -
  let ?r = "buddy_rebuild_lists small"
  have r: "fr_heads ?r 0 = Some 7171" "fr_order ?r 7170 = 0" "fr_bitmap ?r = fr_bitmap small" "fr_total ?r = 7172"
    "fr_reserved ?r = 7168" "fr_built ?r"
    by (simp_all add: buddy_rebuild_lists_def buddy_list_add_def small_fields)
  have rm: "fr_order (buddy_list_remove f k s) = (fr_order s)(f := BUDDY_ALLOCATED)" "fr_bitmap (buddy_list_remove f k s) = fr_bitmap s"
    "fr_total (buddy_list_remove f k s) = fr_total s" "fr_reserved (buddy_list_remove f k s) = fr_reserved s" "fr_built (buddy_list_remove f k s) = fr_built s" for f k s
    by (simp_all add: buddy_list_remove_def Let_def split: option.splits)
  have find: "first_idx (\<lambda>o'. fr_heads ?r o' \<noteq> None) 0 (Suc BUDDY_MAX_ORDER) = Some 0"
    using r by (simp add: first_idx.simps [of _ 0])
  have a: "buddy_alloc_locked small = (7171 * 4096, (buddy_list_remove 7171 0 ?r)\<lparr>
      fr_bitmap := (fr_bitmap (buddy_list_remove 7171 0 ?r))(7171 := True),
      fr_refs := (fr_refs (buddy_list_remove 7171 0 ?r))(7171 := 1),
      fr_used := fr_used (buddy_list_remove 7171 0 ?r) + 1\<rparr>)"
    using find r(1) small_fields(3) by (simp add: buddy_alloc_locked_def Let_def)
  then show "buddy_alloc_locked small = (7171 * 4096, small2)" by (simp add: small2_def)
  show "fr_built small2" "\<not> fr_bitmap small2 7170" "fr_order small2 7170 = 0" "fr_order small2 7171 = BUDDY_ALLOCATED"
    "fr_total small2 = 7172" "fr_reserved small2 = 7168"
    using a r rm small_fields by (simp_all add: small2_def)
qed

theorem reserve_region_corrupts_witness:
  "owned small2 7171 = Some 1
     \<and> selftest_check_partition (buddy_free_locked (7171 * 4096) (phys_reserve_region (of_nat (7170 * 4096)) 4096 small2)) \<noteq> None"
proof -
  have p: "(7171 * 4096 :: nat) \<noteq> 0" by simp
  from alloc_locked_ok(2) [OF small_ok(1) small2_alloc p]
  have A: "frames_ok small2 (add_mset (7171 * 4096) {#})" "owned small2 = (owned small)(7171 \<mapsto> 1)" by auto
  have ok: "phys_ok small2" using frames_ok_drop [OF A(1)] small2_fields(4) by (simp add: BUDDY_ALLOCATED_def BUDDY_CACHED_def)
  have o: "owned small2 7171 = Some 1" using A(2) by simp
  have b: "7170 = buddy_address 7171 0" by (simp add: buddy_address_def)
  have bounds: "fr_reserved small2 \<le> 7170" "7170 < fr_total small2" "fr_total small2 \<le> PHYS_MAX_PAGES"
    by (simp_all add: small2_fields PHYS_MAX_PAGES_def)
  from reserve_region_corrupts [OF ok small2_fields(1) o b bounds(1,2) small2_fields(2,3) bounds(3)] o
  show ?thesis by simp
qed

end
