(* ===== verification/Heap.thy ===== *)
theory Heap
  imports Mectov_Prelude
begin

text \<open>
  The kernel heap of \<open>src/sys/mem.c\<close>: first-fit over a singly-linked list of blocks laid
  out back to back from 24 MB up, each with a header, a payload and a trailing canary.
  The memory is a typed store: headers by address, canary words by address, payload bytes
  by address. Sizes are naturals with the 32-bit wrap-around written out (\<open>w32\<close>). A walk
  of the list that does not end is the result \<open>None\<close>; the code's \<open>heap_panic\<close>, which
  does not return, is the outcome \<open>Halt\<close>. Each call is one step under \<open>heap_lock\<close>.
\<close>

definition HEAP_MAGIC_ALLOC :: u32 where
  "HEAP_MAGIC_ALLOC = 0xA110CA8E"

definition HEAP_MAGIC_FREE :: u32 where
  "HEAP_MAGIC_FREE = 0xF2EEF2EE"

definition HEAP_CANARY :: u32 where
  "HEAP_CANARY = 0xCA5CA5E5"

text \<open>\<open>sizeof(block_meta)\<close> and \<open>META_SIZE\<close> on the 32-bit target.\<close>

definition HDR :: nat where
  "HDR = 16"

definition META_SIZE :: nat where
  "META_SIZE = HDR + 4"

definition HEAP_BASE :: nat where
  "HEAP_BASE = 24 * 1024 * 1024"

definition w32 :: "nat \<Rightarrow> nat" where
  "w32 x = x mod 4294967296"

record block_meta =
  bm_magic :: u32
  bm_size :: nat
  bm_free :: bool
  bm_next :: "nat option"

record heap =
  hp_base :: "nat option"
  hp_hdr :: "nat \<Rightarrow> block_meta"
  hp_canary :: "nat \<Rightarrow> u32"
  hp_byte :: "nat \<Rightarrow> u8"
  hp_used :: nat
  hp_max :: nat
  hp_allocs :: u32
  hp_frees :: u32
  hp_oom :: u32
  hp_canary_failures :: u32
  hp_magic_failures :: u32

datatype 'a outcome = Ret 'a heap | Halt string heap

definition stamp_canary :: "nat \<Rightarrow> heap \<Rightarrow> heap" where
  "stamp_canary b h = h\<lparr>hp_canary := (hp_canary h)(b + HDR + bm_size (hp_hdr h b) := HEAP_CANARY)\<rparr>"

definition upd_hdr :: "nat \<Rightarrow> (block_meta \<Rightarrow> block_meta) \<Rightarrow> heap \<Rightarrow> heap" where
  "upd_hdr b f h = h\<lparr>hp_hdr := (hp_hdr h)(b := f (hp_hdr h b))\<rparr>"

text \<open>\<open>find_free_block(&last, size)\<close>: the last block passed, and the first free block that is
  big enough.\<close>

partial_function (option) find_free_block :: "heap \<Rightarrow> nat option \<Rightarrow> nat \<Rightarrow> nat \<Rightarrow> (nat \<times> nat option) option" where
  "find_free_block h cur lst sz =
     (case cur of
        None \<Rightarrow> Some (lst, None)
      | Some c \<Rightarrow>
          if bm_free (hp_hdr h c) \<and> bm_size (hp_hdr h c) \<ge> sz then Some (lst, Some c)
          else find_free_block h (bm_next (hp_hdr h c)) c sz)"

definition request_space :: "nat option \<Rightarrow> nat \<Rightarrow> heap \<Rightarrow> (nat \<times> heap) option" where
  "request_space lst sz h =
     (if sz > hp_max h \<or> w32 (sz + META_SIZE) < sz \<or> w32 (hp_used h + sz + META_SIZE) > hp_max h then None
      else
        (let block = HEAP_BASE + hp_used h;
             h1 = h\<lparr>hp_used := w32 (hp_used h + sz + META_SIZE)\<rparr>;
             h2 = (case lst of None \<Rightarrow> h1 | Some l \<Rightarrow> upd_hdr l (\<lambda>m. m\<lparr>bm_next := Some block\<rparr>) h1)
         in Some (block, upd_hdr block (\<lambda>m. \<lparr>bm_magic = HEAP_MAGIC_ALLOC, bm_size = sz, bm_free = False, bm_next = None\<rparr>) h2)))"

definition align4 :: "nat \<Rightarrow> nat" where
  "align4 sz = (if sz mod 4 \<noteq> 0 then w32 (sz + (4 - sz mod 4)) else sz)"

text \<open>Taking a free block: split when the rest can hold a header, four bytes and a canary.\<close>

definition take_block :: "nat \<Rightarrow> nat \<Rightarrow> heap \<Rightarrow> heap" where
  "take_block b sz h =
     (let h1 =
        (if bm_size (hp_hdr h b) \<ge> w32 (sz + META_SIZE + 4) then
           (let nb = b + META_SIZE + sz;
                hn = upd_hdr nb (\<lambda>m. \<lparr>bm_magic = HEAP_MAGIC_FREE, bm_size = bm_size (hp_hdr h b) - sz - META_SIZE,
                                     bm_free = True, bm_next = bm_next (hp_hdr h b)\<rparr>) h;
                hc = stamp_canary nb hn
            in upd_hdr b (\<lambda>m. m\<lparr>bm_size := sz, bm_next := Some nb\<rparr>) hc)
         else h)
      in upd_hdr b (\<lambda>m. m\<lparr>bm_magic := HEAP_MAGIC_ALLOC, bm_free := False\<rparr>) h1)"

text \<open>The common tail: stamp the canary and count, or count the failure.\<close>

definition kmalloc_done :: "nat option \<Rightarrow> heap \<Rightarrow> nat option outcome option" where
  "kmalloc_done result h =
     (case result of
        None \<Rightarrow> Some (Ret None h)
      | Some b \<Rightarrow> Some (Ret (Some (b + HDR))
                    ((stamp_canary b h)\<lparr>hp_allocs := hp_allocs h + 1\<rparr>)))"

definition kmalloc :: "nat \<Rightarrow> heap \<Rightarrow> nat option outcome option" where
  "kmalloc size0 h =
     (if size0 = 0 then Some (Ret None h)
      else
        (let sz = align4 size0
         in case hp_base h of
              None \<Rightarrow>
                (case request_space None sz h of
                   Some (b, h1) \<Rightarrow> kmalloc_done (Some b) (h1\<lparr>hp_base := Some b\<rparr>)
                 | None \<Rightarrow> kmalloc_done None (h\<lparr>hp_oom := hp_oom h + 1\<rparr>))
            | Some base \<Rightarrow>
                (case find_free_block h (Some base) base sz of
                   None \<Rightarrow> None
                 | Some (lst, None) \<Rightarrow>
                     (case request_space (Some lst) sz h of
                        Some (b, h1) \<Rightarrow> kmalloc_done (Some b) h1
                      | None \<Rightarrow> kmalloc_done None (h\<lparr>hp_oom := hp_oom h + 1\<rparr>))
                 | Some (lst, Some b) \<Rightarrow>
                     (if bm_magic (hp_hdr h b) \<noteq> HEAP_MAGIC_FREE
                      then Some (Halt ''free-list header corrupted'' (h\<lparr>hp_magic_failures := hp_magic_failures h + 1\<rparr>))
                      else kmalloc_done (Some b) (take_block b sz h)))))"

text \<open>The loops of \<open>kfree\<close>: merging the free blocks that follow, and finding the block
  before.\<close>

definition merge_next :: "nat \<Rightarrow> nat \<Rightarrow> heap \<Rightarrow> heap" where
  "merge_next b nb h =
     upd_hdr b (\<lambda>m. m\<lparr>bm_size := w32 (bm_size m + META_SIZE + bm_size (hp_hdr h nb)), bm_next := bm_next (hp_hdr h nb)\<rparr>) h"

partial_function (option) merge_forward :: "nat \<Rightarrow> heap \<Rightarrow> heap option" where
  "merge_forward b h =
     (case bm_next (hp_hdr h b) of
        None \<Rightarrow> Some h
      | Some n \<Rightarrow> if bm_free (hp_hdr h n) then merge_forward b (merge_next b n h) else Some h)"

partial_function (option) find_prev :: "heap \<Rightarrow> nat option \<Rightarrow> nat \<Rightarrow> nat option option" where
  "find_prev h cur b =
     (case cur of
        None \<Rightarrow> Some None
      | Some c \<Rightarrow> if bm_next (hp_hdr h c) \<noteq> Some b then find_prev h (bm_next (hp_hdr h c)) b else Some (Some c))"

definition merge_backward :: "nat \<Rightarrow> heap \<Rightarrow> heap option" where
  "merge_backward b h =
     (if hp_base h \<noteq> Some b then
        (case find_prev h (hp_base h) b of
           None \<Rightarrow> None
         | Some None \<Rightarrow> Some h
         | Some (Some pv) \<Rightarrow>
             (if bm_free (hp_hdr h pv) then Some (stamp_canary pv (merge_next pv b h)) else Some h))
      else Some h)"

definition kfree :: "nat option \<Rightarrow> heap \<Rightarrow> unit outcome option" where
  "kfree ptr h =
     (case ptr of
        None \<Rightarrow> Some (Ret () h)
      | Some p \<Rightarrow>
          (let b = p - HDR
           in if bm_magic (hp_hdr h b) \<noteq> HEAP_MAGIC_ALLOC
              then Some (Halt ''kfree of non-allocated pointer'' (h\<lparr>hp_magic_failures := hp_magic_failures h + 1\<rparr>))
              else if hp_canary h (p + bm_size (hp_hdr h b)) \<noteq> HEAP_CANARY
              then Some (Halt ''heap overflow detected'' (h\<lparr>hp_canary_failures := hp_canary_failures h + 1\<rparr>))
              else
                (let h1 = (upd_hdr b (\<lambda>m. m\<lparr>bm_magic := HEAP_MAGIC_FREE, bm_free := True\<rparr>) h)\<lparr>hp_frees := hp_frees h + 1\<rparr>
                 in case merge_forward b h1 of
                      None \<Rightarrow> None
                    | Some h2 \<Rightarrow>
                        (case merge_backward b (stamp_canary b h2) of None \<Rightarrow> None | Some h3 \<Rightarrow> Some (Ret () h3)))))"

definition copy_bytes :: "nat \<Rightarrow> nat \<Rightarrow> nat \<Rightarrow> heap \<Rightarrow> heap" where
  "copy_bytes dst src n h =
     h\<lparr>hp_byte := (\<lambda>a. if dst \<le> a \<and> a < dst + n then hp_byte h (src + (a - dst)) else hp_byte h a)\<rparr>"

definition zero_bytes :: "nat \<Rightarrow> nat \<Rightarrow> heap \<Rightarrow> heap" where
  "zero_bytes dst n h = h\<lparr>hp_byte := (\<lambda>a. if dst \<le> a \<and> a < dst + n then 0 else hp_byte h a)\<rparr>"

definition krealloc :: "nat option \<Rightarrow> nat \<Rightarrow> heap \<Rightarrow> nat option outcome option" where
  "krealloc ptr new_size0 h =
     (case ptr of
        None \<Rightarrow> kmalloc new_size0 h
      | Some p \<Rightarrow>
          (if new_size0 = 0 then
             (case kfree (Some p) h of
                None \<Rightarrow> None
              | Some (Halt e h1) \<Rightarrow> Some (Halt e h1)
              | Some (Ret _ h1) \<Rightarrow> Some (Ret None h1))
           else
             (let new_size = align4 new_size0
              in if bm_size (hp_hdr h (p - HDR)) \<ge> new_size then Some (Ret (Some p) h)
                 else
                   (case kmalloc new_size h of
                      None \<Rightarrow> None
                    | Some (Halt e h1) \<Rightarrow> Some (Halt e h1)
                    | Some (Ret None h1) \<Rightarrow> Some (Ret None h1)
                    | Some (Ret (Some np) h1) \<Rightarrow>
                        (let n = (if bm_size (hp_hdr h1 (p - HDR)) < new_size then bm_size (hp_hdr h1 (p - HDR)) else new_size)
                         in case kfree (Some p) (copy_bytes np p n h1) of
                              None \<Rightarrow> None
                            | Some (Halt e h2) \<Rightarrow> Some (Halt e h2)
                            | Some (Ret _ h2) \<Rightarrow> Some (Ret (Some np) h2))))))"

definition kcalloc :: "nat \<Rightarrow> nat \<Rightarrow> heap \<Rightarrow> nat option outcome option" where
  "kcalloc num sz h =
     (if num \<noteq> 0 \<and> sz > 4294967295 div num then Some (Ret None h)
      else
        (let n = w32 (num * sz)
         in case kmalloc n h of
              Some (Ret (Some p) h1) \<Rightarrow> Some (Ret (Some p) (zero_bytes p n h1))
            | r \<Rightarrow> r))"

record kmalloc_stats =
  ks_base :: nat
  ks_used :: nat
  ks_allocated :: nat
  ks_free_bytes :: nat
  ks_blocks :: nat
  ks_free_blocks :: nat
  ks_largest_free :: nat
  ks_allocs :: u32
  ks_frees :: u32
  ks_oom :: u32
  ks_canary_failures :: u32
  ks_magic_failures :: u32

partial_function (option) stats_walk :: "heap \<Rightarrow> nat option \<Rightarrow> kmalloc_stats \<Rightarrow> kmalloc_stats option" where
  "stats_walk h cur s =
     (case cur of
        None \<Rightarrow> Some s
      | Some c \<Rightarrow>
          stats_walk h (bm_next (hp_hdr h c))
            (if bm_free (hp_hdr h c)
             then s\<lparr>ks_free_bytes := ks_free_bytes s + bm_size (hp_hdr h c), ks_free_blocks := ks_free_blocks s + 1,
                    ks_largest_free := (if bm_size (hp_hdr h c) > ks_largest_free s then bm_size (hp_hdr h c) else ks_largest_free s)\<rparr>
             else s\<lparr>ks_allocated := ks_allocated s + bm_size (hp_hdr h c), ks_blocks := ks_blocks s + 1\<rparr>))"

definition kmalloc_get_stats :: "heap \<Rightarrow> kmalloc_stats option" where
  "kmalloc_get_stats h =
     stats_walk h (hp_base h) \<lparr>ks_base = HEAP_BASE, ks_used = hp_used h, ks_allocated = 0, ks_free_bytes = 0,
       ks_blocks = 0, ks_free_blocks = 0, ks_largest_free = 0, ks_allocs = hp_allocs h, ks_frees = hp_frees h,
       ks_oom = hp_oom h, ks_canary_failures = hp_canary_failures h, ks_magic_failures = hp_magic_failures h\<rparr>"

text \<open>\<open>init_mem\<close>: the heap ceiling follows the frame reservation.\<close>

definition heap_init :: "nat \<Rightarrow> heap \<Rightarrow> heap" where
  "heap_init reserved_bytes h =
     h\<lparr>hp_max := (if reserved_bytes > HEAP_BASE then reserved_bytes - HEAP_BASE else 0)\<rparr>"

end
