(* ===== verification/Heap_Props.thy ===== *)
theory Heap_Props
  imports Heap
begin

text \<open>
  The heap as a list of blocks. \<open>hseg\<close> says that memory from an address on holds exactly
  the given list of (size, free) blocks, each with its header, its magic and its canary;
  \<open>heap_ok\<close> is the invariant every operation keeps: the whole heap is such a list starting
  at \<open>HEAP_BASE\<close>, it ends at the high-water mark, and no two adjacent blocks are free.
  \<open>live\<close> is the set of allocations a caller may use.
\<close>

type_synonym blocks = "(nat \<times> bool) list"

lemmas heap_consts = HDR_def META_SIZE_def

fun span :: "blocks \<Rightarrow> nat" where
  "span [] = 0"
| "span ((s, f) # bs) = META_SIZE + s + span bs"

fun hseg :: "heap \<Rightarrow> nat \<Rightarrow> blocks \<Rightarrow> nat option \<Rightarrow> bool" where
  "hseg h a [] e \<longleftrightarrow> True"
| "hseg h a ((s, f) # bs) e \<longleftrightarrow>
     hp_hdr h a = \<lparr>bm_magic = (if f then HEAP_MAGIC_FREE else HEAP_MAGIC_ALLOC), bm_size = s, bm_free = f,
                   bm_next = (if bs = [] then e else Some (a + META_SIZE + s))\<rparr> \<and>
     hp_canary h (a + HDR + s) = HEAP_CANARY \<and>
     hseg h (a + META_SIZE + s) bs e"

fun live :: "nat \<Rightarrow> blocks \<Rightarrow> (nat \<times> nat) set" where
  "live a [] = {}"
| "live a ((s, f) # bs) = (if f then {} else {(a + HDR, s)}) \<union> live (a + META_SIZE + s) bs"

fun coalesced :: "blocks \<Rightarrow> bool" where
  "coalesced ((s, f) # (t, g) # bs) = (\<not> (f \<and> g) \<and> coalesced ((t, g) # bs))"
| "coalesced bs = True"

definition heap_ok :: "blocks \<Rightarrow> heap \<Rightarrow> bool" where
  "heap_ok bs h \<longleftrightarrow>
     hp_base h = (if bs = [] then None else Some HEAP_BASE) \<and>
     hseg h HEAP_BASE bs None \<and> hp_used h = span bs \<and>
     span bs \<le> hp_max h \<and> hp_max h \<le> 1073741824 \<and>
     (\<forall>b \<in> set bs. fst b mod 4 = 0) \<and> coalesced bs"

text \<open>What first fit finds: the blocks passed over and the one taken.\<close>

fun no_fit :: "nat \<Rightarrow> blocks \<Rightarrow> bool" where
  "no_fit n [] = True"
| "no_fit n ((s, f) # bs) = (\<not> (f \<and> n \<le> s) \<and> no_fit n bs)"

subsection \<open>Segments\<close>

lemma span_append [simp]: "span (xs @ ys) = span xs + span ys"
  by (induction xs rule: span.induct) auto

lemma hseg_append:
  "hseg h a (xs @ ys) e \<longleftrightarrow>
     hseg h a xs (if ys = [] then e else Some (a + span xs)) \<and> hseg h (a + span xs) ys e"
proof (induction xs arbitrary: a)
  case (Cons x xs)
  obtain s f where "x = (s, f)"
    by (cases x)
  then show ?case
    using Cons.IH [of "a + META_SIZE + s"] by (auto simp: add.assoc)
qed simp

lemma live_append: "live a (xs @ ys) = live a xs \<union> live (a + span xs) ys"
proof (induction xs arbitrary: a)
  case (Cons x xs)
  then show ?case
    by (cases x) (auto simp: add.assoc)
qed simp

lemma no_fit_append: "no_fit n (xs @ ys) \<longleftrightarrow> no_fit n xs \<and> no_fit n ys"
  by (induction n xs rule: no_fit.induct) auto

lemma coalesced_Cons:
  "coalesced (x # xs) \<longleftrightarrow> coalesced xs \<and> \<not> (xs \<noteq> [] \<and> snd x \<and> snd (hd xs))"
  by (cases x; cases xs; auto)

lemma coalesced_append:
  "coalesced (xs @ ys) \<longleftrightarrow>
     coalesced xs \<and> coalesced ys \<and> \<not> (xs \<noteq> [] \<and> ys \<noteq> [] \<and> snd (last xs) \<and> snd (hd ys))"
  by (induction xs) (auto simp: coalesced_Cons hd_append)

lemma hseg_cong:
  assumes "\<And>x. a \<le> x \<Longrightarrow> x < a + span bs \<Longrightarrow> hp_hdr h' x = hp_hdr h x"
    and "\<And>x. a \<le> x \<Longrightarrow> x < a + span bs \<Longrightarrow> hp_canary h' x = hp_canary h x"
  shows "hseg h' a bs e = hseg h a bs e"
  using assms
proof (induction bs arbitrary: a)
  case (Cons b bs)
  obtain s f where b: "b = (s, f)"
    by (cases b)
  have "hseg h' (a + META_SIZE + s) bs e = hseg h (a + META_SIZE + s) bs e"
    by (rule Cons.IH) (auto intro!: Cons.prems simp: b)
  then show ?case
    using Cons.prems(1) [of a] Cons.prems(2) [of "a + HDR + s"] by (auto simp: b heap_consts)
qed simp

lemma live_bounds:
  "(p, s) \<in> live a bs \<Longrightarrow> a + HDR \<le> p \<and> p + s + 4 \<le> a + span bs"
proof (induction bs arbitrary: a)
  case (Cons b bs)
  obtain t f where b: "b = (t, f)"
    by (cases b)
  show ?case
    using Cons.prems Cons.IH [of "a + META_SIZE + t"]
    by (auto simp: b heap_consts split: if_splits)
qed simp

lemma live_disjoint:
  "(p, s) \<in> live a bs \<Longrightarrow> (q, t) \<in> live a bs \<Longrightarrow> (p, s) \<noteq> (q, t) \<Longrightarrow>
   p + s + META_SIZE \<le> q \<or> q + t + META_SIZE \<le> p"
proof (induction bs arbitrary: a)
  case (Cons b bs)
  obtain u f where b: "b = (u, f)"
    by (cases b)
  show ?case
    using Cons.prems Cons.IH [of "a + META_SIZE + u"]
      live_bounds [of p s "a + META_SIZE + u" bs] live_bounds [of q t "a + META_SIZE + u" bs]
    by (auto simp: b heap_consts split: if_splits)
qed simp

lemma live_split:
  "(p, s) \<in> live a bs \<Longrightarrow>
   \<exists>xs ys. bs = xs @ (s, False) # ys \<and> p = a + span xs + HDR"
proof (induction bs arbitrary: a)
  case (Cons b bs)
  obtain u f where b: "b = (u, f)"
    by (cases b)
  show ?case
  proof (cases "\<not> f \<and> (p, s) = (a + HDR, u)")
    case True
    then show ?thesis
      by (intro exI [of _ "[]"] exI [of _ bs]) (simp add: b)
  next
    case False
    then have "(p, s) \<in> live (a + META_SIZE + u) bs"
      using Cons.prems by (auto simp: b split: if_splits)
    then obtain xs ys where "bs = xs @ (s, False) # ys" "p = a + META_SIZE + u + span xs + HDR"
      using Cons.IH by blast
    then show ?thesis
      by (intro exI [of _ "(u, f) # xs"] exI [of _ ys]) (simp add: b)
  qed
qed simp

lemma live_middle:
  "live a (xs @ (s, False) # ys) = insert (a + span xs + HDR, s) (live a (xs @ (s, True) # ys))"
  by (auto simp: live_append)

lemma live_middle_fresh:
  "(a + span xs + HDR, t) \<notin> live a (xs @ (s, True) # ys)"
  using live_bounds [of "a + span xs + HDR" t a xs]
    live_bounds [of "a + span xs + HDR" t "a + span xs + META_SIZE + s" ys]
  by (auto simp: live_append heap_consts)

text \<open>Changing the end marker of a segment changes only its last header.\<close>

lemma hseg_snoc_next:
  assumes "hseg h a (xs @ [(s, f)]) e"
  shows "hseg (upd_hdr (a + span xs) (\<lambda>m. m\<lparr>bm_next := e'\<rparr>) h) a (xs @ [(s, f)]) e'"
proof -
  let ?h = "upd_hdr (a + span xs) (\<lambda>m. m\<lparr>bm_next := e'\<rparr>) h"
  have "hseg ?h a xs (Some (a + span xs)) = hseg h a xs (Some (a + span xs))"
    by (rule hseg_cong) (auto simp: upd_hdr_def)
  then show ?thesis
    using assms by (auto simp: hseg_append upd_hdr_def)
qed

lemma upd_hdr_simps [simp]:
  "hp_base (upd_hdr b f h) = hp_base h" "hp_canary (upd_hdr b f h) = hp_canary h"
  "hp_byte (upd_hdr b f h) = hp_byte h" "hp_used (upd_hdr b f h) = hp_used h"
  "hp_max (upd_hdr b f h) = hp_max h" "hp_hdr (upd_hdr b f h) = (hp_hdr h)(b := f (hp_hdr h b))"
  "hp_base (stamp_canary b h) = hp_base h" "hp_hdr (stamp_canary b h) = hp_hdr h"
  "hp_byte (stamp_canary b h) = hp_byte h" "hp_used (stamp_canary b h) = hp_used h"
  "hp_max (stamp_canary b h) = hp_max h"
  "hp_canary (stamp_canary b h) = (hp_canary h)(b + HDR + bm_size (hp_hdr h b) := HEAP_CANARY)"
  by (simp_all add: upd_hdr_def stamp_canary_def)

lemma hseg_counters [simp]:
  "hseg (h\<lparr>hp_allocs := x\<rparr>) a bs e = hseg h a bs e"
  "hseg (h\<lparr>hp_frees := x\<rparr>) a bs e = hseg h a bs e"
  "hseg (h\<lparr>hp_oom := x\<rparr>) a bs e = hseg h a bs e"
  "hseg (h\<lparr>hp_base := y\<rparr>) a bs e = hseg h a bs e"
  "hseg (h\<lparr>hp_used := z\<rparr>) a bs e = hseg h a bs e"
  "hseg (h\<lparr>hp_byte := w\<rparr>) a bs e = hseg h a bs e"
  by (rule hseg_cong; simp)+

subsection \<open>The search\<close>

lemma find_free_none:
  assumes "hseg h a bs None" and "no_fit n bs" and "bs \<noteq> []"
  shows "find_free_block h (Some a) l n = Some (a + span (butlast bs), None)"
  using assms
proof (induction bs arbitrary: a l)
  case (Cons b bs)
  obtain s f where b: "b = (s, f)"
    by (cases b)
  show ?case
  proof (cases "bs = []")
    case True
    then show ?thesis
      using Cons.prems by (subst find_free_block.simps) (simp add: b find_free_block.simps)
  next
    case False
    then have "find_free_block h (Some (a + META_SIZE + s)) a n
                 = Some (a + META_SIZE + s + span (butlast bs), None)"
      using Cons by (simp add: b)
    then show ?thesis
      using Cons.prems False by (subst find_free_block.simps) (simp add: b)
  qed
qed simp

lemma find_free_some:
  assumes "hseg h a (xs @ (s, True) # ys) e" and "no_fit n xs" and "n \<le> s"
  shows "\<exists>l'. find_free_block h (Some a) l n = Some (l', Some (a + span xs))"
  using assms
proof (induction xs arbitrary: a l)
  case Nil
  then show ?case
    by (subst find_free_block.simps) simp
next
  case (Cons b bs)
  obtain t f where b: "b = (t, f)"
    by (cases b)
  have "\<exists>l'. find_free_block h (Some (a + META_SIZE + t)) a n = Some (l', Some (a + META_SIZE + t + span bs))"
    using Cons by (simp add: b)
  then show ?case
    using Cons.prems by (subst find_free_block.simps) (auto simp: b add.assoc)
qed

lemma first_fit_cases:
  obtains (none) "no_fit n bs"
  | (some) xs s ys where "bs = xs @ (s, True) # ys" "no_fit n xs" "n \<le> s"
proof (induction bs arbitrary: thesis)
  case (Cons b bs)
  obtain t f where b: "b = (t, f)"
    by (cases b)
  show ?case
  proof (cases "f \<and> n \<le> t")
    case True
    then show ?thesis
      using Cons.prems(2) [of "[]" t bs] by (simp add: b)
  next
    case False
    show ?thesis
    proof (rule Cons.IH)
      assume "no_fit n bs"
      with False show thesis
        using Cons.prems(1) by (simp add: b)
    next
      fix xs s ys
      assume "bs = xs @ (s, True) # ys" "no_fit n xs" "n \<le> s"
      with False show thesis
        using Cons.prems(2) [of "(t, f) # xs" s ys] by (simp add: b)
    qed
  qed
qed simp

subsection \<open>Allocation\<close>

definition taken :: "nat \<Rightarrow> nat \<Rightarrow> blocks" where
  "taken n s = (if n + META_SIZE + 4 \<le> s then [(n, False), (s - n - META_SIZE, True)] else [(s, False)])"

lemma span_taken: "n \<le> s \<Longrightarrow> span (taken n s) = META_SIZE + s"
  by (simp add: taken_def heap_consts)

lemma w32_small: "x < 4294967296 \<Longrightarrow> w32 x = x"
  by (simp add: w32_def)

lemma take_block_ok:
  assumes seg: "hseg h a (xs @ (s, True) # ys) e" and n: "n \<le> s" and s: "s \<le> 1073741824"
    and b: "b = a + span xs"
  shows "hseg (stamp_canary b (take_block b n h)) a (xs @ taken n s @ ys) e"
proof -
  let ?h = "stamp_canary b (take_block b n h)"
  have hdr: "hp_hdr h b = \<lparr>bm_magic = HEAP_MAGIC_FREE, bm_size = s, bm_free = True,
      bm_next = (if ys = [] then e else Some (b + META_SIZE + s))\<rparr>"
    and ysq: "hseg h (b + META_SIZE + s) ys e" and xsq: "hseg h a xs (Some b)"
    and can: "hp_canary h (b + HDR + s) = HEAP_CANARY"
    using seg by (auto simp: hseg_append b)
  have w: "w32 (n + META_SIZE + 4) = n + META_SIZE + 4"
    using n s by (intro w32_small) (simp add: heap_consts)
  have w': "w32 (24 + n) = 24 + n"
    using n s by (intro w32_small) simp
  have hdr': "hp_hdr ?h x = hp_hdr h x" if "x < b \<or> b + META_SIZE + s \<le> x" for x
    using that n w by (auto simp: take_block_def hdr Let_def heap_consts)
  have can': "hp_canary ?h x = hp_canary h x" if "x < b \<or> b + META_SIZE + s \<le> x" for x
    using that n w by (auto simp: take_block_def hdr Let_def heap_consts)
  have "hseg ?h a xs (Some b) = hseg h a xs (Some b)"
    by (rule hseg_cong; (rule hdr' can'; simp add: b))
  moreover have "hseg ?h (b + META_SIZE + s) ys e = hseg h (b + META_SIZE + s) ys e"
    by (rule hseg_cong; (rule hdr' can'; simp))
  moreover have "hseg ?h b (taken n s) (if ys = [] then e else Some (b + META_SIZE + s))"
    using n can by (auto simp: take_block_def taken_def hdr Let_def w' heap_consts)
  ultimately show ?thesis
    using xsq ysq n by (auto simp: hseg_append span_taken b [symmetric] taken_def add.assoc)
qed

lemma take_block_frame [simp]:
  "hp_base (take_block b n h) = hp_base h" "hp_used (take_block b n h) = hp_used h"
  "hp_max (take_block b n h) = hp_max h" "hp_byte (take_block b n h) = hp_byte h"
  "hp_allocs (take_block b n h) = hp_allocs h"
  by (simp_all add: take_block_def Let_def upd_hdr_def stamp_canary_def)

lemma block_size_le:
  "(s, f) \<in> set bs \<Longrightarrow> s + META_SIZE \<le> span bs"
  by (induction bs rule: span.induct) auto

lemma align4_ok:
  assumes "n \<le> 4294967292"
  shows "n \<le> align4 n \<and> align4 n mod 4 = 0 \<and> align4 n < n + 4 \<and> align4 n \<le> 4294967292"
proof -
  define k where "k = n mod 4"
  define q where "q = n div 4"
  have n: "n = 4 * q + k" and k: "k < 4"
    by (simp_all add: k_def q_def)
  have "align4 n = (if k = 0 then n else 4 * q + 4)"
    using assms k by (auto simp: align4_def k_def [symmetric] w32_def) (simp_all add: n)
  then show ?thesis
    using assms k n by (auto split: if_splits)
qed

lemma request_space_none:
  assumes "hp_used h \<le> hp_max h" and "hp_max h \<le> 1073741824" and "n < 4294967296"
  shows "request_space l n h = None \<longleftrightarrow> hp_max h < hp_used h + n + META_SIZE"
proof (cases "n \<le> hp_max h")
  case True
  then have "w32 (n + META_SIZE) = n + META_SIZE" "w32 (hp_used h + n + META_SIZE) = hp_used h + n + META_SIZE"
    using assms by (auto intro!: w32_small simp: heap_consts)
  then show ?thesis
    using True by (simp add: request_space_def Let_def)
next
  case False
  then show ?thesis
    by (simp add: request_space_def)
qed

lemma extend_ok:
  assumes seg: "hseg h HEAP_BASE bs None" and used: "hp_used h = span bs"
    and fit: "span bs + n + META_SIZE \<le> hp_max h" and mx: "hp_max h \<le> 1073741824"
    and l: "l = (if bs = [] then None else Some (HEAP_BASE + span (butlast bs)))"
  obtains h1 where "request_space l n h = Some (HEAP_BASE + span bs, h1)"
    and "hseg (stamp_canary (HEAP_BASE + span bs) h1) HEAP_BASE (bs @ [(n, False)]) None"
    and "hp_used h1 = span bs + META_SIZE + n" and "hp_max h1 = hp_max h"
    and "hp_base h1 = hp_base h" and "hp_byte h1 = hp_byte h"
proof -
  let ?b = "HEAP_BASE + span bs"
  define g where "g = h\<lparr>hp_used := w32 (span bs + n + META_SIZE)\<rparr>"
  define g2 where "g2 = (case l of None \<Rightarrow> g | Some x \<Rightarrow> upd_hdr x (\<lambda>m. m\<lparr>bm_next := Some ?b\<rparr>) g)"
  define h1 where "h1 = upd_hdr ?b (\<lambda>m. \<lparr>bm_magic = HEAP_MAGIC_ALLOC, bm_size = n, bm_free = False, bm_next = None\<rparr>) g2"
  have w: "w32 (span bs + n + META_SIZE) = span bs + n + META_SIZE"
    using fit mx by (intro w32_small) simp
  have w2: "w32 (n + META_SIZE) = n + META_SIZE"
    using fit mx by (intro w32_small) simp
  have rs: "request_space l n h = Some (?b, h1)"
    using fit by (cases l) (simp_all add: request_space_def Let_def used w w2 h1_def g2_def g_def)
  have segg: "hseg g2 HEAP_BASE bs (Some ?b)"
  proof (cases "bs = []")
    case False
    then obtain xs s f where bs: "bs = xs @ [(s, f)]"
      by (metis rev_exhaust surj_pair)
    have "hseg g HEAP_BASE (xs @ [(s, f)]) None"
      using seg by (simp add: g_def bs)
    from hseg_snoc_next [OF this, of "Some ?b"] show ?thesis
      by (simp add: g2_def l bs)
  qed simp
  have "hseg (stamp_canary ?b h1) HEAP_BASE bs (Some ?b) = hseg g2 HEAP_BASE bs (Some ?b)"
    by (rule hseg_cong) (auto simp: h1_def)
  then have seg1: "hseg (stamp_canary ?b h1) HEAP_BASE (bs @ [(n, False)]) None"
    using segg by (simp add: hseg_append h1_def)
  show thesis
    by (rule that [OF rs seg1]) (simp_all add: h1_def g2_def g_def w split: option.splits)
qed

lemma heap_okD:
  assumes "heap_ok bs h"
  shows "hp_base h = (if bs = [] then None else Some HEAP_BASE)" "hseg h HEAP_BASE bs None"
    "hp_used h = span bs" "span bs \<le> hp_max h" "hp_max h \<le> 1073741824"
    "\<And>b. b \<in> set bs \<Longrightarrow> fst b mod 4 = 0" "coalesced bs"
  using assms by (simp_all add: heap_ok_def)

text \<open>\<open>kmalloc\<close> when a hole fits: the first one that does, split when worth it.\<close>

lemma kmalloc_hole:
  assumes ok: "heap_ok bs h" and n: "0 < n" "n \<le> 4294967292"
    and bs: "bs = xs @ (s, True) # ys" and fit: "no_fit (align4 n) xs" "align4 n \<le> s"
  obtains h' where "kmalloc n h = Some (Ret (Some (HEAP_BASE + span xs + HDR)) h')"
    and "heap_ok (xs @ taken (align4 n) s @ ys) h'" and "hp_byte h' = hp_byte h" and "hp_max h' = hp_max h"
proof -
  let ?b = "HEAP_BASE + span xs"
  note okD = heap_okD [OF ok]
  have s: "s \<le> 1073741824"
    using block_size_le [of s True bs] okD(4,5) by (simp add: bs)
  obtain l' where find: "find_free_block h (Some HEAP_BASE) HEAP_BASE (align4 n) = Some (l', Some ?b)"
    using find_free_some [OF _ fit] okD(2) bs by blast
  have magic: "bm_magic (hp_hdr h ?b) = HEAP_MAGIC_FREE"
    using okD(2) by (simp add: bs hseg_append)
  define h' where "h' = (stamp_canary ?b (take_block ?b (align4 n) h))\<lparr>hp_allocs := hp_allocs h + 1\<rparr>"
  have k: "kmalloc n h = Some (Ret (Some (?b + HDR)) h')"
    using n okD(1) find magic
    by (simp add: kmalloc_def bs kmalloc_done_def h'_def stamp_canary_def Let_def)
  have "hseg h' HEAP_BASE (xs @ taken (align4 n) s @ ys) None"
    using take_block_ok [OF _ fit(2) s refl, of h HEAP_BASE xs ys None] okD(2)
    by (simp add: h'_def bs)
  moreover have "align4 n mod 4 = 0"
    using align4_ok n by simp
  moreover have "s mod 4 = 0"
    using okD(6) [of "(s, True)"] by (simp add: bs)
  ultimately have "heap_ok (xs @ taken (align4 n) s @ ys) h'"
    using okD fit
    by (auto simp: heap_ok_def h'_def bs span_taken taken_def coalesced_append coalesced_Cons heap_consts
        mod_diff_left_eq dvd_eq_mod_eq_0 [symmetric] dest: dvd_diff_nat)
  then show thesis
    by (rule that [OF k]) (simp_all add: h'_def)
qed

text \<open>\<open>kmalloc\<close> when no hole fits: extend the heap, or report failure.\<close>

lemma kmalloc_no_hole:
  assumes ok: "heap_ok bs h" and n: "0 < n" "n \<le> 4294967292" and none: "no_fit (align4 n) bs"
  defines "l \<equiv> (if bs = [] then None else Some (HEAP_BASE + span (butlast bs)))"
  shows "kmalloc n h =
    (case request_space l (align4 n) h of
       None \<Rightarrow> Some (Ret None (h\<lparr>hp_oom := hp_oom h + 1\<rparr>))
     | Some (b, h1) \<Rightarrow> kmalloc_done (Some b) (if bs = [] then h1\<lparr>hp_base := Some b\<rparr> else h1))"
proof (cases "bs = []")
  case True
  then show ?thesis
    using n heap_okD(1) [OF ok]
    by (simp add: kmalloc_def l_def kmalloc_done_def Let_def split: option.splits)
next
  case False
  then have "find_free_block h (Some HEAP_BASE) HEAP_BASE (align4 n) = Some (HEAP_BASE + span (butlast bs), None)"
    using find_free_none [OF heap_okD(2) [OF ok] none] by simp
  then show ?thesis
    using False n heap_okD(1) [OF ok]
    by (simp add: kmalloc_def l_def kmalloc_done_def Let_def split: option.splits)
qed

lemma kmalloc_extend:
  assumes ok: "heap_ok bs h" and n: "0 < n" "n \<le> 4294967292" and none: "no_fit (align4 n) bs"
    and fit: "span bs + align4 n + META_SIZE \<le> hp_max h"
  obtains h' where "kmalloc n h = Some (Ret (Some (HEAP_BASE + span bs + HDR)) h')"
    and "heap_ok (bs @ [(align4 n, False)]) h'" and "hp_byte h' = hp_byte h" and "hp_max h' = hp_max h"
proof -
  define l where "l = (if bs = [] then None else Some (HEAP_BASE + span (butlast bs)))"
  note okD = heap_okD [OF ok]
  obtain h1 where r: "request_space l (align4 n) h = Some (HEAP_BASE + span bs, h1)"
    and seg: "hseg (stamp_canary (HEAP_BASE + span bs) h1) HEAP_BASE (bs @ [(align4 n, False)]) None"
    and f: "hp_used h1 = span bs + META_SIZE + align4 n" "hp_max h1 = hp_max h"
      "hp_base h1 = hp_base h" "hp_byte h1 = hp_byte h"
    using extend_ok [OF okD(2,3) fit okD(5) l_def] .
  define g where "g = (if bs = [] then h1\<lparr>hp_base := Some (HEAP_BASE + span bs)\<rparr> else h1)"
  define h' where "h' = (stamp_canary (HEAP_BASE + span bs) g)\<lparr>hp_allocs := hp_allocs g + 1\<rparr>"
  have "kmalloc n h = Some (Ret (Some (HEAP_BASE + span bs + HDR)) h')"
    by (simp add: kmalloc_no_hole [OF ok n none] r [unfolded l_def] kmalloc_done_def h'_def g_def)
  moreover have "hseg (stamp_canary (HEAP_BASE + span bs) g) HEAP_BASE (bs @ [(align4 n, False)]) None
      = hseg (stamp_canary (HEAP_BASE + span bs) h1) HEAP_BASE (bs @ [(align4 n, False)]) None"
    by (rule hseg_cong) (simp_all add: g_def)
  then have "heap_ok (bs @ [(align4 n, False)]) h'"
    using okD fit seg f align4_ok [OF n(2)]
    by (auto simp: heap_ok_def h'_def g_def coalesced_append)
  ultimately show thesis
    by (rule that) (simp_all add: h'_def g_def f)
qed

lemma taken_live:
  assumes "n \<le> s"
  shows "\<exists>t. n \<le> t \<and> t \<le> s \<and>
    live a (xs @ taken n s @ ys) = insert (a + span xs + HDR, t) (live a (xs @ (s, True) # ys))"
proof (cases "n + META_SIZE + 4 \<le> s")
  case True
  then show ?thesis
    by (intro exI [of _ n]) (simp add: taken_def live_append assms add.assoc)
next
  case False
  then show ?thesis
    by (intro exI [of _ s]) (simp add: taken_def live_append assms)
qed

text \<open>The effect of a successful allocation, stated on the live set alone.\<close>

definition allocated :: "nat \<Rightarrow> blocks \<Rightarrow> heap \<Rightarrow> nat \<Rightarrow> nat \<Rightarrow> blocks \<Rightarrow> heap \<Rightarrow> bool" where
  "allocated n bs h p s bs' h' \<longleftrightarrow>
     heap_ok bs' h' \<and> n \<le> s \<and> (p, s) \<notin> live HEAP_BASE bs \<and>
     live HEAP_BASE bs' = insert (p, s) (live HEAP_BASE bs) \<and>
     hp_byte h' = hp_byte h \<and> hp_max h' = hp_max h"

lemma kmalloc_cases:
  assumes ok: "heap_ok bs h" and n: "0 < n" "n \<le> 4294967292"
  shows "(\<exists>p s bs' h'. kmalloc n h = Some (Ret (Some p) h') \<and> allocated n bs h p s bs' h') \<or>
    (kmalloc n h = Some (Ret None (h\<lparr>hp_oom := hp_oom h + 1\<rparr>)) \<and>
     no_fit (align4 n) bs \<and> hp_max h < span bs + align4 n + META_SIZE)"
proof (cases rule: first_fit_cases [of "align4 n" bs])
  case none
  show ?thesis
  proof (cases "span bs + align4 n + META_SIZE \<le> hp_max h")
    case True
    obtain h' where "kmalloc n h = Some (Ret (Some (HEAP_BASE + span bs + HDR)) h')"
      and "heap_ok (bs @ [(align4 n, False)]) h'" "hp_byte h' = hp_byte h" "hp_max h' = hp_max h"
      using kmalloc_extend [OF ok n none True] .
    moreover have "(HEAP_BASE + span bs + HDR, align4 n) \<notin> live HEAP_BASE bs"
      using live_bounds [of "HEAP_BASE + span bs + HDR" "align4 n" HEAP_BASE bs] by auto
    ultimately show ?thesis
      using align4_ok [OF n(2)]
      by (intro disjI1 exI [of _ "HEAP_BASE + span bs + HDR"] exI [of _ "align4 n"]
          exI [of _ "bs @ [(align4 n, False)]"] exI [of _ h']) (simp add: allocated_def live_append)
  next
    case False
    then have "request_space l (align4 n) h = None" for l
      using request_space_none [of h "align4 n" l] heap_okD [OF ok] align4_ok [OF n(2)] by simp
    then show ?thesis
      using kmalloc_no_hole [OF ok n none] none False by simp
  qed
next
  case (some xs s ys)
  obtain h' where h': "kmalloc n h = Some (Ret (Some (HEAP_BASE + span xs + HDR)) h')"
    "heap_ok (xs @ taken (align4 n) s @ ys) h'" "hp_byte h' = hp_byte h" "hp_max h' = hp_max h"
    using kmalloc_hole [OF ok n some] .
  obtain t where t: "align4 n \<le> t"
    "live HEAP_BASE (xs @ taken (align4 n) s @ ys) =
       insert (HEAP_BASE + span xs + HDR, t) (live HEAP_BASE (xs @ (s, True) # ys))"
    using taken_live [OF some(3)] by blast
  show ?thesis
    using h' t align4_ok [OF n(2)] live_middle_fresh [of HEAP_BASE xs t s ys]
    by (intro disjI1 exI [of _ "HEAP_BASE + span xs + HDR"] exI [of _ t]
          exI [of _ "xs @ taken (align4 n) s @ ys"] exI [of _ h']) (auto simp: allocated_def some(1))
qed

subsection \<open>Release\<close>

text \<open>Merging a block with the free block after it.\<close>

lemma merge_next_ok:
  assumes seg: "hseg h a (xs @ (u, f) # (s, g) # ys) e" and sz: "u + META_SIZE + s < 4294967296"
    and b: "b = a + span xs" and nb: "nb = b + META_SIZE + u"
  shows "hseg (stamp_canary b (merge_next b nb h)) a (xs @ (u + META_SIZE + s, f) # ys) e"
proof -
  let ?h = "stamp_canary b (merge_next b nb h)"
  have hd: "hp_hdr h b = \<lparr>bm_magic = (if f then HEAP_MAGIC_FREE else HEAP_MAGIC_ALLOC), bm_size = u, bm_free = f,
      bm_next = Some nb\<rparr>"
    and hn: "bm_size (hp_hdr h nb) = s" "bm_next (hp_hdr h nb) = (if ys = [] then e else Some (nb + META_SIZE + s))"
    and segs: "hseg h a xs (Some b)" "hseg h (nb + META_SIZE + s) ys e"
    using seg by (auto simp: hseg_append b nb add.assoc)
  have hdr': "hp_hdr ?h x = hp_hdr h x" if "x \<noteq> b" for x
    using that by (simp add: merge_next_def)
  have can': "hp_canary ?h x = hp_canary h x" if "x < b \<or> b + META_SIZE + (u + META_SIZE + s) \<le> x" for x
    using that sz by (auto simp: merge_next_def hd hn w32_small heap_consts)
  have "hseg ?h a xs (Some b) = hseg h a xs (Some b)"
    by (rule hseg_cong; (rule hdr' can'; simp add: b))
  moreover have "hseg ?h (nb + META_SIZE + s) ys e = hseg h (nb + META_SIZE + s) ys e"
    by (rule hseg_cong; (rule hdr' can'; simp add: nb heap_consts))
  moreover have "hp_hdr ?h b = \<lparr>bm_magic = (if f then HEAP_MAGIC_FREE else HEAP_MAGIC_ALLOC),
      bm_size = u + META_SIZE + s, bm_free = f, bm_next = (if ys = [] then e else Some (nb + META_SIZE + s))\<rparr>"
    using sz by (simp add: merge_next_def hd hn w32_small)
  moreover have "hp_canary ?h (b + HDR + (u + META_SIZE + s)) = HEAP_CANARY"
    using sz by (simp add: merge_next_def hd hn w32_small)
  ultimately show ?thesis
    using segs by (simp add: hseg_append b [symmetric] nb add.assoc)
qed

lemma find_prev_ok:
  assumes "hseg h a (xs @ [(s, f)]) (Some b)" and "b = a + span (xs @ [(s, f)])"
  shows "find_prev h (Some a) b = Some (Some (a + span xs))"
  using assms
proof (induction xs arbitrary: a)
  case Nil
  then show ?case
    by (subst find_prev.simps) simp
next
  case (Cons x xs)
  obtain t g where x: "x = (t, g)"
    by (cases x)
  have "find_prev h (Some (a + META_SIZE + t)) b = Some (Some (a + META_SIZE + t + span xs))"
    using Cons by (simp add: x)
  moreover have "a + META_SIZE + t \<noteq> b"
    using Cons.prems(2) by (simp add: x heap_consts)
  ultimately show ?case
    using Cons.prems by (subst find_prev.simps) (simp add: x add.assoc)
qed

fun after_free :: "nat \<Rightarrow> blocks \<Rightarrow> nat \<times> blocks" where
  "after_free s ((t, True) # ys) = (s + META_SIZE + t, ys)"
| "after_free s ys = (s, ys)"

text \<open>Marking a block free and merging forward.\<close>

lemma free_forward:
  assumes seg: "hseg h a (xs @ (s, True) # ys) e" and co: "coalesced ys"
    and sz: "span (xs @ (s, True) # ys) \<le> 1073741824" and b: "b = a + span xs" and e: "e = None"
    and sy: "after_free s ys = (s', ys')"
  obtains h2 where "merge_forward b h = Some h2"
    and "hseg (stamp_canary b h2) a (xs @ (s', True) # ys') e"
    and "hp_base h2 = hp_base h" "hp_used h2 = hp_used h" "hp_max h2 = hp_max h" "hp_byte h2 = hp_byte h"
    and "bm_magic (hp_hdr h2 b) = bm_magic (hp_hdr h b)"
proof (cases "ys \<noteq> [] \<and> snd (hd ys)")
  case False
  have "merge_forward b h = Some h"
    using seg False by (subst merge_forward.simps) (cases ys; auto simp: hseg_append b e)
  moreover have "hseg (stamp_canary b h) a (xs @ (s, True) # ys) e = hseg h a (xs @ (s, True) # ys) e"
    using seg by (intro hseg_cong) (auto simp: hseg_append b)
  moreover have "s' = s" "ys' = ys"
    using sy False by (cases "(s, ys)" rule: after_free.cases; auto)+
  ultimately show thesis
    using seg by (intro that [of h]) auto
next
  case True
  then obtain t ys1 where ys: "ys = (t, True) # ys1"
    by (cases ys) auto
  then have s': "s' = s + META_SIZE + t" "ys' = ys1"
    using sy by auto
  define nb where "nb = b + META_SIZE + s"
  let ?h = "merge_next b nb h"
  have seg': "hseg (stamp_canary b ?h) a (xs @ (s', True) # ys1) e"
    unfolding s' using seg sz by (intro merge_next_ok) (auto simp: ys b nb_def)
  have step: "merge_forward b h = merge_forward b ?h"
    using seg by (subst merge_forward.simps) (auto simp: hseg_append ys b nb_def merge_next_def)
  have stop: "merge_forward b ?h = Some ?h"
    using seg' co by (subst merge_forward.simps) (cases ys1; auto simp: hseg_append b e ys)
  show thesis
    using seg' step stop s' by (intro that [of ?h]) (auto simp: merge_next_def)
qed

definition freed :: "blocks \<Rightarrow> nat \<Rightarrow> blocks \<Rightarrow> blocks" where
  "freed xs s ys =
     (let (s1, ys1) = after_free s ys
      in if xs \<noteq> [] \<and> snd (last xs) then butlast xs @ (fst (last xs) + META_SIZE + s1, True) # ys1
         else xs @ (s1, True) # ys1)"

lemma after_free_facts:
  assumes "after_free s ys = (s', ys')"
  shows "span ((s', f) # ys') = span ((s, f) # ys)" and "live (a + META_SIZE + s') ys' = live (a + META_SIZE + s) ys"
    and "coalesced ys \<Longrightarrow> coalesced ((s', True) # ys')"
    and "\<forall>b \<in> set ys. fst b mod 4 = 0 \<Longrightarrow> s mod 4 = 0 \<Longrightarrow> s' mod 4 = 0 \<and> (\<forall>b \<in> set ys'. fst b mod 4 = 0)"
proof -
  show "span ((s', f) # ys') = span ((s, f) # ys)"
    using assms by (cases "(s, ys)" rule: after_free.cases; auto)
  show "live (a + META_SIZE + s') ys' = live (a + META_SIZE + s) ys"
    using assms by (cases "(s, ys)" rule: after_free.cases; auto simp: add.assoc)
  show "coalesced ys \<Longrightarrow> coalesced ((s', True) # ys')"
    using assms by (cases "(s, ys)" rule: after_free.cases; auto simp: coalesced_Cons)
  show "\<forall>b \<in> set ys. fst b mod 4 = 0 \<Longrightarrow> s mod 4 = 0 \<Longrightarrow> s' mod 4 = 0 \<and> (\<forall>b \<in> set ys'. fst b mod 4 = 0)"
    using assms by (cases "(s, ys)" rule: after_free.cases; auto simp: heap_consts dvd_eq_mod_eq_0 [symmetric])
qed

lemma freed_facts:
  assumes co: "coalesced (xs @ (s, False) # ys)"
  shows "span (freed xs s ys) = span (xs @ (s, False) # ys)"
    and "live a (freed xs s ys) = live a (xs @ (s, True) # ys)"
    and "coalesced (freed xs s ys)"
    and "\<forall>b \<in> set (xs @ (s, False) # ys). fst b mod 4 = 0 \<Longrightarrow> \<forall>b \<in> set (freed xs s ys). fst b mod 4 = 0"
proof -
  obtain s1 ys1 where af: "after_free s ys = (s1, ys1)"
    by fastforce
  note F = after_free_facts [OF af]
  have co1: "coalesced ((s1, True) # ys1)" "coalesced xs" "coalesced ys"
    using co F(3) by (simp_all add: coalesced_append coalesced_Cons)
  show "span (freed xs s ys) = span (xs @ (s, False) # ys)"
    using F(1) by (cases xs rule: rev_cases) (auto simp: freed_def af)
  show "live a (freed xs s ys) = live a (xs @ (s, True) # ys)"
  proof (cases xs rule: rev_cases)
    case Nil
    then show ?thesis
      using F(2) [of a] by (simp add: freed_def af)
  next
    case (snoc xs' x)
    then show ?thesis
      using F(2) [of "a + span xs"] by (cases x) (auto simp: freed_def af live_append add.assoc)
  qed
  show "coalesced (freed xs s ys)"
    using co1 by (cases xs rule: rev_cases) (auto simp: freed_def af coalesced_append coalesced_Cons)
  show "\<forall>b \<in> set (freed xs s ys). fst b mod 4 = 0" if al: "\<forall>b \<in> set (xs @ (s, False) # ys). fst b mod 4 = 0"
    using F(4) al
    by (cases xs rule: rev_cases) (auto simp: freed_def af heap_consts dvd_eq_mod_eq_0 [symmetric])
qed

lemma kfree_block:
  assumes ok: "heap_ok (xs @ (s, False) # ys) h" and b: "b = HEAP_BASE + span xs"
  obtains h' where "kfree (Some (b + HDR)) h = Some (Ret () h')"
    and "heap_ok (freed xs s ys) h'" and "hp_byte h' = hp_byte h" and "hp_max h' = hp_max h"
    and "bm_magic (hp_hdr h' b) = HEAP_MAGIC_FREE"
proof -
  note fin0 = that
  note okD = heap_okD [OF ok]
  obtain s1 ys1 where af: "after_free s ys = (s1, ys1)"
    by fastforce
  have sp1: "span ((s1, True) # ys1) = span ((s, True) # ys)"
    using after_free_facts(1) [OF af] .
  have hdr: "bm_magic (hp_hdr h b) = HEAP_MAGIC_ALLOC" "bm_size (hp_hdr h b) = s"
    and can: "hp_canary h (b + HDR + s) = HEAP_CANARY"
    using okD(2) by (auto simp: hseg_append b)
  define h1 where "h1 = (upd_hdr b (\<lambda>m. m\<lparr>bm_magic := HEAP_MAGIC_FREE, bm_free := True\<rparr>) h)\<lparr>hp_frees := hp_frees h + 1\<rparr>"
  have xs1: "hseg h1 HEAP_BASE xs (Some b) = hseg h HEAP_BASE xs (Some b)"
    by (rule hseg_cong) (auto simp: h1_def b)
  have ys1: "hseg h1 (b + META_SIZE + s) ys None = hseg h (b + META_SIZE + s) ys None"
    by (rule hseg_cong) (auto simp: h1_def heap_consts)
  have seg1: "hseg h1 HEAP_BASE (xs @ (s, True) # ys) None"
    using okD(2) xs1 ys1 by (auto simp: hseg_append b h1_def)
  have lim: "span (xs @ (s, True) # ys) \<le> 1073741824"
    using okD(4,5) by simp
  obtain h2 where mf: "merge_forward b h1 = Some h2"
    and seg2: "hseg (stamp_canary b h2) HEAP_BASE (xs @ (s1, True) # ys1) None"
    and f2: "hp_base h2 = hp_base h1" "hp_used h2 = hp_used h1" "hp_max h2 = hp_max h1" "hp_byte h2 = hp_byte h1"
      "bm_magic (hp_hdr h2 b) = bm_magic (hp_hdr h1 b)"
    using free_forward [OF seg1 _ lim b refl af] okD(7) by (auto simp: coalesced_append coalesced_Cons)
  define h3 where "h3 = stamp_canary b h2"
  have base3: "hp_base h3 = Some HEAP_BASE"
    using okD(1) by (simp add: h3_def f2 h1_def)
  have kf: "kfree (Some (b + HDR)) h = (case merge_backward b h3 of None \<Rightarrow> None | Some h4 \<Rightarrow> Some (Ret () h4))"
    using hdr can mf by (simp add: kfree_def Let_def h1_def [symmetric] h3_def del: upd_hdr_simps)
  have facts: "heap_ok (freed xs s ys) h'" if "hseg h' HEAP_BASE (freed xs s ys) None"
    "hp_base h' = hp_base h3" "hp_used h' = hp_used h3" "hp_max h' = hp_max h3" for h'
  proof -
    have ne: "freed xs s ys \<noteq> []"
      by (simp add: freed_def af)
    have md: "\<forall>b \<in> set (freed xs s ys). fst b mod 4 = 0"
      using freed_facts(4) [OF okD(7)] okD(6) by blast
    have um: "hp_used h3 = hp_used h" "hp_max h3 = hp_max h"
      by (simp_all add: h3_def f2 h1_def)
    show ?thesis
      unfolding heap_ok_def using that base3 ne md um okD(3,4,5) freed_facts(1,3) [OF okD(7)] by simp
  qed
  have magic3: "bm_magic (hp_hdr h3 b) = HEAP_MAGIC_FREE"
    by (simp add: h3_def f2 h1_def)
  have fin: thesis if "merge_backward b h3 = Some h'" "hseg h' HEAP_BASE (freed xs s ys) None"
    "hp_base h' = hp_base h3" "hp_used h' = hp_used h3" "hp_max h' = hp_max h3" "hp_byte h' = hp_byte h3"
    "bm_magic (hp_hdr h' b) = bm_magic (hp_hdr h3 b)" for h'
    by (rule fin0) (use kf that facts [OF that(2-5)] magic3 in \<open>simp_all add: h3_def f2 h1_def\<close>)
  show thesis
  proof (cases xs rule: rev_cases)
    case Nil
    have "freed xs s ys = (s1, True) # ys1"
      by (simp add: freed_def af Nil)
    then show thesis
      using base3 seg2 by (intro fin [of h3]) (simp_all add: merge_backward_def Nil b h3_def)
  next
    case (snoc xs' x)
    obtain u f where x: "x = (u, f)"
      by (cases x)
    define pv where "pv = HEAP_BASE + span xs'"
    have bpv: "b = pv + META_SIZE + u"
      by (simp add: b snoc x pv_def)
    have seg3: "hseg h3 HEAP_BASE (xs' @ (u, f) # (s1, True) # ys1) None"
      using seg2 by (simp add: h3_def snoc x)
    have "hseg h3 HEAP_BASE (xs' @ [(u, f)]) (Some b)"
      using seg2 by (simp add: hseg_append [of _ _ xs] h3_def b flip: snoc x)
    then have fp: "find_prev h3 (Some HEAP_BASE) b = Some (Some pv)"
      unfolding pv_def by (rule find_prev_ok) (simp add: b snoc x)
    have fpv: "bm_free (hp_hdr h3 pv) = f"
      using seg3 by (simp add: hseg_append pv_def)
    have nb: "hp_base h3 \<noteq> Some b"
      using base3 by (simp add: b snoc x heap_consts)
    have seg4: "hseg (stamp_canary pv (merge_next pv b h3)) HEAP_BASE (xs' @ (u + META_SIZE + s1, f) # ys1) None"
      using seg3 sp1 lim by (intro merge_next_ok) (auto simp: pv_def bpv snoc x)
    have "xs \<noteq> [] \<and> snd (last xs) \<longleftrightarrow> f"
      by (simp add: snoc x)
    then have "freed xs s ys = (if f then xs' @ (u + META_SIZE + s1, f) # ys1 else xs @ (s1, True) # ys1)"
      by (simp add: freed_def af snoc x)
    moreover have "pv \<noteq> b"
      by (simp add: bpv heap_consts)
    ultimately show thesis
      using nb base3 fp fpv seg2 seg4
      by (intro fin [of "if f then stamp_canary pv (merge_next pv b h3) else h3"])
        (auto simp: merge_backward_def h3_def [symmetric] merge_next_def [of pv b h3])
  qed
qed

subsection \<open>What a caller may rely on\<close>

lemma stomped_block_halts:
  assumes "heap_ok bs h" and "(p, s) \<in> live HEAP_BASE bs" and "v \<noteq> HEAP_CANARY"
  shows "\<exists>h'. kfree (Some p) (h\<lparr>hp_canary := (hp_canary h)(p + s := v)\<rparr>) = Some (Halt ''heap overflow detected'' h')"
proof -
  obtain xs ys where bs: "bs = xs @ (s, False) # ys" and p: "p = HEAP_BASE + span xs + HDR"
    using live_split [OF assms(2)] by blast
  show ?thesis
    using heap_okD(2) [OF assms(1)] assms(3) by (auto simp: kfree_def Let_def bs p hseg_append)
qed

lemma kfree_live:
  assumes ok: "heap_ok bs h" and l: "(p, s) \<in> live HEAP_BASE bs"
  obtains h' bs' where "kfree (Some p) h = Some (Ret () h')" and "heap_ok bs' h'"
    and "live HEAP_BASE bs' = live HEAP_BASE bs - {(p, s)}" and "hp_byte h' = hp_byte h" and "hp_max h' = hp_max h"
    and "span bs' = span bs" and "bm_magic (hp_hdr h' (p - HDR)) = HEAP_MAGIC_FREE"
proof -
  obtain xs ys where bs: "bs = xs @ (s, False) # ys" and p: "p = HEAP_BASE + span xs + HDR"
    using live_split [OF l] by blast
  obtain h' where h': "kfree (Some p) h = Some (Ret () h')" "heap_ok (freed xs s ys) h'"
    "hp_byte h' = hp_byte h" "hp_max h' = hp_max h" "bm_magic (hp_hdr h' (p - HDR)) = HEAP_MAGIC_FREE"
    using kfree_block [OF ok [unfolded bs] refl] by (auto simp: p)
  note F = freed_facts [OF heap_okD(7) [OF ok, unfolded bs]]
  have "live HEAP_BASE (freed xs s ys) = live HEAP_BASE bs - {(p, s)}"
    using F(2) live_middle_fresh [of HEAP_BASE xs s s ys] by (auto simp: bs p live_middle)
  then show thesis
    using that [OF h'(1,2)] h' F(1) by (simp add: bs)
qed

lemma live_unallocated_free:
  assumes "allocated n bs h p s bs' h'" and "(q, t) \<in> live HEAP_BASE bs"
  shows "(q, t) \<in> live HEAP_BASE bs'" and "q + t \<le> p \<or> p + s \<le> q" and "p \<noteq> q"
proof -
  show l: "(q, t) \<in> live HEAP_BASE bs'"
    using assms by (simp add: allocated_def)
  have "(p, s) \<in> live HEAP_BASE bs'" "(p, s) \<noteq> (q, t)"
    using assms by (auto simp: allocated_def)
  from live_disjoint [OF this(1) l this(2)]
  show "q + t \<le> p \<or> p + s \<le> q" "p \<noteq> q"
    by (auto simp: heap_consts)
qed

text \<open>A heap before its first allocation, and one with a single eight-byte allocation.\<close>

definition heap0 :: heap where
  "heap0 = \<lparr>hp_base = None,
     hp_hdr = (\<lambda>_. \<lparr>bm_magic = 0, bm_size = 0, bm_free = False, bm_next = None\<rparr>),
     hp_canary = (\<lambda>_. 0), hp_byte = (\<lambda>_. 0), hp_used = 0, hp_max = 56 * 1024 * 1024,
     hp_allocs = 0, hp_frees = 0, hp_oom = 0, hp_canary_failures = 0, hp_magic_failures = 0\<rparr>"

definition heap1 :: heap where
  "heap1 = heap0\<lparr>hp_base := Some HEAP_BASE,
     hp_hdr := (hp_hdr heap0)(HEAP_BASE := \<lparr>bm_magic = HEAP_MAGIC_ALLOC, bm_size = 8, bm_free = False, bm_next = None\<rparr>),
     hp_canary := (hp_canary heap0)(HEAP_BASE + HDR + 8 := HEAP_CANARY), hp_used := META_SIZE + 8\<rparr>"

lemma heap0_ok: "heap_ok [] heap0"
  by (simp add: heap_ok_def heap0_def)

lemma heap1_ok: "heap_ok [(8, False)] heap1"
  by (simp add: heap_ok_def heap1_def heap0_def heap_consts)

text \<open>C12: \<open>kmalloc\<close> always returns. On an intact heap it either hands out a block of at least
  the requested size that overlaps no live allocation, lies inside the heap and leaves every
  live allocation and its bytes in place, with the heap intact again; or it returns NULL,
  only counts the failure, and does so only when no free block is large enough and the heap
  cannot grow by the request under its ceiling.\<close>

theorem kmalloc_ok:
  assumes "heap_ok bs h" and "0 < n" and "n \<le> 4294967292"
  shows "(\<exists>p s bs' h'. kmalloc n h = Some (Ret (Some p) h') \<and> heap_ok bs' h' \<and> n \<le> s \<and>
           live HEAP_BASE bs' = insert (p, s) (live HEAP_BASE bs) \<and> (p, s) \<notin> live HEAP_BASE bs \<and>
           (\<forall>(q, t) \<in> live HEAP_BASE bs. q + t \<le> p \<or> p + s \<le> q) \<and>
           HEAP_BASE \<le> p \<and> p + s \<le> HEAP_BASE + hp_max h \<and> hp_byte h' = hp_byte h) \<or>
         (kmalloc n h = Some (Ret None (h\<lparr>hp_oom := hp_oom h + 1\<rparr>)) \<and>
           (\<forall>(t, f) \<in> set bs. f \<longrightarrow> t < align4 n) \<and> hp_max h < hp_used h + align4 n + META_SIZE)"
proof -
  have nf: "no_fit m ds \<Longrightarrow> \<forall>(t, f) \<in> set ds. f \<longrightarrow> t < m" for m ds
    by (induction m ds rule: no_fit.induct) auto
  have dis: "allocated n bs h p s bs' h' \<Longrightarrow> \<forall>(q, t) \<in> live HEAP_BASE bs. q + t \<le> p \<or> p + s \<le> q" for p s bs' h'
    using live_unallocated_free(2) by blast
  have bnd: "HEAP_BASE \<le> p \<and> p + s \<le> HEAP_BASE + hp_max h" if "allocated n bs h p s bs' h'" for p s bs' h'
    using that live_bounds [of p s HEAP_BASE bs'] heap_okD(4) [of bs' h'] by (auto simp: allocated_def)
  from kmalloc_cases [OF assms] show ?thesis
  proof (elim disjE exE conjE)
    fix p s bs' h'
    assume k: "kmalloc n h = Some (Ret (Some p) h')" and al: "allocated n bs h p s bs' h'"
    show ?thesis
      using k al [unfolded allocated_def] dis [OF al] bnd [OF al] by (intro disjI1) blast
  next
    assume "kmalloc n h = Some (Ret None (h\<lparr>hp_oom := hp_oom h + 1\<rparr>))" "no_fit (align4 n) bs"
      "hp_max h < span bs + align4 n + META_SIZE"
    then show ?thesis
      using nf heap_okD(3) [OF assms(1)] by (intro disjI2) simp
  qed
qed

theorem kmalloc_ok_witness:
  "\<exists>p s bs' h'. kmalloc 10 heap0 = Some (Ret (Some p) h') \<and> heap_ok bs' h' \<and> 10 \<le> s \<and> live HEAP_BASE bs' = {(p, s)}"
  using kmalloc_ok [OF heap0_ok, of 10] by (auto simp: heap0_def align4_def w32_def heap_consts)

text \<open>C13: Freeing a live allocation always returns, removes exactly that allocation, keeps every
  other one and its bytes, and leaves an intact heap with no two adjacent free blocks. A
  second \<open>kfree\<close> of the same pointer right after halts the kernel, and so does the first one
  when the word after the payload was overwritten.\<close>

theorem kfree_ok:
  assumes "heap_ok bs h" and "(p, s) \<in> live HEAP_BASE bs"
  shows "\<exists>h' bs'. kfree (Some p) h = Some (Ret () h') \<and> heap_ok bs' h' \<and>
           live HEAP_BASE bs' = live HEAP_BASE bs - {(p, s)} \<and> coalesced bs' \<and> span bs' = span bs \<and>
           hp_byte h' = hp_byte h \<and>
           kfree (Some p) h' = Some (Halt ''kfree of non-allocated pointer''
             (h'\<lparr>hp_magic_failures := hp_magic_failures h' + 1\<rparr>)) \<and>
           (\<forall>v. v \<noteq> HEAP_CANARY \<longrightarrow>
             (\<exists>h2. kfree (Some p) (h\<lparr>hp_canary := (hp_canary h)(p + s := v)\<rparr>) = Some (Halt ''heap overflow detected'' h2)))"
proof -
  have stomped: "\<forall>v. v \<noteq> HEAP_CANARY \<longrightarrow>
      (\<exists>h2. kfree (Some p) (h\<lparr>hp_canary := (hp_canary h)(p + s := v)\<rparr>) = Some (Halt ''heap overflow detected'' h2))"
    using stomped_block_halts [OF assms] by blast
  obtain h' bs' where r: "kfree (Some p) h = Some (Ret () h')" and ok: "heap_ok bs' h'"
    and l: "live HEAP_BASE bs' = live HEAP_BASE bs - {(p, s)}" and bt: "hp_byte h' = hp_byte h"
    and sp: "span bs' = span bs" and m: "bm_magic (hp_hdr h' (p - HDR)) = HEAP_MAGIC_FREE"
    using kfree_live [OF assms] .
  have "kfree (Some p) h' = Some (Halt ''kfree of non-allocated pointer'' (h'\<lparr>hp_magic_failures := hp_magic_failures h' + 1\<rparr>))"
    by (simp add: kfree_def Let_def m HEAP_MAGIC_FREE_def HEAP_MAGIC_ALLOC_def)
  then show ?thesis
    using r ok l bt sp heap_okD(7) [OF ok] stomped by (intro exI [of _ h'] exI [of _ bs']) simp
qed

theorem kfree_ok_witness:
  "\<exists>h'. kfree (Some (HEAP_BASE + HDR)) heap1 = Some (Ret () h') \<and>
     (\<exists>m. kfree (Some (HEAP_BASE + HDR)) h' = Some (Halt ''kfree of non-allocated pointer'' m))"
  using kfree_ok [OF heap1_ok, of "HEAP_BASE + HDR" 8] by auto

text \<open>C14: \<open>krealloc\<close> always returns. On success the new block holds at least the new size, its
  bytes are the old block's as far as those go, every other allocation survives with its
  bytes, and the old block is released unless it was kept. On failure it returns NULL and the
  old allocation is still live and unchanged.\<close>

theorem krealloc_keeps_contents:
  assumes "heap_ok bs h" and "(p, s) \<in> live HEAP_BASE bs" and "0 < n" and "n \<le> 4294967292"
  shows "\<exists>h' bs'. heap_ok bs' h' \<and>
    ((\<exists>q t. krealloc (Some p) n h = Some (Ret (Some q) h') \<and> n \<le> t \<and>
        live HEAP_BASE bs' = insert (q, t) (live HEAP_BASE bs - {(p, s)}) \<and>
        (\<forall>i < s. hp_byte h' (q + i) = hp_byte h (p + i)) \<and>
        (\<forall>(r, u) \<in> live HEAP_BASE bs - {(p, s)}. \<forall>i < u. hp_byte h' (r + i) = hp_byte h (r + i))) \<or>
     (krealloc (Some p) n h = Some (Ret None h') \<and> live HEAP_BASE bs' = live HEAP_BASE bs \<and> hp_byte h' = hp_byte h))"
proof -
  note al = align4_ok [OF assms(4)]
  obtain xs ys where bs: "bs = xs @ (s, False) # ys" and p: "p = HEAP_BASE + span xs + HDR"
    using live_split [OF assms(2)] by blast
  have sz: "bm_size (hp_hdr h (p - HDR)) = s"
    using heap_okD(2) [OF assms(1)] by (simp add: bs p hseg_append)
  show ?thesis
  proof (cases "align4 n \<le> s")
    case True
    then have "krealloc (Some p) n h = Some (Ret (Some p) h)"
      using assms(3) by (simp add: krealloc_def Let_def sz)
    then show ?thesis
      using assms(1,2) True al
      by (intro exI [of _ h] exI [of _ bs] conjI disjI1 exI [of _ p] exI [of _ s]) (auto simp: insert_absorb)
  next
    case False
    have a0: "0 < align4 n" "align4 n \<le> 4294967292"
      using al assms(3) by simp_all
    from kmalloc_cases [OF assms(1) a0] show ?thesis
    proof (elim disjE exE conjE)
      fix q t b1 h1
      assume k: "kmalloc (align4 n) h = Some (Ret (Some q) h1)" and a: "allocated (align4 n) bs h q t b1 h1"
      note d = live_unallocated_free [OF a]
      have ok1: "heap_ok b1 h1" and t: "align4 n \<le> t" and l1: "live HEAP_BASE b1 = insert (q, t) (live HEAP_BASE bs)"
        and by1: "hp_byte h1 = hp_byte h" and qn: "(q, t) \<notin> live HEAP_BASE bs"
        using a by (simp_all add: allocated_def)
      have sz1: "bm_size (hp_hdr h1 (p - HDR)) = s"
      proof -
        obtain xs ys where "b1 = xs @ (s, False) # ys" "p = HEAP_BASE + span xs + HDR"
          using live_split [OF d(1) [OF assms(2)]] by blast
        then show ?thesis
          using heap_okD(2) [OF ok1] by (simp add: hseg_append)
      qed
      define h2 where "h2 = copy_bytes q p s h1"
      have ok2: "heap_ok b1 h2"
        using ok1 by (simp add: heap_ok_def h2_def copy_bytes_def)
      obtain h3 b3 where r: "kfree (Some p) h2 = Some (Ret () h3)" and ok3: "heap_ok b3 h3"
        and l3: "live HEAP_BASE b3 = live HEAP_BASE b1 - {(p, s)}" and by3: "hp_byte h3 = hp_byte h2"
        using kfree_live [OF ok2 d(1) [OF assms(2)]] .
      have res: "krealloc (Some p) n h = Some (Ret (Some q) h3)"
        using assms(3) False k r sz1 by (simp add: krealloc_def Let_def sz h2_def)
      have st: "s \<le> t"
        using False t by simp
      have new: "\<forall>i < s. hp_byte h3 (q + i) = hp_byte h (p + i)"
        by (simp add: by3 h2_def copy_bytes_def by1)
      have keep: "hp_byte h3 (r + i) = hp_byte h (r + i)" if "(r, u) \<in> live HEAP_BASE bs" "i < u" for r u i
        using d(2) [OF that(1)] that(2) st by (auto simp: by3 h2_def copy_bytes_def by1)
      have l: "live HEAP_BASE b3 = insert (q, t) (live HEAP_BASE bs - {(p, s)})"
        using l1 l3 d(3) [OF assms(2)] by auto
      have nt: "n \<le> t"
        using t al by simp
      have keep': "\<forall>(r, u) \<in> live HEAP_BASE bs - {(p, s)}. \<forall>i < u. hp_byte h3 (r + i) = hp_byte h (r + i)"
        using keep by blast
      show ?thesis
        by (intro exI [of _ h3] exI [of _ b3] conjI disjI1 exI [of _ q] exI [of _ t])
          (fact ok3 res nt l new keep')+
    next
      assume "kmalloc (align4 n) h = Some (Ret None (h\<lparr>hp_oom := hp_oom h + 1\<rparr>))"
      then have "krealloc (Some p) n h = Some (Ret None (h\<lparr>hp_oom := hp_oom h + 1\<rparr>))"
        using assms(3) False by (simp add: krealloc_def Let_def sz)
      moreover have "heap_ok bs (h\<lparr>hp_oom := hp_oom h + 1\<rparr>)"
        using assms(1) by (simp add: heap_ok_def)
      ultimately show ?thesis
        by (intro exI [of _ "h\<lparr>hp_oom := hp_oom h + 1\<rparr>"] exI [of _ bs]) simp
    qed
  qed
qed

theorem krealloc_keeps_contents_witness:
  "\<exists>h' r. krealloc (Some (HEAP_BASE + HDR)) 100 heap1 = Some (Ret r h')"
  using krealloc_keeps_contents [OF heap1_ok, of "HEAP_BASE + HDR" 8 100] by auto

text \<open>A request within three bytes of 4 GB wraps to zero when it is rounded up, after the
  test for zero: on a fresh heap \<open>kcalloc(1, n)\<close> then succeeds with an allocation of no
  bytes at all and clears the whole of the requested range, far outside the heap.\<close>

theorem kmalloc_size_wraps:
  assumes "heap_ok [] h" and "META_SIZE \<le> hp_max h" and "4294967292 < n" and "n < 4294967296"
  shows "\<exists>h'. kcalloc 1 n h = Some (Ret (Some (HEAP_BASE + HDR)) h') \<and>
    heap_ok [(0, False)] h' \<and> live HEAP_BASE [(0, False)] = {(HEAP_BASE + HDR, 0)} \<and>
    (\<forall>a. HEAP_BASE + HDR \<le> a \<and> a < HEAP_BASE + HDR + n \<longrightarrow> hp_byte h' a = 0)"
proof -
  note okD = heap_okD [OF assms(1)]
  have "n = 4294967293 \<or> n = 4294967294 \<or> n = 4294967295"
    using assms(3,4) by linarith
  then have a0: "align4 n = 0" and n0: "n \<noteq> 0"
    by (auto simp: align4_def w32_def)
  have fit: "span [] + 0 + META_SIZE \<le> hp_max h"
    using assms(2) by simp
  obtain h1 where r: "request_space None 0 h = Some (HEAP_BASE + span [], h1)"
    and seg: "hseg (stamp_canary (HEAP_BASE + span []) h1) HEAP_BASE ([] @ [(0, False)]) None"
    and f: "hp_used h1 = span [] + META_SIZE + 0" "hp_max h1 = hp_max h"
    using extend_ok [OF okD(2,3) fit okD(5), of None] by auto
  define g where "g = h1\<lparr>hp_base := Some HEAP_BASE\<rparr>"
  define h' where "h' = (stamp_canary HEAP_BASE g)\<lparr>hp_allocs := hp_allocs g + 1\<rparr>"
  have "kmalloc n h = Some (Ret (Some (HEAP_BASE + HDR)) h')"
    using okD(1) r n0 by (simp add: kmalloc_def a0 kmalloc_done_def g_def h'_def Let_def)
  then have "kcalloc 1 n h = Some (Ret (Some (HEAP_BASE + HDR)) (zero_bytes (HEAP_BASE + HDR) n h'))"
    using assms(4) by (simp add: kcalloc_def Let_def w32_def)
  moreover have "hseg (stamp_canary HEAP_BASE g) HEAP_BASE [(0, False)] None
      = hseg (stamp_canary HEAP_BASE h1) HEAP_BASE [(0, False)] None"
    by (rule hseg_cong) (simp_all add: g_def)
  then have "heap_ok [(0, False)] (zero_bytes (HEAP_BASE + HDR) n h')"
    using seg f assms(2) okD(5) by (simp add: heap_ok_def h'_def g_def zero_bytes_def)
  ultimately show ?thesis
    by (intro exI [of _ "zero_bytes (HEAP_BASE + HDR) n h'"]) (simp add: zero_bytes_def)
qed

theorem kmalloc_size_wraps_witness:
  "\<exists>h'. kcalloc 1 4294967295 heap0 = Some (Ret (Some (HEAP_BASE + HDR)) h') \<and> hp_byte h' 4294967295 = 0"
  using kmalloc_size_wraps [OF heap0_ok, of 4294967295]
  by (auto simp: heap0_def heap_consts HEAP_BASE_def)

end
