(* ===== verification/Frames_Pins.thy ===== *)
theory Frames_Pins
  imports Frames_Cache
begin

text \<open>
  What the frame allocator never changes: the geometry (RAM size, reservation, zero page) and
  the reference count of a pinned frame. Together with the ownership contract of
  \<open>Frames_Cache\<close> this lets a client keep its own account of references: \<open>acct s M\<close> says
  that the multiset \<open>M\<close> is exactly what the callers of the allocator hold.
\<close>

section \<open>Pinned frames stay pinned\<close>

definition pins_kept :: "frames \<Rightarrow> frames \<Rightarrow> bool" where
  "pins_kept s t \<longleftrightarrow> fr_total t = fr_total s \<and> fr_reserved t = fr_reserved s \<and> fr_zero t = fr_zero s
     \<and> (\<forall>g. FRAME_PINNED \<le> fr_refs s g \<longrightarrow> fr_refs t g = fr_refs s g)
     \<and> (\<forall>g. fr_refs s g < FRAME_PINNED \<longrightarrow> fr_refs t g < FRAME_PINNED)"

lemma pins_refl [simp]: "pins_kept s s"
  by (simp add: pins_kept_def)

lemma pins_trans [trans]: "pins_kept s t \<Longrightarrow> pins_kept t u \<Longrightarrow> pins_kept s u"
  by (simp add: pins_kept_def)

lemma pins_same: "same_frames t s \<Longrightarrow> pins_kept s t"
  by (simp add: pins_kept_def same_frames_def)

lemma remove_fields [simp]:
  "fr_refs (buddy_list_remove f k s) = fr_refs s" "fr_total (buddy_list_remove f k s) = fr_total s"
  "fr_reserved (buddy_list_remove f k s) = fr_reserved s" "fr_zero (buddy_list_remove f k s) = fr_zero s"
  by (simp_all add: buddy_list_remove_def Let_def split: option.splits)

lemma add_fields [simp]:
  "fr_refs (buddy_list_add f k s) = fr_refs s" "fr_total (buddy_list_add f k s) = fr_total s"
  "fr_reserved (buddy_list_add f k s) = fr_reserved s" "fr_zero (buddy_list_add f k s) = fr_zero s"
  by (simp_all add: buddy_list_add_def Let_def split: option.splits)

lemma coalesce_fields:
  "buddy_coalesce cur k s = (c, k', t) \<Longrightarrow>
     fr_refs t = fr_refs s \<and> fr_total t = fr_total s \<and> fr_reserved t = fr_reserved s \<and> fr_zero t = fr_zero s"
proof (induction cur k s arbitrary: c k' t rule: buddy_coalesce.induct)
  case (1 cur order s)
  let ?b = "buddy_address cur order"
  show ?case
  proof (cases "order < BUDDY_MAX_ORDER \<and> \<not> (?b < fr_reserved s \<or> ?b \<ge> fr_total s \<or> fr_order s ?b \<noteq> order
               \<or> \<not> is_aligned_to_order (if cur < ?b then cur else ?b) (order + 1))")
    case True
    then have lt: "order < BUDDY_MAX_ORDER" and go: "\<not> (?b < fr_reserved s \<or> ?b \<ge> fr_total s \<or> fr_order s ?b \<noteq> order
               \<or> \<not> is_aligned_to_order (if cur < ?b then cur else ?b) (order + 1))" by blast+
    have e: "buddy_coalesce cur order s
      = buddy_coalesce (if ?b < cur then ?b else cur) (order + 1) (buddy_list_remove ?b order s)"
      unfolding buddy_coalesce.simps [of cur order s] Let_def if_P [OF lt] if_not_P [OF go] by (rule refl)
    from "1.IH" [OF lt refl go "1.prems" [unfolded e]] show ?thesis by simp
  next
    case False
    then have "buddy_coalesce cur order s = (cur, order, s)"
      unfolding buddy_coalesce.simps [of cur order s] Let_def by (metis (full_types))
    then show ?thesis using "1.prems" by simp
  qed
qed

lemma free_locked_pins: "pins_kept s (buddy_free_locked p s)"
proof -
  obtain c k t where e: "buddy_coalesce (p div 4096) 0 (s\<lparr>fr_refs := (fr_refs s)(p div 4096 := 0),
      fr_used := (if fr_used s > 0 then fr_used s - 1 else fr_used s), fr_bitmap := (fr_bitmap s)(p div 4096 := False)\<rparr>) = (c, k, t)"
    by (cases "buddy_coalesce (p div 4096) 0 (s\<lparr>fr_refs := (fr_refs s)(p div 4096 := 0),
      fr_used := (if fr_used s > 0 then fr_used s - 1 else fr_used s), fr_bitmap := (fr_bitmap s)(p div 4096 := False)\<rparr>)")
  show ?thesis
    using coalesce_fields [OF e] unfolding buddy_free_locked_def Let_def e
    by (auto simp: pins_kept_def)
qed

lemma fold_free_pins: "pins_kept s (fold buddy_free_locked ps s)"
proof (induction ps arbitrary: s)
  case (Cons p ps)
  then show ?case using pins_trans [OF free_locked_pins Cons.IH] by simp
qed simp

lemma alloc_locked_pins:
  assumes ok: "frames_ok s M" and a: "buddy_alloc_locked s = (p, t)"
  shows "pins_kept s t"
proof -
  note D = frames_okD [OF ok]
  note A = alloc_locked [OF D(1) a D(2)]
  show ?thesis
  proof (cases "p = 0")
    case True
    then show ?thesis using A(2) by (auto simp: pins_kept_def same_frames_def)
  next
    case False
    from A(3) [OF False] obtain f where f: "f < fr_total s" "fr_reserved s \<le> f" "\<not> fr_bitmap s f"
      and sb: "same_frames t (s\<lparr>fr_built := True, fr_bitmap := (fr_bitmap s)(f := True),
                 fr_order := (fr_order s)(f := BUDDY_ALLOCATED), fr_refs := (fr_refs s)(f := 1), fr_used := fr_used s + 1\<rparr>)" by blast
    have "fr_refs s f = 0" using D(6) [OF f(1)] f by auto
    then show ?thesis using sb by (auto simp: pins_kept_def same_frames_def FRAME_PINNED_def)
  qed
qed

lemma fetch_pins: "frames_ok s M \<Longrightarrow> fetch_frames n s = (ps, t) \<Longrightarrow> pins_kept s t"
proof (induction n arbitrary: s M ps t)
  case (Suc n)
  obtain p s1 where a: "buddy_alloc_locked s = (p, s1)" by fastforce
  note P = alloc_locked_pins [OF Suc.prems(1) a]
  show ?case
  proof (cases "p = 0")
    case False
    obtain qs s2 where f: "fetch_frames n s1 = (qs, s2)" by fastforce
    from alloc_locked_ok(2) [OF Suc.prems(1) a False] have "frames_ok s1 (add_mset p M)" by blast
    from Suc.IH [OF this f] P show ?thesis using Suc.prems(2) a f False pins_trans by auto
  qed (use P Suc.prems(2) a in auto)
qed simp

lemma pins_upd [simp]:
  "pins_kept s (t\<lparr>fr_hits := h\<rparr>) = pins_kept s t" "pins_kept s (t\<lparr>fr_cache := cc\<rparr>) = pins_kept s t"
  "pins_kept s (t\<lparr>fr_order := ord\<rparr>) = pins_kept s t" "pins_kept s (t\<lparr>fr_refilled := h\<rparr>) = pins_kept s t"
  "pins_kept s (t\<lparr>fr_direct := h\<rparr>) = pins_kept s t" "pins_kept s (t\<lparr>fr_oom := x\<rparr>) = pins_kept s t"
  "pins_kept s (t\<lparr>fr_parked := h\<rparr>) = pins_kept s t" "pins_kept s (t\<lparr>fr_spilled := h\<rparr>) = pins_kept s t"
  "pins_kept s (t\<lparr>fr_overfree := x\<rparr>) = pins_kept s t"
  by (simp_all add: pins_kept_def)

lemma refill_pins:
  assumes "phys_ok s" and "cid < MAX_CORES"
  shows "pins_kept s (percpu_cache_refill cid s)"
proof -
  obtain batch s0 where f: "fetch_frames PERCPU_REFILL_BATCH s = (batch, s0)" by fastforce
  note P = fetch_pins [OF assms(1) f]
  let ?s1 = "s0\<lparr>fr_refilled := (fr_refilled s0)(cid := fr_refilled s0 cid + of_nat (length batch))\<rparr>"
  obtain c sur where st: "stock_cache (fr_cache ?s1 cid) [] batch = (c, sur)" by fastforce
  have "pins_kept s (fold buddy_free_locked sur (?s1\<lparr>fr_cache := (fr_cache ?s1)(cid := c)\<rparr>))"
    by (rule pins_trans [OF _ fold_free_pins]) (use P in simp)
  then show ?thesis using f st by (simp add: percpu_cache_refill_def percpu_fetch_batch_def)
qed

lemma cache_alloc_pins:
  assumes "phys_ok s" and "cid < MAX_CORES" and a: "percpu_cache_alloc cid s = (p, t)"
  shows "pins_kept s t"
proof -
  define u where "u = (if length (fr_cache s cid) < PERCPU_REFILL_THRESHOLD then percpu_cache_refill cid s else s)"
  have "pins_kept s u" using refill_pins [OF assms(1,2)] by (simp add: u_def)
  then show ?thesis using a unfolding percpu_cache_alloc_def Let_def u_def [symmetric] by (auto split: if_splits)
qed

lemma cache_free_pins: "pins_kept s (percpu_cache_free cid p s)"
  unfolding percpu_cache_free_def Let_def
  by (simp del: fold_append fold_simps) (intro impI pins_trans [OF _ fold_free_pins], simp)

lemma frame_alloc_pins:
  assumes ok: "phys_ok s" and cid: "cid < MAX_CORES" and a: "frame_alloc cid s = (p, t)"
  shows "pins_kept s t"
proof -
  obtain q s1 where c: "percpu_cache_alloc cid s = (q, s1)" by fastforce
  note P = cache_alloc_pins [OF ok cid c]
  show ?thesis
  proof (cases "q = 0")
    case True
    obtain r s2 where b: "buddy_alloc_locked s1 = (r, s2)" by fastforce
    have "phys_ok s1" using cache_alloc_ok(1) [OF ok cid c True] by blast
    from pins_trans [OF P alloc_locked_pins [OF this b]] show ?thesis
      using a c True b by (auto simp: frame_alloc_def split: if_splits)
  qed (use P a c in \<open>auto simp: frame_alloc_def\<close>)
qed

lemma frame_free_pins: "pins_kept s (frame_free cid p s)"
proof -
  have "pins_kept s (percpu_cache_free cid p (s\<lparr>fr_order := (fr_order s)(p div 4096 := BUDDY_CACHED)\<rparr>))"
    by (rule pins_trans [OF _ cache_free_pins]) simp
  then show ?thesis
    by (auto simp: frame_free_def Let_def pins_kept_def FRAME_PINNED_def not_le intro: less_imp_diff_less)
qed

section \<open>Freeing what is not owned\<close>

text \<open>Pinned frames, the reserved kernel region and addresses beyond RAM: \<open>frame_free\<close> is at
  most a count.\<close>

lemma frame_free_foreign:
  assumes "phys_ok s" and "f < fr_reserved s \<or> fr_total s \<le> f \<or> FRAME_PINNED \<le> fr_refs s f"
  shows "phys_ok (frame_free cid (f * 4096) s) \<and> owned (frame_free cid (f * 4096) s) = owned s
     \<and> fr_refs (frame_free cid (f * 4096) s) = fr_refs s"
  using assms by (auto simp: frame_free_def Let_def FRAME_PINNED_def)

section \<open>The clients' account\<close>

definition own_count :: "nat \<Rightarrow> nat option" where
  "own_count n = (if n = 0 then None else Some n)"

lemma own_count_simps [simp]: "own_count 0 = None" "own_count (Suc n) = Some (Suc n)" "0 < n \<Longrightarrow> own_count n = Some n"
  by (simp_all add: own_count_def)

lemma own_count_iff [simp]: "own_count n = None \<longleftrightarrow> n = 0" "None = own_count n \<longleftrightarrow> n = 0" "own_count n = Some m \<longleftrightarrow> n = m \<and> 0 < n"
  by (auto simp: own_count_def)

definition acct :: "frames \<Rightarrow> nat multiset \<Rightarrow> bool" where
  "acct s M \<longleftrightarrow> phys_ok s \<and> (\<forall>f. fr_reserved s \<le> f \<longrightarrow> f < fr_total s \<longrightarrow> fr_refs s f < FRAME_PINNED \<longrightarrow>
     owned s f = own_count (count M f))"

lemma acct_ok: "acct s M \<Longrightarrow> phys_ok s"
  by (simp add: acct_def)

lemma acctD:
  "acct s M \<Longrightarrow> fr_reserved s \<le> f \<Longrightarrow> f < fr_total s \<Longrightarrow> fr_refs s f < FRAME_PINNED \<Longrightarrow>
     owned s f = own_count (count M f)"
  by (simp add: acct_def)

lemma owned_range: "owned s f = Some r \<Longrightarrow> fr_reserved s \<le> f \<and> f < fr_total s \<and> r = fr_refs s f \<and> r < FRAME_PINNED"
  by (auto simp: held_def live_def split: if_splits)

lemma acct_refs:
  assumes "acct s M" and "fr_reserved s \<le> f" and "f < fr_total s" and "fr_refs s f < FRAME_PINNED" and "f \<in># M"
  shows "fr_refs s f = count M f"
  using acctD [OF assms(1-4)] assms(5) owned_range [of s f] by (auto simp: not_in_iff)

lemma acct_alloc:
  assumes A: "acct s M" and cid: "cid < MAX_CORES" and a: "frame_alloc cid s = (p, t)"
  shows "if p = 0 then acct t M
     else \<exists>f. p = f * 4096 \<and> 0 < f \<and> fr_reserved s \<le> f \<and> f < fr_total s \<and> f \<notin># M \<and> fr_refs t f = 1 \<and> acct t (add_mset f M)"
proof -
  note C = frame_alloc_contract [OF acct_ok [OF A] cid a]
  note P = frame_alloc_pins [OF acct_ok [OF A] cid a, unfolded pins_kept_def]
  have up: "fr_refs s g < FRAME_PINNED" if "fr_refs t g < FRAME_PINNED" for g using that P by (metis not_le)
  show ?thesis
  proof (cases "p = 0")
    case True
    then show ?thesis using C P A up by (auto simp: acct_def)
  next
    case False
    with C obtain f where f: "p = f * 4096" "owned s f = None" "owned t = (owned s)(f \<mapsto> 1)" and ok: "phys_ok t" by auto
    have r: "fr_reserved t \<le> f" "f < fr_total t" "fr_refs t f = 1" using owned_range [of t f 1] f(3) by simp_all
    have u: "fr_refs s f < FRAME_PINNED" by (rule up) (simp add: r FRAME_PINNED_def)
    have n: "count M f = 0" using acctD [OF A _ _ u] r P f(2) by auto
    have "acct t (add_mset f M)"
      unfolding acct_def
    proof (intro conjI allI impI)
      fix g
      assume g: "fr_reserved t \<le> g" "g < fr_total t" "fr_refs t g < FRAME_PINNED"
      show "owned t g = own_count (count (add_mset f M) g)"
        using acctD [OF A _ _ up [OF g(3)]] g P n f(3) by (cases "g = f") auto
    qed (rule ok)
    moreover have "0 < f" using False f(1) by simp
    ultimately show ?thesis using False f(1) r P n by (auto simp: not_in_iff)
  qed
qed

lemma acct_free:
  assumes A: "acct s (add_mset f M)" and cid: "cid < MAX_CORES"
  shows "acct (frame_free cid (f * 4096) s) M"
proof -
  let ?t = "frame_free cid (f * 4096) s"
  note P = frame_free_pins [of s cid "f * 4096", unfolded pins_kept_def]
  have up: "fr_refs s g < FRAME_PINNED" if "fr_refs ?t g < FRAME_PINNED" for g using that P by (metis not_le)
  show ?thesis
  proof (cases "f < fr_reserved s \<or> fr_total s \<le> f \<or> FRAME_PINNED \<le> fr_refs s f")
    case True
    note F = frame_free_foreign [OF acct_ok [OF A] True, of cid]
    show ?thesis unfolding acct_def
    proof (intro conjI allI impI)
      fix g
      assume g: "fr_reserved ?t \<le> g" "g < fr_total ?t" "fr_refs ?t g < FRAME_PINNED"
      have "g \<noteq> f" using g True P up [OF g(3)] by auto
      then show "owned ?t g = own_count (count M g)"
        using acctD [OF A _ _ up [OF g(3)]] g P F by auto
    qed (use F in blast)
  next
    case False
    then have "owned s f = Some (Suc (count M f))" using acctD [OF A, of f] by auto
    from frame_free_contract [OF acct_ok [OF A] cid this]
    have F: "phys_ok ?t" "owned ?t = (owned s)(f := own_count (count M f))"
      by (cases "count M f"; simp)+
    show ?thesis unfolding acct_def
    proof (intro conjI allI impI)
      fix g
      assume g: "fr_reserved ?t \<le> g" "g < fr_total ?t" "fr_refs ?t g < FRAME_PINNED"
      show "owned ?t g = own_count (count M g)"
        using acctD [OF A _ _ up [OF g(3)]] g P F(2) by (cases "g = f") auto
    qed (rule F(1))
  qed
qed

end
