(* ===== verification/Vmm.thy ===== *)
theory Vmm
  imports Frames_Pins
begin

text \<open>
  Virtual memory: the PAE page tables of \<open>src/sys/vmm.c\<close> (address spaces, mapping, copy on
  write clone) and the boot tables of \<open>src/sys/mem.c\<close> they are copied from.

  Physical memory is a map from a frame number to its 512 64-bit words; the kernel identity
  map makes every table pointer the physical address of its frame, so a table is denoted by
  its frame number, 0 being the null pointer (and, as in the code, also physical frame 0).
  A page directory, the code's \<open>page_dir\<close>, is the number of its PDPT frame; 0 is the shared
  identity space. The static tables (\<open>boot_pdpt\<close>, \<open>boot_pds\<close>, \<open>page_tables\<close>,
  \<open>fb_page_tables\<close>, \<open>mmio_page_tables\<close>) are page aligned arrays of the kernel image: the
  fields \<open>vm_pdpt\<close> ... \<open>vm_mmio\<close> hold the frames the linker put them in. The critical
  sections under \<open>vmm_lock\<close> are single steps; \<open>invlpg\<close> and serial output are left out.
\<close>

section \<open>Entries\<close>

definition PT_ENTRIES :: nat where
  "PT_ENTRIES = 512"

definition PDPT_ENTRIES :: nat where
  "PDPT_ENTRIES = 4"

definition PTE_ADDR_MASK :: u64 where
  "PTE_ADDR_MASK = 0x000FFFFFFFFFF000"

definition PAGE_NX :: u64 where
  "PAGE_NX = 0x8000000000000000"

definition PAGE_PRESENT :: u64 where
  "PAGE_PRESENT = 0x1"

definition PAGE_RW :: u64 where
  "PAGE_RW = 0x2"

definition PAGE_USER :: u64 where
  "PAGE_USER = 0x4"

definition PAGE_COW :: u64 where
  "PAGE_COW = 0x200"

definition PAGE_SHARED :: u64 where
  "PAGE_SHARED = 0x400"

definition PAGE_DEV :: u64 where
  "PAGE_DEV = 0x800"

definition pdpt_index :: "u32 \<Rightarrow> nat" where
  "pdpt_index va = unat (drop_bit 30 va)"

definition pd_index :: "u32 \<Rightarrow> nat" where
  "pd_index va = unat (drop_bit 21 va AND 0x1FF)"

definition pt_index :: "u32 \<Rightarrow> nat" where
  "pt_index va = unat (drop_bit 12 va AND 0x1FF)"

text \<open>A test \<open>e & flag\<close>, and the address an entry holds, read as the code's \<open>uint32_t\<close>.\<close>

definition has :: "u64 \<Rightarrow> u64 \<Rightarrow> bool" where
  "has e flag \<longleftrightarrow> e AND flag \<noteq> 0"

definition entry_paddr :: "u64 \<Rightarrow> nat" where
  "entry_paddr e = unat (ucast (e AND PTE_ADDR_MASK) :: u32)"

definition entry_frame :: "u64 \<Rightarrow> nat" where
  "entry_frame e = entry_paddr e div 4096"

abbreviation present :: "u64 \<Rightarrow> bool" where
  "present e \<equiv> has e PAGE_PRESENT"

section \<open>Machine state\<close>

record vmm =
  vm_fr :: frames
  vm_mem :: "nat \<Rightarrow> nat \<Rightarrow> u64"
  vm_pdpt :: nat
  vm_pds :: "nat \<Rightarrow> nat"
  vm_pts :: "nat \<Rightarrow> nat"
  vm_fbt :: "nat \<Rightarrow> nat"
  vm_mmio :: "nat \<Rightarrow> nat"
  vm_ident :: nat
  vm_nx :: bool

abbreviation rd :: "vmm \<Rightarrow> nat \<Rightarrow> nat \<Rightarrow> u64" where
  "rd v f i \<equiv> vm_mem v f i"

definition set_entry :: "nat \<Rightarrow> nat \<Rightarrow> u64 \<Rightarrow> vmm \<Rightarrow> vmm" where
  "set_entry f i e v = v\<lparr>vm_mem := (vm_mem v)(f := (vm_mem v f)(i := e))\<rparr>"

definition set_frame :: "nat \<Rightarrow> (nat \<Rightarrow> u64) \<Rightarrow> vmm \<Rightarrow> vmm" where
  "set_frame f w v = v\<lparr>vm_mem := (vm_mem v)(f := w)\<rparr>"

abbreviation boot_pdpte :: "vmm \<Rightarrow> nat \<Rightarrow> u64" where
  "boot_pdpte v pi \<equiv> rd v (vm_pdpt v) pi"

abbreviation boot_pde :: "vmm \<Rightarrow> nat \<Rightarrow> nat \<Rightarrow> u64" where
  "boot_pde v pi j \<equiv> rd v (vm_pds v pi) j"

definition phys_alloc :: "nat \<Rightarrow> vmm \<Rightarrow> nat \<times> vmm" where
  "phys_alloc cid v = (let (p, fr) = frame_alloc cid (vm_fr v) in (p, v\<lparr>vm_fr := fr\<rparr>))"

definition phys_free :: "nat \<Rightarrow> nat \<Rightarrow> vmm \<Rightarrow> vmm" where
  "phys_free cid p v = v\<lparr>vm_fr := frame_free cid p (vm_fr v)\<rparr>"

text \<open>\<open>if (frame_ref_count[p / 4096] < 255) frame_ref_count[p / 4096]++;\<close>\<close>

definition bump_ref :: "nat \<Rightarrow> frames \<Rightarrow> frames" where
  "bump_ref p s =
     (if fr_refs s (p div 4096) < 255 then s\<lparr>fr_refs := (fr_refs s)(p div 4096 := fr_refs s (p div 4096) + 1)\<rparr> else s)"

definition zero_phys_page :: "nat \<Rightarrow> vmm \<Rightarrow> vmm" where
  "zero_phys_page p v = (if p < fr_total (vm_fr v) * 4096 then set_frame (p div 4096) (\<lambda>_. 0) v else v)"

section \<open>Boot tables\<close>

definition MMIO_WINDOW_BASE :: u32 where
  "MMIO_WINDOW_BASE = 0xFE000000"

definition MMIO_WINDOW_PT :: nat where
  "MMIO_WINDOW_PT = 8"

text \<open>A page mapped at its own physical address in the boot tables.\<close>

definition page_map :: "u32 \<Rightarrow> u32 \<Rightarrow> u64 \<Rightarrow> vmm \<Rightarrow> vmm" where
  "page_map va pa flags v =
     (let di = pd_index va; ti = pt_index va; e = (ucast pa AND 0xFFFFF000) OR flags
      in if pdpt_index va = 0 \<and> di < vm_ident v then
           (let v1 = set_entry (vm_pts v di) ti e v;
                pde = PAGE_PRESENT OR PAGE_RW OR (if has flags PAGE_USER then PAGE_USER else 0)
            in set_entry (vm_pds v1 0) di (of_nat (vm_pts v1 di * 4096) OR pde) v1)
         else if MMIO_WINDOW_BASE \<le> va \<and> va < MMIO_WINDOW_BASE + of_nat (MMIO_WINDOW_PT * 0x200000) then
           set_entry (vm_mmio v (unat (drop_bit 21 (va - MMIO_WINDOW_BASE)))) ti e v
         else v)"

text \<open>One identity table: \<open>page_tables[t]\<close> and its directory entry.\<close>

definition ident_table :: "nat \<Rightarrow> vmm \<Rightarrow> vmm" where
  "ident_table t v =
     (let v1 = set_frame (vm_pts v t) (\<lambda>j. if j < PT_ENTRIES
                  then of_nat ((t * PT_ENTRIES + j) * 4096) OR PAGE_PRESENT OR PAGE_RW else rd v (vm_pts v t) j) v
      in set_entry (vm_pds v1 0) t (of_nat (vm_pts v1 t * 4096) OR PAGE_PRESENT OR PAGE_RW) v1)"

definition fb_table :: "u32 \<Rightarrow> nat \<Rightarrow> vmm \<Rightarrow> vmm" where
  "fb_table fb i v =
     (let v1 = set_frame (vm_fbt v i) (\<lambda>j. if j < PT_ENTRIES
                  then (ucast fb + of_nat (i * 0x200000) + of_nat (j * 0x1000)) OR PAGE_PRESENT OR PAGE_RW OR PAGE_DEV
                  else rd v (vm_fbt v i) j) v
      in set_entry (vm_pds v1 (pdpt_index fb)) (pd_index fb + i) (of_nat (vm_fbt v1 i * 4096) OR PAGE_PRESENT OR PAGE_RW) v1)"

definition mmio_table :: "nat \<Rightarrow> vmm \<Rightarrow> vmm" where
  "mmio_table i v =
     (let v1 = set_frame (vm_mmio v i) (\<lambda>j. if j < PT_ENTRIES
                  then (ucast MMIO_WINDOW_BASE + of_nat (i * 0x200000) + of_nat (j * 0x1000)) OR PAGE_PRESENT OR PAGE_RW OR 0x18
                  else rd v (vm_mmio v i) j) v
      in set_entry (vm_pds v1 3) (pd_index MMIO_WINDOW_BASE + i) (of_nat (vm_mmio v1 i * 4096) OR PAGE_PRESENT OR PAGE_RW) v1)"

definition link_boot_pd :: "nat \<Rightarrow> vmm \<Rightarrow> vmm" where
  "link_boot_pd pi v =
     (if present (boot_pdpte v pi) then v
      else set_entry (vm_pdpt v) pi (of_nat (vm_pds v pi * 4096) OR PAGE_PRESENT) v)"

text \<open>\<open>paging_init\<close>: \<open>total_pages\<close> as detected, the framebuffer at \<open>fb\<close>; the CR writes that
  turn paging on are left out, \<open>nx\<close> is what the CPU offers.\<close>

definition paging_init :: "nat \<Rightarrow> u32 \<Rightarrow> u32 \<Rightarrow> bool \<Rightarrow> vmm \<Rightarrow> vmm" where
  "paging_init total_pages fb fb_size nx v =
     (let v0 = fold (\<lambda>i. set_frame (vm_pds v i) (\<lambda>_. 0)) [0..<PDPT_ENTRIES] (set_frame (vm_pdpt v) (\<lambda>_. 0) v);
          n = (total_pages + (PT_ENTRIES - 1)) div PT_ENTRIES;
          n1 = (if n = 0 then 4 else n);
          num = (if n1 > 256 then 256 else n1);
          v1 = fold ident_table [0..<num] (v0\<lparr>vm_ident := num\<rparr>);
          v2 = set_entry (vm_pdpt v1) 0 (of_nat (vm_pds v1 0 * 4096) OR PAGE_PRESENT) v1;
          v3 = (if unat fb \<ge> num * 2 * 1024 * 1024 then link_boot_pd (pdpt_index fb) (fold (fb_table fb) [0..<2] v2) else v2);
          v4 = v3\<lparr>vm_fr := phys_reserve_region fb fb_size (vm_fr v3)\<rparr>;
          v5 = link_boot_pd 3 (fold mmio_table [0..<MMIO_WINDOW_PT] v4)
      in v5\<lparr>vm_nx := nx\<rparr>)"

section \<open>Walks\<close>

definition space_pd :: "nat \<Rightarrow> nat \<Rightarrow> u32 \<Rightarrow> bool \<Rightarrow> vmm \<Rightarrow> nat \<times> vmm" where
  "space_pd cid pdpt va create v =
     (let pi = pdpt_index va
      in if \<not> present (rd v pdpt pi) then
           if \<not> create then (0, v)
           else (let (p, v1) = phys_alloc cid v
                 in if p = 0 then (0, v1)
                    else (let v2 = set_entry pdpt pi (of_nat p OR PAGE_PRESENT) (zero_phys_page p v1)
                          in (entry_frame (rd v2 pdpt pi), v2)))
         else (entry_frame (rd v pdpt pi), v))"

definition widen :: "nat \<Rightarrow> nat \<Rightarrow> bool \<Rightarrow> vmm \<Rightarrow> vmm" where
  "widen pd di user v = (if user then set_entry pd di (rd v pd di OR PAGE_USER) v else v)"

definition space_pt :: "nat \<Rightarrow> nat \<Rightarrow> u32 \<Rightarrow> bool \<Rightarrow> bool \<Rightarrow> vmm \<Rightarrow> nat \<times> vmm" where
  "space_pt cid pdpt va create user v =
     (let (pd, v1) = space_pd cid pdpt va create v
      in if pd = 0 then (0, v1)
         else (let di = pd_index va
               in if \<not> present (rd v1 pd di) then
                    if \<not> create then (0, v1)
                    else (let (p, v2) = phys_alloc cid v1
                          in if p = 0 then (0, v2)
                             else (let v3 = set_entry pd di (of_nat p OR PAGE_PRESENT OR PAGE_RW) (zero_phys_page p v2);
                                       v4 = widen pd di user v3
                                   in (entry_frame (rd v4 pd di), v4)))
                  else (let v4 = widen pd di user v1 in (entry_frame (rd v4 pd di), v4))))"

section \<open>Mapping and unmapping\<close>

definition pte_of_flags :: "u32 \<Rightarrow> u64 \<Rightarrow> u64" where
  "pte_of_flags pa flags = (ucast pa AND PTE_ADDR_MASK) OR (flags AND NOT PTE_ADDR_MASK AND NOT PAGE_PRESENT) OR PAGE_PRESENT"

text \<open>The result is 0 or -1.\<close>

definition vmm_map_page :: "nat \<Rightarrow> nat \<Rightarrow> u32 \<Rightarrow> u32 \<Rightarrow> u64 \<Rightarrow> vmm \<Rightarrow> int \<times> vmm" where
  "vmm_map_page cid d va pa flags v =
     (if d = 0 then (0, page_map va pa (flags AND 0xFFF) v)
      else (let (pt, v1) = space_pt cid d va True (has flags PAGE_USER) v
            in if pt = 0 then (-1, v1)
               else (0, set_entry pt (pt_index va) (pte_of_flags pa flags) v1)))"

definition vmm_unmap_page :: "nat \<Rightarrow> nat \<Rightarrow> nat \<Rightarrow> u32 \<Rightarrow> vmm \<Rightarrow> int \<times> vmm" where
  "vmm_unmap_page cid cr3 d va v =
     (if d = 0 then
        (let (pd, v1) = space_pd cid cr3 va False v
         in if pd \<noteq> 0 \<and> present (rd v1 pd (pd_index va)) \<and> pdpt_index va = 0 \<and> pd_index va < vm_ident v1
            then (0, set_entry (entry_frame (rd v1 pd (pd_index va))) (pt_index va) 0 v1)
            else (0, v1))
      else (let (pt, v1) = space_pt cid d va False False v
            in if pt = 0 \<or> \<not> present (rd v1 pt (pt_index va)) then (-1, v1)
               else (0, set_entry pt (pt_index va) 0 v1)))"

definition vmm_unmap_page_free :: "nat \<Rightarrow> nat \<Rightarrow> u32 \<Rightarrow> vmm \<Rightarrow> nat \<times> vmm" where
  "vmm_unmap_page_free cid d va v =
     (if d = 0 then (0, v)
      else (let (pt, v1) = space_pt cid d va False False v
            in if pt = 0 then (0, v1)
               else (let e = rd v1 pt (pt_index va)
                     in if \<not> present e then (0, v1)
                        else (entry_paddr e, set_entry pt (pt_index va) 0 v1))))"

definition vmm_alloc_page_at :: "nat \<Rightarrow> nat \<Rightarrow> u32 \<Rightarrow> u64 \<Rightarrow> vmm \<Rightarrow> u32 \<times> vmm" where
  "vmm_alloc_page_at cid d va flags v =
     (let (p, v1) = phys_alloc cid v
      in if p = 0 then (0, v1)
         else (let (r, v2) = vmm_map_page cid d va (of_nat p) flags v1
               in if r \<noteq> 0 then (0, phys_free cid p v2) else (va, v2)))"

definition vmm_setup_user_stack :: "nat \<Rightarrow> u32 \<Rightarrow> u32" where
  "vmm_setup_user_stack d stack_top = (if d = 0 then 0 else stack_top)"

section \<open>Releasing an address space\<close>

text \<open>The flags and address that tell a user's entry in a cloned kernel table from the boot
  table's.\<close>

definition PTE_CMP_MASK :: u64 where
  "PTE_CMP_MASK = 0x000FFFFFFFFFF007"

text \<open>Does \<open>vmm_free_address_space\<close> release the frame of entry \<open>e\<close> of table \<open>(pi, j)\<close>?\<close>

definition freeable :: "vmm \<Rightarrow> nat \<Rightarrow> nat \<Rightarrow> nat \<Rightarrow> u64 \<Rightarrow> bool" where
  "freeable v pi j e pte \<longleftrightarrow>
     present pte \<and> \<not> has pte PAGE_DEV
     \<and> (present (boot_pde v pi j)
          \<longrightarrow> pte AND PTE_CMP_MASK \<noteq> rd v (entry_frame (boot_pde v pi j)) e AND PTE_CMP_MASK)
     \<and> fr_reserved (vm_fr v) * 4096 \<le> entry_paddr pte"

definition free_leaves :: "nat \<Rightarrow> nat \<Rightarrow> nat \<Rightarrow> nat \<Rightarrow> vmm \<Rightarrow> vmm" where
  "free_leaves cid pi j pt =
     fold (\<lambda>e v. if freeable v pi j e (rd v pt e) then phys_free cid (entry_paddr (rd v pt e)) v else v) [0..<PT_ENTRIES]"

definition free_tables :: "nat \<Rightarrow> nat \<Rightarrow> nat \<Rightarrow> vmm \<Rightarrow> vmm" where
  "free_tables cid pi pd =
     fold (\<lambda>j v. if present (rd v pd j)
                 then phys_free cid (entry_paddr (rd v pd j)) (free_leaves cid pi j (entry_frame (rd v pd j)) v)
                 else v) [0..<PT_ENTRIES]"

definition vmm_free_address_space :: "nat \<Rightarrow> nat \<Rightarrow> vmm \<Rightarrow> vmm" where
  "vmm_free_address_space cid d v =
     (if d = 0 then v
      else phys_free cid (d * 4096)
        (fold (\<lambda>pi v. if present (rd v d pi)
                      then phys_free cid (entry_paddr (rd v d pi)) (free_tables cid pi (entry_frame (rd v d pi)) v)
                      else v) [0..<PDPT_ENTRIES] v))"

section \<open>Creating an address space\<close>

text \<open>Private copies of the boot page tables of slot \<open>pi\<close>, linked into the directory \<open>pd\<close>.
  False: out of frames.\<close>

fun create_pts :: "nat \<Rightarrow> nat \<Rightarrow> nat \<Rightarrow> nat list \<Rightarrow> vmm \<Rightarrow> bool \<times> vmm" where
  "create_pts cid pi pd [] v = (True, v)"
| "create_pts cid pi pd (j # js) v =
     (if \<not> present (boot_pde v pi j) then create_pts cid pi pd js v
      else (let (p, v1) = phys_alloc cid v
            in if p = 0 then (False, v1)
               else (let v2 = set_frame (p div 4096) (rd v1 (entry_frame (boot_pde v1 pi j))) v1;
                         v3 = set_entry pd j (of_nat p OR (boot_pde v2 pi j AND 0xFFF)) v2
                     in create_pts cid pi pd js v3)))"

fun create_pds :: "nat \<Rightarrow> nat \<Rightarrow> nat list \<Rightarrow> vmm \<Rightarrow> bool \<times> vmm" where
  "create_pds cid d [] v = (True, v)"
| "create_pds cid d (pi # pis) v =
     (if \<not> present (boot_pdpte v pi) then create_pds cid d pis v
      else (let (p, v1) = phys_alloc cid v
            in if p = 0 then (False, v1)
               else (let (ok, v2) = create_pts cid pi (p div 4096) [0..<PT_ENTRIES] (zero_phys_page p v1)
                     in if \<not> ok then (False, v2)
                        else create_pds cid d pis (set_entry d pi (of_nat p OR (boot_pdpte v2 pi AND 0xFFF)) v2))))"

definition TRAMPOLINE_VA :: u32 where
  "TRAMPOLINE_VA = 0x08F7F000"

text \<open>The eight code bytes (\<open>mov eax, 75; int $0x80; ret\<close>), little endian, are the page's first
  word; the other 511 words stay what the frame held before.\<close>

definition TRAMPOLINE_CODE :: u64 where
  "TRAMPOLINE_CODE = 0xC380CD0000004BB8"

definition map_trampoline :: "nat \<Rightarrow> nat \<Rightarrow> vmm \<Rightarrow> vmm" where
  "map_trampoline cid d v =
     (let (tp, v1) = phys_alloc cid v
      in if tp = 0 then v1
         else snd (vmm_map_page cid d TRAMPOLINE_VA (of_nat tp) (PAGE_PRESENT OR PAGE_USER)
                    (set_entry (tp div 4096) 0 TRAMPOLINE_CODE v1)))"

text \<open>The result is the new directory's frame, 0 when there is no memory.\<close>

definition vmm_create_address_space :: "nat \<Rightarrow> vmm \<Rightarrow> nat \<times> vmm" where
  "vmm_create_address_space cid v =
     (let (p, v1) = phys_alloc cid v
      in if p = 0 then (0, v1)
         else (let d = p div 4096;
                   (ok, v2) = create_pds cid d [0..<PDPT_ENTRIES] (zero_phys_page p v1)
               in if \<not> ok then (0, vmm_free_address_space cid d v2)
                  else (d, map_trampoline cid d v2)))"

section \<open>Copy on write clone\<close>

text \<open>What a shared writable page becomes in both spaces.\<close>

definition cow_pte :: "u64 \<Rightarrow> u64" where
  "cow_pte e = (e AND NOT PAGE_RW) OR PAGE_COW"

definition share_page :: "nat \<Rightarrow> vmm \<Rightarrow> vmm" where
  "share_page p v = (if fr_reserved (vm_fr v) * 4096 \<le> p then v\<lparr>vm_fr := bump_ref p (vm_fr v)\<rparr> else v)"

text \<open>One entry of a kernel region table: only the user's pages are shared.\<close>

definition clone_kernel_pte :: "nat \<Rightarrow> nat \<Rightarrow> nat \<Rightarrow> vmm \<Rightarrow> vmm" where
  "clone_kernel_pte src dst e v =
     (let spe = rd v src e
      in if \<not> present spe \<or> \<not> has spe PAGE_USER then v
         else if has spe PAGE_DEV then v
         else (let v1 = (if has spe PAGE_RW \<and> \<not> has spe PAGE_SHARED then set_entry src e (cow_pte spe) v else v);
                   spe1 = rd v1 src e
               in share_page (entry_paddr spe1) (set_entry dst e spe1 v1)))"

definition clone_user_pte :: "nat \<Rightarrow> nat \<Rightarrow> nat \<Rightarrow> vmm \<Rightarrow> vmm" where
  "clone_user_pte src dst e v =
     (let spe = rd v src e
      in if \<not> present spe then v
         else if has spe PAGE_DEV then v
         else (let v1 = (if has spe PAGE_USER \<and> has spe PAGE_RW \<and> \<not> has spe PAGE_SHARED
                         then set_entry src e (cow_pte spe) v else v);
                   spe1 = rd v1 src e
               in share_page (entry_paddr spe1) (set_entry dst e spe1 v1)))"

text \<open>The tables of one directory.\<close>

fun clone_pts :: "nat \<Rightarrow> nat \<Rightarrow> nat \<Rightarrow> nat \<Rightarrow> nat list \<Rightarrow> vmm \<Rightarrow> bool \<times> vmm" where
  "clone_pts cid pi spd dpd [] v = (True, v)"
| "clone_pts cid pi spd dpd (j # js) v =
     (if \<not> present (rd v spd j) then clone_pts cid pi spd dpd js v
      else if present (boot_pde v pi j) then
        (let spt = entry_frame (rd v spd j);
             dpt = entry_frame (rd v dpd j);
             v1 = fold (clone_kernel_pte spt dpt) [0..<PT_ENTRIES] v;
             v2 = set_entry dpd j (rd v1 dpd j OR (rd v1 spd j AND PAGE_USER)) v1
         in clone_pts cid pi spd dpd js v2)
      else
        (let (p, v1) = phys_alloc cid v
         in if p = 0 then (False, v1)
            else (let v2 = zero_phys_page p v1;
                      spt = entry_frame (rd v2 spd j);
                      v3 = fold (clone_user_pte spt (p div 4096)) [0..<PT_ENTRIES] v2;
                      v4 = set_entry dpd j (of_nat p OR (rd v3 spd j AND 0xFFF)) v3
                  in clone_pts cid pi spd dpd js v4)))"

fun clone_pds :: "nat \<Rightarrow> nat \<Rightarrow> nat \<Rightarrow> nat list \<Rightarrow> vmm \<Rightarrow> bool \<times> vmm" where
  "clone_pds cid src dst [] v = (True, v)"
| "clone_pds cid src dst (pi # pis) v =
     (if \<not> present (rd v src pi) then clone_pds cid src dst pis v
      else (let (ok, v1) = clone_pts cid pi (entry_frame (rd v src pi)) (entry_frame (rd v dst pi)) [0..<PT_ENTRIES] v
            in if \<not> ok then (False, v1) else clone_pds cid src dst pis v1))"

definition vmm_clone_address_space :: "nat \<Rightarrow> nat \<Rightarrow> vmm \<Rightarrow> nat \<times> vmm" where
  "vmm_clone_address_space cid src v =
     (if src = 0 then vmm_create_address_space cid v
      else (let (dst, v1) = vmm_create_address_space cid v
            in if dst = 0 then (0, v1)
               else (let (ok, v2) = clone_pds cid src dst [0..<PDPT_ENTRIES] v1
                     in if \<not> ok then (0, vmm_free_address_space cid dst v2) else (dst, v2))))"

end
