(* ===== verification/Vmm_Refs.thy ===== *)
theory Vmm_Refs
  imports Vmm
begin

text \<open>
  Page table entries bit by bit: which flag is which bit, that the address field and the flags
  do not touch each other, and that an entry made from a frame number gives it back.
\<close>

named_theorems pte_simps \<open>flags and addresses of page table entries\<close>

section \<open>Flags are bits\<close>

lemma has_bit: "has e (push_bit n 1) \<longleftrightarrow> bit e n" if "n < 64" for e :: u64
proof -
  have "e AND push_bit n 1 = (if bit e n then push_bit n 1 else 0)"
    using that by (auto intro!: bit_eqI simp: bit_simps)
  moreover have "push_bit n 1 \<noteq> (0 :: u64)" using that by (simp add: push_bit_eq_mult)
  ultimately show ?thesis by (simp add: has_def)
qed

lemma flag_bits:
  "PAGE_PRESENT = push_bit 0 1" "PAGE_RW = push_bit 1 1" "PAGE_USER = push_bit 2 1" "PAGE_COW = push_bit 9 1"
  "PAGE_SHARED = push_bit 10 1" "PAGE_DEV = push_bit 11 1" "PAGE_NX = push_bit 63 1"
  by (simp_all add: PAGE_PRESENT_def PAGE_RW_def PAGE_USER_def PAGE_COW_def PAGE_SHARED_def PAGE_DEV_def PAGE_NX_def)

lemma mask_bits: "PTE_ADDR_MASK = push_bit 12 (mask 40)"
  by (simp add: PTE_ADDR_MASK_def mask_eq_exp_minus_1)

lemma bit_flags [pte_simps]:
  "has e PAGE_PRESENT \<longleftrightarrow> bit e 0" "has e PAGE_RW \<longleftrightarrow> bit e 1" "has e PAGE_USER \<longleftrightarrow> bit e 2" "has e PAGE_COW \<longleftrightarrow> bit e 9"
  "has e PAGE_SHARED \<longleftrightarrow> bit e 10" "has e PAGE_DEV \<longleftrightarrow> bit e 11" "has e PAGE_NX \<longleftrightarrow> bit e 63"
  unfolding flag_bits by (rule has_bit, simp)+

lemma bit_push_1: "n < 64 \<Longrightarrow> bit (push_bit n 1 :: u64) m \<longleftrightarrow> m = n"
  by (auto simp: bit_exp_iff)

lemma flag_bit_iff [pte_simps]:
  "bit PAGE_PRESENT n \<longleftrightarrow> n = 0" "bit PAGE_RW n \<longleftrightarrow> n = 1" "bit PAGE_USER n \<longleftrightarrow> n = 2" "bit PAGE_COW n \<longleftrightarrow> n = 9"
  "bit PAGE_SHARED n \<longleftrightarrow> n = 10" "bit PAGE_DEV n \<longleftrightarrow> n = 11" "bit PAGE_NX n \<longleftrightarrow> n = 63"
  unfolding flag_bits by (rule bit_push_1, simp)+

lemma addr_mask_bit_iff [pte_simps]: "bit PTE_ADDR_MASK n \<longleftrightarrow> 12 \<le> n \<and> n < 52"
  unfolding mask_bits by (auto simp: bit_simps)

section \<open>Addresses\<close>

text \<open>Two entries with the same bits 12 to 31 name the same frame.\<close>

lemma entry_paddr_cong: "(\<And>n. 12 \<le> n \<Longrightarrow> n < 32 \<Longrightarrow> bit e n = bit e' n) \<Longrightarrow> entry_paddr e = entry_paddr e'"
  unfolding entry_paddr_def
  by (intro arg_cong [where f = unat] bit_eqI) (auto simp: bit_simps addr_mask_bit_iff)

lemma entry_frame_cong: "(\<And>n. 12 \<le> n \<Longrightarrow> n < 32 \<Longrightarrow> bit e n = bit e' n) \<Longrightarrow> entry_frame e = entry_frame e'"
  unfolding entry_frame_def by (rule arg_cong [OF entry_paddr_cong])

text \<open>Flags do not move a frame.\<close>

lemma entry_frame_flags [pte_simps]:
  "entry_frame (e OR PAGE_PRESENT) = entry_frame e" "entry_frame (e OR PAGE_RW) = entry_frame e"
  "entry_frame (e OR PAGE_USER) = entry_frame e" "entry_frame (e OR PAGE_COW) = entry_frame e"
  "entry_frame (e AND NOT PAGE_RW) = entry_frame e" "entry_frame (e AND NOT PAGE_COW) = entry_frame e"
  "entry_frame (cow_pte e) = entry_frame e"
  by (rule entry_frame_cong, simp add: pte_simps bit_simps cow_pte_def)+

lemma low_flags [pte_simps]: "bit (b AND 0xFFF) n \<longleftrightarrow> bit b n \<and> n < 12" for b :: u64
proof -
  have "b AND 0xFFF = take_bit 12 b" by (simp add: take_bit_eq_mask mask_eq_exp_minus_1)
  then show ?thesis by (auto simp: bit_take_bit_iff)
qed

text \<open>A page-aligned 32-bit address in the address field.\<close>

lemma frame_bits:
  assumes "p mod 4096 = 0" and "p < 2 ^ 32"
  shows "bit (p :: nat) n \<longrightarrow> 12 \<le> n \<and> n < 32"
proof
  assume b: "bit p n"
  have "\<not> bit (take_bit 12 p) n" using assms(1) by (simp add: take_bit_eq_mod)
  moreover have "take_bit 32 p = p" using assms(2) by (simp add: take_bit_nat_eq_self)
  then have "bit (take_bit 32 p) n" using b by simp
  ultimately show "12 \<le> n \<and> n < 32" using b by (auto simp: bit_take_bit_iff not_le)
qed

lemma entry_paddr_of:
  assumes "p mod 4096 = 0" and "p < 2 ^ 32" and "\<And>n. 12 \<le> n \<Longrightarrow> n < 32 \<Longrightarrow> \<not> bit fl n"
  shows "entry_paddr (of_nat p OR fl) = p" and "entry_frame (of_nat p OR fl) = p div 4096"
proof -
  have "(ucast ((of_nat p OR fl) AND PTE_ADDR_MASK) :: u32) = of_nat p"
    using assms(3) frame_bits [OF assms(1,2)] by (intro bit_eqI) (auto simp: bit_simps addr_mask_bit_iff)
  moreover have "unat (of_nat p :: u32) = p" using assms(2) by (simp add: unat_of_nat)
  ultimately show "entry_paddr (of_nat p OR fl) = p" by (simp add: entry_paddr_def)
  then show "entry_frame (of_nat p OR fl) = p div 4096" by (simp add: entry_frame_def)
qed

lemma entry_frame_bound: "entry_frame e < 2 ^ 20"
proof -
  have "entry_paddr e < 2 ^ 32" unfolding entry_paddr_def using unsigned_less [of "ucast (e AND PTE_ADDR_MASK) :: u32"] by simp
  then show ?thesis by (simp add: entry_frame_def)
qed

lemma entry_paddr_frame: "entry_paddr e = entry_frame e * 4096"
proof -
  let ?w = "ucast (e AND PTE_ADDR_MASK) :: u32"
  have "\<not> bit (take_bit 12 (unat ?w)) n" for n
    by (auto simp: bit_take_bit_iff bit_unsigned_iff bit_simps addr_mask_bit_iff)
  then have "take_bit 12 (unat ?w) = 0" by (intro bit_eqI) simp
  then have "entry_paddr e mod 4096 = 0" by (simp add: entry_paddr_def take_bit_eq_mod)
  then show ?thesis by (metis entry_frame_def div_mult_mod_eq add.right_neutral)
qed

lemma entry_frame_0 [simp]: "entry_frame 0 = 0" "entry_paddr 0 = 0"
  by (simp_all add: entry_frame_def entry_paddr_def)

lemma not_present_0 [simp]: "\<not> has 0 fl"
  by (simp add: has_def)

section \<open>The entry a mapping writes\<close>

lemma pte_of_flags_frame:
  assumes "p mod 4096 = 0" and "p < 2 ^ 32"
  shows "entry_frame (pte_of_flags (of_nat p) fl) = p div 4096"
proof -
  have u: "(ucast (of_nat p :: u32) :: u64) = of_nat p"
    using frame_bits [OF assms] by (intro bit_eqI) (auto simp: bit_simps)
  have "entry_frame (pte_of_flags (of_nat p) fl) = entry_frame (of_nat p OR 0)"
    by (rule entry_frame_cong) (auto simp: pte_of_flags_def u pte_simps bit_simps)
  also have "\<dots> = p div 4096" by (rule entry_paddr_of(2) [OF assms]) simp
  finally show ?thesis .
qed

lemma pte_of_flags_present [simp]: "present (pte_of_flags pa fl)"
  by (simp add: pte_of_flags_def pte_simps bit_simps)

lemma pte_of_flags_has:
  "has (pte_of_flags pa fl) PAGE_USER \<longleftrightarrow> has fl PAGE_USER" "has (pte_of_flags pa fl) PAGE_RW \<longleftrightarrow> has fl PAGE_RW"
  "has (pte_of_flags pa fl) PAGE_COW \<longleftrightarrow> has fl PAGE_COW" "has (pte_of_flags pa fl) PAGE_DEV \<longleftrightarrow> has fl PAGE_DEV"
  "has (pte_of_flags pa fl) PAGE_SHARED \<longleftrightarrow> has fl PAGE_SHARED" "has (pte_of_flags pa fl) PAGE_NX \<longleftrightarrow> has fl PAGE_NX"
  by (auto simp: pte_of_flags_def pte_simps bit_simps)

chapter \<open>What the entries refer to\<close>

text \<open>
  The tree of tables under a page directory, seen as partial functions of positions, and the
  account of the frames it holds: every table frame once, and one reference for every mapped
  page that \<open>vmm_free_address_space\<close> would release. \<open>vm_ok v D E\<close> states that the frame
  allocator's reference counts are exactly the references of the live spaces \<open>D\<close> plus the
  references \<open>E\<close> held outside the page tables.
\<close>

section \<open>Positions\<close>

datatype tpos = Root nat | Dir nat nat | Tab nat nat nat

definition pd_of :: "vmm \<Rightarrow> nat \<Rightarrow> nat \<Rightarrow> nat option" where
  "pd_of v d pi = (if present (rd v d pi) then Some (entry_frame (rd v d pi)) else None)"

definition pt_of :: "vmm \<Rightarrow> nat \<Rightarrow> nat \<Rightarrow> nat \<Rightarrow> nat option" where
  "pt_of v d pi j = (case pd_of v d pi of None \<Rightarrow> None
     | Some f \<Rightarrow> if present (rd v f j) then Some (entry_frame (rd v f j)) else None)"

definition pte_of :: "vmm \<Rightarrow> nat \<Rightarrow> nat \<Rightarrow> nat \<Rightarrow> nat \<Rightarrow> u64" where
  "pte_of v d pi j k = (case pt_of v d pi j of None \<Rightarrow> 0 | Some t \<Rightarrow> rd v t k)"

text \<open>The entry that translates a virtual address.\<close>

definition pte_at :: "vmm \<Rightarrow> nat \<Rightarrow> u32 \<Rightarrow> u64" where
  "pte_at v d va = pte_of v d (pdpt_index va) (pd_index va) (pt_index va)"

fun tab_at :: "vmm \<Rightarrow> tpos \<Rightarrow> nat option" where
  "tab_at v (Root d) = Some d"
| "tab_at v (Dir d pi) = pd_of v d pi"
| "tab_at v (Tab d pi j) = pt_of v d pi j"

definition tposs :: "nat set \<Rightarrow> tpos set" where
  "tposs D = Root ` D \<union> (\<lambda>(d, pi). Dir d pi) ` (D \<times> {..<PDPT_ENTRIES})
     \<union> (\<lambda>(d, pi, j). Tab d pi j) ` (D \<times> {..<PDPT_ENTRIES} \<times> {..<PT_ENTRIES})"

definition leafs :: "nat set \<Rightarrow> (nat \<times> nat \<times> nat \<times> nat) set" where
  "leafs D = D \<times> {..<PDPT_ENTRIES} \<times> {..<PT_ENTRIES} \<times> {..<PT_ENTRIES}"

lemma tposs_iff [simp]:
  "Root d \<in> tposs D \<longleftrightarrow> d \<in> D" "Dir d pi \<in> tposs D \<longleftrightarrow> d \<in> D \<and> pi < PDPT_ENTRIES"
  "Tab d pi j \<in> tposs D \<longleftrightarrow> d \<in> D \<and> pi < PDPT_ENTRIES \<and> j < PT_ENTRIES"
  by (auto simp: tposs_def image_iff)

lemma leafs_iff [simp]: "(d, pi, j, k) \<in> leafs D \<longleftrightarrow> d \<in> D \<and> pi < PDPT_ENTRIES \<and> j < PT_ENTRIES \<and> k < PT_ENTRIES"
  by (simp add: leafs_def)

lemma finite_tposs [simp]: "finite D \<Longrightarrow> finite (tposs D)" "finite D \<Longrightarrow> finite (leafs D)"
  by (simp_all add: tposs_def leafs_def)

lemma index_bounds [simp]: "pdpt_index va < PDPT_ENTRIES" "pd_index va < PT_ENTRIES" "pt_index va < PT_ENTRIES"
proof -
  have "unat va < 2 ^ 32" using unsigned_less [of va] by simp
  then show "pdpt_index va < PDPT_ENTRIES"
    unfolding pdpt_index_def PDPT_ENTRIES_def unat_drop_bit_eq drop_bit_eq_div [of 30 "unat va"] by simp
  have m: "x AND 0x1FF < 512" for x :: u32 using word_and_le1 [of x "0x1FF"] by (simp add: order_le_less_trans word_le_nat_alt word_less_nat_alt)
  show "pd_index va < PT_ENTRIES" "pt_index va < PT_ENTRIES"
    using m by (simp_all add: pd_index_def pt_index_def PT_ENTRIES_def word_less_nat_alt)
qed

section \<open>References\<close>

fun opt_ref :: "nat option \<Rightarrow> nat multiset" where
  "opt_ref None = {#}" | "opt_ref (Some f) = {#f#}"

definition pte_ref :: "vmm \<Rightarrow> nat \<Rightarrow> nat \<Rightarrow> nat \<Rightarrow> u64 \<Rightarrow> nat multiset" where
  "pte_ref v pi j k e = (if freeable v pi j k e then {#entry_frame e#} else {#})"

fun leaf_ref :: "vmm \<Rightarrow> nat \<times> nat \<times> nat \<times> nat \<Rightarrow> nat multiset" where
  "leaf_ref v (d, pi, j, k) = pte_ref v pi j k (pte_of v d pi j k)"

definition vrefs :: "vmm \<Rightarrow> nat set \<Rightarrow> nat multiset" where
  "vrefs v D = (\<Sum>p\<in>tposs D. opt_ref (tab_at v p)) + (\<Sum>l\<in>leafs D. leaf_ref v l)"

definition boot_ok :: "vmm \<Rightarrow> bool" where
  "boot_ok v \<longleftrightarrow> vm_pdpt v < fr_reserved (vm_fr v) \<and> (\<forall>pi < PDPT_ENTRIES. vm_pds v pi < fr_reserved (vm_fr v))
     \<and> (\<forall>pi < PDPT_ENTRIES. \<forall>j < PT_ENTRIES. present (boot_pde v pi j) \<longrightarrow>
          entry_frame (boot_pde v pi j) < fr_reserved (vm_fr v)
          \<and> (\<forall>k < PT_ENTRIES. \<not> has (rd v (entry_frame (boot_pde v pi j)) k) PAGE_USER))"

text \<open>A frame that is used as a table: allocatable RAM, not pinned, and referenced once.\<close>

definition sole :: "vmm \<Rightarrow> nat multiset \<Rightarrow> nat \<Rightarrow> bool" where
  "sole v M t \<longleftrightarrow> fr_reserved (vm_fr v) \<le> t \<and> t < fr_total (vm_fr v) \<and> fr_refs (vm_fr v) t < FRAME_PINNED \<and> count M t = 1"

definition vm_ok :: "vmm \<Rightarrow> nat set \<Rightarrow> nat multiset \<Rightarrow> bool" where
  "vm_ok v D E \<longleftrightarrow> finite D \<and> fr_total (vm_fr v) \<le> PHYS_MAX_PAGES \<and> boot_ok v
     \<and> acct (vm_fr v) (vrefs v D + E)
     \<and> (\<forall>p\<in>tposs D. \<forall>t. tab_at v p = Some t \<longrightarrow> sole v (vrefs v D + E) t)"

lemma vm_okD:
  assumes "vm_ok v D E"
  shows "finite D" "fr_total (vm_fr v) \<le> PHYS_MAX_PAGES" "boot_ok v" "acct (vm_fr v) (vrefs v D + E)"
    and "\<And>p t. p \<in> tposs D \<Longrightarrow> tab_at v p = Some t \<Longrightarrow> sole v (vrefs v D + E) t"
  using assms unfolding vm_ok_def by blast+

section \<open>Counting\<close>

lemma count_sum_ge:
  assumes "finite S" and "x \<in> S" and "f \<in># g x"
  shows "Suc 0 \<le> count (sum g S) f"
proof -
  have "sum g S = g x + sum g (S - {x})" using assms(1,2) by (rule sum.remove)
  moreover have "0 < count (g x) f" using assms(3) by simp
  ultimately show ?thesis by (simp only: count_union)
qed

lemma count_sum_two:
  assumes "finite S" and "x \<in> S" and "y \<in> S" and "x \<noteq> y" and "f \<in># g x" and "f \<in># g y"
  shows "2 \<le> count (sum g S) f"
proof -
  have "sum g S = g x + sum g (S - {x})" using assms(1,2) by (rule sum.remove)
  moreover have "Suc 0 \<le> count (sum g (S - {x})) f" using assms by (intro count_sum_ge [of _ y]) auto
  moreover have "0 < count (g x) f" using assms(5) by simp
  ultimately show ?thesis by (simp only: count_union)
qed

lemma sum_point:
  fixes g h :: "'a \<Rightarrow> 'b multiset"
  assumes "finite S" and "x \<in> S" and "\<And>y. y \<in> S \<Longrightarrow> y \<noteq> x \<Longrightarrow> h y = g y"
  shows "sum h S + g x = sum g S + h x"
proof -
  have "sum h S = h x + sum h (S - {x})" "sum g S = g x + sum g (S - {x})" using assms(1,2) by (rule sum.remove)+
  moreover have "sum h (S - {x}) = sum g (S - {x})" using assms(3) by (intro sum.cong) auto
  ultimately show ?thesis by (simp add: ac_simps)
qed

lemma opt_ref_in: "f \<in># opt_ref x \<longleftrightarrow> x = Some f"
  by (cases x) auto

lemma leaf_ref_in: "f \<in># leaf_ref v (d, pi, j, k) \<longleftrightarrow> freeable v pi j k (pte_of v d pi j k) \<and> entry_frame (pte_of v d pi j k) = f"
  by (auto simp: pte_ref_def)

text \<open>A table frame sits at one position, is no mapped page, and nobody else holds it.\<close>

lemma table_unique:
  assumes ok: "vm_ok v D E" and p: "p \<in> tposs D" "tab_at v p = Some t"
  shows "q \<in> tposs D \<Longrightarrow> tab_at v q = Some t \<Longrightarrow> q = p" and "l \<in> leafs D \<Longrightarrow> t \<notin># leaf_ref v l" and "t \<notin># E"
proof -
  note D = vm_okD [OF ok]
  let ?T = "\<Sum>p\<in>tposs D. opt_ref (tab_at v p)" and ?L = "\<Sum>l\<in>leafs D. leaf_ref v l"
  have c: "count ?T t + count ?L t + count E t = 1" using D(5) [OF p] by (simp add: sole_def vrefs_def)
  have fin: "finite (tposs D)" "finite (leafs D)" using D(1) by simp_all
  have T: "Suc 0 \<le> count ?T t" using count_sum_ge [OF fin(1) p(1), of t "\<lambda>p. opt_ref (tab_at v p)"] p(2) by simp
  show "q = p" if q: "q \<in> tposs D" "tab_at v q = Some t"
  proof (rule ccontr)
    assume "q \<noteq> p"
    from count_sum_two [OF fin(1) q(1) p(1) this, of t "\<lambda>p. opt_ref (tab_at v p)"] p(2) q(2) c show False by simp
  qed
  show "t \<notin># leaf_ref v l" if l: "l \<in> leafs D"
  proof
    assume "t \<in># leaf_ref v l"
    then have "Suc 0 \<le> count ?L t" by (rule count_sum_ge [OF fin(2) l])
    then show False using T c by linarith
  qed
  show "t \<notin># E" 
  proof
    assume "t \<in># E"
    then have "0 < count E t" by simp
    then show False using T c by linarith
  qed
qed

lemma table_range:
  assumes "vm_ok v D E" and "p \<in> tposs D" and "tab_at v p = Some t"
  shows "fr_reserved (vm_fr v) \<le> t" "t < fr_total (vm_fr v)" "fr_refs (vm_fr v) t < FRAME_PINNED" "t \<noteq> 0" "t < 2 ^ 20"
  using vm_okD(5) [OF assms] vm_okD(2) [OF assms(1)] acct_ok [OF vm_okD(4) [OF assms(1)], THEN frames_okD(2)]
  by (auto simp: sole_def PHYS_MAX_PAGES_def)

section \<open>What reading and writing see\<close>

lemma set_entry_simps [simp]:
  "vm_fr (set_entry f i e v) = vm_fr v" "vm_pdpt (set_entry f i e v) = vm_pdpt v" "vm_pds (set_entry f i e v) = vm_pds v"
  "rd (set_entry f i e v) g j = (if g = f \<and> j = i then e else rd v g j)"
  "vm_fr (set_frame f w v) = vm_fr v" "vm_pdpt (set_frame f w v) = vm_pdpt v" "vm_pds (set_frame f w v) = vm_pds v"
  "rd (set_frame f w v) g = (if g = f then w else rd v g)"
  "rd (v\<lparr>vm_fr := fr\<rparr>) = rd v" "vm_pdpt (v\<lparr>vm_fr := fr\<rparr>) = vm_pdpt v" "vm_pds (v\<lparr>vm_fr := fr\<rparr>) = vm_pds v"
  by (auto simp: set_entry_def set_frame_def)

text \<open>Two machines with the same geometry and boot tables.\<close>

definition same_boot :: "vmm \<Rightarrow> vmm \<Rightarrow> bool" where
  "same_boot v w \<longleftrightarrow> vm_pdpt w = vm_pdpt v \<and> vm_pds w = vm_pds v \<and> fr_reserved (vm_fr w) = fr_reserved (vm_fr v)
     \<and> fr_total (vm_fr w) = fr_total (vm_fr v) \<and> fr_zero (vm_fr w) = fr_zero (vm_fr v)
     \<and> (\<forall>f < fr_reserved (vm_fr v). rd w f = rd v f)"

lemma same_boot_refl [simp]: "same_boot v v"
  by (simp add: same_boot_def)

lemma same_boot_trans [trans]: "same_boot u v \<Longrightarrow> same_boot v w \<Longrightarrow> same_boot u w"
  by (simp add: same_boot_def)

lemma same_boot_entry: "fr_reserved (vm_fr v) \<le> f \<Longrightarrow> same_boot v (set_entry f i e v)"
  by (auto simp: same_boot_def fun_eq_iff)

lemma same_boot_frame: "fr_reserved (vm_fr v) \<le> f \<Longrightarrow> same_boot v (set_frame f w v)"
  by (auto simp: same_boot_def)

lemma same_boot_pde:
  "same_boot v w \<Longrightarrow> boot_ok v \<Longrightarrow> pi < PDPT_ENTRIES \<Longrightarrow> boot_pde w pi j = boot_pde v pi j"
  by (simp add: same_boot_def boot_ok_def)

lemma same_boot_pdpte: "same_boot v w \<Longrightarrow> boot_ok v \<Longrightarrow> boot_pdpte w pi = boot_pdpte v pi"
  by (simp add: same_boot_def boot_ok_def)

lemma boot_ok_same: "same_boot v w \<Longrightarrow> boot_ok v \<Longrightarrow> boot_ok w"
  by (simp add: same_boot_def boot_ok_def)

lemma freeable_same:
  assumes "same_boot v w" and "boot_ok v" and "pi < PDPT_ENTRIES" and "j < PT_ENTRIES"
  shows "freeable w pi j k e = freeable v pi j k e"
  using assms by (cases "present (boot_pde v pi j)") (simp_all add: freeable_def same_boot_def boot_ok_def)

text \<open>A machine whose tables agree on every table frame of the spaces \<open>D\<close> holds the same tree.\<close>

lemma tab_at_cong:
  assumes "\<And>q t i. q \<in> tposs D \<Longrightarrow> tab_at v q = Some t \<Longrightarrow> rd w t i = rd v t i" and "p \<in> tposs D"
  shows "tab_at w p = tab_at v p"
proof -
  have pd: "pd_of w d pi = pd_of v d pi" if "d \<in> D" for d pi
    using assms(1) [of "Root d" d] that by (simp add: pd_of_def)
  have pt: "pt_of w d pi j = pt_of v d pi j" if "d \<in> D" "pi < PDPT_ENTRIES" for d pi j
    using assms(1) [of "Dir d pi"] that by (auto simp: pt_of_def pd split: option.split)
  show ?thesis using assms(2) by (cases p) (auto simp: pd pt)
qed

lemma pte_of_cong:
  assumes "\<And>q t i. q \<in> tposs D \<Longrightarrow> tab_at v q = Some t \<Longrightarrow> rd w t i = rd v t i" and "(d, pi, j, k) \<in> leafs D"
  shows "pte_of w d pi j k = pte_of v d pi j k"
proof -
  have "tab_at w (Tab d pi j) = tab_at v (Tab d pi j)" using assms(2) by (intro tab_at_cong [of D] assms(1)) auto
  then show ?thesis using assms(1) [of "Tab d pi j"] assms(2) by (auto simp: pte_of_def split: option.split)
qed

lemma vrefs_cong:
  assumes "\<And>q. q \<in> tposs D \<Longrightarrow> tab_at w q = tab_at v q"
    and "\<And>d pi j k. (d, pi, j, k) \<in> leafs D \<Longrightarrow> pte_ref w pi j k (pte_of w d pi j k) = pte_ref v pi j k (pte_of v d pi j k)"
  shows "vrefs w D = vrefs v D"
proof -
  have "(\<Sum>p\<in>tposs D. opt_ref (tab_at w p)) = (\<Sum>p\<in>tposs D. opt_ref (tab_at v p))"
    by (rule sum.cong) (simp_all add: assms(1))
  moreover have "(\<Sum>l\<in>leafs D. leaf_ref w l) = (\<Sum>l\<in>leafs D. leaf_ref v l)"
    by (rule sum.cong) (auto simp: assms(2))
  ultimately show ?thesis by (simp add: vrefs_def)
qed

lemma pte_ref_same:
  "same_boot v w \<Longrightarrow> boot_ok v \<Longrightarrow> pi < PDPT_ENTRIES \<Longrightarrow> j < PT_ENTRIES \<Longrightarrow> pte_ref w pi j k e = pte_ref v pi j k e"
  by (simp add: pte_ref_def freeable_same)

text \<open>Memory outside the tables of \<open>D\<close> does not matter.\<close>

lemma vrefs_elsewhere:
  assumes "same_boot v w" and "boot_ok v" and "\<And>q t i. q \<in> tposs D \<Longrightarrow> tab_at v q = Some t \<Longrightarrow> rd w t i = rd v t i"
  shows "vrefs w D = vrefs v D" and "\<And>q. q \<in> tposs D \<Longrightarrow> tab_at w q = tab_at v q"
proof -
  show t: "\<And>q. q \<in> tposs D \<Longrightarrow> tab_at w q = tab_at v q" by (rule tab_at_cong [OF assms(3)])
  show "vrefs w D = vrefs v D"
    by (rule vrefs_cong) (auto simp: t pte_of_cong [OF assms(3)] pte_ref_same [OF assms(1,2)])
qed

text \<open>The invariant only reads the geometry, the boot tables, the account and the tables.\<close>

lemma vm_ok_transfer:
  assumes ok: "vm_ok v D E" and same: "same_boot v w" and fin: "finite D'"
    and acct: "acct (vm_fr w) (vrefs w D' + E')"
    and tabs: "\<And>p t. p \<in> tposs D' \<Longrightarrow> tab_at w p = Some t \<Longrightarrow> sole w (vrefs w D' + E') t"
  shows "vm_ok w D' E'"
  using vm_okD [OF ok] assms boot_ok_same [OF same] unfolding vm_ok_def same_boot_def by simp

end
