(* ===== verification/Vmm_Links.thy ===== *)
theory Vmm_Links
  imports Vmm_Refs
begin

text \<open>
  The elementary steps that the operations of \<open>vmm.c\<close> are made of, and what each does to the
  tree of tables and to the account of \<open>Vmm_Refs\<close>: taking and returning a frame, filling a
  frame nobody reads, writing an entry of a page table, linking a table, giving a page one
  more holder, and adding or dropping a root.
\<close>

section \<open>Frames\<close>

lemma phys_alloc_rd: "phys_alloc cid v = (p, w) \<Longrightarrow> w = v\<lparr>vm_fr := vm_fr w\<rparr> \<and> frame_alloc cid (vm_fr v) = (p, vm_fr w)"
  by (auto simp: phys_alloc_def split: prod.splits)

lemma same_boot_pins: "pins_kept (vm_fr v) fr \<Longrightarrow> same_boot v (v\<lparr>vm_fr := fr\<rparr>)"
  by (simp add: same_boot_def pins_kept_def)

lemma tab_at_fr [simp]: "tab_at (v\<lparr>vm_fr := fr\<rparr>) p = tab_at v p"
  by (cases p) (simp_all add: pd_of_def pt_of_def)

lemma vrefs_fr: "boot_ok v \<Longrightarrow> same_boot v (v\<lparr>vm_fr := fr\<rparr>) \<Longrightarrow> vrefs (v\<lparr>vm_fr := fr\<rparr>) D = vrefs v D"
  by (rule vrefs_elsewhere(1)) simp_all

lemma alloc_step:
  assumes ok: "vm_ok v D E" and cid: "cid < MAX_CORES" and a: "phys_alloc cid v = (p, w)"
  shows "same_boot v w" "\<And>f. rd w f = rd v f" "\<And>q. tab_at w q = tab_at v q"
    and "p = 0 \<Longrightarrow> vm_ok w D E"
    and "p \<noteq> 0 \<Longrightarrow> \<exists>f. p = f * 4096 \<and> 0 < f \<and> f < 2 ^ 20 \<and> vm_ok w D (add_mset f E) \<and> sole w (vrefs w D + add_mset f E) f
      \<and> f \<notin># vrefs v D + E \<and> vrefs w D = vrefs v D"
proof -
  note D = vm_okD [OF ok]
  from phys_alloc_rd [OF a] have w: "w = v\<lparr>vm_fr := vm_fr w\<rparr>" and fa: "frame_alloc cid (vm_fr v) = (p, vm_fr w)" by blast+
  note P = frame_alloc_pins [OF acct_ok [OF D(4)] cid fa]
  have rdw: "rd w f = rd v f" and tabw: "tab_at w q = tab_at v q" for f q using w by (metis set_entry_simps(9), metis tab_at_fr)
  show sb: "same_boot v w" using same_boot_pins [OF P] w by simp
  show "rd w f = rd v f" "tab_at w q = tab_at v q" for f q by (fact rdw tabw)+
  have vw: "vrefs w D = vrefs v D" using vrefs_fr [OF D(3)] sb w by metis
  note A = acct_alloc [OF D(4) cid fa]
  have low: "sole w M t" if "sole v N t" "count M t = count N t" for M N t
    using that P by (simp add: sole_def pins_kept_def)
  show "vm_ok w D E" if "p = 0"
  proof (rule vm_ok_transfer [OF ok sb D(1)])
    show "acct (vm_fr w) (vrefs w D + E)" using A that vw by simp
    show "\<And>q t. q \<in> tposs D \<Longrightarrow> tab_at w q = Some t \<Longrightarrow> sole w (vrefs w D + E) t"
      using low D(5) unfolding tabw vw by blast
  qed
  show "\<exists>f. p = f * 4096 \<and> 0 < f \<and> f < 2 ^ 20 \<and> vm_ok w D (add_mset f E) \<and> sole w (vrefs w D + add_mset f E) f
      \<and> f \<notin># vrefs v D + E \<and> vrefs w D = vrefs v D" if "p \<noteq> 0"
  proof -
    from A that obtain f where f: "p = f * 4096" "0 < f" "fr_reserved (vm_fr v) \<le> f" "f < fr_total (vm_fr v)"
        "f \<notin># vrefs v D + E" "fr_refs (vm_fr w) f = 1" "acct (vm_fr w) (add_mset f (vrefs v D + E))" by auto
    have "sole w (vrefs w D + add_mset f E) f"
      using f P by (simp add: sole_def pins_kept_def vw FRAME_PINNED_def not_in_iff)
    moreover have "vm_ok w D (add_mset f E)"
    proof (rule vm_ok_transfer [OF ok sb D(1)])
      show "acct (vm_fr w) (vrefs w D + add_mset f E)" using f(7) vw by simp
      fix q t
      assume q: "q \<in> tposs D" "tab_at w q = Some t"
      then have s: "sole v (vrefs v D + E) t" using D(5) tabw by metis
      then have "t \<noteq> f" using f(5) by (auto simp: sole_def not_in_iff)
      then show "sole w (vrefs w D + add_mset f E) t" using low [OF s] vw by simp
    qed
    ultimately show ?thesis using f D(2) vw by (intro exI [of _ f]) (simp add: PHYS_MAX_PAGES_def)
  qed
qed

lemma free_step:
  assumes ok: "vm_ok v D (add_mset f E)" and cid: "cid < MAX_CORES"
  shows "vm_ok (phys_free cid (f * 4096) v) D E" "same_boot v (phys_free cid (f * 4096) v)"
    and "rd (phys_free cid q v) = rd v" "tab_at (phys_free cid q v) = tab_at v"
    and "vrefs (phys_free cid (f * 4096) v) D = vrefs v D"
proof -
  note D = vm_okD [OF ok]
  let ?w = "phys_free cid (f * 4096) v"
  note P = frame_free_pins [of "vm_fr v" cid "f * 4096"]
  show sb: "same_boot v ?w" using same_boot_pins [OF P] by (simp add: phys_free_def)
  show "rd (phys_free cid q v) = rd v" "tab_at (phys_free cid q v) = tab_at v" by (simp_all add: phys_free_def fun_eq_iff)
  then have tabw: "tab_at ?w q = tab_at v q" for q by (simp add: phys_free_def)
  show vw: "vrefs ?w D = vrefs v D" using vrefs_fr [OF D(3)] sb by (simp add: phys_free_def)
  show "vm_ok ?w D E"
  proof (rule vm_ok_transfer [OF ok sb D(1)])
    have "acct (vm_fr v) (add_mset f (vrefs v D + E))" using D(4) by simp
    from acct_free [OF this cid] show "acct (vm_fr ?w) (vrefs ?w D + E)" unfolding vw by (simp add: phys_free_def)
    fix q t
    assume q: "q \<in> tposs D" "tab_at ?w q = Some t"
    then have s: "sole v (vrefs v D + add_mset f E) t" using D(5) tabw by metis
    have "t \<noteq> f" using table_unique(3) [OF ok q(1)] q(2) tabw by auto
    then show "sole ?w (vrefs ?w D + E) t" using s P vw by (simp add: sole_def pins_kept_def phys_free_def)
  qed
qed

text \<open>The frame of an entry.\<close>

lemma free_entry: "phys_free cid (entry_paddr e) v = phys_free cid (entry_frame e * 4096) v"
  by (simp only: entry_paddr_frame)

text \<open>Filling a frame that is no table.\<close>

lemma fill_step:
  assumes ok: "vm_ok v D (add_mset f E)" and r: "fr_reserved (vm_fr v) \<le> f"
  shows "vm_ok (set_frame f c v) D (add_mset f E)" "same_boot v (set_frame f c v)"
    and "vrefs (set_frame f c v) D = vrefs v D" "\<And>q. q \<in> tposs D \<Longrightarrow> tab_at (set_frame f c v) q = tab_at v q"
proof -
  note D = vm_okD [OF ok]
  show sb: "same_boot v (set_frame f c v)" by (rule same_boot_frame [OF r])
  have "f \<noteq> t" if "q \<in> tposs D" "tab_at v q = Some t" for q t using table_unique(3) [OF ok that] by auto
  then have away: "rd (set_frame f c v) t i = rd v t i" if "q \<in> tposs D" "tab_at v q = Some t" for q t i
    using that by auto
  show v: "vrefs (set_frame f c v) D = vrefs v D" by (rule vrefs_elsewhere(1) [OF sb D(3) away])
  show t: "tab_at (set_frame f c v) q = tab_at v q" if "q \<in> tposs D" for q
    by (rule vrefs_elsewhere(2) [OF sb D(3) away that])
  show "vm_ok (set_frame f c v) D (add_mset f E)"
  proof (rule vm_ok_transfer [OF ok sb D(1)])
    show "acct (vm_fr (set_frame f c v)) (vrefs (set_frame f c v) D + add_mset f E)" using D(4) v by simp
    fix q t'
    assume q: "q \<in> tposs D" "tab_at (set_frame f c v) q = Some t'"
    show "sole (set_frame f c v) (vrefs (set_frame f c v) D + add_mset f E) t'"
      using D(5) [OF q(1)] q(2) unfolding t [OF q(1)] v by (simp add: sole_def)
  qed
qed

lemma zero_phys_page_eq: "f < fr_total (vm_fr v) \<Longrightarrow> zero_phys_page (f * 4096) v = set_frame f (\<lambda>_. 0) v"
  by (simp add: zero_phys_page_def)

text \<open>One more holder for a page that somebody holds and that is no table.\<close>

lemma acct_bump:
  assumes A: "acct s M" and f: "fr_reserved s \<le> f" "f \<in># M"
  shows "acct (bump_ref (f * 4096) s) (add_mset f M)" "fr_reserved (bump_ref (f * 4096) s) = fr_reserved s"
    "fr_total (bump_ref (f * 4096) s) = fr_total s" "fr_zero (bump_ref (f * 4096) s) = fr_zero s"
    "\<And>g. g \<noteq> f \<Longrightarrow> fr_refs (bump_ref (f * 4096) s) g = fr_refs s g"
proof -
  let ?t = "bump_ref (f * 4096) s"
  show geo: "fr_reserved ?t = fr_reserved s" "fr_total ?t = fr_total s" "fr_zero ?t = fr_zero s"
    "\<And>g. g \<noteq> f \<Longrightarrow> fr_refs ?t g = fr_refs s g" by (simp_all add: bump_ref_def)
  note D = frames_okD [OF acct_ok [OF A]]
  show "acct ?t (add_mset f M)"
  proof (cases "fr_refs s f < 255")
    case False
    then have "?t = s" by (simp add: bump_ref_def)
    then show ?thesis using A False unfolding acct_def FRAME_PINNED_def by (metis count_add_mset)
  next
    case True
    then have t: "?t = s\<lparr>fr_refs := (fr_refs s)(f := fr_refs s f + 1)\<rparr>" by (simp add: bump_ref_def)
    have par: "parked ?t = parked s" by (simp add: parked_def t)
    have bd: "buddy_ok ?t = buddy_ok s" unfolding t by (simp add: buddy_ok_def used_unordered_def buddy_parts_def)
    show ?thesis
    proof (cases "f < fr_total s")
      case in_ram: True
      have o: "owned s f = Some (count M f)" using acctD [OF A f(1) in_ram] True f(2) by (simp add: FRAME_PINNED_def)
      then have l: "live s {#} f" and r: "fr_refs s f = count M f" by (auto simp: held_def split: if_splits)
      then have np: "f * 4096 \<notin># parked s" and bm: "fr_bitmap s f" by (auto simp: live_def)
      have bu: "fr_built s" using D(9) [OF f(1) in_ram bm] True by (simp add: FRAME_PINNED_def)
      have lv: "live ?t {#} g \<longrightarrow> live s {#} g" for g unfolding live_def par using l by (auto simp: t live_def split: if_splits)
      have "phys_ok ?t" unfolding frames_ok_def
      proof (intro conjI allI impI ballI)
        show "buddy_ok ?t" using bd D(1) by simp
        show "count ({#} + parked ?t) q \<le> 1" for q using D(3) [of q] par by simp
        show "\<exists>f. q = f * 4096 \<and> fr_reserved ?t \<le> f \<and> f < fr_total ?t \<and> fr_bitmap ?t f \<and> fr_refs ?t f = 1"
          if "q \<in># {#} + parked ?t" for q
          using D(4) [of q] that np par by (auto simp: t)
        show "fr_bitmap ?t g = (g < fr_reserved ?t \<or> 0 < fr_refs ?t g)" if "g < fr_total ?t" for g
          using D(6) [of g] that f(1) bm by (auto simp: t)
        show "FRAME_PINNED \<le> fr_refs ?t (fr_zero ?t div 4096)" if "fr_zero ?t \<noteq> 0"
          using D(8) that by (auto simp: t)
        show "fr_built ?t \<or> FRAME_PINNED \<le> fr_refs ?t g" for g using bu by (simp add: t)
        show "fr_order ?t g \<noteq> BUDDY_CACHED" if "live ?t {#} g" for g using that lv D(10) by (simp add: t)
      qed (use D in \<open>simp_all add: t\<close>)
      moreover have "owned ?t g = own_count (count (add_mset f M) g)"
        if "fr_reserved ?t \<le> g" "g < fr_total ?t" "fr_refs ?t g < FRAME_PINNED" for g
      proof (cases "g = f")
        case True
        then have "live ?t {#} f" using l that(3) unfolding live_def par by (simp add: t live_def)
        then show ?thesis using True r by (simp add: held_def t)
      next
        case False
        then have "live ?t {#} g = live s {#} g" "fr_refs ?t g = fr_refs s g" unfolding live_def par by (auto simp: t live_def)
        then show ?thesis using acctD [OF A, of g] that False by (auto simp: held_def t split: if_splits)
      qed
      ultimately show ?thesis by (simp add: acct_def)
    next
      case False
      have lv: "live ?t {#} = live s {#}" unfolding live_def par using False by (auto simp: t live_def fun_eq_iff)
      have "phys_ok ?t" unfolding frames_ok_def
      proof (intro conjI allI impI ballI)
        show "buddy_ok ?t" using bd D(1) by simp
        show "count ({#} + parked ?t) q \<le> 1" for q using D(3) [of q] par by simp
        show "\<exists>f. q = f * 4096 \<and> fr_reserved ?t \<le> f \<and> f < fr_total ?t \<and> fr_bitmap ?t f \<and> fr_refs ?t f = 1"
          if "q \<in># {#} + parked ?t" for q
          using D(4) [of q] that False par by (auto simp: t)
        show "fr_bitmap ?t g = (g < fr_reserved ?t \<or> 0 < fr_refs ?t g)" if "g < fr_total ?t" for g
          using D(6) [of g] that False by (auto simp: t)
        show "FRAME_PINNED \<le> fr_refs ?t (fr_zero ?t div 4096)" if "fr_zero ?t \<noteq> 0"
          using D(8) that by (auto simp: t)
        show "fr_built ?t \<or> FRAME_PINNED \<le> fr_refs ?t g" if "fr_reserved ?t \<le> g \<and> g < fr_total ?t \<and> fr_bitmap ?t g" for g
          using D(9) [of g] that False by (auto simp: t) 
        show "fr_order ?t g \<noteq> BUDDY_CACHED" if "live ?t {#} g" for g using that lv D(10) by (simp add: t)
      qed (use D in \<open>simp_all add: t\<close>)
      moreover have "owned ?t g = owned s g" "g < fr_total s \<Longrightarrow> g \<noteq> f" for g using lv False by (auto simp: held_def t live_def)
      ultimately show ?thesis using A False unfolding acct_def by (auto simp: t)
    qed
  qed
qed

chapter \<open>Links\<close>

text \<open>
  Writing an entry of a live table: which translations and which table positions change. The
  uniqueness of table frames makes every write local.
\<close>

section \<open>What an entry write changes\<close>

lemma write_away:
  assumes ok: "vm_ok v D E" and p: "p \<in> tposs D" "tab_at v p = Some g"
  shows "q \<in> tposs D \<Longrightarrow> q \<noteq> p \<Longrightarrow> tab_at v q = Some t \<Longrightarrow> rd (set_entry g j e v) t i = rd v t i"
    and "same_boot v (set_entry g j e v)"
proof -
  show "rd (set_entry g j e v) t i = rd v t i" if "q \<in> tposs D" "q \<noteq> p" "tab_at v q = Some t"
    using table_unique(1) [OF ok p that(1)] that by auto
  show "same_boot v (set_entry g j e v)" by (rule same_boot_entry [OF table_range(1) [OF ok p]])
qed

lemma pd_away:
  assumes ok: "vm_ok v D E" and p: "p \<in> tposs D" "tab_at v p = Some g" and d: "Root d \<noteq> p" "d \<in> D"
  shows "pd_of (set_entry g j e v) d pi = pd_of v d pi"
  using write_away(1) [OF ok p, of "Root d" d j e] d by (simp add: pd_of_def)

lemma pt_away:
  assumes ok: "vm_ok v D E" and p: "p \<in> tposs D" "tab_at v p = Some g"
    and d: "Root d \<noteq> p" "Dir d pi \<noteq> p" "d \<in> D" "pi < PDPT_ENTRIES"
  shows "pt_of (set_entry g j e v) d pi k = pt_of v d pi k"
  using write_away(1) [OF ok p, of "Dir d pi" _ j e] d
  by (auto simp: pt_of_def pd_away [OF ok p d(1,3)] split: option.split)

lemma pte_away:
  assumes ok: "vm_ok v D E" and p: "p \<in> tposs D" "tab_at v p = Some g"
    and d: "Root d \<noteq> p" "Dir d pi \<noteq> p" "Tab d pi jj \<noteq> p" "d \<in> D" "pi < PDPT_ENTRIES" "jj < PT_ENTRIES"
  shows "pte_of (set_entry g j e v) d pi jj k = pte_of v d pi jj k"
  using write_away(1) [OF ok p, of "Tab d pi jj" _ j e] d
  by (auto simp: pte_of_def pt_away [OF ok p d(1,2,4,5)] split: option.split)

section \<open>Writing a page table entry\<close>

lemma pt_write:
  assumes ok: "vm_ok v D E" and l: "(d, pi, j, k) \<in> leafs D" and t: "pt_of v d pi j = Some t"
  shows "\<And>q. q \<in> tposs D \<Longrightarrow> tab_at (set_entry t k e v) q = tab_at v q"
    and "\<And>l'. l' \<in> leafs D \<Longrightarrow> l' \<noteq> (d, pi, j, k) \<Longrightarrow> leaf_ref (set_entry t k e v) l' = leaf_ref v l'"
    and "pte_of (set_entry t k e v) d pi j k = e"
    and "\<And>d' pi' j' k'. (d', pi', j', k') \<in> leafs D \<Longrightarrow> (d', pi', j', k') \<noteq> (d, pi, j, k) \<Longrightarrow>
          pte_of (set_entry t k e v) d' pi' j' k' = pte_of v d' pi' j' k'"
    and "vrefs (set_entry t k e v) D + leaf_ref v (d, pi, j, k) = vrefs v D + pte_ref v pi j k e"
proof -
  let ?w = "set_entry t k e v"
  have p: "Tab d pi j \<in> tposs D" "tab_at v (Tab d pi j) = Some t" using l t by simp_all
  note sb = write_away(2) [OF ok p, where j = k and e = e]
  note b = vm_okD(3) [OF ok]
  show T: "tab_at ?w q = tab_at v q" if "q \<in> tposs D" for q
    using that pd_away [OF ok p] pt_away [OF ok p] by (cases q) auto
  have ptw: "pt_of ?w d pi j = Some t" using T [OF p(1)] p(2) by simp
  then show new: "pte_of ?w d pi j k = e" by (simp add: pte_of_def)
  show old: "pte_of ?w d' pi' j' k' = pte_of v d' pi' j' k'"
    if "(d', pi', j', k') \<in> leafs D" "(d', pi', j', k') \<noteq> (d, pi, j, k)" for d' pi' j' k'
  proof (cases "(d', pi', j') = (d, pi, j)")
    case True
    then show ?thesis using that ptw t by (auto simp: pte_of_def)
  next
    case False
    then show ?thesis using that by (intro pte_away [OF ok p]) auto
  qed
  show L: "leaf_ref ?w l' = leaf_ref v l'" if "l' \<in> leafs D" "l' \<noteq> (d, pi, j, k)" for l'
    using that old by (cases l') (auto simp: pte_ref_same [OF sb b])
  have "sum (leaf_ref ?w) (leafs D) + leaf_ref v (d, pi, j, k) = sum (leaf_ref v) (leafs D) + leaf_ref ?w (d, pi, j, k)"
    by (rule sum_point [OF _ l]) (use L vm_okD(1) [OF ok] in simp_all)
  moreover have "leaf_ref ?w (d, pi, j, k) = pte_ref v pi j k e" using new l by (simp add: pte_ref_same [OF sb b])
  moreover have "(\<Sum>p\<in>tposs D. opt_ref (tab_at ?w p)) = (\<Sum>p\<in>tposs D. opt_ref (tab_at v p))"
    by (rule sum.cong) (simp_all add: T)
  ultimately show "vrefs ?w D + leaf_ref v (d, pi, j, k) = vrefs v D + pte_ref v pi j k e"
    unfolding vrefs_def by (simp add: ac_simps)
qed

text \<open>The new entry's reference comes from the writer, the old entry's goes back to it.\<close>

lemma pt_write_ok:
  assumes ok: "vm_ok v D (E + pte_ref v pi j k e)" and l: "(d, pi, j, k) \<in> leafs D" and t: "pt_of v d pi j = Some t"
  shows "vm_ok (set_entry t k e v) D (E + leaf_ref v (d, pi, j, k))" and "same_boot v (set_entry t k e v)"
proof -
  let ?w = "set_entry t k e v"
  note W = pt_write [OF ok l t, where e = e]
  have p: "Tab d pi j \<in> tposs D" "tab_at v (Tab d pi j) = Some t" using l t by simp_all
  note sb = write_away(2) [OF ok p, where j = k and e = e]
  then show "same_boot v ?w" .
  note D = vm_okD [OF ok]
  have M: "vrefs ?w D + (E + leaf_ref v (d, pi, j, k)) = vrefs v D + (E + pte_ref v pi j k e)"
    using W(5) by (metis (no_types, opaque_lifting) add.assoc add.commute)
  show "vm_ok ?w D (E + leaf_ref v (d, pi, j, k))"
  proof (rule vm_ok_transfer [OF ok sb D(1)])
    show "acct (vm_fr ?w) (vrefs ?w D + (E + leaf_ref v (d, pi, j, k)))" unfolding M using D(4) by simp
    fix q t'
    assume q: "q \<in> tposs D" "tab_at ?w q = Some t'"
    show "sole ?w (vrefs ?w D + (E + leaf_ref v (d, pi, j, k))) t'"
      unfolding M using D(5) [OF q(1)] q(2) W(1) [OF q(1)] by (simp add: sole_def)
  qed
qed

section \<open>Linking a page table\<close>

lemma pd_write:
  assumes ok: "vm_ok v D E" and p: "Dir d pi \<in> tposs D" "pd_of v d pi = Some g" and j: "j < PT_ENTRIES"
  shows "\<And>q. q \<in> tposs D \<Longrightarrow> q \<noteq> Tab d pi j \<Longrightarrow> tab_at (set_entry g j e v) q = tab_at v q"
    and "pt_of (set_entry g j e v) d pi j = (if present e then Some (entry_frame e) else None)"
    and "\<And>d' pi' j' k'. (d', pi', j', k') \<in> leafs D \<Longrightarrow> (d', pi', j') \<noteq> (d, pi, j) \<Longrightarrow>
          pte_of (set_entry g j e v) d' pi' j' k' = pte_of v d' pi' j' k'"
proof -
  let ?w = "set_entry g j e v"
  have p': "tab_at v (Dir d pi) = Some g" using p(2) by simp
  have pdw: "pd_of ?w d' x = pd_of v d' x" if "d' \<in> D" for d' x using pd_away [OF ok p(1) p'] that by simp
  have dD: "d \<in> D" using p(1) by simp
  have dir: "pt_of ?w d pi jj = (if jj = j then if present e then Some (entry_frame e) else None else pt_of v d pi jj)" for jj
    using p(2) pdw [OF dD] by (simp add: pt_of_def)
  then show "pt_of ?w d pi j = (if present e then Some (entry_frame e) else None)" by simp
  have ptw: "pt_of ?w d' pi' jj = pt_of v d' pi' jj" if "d' \<in> D" "pi' < PDPT_ENTRIES" "(d', pi', jj) \<noteq> (d, pi, j)" for d' pi' jj
  proof (cases "(d', pi') = (d, pi)")
    case True
    then show ?thesis using dir that by auto
  next
    case False
    then show ?thesis using that by (intro pt_away [OF ok p(1) p']) auto
  qed
  show "tab_at ?w q = tab_at v q" if "q \<in> tposs D" "q \<noteq> Tab d pi j" for q
    using that pdw ptw by (cases q) auto
  show "pte_of ?w d' pi' j' k' = pte_of v d' pi' j' k'" if l: "(d', pi', j', k') \<in> leafs D" "(d', pi', j') \<noteq> (d, pi, j)" for d' pi' j' k'
  proof (cases "pt_of v d' pi' j'")
    case (Some t)
    have "rd ?w t k' = rd v t k'"
      by (rule write_away(1) [OF ok p(1) p', of "Tab d' pi' j'"]) (use l Some in auto)
    then show ?thesis using ptw [of d' pi' j'] l Some by (auto simp: pte_of_def)
  qed (use ptw [of d' pi' j'] l in \<open>auto simp: pte_of_def\<close>)
qed

text \<open>Changing flags of a directory entry moves nothing.\<close>

lemma relink:
  assumes ok: "vm_ok v D E" and p: "Dir d pi \<in> tposs D" "pd_of v d pi = Some g" and j: "j < PT_ENTRIES"
    and e: "present (rd v g j)" "present e" "entry_frame e = entry_frame (rd v g j)"
  shows "vm_ok (set_entry g j e v) D E" "same_boot v (set_entry g j e v)"
    and "\<And>q. q \<in> tposs D \<Longrightarrow> tab_at (set_entry g j e v) q = tab_at v q"
    and "\<And>d' pi' j' k'. (d', pi', j', k') \<in> leafs D \<Longrightarrow> pte_of (set_entry g j e v) d' pi' j' k' = pte_of v d' pi' j' k'"
    and "vrefs (set_entry g j e v) D = vrefs v D"
proof -
  let ?w = "set_entry g j e v"
  note D = vm_okD [OF ok] and W = pd_write [OF ok p j, where e = e]
  have p': "tab_at v (Dir d pi) = Some g" using p(2) by simp
  show sb: "same_boot v ?w" by (rule write_away(2) [OF ok p(1) p'])
  have old: "pt_of v d pi j = Some (entry_frame e)" using p(2) e by (simp add: pt_of_def)
  show T: "tab_at ?w q = tab_at v q" if "q \<in> tposs D" for q
    using W(1) [OF that] W(2) e(2) old by (cases "q = Tab d pi j") auto
  show P: "pte_of ?w d' pi' j' k' = pte_of v d' pi' j' k'" if l: "(d', pi', j', k') \<in> leafs D" for d' pi' j' k'
  proof (cases "(d', pi', j') = (d, pi, j)")
    case True
    have q: "Tab d pi j \<in> tposs D" "Tab d pi j \<noteq> Dir d pi" "tab_at v (Tab d pi j) = Some (entry_frame e)" using l True old by auto
    then show ?thesis using write_away(1) [OF ok p(1) p' q] W(2) e(2) old True by (auto simp: pte_of_def)
  qed (use W(3) l in blast)
  show V: "vrefs ?w D = vrefs v D"
    by (rule vrefs_cong) (auto simp: T P pte_ref_same [OF sb D(3)])
  show "vm_ok ?w D E"
  proof (rule vm_ok_transfer [OF ok sb D(1)])
    show "acct (vm_fr ?w) (vrefs ?w D + E)" using D(4) V by simp
    fix q t
    assume q: "q \<in> tposs D" "tab_at ?w q = Some t"
    show "sole ?w (vrefs ?w D + E) t" unfolding V using D(5) [OF q(1)] q(2) T [OF q(1)] by (simp add: sole_def)
  qed
qed

text \<open>The page references of one page table.\<close>

definition pt_refs :: "vmm \<Rightarrow> nat \<Rightarrow> nat \<Rightarrow> nat \<Rightarrow> nat multiset" where
  "pt_refs v pi j t = (\<Sum>k<PT_ENTRIES. pte_ref v pi j k (rd v t k))"

lemma pte_ref_0 [simp]: "pte_ref v pi j k 0 = {#}"
  by (simp add: pte_ref_def freeable_def)

text \<open>Two machines that differ in one slot of a directory: the table \<open>f\<close> and its pages.\<close>

lemma slot_sums:
  assumes D: "finite D" "boot_ok a" "same_boot a b" and d: "d \<in> D" "pi < PDPT_ENTRIES" "j < PT_ENTRIES"
    and old: "pt_of a d pi j = None" and new: "pt_of b d pi j = Some f"
    and T: "\<And>q. q \<in> tposs D \<Longrightarrow> q \<noteq> Tab d pi j \<Longrightarrow> tab_at b q = tab_at a q"
    and P: "\<And>d' pi' j' k'. (d', pi', j', k') \<in> leafs D \<Longrightarrow> (d', pi', j') \<noteq> (d, pi, j) \<Longrightarrow> pte_of b d' pi' j' k' = pte_of a d' pi' j' k'"
  shows "vrefs b D = vrefs a D + {#f#} + pt_refs b pi j f"
proof -
  have q: "Tab d pi j \<in> tposs D" using d by simp
  have "(\<Sum>p\<in>tposs D. opt_ref (tab_at b p)) + opt_ref (tab_at a (Tab d pi j))
      = (\<Sum>p\<in>tposs D. opt_ref (tab_at a p)) + opt_ref (tab_at b (Tab d pi j))"
    by (rule sum_point [OF _ q]) (use D(1) T in simp_all)
  then have TS: "(\<Sum>p\<in>tposs D. opt_ref (tab_at b p)) = add_mset f (\<Sum>p\<in>tposs D. opt_ref (tab_at a p))"
    using old new by simp
  let ?S = "(\<lambda>k. (d, pi, j, k)) ` {..<PT_ENTRIES}"
  have S: "?S \<subseteq> leafs D" using d by auto
  have split: "sum h (leafs D) = sum h (leafs D - ?S) + (\<Sum>k<PT_ENTRIES. h (d, pi, j, k))" for h :: "_ \<Rightarrow> nat multiset"
  proof -
    have "sum h (leafs D) = sum h (leafs D - ?S) + sum h ?S" using D(1) S by (intro sum.subset_diff) simp_all
    moreover have "sum h ?S = (\<Sum>k<PT_ENTRIES. h (d, pi, j, k))" by (subst sum.reindex) (auto simp: inj_on_def)
    ultimately show ?thesis by simp
  qed
  have "(\<Sum>k<PT_ENTRIES. leaf_ref b (d, pi, j, k)) = pt_refs b pi j f" using new by (simp add: pt_refs_def pte_of_def)
  moreover have "(\<Sum>k<PT_ENTRIES. leaf_ref a (d, pi, j, k)) = {#}" using old by (simp add: pte_of_def)
  moreover have "sum (leaf_ref b) (leafs D - ?S) = sum (leaf_ref a) (leafs D - ?S)"
  proof (rule sum.cong [OF refl])
    fix l assume l: "l \<in> leafs D - ?S"
    obtain d' pi' j' k' where e: "l = (d', pi', j', k')" by (cases l)
    have m: "(d', pi', j', k') \<in> leafs D" "(d', pi', j') \<noteq> (d, pi, j)" using l e by auto
    show "leaf_ref b l = leaf_ref a l" using P [OF m] m(1) e by (simp add: pte_ref_same [OF D(3,2)])
  qed
  ultimately have "sum (leaf_ref b) (leafs D) = sum (leaf_ref a) (leafs D) + pt_refs b pi j f" unfolding split by simp
  with TS show ?thesis by (simp add: vrefs_def)
qed

lemma pt_refs_frame:
  assumes "same_boot v w" and "boot_ok v" and "pi < PDPT_ENTRIES" and "j < PT_ENTRIES" and "\<And>k. rd w f k = rd v f k"
  shows "pt_refs w pi j f = pt_refs v pi j f"
  by (simp add: pt_refs_def pte_ref_same [OF assms(1-4)] assms(5))

text \<open>A frame held by the writer becomes the page table of an empty slot, with the page
  references it already carries.\<close>

lemma link_pt:
  assumes ok: "vm_ok v D (E + {#f#} + pt_refs v pi j f)" and s: "sole v (vrefs v D + (E + {#f#} + pt_refs v pi j f)) f"
    and p: "Dir d pi \<in> tposs D" "pd_of v d pi = Some g" and j: "j < PT_ENTRIES" and none: "\<not> present (rd v g j)"
    and e: "present e" "entry_frame e = f"
  shows "vm_ok (set_entry g j e v) D E" "same_boot v (set_entry g j e v)"
    and "\<And>q. q \<in> tposs D \<Longrightarrow> tab_at (set_entry g j e v) q = (if q = Tab d pi j then Some f else tab_at v q)"
    and "\<And>d' pi' j' k'. (d', pi', j', k') \<in> leafs D \<Longrightarrow>
          pte_of (set_entry g j e v) d' pi' j' k' = (if (d', pi', j') = (d, pi, j) then rd v f k' else pte_of v d' pi' j' k')"
    and "vrefs (set_entry g j e v) D = vrefs v D + {#f#} + pt_refs v pi j f"
proof -
  let ?w = "set_entry g j e v"
  note D = vm_okD [OF ok] and W = pd_write [OF ok p j, where e = e]
  have p': "tab_at v (Dir d pi) = Some g" using p(2) by simp
  have gf: "g \<noteq> f" using table_unique(3) [OF ok p(1) p'] by auto
  show sb: "same_boot v ?w" by (rule write_away(2) [OF ok p(1) p'])
  have old: "pt_of v d pi j = None" using p(2) none by (simp add: pt_of_def)
  have new: "pt_of ?w d pi j = Some f" using W(2) e by simp
  show T: "tab_at ?w q = (if q = Tab d pi j then Some f else tab_at v q)" if "q \<in> tposs D" for q
    using W(1) [OF that] new by auto
  show P: "pte_of ?w d' pi' j' k' = (if (d', pi', j') = (d, pi, j) then rd v f k' else pte_of v d' pi' j' k')"
    if l: "(d', pi', j', k') \<in> leafs D" for d' pi' j' k'
    using W(3) [OF l] new gf by (auto simp: pte_of_def)
  have dd: "d \<in> D" "pi < PDPT_ENTRIES" using p(1) by simp_all
  have "vrefs ?w D = vrefs v D + {#f#} + pt_refs ?w pi j f"
    by (rule slot_sums [OF D(1,3) sb dd j old new]) (use W(1,3) in blast)+
  moreover have "pt_refs ?w pi j f = pt_refs v pi j f" by (rule pt_refs_frame [OF sb D(3) dd(2) j]) (use gf in simp)
  ultimately show V: "vrefs ?w D = vrefs v D + {#f#} + pt_refs v pi j f" by simp
  have M: "vrefs ?w D + E = vrefs v D + (E + {#f#} + pt_refs v pi j f)" unfolding V by (simp add: ac_simps)
  show "vm_ok ?w D E"
  proof (rule vm_ok_transfer [OF ok sb D(1)])
    show "acct (vm_fr ?w) (vrefs ?w D + E)" unfolding M using D(4) by simp
    fix q t
    assume "q \<in> tposs D" "tab_at ?w q = Some t"
    then have "t = f \<or> tab_at v q = Some t" using T by (auto split: if_splits)
    then have "sole v (vrefs v D + (E + {#f#} + pt_refs v pi j f)) t" using s D(5) [OF \<open>q \<in> tposs D\<close>] by blast
    then show "sole ?w (vrefs ?w D + E) t" unfolding M by (simp add: sole_def)
  qed
qed

text \<open>The reverse: clearing a slot hands its table and its page references to the writer.\<close>

lemma unlink_pt:
  assumes ok: "vm_ok v D E" and p: "Dir d pi \<in> tposs D" "pd_of v d pi = Some g" and j: "j < PT_ENTRIES"
    and t: "pt_of v d pi j = Some t"
  shows "vm_ok (set_entry g j 0 v) D (E + {#t#} + pt_refs v pi j t)" "same_boot v (set_entry g j 0 v)"
    and "\<And>q. q \<in> tposs D \<Longrightarrow> tab_at (set_entry g j 0 v) q = (if q = Tab d pi j then None else tab_at v q)"
    and "\<And>d' pi' j' k'. (d', pi', j', k') \<in> leafs D \<Longrightarrow>
          pte_of (set_entry g j 0 v) d' pi' j' k' = (if (d', pi', j') = (d, pi, j) then 0 else pte_of v d' pi' j' k')"
    and "vrefs v D = vrefs (set_entry g j 0 v) D + {#t#} + pt_refs v pi j t"
proof -
  let ?w = "set_entry g j 0 v"
  note D = vm_okD [OF ok] and W = pd_write [OF ok p j, where e = 0]
  have p': "tab_at v (Dir d pi) = Some g" using p(2) by simp
  show sb: "same_boot v ?w" by (rule write_away(2) [OF ok p(1) p'])
  have new: "pt_of ?w d pi j = None" using W(2) by simp
  show T: "tab_at ?w q = (if q = Tab d pi j then None else tab_at v q)" if "q \<in> tposs D" for q
    using W(1) [OF that] new by auto
  show P: "pte_of ?w d' pi' j' k' = (if (d', pi', j') = (d, pi, j) then 0 else pte_of v d' pi' j' k')"
    if l: "(d', pi', j', k') \<in> leafs D" for d' pi' j' k'
    using W(3) [OF l] new by (auto simp: pte_of_def)
  have dd: "d \<in> D" "pi < PDPT_ENTRIES" using p(1) by simp_all
  have sb': "same_boot ?w v" using sb by (simp add: same_boot_def)
  show V: "vrefs v D = vrefs ?w D + {#t#} + pt_refs v pi j t"
    by (rule slot_sums [OF D(1) boot_ok_same [OF sb D(3)] sb' dd j new t]) (use W(1,3) in \<open>metis\<close>)+
  have M: "vrefs ?w D + (E + {#t#} + pt_refs v pi j t) = vrefs v D + E" unfolding V by (simp add: ac_simps)
  show "vm_ok ?w D (E + {#t#} + pt_refs v pi j t)"
  proof (rule vm_ok_transfer [OF ok sb D(1)])
    show "acct (vm_fr ?w) (vrefs ?w D + (E + {#t#} + pt_refs v pi j t))" unfolding M using D(4) by simp
    fix q t'
    assume "q \<in> tposs D" "tab_at ?w q = Some t'"
    then have "tab_at v q = Some t'" using T by (auto split: if_splits)
    then show "sole ?w (vrefs ?w D + (E + {#t#} + pt_refs v pi j t)) t'" unfolding M using D(5) [OF \<open>q \<in> tposs D\<close>] by (simp add: sole_def)
  qed
qed

section \<open>Linking a page directory\<close>

text \<open>The references of a directory that is still being filled: its tables, which carry no page
  references yet.\<close>

definition dir_refs :: "vmm \<Rightarrow> nat \<Rightarrow> nat multiset" where
  "dir_refs v f = (\<Sum>j<PT_ENTRIES. opt_ref (if present (rd v f j) then Some (entry_frame (rd v f j)) else None))"

definition dir_ok :: "vmm \<Rightarrow> nat \<Rightarrow> nat \<Rightarrow> nat multiset \<Rightarrow> bool" where
  "dir_ok v pi f M \<longleftrightarrow> sole v M f \<and> (\<forall>j < PT_ENTRIES. present (rd v f j) \<longrightarrow> sole v M (entry_frame (rd v f j))
     \<and> (\<forall>k < PT_ENTRIES. pte_ref v pi j k (rd v (entry_frame (rd v f j)) k) = {#}))"

lemma root_write:
  assumes ok: "vm_ok v D E" and d: "d \<in> D" and none: "pd_of v d pi = None"
    and e: "present e" "entry_frame e = f" and fresh: "\<And>q. q \<in> tposs D \<Longrightarrow> tab_at v q \<noteq> Some f"
  shows "\<And>q. q \<in> tposs D \<Longrightarrow> q \<noteq> Dir d pi \<Longrightarrow> (\<And>j. q \<noteq> Tab d pi j) \<Longrightarrow> tab_at (set_entry d pi e v) q = tab_at v q"
    and "pd_of (set_entry d pi e v) d pi = Some f"
    and "\<And>j. pt_of (set_entry d pi e v) d pi j = (if present (rd v f j) then Some (entry_frame (rd v f j)) else None)"
    and "\<And>d' pi' j' k'. (d', pi', j', k') \<in> leafs D \<Longrightarrow> (d', pi') \<noteq> (d, pi) \<Longrightarrow>
          pte_of (set_entry d pi e v) d' pi' j' k' = pte_of v d' pi' j' k'"
proof -
  let ?w = "set_entry d pi e v"
  have r: "Root d \<in> tposs D" "tab_at v (Root d) = Some d" using d by simp_all
  have df: "d \<noteq> f" using fresh [OF r(1)] by simp
  have pdw: "pd_of ?w d' x = (if (d', x) = (d, pi) then Some f else pd_of v d' x)" for d' x
    using e by (auto simp: pd_of_def)
  then show "pd_of ?w d pi = Some f" by simp
  show ptd: "pt_of ?w d pi j = (if present (rd v f j) then Some (entry_frame (rd v f j)) else None)" for j
    using pdw [of d pi] df by (simp add: pt_of_def)
  have ptw: "pt_of ?w d' pi' j = pt_of v d' pi' j" if "d' \<in> D" "pi' < PDPT_ENTRIES" "(d', pi') \<noteq> (d, pi)" for d' pi' j
  proof (cases "pd_of v d' pi'")
    case (Some g)
    have "rd ?w g i = rd v g i" for i
      by (rule write_away(1) [OF ok r, of "Dir d' pi'"]) (use that Some in auto)
    then show ?thesis using pdw [of d' pi'] that Some by (auto simp: pt_of_def)
  qed (use pdw [of d' pi'] that in \<open>auto simp: pt_of_def\<close>)
  show "tab_at ?w q = tab_at v q" if "q \<in> tposs D" "q \<noteq> Dir d pi" "\<And>j. q \<noteq> Tab d pi j" for q
  proof (cases q)
    case (Dir a b)
    then show ?thesis using pdw [of a b] that by auto
  next
    case (Tab a b c)
    then show ?thesis using ptw [of a b c] that by auto
  qed simp
  show "pte_of ?w d' pi' j' k' = pte_of v d' pi' j' k'" if l: "(d', pi', j', k') \<in> leafs D" "(d', pi') \<noteq> (d, pi)" for d' pi' j' k'
  proof (cases "pt_of v d' pi' j'")
    case (Some t)
    have "rd ?w t k' = rd v t k'"
      by (rule write_away(1) [OF ok r, of "Tab d' pi' j'"]) (use l Some in auto)
    then show ?thesis using ptw [of d' pi' j'] l Some by (simp add: pte_of_def)
  qed (use ptw [of d' pi' j'] l in \<open>simp add: pte_of_def\<close>)
qed

lemma link_pd:
  assumes ok: "vm_ok v D (E + {#f#} + dir_refs v f)" and dir: "dir_ok v pi f (vrefs v D + (E + {#f#} + dir_refs v f))"
    and d: "d \<in> D" and pi: "pi < PDPT_ENTRIES" and none: "pd_of v d pi = None" and e: "present e" "entry_frame e = f"
  shows "vm_ok (set_entry d pi e v) D E" "same_boot v (set_entry d pi e v)"
    and "vrefs (set_entry d pi e v) D = vrefs v D + {#f#} + dir_refs v f"
    and "pd_of (set_entry d pi e v) d pi = Some f"
    and "\<And>j. pt_of (set_entry d pi e v) d pi j = (if present (rd v f j) then Some (entry_frame (rd v f j)) else None)"
    and "\<And>q. q \<in> tposs D \<Longrightarrow> q \<noteq> Dir d pi \<Longrightarrow> (\<And>j. q \<noteq> Tab d pi j) \<Longrightarrow> tab_at (set_entry d pi e v) q = tab_at v q"
    and "\<And>d' pi' j' k'. (d', pi', j', k') \<in> leafs D \<Longrightarrow> (d', pi') \<noteq> (d, pi) \<Longrightarrow>
          pte_of (set_entry d pi e v) d' pi' j' k' = pte_of v d' pi' j' k'"
proof -
  let ?w = "set_entry d pi e v" and ?M = "vrefs v D + (E + {#f#} + dir_refs v f)"
  note D = vm_okD [OF ok]
  have fresh: "tab_at v q \<noteq> Some f" if "q \<in> tposs D" for q
    using table_unique(3) [OF ok that, of f] by auto
  note W = root_write [OF ok d none e fresh]
  have r: "Root d \<in> tposs D" "tab_at v (Root d) = Some d" using d by simp_all
  have df: "d \<noteq> f" using fresh [OF r(1)] by simp
  show sb: "same_boot v ?w" by (rule write_away(2) [OF ok r])
  show "pd_of ?w d pi = Some f" by (rule W(2))
  show PT: "pt_of ?w d pi j = (if present (rd v f j) then Some (entry_frame (rd v f j)) else None)" for j by (rule W(3))
  show "tab_at ?w q = tab_at v q" if "q \<in> tposs D" "q \<noteq> Dir d pi" "\<And>j. q \<noteq> Tab d pi j" for q using W(1) that by blast
  show "pte_of ?w d' pi' j' k' = pte_of v d' pi' j' k'" if "(d', pi', j', k') \<in> leafs D" "(d', pi') \<noteq> (d, pi)" for d' pi' j' k'
    using W(4) that by blast
  have old: "pt_of v d pi j = None" for j using none by (simp add: pt_of_def)
  let ?S = "insert (Dir d pi) (Tab d pi ` {..<PT_ENTRIES})"
  have S: "?S \<subseteq> tposs D" using d pi by auto
  have split: "(\<Sum>p\<in>tposs D. g p) = (\<Sum>p\<in>tposs D - ?S. g p) + (\<Sum>p\<in>?S. g p)" for g :: "tpos \<Rightarrow> nat multiset"
    using D(1) S by (intro sum.subset_diff) simp_all
  have sumS: "(\<Sum>p\<in>?S. g p) = g (Dir d pi) + (\<Sum>j<PT_ENTRIES. g (Tab d pi j))" for g :: "tpos \<Rightarrow> nat multiset"
  proof -
    have "(\<Sum>p\<in>Tab d pi ` {..<PT_ENTRIES}. g p) = (\<Sum>j<PT_ENTRIES. g (Tab d pi j))"
      by (subst sum.reindex) (auto simp: inj_on_def)
    then show ?thesis by (subst sum.insert) auto
  qed
  have "(\<Sum>p\<in>?S. opt_ref (tab_at ?w p)) = {#f#} + dir_refs v f"
    unfolding sumS by (simp add: W(2) PT dir_refs_def)
  moreover have "(\<Sum>p\<in>?S. opt_ref (tab_at v p)) = {#}" unfolding sumS by (simp add: none old)
  moreover have "(\<Sum>p\<in>tposs D - ?S. opt_ref (tab_at ?w p)) = (\<Sum>p\<in>tposs D - ?S. opt_ref (tab_at v p))"
  proof (rule sum.cong [OF refl])
    fix q assume q: "q \<in> tposs D - ?S"
    then have "q \<noteq> Dir d pi" "q \<noteq> Tab d pi j" for j by auto
    then show "opt_ref (tab_at ?w q) = opt_ref (tab_at v q)" using W(1) [of q] q by simp
  qed
  ultimately have T: "(\<Sum>p\<in>tposs D. opt_ref (tab_at ?w p)) = (\<Sum>p\<in>tposs D. opt_ref (tab_at v p)) + {#f#} + dir_refs v f"
    unfolding split by simp
  have "leaf_ref ?w l = leaf_ref v l" if "l \<in> leafs D" for l
  proof -
    obtain d' pi' j' k' where l: "l = (d', pi', j', k')" by (cases l)
    have b: "pi' < PDPT_ENTRIES" "j' < PT_ENTRIES" "k' < PT_ENTRIES" using that l by simp_all
    have "leaf_ref ?w l = pte_ref v pi' j' k' (pte_of ?w d' pi' j' k')"
      unfolding l by (simp add: pte_ref_same [OF sb D(3) b(1,2)])
    also have "\<dots> = pte_ref v pi' j' k' (pte_of v d' pi' j' k')"
    proof (cases "(d', pi') = (d, pi)")
      case True
      have n: "pte_ref v pi' j' k' 0 = {#}" by (simp add: pte_ref_def freeable_def)
      have "pte_ref v pi' j' k' (pte_of ?w d' pi' j' k') = {#}"
      proof (cases "present (rd v f j')")
        case pr: True
        let ?t = "entry_frame (rd v f j')"
        have s: "sole v ?M ?t" "\<forall>k < PT_ENTRIES. pte_ref v pi j' k (rd v ?t k) = {#}"
          using dir pr b unfolding dir_ok_def by blast+
        have "?t \<in># dir_refs v f" unfolding dir_refs_def using pr b
          by (intro count_sum_ge [of "{..<PT_ENTRIES}" j', simplified, unfolded count_greater_eq_Suc_zero_iff] ) auto
        then have "?t \<noteq> d" using table_unique(3) [OF ok r] by auto
        then show ?thesis using PT [of j'] pr True s(2) b by (simp add: pte_of_def)
      qed (use PT [of j'] True n in \<open>simp add: pte_of_def\<close>)
      then show ?thesis using True old n by (simp add: pte_of_def)
    next
      case False
      then show ?thesis using W(4) [of d' pi' j' k'] that l by simp
    qed
    finally show ?thesis by (simp add: l)
  qed
  then have "sum (leaf_ref ?w) (leafs D) = sum (leaf_ref v) (leafs D)" by (rule sum.cong [OF refl])
  with T show V: "vrefs ?w D = vrefs v D + {#f#} + dir_refs v f" by (simp add: vrefs_def)
  have M: "vrefs ?w D + E = ?M" unfolding V by (simp add: ac_simps)
  show "vm_ok ?w D E"
  proof (rule vm_ok_transfer [OF ok sb D(1)])
    show "acct (vm_fr ?w) (vrefs ?w D + E)" unfolding M using D(4) by simp
    fix q t
    assume q: "q \<in> tposs D" "tab_at ?w q = Some t"
    have "sole v ?M t"
    proof (cases "q \<in> ?S")
      case True
      then consider "q = Dir d pi" | j where "q = Tab d pi j" "j < PT_ENTRIES" by auto
      then show ?thesis
      proof cases
        case 1
        then show ?thesis using q(2) W(2) dir by (simp add: dir_ok_def)
      next
        case 2
        then show ?thesis using q(2) PT [of j] dir by (auto simp: dir_ok_def split: if_splits)
      qed
    next
      case False
      then have "q \<noteq> Dir d pi" "q \<noteq> Tab d pi j" for j using q(1) by auto
      then have "tab_at v q = Some t" using W(1) [of q] q by simp
      then show ?thesis using D(5) [OF q(1)] by simp
    qed
    then show "sole ?w (vrefs ?w D + E) t" unfolding M by (simp add: sole_def)
  qed
qed

end
