(* ===== verification/Vmm_Create.thy ===== *)
theory Vmm_Create
  imports Vmm_Links
begin

text \<open>
  Releasing and creating address spaces. \<open>vmm_free_address_space\<close> gives back every reference
  of the space's tree, and \<open>vmm_create_address_space\<close> builds a tree that translates like the
  boot tables. When memory runs out in the middle of a directory, the half-built directory and
  its tables stay referenced by nobody: the account makes the leak explicit.
\<close>

section \<open>Roots\<close>

lemma tposs_insert: "d \<notin> D \<Longrightarrow> tposs (insert d D) = tposs D \<union> tposs {d} \<and> tposs D \<inter> tposs {d} = {}"
proof (intro conjI set_eqI)
  show "q \<in> tposs (insert d D) \<longleftrightarrow> q \<in> tposs D \<union> tposs {d}" for q by (cases q) auto
  show "d \<notin> D \<Longrightarrow> q \<in> tposs D \<inter> tposs {d} \<longleftrightarrow> q \<in> {}" for q by (cases q) auto
qed

lemma leafs_insert: "d \<notin> D \<Longrightarrow> leafs (insert d D) = leafs D \<union> leafs {d} \<and> leafs D \<inter> leafs {d} = {}"
  by (auto simp: leafs_def)

lemma vrefs_insert:
  assumes "finite D" and "d \<notin> D"
  shows "vrefs v (insert d D) = vrefs v D + vrefs v {d}"
proof -
  have "(\<Sum>p\<in>tposs (insert d D). opt_ref (tab_at v p)) = (\<Sum>p\<in>tposs D. opt_ref (tab_at v p)) + (\<Sum>p\<in>tposs {d}. opt_ref (tab_at v p))"
    using tposs_insert [OF assms(2)] assms(1) by (simp add: sum.union_disjoint)
  moreover have "sum (leaf_ref v) (leafs (insert d D)) = sum (leaf_ref v) (leafs D) + sum (leaf_ref v) (leafs {d})"
    using leafs_insert [OF assms(2)] assms(1) by (simp add: sum.union_disjoint)
  ultimately show ?thesis by (simp add: vrefs_def ac_simps)
qed

text \<open>The references of one space, directory by directory.\<close>

definition pde_refs :: "vmm \<Rightarrow> nat \<Rightarrow> nat \<Rightarrow> nat \<Rightarrow> nat multiset" where
  "pde_refs v pi f j = (if present (rd v f j) then add_mset (entry_frame (rd v f j)) (pt_refs v pi j (entry_frame (rd v f j))) else {#})"

definition pdpte_refs :: "vmm \<Rightarrow> nat \<Rightarrow> nat \<Rightarrow> nat multiset" where
  "pdpte_refs v d pi = (if present (rd v d pi)
     then add_mset (entry_frame (rd v d pi)) (\<Sum>j<PT_ENTRIES. pde_refs v pi (entry_frame (rd v d pi)) j) else {#})"

lemma vrefs_single: "vrefs v {d} = add_mset d (\<Sum>pi<PDPT_ENTRIES. pdpte_refs v d pi)"
proof -
  let ?A = "Root ` {d}" and ?B = "(\<lambda>pi. Dir d pi) ` {..<PDPT_ENTRIES}"
    and ?C = "(\<lambda>(pi, j). Tab d pi j) ` ({..<PDPT_ENTRIES} \<times> {..<PT_ENTRIES})"
  have eq: "tposs {d} = ?A \<union> (?B \<union> ?C)" by (auto simp: tposs_def image_iff)
  have B: "(\<Sum>p\<in>?B. opt_ref (tab_at v p)) = (\<Sum>pi<PDPT_ENTRIES. opt_ref (pd_of v d pi))"
    by (subst sum.reindex) (auto simp: inj_on_def)
  have C: "(\<Sum>p\<in>?C. opt_ref (tab_at v p)) = (\<Sum>pi<PDPT_ENTRIES. \<Sum>j<PT_ENTRIES. opt_ref (pt_of v d pi j))"
    by (subst sum.reindex) (auto simp: inj_on_def sum.cartesian_product intro!: sum.cong)
  have T: "(\<Sum>p\<in>tposs {d}. opt_ref (tab_at v p)) = {#d#} + ((\<Sum>p\<in>?B. opt_ref (tab_at v p)) + (\<Sum>p\<in>?C. opt_ref (tab_at v p)))"
    unfolding eq by (subst sum.union_disjoint, simp, simp, force, subst sum.union_disjoint, simp, simp, force, simp)
  have "leafs {d} = (\<lambda>(pi, j, k). (d, pi, j, k)) ` ({..<PDPT_ENTRIES} \<times> {..<PT_ENTRIES} \<times> {..<PT_ENTRIES})"
    by (auto simp: leafs_def image_iff)
  then have L: "sum (leaf_ref v) (leafs {d})
      = (\<Sum>pi<PDPT_ENTRIES. \<Sum>j<PT_ENTRIES. \<Sum>k<PT_ENTRIES. pte_ref v pi j k (pte_of v d pi j k))"
    by (simp only:) (subst sum.reindex, auto simp: inj_on_def sum.cartesian_product intro!: sum.cong)
  have "opt_ref (pd_of v d pi) + (\<Sum>j<PT_ENTRIES. opt_ref (pt_of v d pi j))
      + (\<Sum>j<PT_ENTRIES. \<Sum>k<PT_ENTRIES. pte_ref v pi j k (pte_of v d pi j k)) = pdpte_refs v d pi" for pi
  proof (cases "present (rd v d pi)")
    case True
    let ?f = "entry_frame (rd v d pi)"
    have "opt_ref (pt_of v d pi j) + (\<Sum>k<PT_ENTRIES. pte_ref v pi j k (pte_of v d pi j k)) = pde_refs v pi ?f j" for j
      using True by (simp add: pde_refs_def pt_refs_def pte_of_def pt_of_def pd_of_def)
    then have "(\<Sum>j<PT_ENTRIES. opt_ref (pt_of v d pi j)) + (\<Sum>j<PT_ENTRIES. \<Sum>k<PT_ENTRIES. pte_ref v pi j k (pte_of v d pi j k))
        = (\<Sum>j<PT_ENTRIES. pde_refs v pi ?f j)" by (simp add: sum.distrib [symmetric])
    then show ?thesis using True by (simp add: pdpte_refs_def pd_of_def)
  next
    case False
    then show ?thesis by (simp add: pdpte_refs_def pd_of_def pt_of_def pte_of_def)
  qed
  then have "(\<Sum>pi<PDPT_ENTRIES. pdpte_refs v d pi) = (\<Sum>pi<PDPT_ENTRIES. opt_ref (pd_of v d pi))
      + (\<Sum>pi<PDPT_ENTRIES. \<Sum>j<PT_ENTRIES. opt_ref (pt_of v d pi j))
      + (\<Sum>pi<PDPT_ENTRIES. \<Sum>j<PT_ENTRIES. \<Sum>k<PT_ENTRIES. pte_ref v pi j k (pte_of v d pi j k))"
    by (simp add: sum.distrib [symmetric])
  then show ?thesis unfolding vrefs_def T B C L by simp
qed

lemma add_root:
  assumes ok: "vm_ok v D (add_mset f E)" and s: "sole v (vrefs v D + add_mset f E) f"
    and zero: "\<And>pi. pi < PDPT_ENTRIES \<Longrightarrow> \<not> present (rd v f pi)"
  shows "f \<notin> D" "vm_ok v (insert f D) E" "vrefs v (insert f D) = add_mset f (vrefs v D)"
proof -
  note D = vm_okD [OF ok]
  show f: "f \<notin> D" using table_unique(3) [OF ok, of "Root f" f] by auto
  have "(\<Sum>pi<PDPT_ENTRIES. pdpte_refs v f pi) = {#}" using zero by (simp add: pdpte_refs_def)
  then show V: "vrefs v (insert f D) = add_mset f (vrefs v D)"
    using vrefs_insert [OF D(1) f, of v] vrefs_single [of v f] by simp
  show "vm_ok v (insert f D) E"
  proof (rule vm_ok_transfer [OF ok same_boot_refl])
    show "finite (insert f D)" using D(1) by simp
    show "acct (vm_fr v) (vrefs v (insert f D) + E)" using D(4) by (simp add: V)
    fix q t
    assume q: "q \<in> tposs (insert f D)" "tab_at v q = Some t"
    have n: "pd_of v f pi = None" if "pi < PDPT_ENTRIES" for pi using zero [OF that] by (simp add: pd_of_def)
    have "q \<in> tposs D \<or> t = f" using q n by (cases q) (auto simp: pt_of_def split: option.splits)
    then show "sole v (vrefs v (insert f D) + E) t" using s D(5) q(2) unfolding V by auto
  qed
qed

lemma drop_root:
  assumes ok: "vm_ok v (insert d D) E" and d: "d \<notin> D"
  shows "vm_ok v D (E + vrefs v {d})"
proof -
  note D = vm_okD [OF ok]
  have V: "vrefs v D + (E + vrefs v {d}) = vrefs v (insert d D) + E"
    using vrefs_insert [of D d v] D(1) d by (simp add: ac_simps)
  have sub: "q \<in> tposs (insert d D)" if "q \<in> tposs D" for q using that by (cases q) auto
  show ?thesis
    by (rule vm_ok_transfer [OF ok same_boot_refl]) (use D(1,4,5) sub in \<open>auto simp: V\<close>)
qed

section \<open>Releasing an address space\<close>

lemma sum_list_upt: "sum_list (map g [0..<n]) = (\<Sum>i<n. g i)" for g :: "nat \<Rightarrow> 'a :: comm_monoid_add"
  by (simp add: interv_sum_list_conv_sum_set_nat atLeast0LessThan)

lemma free_opt:
  assumes ok: "vm_ok v D (E + (if b then {#entry_frame e#} else {#}))" and cid: "cid < MAX_CORES"
  shows "vm_ok (if b then phys_free cid (entry_paddr e) v else v) D E"
    and "same_boot v (if b then phys_free cid (entry_paddr e) v else v)"
    and "rd (if b then phys_free cid (entry_paddr e) v else v) = rd v"
  using ok free_step [OF _ cid, of v D "entry_frame e" E] by (auto simp: free_entry)

lemma free_leaves_list:
  assumes cid: "cid < MAX_CORES" and b: "pi < PDPT_ENTRIES" "j < PT_ENTRIES"
  shows "vm_ok v D (E + sum_list (map (\<lambda>k. pte_ref v pi j k (rd v t k)) ks)) \<Longrightarrow>
    w = fold (\<lambda>e v. if freeable v pi j e (rd v t e) then phys_free cid (entry_paddr (rd v t e)) v else v) ks v \<Longrightarrow>
    vm_ok w D E \<and> same_boot v w \<and> rd w = rd v"
proof (induction ks arbitrary: v)
  case (Cons k ks)
  let ?u = "if freeable v pi j k (rd v t k) then phys_free cid (entry_paddr (rd v t k)) v else v"
  have "vm_ok v D ((E + sum_list (map (\<lambda>k. pte_ref v pi j k (rd v t k)) ks)) + (if freeable v pi j k (rd v t k) then {#entry_frame (rd v t k)#} else {#}))"
    using Cons.prems(1) by (simp add: pte_ref_def ac_simps)
  note F = free_opt [OF this cid]
  have "boot_ok v" using vm_okD(3) [OF Cons.prems(1)] .
  then have "pte_ref ?u pi j k' (rd ?u t k') = pte_ref v pi j k' (rd v t k')" for k'
    using pte_ref_same [OF F(2)] b F(3) by simp
  then have "vm_ok ?u D (E + sum_list (map (\<lambda>k. pte_ref ?u pi j k (rd ?u t k)) ks))" using F(1) by simp
  from Cons.IH [OF this] Cons.prems(2) F(2,3) show ?case by (auto intro: same_boot_trans)
qed simp

lemma free_leaves_ok:
  assumes "cid < MAX_CORES" and "pi < PDPT_ENTRIES" and "j < PT_ENTRIES" and "vm_ok v D (E + pt_refs v pi j t)"
  shows "vm_ok (free_leaves cid pi j t v) D E \<and> same_boot v (free_leaves cid pi j t v) \<and> rd (free_leaves cid pi j t v) = rd v"
  by (rule free_leaves_list [OF assms(1-3)]) (use assms(4) in \<open>simp_all add: pt_refs_def sum_list_upt free_leaves_def\<close>)

lemma pt_refs_same:
  "same_boot v w \<Longrightarrow> boot_ok v \<Longrightarrow> rd w = rd v \<Longrightarrow> pi < PDPT_ENTRIES \<Longrightarrow> j < PT_ENTRIES \<Longrightarrow> pt_refs w pi j t = pt_refs v pi j t"
  by (simp add: pt_refs_def pte_ref_same)

lemma pde_refs_same:
  "same_boot v w \<Longrightarrow> boot_ok v \<Longrightarrow> rd w = rd v \<Longrightarrow> pi < PDPT_ENTRIES \<Longrightarrow> j < PT_ENTRIES \<Longrightarrow> pde_refs w pi f j = pde_refs v pi f j"
  by (simp add: pde_refs_def pt_refs_same)

lemma pdpte_refs_same:
  "same_boot v w \<Longrightarrow> boot_ok v \<Longrightarrow> rd w = rd v \<Longrightarrow> pi < PDPT_ENTRIES \<Longrightarrow> pdpte_refs w d pi = pdpte_refs v d pi"
  by (simp add: pdpte_refs_def pde_refs_same)

lemma free_tables_list:
  assumes cid: "cid < MAX_CORES" and pi: "pi < PDPT_ENTRIES"
  shows "set js \<subseteq> {..<PT_ENTRIES} \<Longrightarrow> vm_ok v D (E + sum_list (map (pde_refs v pi f) js)) \<Longrightarrow>
    w = fold (\<lambda>j v. if present (rd v f j)
                 then phys_free cid (entry_paddr (rd v f j)) (free_leaves cid pi j (entry_frame (rd v f j)) v) else v) js v \<Longrightarrow>
    vm_ok w D E \<and> same_boot v w \<and> rd w = rd v"
proof (induction js arbitrary: v)
  case (Cons j js)
  let ?t = "entry_frame (rd v f j)" and ?R = "sum_list (map (pde_refs v pi f) js)"
  let ?l = "free_leaves cid pi j ?t v"
  let ?u = "if present (rd v f j) then phys_free cid (entry_paddr (rd v f j)) ?l else v"
  have j: "j < PT_ENTRIES" using Cons.prems(1) by simp
  have bo: "boot_ok v" using vm_okD(3) [OF Cons.prems(2)] .
  have U: "vm_ok ?u D (E + ?R) \<and> same_boot v ?u \<and> rd ?u = rd v"
  proof (cases "present (rd v f j)")
    case True
    then have "vm_ok v D ((add_mset ?t (E + ?R)) + pt_refs v pi j ?t)"
      using Cons.prems(2) by (simp add: pde_refs_def [of v pi f j] ac_simps)
    from free_leaves_ok [OF cid pi j this] have L: "vm_ok ?l D (add_mset ?t (E + ?R))" "same_boot v ?l" "rd ?l = rd v" by blast+
    from free_step [OF L(1) cid] L(2,3) same_boot_trans show ?thesis using True by (auto simp: free_entry)
  next
    case False
    then show ?thesis using Cons.prems(2) by (simp add: pde_refs_def [of v pi f j])
  qed
  define u where "u = ?u"
  have U: "vm_ok u D (E + ?R)" "same_boot v u" "rd u = rd v" using U unfolding u_def by blast+
  have "pde_refs u pi f x = pde_refs v pi f x" if "x < PT_ENTRIES" for x by (rule pde_refs_same [OF U(2) bo U(3) pi that])
  then have m: "map (pde_refs u pi f) js = map (pde_refs v pi f) js" using Cons.prems(1) by auto
  have "vm_ok u D (E + sum_list (map (pde_refs u pi f) js))" unfolding m by (rule U(1))
  moreover have "set js \<subseteq> {..<PT_ENTRIES}" using Cons.prems(1) by simp
  moreover note Cons.prems(3) [unfolded fold_Cons o_apply, folded u_def]
  ultimately have "vm_ok w D E \<and> same_boot u w \<and> rd w = rd u" using Cons.IH by blast
  then show ?case using U(2,3) same_boot_trans by metis
qed simp

lemma free_tables_ok:
  assumes "cid < MAX_CORES" and "pi < PDPT_ENTRIES" and "vm_ok v D (E + (\<Sum>j<PT_ENTRIES. pde_refs v pi f j))"
  shows "vm_ok (free_tables cid pi f v) D E \<and> same_boot v (free_tables cid pi f v) \<and> rd (free_tables cid pi f v) = rd v"
  by (rule free_tables_list [OF assms(1,2), of "[0..<PT_ENTRIES]" v D E f])
    (use assms(3) in \<open>auto simp: sum_list_upt free_tables_def\<close>)

lemma free_dirs_list:
  assumes cid: "cid < MAX_CORES"
  shows "set pis \<subseteq> {..<PDPT_ENTRIES} \<Longrightarrow> vm_ok v D (E + sum_list (map (pdpte_refs v d) pis)) \<Longrightarrow>
    w = fold (\<lambda>pi v. if present (rd v d pi)
                      then phys_free cid (entry_paddr (rd v d pi)) (free_tables cid pi (entry_frame (rd v d pi)) v) else v) pis v \<Longrightarrow>
    vm_ok w D E \<and> same_boot v w \<and> rd w = rd v"
proof (induction pis arbitrary: v)
  case (Cons pi pis)
  let ?t = "entry_frame (rd v d pi)" and ?R = "sum_list (map (pdpte_refs v d) pis)"
  let ?l = "free_tables cid pi ?t v"
  let ?u = "if present (rd v d pi) then phys_free cid (entry_paddr (rd v d pi)) ?l else v"
  have pi: "pi < PDPT_ENTRIES" using Cons.prems(1) by simp
  have bo: "boot_ok v" using vm_okD(3) [OF Cons.prems(2)] .
  have U: "vm_ok ?u D (E + ?R) \<and> same_boot v ?u \<and> rd ?u = rd v"
  proof (cases "present (rd v d pi)")
    case True
    then have "vm_ok v D ((add_mset ?t (E + ?R)) + (\<Sum>j<PT_ENTRIES. pde_refs v pi ?t j))"
      using Cons.prems(2) by (simp add: pdpte_refs_def [of v d pi] ac_simps)
    from free_tables_ok [OF cid pi this] have L: "vm_ok ?l D (add_mset ?t (E + ?R))" "same_boot v ?l" "rd ?l = rd v" by blast+
    from free_step [OF L(1) cid] L(2,3) same_boot_trans show ?thesis using True by (auto simp: free_entry)
  next
    case False
    then show ?thesis using Cons.prems(2) by (simp add: pdpte_refs_def [of v d pi])
  qed
  define u where "u = ?u"
  have U: "vm_ok u D (E + ?R)" "same_boot v u" "rd u = rd v" using U unfolding u_def by blast+
  have "pdpte_refs u d x = pdpte_refs v d x" if "x < PDPT_ENTRIES" for x by (rule pdpte_refs_same [OF U(2) bo U(3) that])
  then have m: "map (pdpte_refs u d) pis = map (pdpte_refs v d) pis" using Cons.prems(1) by auto
  have "vm_ok u D (E + sum_list (map (pdpte_refs u d) pis))" unfolding m by (rule U(1))
  moreover have "set pis \<subseteq> {..<PDPT_ENTRIES}" using Cons.prems(1) by simp
  moreover note Cons.prems(3) [unfolded fold_Cons o_apply, folded u_def]
  ultimately have "vm_ok w D E \<and> same_boot u w \<and> rd w = rd u" using Cons.IH by blast
  then show ?case using U(2,3) same_boot_trans by metis
qed simp

lemma free_space_ok:
  assumes cid: "cid < MAX_CORES" and ok: "vm_ok v (insert d D) E" and d: "d \<notin> D"
  shows "vm_ok (vmm_free_address_space cid d v) D E" "same_boot v (vmm_free_address_space cid d v)"
    "rd (vmm_free_address_space cid d v) = rd v"
proof -
  have d0: "d \<noteq> 0" using table_range(4) [OF ok, of "Root d" d] by simp
  have "vm_ok v D ((add_mset d E) + (\<Sum>pi<PDPT_ENTRIES. pdpte_refs v d pi))"
    using drop_root [OF ok d] vrefs_single [of v d] by simp
  then have "vm_ok v D ((add_mset d E) + sum_list (map (pdpte_refs v d) [0..<PDPT_ENTRIES]))" by (simp add: sum_list_upt)
  moreover have "set [0..<PDPT_ENTRIES] \<subseteq> {..<PDPT_ENTRIES}" by auto
  ultimately obtain u where
    u: "u = fold (\<lambda>pi v. if present (rd v d pi)
             then phys_free cid (entry_paddr (rd v d pi)) (free_tables cid pi (entry_frame (rd v d pi)) v) else v) [0..<PDPT_ENTRIES] v"
      "vm_ok u D (add_mset d E)" "same_boot v u" "rd u = rd v" using free_dirs_list [OF cid _ _ refl] by blast
  have w: "vmm_free_address_space cid d v = phys_free cid (d * 4096) u" using d0 u(1) by (simp add: vmm_free_address_space_def)
  from free_step [OF u(2) cid] u(3,4)
  show "vm_ok (vmm_free_address_space cid d v) D E" "same_boot v (vmm_free_address_space cid d v)"
    "rd (vmm_free_address_space cid d v) = rd v" unfolding w by (auto intro: same_boot_trans)
qed

end
