(* ===== verification/Vmm_Map.thy ===== *)
theory Vmm_Map
  imports Vmm_Create
begin

text \<open>
  Walking and mapping. A walk that creates tables changes no translation; a successful
  \<open>vmm_map_page\<close> changes exactly one, hands the caller's reference to the page table and gives
  the replaced entry's reference back; a failed one changes none.
\<close>

section \<open>Data pages stay\<close>

text \<open>\<open>data_kept v D M w M'\<close>: what is held (by \<open>M\<close>) but is no table, and the kernel's own memory,
  still has its contents, is still held and still no table.\<close>

definition is_table :: "vmm \<Rightarrow> nat set \<Rightarrow> nat \<Rightarrow> bool" where
  "is_table v D f \<longleftrightarrow> (\<exists>q\<in>tposs D. tab_at v q = Some f)"

definition data_kept :: "vmm \<Rightarrow> nat set \<Rightarrow> nat multiset \<Rightarrow> vmm \<Rightarrow> nat multiset \<Rightarrow> bool" where
  "data_kept v D M w M' \<longleftrightarrow> (\<forall>f. f \<in># M \<and> \<not> is_table v D f \<longrightarrow> rd w f = rd v f \<and> f \<in># M' \<and> \<not> is_table w D f)"

lemma data_kept_refl [simp]: "data_kept v D M v M"
  by (simp add: data_kept_def)

lemma data_kept_trans [trans]: "data_kept u D M v M' \<Longrightarrow> data_kept v D M' w M'' \<Longrightarrow> data_kept u D M w M''"
  by (simp add: data_kept_def)

lemma kept_fill:
  assumes k: "data_kept v D M w M'" and f: "f \<notin># M" and t: "\<And>q. q \<in> tposs D \<Longrightarrow> tab_at (set_frame f c w) q = tab_at w q"
  shows "data_kept v D M (set_frame f c w) M'"
  unfolding data_kept_def
proof (intro allI impI)
  fix x assume x: "x \<in># M \<and> \<not> is_table v D x"
  then have "rd w x = rd v x \<and> x \<in># M' \<and> \<not> is_table w D x" using k by (simp add: data_kept_def)
  moreover have "x \<noteq> f" using x f by auto
  ultimately show "rd (set_frame f c w) x = rd v x \<and> x \<in># M' \<and> \<not> is_table (set_frame f c w) D x"
    using t by (simp add: is_table_def)
qed

lemma kept_write:
  assumes k: "data_kept v D M w M'" and g: "is_table w D g"
    and t: "\<And>q x. q \<in> tposs D \<Longrightarrow> tab_at (set_entry g i e w) q = Some x \<Longrightarrow> tab_at w q = Some x \<or> x \<notin># M"
    and m: "\<And>x. x \<in># M' \<Longrightarrow> x \<in># M''"
  shows "data_kept v D M (set_entry g i e w) M''"
  unfolding data_kept_def
proof (intro allI impI)
  fix x assume x: "x \<in># M \<and> \<not> is_table v D x"
  then have w: "rd w x = rd v x" "x \<in># M'" "\<not> is_table w D x" using k by (simp_all add: data_kept_def)
  have "x \<noteq> g" using w(3) g by auto
  moreover have "\<not> is_table (set_entry g i e w) D x" using t x w(3) unfolding is_table_def by blast
  ultimately show "rd (set_entry g i e w) x = rd v x \<and> x \<in># M'' \<and> \<not> is_table (set_entry g i e w) D x"
    using w m by (auto simp: fun_eq_iff)
qed

lemma kept_alloc:
  assumes "\<And>f. rd w f = rd v f" and "\<And>q. tab_at w q = tab_at v q" and "\<And>x. x \<in># M \<Longrightarrow> x \<in># M'"
  shows "data_kept v D M w M'"
  using assms by (simp add: data_kept_def is_table_def)

text \<open>A step of the address space layer that leaves every translation of \<open>D\<close> alone; only the
  space \<open>d\<close> may gain tables.\<close>

fun space_of :: "tpos \<Rightarrow> nat" where
  "space_of (Root d) = d" | "space_of (Dir d pi) = d" | "space_of (Tab d pi j) = d"

abbreviation tabs_grow :: "vmm \<Rightarrow> nat set \<Rightarrow> nat \<Rightarrow> vmm \<Rightarrow> bool" where
  "tabs_grow v D d w \<equiv> \<forall>q\<in>tposs D. tab_at w q = tab_at v q \<or> tab_at v q = None \<and> space_of q = d"

definition quiet :: "vmm \<Rightarrow> nat set \<Rightarrow> nat \<Rightarrow> nat multiset \<Rightarrow> vmm \<Rightarrow> bool" where
  "quiet v D d E w \<longleftrightarrow> vm_ok w D E \<and> same_boot v w
     \<and> (\<forall>d pi j k. (d, pi, j, k) \<in> leafs D \<longrightarrow> pte_of w d pi j k = pte_of v d pi j k)
     \<and> data_kept v D (vrefs v D + E) w (vrefs w D + E)
     \<and> (\<forall>q\<in>tposs D. tab_at w q = tab_at v q \<or> tab_at v q = None \<and> space_of q = d)"

lemma quietD:
  assumes "quiet v D d E w"
  shows "vm_ok w D E" "same_boot v w" "\<And>d pi j k. (d, pi, j, k) \<in> leafs D \<Longrightarrow> pte_of w d pi j k = pte_of v d pi j k"
    "data_kept v D (vrefs v D + E) w (vrefs w D + E)"
    "\<And>q. q \<in> tposs D \<Longrightarrow> tab_at w q = tab_at v q \<or> tab_at v q = None \<and> space_of q = d"
  using assms unfolding quiet_def by blast+

lemma quiet_refl: "vm_ok v D E \<Longrightarrow> quiet v D d E v"
  by (simp add: quiet_def)

lemma quiet_trans [trans]: "quiet u D d E v \<Longrightarrow> quiet v D d E w \<Longrightarrow> quiet u D d E w"
proof -
  assume a: "quiet u D d E v" "quiet v D d E w"
  note A = quietD [OF a(1)] and B = quietD [OF a(2)]
  have "tab_at w q = tab_at u q \<or> tab_at u q = None \<and> space_of q = d" if "q \<in> tposs D" for q
    using A(5) [OF that] B(5) [OF that] by auto
  then show ?thesis
    unfolding quiet_def using B(1,3) A(3) same_boot_trans [OF A(2) B(2)] data_kept_trans [OF A(4) B(4)] by simp
qed

section \<open>A fresh, zeroed table\<close>

text \<open>Taking a frame and zeroing it: held by the caller, alone.\<close>

lemma alloc_zeroed:
  assumes ok: "vm_ok v D E" and cid: "cid < MAX_CORES" and a: "phys_alloc cid v = (p, u)"
  shows "p = 0 \<Longrightarrow> quiet v D d E u"
    and "p \<noteq> 0 \<Longrightarrow> \<exists>f. p = f * 4096 \<and> 0 < f \<and> f < 2 ^ 20 \<and> zero_phys_page p u = set_frame f (\<lambda>_. 0) u
      \<and> vm_ok (set_frame f c u) D (add_mset f E) \<and> sole (set_frame f c u) (vrefs (set_frame f c u) D + add_mset f E) f
      \<and> same_boot v (set_frame f c u) \<and> vrefs (set_frame f c u) D = vrefs v D \<and> f \<notin># vrefs v D + E
      \<and> (\<forall>q\<in>tposs D. tab_at (set_frame f c u) q = tab_at v q)
      \<and> (\<forall>d pi j k. (d, pi, j, k) \<in> leafs D \<longrightarrow> pte_of (set_frame f c u) d pi j k = pte_of v d pi j k)
      \<and> data_kept v D (vrefs v D + E) (set_frame f c u) (vrefs v D + add_mset f E)
      \<and> (\<forall>g. g \<noteq> f \<longrightarrow> rd (set_frame f c u) g = rd v g)"
proof -
  note A = alloc_step [OF ok cid a]
  have u: "u = v\<lparr>vm_fr := vm_fr u\<rparr>" using phys_alloc_rd [OF a] by blast
  have vu: "vrefs u D = vrefs v D" using vrefs_fr [OF vm_okD(3) [OF ok]] A(1) u by metis
  have pte: "pte_of u d pi j k = pte_of v d pi j k" for d pi j k
    using A(3) [of "Tab d pi j"] A(2) by (auto simp: pte_of_def split: option.split)
  show "quiet v D d E u" if "p = 0"
    using A(1) A(4) [OF that] pte vu by (auto simp: quiet_def intro!: kept_alloc A)
  assume "p \<noteq> 0"
  from A(5) [OF this] obtain f where f: "p = f * 4096" "0 < f" "f < 2 ^ 20" "vm_ok u D (add_mset f E)"
      "sole u (vrefs u D + add_mset f E) f" "f \<notin># vrefs v D + E" by blast
  have r: "fr_reserved (vm_fr u) \<le> f" "f < fr_total (vm_fr u)" using f(5) by (simp_all add: sole_def)
  note F = fill_step [OF f(4) r(1), where c = c]
  let ?w = "set_frame f c u"
  have T: "tab_at ?w q = tab_at v q" if "q \<in> tposs D" for q using F(4) [OF that] A(3) by simp
  have P: "pte_of ?w d pi j k = pte_of v d pi j k" if l: "(d, pi, j, k) \<in> leafs D" for d pi j k
  proof -
    have "pte_of ?w d pi j k = pte_of u d pi j k"
    proof (rule pte_of_cong [OF _ l])
      fix q t i assume "q \<in> tposs D" "tab_at u q = Some t"
      from table_unique(3) [OF f(4) this] have "t \<noteq> f" by auto
      then show "rd ?w t i = rd u t i" by simp
    qed
    then show ?thesis using pte by simp
  qed
  have "data_kept v D (vrefs v D + E) u (vrefs v D + add_mset f E)" by (rule kept_alloc [OF A(2,3)]) auto
  then have "data_kept v D (vrefs v D + E) ?w (vrefs v D + add_mset f E)"
    by (rule kept_fill [OF _ f(6)]) (use T A(3) in simp)
  moreover have "sole ?w (vrefs ?w D + add_mset f E) f" using f(5) F(3) by (simp add: sole_def)
  moreover have "same_boot v ?w" using same_boot_trans [OF A(1) F(2)] .
  moreover have "rd ?w g = rd v g" if "g \<noteq> f" for g using A(2) that by simp
  ultimately show "\<exists>f. p = f * 4096 \<and> 0 < f \<and> f < 2 ^ 20 \<and> zero_phys_page p u = set_frame f (\<lambda>_. 0) u
      \<and> vm_ok (set_frame f c u) D (add_mset f E) \<and> sole (set_frame f c u) (vrefs (set_frame f c u) D + add_mset f E) f
      \<and> same_boot v (set_frame f c u) \<and> vrefs (set_frame f c u) D = vrefs v D \<and> f \<notin># vrefs v D + E
      \<and> (\<forall>q\<in>tposs D. tab_at (set_frame f c u) q = tab_at v q)
      \<and> (\<forall>d pi j k. (d, pi, j, k) \<in> leafs D \<longrightarrow> pte_of (set_frame f c u) d pi j k = pte_of v d pi j k)
      \<and> data_kept v D (vrefs v D + E) (set_frame f c u) (vrefs v D + add_mset f E)
      \<and> (\<forall>g. g \<noteq> f \<longrightarrow> rd (set_frame f c u) g = rd v g)"
    using f F(1,3) vu T P zero_phys_page_eq [OF r(2)] by (intro exI [of _ f]) auto
qed

lemma walk_entry:
  assumes "0 < f" and "f < 2 ^ 20"
  shows "present (of_nat (f * 4096) OR PAGE_PRESENT)" "entry_frame (of_nat (f * 4096) OR PAGE_PRESENT) = f"
    "present (of_nat (f * 4096) OR PAGE_PRESENT OR PAGE_RW)" "entry_frame (of_nat (f * 4096) OR PAGE_PRESENT OR PAGE_RW) = f"
proof -
  have p: "(f * 4096) mod 4096 = 0" "f * 4096 < 2 ^ 32" using assms(2) by simp_all
  have "\<not> bit (PAGE_PRESENT OR PAGE_RW) n" "\<not> bit PAGE_PRESENT n" if "12 \<le> n" for n
    using that by (auto simp: pte_simps bit_or_iff)
  then show "entry_frame (of_nat (f * 4096) OR PAGE_PRESENT) = f" "entry_frame (of_nat (f * 4096) OR PAGE_PRESENT OR PAGE_RW) = f"
    using entry_paddr_of(2) [OF p, of PAGE_PRESENT] entry_paddr_of(2) [OF p, of "PAGE_PRESENT OR PAGE_RW"] by simp_all
  show "present (of_nat (f * 4096) OR PAGE_PRESENT)" "present (of_nat (f * 4096) OR PAGE_PRESENT OR PAGE_RW)"
    by (simp_all add: pte_simps bit_or_iff del: of_nat_mult)
qed

section \<open>Walks that create tables\<close>

lemma dir_zero: "(\<And>j. rd v f j = 0) \<Longrightarrow> dir_refs v f = {#}"
  by (simp add: dir_refs_def)

lemma space_pd_step:
  assumes ok: "vm_ok v D E" and cid: "cid < MAX_CORES" and d: "d \<in> D" and s: "space_pd cid d va create v = (g, w)"
  shows "quiet v D d E w" and "g \<noteq> 0 \<Longrightarrow> pd_of w d (pdpt_index va) = Some g"
    and "\<not> create \<Longrightarrow> w = v" and "\<not> create \<Longrightarrow> g = (case pd_of v d (pdpt_index va) of None \<Rightarrow> 0 | Some x \<Rightarrow> x)"
proof -
  let ?pi = "pdpt_index va"
  have "quiet v D d E w \<and> (g \<noteq> 0 \<longrightarrow> pd_of w d ?pi = Some g)
      \<and> (\<not> create \<longrightarrow> w = v \<and> g = (case pd_of v d ?pi of None \<Rightarrow> 0 | Some x \<Rightarrow> x))"
  proof (cases "present (rd v d ?pi)")
    case True
    then show ?thesis using s quiet_refl [OF ok] by (auto simp: space_pd_def pd_of_def)
  next
    case none: False
    then have pn: "pd_of v d ?pi = None" by (simp add: pd_of_def)
    show ?thesis
    proof (cases create)
      case False
      then show ?thesis using s none quiet_refl [OF ok] pn by (auto simp: space_pd_def)
    next
      case create: True
      obtain p u where a: "phys_alloc cid v = (p, u)" by fastforce
      note A = alloc_zeroed [OF ok cid a]
      show ?thesis
      proof (cases "p = 0")
        case True
        then show ?thesis using s none create a A(1) by (auto simp: space_pd_def)
      next
        case False
        from A(2) [OF this, where c = "\<lambda>_. 0"] obtain f where f: "p = f * 4096" "0 < f" "f < 2 ^ 20" "zero_phys_page p u = set_frame f (\<lambda>_. 0) u"
          and z: "vm_ok (set_frame f (\<lambda>_. 0) u) D (add_mset f E)" and so: "sole (set_frame f (\<lambda>_. 0) u) (vrefs (set_frame f (\<lambda>_. 0) u) D + add_mset f E) f"
          and sb: "same_boot v (set_frame f (\<lambda>_. 0) u)" and vr: "vrefs (set_frame f (\<lambda>_. 0) u) D = vrefs v D" and new: "f \<notin># vrefs v D + E"
          and tb: "\<And>q. q \<in> tposs D \<Longrightarrow> tab_at (set_frame f (\<lambda>_. 0) u) q = tab_at v q"
          and pt: "\<And>d pi j k. (d, pi, j, k) \<in> leafs D \<Longrightarrow> pte_of (set_frame f (\<lambda>_. 0) u) d pi j k = pte_of v d pi j k"
          and kp: "data_kept v D (vrefs v D + E) (set_frame f (\<lambda>_. 0) u) (vrefs v D + add_mset f E)" by blast
        define z where "z = set_frame f (\<lambda>_. 0) u"
        let ?e = "of_nat p OR PAGE_PRESENT :: u64"
        have e: "present ?e" "entry_frame ?e = f" using walk_entry [OF f(2,3)] by (simp_all add: f(1))
        have w: "w = set_entry d ?pi ?e z" and g: "g = f"
          using s none create a False f(4) e by (auto simp: space_pd_def z_def Let_def)
        have rdz: "rd z f j = 0" for j by (simp add: z_def)
        have dz: "dir_refs z f = {#}" by (rule dir_zero [OF rdz])
        have okz: "vm_ok z D (E + {#f#} + dir_refs z f)" using z by (simp add: z_def [symmetric] dz)
        have dok: "dir_ok z ?pi f (vrefs z D + (E + {#f#} + dir_refs z f))"
          using so by (simp add: dir_ok_def rdz z_def [symmetric] dz)
        have nz: "pd_of z d ?pi = None" using tb [of "Dir d ?pi"] pn d by (simp add: z_def)
        note L = link_pd [OF okz dok d _ nz e, simplified]
        have n: "pt_of w d ?pi j = None" for j using L(5) by (simp add: w rdz)
        have P: "pte_of w d' pi' j' k' = pte_of v d' pi' j' k'" if l: "(d', pi', j', k') \<in> leafs D" for d' pi' j' k'
        proof (cases "(d', pi') = (d, ?pi)")
          case True
          then show ?thesis using n pn by (simp add: pte_of_def pt_of_def)
        next
          case False
          then show ?thesis using L(7) [of d' pi' j' k'] l pt [OF l] by (simp add: w z_def)
        qed
        have "data_kept v D (vrefs v D + E) w (vrefs w D + E)" unfolding w
        proof (rule kept_write [OF kp [folded z_def]])
          show "is_table z D d" using d unfolding is_table_def by (intro bexI [of _ "Root d"]) simp_all
          show "x \<in># vrefs v D + add_mset f E \<Longrightarrow> x \<in># vrefs (set_entry d ?pi ?e z) D + E" for x
            using L(3) vr dz by (auto simp: z_def)
          fix q x assume q: "q \<in> tposs D" "tab_at (set_entry d ?pi ?e z) q = Some x"
          show "tab_at z q = Some x \<or> x \<notin># vrefs v D + E"
          proof (cases "q = Dir d ?pi \<or> (\<exists>j. q = Tab d ?pi j)")
            case True
            then show ?thesis using q L(4) n new by (auto simp: w [symmetric])
          next
            case False
            then show ?thesis using L(6) [OF q(1)] q(2) by auto
          qed
        qed
        moreover have "vm_ok w D E" using L(1) by (simp add: w)
        moreover have "same_boot v w" using same_boot_trans [OF sb [folded z_def] L(2)] by (simp add: w)
        moreover have "tab_at w q = tab_at v q \<or> tab_at v q = None \<and> space_of q = d" if q: "q \<in> tposs D" for q
        proof (cases "q = Dir d ?pi \<or> (\<exists>j. q = Tab d ?pi j)")
          case True
          then show ?thesis using pn by (auto simp: pt_of_def)
        next
          case False
          then show ?thesis using L(6) [OF q] tb [OF q] by (auto simp: w z_def)
        qed
        ultimately have "quiet v D d E w" using P by (simp add: quiet_def)
        then show ?thesis using L(4) create by (simp add: w g)
      qed
    qed
  qed
  then show "quiet v D d E w" and "g \<noteq> 0 \<Longrightarrow> pd_of w d (pdpt_index va) = Some g"
    and "\<not> create \<Longrightarrow> w = v" and "\<not> create \<Longrightarrow> g = (case pd_of v d (pdpt_index va) of None \<Rightarrow> 0 | Some x \<Rightarrow> x)" by blast+
qed

lemma quiet_relink:
  assumes ok: "vm_ok v D E" and p: "Dir d pi \<in> tposs D" "pd_of v d pi = Some g" and j: "j < PT_ENTRIES"
    and e: "present (rd v g j)" "present e" "entry_frame e = entry_frame (rd v g j)"
  shows "quiet v D d E (set_entry g j e v)"
proof -
  note R = relink [OF ok p j e]
  have "data_kept v D (vrefs v D + E) (set_entry g j e v) (vrefs (set_entry g j e v) D + E)"
  proof (rule kept_write [OF data_kept_refl])
    show "is_table v D g" unfolding is_table_def using p by (intro bexI [of _ "Dir d pi"]) simp_all
    show "tab_at v q = Some x \<or> x \<notin># vrefs v D + E" if "q \<in> tposs D" "tab_at (set_entry g j e v) q = Some x" for q x
      using that R(3) [OF that(1)] by simp
    show "x \<in># vrefs (set_entry g j e v) D + E" if "x \<in># vrefs v D + E" for x using that R(5) by simp
  qed
  then show ?thesis using R(1-4) by (simp add: quiet_def)
qed

lemma widen_step:
  assumes ok: "vm_ok v D E" and p: "Dir d pi \<in> tposs D" "pd_of v d pi = Some g" and j: "j < PT_ENTRIES" and e: "present (rd v g j)"
  shows "quiet v D d E (widen g j user v)" "pt_of (widen g j user v) d pi j = pt_of v d pi j"
    "entry_frame (rd (widen g j user v) g j) = entry_frame (rd v g j)" "present (rd (widen g j user v) g j)"
proof -
  have e': "present (rd v g j OR PAGE_USER)" using e by (simp add: pte_simps bit_or_iff)
  have ef: "entry_frame (rd v g j OR PAGE_USER) = entry_frame (rd v g j)" by (simp add: pte_simps)
  have q: "Tab d pi j \<in> tposs D" using p(1) j by simp
  show "quiet v D d E (widen g j user v)"
    using quiet_relink [OF ok p j e e' ef] quiet_refl [OF ok] by (simp add: widen_def)
  show "pt_of (widen g j user v) d pi j = pt_of v d pi j"
    using relink(3) [OF ok p j e e' ef q] by (simp add: widen_def)
  show "entry_frame (rd (widen g j user v) g j) = entry_frame (rd v g j)" "present (rd (widen g j user v) g j)"
    using e e' ef by (simp_all add: widen_def)
qed

lemma pt_refs_0: "(\<And>k. rd v f k = 0) \<Longrightarrow> pt_refs v pi j f = {#}"
  by (simp add: pt_refs_def)

lemma new_pt:
  assumes ok: "vm_ok v D E" and cid: "cid < MAX_CORES" and a: "phys_alloc cid v = (p, u)" and "p \<noteq> 0"
    and d: "Dir d pi \<in> tposs D" "pd_of v d pi = Some g" and j: "j < PT_ENTRIES" and none: "\<not> present (rd v g j)"
  shows "\<exists>f. 0 < f \<and> pt_of (set_entry g j (of_nat p OR PAGE_PRESENT OR PAGE_RW) (zero_phys_page p u)) d pi j = Some f
     \<and> quiet v D d E (set_entry g j (of_nat p OR PAGE_PRESENT OR PAGE_RW) (zero_phys_page p u))
     \<and> pd_of (set_entry g j (of_nat p OR PAGE_PRESENT OR PAGE_RW) (zero_phys_page p u)) d pi = Some g
     \<and> present (of_nat p OR PAGE_PRESENT OR PAGE_RW :: u64) \<and> entry_frame (of_nat p OR PAGE_PRESENT OR PAGE_RW) = f"
proof -
  from alloc_zeroed(2) [OF ok cid a, where c = "\<lambda>_. 0"] \<open>p \<noteq> 0\<close>
  obtain f where f: "p = f * 4096" "0 < f" "f < 2 ^ 20" "zero_phys_page p u = set_frame f (\<lambda>_. 0) u"
          and z: "vm_ok (set_frame f (\<lambda>_. 0) u) D (add_mset f E)" and so: "sole (set_frame f (\<lambda>_. 0) u) (vrefs (set_frame f (\<lambda>_. 0) u) D + add_mset f E) f"
          and sb: "same_boot v (set_frame f (\<lambda>_. 0) u)" and vr: "vrefs (set_frame f (\<lambda>_. 0) u) D = vrefs v D" and new: "f \<notin># vrefs v D + E"
          and tb: "\<And>q. q \<in> tposs D \<Longrightarrow> tab_at (set_frame f (\<lambda>_. 0) u) q = tab_at v q"
          and pt: "\<And>d pi j k. (d, pi, j, k) \<in> leafs D \<Longrightarrow> pte_of (set_frame f (\<lambda>_. 0) u) d pi j k = pte_of v d pi j k"
          and kp: "data_kept v D (vrefs v D + E) (set_frame f (\<lambda>_. 0) u) (vrefs v D + add_mset f E)"
          and rdo: "\<And>x. x \<noteq> f \<Longrightarrow> rd (set_frame f (\<lambda>_. 0) u) x = rd v x" by blast
  define z where "z = set_frame f (\<lambda>_. 0) u"
  let ?e = "of_nat p OR PAGE_PRESENT OR PAGE_RW :: u64"
  let ?w = "set_entry g j ?e z"
  have e: "present ?e" "entry_frame ?e = f" using walk_entry [OF f(2,3)] by (simp_all add: f(1))
  have rdz: "rd z f k = 0" for k by (simp add: z_def)
  have pz: "pt_refs z pi j f = {#}" by (rule pt_refs_0 [OF rdz])
  have okz: "vm_ok z D (E + {#f#} + pt_refs z pi j f)" using z by (simp add: z_def [symmetric] pz)
  have sz: "sole z (vrefs z D + (E + {#f#} + pt_refs z pi j f)) f" using so by (simp add: z_def [symmetric] pz)
  have dz: "pd_of z d pi = Some g" using tb [OF d(1)] d(2) by (simp add: z_def)
  have "g \<noteq> f" using table_unique(3) [OF z [folded z_def] d(1)] dz by auto
  then have nz: "\<not> present (rd z g j)" using rdo none by (simp add: z_def)
  note L = link_pt [OF okz sz d(1) dz j nz e]
  have n: "pt_of v d pi j = None" using d(2) none by (simp add: pt_of_def)
  have P: "pte_of ?w d' pi' j' k' = pte_of v d' pi' j' k'" if l: "(d', pi', j', k') \<in> leafs D" for d' pi' j' k'
  proof (cases "(d', pi', j') = (d, pi, j)")
    case True
    then show ?thesis using L(4) [OF l] rdz n by (simp add: pte_of_def)
  next
    case False
    then show ?thesis using L(4) [OF l] pt [OF l] by (auto simp: z_def)
  qed
  have "data_kept v D (vrefs v D + E) ?w (vrefs ?w D + E)"
  proof (rule kept_write [OF kp [folded z_def]])
    show "is_table z D g" unfolding is_table_def using dz d(1) by (intro bexI [of _ "Dir d pi"]) simp_all
    show "x \<in># vrefs v D + add_mset f E \<Longrightarrow> x \<in># vrefs ?w D + E" for x
      using L(5) vr pz by (auto simp: z_def)
    fix q x assume q: "q \<in> tposs D" "tab_at ?w q = Some x"
    show "tab_at z q = Some x \<or> x \<notin># vrefs v D + E"
      using L(3) [OF q(1)] q(2) new by (auto split: if_splits)
  qed
  moreover have "tab_at ?w q = tab_at v q \<or> tab_at v q = None \<and> space_of q = d" if "q \<in> tposs D" for q
    using L(3) [OF that] tb [OF that] n by (auto simp: z_def)
  ultimately have "quiet v D d E ?w"
    using P L(1) same_boot_trans [OF sb [folded z_def] L(2)] by (simp add: quiet_def)
  moreover have "pt_of ?w d pi j = Some f" using L(3) [of "Tab d pi j"] d(1) j by simp
  moreover have "pd_of ?w d pi = Some g" using L(3) [OF d(1)] dz by simp
  ultimately show ?thesis using f(2) f(4) e by (auto simp: z_def)
qed

lemma space_pt_step:
  assumes ok: "vm_ok v D E" and cid: "cid < MAX_CORES" and d: "d \<in> D" and s: "space_pt cid d va create user v = (t, w)"
  shows "quiet v D d E w" and "t \<noteq> 0 \<Longrightarrow> pt_of w d (pdpt_index va) (pd_index va) = Some t"
    and "\<not> create \<Longrightarrow> \<not> user \<Longrightarrow> w = v \<and> t = (case pt_of v d (pdpt_index va) (pd_index va) of None \<Rightarrow> 0 | Some x \<Rightarrow> x)"
proof -
  let ?pi = "pdpt_index va" and ?j = "pd_index va"
  obtain g v1 where sp: "space_pd cid d va create v = (g, v1)" by fastforce
  note S = space_pd_step [OF ok cid d sp]
  note Q = quietD [OF S(1)]
  have "quiet v D d E w \<and> (t \<noteq> 0 \<longrightarrow> pt_of w d ?pi ?j = Some t)
    \<and> (\<not> create \<and> \<not> user \<longrightarrow> w = v \<and> t = (case pt_of v d ?pi ?j of None \<Rightarrow> 0 | Some x \<Rightarrow> x))"
  proof (cases "g = 0")
    case True
    then have tw: "t = 0" "w = v1" using s sp by (auto simp: space_pt_def)
    have "pt_of v d ?pi ?j = None \<or> pd_of v d ?pi = Some 0" if "\<not> create"
      using S(4) [OF that] True by (auto simp: pt_of_def split: option.splits)
    moreover have "pd_of v d ?pi \<noteq> Some 0" using table_range(4) [OF ok, of "Dir d ?pi"] d by auto
    ultimately show ?thesis using tw S(1,3) by (auto split: option.splits)
  next
    case False
    then have pd: "pd_of v1 d ?pi = Some g" using S(2) by blast
    have dir: "Dir d ?pi \<in> tposs D" using d by simp
    show ?thesis
    proof (cases "present (rd v1 g ?j)")
      case True
      then have tw: "w = widen g ?j user v1" "t = entry_frame (rd (widen g ?j user v1) g ?j)"
        using s sp False by (auto simp: space_pt_def Let_def)
      note W = widen_step [OF Q(1) dir pd index_bounds(2) True]
      have "pt_of v1 d ?pi ?j = Some (entry_frame (rd v1 g ?j))" using pd True by (simp add: pt_of_def)
      then show ?thesis using tw W(2,3) quiet_trans [OF S(1) W(1)] S(3) by (auto simp: widen_def)
    next
      case none: False
      then have pn: "pt_of v1 d ?pi ?j = None" using pd by (simp add: pt_of_def)
      show ?thesis
      proof (cases create)
        case no: False
        then have "t = 0" "w = v1" using s sp False none by (auto simp: space_pt_def)
        then show ?thesis using S(1,3) no pn by auto
      next
        case create: True
        obtain p u where a: "phys_alloc cid v1 = (p, u)" by fastforce
        show ?thesis
        proof (cases "p = 0")
          case True
          then have "t = 0" "w = u" using s sp False none create a by (auto simp: space_pt_def)
          then show ?thesis using quiet_trans [OF S(1) alloc_zeroed(1) [OF Q(1) cid a True]] create by simp
        next
          case p: False
          let ?z = "set_entry g ?j (of_nat p OR PAGE_PRESENT OR PAGE_RW) (zero_phys_page p u)"
          from new_pt [OF Q(1) cid a p dir pd index_bounds(2) none] obtain f where
            f: "0 < f" "pt_of ?z d ?pi ?j = Some f" "quiet v1 D d E ?z" "pd_of ?z d ?pi = Some g"
               "present (rd ?z g ?j)" "entry_frame (rd ?z g ?j) = f" by auto
          note W = widen_step [OF quietD(1) [OF f(3)] dir f(4) index_bounds(2) f(5), of user]
          have tw: "w = widen g ?j user ?z" "t = entry_frame (rd (widen g ?j user ?z) g ?j)"
            using s sp False none create a p by (auto simp: space_pt_def Let_def)
          show ?thesis using tw W(2,3) f(2,6) quiet_trans [OF S(1) quiet_trans [OF f(3) W(1)]] create by simp
        qed
      qed
    qed
  qed
  then show "quiet v D d E w" and "t \<noteq> 0 \<Longrightarrow> pt_of w d (pdpt_index va) (pd_index va) = Some t"
    and "\<not> create \<Longrightarrow> \<not> user \<Longrightarrow> w = v \<and> t = (case pt_of v d (pdpt_index va) (pd_index va) of None \<Rightarrow> 0 | Some x \<Rightarrow> x)" by blast+
qed

chapter \<open>Operations\<close>

text \<open>
  \<open>vmm_map_page\<close>, \<open>vmm_unmap_page\<close>, \<open>vmm_unmap_page_free\<close> and \<open>vmm_alloc_page_at\<close> on a live
  space, as changes of the translation \<open>pte_at\<close> and of the account.
\<close>

section \<open>Pages\<close>

definition page_of :: "u32 \<Rightarrow> u32" where
  "page_of va = drop_bit 12 va"

lemma idx_bits:
  "bit (pt_index va) n \<longleftrightarrow> n < 9 \<and> bit va (12 + n)" "bit (pd_index va) n \<longleftrightarrow> n < 9 \<and> bit va (21 + n)"
  "bit (pdpt_index va) n \<longleftrightarrow> bit va (30 + n)"
proof -
  have m: "bit (0x1FF :: u32) n \<longleftrightarrow> n < 9" for n
  proof -
    have e: "(0x1FF :: u32) = mask 9" by (simp add: mask_eq_exp_minus_1)
    show ?thesis unfolding e bit_mask_iff by auto
  qed
  show "bit (pt_index va) n \<longleftrightarrow> n < 9 \<and> bit va (12 + n)" "bit (pd_index va) n \<longleftrightarrow> n < 9 \<and> bit va (21 + n)"
    "bit (pdpt_index va) n \<longleftrightarrow> bit va (30 + n)"
    unfolding pt_index_def pd_index_def pdpt_index_def bit_unsigned_iff bit_and_iff bit_drop_bit_eq m o_apply
    by (auto dest: bit_imp_le_length)
qed

lemma index_inj:
  assumes "pdpt_index va = pdpt_index vb" and "pd_index va = pd_index vb" and "pt_index va = pt_index vb"
  shows "page_of va = page_of vb"
proof (rule bit_word_eqI)
  fix n assume "n < LENGTH(32)"
  have 1: "bit va (12 + n) = bit vb (12 + n)" if "n < 9" for n using idx_bits(1) [of va n] idx_bits(1) [of vb n] assms(3) that by simp
  have 2: "bit va (21 + n) = bit vb (21 + n)" if "n < 9" for n using idx_bits(2) [of va n] idx_bits(2) [of vb n] assms(2) that by simp
  have 3: "bit va (30 + n) = bit vb (30 + n)" for n using idx_bits(3) [of va n] idx_bits(3) [of vb n] assms(1) by simp
  consider "n < 9" | "9 \<le> n" "n < 18" | "18 \<le> n" by linarith
  then show "bit (page_of va) n = bit (page_of vb) n"
    unfolding page_of_def bit_drop_bit_eq o_apply
  proof cases
    case 2
    then show "bit va (12 + n) = bit vb (12 + n)" using \<open>\<And>n. n < 9 \<Longrightarrow> bit va (21 + n) = bit vb (21 + n)\<close> [of "n - 9"] by simp
  next
    case 3
    then show "bit va (12 + n) = bit vb (12 + n)" using \<open>\<And>n. bit va (30 + n) = bit vb (30 + n)\<close> [of "n - 18"] by simp
  qed (use 1 in blast)
qed

lemma index_page: "page_of va = page_of vb \<Longrightarrow> pdpt_index va = pdpt_index vb \<and> pd_index va = pd_index vb \<and> pt_index va = pt_index vb"
proof -
  assume "page_of va = page_of vb"
  then have b: "bit va (12 + n) = bit vb (12 + n)" for n
    by (metis bit_drop_bit_eq comp_apply page_of_def)
  have b2: "bit va (21 + n) = bit vb (21 + n)" for n using b [of "9 + n"] by simp
  have b3: "bit va (30 + n) = bit vb (30 + n)" for n using b [of "18 + n"] by simp
  show ?thesis
    by (intro conjI bit_eqI) (simp_all add: idx_bits b b2 b3)
qed

section \<open>Writing one translation\<close>

text \<open>The reference an entry carries at an address.\<close>

definition ref_at :: "vmm \<Rightarrow> u32 \<Rightarrow> u64 \<Rightarrow> nat multiset" where
  "ref_at v va e = pte_ref v (pdpt_index va) (pd_index va) (pt_index va) e"

text \<open>\<open>sets_pte v D d va e w\<close>: in \<open>w\<close> the address \<open>va\<close> of space \<open>d\<close> is translated by \<open>e\<close>, and
  everything else is as in \<open>v\<close>.\<close>

definition sets_pte :: "vmm \<Rightarrow> nat set \<Rightarrow> nat \<Rightarrow> u32 \<Rightarrow> u64 \<Rightarrow> vmm \<Rightarrow> bool" where
  "sets_pte v D d va e w \<longleftrightarrow> pte_at w d va = e
     \<and> (\<forall>d' \<in> D. \<forall>va'. (d', page_of va') \<noteq> (d, page_of va) \<longrightarrow> pte_at w d' va' = pte_at v d' va')"

definition same_ptes :: "vmm \<Rightarrow> nat set \<Rightarrow> vmm \<Rightarrow> bool" where
  "same_ptes v D w \<longleftrightarrow> (\<forall>d \<in> D. \<forall>va. pte_at w d va = pte_at v d va)"

lemma quiet_ptes: "quiet v D d E w \<Longrightarrow> same_ptes v D w"
  by (auto simp: same_ptes_def pte_at_def dest!: quietD(3))

lemma ref_at_same: "same_boot v w \<Longrightarrow> boot_ok v \<Longrightarrow> ref_at w va e = ref_at v va e"
  by (simp add: ref_at_def pte_ref_same)

lemma write_pte:
  assumes ok: "vm_ok v D (E + ref_at v va e)" and d: "d \<in> D"
    and t: "pt_of v d (pdpt_index va) (pd_index va) = Some t" and w: "w = set_entry t (pt_index va) e v"
  shows "vm_ok w D (E + ref_at v va (pte_at v d va))" "same_boot v w" "sets_pte v D d va e w"
    "data_kept v D (vrefs v D + (E + ref_at v va e)) w (vrefs w D + (E + ref_at v va (pte_at v d va)))"
    "\<And>q. q \<in> tposs D \<Longrightarrow> tab_at w q = tab_at v q"
proof -
  have l: "(d, pdpt_index va, pd_index va, pt_index va) \<in> leafs D" using d by simp
  have r: "leaf_ref v (d, pdpt_index va, pd_index va, pt_index va) = ref_at v va (pte_at v d va)"
    by (simp add: ref_at_def pte_at_def)
  note O = pt_write_ok [OF ok [unfolded ref_at_def] l t, unfolded r]
  note W = pt_write [OF ok l t, where e = e]
  show ok': "vm_ok w D (E + ref_at v va (pte_at v d va))" and "same_boot v w" unfolding w by (rule O)+
  show T: "tab_at w q = tab_at v q" if "q \<in> tposs D" for q unfolding w by (rule W(1) [OF that])
  show "sets_pte v D d va e w"
    unfolding sets_pte_def
  proof (intro conjI ballI allI impI)
    show "pte_at w d va = e" using W(3) by (simp add: w pte_at_def)
    fix d' va' assume d': "d' \<in> D" and ne: "(d', page_of va') \<noteq> (d, page_of va)"
    have "(d', pdpt_index va', pd_index va', pt_index va') \<noteq> (d, pdpt_index va, pd_index va, pt_index va)"
      using ne index_inj by blast
    then show "pte_at w d' va' = pte_at v d' va'" using W(4) d' by (simp add: w pte_at_def)
  qed
  have M: "vrefs w D + (E + ref_at v va (pte_at v d va)) = vrefs v D + (E + ref_at v va e)"
    using W(5) unfolding r by (metis (no_types, opaque_lifting) ref_at_def w add.assoc add.commute)
  show "data_kept v D (vrefs v D + (E + ref_at v va e)) w (vrefs w D + (E + ref_at v va (pte_at v d va)))"
    unfolding M unfolding w
  proof (rule kept_write [OF data_kept_refl])
    show "is_table v D t" unfolding is_table_def using t d by (intro bexI [of _ "Tab d (pdpt_index va) (pd_index va)"]) simp_all
  qed (use T w in auto)
qed

section \<open>The operations\<close>

lemma map_page_ok:
  assumes ok: "vm_ok v D (E + ref_at v va (pte_of_flags pa fl))" and cid: "cid < MAX_CORES" and d: "d \<in> D"
    and m: "vmm_map_page cid d va pa fl v = (r, w)"
  shows "r = 0 \<Longrightarrow> vm_ok w D (E + ref_at v va (pte_at v d va)) \<and> sets_pte v D d va (pte_of_flags pa fl) w \<and> same_boot v w
      \<and> data_kept v D (vrefs v D + (E + ref_at v va (pte_of_flags pa fl))) w (vrefs w D + (E + ref_at v va (pte_at v d va))) \<and> tabs_grow v D d w"
    and "r \<noteq> 0 \<Longrightarrow> r = -1 \<and> quiet v D d (E + ref_at v va (pte_of_flags pa fl)) w"
proof -
  let ?e = "pte_of_flags pa fl"
  have d0: "d \<noteq> 0" using table_range(4) [OF ok, of "Root d" d] d by simp
  obtain t v1 where s: "space_pt cid d va True (has fl PAGE_USER) v = (t, v1)" by fastforce
  note S = space_pt_step [OF ok cid d s]
  note Q = quietD [OF S(1)]
  note bo = vm_okD(3) [OF ok]
  show "r \<noteq> 0 \<Longrightarrow> r = -1 \<and> quiet v D d (E + ref_at v va ?e) w"
    using m d0 s S(1) by (auto simp: vmm_map_page_def split: if_splits)
  assume r0: "r = 0"
  then have t0: "t \<noteq> 0" and w: "w = set_entry t (pt_index va) ?e v1"
    using m d0 s by (auto simp: vmm_map_page_def split: if_splits)
  have r: "ref_at v1 va e = ref_at v va e" for e by (rule ref_at_same [OF Q(2) bo])
  have p: "pte_at v1 d va = pte_at v d va" using Q(3) d by (simp add: pte_at_def)
  have "vm_ok v1 D (E + ref_at v1 va ?e)" using Q(1) r by simp
  note W = write_pte [OF this d S(2) [OF t0] w, unfolded r p]
  have "sets_pte v D d va ?e w"
    using W(3) quiet_ptes [OF S(1)] by (simp add: sets_pte_def same_ptes_def)
  then show "vm_ok w D (E + ref_at v va (pte_at v d va)) \<and> sets_pte v D d va ?e w \<and> same_boot v w
      \<and> data_kept v D (vrefs v D + (E + ref_at v va ?e)) w (vrefs w D + (E + ref_at v va (pte_at v d va))) \<and> tabs_grow v D d w"
    using W(1,2,4,5) same_boot_trans [OF Q(2)] data_kept_trans [OF Q(4)] Q(5) by simp
qed

lemma ref_at_0 [simp]: "ref_at v va 0 = {#}"
  by (simp add: ref_at_def)

lemma unmap_ok:
  assumes ok: "vm_ok v D E" and cid: "cid < MAX_CORES" and d: "d \<in> D" and m: "vmm_unmap_page cid cr3 d va v = (r, w)"
  shows "present (pte_at v d va) \<Longrightarrow> r = 0 \<and> vm_ok w D (E + ref_at v va (pte_at v d va)) \<and> sets_pte v D d va 0 w
       \<and> data_kept v D (vrefs v D + E) w (vrefs w D + (E + ref_at v va (pte_at v d va)))"
    and "\<not> present (pte_at v d va) \<Longrightarrow> r = -1 \<and> w = v"
proof -
  have d0: "d \<noteq> 0" using table_range(4) [OF ok, of "Root d" d] d by simp
  obtain t v1 where s: "space_pt cid d va False False v = (t, v1)" by fastforce
  have v1: "v1 = v" and t: "t = (case pt_of v d (pdpt_index va) (pd_index va) of None \<Rightarrow> 0 | Some x \<Rightarrow> x)"
    using space_pt_step(3) [OF ok cid d s] by simp_all
  have nz: "pt_of v d (pdpt_index va) (pd_index va) \<noteq> Some 0"
    using table_range(4) [OF ok, of "Tab d (pdpt_index va) (pd_index va)"] d by auto
  have res: "(r, w) = (if t = 0 \<or> \<not> present (rd v t (pt_index va)) then (-1, v) else (0, set_entry t (pt_index va) 0 v))"
    using m d0 s v1 by (auto simp: vmm_unmap_page_def)
  have pe: "pte_at v d va = (if t = 0 then 0 else rd v t (pt_index va))"
    using t nz by (auto simp: pte_at_def pte_of_def split: option.splits)
  show "\<not> present (pte_at v d va) \<Longrightarrow> r = -1 \<and> w = v" using res pe by (auto split: if_splits)
  assume "present (pte_at v d va)"
  then have t0: "t \<noteq> 0" and w: "w = set_entry t (pt_index va) 0 v" and r: "r = 0" using res pe by (auto split: if_splits)
  have pt: "pt_of v d (pdpt_index va) (pd_index va) = Some t" using t t0 by (auto split: option.splits)
  have "vm_ok v D (E + ref_at v va 0)" using ok by simp
  from write_pte [OF this d pt w] r
  show "r = 0 \<and> vm_ok w D (E + ref_at v va (pte_at v d va)) \<and> sets_pte v D d va 0 w
      \<and> data_kept v D (vrefs v D + E) w (vrefs w D + (E + ref_at v va (pte_at v d va)))" by simp
qed

lemma unmap_free_ok:
  assumes ok: "vm_ok v D E" and cid: "cid < MAX_CORES" and d: "d \<in> D" and m: "vmm_unmap_page_free cid d va v = (p, w)"
  shows "present (pte_at v d va) \<Longrightarrow> p = entry_paddr (pte_at v d va) \<and> vm_ok w D (E + ref_at v va (pte_at v d va)) \<and> sets_pte v D d va 0 w"
    and "\<not> present (pte_at v d va) \<Longrightarrow> p = 0 \<and> w = v"
proof -
  have d0: "d \<noteq> 0" using table_range(4) [OF ok, of "Root d" d] d by simp
  obtain t v1 where s: "space_pt cid d va False False v = (t, v1)" by fastforce
  have v1: "v1 = v" and t: "t = (case pt_of v d (pdpt_index va) (pd_index va) of None \<Rightarrow> 0 | Some x \<Rightarrow> x)"
    using space_pt_step(3) [OF ok cid d s] by simp_all
  have nz: "pt_of v d (pdpt_index va) (pd_index va) \<noteq> Some 0"
    using table_range(4) [OF ok, of "Tab d (pdpt_index va) (pd_index va)"] d by auto
  have res: "(p, w) = (if t = 0 \<or> \<not> present (rd v t (pt_index va)) then (0, v)
      else (entry_paddr (rd v t (pt_index va)), set_entry t (pt_index va) 0 v))"
    using m d0 s v1 by (auto simp: vmm_unmap_page_free_def Let_def split: if_splits)
  have pe: "pte_at v d va = (if t = 0 then 0 else rd v t (pt_index va))"
    using t nz by (auto simp: pte_at_def pte_of_def split: option.splits)
  show "\<not> present (pte_at v d va) \<Longrightarrow> p = 0 \<and> w = v" using res pe by (auto split: if_splits)
  assume "present (pte_at v d va)"
  then have t0: "t \<noteq> 0" and w: "w = set_entry t (pt_index va) 0 v" and p: "p = entry_paddr (pte_at v d va)"
    using res pe by (auto split: if_splits)
  have pt: "pt_of v d (pdpt_index va) (pd_index va) = Some t" using t t0 by (auto split: option.splits)
  have "vm_ok v D (E + ref_at v va 0)" using ok by simp
  from write_pte [OF this d pt w] p
  show "p = entry_paddr (pte_at v d va) \<and> vm_ok w D (E + ref_at v va (pte_at v d va)) \<and> sets_pte v D d va 0 w" by simp
qed

text \<open>A user page over a fresh frame always carries its reference: it cannot be mistaken for a
  boot entry.\<close>

lemma ref_user:
  assumes "boot_ok v" and "fr_reserved (vm_fr v) \<le> f" and "entry_frame e = f" and "present e"
    and "has e PAGE_USER" and "\<not> has e PAGE_DEV"
  shows "ref_at v va e = {#f#}"
proof -
  have "e AND PTE_CMP_MASK \<noteq> b AND PTE_CMP_MASK" if "\<not> has b PAGE_USER" for b
  proof
    assume "e AND PTE_CMP_MASK = b AND PTE_CMP_MASK"
    then have "bit (e AND PTE_CMP_MASK) 2 = bit (b AND PTE_CMP_MASK) 2" by simp
    moreover have "bit PTE_CMP_MASK 2" unfolding PTE_CMP_MASK_def by simp
    ultimately show False using assms(5) that by (simp add: bit_and_iff pte_simps)
  qed
  then have "freeable v (pdpt_index va) (pd_index va) (pt_index va) e"
    using assms by (auto simp: freeable_def boot_ok_def entry_paddr_frame)
  then show ?thesis using assms(3) by (simp add: ref_at_def pte_ref_def)
qed

lemma ref_subset: "ref_at v va e = {#} \<or> ref_at v va e = {#entry_frame e#}"
  by (simp add: ref_at_def pte_ref_def)

end
