(* ===== verification/Vmm_New.thy ===== *)
theory Vmm_New
  imports Vmm_Map
begin

text \<open>
  \<open>vmm_create_address_space\<close>: the loops that copy the boot tables, and what the new space
  translates.
\<close>

section \<open>Copies of the boot tables\<close>

definition boot_pte :: "vmm \<Rightarrow> nat \<Rightarrow> nat \<Rightarrow> nat \<Rightarrow> u64" where
  "boot_pte v pi j k = (if present (boot_pde v pi j) then rd v (entry_frame (boot_pde v pi j)) k else 0)"

text \<open>Slot \<open>j\<close> of the directory \<open>f\<close> under construction is a copy of the boot slot.\<close>

definition built :: "vmm \<Rightarrow> nat \<Rightarrow> nat \<Rightarrow> nat \<Rightarrow> bool" where
  "built v pi f j \<longleftrightarrow> (present (rd v f j) \<longleftrightarrow> present (boot_pde v pi j))
     \<and> (present (boot_pde v pi j) \<longrightarrow> rd v (entry_frame (rd v f j)) = rd v (entry_frame (boot_pde v pi j)))"

lemma boot_ref_none:
  assumes "boot_ok v" and "present (boot_pde v pi j)" and "e = rd v (entry_frame (boot_pde v pi j)) k"
  shows "pte_ref v pi j k e = {#}"
  using assms by (simp add: pte_ref_def freeable_def)

lemma alloc_sole:
  assumes "vm_ok v D E" and "cid < MAX_CORES" and "phys_alloc cid v = (p, w)" and "sole v N t" and "count M t = count N t"
  shows "sole w M t"
proof -
  from phys_alloc_rd [OF assms(3)] have "frame_alloc cid (vm_fr v) = (p, vm_fr w)" by blast
  from frame_alloc_pins [OF acct_ok [OF vm_okD(4) [OF assms(1)]] assms(2) this] assms(4,5)
  show ?thesis by (simp add: sole_def pins_kept_def)
qed

lemma dir_ok_table:
  assumes ok: "vm_ok v D (E + {#f#} + dir_refs v f)" and dir: "dir_ok v pi f (vrefs v D + (E + {#f#} + dir_refs v f))"
    and j: "j < PT_ENTRIES" "present (rd v f j)"
  shows "entry_frame (rd v f j) \<noteq> f" "entry_frame (rd v f j) \<in># dir_refs v f"
proof -
  let ?t = "entry_frame (rd v f j)"
  have "Suc 0 \<le> count (dir_refs v f) ?t" unfolding dir_refs_def
    by (rule count_sum_ge [of _ j]) (use j in auto)
  then show i: "?t \<in># dir_refs v f" by simp
  have "count (dir_refs v f) f = 0" using dir by (simp add: dir_ok_def sole_def)
  then show "?t \<noteq> f" using i by (metis not_in_iff)
qed

text \<open>One more table in the directory under construction.\<close>

lemma create_pt_step:
  assumes ok: "vm_ok v D (E + {#f#} + dir_refs v f)" and dir: "dir_ok v pi f (vrefs v D + (E + {#f#} + dir_refs v f))"
    and cid: "cid < MAX_CORES" and pi: "pi < PDPT_ENTRIES" and j: "j < PT_ENTRIES" "\<not> present (rd v f j)" "present (boot_pde v pi j)"
    and a: "phys_alloc cid v = (p, u)" and p: "p \<noteq> 0"
    and w: "w = set_entry f j (of_nat p OR (boot_pde u2 pi j AND 0xFFF)) u2"
    and u2: "u2 = set_frame (p div 4096) (rd u (entry_frame (boot_pde u pi j))) u"
  shows "vm_ok w D (E + {#f#} + dir_refs w f)" "dir_ok w pi f (vrefs w D + (E + {#f#} + dir_refs w f))"
    "same_boot v w" "vrefs w D = vrefs v D" "\<And>q. q \<in> tposs D \<Longrightarrow> tab_at w q = tab_at v q"
    "\<And>x. x \<in># vrefs v D + (E + dir_refs v f) \<Longrightarrow> x \<noteq> f \<Longrightarrow> rd w x = rd v x"
    "built w pi f j" "\<And>i. i < PT_ENTRIES \<Longrightarrow> i \<noteq> j \<Longrightarrow> built v pi f i \<Longrightarrow> built w pi f i"
    "\<And>i. i \<noteq> j \<Longrightarrow> rd w f i = rd v f i"
proof -
  let ?E = "E + {#f#} + dir_refs v f"
  let ?M = "vrefs v D + ?E"
  note bo = vm_okD(3) [OF ok]
  have fr: "fr_reserved (vm_fr v) \<le> f" and f1: "count ?M f = 1" using dir by (simp_all add: dir_ok_def sole_def)
  let ?B = "rd v (entry_frame (boot_pde v pi j))"
  note A = alloc_step [OF ok cid a]
  from alloc_zeroed(2) [OF ok cid a p, where c = ?B] obtain t where t: "p = t * 4096" "0 < t" "t < 2 ^ 20"
      and z: "vm_ok (set_frame t ?B u) D (add_mset t ?E)" and so: "sole (set_frame t ?B u) (vrefs (set_frame t ?B u) D + add_mset t ?E) t"
      and sb: "same_boot v (set_frame t ?B u)" and vr: "vrefs (set_frame t ?B u) D = vrefs v D" and new: "t \<notin># ?M"
      and tb: "\<And>q. q \<in> tposs D \<Longrightarrow> tab_at (set_frame t ?B u) q = tab_at v q"
      and rdo: "\<And>x. x \<noteq> t \<Longrightarrow> rd (set_frame t ?B u) x = rd v x" by blast
  have u2': "u2 = set_frame t ?B u"
    using A(2) same_boot_pde [OF A(1) bo pi] by (simp add: u2 t(1))
  have bde: "boot_pde u2 pi j = boot_pde v pi j" using same_boot_pde [OF sb bo pi] by (simp add: u2')
  let ?e = "of_nat p OR (boot_pde v pi j AND 0xFFF) :: u64"
  have e: "present ?e" "entry_frame ?e = t"
  proof -
    show "present ?e" using j(3) by (simp add: pte_simps bit_or_iff)
    have "\<not> bit (boot_pde v pi j AND 0xFFF) n" if "12 \<le> n" for n using that by (simp add: pte_simps)
    then show "entry_frame ?e = t" using entry_paddr_of(2) [of p "boot_pde v pi j AND 0xFFF"] t by simp
  qed
  have wf: "w = set_frame f ((rd u2 f)(j := ?e)) u2" by (simp add: w bde set_entry_def set_frame_def)
  have r2: "fr_reserved (vm_fr u2) \<le> f" using fr sb by (simp add: u2' same_boot_def)
  have "vm_ok u2 D (add_mset f (E + dir_refs v f + {#t#}))" using z by (simp add: u2' add_mset_commute)
  note F = fill_step [OF this r2, where c = "(rd u2 f)(j := ?e)", folded wf]
  have tf: "t \<noteq> f" using new by auto
  have rdf: "rd w f i = (if i = j then ?e else rd v f i)" for i using rdo [of f] tf by (simp add: wf u2')
  have rdt: "rd w t = ?B" using tf by (simp add: wf u2')
  have rdx: "rd w x = rd v x" if "x \<noteq> t" "x \<noteq> f" for x using rdo [OF that(1)] that by (simp add: wf u2')
  have dr: "dir_refs w f = dir_refs v f + {#t#}"
  proof -
    have "dir_refs w f + opt_ref (if present (rd v f j) then Some (entry_frame (rd v f j)) else None)
        = dir_refs v f + opt_ref (if present (rd w f j) then Some (entry_frame (rd w f j)) else None)"
      unfolding dir_refs_def by (rule sum_point) (use j(1) rdf in auto)
    then show ?thesis using j(2) e by (simp add: rdf)
  qed
  show ok': "vm_ok w D (E + {#f#} + dir_refs w f)" using F(1) by (simp add: dr add_mset_commute)
  show sbw: "same_boot v w" using same_boot_trans [OF sb [folded u2'] F(2)] .
  show vw: "vrefs w D = vrefs v D" using F(3) vr by (simp add: u2')
  show "tab_at w q = tab_at v q" if "q \<in> tposs D" for q using F(4) [OF that] tb [OF that] by (simp add: u2')
  show "rd w x = rd v x" if "x \<in># vrefs v D + (E + dir_refs v f)" "x \<noteq> f" for x
  proof (rule rdx)
    show "x \<noteq> t" using that(1) new by auto
  qed (rule that)
  show "rd w f i = rd v f i" if "i \<noteq> j" for i using rdf that by simp
  have bw: "boot_pde w pi i = boot_pde v pi i" for i using same_boot_pde [OF sbw bo pi] .
  have bt: "rd w (entry_frame (boot_pde w pi i)) = rd v (entry_frame (boot_pde v pi i))" if "i < PT_ENTRIES" "present (boot_pde v pi i)" for i
  proof -
    have "entry_frame (boot_pde v pi i) < fr_reserved (vm_fr v)" using bo that pi by (simp add: boot_ok_def)
    then have "rd w (entry_frame (boot_pde v pi i)) = rd v (entry_frame (boot_pde v pi i))" using sbw by (simp add: same_boot_def)
    then show ?thesis by (simp only: bw)
  qed
  show "built w pi f j" using e j(3) bt [OF j(1,3)] by (simp add: built_def bw rdf rdt)
  have old: "entry_frame (rd v f i) \<noteq> t \<and> entry_frame (rd v f i) \<noteq> f" if "i < PT_ENTRIES" "present (rd v f i)" for i
    using dir_ok_table [OF ok dir that] new by auto
  show "built w pi f i" if "i < PT_ENTRIES" "i \<noteq> j" "built v pi f i" for i
    using that old [of i] bt [of i] rdx by (auto simp: built_def bw rdf)
  have cnt: "count (vrefs w D + (E + {#f#} + dir_refs w f)) x = count ?M x + (if x = t then 1 else 0)" for x
    by (simp add: vw dr)
  have sol: "sole w (vrefs w D + (E + {#f#} + dir_refs w f)) x" if "sole v ?M x" for x
  proof -
    have "x \<noteq> t" using that new by (auto simp: sole_def not_in_iff)
    then have "sole u (vrefs w D + (E + {#f#} + dir_refs w f)) x"
      using alloc_sole [OF ok cid a that] cnt by simp
    then show ?thesis by (simp add: sole_def wf u2')
  qed
  have solt: "sole w (vrefs w D + (E + {#f#} + dir_refs w f)) t"
  proof -
    have "count ?M t = 0" using new by (simp only: not_in_iff)
    moreover have "vm_fr w = vm_fr u" by (simp add: wf u2')
    moreover have "vm_fr (set_frame t ?B u) = vm_fr u" by simp
    ultimately show ?thesis using so unfolding sole_def cnt by simp
  qed
  show "dir_ok w pi f (vrefs w D + (E + {#f#} + dir_refs w f))"
    unfolding dir_ok_def
  proof (intro conjI allI impI)
    show "sole w (vrefs w D + (E + {#f#} + dir_refs w f)) f" using dir sol by (simp add: dir_ok_def)
    fix i assume i: "i < PT_ENTRIES" "present (rd w f i)"
    show "sole w (vrefs w D + (E + {#f#} + dir_refs w f)) (entry_frame (rd w f i))"
      using i dir sol solt e by (cases "i = j") (simp_all add: rdf dir_ok_def)
    fix k assume k: "k < PT_ENTRIES"
    show "pte_ref w pi i k (rd w (entry_frame (rd w f i)) k) = {#}"
    proof (cases "i = j")
      case True
      then show ?thesis using e boot_ref_none [OF boot_ok_same [OF sbw bo], of pi j] bt [OF j(1,3)] bw j(3) by (simp add: rdf rdt)
    next
      case False
      then have "present (rd v f i)" using i by (simp add: rdf)
      then show ?thesis using dir i k old [OF i(1)] rdx False
        by (simp add: rdf dir_ok_def pte_ref_same [OF sbw bo pi i(1)])
    qed
  qed
qed

lemma create_pts_ok:
  assumes cid: "cid < MAX_CORES" and pi: "pi < PDPT_ENTRIES"
  shows "vm_ok v D (E + {#f#} + dir_refs v f) \<Longrightarrow> dir_ok v pi f (vrefs v D + (E + {#f#} + dir_refs v f)) \<Longrightarrow>
    set js \<subseteq> {..<PT_ENTRIES} \<Longrightarrow> distinct js \<Longrightarrow> (\<And>j. j \<in> set js \<Longrightarrow> \<not> present (rd v f j)) \<Longrightarrow>
    (\<And>j. j < PT_ENTRIES \<Longrightarrow> j \<notin> set js \<Longrightarrow> built v pi f j) \<Longrightarrow> create_pts cid pi f js v = (b, w) \<Longrightarrow>
    vm_ok w D (E + {#f#} + dir_refs w f) \<and> dir_ok w pi f (vrefs w D + (E + {#f#} + dir_refs w f))
    \<and> same_boot v w \<and> vrefs w D = vrefs v D \<and> (\<forall>q\<in>tposs D. tab_at w q = tab_at v q)
    \<and> (\<forall>x. x \<in># vrefs v D + E \<and> x \<noteq> f \<longrightarrow> rd w x = rd v x)
    \<and> (b \<longrightarrow> (\<forall>j < PT_ENTRIES. built w pi f j))"
proof (induction js arbitrary: v)
  case Nil
  then show ?case by auto
next
  case (Cons j js)
  note ok = Cons.prems(1) and dir = Cons.prems(2)
  have j: "j < PT_ENTRIES" "\<not> present (rd v f j)" "j \<notin> set js" using Cons.prems(3-5) by auto
  show ?case
  proof (cases "present (boot_pde v pi j)")
    case False
    have "built v pi f i" if "i < PT_ENTRIES" "i \<notin> set js" for i
      using Cons.prems(6) [OF that(1)] that False j by (cases "i = j") (auto simp: built_def)
    then show ?thesis using Cons.IH [OF ok dir] Cons.prems(3-5,7) False by auto
  next
    case True
    obtain p u where a: "phys_alloc cid v = (p, u)" by fastforce
    note A = alloc_step [OF ok cid a]
    show ?thesis
    proof (cases "p = 0")
      case p0: True
      then have res: "b = False" "w = u" using Cons.prems(7) True a by auto
      have rdw: "rd u = rd v" by (rule ext) (rule A(2))
      have vw: "vrefs u D = vrefs v D"
        using vrefs_fr [OF vm_okD(3) [OF ok]] A(1) phys_alloc_rd [OF a] by metis
      have dr: "dir_refs u f = dir_refs v f" unfolding dir_refs_def rdw ..
      have "dir_ok u pi f (vrefs u D + (E + {#f#} + dir_refs u f))"
        using dir alloc_sole [OF ok cid a _ refl] unfolding dir_ok_def vw dr rdw
        by (simp add: pte_ref_same [OF A(1) vm_okD(3) [OF ok] pi])
      then show ?thesis using A(1,3) A(4) [OF p0] vw dr rdw by (simp add: res)
    next
      case False
      define u2 where "u2 = set_frame (p div 4096) (rd u (entry_frame (boot_pde u pi j))) u"
      define v3 where "v3 = set_entry f j (of_nat p OR (boot_pde u2 pi j AND 0xFFF)) u2"
      have rec: "create_pts cid pi f js v3 = (b, w)"
        using Cons.prems(7) True a False by (simp add: Let_def u2_def v3_def)
      note S = create_pt_step [OF ok dir cid pi j(1,2) True a False v3_def u2_def]
      have np: "\<not> present (rd v3 f i)" if "i \<in> set js" for i
      proof -
        have "i \<noteq> j" using that j(3) by auto
        then show ?thesis using S(9) [of i] Cons.prems(5) [of i] that by simp
      qed
      have bu: "built v3 pi f i" if "i < PT_ENTRIES" "i \<notin> set js" for i
        using S(7) S(8) [OF that(1)] Cons.prems(6) [OF that(1)] that by (cases "i = j") auto
      have sub: "set js \<subseteq> {..<PT_ENTRIES}" "distinct js" using Cons.prems(3,4) by simp_all
      have "vm_ok w D (E + {#f#} + dir_refs w f) \<and> dir_ok w pi f (vrefs w D + (E + {#f#} + dir_refs w f))
        \<and> same_boot v3 w \<and> vrefs w D = vrefs v3 D \<and> (\<forall>q\<in>tposs D. tab_at w q = tab_at v3 q)
        \<and> (\<forall>x. x \<in># vrefs v3 D + E \<and> x \<noteq> f \<longrightarrow> rd w x = rd v3 x)
        \<and> (b \<longrightarrow> (\<forall>j < PT_ENTRIES. built w pi f j))"
        by (rule Cons.IH [OF S(1,2) sub np bu rec])
      then show ?thesis using S(4-6) same_boot_trans [OF S(3)] by auto
    qed
  qed
qed

section \<open>A copied slot\<close>

text \<open>Slot \<open>pi\<close> of the space \<open>d\<close> has a table exactly where the boot tables have one, and
  translates like them.\<close>

definition copied :: "vmm \<Rightarrow> nat \<Rightarrow> nat \<Rightarrow> bool" where
  "copied v d pi \<longleftrightarrow> (pd_of v d pi \<noteq> None \<longleftrightarrow> present (boot_pdpte v pi))
     \<and> (\<forall>j < PT_ENTRIES. (pt_of v d pi j \<noteq> None \<longleftrightarrow> present (boot_pdpte v pi) \<and> present (boot_pde v pi j))
          \<and> (\<forall>k < PT_ENTRIES. pte_of v d pi j k = (if present (boot_pdpte v pi) then boot_pte v pi j k else 0)))"

text \<open>The positions outside a set of slots of \<open>d\<close> are as before.\<close>

definition same_outside :: "vmm \<Rightarrow> nat set \<Rightarrow> nat \<Rightarrow> nat set \<Rightarrow> vmm \<Rightarrow> bool" where
  "same_outside v D d P w \<longleftrightarrow> (\<forall>d' \<in> D. \<forall>pi < PDPT_ENTRIES. \<not> (d' = d \<and> pi \<in> P) \<longrightarrow>
     pd_of w d' pi = pd_of v d' pi \<and> (\<forall>j < PT_ENTRIES. pt_of w d' pi j = pt_of v d' pi j
       \<and> (\<forall>k < PT_ENTRIES. pte_of w d' pi j k = pte_of v d' pi j k)))"

lemma same_outside_refl [simp]: "same_outside v D d P v"
  by (simp add: same_outside_def)

lemma same_outside_trans: "same_outside u D d P v \<Longrightarrow> same_outside v D d Q w \<Longrightarrow> same_outside u D d (P \<union> Q) w"
  unfolding same_outside_def by (metis Un_iff)

lemma copied_same:
  assumes c: "copied v d pi" and o: "same_outside v D d P w" and "d \<in> D" "pi < PDPT_ENTRIES" "pi \<notin> P"
    and sb: "same_boot v w" and bo: "boot_ok v"
  shows "copied w d pi"
proof -
  have pd: "pd_of w d pi = pd_of v d pi" and pt: "pt_of w d pi j = pt_of v d pi j" "k < PT_ENTRIES \<Longrightarrow> pte_of w d pi j k = pte_of v d pi j k"
    if "j < PT_ENTRIES" for j k using assms that unfolding same_outside_def by blast+
  have pd: "pd_of w d pi = pd_of v d pi" using assms unfolding same_outside_def by blast
  have b: "boot_pdpte w pi = boot_pdpte v pi" "\<And>j. boot_pde w pi j = boot_pde v pi j"
    using same_boot_pdpte [OF sb bo] same_boot_pde [OF sb bo assms(4)] by auto
  have bp: "boot_pte w pi j k = boot_pte v pi j k" if "j < PT_ENTRIES" for j k
  proof (cases "present (boot_pde v pi j)")
    case True
    then have "entry_frame (boot_pde v pi j) < fr_reserved (vm_fr v)" using bo that assms(4) by (simp add: boot_ok_def)
    then have "rd w (entry_frame (boot_pde v pi j)) = rd v (entry_frame (boot_pde v pi j))" using sb by (simp add: same_boot_def)
    then show ?thesis unfolding boot_pte_def b(2) by simp
  qed (simp add: boot_pte_def b)
  show ?thesis using c pt bp unfolding copied_def pd b by simp
qed

lemma create_pd_step:
  assumes ok: "vm_ok v D E" and cid: "cid < MAX_CORES" and d: "d \<in> D" and pi: "pi < PDPT_ENTRIES" "pd_of v d pi = None"
    "present (boot_pdpte v pi)" and a: "phys_alloc cid v = (p, u)" and p: "p \<noteq> 0"
    and c: "create_pts cid pi (p div 4096) [0..<PT_ENTRIES] (zero_phys_page p u) = (b, w1)"
    and w: "w = set_entry d pi (of_nat p OR (boot_pdpte w1 pi AND 0xFFF)) w1"
  shows "\<not> b \<Longrightarrow> \<exists>L. L \<noteq> {#} \<and> vm_ok w1 D (E + L) \<and> same_boot v w1 \<and> same_outside v D d {} w1
       \<and> data_kept v D (vrefs v D + E) w1 (vrefs w1 D + (E + L))"
    and "b \<Longrightarrow> vm_ok w D E \<and> same_boot v w \<and> same_outside v D d {pi} w \<and> copied w d pi
       \<and> data_kept v D (vrefs v D + E) w (vrefs w D + E)"
proof -
  from alloc_zeroed(2) [OF ok cid a p, where c = "\<lambda>_. 0"]
  obtain f where f: "p = f * 4096" "0 < f" "f < 2 ^ 20" "zero_phys_page p u = set_frame f (\<lambda>_. 0) u"
          and z: "vm_ok (set_frame f (\<lambda>_. 0) u) D (add_mset f E)" and so: "sole (set_frame f (\<lambda>_. 0) u) (vrefs (set_frame f (\<lambda>_. 0) u) D + add_mset f E) f"
          and sb: "same_boot v (set_frame f (\<lambda>_. 0) u)" and vr: "vrefs (set_frame f (\<lambda>_. 0) u) D = vrefs v D" and new: "f \<notin># vrefs v D + E"
          and tb: "\<And>q. q \<in> tposs D \<Longrightarrow> tab_at (set_frame f (\<lambda>_. 0) u) q = tab_at v q"
          and rdo: "\<And>x. x \<noteq> f \<Longrightarrow> rd (set_frame f (\<lambda>_. 0) u) x = rd v x" by blast
  define z where "z = set_frame f (\<lambda>_. 0) u"
  note bo = vm_okD(3) [OF ok]
  have rdz: "rd z f j = 0" for j by (simp add: z_def)
  have dz: "dir_refs z f = {#}" by (rule dir_zero [OF rdz])
  have okz: "vm_ok z D (E + {#f#} + dir_refs z f)" using z by (simp add: z_def [symmetric] dz)
  have dok: "dir_ok z pi f (vrefs z D + (E + {#f#} + dir_refs z f))"
    using so by (simp add: dir_ok_def rdz z_def [symmetric] dz)
  have c': "create_pts cid pi f [0..<PT_ENTRIES] z = (b, w1)" using c f by (simp add: z_def)
  have "vm_ok w1 D (E + {#f#} + dir_refs w1 f) \<and> dir_ok w1 pi f (vrefs w1 D + (E + {#f#} + dir_refs w1 f))
    \<and> same_boot z w1 \<and> vrefs w1 D = vrefs z D \<and> (\<forall>q\<in>tposs D. tab_at w1 q = tab_at z q)
    \<and> (\<forall>x. x \<in># vrefs z D + E \<and> x \<noteq> f \<longrightarrow> rd w1 x = rd z x)
    \<and> (b \<longrightarrow> (\<forall>j < PT_ENTRIES. built w1 pi f j))"
    by (rule create_pts_ok [OF cid pi(1) okz dok _ _ _ _ c']) (use rdz in auto)
  then have ok1: "vm_ok w1 D (E + {#f#} + dir_refs w1 f)" and dir1: "dir_ok w1 pi f (vrefs w1 D + (E + {#f#} + dir_refs w1 f))"
    and sb1: "same_boot z w1" and vr1: "vrefs w1 D = vrefs z D" and tb1: "\<And>q. q \<in> tposs D \<Longrightarrow> tab_at w1 q = tab_at z q"
    and rd1: "\<And>x. x \<in># vrefs z D + E \<Longrightarrow> x \<noteq> f \<Longrightarrow> rd w1 x = rd z x"
    and bu: "b \<Longrightarrow> (\<And>j. j < PT_ENTRIES \<Longrightarrow> built w1 pi f j)" by blast+
  have sv1: "same_boot v w1" using same_boot_trans [OF sb [folded z_def] sb1] .
  have tab: "tab_at w1 q = tab_at v q" if "q \<in> tposs D" for q using tb1 [OF that] tb [OF that] by (simp add: z_def)
  have rdm: "rd w1 x = rd v x" if "x \<in># vrefs v D + E" for x
  proof -
    have "x \<noteq> f" using that new by auto
    then show ?thesis using rd1 [of x] rdo [of x] that vr by (simp add: z_def)
  qed
  have tabm: "x \<in># vrefs v D + E" if "q \<in> tposs D" "tab_at v q = Some x" for q x
    by (rule count_inI) (use vm_okD(5) [OF ok that] in \<open>simp add: sole_def\<close>)
  have pte1: "pte_of w1 d' pi' j k = pte_of v d' pi' j k" if l: "(d', pi', j, k) \<in> leafs D" for d' pi' j k
    by (rule pte_of_cong [OF _ l]) (use rdm tabm in auto)
  have so1: "same_outside v D d {} w1"
    unfolding same_outside_def using tab [of "Dir _ _"] tab [of "Tab _ _ _"] pte1 by auto
  have kept1: "data_kept v D (vrefs v D + E) w1 (vrefs w1 D + (E + {#f#} + dir_refs w1 f))"
    using rdm tab vr1 vr by (auto simp: data_kept_def is_table_def z_def)
  show "\<not> b \<Longrightarrow> \<exists>L. L \<noteq> {#} \<and> vm_ok w1 D (E + L) \<and> same_boot v w1 \<and> same_outside v D d {} w1
       \<and> data_kept v D (vrefs v D + E) w1 (vrefs w1 D + (E + L))"
    using ok1 sv1 so1 kept1 by (intro exI [of _ "{#f#} + dir_refs w1 f"]) (simp add: ac_simps)
  assume b: b
  let ?e = "of_nat p OR (boot_pdpte w1 pi AND 0xFFF) :: u64"
  have e: "present ?e" "entry_frame ?e = f"
  proof -
    show "present ?e" using pi(3) same_boot_pdpte [OF sv1 bo, of pi] by (simp add: pte_simps bit_or_iff)
    have "\<not> bit (boot_pdpte w1 pi AND 0xFFF) n" if "12 \<le> n" for n using that by (simp add: pte_simps)
    then show "entry_frame ?e = f" using entry_paddr_of(2) [of p "boot_pdpte w1 pi AND 0xFFF"] f by simp
  qed
  have n1: "pd_of w1 d pi = None" using tab [of "Dir d pi"] d pi by simp
  note L = link_pd [OF ok1 dir1 d pi(1) n1 e, folded w]
  have sbw: "same_boot v w" using same_boot_trans [OF sv1 L(2)] .
  have bw: "boot_pdpte w pi = boot_pdpte v pi" "\<And>j. boot_pde w pi j = boot_pde v pi j" "\<And>j. boot_pde w1 pi j = boot_pde v pi j"
    using same_boot_pdpte [OF sbw bo] same_boot_pde [OF sbw bo pi(1)] same_boot_pde [OF sv1 bo pi(1)] by auto
  have cp: "copied w d pi"
    unfolding copied_def
  proof (intro conjI allI impI)
    show "pd_of w d pi \<noteq> None \<longleftrightarrow> present (boot_pdpte w pi)" using L(4) pi(3) bw by simp
    fix j assume j: "j < PT_ENTRIES"
    note B = bu [OF b j, unfolded built_def]
    show "pt_of w d pi j \<noteq> None \<longleftrightarrow> present (boot_pdpte w pi) \<and> present (boot_pde w pi j)"
      using L(5) B pi(3) bw by simp
    fix k assume k: "k < PT_ENTRIES"
    show "pte_of w d pi j k = (if present (boot_pdpte w pi) then boot_pte w pi j k else 0)"
    proof (cases "present (rd w1 f j)")
      case True
      let ?t = "entry_frame (rd w1 f j)"
      have "?t \<noteq> d" using table_unique(3) [OF ok1, of "Root d" d] d dir_ok_table(2) [OF ok1 dir1 j True] by auto
      then have "pte_of w d pi j k = rd w1 ?t k" using L(5) [of j] True by (simp add: pte_of_def w)
      also have "\<dots> = rd w1 (entry_frame (boot_pde v pi j)) k" using B True bw by simp
      also have "\<dots> = rd w (entry_frame (boot_pde v pi j)) k"
      proof -
        have "entry_frame (boot_pde v pi j) < fr_reserved (vm_fr w1)" using B True bw bo j pi sv1 by (simp add: boot_ok_def same_boot_def)
        then show ?thesis using L(2) by (simp add: same_boot_def)
      qed
      finally show ?thesis using B True bw pi(3) by (simp add: boot_pte_def)
    next
      case False
      then show ?thesis using L(5) [of j] B bw by (simp add: pte_of_def boot_pte_def)
    qed
  qed
  have out: "same_outside v D d {pi} w"
    unfolding same_outside_def
  proof (intro ballI allI impI conjI)
    fix d' pi' assume h: "d' \<in> D" "pi' < PDPT_ENTRIES" "\<not> (d' = d \<and> pi' \<in> {pi})"
    show "pd_of w d' pi' = pd_of v d' pi'" using L(6) [of "Dir d' pi'"] tab [of "Dir d' pi'"] h by auto
    fix j assume j: "j < PT_ENTRIES"
    show "pt_of w d' pi' j = pt_of v d' pi' j" using L(6) [of "Tab d' pi' j"] tab [of "Tab d' pi' j"] h j by auto
    fix k assume k: "k < PT_ENTRIES"
    show "pte_of w d' pi' j k = pte_of v d' pi' j k" using L(7) [of d' pi' j k] pte1 [of d' pi' j k] h j k by auto
  qed
  have "data_kept v D (vrefs v D + E) w (vrefs w D + E)" unfolding w
  proof (rule kept_write [OF kept1])
    show "is_table w1 D d" using d unfolding is_table_def by (intro bexI [of _ "Root d"]) simp_all
    show "x \<in># vrefs w1 D + (E + {#f#} + dir_refs w1 f) \<Longrightarrow> x \<in># vrefs (set_entry d pi ?e w1) D + E" for x
      using L(3) by (auto simp: w)
    fix q x assume q: "q \<in> tposs D" "tab_at (set_entry d pi ?e w1) q = Some x"
    show "tab_at w1 q = Some x \<or> x \<notin># vrefs v D + E"
    proof (cases "q = Dir d pi \<or> (\<exists>j. q = Tab d pi j)")
      case True
      have "x \<in># {#f#} + dir_refs w1 f"
      proof (cases "q = Dir d pi")
        case False
        with True obtain j where "q = Tab d pi j" by blast
        then show ?thesis using q L(5) [of j] dir_ok_table(2) [OF ok1 dir1, of j] by (auto simp: w split: if_splits)
      qed (use q L(4) in \<open>simp add: w\<close>)
      then have "0 < count ({#f#} + dir_refs w1 f) x" by auto
      moreover have "count (vrefs w D + E) x = 1"
        using vm_okD(5) [OF L(1) q(1)] q(2) by (simp only: w sole_def)
      then have "count (vrefs w1 D + E) x + count ({#f#} + dir_refs w1 f) x = 1"
        unfolding L(3) by (simp only: count_union ac_simps)
      ultimately have "count (vrefs w1 D + E) x = 0" by linarith
      then show ?thesis using vr1 vr by (simp add: z_def not_in_iff)
    next
      case False
      then show ?thesis using L(6) [OF q(1)] q(2) w by auto
    qed
  qed
  then show "vm_ok w D E \<and> same_boot v w \<and> same_outside v D d {pi} w \<and> copied w d pi
       \<and> data_kept v D (vrefs v D + E) w (vrefs w D + E)"
    using L(1) sbw out cp by blast
qed

section \<open>The whole space\<close>

lemma create_pds_ok:
  assumes cid: "cid < MAX_CORES" and d: "d \<in> D"
  shows "vm_ok v D E \<Longrightarrow> set pis \<subseteq> {..<PDPT_ENTRIES} \<Longrightarrow> distinct pis \<Longrightarrow> (\<And>pi. pi \<in> set pis \<Longrightarrow> pd_of v d pi = None) \<Longrightarrow>
    create_pds cid d pis v = (b, w) \<Longrightarrow>
    (\<exists>L. (b \<longrightarrow> L = {#}) \<and> vm_ok w D (E + L) \<and> same_boot v w \<and> same_outside v D d (set pis) w
       \<and> data_kept v D (vrefs v D + E) w (vrefs w D + (E + L))) \<and> (b \<longrightarrow> (\<forall>pi\<in>set pis. copied w d pi))"
proof (induction pis arbitrary: v)
  case Nil
  then show ?case by simp
next
  case (Cons pi pis)
  note ok = Cons.prems(1)
  have pi: "pi < PDPT_ENTRIES" "pd_of v d pi = None" "pi \<notin> set pis" using Cons.prems(2-4) by auto
  have sub: "set pis \<subseteq> {..<PDPT_ENTRIES}" "distinct pis" using Cons.prems(2,3) by simp_all
  show ?case
  proof (cases "present (boot_pdpte v pi)")
    case False
    have cv: "copied v d pi" using pi(2) False by (simp add: copied_def pt_of_def pte_of_def)
    have "create_pds cid d pis v = (b, w)" using Cons.prems(5) False by simp
    from Cons.IH [OF ok sub _ this] Cons.prems(4) obtain L where L: "b \<longrightarrow> L = {#}" "vm_ok w D (E + L)" "same_boot v w"
        "same_outside v D d (set pis) w" "data_kept v D (vrefs v D + E) w (vrefs w D + (E + L))" "b \<longrightarrow> (\<forall>pi\<in>set pis. copied w d pi)"
      by auto
    have "same_outside v D d (set (pi # pis)) w" using L(4) by (auto simp: same_outside_def)
    moreover have "copied w d pi" by (rule copied_same [OF cv L(4) d pi(1,3) L(3) vm_okD(3) [OF ok]])
    ultimately show ?thesis using L by auto
  next
    case pr: True
    obtain p u where a: "phys_alloc cid v = (p, u)" by fastforce
    show ?thesis
    proof (cases "p = 0")
      case True
      then have bw: "b = False" "w = u" using Cons.prems(5) pr a by auto
      note Q = quietD [OF alloc_zeroed(1) [OF ok cid a True]]
      have "same_outside v D d (set (pi # pis)) u"
        using alloc_step(3) [OF ok cid a, of "Dir _ _"] alloc_step(3) [OF ok cid a, of "Tab _ _ _"] Q(3)
        by (simp add: same_outside_def)
      then show ?thesis using Q bw by (intro conjI exI [of _ "{#}"]) simp_all
    next
      case p: False
      obtain b1 w1 where c: "create_pts cid pi (p div 4096) [0..<PT_ENTRIES] (zero_phys_page p u) = (b1, w1)" by fastforce
      define v2 where "v2 = set_entry d pi (of_nat p OR (boot_pdpte w1 pi AND 0xFFF)) w1"
      note S = create_pd_step [OF ok cid d pi(1,2) pr a p c v2_def]
      show ?thesis
      proof (cases b1)
        case False
        then have bw: "b = False" "w = w1" using Cons.prems(5) pr a p c by auto
        from S(1) [OF False] obtain L where L: "vm_ok w1 D (E + L)" "same_boot v w1" "same_outside v D d {} w1"
            "data_kept v D (vrefs v D + E) w1 (vrefs w1 D + (E + L))" by blast
        have "same_outside v D d (set (pi # pis)) w1" using L(3) by (auto simp: same_outside_def)
        then show ?thesis using L bw by (intro conjI exI [of _ L]) simp_all
      next
        case b1: True
        have rec: "create_pds cid d pis v2 = (b, w)" using Cons.prems(5) pr a p c b1 by (simp add: v2_def)
        from S(2) [OF b1] have ok2: "vm_ok v2 D E" and sb2: "same_boot v v2" and o2: "same_outside v D d {pi} v2" and c2: "copied v2 d pi"
          and k2: "data_kept v D (vrefs v D + E) v2 (vrefs v2 D + E)" by blast+
        have none: "pd_of v2 d q = None" if "q \<in> set pis" for q
        proof -
          have "pd_of v2 d q = pd_of v d q" using o2 d that sub pi(3) unfolding same_outside_def by blast
          then show ?thesis using Cons.prems(4) that by simp
        qed
        from Cons.IH [OF ok2 sub none rec] obtain L where L: "b \<longrightarrow> L = {#}" "vm_ok w D (E + L)" "same_boot v2 w"
            "same_outside v2 D d (set pis) w" "data_kept v2 D (vrefs v2 D + E) w (vrefs w D + (E + L))" "b \<longrightarrow> (\<forall>pi\<in>set pis. copied w d pi)"
          by auto
        have "copied w d pi" by (rule copied_same [OF c2 L(4) d pi(1,3) L(3) vm_okD(3) [OF ok2]])
        moreover have "same_outside v D d (set (pi # pis)) w" using same_outside_trans [OF o2 L(4)] by simp
        ultimately show ?thesis using L same_boot_trans [OF sb2 L(3)] data_kept_trans [OF k2 L(5)]
          by (intro conjI exI [of _ L]) auto
      qed
    qed
  qed
qed

end
