(* ===== verification/Vmm_Space.thy ===== *)
theory Vmm_Space
  imports Vmm_New
begin

text \<open>
  The contract of \<open>vmm_create_address_space\<close>: on success a new space that translates like the
  boot tables except for the signal trampoline, on failure a leak at most; in both cases no
  other space's translation and no held data page changes.
\<close>

definition boot_pte_at :: "vmm \<Rightarrow> u32 \<Rightarrow> u64" where
  "boot_pte_at v va = (if present (boot_pdpte v (pdpt_index va)) then boot_pte v (pdpt_index va) (pd_index va) (pt_index va) else 0)"

text \<open>The held data pages of the spaces \<open>D\<close> survive, also as seen by the spaces \<open>D'\<close>.\<close>

definition data_safe :: "vmm \<Rightarrow> nat set \<Rightarrow> nat multiset \<Rightarrow> vmm \<Rightarrow> nat set \<Rightarrow> nat multiset \<Rightarrow> bool" where
  "data_safe v D M w D' M' \<longleftrightarrow> (\<forall>f. f \<in># M \<and> \<not> is_table v D f \<longrightarrow> rd w f = rd v f \<and> f \<in># M' \<and> \<not> is_table w D' f)"

lemma data_kept_safe: "data_kept v D M w M' = data_safe v D M w D M'"
  by (simp add: data_kept_def data_safe_def)

lemma data_safe_trans [trans]:
  "data_safe u D M v D' M' \<Longrightarrow> data_safe v D' M' w D'' M'' \<Longrightarrow> data_safe u D M w D'' M''"
  by (simp add: data_safe_def)

lemma is_table_mono: "D \<subseteq> D' \<Longrightarrow> is_table v D f \<Longrightarrow> is_table v D' f"
  unfolding is_table_def
proof (elim bexE)
  fix q assume D: "D \<subseteq> D'" "q \<in> tposs D" "tab_at v q = Some f"
  then have "q \<in> tposs D'" by (cases q) auto
  then show "\<exists>q\<in>tposs D'. tab_at v q = Some f" using D(3) by blast
qed

lemma same_outside_ptes:
  assumes "same_outside v D d P w" and "d \<notin> D'" and "D' \<subseteq> D"
  shows "same_ptes v D' w"
  unfolding same_ptes_def pte_at_def
proof (intro ballI allI)
  fix d' va assume "d' \<in> D'"
  then have "d' \<in> D" "d' \<noteq> d" using assms(2,3) by auto
  then show "pte_of w d' (pdpt_index va) (pd_index va) (pt_index va) = pte_of v d' (pdpt_index va) (pd_index va) (pt_index va)"
    using assms(1) index_bounds [of va] unfolding same_outside_def by blast
qed

lemma same_outside_vrefs:
  assumes o: "same_outside v D d P w" and d: "d \<notin> D'" "D' \<subseteq> D" and sb: "same_boot v w" and bo: "boot_ok v"
  shows "vrefs w D' = vrefs v D'" "q \<in> tposs D' \<Longrightarrow> tab_at w q = tab_at v q"
proof -
  have s: "d' \<in> D \<and> \<not> (d' = d \<and> pi \<in> P)" if "d' \<in> D'" for d' pi using that d by auto
  have t: "tab_at w q = tab_at v q" if "q \<in> tposs D'" for q
    using that o s unfolding same_outside_def by (cases q) auto
  then show "q \<in> tposs D' \<Longrightarrow> tab_at w q = tab_at v q" .
  show "vrefs w D' = vrefs v D'"
  proof (rule vrefs_cong [OF t])
    fix d' pi j k assume l: "(d', pi, j, k) \<in> leafs D'"
    then have "pte_of w d' pi j k = pte_of v d' pi j k" using o s unfolding same_outside_def by auto
    then show "pte_ref w pi j k (pte_of w d' pi j k) = pte_ref v pi j k (pte_of v d' pi j k)"
      using pte_ref_same [OF sb bo, of pi j k] l by simp
  qed
qed

lemma ref_boot: "boot_ok v \<Longrightarrow> ref_at v va (boot_pte_at v va) = {#}"
  unfolding ref_at_def boot_pte_at_def boot_pte_def by (auto intro: boot_ref_none)

definition same_tabs :: "vmm \<Rightarrow> nat set \<Rightarrow> vmm \<Rightarrow> bool" where
  "same_tabs v D w \<longleftrightarrow> (\<forall>q\<in>tposs D. tab_at w q = tab_at v q)"

definition boot_tabs :: "vmm \<Rightarrow> nat \<Rightarrow> bool" where
  "boot_tabs w d \<longleftrightarrow> (\<forall>pi < PDPT_ENTRIES. present (boot_pdpte w pi) \<longrightarrow>
     pd_of w d pi \<noteq> None \<and> (\<forall>j < PT_ENTRIES. present (boot_pde w pi j) \<longrightarrow> pt_of w d pi j \<noteq> None))"

lemma same_tabs_trans: "same_tabs u D v \<Longrightarrow> same_tabs v D w \<Longrightarrow> same_tabs u D w"
  by (simp add: same_tabs_def)

lemma tabs_grow_other: "tabs_grow v (insert d D) d w \<Longrightarrow> d \<notin> D \<Longrightarrow> same_tabs v D w"
  unfolding same_tabs_def
proof
  fix q assume a: "tabs_grow v (insert d D) d w" "d \<notin> D" "q \<in> tposs D"
  then have "q \<in> tposs (insert d D)" "space_of q \<noteq> d" by (cases q; auto)+
  then show "tab_at w q = tab_at v q" using a(1) by blast
qed

lemma tabs_grow_boot:
  assumes "tabs_grow v D d w" and "d \<in> D" and "same_boot v w" and "boot_ok v" and "boot_tabs v d"
  shows "boot_tabs w d"
  unfolding boot_tabs_def
proof (intro allI impI conjI)
  fix pi assume pi: "pi < PDPT_ENTRIES" "present (boot_pdpte w pi)"
  then have p: "present (boot_pdpte v pi)" using same_boot_pdpte [OF assms(3,4)] by simp
  have "Dir d pi \<in> tposs D" using assms(2) pi by simp
  from bspec [OF assms(1) this] show "pd_of w d pi \<noteq> None" using assms(5) pi(1) p by (auto simp: boot_tabs_def)
  fix j assume j: "j < PT_ENTRIES" "present (boot_pde w pi j)"
  then have pj: "present (boot_pde v pi j)" using same_boot_pde [OF assms(3,4) pi(1)] by simp
  have "Tab d pi j \<in> tposs D" using assms(2) pi j by simp
  moreover have "pt_of v d pi j \<noteq> None" using assms(5) pi(1) p j(1) pj unfolding boot_tabs_def by blast
  ultimately show "pt_of w d pi j \<noteq> None" using bspec [OF assms(1), of "Tab d pi j"] by auto
qed

lemma create_frame:
  assumes ok: "vm_ok v D E" and cid: "cid < MAX_CORES" and a: "phys_alloc cid v = (p, u)" and p: "p \<noteq> 0"
    and c: "create_pds cid (p div 4096) [0..<PDPT_ENTRIES] (zero_phys_page p u) = (b, w)"
  shows "\<exists>d L. p = d * 4096 \<and> d \<noteq> 0 \<and> d \<notin> D \<and> (b \<longrightarrow> L = {#}) \<and> vm_ok w (insert d D) (E + L) \<and> same_boot v w \<and> same_ptes v D w
      \<and> data_safe v D (vrefs v D + E) w (insert d D) (vrefs w (insert d D) + (E + L)) \<and> vrefs w D = vrefs v D
      \<and> (b \<longrightarrow> (\<forall>va. pte_at w d va = boot_pte_at w va) \<and> boot_tabs w d) \<and> same_tabs v D w"
proof -
  from alloc_zeroed(2) [OF ok cid a p, where c = "\<lambda>_. 0"]
  obtain f where f: "p = f * 4096" "0 < f" "f < 2 ^ 20" "zero_phys_page p u = set_frame f (\<lambda>_. 0) u"
          and z: "vm_ok (set_frame f (\<lambda>_. 0) u) D (add_mset f E)" and so: "sole (set_frame f (\<lambda>_. 0) u) (vrefs (set_frame f (\<lambda>_. 0) u) D + add_mset f E) f"
          and sb: "same_boot v (set_frame f (\<lambda>_. 0) u)" and vr: "vrefs (set_frame f (\<lambda>_. 0) u) D = vrefs v D" and new: "f \<notin># vrefs v D + E"
          and pt: "\<And>d pi j k. (d, pi, j, k) \<in> leafs D \<Longrightarrow> pte_of (set_frame f (\<lambda>_. 0) u) d pi j k = pte_of v d pi j k"
          and kp: "data_kept v D (vrefs v D + E) (set_frame f (\<lambda>_. 0) u) (vrefs v D + add_mset f E)"
          and tb: "\<And>q. q \<in> tposs D \<Longrightarrow> tab_at (set_frame f (\<lambda>_. 0) u) q = tab_at v q" by blast
  define z where "z = set_frame f (\<lambda>_. 0) u"
  have rdz: "rd z f j = 0" for j by (simp add: z_def)
  have "\<not> present (rd z f pi)" for pi by (simp add: rdz)
  note R = add_root [OF z [folded z_def] so [folded z_def] this]
  have none: "pd_of z f pi = None" for pi by (simp add: pd_of_def rdz)
  have c': "create_pds cid f [0..<PDPT_ENTRIES] z = (b, w)" using c f by (simp add: z_def)
  have fD: "f \<in> insert f D" by simp
  have rng: "set [0..<PDPT_ENTRIES] \<subseteq> {..<PDPT_ENTRIES}" "distinct [0..<PDPT_ENTRIES]" by auto
  from create_pds_ok [OF cid fD R(2) rng none c'] obtain L where L: "b \<longrightarrow> L = {#}" "vm_ok w (insert f D) (E + L)" "same_boot z w"
      "same_outside z (insert f D) f (set [0..<PDPT_ENTRIES]) w" "data_kept z (insert f D) (vrefs z (insert f D) + E) w (vrefs w (insert f D) + (E + L))"
      "b \<longrightarrow> (\<forall>pi\<in>set [0..<PDPT_ENTRIES]. copied w f pi)" by blast
  have pz: "same_ptes v D z" using pt by (auto simp: same_ptes_def pte_at_def z_def)
  have pw: "same_ptes z D w" by (rule same_outside_ptes [OF L(4) R(1)]) blast
  have vw: "vrefs w D = vrefs v D"
    using same_outside_vrefs(1) [OF L(4) R(1) _ L(3) vm_okD(3) [OF R(2)]] vr by (simp add: z_def subset_insertI)
  have "data_safe v D (vrefs v D + E) z (insert f D) (vrefs z (insert f D) + E)"
    unfolding data_safe_def
  proof (intro allI impI)
    fix x assume x: "x \<in># vrefs v D + E \<and> \<not> is_table v D x"
    then have k: "rd z x = rd v x" "\<not> is_table z D x" using kp by (simp_all add: data_kept_def z_def)
    have "x \<noteq> f" using x new by auto
    moreover have "pt_of z f pi j = None" for pi j using none by (simp add: pt_of_def)
    ultimately have n: "q \<in> tposs D" if "q \<in> tposs (insert f D)" "tab_at z q = Some x" for q
      using that none by (cases q) auto
    have "\<not> is_table z (insert f D) x" using k(2) n unfolding is_table_def by blast
    then show "rd z x = rd v x \<and> x \<in># vrefs z (insert f D) + E \<and> \<not> is_table z (insert f D) x"
      using k(1) x vr R(3) by (simp add: z_def)
  qed
  then have ds: "data_safe v D (vrefs v D + E) w (insert f D) (vrefs w (insert f D) + (E + L))"
    using data_safe_trans L(5) unfolding data_kept_safe by blast
  have tr: "pte_at w f va = boot_pte_at w va" if b for va
  proof -
    have "copied w f (pdpt_index va)" using L(6) that index_bounds(1) [of va] by simp
    then show ?thesis unfolding copied_def pte_at_def boot_pte_at_def by simp
  qed
  have bt: "boot_tabs w f" if b
    using L(6) that by (simp add: boot_tabs_def copied_def)
  have st: "same_tabs v D w"
    using same_outside_vrefs(2) [OF L(4) R(1) _ L(3) vm_okD(3) [OF R(2)]] tb by (simp add: same_tabs_def z_def subset_insertI)
  show ?thesis
    using f(1,2) R(1) L(1,2) same_boot_trans [OF sb [folded z_def] L(3)] pz pw ds tr vw bt st
    by (intro exI [of _ f] exI [of _ L]) (simp add: same_ptes_def)
qed

lemma trampoline_ok:
  assumes ok: "vm_ok v D E" and cid: "cid < MAX_CORES" and d: "d \<in> D"
    and old: "pte_at v d TRAMPOLINE_VA = boot_pte_at v TRAMPOLINE_VA" and w: "w = map_trampoline cid d v"
  shows "\<exists>L. vm_ok w D (E + L) \<and> same_boot v w \<and> data_kept v D (vrefs v D + E) w (vrefs w D + (E + L))
     \<and> tabs_grow v D d w \<and> (same_ptes v D w
        \<or> (L = {#} \<and> (\<exists>tp. tp \<notin># vrefs v D + E \<and> tp < 2 ^ 20 \<and> fr_reserved (vm_fr v) \<le> tp
              \<and> sets_pte v D d TRAMPOLINE_VA (pte_of_flags (of_nat (tp * 4096)) (PAGE_PRESENT OR PAGE_USER)) w
              \<and> rd w tp = (rd v tp)(0 := TRAMPOLINE_CODE))))"
proof -
  let ?va = TRAMPOLINE_VA and ?fl = "PAGE_PRESENT OR PAGE_USER"
  obtain p u where a: "phys_alloc cid v = (p, u)" by fastforce
  note bo = vm_okD(3) [OF ok]
  show ?thesis
  proof (cases "p = 0")
    case True
    then have "w = u" using a by (simp add: w map_trampoline_def)
    then show ?thesis using quietD [OF alloc_zeroed(1) [OF ok cid a True, of d]] quiet_ptes [OF alloc_zeroed(1) [OF ok cid a True]]
      by (intro exI [of _ "{#}"]) simp
  next
    case p: False
    from alloc_zeroed(2) [OF ok cid a p, where c = "(rd v (p div 4096))(0 := TRAMPOLINE_CODE)"]
    obtain f where f: "p = f * 4096" "0 < f" "f < 2 ^ 20"
          and z: "vm_ok (set_frame f ((rd v (p div 4096))(0 := TRAMPOLINE_CODE)) u) D (add_mset f E)"
          and so: "sole (set_frame f ((rd v (p div 4096))(0 := TRAMPOLINE_CODE)) u) (vrefs (set_frame f ((rd v (p div 4096))(0 := TRAMPOLINE_CODE)) u) D + add_mset f E) f"
          and sb: "same_boot v (set_frame f ((rd v (p div 4096))(0 := TRAMPOLINE_CODE)) u)" and new: "f \<notin># vrefs v D + E"
          and vr: "vrefs (set_frame f ((rd v (p div 4096))(0 := TRAMPOLINE_CODE)) u) D = vrefs v D"
          and pt: "\<And>d pi j k. (d, pi, j, k) \<in> leafs D \<Longrightarrow> pte_of (set_frame f ((rd v (p div 4096))(0 := TRAMPOLINE_CODE)) u) d pi j k = pte_of v d pi j k"
          and kp: "data_kept v D (vrefs v D + E) (set_frame f ((rd v (p div 4096))(0 := TRAMPOLINE_CODE)) u) (vrefs v D + add_mset f E)" 
          and tbv: "\<And>q. q \<in> tposs D \<Longrightarrow> tab_at (set_frame f ((rd v (p div 4096))(0 := TRAMPOLINE_CODE)) u) q = tab_at v q" by blast
    have tz: "tabs_grow v D d w'" if "tabs_grow (set_frame f ((rd v (p div 4096))(0 := TRAMPOLINE_CODE)) u) D d w'" for w'
      using that tbv by simp
    define z where "z = set_frame f ((rd v (p div 4096))(0 := TRAMPOLINE_CODE)) u"
    have rdu: "rd u f = rd v f" using alloc_step(2) [OF ok cid a] .
    have zz: "z = set_entry (p div 4096) 0 TRAMPOLINE_CODE u"
      by (simp add: z_def f(1) set_entry_def set_frame_def rdu)
    let ?e = "pte_of_flags (of_nat p) ?fl"
    have p32: "p mod 4096 = 0" "p < 2 ^ 32" using f by simp_all
    have ef: "entry_frame ?e = f" using pte_of_flags_frame [OF p32, of ?fl] f(1) by simp
    have fl: "has ?fl PAGE_USER" "\<not> has ?fl PAGE_DEV" by (auto simp: pte_simps bit_or_iff)
    have rz: "fr_reserved (vm_fr z) \<le> f" using so by (simp add: sole_def z_def)
    have boz: "boot_ok z" using boot_ok_same [OF sb bo] by (simp add: z_def)
    have r: "ref_at z ?va ?e = {#f#}"
      by (rule ref_user [OF boz rz ef]) (use fl in \<open>simp_all add: pte_of_flags_has\<close>)
    have okz: "vm_ok z D (E + ref_at z ?va ?e)" using z unfolding r by (simp add: z_def)
    obtain rr w' where m: "vmm_map_page cid d ?va (of_nat p) ?fl z = (rr, w')" by fastforce
    have ww: "w = w'" using a p m by (simp add: w map_trampoline_def zz)
    have oz: "pte_at z d ?va = boot_pte_at z ?va"
    proof -
      have "pte_at z d ?va = pte_at v d ?va" using pt d by (simp add: pte_at_def z_def)
      moreover have "boot_pte_at z ?va = boot_pte_at v ?va"
      proof -
        have b: "boot_pdpte z (pdpt_index ?va) = boot_pdpte v (pdpt_index ?va)" "\<And>j. boot_pde z (pdpt_index ?va) j = boot_pde v (pdpt_index ?va) j"
          using same_boot_pdpte [OF sb bo] same_boot_pde [OF sb bo index_bounds(1)] by (simp_all add: z_def)
        have "rd z (entry_frame (boot_pde v (pdpt_index ?va) (pd_index ?va))) = rd v (entry_frame (boot_pde v (pdpt_index ?va) (pd_index ?va)))"
          if "present (boot_pde v (pdpt_index ?va) (pd_index ?va))"
          using bo that sb by (auto simp: boot_ok_def same_boot_def z_def)
        then show ?thesis unfolding boot_pte_at_def boot_pte_def b by simp
      qed
      ultimately show ?thesis using old by simp
    qed
    have ptz: "same_ptes v D z" using pt by (auto simp: same_ptes_def pte_at_def z_def)
    have kz: "data_kept v D (vrefs v D + E) z (vrefs z D + (E + ref_at z ?va ?e))" using kp vr unfolding r by (simp add: z_def)
    note M = map_page_ok [OF okz cid d m]
    show ?thesis
    proof (cases "rr = 0")
      case False
      note Q = quietD [OF M(2) [OF False, THEN conjunct2]] and P = quiet_ptes [OF M(2) [OF False, THEN conjunct2]]
      have "same_ptes v D w" using ptz P by (simp add: ww same_ptes_def)
      then show ?thesis
        using Q(1) same_boot_trans [OF sb [folded z_def] Q(2)] data_kept_trans [OF kz Q(4)] tz [folded z_def, of w'] Q(5)
        by (intro exI [of _ "ref_at z ?va ?e"]) (simp add: ww)
    next
      case True
      from M(1) [OF True] have m0: "vm_ok w D E" "sets_pte z D d ?va ?e w" "same_boot z w" 
          "data_kept z D (vrefs z D + (E + ref_at z ?va ?e)) w (vrefs w D + E)" "tabs_grow z D d w"
        unfolding oz ref_boot [OF boz] by (simp_all add: ww)
      have st: "sets_pte v D d ?va ?e w" using m0(2) ptz by (simp add: sets_pte_def same_ptes_def)
      have fnt: "\<not> is_table z D f" 
        using table_unique(3) [OF z [folded z_def]] by (auto simp: is_table_def)
      then have "rd w f = rd z f" using m0(4) unfolding r by (simp add: data_kept_def)
      then have rw: "rd w f = (rd v f)(0 := TRAMPOLINE_CODE)" using f(1) by (simp add: z_def fun_eq_iff)
      have "data_kept v D (vrefs v D + E) w (vrefs w D + E)" by (rule data_kept_trans [OF kz m0(4)])
      moreover have "fr_reserved (vm_fr v) \<le> f" using rz sb by (simp add: same_boot_def z_def)
      ultimately show ?thesis using m0(1) same_boot_trans [OF sb [folded z_def] m0(3)] st rw new f(1,3) tz [folded z_def, of w] m0(5)
        by (intro exI [of _ "{#}"] conjI disjI2 exI [of _ f]) (simp_all add: fun_eq_iff)
    qed
  qed
qed

lemma boot_pte_at_same:
  assumes sb: "same_boot v w" and bo: "boot_ok v"
  shows "boot_pte_at w va = boot_pte_at v va"
proof -
  have b: "boot_pdpte w (pdpt_index va) = boot_pdpte v (pdpt_index va)" "\<And>j. boot_pde w (pdpt_index va) j = boot_pde v (pdpt_index va) j"
    using same_boot_pdpte [OF sb bo] same_boot_pde [OF sb bo index_bounds(1)] by simp_all
  have "rd w (entry_frame (boot_pde v (pdpt_index va) (pd_index va))) = rd v (entry_frame (boot_pde v (pdpt_index va) (pd_index va)))"
    if "present (boot_pde v (pdpt_index va) (pd_index va))"
    using bo that sb by (auto simp: boot_ok_def same_boot_def)
  then show ?thesis unfolding boot_pte_at_def boot_pte_def b by simp
qed

lemma same_ptes_trans: "same_ptes u D v \<Longrightarrow> same_ptes v D w \<Longrightarrow> same_ptes u D w"
  by (simp add: same_ptes_def)

lemma data_safe_sub: "data_safe v D M w D' M' \<Longrightarrow> D'' \<subseteq> D' \<Longrightarrow> data_safe v D M w D'' M'"
  unfolding data_safe_def using is_table_mono by blast

lemma views_rd:
  assumes "rd w = rd v"
  shows "pte_at w = pte_at v" "tab_at w q = tab_at v q" "pte_of w = pte_of v"
proof -
  have pd: "pd_of w = pd_of v" unfolding pd_of_def assms ..
  have pt: "pt_of w = pt_of v" unfolding pt_of_def assms pd ..
  show "tab_at w q = tab_at v q" by (cases q) (simp_all add: pd pt)
  show "pte_of w = pte_of v" unfolding pte_of_def assms pt ..
  then show "pte_at w = pte_at v" unfolding pte_at_def by simp
qed

text \<open>The trampoline is the only page where a new space may differ from the boot tables.\<close>

definition fresh_space :: "vmm \<Rightarrow> nat \<Rightarrow> bool" where
  "fresh_space w d \<longleftrightarrow> boot_tabs w d \<and> (\<forall>va. page_of va \<noteq> page_of TRAMPOLINE_VA \<longrightarrow> pte_at w d va = boot_pte_at w va)"

definition has_trampoline :: "vmm \<Rightarrow> nat \<Rightarrow> nat \<Rightarrow> bool" where
  "has_trampoline w d tp \<longleftrightarrow> tp < 2 ^ 20 \<and> fr_reserved (vm_fr w) \<le> tp
     \<and> pte_at w d TRAMPOLINE_VA = pte_of_flags (of_nat (tp * 4096)) (PAGE_PRESENT OR PAGE_USER)"

lemma create_ok:
  assumes ok: "vm_ok v D E" and cid: "cid < MAX_CORES" and c: "vmm_create_address_space cid v = (d, w)"
  shows "d = 0 \<Longrightarrow> \<exists>L. vm_ok w D (E + L) \<and> same_boot v w \<and> same_ptes v D w \<and> same_tabs v D w \<and> data_safe v D (vrefs v D + E) w D (vrefs w D + (E + L))"
    and "d \<noteq> 0 \<Longrightarrow> d \<notin> D \<and> (\<exists>L. vm_ok w (insert d D) (E + L) \<and> same_boot v w \<and> same_ptes v D w \<and> same_tabs v D w
      \<and> data_safe v D (vrefs v D + E) w (insert d D) (vrefs w (insert d D) + (E + L)) \<and> fresh_space w d
      \<and> (pte_at w d TRAMPOLINE_VA = boot_pte_at w TRAMPOLINE_VA
          \<or> L = {#} \<and> (\<exists>tp. tp \<notin># vrefs v D + E \<and> has_trampoline w d tp)))"
proof -
  obtain p u where a: "phys_alloc cid v = (p, u)" by fastforce
  have "(d = 0 \<longrightarrow> (\<exists>L. vm_ok w D (E + L) \<and> same_boot v w \<and> same_ptes v D w \<and> same_tabs v D w \<and> data_safe v D (vrefs v D + E) w D (vrefs w D + (E + L))))
    \<and> (d \<noteq> 0 \<longrightarrow> d \<notin> D \<and> (\<exists>L. vm_ok w (insert d D) (E + L) \<and> same_boot v w \<and> same_ptes v D w \<and> same_tabs v D w
      \<and> data_safe v D (vrefs v D + E) w (insert d D) (vrefs w (insert d D) + (E + L)) \<and> fresh_space w d
      \<and> (pte_at w d TRAMPOLINE_VA = boot_pte_at w TRAMPOLINE_VA
          \<or> L = {#} \<and> (\<exists>tp. tp \<notin># vrefs v D + E \<and> has_trampoline w d tp))))"
  proof (cases "p = 0")
    case True
    then have "d = 0" "w = u" using c a by (simp_all add: vmm_create_address_space_def)
    then show ?thesis using quietD [OF alloc_zeroed(1) [OF ok cid a True]] quiet_ptes [OF alloc_zeroed(1) [OF ok cid a True]]
        alloc_step(3) [OF ok cid a]
      by (auto simp: data_kept_safe same_tabs_def intro!: exI [of _ "{#}"])
  next
    case p: False
    obtain b w1 where cp: "create_pds cid (p div 4096) [0..<PDPT_ENTRIES] (zero_phys_page p u) = (b, w1)" by fastforce
    from create_frame [OF ok cid a p cp] obtain f L where f: "p = f * 4096" "f \<noteq> 0" "f \<notin> D" "b \<longrightarrow> L = {#}"
        "vm_ok w1 (insert f D) (E + L)" "same_boot v w1" "same_ptes v D w1"
        "data_safe v D (vrefs v D + E) w1 (insert f D) (vrefs w1 (insert f D) + (E + L))" "vrefs w1 D = vrefs v D"
        "b \<longrightarrow> (\<forall>va. pte_at w1 f va = boot_pte_at w1 va) \<and> boot_tabs w1 f" "same_tabs v D w1" by blast
    note D1 = vm_okD [OF f(5)]
    have dw: "(d, w) = (if b then (f, map_trampoline cid f w1) else (0, vmm_free_address_space cid f w1))"
      using c a p cp f(1) by (auto simp: vmm_create_address_space_def split: if_splits)
    show ?thesis
    proof (cases b)
      case False
      then have d: "d = 0" "w = vmm_free_address_space cid f w1" using dw by auto
      note F = free_space_ok [OF cid f(5,3)]
      have pw: "same_ptes v D w"
        using f(7) views_rd(1) [OF F(3)] by (simp add: same_ptes_def d)
      have tabs: "tab_at w q = tab_at w1 q" for q
        using views_rd(2) [OF F(3)] by (simp add: d)
      have st: "same_tabs v D w" using f(11) tabs by (simp add: same_tabs_def)
      have "data_safe v D (vrefs v D + E) w D (vrefs w D + (E + L))"
        unfolding data_safe_def
      proof (intro allI impI)
        fix x assume x: "x \<in># vrefs v D + E \<and> \<not> is_table v D x"
        then have k: "rd w1 x = rd v x" "x \<in># vrefs w1 (insert f D) + (E + L)" "\<not> is_table w1 (insert f D) x"
          using f(8) by (simp_all add: data_safe_def)
        have vw: "vrefs w D = vrefs w1 D"
          by (rule vrefs_elsewhere(1) [OF F(2) [folded d(2)] D1(3)]) (simp add: F(3) d)
        have "x \<in># vrefs w D + (E + L)" using vw f(9) x by auto
        moreover have "\<not> is_table w D x" using k(3) is_table_mono [of D "insert f D" w1 x] tabs by (auto simp: is_table_def)
        ultimately show "rd w x = rd v x \<and> x \<in># vrefs w D + (E + L) \<and> \<not> is_table w D x"
          using k(1) F(3) by (simp add: d)
      qed
      then show ?thesis using d F pw st same_boot_trans [OF f(6) F(2)] by auto
    next
      case True
      then have d: "d = f" "w = map_trampoline cid f w1" and L: "L = {#}" using dw f(4) by auto
      have tr: "pte_at w1 f va = boot_pte_at w1 va" for va using f(10) True by blast
      have f5: "vm_ok w1 (insert f D) E" using f(5) L by simp
      from trampoline_ok [OF f5 cid insertI1 tr d(2)] obtain L' where
        t: "vm_ok w (insert f D) (E + L')" "same_boot w1 w" "data_kept w1 (insert f D) (vrefs w1 (insert f D) + E) w (vrefs w (insert f D) + (E + L'))"
        and gr: "tabs_grow w1 (insert f D) f w"
        and alt: "same_ptes w1 (insert f D) w
        \<or> (L' = {#} \<and> (\<exists>tp. tp \<notin># vrefs w1 (insert f D) + E \<and> tp < 2 ^ 20 \<and> fr_reserved (vm_fr w1) \<le> tp
              \<and> sets_pte w1 (insert f D) f TRAMPOLINE_VA (pte_of_flags (of_nat (tp * 4096)) (PAGE_PRESENT OR PAGE_USER)) w))"
        by blast
      have st: "same_tabs v D w" by (rule same_tabs_trans [OF f(11) tabs_grow_other [OF gr f(3)]])
      have bw: "boot_tabs w f" using tabs_grow_boot [OF gr insertI1 t(2) D1(3)] f(10) True by blast
      have ds: "data_safe v D (vrefs v D + E) w (insert f D) (vrefs w (insert f D) + (E + L'))"
        using data_safe_trans [OF f(8) [unfolded L]] t(3) by (simp add: data_kept_safe)
      note bt = boot_pte_at_same [OF t(2) D1(3)]
      have sb: "same_boot v w" by (rule same_boot_trans [OF f(6) t(2)])
      from alt have "same_ptes v D w \<and> fresh_space w f \<and> (pte_at w f TRAMPOLINE_VA = boot_pte_at w TRAMPOLINE_VA
          \<or> L' = {#} \<and> (\<exists>tp. tp \<notin># vrefs v D + E \<and> has_trampoline w f tp))"
      proof (elim disjE conjE exE)
        assume "same_ptes w1 (insert f D) w"
        then show ?thesis using f(7) tr bt by (simp add: same_ptes_def fresh_space_def bw)
      next
        fix tp assume tp: "L' = {#}" "tp \<notin># vrefs w1 (insert f D) + E" "tp < 2 ^ 20" "fr_reserved (vm_fr w1) \<le> tp"
          "sets_pte w1 (insert f D) f TRAMPOLINE_VA (pte_of_flags (of_nat (tp * 4096)) (PAGE_PRESENT OR PAGE_USER)) w"
        have "vrefs w1 (insert f D) = vrefs v D + vrefs w1 {f}" using vrefs_insert [OF vm_okD(1) [OF ok] f(3)] f(9) by simp
        then have "tp \<notin># vrefs v D + E" using tp(2) by auto
        moreover have "has_trampoline w f tp" using tp t(2) by (simp add: has_trampoline_def sets_pte_def same_boot_def)
        moreover have "same_ptes v D w" "fresh_space w f" using tp(5) f(3,7) tr bt by (auto simp: same_ptes_def sets_pte_def fresh_space_def bw)
        ultimately show ?thesis using tp(1) by blast
      qed
      then show ?thesis using d f(2,3) t(1) sb ds st by blast
    qed
  qed
  then show "d = 0 \<Longrightarrow> \<exists>L. vm_ok w D (E + L) \<and> same_boot v w \<and> same_ptes v D w \<and> same_tabs v D w \<and> data_safe v D (vrefs v D + E) w D (vrefs w D + (E + L))"
    and "d \<noteq> 0 \<Longrightarrow> d \<notin> D \<and> (\<exists>L. vm_ok w (insert d D) (E + L) \<and> same_boot v w \<and> same_ptes v D w \<and> same_tabs v D w
      \<and> data_safe v D (vrefs v D + E) w (insert d D) (vrefs w (insert d D) + (E + L)) \<and> fresh_space w d
      \<and> (pte_at w d TRAMPOLINE_VA = boot_pte_at w TRAMPOLINE_VA
          \<or> L = {#} \<and> (\<exists>tp. tp \<notin># vrefs v D + E \<and> has_trampoline w d tp)))" by blast+
qed

end
