(* ===== verification/Vmm_Clone.thy ===== *)
theory Vmm_Clone
  imports Vmm_Space
begin

text \<open>
  Copy on write: what \<open>vmm_clone_address_space\<close> does entry by entry. A page the child inherits
  is mapped by both spaces through the same entry, read-only if it was privately writable, and
  has one more reference; whatever the fresh space already had in a slot the clone overwrites
  stays referenced by nobody.
\<close>

section \<open>One more reference\<close>

lemma share_step:
  assumes ok: "vm_ok v D E" and f: "fr_reserved (vm_fr v) \<le> f" "f \<in># vrefs v D + E" "\<not> is_table v D f"
    and w: "w = v\<lparr>vm_fr := bump_ref (f * 4096) (vm_fr v)\<rparr>"
  shows "vm_ok w D (add_mset f E)" "same_boot v w" "rd w = rd v" "vrefs w D = vrefs v D"
    "\<And>x M. x \<noteq> f \<Longrightarrow> sole w M x = sole v M x"
proof -
  note D = vm_okD [OF ok] and B = acct_bump [OF vm_okD(4) [OF ok] f(1,2)]
  show rdw: "rd w = rd v" by (simp add: w)
  show sb: "same_boot v w" using B by (simp add: same_boot_def w)
  show vw: "vrefs w D = vrefs v D" unfolding w by (rule vrefs_fr [OF D(3)]) (use sb w in simp)
  show so: "sole w M x = sole v M x" if "x \<noteq> f" for x M using B that by (simp add: sole_def w)
  show "vm_ok w D (add_mset f E)"
  proof (rule vm_ok_transfer [OF ok sb D(1)])
    show "acct (vm_fr w) (vrefs w D + add_mset f E)" using B(1) vw by (simp add: w)
    fix q t assume q: "q \<in> tposs D" "tab_at w q = Some t"
    then have q': "tab_at v q = Some t" by (simp add: w)
    have "t \<noteq> f" using f(3) q(1) q' by (auto simp: is_table_def)
    then have "sole v (vrefs v D + add_mset f E) t" using D(5) [OF q(1) q'] by (simp add: sole_def)
    then show "sole w (vrefs w D + add_mset f E) t" by (simp only: vw so [OF \<open>t \<noteq> f\<close>])
  qed
qed

lemma share_commute: "share_page p (set_entry f i e v) = set_entry f i e (share_page p v)"
  by (cases v) (simp add: share_page_def set_entry_def)

lemma share_page_eq:
  "share_page (entry_paddr e) v = (if fr_reserved (vm_fr v) \<le> entry_frame e
     then v\<lparr>vm_fr := bump_ref (entry_frame e * 4096) (vm_fr v)\<rparr> else v)"
  by (simp add: share_page_def entry_paddr_frame)

text \<open>Replacing an entry by one that refers to the same frame.\<close>

lemma pt_write_same:
  assumes ok: "vm_ok v D E" and l: "(d, pi, j, k) \<in> leafs D" and t: "pt_of v d pi j = Some t"
    and r: "pte_ref v pi j k e = leaf_ref v (d, pi, j, k)" and w: "w = set_entry t k e v"
  shows "vm_ok w D E" "same_boot v w" "vrefs w D = vrefs v D" "\<And>q. q \<in> tposs D \<Longrightarrow> tab_at w q = tab_at v q"
    "\<And>d' pi' j' k'. (d', pi', j', k') \<in> leafs D \<Longrightarrow>
       pte_of w d' pi' j' k' = (if (d', pi', j', k') = (d, pi, j, k) then e else pte_of v d' pi' j' k')"
    "data_kept v D (vrefs v D + E) w (vrefs w D + E)"
proof -
  note W = pt_write [OF ok l t, where e = e, folded w] and D = vm_okD [OF ok]
  have p: "Tab d pi j \<in> tposs D" "tab_at v (Tab d pi j) = Some t" using l t by simp_all
  show sb: "same_boot v w" unfolding w by (rule write_away(2) [OF ok p])
  show vw: "vrefs w D = vrefs v D" using W(5) unfolding r by simp
  show T: "tab_at w q = tab_at v q" if "q \<in> tposs D" for q by (rule W(1) [OF that])
  show "pte_of w d' pi' j' k' = (if (d', pi', j', k') = (d, pi, j, k) then e else pte_of v d' pi' j' k')"
    if "(d', pi', j', k') \<in> leafs D" for d' pi' j' k'
  proof (cases "(d', pi', j', k') = (d, pi, j, k)")
    case True
    then show ?thesis using W(3) by simp
  next
    case False
    then show ?thesis using W(4) [OF that False] by (simp only: if_False)
  qed
  show "vm_ok w D E"
  proof (rule vm_ok_transfer [OF ok sb D(1)])
    show "acct (vm_fr w) (vrefs w D + E)" using D(4) vw by (simp add: w)
    fix q t' assume q: "q \<in> tposs D" "tab_at w q = Some t'"
    show "sole w (vrefs w D + E) t'" using D(5) [OF q(1)] q(2) T [OF q(1)] vw by (simp add: sole_def w)
  qed
  show "data_kept v D (vrefs v D + E) w (vrefs w D + E)"
    unfolding vw unfolding w
  proof (rule kept_write [OF data_kept_refl])
    show "is_table v D t" unfolding is_table_def using p by (intro bexI [of _ "Tab d pi j"]) simp_all
  qed (use T w in auto)
qed

section \<open>Inherited entries\<close>

text \<open>Does the child inherit entry \<open>e\<close> of slot \<open>(pi, j)\<close>, and as what?\<close>

definition inherits :: "vmm \<Rightarrow> nat \<Rightarrow> nat \<Rightarrow> u64 \<Rightarrow> bool" where
  "inherits v pi j e \<longleftrightarrow> present e \<and> \<not> has e PAGE_DEV \<and> (present (boot_pde v pi j) \<longrightarrow> has e PAGE_USER)"

definition cow_of :: "u64 \<Rightarrow> u64" where
  "cow_of e = (if has e PAGE_USER \<and> has e PAGE_RW \<and> \<not> has e PAGE_SHARED then cow_pte e else e)"

lemma cow_pte_has [simp]:
  "has (cow_pte e) PAGE_PRESENT = has e PAGE_PRESENT" "has (cow_pte e) PAGE_DEV = has e PAGE_DEV"
  "has (cow_pte e) PAGE_USER = has e PAGE_USER" "has (cow_pte e) PAGE_SHARED = has e PAGE_SHARED"
  "has (cow_pte e) PAGE_COW" "\<not> has (cow_pte e) PAGE_RW" "has (cow_pte e) PAGE_NX = has e PAGE_NX"
  by (simp_all add: cow_pte_def pte_simps bit_simps)

lemma cow_pte_idem [simp]: "cow_pte (cow_pte e) = cow_pte e"
  by (rule bit_eqI) (auto simp: cow_pte_def bit_simps)

lemma cow_of_simps [simp]:
  "present (cow_of e) = present e" "has (cow_of e) PAGE_DEV = has e PAGE_DEV" "has (cow_of e) PAGE_USER = has e PAGE_USER"
  "entry_frame (cow_of e) = entry_frame e" "cow_of (cow_of e) = cow_of e" "entry_paddr (cow_of e) = entry_paddr e"
  by (simp_all add: cow_of_def entry_frame_flags entry_paddr_frame)

lemma user_differs:
  assumes "boot_ok v" and "pi < PDPT_ENTRIES" and "j < PT_ENTRIES" and "k < PT_ENTRIES" and "present (boot_pde v pi j)" and "has e PAGE_USER"
  shows "e AND PTE_CMP_MASK \<noteq> rd v (entry_frame (boot_pde v pi j)) k AND PTE_CMP_MASK"
proof
  let ?b = "rd v (entry_frame (boot_pde v pi j)) k"
  assume "e AND PTE_CMP_MASK = ?b AND PTE_CMP_MASK"
  then have "bit (e AND PTE_CMP_MASK) 2 = bit (?b AND PTE_CMP_MASK) 2" by simp
  moreover have "bit PTE_CMP_MASK 2" unfolding PTE_CMP_MASK_def by simp
  moreover have "\<not> has ?b PAGE_USER" using assms(1-5) by (simp add: boot_ok_def)
  ultimately show False using assms(6) by (simp add: bit_and_iff pte_simps)
qed

lemma inherits_ref:
  assumes "boot_ok v" and "pi < PDPT_ENTRIES" and "j < PT_ENTRIES" and "k < PT_ENTRIES" and "inherits v pi j e"
  shows "pte_ref v pi j k e = (if fr_reserved (vm_fr v) \<le> entry_frame e then {#entry_frame e#} else {#})"
    and "pte_ref v pi j k (cow_of e) = pte_ref v pi j k e"
  using assms user_differs [OF assms(1-4)] by (auto simp: pte_ref_def freeable_def inherits_def entry_paddr_frame)

section \<open>Sharing an entry of the source\<close>

lemma share_src:
  assumes ok: "vm_ok v D E" and l: "(d, pi, j, k) \<in> leafs D" and t: "pt_of v d pi j = Some s"
    and inh: "inherits v pi j (rd v s k)"
    and w: "w = set_entry s k (cow_of (rd v s k)) (share_page (entry_paddr (rd v s k)) v)"
  shows "vm_ok w D (E + pte_ref v pi j k (cow_of (rd v s k)))" "same_boot v w" "vrefs w D = vrefs v D"
    and "\<And>q. q \<in> tposs D \<Longrightarrow> tab_at w q = tab_at v q" "\<And>x. x \<noteq> s \<Longrightarrow> rd w x = rd v x"
    and "\<And>d' pi' j' k'. (d', pi', j', k') \<in> leafs D \<Longrightarrow>
       pte_of w d' pi' j' k' = (if (d', pi', j', k') = (d, pi, j, k) then cow_of (rd v s k) else pte_of v d' pi' j' k')"
    and "data_kept v D (vrefs v D + E) w (vrefs w D + (E + pte_ref v pi j k (cow_of (rd v s k))))"
    and "\<And>x M. x \<notin># vrefs v D \<Longrightarrow> sole w M x = sole v M x"
    and "pte_ref v pi j k (cow_of (rd v s k)) \<subseteq># vrefs v D"
proof -
  let ?e = "rd v s k"
  define c where "c = cow_of ?e"
  define v1 where "v1 = share_page (entry_paddr ?e) v"
  have w': "w = set_entry s k c v1" by (simp add: w c_def v1_def)
  note bo = vm_okD(3) [OF ok]
  have bd: "pi < PDPT_ENTRIES" "j < PT_ENTRIES" "k < PT_ENTRIES" using l by simp_all
  note R = inherits_ref [OF bo bd inh]
  have es: "pte_of v d pi j k = ?e" using t by (simp add: pte_of_def)
  have lref: "leaf_ref v (d, pi, j, k) = pte_ref v pi j k ?e" by (simp add: es)
  have V1: "vm_ok v1 D (E + pte_ref v pi j k ?e) \<and> same_boot v v1 \<and> rd v1 = rd v \<and> vrefs v1 D = vrefs v D
     \<and> (\<forall>x M. x \<notin># vrefs v D \<longrightarrow> sole v1 M x = sole v M x) \<and> pte_ref v pi j k ?e \<subseteq># vrefs v D"
  proof (cases "fr_reserved (vm_fr v) \<le> entry_frame ?e")
    case True
    have m: "entry_frame ?e \<in># leaf_ref v (d, pi, j, k)" using R(1) True lref by simp
    then have m': "entry_frame ?e \<in># vrefs v D"
      unfolding vrefs_def using count_sum_ge [of "leafs D" _ "entry_frame ?e" "leaf_ref v", OF _ l] vm_okD(1) [OF ok] by simp
    moreover have nt: "\<not> is_table v D (entry_frame ?e)"
      using table_unique(2) [OF ok _ _ l] m by (auto simp: is_table_def)
    have m2: "entry_frame ?e \<in># vrefs v D + E" using m' by simp
    note S = share_step [OF ok True m2 nt refl]
    have "sole v1 M x = sole v M x" if "x \<notin># vrefs v D" for x M
      using S(5) [of x M] that m' True by (auto simp: v1_def share_page_eq)
    with S show ?thesis using R(1) True m' by (simp add: v1_def share_page_eq)
  next
    case False
    then show ?thesis using ok R(1) by (simp add: v1_def share_page_eq)
  qed
  then have ok1: "vm_ok v1 D (E + pte_ref v pi j k ?e)" and sb1: "same_boot v v1" and rd1: "rd v1 = rd v"
    and vr1: "vrefs v1 D = vrefs v D" and so1: "\<And>x M. x \<notin># vrefs v D \<Longrightarrow> sole v1 M x = sole v M x"
    and sub: "pte_ref v pi j k ?e \<subseteq># vrefs v D" by blast+
  note vw1 = views_rd [OF rd1]
  have pt1: "pt_of v1 d pi j = Some s" using vw1(2) [of "Tab _ _ _"] t by simp
  have ref1: "pte_ref v1 pi j k x = pte_ref v pi j k x" for x by (rule pte_ref_same [OF sb1 bo bd(1,2)])
  have r1: "pte_ref v1 pi j k c = leaf_ref v1 (d, pi, j, k)"
    using R(2) es vw1(3) by (simp add: ref1 c_def)
  note W = pt_write_same [OF ok1 l pt1 r1 w']
  show "vm_ok w D (E + pte_ref v pi j k (cow_of ?e))" using W(1) R(2) by simp
  show "same_boot v w" by (rule same_boot_trans [OF sb1 W(2)])
  show "vrefs w D = vrefs v D" using W(3) vr1 by simp
  show "tab_at w q = tab_at v q" if "q \<in> tposs D" for q using W(4) [OF that] vw1(2) by simp
  show "rd w x = rd v x" if "x \<noteq> s" for x using that rd1 by (auto simp: w')
  show "pte_of w d' pi' j' k' = (if (d', pi', j', k') = (d, pi, j, k) then cow_of ?e else pte_of v d' pi' j' k')"
    if "(d', pi', j', k') \<in> leafs D" for d' pi' j' k'
    using W(5) [OF that] unfolding vw1(3) c_def .
  have "data_kept v D (vrefs v D + E) v1 (vrefs v1 D + (E + pte_ref v pi j k ?e))"
    by (rule kept_alloc) (use rd1 vw1(2) vr1 in auto)
  from data_kept_trans [OF this W(6)] show "data_kept v D (vrefs v D + E) w (vrefs w D + (E + pte_ref v pi j k (cow_of ?e)))"
    using R(2) by simp
  show "sole w M x = sole v M x" if "x \<notin># vrefs v D" for x M
    using so1 [OF that, of M] by (simp add: w' sole_def)
  show "pte_ref v pi j k (cow_of ?e) \<subseteq># vrefs v D" using sub R(2) by simp
qed

section \<open>Kernel region tables\<close>

lemma clone_kernel_pte_eq:
  assumes "present (boot_pde v pi j)"
  shows "clone_kernel_pte s t k v = (if inherits v pi j (rd v s k)
    then set_entry t k (cow_of (rd v s k)) (set_entry s k (cow_of (rd v s k)) (share_page (entry_paddr (rd v s k)) v)) else v)"
proof (cases "inherits v pi j (rd v s k)")
  case True
  let ?e = "rd v s k"
  have id: "set_entry s k ?e v = v" by (simp add: set_entry_def)
  have "(if has ?e PAGE_RW \<and> \<not> has ?e PAGE_SHARED then set_entry s k (cow_pte ?e) v else v) = set_entry s k (cow_of ?e) v"
    using True assms id by (simp add: cow_of_def inherits_def)
  then show ?thesis using True assms
    by (simp add: clone_kernel_pte_def inherits_def Let_def share_commute)
next
  case False
  then show ?thesis using assms by (auto simp: clone_kernel_pte_def inherits_def Let_def)
qed

text \<open>What the clone makes of the entries of one slot: \<open>K\<close> are the entries already visited.\<close>

definition slot_view :: "vmm \<Rightarrow> nat \<Rightarrow> nat \<Rightarrow> nat \<Rightarrow> nat \<Rightarrow> nat set \<Rightarrow> nat \<Rightarrow> nat \<Rightarrow> nat \<Rightarrow> nat \<Rightarrow> u64" where
  "slot_view v src dst pi j K d' pi' j' k' =
     (if (d' = src \<or> d' = dst) \<and> (pi', j') = (pi, j) \<and> k' \<in> K \<and> inherits v pi j (pte_of v src pi j k')
      then cow_of (pte_of v src pi j k') else pte_of v d' pi' j' k')"

lemma kernel_step:
  assumes ok: "vm_ok v D E" and s: "(src, pi, j, k) \<in> leafs D" "pt_of v src pi j = Some s"
    and t: "(dst, pi, j, k) \<in> leafs D" "pt_of v dst pi j = Some t" and ne: "src \<noteq> dst" and b: "present (boot_pde v pi j)"
    and w: "w = clone_kernel_pte s t k v"
  shows "\<exists>L. vm_ok w D (E + L) \<and> same_boot v w \<and> (\<forall>q\<in>tposs D. tab_at w q = tab_at v q)
     \<and> data_kept v D (vrefs v D + E) w (vrefs w D + (E + L))
     \<and> (\<forall>d' pi' j' k'. (d', pi', j', k') \<in> leafs D \<longrightarrow> pte_of w d' pi' j' k' = slot_view v src dst pi j {k} d' pi' j' k')
     \<and> (inherits v pi j (pte_of v src pi j k) \<longrightarrow> leaf_ref v (dst, pi, j, k) \<subseteq># L)"
proof -
  let ?e = "rd v s k"
  have es: "pte_of v src pi j k = ?e" using s(2) by (simp add: pte_of_def)
  note bo = vm_okD(3) [OF ok]
  have bd: "pi < PDPT_ENTRIES" "j < PT_ENTRIES" "k < PT_ENTRIES" using s(1) by simp_all
  show ?thesis
  proof (cases "inherits v pi j ?e")
    case False
    then show ?thesis using ok w es by (intro exI [of _ "{#}"]) (simp add: clone_kernel_pte_eq [OF b] slot_view_def)
  next
    case inh: True
    define c where "c = cow_of ?e"
    define v2 where "v2 = set_entry s k c (share_page (entry_paddr ?e) v)"
    have w': "w = set_entry t k c v2" using w inh by (simp add: clone_kernel_pte_eq [OF b] v2_def c_def)
    note W2 = share_src [OF ok s inh v2_def [unfolded c_def], folded c_def]
    have pt2: "pt_of v2 dst pi j = Some t" using W2(4) [of "Tab dst pi j"] t by simp
    have ref2: "pte_ref v2 pi j k x = pte_ref v pi j k x" for x by (rule pte_ref_same [OF W2(2) bo bd(1,2)])
    have "vm_ok v2 D (E + pte_ref v2 pi j k c)" using W2(1) by (simp add: ref2)
    note W3 = pt_write_ok [OF this t(1) pt2, folded w'] and P3 = pt_write [OF W2(1) t(1) pt2, where e = c, folded w']
    have d2: "pte_of v2 dst pi j k = pte_of v dst pi j k" using W2(6) [OF t(1)] ne by simp
    have l2: "leaf_ref v2 (dst, pi, j, k) = leaf_ref v (dst, pi, j, k)" by (simp add: d2 ref2)
    have T: "tab_at w q = tab_at v q" if "q \<in> tposs D" for q using P3(1) [OF that] W2(4) [OF that] by simp
    have view: "pte_of w d' pi' j' k' = slot_view v src dst pi j {k} d' pi' j' k'" if l: "(d', pi', j', k') \<in> leafs D" for d' pi' j' k'
    proof (cases "(d', pi', j', k') = (dst, pi, j, k)")
      case True
      then show ?thesis using P3(3) inh es by (simp add: slot_view_def c_def)
    next
      case False
      then have "pte_of w d' pi' j' k' = pte_of v2 d' pi' j' k'" using P3(4) [OF l] by simp
      also have "\<dots> = (if (d', pi', j', k') = (src, pi, j, k) then c else pte_of v d' pi' j' k')" by (rule W2(6) [OF l])
      also have "\<dots> = slot_view v src dst pi j {k} d' pi' j' k'" using False inh es by (auto simp: slot_view_def c_def)
      finally show ?thesis .
    qed
    have M: "vrefs w D + (E + leaf_ref v (dst, pi, j, k)) = vrefs v2 D + (E + pte_ref v pi j k c)"
      using P3(5) unfolding l2 by (simp add: ref2 ac_simps)
    have "data_kept v2 D (vrefs v2 D + (E + pte_ref v pi j k c)) w (vrefs w D + (E + leaf_ref v (dst, pi, j, k)))"
      unfolding M unfolding w'
    proof (rule kept_write [OF data_kept_refl])
      show "is_table v2 D t" unfolding is_table_def using pt2 t(1) by (intro bexI [of _ "Tab dst pi j"]) simp_all
    qed (use P3(1) w' in auto)
    note kp = data_kept_trans [OF W2(7) this]
    show ?thesis
      using W3 l2 same_boot_trans [OF W2(2) W3(2)] T kp view by (intro exI [of _ "leaf_ref v (dst, pi, j, k)"]) simp
  qed
qed

chapter \<open>Copy on write\<close>

text \<open>
  The clone, slot by slot: which translations of the two spaces a directory entry's worth of
  cloning changes, and what the pages of the fresh space it overwrites leave behind.
\<close>

section \<open>The view of a set of slots\<close>

definition clone_view :: "vmm \<Rightarrow> nat \<Rightarrow> nat \<Rightarrow> (nat \<times> nat) set \<Rightarrow> nat \<Rightarrow> nat \<Rightarrow> nat \<Rightarrow> nat \<Rightarrow> u64" where
  "clone_view v src dst S d pi j k =
     (if (d = src \<or> d = dst) \<and> (pi, j) \<in> S then
        if inherits v pi j (pte_of v src pi j k) then cow_of (pte_of v src pi j k)
        else if d = dst \<and> \<not> present (boot_pde v pi j) \<and> pt_of v src pi j \<noteq> None then 0
        else pte_of v d pi j k
      else pte_of v d pi j k)"

text \<open>\<open>L\<close> is what stays referenced but belongs to no table and no page of a space.\<close>

definition clone_step :: "vmm \<Rightarrow> nat set \<Rightarrow> nat multiset \<Rightarrow> nat \<Rightarrow> nat \<Rightarrow> (nat \<times> nat) set \<Rightarrow> vmm \<Rightarrow> nat multiset \<Rightarrow> bool" where
  "clone_step v D E src dst S w L \<longleftrightarrow> vm_ok w D (E + L) \<and> same_boot v w
     \<and> data_kept v D (vrefs v D + E) w (vrefs w D + (E + L))
     \<and> (\<forall>q\<in>tposs D. (\<forall>pi j. q = Tab dst pi j \<longrightarrow> (pi, j) \<notin> S) \<longrightarrow> tab_at w q = tab_at v q)
     \<and> (\<forall>d pi j k. (d, pi, j, k) \<in> leafs D \<longrightarrow> pte_of w d pi j k = clone_view v src dst S d pi j k)
     \<and> (\<forall>pi j k. (pi, j) \<in> S \<and> (dst, pi, j, k) \<in> leafs D \<and> inherits v pi j (pte_of v src pi j k) \<longrightarrow> leaf_ref v (dst, pi, j, k) \<subseteq># L)"

lemma clone_stepD:
  assumes "clone_step v D E src dst S w L"
  shows "vm_ok w D (E + L)" "same_boot v w" "data_kept v D (vrefs v D + E) w (vrefs w D + (E + L))"
    "\<And>q. q \<in> tposs D \<Longrightarrow> (\<And>pi j. q = Tab dst pi j \<Longrightarrow> (pi, j) \<notin> S) \<Longrightarrow> tab_at w q = tab_at v q"
    "\<And>d pi j k. (d, pi, j, k) \<in> leafs D \<Longrightarrow> pte_of w d pi j k = clone_view v src dst S d pi j k"
    "\<And>pi j k. (pi, j) \<in> S \<Longrightarrow> (dst, pi, j, k) \<in> leafs D \<Longrightarrow> inherits v pi j (pte_of v src pi j k) \<Longrightarrow> leaf_ref v (dst, pi, j, k) \<subseteq># L"
  using assms unfolding clone_step_def by blast+

lemma clone_step_empty: "vm_ok v D E \<Longrightarrow> clone_step v D E src dst {} v {#}"
  by (simp add: clone_step_def clone_view_def)

lemma clone_step_quiet:
  assumes "quiet v D d E w" and "\<And>q. q \<in> tposs D \<Longrightarrow> tab_at w q = tab_at v q"
  shows "clone_step v D E src dst {} w {#}"
  using quietD [OF assms(1)] assms(2) by (simp add: clone_step_def clone_view_def)

lemma clone_step_trans:
  assumes bo: "boot_ok v" and c: "clone_step v D E src dst S u L" "clone_step u D (E + L) src dst T w M"
    and dj: "S \<inter> T = {}" and ne: "src \<noteq> dst" and sD: "src \<in> D" and b: "S \<union> T \<subseteq> {..<PDPT_ENTRIES} \<times> {..<PT_ENTRIES}"
  shows "clone_step v D E src dst (S \<union> T) w (L + M)"
proof -
  note A = clone_stepD [OF c(1)] and B = clone_stepD [OF c(2)]
  have sb: "same_boot v w" by (rule same_boot_trans [OF A(2) B(2)])
  have bp: "boot_pde u pi j = boot_pde v pi j" if "pi < PDPT_ENTRIES" for pi j by (rule same_boot_pde [OF A(2) bo that])
  have inh: "inherits u pi j e = inherits v pi j e" if "pi < PDPT_ENTRIES" for pi j e
    using bp [OF that] by (simp add: inherits_def)
  have sp: "pt_of u src pi j = pt_of v src pi j" if "pi < PDPT_ENTRIES" "j < PT_ENTRIES" for pi j
    using A(4) [of "Tab src pi j"] that sD ne by simp
  have same: "pte_of u d pi j k = pte_of v d pi j k" if "(d, pi, j, k) \<in> leafs D" "(pi, j) \<notin> S" for d pi j k
    using A(5) [OF that(1)] that(2) by (simp add: clone_view_def)
  have T: "(pi, j) \<notin> S" if "(pi, j) \<in> T" for pi j using dj that by blast
  have pw: "pte_of w d pi j k = clone_view v src dst (S \<union> T) d pi j k" if l: "(d, pi, j, k) \<in> leafs D" for d pi j k
  proof (cases "(pi, j) \<in> T")
    case True
    have ls: "(src, pi, j, k) \<in> leafs D" using l sD by simp
    have p: "pi < PDPT_ENTRIES" "j < PT_ENTRIES" using l by simp_all
    show ?thesis
      unfolding B(5) [OF l] clone_view_def same [OF l T [OF True]] same [OF ls T [OF True]] inh [OF p(1)] bp [OF p(1)] sp [OF p]
      using True by simp
  next
    case False
    then show ?thesis using B(5) [OF l] A(5) [OF l] by (simp add: clone_view_def)
  qed
  have lf: "leaf_ref v (dst, pi, j, k) \<subseteq># L + M"
    if h: "(pi, j) \<in> S \<union> T" "(dst, pi, j, k) \<in> leafs D" "inherits v pi j (pte_of v src pi j k)" for pi j k
  proof (cases "(pi, j) \<in> S")
    case True
    then show ?thesis using A(6) [OF True h(2,3)] by (simp add: subset_mset.add_increasing2)
  next
    case False
    have ls: "(src, pi, j, k) \<in> leafs D" using h(2) sD by simp
    have "leaf_ref u (dst, pi, j, k) \<subseteq># M" by (rule B(6)) (use h False same [OF ls False] inh in auto)
    moreover have "leaf_ref u (dst, pi, j, k) = leaf_ref v (dst, pi, j, k)"
      using same [OF h(2) False] pte_ref_same [OF A(2) bo] h(2) by simp
    ultimately show ?thesis by (simp add: subset_mset.add_increasing)
  qed
  have tb: "tab_at w q = tab_at v q" if "q \<in> tposs D" "\<And>pi j. q = Tab dst pi j \<Longrightarrow> (pi, j) \<notin> S \<union> T" for q
    using A(4) [OF that(1)] B(4) [OF that(1)] that(2) by simp
  have ok: "vm_ok w D (E + (L + M))" using B(1) by (simp add: ac_simps)
  have kp: "data_kept v D (vrefs v D + E) w (vrefs w D + (E + (L + M)))"
    using data_kept_trans [OF A(3) B(3)] by (simp add: ac_simps)
  show ?thesis unfolding clone_step_def
    using ok sb kp tb pw lf by blast
qed

section \<open>A kernel region slot\<close>

lemma kernel_fold:
  assumes s: "src \<in> D" and t: "dst \<in> D" and ne: "src \<noteq> dst" and bd: "pi < PDPT_ENTRIES" "j < PT_ENTRIES"
  shows "vm_ok v D E \<Longrightarrow> pt_of v src pi j = Some s \<Longrightarrow> pt_of v dst pi j = Some t \<Longrightarrow> present (boot_pde v pi j) \<Longrightarrow>
    set ks \<subseteq> {..<PT_ENTRIES} \<Longrightarrow> distinct ks \<Longrightarrow> w = fold (clone_kernel_pte s t) ks v \<Longrightarrow>
    \<exists>L. vm_ok w D (E + L) \<and> same_boot v w \<and> (\<forall>q\<in>tposs D. tab_at w q = tab_at v q)
     \<and> data_kept v D (vrefs v D + E) w (vrefs w D + (E + L))
     \<and> (\<forall>d' pi' j' k'. (d', pi', j', k') \<in> leafs D \<longrightarrow> pte_of w d' pi' j' k' = slot_view v src dst pi j (set ks) d' pi' j' k')
     \<and> (\<forall>k\<in>set ks. inherits v pi j (pte_of v src pi j k) \<longrightarrow> leaf_ref v (dst, pi, j, k) \<subseteq># L)"
proof (induction ks arbitrary: v E)
  case Nil
  then show ?case by (intro exI [of _ "{#}"]) (simp add: slot_view_def)
next
  case (Cons k ks)
  note ok = Cons.prems(1) and bo = vm_okD(3) [OF Cons.prems(1)]
  have k: "k < PT_ENTRIES" "k \<notin> set ks" and ks: "set ks \<subseteq> {..<PT_ENTRIES}" "distinct ks" using Cons.prems(5,6) by auto
  define u where "u = clone_kernel_pte s t k v"
  have ls: "(src, pi, j, k') \<in> leafs D" "(dst, pi, j, k') \<in> leafs D" if "k' < PT_ENTRIES" for k' using s t bd that by simp_all
  from kernel_step [OF ok ls(1) [OF k(1)] Cons.prems(2) ls(2) [OF k(1)] Cons.prems(3) ne Cons.prems(4) u_def]
  obtain L where A: "vm_ok u D (E + L)" "same_boot v u" "\<And>q. q \<in> tposs D \<Longrightarrow> tab_at u q = tab_at v q"
     "data_kept v D (vrefs v D + E) u (vrefs u D + (E + L))"
     "\<And>d' pi' j' k'. (d', pi', j', k') \<in> leafs D \<Longrightarrow> pte_of u d' pi' j' k' = slot_view v src dst pi j {k} d' pi' j' k'"
     "inherits v pi j (pte_of v src pi j k) \<Longrightarrow> leaf_ref v (dst, pi, j, k) \<subseteq># L" by blast
  have bp: "boot_pde u pi j = boot_pde v pi j" by (rule same_boot_pde [OF A(2) bo bd(1)])
  have inh: "inherits u pi j e = inherits v pi j e" for e using bp by (simp add: inherits_def)
  have pt: "pt_of u src pi j = Some s" "pt_of u dst pi j = Some t" and pb: "present (boot_pde u pi j)"
    using A(3) [of "Tab src pi j"] A(3) [of "Tab dst pi j"] Cons.prems(2-4) s t bd bp by simp_all
  have w: "w = fold (clone_kernel_pte s t) ks u" using Cons.prems(7) by (simp add: u_def)
  from Cons.IH [OF A(1) pt pb ks w] obtain M where B: "vm_ok w D (E + L + M)" "same_boot u w" "\<And>q. q \<in> tposs D \<Longrightarrow> tab_at w q = tab_at u q"
     "data_kept u D (vrefs u D + (E + L)) w (vrefs w D + (E + L + M))"
     "\<And>d' pi' j' k'. (d', pi', j', k') \<in> leafs D \<Longrightarrow> pte_of w d' pi' j' k' = slot_view u src dst pi j (set ks) d' pi' j' k'"
     "\<And>k. k \<in> set ks \<Longrightarrow> inherits u pi j (pte_of u src pi j k) \<Longrightarrow> leaf_ref u (dst, pi, j, k) \<subseteq># M" by blast
  have old: "pte_of u d pi j k' = pte_of v d pi j k'" if "(d, pi, j, k') \<in> leafs D" "k' \<in> set ks" for d k'
  proof -
    have "k' \<noteq> k" using that(2) k(2) by auto
    then show ?thesis using A(5) [OF that(1)] by (simp add: slot_view_def)
  qed
  have vw: "pte_of w d' pi' j' k' = slot_view v src dst pi j (set (k # ks)) d' pi' j' k'" if l: "(d', pi', j', k') \<in> leafs D" for d' pi' j' k'
  proof (cases "(pi', j') = (pi, j) \<and> k' \<in> set ks")
    case True
    have l': "(d', pi, j, k') \<in> leafs D" "(src, pi, j, k') \<in> leafs D" using l s True by simp_all
    have kk: "k' \<in> set ks" "pi' = pi" "j' = j" using True by auto
    show ?thesis using B(5) [OF l] old [OF l'(1) kk(1)] old [OF l'(2) kk(1)] inh kk
      by (simp add: slot_view_def)
  next
    case False
    then show ?thesis using B(5) [OF l] A(5) [OF l] by (auto simp: slot_view_def)
  qed
  have lf: "leaf_ref v (dst, pi, j, k') \<subseteq># L + M" if h: "k' \<in> set (k # ks)" "inherits v pi j (pte_of v src pi j k')" for k'
  proof (cases "k' = k")
    case True
    then show ?thesis using A(6) h(2) by (simp add: subset_mset.add_increasing2)
  next
    case False
    then have k': "k' \<in> set ks" "k' < PT_ENTRIES" using h(1) ks by auto
    have e: "pte_of u src pi j k' = pte_of v src pi j k'" "pte_of u dst pi j k' = pte_of v dst pi j k'"
      using old [OF ls(1) [OF k'(2)] k'(1)] old [OF ls(2) [OF k'(2)] k'(1)] by simp_all
    have "leaf_ref u (dst, pi, j, k') \<subseteq># M" by (rule B(6)) (use k' h(2) e inh in auto)
    moreover have "leaf_ref u (dst, pi, j, k') = leaf_ref v (dst, pi, j, k')"
      using e pte_ref_same [OF A(2) bo bd] by simp
    ultimately show ?thesis by (simp add: subset_mset.add_increasing)
  qed
  show ?case
    using B(1) same_boot_trans [OF A(2) B(2)] A(3) B(3) data_kept_trans [OF A(4) B(4)] vw lf
    by (intro exI [of _ "L + M"]) (simp add: ac_simps)
qed

lemma slot_view_all:
  assumes "present (boot_pde v pi j)" and "(d', pi', j', k') \<in> leafs D"
  shows "slot_view v src dst pi j {..<PT_ENTRIES} d' pi' j' k' = clone_view v src dst {(pi, j)} d' pi' j' k'"
  using assms by (auto simp: slot_view_def clone_view_def)

lemma kernel_slot:
  assumes ok: "vm_ok v D E" and s: "src \<in> D" "pd_of v src pi = Some sg" "present (rd v sg j)"
    and t: "dst \<in> D" "pd_of v dst pi = Some dg" "present (rd v dg j)" and ne: "src \<noteq> dst" and bd: "pi < PDPT_ENTRIES" "j < PT_ENTRIES"
    and b: "present (boot_pde v pi j)"
    and w1: "w1 = fold (clone_kernel_pte (entry_frame (rd v sg j)) (entry_frame (rd v dg j))) [0..<PT_ENTRIES] v"
    and w: "w = set_entry dg j (rd w1 dg j OR (rd w1 sg j AND PAGE_USER)) w1"
  shows "\<exists>L. clone_step v D E src dst {(pi, j)} w L"
proof -
  have pt: "pt_of v src pi j = Some (entry_frame (rd v sg j))" "pt_of v dst pi j = Some (entry_frame (rd v dg j))"
    using s t by (simp_all add: pt_of_def)
  have rng: "set [0..<PT_ENTRIES] \<subseteq> {..<PT_ENTRIES}" "distinct [0..<PT_ENTRIES]" "set [0..<PT_ENTRIES] = {..<PT_ENTRIES}" by auto
  from kernel_fold [OF s(1) t(1) ne bd ok pt b rng(1,2) w1, unfolded rng(3)]
  obtain L where A: "vm_ok w1 D (E + L)" "same_boot v w1" "\<And>q. q \<in> tposs D \<Longrightarrow> tab_at w1 q = tab_at v q"
     "data_kept v D (vrefs v D + E) w1 (vrefs w1 D + (E + L))"
     "\<And>d' pi' j' k'. (d', pi', j', k') \<in> leafs D \<Longrightarrow> pte_of w1 d' pi' j' k' = slot_view v src dst pi j {..<PT_ENTRIES} d' pi' j' k'"
     "\<And>k. k < PT_ENTRIES \<Longrightarrow> inherits v pi j (pte_of v src pi j k) \<Longrightarrow> leaf_ref v (dst, pi, j, k) \<subseteq># L" by blast
  have pd: "pd_of w1 dst pi = Some dg" using A(3) [of "Dir dst pi"] t bd by simp
  have ptw: "pt_of w1 dst pi j \<noteq> None" using A(3) [of "Tab dst pi j"] pt(2) t bd by simp
  then have pr: "present (rd w1 dg j)" using pd by (auto simp: pt_of_def split: if_splits)
  let ?e = "rd w1 dg j OR (rd w1 sg j AND PAGE_USER)"
  have e: "present ?e" "entry_frame ?e = entry_frame (rd w1 dg j)"
    using pr by (auto simp: pte_simps bit_or_iff bit_and_iff intro!: entry_frame_cong)
  have dir: "Dir dst pi \<in> tposs D" using t bd by simp
  note R = relink [OF A(1) dir pd bd(2) pr e, folded w] and Q = quietD [OF quiet_relink [OF A(1) dir pd bd(2) pr e, folded w]]
  have "tab_at w q = tab_at v q" if "q \<in> tposs D" for q using R(3) [OF that] A(3) [OF that] by simp
  moreover have "pte_of w d' pi' j' k' = clone_view v src dst {(pi, j)} d' pi' j' k'" if l: "(d', pi', j', k') \<in> leafs D" for d' pi' j' k'
    using R(4) [OF l] A(5) [OF l] slot_view_all [OF b l] by simp
  ultimately have "clone_step v D E src dst {(pi, j)} w L"
    unfolding clone_step_def
    using R(1) same_boot_trans [OF A(2) R(2)] data_kept_trans [OF A(4) Q(4)] A(6) by auto
  then show ?thesis ..
qed

section \<open>A user region slot\<close>

lemma clone_user_pte_eq:
  assumes "\<not> present (boot_pde v pi j)"
  shows "clone_user_pte s t k v = (if inherits v pi j (rd v s k)
    then set_entry t k (cow_of (rd v s k)) (set_entry s k (cow_of (rd v s k)) (share_page (entry_paddr (rd v s k)) v)) else v)"
proof (cases "inherits v pi j (rd v s k)")
  case True
  let ?e = "rd v s k"
  have id: "set_entry s k ?e v = v" by (simp add: set_entry_def)
  have "(if has ?e PAGE_USER \<and> has ?e PAGE_RW \<and> \<not> has ?e PAGE_SHARED then set_entry s k (cow_pte ?e) v else v) = set_entry s k (cow_of ?e) v"
    using id by (simp add: cow_of_def)
  then show ?thesis using True assms
    by (simp add: clone_user_pte_def inherits_def Let_def share_commute)
next
  case False
  then show ?thesis using assms by (auto simp: clone_user_pte_def inherits_def Let_def)
qed

text \<open>\<open>fresh_pt v D E pi j f\<close>: the new table \<open>f\<close> and the pages it already shares are held by
  the caller.\<close>

definition fresh_pt :: "vmm \<Rightarrow> nat set \<Rightarrow> nat multiset \<Rightarrow> nat \<Rightarrow> nat \<Rightarrow> nat \<Rightarrow> bool" where
  "fresh_pt v D E pi j f \<longleftrightarrow> vm_ok v D (E + {#f#} + pt_refs v pi j f)
     \<and> sole v (vrefs v D + (E + {#f#} + pt_refs v pi j f)) f"

lemma fresh_ptD:
  assumes "fresh_pt v D E pi j f"
  shows "vm_ok v D (E + {#f#} + pt_refs v pi j f)" "sole v (vrefs v D + (E + {#f#} + pt_refs v pi j f)) f"
    "f \<notin># vrefs v D" "f \<notin># E" "f \<notin># pt_refs v pi j f" "fr_reserved (vm_fr v) \<le> f"
    "\<And>q t. q \<in> tposs D \<Longrightarrow> tab_at v q = Some t \<Longrightarrow> t \<noteq> f"
proof -
  show ok: "vm_ok v D (E + {#f#} + pt_refs v pi j f)" and s: "sole v (vrefs v D + (E + {#f#} + pt_refs v pi j f)) f"
    using assms by (simp_all add: fresh_pt_def)
  then show "f \<notin># vrefs v D" "f \<notin># E" "f \<notin># pt_refs v pi j f" "fr_reserved (vm_fr v) \<le> f" by (simp_all add: sole_def not_in_iff)
  show "t \<noteq> f" if "q \<in> tposs D" "tab_at v q = Some t" for q t using table_unique(3) [OF ok that] by auto
qed

definition user_view :: "vmm \<Rightarrow> nat \<Rightarrow> nat \<Rightarrow> nat \<Rightarrow> nat set \<Rightarrow> nat \<Rightarrow> nat \<Rightarrow> nat \<Rightarrow> nat \<Rightarrow> u64" where
  "user_view v src pi j K d' pi' j' k' =
     (if (d', pi', j') = (src, pi, j) \<and> k' \<in> K \<and> inherits v pi j (pte_of v src pi j k')
      then cow_of (pte_of v src pi j k') else pte_of v d' pi' j' k')"

definition user_pt :: "vmm \<Rightarrow> nat \<Rightarrow> nat \<Rightarrow> nat \<Rightarrow> nat \<Rightarrow> nat set \<Rightarrow> nat \<Rightarrow> u64" where
  "user_pt v src pi j f K k = (if k \<in> K \<and> inherits v pi j (pte_of v src pi j k) then cow_of (pte_of v src pi j k) else rd v f k)"

lemma user_step:
  assumes fr: "fresh_pt v D E pi j f" and s: "(src, pi, j, k) \<in> leafs D" "pt_of v src pi j = Some s"
    and b: "\<not> present (boot_pde v pi j)" and z: "rd v f k = 0" and w: "w = clone_user_pte s f k v"
  shows "fresh_pt w D E pi j f \<and> same_boot v w \<and> (\<forall>q\<in>tposs D. tab_at w q = tab_at v q) \<and> vrefs w D = vrefs v D
     \<and> data_kept v D (vrefs v D + E) w (vrefs w D + E)
     \<and> (\<forall>d' pi' j' k'. (d', pi', j', k') \<in> leafs D \<longrightarrow> pte_of w d' pi' j' k' = user_view v src pi j {k} d' pi' j' k')
     \<and> (\<forall>k'. rd w f k' = user_pt v src pi j f {k} k')"
proof -
  let ?e = "rd v s k"
  have es: "pte_of v src pi j k = ?e" using s(2) by (simp add: pte_of_def)
  note F = fresh_ptD [OF fr] and bo = vm_okD(3) [OF fresh_ptD(1) [OF fr]]
  have bd: "pi < PDPT_ENTRIES" "j < PT_ENTRIES" "k < PT_ENTRIES" using s(1) by simp_all
  show ?thesis
  proof (cases "inherits v pi j ?e")
    case False
    then show ?thesis using fr w es by (simp add: clone_user_pte_eq [OF b] user_view_def user_pt_def)
  next
    case inh: True
    define c where "c = cow_of ?e"
    define v2 where "v2 = set_entry s k c (share_page (entry_paddr ?e) v)"
    let ?R = "pte_ref v pi j k c" and ?P = "pt_refs v pi j f"
    have w': "w = set_entry f k c v2" using w inh by (simp add: clone_user_pte_eq [OF b] v2_def c_def)
    then have wf: "w = set_frame f ((rd v2 f)(k := c)) v2" by (simp add: set_entry_def set_frame_def)
    note A = share_src [OF F(1) s inh v2_def [unfolded c_def], folded c_def]
    have sf: "s \<noteq> f" using F(7) [of "Tab src pi j"] s by simp
    have ok2: "vm_ok v2 D (add_mset f (E + ?P + ?R))" using A(1) by (simp add: ac_simps)
    have r2: "fr_reserved (vm_fr v2) \<le> f" using F(6) A(2) by (simp add: same_boot_def)
    note G = fill_step [OF ok2 r2, where c = "(rd v2 f)(k := c)", folded wf]
    have sb: "same_boot v w" by (rule same_boot_trans [OF A(2) G(2)])
    have vr: "vrefs w D = vrefs v D" using G(3) A(3) by simp
    have rf: "rd w f k' = (if k' = k then c else rd v f k')" for k' using A(5) [of f] sf by (auto simp: w')
    have P: "pt_refs w pi j f = ?P + ?R"
    proof -
      have "pt_refs w pi j f + pte_ref v pi j k (rd v f k) = ?P + pte_ref w pi j k (rd w f k)"
        unfolding pt_refs_def
        by (rule sum_point [of "{..<PT_ENTRIES}"]) (use bd rf pte_ref_same [OF sb bo bd(1,2)] in simp_all)
      then show ?thesis using z rf pte_ref_same [OF sb bo bd(1,2)] by simp
    qed
    have "f \<notin># ?R" using A(9) F(3) by (meson mset_subset_eqD)
    then have cnt: "count ?R f = 0" by (simp add: not_in_iff)
    have "sole v (vrefs v D + (E + {#f#} + (?P + ?R))) f" using F(2) cnt by (simp add: sole_def)
    then have "sole v2 (vrefs v D + (E + {#f#} + (?P + ?R))) f" by (simp only: A(8) [OF F(3)])
    then have so: "sole w (vrefs w D + (E + {#f#} + pt_refs w pi j f)) f" unfolding vr P by (simp add: sole_def w')
    have fp: "fresh_pt w D E pi j f" using G(1) so unfolding fresh_pt_def P by (simp add: ac_simps)
    have tb: "tab_at w q = tab_at v q" if "q \<in> tposs D" for q using G(4) [OF that] A(4) [OF that] by simp
    have pw: "pte_of w d' pi' j' k' = user_view v src pi j {k} d' pi' j' k'" if l: "(d', pi', j', k') \<in> leafs D" for d' pi' j' k'
    proof -
      have "pte_of w d' pi' j' k' = pte_of v2 d' pi' j' k'"
        by (rule pte_of_cong [OF _ l]) (use table_unique(3) [OF ok2] in \<open>auto simp: w'\<close>)
      also have "\<dots> = (if (d', pi', j', k') = (src, pi, j, k) then c else pte_of v d' pi' j' k')" by (rule A(6) [OF l])
      also have "\<dots> = user_view v src pi j {k} d' pi' j' k'" using inh es by (auto simp: user_view_def c_def)
      finally show ?thesis .
    qed
    have kp: "data_kept v D (vrefs v D + E) w (vrefs w D + E)"
      unfolding data_kept_def vr
    proof (intro allI impI)
      fix x assume x: "x \<in># vrefs v D + E \<and> \<not> is_table v D x"
      then have "rd v2 x = rd v x" using A(7) unfolding data_kept_def by auto
      moreover have "x \<noteq> f" using x F(3,4) by auto
      ultimately show "rd w x = rd v x \<and> x \<in># vrefs v D + E \<and> \<not> is_table w D x"
        using x tb by (auto simp: w' is_table_def fun_eq_iff)
    qed
    have "rd w f k' = user_pt v src pi j f {k} k'" for k' using rf inh es by (simp add: user_pt_def c_def)
    then show ?thesis using fp sb tb vr kp pw by blast
  qed
qed

lemma user_fold:
  assumes s: "src \<in> D" and bd: "pi < PDPT_ENTRIES" "j < PT_ENTRIES"
  shows "fresh_pt v D E pi j f \<Longrightarrow> pt_of v src pi j = Some s \<Longrightarrow> \<not> present (boot_pde v pi j) \<Longrightarrow>
    set ks \<subseteq> {..<PT_ENTRIES} \<Longrightarrow> distinct ks \<Longrightarrow> (\<And>k. k \<in> set ks \<Longrightarrow> rd v f k = 0) \<Longrightarrow> w = fold (clone_user_pte s f) ks v \<Longrightarrow>
    fresh_pt w D E pi j f \<and> same_boot v w \<and> (\<forall>q\<in>tposs D. tab_at w q = tab_at v q) \<and> vrefs w D = vrefs v D
     \<and> data_kept v D (vrefs v D + E) w (vrefs w D + E)
     \<and> (\<forall>d' pi' j' k'. (d', pi', j', k') \<in> leafs D \<longrightarrow> pte_of w d' pi' j' k' = user_view v src pi j (set ks) d' pi' j' k')
     \<and> (\<forall>k'. rd w f k' = user_pt v src pi j f (set ks) k')"
proof (induction ks arbitrary: v)
  case Nil
  then show ?case by (simp add: user_view_def user_pt_def)
next
  case (Cons k ks)
  note bo = vm_okD(3) [OF fresh_ptD(1) [OF Cons.prems(1)]]
  have k: "k < PT_ENTRIES" "k \<notin> set ks" and ks: "set ks \<subseteq> {..<PT_ENTRIES}" "distinct ks" using Cons.prems(4,5) by auto
  define u where "u = clone_user_pte s f k v"
  have ls: "(src, pi, j, k') \<in> leafs D" if "k' < PT_ENTRIES" for k' using s bd that by simp
  have z: "rd v f k = 0" using Cons.prems(6) by simp
  from user_step [OF Cons.prems(1) ls [OF k(1)] Cons.prems(2,3) z u_def]
  have A: "fresh_pt u D E pi j f" "same_boot v u" "\<And>q. q \<in> tposs D \<Longrightarrow> tab_at u q = tab_at v q" "vrefs u D = vrefs v D"
     "data_kept v D (vrefs v D + E) u (vrefs u D + E)"
     "\<And>d' pi' j' k'. (d', pi', j', k') \<in> leafs D \<Longrightarrow> pte_of u d' pi' j' k' = user_view v src pi j {k} d' pi' j' k'"
     "\<And>k'. rd u f k' = user_pt v src pi j f {k} k'" by blast+
  have bp: "boot_pde u pi j = boot_pde v pi j" by (rule same_boot_pde [OF A(2) bo bd(1)])
  have inh: "inherits u pi j e = inherits v pi j e" for e using bp by (simp add: inherits_def)
  have pt: "pt_of u src pi j = Some s" and pb: "\<not> present (boot_pde u pi j)"
    using A(3) [of "Tab src pi j"] Cons.prems(2,3) s bd bp by simp_all
  have kn: "k' \<noteq> k" if "k' \<in> set ks" for k' using that k(2) by auto
  have z': "rd u f k' = 0" if "k' \<in> set ks" for k' using A(7) kn [OF that] Cons.prems(6) that by (simp add: user_pt_def)
  have w: "w = fold (clone_user_pte s f) ks u" using Cons.prems(7) by (simp add: u_def)
  from Cons.IH [OF A(1) pt pb ks z' w]
  have B: "fresh_pt w D E pi j f" "same_boot u w" "\<And>q. q \<in> tposs D \<Longrightarrow> tab_at w q = tab_at u q" "vrefs w D = vrefs u D"
     "data_kept u D (vrefs u D + E) w (vrefs w D + E)"
     "\<And>d' pi' j' k'. (d', pi', j', k') \<in> leafs D \<Longrightarrow> pte_of w d' pi' j' k' = user_view u src pi j (set ks) d' pi' j' k'"
     "\<And>k'. rd w f k' = user_pt u src pi j f (set ks) k'" by blast+
  have old: "pte_of u src pi j k' = pte_of v src pi j k'" if "k' \<in> set ks" for k'
  proof -
    have "k' < PT_ENTRIES" using that ks by auto
    from A(6) [OF ls [OF this]] show ?thesis using kn [OF that] by (simp add: user_view_def)
  qed
  have vw: "pte_of w d' pi' j' k' = user_view v src pi j (set (k # ks)) d' pi' j' k'" if l: "(d', pi', j', k') \<in> leafs D" for d' pi' j' k'
  proof (cases "(d', pi', j') = (src, pi, j) \<and> k' \<in> set ks")
    case True
    then have k': "k' \<in> set ks" by simp
    show ?thesis using B(6) [OF l] True old [OF k'] inh by (simp add: user_view_def)
  next
    case False
    then show ?thesis using B(6) [OF l] A(6) [OF l] by (auto simp: user_view_def)
  qed
  have fw: "rd w f k' = user_pt v src pi j f (set (k # ks)) k'" for k'
  proof (cases "k' \<in> set ks")
    case True
    then show ?thesis using B(7) [of k'] A(7) [of k'] old [OF True] inh kn [OF True] by (simp add: user_pt_def)
  next
    case False
    then show ?thesis using B(7) [of k'] A(7) [of k'] by (simp add: user_pt_def)
  qed
  show ?case
    using B(1) same_boot_trans [OF A(2) B(2)] A(3) B(3) data_kept_trans [OF A(5) B(5)] vw fw A(4) B(4) by simp
qed

end
