(* ===== verification/Vmm_Fork.thy ===== *)
theory Vmm_Fork
  imports Vmm_Clone
begin

text \<open>
  The contract of \<open>vmm_clone_address_space\<close>: user region slots, directories, and the whole
  clone on success and on failure.
\<close>

section \<open>A user region slot\<close>

lemma slot_free:
  assumes fr: "fresh_pt v D E pi j f" and d: "Dir d pi \<in> tposs D" "pd_of v d pi = Some g" and j: "j < PT_ENTRIES"
  shows "\<exists>w L. fresh_pt w D (E + L) pi j f \<and> same_boot v w \<and> \<not> present (rd w g j) \<and> (\<forall>e. set_entry g j e w = set_entry g j e v)
     \<and> (\<forall>q\<in>tposs D. tab_at w q = (if q = Tab d pi j then None else tab_at v q))
     \<and> (\<forall>d' pi' j' k'. (d', pi', j', k') \<in> leafs D \<longrightarrow>
          pte_of w d' pi' j' k' = (if (d', pi', j') = (d, pi, j) then 0 else pte_of v d' pi' j' k'))
     \<and> vrefs v D = vrefs w D + L \<and> rd w f = rd v f \<and> (\<forall>k < PT_ENTRIES. leaf_ref v (d, pi, j, k) \<subseteq># L)"
proof (cases "pt_of v d pi j")
  case None
  have "\<not> present (rd v g j)" using None d(2) by (auto simp: pt_of_def split: if_splits)
  then show ?thesis using fr None
    by (intro exI [of _ v] exI [of _ "{#}"]) (auto simp: pte_of_def)
next
  case (Some t)
  note F = fresh_ptD [OF fr]
  note bo = vm_okD(3) [OF F(1)]
  define w where "w = set_entry g j 0 v"
  note U = unlink_pt [OF F(1) d j Some, folded w_def]
  have bd: "pi < PDPT_ENTRIES" "d \<in> D" using d(1) by simp_all
  have gf: "g \<noteq> f" using F(7) [OF d(1)] d(2) by simp
  then have rf: "rd w f = rd v f" by (simp add: w_def fun_eq_iff)
  have P: "pt_refs w pi j f = pt_refs v pi j f" by (rule pt_refs_frame [OF U(2) bo bd(1) j]) (simp add: rf)
  let ?L = "{#t#} + pt_refs v pi j t"
  have V: "vrefs v D = vrefs w D + ?L" using U(5) by simp
  have M: "vrefs w D + (E + ?L + {#f#} + pt_refs v pi j f) = vrefs v D + (E + {#f#} + pt_refs v pi j f)"
    unfolding V by (simp add: ac_simps)
  have "sole w (vrefs w D + (E + ?L + {#f#} + pt_refs w pi j f)) f"
    using F(2) unfolding P M by (simp add: sole_def w_def)
  moreover have "vm_ok w D (E + ?L + {#f#} + pt_refs w pi j f)" using U(1) unfolding P by (simp add: ac_simps add_mset_commute)
  ultimately have fw: "fresh_pt w D (E + ?L) pi j f" unfolding fresh_pt_def by blast
  have lf: "leaf_ref v (d, pi, j, k) \<subseteq># ?L" if k: "k < PT_ENTRIES" for k
  proof -
    have "leaf_ref v (d, pi, j, k) = pte_ref v pi j k (rd v t k)" using Some by (simp add: pte_of_def)
    moreover have "pte_ref v pi j k (rd v t k) \<subseteq># pt_refs v pi j t"
      using k unfolding pt_refs_def by (subst sum.remove [of _ k]) simp_all
    ultimately show ?thesis by (metis mset_subset_eq_add_right subset_mset.order_trans)
  qed
  show ?thesis
    using fw U(2-4) V rf lf
    by (intro exI [of _ w] exI [of _ ?L] conjI) (auto simp: w_def set_entry_def)
qed

lemma user_slot:
  assumes ok: "vm_ok v D E" and cid: "cid < MAX_CORES" and s: "src \<in> D" "pd_of v src pi = Some sg" "present (rd v sg j)"
    and t: "dst \<in> D" "pd_of v dst pi = Some dg" and ne: "src \<noteq> dst" and bd: "pi < PDPT_ENTRIES" "j < PT_ENTRIES"
    and b: "\<not> present (boot_pde v pi j)" and a: "phys_alloc cid v = (p, u)" and p: "p \<noteq> 0" and z: "z = zero_phys_page p u"
    and w1: "w1 = fold (clone_user_pte (entry_frame (rd z sg j)) (p div 4096)) [0..<PT_ENTRIES] z"
    and w: "w = set_entry dg j (of_nat p OR (rd w1 sg j AND 0xFFF)) w1"
  shows "\<exists>L. clone_step v D E src dst {(pi, j)} w L"
proof -
  note bo = vm_okD(3) [OF ok]
  from alloc_zeroed(2) [OF ok cid a p, where c = "\<lambda>_. 0"]
  obtain f where f: "p = f * 4096" "0 < f" "f < 2 ^ 20" "z = set_frame f (\<lambda>_. 0) u"
          and zz: "vm_ok z D (add_mset f E)" and so: "sole z (vrefs z D + add_mset f E) f"
          and sb: "same_boot v z" and vr: "vrefs z D = vrefs v D" and new: "f \<notin># vrefs v D + E"
          and tb: "\<And>q. q \<in> tposs D \<Longrightarrow> tab_at z q = tab_at v q"
          and pt: "\<And>d pi j k. (d, pi, j, k) \<in> leafs D \<Longrightarrow> pte_of z d pi j k = pte_of v d pi j k"
          and kp: "data_kept v D (vrefs v D + E) z (vrefs v D + add_mset f E)"
          and rdo: "\<And>x. x \<noteq> f \<Longrightarrow> rd z x = rd v x" unfolding z by metis
  have rdz: "rd z f k = 0" for k by (simp add: f(4))
  have pz: "pt_refs z pi j f = {#}" by (rule pt_refs_0 [OF rdz])
  have fz: "fresh_pt z D E pi j f" using zz so by (simp add: fresh_pt_def pz)
  have bp: "boot_pde z pi j = boot_pde v pi j" by (rule same_boot_pde [OF sb bo bd(1)])
  have inh: "inherits z pi j e = inherits v pi j e" for e using bp by (simp add: inherits_def)
  have dirs: "Dir src pi \<in> tposs D" "Dir dst pi \<in> tposs D" "Tab src pi j \<in> tposs D" using s t bd by simp_all
  have sz: "pd_of z src pi = Some sg" using tb [OF dirs(1)] s by simp
  have "sg \<noteq> f" using fresh_ptD(7) [OF fz dirs(1)] sz by simp
  then have rs: "rd z sg = rd v sg" by (rule rdo)
  have pts: "pt_of z src pi j = Some (entry_frame (rd z sg j))" using sz rs s(3) by (simp add: pt_of_def)
  have rng: "set [0..<PT_ENTRIES] \<subseteq> {..<PT_ENTRIES}" "distinct [0..<PT_ENTRIES]" "set [0..<PT_ENTRIES] = {..<PT_ENTRIES}" by auto
  have w1': "w1 = fold (clone_user_pte (entry_frame (rd z sg j)) f) [0..<PT_ENTRIES] z" using w1 f(1) by simp
  have nb: "\<not> present (boot_pde z pi j)" using b bp by simp
  have rdz': "rd z f k = 0" if "k \<in> set [0..<PT_ENTRIES]" for k by (rule rdz)
  from user_fold [OF s(1) bd fz pts nb rng(1,2) rdz' w1', unfolded rng(3)]
  have A: "fresh_pt w1 D E pi j f" "same_boot z w1" "\<And>q. q \<in> tposs D \<Longrightarrow> tab_at w1 q = tab_at z q" "vrefs w1 D = vrefs z D"
     "data_kept z D (vrefs z D + E) w1 (vrefs w1 D + E)"
     "\<And>d' pi' j' k'. (d', pi', j', k') \<in> leafs D \<Longrightarrow> pte_of w1 d' pi' j' k' = user_view z src pi j {..<PT_ENTRIES} d' pi' j' k'"
     "\<And>k'. rd w1 f k' = user_pt z src pi j f {..<PT_ENTRIES} k'" by blast+
  have sb1: "same_boot v w1" by (rule same_boot_trans [OF sb A(2)])
  have tw1: "tab_at w1 q = tab_at v q" if "q \<in> tposs D" for q using A(3) [OF that] tb [OF that] by simp
  have pd1: "pd_of w1 dst pi = Some dg" using tw1 [OF dirs(2)] t(2) by simp
  from slot_free [OF A(1) dirs(2) pd1 bd(2)] obtain w2 L where B: "fresh_pt w2 D (E + L) pi j f" "same_boot w1 w2" "\<not> present (rd w2 dg j)"
     "\<And>e. set_entry dg j e w2 = set_entry dg j e w1"
     "\<And>q. q \<in> tposs D \<Longrightarrow> tab_at w2 q = (if q = Tab dst pi j then None else tab_at w1 q)"
     "\<And>d' pi' j' k'. (d', pi', j', k') \<in> leafs D \<Longrightarrow> pte_of w2 d' pi' j' k' = (if (d', pi', j') = (dst, pi, j) then 0 else pte_of w1 d' pi' j' k')"
     "vrefs w1 D = vrefs w2 D + L" "rd w2 f = rd w1 f" "\<And>k. k < PT_ENTRIES \<Longrightarrow> leaf_ref w1 (dst, pi, j, k) \<subseteq># L" by metis
  let ?e = "of_nat p OR (rd w1 sg j AND 0xFFF) :: u64"
  have e: "present ?e" "entry_frame ?e = f"
  proof -
    have "pt_of w1 src pi j \<noteq> None" "pd_of w1 src pi = Some sg" using tw1 [OF dirs(3)] tw1 [OF dirs(1)] s by (simp_all add: pt_of_def)
    then have "present (rd w1 sg j)" by (auto simp: pt_of_def split: if_splits)
    then show "present ?e" by (simp add: pte_simps bit_or_iff)
    have "\<not> bit (rd w1 sg j AND 0xFFF) n" if "12 \<le> n" for n using that by (simp add: pte_simps)
    then show "entry_frame ?e = f" using entry_paddr_of(2) [of p "rd w1 sg j AND 0xFFF"] f by simp
  qed
  have ww: "w = set_entry dg j ?e w2" using w B(4) by simp
  have pd2: "pd_of w2 dst pi = Some dg" using B(5) [OF dirs(2)] pd1 by simp
  note K = link_pt [OF fresh_ptD(1,2) [OF B(1)] dirs(2) pd2 bd(2) B(3) e, folded ww]
  have sbw: "same_boot v w" by (rule same_boot_trans [OF sb1 same_boot_trans [OF B(2) K(2)]])
  have k1: "data_kept v D (vrefs v D + E) w1 (vrefs w1 D + E)"
  proof -
    have "data_kept v D (vrefs v D + E) z (vrefs z D + E)" using kp vr by (auto simp: data_kept_def)
    then show ?thesis by (rule data_kept_trans [OF _ A(5)])
  qed
  have kpw: "data_kept v D (vrefs v D + E) w (vrefs w D + (E + L))" unfolding w
  proof (rule kept_write [OF k1])
    show "is_table w1 D dg" unfolding is_table_def using pd1 dirs(2) by (intro bexI [of _ "Dir dst pi"]) simp_all
    show "x \<in># vrefs w1 D + E \<Longrightarrow> x \<in># vrefs (set_entry dg j ?e w1) D + (E + L)" for x
      unfolding w [symmetric] K(5) B(7) by auto
    fix q x assume q: "q \<in> tposs D" "tab_at (set_entry dg j ?e w1) q = Some x"
    show "tab_at w1 q = Some x \<or> x \<notin># vrefs v D + E"
      using K(3) [OF q(1)] B(5) [OF q(1)] q(2) new by (auto simp: w [symmetric] split: if_splits)
  qed
  have tbw: "tab_at w q = tab_at v q" if "q \<in> tposs D" "q \<noteq> Tab dst pi j" for q
    using K(3) [OF that(1)] B(5) [OF that(1)] tw1 [OF that(1)] that(2) by simp
  have src_ne: "pt_of v src pi j \<noteq> None" using s by (simp add: pt_of_def)
  have pw: "pte_of w d' pi' j' k' = clone_view v src dst {(pi, j)} d' pi' j' k'" if l: "(d', pi', j', k') \<in> leafs D" for d' pi' j' k'
  proof (cases "(d', pi', j') = (dst, pi, j)")
    case True
    have ls: "(src, pi, j, k') \<in> leafs D" and k': "k' < PT_ENTRIES" using l s bd by simp_all
    have "pte_of w d' pi' j' k' = rd w1 f k'" using K(4) [OF l] True B(8) by simp
    also have "\<dots> = (if inherits v pi j (pte_of v src pi j k') then cow_of (pte_of v src pi j k') else 0)"
      using A(7) k' pt [OF ls] inh rdz by (simp add: user_pt_def)
    finally show ?thesis using True b src_ne by (simp add: clone_view_def)
  next
    case False
    have "pte_of w d' pi' j' k' = pte_of w1 d' pi' j' k'" using K(4) [OF l] B(6) [OF l] False by (simp only: if_False)
    also have "\<dots> = (if (d', pi', j') = (src, pi, j) \<and> inherits v pi j (pte_of v src pi j k') then cow_of (pte_of v src pi j k') else pte_of v d' pi' j' k')"
    proof (cases "(d', pi', j') = (src, pi, j)")
      case True
      have ls: "(src, pi, j, k') \<in> leafs D" and k': "k' < PT_ENTRIES" using l s bd by simp_all
      show ?thesis using A(6) [OF l] True pt [OF ls] inh k' by (simp add: user_view_def)
    next
      case False
      then show ?thesis using A(6) [OF l] pt [OF l] by (auto simp: user_view_def)
    qed
    also have "\<dots> = clone_view v src dst {(pi, j)} d' pi' j' k'" using False ne by (auto simp: clone_view_def)
    finally show ?thesis .
  qed
  have lf: "leaf_ref v (dst, pi, j, k) \<subseteq># L" if k: "(dst, pi, j, k) \<in> leafs D" for k
  proof -
    have "pte_of w1 dst pi j k = pte_of v dst pi j k" using A(6) [OF k] pt [OF k] ne by (simp add: user_view_def)
    then have "leaf_ref w1 (dst, pi, j, k) = leaf_ref v (dst, pi, j, k)" using pte_ref_same [OF sb1 bo bd] by simp
    then show ?thesis using B(9) [of k] k by simp
  qed
  have "clone_step v D E src dst {(pi, j)} w L"
    unfolding clone_step_def using K(1) sbw kpw tbw pw lf by auto
  then show ?thesis ..
qed

section \<open>Directories\<close>

text \<open>A slot without a table has nothing to inherit.\<close>

lemma clone_step_none:
  assumes "clone_step v D E src dst S w L" and "pt_of v src pi j = None"
  shows "clone_step v D E src dst (insert (pi, j) S) w L"
proof -
  have n: "\<not> inherits v pi j (pte_of v src pi j k)" for k using assms(2) by (simp add: pte_of_def inherits_def)
  have "clone_view v src dst (insert (pi, j) S) d' pi' j' k' = clone_view v src dst S d' pi' j' k'" for d' pi' j' k'
  proof (cases "(pi', j') = (pi, j)")
    case True
    then show ?thesis using n assms(2) by (simp add: clone_view_def)
  qed (auto simp: clone_view_def)
  then show ?thesis using assms(1) n unfolding clone_step_def by auto
qed

lemma clone_pts_ok:
  assumes cid: "cid < MAX_CORES" and s: "src \<in> D" and t: "dst \<in> D" and ne: "src \<noteq> dst" and pi: "pi < PDPT_ENTRIES"
  shows "vm_ok v D E \<Longrightarrow> pd_of v src pi = Some sg \<Longrightarrow> pd_of v dst pi = Some dg \<Longrightarrow> set js \<subseteq> {..<PT_ENTRIES} \<Longrightarrow> distinct js \<Longrightarrow>
    (\<And>j. j \<in> set js \<Longrightarrow> present (boot_pde v pi j) \<Longrightarrow> pt_of v dst pi j \<noteq> None) \<Longrightarrow>
    clone_pts cid pi sg dg js v = (b, w) \<Longrightarrow>
    \<exists>S L. clone_step v D E src dst S w L \<and> S \<subseteq> {pi} \<times> set js \<and> (b \<longrightarrow> S = {pi} \<times> set js)"
proof (induction js arbitrary: v E)
  case Nil
  then show ?case using clone_step_empty [OF Nil.prems(1), of src dst] by auto
next
  case (Cons j js)
  note ok = Cons.prems(1) and bo = vm_okD(3) [OF Cons.prems(1)]
  have j: "j < PT_ENTRIES" "j \<notin> set js" and js: "set js \<subseteq> {..<PT_ENTRIES}" "distinct js" using Cons.prems(4,5) by auto
  have rest: "\<exists>S L. clone_step v D E src dst S w L \<and> S \<subseteq> {pi} \<times> set (j # js) \<and> (b \<longrightarrow> S = {pi} \<times> set (j # js))"
    if c: "clone_step v D E src dst {(pi, j)} u M" "clone_pts cid pi sg dg js u = (b, w)" for u M
  proof -
    note C = clone_stepD [OF c(1)]
    have pd: "pd_of u src pi = Some sg" "pd_of u dst pi = Some dg"
      using C(4) [of "Dir src pi"] C(4) [of "Dir dst pi"] s t pi Cons.prems(2,3) by simp_all
    have pt: "pt_of u dst pi j' \<noteq> None" if h: "j' \<in> set js" "present (boot_pde u pi j')" for j'
    proof -
      have "j' < PT_ENTRIES" "j' \<noteq> j" using h(1) js j(2) by auto
      then show ?thesis
        using C(4) [of "Tab dst pi j'"] t pi Cons.prems(6) [of j'] h same_boot_pde [OF C(2) bo pi] by simp
    qed
    from Cons.IH [OF C(1) pd js pt c(2)] obtain S L where S: "clone_step u D (E + M) src dst S w L"
        "S \<subseteq> {pi} \<times> set js" "b \<longrightarrow> S = {pi} \<times> set js" by blast
    have "clone_step v D E src dst ({(pi, j)} \<union> S) w (M + L)"
      by (rule clone_step_trans [OF bo c(1) S(1) _ ne s]) (use S(2) j js pi in auto)
    then show ?thesis using S(2,3) by (intro exI [of _ "{(pi, j)} \<union> S"] exI [of _ "M + L"]) auto
  qed
  show ?case
  proof (cases "present (rd v sg j)")
    case False
    have pn: "pt_of v src pi j = None" using Cons.prems(2) False by (simp add: pt_of_def)
    show ?thesis
      by (rule rest [OF clone_step_none [OF clone_step_empty [OF ok] pn]]) (use Cons.prems(7) False in simp)
  next
    case pr: True
    show ?thesis
    proof (cases "present (boot_pde v pi j)")
      case b: True
      have "pt_of v dst pi j \<noteq> None" using Cons.prems(6) [of j] b by simp
      then have prd: "present (rd v dg j)" using Cons.prems(3) by (auto simp: pt_of_def split: if_splits)
      from kernel_slot [OF ok s Cons.prems(2) pr t Cons.prems(3) prd ne pi j(1) b refl refl] obtain M where
        c: "clone_step v D E src dst {(pi, j)} (set_entry dg j
            (rd (fold (clone_kernel_pte (entry_frame (rd v sg j)) (entry_frame (rd v dg j))) [0..<PT_ENTRIES] v) dg j OR
             (rd (fold (clone_kernel_pte (entry_frame (rd v sg j)) (entry_frame (rd v dg j))) [0..<PT_ENTRIES] v) sg j AND PAGE_USER))
            (fold (clone_kernel_pte (entry_frame (rd v sg j)) (entry_frame (rd v dg j))) [0..<PT_ENTRIES] v)) M" by blast
      show ?thesis by (rule rest [OF c]) (use Cons.prems(7) pr b in \<open>simp add: Let_def\<close>)
    next
      case b: False
      obtain p u where a: "phys_alloc cid v = (p, u)" by fastforce
      show ?thesis
      proof (cases "p = 0")
        case True
        then have bw: "b = False" "w = u" using Cons.prems(7) pr b a by auto
        have "clone_step v D E src dst {} u {#}"
          by (rule clone_step_quiet [OF alloc_zeroed(1) [OF ok cid a True]]) (use alloc_step(3) [OF ok cid a] in simp)
        then show ?thesis using bw by (intro exI [of _ "{}"] exI [of _ "{#}"]) simp
      next
        case p: False
        from user_slot [OF ok cid s Cons.prems(2) pr t Cons.prems(3) ne pi j(1) b a p refl refl refl] obtain M where
          c: "clone_step v D E src dst {(pi, j)} (set_entry dg j
              (of_nat p OR (rd (fold (clone_user_pte (entry_frame (rd (zero_phys_page p u) sg j)) (p div 4096)) [0..<PT_ENTRIES] (zero_phys_page p u)) sg j AND 0xFFF))
              (fold (clone_user_pte (entry_frame (rd (zero_phys_page p u) sg j)) (p div 4096)) [0..<PT_ENTRIES] (zero_phys_page p u))) M" by blast
        show ?thesis by (rule rest [OF c]) (use Cons.prems(7) pr b a p in \<open>simp add: Let_def\<close>)
      qed
    qed
  qed
qed

lemma clone_pds_ok:
  assumes cid: "cid < MAX_CORES" and s: "src \<in> D" and t: "dst \<in> D" and ne: "src \<noteq> dst"
  shows "vm_ok v D E \<Longrightarrow> set pis \<subseteq> {..<PDPT_ENTRIES} \<Longrightarrow> distinct pis \<Longrightarrow>
    (\<And>pi. pi \<in> set pis \<Longrightarrow> pd_of v src pi \<noteq> None \<Longrightarrow>
       pd_of v dst pi \<noteq> None \<and> (\<forall>j < PT_ENTRIES. present (boot_pde v pi j) \<longrightarrow> pt_of v dst pi j \<noteq> None)) \<Longrightarrow>
    clone_pds cid src dst pis v = (b, w) \<Longrightarrow>
    \<exists>S L. clone_step v D E src dst S w L \<and> S \<subseteq> set pis \<times> {..<PT_ENTRIES} \<and> (b \<longrightarrow> S = set pis \<times> {..<PT_ENTRIES})"
proof (induction pis arbitrary: v E)
  case Nil
  then show ?case using clone_step_empty [OF Nil.prems(1), of src dst] by auto
next
  case (Cons pi pis)
  note ok = Cons.prems(1) and bo = vm_okD(3) [OF Cons.prems(1)]
  have pi: "pi < PDPT_ENTRIES" "pi \<notin> set pis" and pis: "set pis \<subseteq> {..<PDPT_ENTRIES}" "distinct pis" using Cons.prems(2,3) by auto
  have rest: "\<exists>S L. clone_step v D E src dst S w L \<and> S \<subseteq> set (pi # pis) \<times> {..<PT_ENTRIES} \<and> (b \<longrightarrow> S = set (pi # pis) \<times> {..<PT_ENTRIES})"
    if c: "clone_step v D E src dst ({pi} \<times> {..<PT_ENTRIES}) u M" "clone_pds cid src dst pis u = (b, w)" for u M
  proof -
    note C = clone_stepD [OF c(1)]
    have ready: "pd_of u dst q \<noteq> None \<and> (\<forall>j < PT_ENTRIES. present (boot_pde u q j) \<longrightarrow> pt_of u dst q j \<noteq> None)"
      if q: "q \<in> set pis" "pd_of u src q \<noteq> None" for q
    proof -
      have qb: "q < PDPT_ENTRIES" "q \<noteq> pi" using q(1) pis pi(2) by auto
      have "pd_of u src q = pd_of v src q" "pd_of u dst q = pd_of v dst q" "\<And>j. j < PT_ENTRIES \<Longrightarrow> pt_of u dst q j = pt_of v dst q j"
        using C(4) [of "Dir src q"] C(4) [of "Dir dst q"] C(4) [of "Tab dst q _"] s t qb by simp_all
      then show ?thesis using Cons.prems(4) [of q] q same_boot_pde [OF C(2) bo qb(1)] by simp
    qed
    from Cons.IH [OF C(1) pis ready c(2)] obtain S L where S: "clone_step u D (E + M) src dst S w L"
        "S \<subseteq> set pis \<times> {..<PT_ENTRIES}" "b \<longrightarrow> S = set pis \<times> {..<PT_ENTRIES}" by blast
    have "clone_step v D E src dst ({pi} \<times> {..<PT_ENTRIES} \<union> S) w (M + L)"
      by (rule clone_step_trans [OF bo c(1) S(1) _ ne s]) (use S(2) pi pis in auto)
    then show ?thesis using S(2,3) by (intro exI [of _ "{pi} \<times> {..<PT_ENTRIES} \<union> S"] exI [of _ "M + L"]) auto
  qed
  show ?case
  proof (cases "pd_of v src pi")
    case None
    have "clone_step v D E src dst ((\<lambda>j. (pi, j)) ` N) v {#}" if "finite N" for N
      using that
    proof induction
      case empty
      then show ?case using clone_step_empty [OF ok] by simp
    next
      case (insert j N)
      have "pt_of v src pi j = None" using None by (simp add: pt_of_def)
      from clone_step_none [OF insert.IH this] show ?case by simp
    qed
    moreover have "(\<lambda>j. (pi, j)) ` {..<PT_ENTRIES} = {pi} \<times> {..<PT_ENTRIES}" by auto
    ultimately have "clone_step v D E src dst ({pi} \<times> {..<PT_ENTRIES}) v {#}" by (metis finite_lessThan)
    then show ?thesis by (rule rest) (use Cons.prems(5) None in \<open>simp add: pd_of_def split: if_splits\<close>)
  next
    case (Some sg)
    have dn: "pd_of v dst pi \<noteq> None" using Cons.prems(4) [of pi] Some by simp
    then obtain dg where dg: "pd_of v dst pi = Some dg" by blast
    have pr: "present (rd v src pi)" "entry_frame (rd v src pi) = sg" "entry_frame (rd v dst pi) = dg"
      using Some dg by (auto simp: pd_of_def split: if_splits)
    obtain b1 u where c: "clone_pts cid pi sg dg [0..<PT_ENTRIES] v = (b1, u)" by fastforce
    have rng: "set [0..<PT_ENTRIES] \<subseteq> {..<PT_ENTRIES}" "distinct [0..<PT_ENTRIES]" "set [0..<PT_ENTRIES] = {..<PT_ENTRIES}" by auto
    have pt: "pt_of v dst pi j \<noteq> None" if "j \<in> set [0..<PT_ENTRIES]" "present (boot_pde v pi j)" for j
      using Cons.prems(4) [of pi] Some that by auto
    from clone_pts_ok [OF cid s t ne pi(1) ok Some dg rng(1,2) pt c, unfolded rng(3)] obtain S L where
      S: "clone_step v D E src dst S u L" "S \<subseteq> {pi} \<times> {..<PT_ENTRIES}" "b1 \<longrightarrow> S = {pi} \<times> {..<PT_ENTRIES}" by blast
    show ?thesis
    proof (cases b1)
      case True
      then have "clone_step v D E src dst ({pi} \<times> {..<PT_ENTRIES}) u L" using S by simp
      then show ?thesis by (rule rest) (use Cons.prems(5) pr c True in simp)
    next
      case False
      then have "b = False" "w = u" using Cons.prems(5) pr c by auto
      then show ?thesis using S by (intro exI [of _ S] exI [of _ L]) auto
    qed
  qed
qed

section \<open>The whole clone\<close>

definition inherits_at :: "vmm \<Rightarrow> u32 \<Rightarrow> u64 \<Rightarrow> bool" where
  "inherits_at v va e = inherits v (pdpt_index va) (pd_index va) e"

text \<open>Every directory the source uses is one the boot tables have: all but the mapped-file
  window, which no boot directory covers.\<close>

definition boot_dirs :: "vmm \<Rightarrow> nat \<Rightarrow> bool" where
  "boot_dirs v src \<longleftrightarrow> (\<forall>pi < PDPT_ENTRIES. pd_of v src pi \<noteq> None \<longrightarrow> present (boot_pdpte v pi))"

lemma inherits_boot: "same_boot v w \<Longrightarrow> boot_ok v \<Longrightarrow> inherits_at w va e = inherits_at v va e"
  using same_boot_pde [of v w "pdpt_index va" "pd_index va"] by (simp add: inherits_at_def inherits_def)

text \<open>The copy loops over a space that was just created.\<close>

lemma clone_core:
  assumes ok: "vm_ok v D E" and cid: "cid < MAX_CORES" and s: "src \<in> D" and boot: "boot_dirs v src"
    and c: "vmm_create_address_space cid v = (dst, u)" and dst: "dst \<noteq> 0" and p: "clone_pds cid src dst [0..<PDPT_ENTRIES] u = (b, w)"
  shows "dst \<notin> D \<and> (\<exists>S L0 L. vm_ok u (insert dst D) (E + L0) \<and> same_boot v u \<and> same_ptes v D u \<and> same_tabs v D u \<and> fresh_space u dst
      \<and> data_safe v D (vrefs v D + E) u (insert dst D) (vrefs u (insert dst D) + (E + L0))
      \<and> clone_step u (insert dst D) (E + L0) src dst S w L \<and> S \<subseteq> {..<PDPT_ENTRIES} \<times> {..<PT_ENTRIES}
      \<and> (b \<longrightarrow> S = {..<PDPT_ENTRIES} \<times> {..<PT_ENTRIES}))"
proof -
  from create_ok(2) [OF ok cid c dst] obtain L0 where C: "dst \<notin> D" "vm_ok u (insert dst D) (E + L0)" "same_boot v u" "same_ptes v D u" "same_tabs v D u"
      "data_safe v D (vrefs v D + E) u (insert dst D) (vrefs u (insert dst D) + (E + L0))" "fresh_space u dst" by blast
  note bo = vm_okD(3) [OF ok]
  have ne: "src \<noteq> dst" using s C(1) by auto
  have rng: "set [0..<PDPT_ENTRIES] \<subseteq> {..<PDPT_ENTRIES}" "distinct [0..<PDPT_ENTRIES]" "set [0..<PDPT_ENTRIES] = {..<PDPT_ENTRIES}" by auto
  have ready: "pd_of u dst q \<noteq> None \<and> (\<forall>j < PT_ENTRIES. present (boot_pde u q j) \<longrightarrow> pt_of u dst q j \<noteq> None)"
    if q: "q \<in> set [0..<PDPT_ENTRIES]" "pd_of u src q \<noteq> None" for q
  proof -
    have qb: "q < PDPT_ENTRIES" using q(1) by simp
    have "Dir src q \<in> tposs D" using s qb by simp
    then have "tab_at u (Dir src q) = tab_at v (Dir src q)" using C(5) unfolding same_tabs_def by blast
    then have "present (boot_pdpte v q)" using boot q(2) qb by (simp add: boot_dirs_def)
    then show ?thesis using C(7) qb same_boot_pdpte [OF C(3) bo] unfolding fresh_space_def boot_tabs_def by simp
  qed
  have sD: "src \<in> insert dst D" "dst \<in> insert dst D" using s by simp_all
  from clone_pds_ok [OF cid sD ne C(2) rng(1,2) ready p, unfolded rng(3)] C show ?thesis by blast
qed

lemma clone_view_at:
  assumes "clone_step u D' E src dst S w L" and "S = {..<PDPT_ENTRIES} \<times> {..<PT_ENTRIES}" and "d \<in> D'"
  shows "pte_at w d va = (if (d = src \<or> d = dst) \<and> inherits_at u va (pte_at u src va) then cow_of (pte_at u src va)
     else if d = dst \<and> \<not> present (boot_pde u (pdpt_index va) (pd_index va)) \<and> pt_of u src (pdpt_index va) (pd_index va) \<noteq> None then 0
     else pte_at u d va)"
  using clone_stepD(5) [OF assms(1), of d "pdpt_index va" "pd_index va" "pt_index va"] assms(2,3)
  by (auto simp: pte_at_def clone_view_def inherits_at_def)

lemma clone_ok:
  assumes ok: "vm_ok v D E" and cid: "cid < MAX_CORES" and s: "src \<in> D" and boot: "boot_dirs v src"
    and c: "vmm_clone_address_space cid src v = (dst, w)" and dst: "dst \<noteq> 0"
  shows "dst \<notin> D" and "\<exists>L. vm_ok w (insert dst D) (E + L) \<and> same_boot v w
      \<and> data_safe v D (vrefs v D + E) w (insert dst D) (vrefs w (insert dst D) + (E + L))"
    and "\<And>d va. d \<in> D \<Longrightarrow> d \<noteq> src \<Longrightarrow> pte_at w d va = pte_at v d va"
    and "\<And>va. pte_at w src va = (if inherits_at v va (pte_at v src va) then cow_of (pte_at v src va) else pte_at v src va)"
    and "\<And>va. inherits_at v va (pte_at v src va) \<Longrightarrow> pte_at w dst va = cow_of (pte_at v src va)"
    and "\<And>va. \<not> inherits_at v va (pte_at v src va) \<Longrightarrow> page_of va \<noteq> page_of TRAMPOLINE_VA \<Longrightarrow> pte_at w dst va = boot_pte_at v va"
proof -
  have s0: "src \<noteq> 0" using table_range(4) [OF ok, of "Root src" src] s by simp
  obtain d u where cr: "vmm_create_address_space cid v = (d, u)" by fastforce
  obtain b w2 where p: "clone_pds cid src d [0..<PDPT_ENTRIES] u = (b, w2)" by fastforce
  have dd: "d = dst" "b" "w2 = w" using c s0 cr p dst by (auto simp: vmm_clone_address_space_def split: if_splits)
  note K = clone_core [OF ok cid s boot cr [unfolded dd] dst p [unfolded dd]]
  then show dn: "dst \<notin> D" by blast
  from K obtain L0 L where C: "vm_ok u (insert dst D) (E + L0)" "same_boot v u" "same_ptes v D u" "fresh_space u dst"
      "data_safe v D (vrefs v D + E) u (insert dst D) (vrefs u (insert dst D) + (E + L0))"
      "clone_step u (insert dst D) (E + L0) src dst ({..<PDPT_ENTRIES} \<times> {..<PT_ENTRIES}) w L" using dd(2) by blast
  note bo = vm_okD(3) [OF ok]
  note S = clone_stepD [OF C(6)]
  have sd: "src \<noteq> dst" using s dn by auto
  have "data_safe v D (vrefs v D + E) w (insert dst D) (vrefs w (insert dst D) + (E + L0 + L))"
    using data_safe_trans [OF C(5)] S(3) unfolding data_kept_safe by simp
  then show "\<exists>L. vm_ok w (insert dst D) (E + L) \<and> same_boot v w
      \<and> data_safe v D (vrefs v D + E) w (insert dst D) (vrefs w (insert dst D) + (E + L))"
    using S(1) same_boot_trans [OF C(2) S(2)] by (intro exI [of _ "L0 + L"]) (simp add: ac_simps)
  note V = clone_view_at [OF C(6) refl]
  have old: "pte_at u d va = pte_at v d va" if "d \<in> D" for d va using C(3) that by (simp add: same_ptes_def)
  have inh: "inherits_at u va e = inherits_at v va e" for va e by (rule inherits_boot [OF C(2) bo])
  show "pte_at w d va = pte_at v d va" if "d \<in> D" "d \<noteq> src" for d va
  proof -
    have "d \<in> insert dst D" "d \<noteq> dst" using that dn by auto
    then show ?thesis using V [of d va] old that by simp
  qed
  show "pte_at w src va = (if inherits_at v va (pte_at v src va) then cow_of (pte_at v src va) else pte_at v src va)" for va
    using V [of src va] s sd old [OF s] inh by simp
  show "pte_at w dst va = cow_of (pte_at v src va)" if "inherits_at v va (pte_at v src va)" for va
    using V [of dst va] that old [OF s] inh by simp
  show "pte_at w dst va = boot_pte_at v va" if "\<not> inherits_at v va (pte_at v src va)" "page_of va \<noteq> page_of TRAMPOLINE_VA" for va
  proof -
    have f: "pte_at u dst va = boot_pte_at v va" using C(4) that(2) boot_pte_at_same [OF C(2) bo] by (simp add: fresh_space_def)
    have z: "boot_pte_at v va = 0" if "\<not> present (boot_pde u (pdpt_index va) (pd_index va))"
      using that same_boot_pde [OF C(2) bo index_bounds(1)] by (simp add: boot_pte_at_def boot_pte_def)
    show ?thesis
    proof (cases "\<not> present (boot_pde u (pdpt_index va) (pd_index va)) \<and> pt_of u src (pdpt_index va) (pd_index va) \<noteq> None")
      case True
      then show ?thesis using V [of dst va] that(1) sd old [OF s] inh z by simp
    next
      case False
      then show ?thesis using V [of dst va] that(1) sd old [OF s] inh f by auto
    qed
  qed
qed

text \<open>Out of memory: the new space is released; the source may be left with some of its pages
  read-only, which the next write repairs.\<close>

lemma clone_fails:
  assumes ok: "vm_ok v D E" and cid: "cid < MAX_CORES" and s: "src \<in> D" and boot: "boot_dirs v src"
    and c: "vmm_clone_address_space cid src v = (0, w)"
  shows "\<exists>L. vm_ok w D (E + L) \<and> same_boot v w" and "\<And>d va. d \<in> D \<Longrightarrow> d \<noteq> src \<Longrightarrow> pte_at w d va = pte_at v d va"
    and "\<And>va. pte_at w src va = pte_at v src va \<or> inherits_at v va (pte_at v src va) \<and> pte_at w src va = cow_of (pte_at v src va)"
proof -
  have s0: "src \<noteq> 0" using table_range(4) [OF ok, of "Root src" src] s by simp
  note bo = vm_okD(3) [OF ok]
  obtain d u where cr: "vmm_create_address_space cid v = (d, u)" by fastforce
  have "(\<exists>L. vm_ok w D (E + L) \<and> same_boot v w) \<and> (\<forall>d va. d \<in> D \<and> d \<noteq> src \<longrightarrow> pte_at w d va = pte_at v d va)
    \<and> (\<forall>va. pte_at w src va = pte_at v src va \<or> inherits_at v va (pte_at v src va) \<and> pte_at w src va = cow_of (pte_at v src va))"
  proof (cases "d = 0")
    case True
    then have "w = u" using c s0 cr by (simp add: vmm_clone_address_space_def)
    then show ?thesis using create_ok(1) [OF ok cid cr True] s by (auto simp: same_ptes_def)
  next
    case d: False
    obtain b w2 where p: "clone_pds cid src d [0..<PDPT_ENTRIES] u = (b, w2)" by fastforce
    have dd: "\<not> b" "w = vmm_free_address_space cid d w2"
      using c s0 cr p d by (auto simp: vmm_clone_address_space_def split: if_splits)
    from clone_core [OF ok cid s boot cr d p] obtain S L0 L where C: "d \<notin> D" "vm_ok u (insert d D) (E + L0)" "same_boot v u" "same_ptes v D u"
      "clone_step u (insert d D) (E + L0) src d S w2 L" by blast
    note K = clone_stepD [OF C(5)]
    note F = free_space_ok [OF cid K(1) C(1), folded dd(2)]
    note W = views_rd(1) [OF F(3)]
    have sd: "src \<noteq> d" using s C(1) by auto
    have inh: "inherits u pi j e = inherits v pi j e" if "pi < PDPT_ENTRIES" for pi j e
      using same_boot_pde [OF C(3) bo that] by (simp add: inherits_def)
    have old: "pte_at u d' va = pte_at v d' va" if "d' \<in> D" for d' va using C(4) that by (simp add: same_ptes_def)
    have V: "pte_at w2 d' va = clone_view u src d S d' (pdpt_index va) (pd_index va) (pt_index va)" if "d' \<in> D" for d' va
      using K(5) [of d' "pdpt_index va" "pd_index va" "pt_index va"] that by (simp add: pte_at_def)
    have "pte_at w d' va = pte_at v d' va" if h: "d' \<in> D" "d' \<noteq> src" for d' va
    proof -
      have "d' \<noteq> d" using h C(1) by auto
      then show ?thesis using V [OF h(1)] h old [OF h(1)] W by (simp add: clone_view_def pte_at_def)
    qed
    moreover have "pte_at w src va = pte_at v src va \<or> inherits_at v va (pte_at v src va) \<and> pte_at w src va = cow_of (pte_at v src va)" for va
      using V [OF s, of va] old [OF s, of va] sd W inh [of "pdpt_index va"] by (simp add: clone_view_def pte_at_def inherits_at_def)
    moreover have "vm_ok w D (E + (L0 + L))" using F(1) by (simp add: ac_simps)
    ultimately show ?thesis using same_boot_trans [OF C(3) same_boot_trans [OF K(2) F(2)]] by blast
  qed
  then show "\<exists>L. vm_ok w D (E + L) \<and> same_boot v w" and "\<And>d va. d \<in> D \<Longrightarrow> d \<noteq> src \<Longrightarrow> pte_at w d va = pte_at v d va"
    and "\<And>va. pte_at w src va = pte_at v src va \<or> inherits_at v va (pte_at v src va) \<and> pte_at w src va = cow_of (pte_at v src va)" by blast+
qed

end
