(* ===== verification/Mmap.thy ===== *)
theory Mmap
  imports Vmm_Fork
begin

text \<open>
  The mapping window of \<open>src/sys/task.c\<close> (\<open>mmap\<close>, file mappings, the scanout mapping) and
  the demand faults that fill it.

  One task's \<open>mmap_regions\<close> is a function of the slot; its page directory and the machine are
  carried beside it. A dirty bitmap is the set of pages whose bit is set, \<open>None\<close> the null
  pointer. The file behind a node is its size and bytes: \<open>vfs_read_file_offset\<close>,
  \<open>vfs_read_file\<close> and \<open>vfs_write_file\<close> act on that store, and the record \<open>mmap_env\<close> says
  which of their calls fail. Serial output is left out.
\<close>

section \<open>Regions\<close>

record region =
  mr_base :: u32
  mr_size :: u32
  mr_fsize :: u32
  mr_node :: int
  mr_flags :: u32
  mr_dirty :: "nat set option"

record mstate =
  mm_reg :: "nat \<Rightarrow> region"
  mm_dir :: nat
  mm_vm :: vmm
  mm_file :: "int \<Rightarrow> (nat \<times> (nat \<Rightarrow> u8)) option"
  mm_fb_owner :: int

record mmap_env =
  me_cid :: nat
  me_tid :: int
  me_as_limit :: "u32 option"
  me_heap :: u32
  me_kmalloc :: "nat \<Rightarrow> bool"
  me_path :: "int \<Rightarrow> bool"
  me_read :: "int \<Rightarrow> bool"
  me_write :: "int \<Rightarrow> bool"

definition MMAP_REGIONS :: nat where
  "MMAP_REGIONS = 8"

definition MMAP_BASE :: u32 where
  "MMAP_BASE = 0x40000000"

definition MMAP_END :: u32 where
  "MMAP_END = 0x80000000"

definition MMAP_FILE_SHARED :: u32 where
  "MMAP_FILE_SHARED = 1"

definition MMAP_FLAG_DEVICE :: u32 where
  "MMAP_FLAG_DEVICE = 2"

definition round_page :: "u32 \<Rightarrow> u32" where
  "round_page n = (n + 0xFFF) AND NOT 0xFFF"

definition set_region :: "nat \<Rightarrow> region \<Rightarrow> mstate \<Rightarrow> mstate" where
  "set_region j r m = m\<lparr>mm_reg := (mm_reg m)(j := r)\<rparr>"

text \<open>The gap search: does \<open>[cursor, cursor + size)\<close> miss every region?\<close>

definition gap_fits :: "(nat \<Rightarrow> region) \<Rightarrow> u32 \<Rightarrow> u32 \<Rightarrow> bool" where
  "gap_fits reg sz cursor \<longleftrightarrow>
     (\<forall>j < MMAP_REGIONS. mr_base (reg j) \<noteq> 0 \<longrightarrow>
        \<not> (cursor < mr_base (reg j) + mr_size (reg j) \<and> cursor + sz > mr_base (reg j)))"

partial_function (option) find_gap :: "(nat \<Rightarrow> region) \<Rightarrow> u32 \<Rightarrow> u32 \<Rightarrow> u32 option option" where
  "find_gap reg sz cursor =
     (if gap_fits reg sz cursor then Some (Some cursor)
      else (let c = round_page (cursor + sz) + 4096
            in if c \<ge> MMAP_END then Some None else find_gap reg sz c))"

text \<open>The result of \<open>mmap_region_alloc\<close>: the slot and the base; \<open>None\<close> outside is a search that
  does not end.\<close>

definition mmap_region_alloc :: "(nat \<Rightarrow> region) \<Rightarrow> u32 \<Rightarrow> (nat \<times> u32) option option" where
  "mmap_region_alloc reg sz =
     (case first_idx (\<lambda>j. mr_base (reg j) = 0) 0 MMAP_REGIONS of
        None \<Rightarrow> Some None
      | Some s \<Rightarrow> (case find_gap reg sz MMAP_BASE of
          None \<Rightarrow> None
        | Some None \<Rightarrow> Some None
        | Some (Some b) \<Rightarrow> Some (Some (s, b))))"

definition as_used :: "u32 \<Rightarrow> (nat \<Rightarrow> region) \<Rightarrow> u32" where
  "as_used heap reg =
     for_upto MMAP_REGIONS (\<lambda>j used. used + mr_size (reg j)) (if heap > 0x08000000 then heap - 0x08000000 else 0)"

text \<open>\<open>me_as_limit\<close> is \<open>None\<close> for root and outside any task.\<close>

definition rlimit_as_allows :: "mmap_env \<Rightarrow> (nat \<Rightarrow> region) \<Rightarrow> u32 \<Rightarrow> bool" where
  "rlimit_as_allows e reg additional =
     (case me_as_limit e of None \<Rightarrow> True
      | Some limit \<Rightarrow> limit \<noteq> 0 \<and> unat (as_used (me_heap e) reg) + unat additional \<le> unat limit)"

section \<open>Reserving\<close>

text \<open>The result is the base, 0 on failure.\<close>

definition task_mmap_reserve :: "mmap_env \<Rightarrow> u32 \<Rightarrow> mstate \<Rightarrow> (u32 \<times> mstate) option" where
  "task_mmap_reserve e req m =
     (if req = 0 then Some (0, m)
      else (let sz = round_page req; sz1 = (if sz = 0 then 4096 else sz)
            in if sz1 > MMAP_END - MMAP_BASE then Some (0, m)
               else if \<not> rlimit_as_allows e (mm_reg m) sz1 then Some (0, m)
               else (case mmap_region_alloc (mm_reg m) sz1 of
                       None \<Rightarrow> None
                     | Some None \<Rightarrow> Some (0, m)
                     | Some (Some (s, b)) \<Rightarrow>
                         Some (b, set_region s \<lparr>mr_base = b, mr_size = sz1, mr_fsize = 0, mr_node = -1, mr_flags = 0, mr_dirty = None\<rparr> m))))"

text \<open>\<open>task_mmap_file\<close> after the descriptor has been resolved to the regular file \<open>node\<close>
  (\<open>None\<close>: it does not resolve).\<close>

definition task_mmap_file :: "mmap_env \<Rightarrow> int option \<Rightarrow> u32 \<Rightarrow> mstate \<Rightarrow> (u32 \<times> mstate) option" where
  "task_mmap_file e fd_node flags m =
     (if flags \<noteq> MMAP_FILE_SHARED then Some (0, m)
      else (case fd_node of None \<Rightarrow> Some (0, m)
       | Some node \<Rightarrow> (case mm_file m node of None \<Rightarrow> Some (0, m)
         | Some (fsize, _) \<Rightarrow>
            (let sz = round_page (of_nat fsize); sz1 = (if sz = 0 then 4096 else sz)
             in if sz1 > MMAP_END - MMAP_BASE then Some (0, m)
                else if \<not> rlimit_as_allows e (mm_reg m) sz1 then Some (0, m)
                else (case mmap_region_alloc (mm_reg m) sz1 of
                        None \<Rightarrow> None
                      | Some None \<Rightarrow> Some (0, m)
                      | Some (Some (s, b)) \<Rightarrow>
                          if \<not> me_kmalloc e ((unat (sz1 div 4096) + 7) div 8) then Some (0, m)
                          else Some (b, set_region s \<lparr>mr_base = b, mr_size = sz1, mr_fsize = of_nat fsize, mr_node = node,
                                 mr_flags = MMAP_FILE_SHARED, mr_dirty = Some {}\<rparr> m))))))"

section \<open>Page contents as bytes\<close>

definition frame_byte :: "(nat \<Rightarrow> u64) \<Rightarrow> nat \<Rightarrow> u8" where
  "frame_byte w i = ucast (drop_bit (8 * (i mod 8)) (w (i div 8)))"

definition bytes_frame :: "(nat \<Rightarrow> u8) \<Rightarrow> nat \<Rightarrow> u64" where
  "bytes_frame b i = ucast (b (8 * i)) OR push_bit 8 (ucast (b (8 * i + 1))) OR push_bit 16 (ucast (b (8 * i + 2)))
     OR push_bit 24 (ucast (b (8 * i + 3))) OR push_bit 32 (ucast (b (8 * i + 4))) OR push_bit 40 (ucast (b (8 * i + 5)))
     OR push_bit 48 (ucast (b (8 * i + 6))) OR push_bit 56 (ucast (b (8 * i + 7)))"

text \<open>\<open>vfs_read_file_offset\<close> into a zeroed page: at most \<open>len\<close> bytes from \<open>off\<close>, less at the
  end of the file.\<close>

definition read_page :: "mmap_env \<Rightarrow> mstate \<Rightarrow> int \<Rightarrow> nat \<Rightarrow> nat \<Rightarrow> (nat \<Rightarrow> u64) option" where
  "read_page e m node off len =
     (case mm_file m node of None \<Rightarrow> None
      | Some (fsize, bytes) \<Rightarrow>
          if \<not> me_read e node then None
          else Some (bytes_frame (\<lambda>i. if i < len \<and> off + i < fsize then bytes (off + i) else 0)))"

section \<open>Faults\<close>

datatype fault_result = Resume | Pass | KernelFault

definition set_dirty :: "nat \<Rightarrow> region \<Rightarrow> region" where
  "set_dirty page r = r\<lparr>mr_dirty := map_option (insert page) (mr_dirty r)\<rparr>"

text \<open>\<open>memset\<close> of the page at a user address, through the active space: a fault in the kernel if
  nothing is mapped there.\<close>

definition memset_va :: "nat \<Rightarrow> u32 \<Rightarrow> vmm \<Rightarrow> fault_result \<times> vmm" where
  "memset_va d va v =
     (if present (pte_at v d va) then (Resume, set_frame (entry_frame (pte_at v d va)) (\<lambda>_. 0) v) else (KernelFault, v))"

definition nx_flag :: "vmm \<Rightarrow> u64" where
  "nx_flag v = (if vm_nx v then PAGE_NX else 0)"

definition in_region :: "u32 \<Rightarrow> region \<Rightarrow> bool" where
  "in_region addr r \<longleftrightarrow> mr_base r \<noteq> 0 \<and> mr_base r \<le> addr \<and> addr < mr_base r + mr_size r"

text \<open>One region's fault, \<open>va\<close> the page, \<open>j\<close> the slot.\<close>

definition region_fault :: "mmap_env \<Rightarrow> nat \<Rightarrow> u32 \<Rightarrow> bool \<Rightarrow> mstate \<Rightarrow> fault_result \<times> mstate" where
  "region_fault e j va write m =
     (let r = mm_reg m j; d = mm_dir m; v = mm_vm m; cid = me_cid e;
          page = unat ((va - mr_base r) div 4096); pte = pte_at v d va
      in if present pte then
           (if write \<and> \<not> has pte PAGE_RW then
              (let m1 = (if mr_flags r = MMAP_FILE_SHARED then set_region j (set_dirty page r) m else m);
                   t = the (pt_of v d (pdpt_index va) (pd_index va))
               in (Resume, m1\<lparr>mm_vm := set_entry t (pt_index va) (pte OR PAGE_RW) v\<rparr>))
            else (Resume, m))
         else
           (let (p, v1) = phys_alloc cid v
            in if p = 0 then (Pass, m\<lparr>mm_vm := v1\<rparr>)
               else if mr_flags r = MMAP_FILE_SHARED then
                 (let off = unat (va - mr_base r); fs = unat (mr_fsize r);
                      data = (if off < fs then read_page e m (mr_node r) off (min (fs - off) 4096) else Some (\<lambda>_. 0))
                  in case data of
                       None \<Rightarrow> (Pass, m\<lparr>mm_vm := phys_free cid p v1\<rparr>)
                     | Some w \<Rightarrow>
                        (let v2 = set_frame (p div 4096) w v1;
                             fl = PAGE_PRESENT OR PAGE_USER OR PAGE_SHARED OR (if write then PAGE_RW else 0) OR nx_flag v2;
                             m1 = (if write then set_region j (set_dirty page r) m else m)
                         in (Resume, m1\<lparr>mm_vm := snd (vmm_map_page cid d va (of_nat p) fl v2)\<rparr>)))
               else
                 (let v2 = snd (vmm_map_page cid d va (of_nat p) (PAGE_PRESENT OR PAGE_RW OR PAGE_USER OR nx_flag v1) v1);
                      (res, v3) = memset_va d va v2
                  in (res, m\<lparr>mm_vm := v3\<rparr>))))"

definition task_mmap_handle_fault :: "mmap_env \<Rightarrow> u32 \<Rightarrow> bool \<Rightarrow> mstate \<Rightarrow> fault_result \<times> mstate" where
  "task_mmap_handle_fault e addr write m =
     (case first_idx (\<lambda>j. in_region addr (mm_reg m j)) 0 MMAP_REGIONS of
        None \<Rightarrow> (Pass, m)
      | Some j \<Rightarrow> region_fault e j (addr AND NOT 0xFFF) write m)"

section \<open>Writing back\<close>

definition mmap_copy_page :: "nat \<Rightarrow> region \<Rightarrow> nat \<Rightarrow> nat \<Rightarrow> vmm \<Rightarrow> (nat \<Rightarrow> u8) \<Rightarrow> (nat \<Rightarrow> u8)" where
  "mmap_copy_page d r page len v buf =
     (let pte = pte_at v d (mr_base r + of_nat (page * 4096))
      in if d = 0 \<or> \<not> present pte then buf
         else (\<lambda>i. if page * 4096 \<le> i \<and> i < page * 4096 + len
                   then frame_byte (rd v (entry_frame pte)) (i - page * 4096) else buf i))"

definition mmap_page_make_ro :: "nat \<Rightarrow> region \<Rightarrow> nat \<Rightarrow> vmm \<Rightarrow> vmm" where
  "mmap_page_make_ro d r page v =
     (let va = mr_base r + of_nat (page * 4096); pte = pte_at v d va
      in if d = 0 \<or> \<not> present pte then v
         else set_entry (the (pt_of v d (pdpt_index va) (pd_index va))) (pt_index va) (pte AND NOT PAGE_RW) v)"

definition npages :: "region \<Rightarrow> nat" where
  "npages r = unat (mr_size r div 4096)"

definition dirty_page :: "region \<Rightarrow> nat \<Rightarrow> bool" where
  "dirty_page r i \<longleftrightarrow> (case mr_dirty r of None \<Rightarrow> False | Some D \<Rightarrow> i \<in> D)"

definition flush_buf :: "nat \<Rightarrow> region \<Rightarrow> nat \<Rightarrow> vmm \<Rightarrow> (nat \<Rightarrow> u8) \<Rightarrow> (nat \<Rightarrow> u8)" where
  "flush_buf d r fsize v buf =
     for_upto (npages r) (\<lambda>i b. if dirty_page r i \<and> i * 4096 < fsize
        then mmap_copy_page d r i (min 4096 (fsize - i * 4096)) v b else b) buf"

text \<open>1: written back, 0: clean, -1: failed. A read error leaves the buffer as allocated; the
  model takes that content as zero.\<close>

definition mmap_flush_file :: "mmap_env \<Rightarrow> nat \<Rightarrow> mstate \<Rightarrow> int \<times> mstate" where
  "mmap_flush_file e j m =
     (let r = mm_reg m j; d = mm_dir m; clean = set_region j (r\<lparr>mr_dirty := map_option (\<lambda>_. {}) (mr_dirty r)\<rparr>) m
      in if \<not> (\<exists>i < npages r. dirty_page r i) then (0, m)
         else (case mm_file m (mr_node r) of
                 None \<Rightarrow> (1, clean)
               | Some (fsize, bytes) \<Rightarrow>
                   if fsize = 0 then (1, clean)
                   else if \<not> me_path e (mr_node r) \<or> \<not> me_kmalloc e fsize then (-1, m)
                   else (let buf = flush_buf d r fsize (mm_vm m) (if me_read e (mr_node r) then bytes else (\<lambda>_. 0))
                         in if \<not> me_write e (mr_node r) then (-1, m)
                            else (1, clean\<lparr>mm_file := (mm_file m)(mr_node r \<mapsto> (fsize, buf)),
                                   mm_vm := for_upto (npages r) (\<lambda>i v. if dirty_page r i \<and> i * 4096 < fsize
                                      then mmap_page_make_ro d r i v else v) (mm_vm m)\<rparr>))))"

definition task_msync :: "mmap_env \<Rightarrow> u32 \<Rightarrow> mstate \<Rightarrow> int \<times> mstate" where
  "task_msync e addr m =
     (case first_idx (\<lambda>j. mr_base (mm_reg m j) = addr) 0 MMAP_REGIONS of
        None \<Rightarrow> (0, m)
      | Some j \<Rightarrow> if mr_flags (mm_reg m j) \<noteq> MMAP_FILE_SHARED then (1, m)
                  else (let (rc, m1) = mmap_flush_file e j m in (if rc < 0 then 0 else 1, m1)))"

section \<open>Unmapping\<close>

text \<open>One page of \<open>task_munmap\<close>: a frame above the reservation is released whoever mapped it.\<close>

definition munmap_page :: "nat \<Rightarrow> nat \<Rightarrow> u32 \<Rightarrow> vmm \<Rightarrow> vmm" where
  "munmap_page cid d va v =
     (let pte = pte_at v d va
      in if \<not> present pte then v
         else (let v1 = (if fr_reserved (vm_fr v) * 4096 \<le> entry_paddr pte then phys_free cid (entry_paddr pte) v else v)
               in set_entry (the (pt_of v d (pdpt_index va) (pd_index va))) (pt_index va) 0 v1))"

definition no_region :: region where
  "no_region = \<lparr>mr_base = 0, mr_size = 0, mr_fsize = 0, mr_node = 0, mr_flags = 0, mr_dirty = None\<rparr>"

definition task_munmap :: "mmap_env \<Rightarrow> u32 \<Rightarrow> mstate \<Rightarrow> int \<times> mstate" where
  "task_munmap e addr m =
     (case first_idx (\<lambda>j. mr_base (mm_reg m j) = addr) 0 MMAP_REGIONS of
        None \<Rightarrow> (0, m)
      | Some j \<Rightarrow>
          (let r = mm_reg m j;
               m1 = (if mr_flags r = MMAP_FILE_SHARED then snd (mmap_flush_file e j m) else m);
               v = for_upto (npages r) (\<lambda>i. munmap_page (me_cid e) (mm_dir m1) (addr + of_nat (i * 4096))) (mm_vm m1)
           in (1, set_region j no_region (m1\<lparr>mm_vm := v\<rparr>))))"

section \<open>The scanout mapping\<close>

record fb_hw =
  fb_addr :: u32
  fb_width :: u32
  fb_height :: u32
  fb_pitch :: u32
  fb_bpp :: u8
  is_vbe :: bool

record fb_info =
  fi_base :: u32
  fi_width :: u32
  fi_height :: u32
  fi_pitch :: u32
  fi_bpp :: u8

text \<open>Device pages, one by one; on failure the pages mapped so far are unmapped again.\<close>

definition fb_unmap :: "nat \<Rightarrow> nat \<Rightarrow> u32 \<Rightarrow> nat \<Rightarrow> vmm \<Rightarrow> vmm" where
  "fb_unmap cid d base n = for_upto n (\<lambda>i v. snd (vmm_unmap_page cid d d (base + of_nat (i * 4096)) v))"

fun fb_map_pages :: "nat \<Rightarrow> nat \<Rightarrow> u32 \<Rightarrow> u32 \<Rightarrow> u64 \<Rightarrow> nat \<Rightarrow> nat \<Rightarrow> vmm \<Rightarrow> bool \<times> vmm" where
  "fb_map_pages cid d base pa fl i 0 v = (True, v)"
| "fb_map_pages cid d base pa fl i (Suc n) v =
     (let (r, v1) = vmm_map_page cid d (base + of_nat (i * 4096)) (pa + of_nat (i * 4096)) fl v
      in if r \<noteq> 0 then (False, fb_unmap cid d base i v1)
         else fb_map_pages cid d base pa fl (Suc i) n v1)"

text \<open>\<open>task_fb_map\<close>: \<open>ptr_ok\<close> says the result pointer is valid, \<open>auth\<close> what the two
  active-session checks see, \<open>alive\<close> which tasks live.\<close>

definition task_fb_map :: "mmap_env \<Rightarrow> fb_hw \<Rightarrow> bool \<Rightarrow> bool \<times> bool \<Rightarrow> (int \<Rightarrow> bool) \<Rightarrow> mstate \<Rightarrow> (fb_info option \<times> mstate) option" where
  "task_fb_map e fb ptr_ok auth alive m =
     (let sz = round_page (fb_pitch fb * fb_height fb); d = mm_dir m;
          info = (\<lambda>b. \<lparr>fi_base = b, fi_width = fb_width fb, fi_height = fb_height fb, fi_pitch = fb_pitch fb, fi_bpp = fb_bpp fb\<rparr>);
          mine = first_idx (\<lambda>j. mr_flags (mm_reg m j) = MMAP_FLAG_DEVICE \<and> mr_base (mm_reg m j) \<noteq> 0) 0 MMAP_REGIONS
      in if \<not> ptr_ok \<or> d = 0 \<or> \<not> is_vbe fb \<or> fb_addr fb = 0 \<or> fb_width fb = 0 \<or> fb_height fb = 0 \<or> \<not> fst auth
            \<or> sz = 0 \<or> sz > MMAP_END - MMAP_BASE \<or> \<not> rlimit_as_allows e (mm_reg m) sz \<or> \<not> snd auth
         then Some (None, m)
         else if mm_fb_owner m = me_tid e \<and> mine \<noteq> None then Some (Some (info (mr_base (mm_reg m (the mine)))), m)
         else if 0 \<le> mm_fb_owner m \<and> mm_fb_owner m \<noteq> me_tid e \<and> alive (mm_fb_owner m) then Some (None, m)
         else (case mmap_region_alloc (mm_reg m) sz of
                 None \<Rightarrow> None
               | Some None \<Rightarrow> Some (None, m)
               | Some (Some (s, b)) \<Rightarrow>
                   (let r = \<lparr>mr_base = b, mr_size = sz, mr_fsize = 0, mr_node = -1, mr_flags = MMAP_FLAG_DEVICE, mr_dirty = None\<rparr>;
                        (ok, v1) = fb_map_pages (me_cid e) d b (fb_addr fb)
                           (PAGE_PRESENT OR PAGE_RW OR PAGE_USER OR PAGE_DEV OR nx_flag (mm_vm m)) 0 (unat (sz div 4096)) (mm_vm m)
                    in if ok then Some (Some (info b), set_region s r (m\<lparr>mm_vm := v1, mm_fb_owner := me_tid e\<rparr>))
                       else Some (None, set_region s (r\<lparr>mr_base := 0, mr_size := 0\<rparr>) (m\<lparr>mm_vm := v1\<rparr>)))))"

definition task_fb_release :: "mmap_env \<Rightarrow> mstate \<Rightarrow> int \<times> mstate" where
  "task_fb_release e m =
     (if mm_fb_owner m \<noteq> me_tid e then (-1, m)
      else (let m1 = (case first_idx (\<lambda>j. mr_base (mm_reg m j) \<noteq> 0 \<and> mr_flags (mm_reg m j) = MMAP_FLAG_DEVICE) 0 MMAP_REGIONS of
                  None \<Rightarrow> m
                | Some j \<Rightarrow> (let r = mm_reg m j
                    in set_region j (r\<lparr>mr_base := 0, mr_size := 0, mr_flags := 0\<rparr>)
                         (m\<lparr>mm_vm := fb_unmap (me_cid e) (mm_dir m) (mr_base r) (npages r) (mm_vm m)\<rparr>)))
            in (0, m1\<lparr>mm_fb_owner := -1\<rparr>)))"

definition fb_cleanup :: "int \<Rightarrow> mstate \<Rightarrow> mstate" where
  "fb_cleanup t m = (if mm_fb_owner m = t then m\<lparr>mm_fb_owner := -1\<rparr> else m)"

text \<open>Discarding the mappings of an image (\<open>exec\<close>, a reused slot): the bases are cleared, the
  sizes are not.\<close>

definition mmap_reset :: "mstate \<Rightarrow> mstate" where
  "mmap_reset m = m\<lparr>mm_reg := (\<lambda>j. if j < MMAP_REGIONS then (mm_reg m j)\<lparr>mr_base := 0, mr_dirty := None\<rparr> else mm_reg m j)\<rparr>"

end
