(* ===== verification/Mmap_Regions.thy ===== *)
theory Mmap_Regions
  imports Mmap
begin

text \<open>
  The region table of the mapping window: the gap search ends, what it returns overlaps no
  region, and every operation on the table keeps the regions apart.
\<close>

section \<open>Rounding\<close>

lemma round_page_nat:
  assumes "unat n \<le> 2 ^ 32 - 4096"
  shows "unat (round_page n) = (unat n + 4095) div 4096 * 4096"
proof -
  have m: "NOT 0xFFF = (NOT (mask 12) :: u32)" by (simp add: mask_eq_exp_minus_1)
  have s: "unat (n + 0xFFF) = unat n + 4095"
    using assms by (simp add: unat_word_ariths)
  have "unat (round_page n) = unat (drop_bit 12 (n + 0xFFF)) * 2 ^ 12"
  proof -
    have "round_page n = push_bit 12 (drop_bit 12 (n + 0xFFF))"
      unfolding round_page_def m by (rule bit_eqI) (auto simp: bit_simps)
    then have "unat (round_page n) = take_bit 32 (push_bit 12 (unat (drop_bit 12 (n + 0xFFF))))"
      by (simp add: unsigned_push_bit_eq)
    moreover have "unat (drop_bit 12 (n + 0xFFF)) < 2 ^ 20"
    proof -
      have "unat (n + 0xFFF) < 2 ^ 32" using unsigned_less [of "n + 0xFFF"] by simp
      then show ?thesis unfolding unat_drop_bit_eq drop_bit_eq_div [of 12 "unat (n + 0xFFF)"] by simp
    qed
    then have "take_bit 32 (push_bit 12 (unat (drop_bit 12 (n + 0xFFF)))) = unat (drop_bit 12 (n + 0xFFF)) * 2 ^ 12"
      by (simp add: push_bit_eq_mult take_bit_nat_eq_self)
    ultimately show ?thesis by simp
  qed
  then show ?thesis using s unfolding unat_drop_bit_eq drop_bit_eq_div [of 12 "unat (n + 0xFFF)"] by simp
qed

lemma round_exact:
  fixes x :: nat
  assumes "x mod 4096 = 0"
  shows "(x + 4095) div 4096 * 4096 = x"
proof -
  from assms obtain k where "x = 4096 * k" by (metis mod_0_imp_dvd dvdE)
  then show ?thesis by simp
qed

lemma round_above: "x \<le> (x + 4095) div 4096 * 4096" for x :: nat
  using div_mult_mod_eq [of "x + 4095" 4096] mod_less_divisor [of 4096 "x + 4095"] by linarith

lemma unat_consts: "unat MMAP_BASE = 2 ^ 30" "unat MMAP_END = 2 ^ 31" "unat (MMAP_END - MMAP_BASE) = 2 ^ 30"
  by (simp_all add: MMAP_BASE_def MMAP_END_def)

text \<open>A request as the callers pass it: whole pages, no more than the window.\<close>

definition whole :: "u32 \<Rightarrow> bool" where
  "whole sz \<longleftrightarrow> unat sz mod 4096 = 0 \<and> 0 < unat sz \<and> unat sz \<le> 2 ^ 30"

lemma whole_round:
  assumes "n \<noteq> 0" and "\<not> round_page n > MMAP_END - MMAP_BASE" and "round_page n \<noteq> 0"
  shows "whole (round_page n)"
proof -
  have m: "NOT 0xFFF = (NOT (mask 12) :: u32)" by (simp add: mask_eq_exp_minus_1)
  have "take_bit 12 (round_page n) = 0" unfolding round_page_def m by (rule bit_eqI) (auto simp: bit_simps)
  then have "take_bit 12 (unat (round_page n)) = unat (0 :: u32)" by (metis unsigned_take_bit_eq)
  then have "unat (round_page n) mod 4096 = 0" by (simp add: take_bit_eq_mod)
  moreover have "unat (round_page n) \<le> 2 ^ 30" using assms(2) unat_consts(3) by (simp add: word_less_nat_alt)
  moreover have "0 < unat (round_page n)" using assms(3) by (simp add: unat_gt_0)
  ultimately show ?thesis by (simp add: whole_def)
qed

lemma whole_4096 [simp]: "whole 4096"
  by (simp add: whole_def)

section \<open>The gap search\<close>

definition regions_apart :: "region \<Rightarrow> u32 \<Rightarrow> u32 \<Rightarrow> bool" where
  "regions_apart r b sz \<longleftrightarrow> unat b + unat sz \<le> unat (mr_base r) \<or> unat (mr_base r) + unat (mr_size r) \<le> unat b"

definition region_ok :: "region \<Rightarrow> bool" where
  "region_ok r \<longleftrightarrow> mr_base r = 0 \<or>
     (whole (mr_size r) \<and> 2 ^ 30 \<le> unat (mr_base r) \<and> unat (mr_base r) < 2 ^ 31 \<and> unat (mr_base r) mod 4096 = 0)"

definition regions_ok :: "(nat \<Rightarrow> region) \<Rightarrow> bool" where
  "regions_ok reg \<longleftrightarrow> (\<forall>j < MMAP_REGIONS. region_ok (reg j))
     \<and> (\<forall>i < MMAP_REGIONS. \<forall>j < MMAP_REGIONS. i \<noteq> j \<and> mr_base (reg i) \<noteq> 0 \<and> mr_base (reg j) \<noteq> 0
          \<longrightarrow> regions_apart (reg i) (mr_base (reg j)) (mr_size (reg j)))"

lemma sum_nat:
  fixes b sz :: u32
  assumes "unat b < 2 ^ 31" and "unat sz \<le> 2 ^ 30"
  shows "unat (b + sz) = unat b + unat sz"
  using assms by (simp add: unat_word_ariths)

lemma gap_apart:
  assumes "gap_fits reg sz b" and "j < MMAP_REGIONS" and "mr_base (reg j) \<noteq> 0" and "region_ok (reg j)"
    and "unat b < 2 ^ 31" and "whole sz"
  shows "regions_apart (reg j) b sz"
proof -
  have r: "unat (mr_base (reg j)) < 2 ^ 31" "unat (mr_size (reg j)) \<le> 2 ^ 30" using assms(3,4) by (auto simp: region_ok_def whole_def)
  have s: "unat sz \<le> 2 ^ 30" using assms(6) by (simp add: whole_def)
  have "\<not> (b < mr_base (reg j) + mr_size (reg j) \<and> b + sz > mr_base (reg j))" using assms(1-3) by (simp add: gap_fits_def)
  then show ?thesis using sum_nat [OF r] sum_nat [OF assms(5) s] by (auto simp: regions_apart_def word_less_nat_alt)
qed

lemma next_cursor:
  assumes w: "whole sz" and c: "unat c < 2 ^ 31" "unat c mod 4096 = 0"
  shows "unat (round_page (c + sz) + 4096) = unat c + unat sz + 4096"
proof -
  have s: "unat sz \<le> 2 ^ 30" "unat sz mod 4096 = 0" using w by (simp_all add: whole_def)
  have n: "unat (c + sz) = unat c + unat sz" by (rule sum_nat [OF c(1) s(1)])
  have "unat (c + sz) \<le> 2 ^ 32 - 4096" using n c(1) s(1) by simp
  from round_page_nat [OF this] have "unat (round_page (c + sz)) = (unat c + unat sz + 4095) div 4096 * 4096" using n by simp
  also have "\<dots> = unat c + unat sz" by (rule round_exact) (use c(2) s(2) in \<open>simp add: mod_add_eq [symmetric]\<close>)
  finally show ?thesis using c(1) s(1) by (simp add: unat_word_ariths)
qed

lemma find_gap_ends:
  assumes "whole sz" and "2 ^ 30 \<le> unat c" and "unat c < 2 ^ 31" and "unat c mod 4096 = 0"
  shows "\<exists>r. find_gap reg sz c = Some r \<and> (\<forall>b. r = Some b \<longrightarrow> gap_fits reg sz b \<and> unat c \<le> unat b \<and> unat b < 2 ^ 31 \<and> unat b mod 4096 = 0)"
  using assms(2-4)
proof (induction "2 ^ 31 - unat c" arbitrary: c rule: less_induct)
  case less
  show ?case
  proof (cases "gap_fits reg sz c")
    case True
    then show ?thesis using less.prems by (subst find_gap.simps) auto
  next
    case False
    let ?c = "round_page (c + sz) + 4096"
    note n = next_cursor [OF assms(1) less.prems(2,3)]
    show ?thesis
    proof (cases "?c \<ge> MMAP_END")
      case True
      then show ?thesis using False by (subst find_gap.simps) (simp add: Let_def)
    next
      case lt: False
      then have b: "unat ?c < 2 ^ 31" using unat_consts(2) by (simp add: word_le_nat_alt)
      have a: "unat ?c mod 4096 = 0" using n less.prems(3) assms(1) by (simp add: whole_def mod_add_eq [symmetric])
      have "2 ^ 31 - unat ?c < 2 ^ 31 - unat c" "2 ^ 30 \<le> unat ?c" using n less.prems by simp_all
      from less.hyps [OF this b a] obtain r where
        r: "find_gap reg sz ?c = Some r" "\<forall>b. r = Some b \<longrightarrow> gap_fits reg sz b \<and> unat ?c \<le> unat b \<and> unat b < 2 ^ 31 \<and> unat b mod 4096 = 0"
        by blast
      have "find_gap reg sz c = Some r" using False lt r(1) by (subst find_gap.simps) (simp add: Let_def)
      then show ?thesis using r(2) n by auto
    qed
  qed
qed

lemma alloc_ends:
  assumes "whole sz"
  shows "\<exists>r. mmap_region_alloc reg sz = Some r \<and> (\<forall>s b. r = Some (s, b) \<longrightarrow> s < MMAP_REGIONS \<and> mr_base (reg s) = 0
     \<and> gap_fits reg sz b \<and> 2 ^ 30 \<le> unat b \<and> unat b < 2 ^ 31 \<and> unat b mod 4096 = 0)"
proof -
  have c: "2 ^ 30 \<le> unat MMAP_BASE" "unat MMAP_BASE < 2 ^ 31" "unat MMAP_BASE mod 4096 = 0" by (simp_all add: MMAP_BASE_def)
  from find_gap_ends [OF assms c, of reg] obtain g where g: "find_gap reg sz MMAP_BASE = Some g"
    "\<And>b. g = Some b \<Longrightarrow> gap_fits reg sz b \<and> unat MMAP_BASE \<le> unat b \<and> unat b < 2 ^ 31 \<and> unat b mod 4096 = 0" by blast
  show ?thesis
  proof (cases "first_idx (\<lambda>j. mr_base (reg j) = 0) 0 MMAP_REGIONS")
    case None
    then show ?thesis by (simp add: mmap_region_alloc_def)
  next
    case (Some s)
    note F = first_idx_Some [OF Some]
    show ?thesis
    proof (cases g)
      case None
      then show ?thesis using Some g(1) by (simp add: mmap_region_alloc_def)
    next
      case b: (Some b)
      have "mmap_region_alloc reg sz = Some (Some (s, b))" using Some g(1) b by (simp add: mmap_region_alloc_def)
      then show ?thesis using F g(2) [OF b] unat_consts(1) by auto
    qed
  qed
qed

lemma regions_ok_set:
  assumes ok: "regions_ok reg" and s: "s < MMAP_REGIONS" and w: "whole sz" and g: "gap_fits reg sz b"
    and b: "2 ^ 30 \<le> unat b" "unat b < 2 ^ 31" "unat b mod 4096 = 0" and r: "mr_base r = b" "mr_size r = sz"
    and free: "mr_base (reg s) = 0"
  shows "regions_ok (reg(s := r))"
proof -
  have new: "region_ok r" using w b r by (simp add: region_ok_def)
  have old: "region_ok (reg j)" if "j < MMAP_REGIONS" for j using ok that by (simp add: regions_ok_def)
  have ap: "regions_apart (reg j) b sz" if "j < MMAP_REGIONS" "mr_base (reg j) \<noteq> 0" for j
    by (rule gap_apart [OF g that old [OF that(1)] b(2) w])
  have ap': "regions_apart r (mr_base (reg j)) (mr_size (reg j))" if "j < MMAP_REGIONS" "mr_base (reg j) \<noteq> 0" for j
    using ap [OF that] r by (auto simp: regions_apart_def)
  show ?thesis using ok new ap ap' r unfolding regions_ok_def by auto
qed

lemma regions_ok_drop:
  assumes "regions_ok reg" and "mr_base r = 0"
  shows "regions_ok (reg(s := r))"
  using assms unfolding regions_ok_def by (auto simp: region_ok_def)

text \<open>Changing what is recorded about a region, not where it is.\<close>

lemma regions_ok_same:
  assumes "regions_ok reg" and "\<And>j. j < MMAP_REGIONS \<Longrightarrow> mr_base (reg' j) = mr_base (reg j) \<and> mr_size (reg' j) = mr_size (reg j)"
  shows "regions_ok reg'"
  using assms unfolding regions_ok_def region_ok_def regions_apart_def by simp

section \<open>The operations\<close>

lemma sz1_whole:
  assumes "sz = round_page n" and "\<not> (if sz = 0 then 4096 else sz) > MMAP_END - MMAP_BASE"
  shows "whole (if sz = 0 then 4096 else sz)"
proof (cases "sz = 0")
  case False
  have "n \<noteq> 0" using False assms(1) by (auto simp: round_page_def)
  then show ?thesis using whole_round [of n] assms False by simp
qed simp

text \<open>\<open>reserved m req b m'\<close>: a whole-page region at \<open>b\<close> in a free slot, clear of every other, that
  covers the request (unless rounding the request up wrapped around).\<close>

definition reserved :: "mstate \<Rightarrow> u32 \<Rightarrow> u32 \<Rightarrow> mstate \<Rightarrow> bool" where
  "reserved m req b m' \<longleftrightarrow> (\<exists>s sz. s < MMAP_REGIONS \<and> mr_base (mm_reg m s) = 0 \<and> whole sz
     \<and> (unat req \<le> unat sz \<or> 2 ^ 32 - 4096 < unat req) \<and> gap_fits (mm_reg m) sz b
     \<and> 2 ^ 30 \<le> unat b \<and> unat b < 2 ^ 31 \<and> unat b mod 4096 = 0
     \<and> m' = set_region s \<lparr>mr_base = b, mr_size = sz, mr_fsize = 0, mr_node = -1, mr_flags = 0, mr_dirty = None\<rparr> m)"

lemma reserve_ok:
  "\<exists>b m'. task_mmap_reserve e req m = Some (b, m') \<and> (b = 0 \<longrightarrow> m' = m) \<and> (b \<noteq> 0 \<longrightarrow> reserved m req b m')"
proof (cases "req = 0")
  case True
  then show ?thesis by (simp add: task_mmap_reserve_def)
next
  case False
  define sz where "sz = (if round_page req = 0 then 4096 else round_page req)"
  show ?thesis
  proof (cases "sz > MMAP_END - MMAP_BASE \<or> \<not> rlimit_as_allows e (mm_reg m) sz")
    case True
    then show ?thesis using False by (auto simp: task_mmap_reserve_def Let_def sz_def [symmetric])
  next
    case f: False
    then have w: "whole sz" using sz1_whole [OF refl, of req] by (simp add: sz_def)
    have le: "unat req \<le> unat sz \<or> 2 ^ 32 - 4096 < unat req"
    proof (cases "unat req \<le> 2 ^ 32 - 4096")
      case True
      from round_page_nat [OF True] have r: "unat (round_page req) = (unat req + 4095) div 4096 * 4096" .
      have p: "0 < unat req" using False by (simp add: unat_gt_0)
      have "round_page req \<noteq> 0"
      proof
        assume "round_page req = 0"
        then have "unat (round_page req) = 0" by simp
        then show False using r p by simp
      qed
      then have "unat sz = (unat req + 4095) div 4096 * 4096" using r by (simp add: sz_def)
      then show ?thesis using round_above by simp
    qed simp
    have t: "task_mmap_reserve e req m = (case mmap_region_alloc (mm_reg m) sz of
                       None \<Rightarrow> None
                     | Some None \<Rightarrow> Some (0, m)
                     | Some (Some (s, b)) \<Rightarrow>
                         Some (b, set_region s \<lparr>mr_base = b, mr_size = sz, mr_fsize = 0, mr_node = -1, mr_flags = 0, mr_dirty = None\<rparr> m))"
      using False f unfolding task_mmap_reserve_def Let_def sz_def [symmetric] by simp
    from alloc_ends [OF w, of "mm_reg m"] obtain r where r: "mmap_region_alloc (mm_reg m) sz = Some r"
      "\<And>s b. r = Some (s, b) \<Longrightarrow> s < MMAP_REGIONS \<and> mr_base (mm_reg m s) = 0
         \<and> gap_fits (mm_reg m) sz b \<and> 2 ^ 30 \<le> unat b \<and> unat b < 2 ^ 31 \<and> unat b mod 4096 = 0" by blast
    show ?thesis
    proof (cases r)
      case None
      then show ?thesis using t r(1) by simp
    next
      case (Some p)
      obtain s b where p: "p = (s, b)" by (cases p)
      have R: "s < MMAP_REGIONS \<and> mr_base (mm_reg m s) = 0
         \<and> gap_fits (mm_reg m) sz b \<and> 2 ^ 30 \<le> unat b \<and> unat b < 2 ^ 31 \<and> unat b mod 4096 = 0" by (rule r(2)) (simp add: Some p)
      then have b0: "b \<noteq> 0" by auto
      have res: "task_mmap_reserve e req m = Some (b, set_region s \<lparr>mr_base = b, mr_size = sz, mr_fsize = 0, mr_node = -1, mr_flags = 0, mr_dirty = None\<rparr> m)"
        using t r(1) Some p by simp
      have "reserved m req b (set_region s \<lparr>mr_base = b, mr_size = sz, mr_fsize = 0, mr_node = -1, mr_flags = 0, mr_dirty = None\<rparr> m)"
        unfolding reserved_def by (intro exI [of _ s] exI [of _ sz] conjI refl) (use R w le in blast)+
      then show ?thesis using res b0 by simp
    qed
  qed
qed


lemma place_ok:
  assumes ok: "regions_ok reg" and w: "whole sz" and a: "mmap_region_alloc reg sz = Some (Some (s, b))"
    and r: "mr_base r = b" "mr_size r = sz"
  shows "regions_ok (reg(s := r))"
proof -
  from alloc_ends [OF w, of reg] a have A: "s < MMAP_REGIONS \<and> mr_base (reg s) = 0
     \<and> gap_fits reg sz b \<and> 2 ^ 30 \<le> unat b \<and> unat b < 2 ^ 31 \<and> unat b mod 4096 = 0" by auto
  then show ?thesis by (intro regions_ok_set [OF ok _ w _ _ _ _ r]) auto
qed

definition table_ok :: "mstate \<Rightarrow> bool" where
  "table_ok m \<longleftrightarrow> regions_ok (mm_reg m)"

lemma table_set_same:
  "table_ok m \<Longrightarrow> mr_base r = mr_base (mm_reg m j) \<Longrightarrow> mr_size r = mr_size (mm_reg m j) \<Longrightarrow> table_ok (set_region j r m)"
  unfolding table_ok_def set_region_def by (auto intro: regions_ok_same)

lemma table_vm [simp]:
  "table_ok (m\<lparr>mm_vm := v\<rparr>) = table_ok m" "table_ok (m\<lparr>mm_file := fs\<rparr>) = table_ok m" "table_ok (m\<lparr>mm_fb_owner := t\<rparr>) = table_ok m"
  by (simp_all add: table_ok_def)

lemma table_fields [simp]:
  "mm_reg (set_region j r m) i = (if i = j then r else mm_reg m i)" "mm_vm (set_region j r m) = mm_vm m"
  "mm_dir (set_region j r m) = mm_dir m" "mm_file (set_region j r m) = mm_file m" "mm_fb_owner (set_region j r m) = mm_fb_owner m"
  by (simp_all add: set_region_def)

lemma reserve_table: "table_ok m \<Longrightarrow> task_mmap_reserve e req m = Some (b, m') \<Longrightarrow> table_ok m'"
proof -
  assume ok: "table_ok m" and t: "task_mmap_reserve e req m = Some (b, m')"
  from reserve_ok [of e req m] t show "table_ok m'"
  proof (cases "b = 0")
    case False
    with reserve_ok [of e req m] t obtain s sz where R: "s < MMAP_REGIONS" "mr_base (mm_reg m s) = 0" "whole sz" "gap_fits (mm_reg m) sz b"
      "2 ^ 30 \<le> unat b" "unat b < 2 ^ 31" "unat b mod 4096 = 0"
      "m' = set_region s \<lparr>mr_base = b, mr_size = sz, mr_fsize = 0, mr_node = -1, mr_flags = 0, mr_dirty = None\<rparr> m" by (auto simp: reserved_def)
    show ?thesis unfolding R(8) table_ok_def set_region_def
      using regions_ok_set [OF ok [unfolded table_ok_def] R(1,3-7) _ _ R(2)] by simp
  qed (use ok in auto)
qed

lemma file_table: "table_ok m \<Longrightarrow> task_mmap_file e fd fl m = Some (b, m') \<Longrightarrow> table_ok m'"
proof -
  assume ok: "table_ok m" and t: "task_mmap_file e fd fl m = Some (b, m')"
  show "table_ok m'"
  proof (cases "m' = m")
    case ne: False
    then obtain node fsize bytes where n: "fl = MMAP_FILE_SHARED" "fd = Some node" "mm_file m node = Some (fsize, bytes)"
      using t by (auto simp: task_mmap_file_def split: if_splits option.splits prod.splits)
    define sz where "sz = (if round_page (of_nat fsize) = 0 then 4096 else round_page (of_nat fsize))"
    have e: "(if sz > MMAP_END - MMAP_BASE then Some (0, m)
                else if \<not> rlimit_as_allows e (mm_reg m) sz then Some (0, m)
                else (case mmap_region_alloc (mm_reg m) sz of
                        None \<Rightarrow> None
                      | Some None \<Rightarrow> Some (0, m)
                      | Some (Some (s, b)) \<Rightarrow>
                          if \<not> me_kmalloc e ((unat (sz div 4096) + 7) div 8) then Some (0, m)
                          else Some (b, set_region s \<lparr>mr_base = b, mr_size = sz, mr_fsize = of_nat fsize, mr_node = node,
                                 mr_flags = MMAP_FILE_SHARED, mr_dirty = Some {}\<rparr> m))) = Some (b, m')"
      using t n unfolding task_mmap_file_def Let_def sz_def by simp
    then have w: "whole sz" using ne sz1_whole [OF refl, of "of_nat fsize"] by (auto simp: sz_def split: if_splits)
    from e ne obtain s where a: "mmap_region_alloc (mm_reg m) sz = Some (Some (s, b))"
      "m' = set_region s \<lparr>mr_base = b, mr_size = sz, mr_fsize = of_nat fsize, mr_node = node, mr_flags = MMAP_FILE_SHARED, mr_dirty = Some {}\<rparr> m"
      by (auto split: if_splits option.splits prod.splits)
    show ?thesis unfolding a(2) table_ok_def set_region_def
      using place_ok [OF ok [unfolded table_ok_def] w a(1)] by simp
  qed (use ok in simp)
qed

lemma region_fault_table: "table_ok m \<Longrightarrow> table_ok (snd (region_fault e j va w m))"
proof -
  assume ok: "table_ok m"
  have d: "table_ok (set_region j (set_dirty p (mm_reg m j)) m)" for p
    by (rule table_set_same [OF ok]) (simp_all add: set_dirty_def)
  show ?thesis using ok d by (simp add: region_fault_def Let_def split: prod.split option.split)
qed

lemma fault_table: "table_ok m \<Longrightarrow> table_ok (snd (task_mmap_handle_fault e addr w m))"
  using region_fault_table by (simp add: task_mmap_handle_fault_def split: option.split)

lemma flush_table: "table_ok m \<Longrightarrow> table_ok (snd (mmap_flush_file e j m))"
proof -
  assume ok: "table_ok m"
  have d: "table_ok (set_region j ((mm_reg m j)\<lparr>mr_dirty := x\<rparr>) m)" for x
    by (rule table_set_same [OF ok]) simp_all
  show ?thesis using ok d by (simp add: mmap_flush_file_def Let_def split: option.split prod.split)
qed

lemma msync_table: "table_ok m \<Longrightarrow> table_ok (snd (task_msync e addr m))"
  by (simp add: task_msync_def Let_def case_prod_beta flush_table split: option.split)

lemma munmap_table: "table_ok m \<Longrightarrow> table_ok (snd (task_munmap e addr m))"
proof -
  assume ok: "table_ok m"
  have d: "table_ok (set_region j no_region x)" if "table_ok x" for j x
    using regions_ok_drop [of "mm_reg x" no_region j] that by (simp add: table_ok_def set_region_def no_region_def)
  show ?thesis using ok flush_table [OF ok] d by (simp add: task_munmap_def Let_def split: option.split)
qed

lemma fb_map_table: "table_ok m \<Longrightarrow> task_fb_map e fb p a al m = Some (i, m') \<Longrightarrow> table_ok m'"
proof -
  assume ok: "table_ok m" and t: "task_fb_map e fb p a al m = Some (i, m')"
  define sz where "sz = round_page (fb_pitch fb * fb_height fb)"
  show "table_ok m'"
  proof (cases "m' = m")
    case ne: False
    have g: "\<not> sz > MMAP_END - MMAP_BASE" "sz \<noteq> 0"
      using t ne by (auto simp: task_fb_map_def Let_def sz_def split: if_splits)
    have "fb_pitch fb * fb_height fb \<noteq> 0" using g(2) by (auto simp: sz_def round_page_def)
    then have w: "whole sz" using whole_round g unfolding sz_def by blast
    obtain s b where a: "mmap_region_alloc (mm_reg m) sz = Some (Some (s, b))"
      using t ne by (auto simp: task_fb_map_def Let_def sz_def [symmetric] split: if_splits option.splits prod.splits)
    have P: "table_ok (set_region s r x)" if "mm_reg x = mm_reg m" "mr_base r = b \<and> mr_size r = sz \<or> mr_base r = 0" for r x
      using that(2) place_ok [OF ok [unfolded table_ok_def] w a, of r] regions_ok_drop [OF ok [unfolded table_ok_def], of r s]
      by (auto simp: that(1) table_ok_def set_region_def)
    show ?thesis
      using t ne a unfolding task_fb_map_def Let_def sz_def [symmetric]
      by (auto split: if_splits prod.splits intro!: P)
  qed (use ok in simp)
qed

lemma fb_release_table: "table_ok m \<Longrightarrow> table_ok (snd (task_fb_release e m))"
proof -
  assume ok: "table_ok m"
  have d: "table_ok (set_region j r x)" if "table_ok x" "mr_base r = 0" for j r x
    using regions_ok_drop [of "mm_reg x" r j] that by (simp add: table_ok_def set_region_def)
  show ?thesis using ok d by (simp add: task_fb_release_def Let_def split: option.split)
qed

lemma reset_table: "table_ok (mmap_reset m)"
  unfolding table_ok_def regions_ok_def mmap_reset_def by (simp add: region_ok_def)

end
