(* ===== verification/Fault.thy ===== *)
theory Fault
  imports Mmap_Regions
begin

text \<open>
  The page fault handler of \<open>src/sys/idt.c\<close>: copy on write, demand zero pages for heap and
  stack, the stale translation guard, and the order in which they are tried.

  A copy on write fault has two parts: the speculative frame is taken outside \<open>vmm_lock\<close>, the
  rest runs under it. They are separate definitions, so that two processors can interleave
  between them; \<open>invlpg\<close> and the log are left out.
\<close>

section \<open>Copy on write\<close>

datatype cow_result = CowDone | CowOom

definition cow_private :: "u64 \<Rightarrow> nat \<Rightarrow> u64" where
  "cow_private cur p = (cur AND NOT PTE_ADDR_MASK AND NOT PAGE_COW) OR PAGE_RW OR of_nat p"

text \<open>Under the lock: \<open>t\<close>, \<open>i\<close> are the table and the index found by the walk, \<open>new\<close> the
  speculative frame (0: none).\<close>

definition cow_resolve :: "nat \<Rightarrow> nat \<Rightarrow> nat \<Rightarrow> nat \<Rightarrow> vmm \<Rightarrow> cow_result \<times> vmm" where
  "cow_resolve cid t i new v =
     (let cur = rd v t i; old = entry_paddr cur;
          drop = (\<lambda>v. if new \<noteq> 0 then phys_free cid new v else v)
      in if \<not> has cur PAGE_COW then (CowDone, drop v)
         else if fr_refs (vm_fr v) (old div 4096) = 1 then (CowDone, drop (set_entry t i (cow_private cur old) v))
         else if new = 0 then (CowOom, v)
         else (CowDone, phys_free cid old
                (set_entry t i (cow_private cur new) (set_frame (new div 4096) (rd v (old div 4096)) v))))"

text \<open>A fault on a present copy on write entry, on one processor; \<open>None\<close>: the entry is not one.\<close>

definition cow_fault :: "nat \<Rightarrow> nat \<Rightarrow> u32 \<Rightarrow> vmm \<Rightarrow> (cow_result \<times> vmm) option" where
  "cow_fault cid d va v =
     (case pt_of v d (pdpt_index va) (pd_index va) of
        None \<Rightarrow> None
      | Some t \<Rightarrow>
          (let e = rd v t (pt_index va)
           in if present e \<and> has e PAGE_COW then
                (let (new, v1) = phys_alloc cid v in Some (cow_resolve cid t (pt_index va) new v1))
              else None))"

section \<open>Demand zero pages\<close>

definition demand_map_zero :: "nat \<Rightarrow> nat \<Rightarrow> u32 \<Rightarrow> bool \<Rightarrow> vmm \<Rightarrow> fault_result \<times> vmm" where
  "demand_map_zero cid d addr write v =
     (if write then
        (let (p, v1) = phys_alloc cid v
         in if p = 0 then (Pass, v1)
            else memset_va d addr (snd (vmm_map_page cid d addr (of_nat p) (PAGE_PRESENT OR PAGE_RW OR PAGE_USER OR nx_flag v1) v1)))
      else
        (let p = phys_get_zero_page (vm_fr v)
         in if p = 0 then (Pass, v)
            else (Resume, snd (vmm_map_page cid d addr (of_nat p) (PAGE_PRESENT OR PAGE_USER OR PAGE_COW OR nx_flag v) v))))"

section \<open>The handler\<close>

definition STACK_TOP :: u32 where
  "STACK_TOP = 0x1F000000"

definition STACK_SIZE :: u32 where
  "STACK_SIZE = 0x10000"

definition stack_top :: "int \<Rightarrow> u32" where
  "stack_top tid = STACK_TOP - (of_int tid + 1) * STACK_SIZE"

datatype pf_outcome = Resumed | GuardPanic | Unhandled | KernelPanic

record fault =
  pf_addr :: u32
  pf_user :: bool
  pf_write :: bool
  pf_fetch :: bool
  pf_guard :: bool

text \<open>The data fault paths in the order of the code; \<open>KernelPanic\<close> is a fault of the handler
  itself on a page it failed to map. Heap and stack are tried in turn when the paths before
  them pass.\<close>

definition stack_fault :: "mmap_env \<Rightarrow> fault \<Rightarrow> mstate \<Rightarrow> pf_outcome \<times> mstate" where
  "stack_fault e f m =
     (let top = stack_top (me_tid e)
      in if pf_user f \<and> pf_addr f \<ge> top - STACK_SIZE \<and> pf_addr f < top then
           (let (r, v) = demand_map_zero (me_cid e) (mm_dir m) (pf_addr f) (pf_write f) (mm_vm m); m1 = m\<lparr>mm_vm := v\<rparr>
            in case r of Resume \<Rightarrow> (Resumed, m1) | Pass \<Rightarrow> (Unhandled, m1) | KernelFault \<Rightarrow> (KernelPanic, m1))
         else (Unhandled, m))"

definition heap_fault :: "mmap_env \<Rightarrow> fault \<Rightarrow> mstate \<Rightarrow> pf_outcome \<times> mstate" where
  "heap_fault e f m =
     (if pf_user f \<and> pf_addr f \<ge> 0x08000000 \<and> pf_addr f < 0x20000000 \<and> pf_addr f < me_heap e then
        (let (r, v) = demand_map_zero (me_cid e) (mm_dir m) (pf_addr f) (pf_write f) (mm_vm m); m1 = m\<lparr>mm_vm := v\<rparr>
         in case r of Resume \<Rightarrow> (Resumed, m1) | Pass \<Rightarrow> stack_fault e f m1 | KernelFault \<Rightarrow> (KernelPanic, m1))
      else stack_fault e f m)"

definition mmap_fault :: "mmap_env \<Rightarrow> fault \<Rightarrow> mstate \<Rightarrow> pf_outcome \<times> mstate" where
  "mmap_fault e f m =
     (if pf_user f \<and> pf_addr f \<ge> MMAP_BASE \<and> pf_addr f < MMAP_END then
        (let (r, m1) = task_mmap_handle_fault e (pf_addr f) (pf_write f) m
         in case r of Resume \<Rightarrow> (Resumed, m1) | Pass \<Rightarrow> heap_fault e f m1 | KernelFault \<Rightarrow> (KernelPanic, m1))
      else heap_fault e f m)"

definition stale_tlb :: "fault \<Rightarrow> u64 \<Rightarrow> bool" where
  "stale_tlb f pte \<longleftrightarrow> pf_user f \<and> pf_write f \<and> present pte \<and> has pte PAGE_RW \<and> has pte PAGE_USER"

definition data_fault :: "mmap_env \<Rightarrow> fault \<Rightarrow> mstate \<Rightarrow> pf_outcome \<times> mstate" where
  "data_fault e f m =
     (case cow_fault (me_cid e) (mm_dir m) (pf_addr f) (mm_vm m) of
        Some (CowDone, v) \<Rightarrow> (Resumed, m\<lparr>mm_vm := v\<rparr>)
      | Some (CowOom, v) \<Rightarrow>
          (let m1 = m\<lparr>mm_vm := v\<rparr>
           in if stale_tlb f (pte_at v (mm_dir m) (pf_addr f)) then (Resumed, m1) else mmap_fault e f m1)
      | None \<Rightarrow> if stale_tlb f (pte_at (mm_vm m) (mm_dir m) (pf_addr f)) then (Resumed, m) else mmap_fault e f m)"

definition page_fault :: "mmap_env \<Rightarrow> fault \<Rightarrow> mstate \<Rightarrow> pf_outcome \<times> mstate" where
  "page_fault e f m =
     (if pf_guard f then (GuardPanic, m)
      else if pf_fetch f then (Unhandled, m)
      else data_fault e f m)"

section \<open>Entries\<close>

lemma cow_private_has [simp]:
  assumes "p mod 4096 = 0" and "p < 2 ^ 32"
  shows "has (cow_private e p) PAGE_PRESENT = has e PAGE_PRESENT" "has (cow_private e p) PAGE_USER = has e PAGE_USER"
    "has (cow_private e p) PAGE_RW" "\<not> has (cow_private e p) PAGE_COW" "has (cow_private e p) PAGE_DEV = has e PAGE_DEV"
    "has (cow_private e p) PAGE_NX = has e PAGE_NX" "has (cow_private e p) PAGE_SHARED = has e PAGE_SHARED"
    "entry_frame (cow_private e p) = p div 4096"
proof -
  have b: "bit (of_nat p :: u64) n \<longleftrightarrow> n < 64 \<and> bit p n" for n by (auto simp: bit_simps)
  have l: "\<not> bit p n" if "n < 12 \<or> 32 \<le> n" for n using frame_bits [OF assms, of n] that by auto
  show "has (cow_private e p) PAGE_PRESENT = has e PAGE_PRESENT" "has (cow_private e p) PAGE_USER = has e PAGE_USER"
    "has (cow_private e p) PAGE_RW" "\<not> has (cow_private e p) PAGE_COW" "has (cow_private e p) PAGE_DEV = has e PAGE_DEV"
    "has (cow_private e p) PAGE_NX = has e PAGE_NX" "has (cow_private e p) PAGE_SHARED = has e PAGE_SHARED"
    using l by (auto simp: cow_private_def pte_simps bit_and_iff bit_or_iff bit_not_iff b)
  have "entry_frame (cow_private e p) = entry_frame (of_nat p OR 0)"
    by (rule entry_frame_cong) (use b in \<open>auto simp: cow_private_def pte_simps bit_and_iff bit_or_iff bit_not_iff\<close>)
  also have "\<dots> = p div 4096" by (rule entry_paddr_of(2) [OF assms]) simp
  finally show "entry_frame (cow_private e p) = p div 4096" .
qed

lemma entry_paddr_bounds: "entry_paddr e mod 4096 = 0" "entry_paddr e < 2 ^ 32" "entry_paddr e div 4096 = entry_frame e"
  using entry_frame_bound [of e] by (simp_all add: entry_paddr_frame)

text \<open>The account does not see frames below the reservation.\<close>

lemma vm_ok_low:
  assumes ok: "vm_ok v D E" and f: "f < fr_reserved (vm_fr v)"
  shows "vm_ok v D (add_mset f E)"
proof (rule vm_ok_transfer [OF ok same_boot_refl vm_okD(1) [OF ok]])
  note D = vm_okD [OF ok]
  show "acct (vm_fr v) (vrefs v D + add_mset f E)" using D(4) f by (simp add: acct_def)
  show "sole v (vrefs v D + add_mset f E) t" if "p \<in> tposs D" "tab_at v p = Some t" for p t
    using D(5) [OF that] f by (auto simp: sole_def)
qed

lemma free_mapped:
  assumes ok: "vm_ok v D (E + (if fr_reserved (vm_fr v) \<le> f then {#f#} else {#}))" and cid: "cid < MAX_CORES"
  shows "vm_ok (phys_free cid (f * 4096) v) D E"
proof (cases "fr_reserved (vm_fr v) \<le> f")
  case True
  then show ?thesis using ok free_step(1) [of v D f E, OF _ cid] by simp
next
  case False
  then have "vm_ok v D (add_mset f E)" using vm_ok_low [of v D E f] ok by simp
  then show ?thesis by (rule free_step(1) [OF _ cid])
qed

end
