(* ===== verification/Fault_Cow.thy ===== *)
theory Fault_Cow
  imports Fault
begin

text \<open>
  Copy on write keeps spaces apart: whoever resolves the fault ends with a writable page of its
  own that holds the shared bytes, every other translation and every page anybody holds is
  unchanged, and two processors that fault on the same entry do not lose each other's page.
\<close>

section \<open>Resolving\<close>

definition cow_entry :: "u64 \<Rightarrow> bool" where
  "cow_entry e \<longleftrightarrow> present e \<and> has e PAGE_COW \<and> has e PAGE_USER \<and> \<not> has e PAGE_DEV"

text \<open>What the faulting space sees afterwards.\<close>

definition cow_done :: "vmm \<Rightarrow> nat set \<Rightarrow> nat multiset \<Rightarrow> nat \<Rightarrow> u32 \<Rightarrow> vmm \<Rightarrow> bool" where
  "cow_done v D E d va w \<longleftrightarrow>
     (let e = pte_at v d va; e' = pte_at w d va; f = entry_frame e'
      in sets_pte v D d va e' w \<and> present e' \<and> has e' PAGE_RW \<and> \<not> has e' PAGE_COW \<and> has e' PAGE_USER \<and> has e' PAGE_NX = has e PAGE_NX \<and> has e' PAGE_DEV = has e PAGE_DEV
         \<and> rd w f = rd v (entry_frame e)
         \<and> (fr_reserved (vm_fr v) \<le> f \<and> f < fr_total (vm_fr v) \<and> fr_refs (vm_fr w) f < FRAME_PINNED \<longrightarrow> count (vrefs w D + E) f = 1))"

definition data_still :: "vmm \<Rightarrow> nat set \<Rightarrow> nat multiset \<Rightarrow> vmm \<Rightarrow> bool" where
  "data_still v D M w \<longleftrightarrow> (\<forall>x. x \<in># M \<and> \<not> is_table v D x \<longrightarrow> rd w x = rd v x \<and> \<not> is_table w D x)"

lemma write_pte_same:
  assumes ok: "vm_ok v D E" and d: "d \<in> D" and t: "pt_of v d (pdpt_index va) (pd_index va) = Some t"
    and r: "ref_at v va e = ref_at v va (pte_at v d va)" and w: "w = set_entry t (pt_index va) e v"
  shows "vm_ok w D E" "same_boot v w" "sets_pte v D d va e w" "vrefs w D = vrefs v D" "data_still v D (vrefs v D + E) w"
proof -
  have l: "(d, pdpt_index va, pd_index va, pt_index va) \<in> leafs D" using d by simp
  have r': "pte_ref v (pdpt_index va) (pd_index va) (pt_index va) e = leaf_ref v (d, pdpt_index va, pd_index va, pt_index va)"
    using r by (simp add: ref_at_def pte_at_def)
  note W = pt_write_same [OF ok l t r' w]
  show "vm_ok w D E" "same_boot v w" "vrefs w D = vrefs v D" by (fact W)+
  show "sets_pte v D d va e w"
    unfolding sets_pte_def
  proof (intro conjI ballI allI impI)
    show "pte_at w d va = e" using W(5) [OF l] by (simp add: pte_at_def)
    fix d' va' assume d': "d' \<in> D" and ne: "(d', page_of va') \<noteq> (d, page_of va)"
    have "(d', pdpt_index va', pd_index va', pt_index va') \<noteq> (d, pdpt_index va, pd_index va, pt_index va)"
      using ne index_inj by blast
    then show "pte_at w d' va' = pte_at v d' va'"
      using W(5) [of d' "pdpt_index va'" "pd_index va'" "pt_index va'"] d' by (auto simp: pte_at_def)
  qed
  show "data_still v D (vrefs v D + E) w" using W(6) by (simp add: data_still_def data_kept_def)
qed

lemma ref_cow:
  assumes bo: "boot_ok v" and e: "present e" "has e PAGE_USER" "\<not> has e PAGE_DEV"
  shows "ref_at v va e = (if fr_reserved (vm_fr v) \<le> entry_frame e then {#entry_frame e#} else {#})"
proof (cases "fr_reserved (vm_fr v) \<le> entry_frame e")
  case True
  then show ?thesis using ref_user [OF bo True refl e] by simp
next
  case False
  then show ?thesis by (simp add: ref_at_def pte_ref_def freeable_def entry_paddr_frame)
qed

lemma ref_mapped:
  assumes "vm_ok v D E" and "d \<in> D"
  shows "ref_at v va (pte_at v d va) \<subseteq># vrefs v D"
proof -
  have l: "(d, pdpt_index va, pd_index va, pt_index va) \<in> leafs D" using assms(2) by simp
  have "leaf_ref v (d, pdpt_index va, pd_index va, pt_index va) \<subseteq># (\<Sum>l\<in>leafs D. leaf_ref v l)"
    using l vm_okD(1) [OF assms(1)] by (subst sum.remove [of _ "(d, pdpt_index va, pd_index va, pt_index va)"]) simp_all
  then have "leaf_ref v (d, pdpt_index va, pd_index va, pt_index va) \<subseteq># vrefs v D"
    unfolding vrefs_def by (simp add: subset_mset.add_increasing)
  then show ?thesis by (simp add: ref_at_def pte_at_def)
qed

text \<open>The speculative frame, while its processor holds it.\<close>

definition spec :: "nat \<Rightarrow> nat multiset" where
  "spec new = (if new = 0 then {#} else {#new div 4096#})"

definition spec_ok :: "vmm \<Rightarrow> nat set \<Rightarrow> nat multiset \<Rightarrow> nat \<Rightarrow> bool" where
  "spec_ok v D E new \<longleftrightarrow> vm_ok v D (E + spec new)
     \<and> (new \<noteq> 0 \<longrightarrow> new mod 4096 = 0 \<and> new < 2 ^ 32 \<and> sole v (vrefs v D + (E + spec new)) (new div 4096))"

lemma drop_spec:
  assumes "spec_ok v D E new" and "cid < MAX_CORES" and ok: "vm_ok w D (E + spec new)"
  shows "vm_ok (if new \<noteq> 0 then phys_free cid new w else w) D E" "rd (if new \<noteq> 0 then phys_free cid new w else w) = rd w"
    "same_boot w (if new \<noteq> 0 then phys_free cid new w else w)" "vrefs (if new \<noteq> 0 then phys_free cid new w else w) D = vrefs w D"
proof -
  have "vm_ok (phys_free cid new w) D E \<and> same_boot w (phys_free cid new w) \<and> vrefs (phys_free cid new w) D = vrefs w D" if n: "new \<noteq> 0"
  proof -
    have nn: "new div 4096 * 4096 = new" using assms(1) n by (auto simp: spec_ok_def)
    have o: "vm_ok w D (add_mset (new div 4096) E)" using ok n by (simp add: spec_def)
    note F = free_step(1,2) [OF o assms(2)] and V = free_step(5) [OF o assms(2)]
    show ?thesis using F V by (simp only: nn)
  qed
  then show "vm_ok (if new \<noteq> 0 then phys_free cid new w else w) D E" "same_boot w (if new \<noteq> 0 then phys_free cid new w else w)"
    "vrefs (if new \<noteq> 0 then phys_free cid new w else w) D = vrefs w D" using ok by (auto simp: spec_def)
  show "rd (if new \<noteq> 0 then phys_free cid new w else w) = rd w" by (simp add: phys_free_def)
qed

lemma sets_pte_rd: "sets_pte v D d va e u \<Longrightarrow> rd w = rd u \<Longrightarrow> sets_pte v D d va e w"
  using views_rd(1) [of w u] by (simp add: sets_pte_def)

lemma data_still_rd:
  assumes "data_still v D M u" and "rd w = rd u"
  shows "data_still v D M w"
  using assms views_rd(2) [OF assms(2)] by (simp add: data_still_def is_table_def)

lemma cow_promote:
  assumes sp: "spec_ok v D E new" and cid: "cid < MAX_CORES" and d: "d \<in> D"
    and t: "pt_of v d (pdpt_index va) (pd_index va) = Some t" and e: "cow_entry (rd v t (pt_index va))"
    and one: "fr_refs (vm_fr v) (entry_frame (rd v t (pt_index va))) = 1" and r: "cow_resolve cid t (pt_index va) new v = (res, w)"
  shows "res = CowDone \<and> vm_ok w D E \<and> same_boot v w \<and> cow_done v D E d va w \<and> data_still v D (vrefs v D + E) w
    \<and> pins_kept (vm_fr v) (vm_fr w) \<and> (\<forall>x. x \<in># vrefs w D \<longrightarrow> x \<in># vrefs v D \<or> x \<in># spec new)"
proof -
  define c where "c = rd v t (pt_index va)"
  define e' where "e' = cow_private c (entry_paddr c)"
  define u where "u = set_entry t (pt_index va) e' v"
  have ok: "vm_ok v D (E + spec new)" using sp by (simp add: spec_ok_def)
  note bo = vm_okD(3) [OF ok]
  have ce: "present c" "has c PAGE_COW" "has c PAGE_USER" "\<not> has c PAGE_DEV" using e by (simp_all add: cow_entry_def c_def)
  note P = cow_private_has [OF entry_paddr_bounds(1,2) [of c], of c, folded e'_def, unfolded entry_paddr_bounds(3)]
  have pc: "pte_at v d va = c" using t by (simp add: pte_at_def pte_of_def c_def)
  have re: "ref_at v va e' = ref_at v va (pte_at v d va)"
    unfolding pc using ref_cow [OF bo, of c va] ref_cow [OF bo, of e' va] ce P by simp
  note W = write_pte_same [OF ok d t re u_def]
  define w' where "w' = (if new \<noteq> 0 then phys_free cid new u else u)"
  have rw: "res = CowDone" "w = w'" using r ce one unfolding cow_resolve_def w'_def u_def e'_def c_def
    by (auto simp: Let_def entry_paddr_bounds(3))
  note S = drop_spec [OF sp cid W(1), folded w'_def]
  have pw: "pte_at w' d va = e'" using sets_pte_rd [OF W(3) S(2)] by (simp add: sets_pte_def)
  have fe: "entry_frame e' = entry_frame c" by (simp add: P)
  have cnt: "count (vrefs w' D + E) (entry_frame e') = 1"
    if g: "fr_reserved (vm_fr v) \<le> entry_frame e'" "entry_frame e' < fr_total (vm_fr v)"
  proof -
    have "entry_frame c \<in># ref_at v va (pte_at v d va)" unfolding pc using ref_cow [OF bo ce(1,3,4)] g fe by simp
    then have m: "entry_frame c \<in># vrefs v D" using ref_mapped [OF ok d] by (meson mset_subset_eqD)
    then have m2: "entry_frame c \<in># vrefs v D + (E + spec new)" by simp
    have "fr_refs (vm_fr v) (entry_frame c) = count (vrefs v D + (E + spec new)) (entry_frame c)"
      by (rule acct_refs [OF vm_okD(4) [OF ok] _ _ _ m2]) (use g fe one c_def in \<open>simp_all add: FRAME_PINNED_def\<close>)
    then have "count (vrefs v D) (entry_frame c) + (count E (entry_frame c) + count (spec new) (entry_frame c)) = 1"
      using one c_def by simp
    moreover have "1 \<le> count (vrefs v D) (entry_frame c)" using m by (metis One_nat_def Suc_leI count_greater_zero_iff)
    ultimately have "count (vrefs v D) (entry_frame c) + count E (entry_frame c) = 1" by linarith
    then have "count (vrefs v D + E) (entry_frame c) = 1" by (simp only: count_union)
    then show ?thesis using S(4) W(4) fe by simp
  qed
  have "rd w' (entry_frame e') = rd v (entry_frame c)" 
  proof (cases "t = entry_frame c")
    case True
    have "fr_reserved (vm_fr v) \<le> entry_frame c" using table_range(1) [OF ok, of "Tab d (pdpt_index va) (pd_index va)" t] t d True by simp
    then have "entry_frame c \<in># leaf_ref v (d, pdpt_index va, pd_index va, pt_index va)"
      using ref_cow [OF bo ce(1,3,4), of va] pc by (simp add: ref_at_def pte_at_def)
    moreover have "entry_frame c \<notin># leaf_ref v (d, pdpt_index va, pd_index va, pt_index va)"
      using table_unique(2) [OF ok, of "Tab d (pdpt_index va) (pd_index va)" t "(d, pdpt_index va, pd_index va, pt_index va)"] t d True by simp
    ultimately show ?thesis by blast
  qed (use S(2) fe in \<open>simp add: u_def fun_eq_iff\<close>)
  then have "cow_done v D E d va w'"
    using sets_pte_rd [OF W(3) S(2)] P(1-6) ce cnt by (simp add: cow_done_def pw pc)
  moreover have "data_still v D (vrefs v D + E) w'" using data_still_rd [OF W(5) S(2)] unfolding data_still_def by auto
  moreover have "pins_kept (vm_fr v) (vm_fr w')" using frame_free_pins [of "vm_fr v" cid new] by (simp add: w'_def u_def phys_free_def)
  moreover have "x \<in># vrefs w' D \<longrightarrow> x \<in># vrefs v D" for x using S(4) W(4) by simp
  ultimately show ?thesis using rw S(1) same_boot_trans [OF W(2) S(3)] by blast
qed

lemma cow_duplicate:
  assumes sp: "spec_ok v D E new" and cid: "cid < MAX_CORES" and d: "d \<in> D"
    and t: "pt_of v d (pdpt_index va) (pd_index va) = Some t" and e: "cow_entry (rd v t (pt_index va))" and new: "new \<noteq> 0"
    and one: "fr_refs (vm_fr v) (entry_frame (rd v t (pt_index va))) \<noteq> 1" and r: "cow_resolve cid t (pt_index va) new v = (res, w)"
  shows "res = CowDone \<and> vm_ok w D E \<and> same_boot v w \<and> cow_done v D E d va w \<and> data_still v D (vrefs v D + E) w
    \<and> pins_kept (vm_fr v) (vm_fr w) \<and> (\<forall>x. x \<in># vrefs w D \<longrightarrow> x \<in># vrefs v D \<or> x \<in># spec new)"
proof -
  define c where "c = rd v t (pt_index va)"
  define n where "n = new div 4096"
  define e' where "e' = cow_private c new"
  define f where "f = entry_frame c"
  define v1 where "v1 = set_frame n (rd v f) v"
  define u where "u = set_entry t (pt_index va) e' v1"
  have nn: "new mod 4096 = 0" "new < 2 ^ 32" and so: "sole v (vrefs v D + (E + {#n#})) n" and ok: "vm_ok v D (E + {#n#})"
    using sp new by (simp_all add: spec_ok_def spec_def n_def)
  note bo = vm_okD(3) [OF ok]
  have ce: "present c" "has c PAGE_COW" "has c PAGE_USER" "\<not> has c PAGE_DEV" using e by (simp_all add: cow_entry_def c_def)
  note P = cow_private_has [OF nn, of c, folded e'_def n_def]
  have pc: "pte_at v d va = c" using t by (simp add: pte_at_def pte_of_def c_def)
  have nr: "fr_reserved (vm_fr v) \<le> n" "n < fr_total (vm_fr v)" and nv: "n \<notin># vrefs v D" "n \<notin># E"
    using so by (simp_all add: sole_def not_in_iff)
  have fl: "ref_at v va (pte_at v d va) = (if fr_reserved (vm_fr v) \<le> f then {#f#} else {#})"
    unfolding pc f_def by (rule ref_cow [OF bo ce(1,3,4)])
  have fn: "f \<noteq> n"
  proof
    assume "f = n"
    then have "n \<in># ref_at v va (pte_at v d va)" using fl nr by simp
    then show False using ref_mapped [OF ok d] nv(1) by (meson mset_subset_eqD)
  qed
  have ok': "vm_ok v D (add_mset n E)" using ok by simp
  note F = fill_step [OF ok' nr(1), where c = "rd v f", folded v1_def]
  have Tab: "Tab d (pdpt_index va) (pd_index va) \<in> tposs D" using d by simp
  have tn: "t \<noteq> n" using table_unique(3) [OF ok Tab] t by auto
  have t1: "pt_of v1 d (pdpt_index va) (pd_index va) = Some t" using F(4) [OF Tab] t by simp
  have r1: "ref_at v1 va x = ref_at v va x" for x by (rule ref_at_same [OF F(2) bo])
  have re: "ref_at v1 va e' = {#n#}" unfolding r1 using ref_cow [OF bo, of e' va] P ce nr by simp
  have pc1: "pte_at v1 d va = c" using t1 tn by (simp add: pte_at_def pte_of_def c_def v1_def)
  have ok1: "vm_ok v1 D (E + ref_at v1 va e')" unfolding re using F(1) by simp
  note W = write_pte [OF ok1 d t1 u_def]
  have w: "res = CowDone" "w = phys_free cid (f * 4096) u"
    using r ce one new unfolding cow_resolve_def
    by (simp_all add: Let_def c_def [symmetric] e'_def [symmetric] u_def v1_def n_def [symmetric] f_def entry_paddr_frame)
  have fru: "fr_reserved (vm_fr u) = fr_reserved (vm_fr v)" by (simp add: u_def v1_def)
  have "vm_ok u D (E + (if fr_reserved (vm_fr u) \<le> f then {#f#} else {#}))"
    using W(1) fl pc unfolding r1 pc1 fru by simp
  note G = free_mapped [OF this cid, folded w(2)]
  have rw: "rd w = rd u" by (simp add: w phys_free_def)
  have sbu: "same_boot v u" by (rule same_boot_trans [OF F(2) W(2)])
  have sbw: "same_boot u w" using same_boot_pins [OF frame_free_pins [of "vm_fr u" cid "f * 4096"]] by (simp add: w phys_free_def)
  have pt1: "pte_at v1 d' va' = pte_at v d' va'" if "d' \<in> D" for d' va'
  proof -
    have l: "(d', pdpt_index va', pd_index va', pt_index va') \<in> leafs D" using that by simp
    show ?thesis unfolding pte_at_def
      by (rule pte_of_cong [OF _ l]) (use table_unique(3) [OF ok] in \<open>auto simp: v1_def\<close>)
  qed
  have su: "sets_pte v D d va e' u" using W(3) pt1 by (simp add: sets_pte_def)
  note sw = sets_pte_rd [OF su rw]
  have pw: "pte_at w d va = e'" using sw by (simp add: sets_pte_def)
  have vw: "vrefs w D = vrefs u D"
    by (rule vrefs_elsewhere(1) [OF sbw vm_okD(3) [OF W(1)]]) (simp add: rw)
  have l: "(d, pdpt_index va, pd_index va, pt_index va) \<in> leafs D" using d by simp
  have vu: "vrefs u D + ref_at v1 va (pte_at v1 d va) = vrefs v1 D + ref_at v1 va e'"
    using pt_write(5) [OF ok1 l t1, where e = e'] by (simp add: u_def ref_at_def pte_at_def)
  have sub: "x \<in># vrefs v D \<or> x \<in># spec new" if "x \<in># vrefs w D" for x
  proof -
    have "x \<in># vrefs u D + ref_at v1 va (pte_at v1 d va)" using that vw by simp
    then have "x \<in># vrefs v1 D + {#n#}" unfolding vu re .
    then show ?thesis using F(3) new by (auto simp: spec_def n_def)
  qed
  have cnt: "count (vrefs w D + E) n = 1"
  proof -
    from vu have "count (vrefs u D) n + count (ref_at v1 va (pte_at v1 d va)) n = count (vrefs v1 D) n + count {#n#} n"
      unfolding re by (metis count_union)
    moreover have "count (ref_at v1 va (pte_at v1 d va)) n = 0" unfolding r1 pc1 using fl fn pc by simp
    moreover have "count (vrefs v1 D) n = 0" using F(3) nv(1) by (simp add: not_in_iff)
    ultimately show ?thesis using nv(2) vw by (simp add: not_in_iff)
  qed
  have "rd w n = rd v f" using rw tn by (simp add: u_def v1_def fun_eq_iff)
  then have cd: "cow_done v D E d va w"
    using sw P ce cnt by (simp add: cow_done_def pw pc f_def [symmetric])
  have "data_still v D (vrefs v D + E) u"
    unfolding data_still_def
  proof (intro allI impI)
    fix x assume x: "x \<in># vrefs v D + E \<and> \<not> is_table v D x"
    have it: "is_table u D y \<longleftrightarrow> is_table v D y" for y
      unfolding is_table_def using W(5) F(4) by (metis (no_types, lifting))
    have "x \<noteq> n" using x nv by auto
    moreover have "is_table v D t" unfolding is_table_def using Tab t by (intro bexI [of _ "Tab d (pdpt_index va) (pd_index va)"]) simp_all
    then have "x \<noteq> t" using x by auto
    ultimately show "rd u x = rd v x \<and> \<not> is_table u D x" using x it by (simp add: u_def v1_def fun_eq_iff)
  qed
  then have "data_still v D (vrefs v D + E) w" by (rule data_still_rd [OF _ rw])
  moreover have "pins_kept (vm_fr v) (vm_fr w)"
    using frame_free_pins [of "vm_fr u" cid "f * 4096"] by (simp add: w phys_free_def u_def v1_def)
  ultimately show ?thesis using w(1) G cd same_boot_trans [OF sbu sbw] sub by blast
qed

text \<open>The peer was faster: only the speculative frame goes back.\<close>

lemma cow_stale:
  assumes sp: "spec_ok v D E new" and cid: "cid < MAX_CORES"
    and e: "\<not> has (rd v t (pt_index va)) PAGE_COW" and r: "cow_resolve cid t (pt_index va) new v = (res, w)"
  shows "res = CowDone \<and> vm_ok w D E \<and> same_boot v w \<and> rd w = rd v \<and> vrefs w D = vrefs v D"
proof -
  have "vm_ok v D (E + spec new)" using sp by (simp add: spec_ok_def)
  note S = drop_spec [OF sp cid this]
  have "res = CowDone" "w = (if new \<noteq> 0 then phys_free cid new v else v)" using r e by (simp_all add: cow_resolve_def Let_def)
  then show ?thesis using S by simp
qed


section \<open>The fault\<close>

lemma cow_resolve_ok:
  assumes sp: "spec_ok v D E new" and cid: "cid < MAX_CORES" and d: "d \<in> D"
    and t: "pt_of v d (pdpt_index va) (pd_index va) = Some t" and e: "cow_entry (rd v t (pt_index va))"
    and r: "cow_resolve cid t (pt_index va) new v = (CowDone, w)"
  shows "vm_ok w D E \<and> same_boot v w \<and> cow_done v D E d va w \<and> data_still v D (vrefs v D + E) w
    \<and> pins_kept (vm_fr v) (vm_fr w) \<and> (\<forall>x. x \<in># vrefs w D \<longrightarrow> x \<in># vrefs v D \<or> x \<in># spec new)"
proof (cases "fr_refs (vm_fr v) (entry_frame (rd v t (pt_index va))) = 1")
  case True
  then show ?thesis using cow_promote [OF sp cid d t e _ r] by simp
next
  case False
  have "new \<noteq> 0"
  proof
    assume "new = 0"
    then show False using r e False by (simp add: cow_resolve_def Let_def cow_entry_def entry_paddr_bounds(3))
  qed
  then show ?thesis using cow_duplicate [OF sp cid d t e _ False r] by simp
qed

lemma spec_alloc:
  assumes ok: "vm_ok v D E" and cid: "cid < MAX_CORES" and a: "phys_alloc cid v = (p, u)"
  shows "spec_ok u D E p" "same_boot v u" "rd u = rd v" "vrefs u D = vrefs v D"
proof -
  note A = alloc_step [OF ok cid a]
  show "same_boot v u" "rd u = rd v" using A(1,2) by auto
  have u: "u = v\<lparr>vm_fr := vm_fr u\<rparr>" using phys_alloc_rd [OF a] by blast
  show "vrefs u D = vrefs v D" using vrefs_fr [OF vm_okD(3) [OF ok]] A(1) u by metis
  show "spec_ok u D E p"
  proof (cases "p = 0")
    case True
    then show ?thesis using A(4) by (simp add: spec_ok_def spec_def)
  next
    case False
    from A(5) [OF this] obtain f where "p = f * 4096" "f < 2 ^ 20" "vm_ok u D (add_mset f E)" "sole u (vrefs u D + add_mset f E) f" by blast
    then show ?thesis using False by (simp add: spec_ok_def spec_def)
  qed
qed

lemma cow_done_base:
  assumes "cow_done u D E d va w" and "rd u = rd v" and "same_boot v u"
  shows "cow_done v D E d va w"
  using assms views_rd(1) [OF assms(2)] by (simp add: cow_done_def sets_pte_def same_boot_def)

lemma cow_fault_ok:
  assumes ok: "vm_ok v D E" and cid: "cid < MAX_CORES" and d: "d \<in> D" and e: "cow_entry (pte_at v d va)"
    and c: "cow_fault cid d va v = Some (CowDone, w)"
  shows "vm_ok w D E" "same_boot v w" "cow_done v D E d va w" "data_still v D (vrefs v D + E) w"
proof -
  obtain t where t: "pt_of v d (pdpt_index va) (pd_index va) = Some t"
    using c by (auto simp: cow_fault_def split: option.splits)
  have pe: "rd v t (pt_index va) = pte_at v d va" using t by (simp add: pte_at_def pte_of_def)
  obtain p u where a: "phys_alloc cid v = (p, u)" by fastforce
  note A = spec_alloc [OF ok cid a]
  have r: "cow_resolve cid t (pt_index va) p u = (CowDone, w)" using c t pe e a by (simp add: cow_fault_def cow_entry_def Let_def)
  have tu: "pt_of u d (pdpt_index va) (pd_index va) = Some t" using views_rd(2) [OF A(3), of "Tab _ _ _"] t by simp
  have eu: "cow_entry (rd u t (pt_index va))" using A(3) pe e by simp
  note R = cow_resolve_ok [OF A(1) cid d tu eu r]
  show "vm_ok w D E" using R by blast
  show "same_boot v w" using R same_boot_trans [OF A(2)] by blast
  show "cow_done v D E d va w" using R cow_done_base [OF _ A(3,2)] by blast
  have "data_still u D (vrefs u D + E) w" using R by blast
  then show "data_still v D (vrefs v D + E) w"
    using A(3,4) views_rd(2) [OF A(3)] by (simp add: data_still_def is_table_def)
qed

text \<open>Out of frames: nothing has changed, and the entry is still shared.\<close>

lemma cow_oom:
  assumes ok: "vm_ok v D E" and cid: "cid < MAX_CORES" and c: "cow_fault cid d va v = Some (CowOom, w)"
  shows "vm_ok w D E \<and> same_boot v w \<and> rd w = rd v \<and> vrefs w D = vrefs v D"
proof -
  obtain t where t: "pt_of v d (pdpt_index va) (pd_index va) = Some t" "present (rd v t (pt_index va)) \<and> has (rd v t (pt_index va)) PAGE_COW"
    using c by (auto simp: cow_fault_def Let_def split: option.splits if_splits)
  obtain p u where a: "phys_alloc cid v = (p, u)" by fastforce
  note A = spec_alloc [OF ok cid a]
  have r: "cow_resolve cid t (pt_index va) p u = (CowOom, w)" using c t a by (simp add: cow_fault_def Let_def)
  have "p = 0 \<and> w = u"
    using r by (auto simp: cow_resolve_def Let_def split: if_splits)
  then show ?thesis using A by (simp add: spec_ok_def spec_def)
qed

section \<open>Two processors on one entry\<close>

text \<open>Both took their frame before either got the lock; the one that comes second finds the
  entry private already and gives its frame back.\<close>

lemma cow_race:
  assumes ok: "vm_ok v D E" and cid: "c1 < MAX_CORES" "c2 < MAX_CORES" and d: "d \<in> D" and e: "cow_entry (pte_at v d va)"
    and t: "pt_of v d (pdpt_index va) (pd_index va) = Some t"
    and a1: "phys_alloc c1 v = (n1, v1)" and a2: "phys_alloc c2 v1 = (n2, v2)"
    and r1: "cow_resolve c1 t (pt_index va) n1 v2 = (CowDone, v3)" and r2: "cow_resolve c2 t (pt_index va) n2 v3 = (res, w)"
  shows "res = CowDone \<and> vm_ok w D E \<and> same_boot v w \<and> cow_done v D E d va w \<and> data_still v D (vrefs v D + E) w"
proof -
  note A1 = spec_alloc [OF ok cid(1) a1]
  have ok1: "vm_ok v1 D (E + spec n1)" using A1(1) by (simp add: spec_ok_def)
  note A2 = spec_alloc [OF ok1 cid(2) a2]
  have rd2: "rd v2 = rd v" using A1(3) A2(3) by simp
  have sb2: "same_boot v v2" by (rule same_boot_trans [OF A1(2) A2(2)])
  note vw = views_rd [OF rd2]
  have t2: "pt_of v2 d (pdpt_index va) (pd_index va) = Some t" using vw(2) [of "Tab _ _ _"] t by simp
  have e2: "cow_entry (rd v2 t (pt_index va))" using e t rd2 by (simp add: pte_at_def pte_of_def)
  have s1: "spec_ok v2 D (E + spec n2) n1"
  proof -
    have "sole v2 (vrefs v2 D + (E + spec n2 + spec n1)) (n1 div 4096)" if n: "n1 \<noteq> 0"
    proof -
      have so: "sole v1 (vrefs v1 D + (E + spec n1)) (n1 div 4096)" using A1(1) n by (simp add: spec_ok_def)
      have "count (spec n2) (n1 div 4096) = 0"
      proof (cases "n2 = 0")
        case False
        then have "sole v2 (vrefs v2 D + (E + spec n1 + spec n2)) (n2 div 4096)" using A2(1) by (simp add: spec_ok_def)
        then have "n2 div 4096 \<noteq> n1 div 4096" using n False by (auto simp: sole_def spec_def)
        then show ?thesis using False by (simp add: spec_def)
      qed (simp add: spec_def)
      moreover have "pins_kept (vm_fr v1) (vm_fr v2)"
        using frame_alloc_pins [OF acct_ok [OF vm_okD(4) [OF ok1]] cid(2)] phys_alloc_rd [OF a2] by blast
      ultimately show ?thesis using so A2(4) by (simp add: sole_def pins_kept_def)
    qed
    then show ?thesis using A1(1) A2(1) by (simp add: spec_ok_def ac_simps)
  qed
  note R = cow_resolve_ok [OF s1 cid(1) d t2 e2 r1]
  have ok3: "vm_ok v3 D (E + spec n2)" and sb3: "same_boot v2 v3" and cd: "cow_done v2 D (E + spec n2) d va v3"
    and ds: "data_still v2 D (vrefs v2 D + (E + spec n2)) v3" and pk: "pins_kept (vm_fr v2) (vm_fr v3)"
    and vs: "\<And>x. x \<in># vrefs v3 D \<Longrightarrow> x \<in># vrefs v2 D \<or> x \<in># spec n1" using R by blast+
  have s2: "spec_ok v3 D E n2"
  proof -
    have "sole v3 (vrefs v3 D + (E + spec n2)) (n2 div 4096)" if n: "n2 \<noteq> 0"
    proof -
      have so: "sole v2 (vrefs v2 D + (E + spec n1 + spec n2)) (n2 div 4096)" using A2(1) n by (simp add: spec_ok_def)
      then have z: "n2 div 4096 \<notin># vrefs v2 D" "n2 div 4096 \<notin># spec n1" "count E (n2 div 4096) = 0" using n by (simp_all add: sole_def spec_def not_in_iff)
      then have "count (vrefs v3 D) (n2 div 4096) = 0" using vs by (meson not_in_iff)
      then show ?thesis using so z pk n by (simp add: sole_def pins_kept_def spec_def)
    qed
    then show ?thesis using ok3 A2(1) by (simp add: spec_ok_def)
  qed
  have nc: "\<not> has (rd v3 t (pt_index va)) PAGE_COW"
  proof -
    have b: "n1 mod 4096 = 0" "n1 < 2 ^ 32" if "n1 \<noteq> 0" using s1 that by (simp_all add: spec_ok_def)
    show ?thesis
      using r1 b cow_private_has(4) [OF entry_paddr_bounds(1,2)]
      by (auto simp: cow_resolve_def Let_def phys_free_def split: if_splits)
  qed
  note S = cow_stale [OF s2 cid(2) nc r2]
  have rw: "rd w = rd v3" and vr: "vrefs w D = vrefs v3 D" and okw: "vm_ok w D E" and sbw: "same_boot v3 w" using S by blast+
  have dw: "data_still v D (vrefs v D + E) w"
  proof -
    have "data_still v2 D (vrefs v2 D + (E + spec n2)) w" by (rule data_still_rd [OF ds rw])
    then show ?thesis using rd2 vw(2) A1(4) A2(4) unfolding data_still_def is_table_def by auto
  qed
  have cw: "cow_done v2 D E d va w"
  proof -
    let ?e = "pte_at v3 d va"
    have pw: "pte_at w d va = ?e" using views_rd(1) [OF rw] by simp
    have x: "present ?e" "has ?e PAGE_USER" "\<not> has ?e PAGE_DEV" 
    proof -
      have "\<not> has (pte_at v2 d va) PAGE_DEV" using e2 t2 by (simp add: cow_entry_def pte_at_def pte_of_def)
      then show "present ?e" "has ?e PAGE_USER" "\<not> has ?e PAGE_DEV" using cd by (simp_all add: cow_done_def Let_def)
    qed
    have "count (vrefs w D + E) (entry_frame ?e) = 1"
      if g: "fr_reserved (vm_fr v2) \<le> entry_frame ?e" "entry_frame ?e < fr_total (vm_fr v2)" "fr_refs (vm_fr w) (entry_frame ?e) < FRAME_PINNED"
    proof -
      have fw: "pins_kept (vm_fr v3) (vm_fr w)"
        using r2 nc frame_free_pins [of "vm_fr v3" c2 n2] by (auto simp: cow_resolve_def Let_def phys_free_def split: if_splits)
      then have "fr_refs (vm_fr v3) (entry_frame ?e) < FRAME_PINNED" using g(3) unfolding pins_kept_def by (metis not_le)
      then have c1: "count (vrefs v3 D + (E + spec n2)) (entry_frame ?e) = 1" using cd g by (simp add: cow_done_def Let_def)
      have "fr_reserved (vm_fr v3) \<le> entry_frame ?e" using g(1) sb3 by (simp add: same_boot_def)
      then have "entry_frame ?e \<in># ref_at v3 va ?e" using ref_cow [OF vm_okD(3) [OF ok3] x] by simp
      then have "entry_frame ?e \<in># vrefs v3 D" using ref_mapped [OF ok3 d] by (meson mset_subset_eqD)
      then have "1 \<le> count (vrefs v3 D) (entry_frame ?e)" by (metis One_nat_def Suc_leI count_greater_zero_iff)
      moreover have "count (vrefs v3 D) (entry_frame ?e) + (count E (entry_frame ?e) + count (spec n2) (entry_frame ?e)) = 1" using c1 by simp
      ultimately have "count (vrefs v3 D) (entry_frame ?e) + count E (entry_frame ?e) = 1" by linarith
      then show ?thesis unfolding vr by (simp only: count_union)
    qed
    moreover have "sets_pte v2 D d va ?e w" using cd sets_pte_rd [OF _ rw] by (simp add: cow_done_def Let_def)
    ultimately show ?thesis using cd rw unfolding cow_done_def Let_def pw by simp
  qed
  have "cow_done v D E d va w" by (rule cow_done_base [OF cw rd2 sb2])
  then show ?thesis using S okw dw same_boot_trans [OF sb2 same_boot_trans [OF sb3 sbw]] by simp
qed

end
