(* ===== verification/Mmap_Fault.thy ===== *)
theory Mmap_Fault
  imports Fault_Cow
begin

text \<open>
  Demand paging: a page that a fault of the mapping window, the heap or the stack brings in is
  a fresh frame that nobody else holds, filled with zeros or with the file's bytes; writing a
  mapping back stores exactly the bytes its dirty pages show.
\<close>

section \<open>Filling a page that is mapped\<close>

lemma fill_data:
  assumes ok: "vm_ok v D E" and f: "\<not> is_table v D f" and r: "fr_reserved (vm_fr v) \<le> f"
  shows "vm_ok (set_frame f c v) D E" "same_boot v (set_frame f c v)" "vrefs (set_frame f c v) D = vrefs v D"
    "\<And>q. q \<in> tposs D \<Longrightarrow> tab_at (set_frame f c v) q = tab_at v q" "same_ptes v D (set_frame f c v)"
proof -
  note D = vm_okD [OF ok]
  show sb: "same_boot v (set_frame f c v)" by (rule same_boot_frame [OF r])
  have away: "rd (set_frame f c v) t i = rd v t i" if "q \<in> tposs D" "tab_at v q = Some t" for q t i
    using f that by (auto simp: is_table_def)
  show v: "vrefs (set_frame f c v) D = vrefs v D" by (rule vrefs_elsewhere(1) [OF sb D(3) away])
  show t: "tab_at (set_frame f c v) q = tab_at v q" if "q \<in> tposs D" for q
    by (rule vrefs_elsewhere(2) [OF sb D(3) away that])
  show "same_ptes v D (set_frame f c v)"
    unfolding same_ptes_def pte_at_def using pte_of_cong [OF away] by simp
  show "vm_ok (set_frame f c v) D E"
  proof (rule vm_ok_transfer [OF ok sb D(1)])
    show "acct (vm_fr (set_frame f c v)) (vrefs (set_frame f c v) D + E)" using D(4) v by simp
    fix q t' assume q: "q \<in> tposs D" "tab_at (set_frame f c v) q = Some t'"
    show "sole (set_frame f c v) (vrefs (set_frame f c v) D + E) t'"
      using D(5) [OF q(1)] q(2) unfolding t [OF q(1)] v by (simp add: sole_def)
  qed
qed

section \<open>A fresh page\<close>

text \<open>\<open>fresh_page v D E d va fl w f\<close>: in \<open>w\<close> the frame \<open>f\<close>, which nobody held, is mapped at
  \<open>va\<close> with the flags \<open>fl\<close> and nothing else has changed.\<close>

definition fresh_page :: "vmm \<Rightarrow> nat set \<Rightarrow> nat multiset \<Rightarrow> nat \<Rightarrow> u32 \<Rightarrow> u64 \<Rightarrow> vmm \<Rightarrow> nat \<Rightarrow> bool" where
  "fresh_page v D E d va fl w f \<longleftrightarrow> f \<notin># vrefs v D + E \<and> fr_reserved (vm_fr v) \<le> f \<and> f < 2 ^ 20 \<and> same_boot v w
     \<and> sets_pte v D d va (pte_of_flags (of_nat (f * 4096)) fl) w \<and> entry_frame (pte_at w d va) = f
     \<and> data_still v D (vrefs v D + E) w \<and> \<not> is_table w D f"

lemma map_fresh:
  assumes ok: "vm_ok v D E" and cid: "cid < MAX_CORES" and d: "d \<in> D" and a: "phys_alloc cid v = (p, u)" and p: "p \<noteq> 0"
    and fl: "has fl PAGE_USER" "\<not> has fl PAGE_DEV" and m: "vmm_map_page cid d va (of_nat p) fl (set_frame (p div 4096) c u) = (r, w)"
  shows "\<exists>f. p = f * 4096 \<and> (r = 0 \<longrightarrow> vm_ok w D (E + ref_at v va (pte_at v d va)) \<and> fresh_page v D E d va fl w f \<and> rd w f = c)
     \<and> (r \<noteq> 0 \<longrightarrow> vm_ok w D (add_mset f E) \<and> same_boot v w \<and> same_ptes v D w \<and> data_still v D (vrefs v D + E) w)"
proof -
  from alloc_zeroed(2) [OF ok cid a p, where c = c]
  obtain f where f: "p = f * 4096" "0 < f" "f < 2 ^ 20"
          and z: "vm_ok (set_frame f c u) D (add_mset f E)" and so: "sole (set_frame f c u) (vrefs (set_frame f c u) D + add_mset f E) f"
          and sb: "same_boot v (set_frame f c u)" and vr: "vrefs (set_frame f c u) D = vrefs v D" and new: "f \<notin># vrefs v D + E"
          and tb: "\<And>q. q \<in> tposs D \<Longrightarrow> tab_at (set_frame f c u) q = tab_at v q"
          and pt: "\<And>d pi j k. (d, pi, j, k) \<in> leafs D \<Longrightarrow> pte_of (set_frame f c u) d pi j k = pte_of v d pi j k"
          and kp: "data_kept v D (vrefs v D + E) (set_frame f c u) (vrefs v D + add_mset f E)" by blast
  define z where "z = set_frame f c u"
  note bo = vm_okD(3) [OF ok]
  let ?e = "pte_of_flags (of_nat p) fl"
  have p32: "p mod 4096 = 0" "p < 2 ^ 32" using f by simp_all
  have ef: "entry_frame ?e = f" using pte_of_flags_frame [OF p32, of fl] f(1) by simp
  have rz: "fr_reserved (vm_fr z) \<le> f" using so by (simp add: sole_def z_def)
  have boz: "boot_ok z" using boot_ok_same [OF sb bo] by (simp add: z_def)
  have rr: "ref_at z va ?e = {#f#}"
    by (rule ref_user [OF boz rz ef]) (use fl in \<open>simp_all add: pte_of_flags_has\<close>)
  have okz: "vm_ok z D (E + ref_at z va ?e)" using z unfolding rr by (simp add: z_def)
  have m': "vmm_map_page cid d va (of_nat p) fl z = (r, w)" using m f(1) by (simp add: z_def)
  note M = map_page_ok [OF okz cid d m']
  have ptz: "same_ptes v D z" using pt by (auto simp: same_ptes_def pte_at_def z_def)
  have ds: "data_still v D (vrefs v D + E) w" if k: "data_kept z D (vrefs z D + (E + ref_at z va ?e)) w M'" for M'
  proof -
    have "data_kept v D (vrefs v D + E) z (vrefs z D + (E + ref_at z va ?e))" using kp vr unfolding rr by (simp add: z_def)
    from data_kept_trans [OF this k] show ?thesis by (simp add: data_kept_def data_still_def)
  qed
  have ft: "\<not> is_table z D f" using table_unique(3) [OF z [folded z_def]] by (auto simp: is_table_def)
  have rv: "ref_at z va x = ref_at v va x" for x using ref_at_same [OF sb bo] by (simp add: z_def)
  have pz: "pte_at z d va = pte_at v d va" using ptz d by (simp add: same_ptes_def)
  show ?thesis
  proof (cases "r = 0")
    case True
    from M(1) [OF True] have m0: "vm_ok w D (E + ref_at z va (pte_at z d va))" "sets_pte z D d va ?e w" "same_boot z w"
        "data_kept z D (vrefs z D + (E + ref_at z va ?e)) w (vrefs w D + (E + ref_at z va (pte_at z d va)))" by blast+
    have st: "sets_pte v D d va ?e w" using m0(2) ptz by (simp add: sets_pte_def same_ptes_def)
    have fw: "rd w f = rd z f \<and> \<not> is_table w D f" using m0(4) ft unfolding rr by (simp add: data_kept_def)
    have "fresh_page v D E d va fl w f"
      unfolding fresh_page_def
      using new rz sb f st same_boot_trans [OF sb [folded z_def] m0(3)] ds [OF m0(4)] fw ef
      by (simp add: same_boot_def z_def sets_pte_def)
    then show ?thesis using m0(1) fw f(1) True unfolding rv pz by (auto simp: z_def)
  next
    case False
    note Q = quietD [OF M(2) [OF False, THEN conjunct2]] and P = quiet_ptes [OF M(2) [OF False, THEN conjunct2]]
    have "same_ptes v D w" using ptz P by (simp add: same_ptes_def)
    moreover have "vm_ok w D (add_mset f E)" using Q(1) unfolding rr by simp
    ultimately show ?thesis using f(1) False same_boot_trans [OF sb [folded z_def] Q(2)] ds [OF Q(4)] by simp
  qed
qed

section \<open>Anonymous pages\<close>

lemma set_frame_id: "set_frame f (rd v f) v = v"
  by (simp add: set_frame_def)

lemma ref_absent: "\<not> present e \<Longrightarrow> ref_at v va e = {#}"
  by (simp add: ref_at_def pte_ref_def freeable_def)

text \<open>\<open>demand_map_zero\<close> on a write and the anonymous branch of \<open>task_mmap_handle_fault\<close> are the
  same step: a frame, a mapping, and a \<open>memset\<close> through the new mapping.\<close>

definition map_zeroed :: "nat \<Rightarrow> nat \<Rightarrow> u32 \<Rightarrow> vmm \<Rightarrow> fault_result \<times> vmm" where
  "map_zeroed cid d va v =
     (let (p, v1) = phys_alloc cid v
      in if p = 0 then (Pass, v1)
         else memset_va d va (snd (vmm_map_page cid d va (of_nat p) (PAGE_PRESENT OR PAGE_RW OR PAGE_USER OR nx_flag v1) v1)))"

abbreviation rw_user :: "vmm \<Rightarrow> u64" where
  "rw_user v \<equiv> PAGE_PRESENT OR PAGE_RW OR PAGE_USER OR nx_flag v"

lemma rw_user_has: "has (rw_user v) PAGE_USER" "\<not> has (rw_user v) PAGE_DEV" "has (rw_user v) PAGE_RW" "\<not> has (rw_user v) PAGE_COW"
  by (auto simp: nx_flag_def pte_simps bit_or_iff)

lemma nx_alloc: "phys_alloc cid v = (p, u) \<Longrightarrow> nx_flag u = nx_flag v"
  by (auto simp: phys_alloc_def nx_flag_def split: prod.splits)

lemma map_zeroed_ok:
  assumes ok: "vm_ok v D E" and cid: "cid < MAX_CORES" and d: "d \<in> D" and np: "\<not> present (pte_at v d va)"
    and m: "map_zeroed cid d va v = (res, w)"
  shows "res = Resume \<Longrightarrow> \<exists>f. vm_ok w D E \<and> fresh_page v D E d va (rw_user v) w f \<and> rd w f = (\<lambda>_. 0)"
    and "res = Pass \<Longrightarrow> vm_ok w D E \<and> same_boot v w \<and> rd w = rd v"
    and "res = KernelFault \<Longrightarrow> \<exists>f. f \<notin># vrefs v D + E \<and> vm_ok w D (add_mset f E) \<and> same_boot v w \<and> same_ptes v D w"
proof -
  obtain p u where a: "phys_alloc cid v = (p, u)" by fastforce
  note A = spec_alloc [OF ok cid a]
  have "(res = Resume \<longrightarrow> (\<exists>f. vm_ok w D E \<and> fresh_page v D E d va (rw_user v) w f \<and> rd w f = (\<lambda>_. 0)))
     \<and> (res = Pass \<longrightarrow> vm_ok w D E \<and> same_boot v w \<and> rd w = rd v)
     \<and> (res = KernelFault \<longrightarrow> (\<exists>f. f \<notin># vrefs v D + E \<and> vm_ok w D (add_mset f E) \<and> same_boot v w \<and> same_ptes v D w))"
  proof (cases "p = 0")
    case True
    then have "res = Pass" "w = u" using m a by (simp_all add: map_zeroed_def)
    then show ?thesis using A True by (simp add: spec_ok_def spec_def)
  next
    case p: False
    obtain r w1 where mp: "vmm_map_page cid d va (of_nat p) (rw_user v) u = (r, w1)" by fastforce
    have mp': "vmm_map_page cid d va (of_nat p) (rw_user v) (set_frame (p div 4096) (rd u (p div 4096)) u) = (r, w1)"
      using mp by (simp add: set_frame_id)
    have res: "(res, w) = memset_va d va w1" using m a p mp nx_alloc [OF a] by (simp add: map_zeroed_def)
    from map_fresh [OF ok cid d a p rw_user_has(1,2) mp'] obtain f where
      f: "p = f * 4096" "r = 0 \<Longrightarrow> vm_ok w1 D (E + ref_at v va (pte_at v d va)) \<and> fresh_page v D E d va (rw_user v) w1 f"
         "r \<noteq> 0 \<Longrightarrow> vm_ok w1 D (add_mset f E) \<and> same_boot v w1 \<and> same_ptes v D w1" by blast
    have so: "sole u (vrefs u D + (E + spec p)) (p div 4096)" using A(1) p by (simp add: spec_ok_def)
    then have fn: "f \<notin># vrefs v D + E" using A(4) f(1) p by (simp add: sole_def spec_def not_in_iff)
    show ?thesis
    proof (cases "r = 0")
      case True
      note F = f(2) [OF True]
      have okw: "vm_ok w1 D E" using F ref_absent [OF np] by simp
      have pw: "pte_at w1 d va = pte_of_flags (of_nat (f * 4096)) (rw_user v)" "entry_frame (pte_at w1 d va) = f"
        using F unfolding fresh_page_def sets_pte_def by blast+
      have "present (pte_at w1 d va)" by (simp add: pw(1))
      then have w: "res = Resume" "w = set_frame f (\<lambda>_. 0) w1" using res pw(2) by (simp_all add: memset_va_def)
      have ft: "\<not> is_table w1 D f" "fr_reserved (vm_fr w1) \<le> f" using F by (simp_all add: fresh_page_def same_boot_def)
      note G = fill_data [OF okw ft, where c = "\<lambda>_. 0", folded w(2)]
      have "fresh_page v D E d va (rw_user v) w f"
        unfolding fresh_page_def
      proof (intro conjI)
        show "same_boot v w" using F same_boot_trans [OF _ G(2)] by (simp add: fresh_page_def)
        show "sets_pte v D d va (pte_of_flags (of_nat (f * 4096)) (rw_user v)) w"
          using F G(5) d by (simp add: fresh_page_def sets_pte_def same_ptes_def)
        show "entry_frame (pte_at w d va) = f" using pw(2) G(5) d by (simp add: same_ptes_def)
        have it: "is_table w D x = is_table w1 D x" for x unfolding is_table_def using G(4) by auto
        then show "\<not> is_table w D f" using ft by simp
        show "data_still v D (vrefs v D + E) w" using F it fn by (auto simp: fresh_page_def data_still_def w(2))
      qed (use F in \<open>simp_all add: fresh_page_def\<close>)
      then show ?thesis using w G(1) by (auto intro!: exI [of _ f])
    next
      case False
      note F = f(3) [OF False]
      have "pte_at w1 d va = pte_at v d va" using F d by (simp add: same_ptes_def)
      then have "res = KernelFault" "w = w1" using res np by (simp_all add: memset_va_def)
      then show ?thesis using F fn by auto
    qed
  qed
  then show "res = Resume \<Longrightarrow> \<exists>f. vm_ok w D E \<and> fresh_page v D E d va (rw_user v) w f \<and> rd w f = (\<lambda>_. 0)"
    and "res = Pass \<Longrightarrow> vm_ok w D E \<and> same_boot v w \<and> rd w = rd v"
    and "res = KernelFault \<Longrightarrow> \<exists>f. f \<notin># vrefs v D + E \<and> vm_ok w D (add_mset f E) \<and> same_boot v w \<and> same_ptes v D w" by blast+
qed

lemma demand_write: "demand_map_zero cid d va True v = map_zeroed cid d va v"
  by (simp add: demand_map_zero_def map_zeroed_def)

lemma anon_fault:
  assumes "\<not> present (pte_at (mm_vm m) (mm_dir m) va)" and "mr_flags (mm_reg m j) \<noteq> MMAP_FILE_SHARED"
  shows "region_fault e j va write m = (let (r, v) = map_zeroed (me_cid e) (mm_dir m) va (mm_vm m) in (r, m\<lparr>mm_vm := v\<rparr>))"
  using assms by (simp add: region_fault_def map_zeroed_def Let_def split: prod.split)

text \<open>The account does not see pinned frames either.\<close>

lemma vm_ok_pinned:
  assumes ok: "vm_ok v D E" and f: "FRAME_PINNED \<le> fr_refs (vm_fr v) f"
  shows "vm_ok v D (add_mset f E)"
proof (rule vm_ok_transfer [OF ok same_boot_refl vm_okD(1) [OF ok]])
  note D = vm_okD [OF ok]
  show "acct (vm_fr v) (vrefs v D + add_mset f E)" using D(4) f by (auto simp: acct_def)
  show "sole v (vrefs v D + add_mset f E) t" if "p \<in> tposs D" "tab_at v p = Some t" for p t
    using D(5) [OF that] f by (auto simp: sole_def)
qed

text \<open>A read of an untouched heap or stack page maps the shared zero page copy on write. When
  there is no frame for the tables the handler still reports success.\<close>

abbreviation zero_flags :: "vmm \<Rightarrow> u64" where
  "zero_flags v \<equiv> PAGE_PRESENT OR PAGE_USER OR PAGE_COW OR nx_flag v"

lemma zero_flags_has: "has (zero_flags v) PAGE_USER" "\<not> has (zero_flags v) PAGE_DEV" "has (zero_flags v) PAGE_COW" "\<not> has (zero_flags v) PAGE_RW"
  by (auto simp: nx_flag_def pte_simps bit_or_iff)

lemma demand_read:
  assumes ok: "vm_ok v D E" and cid: "cid < MAX_CORES" and d: "d \<in> D" and np: "\<not> present (pte_at v d va)"
    and z: "phys_get_zero_page (vm_fr v) = zf * 4096" "0 < zf" "zf < 2 ^ 20" "fr_reserved (vm_fr v) \<le> zf"
    and m: "demand_map_zero cid d va False v = (res, w)"
  shows "res = Resume \<and> same_boot v w \<and> data_still v D (vrefs v D + E) w
     \<and> (vm_ok w D E \<and> sets_pte v D d va (pte_of_flags (of_nat (zf * 4096)) (zero_flags v)) w
        \<or> vm_ok w D (add_mset zf E) \<and> same_ptes v D w)"
proof -
  let ?e = "pte_of_flags (of_nat (zf * 4096)) (zero_flags v)"
  obtain r w1 where mp: "vmm_map_page cid d va (of_nat (zf * 4096)) (zero_flags v) v = (r, w1)" by fastforce
  have w: "res = Resume" "w = w1" using m z mp by (simp_all add: demand_map_zero_def Let_def)
  have p32: "(zf * 4096) mod 4096 = 0" "zf * 4096 < 2 ^ 32" using z by simp_all
  have "fr_zero (vm_fr v) \<noteq> 0" "fr_zero (vm_fr v) div 4096 = zf" using z by (simp_all add: phys_get_zero_page_def)
  then have pin: "FRAME_PINNED \<le> fr_refs (vm_fr v) zf"
    using vm_okD(4) [OF ok] by (auto simp: acct_def frames_ok_def)
  have ef: "entry_frame ?e = zf" using pte_of_flags_frame [OF p32, of "zero_flags v"] by simp
  have rr: "ref_at v va ?e = {#zf#}"
    by (rule ref_user [OF vm_okD(3) [OF ok] z(4) ef]) (use zero_flags_has in \<open>simp_all add: pte_of_flags_has\<close>)
  have okz: "vm_ok v D (E + ref_at v va ?e)" using vm_ok_pinned [OF ok pin] unfolding rr by simp
  have still: "data_still v D (vrefs v D + E) w1" if "data_kept v D (vrefs v D + (E + ref_at v va ?e)) w1 M'" for M'
    using that unfolding data_kept_def data_still_def by auto
  note M = map_page_ok [OF okz cid d mp]
  show ?thesis
  proof (cases "r = 0")
    case True
    then show ?thesis using M(1) [OF True] w ref_absent [OF np] still by auto
  next
    case False
    note Q = quietD [OF M(2) [OF False, THEN conjunct2]] and P = quiet_ptes [OF M(2) [OF False, THEN conjunct2]]
    show ?thesis using Q P w still [OF Q(4)] unfolding rr by simp
  qed
qed


section \<open>Bytes\<close>

lemma frame_byte_bytes [simp]: "frame_byte (bytes_frame b) i = b i"
proof -
  obtain k where k: "k < 8" "i = 8 * (i div 8) + k" by (metis mod_less_divisor mult_div_mod_eq zero_less_numeral)
  have m: "i mod 8 = k" using k by (metis mod_less mod_mult_self4)
  let ?j = "i div 8"
  have "frame_byte (bytes_frame b) i = ucast (drop_bit (8 * k) (bytes_frame b ?j))" by (simp add: frame_byte_def m)
  also have "\<dots> = b (8 * ?j + k)"
  proof (rule bit_eqI)
    fix n assume "possible_bit TYPE(8 word) n"
    then have n: "n < 8" by (simp add: possible_bit_word)
    consider "k = 0" | "k = 1" | "k = 2" | "k = 3" | "k = 4" | "k = 5" | "k = 6" | "k = 7" using k(1) by linarith
    then show "bit (ucast (drop_bit (8 * k) (bytes_frame b ?j)) :: u8) n = bit (b (8 * ?j + k)) n"
      by cases (use n in \<open>auto simp: bytes_frame_def bit_simps dest: bit_imp_le_length\<close>)
  qed
  finally show ?thesis using k(2) by simp
qed

section \<open>File pages\<close>

definition file_bytes :: "mstate \<Rightarrow> int \<Rightarrow> nat \<Rightarrow> u8" where
  "file_bytes m node i = (case mm_file m node of None \<Rightarrow> 0 | Some (n, b) \<Rightarrow> if i < n then b i else 0)"

lemma file_fault:
  assumes ok: "vm_ok (mm_vm m) D E" and cid: "me_cid e < MAX_CORES" and d: "mm_dir m \<in> D"
    and np: "\<not> present (pte_at (mm_vm m) (mm_dir m) va)" and fl: "mr_flags (mm_reg m j) = MMAP_FILE_SHARED"
    and off: "off = unat (va - mr_base (mm_reg m j))" "off < unat (mr_fsize (mm_reg m j))"
    and r: "region_fault e j va write m = (Resume, m')"
  shows "(\<exists>f fl'. fresh_page (mm_vm m) D E (mm_dir m) va fl' (mm_vm m') f \<and> vm_ok (mm_vm m') D E
            \<and> has fl' PAGE_SHARED \<and> has fl' PAGE_RW = write
            \<and> (\<forall>i < 4096. frame_byte (rd (mm_vm m') f) i =
                 (if off + i < unat (mr_fsize (mm_reg m j)) then file_bytes m (mr_node (mm_reg m j)) (off + i) else 0)))
       \<or> same_ptes (mm_vm m) D (mm_vm m')"
proof -
  let ?v = "mm_vm m" and ?d = "mm_dir m" and ?r = "mm_reg m j" and ?cid = "me_cid e"
  obtain p u where a: "phys_alloc ?cid ?v = (p, u)" by fastforce
  define w where "w = read_page e m (mr_node ?r) off (min (unat (mr_fsize ?r) - off) 4096)"
  have R: "region_fault e j va write m = (if p = 0 then (Pass, m\<lparr>mm_vm := u\<rparr>) else
      (case w of None \<Rightarrow> (Pass, m\<lparr>mm_vm := phys_free ?cid p u\<rparr>)
       | Some c \<Rightarrow> (Resume, (if write then set_region j (set_dirty (unat ((va - mr_base ?r) div 4096)) ?r) m else m)
            \<lparr>mm_vm := snd (vmm_map_page ?cid ?d va (of_nat p)
              (PAGE_PRESENT OR PAGE_USER OR PAGE_SHARED OR (if write then PAGE_RW else 0) OR nx_flag (set_frame (p div 4096) c u))
              (set_frame (p div 4096) c u))\<rparr>)))"
    using off(2) by (simp add: region_fault_def Let_def np fl a off(1) [symmetric] w_def)
  have p0: "p \<noteq> 0" and w0: "w \<noteq> None" using r unfolding R by (auto split: if_splits option.splits)
  then obtain c where c: "w = Some c" by blast
  let ?fl = "PAGE_PRESENT OR PAGE_USER OR PAGE_SHARED OR (if write then PAGE_RW else 0) OR nx_flag (set_frame (p div 4096) c u)"
  have flh: "has ?fl PAGE_USER" "\<not> has ?fl PAGE_DEV" "has ?fl PAGE_SHARED" "has ?fl PAGE_RW = write"
    by (auto simp: nx_flag_def pte_simps bit_or_iff)
  obtain rr w1 where mp: "vmm_map_page ?cid ?d va (of_nat p) ?fl (set_frame (p div 4096) c u) = (rr, w1)" by fastforce
  have "snd (vmm_map_page ?cid ?d va (of_nat p) ?fl (set_frame (p div 4096) c u)) = w1" using mp by simp
  then have m': "mm_vm m' = w1" using r unfolding R using p0 c by auto
  from c obtain fs bytes where fb: "mm_file m (mr_node ?r) = Some (fs, bytes)"
    "c = bytes_frame (\<lambda>i. if i < min (unat (mr_fsize ?r) - off) 4096 \<and> off + i < fs then bytes (off + i) else 0)"
    by (auto simp: w_def read_page_def split: option.splits if_splits)
  have cb: "frame_byte c i = (if off + i < unat (mr_fsize ?r) then file_bytes m (mr_node ?r) (off + i) else 0)" if "i < 4096" for i
    using that off(2) by (auto simp: fb file_bytes_def)
  from map_fresh [OF ok cid d a p0 flh(1,2) mp] obtain f where f:
    "rr = 0 \<Longrightarrow> vm_ok w1 D (E + ref_at ?v va (pte_at ?v ?d va)) \<and> fresh_page ?v D E ?d va ?fl w1 f \<and> rd w1 f = c"
    "rr \<noteq> 0 \<Longrightarrow> same_ptes ?v D w1" by blast
  show ?thesis
  proof (cases "rr = 0")
    case True
    have "vm_ok w1 D E" using f(1) [OF True] ref_absent [OF np] by simp
    then show ?thesis using f(1) [OF True] flh cb unfolding m' by blast
  next
    case False
    then show ?thesis using f(2) m' by simp
  qed
qed

section \<open>Writing back\<close>

text \<open>The frame that shows page \<open>i\<close> of the mapping.\<close>

definition page_frame :: "mstate \<Rightarrow> region \<Rightarrow> nat \<Rightarrow> nat option" where
  "page_frame m r i = (let pte = pte_at (mm_vm m) (mm_dir m) (mr_base r + of_nat (i * 4096))
     in if mm_dir m \<noteq> 0 \<and> present pte then Some (entry_frame pte) else None)"

lemma flush_buf_spec:
  "flush_buf d r fsize v buf i =
     (let pg = i div 4096; pte = pte_at v d (mr_base r + of_nat (pg * 4096))
      in if pg < npages r \<and> dirty_page r pg \<and> i < fsize \<and> d \<noteq> 0 \<and> present pte
         then frame_byte (rd v (entry_frame pte)) (i mod 4096) else buf i)"
proof -
  have "for_upto n (\<lambda>i b. if dirty_page r i \<and> i * 4096 < fsize
        then mmap_copy_page d r i (min 4096 (fsize - i * 4096)) v b else b) buf i =
     (let pg = i div 4096; pte = pte_at v d (mr_base r + of_nat (pg * 4096))
      in if pg < n \<and> dirty_page r pg \<and> i < fsize \<and> d \<noteq> 0 \<and> present pte
         then frame_byte (rd v (entry_frame pte)) (i mod 4096) else buf i)" for n
  proof (induction n)
    case 0
    then show ?case by (simp add: Let_def)
  next
    case (Suc n)
    have q: "i = i div 4096 * 4096 + i mod 4096" by simp
    have m: "i mod 4096 < 4096" by simp
    show ?case
    proof (cases "i div 4096 = n")
      case True
      then have i: "n * 4096 \<le> i" "i - n * 4096 = i mod 4096" "i < n * 4096 + 4096" using q m by linarith+
      then show ?thesis using Suc True by (auto simp: mmap_copy_page_def Let_def)
    next
      case False
      then have "\<not> (n * 4096 \<le> i \<and> i < n * 4096 + 4096)" using q m by auto
      then have "\<not> (n * 4096 \<le> i \<and> i < n * 4096 + min 4096 (fsize - n * 4096))" by auto
      then show ?thesis using Suc False by (auto simp: mmap_copy_page_def Let_def less_Suc_eq)
    qed
  qed
  then show ?thesis by (simp add: flush_buf_def)
qed

end
