(* ===== verification/Vmm_Machine.thy ===== *)
theory Vmm_Machine
  imports Mmap_Fault Phys_Props
begin

text \<open>
  A concrete machine for the witnesses: 32 frames of RAM, the first four reserved for the boot
  tables, frames 4 to 15 in use and sixteen free frames parked on CPU 0. Frame 4 is a page
  directory with one page table that maps one shared page, frame 7, copy on write.
\<close>

section \<open>Frames\<close>

definition wfr :: frames where
  "wfr = boot0\<lparr>fr_total := 32, fr_reserved := 4, fr_bitmap := (\<lambda>_. True),
     fr_order := (\<lambda>f. if 16 \<le> f then BUDDY_CACHED else BUDDY_ALLOCATED),
     fr_refs := (\<lambda>f. if f < 4 then FRAME_PINNED else if f = 7 then 2 else 1), fr_built := True, fr_used := 32,
     fr_cache := (\<lambda>c. if c = 0 then map (\<lambda>f. f * 4096) [16..<32] else [])\<rparr>"

lemma wfr_fields [simp]:
  "fr_total wfr = 32" "fr_reserved wfr = 4" "fr_zero wfr = 0"
  "fr_refs wfr = (\<lambda>f. if f < 4 then FRAME_PINNED else if f = 7 then 2 else 1)"
  by (simp_all add: wfr_def boot0_def)

definition wheld :: "nat multiset" where
  "wheld = mset ([4..<16] @ [7])"

lemma parked_wfr: "parked wfr = mset (map (\<lambda>f. f * 4096) [16..<32])"
proof -
  have "parked wfr = (\<Sum>c<MAX_CORES. if c = 0 then mset (map (\<lambda>f. f * 4096) [16..<32]) else {#})"
    unfolding parked_def by (rule sum.cong) (simp_all add: wfr_def)
  also have "\<dots> = mset (map (\<lambda>f. f * 4096) [16..<32])" by (simp add: MAX_CORES_def)
  finally show ?thesis .
qed

lemma parked_wfr_in: "f * 4096 \<in># parked wfr \<longleftrightarrow> 16 \<le> f \<and> f < 32"
  unfolding parked_wfr set_mset_mset set_map set_upt by auto

lemma wfr_buddy: "buddy_ok wfr"
  by (rule buddy_okI [of _ "\<lambda>_. []"])
     (auto simp: buddy_parts_def dll_def wfr_def boot0_def BUDDY_ALLOCATED_def BUDDY_CACHED_def BUDDY_MAX_ORDER_def)

lemma wfr_live: "live wfr {#} f \<longleftrightarrow> 4 \<le> f \<and> f < 16"
  using parked_wfr_in [of f] by (auto simp: live_def wfr_def boot0_def FRAME_PINNED_def)

lemma wfr_ok: "phys_ok wfr"
  unfolding frames_ok_def
proof (intro conjI)
  show "\<forall>p. count ({#} + parked wfr) p \<le> 1"
  proof
    fix p
    have d: "distinct (map (\<lambda>f. f * 4096) [16..<(32::nat)])" by (auto simp: distinct_map inj_on_def)
    then show "count ({#} + parked wfr) p \<le> 1" by (simp add: parked_wfr distinct_count_atmost_1 del: map_upt_Suc)
  qed
  show "\<forall>p\<in>#{#} + parked wfr. \<exists>f. p = f * 4096 \<and> fr_reserved wfr \<le> f \<and> f < fr_total wfr \<and> fr_bitmap wfr f \<and> fr_refs wfr f = 1"
  proof
    fix p assume "p \<in># {#} + parked wfr"
    then obtain f where "p = f * 4096" "16 \<le> f" "f < 32" unfolding parked_wfr empty_neutral set_mset_mset set_map set_upt by auto
    then show "\<exists>f. p = f * 4096 \<and> fr_reserved wfr \<le> f \<and> f < fr_total wfr \<and> fr_bitmap wfr f \<and> fr_refs wfr f = 1"
      by (intro exI [of _ f]) (simp add: wfr_def boot0_def)
  qed
  show "\<forall>c<MAX_CORES. length (fr_cache wfr c) \<le> PERCPU_CACHE_SIZE" by (simp add: wfr_def PERCPU_CACHE_SIZE_def)
  show "\<forall>f. live wfr {#} f \<longrightarrow> fr_order wfr f \<noteq> BUDDY_CACHED"
    using wfr_live by (simp add: wfr_def boot0_def BUDDY_CACHED_def BUDDY_ALLOCATED_def)
  show "fr_used wfr = card {f. f < fr_total wfr \<and> fr_bitmap wfr f}" by (simp add: wfr_def boot0_def)
  show "buddy_ok wfr" by (rule wfr_buddy)
qed (auto simp: wfr_def boot0_def FRAME_PINNED_def)

lemma wheld_count: "4 \<le> f \<Longrightarrow> f < 32 \<Longrightarrow> count wheld f = (if f < 16 then if f = 7 then 2 else 1 else 0)"
proof -
  assume f: "4 \<le> f" "f < 32"
  have "count (mset [4..<16]) f = (if f \<in> {4..<16} then 1 else 0)" unfolding mset_upt by (simp add: count_mset_set)
  then show ?thesis using f unfolding wheld_def mset_append count_union by auto
qed

lemma wfr_acct: "acct wfr wheld"
  unfolding acct_def
proof (intro conjI allI impI)
  fix f assume f: "fr_reserved wfr \<le> f" "f < fr_total wfr" "fr_refs wfr f < FRAME_PINNED"
  have c: "count wheld f = (if f < 16 then if f = 7 then 2 else 1 else 0)" by (rule wheld_count) (use f in simp_all)
  show "owned wfr f = own_count (count wheld f)"
    using f wfr_live [of f] by (auto simp: held_def c own_count_def)
qed (rule wfr_ok)

section \<open>Tables\<close>

definition wboot :: vmm where
  "wboot = \<lparr>vm_fr = wfr, vm_mem = (\<lambda>f i. if f = 1 \<and> i = 0 then 0x2001 else 0), vm_pdpt = 1, vm_pds = (\<lambda>_. 2),
     vm_pts = (\<lambda>_. 3), vm_fbt = (\<lambda>_. 3), vm_mmio = (\<lambda>_. 3), vm_ident = 0, vm_nx = True\<rparr>"

definition wva :: u32 where
  "wva = 0x08000000"

definition wpte :: u64 where
  "wpte = pte_of_flags (of_nat (7 * 4096)) (PAGE_USER OR PAGE_COW)"

definition wdir :: vmm where
  "wdir = set_entry 4 0 (of_nat (5 * 4096) OR PAGE_PRESENT) wboot"

definition wtab :: vmm where
  "wtab = set_entry 5 64 (of_nat (6 * 4096) OR PAGE_PRESENT OR PAGE_RW) wdir"

definition wvm :: vmm where
  "wvm = set_entry 6 0 wpte wtab"

definition wrest :: "nat multiset" where
  "wrest = mset [8..<16] + {#7#}"

lemma wheld_split: "wheld = add_mset 4 (add_mset 5 (add_mset 6 (add_mset 7 wrest)))"
proof -
  have "[4..<16] = 4 # 5 # 6 # 7 # [8..<(16::nat)]" by (simp add: upt_conv_Cons)
  then show ?thesis by (simp only: wheld_def wrest_def mset_append mset.simps) (simp add: ac_simps)
qed

lemma wrest_low: "f < 7 \<Longrightarrow> count wrest f = 0"
  by (simp add: wrest_def mset_upt count_mset_set not_in_iff [symmetric])

lemma wva_index: "pdpt_index wva = 0" "pd_index wva = 64" "pt_index wva = 0"
  by (simp_all add: wva_def pdpt_index_def pd_index_def pt_index_def drop_bit_eq_div)

lemma wboot_fields [simp]: "vm_fr wboot = wfr" "vm_pdpt wboot = 1" "vm_pds wboot = (\<lambda>_. 2)"
  "rd wboot f i = (if f = 1 \<and> i = 0 then 0x2001 else 0)"
  by (simp_all add: wboot_def)

lemma wboot_ok: "boot_ok wboot"
  by (simp add: boot_ok_def)

lemma wboot_vm: "vm_ok wboot {} wheld"
  using wfr_acct wboot_ok by (simp add: vm_ok_def vrefs_def tposs_def leafs_def PHYS_MAX_PAGES_def)

lemma wboot_root: "vm_ok wboot {4} (add_mset 5 (add_mset 6 (add_mset 7 wrest)))" "vrefs wboot {4} = {#4#}"
proof -
  have v0: "vrefs wboot {} = {#}" by (simp add: vrefs_def tposs_def leafs_def)
  have s: "sole wboot (vrefs wboot {} + add_mset 4 (add_mset 5 (add_mset 6 (add_mset 7 wrest)))) 4"
    using wrest_low [of 4] by (simp add: sole_def v0 FRAME_PINNED_def)
  have z: "\<not> present (rd wboot 4 pi)" for pi by simp
  note R = add_root [OF wboot_vm [unfolded wheld_split] s z]
  show "vm_ok wboot {4} (add_mset 5 (add_mset 6 (add_mset 7 wrest)))" "vrefs wboot {4} = {#4#}" using R(2,3) v0 by simp_all
qed

lemma wdir_vm: "vm_ok wdir {4} (add_mset 6 (add_mset 7 wrest))" "vrefs wdir {4} = {#4, 5#}" "pd_of wdir 4 0 = Some 5"
proof -
  have dz: "dir_refs wboot 5 = {#}" by (rule dir_zero) simp
  have ok: "vm_ok wboot {4} (add_mset 6 (add_mset 7 wrest) + {#5#} + dir_refs wboot 5)" using wboot_root(1) by (simp add: dz add_mset_commute)
  have dok: "dir_ok wboot 0 5 (vrefs wboot {4} + (add_mset 6 (add_mset 7 wrest) + {#5#} + dir_refs wboot 5))"
    using wrest_low [of 5] by (simp add: dir_ok_def sole_def wboot_root(2) dz FRAME_PINNED_def)
  have n: "pd_of wboot 4 0 = None" by (simp add: pd_of_def)
  have five: "(0::nat) < 5" "(5::nat) < 2 ^ 20" by simp_all
  note L = link_pd [OF ok dok _ _ n walk_entry(1,2) [OF five]]
  show "vm_ok wdir {4} (add_mset 6 (add_mset 7 wrest))" unfolding wdir_def by (rule L(1)) (simp_all add: PDPT_ENTRIES_def)
  have "vrefs wdir {4} = vrefs wboot {4} + {#5#} + dir_refs wboot 5" unfolding wdir_def by (rule L(3)) (simp_all add: PDPT_ENTRIES_def)
  then show "vrefs wdir {4} = {#4, 5#}" by (simp add: wboot_root(2) dz)
  show "pd_of wdir 4 0 = Some 5" unfolding wdir_def by (rule L(4)) (simp_all add: PDPT_ENTRIES_def)
qed

lemma wtab_vm: "vm_ok wtab {4} (add_mset 7 wrest)" "pt_of wtab 4 0 64 = Some 6"
proof -
  have r6: "rd wdir 6 k = 0" "rd wdir 5 j = 0" for k j by (simp_all add: wdir_def)
  have pz: "pt_refs wdir 0 64 6 = {#}" by (rule pt_refs_0 [OF r6(1)])
  have ok: "vm_ok wdir {4} (add_mset 7 wrest + {#6#} + pt_refs wdir 0 64 6)" using wdir_vm(1) by (simp add: pz)
  have so: "sole wdir (vrefs wdir {4} + (add_mset 7 wrest + {#6#} + pt_refs wdir 0 64 6)) 6"
  proof -
    have "vm_fr wdir = wfr" by (simp add: wdir_def)
    then show ?thesis using wrest_low [of 6] by (simp add: sole_def wdir_vm(2) pz FRAME_PINNED_def)
  qed
  have n: "\<not> present (rd wdir 5 64)" by (simp add: r6)
  have six: "(0::nat) < 6" "(6::nat) < 2 ^ 20" by simp_all
  have p: "Dir 4 0 \<in> tposs {4}" "(64::nat) < PT_ENTRIES" by (simp_all add: PDPT_ENTRIES_def PT_ENTRIES_def)
  note L = link_pt [OF ok so p(1) wdir_vm(3) p(2) n walk_entry(3,4) [OF six]]
  show "vm_ok wtab {4} (add_mset 7 wrest)" unfolding wtab_def by (rule L(1))
  have q: "Tab 4 0 64 \<in> tposs {4}" using p by simp
  show "pt_of wtab 4 0 64 = Some 6" using L(3) [OF q] by (simp add: wtab_def)
qed

lemma wpte_entry: "cow_entry wpte" "entry_frame wpte = 7"
proof -
  have f: "has (PAGE_USER OR PAGE_COW) PAGE_USER" "has (PAGE_USER OR PAGE_COW) PAGE_COW" "\<not> has (PAGE_USER OR PAGE_COW) PAGE_DEV"
    by (auto simp: pte_simps bit_or_iff)
  then show "cow_entry wpte" by (simp add: cow_entry_def wpte_def pte_of_flags_has)
  show "entry_frame wpte = 7" unfolding wpte_def using pte_of_flags_frame [of "7 * 4096" "PAGE_USER OR PAGE_COW"] by simp
qed

lemma wvm_vm: "vm_ok wvm {4} wrest" "pt_of wvm 4 0 64 = Some 6" "pte_at wvm 4 wva = wpte"
proof -
  have l: "(4, 0, 64, 0) \<in> leafs {4}" by (simp add: PDPT_ENTRIES_def PT_ENTRIES_def)
  have "ref_at wtab wva wpte = {#7#}"
    using ref_cow [OF vm_okD(3) [OF wtab_vm(1)], of wpte wva] wpte_entry by (simp add: cow_entry_def wtab_def wdir_def)
  then have r: "pte_ref wtab 0 64 0 wpte = {#7#}" by (simp add: ref_at_def wva_index)
  have ok: "vm_ok wtab {4} (wrest + pte_ref wtab 0 64 0 wpte)" unfolding r using wtab_vm(1) by simp
  have z: "leaf_ref wtab (4, 0, 64, 0) = {#}" using wtab_vm(2) by (simp add: pte_of_def wtab_def wdir_def)
  show "vm_ok wvm {4} wrest" unfolding wvm_def using pt_write_ok(1) [OF ok l wtab_vm(2)] z by simp
  note W = pt_write [OF ok l wtab_vm(2), where e = wpte, folded wvm_def]
  show "pt_of wvm 4 0 64 = Some 6" using W(1) [of "Tab 4 0 64"] wtab_vm(2) by (simp add: PDPT_ENTRIES_def PT_ENTRIES_def)
  show "pte_at wvm 4 wva = wpte" using W(3) by (simp add: pte_at_def wva_index)
qed

section \<open>The allocator of the machine\<close>

lemma wvm_fr: "vm_fr wvm = wfr" "vm_fr wtab = wfr" "fr_reserved (vm_fr wvm) = 4"
  by (simp_all add: wvm_def wtab_def wdir_def)

text \<open>The next frame is the last of the parked ones.\<close>

lemma wfr_alloc: "frame_alloc 0 wfr = (31 * 4096, snd (frame_alloc 0 wfr))"
proof -
  have c: "fr_cache wfr 0 = map (\<lambda>f. f * 4096) [16..<31] @ [31 * 4096]" by (simp add: wfr_def)
  have l: "\<not> length (fr_cache wfr 0) < PERCPU_REFILL_THRESHOLD" by (simp add: wfr_def PERCPU_REFILL_THRESHOLD_def)
  have "fst (percpu_cache_alloc 0 wfr) = 31 * 4096" using l unfolding percpu_cache_alloc_def by (simp add: c Let_def)
  then show ?thesis by (simp add: frame_alloc_def case_prod_beta Let_def)
qed

lemma wvm_alloc: "phys_alloc 0 wvm = (31 * 4096, wvm\<lparr>vm_fr := snd (frame_alloc 0 wfr)\<rparr>)"
proof -
  have "fst (frame_alloc 0 wfr) = 31 * 4096" by (metis fst_conv wfr_alloc)
  then show ?thesis by (simp add: phys_alloc_def wvm_fr case_prod_beta)
qed

lemma cid0: "0 < MAX_CORES"
  by (simp add: MAX_CORES_def)

end
