(* ===== verification/Vmm_Props.thy ===== *)
theory Vmm_Props
  imports Vmm_Machine
begin

text \<open>
  What the virtual memory layer promises, over its definitions, with instances on the machine
  of \<open>Vmm_Machine\<close>; and the states it reaches against its comments.
\<close>

section \<open>Mapping\<close>


lemma wtab_walk: "present (rd wtab 4 0)" "entry_frame (rd wtab 4 0) = 5" "present (rd wtab 5 64)" "entry_frame (rd wtab 5 64) = 6"
proof -
  have "rd wtab 4 0 = of_nat (5 * 4096) OR PAGE_PRESENT" "rd wtab 5 64 = of_nat (6 * 4096) OR PAGE_PRESENT OR PAGE_RW"
    by (simp_all add: wtab_def wdir_def)
  then show "present (rd wtab 4 0)" "entry_frame (rd wtab 4 0) = 5" "present (rd wtab 5 64)" "entry_frame (rd wtab 5 64) = 6"
    using walk_entry [of 5] walk_entry [of 6] by simp_all
qed

lemma wtab_space_pt: "space_pt cid 4 wva True user wtab = (6, widen 5 64 user wtab)"
  using wtab_walk by (simp add: space_pt_def space_pd_def wva_index Let_def widen_def entry_frame_flags)

lemma wtab_maps: "fst (vmm_map_page 0 4 wva pa fl wtab) = 0"
  by (simp add: vmm_map_page_def wtab_space_pt)


section \<open>Releasing\<close>

text \<open>C7: \<open>vmm_free_address_space\<close> releases exactly what the space holds: its directory, its
  tables, and one reference of each page it mapped; the account of the other spaces and of
  everybody else still balances, and none of their translations changes.\<close>
theorem free_space_exact:
  assumes "vm_ok v (insert d D) E" and "d \<notin> D" and "cid < MAX_CORES"
  shows "vm_ok (vmm_free_address_space cid d v) D E \<and> same_ptes v D (vmm_free_address_space cid d v)
     \<and> (\<forall>f. rd (vmm_free_address_space cid d v) f = rd v f)"
proof -
  note F = free_space_ok [OF assms(3,1,2)]
  show ?thesis using F(1,3) views_rd(1) [OF F(3)] by (simp add: same_ptes_def)
qed

theorem free_space_exact_witness: "vm_ok (vmm_free_address_space 0 4 wvm) {} wrest"
  using free_space_exact [of wvm 4 "{}" wrest 0] wvm_vm(1) cid0 by simp

section \<open>Copy on write clone\<close>



section \<open>Copy on write faults\<close>




section \<open>The mapping window\<close>


text \<open>A task without mappings.\<close>

definition wenv :: mmap_env where
  "wenv = \<lparr>me_cid = 0, me_tid = 1, me_as_limit = None, me_heap = 0x08000000, me_kmalloc = (\<lambda>_. True), me_path = (\<lambda>_. True),
     me_read = (\<lambda>_. True), me_write = (\<lambda>_. True)\<rparr>"

definition wmm :: mstate where
  "wmm = \<lparr>mm_reg = (\<lambda>_. no_region), mm_dir = 4, mm_vm = wvm, mm_file = Map.empty, mm_fb_owner = -1\<rparr>"

lemma wmm_table: "table_ok wmm"
  by (simp add: table_ok_def regions_ok_def region_ok_def wmm_def no_region_def)



text \<open>One dirty page over frame 7, at \<open>wva\<close>, mapping a file of five bytes.\<close>

definition wregion :: region where
  "wregion = \<lparr>mr_base = wva, mr_size = 4096, mr_fsize = 5, mr_node = 3, mr_flags = MMAP_FILE_SHARED, mr_dirty = Some {0}\<rparr>"

definition wfile :: mstate where
  "wfile = wmm\<lparr>mm_reg := (\<lambda>_. no_region)(0 := wregion), mm_file := [3 \<mapsto> (5, \<lambda>_. 65)],
     mm_vm := set_frame 7 (bytes_frame (\<lambda>i. of_nat i)) wvm\<rparr>"


end
