(* ===== verification/Vmm_Findings.thy ===== *)
theory Vmm_Findings
  imports Vmm_Props
begin

text \<open>
  Where the paging code of \<open>src/sys/idt.c\<close> and \<open>src/sys/task.c\<close> does not do what it means to:
  a copy on write fault that finds no memory, and an unmap through a stale region entry.
\<close>

section \<open>Copy on write without memory\<close>

lemma page_va: "page_of (va AND NOT 0xFFF) = page_of va"
proof -
  have m: "(0xFFF :: u32) = mask 12" by (simp add: mask_eq_exp_minus_1)
  show ?thesis unfolding page_of_def m by (intro bit_word_eqI) (auto simp: bit_and_iff bit_not_iff bit_mask_iff bit_drop_bit_eq dest: bit_imp_le_length)
qed

lemma index_page_va: "pdpt_index (va AND NOT 0xFFF) = pdpt_index va" "pd_index (va AND NOT 0xFFF) = pd_index va"
    "pt_index (va AND NOT 0xFFF) = pt_index va"
  using index_page [OF page_va [of va]] by auto

lemma cow_oom_rd:
  assumes "cow_fault cid d va v = Some (CowOom, w)"
  shows "\<exists>t. pt_of v d (pdpt_index va) (pd_index va) = Some t \<and> present (rd v t (pt_index va)) \<and> has (rd v t (pt_index va)) PAGE_COW
     \<and> fr_refs (vm_fr w) (entry_frame (rd v t (pt_index va))) \<noteq> 1 \<and> rd w = rd v"
proof -
  obtain t where t: "pt_of v d (pdpt_index va) (pd_index va) = Some t" "present (rd v t (pt_index va))" "has (rd v t (pt_index va)) PAGE_COW"
    using assms by (auto simp: cow_fault_def Let_def split: option.splits if_splits)
  obtain p u where a: "phys_alloc cid v = (p, u)" by fastforce
  have ru: "rd u = rd v" using a by (auto simp: phys_alloc_def split: prod.splits)
  have "cow_resolve cid t (pt_index va) p u = (CowOom, w)" using assms t a by (simp add: cow_fault_def Let_def)
  then have "w = u" "fr_refs (vm_fr u) (entry_frame (rd v t (pt_index va))) \<noteq> 1"
    using ru t(3) by (auto simp: cow_resolve_def Let_def entry_paddr_bounds(3) split: if_splits)
  then show ?thesis using t ru by blast
qed

text \<open>A write to an anonymous page that a fork shares copy on write, when no frame is left for
  the copy, does not end the task as the log message says: the handler goes on to the mapping
  window, which sets the writable bit on the shared frame itself and resumes the task. From then
  on its stores land in the page the other space still maps.\<close>
theorem cow_oom_writes_shared:
  assumes "cow_fault (me_cid e) (mm_dir m) (pf_addr f) (mm_vm m) = Some (CowOom, v)"
    and "pt_of (mm_vm m) (mm_dir m) (pdpt_index (pf_addr f)) (pd_index (pf_addr f)) = Some t"
    and "\<not> has (rd (mm_vm m) t (pt_index (pf_addr f))) PAGE_RW"
    and "first_idx (\<lambda>j. in_region (pf_addr f) (mm_reg m j)) 0 MMAP_REGIONS = Some j"
    and "mr_flags (mm_reg m j) \<noteq> MMAP_FILE_SHARED" and "MMAP_BASE \<le> pf_addr f" and "pf_addr f < MMAP_END"
    and "pf_user f" and "pf_write f" and "\<not> pf_fetch f" and "\<not> pf_guard f"
  shows "\<exists>m'. page_fault e f m = (Resumed, m')
     \<and> fr_refs (vm_fr (mm_vm m')) (entry_frame (rd (mm_vm m) t (pt_index (pf_addr f)))) \<noteq> 1
     \<and> rd (mm_vm m') = rd (set_entry t (pt_index (pf_addr f)) (rd (mm_vm m) t (pt_index (pf_addr f)) OR PAGE_RW) (mm_vm m))"
proof -
  let ?va = "pf_addr f" and ?e = "rd (mm_vm m) t (pt_index (pf_addr f))"
  note O = cow_oom_rd [OF assms(1)]
  have v: "present ?e" "fr_refs (vm_fr v) (entry_frame ?e) \<noteq> 1" "rd v = rd (mm_vm m)" using O assms(2) by auto
  have tv: "pt_of v (mm_dir m) (pdpt_index ?va) (pd_index ?va) = Some t" using assms(2) unfolding pt_of_def pd_of_def v(3) .
  have pv: "pte_at v (mm_dir m) ?va = ?e" "pte_at v (mm_dir m) (?va AND NOT 0xFFF) = ?e"
    unfolding pte_at_def pte_of_def index_page_va using tv v(3) by simp_all
  have st: "\<not> stale_tlb f ?e" using assms(3) by (simp add: stale_tlb_def)
  define m1 where "m1 = m\<lparr>mm_vm := v\<rparr>"
  have m1: "mm_vm m1 = v" "mm_dir m1 = mm_dir m" "mm_reg m1 = mm_reg m" by (simp_all add: m1_def)
  define w where "w = m1\<lparr>mm_vm := set_entry t (pt_index ?va) (?e OR PAGE_RW) v\<rparr>"
  have "region_fault e j (?va AND NOT 0xFFF) True m1 = (Resume, w)"
    unfolding region_fault_def Let_def m1 pv(2) index_page_va using v(1) assms(3,5) tv by (simp add: w_def)
  then have "task_mmap_handle_fault e ?va True m1 = (Resume, w)" using assms(4) by (simp add: task_mmap_handle_fault_def m1(3))
  then have "mmap_fault e f m1 = (Resumed, w)" using assms(6-9) by (simp add: mmap_fault_def)
  then have "page_fault e f m = (Resumed, w)"
    using assms(1,10,11) st by (simp add: page_fault_def data_fault_def pv(1) m1_def Let_def)
  moreover have "vm_fr (mm_vm w) = vm_fr v" by (simp add: w_def)
  moreover have "rd (mm_vm w) = rd (set_entry t (pt_index ?va) (?e OR PAGE_RW) (mm_vm m))" using v(3) by (simp add: w_def set_entry_def)
  ultimately show ?thesis using v(2) by (intro exI [of _ w]) simp
qed

text \<open>The small machine with its page at the start of the mapping window; processor 1 finds no
  frame, they are all parked on processor 0.\<close>

definition wanon :: vmm where
  "wanon = set_entry 4 1 (rd wvm 4 0) wvm"

definition wshared :: vmm where
  "wshared = set_entry 5 0 (rd wvm 5 64) wanon"

lemma wshared_page: "pt_of wshared 4 1 0 = Some 6" "rd wshared 6 0 = wpte" "vm_fr wshared = wfr"
proof -
  have "pt_of wvm 4 0 64 = Some 6" by (rule wvm_vm)
  moreover have "pd_of wvm 4 0 = Some 5" using wdir_vm(3) by (simp add: pd_of_def wvm_def wtab_def split: if_splits)
  ultimately show "pt_of wshared 4 1 0 = Some 6"
    by (auto simp: pt_of_def pd_of_def wshared_def wanon_def split: if_splits)
  show "rd wshared 6 0 = wpte" "vm_fr wshared = wfr" by (simp_all add: wshared_def wanon_def wvm_def wtab_def wdir_def)
qed

lemma wfr_empty_cpu1: "fst (frame_alloc 1 wfr) = 0 \<and> fr_refs (snd (frame_alloc 1 wfr)) = fr_refs wfr"
proof -
  have h: "first_idx (\<lambda>o'. fr_heads s o' \<noteq> None) 0 (Suc BUDDY_MAX_ORDER) = None" if "fr_heads s = (\<lambda>_. None)" for s :: frames
    using that by (simp add: first_idx_None)
  have b: "buddy_alloc_locked s = (0, s)" if "fr_heads s = (\<lambda>_. None)" "fr_built s" for s
    using h [OF that(1)] that(2) by (simp add: buddy_alloc_locked_def)
  have w: "fr_heads wfr = (\<lambda>_. None)" "fr_built wfr" "fr_cache wfr 1 = []" by (simp_all add: wfr_def boot0_def)
  have f: "fetch_frames (Suc n) wfr = ([], wfr)" for n using b [OF w(1,2)] by simp
  have "percpu_cache_refill 1 wfr = wfr"
    using w f [of "PERCPU_REFILL_BATCH - 1"] by (simp add: percpu_cache_refill_def percpu_fetch_batch_def PERCPU_REFILL_BATCH_def PERCPU_REFILL_THRESHOLD_def)
  then have "percpu_cache_alloc 1 wfr = (0, wfr)" using w by (simp add: percpu_cache_alloc_def Let_def PERCPU_REFILL_THRESHOLD_def)
  then show ?thesis using b [OF w(1,2)] by (simp add: frame_alloc_def)
qed

definition wcow :: mstate where
  "wcow = wmm\<lparr>mm_reg := (\<lambda>_. no_region)(0 := \<lparr>mr_base = MMAP_BASE, mr_size = 4096, mr_fsize = 0, mr_node = -1, mr_flags = 0, mr_dirty = None\<rparr>),
     mm_vm := wshared\<rparr>"

theorem cow_oom_writes_shared_witness:
  "\<exists>m'. page_fault (wenv\<lparr>me_cid := 1\<rparr>) \<lparr>pf_addr = MMAP_BASE, pf_user = True, pf_write = True, pf_fetch = False, pf_guard = False\<rparr> wcow
        = (Resumed, m') \<and> rd (mm_vm m') 6 0 = wpte OR PAGE_RW"
proof -
  define f where "f = \<lparr>pf_addr = MMAP_BASE, pf_user = True, pf_write = True, pf_fetch = False, pf_guard = False\<rparr>"
  define e where "e = wenv\<lparr>me_cid := 1\<rparr>"
  have ix: "pdpt_index (pf_addr f) = 1" "pd_index (pf_addr f) = 0" "pt_index (pf_addr f) = 0"
    by (simp_all add: f_def MMAP_BASE_def pdpt_index_def pd_index_def pt_index_def drop_bit_eq_div)
  have m: "mm_dir wcow = 4" "mm_vm wcow = wshared" "me_cid e = 1" by (simp_all add: wcow_def wmm_def e_def)
  obtain u where a: "phys_alloc 1 wshared = (0, u)" and u: "rd u = rd wshared" "fr_refs (vm_fr u) = fr_refs wfr"
    using wfr_empty_cpu1 by (auto simp: phys_alloc_def case_prod_beta wshared_page(3))
  have w: "present wpte" "has wpte PAGE_COW" using wpte_entry by (simp_all add: cow_entry_def)
  have r: "cow_resolve 1 6 0 0 u = (CowOom, u)"
    using w u wpte_entry wshared_page(2) by (simp add: cow_resolve_def Let_def entry_paddr_bounds(3))
  have t: "pt_of (mm_vm wcow) (mm_dir wcow) (pdpt_index (pf_addr f)) (pd_index (pf_addr f)) = Some 6"
    using wshared_page(1) by (simp add: m ix)
  have c: "cow_fault (me_cid e) (mm_dir wcow) (pf_addr f) (mm_vm wcow) = Some (CowOom, u)"
    using t w a r by (simp add: cow_fault_def m ix wshared_page Let_def)
  have ro: "\<not> has (rd (mm_vm wcow) 6 (pt_index (pf_addr f))) PAGE_RW"
  proof -
    have "\<not> has (PAGE_USER OR PAGE_COW) PAGE_RW" by (auto simp: pte_simps bit_or_iff)
    then show ?thesis by (simp add: m ix wshared_page wpte_def pte_of_flags_has)
  qed
  have j: "first_idx (\<lambda>j. in_region (pf_addr f) (mm_reg wcow j)) 0 MMAP_REGIONS = Some 0"
    by (simp add: first_idx.simps in_region_def wcow_def f_def MMAP_REGIONS_def MMAP_BASE_def)
  have fl: "mr_flags (mm_reg wcow 0) \<noteq> MMAP_FILE_SHARED" by (simp add: wcow_def MMAP_FILE_SHARED_def)
  from cow_oom_writes_shared [OF c t ro j fl] show ?thesis
    unfolding f_def [symmetric] e_def [symmetric] by (auto simp: f_def MMAP_BASE_def MMAP_END_def m ix [unfolded f_def MMAP_BASE_def, simplified] wshared_page set_entry_def)
qed


section \<open>Unmapping address zero\<close>

text \<open>Clearing an entry maps nothing new.\<close>

lemma clear_entry:
  assumes "\<not> present (pte_at v d va)"
  shows "\<not> present (pte_at (set_entry t x 0 v) d va)"
  using assms by (auto simp: pte_at_def pte_of_def pt_of_def pd_of_def split: if_splits option.splits)

lemma munmap_one:
  assumes "i < n" and "\<forall>k < n. k \<noteq> i \<longrightarrow> \<not> present (pte_at v d (of_nat (k * 4096)))"
    and "pte_at v d (of_nat (i * 4096)) = e" and "present e" and "entry_frame e = i" and "fr_reserved (vm_fr v) \<le> i"
  shows "\<exists>t x. for_upto n (\<lambda>k. munmap_page cid d (of_nat (k * 4096))) v = set_entry t x 0 (phys_free cid (i * 4096) v)"
proof -
  let ?f = "\<lambda>k. munmap_page cid d (of_nat (k * 4096))"
  define t where "t = the (pt_of v d (pdpt_index (of_nat (i * 4096))) (pd_index (of_nat (i * 4096))))"
  define w where "w = set_entry t (pt_index (of_nat (i * 4096))) 0 (phys_free cid (i * 4096) v)"
  have skip: "?f k u = u" if "\<not> present (pte_at u d (of_nat (k * 4096)))" for k u using that by (simp add: munmap_page_def)
  have e: "entry_paddr e = i * 4096" using assms(5) by (simp add: entry_paddr_frame)
  have at: "?f i v = w" using assms(3,4,6) e unfolding munmap_page_def Let_def w_def t_def by simp
  have wm: "\<not> present (pte_at w d (of_nat (k * 4096)))" if "k < n" "k \<noteq> i" for k
  proof -
    have "\<not> present (pte_at (phys_free cid (i * 4096) v) d (of_nat (k * 4096)))"
      using assms(2) that views_rd(1) [of "phys_free cid (i * 4096) v" v] by (simp add: phys_free_def)
    then show ?thesis unfolding w_def by (rule clear_entry)
  qed
  have "if n \<le> i then for_upto n ?f v = v else for_upto n ?f v = w"
  proof (rule for_upto_indexed [where I = "\<lambda>k u. if k \<le> i then u = v else u = w"])
    show "if 0 \<le> i then v = v else v = w" by simp
    fix k u assume "k < n" "if k \<le> i then u = v else u = w"
    then show "if Suc k \<le> i then ?f k u = v else ?f k u = w"
      using at skip [of v k] skip [of w k] wm [of k] assms(2) by (cases "k = i") (auto split: if_splits)
  qed
  then show ?thesis using assms(1) unfolding w_def by (intro exI) auto
qed

text \<open>A mapping left behind by \<open>exec\<close> or by the last owner of a task slot has base 0 but keeps
  its size, and \<open>munmap(0)\<close> takes it for a region at address 0: it releases the frame behind
  every page below that size, also frames the caller sees only through the kernel's identity
  map and which somebody else owns.\<close>
theorem munmap_zero_frees_foreign:
  assumes "phys_ok (vm_fr (mm_vm m))" and "me_cid e < MAX_CORES" and "owned (vm_fr (mm_vm m)) i = Some 1"
    and "fr_reserved (vm_fr (mm_vm m)) \<le> i" and "mr_flags (mm_reg m 0) \<noteq> MMAP_FILE_SHARED"
    and "i < npages (mm_reg m 0)" and "present (pte_at (mm_vm m) (mm_dir m) (of_nat (i * 4096)))"
    and "entry_frame (pte_at (mm_vm m) (mm_dir m) (of_nat (i * 4096))) = i"
    and "\<forall>k < npages (mm_reg m 0). k \<noteq> i \<longrightarrow> \<not> present (pte_at (mm_vm m) (mm_dir m) (of_nat (k * 4096)))"
  shows "\<exists>m'. task_munmap e 0 (mmap_reset m) = (1, m') \<and> owned (vm_fr (mm_vm m')) i = None"
proof -
  let ?r = "mm_reg (mmap_reset m) 0"
  have r: "npages ?r = npages (mm_reg m 0)" "mr_flags ?r = mr_flags (mm_reg m 0)" "mr_base ?r = 0"
    by (simp_all add: mmap_reset_def npages_def MMAP_REGIONS_def)
  have f: "first_idx (\<lambda>j. mr_base (mm_reg (mmap_reset m) j) = 0) 0 MMAP_REGIONS = Some 0"
    using r(3) by (simp add: first_idx.simps MMAP_REGIONS_def)
  have d: "mm_vm (mmap_reset m) = mm_vm m" "mm_dir (mmap_reset m) = mm_dir m" by (simp_all add: mmap_reset_def)
  obtain t x where l: "for_upto (npages (mm_reg m 0)) (\<lambda>k. munmap_page (me_cid e) (mm_dir m) (of_nat (k * 4096))) (mm_vm m)
      = set_entry t x 0 (phys_free (me_cid e) (i * 4096) (mm_vm m))"
    using munmap_one [OF assms(6,9) refl assms(7,8,4)] by blast
  define v where "v = set_entry t x 0 (phys_free (me_cid e) (i * 4096) (mm_vm m))"
  have "task_munmap e 0 (mmap_reset m) = (1, set_region 0 no_region ((mmap_reset m)\<lparr>mm_vm := v\<rparr>))"
    unfolding task_munmap_def f option.case Let_def r using assms(5) l d by (simp add: v_def)
  moreover have "vm_fr (mm_vm (set_region 0 no_region ((mmap_reset m)\<lparr>mm_vm := v\<rparr>))) = frame_free (me_cid e) (i * 4096) (vm_fr (mm_vm m))"
    by (simp add: set_region_def v_def set_entry_def phys_free_def)
  ultimately show ?thesis using frame_free_contract [OF assms(1,2,3)] by auto
qed

text \<open>The small machine with frame 8, which a holder outside owns, mapped one to one, and a task
  that had nine anonymous pages before \<open>exec\<close>.\<close>

definition wident :: vmm where
  "wident = set_entry 6 8 (of_nat (8 * 4096) OR PAGE_PRESENT OR PAGE_RW) (set_entry 6 0 0 (set_entry 5 0 (rd wvm 5 64) wvm))"

definition wstale :: mstate where
  "wstale = wmm\<lparr>mm_reg := (\<lambda>_. no_region)(0 := \<lparr>mr_base = MMAP_BASE, mr_size = 9 * 4096, mr_fsize = 0, mr_node = -1, mr_flags = 0, mr_dirty = None\<rparr>),
     mm_vm := wident\<rparr>"

theorem munmap_zero_frees_foreign_witness:
  "\<exists>m'. task_munmap wenv 0 (mmap_reset wstale) = (1, m') \<and> owned (vm_fr (mm_vm m')) 8 = None"
proof (rule munmap_zero_frees_foreign)
  have fr: "vm_fr wident = wfr" by (simp add: wident_def wvm_fr)
  have m: "vm_fr (mm_vm wstale) = wfr" "mm_dir wstale = 4" "mm_vm wstale = wident" "mm_reg wstale 0 = \<lparr>mr_base = MMAP_BASE, mr_size = 9 * 4096, mr_fsize = 0, mr_node = -1, mr_flags = 0, mr_dirty = None\<rparr>"
    by (simp_all add: wstale_def wmm_def fr)
  show "phys_ok (vm_fr (mm_vm wstale))" using wfr_ok by (simp add: m fr)
  show "me_cid wenv < MAX_CORES" by (simp add: wenv_def MAX_CORES_def)
  have "live wfr {#} 8" using wfr_live by simp
  then show "owned (vm_fr (mm_vm wstale)) 8 = Some 1" by (simp add: m fr held_def)
  show "fr_reserved (vm_fr (mm_vm wstale)) \<le> 8" by (simp add: m fr)
  show "mr_flags (mm_reg wstale 0) \<noteq> MMAP_FILE_SHARED" by (simp add: m MMAP_FILE_SHARED_def)
  have n: "npages (mm_reg wstale 0) = 9" by (simp add: m npages_def)
  show "8 < npages (mm_reg wstale 0)" by (simp add: n)
  have t: "pt_of wident 4 0 0 = Some 6"
  proof -
    have "pt_of wvm 4 0 64 = Some 6" by (rule wvm_vm)
    moreover have "pd_of wvm 4 0 = Some 5" using wdir_vm(3) by (simp add: pd_of_def wvm_def wtab_def split: if_splits)
    ultimately show ?thesis by (auto simp: pt_of_def pd_of_def wident_def split: if_splits)
  qed
  have p: "pte_at wident 4 (of_nat (k * 4096)) = rd wident 6 k" if "k < 9" for k
  proof -
    have "k \<in> {0,1,2,3,4,5,6,7,8}" using that by auto
    then have "pdpt_index (of_nat (k * 4096)) = 0 \<and> pd_index (of_nat (k * 4096)) = 0 \<and> pt_index (of_nat (k * 4096)) = k"
      by (auto simp: pdpt_index_def pd_index_def pt_index_def drop_bit_eq_div)
    then show ?thesis using t by (simp add: pte_at_def pte_of_def)
  qed
  have e: "rd wident 6 8 = of_nat (8 * 4096) OR PAGE_PRESENT OR PAGE_RW" by (simp add: wident_def)
  have w: "(0::nat) < 8" "(8::nat) < 2 ^ 20" by simp_all
  note E = walk_entry(3,4) [OF w]
  show "present (pte_at (mm_vm wstale) (mm_dir wstale) (of_nat (8 * 4096)))" using E p [of 8] e by (simp add: m)
  show "entry_frame (pte_at (mm_vm wstale) (mm_dir wstale) (of_nat (8 * 4096))) = 8" using E p [of 8] e by (simp add: m)
  show "\<forall>k < npages (mm_reg wstale 0). k \<noteq> 8 \<longrightarrow> \<not> present (pte_at (mm_vm wstale) (mm_dir wstale) (of_nat (k * 4096)))"
  proof (intro allI impI)
    fix k assume "k < npages (mm_reg wstale 0)" "k \<noteq> 8"
    then have "pte_at wident 4 (of_nat (k * 4096)) = rd wident 6 k" "k \<noteq> 8" using p n by simp_all
    moreover have "rd wident 6 k = 0" if "k \<noteq> 8" for k
      using that by (simp add: wident_def wvm_def wtab_def wdir_def)
    ultimately show "\<not> present (pte_at (mm_vm wstale) (mm_dir wstale) (of_nat (k * 4096)))" by (simp add: m)
  qed
qed

end
