(* ===== verification/Task.thy ===== *)
theory Task
  imports Mectov_Prelude
begin

text \<open>
  The task table and the per-CPU runqueues of \<open>src/sys/task.c\<close>. Task ids are C
  \<open>int\<close>s with \<open>-1\<close> for "none", so every guard of the code on an id is written out; slots
  outside the table are never read after their guard. The kernel state also carries what
  the code keeps per core: the running task, the kernel stack top in the TSS, the loaded
  page directory and the FPU image.
  Calls into components with a state of their own (window manager, file table, shared
  memory, address spaces) are recorded in order in \<open>kn_calls\<close>; the ones that answer the
  caller (a user pointer check, a user stack mapping) are fields of the state.
  \<open>kn_this\<close> is the core that executes the operation, for the code that reads its CR3.
  \<open>task_lock\<close> is held with interrupts off throughout, so each operation is one step.
\<close>

definition MAX_TASKS :: int where
  "MAX_TASKS = 64"

definition MAX_CPUS :: int where
  "MAX_CPUS = 16"

definition MAX_FDS_PER_TASK :: int where
  "MAX_FDS_PER_TASK = 32"

definition MAX_GLOBAL_FDS :: int where
  "MAX_GLOBAL_FDS = 256"

definition SIG_MAX :: int where
  "SIG_MAX = 32"

definition MMAP_MAX_REGIONS :: int where
  "MMAP_MAX_REGIONS = 8"

definition DEFERRED_PD_MAX :: nat where
  "DEFERRED_PD_MAX = 8"

definition TIMER_MS_PER_TICK :: int where
  "TIMER_MS_PER_TICK = 1000 div 100"

definition KERNEL_STACK_SIZE :: u32 where
  "KERNEL_STACK_SIZE = 32768"

definition KERNEL_STACK_GUARD :: u32 where
  "KERNEL_STACK_GUARD = 4096"

definition KERNEL_STACK_SLOT :: u32 where
  "KERNEL_STACK_SLOT = KERNEL_STACK_SIZE + KERNEL_STACK_GUARD"

datatype tstate = FREE | RUNNING | READY | SLEEP | BLOCKED | ZOMBIE | STOPPED

text \<open>The saved register frame (\<open>registers_t\<close>) and the signal frame on the user stack.\<close>

record regs =
  r_gs :: u32
  r_fs :: u32
  r_ds :: u32
  r_edi :: u32
  r_esi :: u32
  r_ebp :: u32
  r_ebx :: u32
  r_edx :: u32
  r_ecx :: u32
  r_eax :: u32
  r_eip :: u32
  r_cs :: u32
  r_eflags :: u32
  r_useresp :: u32
  r_ss :: u32

record sigframe =
  sf_sig :: u32
  sf_eax :: u32
  sf_ecx :: u32
  sf_edx :: u32
  sf_ebx :: u32
  sf_esi :: u32
  sf_edi :: u32
  sf_ebp :: u32
  sf_eip :: u32
  sf_cs :: u32
  sf_eflags :: u32
  sf_esp :: u32
  sf_ss :: u32
  sf_blocked :: u32
  sf_restart :: u32
  sf_restart_arg :: u32

text \<open>\<open>task_t\<close>: a signal handler is 0 for the default action, 1 for \<open>SIG_IGN_SENTINEL\<close>,
  otherwise the user address.\<close>

record task =
  tk_esp :: u32
  tk_watermark :: u32
  tk_state :: tstate
  tk_ring :: nat
  tk_priority :: int
  tk_sleep :: int
  tk_wait :: int
  tk_rq :: int
  tk_idle :: bool
  tk_pd :: u32
  tk_fd :: "int \<Rightarrow> int"
  tk_launch :: string
  tk_name :: string
  tk_trusted :: bool
  tk_dir :: int
  tk_heap :: u32
  tk_parent :: int
  tk_exit :: int
  tk_pgrp :: int
  tk_session :: int
  tk_waiting :: int
  tk_pending :: u32
  tk_handler :: "int \<Rightarrow> u32"
  tk_mask :: "int \<Rightarrow> u32"
  tk_sflags :: "int \<Rightarrow> u32"
  tk_blocked :: u32
  tk_restart :: u32
  tk_sigesp :: u32
  tk_zsince :: u32
  tk_shm :: u32
  tk_cpu :: u32
  tk_nice :: int
  tk_mmap :: "int \<Rightarrow> u32 \<times> u32"
  tk_uid :: int
  tk_gid :: int
  tk_tls :: u32
  tk_rlim :: "int \<Rightarrow> u32 \<times> u32"
  tk_fpu :: "u8 list"

text \<open>Calls into other components.\<close>

datatype call =
    WmCleanup int
  | TermKeyClear
  | CloseFds int
  | ShmExit int
  | FreeBitmaps int
  | FreeSpace u32

record kern =
  kn_task :: "int \<Rightarrow> task"
  kn_cur :: "int \<Rightarrow> int"
  kn_rq :: "int \<Rightarrow> int list"
  kn_num :: int
  kn_ncpu :: int
  kn_this :: int
  kn_fg :: int
  kn_fb :: int
  kn_term_run :: bool
  kn_term_tid :: int
  kn_ms :: u32
  kn_sweep :: u32
  kn_reap_ms :: u32
  kn_dpd :: "(u32 \<times> int) list"
  kn_clean_lo :: u32
  kn_clean_hi :: u32
  kn_frame :: "u32 \<Rightarrow> regs"
  kn_uframe :: "u32 \<Rightarrow> u32 \<Rightarrow> sigframe"
  kn_uword :: "u32 \<Rightarrow> u32 \<Rightarrow> u32"
  kn_uok :: "u32 \<Rightarrow> u32 \<Rightarrow> u32 \<Rightarrow> bool"
  kn_ustack :: "u32 \<Rightarrow> u32 \<Rightarrow> u32"
  kn_calls :: "call list"
  kn_gdt :: "int \<Rightarrow> u32 option"
  kn_gfd_use :: "int \<Rightarrow> bool"
  kn_gfd_ref :: "int \<Rightarrow> int"
  kn_tss :: "int \<Rightarrow> u32"
  kn_cr3 :: "int \<Rightarrow> u32"
  kn_fpu :: "int \<Rightarrow> u8 list"
  kn_fpu0 :: "u8 list"
  kn_kbase :: u32
  kn_park :: u32
  kn_apidle :: u32
  kn_busy :: "int \<Rightarrow> u32"
  kn_ticks :: "int \<Rightarrow> u32"
  kn_load :: "int \<Rightarrow> u32"
  kn_window :: int

definition upd_task :: "int \<Rightarrow> (task \<Rightarrow> task) \<Rightarrow> kern \<Rightarrow> kern" where
  "upd_task t f k = k\<lparr>kn_task := (kn_task k)(t := f (kn_task k t))\<rparr>"

abbreviation set_state :: "int \<Rightarrow> tstate \<Rightarrow> kern \<Rightarrow> kern" where
  "set_state t s \<equiv> upd_task t (\<lambda>x. x\<lparr>tk_state := s\<rparr>)"

definition call :: "call \<Rightarrow> kern \<Rightarrow> kern" where
  "call c k = k\<lparr>kn_calls := kn_calls k @ [c]\<rparr>"

text \<open>\<open>i\<close> runs over the slots of the table in the order of the code's loops.\<close>

definition slots :: "int list" where
  "slots = [0..63]"

definition user_slots :: "int list" where
  "user_slots = [1..63]"

definition cpus :: "int list" where
  "cpus = [0..15]"

definition kstack_top :: "kern \<Rightarrow> int \<Rightarrow> u32" where
  "kstack_top k t = (if t < 0 \<or> t \<ge> MAX_TASKS then 0 else kn_kbase k + word_of_int (t + 1) * KERNEL_STACK_SLOT)"

definition kstack_guard :: "kern \<Rightarrow> int \<Rightarrow> u32" where
  "kstack_guard k t = (if t < 0 \<or> t \<ge> MAX_TASKS then 0 else kn_kbase k + word_of_int t * KERNEL_STACK_SLOT)"

section \<open>Runqueues\<close>

definition slot_still_current :: "int \<Rightarrow> kern \<Rightarrow> bool" where
  "slot_still_current t k = list_ex (\<lambda>c. kn_cur k c = t) cpus"

definition task_current_anywhere :: "int \<Rightarrow> kern \<Rightarrow> bool" where
  "task_current_anywhere t k = list_ex (\<lambda>c. kn_cur k c = t) cpus"

definition task_is_current_elsewhere :: "int \<Rightarrow> int \<Rightarrow> kern \<Rightarrow> bool" where
  "task_is_current_elsewhere cid t k = list_ex (\<lambda>c. c \<noteq> cid \<and> kn_cur k c = t) cpus"

definition rq_enqueue :: "int \<Rightarrow> int \<Rightarrow> kern \<Rightarrow> kern" where
  "rq_enqueue cpu0 t k =
     (if t < 0 \<or> t \<ge> MAX_TASKS \<or> cpu0 < 0 \<or> cpu0 \<ge> MAX_CPUS then k
      else if tk_rq (kn_task k t) \<ge> 0 then k
      else if tk_state (kn_task k t) = ZOMBIE \<or> tk_state (kn_task k t) = FREE then k
      else if tk_idle (kn_task k t) \<and> cpu0 \<noteq> t then k
      else
        (let cpu = (if int (length (kn_rq k cpu0)) \<ge> MAX_TASKS then 0 else cpu0)
         in upd_task t (\<lambda>x. x\<lparr>tk_rq := cpu\<rparr>) (k\<lparr>kn_rq := (kn_rq k)(cpu := kn_rq k cpu @ [t])\<rparr>)))"

text \<open>Removing an entry moves the last one into its place.\<close>

fun swap_out :: "int \<Rightarrow> int list \<Rightarrow> int list" where
  "swap_out t [] = []"
| "swap_out t (x # xs) =
     (if x = t then (case xs of [] \<Rightarrow> [] | _ \<Rightarrow> last xs # butlast xs) else x # swap_out t xs)"

definition rq_remove :: "int \<Rightarrow> kern \<Rightarrow> kern" where
  "rq_remove t k =
     (if t < 0 \<or> t \<ge> MAX_TASKS then k
      else
        (let cpu = tk_rq (kn_task k t)
         in if cpu < 0 \<or> cpu \<ge> MAX_CPUS then k
            else upd_task t (\<lambda>x. x\<lparr>tk_rq := -1\<rparr>) (k\<lparr>kn_rq := (kn_rq k)(cpu := swap_out t (kn_rq k cpu))\<rparr>)))"

fun rq_least_from :: "(int \<Rightarrow> int list) \<Rightarrow> int \<Rightarrow> int list \<Rightarrow> int" where
  "rq_least_from q best [] = best"
| "rq_least_from q best (c # cs) =
     rq_least_from q (if length (q c) < length (q best) then c else best) cs"

definition rq_least_loaded :: "kern \<Rightarrow> int" where
  "rq_least_loaded k = rq_least_from (kn_rq k) 0 [1..kn_ncpu k - 1]"

definition rq_enqueue_wake :: "int \<Rightarrow> kern \<Rightarrow> kern" where
  "rq_enqueue_wake t k =
     (if t \<le> 0 \<or> t \<ge> MAX_TASKS then k
      else if tk_idle (kn_task k t) then k
      else rq_enqueue (rq_least_loaded k) t k)"

text \<open>C division truncates towards zero.\<close>

definition half :: "int \<Rightarrow> int" where
  "half x = (if x \<ge> 0 then x div 2 else - ((- x) div 2))"

definition rq_score :: "task \<Rightarrow> int" where
  "rq_score x = tk_priority x * 10 + half (10 - tk_nice x) + tk_wait x"

definition rq_eligible :: "int \<Rightarrow> int \<Rightarrow> kern \<Rightarrow> bool" where
  "rq_eligible cid t k \<longleftrightarrow>
     tk_state (kn_task k t) = READY \<and> \<not> (t = 0 \<and> cid \<noteq> 0) \<and>
     \<not> (tk_idle (kn_task k t) \<and> cid \<noteq> t) \<and> \<not> task_is_current_elsewhere cid t k"

fun rq_pick_loop :: "int \<Rightarrow> int list \<Rightarrow> int \<Rightarrow> int \<Rightarrow> kern \<Rightarrow> int \<times> kern" where
  "rq_pick_loop cid [] best best_score k = (best, k)"
| "rq_pick_loop cid (t # q) best best_score k =
     (if \<not> rq_eligible cid t k then rq_pick_loop cid q best best_score k
      else
        (let k1 = upd_task t (\<lambda>x. x\<lparr>tk_wait := tk_wait x + 1\<rparr>) k;
             score = rq_score (kn_task k1 t)
         in if score > best_score then rq_pick_loop cid q t score k1
            else rq_pick_loop cid q best best_score k1))"

definition rq_pick :: "int \<Rightarrow> kern \<Rightarrow> int \<times> kern" where
  "rq_pick cid k =
     (let (best, k1) = rq_pick_loop cid (kn_rq k cid) (-1) (-1) k
      in (best, if best \<ge> 0 then upd_task best (\<lambda>x. x\<lparr>tk_wait := 0\<rparr>) k1 else k1))"

fun rq_steal_queue :: "int \<Rightarrow> int \<Rightarrow> int list \<Rightarrow> int \<times> int \<times> int \<Rightarrow> kern \<Rightarrow> int \<times> int \<times> int" where
  "rq_steal_queue cid c [] acc k = acc"
| "rq_steal_queue cid c (t # q) (best, best_score, src) k =
     (if t = 0 \<or> tk_idle (kn_task k t) \<or> tk_state (kn_task k t) \<noteq> READY \<or> task_is_current_elsewhere cid t k
      then rq_steal_queue cid c q (best, best_score, src) k
      else if rq_score (kn_task k t) > best_score
      then rq_steal_queue cid c q (t, rq_score (kn_task k t), c) k
      else rq_steal_queue cid c q (best, best_score, src) k)"

fun rq_steal_cpus :: "int \<Rightarrow> int list \<Rightarrow> int \<times> int \<times> int \<Rightarrow> kern \<Rightarrow> int \<times> int \<times> int" where
  "rq_steal_cpus cid [] acc k = acc"
| "rq_steal_cpus cid (c # cs) acc k =
     (if c = cid then rq_steal_cpus cid cs acc k
      else rq_steal_cpus cid cs (rq_steal_queue cid c (kn_rq k c) acc k) k)"

definition rq_steal :: "int \<Rightarrow> kern \<Rightarrow> int \<times> kern" where
  "rq_steal cid k =
     (let (best, best_score, src) = rq_steal_cpus cid [0..kn_ncpu k - 1] (-1, -1, -1) k
      in if best < 0 then (-1, k)
         else
           (let k1 = k\<lparr>kn_rq := (kn_rq k)(src := swap_out best (kn_rq k src))\<rparr>;
                k2 = upd_task best (\<lambda>x. x\<lparr>tk_rq := cid\<rparr>) k1
            in (best, k2\<lparr>kn_rq := (kn_rq k2)(cid := kn_rq k2 cid @ [best])\<rparr>)))"

definition task_is_idle :: "int \<Rightarrow> kern \<Rightarrow> bool" where
  "task_is_idle t k = (if t \<le> 0 \<or> t \<ge> MAX_TASKS then False else tk_idle (kn_task k t))"

definition task_is_alive :: "int \<Rightarrow> kern \<Rightarrow> bool" where
  "task_is_alive t k =
     (if t < 0 \<or> t \<ge> MAX_TASKS then False
      else tk_state (kn_task k t) \<noteq> FREE \<and> tk_state (kn_task k t) \<noteq> ZOMBIE)"

definition task_get_state :: "int \<Rightarrow> kern \<Rightarrow> tstate" where
  "task_get_state t k = (if t < 0 \<or> t \<ge> MAX_TASKS then FREE else tk_state (kn_task k t))"

definition task_get_page_dir :: "int \<Rightarrow> kern \<Rightarrow> u32" where
  "task_get_page_dir t k = (if t < 0 \<or> t \<ge> MAX_TASKS then 0 else tk_pd (kn_task k t))"

definition task_in_kernel_space :: "int \<Rightarrow> kern \<Rightarrow> bool" where
  "task_in_kernel_space t k =
     (let pd = task_get_page_dir t k
      in if pd = 0 then True else (pd AND 0xFFFFF000) = (tk_pd (kn_task k 0) AND 0xFFFFF000))"

section \<open>Blocking, sleeping and waking\<close>

definition task_set_state :: "int \<Rightarrow> tstate \<Rightarrow> kern \<Rightarrow> kern" where
  "task_set_state t s k =
     (if t < 0 \<or> t \<ge> MAX_TASKS then k
      else if tk_idle (kn_task k t) \<and> s \<noteq> RUNNING \<and> s \<noteq> READY then k
      else
        (let old = tk_state (kn_task k t)
         in if (old = FREE \<or> old = ZOMBIE) \<and> (s = READY \<or> s = RUNNING) then k
            else if old \<noteq> s then
              (let k1 = set_state t s k
               in if s = READY then
                    (let k2 = upd_task t (\<lambda>x. x\<lparr>tk_sleep := 0\<rparr>) k1
                     in if \<not> task_current_anywhere t k2 then rq_enqueue_wake t k2 else k2)
                  else if s \<noteq> RUNNING then rq_remove t k1
                  else k1)
            else k))"

definition task_sleep :: "int \<Rightarrow> int \<Rightarrow> kern \<Rightarrow> kern" where
  "task_sleep cid n k =
     (if kn_cur k cid < 0 \<or> n \<le> 0 then k
      else rq_remove (kn_cur k cid)
             (upd_task (kn_cur k cid) (\<lambda>x. x\<lparr>tk_sleep := n, tk_state := SLEEP\<rparr>) k))"

definition task_wake :: "int \<Rightarrow> kern \<Rightarrow> kern" where
  "task_wake t k =
     (if t < 0 \<or> t \<ge> MAX_TASKS then k
      else if tk_state (kn_task k t) = SLEEP
      then rq_enqueue_wake t (upd_task t (\<lambda>x. x\<lparr>tk_sleep := 0, tk_state := READY\<rparr>) k)
      else k)"

section \<open>Creating tasks\<close>

definition rlimit_defaults :: "int \<Rightarrow> u32 \<times> u32" where
  "rlimit_defaults r =
     (if r = 0 then (64, 64) else if r = 1 then (256 * 1024 * 1024, 256 * 1024 * 1024) else (32, 32))"

fun nproc_count :: "int list \<Rightarrow> int \<Rightarrow> int \<Rightarrow> int \<Rightarrow> kern \<Rightarrow> bool" where
  "nproc_count [] uid lim n k = True"
| "nproc_count (i # is) uid lim n k =
     (if tk_state (kn_task k i) = FREE then nproc_count is uid lim n k
      else
        (let n1 = (if tk_uid (kn_task k i) = uid then n + 1 else n)
         in if n1 \<ge> lim then False else nproc_count is uid lim n1 k))"

definition rlimit_nproc_allows :: "int \<Rightarrow> kern \<Rightarrow> bool" where
  "rlimit_nproc_allows t k =
     (if tk_uid (kn_task k t) = ROOT_UID then True
      else
        (let lim = fst (tk_rlim (kn_task k t) 0)
         in if lim = 0 then False else nproc_count user_slots (tk_uid (kn_task k t)) (sint lim) 0 k))"

definition gdt_tls_update :: "int \<Rightarrow> u32 \<Rightarrow> kern \<Rightarrow> kern" where
  "gdt_tls_update t base k = (if t < 0 \<or> t \<ge> 64 then k else k\<lparr>kn_gdt := (kn_gdt k)(t := Some base)\<rparr>)"

definition gdt_tls_clear :: "int \<Rightarrow> kern \<Rightarrow> kern" where
  "gdt_tls_clear t k = (if t < 0 \<or> t \<ge> 64 then k else k\<lparr>kn_gdt := (kn_gdt k)(t := None)\<rparr>)"

end
