(* ===== verification/Task_Create.thy ===== *)
theory Task_Create
  imports Task
begin

text \<open>
  Task construction (\<open>create_task\<close>, \<open>create_idle_task\<close>, \<open>thread_create_ex\<close>,
  \<open>init_tasking\<close>), the trusted-shell flag, resource limits and the accessors with a rule
  of their own, from \<open>src/sys/task.c\<close>.
\<close>

definition first_slot :: "(int \<Rightarrow> bool) \<Rightarrow> int list \<Rightarrow> int option" where
  "first_slot P is = List.find P is"

text \<open>The frames the constructors build at the top of the slot's kernel stack.\<close>

definition ring0_frame :: "u32 \<Rightarrow> regs" where
  "ring0_frame entry = \<lparr>r_gs = 0x10, r_fs = 0x10, r_ds = 0x10, r_edi = 0, r_esi = 0, r_ebp = 0, r_ebx = 0,
     r_edx = 0, r_ecx = 0, r_eax = 0, r_eip = entry, r_cs = 0x08, r_eflags = 0x202, r_useresp = 0, r_ss = 0\<rparr>"

definition ring3_frame :: "u32 \<Rightarrow> u32 \<Rightarrow> u32 \<Rightarrow> regs" where
  "ring3_frame entry esp tsel = \<lparr>r_gs = tsel, r_fs = tsel, r_ds = 0x23, r_edi = 0, r_esi = 0, r_ebp = 0, r_ebx = 0,
     r_edx = 0, r_ecx = 0, r_eax = 0, r_eip = entry, r_cs = 0x1B, r_eflags = 0x202, r_useresp = esp, r_ss = 0x23\<rparr>"

definition put_frame :: "u32 \<Rightarrow> regs \<Rightarrow> kern \<Rightarrow> kern" where
  "put_frame a f k = k\<lparr>kn_frame := (kn_frame k)(a := f)\<rparr>"

definition cur_valid :: "int \<Rightarrow> kern \<Rightarrow> bool" where
  "cur_valid cid k \<longleftrightarrow> 0 \<le> kn_cur k cid \<and> kn_cur k cid < MAX_TASKS"

definition task_set_launch_arg :: "int \<Rightarrow> string \<Rightarrow> kern \<Rightarrow> kern" where
  "task_set_launch_arg t s k = (if t < 0 \<or> t \<ge> MAX_TASKS then k else upd_task t (\<lambda>x. x\<lparr>tk_launch := take 127 s\<rparr>) k)"

definition create_task :: "int \<Rightarrow> u32 \<Rightarrow> kern \<Rightarrow> int \<times> kern" where
  "create_task cid entry k =
     (case first_slot (\<lambda>i. tk_state (kn_task k i) = FREE) slots of
        None \<Rightarrow> (-1, k)
      | Some i \<Rightarrow>
          (let me = kn_task k (kn_cur k cid);
               k1 = upd_task i (\<lambda>x. x\<lparr>tk_ring := 0, tk_priority := 1, tk_nice := (if cur_valid cid k then tk_nice me else 0),
                      tk_cpu := 0, tk_wait := 0, tk_dir := (if cur_valid cid k then tk_dir me else 0), tk_parent := 0,
                      tk_exit := 0, tk_pgrp := 0, tk_session := 0, tk_waiting := 0, tk_pending := 0, tk_blocked := 0,
                      tk_sigesp := 0, tk_zsince := 0, tk_shm := 0, tk_handler := (\<lambda>_. 0), tk_mask := (\<lambda>_. 0),
                      tk_sflags := (\<lambda>_. 0)\<rparr>) k;
               k2 = task_set_launch_arg i ''sys_kernel'' k1;
               esp = kstack_top k i - 64;
               k3 = put_frame esp (ring0_frame entry)
                      (upd_task i (\<lambda>x. x\<lparr>tk_fd := (\<lambda>_. -1), tk_fpu := kn_fpu0 k, tk_esp := esp, tk_watermark := 0,
                         tk_rq := -1, tk_idle := False, tk_tls := 0, tk_rlim := rlimit_defaults\<rparr>) k2);
               k4 = set_state i READY (k3\<lparr>kn_num := kn_num k3 + 1\<rparr>)
           in (i, rq_enqueue (rq_least_loaded k4) i k4)))"

definition create_idle_task :: "int \<Rightarrow> kern \<Rightarrow> int \<times> kern" where
  "create_idle_task cpu k =
     (case first_slot (\<lambda>i. tk_state (kn_task k i) = FREE \<and> \<not> slot_still_current i k) user_slots of
        None \<Rightarrow> (-1, k)
      | Some i \<Rightarrow>
          (let esp = kstack_top k i - 64;
               k1 = put_frame esp (ring0_frame (kn_apidle k))
                      (upd_task i (\<lambda>x. x\<lparr>tk_ring := 0, tk_priority := 0, tk_nice := 0, tk_cpu := 0, tk_sleep := 0,
                         tk_wait := 0, tk_pd := tk_pd (kn_task k 0), tk_parent := 0, tk_exit := 0, tk_pgrp := 0,
                         tk_session := 0, tk_waiting := 0, tk_pending := 0, tk_blocked := 0, tk_restart := 0,
                         tk_sigesp := 0, tk_zsince := 0, tk_shm := 0, tk_fd := (\<lambda>_. -1),
                         tk_mmap := (\<lambda>j. (0, snd (tk_mmap x j))), tk_handler := (\<lambda>_. 0), tk_mask := (\<lambda>_. 0),
                         tk_sflags := (\<lambda>_. 0), tk_idle := True, tk_rq := -1, tk_rlim := rlimit_defaults,
                         tk_fpu := kn_fpu0 k, tk_esp := esp, tk_watermark := 0\<rparr>) k);
               k2 = set_state i READY (k1\<lparr>kn_num := kn_num k1 + 1\<rparr>)
           in (i, rq_enqueue cpu i k2)))"

text \<open>A new thread takes its creator's open descriptors, one reference each.\<close>

fun inherit_fds :: "int list \<Rightarrow> int \<Rightarrow> int \<Rightarrow> kern \<Rightarrow> kern" where
  "inherit_fds [] me i k = k"
| "inherit_fds (j # js) me i k =
     (let g = tk_fd (kn_task k me) j
      in if 0 \<le> g \<and> g < MAX_GLOBAL_FDS \<and> kn_gfd_use k g
         then inherit_fds js me i
                ((upd_task i (\<lambda>x. x\<lparr>tk_fd := (tk_fd x)(j := g)\<rparr>) k)\<lparr>kn_gfd_ref := (kn_gfd_ref k)(g := kn_gfd_ref k g + 1)\<rparr>)
         else inherit_fds js me i k)"

definition USER_STACK_TOP :: u32 where
  "USER_STACK_TOP = 0x1F000000"

definition USER_STACK_SIZE :: u32 where
  "USER_STACK_SIZE = 0x10000"

text \<open>\<open>tls_gs_sel\<close> is a selector computed by gdt.c from the slot; only its being the slot's
  own matters here, so it is the argument \<open>tsel\<close>.\<close>

definition thread_create_ex :: "(int \<Rightarrow> u32) \<Rightarrow> int \<Rightarrow> u32 \<Rightarrow> int \<Rightarrow> u32 \<Rightarrow> u32 \<Rightarrow> u32 \<Rightarrow> kern \<Rightarrow> int \<times> kern" where
  "thread_create_ex tsel cid entry priority0 pd child_stack tls k =
     (let priority = (if priority0 < 0 \<or> priority0 > 2 then 1 else priority0);
          me = kn_cur k cid
      in if me > 0 \<and> \<not> rlimit_nproc_allows me k then (-1, k)
         else case first_slot (\<lambda>i. tk_state (kn_task k i) = FREE \<and> \<not> slot_still_current i k) slots of
           None \<Rightarrow> (-1, k)
         | Some i \<Rightarrow>
             (let user_esp = (if child_stack \<noteq> 0 then child_stack
                              else kn_ustack k pd (USER_STACK_TOP - word_of_int (i + 1) * USER_STACK_SIZE))
              in if user_esp = 0 then (-1, k)
                 else
                   (let c = kn_task k me;
                        k1 = upd_task i (\<lambda>x. x\<lparr>tk_ring := 3, tk_heap := 0x08000000,
                               tk_dir := (if me \<ge> 0 then tk_dir c else 0), tk_priority := priority,
                               tk_nice := (if me \<ge> 0 then tk_nice c else 0), tk_cpu := 0, tk_pd := pd, tk_sleep := 0,
                               tk_wait := 0, tk_parent := (if me \<ge> 0 then me else 0), tk_exit := 0,
                               tk_pgrp := (if me \<ge> 0 then tk_pgrp c else 0),
                               tk_session := (if me \<ge> 0 then tk_session c else 0),
                               tk_uid := (if me \<ge> 0 then tk_uid c else ROOT_UID),
                               tk_gid := (if me \<ge> 0 then tk_gid c else 0),
                               tk_rlim := (if cur_valid cid k then tk_rlim c else rlimit_defaults),
                               tk_waiting := 0, tk_pending := 0, tk_blocked := 0, tk_restart := 0, tk_sigesp := 0,
                               tk_zsince := 0, tk_shm := 0\<rparr>) k;
                        k2 = call (FreeBitmaps i) k1;
                        k3 = upd_task i (\<lambda>x. x\<lparr>tk_fpu := kn_fpu0 k, tk_mmap := (\<lambda>j. (0, snd (tk_mmap x j))),
                               tk_handler := (\<lambda>_. 0), tk_fd := (\<lambda>_. -1)\<rparr>) k2;
                        k4 = (if cur_valid cid k3 \<and> tk_state (kn_task k3 me) \<noteq> FREE
                              then inherit_fds [0..31] me i k3 else k3);
                        k5 = upd_task i (\<lambda>x. x\<lparr>tk_tls := tls\<rparr>) k4;
                        k6 = (if tls \<noteq> 0 then gdt_tls_update i tls k5 else k5);
                        esp = kstack_top k i - 72;
                        k7 = put_frame esp (ring3_frame entry user_esp (if tls \<noteq> 0 then tsel i else 0x23))
                               (upd_task i (\<lambda>x. x\<lparr>tk_esp := esp, tk_watermark := 0, tk_rq := -1, tk_idle := False\<rparr>) k6);
                        k8 = set_state i READY (k7\<lparr>kn_num := kn_num k7 + 1\<rparr>)
                    in (i, rq_enqueue (rq_least_loaded k8) i k8))))"

text \<open>\<open>init_tasking\<close>: the table, task 0 on the boot core, and an idle task for every other
  core the SMP start-up found (\<open>aps\<close>: their LAPIC ids).\<close>

definition init_slot :: "int \<Rightarrow> kern \<Rightarrow> kern" where
  "init_slot i k =
     upd_task i (\<lambda>x. x\<lparr>tk_state := FREE, tk_ring := 0, tk_priority := 1, tk_nice := 0, tk_cpu := 0, tk_sleep := 0,
       tk_wait := 0, tk_rq := -1, tk_idle := False, tk_pd := 0, tk_heap := 0x08000000, tk_launch := [], tk_name := [],
       tk_trusted := False, tk_dir := 0, tk_parent := 0, tk_exit := 0, tk_pgrp := 0, tk_session := 0, tk_waiting := 0,
       tk_pending := 0, tk_blocked := 0, tk_sigesp := 0, tk_zsince := 0, tk_handler := (\<lambda>_. 0), tk_mask := (\<lambda>_. 0),
       tk_sflags := (\<lambda>_. 0), tk_fd := (\<lambda>_. -1), tk_mmap := (\<lambda>j. (0, snd (tk_mmap x j))), tk_rlim := rlimit_defaults,
       tk_fpu := kn_fpu0 k\<rparr>) k"

definition init_tasking :: "int \<Rightarrow> int list \<Rightarrow> u32 \<Rightarrow> kern \<Rightarrow> kern" where
  "init_tasking cid aps boot_cr3 k =
     (let k1 = fold init_slot slots k;
          k2 = upd_task 0 (\<lambda>x. x\<lparr>tk_state := RUNNING, tk_ring := 0, tk_priority := 1, tk_wait := 0, tk_esp := 0,
                 tk_parent := 0, tk_shm := 0, tk_rlim := rlimit_defaults, tk_pd := boot_cr3\<rparr>) k1;
          k3 = task_set_launch_arg 0 ''idle'' (k2\<lparr>kn_cur := (kn_cur k2)(cid := 0), kn_num := 1\<rparr>);
          k4 = (upd_task 0 (\<lambda>x. x\<lparr>tk_rq := 0, tk_idle := False\<rparr>) k3)\<lparr>kn_rq := (kn_rq k3)(0 := [0])\<rparr>
      in fold (\<lambda>c s. snd (create_idle_task c s)) aps k4)"

section \<open>The trusted-shell flag\<close>

text \<open>The last path component.\<close>

fun base_name :: "string \<Rightarrow> string \<Rightarrow> string" where
  "base_name base [] = base"
| "base_name base (c # cs) = (if c = CHR ''/'' then base_name cs cs else base_name base cs)"

definition shell_host_image :: "string option \<Rightarrow> bool" where
  "shell_host_image path =
     (case path of None \<Rightarrow> False
      | Some p \<Rightarrow> base_name p p \<in> {''terminal.mct'', ''explorer.mct'', ''taskmgr.mct''})"

definition task_grant_trusted_shell :: "int \<Rightarrow> string option \<Rightarrow> kern \<Rightarrow> bool" where
  "task_grant_trusted_shell parent img k =
     (if \<not> shell_host_image img then False
      else if parent < 0 \<or> parent \<ge> MAX_TASKS then True
      else if tk_state (kn_task k parent) = FREE then True
      else if task_in_kernel_space parent k then True
      else if tk_uid (kn_task k parent) = ROOT_UID then True
      else tk_trusted (kn_task k parent))"

definition task_is_trusted_shell :: "int \<Rightarrow> kern \<Rightarrow> bool" where
  "task_is_trusted_shell t k = (if t < 0 \<or> t \<ge> MAX_TASKS then False else tk_trusted (kn_task k t))"

definition task_set_trusted_shell :: "int \<Rightarrow> bool \<Rightarrow> kern \<Rightarrow> kern" where
  "task_set_trusted_shell t b k = (if t < 0 \<or> t \<ge> MAX_TASKS then k else upd_task t (\<lambda>x. x\<lparr>tk_trusted := b\<rparr>) k)"

definition task_get_uid :: "int \<Rightarrow> kern \<Rightarrow> int" where
  "task_get_uid t k = (if t < 0 \<or> t \<ge> MAX_TASKS then ROOT_UID else tk_uid (kn_task k t))"

definition caller_shell_host :: "int \<Rightarrow> kern \<Rightarrow> bool" where
  "caller_shell_host t k =
     (if t < 0 then False
      else if task_in_kernel_space t k then True
      else if task_get_uid t k = ROOT_UID then True
      else task_is_trusted_shell t k)"

section \<open>Limits, priorities, groups\<close>

definition task_setrlimit :: "int \<Rightarrow> int \<Rightarrow> (u32 \<times> u32) option \<Rightarrow> kern \<Rightarrow> int \<times> kern" where
  "task_setrlimit cid res want k =
     (if res < 0 \<or> res \<ge> 3 then (-1, k)
      else case want of None \<Rightarrow> (-1, k)
      | Some (soft, hard) \<Rightarrow>
          (let t = (if cur_valid cid k then kn_cur k cid else 0)
           in if hard > 0x7FFFFFFF \<or> soft > 0x7FFFFFFF then (-1, k)
              else if soft > hard then (-1, k)
              else if tk_uid (kn_task k t) \<noteq> ROOT_UID \<and> hard > snd (tk_rlim (kn_task k t) res) then (-1, k)
              else (0, upd_task t (\<lambda>x. x\<lparr>tk_rlim := (tk_rlim x)(res := (soft, hard))\<rparr>) k)))"

definition task_getrlimit :: "int \<Rightarrow> int \<Rightarrow> kern \<Rightarrow> (u32 \<times> u32) option" where
  "task_getrlimit cid res k =
     (if res < 0 \<or> res \<ge> 3 then None
      else Some (tk_rlim (kn_task k (if cur_valid cid k then kn_cur k cid else 0)) res))"

definition rlimit_as_used :: "int \<Rightarrow> kern \<Rightarrow> u32" where
  "rlimit_as_used t k =
     fold (\<lambda>j n. n + snd (tk_mmap (kn_task k t) j)) [0..7]
       (if tk_heap (kn_task k t) > 0x08000000 then tk_heap (kn_task k t) - 0x08000000 else 0)"

definition task_rlimit_as_allows :: "int \<Rightarrow> u32 \<Rightarrow> kern \<Rightarrow> bool" where
  "task_rlimit_as_allows cid extra k =
     (if \<not> cur_valid cid k then True
      else
        (let t = kn_cur k cid
         in if tk_uid (kn_task k t) = ROOT_UID then True
            else
              (let lim = fst (tk_rlim (kn_task k t) 1)
               in if lim = 0 then False
                  else unat (rlimit_as_used t k) + unat extra \<le> unat lim)))"

definition task_rlimit_nofile_ok :: "int \<Rightarrow> kern \<Rightarrow> bool" where
  "task_rlimit_nofile_ok cid k =
     (if \<not> cur_valid cid k then True
      else
        (let t = kn_cur k cid
         in if tk_uid (kn_task k t) = ROOT_UID then True
            else
              (let lim = fst (tk_rlim (kn_task k t) 2)
               in if lim \<ge> 32 then True
                  else int (length (filter (\<lambda>j. tk_fd (kn_task k t) j \<ge> 0) [0..31])) < sint lim)))"

definition task_set_priority :: "int \<Rightarrow> int \<Rightarrow> kern \<Rightarrow> int \<times> kern" where
  "task_set_priority t p k =
     (if t < 0 \<or> t \<ge> MAX_TASKS then (-1, k)
      else if tk_state (kn_task k t) = FREE then (-1, k)
      else if p < 0 \<or> p > 2 then (-1, k)
      else (0, upd_task t (\<lambda>x. x\<lparr>tk_priority := p\<rparr>) k))"

definition task_set_nice :: "int \<Rightarrow> int \<Rightarrow> int \<Rightarrow> kern \<Rightarrow> int \<times> kern" where
  "task_set_nice t nice0 caller k =
     (if t < 0 \<or> t \<ge> MAX_TASKS \<or> tk_state (kn_task k t) = FREE then (-3, k)
      else
        (let n1 = (if nice0 < -20 then -20 else nice0);
             n2 = (if n1 > 19 then 19 else n1)
         in if n2 < tk_nice (kn_task k t) \<and> caller \<noteq> ROOT_UID then (-2, k)
            else (0, upd_task t (\<lambda>x. x\<lparr>tk_nice := n2\<rparr>) k)))"

definition task_set_pgrp :: "int \<Rightarrow> int \<Rightarrow> kern \<Rightarrow> int \<times> kern" where
  "task_set_pgrp t g k =
     (if t \<le> 0 \<or> t \<ge> MAX_TASKS then (-1, k)
      else if tk_state (kn_task k t) = FREE then (-1, k)
      else (0, upd_task t (\<lambda>x. x\<lparr>tk_pgrp := g\<rparr>) k))"

definition task_is_background :: "int \<Rightarrow> kern \<Rightarrow> bool" where
  "task_is_background t k =
     (if t \<le> 0 \<or> t \<ge> MAX_TASKS then False
      else if kn_fg k \<le> 0 then False
      else if tk_pgrp (kn_task k t) \<le> 0 then False
      else tk_pgrp (kn_task k t) \<noteq> kn_fg k)"

definition task_set_tls :: "int \<Rightarrow> u32 \<Rightarrow> kern \<Rightarrow> int \<times> kern" where
  "task_set_tls cid base k =
     (let t = kn_cur k cid
      in if t \<le> 0 \<or> t \<ge> MAX_TASKS then (-1, k)
         else (0, (if base \<noteq> 0 then gdt_tls_update t base else gdt_tls_clear t)
                    (upd_task t (\<lambda>x. x\<lparr>tk_tls := base\<rparr>) k)))"

end
