(* ===== verification/Signals.thy ===== *)
theory Signals
  imports Task_Create
begin

text \<open>
  The end of a task and its signals: \<open>task_cleanup\<close>, \<open>terminate_task\<close>, \<open>task_signal\<close>,
  \<open>task_deliver_signals\<close>, the return from a handler (\<open>SYS_SIGRETURN\<close> of
  \<open>src/sys/syscall_proc.c\<close>), \<open>task_waitpid\<close> and \<open>task_reap_zombies\<close>.
\<close>

definition sig_bit :: "int \<Rightarrow> u32" where
  "sig_bit s = push_bit (nat s) 1"

definition has_sig :: "u32 \<Rightarrow> int \<Rightarrow> bool" where
  "has_sig w s \<longleftrightarrow> w AND sig_bit s \<noteq> 0"

definition SIGKILL :: int where "SIGKILL = 9"
definition SIGCHLD :: int where "SIGCHLD = 17"
definition SIGCONT :: int where "SIGCONT = 18"
definition SIGSTOP :: int where "SIGSTOP = 19"
definition SIGTSTP :: int where "SIGTSTP = 20"
definition SIGTTIN :: int where "SIGTTIN = 21"
definition SIGTTOU :: int where "SIGTTOU = 22"

definition SA_RESTART :: u32 where "SA_RESTART = 1"
definition SA_NODEFER :: u32 where "SA_NODEFER = 2"

definition SIG_TRAMPOLINE_VA :: u32 where
  "SIG_TRAMPOLINE_VA = 0x08F7F000"

section \<open>Termination\<close>

text \<open>\<open>sync_task_cleanup_defer\<close> of \<open>src/sys/sync.c\<close>: one pending bit per task.\<close>

definition sync_task_cleanup_defer :: "int \<Rightarrow> kern \<Rightarrow> kern" where
  "sync_task_cleanup_defer t k =
     (if t \<le> 0 \<or> t > 63 then k
      else if t < 32 then k\<lparr>kn_clean_lo := kn_clean_lo k OR push_bit (nat t) 1\<rparr>
      else k\<lparr>kn_clean_hi := kn_clean_hi k OR push_bit (nat (t - 32)) 1\<rparr>)"

definition fb_cleanup_task :: "int \<Rightarrow> kern \<Rightarrow> kern" where
  "fb_cleanup_task t k = (if kn_fb k = t then k\<lparr>kn_fb := -1\<rparr> else k)"

definition deferred_pd_push :: "u32 \<Rightarrow> int \<Rightarrow> kern \<Rightarrow> kern" where
  "deferred_pd_push pd t k =
     (if length (kn_dpd k) < DEFERRED_PD_MAX then k\<lparr>kn_dpd := kn_dpd k @ [(pd, t)]\<rparr> else k)"

text \<open>The terminal goes back to the shell's group when its foreground application dies.\<close>

definition term_release :: "int \<Rightarrow> kern \<Rightarrow> kern" where
  "term_release t k =
     (if kn_term_run k \<and> kn_term_tid k = t then
        (let k1 = call TermKeyClear (k\<lparr>kn_term_run := False, kn_term_tid := -1\<rparr>);
             p = tk_parent (kn_task k t);
             shell = (if p > 0 \<and> p < MAX_TASKS then tk_pgrp (kn_task k p) else 0)
         in if kn_fg k = tk_pgrp (kn_task k t) \<or> kn_fg k = t
            then k1\<lparr>kn_fg := (if shell > 0 then shell else 0)\<rparr> else k1)
      else k)"

definition release_space :: "int \<Rightarrow> kern \<Rightarrow> kern" where
  "release_space t k =
     (let pd = tk_pd (kn_task k t)
      in if pd \<noteq> 0 \<and> pd \<noteq> tk_pd (kn_task k 0) then
           (let k1 =
              (if list_ex (\<lambda>j. j \<noteq> t \<and> tk_state (kn_task k j) \<noteq> FREE \<and> tk_pd (kn_task k j) = pd) user_slots then k
               else if list_ex (\<lambda>c. kn_cur k c = t) cpus then deferred_pd_push pd t k
               else call (FreeSpace pd)
                 (if (kn_cr3 k (kn_this k) AND 0xFFFFF000) = (pd AND 0xFFFFF000)
                  then k\<lparr>kn_cr3 := (kn_cr3 k)(kn_this k := tk_pd (kn_task k 0))\<rparr> else k))
            in upd_task t (\<lambda>x. x\<lparr>tk_pd := 0\<rparr>) k1)
         else k)"

definition task_cleanup :: "int \<Rightarrow> kern \<Rightarrow> kern" where
  "task_cleanup t k =
     (if t \<le> 0 \<or> t \<ge> MAX_TASKS then k
      else
        (let k1 = call (WmCleanup t) (sync_task_cleanup_defer t k);
             k2 = term_release t (fb_cleanup_task t k1);
             k3 = call (CloseFds t) k2;
             k4 = (if tk_shm (kn_task k3 t) \<noteq> 0 then call (ShmExit t) k3 else k3);
             k5 = call (FreeBitmaps t) k4
         in release_space t k5))"

definition reparent_one :: "int \<Rightarrow> int \<Rightarrow> kern \<Rightarrow> kern" where
  "reparent_one t c k =
     (if c \<noteq> t \<and> tk_state (kn_task k c) \<noteq> FREE \<and> tk_parent (kn_task k c) = t
      then if tk_state (kn_task k c) = ZOMBIE
           then gdt_tls_clear c ((set_state c FREE k)\<lparr>kn_num := kn_num k - 1\<rparr>)
           else upd_task c (\<lambda>x. x\<lparr>tk_parent := 0\<rparr>) k
      else k)"

definition terminate_task :: "int \<Rightarrow> int \<Rightarrow> kern \<Rightarrow> kern" where
  "terminate_task t code k =
     (if t \<le> 0 \<or> t \<ge> MAX_TASKS then k
      else if tk_state (kn_task k t) = FREE \<or> tk_state (kn_task k t) = ZOMBIE then k
      else
        (let k1 = upd_task t (\<lambda>x. x\<lparr>tk_name := []\<rparr>) k;
             k2 = fold (reparent_one t) user_slots (task_cleanup t (rq_remove t k1));
             p = tk_parent (kn_task k2 t)
         in if p \<ge> 1 \<and> p < MAX_TASKS \<and> p \<noteq> t \<and> tk_state (kn_task k2 p) \<noteq> FREE \<and> tk_state (kn_task k2 p) \<noteq> ZOMBIE
            then
              (let k3 = upd_task t (\<lambda>x. x\<lparr>tk_state := ZOMBIE, tk_exit := code mod 256, tk_zsince := kn_ms k2\<rparr>) k2;
                   k4 = (if tk_waiting (kn_task k3 p) \<noteq> 0
                         then rq_enqueue_wake p (upd_task p (\<lambda>x. x\<lparr>tk_waiting := 0, tk_state := READY\<rparr>) k3)
                         else k3)
               in upd_task p (\<lambda>x. x\<lparr>tk_pending := tk_pending x OR sig_bit SIGCHLD\<rparr>) k4)
            else gdt_tls_clear t ((set_state t FREE k2)\<lparr>kn_num := kn_num k2 - 1\<rparr>)))"

text \<open>\<open>task_exit_with_code\<close>: what happens before the task parks for good.\<close>

definition task_exit_with_code :: "int \<Rightarrow> int \<Rightarrow> kern \<Rightarrow> kern" where
  "task_exit_with_code cid code k =
     (if kn_cur k cid \<le> 0 then k else terminate_task (kn_cur k cid) code k)"

section \<open>Sending\<close>

definition task_set_sigaction :: "int \<Rightarrow> int \<Rightarrow> u32 \<Rightarrow> u32 \<Rightarrow> u32 \<Rightarrow> kern \<Rightarrow> kern" where
  "task_set_sigaction t s h m f k =
     (if t < 0 \<or> t \<ge> MAX_TASKS \<or> s \<le> 0 \<or> s \<ge> SIG_MAX then k
      else upd_task t (\<lambda>x. x\<lparr>tk_handler := (tk_handler x)(s := h), tk_mask := (tk_mask x)(s := m),
                              tk_sflags := (tk_sflags x)(s := f)\<rparr>) k)"

definition task_set_blocked :: "int \<Rightarrow> u32 \<Rightarrow> kern \<Rightarrow> kern" where
  "task_set_blocked t w k = (if t < 0 \<or> t \<ge> MAX_TASKS then k else upd_task t (\<lambda>x. x\<lparr>tk_blocked := w\<rparr>) k)"

definition task_set_sig_frame_esp :: "int \<Rightarrow> u32 \<Rightarrow> kern \<Rightarrow> kern" where
  "task_set_sig_frame_esp t w k = (if t < 0 \<or> t \<ge> MAX_TASKS then k else upd_task t (\<lambda>x. x\<lparr>tk_sigesp := w\<rparr>) k)"

definition stop_bits :: u32 where
  "stop_bits = sig_bit SIGSTOP OR sig_bit SIGTSTP"

text \<open>A handler is installed: mark the signal pending and let a parked task run it.\<close>

definition signal_handler_wake :: "int \<Rightarrow> int \<Rightarrow> kern \<Rightarrow> kern" where
  "signal_handler_wake t s k0 =
     (let k = upd_task t (\<lambda>x. x\<lparr>tk_pending := tk_pending x OR sig_bit s\<rparr>) k0;
          x = kn_task k t
      in if tk_state x = BLOCKED \<or> tk_state x = SLEEP then
           (let k1 = (if tk_sflags x s AND SA_RESTART \<noteq> 0 \<and> tk_state x = SLEEP
                      then upd_task t (\<lambda>x. x\<lparr>tk_restart := word_of_int (tk_sleep x)\<rparr>) k else k)
            in rq_enqueue_wake t (set_state t READY k1))
         else k)"

definition signal_live :: "int \<Rightarrow> int \<Rightarrow> kern \<Rightarrow> kern" where
  "signal_live t s k =
     (if s = SIGKILL then terminate_task t (128 + SIGKILL) k
      else if s = SIGSTOP then
        rq_remove t (upd_task t (\<lambda>x. x\<lparr>tk_state := STOPPED, tk_pending := tk_pending x AND NOT stop_bits\<rparr>) k)
      else if s = SIGCONT then
        (let k1 = upd_task t (\<lambda>x. x\<lparr>tk_pending := tk_pending x AND NOT stop_bits\<rparr>) k
         in if tk_state (kn_task k1 t) = STOPPED then rq_enqueue_wake t (set_state t READY k1) else k1)
      else if has_sig (tk_blocked (kn_task k t)) s then
        upd_task t (\<lambda>x. x\<lparr>tk_pending := tk_pending x OR sig_bit s\<rparr>) k
      else if tk_handler (kn_task k t) s = 1 then k
      else if tk_handler (kn_task k t) s = 0 then
        (if s = SIGCHLD then k
         else if s = SIGTSTP \<or> s = SIGTTIN \<or> s = SIGTTOU
         then rq_remove t (upd_task t (\<lambda>x. x\<lparr>tk_state := STOPPED, tk_pending := tk_pending x AND NOT (sig_bit s)\<rparr>) k)
         else terminate_task t (128 + s) k)
      else signal_handler_wake t s k)"

definition task_signal :: "int \<Rightarrow> int \<Rightarrow> kern \<Rightarrow> int \<times> kern" where
  "task_signal t s k =
     (if t \<le> 0 \<or> t \<ge> MAX_TASKS then (-1, k)
      else if tk_state (kn_task k t) = FREE then (-1, k)
      else if tk_state (kn_task k t) = ZOMBIE then (0, k)
      else if s \<le> 0 \<or> s \<ge> SIG_MAX then (-1, k)
      else (0, signal_live t s k))"

definition task_kill :: "int \<Rightarrow> kern \<Rightarrow> int \<times> kern" where
  "task_kill t k = task_signal t SIGKILL k"

definition task_kill_locked :: "int \<Rightarrow> kern \<Rightarrow> int \<times> kern" where
  "task_kill_locked t k =
     (if t \<le> 0 \<or> t \<ge> MAX_TASKS then (-1, k)
      else if tk_state (kn_task k t) = FREE then (-1, k)
      else if tk_state (kn_task k t) = ZOMBIE then (0, k)
      else (0, terminate_task t (128 + SIGKILL) k))"

text \<open>\<open>task_signal_group\<close>: the descendants of \<open>root\<close>, found by walking parent chains of at
  most \<open>MAX_TASKS\<close> hops, then \<open>root\<close> itself.\<close>

fun chain_reaches :: "nat \<Rightarrow> int \<Rightarrow> int \<Rightarrow> int \<Rightarrow> kern \<Rightarrow> bool" where
  "chain_reaches 0 root i p k = False"
| "chain_reaches (Suc n) root i p k =
     (if p > 0 \<and> p < MAX_TASKS \<and> p \<noteq> i
      then if p = root then True else chain_reaches n root i (tk_parent (kn_task k p)) k
      else False)"

definition group_members :: "int \<Rightarrow> kern \<Rightarrow> int list" where
  "group_members root k =
     filter (\<lambda>i. tk_state (kn_task k i) \<noteq> FREE \<and> i \<noteq> root \<and>
                 chain_reaches 64 root i (tk_parent (kn_task k i)) k) user_slots @ [root]"

fun signal_all :: "int list \<Rightarrow> int \<Rightarrow> int \<Rightarrow> kern \<Rightarrow> int \<times> kern" where
  "signal_all [] s n k = (n, k)"
| "signal_all (i # is) s n k =
     (let (r, k1) = task_signal i s k in signal_all is s (if r \<ge> 0 then n + 1 else n) k1)"

definition task_signal_group :: "int \<Rightarrow> int \<Rightarrow> kern \<Rightarrow> int \<times> kern" where
  "task_signal_group root s k =
     (if root \<le> 0 \<or> root \<ge> MAX_TASKS then (-1, k)
      else if tk_state (kn_task k root) = FREE then (-1, k)
      else signal_all (group_members root k) s 0 k)"

fun signal_pgrp_loop :: "int list \<Rightarrow> int \<Rightarrow> int \<Rightarrow> int \<Rightarrow> kern \<Rightarrow> int \<times> kern" where
  "signal_pgrp_loop [] g s n k = (n, k)"
| "signal_pgrp_loop (i # is) g s n k =
     (if tk_state (kn_task k i) = FREE then signal_pgrp_loop is g s n k
      else if tk_pgrp (kn_task k i) \<noteq> g then signal_pgrp_loop is g s n k
      else signal_pgrp_loop is g s (n + 1) (snd (task_signal i s k)))"

definition task_signal_pgrp :: "int \<Rightarrow> int \<Rightarrow> kern \<Rightarrow> int \<times> kern" where
  "task_signal_pgrp g s k = (if g \<le> 0 \<or> g \<ge> MAX_TASKS then (-1, k) else signal_pgrp_loop user_slots g s 0 k)"

section \<open>Delivering\<close>

definition park_frame :: "kern \<Rightarrow> regs \<Rightarrow> regs" where
  "park_frame k r = r\<lparr>r_eip := kn_park k, r_cs := 0x08, r_ds := 0x10, r_fs := 0x10, r_gs := 0x10\<rparr>"

definition sigframe_of :: "int \<Rightarrow> task \<Rightarrow> regs \<Rightarrow> sigframe" where
  "sigframe_of s x r =
     \<lparr>sf_sig = word_of_int s, sf_eax = r_eax r, sf_ecx = r_ecx r, sf_edx = r_edx r, sf_ebx = r_ebx r,
      sf_esi = r_esi r, sf_edi = r_edi r, sf_ebp = r_ebp r, sf_eip = r_eip r, sf_cs = r_cs r,
      sf_eflags = r_eflags r, sf_esp = r_useresp r, sf_ss = r_ss r, sf_blocked = tk_blocked x,
      sf_restart = (if tk_sflags x s AND SA_RESTART \<noteq> 0 \<and> tk_restart x > 0 then 1 else 0),
      sf_restart_arg = tk_restart x\<rparr>"

text \<open>Entering the handler: the frame goes below the user stack pointer, then the argument
  and the return address into the trampoline.\<close>

definition enter_handler :: "u32 \<Rightarrow> int \<Rightarrow> int \<Rightarrow> u32 \<Rightarrow> kern \<Rightarrow> kern" where
  "enter_handler a t s h k =
     (let r = kn_frame k a; x = kn_task k t; pd = tk_pd x;
          esp = r_useresp r - 64;
          k1 = k\<lparr>kn_uframe := (kn_uframe k)(pd := (kn_uframe k pd)(esp := sigframe_of s x r))\<rparr>;
          mask = tk_blocked x OR tk_mask x s OR (if tk_sflags x s AND SA_NODEFER = 0 then sig_bit s else 0);
          k2 = upd_task t (\<lambda>x. x\<lparr>tk_restart := 0, tk_blocked := mask, tk_sigesp := esp\<rparr>) k1;
          k3 = k2\<lparr>kn_uword := (kn_uword k2)(pd := (kn_uword k2 pd)(esp - 8 := SIG_TRAMPOLINE_VA, esp - 4 := word_of_int s))\<rparr>
      in put_frame a (r\<lparr>r_eip := h, r_useresp := esp - 8\<rparr>) k3)"

text \<open>The scan over the pending signals of the running task. \<open>a\<close> is where its return frame is.\<close>

fun deliver_loop :: "int list \<Rightarrow> u32 \<Rightarrow> int \<Rightarrow> kern \<Rightarrow> bool \<times> kern" where
  "deliver_loop [] a t k = (False, k)"
| "deliver_loop (s # ss) a t k =
     (if \<not> has_sig (tk_pending (kn_task k t)) s then deliver_loop ss a t k
      else if has_sig (tk_blocked (kn_task k t)) s \<and> s \<noteq> SIGKILL \<and> s \<noteq> SIGSTOP \<and> s \<noteq> SIGCONT
      then deliver_loop ss a t k
      else
        (let k1 = upd_task t (\<lambda>x. x\<lparr>tk_pending := tk_pending x AND NOT (sig_bit s)\<rparr>) k;
             h = tk_handler (kn_task k1 t) s
         in if h = 1 then deliver_loop ss a t k1
            else if h = 0 then
              (if s = SIGCHLD then deliver_loop ss a t k1
               else (let k2 = terminate_task t (128 + s) k1 in (True, put_frame a (park_frame k2 (kn_frame k2 a)) k2)))
            else if \<not> kn_uok k1 (tk_pd (kn_task k1 t)) (r_useresp (kn_frame k1 a) - 128) 128 then
              (let k2 = terminate_task t (128 + s) k1 in (True, put_frame a (park_frame k2 (kn_frame k2 a)) k2))
            else (True, enter_handler a t s h k1)))"

definition signals_up :: "int list" where
  "signals_up = [1..31]"

definition task_deliver_signals :: "int \<Rightarrow> u32 \<Rightarrow> kern \<Rightarrow> bool \<times> kern" where
  "task_deliver_signals cid a k =
     (let t = kn_cur k cid
      in if r_cs (kn_frame k a) AND 3 \<noteq> 3 then (False, k)
         else if t \<le> 0 \<or> t \<ge> MAX_TASKS then (False, k)
         else if tk_state (kn_task k t) = FREE \<or> tk_state (kn_task k t) = ZOMBIE then (False, k)
         else if tk_pending (kn_task k t) = 0 then (False, k)
         else if tk_sigesp (kn_task k t) \<noteq> 0 then (False, k)
         else deliver_loop signals_up a t k)"

definition task_fault_signal :: "int \<Rightarrow> int \<Rightarrow> u32 \<Rightarrow> kern \<Rightarrow> bool \<times> kern" where
  "task_fault_signal cid s a k =
     (let t = kn_cur k cid
      in if r_cs (kn_frame k a) AND 3 \<noteq> 3 then (False, k)
         else if t \<le> 0 \<or> t \<ge> MAX_TASKS then (False, k)
         else if s \<le> 0 \<or> s \<ge> SIG_MAX then (False, k)
         else if tk_handler (kn_task k t) s = 0 \<or> tk_handler (kn_task k t) s = 1 then
           (let k1 = terminate_task t (128 + s) k in (True, put_frame a (park_frame k1 (kn_frame k1 a)) k1))
         else
           (let k1 = upd_task t (\<lambda>x. x\<lparr>tk_pending := tk_pending x OR sig_bit s\<rparr>) k;
                (d, k2) = task_deliver_signals cid a k1
            in if d then (True, k2)
               else (let k3 = terminate_task t (128 + s) k2 in (True, put_frame a (park_frame k3 (kn_frame k3 a)) k3))))"

text \<open>\<open>SYS_SIGRETURN\<close>: the frame is in user memory, so it is whatever the program left there.\<close>

definition sys_sigreturn :: "int \<Rightarrow> u32 \<Rightarrow> kern \<Rightarrow> kern" where
  "sys_sigreturn cid a k =
     (let t = kn_cur k cid; x = kn_task k t;
          esp = (if t < 0 \<or> t \<ge> MAX_TASKS then 0 else tk_sigesp x);
          fail = (\<lambda>s. put_frame a ((kn_frame s a)\<lparr>r_eax := -1\<rparr>) (task_set_sig_frame_esp t 0 s))
      in if esp = 0 \<or> \<not> kn_uok k (tk_pd x) esp 64 then fail k
         else
           (let f = kn_uframe k (tk_pd x) esp
            in if sf_cs f \<noteq> 0x1B \<or> sf_ss f \<noteq> 0x23 then fail k
               else
                 (let k1 = task_set_blocked t (sf_blocked f) k;
                      r = (kn_frame k1 a)\<lparr>r_eax := sf_eax f, r_ecx := sf_ecx f, r_edx := sf_edx f, r_ebx := sf_ebx f,
                            r_esi := sf_esi f, r_edi := sf_edi f, r_ebp := sf_ebp f, r_eip := sf_eip f, r_cs := sf_cs f,
                            r_eflags := (sf_eflags f AND NOT 0x72000) OR 0x200, r_useresp := sf_esp f, r_ss := sf_ss f\<rparr>;
                      k2 = task_set_sig_frame_esp t 0 (put_frame a r k1)
                  in if sf_restart f \<noteq> 0 \<and> sf_restart_arg f > 0
                     then put_frame a (r\<lparr>r_eax := 0\<rparr>) (task_sleep cid (sint (sf_restart_arg f)) k2)
                     else k2)))"

section \<open>Waiting and reaping\<close>

datatype wait_result = WReaped int int | WNoChild | WNothing | WParked

fun wait_scan :: "int list \<Rightarrow> int \<Rightarrow> int \<Rightarrow> bool \<Rightarrow> kern \<Rightarrow> bool \<times> int" where
  "wait_scan [] self pid found k = (found, -1)"
| "wait_scan (i # is) self pid found k =
     (if tk_state (kn_task k i) = FREE then wait_scan is self pid found k
      else if tk_parent (kn_task k i) \<noteq> self then wait_scan is self pid found k
      else if pid > 0 \<and> i \<noteq> pid then wait_scan is self pid found k
      else if tk_state (kn_task k i) = ZOMBIE then (True, i)
      else wait_scan is self pid True k)"

text \<open>One pass of the loop of \<open>task_waitpid\<close>, up to the point where the task parks. The
  zombie found and the one reaped are the same because the model's step is atomic; the
  code re-validates it under the lock.\<close>

definition task_waitpid :: "int \<Rightarrow> int \<Rightarrow> int \<Rightarrow> kern \<Rightarrow> wait_result \<times> kern" where
  "task_waitpid cid pid options k =
     (let self = kn_cur k cid
      in if self \<le> 0 then (WNoChild, k)
         else
           (let (found, z) = wait_scan user_slots self pid False k
            in if z \<ge> 0 then
                 (WReaped z (tk_exit (kn_task k z)),
                  gdt_tls_clear z ((set_state z FREE k)\<lparr>kn_num := kn_num k - 1\<rparr>))
               else if \<not> found then (WNoChild, k)
               else if odd options then (WNothing, k)
               else (WParked, rq_remove self
                       (upd_task self (\<lambda>x. x\<lparr>tk_waiting := (if pid > 0 then pid else -1), tk_state := BLOCKED\<rparr>) k))))"

function reap_deferred :: "nat \<Rightarrow> kern \<Rightarrow> kern" where
  "reap_deferred i k =
     (if i < length (kn_dpd k) then
        (let (pd, t) = kn_dpd k ! i
         in if tk_state (kn_task k t) \<noteq> FREE then reap_deferred (Suc i) k
            else if list_ex (\<lambda>c. kn_cur k c = t) cpus then reap_deferred (Suc i) k
            else reap_deferred i (call (FreeSpace pd)
                   (k\<lparr>kn_dpd := butlast ((kn_dpd k)[i := last (kn_dpd k)])\<rparr>)))
      else k)"
  by pat_completeness auto
termination
  by (relation "measure (\<lambda>(i, k). length (kn_dpd k) - i)") (auto simp: call_def)

declare reap_deferred.simps [simp del]

fun reap_zombies :: "int list \<Rightarrow> kern \<Rightarrow> kern" where
  "reap_zombies [] k = k"
| "reap_zombies (i # is) k =
     (if tk_state (kn_task k i) \<noteq> ZOMBIE then reap_zombies is k
      else
        (let p = tk_parent (kn_task k i);
             gone = (p \<le> 0 \<or> p \<ge> MAX_TASKS \<or> tk_state (kn_task k p) = FREE \<or> tk_state (kn_task k p) = ZOMBIE)
         in if gone \<or> kn_ms k - tk_zsince (kn_task k i) > kn_reap_ms k
            then reap_zombies is ((set_state i FREE k)\<lparr>kn_num := kn_num k - 1\<rparr>)
            else reap_zombies is k))"

definition task_reap_zombies :: "kern \<Rightarrow> kern" where
  "task_reap_zombies k = reap_zombies user_slots (reap_deferred 0 k)"

end
