(* ===== verification/Sched.thy ===== *)
theory Sched
  imports Signals
begin

text \<open>
  The per-CPU scheduler entry \<open>schedule\<close> of \<open>src/sys/task.c\<close>, called on every timer tick
  of core \<open>cid\<close> with the address \<open>esp\<close> of the preempted frame; it returns the address of
  the frame to resume. The loop that delivers signals to the task about to run may kill it
  and choose another; whether that loop ends is a theorem (\<open>sig_loop_returns\<close>), so it is
  defined as a partial function.
\<close>

definition sleep_one :: "int \<Rightarrow> kern \<Rightarrow> kern" where
  "sleep_one i k =
     (if tk_state (kn_task k i) = SLEEP then
        (let k1 = (if tk_sleep (kn_task k i) > 0 then upd_task i (\<lambda>x. x\<lparr>tk_sleep := tk_sleep x - TIMER_MS_PER_TICK\<rparr>) k else k)
         in if tk_sleep (kn_task k1 i) \<le> 0 then rq_enqueue_wake i (set_state i READY k1) else k1)
      else k)"

definition sweep_one :: "int \<Rightarrow> kern \<Rightarrow> kern" where
  "sweep_one i k =
     (if (tk_state (kn_task k i) = ZOMBIE \<or> tk_state (kn_task k i) = FREE) \<and> tk_rq (kn_task k i) \<ge> 0
      then rq_remove i k else k)"

definition sched_integrity_sweep :: "kern \<Rightarrow> kern" where
  "sched_integrity_sweep k = fold sweep_one user_slots k"

definition sched_upkeep :: "int \<Rightarrow> kern \<Rightarrow> kern" where
  "sched_upkeep cid k =
     (if cid = 0 then
        (let k1 = fold sleep_one slots k
         in if kn_ms k1 - kn_sweep k1 \<ge> 1000 then sched_integrity_sweep (k1\<lparr>kn_sweep := kn_ms k1\<rparr>) else k1)
      else k)"

definition cur_dead :: "int \<Rightarrow> kern \<Rightarrow> bool" where
  "cur_dead cur k \<longleftrightarrow> cur > 0 \<and> cur < MAX_TASKS \<and>
     (tk_state (kn_task k cur) = ZOMBIE \<or> tk_state (kn_task k cur) = FREE)"

text \<open>Saving the preempted task.\<close>

definition sched_save :: "int \<Rightarrow> int \<Rightarrow> u32 \<Rightarrow> kern \<Rightarrow> kern" where
  "sched_save cid cur esp k =
     (if cur \<ge> 0 \<and> cur < MAX_TASKS \<and> \<not> cur_dead cur k then
        (let k1 = upd_task cur (\<lambda>x. x\<lparr>tk_esp := esp\<rparr>) k;
             used = kstack_top k cur - esp;
             k2 = (if esp \<ge> kstack_guard k cur + KERNEL_STACK_GUARD \<and> esp \<le> kstack_top k cur \<and>
                      used > tk_watermark (kn_task k1 cur)
                   then upd_task cur (\<lambda>x. x\<lparr>tk_watermark := used\<rparr>) k1 else k1);
             k3 = (if tk_state (kn_task k2 cur) = RUNNING then set_state cur READY k2 else k2)
         in if tk_state (kn_task k3 cur) = READY \<and> tk_rq (kn_task k3 cur) < 0 then rq_enqueue cid cur k3 else k3)
      else k)"

definition idle_of :: "int \<Rightarrow> int" where
  "idle_of cid = (if cid = 0 then 0 else if cid < MAX_TASKS then cid else 0)"

definition rq_next :: "int \<Rightarrow> kern \<Rightarrow> int \<times> kern" where
  "rq_next cid k = (let (n, k1) = rq_pick cid k in if n < 0 then rq_steal cid k1 else (n, k1))"

text \<open>What to run when both queues are empty; \<open>None\<close> is to return into the frame that was
  preempted.\<close>

definition sched_fallback :: "int \<Rightarrow> int \<Rightarrow> kern \<Rightarrow> int option" where
  "sched_fallback cid cur k =
     (if cur \<ge> 0 \<and> \<not> cur_dead cur k \<and> (tk_state (kn_task k cur) = READY \<or> tk_state (kn_task k cur) = RUNNING)
      then Some cur
      else if cur_dead cur k then (if idle_of cid \<noteq> cur then Some (idle_of cid) else None)
      else None)"

definition sched_account :: "int \<Rightarrow> int \<Rightarrow> bool \<Rightarrow> int \<Rightarrow> kern \<Rightarrow> kern" where
  "sched_account cid cur dead next k =
     (let k1 = (if cur > 0 \<and> \<not> dead \<and> \<not> tk_idle (kn_task k cur)
                then upd_task cur (\<lambda>x. x\<lparr>tk_cpu := tk_cpu x + 1\<rparr>) k else k)
      in if cid < MAX_CPUS then
           (let k2 = (if next \<noteq> 0 \<and> \<not> tk_idle (kn_task k1 next)
                      then k1\<lparr>kn_busy := (kn_busy k1)(cid := kn_busy k1 cid + 1)\<rparr> else k1);
                k3 = k2\<lparr>kn_ticks := (kn_ticks k2)(cid := kn_ticks k2 cid + 1)\<rparr>
            in if kn_ticks k3 cid \<ge> word_of_int (kn_window k3)
               then k3\<lparr>kn_load := (kn_load k3)(cid := (kn_busy k3 cid * 100) div kn_ticks k3 cid),
                       kn_busy := (kn_busy k3)(cid := 0), kn_ticks := (kn_ticks k3)(cid := 0)\<rparr>
               else k3)
         else k1)"

definition vmm_switch_page_dir :: "int \<Rightarrow> u32 \<Rightarrow> kern \<Rightarrow> kern" where
  "vmm_switch_page_dir cid pd k = (if pd \<noteq> 0 then k\<lparr>kn_cr3 := (kn_cr3 k)(cid := pd)\<rparr> else k)"

definition sched_commit :: "int \<Rightarrow> int \<Rightarrow> kern \<Rightarrow> kern" where
  "sched_commit cid next k =
     (let k1 = set_state next RUNNING k;
          k2 = k1\<lparr>kn_cur := (kn_cur k1)(cid := next), kn_tss := (kn_tss k1)(cid := kstack_top k1 next)\<rparr>
      in vmm_switch_page_dir cid
           (if tk_pd (kn_task k2 next) \<noteq> 0 then tk_pd (kn_task k2 next) else tk_pd (kn_task k2 0)) k2)"

partial_function (option) sig_loop :: "int \<Rightarrow> int \<Rightarrow> int \<Rightarrow> kern \<Rightarrow> (int option \<times> kern) option" where
  "sig_loop cid cur next k =
     (if tk_state (kn_task k next) = RUNNING \<and> tk_pending (kn_task k next) \<noteq> 0 then
        (case task_deliver_signals cid (tk_esp (kn_task k next)) k of (d, k1) \<Rightarrow>
           if \<not> d then Some (Some next, k1)
           else if tk_state (kn_task k1 next) = ZOMBIE then
             (case rq_next cid k1 of (n, k2) \<Rightarrow>
                if n < 0 then
                  (if idle_of cid = cur then Some (None, k2)
                   else sig_loop cid cur (idle_of cid) (sched_commit cid (idle_of cid) k2))
                else sig_loop cid cur n (sched_commit cid n k2))
           else sig_loop cid cur next k1)
      else Some (Some next, k))"

definition fpu_switch :: "int \<Rightarrow> int \<Rightarrow> bool \<Rightarrow> int \<Rightarrow> kern \<Rightarrow> kern" where
  "fpu_switch cid cur dead next k =
     (if next \<noteq> cur then
        (let k1 = (if cur \<ge> 0 \<and> cur < MAX_TASKS \<and> \<not> dead then upd_task cur (\<lambda>x. x\<lparr>tk_fpu := kn_fpu k cid\<rparr>) k else k)
         in k1\<lparr>kn_fpu := (kn_fpu k1)(cid := tk_fpu (kn_task k1 next))\<rparr>)
      else k)"

datatype sched_out = Resume u32 kern | Panic kern

text \<open>From the commit on.\<close>

definition sched_switch :: "int \<Rightarrow> int \<Rightarrow> bool \<Rightarrow> u32 \<Rightarrow> int \<Rightarrow> kern \<Rightarrow> sched_out option" where
  "sched_switch cid cur dead esp next k =
     (if next > 0 \<and> next < MAX_TASKS \<and> tk_idle (kn_task k next) \<and> cid \<noteq> next then Some (Resume esp k)
      else if next > 0 \<and> next < MAX_TASKS \<and>
              (tk_state (kn_task k next) = ZOMBIE \<or> tk_state (kn_task k next) = FREE) then Some (Resume esp k)
      else if next < 0 \<or> next \<ge> MAX_TASKS then Some (Resume esp k)
      else
        (let k1 = sched_commit cid next k
         in case (if tk_ring (kn_task k1 next) = 3 then sig_loop cid cur next k1 else Some (Some next, k1)) of
              None \<Rightarrow> None
            | Some (None, k2) \<Rightarrow> Some (Resume esp k2)
            | Some (Some n, k2) \<Rightarrow>
                (let k3 = fpu_switch cid cur dead n k2 in Some (Resume (tk_esp (kn_task k3 n)) k3))))"

definition schedule :: "int \<Rightarrow> u32 \<Rightarrow> kern \<Rightarrow> sched_out option" where
  "schedule cid esp k =
     (let cur = kn_cur k cid;
          k1 = sched_upkeep cid k
      in if kn_num k1 \<le> 1 \<and> cur \<ge> 0 then Some (Resume esp k1)
         else if cur > 0 \<and> cur < MAX_TASKS \<and> tk_idle (kn_task k1 cur) \<and> cid \<noteq> cur then Some (Panic k1)
         else
           (let dead = cur_dead cur k1;
                k2 = sched_save cid cur esp k1;
                (n, k3) = rq_next cid k2
            in case (if n \<ge> 0 then Some n else sched_fallback cid cur k3) of
                 None \<Rightarrow> Some (Resume esp k3)
               | Some next \<Rightarrow> sched_switch cid cur dead esp next (sched_account cid cur dead next k3)))"

end
