(* ===== verification/Sched_Inv.thy ===== *)
theory Sched_Inv
  imports Sched
begin

text \<open>
  The scheduler invariant \<open>sched_ok\<close>: the runqueues and the back pointers \<open>rq_cpu\<close> agree,
  no dead task is queued, no task is current on two cores, the idle tasks and the kernel
  main loop stay on their own core, a RUNNING task is current somewhere, and a READY task is
  queued or current, so none is lost. It is the conjunction of five parts; \<open>run_ok A\<close>
  exempts the tasks of \<open>A\<close>, for the states between two assignments of one operation.
\<close>

lemmas slot_consts = MAX_TASKS_def MAX_CPUS_def SIG_MAX_def

definition valid_tid :: "int \<Rightarrow> bool" where
  "valid_tid t \<longleftrightarrow> 0 \<le> t \<and> t < 64"

definition valid_cpu :: "int \<Rightarrow> bool" where
  "valid_cpu c \<longleftrightarrow> 0 \<le> c \<and> c < 16"

definition dead :: "kern \<Rightarrow> int \<Rightarrow> bool" where
  "dead k t \<longleftrightarrow> tk_state (kn_task k t) = FREE \<or> tk_state (kn_task k t) = ZOMBIE"

definition pinned :: "kern \<Rightarrow> int \<Rightarrow> bool" where
  "pinned k t \<longleftrightarrow> t = 0 \<or> tk_idle (kn_task k t)"

definition current :: "kern \<Rightarrow> int \<Rightarrow> bool" where
  "current k t \<longleftrightarrow> (\<exists>c. valid_cpu c \<and> kn_cur k c = t)"

definition rq_ok :: "kern \<Rightarrow> bool" where
  "rq_ok k \<longleftrightarrow> 1 \<le> kn_ncpu k \<and> kn_ncpu k \<le> 16 \<and>
     (\<forall>c. \<forall>t \<in> set (kn_rq k c). 0 \<le> c \<and> c < 16 \<and> valid_tid t \<and> tk_rq (kn_task k t) = c) \<and>
     (\<forall>t. valid_tid t \<longrightarrow> 0 \<le> tk_rq (kn_task k t) \<longrightarrow> t \<in> set (kn_rq k (tk_rq (kn_task k t)))) \<and>
     (\<forall>c. distinct (kn_rq k c))"

definition dead_ok :: "kern \<Rightarrow> bool" where
  "dead_ok k \<longleftrightarrow> (\<forall>t. valid_tid t \<longrightarrow> dead k t \<longrightarrow> tk_rq (kn_task k t) < 0)"

definition cur_ok :: "kern \<Rightarrow> bool" where
  "cur_ok k \<longleftrightarrow>
     (\<forall>c. valid_cpu c \<longrightarrow> kn_cur k c < 64) \<and>
     (\<forall>c d. valid_cpu c \<longrightarrow> valid_cpu d \<longrightarrow> 0 \<le> kn_cur k c \<longrightarrow> kn_cur k c = kn_cur k d \<longrightarrow> c = d) \<and>
     (\<forall>c. valid_cpu c \<longrightarrow> 0 \<le> kn_cur k c \<longrightarrow> pinned k (kn_cur k c) \<longrightarrow> kn_cur k c = c)"

definition pin_ok :: "kern \<Rightarrow> bool" where
  "pin_ok k \<longleftrightarrow> \<not> tk_idle (kn_task k 0) \<and>
     (\<forall>c. 0 < c \<longrightarrow> c < kn_ncpu k \<longrightarrow> tk_idle (kn_task k c)) \<and>
     (\<forall>t. valid_tid t \<longrightarrow> pinned k t \<longrightarrow>
        (tk_state (kn_task k t) = READY \<or> tk_state (kn_task k t) = RUNNING) \<and> tk_pending (kn_task k t) = 0) \<and>
     (\<forall>t. valid_tid t \<longrightarrow> \<not> tk_idle (kn_task k (tk_parent (kn_task k t))))"

definition run_ok :: "int set \<Rightarrow> kern \<Rightarrow> bool" where
  "run_ok A k \<longleftrightarrow>
     (\<forall>t. valid_tid t \<longrightarrow> t \<notin> A \<longrightarrow> tk_state (kn_task k t) = RUNNING \<longrightarrow> current k t) \<and>
     (\<forall>t. valid_tid t \<longrightarrow> t \<notin> A \<longrightarrow> tk_state (kn_task k t) = READY \<longrightarrow> 0 \<le> tk_rq (kn_task k t) \<or> current k t)"

definition sched_x :: "int set \<Rightarrow> kern \<Rightarrow> bool" where
  "sched_x A k \<longleftrightarrow> rq_ok k \<and> dead_ok k \<and> cur_ok k \<and> pin_ok k \<and> run_ok A k"

abbreviation sched_ok :: "kern \<Rightarrow> bool" where
  "sched_ok k \<equiv> sched_x {} k"

lemma sched_xI:
  "rq_ok k \<Longrightarrow> dead_ok k \<Longrightarrow> cur_ok k \<Longrightarrow> pin_ok k \<Longrightarrow> run_ok A k \<Longrightarrow> sched_x A k"
  by (simp add: sched_x_def)

lemma sched_xD:
  assumes "sched_x A k"
  shows "rq_ok k" "dead_ok k" "cur_ok k" "pin_ok k" "run_ok A k"
  using assms by (simp_all add: sched_x_def)

subsection \<open>What the invariant depends on\<close>

definition same_sched :: "kern \<Rightarrow> kern \<Rightarrow> bool" where
  "same_sched k k' \<longleftrightarrow> kn_rq k' = kn_rq k \<and> kn_cur k' = kn_cur k \<and> kn_ncpu k' = kn_ncpu k \<and>
     (\<forall>t. tk_state (kn_task k' t) = tk_state (kn_task k t) \<and> tk_rq (kn_task k' t) = tk_rq (kn_task k t) \<and>
          tk_idle (kn_task k' t) = tk_idle (kn_task k t) \<and> tk_pending (kn_task k' t) = tk_pending (kn_task k t) \<and>
          tk_parent (kn_task k' t) = tk_parent (kn_task k t))"

lemma same_schedD:
  assumes "same_sched k k'"
  shows "kn_rq k' = kn_rq k" "kn_cur k' = kn_cur k" "kn_ncpu k' = kn_ncpu k"
    "tk_state (kn_task k' t) = tk_state (kn_task k t)" "tk_rq (kn_task k' t) = tk_rq (kn_task k t)"
    "tk_idle (kn_task k' t) = tk_idle (kn_task k t)" "tk_pending (kn_task k' t) = tk_pending (kn_task k t)"
    "tk_parent (kn_task k' t) = tk_parent (kn_task k t)"
  using assms by (simp_all add: same_sched_def)

lemma same_sched_preds:
  assumes "same_sched k k'"
  shows "dead k' = dead k" "pinned k' = pinned k" "current k' = current k"
  by (simp_all add: fun_eq_iff dead_def pinned_def current_def same_schedD [OF assms])

lemma rq_okD:
  assumes "rq_ok k"
  shows "1 \<le> kn_ncpu k" "kn_ncpu k \<le> 16"
    "t \<in> set (kn_rq k c) \<Longrightarrow> 0 \<le> c \<and> c < 16 \<and> valid_tid t \<and> tk_rq (kn_task k t) = c"
    "valid_tid t \<Longrightarrow> 0 \<le> tk_rq (kn_task k t) \<Longrightarrow> t \<in> set (kn_rq k (tk_rq (kn_task k t)))"
    "distinct (kn_rq k c)"
  using assms by (simp_all add: rq_ok_def)

lemma rq_okI:
  assumes "1 \<le> kn_ncpu k" "kn_ncpu k \<le> 16"
    "\<And>c t. t \<in> set (kn_rq k c) \<Longrightarrow> 0 \<le> c \<and> c < 16 \<and> valid_tid t \<and> tk_rq (kn_task k t) = c"
    "\<And>t. valid_tid t \<Longrightarrow> 0 \<le> tk_rq (kn_task k t) \<Longrightarrow> t \<in> set (kn_rq k (tk_rq (kn_task k t)))"
    "\<And>c. distinct (kn_rq k c)"
  shows "rq_ok k"
  using assms by (simp add: rq_ok_def)

lemma same_sched_x:
  assumes "same_sched k k'"
  shows "sched_x A k' = sched_x A k"
  unfolding sched_x_def rq_ok_def dead_ok_def cur_ok_def pin_ok_def run_ok_def
    same_schedD [OF assms] same_sched_preds [OF assms] ..

lemma same_sched_refl [simp]: "same_sched k k"
  by (simp add: same_sched_def)

lemma same_sched_trans: "same_sched a b \<Longrightarrow> same_sched b c \<Longrightarrow> same_sched a c"
  by (simp add: same_sched_def)

named_theorems sched_same \<open>operations the invariant does not see\<close>

lemma upd_same [sched_same]:
  assumes "\<And>x. tk_state (f x) = tk_state x" "\<And>x. tk_rq (f x) = tk_rq x" "\<And>x. tk_idle (f x) = tk_idle x"
    "\<And>x. tk_pending (f x) = tk_pending x" "\<And>x. tk_parent (f x) = tk_parent x"
  shows "same_sched k (upd_task t f k)"
  using assms by (simp add: same_sched_def upd_task_def)

lemma upd_task_simps [simp]:
  "kn_rq (upd_task t f k) = kn_rq k" "kn_cur (upd_task t f k) = kn_cur k" "kn_ncpu (upd_task t f k) = kn_ncpu k"
  "kn_task (upd_task t f k) = (kn_task k)(t := f (kn_task k t))"
  "kn_frame (upd_task t f k) = kn_frame k" "kn_num (upd_task t f k) = kn_num k"
  by (simp_all add: upd_task_def)

lemma list_ex_cpus: "list_ex P cpus \<longleftrightarrow> (\<exists>c. valid_cpu c \<and> P c)"
  unfolding list_ex_iff cpus_def valid_cpu_def by (auto simp: set_upto)

lemma current_anywhere_iff: "task_current_anywhere t k \<longleftrightarrow> current k t"
  "slot_still_current t k \<longleftrightarrow> current k t"
  by (simp_all add: task_current_anywhere_def slot_still_current_def list_ex_cpus current_def)

lemma current_elsewhere_iff:
  "task_is_current_elsewhere cid t k \<longleftrightarrow> (\<exists>c. valid_cpu c \<and> c \<noteq> cid \<and> kn_cur k c = t)"
  by (simp add: task_is_current_elsewhere_def list_ex_cpus)

subsection \<open>Changing a task's state\<close>

lemma run_ok_weaken: "run_ok A k \<Longrightarrow> A \<subseteq> B \<Longrightarrow> run_ok B k"
  by (auto simp: run_ok_def)

lemma sched_x_weaken: "sched_x A k \<Longrightarrow> A \<subseteq> B \<Longrightarrow> sched_x B k"
  by (auto simp: sched_x_def intro: run_ok_weaken)

lemma run_ok_close:
  assumes "run_ok (insert t A) k"
    and "valid_tid t \<Longrightarrow> tk_state (kn_task k t) = RUNNING \<Longrightarrow> current k t"
    and "valid_tid t \<Longrightarrow> tk_state (kn_task k t) = READY \<Longrightarrow> 0 \<le> tk_rq (kn_task k t) \<or> current k t"
  shows "run_ok A k"
  using assms unfolding run_ok_def by blast

lemma sched_x_close:
  assumes "sched_x (insert t A) k"
    and "valid_tid t \<Longrightarrow> tk_state (kn_task k t) = RUNNING \<Longrightarrow> current k t"
    and "valid_tid t \<Longrightarrow> tk_state (kn_task k t) = READY \<Longrightarrow> 0 \<le> tk_rq (kn_task k t) \<or> current k t"
  shows "sched_x A k"
  using assms run_ok_close [of t A k] by (auto simp: sched_x_def)

text \<open>Updating the state (and any field the invariant does not see) of a task that is not
  pinned; the new state may be a dead one only when the task is not queued.\<close>

lemma upd_state_x:
  assumes ok: "sched_x A k" and np: "\<not> pinned k t"
    and f: "\<And>x. tk_rq (f x) = tk_rq x" "\<And>x. tk_idle (f x) = tk_idle x" "\<And>x. tk_parent (f x) = tk_parent x"
    and dd: "tk_state (f (kn_task k t)) = FREE \<or> tk_state (f (kn_task k t)) = ZOMBIE \<Longrightarrow> tk_rq (kn_task k t) < 0"
  shows "sched_x (insert t A) (upd_task t f k)"
proof (rule sched_xI)
  let ?k = "upd_task t f k"
  note I = sched_xD [OF ok]
  have pin: "pinned ?k = pinned k"
    using f by (auto simp: fun_eq_iff pinned_def)
  have cur: "current ?k = current k"
    by (auto simp: fun_eq_iff current_def)
  have t0: "t \<noteq> 0" "\<not> tk_idle (kn_task k t)"
    using np by (auto simp: pinned_def)
  have rq: "tk_rq (kn_task ?k u) = tk_rq (kn_task k u)" "tk_idle (kn_task ?k u) = tk_idle (kn_task k u)"
    "tk_parent (kn_task ?k u) = tk_parent (kn_task k u)" for u
    using f by simp_all
  show "rq_ok ?k"
    using I(1) unfolding rq_ok_def rq by simp
  show "dead_ok ?k"
    using I(2) dd unfolding dead_ok_def rq by (auto simp: dead_def)
  show "cur_ok ?k"
    using I(3) unfolding cur_ok_def pin by simp
  show "pin_ok ?k"
    using I(4) np unfolding pin_ok_def pin rq by auto
  show "run_ok (insert t A) ?k"
    using I(5) unfolding run_ok_def cur rq by auto
qed

subsection \<open>Queueing\<close>

lemma rotate_back:
  assumes "xs \<noteq> []"
  shows "set (last xs # butlast xs) = set xs" and "distinct xs \<Longrightarrow> distinct (last xs # butlast xs)"
proof -
  obtain ys y where "xs = ys @ [y]"
    using assms by (cases xs rule: rev_cases) auto
  then show "set (last xs # butlast xs) = set xs" "distinct xs \<Longrightarrow> distinct (last xs # butlast xs)"
    by auto
qed

lemma swap_out_head: "xs \<noteq> [] \<Longrightarrow> swap_out t (t # xs) = last xs # butlast xs"
  by (cases xs) auto

lemma swap_out_set: "distinct xs \<Longrightarrow> set (swap_out t xs) = set xs - {t}"
proof (induction xs)
  case (Cons x xs)
  show ?case
  proof (cases "x = t \<and> xs \<noteq> []")
    case True
    then show ?thesis
      using rotate_back(1) [of xs] Cons.prems by (simp only: swap_out_head simp_thms) auto
  next
    case False
    then show ?thesis
      using Cons by (cases "x = t") auto
  qed
qed simp

lemma swap_out_distinct: "distinct xs \<Longrightarrow> distinct (swap_out t xs)"
proof (induction xs)
  case (Cons x xs)
  show ?case
  proof (cases "x = t \<and> xs \<noteq> []")
    case True
    then show ?thesis
      using rotate_back(2) [of xs] Cons.prems by (simp only: swap_out_head simp_thms) simp
  next
    case False
    then show ?thesis
      using Cons swap_out_set [of xs t] by (cases "x = t") auto
  qed
qed simp

lemma rq_room:
  assumes "rq_ok k" and "valid_tid t" and "tk_rq (kn_task k t) < 0"
  shows "int (length (kn_rq k c)) < MAX_TASKS" and "t \<notin> set (kn_rq k c)"
proof -
  show nt: "t \<notin> set (kn_rq k c)"
    using assms unfolding rq_ok_def by force
  have "set (kn_rq k c) \<subseteq> {0..63} - {t}"
    using assms(1) nt unfolding rq_ok_def valid_tid_def by force
  then have "card (set (kn_rq k c)) \<le> card ({0..63} - {t})"
    by (intro card_mono) auto
  also have "\<dots> = 63"
    using assms(2) by (simp add: valid_tid_def card_Diff_singleton_if)
  finally show "int (length (kn_rq k c)) < MAX_TASKS"
    using assms(1) by (simp add: slot_consts rq_ok_def distinct_card)
qed

lemma rq_least_from_in: "rq_least_from q b cs \<in> insert b (set cs)"
  by (induction q b cs rule: rq_least_from.induct) auto

lemma rq_least_loaded_bounds:
  assumes "rq_ok k"
  shows "0 \<le> rq_least_loaded k" "rq_least_loaded k < kn_ncpu k"
  using rq_least_from_in [of "kn_rq k" 0 "[1..kn_ncpu k - 1]"] assms
  by (auto simp: rq_least_loaded_def rq_ok_def)

text \<open>Operations on the queues leave everything else alone.\<close>

definition same_but_rq :: "kern \<Rightarrow> kern \<Rightarrow> bool" where
  "same_but_rq k k' \<longleftrightarrow> kn_cur k' = kn_cur k \<and> kn_ncpu k' = kn_ncpu k \<and> kn_frame k' = kn_frame k \<and>
     kn_num k' = kn_num k \<and>
     (\<forall>u. \<exists>r. kn_task k' u = (kn_task k u)\<lparr>tk_rq := r\<rparr>)"

lemma same_but_rqD:
  assumes "same_but_rq k k'"
  shows "kn_cur k' = kn_cur k" "kn_ncpu k' = kn_ncpu k"
    "tk_state (kn_task k' u) = tk_state (kn_task k u)"
    "tk_idle (kn_task k' u) = tk_idle (kn_task k u)" "tk_pending (kn_task k' u) = tk_pending (kn_task k u)"
    "tk_parent (kn_task k' u) = tk_parent (kn_task k u)" "tk_waiting (kn_task k' u) = tk_waiting (kn_task k u)"
    "tk_trusted (kn_task k' u) = tk_trusted (kn_task k u)" "tk_pd (kn_task k' u) = tk_pd (kn_task k u)"
    "tk_exit (kn_task k' u) = tk_exit (kn_task k u)"
proof -
  obtain r where r: "kn_task k' u = (kn_task k u)\<lparr>tk_rq := r\<rparr>"
    using assms by (auto simp: same_but_rq_def)
  show "kn_cur k' = kn_cur k" "kn_ncpu k' = kn_ncpu k"
    "tk_state (kn_task k' u) = tk_state (kn_task k u)"
    "tk_idle (kn_task k' u) = tk_idle (kn_task k u)" "tk_pending (kn_task k' u) = tk_pending (kn_task k u)"
    "tk_parent (kn_task k' u) = tk_parent (kn_task k u)" "tk_waiting (kn_task k' u) = tk_waiting (kn_task k u)"
    "tk_trusted (kn_task k' u) = tk_trusted (kn_task k u)" "tk_pd (kn_task k' u) = tk_pd (kn_task k u)"
    "tk_exit (kn_task k' u) = tk_exit (kn_task k u)"
    using assms by (simp_all add: r) (simp_all add: same_but_rq_def)
qed

lemma task_rq_self [simp]: "x\<lparr>tk_rq := tk_rq x\<rparr> = x"
  by simp

lemma same_but_rq_refl [simp]: "same_but_rq k k"
  unfolding same_but_rq_def by (metis task_rq_self)

lemma rq_enqueue_same: "same_but_rq k (rq_enqueue c t k)"
proof -
  have "same_but_rq k (upd_task t (\<lambda>x. x\<lparr>tk_rq := r\<rparr>) (k\<lparr>kn_rq := q\<rparr>))" for q r
    unfolding same_but_rq_def upd_task_def by (auto intro: task_rq_self [symmetric])
  then show ?thesis
    by (simp add: rq_enqueue_def Let_def)
qed

lemma rq_remove_same: "same_but_rq k (rq_remove t k)"
proof -
  have "same_but_rq k (upd_task t (\<lambda>x. x\<lparr>tk_rq := r\<rparr>) (k\<lparr>kn_rq := q\<rparr>))" for q r
    unfolding same_but_rq_def upd_task_def by (auto intro: task_rq_self [symmetric])
  then show ?thesis
    by (simp add: rq_remove_def Let_def)
qed

lemma rq_enqueue_wake_same: "same_but_rq k (rq_enqueue_wake t k)"
  by (simp add: rq_enqueue_wake_def rq_enqueue_same)

lemma same_but_rq_preds:
  assumes "same_but_rq k k'"
  shows "dead k' = dead k" "pinned k' = pinned k" "current k' = current k"
  by (simp_all add: fun_eq_iff dead_def pinned_def current_def same_but_rqD [OF assms])

lemma same_but_rq_parts:
  assumes "same_but_rq k k'"
  shows "cur_ok k' = cur_ok k" "pin_ok k' = pin_ok k"
  unfolding cur_ok_def pin_ok_def same_but_rqD [OF assms] same_but_rq_preds [OF assms] by (rule refl)+

text \<open>A queue update is characterised by what it does to one task's entry.\<close>

lemma rq_enqueue_x:
  assumes ok: "sched_x A k" and c: "valid_cpu c"
  shows "sched_x A (rq_enqueue c t k)"
    and "valid_tid t \<Longrightarrow> \<not> dead k t \<Longrightarrow> \<not> (tk_idle (kn_task k t) \<and> c \<noteq> t) \<Longrightarrow> 0 \<le> tk_rq (kn_task (rq_enqueue c t k) t)"
    and "u \<noteq> t \<Longrightarrow> tk_rq (kn_task (rq_enqueue c t k) u) = tk_rq (kn_task k u)"
    and "0 \<le> tk_rq (kn_task k u) \<Longrightarrow> tk_rq (kn_task (rq_enqueue c t k) u) = tk_rq (kn_task k u)"
proof -
  note I = sched_xD [OF ok]
  let ?k = "rq_enqueue c t k"
  have "sched_x A ?k \<and> (valid_tid t \<longrightarrow> \<not> dead k t \<longrightarrow> \<not> (tk_idle (kn_task k t) \<and> c \<noteq> t) \<longrightarrow> 0 \<le> tk_rq (kn_task ?k t)) \<and>
      (\<forall>u. u \<noteq> t \<longrightarrow> tk_rq (kn_task ?k u) = tk_rq (kn_task k u)) \<and>
      (\<forall>u. 0 \<le> tk_rq (kn_task k u) \<longrightarrow> tk_rq (kn_task ?k u) = tk_rq (kn_task k u))"
  proof (cases "valid_tid t \<and> tk_rq (kn_task k t) < 0 \<and> \<not> dead k t \<and> \<not> (tk_idle (kn_task k t) \<and> c \<noteq> t)")
    case False
    have "?k = k"
      using False c by (auto simp: rq_enqueue_def valid_tid_def valid_cpu_def slot_consts dead_def)
    then show ?thesis
      using ok False by (auto simp: not_less)
  next
    case True
    then have v: "valid_tid t" and neg: "tk_rq (kn_task k t) < 0" and nd: "\<not> dead k t"
      by auto
    note room = rq_room [OF I(1) v neg]
    have e: "?k = upd_task t (\<lambda>x. x\<lparr>tk_rq := c\<rparr>) (k\<lparr>kn_rq := (kn_rq k)(c := kn_rq k c @ [t])\<rparr>)"
      using True c room(1) [of c]
      by (auto simp: rq_enqueue_def valid_tid_def valid_cpu_def slot_consts dead_def Let_def)
    have rqs: "tk_rq (kn_task ?k u) = (if u = t then c else tk_rq (kn_task k u))" for u
      by (simp add: e)
    have qs: "kn_rq ?k d = (if d = c then kn_rq k c @ [t] else kn_rq k d)" for d
      by (simp add: e)
    have nc: "kn_ncpu ?k = kn_ncpu k"
      by (simp add: e)
    have sm: "same_but_rq k ?k"
      by (rule rq_enqueue_same)
    have "rq_ok ?k"
      using I(1) v c room(2) unfolding rq_ok_def rqs qs nc by (auto simp: valid_cpu_def)
    moreover have "dead_ok ?k"
      using I(2) nd unfolding dead_ok_def rqs same_but_rq_preds [OF sm] by auto
    moreover have "run_ok A ?k"
      using I(5) c unfolding run_ok_def rqs same_but_rq_preds [OF sm] same_but_rqD [OF sm] valid_cpu_def by auto
    ultimately have "sched_x A ?k"
      using I(3,4) same_but_rq_parts [OF sm] by (simp add: sched_x_def)
    then show ?thesis
      using c neg by (auto simp: rqs valid_cpu_def)
  qed
  then show "sched_x A ?k"
    and "valid_tid t \<Longrightarrow> \<not> dead k t \<Longrightarrow> \<not> (tk_idle (kn_task k t) \<and> c \<noteq> t) \<Longrightarrow> 0 \<le> tk_rq (kn_task ?k t)"
    and "u \<noteq> t \<Longrightarrow> tk_rq (kn_task ?k u) = tk_rq (kn_task k u)"
    and "0 \<le> tk_rq (kn_task k u) \<Longrightarrow> tk_rq (kn_task ?k u) = tk_rq (kn_task k u)"
    by blast+
qed

lemma rq_least_valid: "rq_ok k \<Longrightarrow> valid_cpu (rq_least_loaded k)"
  using rq_least_loaded_bounds [of k] by (auto simp: valid_cpu_def rq_ok_def)

lemma rq_enqueue_wake_x:
  assumes "sched_x A k"
  shows "sched_x A (rq_enqueue_wake t k)"
  using rq_enqueue_x(1) [OF assms rq_least_valid [OF sched_xD(1) [OF assms]]] assms
  by (simp add: rq_enqueue_wake_def)

text \<open>The closing step of every wake-up: the task just made READY gets queued.\<close>

lemma wake_close:
  assumes ok: "sched_x (insert t A) k" and st: "tk_state (kn_task k t) = READY" and np: "\<not> pinned k t"
    and v: "valid_tid t"
  shows "sched_x A (rq_enqueue_wake t k)"
proof (rule sched_x_close)
  show "sched_x (insert t A) (rq_enqueue_wake t k)"
    by (rule rq_enqueue_wake_x [OF ok])
  have lv: "valid_cpu (rq_least_loaded k)"
    by (rule rq_least_valid [OF sched_xD(1) [OF ok]])
  have "rq_enqueue_wake t k = rq_enqueue (rq_least_loaded k) t k"
    using v np by (simp add: rq_enqueue_wake_def slot_consts valid_tid_def pinned_def)
  then have "0 \<le> tk_rq (kn_task (rq_enqueue_wake t k) t)"
    using rq_enqueue_x(2) [OF ok lv v] st np by (simp add: dead_def pinned_def)
  then show "0 \<le> tk_rq (kn_task (rq_enqueue_wake t k) t) \<or> current (rq_enqueue_wake t k) t" ..
  show "tk_state (kn_task (rq_enqueue_wake t k) t) = RUNNING \<Longrightarrow> current (rq_enqueue_wake t k) t"
    using st by (simp add: same_but_rqD [OF rq_enqueue_wake_same])
qed

lemma rq_remove_x:
  assumes ok: "sched_x A k" and st: "valid_tid t \<Longrightarrow> t \<notin> A \<Longrightarrow> tk_state (kn_task k t) = READY \<Longrightarrow> current k t"
  shows "sched_x A (rq_remove t k)" and "valid_tid t \<Longrightarrow> tk_rq (kn_task (rq_remove t k) t) < 0"
proof -
  note I = sched_xD [OF ok]
  let ?k = "rq_remove t k"
  have "sched_x A ?k \<and> (valid_tid t \<longrightarrow> tk_rq (kn_task ?k t) < 0)"
  proof (cases "valid_tid t \<and> 0 \<le> tk_rq (kn_task k t)")
    case False
    then have "?k = k"
      by (auto simp: rq_remove_def valid_tid_def slot_consts Let_def)
    then show ?thesis
      using ok False by auto
  next
    case True
    define c where "c = tk_rq (kn_task k t)"
    have v: "valid_tid t" and tq: "t \<in> set (kn_rq k c)"
      using True I(1) by (auto simp: c_def rq_ok_def)
    have c: "valid_cpu c"
      using tq I(1) by (auto simp: rq_ok_def valid_cpu_def)
    have e: "?k = upd_task t (\<lambda>x. x\<lparr>tk_rq := -1\<rparr>) (k\<lparr>kn_rq := (kn_rq k)(c := swap_out t (kn_rq k c))\<rparr>)"
      using True c by (auto simp: rq_remove_def valid_tid_def valid_cpu_def slot_consts Let_def c_def [symmetric])
    have rqs: "tk_rq (kn_task ?k u) = (if u = t then -1 else tk_rq (kn_task k u))" for u
      by (simp add: e)
    have qs: "kn_rq ?k d = (if d = c then swap_out t (kn_rq k c) else kn_rq k d)" for d
      by (simp add: e)
    have nc: "kn_ncpu ?k = kn_ncpu k"
      by (simp add: e)
    have sm: "same_but_rq k ?k"
      by (rule rq_remove_same)
    have dist: "distinct (kn_rq k c)"
      using I(1) by (simp add: rq_ok_def)
    have other: "t \<notin> set (kn_rq k d)" if "d \<noteq> c" for d
      using rq_okD(3) [OF I(1), of t d] that by (auto simp: c_def)
    have "rq_ok ?k"
    proof (rule rq_okI)
      show "1 \<le> kn_ncpu ?k" "kn_ncpu ?k \<le> 16"
        using rq_okD(1,2) [OF I(1)] by (simp_all only: nc)
      fix d
      show "distinct (kn_rq ?k d)"
        using rq_okD(5) [OF I(1)] by (simp add: qs swap_out_distinct)
      fix u
      show "0 \<le> d \<and> d < 16 \<and> valid_tid u \<and> tk_rq (kn_task ?k u) = d" if "u \<in> set (kn_rq ?k d)"
        using that rq_okD(3) [OF I(1), of u d] other [of d]
        by (auto simp: qs rqs swap_out_set [OF dist] split: if_splits)
      show "u \<in> set (kn_rq ?k (tk_rq (kn_task ?k u)))" if "valid_tid u" "0 \<le> tk_rq (kn_task ?k u)"
        using that rq_okD(4) [OF I(1), of u] by (auto simp: qs rqs swap_out_set [OF dist] split: if_splits)
    qed
    moreover have "dead_ok ?k"
      using I(2) unfolding dead_ok_def rqs same_but_rq_preds [OF sm] by auto
    moreover have "run_ok A ?k"
      using I(5) st unfolding run_ok_def rqs same_but_rq_preds [OF sm] same_but_rqD [OF sm] by auto
    ultimately show ?thesis
      using I(3,4) same_but_rq_parts [OF sm] by (simp add: sched_x_def rqs)
  qed
  then show "sched_x A ?k" "valid_tid t \<Longrightarrow> tk_rq (kn_task ?k t) < 0"
    by blast+
qed

end
