(* ===== verification/Sched_Steps.thy ===== *)
theory Sched_Steps
  imports Sched_Inv
begin

text \<open>
  Every operation on the task table keeps the scheduler invariant: picking, stealing and
  committing a task, the upkeep of a tick, termination, signals, waiting, reaping and
  thread creation.
\<close>

subsection \<open>Picking and stealing\<close>

lemma eligible_cong:
  assumes "same_sched k k'"
  shows "rq_eligible c t k' = rq_eligible c t k"
  by (simp add: rq_eligible_def task_is_current_elsewhere_def same_schedD [OF assms])

lemma rq_pick_loop_spec:
  "rq_pick_loop cid q b s k = (b', k') \<Longrightarrow>
   same_sched k k' \<and> (b' = b \<or> b' \<in> set q \<and> rq_eligible cid b' k)"
proof (induction cid q b s k rule: rq_pick_loop.induct)
  case (2 cid t q b s k)
  let ?k1 = "upd_task t (\<lambda>x. x\<lparr>tk_wait := tk_wait x + 1\<rparr>) k"
  have sm: "same_sched k ?k1"
    by (rule upd_same) simp_all
  show ?case
  proof (cases "rq_eligible cid t k")
    case False
    then show ?thesis
      using 2(1) 2(4) by auto
  next
    case True
    note el = eligible_cong [OF sm]
    show ?thesis
    proof (cases "rq_score (kn_task ?k1 t) > s")
      case gt: True
      have "same_sched ?k1 k' \<and> (b' = t \<or> b' \<in> set q \<and> rq_eligible cid b' ?k1)"
        using 2(2) [OF _ refl refl gt] 2(4) True gt by (simp add: Let_def)
      then show ?thesis
        using same_sched_trans [OF sm] True el by auto
    next
      case le: False
      have "same_sched ?k1 k' \<and> (b' = b \<or> b' \<in> set q \<and> rq_eligible cid b' ?k1)"
        using 2(3) [OF _ refl refl le] 2(4) True le by (simp add: Let_def)
      then show ?thesis
        using same_sched_trans [OF sm] el by auto
    qed
  qed
qed simp

lemma rq_pick_spec:
  assumes "rq_pick cid k = (n, k')"
  shows "same_sched k k'" and "n \<noteq> -1 \<Longrightarrow> n \<in> set (kn_rq k cid) \<and> rq_eligible cid n k"
proof -
  obtain k1 where k1: "rq_pick_loop cid (kn_rq k cid) (-1) (-1) k = (n, k1)"
    and k': "k' = (if n \<ge> 0 then upd_task n (\<lambda>x. x\<lparr>tk_wait := 0\<rparr>) k1 else k1)"
    using assms by (auto simp: rq_pick_def split: prod.splits)
  note S = rq_pick_loop_spec [OF k1]
  have "same_sched k1 k'"
    by (auto simp: k' intro!: upd_same)
  then show "same_sched k k'"
    using S same_sched_trans by blast
  show "n \<noteq> -1 \<Longrightarrow> n \<in> set (kn_rq k cid) \<and> rq_eligible cid n k"
    using S by auto
qed

definition stealable :: "int \<Rightarrow> int \<Rightarrow> kern \<Rightarrow> bool" where
  "stealable cid t k \<longleftrightarrow> t \<noteq> 0 \<and> \<not> tk_idle (kn_task k t) \<and> tk_state (kn_task k t) = READY \<and>
     \<not> task_is_current_elsewhere cid t k"

lemma rq_steal_queue_spec:
  "rq_steal_queue cid c q (b, s, src) k = (b', s', src') \<Longrightarrow>
   (b', src') = (b, src) \<or> (src' = c \<and> b' \<in> set q \<and> stealable cid b' k)"
proof (induction q arbitrary: b s src)
  case (Cons t q)
  then show ?case
    by (auto simp: stealable_def split: if_splits)
qed simp

lemma rq_steal_cpus_spec:
  "rq_steal_cpus cid cs (b, s, src) k = (b', s', src') \<Longrightarrow>
   (b', src') = (b, src) \<or> (src' \<in> set cs \<and> src' \<noteq> cid \<and> b' \<in> set (kn_rq k src') \<and> stealable cid b' k)"
proof (induction cs arbitrary: b s src)
  case (Cons c cs)
  show ?case
  proof (cases "c = cid")
    case True
    then show ?thesis
      using Cons by auto
  next
    case False
    obtain b1 s1 src1 where q: "rq_steal_queue cid c (kn_rq k c) (b, s, src) k = (b1, s1, src1)"
      by (metis prod_cases3)
    then have "rq_steal_cpus cid cs (b1, s1, src1) k = (b', s', src')"
      using Cons.prems False by simp
    from Cons.IH [OF this] rq_steal_queue_spec [OF q] False show ?thesis
      by auto
  qed
qed simp

lemma rq_steal_spec:
  assumes ok: "sched_x A k" and c: "valid_cpu cid" and st: "rq_steal cid k = (n, k')"
  shows "sched_x A k'" and "same_but_rq k k'"
    and "n \<noteq> -1 \<Longrightarrow> valid_tid n \<and> stealable cid n k"
    and "0 \<le> tk_rq (kn_task k u) \<Longrightarrow> valid_tid u \<Longrightarrow> 0 \<le> tk_rq (kn_task k' u)"
proof -
  note I = sched_xD [OF ok]
  obtain s src where r: "rq_steal_cpus cid [0..kn_ncpu k - 1] (-1, -1, -1) k =
      (fst (rq_steal_cpus cid [0..kn_ncpu k - 1] (-1, -1, -1) k), s, src)"
    by (metis prod.collapse)
  define m where "m = fst (rq_steal_cpus cid [0..kn_ncpu k - 1] (-1, -1, -1) k)"
  note S = rq_steal_cpus_spec [OF r, folded m_def]
  have "sched_x A k' \<and> same_but_rq k k' \<and> (n \<noteq> -1 \<longrightarrow> valid_tid n \<and> stealable cid n k) \<and>
      (\<forall>u. 0 \<le> tk_rq (kn_task k u) \<longrightarrow> valid_tid u \<longrightarrow> 0 \<le> tk_rq (kn_task k' u))"
  proof (cases "m < 0")
    case True
    then have "n = -1" "k' = k"
      using st r [folded m_def] by (auto simp: rq_steal_def)
    then show ?thesis
      using ok by simp
  next
    case False
    then have src: "src \<noteq> cid" "m \<in> set (kn_rq k src)" "stealable cid m k"
      using S by auto
    note ms = rq_okD(3) [OF I(1) src(2)]
    define q where "q = (kn_rq k)(src := swap_out m (kn_rq k src), cid := kn_rq k cid @ [m])"
    have e: "n = m" "k' = upd_task m (\<lambda>x. x\<lparr>tk_rq := cid\<rparr>) (k\<lparr>kn_rq := q\<rparr>)"
      using st r [folded m_def] False src(1) by (auto simp: rq_steal_def Let_def upd_task_def q_def)
    have rqs: "tk_rq (kn_task k' u) = (if u = m then cid else tk_rq (kn_task k u))" for u
      by (simp add: e)
    have qs: "kn_rq k' d = (if d = cid then kn_rq k cid @ [m] else if d = src then swap_out m (kn_rq k src) else kn_rq k d)" for d
      using src(1) by (simp add: e q_def)
    have sm: "same_but_rq k k'"
      unfolding same_but_rq_def e upd_task_def by (auto intro: task_rq_self [symmetric])
    have dist: "distinct (kn_rq k src)"
      using rq_okD(5) [OF I(1)] .
    have other: "m \<notin> set (kn_rq k d)" if "d \<noteq> src" for d
      using rq_okD(3) [OF I(1), of m d] ms that by auto
    have "rq_ok k'"
    proof (rule rq_okI)
      show "1 \<le> kn_ncpu k'" "kn_ncpu k' \<le> 16"
        using rq_okD(1,2) [OF I(1)] by (simp_all only: same_but_rqD [OF sm])
      fix d
      show "distinct (kn_rq k' d)"
        using rq_okD(5) [OF I(1)] other src(1) by (simp add: qs swap_out_distinct)
      fix u
      show "0 \<le> d \<and> d < 16 \<and> valid_tid u \<and> tk_rq (kn_task k' u) = d" if "u \<in> set (kn_rq k' d)"
        using that rq_okD(3) [OF I(1), of u d] other [of d] ms c
        by (auto simp: qs rqs swap_out_set [OF dist] valid_cpu_def split: if_splits)
      show "u \<in> set (kn_rq k' (tk_rq (kn_task k' u)))" if "valid_tid u" "0 \<le> tk_rq (kn_task k' u)"
        using that rq_okD(4) [OF I(1), of u] by (auto simp: qs rqs swap_out_set [OF dist] split: if_splits)
    qed
    moreover have "dead_ok k'"
      using I(2) src(3) unfolding dead_ok_def rqs same_but_rq_preds [OF sm] by (auto simp: dead_def stealable_def)
    moreover have "run_ok A k'"
      using I(5) c unfolding run_ok_def rqs same_but_rq_preds [OF sm] same_but_rqD [OF sm] valid_cpu_def by auto
    ultimately have "sched_x A k'"
      using I(3,4) same_but_rq_parts [OF sm] by (simp add: sched_x_def)
    then show ?thesis
      using sm src ms c by (auto simp: e(1) rqs valid_cpu_def)
  qed
  then show "sched_x A k'" and "same_but_rq k k'" and "n \<noteq> -1 \<Longrightarrow> valid_tid n \<and> stealable cid n k"
    and "0 \<le> tk_rq (kn_task k u) \<Longrightarrow> valid_tid u \<Longrightarrow> 0 \<le> tk_rq (kn_task k' u)"
    by blast+
qed

text \<open>The task that \<open>rq_pick\<close> or \<open>rq_steal\<close> chose may run on this core.\<close>

definition runnable_on :: "int \<Rightarrow> int \<Rightarrow> kern \<Rightarrow> bool" where
  "runnable_on cid t k \<longleftrightarrow> valid_tid t \<and> \<not> dead k t \<and>
     (\<forall>c. valid_cpu c \<longrightarrow> c \<noteq> cid \<longrightarrow> kn_cur k c \<noteq> t) \<and> (pinned k t \<longrightarrow> t = cid)"

lemma rq_next_spec:
  assumes ok: "sched_x A k" and c: "valid_cpu cid" and r: "rq_next cid k = (n, k')"
  shows "sched_x A k'" and "n \<ge> 0 \<Longrightarrow> runnable_on cid n k'"
    and "kn_cur k' = kn_cur k" and "tk_state (kn_task k' u) = tk_state (kn_task k u)"
    and "tk_idle (kn_task k' u) = tk_idle (kn_task k u)" and "kn_ncpu k' = kn_ncpu k"
    and "tk_pending (kn_task k' u) = tk_pending (kn_task k u)"
    and "0 \<le> tk_rq (kn_task k u) \<Longrightarrow> valid_tid u \<Longrightarrow> 0 \<le> tk_rq (kn_task k' u)"
proof -
  obtain m k1 where p: "rq_pick cid k = (m, k1)"
    by fastforce
  note P = rq_pick_spec [OF p]
  note D = same_schedD [OF P(1)]
  have ok1: "sched_x A k1"
    using ok same_sched_x [OF P(1)] by simp
  have "sched_x A k' \<and> (n \<ge> 0 \<longrightarrow> runnable_on cid n k') \<and> kn_cur k' = kn_cur k \<and> kn_ncpu k' = kn_ncpu k \<and>
      (\<forall>u. tk_state (kn_task k' u) = tk_state (kn_task k u) \<and> tk_idle (kn_task k' u) = tk_idle (kn_task k u) \<and>
        tk_pending (kn_task k' u) = tk_pending (kn_task k u) \<and>
        (0 \<le> tk_rq (kn_task k u) \<longrightarrow> valid_tid u \<longrightarrow> 0 \<le> tk_rq (kn_task k' u)))"
  proof (cases "m < 0")
    case True
    then have st: "rq_steal cid k1 = (n, k')"
      using r p by (simp add: rq_next_def)
    note S = rq_steal_spec [OF ok1 c st]
    note E = same_but_rqD [OF S(2)]
    have "runnable_on cid n k'" if "n \<ge> 0"
      using S(3) that unfolding runnable_on_def dead_def pinned_def E
      by (auto simp: stealable_def current_elsewhere_iff)
    then show ?thesis
      using S D E by auto
  next
    case False
    then have e: "n = m" "k' = k1"
      using r p by (auto simp: rq_next_def)
    have "m \<in> set (kn_rq k cid)" "rq_eligible cid m k"
      using P(2) False by auto
    then have "runnable_on cid n k'"
      using rq_okD(3) [OF sched_xD(1) [OF ok]] unfolding runnable_on_def dead_def pinned_def e D
      by (auto simp: rq_eligible_def current_elsewhere_iff)
    then show ?thesis
      using ok1 D by (simp add: e)
  qed
  then show "sched_x A k'" and "n \<ge> 0 \<Longrightarrow> runnable_on cid n k'"
    and "kn_cur k' = kn_cur k" and "tk_state (kn_task k' u) = tk_state (kn_task k u)"
    and "tk_idle (kn_task k' u) = tk_idle (kn_task k u)" and "kn_ncpu k' = kn_ncpu k"
    and "tk_pending (kn_task k' u) = tk_pending (kn_task k u)"
    and "0 \<le> tk_rq (kn_task k u) \<Longrightarrow> valid_tid u \<Longrightarrow> 0 \<le> tk_rq (kn_task k' u)"
    by blast+
qed

subsection \<open>Committing and saving\<close>

lemma pin_okD:
  assumes "pin_ok k"
  shows "\<not> tk_idle (kn_task k 0)" "0 < c \<Longrightarrow> c < kn_ncpu k \<Longrightarrow> tk_idle (kn_task k c)"
    "valid_tid t \<Longrightarrow> pinned k t \<Longrightarrow> tk_state (kn_task k t) = READY \<or> tk_state (kn_task k t) = RUNNING"
    "valid_tid t \<Longrightarrow> pinned k t \<Longrightarrow> tk_pending (kn_task k t) = 0"
    "valid_tid t \<Longrightarrow> \<not> tk_idle (kn_task k (tk_parent (kn_task k t)))"
  using assms by (simp_all add: pin_ok_def)

lemma cur_okD:
  assumes "cur_ok k"
  shows "valid_cpu c \<Longrightarrow> kn_cur k c < 64"
    "valid_cpu c \<Longrightarrow> valid_cpu d \<Longrightarrow> 0 \<le> kn_cur k c \<Longrightarrow> kn_cur k c = kn_cur k d \<Longrightarrow> c = d"
    "valid_cpu c \<Longrightarrow> 0 \<le> kn_cur k c \<Longrightarrow> pinned k (kn_cur k c) \<Longrightarrow> kn_cur k c = c"
  using assms by (simp_all add: cur_ok_def)

lemma switch_page_dir_same: "same_sched k (vmm_switch_page_dir c pd k)"
  by (simp add: vmm_switch_page_dir_def same_sched_def)

lemma sched_commit_x:
  assumes ok: "sched_x A k" and c: "valid_cpu cid" and n: "runnable_on cid n k"
    and old: "valid_tid (kn_cur k cid) \<Longrightarrow> kn_cur k cid \<noteq> n \<Longrightarrow> kn_cur k cid \<notin> A \<Longrightarrow>
        tk_state (kn_task k (kn_cur k cid)) \<noteq> RUNNING \<and>
        (tk_state (kn_task k (kn_cur k cid)) = READY \<longrightarrow> 0 \<le> tk_rq (kn_task k (kn_cur k cid)))"
  shows "sched_x A (sched_commit cid n k)" and "kn_cur (sched_commit cid n k) cid = n"
    and "kn_ncpu (sched_commit cid n k) = kn_ncpu k"
    and "tk_state (kn_task (sched_commit cid n k) n) = RUNNING"
proof -
  define k2 where "k2 = (set_state n RUNNING k)\<lparr>kn_cur := (kn_cur k)(cid := n), kn_tss := (kn_tss k)(cid := kstack_top (set_state n RUNNING k) n)\<rparr>"
  have sm: "same_sched k2 (sched_commit cid n k)"
    by (simp add: sched_commit_def Let_def k2_def [symmetric] switch_page_dir_same upd_task_def)
       (simp add: k2_def upd_task_def switch_page_dir_same)
  note I = sched_xD [OF ok]
  have st: "tk_state (kn_task k2 u) = (if u = n then RUNNING else tk_state (kn_task k u))" for u
    by (simp add: k2_def)
  have keep: "tk_rq (kn_task k2 u) = tk_rq (kn_task k u)" "tk_idle (kn_task k2 u) = tk_idle (kn_task k u)"
    "tk_pending (kn_task k2 u) = tk_pending (kn_task k u)" "tk_parent (kn_task k2 u) = tk_parent (kn_task k u)" for u
    by (simp_all add: k2_def)
  have cr: "kn_cur k2 = (kn_cur k)(cid := n)" "kn_rq k2 = kn_rq k" "kn_ncpu k2 = kn_ncpu k"
    by (simp_all add: k2_def)
  have pin: "pinned k2 = pinned k"
    by (simp add: fun_eq_iff pinned_def keep)
  have nv: "valid_tid n" "\<not> dead k n" "pinned k n \<Longrightarrow> n = cid"
    and nc: "\<And>d. valid_cpu d \<Longrightarrow> d \<noteq> cid \<Longrightarrow> kn_cur k d \<noteq> n"
    using n by (auto simp: runnable_on_def)
  have curn: "current k2 n"
    using c by (auto simp: current_def cr)
  have curu: "current k2 u" if "current k u" "u \<noteq> kn_cur k cid" for u
    using that by (auto simp: current_def cr)
  have "rq_ok k2"
    using I(1) unfolding rq_ok_def cr keep .
  moreover have "dead_ok k2"
    using I(2) unfolding dead_ok_def dead_def st keep by auto
  moreover have "cur_ok k2"
    using I(3) nv nc unfolding cur_ok_def pin cr by (auto simp: valid_tid_def)
  moreover have "pin_ok k2"
    using I(4) unfolding pin_ok_def pin st keep cr by auto
  moreover have "run_ok A k2"
  proof -
    have "current k2 u" if "valid_tid u" "u \<notin> A" "tk_state (kn_task k2 u) = RUNNING" for u
    proof (cases "u = n")
      case False
      then have s: "tk_state (kn_task k u) = RUNNING"
        using that(3) by (simp add: st)
      moreover have "u \<noteq> kn_cur k cid"
        using old s that(1,2) False by auto
      ultimately show ?thesis
        using I(5) that(1,2) curu unfolding run_ok_def by blast
    qed (simp add: curn)
    moreover have "0 \<le> tk_rq (kn_task k2 u) \<or> current k2 u" if "valid_tid u" "u \<notin> A" "tk_state (kn_task k2 u) = READY" for u
    proof (cases "u = n")
      case False
      then have s: "tk_state (kn_task k u) = READY"
        using that(3) by (simp add: st)
      show ?thesis
      proof (cases "u = kn_cur k cid")
        case True
        then show ?thesis
          using old s that(1,2) False by (simp add: keep)
      next
        case False
        then show ?thesis
          using I(5) that(1,2) s curu unfolding run_ok_def keep by blast
      qed
    qed (simp add: curn)
    ultimately show ?thesis
      by (simp add: run_ok_def)
  qed
  ultimately have "sched_x A k2"
    by (simp add: sched_x_def)
  then show "sched_x A (sched_commit cid n k)"
    by (simp add: same_sched_x [OF sm])
  show "kn_cur (sched_commit cid n k) cid = n" "kn_ncpu (sched_commit cid n k) = kn_ncpu k"
    "tk_state (kn_task (sched_commit cid n k) n) = RUNNING"
    by (simp_all add: same_schedD [OF sm] cr st)
qed

lemma set_ready_current:
  assumes ok: "sched_x A k" and cu: "current k t" and nd: "\<not> dead k t"
  shows "sched_x A (set_state t READY k)"
proof -
  let ?k = "set_state t READY k"
  note I = sched_xD [OF ok]
  have p: "pinned ?k = pinned k" "current ?k = current k"
    by (simp_all add: fun_eq_iff pinned_def current_def)
  have "rq_ok ?k"
    using I(1) unfolding rq_ok_def by simp
  moreover have "dead_ok ?k"
    using I(2) unfolding dead_ok_def dead_def by auto
  moreover have "cur_ok ?k"
    using I(3) unfolding cur_ok_def p by simp
  moreover have "pin_ok ?k"
    using I(4) unfolding pin_ok_def p by auto
  moreover have "run_ok A ?k"
    using I(5) cu unfolding run_ok_def p by simp
  ultimately show ?thesis
    by (simp add: sched_x_def)
qed

lemma sched_save_x:
  assumes ok: "sched_ok k" and c: "valid_cpu cid" and cur: "cur = kn_cur k cid"
  shows "sched_ok (sched_save cid cur esp k)" and "kn_cur (sched_save cid cur esp k) = kn_cur k"
    and "kn_ncpu (sched_save cid cur esp k) = kn_ncpu k"
    and "tk_idle (kn_task (sched_save cid cur esp k) u) = tk_idle (kn_task k u)"
    and "dead (sched_save cid cur esp k) u = dead k u"
    and "valid_tid cur \<Longrightarrow> tk_state (kn_task (sched_save cid cur esp k) cur) \<noteq> RUNNING \<and>
      (tk_state (kn_task (sched_save cid cur esp k) cur) = READY \<longrightarrow> 0 \<le> tk_rq (kn_task (sched_save cid cur esp k) cur))"
proof -
  let ?r = "sched_save cid cur esp k"
  have "sched_ok ?r \<and> kn_cur ?r = kn_cur k \<and> kn_ncpu ?r = kn_ncpu k \<and>
      (\<forall>u. tk_idle (kn_task ?r u) = tk_idle (kn_task k u) \<and> dead ?r u = dead k u) \<and>
      (valid_tid cur \<longrightarrow> tk_state (kn_task ?r cur) \<noteq> RUNNING \<and> (tk_state (kn_task ?r cur) = READY \<longrightarrow> 0 \<le> tk_rq (kn_task ?r cur)))"
  proof (cases "valid_tid cur \<and> \<not> dead k cur")
    case False
    have "cur_dead cur k" if "valid_tid cur"
    proof -
      have "cur \<noteq> 0"
        using pin_okD(3) [OF sched_xD(4) [OF ok], of 0] False that by (auto simp: pinned_def dead_def)
      then show ?thesis
        using that False by (auto simp: cur_dead_def valid_tid_def slot_consts dead_def)
    qed
    then have "?r = k"
      using False by (auto simp: sched_save_def valid_tid_def slot_consts)
    then show ?thesis
      using ok False by (auto simp: dead_def)
  next
    case True
    then have v: "valid_tid cur" and nd: "\<not> dead k cur"
      by auto
    have cu: "current k cur"
      using c cur by (auto simp: current_def)
    define k1 where "k1 = upd_task cur (\<lambda>x. x\<lparr>tk_esp := esp\<rparr>) k"
    define k2 where "k2 = (if esp \<ge> kstack_guard k cur + KERNEL_STACK_GUARD \<and> esp \<le> kstack_top k cur \<and>
        kstack_top k cur - esp > tk_watermark (kn_task k1 cur)
        then upd_task cur (\<lambda>x. x\<lparr>tk_watermark := kstack_top k cur - esp\<rparr>) k1 else k1)"
    define k3 where "k3 = (if tk_state (kn_task k2 cur) = RUNNING then set_state cur READY k2 else k2)"
    have r: "?r = (if tk_state (kn_task k3 cur) = READY \<and> tk_rq (kn_task k3 cur) < 0 then rq_enqueue cid cur k3 else k3)"
      using v nd
      by (auto simp: sched_save_def cur_dead_def valid_tid_def slot_consts dead_def Let_def k1_def k2_def k3_def)
    have s2: "same_sched k k2"
      unfolding k2_def k1_def by (auto intro!: upd_same same_sched_trans [OF upd_same upd_same])
    have ok2: "sched_ok k2"
      using ok same_sched_x [OF s2] by simp
    have ok3: "sched_ok k3"
      using set_ready_current [OF ok2, of cur] cu nd same_sched_preds [OF s2] ok2 by (simp add: k3_def)
    have f3: "kn_cur k3 = kn_cur k" "kn_ncpu k3 = kn_ncpu k" "tk_idle (kn_task k3 u) = tk_idle (kn_task k u)"
      "dead k3 u = dead k u" "tk_state (kn_task k3 cur) \<noteq> RUNNING" for u
      using same_sched_preds [OF s2] nd
      by (auto simp: k3_def same_schedD [OF s2] dead_def fun_eq_iff)
    have pinc: "tk_idle (kn_task k cur) \<Longrightarrow> cid = cur"
      using cur_okD(3) [OF sched_xD(3) [OF ok] c] v cur by (simp add: pinned_def valid_tid_def)
    show ?thesis
    proof (cases "tk_state (kn_task k3 cur) = READY \<and> tk_rq (kn_task k3 cur) < 0")
      case enq: True
      have re: "?r = rq_enqueue cid cur k3"
        using enq by (simp add: r)
      note E = rq_enqueue_x [OF ok3 c, of cur]
      note S = same_but_rqD [OF rq_enqueue_same [of k3 cid cur]]
      have "0 \<le> tk_rq (kn_task (rq_enqueue cid cur k3) cur)"
        using E(2) v nd f3 pinc by auto
      then show ?thesis
        unfolding re using E(1) f3 S by (simp add: dead_def)
    next
      case False
      then have re: "?r = k3"
        by (subst r) (rule if_not_P)
      show ?thesis
        unfolding re using ok3 f3 False by auto
    qed
  qed
  then show "sched_ok ?r" and "kn_cur ?r = kn_cur k" and "kn_ncpu ?r = kn_ncpu k"
    and "tk_idle (kn_task ?r u) = tk_idle (kn_task k u)" and "dead ?r u = dead k u"
    and "valid_tid cur \<Longrightarrow> tk_state (kn_task ?r cur) \<noteq> RUNNING \<and> (tk_state (kn_task ?r cur) = READY \<longrightarrow> 0 \<le> tk_rq (kn_task ?r cur))"
    by blast+
qed

subsection \<open>Termination\<close>

lemma upd_keep_x:
  assumes ok: "sched_x A k" and np: "\<not> pinned k t"
    and f: "\<And>x. tk_rq (f x) = tk_rq x" "\<And>x. tk_idle (f x) = tk_idle x" "\<And>x. tk_state (f x) = tk_state x"
    and par: "\<not> tk_idle (kn_task k (tk_parent (f (kn_task k t))))"
  shows "sched_x A (upd_task t f k)"
proof (rule sched_xI)
  let ?k = "upd_task t f k"
  note I = sched_xD [OF ok]
  have P: "pinned ?k = pinned k" "current ?k = current k" "dead ?k = dead k"
    using f by (auto simp: fun_eq_iff pinned_def current_def dead_def)
  have rq: "tk_rq (kn_task ?k u) = tk_rq (kn_task k u)" "tk_idle (kn_task ?k u) = tk_idle (kn_task k u)"
    "tk_state (kn_task ?k u) = tk_state (kn_task k u)" for u
    using f by simp_all
  show "rq_ok ?k"
    using I(1) unfolding rq_ok_def rq by simp
  show "dead_ok ?k"
    using I(2) unfolding dead_ok_def rq P .
  show "cur_ok ?k"
    using I(3) unfolding cur_ok_def P by simp
  show "pin_ok ?k"
    using I(4) np par unfolding pin_ok_def P rq by auto
  show "run_ok A ?k"
    using I(5) unfolding run_ok_def P rq by simp
qed

lemma call_same: "same_sched k (call c k)"
  by (simp add: call_def same_sched_def)

lemma gdt_same: "same_sched k (gdt_tls_clear t k)" "same_sched k (gdt_tls_update t b k)"
  by (simp_all add: gdt_tls_clear_def gdt_tls_update_def same_sched_def)

lemma num_same: "same_sched k (k\<lparr>kn_num := n\<rparr>)"
  by (simp add: same_sched_def)

lemma put_frame_same: "same_sched k (put_frame a f k)"
  by (simp add: put_frame_def same_sched_def)

lemma release_space_same: "same_sched k (release_space t k)"
  by (simp add: release_space_def Let_def same_sched_def upd_task_def call_def deferred_pd_push_def)

lemma term_release_same: "same_sched k (term_release t k)"
  by (simp add: term_release_def call_def same_sched_def Let_def)

lemma fb_cleanup_same: "same_sched k (fb_cleanup_task t k)"
  by (simp add: fb_cleanup_task_def same_sched_def)

lemma sync_defer_same: "same_sched k (sync_task_cleanup_defer t k)"
  by (simp add: sync_task_cleanup_defer_def same_sched_def)

lemma shm_exit_same: "same_sched k (if b then call c k else k)"
  by (simp add: call_same)

lemma task_cleanup_same: "same_sched k (task_cleanup t k)"
proof (cases "t \<le> 0 \<or> t \<ge> MAX_TASKS")
  case False
  have nest: "same_sched k (release_space t (call c1 (if b then call c2 k3 else k3)))"
    if "same_sched k k3" for c1 c2 b k3
    by (intro same_sched_trans [OF _ release_space_same] same_sched_trans [OF _ call_same]
        same_sched_trans [OF that shm_exit_same])
  have "same_sched k (call (CloseFds t) (term_release t (fb_cleanup_task t (call (WmCleanup t) (sync_task_cleanup_defer t k)))))"
    by (intro same_sched_trans [OF _ call_same] same_sched_trans [OF _ term_release_same]
        same_sched_trans [OF _ fb_cleanup_same] sync_defer_same)
  from nest [OF this] show ?thesis
    unfolding task_cleanup_def Let_def if_not_P [OF False] .
qed (simp add: task_cleanup_def)

text \<open>Adjusting the children of a dying task changes no queue and no core.\<close>

definition calm :: "int \<Rightarrow> kern \<Rightarrow> kern \<Rightarrow> bool" where
  "calm t k k' \<longleftrightarrow> kn_cur k' = kn_cur k \<and> kn_ncpu k' = kn_ncpu k \<and> kn_task k' t = kn_task k t \<and>
     (\<forall>u. tk_rq (kn_task k' u) = tk_rq (kn_task k u) \<and> tk_idle (kn_task k' u) = tk_idle (kn_task k u) \<and>
          dead k' u = dead k u \<and> (\<not> dead k u \<longrightarrow> tk_state (kn_task k' u) = tk_state (kn_task k u)))"

lemma calmD:
  assumes "calm t k k'"
  shows "kn_cur k' = kn_cur k" "kn_ncpu k' = kn_ncpu k" "kn_task k' t = kn_task k t"
    "tk_rq (kn_task k' u) = tk_rq (kn_task k u)" "tk_idle (kn_task k' u) = tk_idle (kn_task k u)"
    "dead k' u = dead k u" "\<not> dead k u \<Longrightarrow> tk_state (kn_task k' u) = tk_state (kn_task k u)"
  using assms by (simp_all add: calm_def)

lemma calm_refl: "calm t k k"
  by (simp add: calm_def)

lemma calm_trans:
  assumes "calm t a b" and "calm t b c"
  shows "calm t a c"
  by (simp add: calm_def calmD [OF assms(1)] calmD [OF assms(2)])

lemma set_free_x:
  assumes ok: "sched_x A k" and v: "valid_tid c" and z: "dead k c"
  shows "sched_x A (set_state c FREE k)"
proof -
  have np: "\<not> pinned k c"
    using pin_okD(3) [OF sched_xD(4) [OF ok] v] z by (auto simp: dead_def)
  have "tk_rq (kn_task k c) < 0"
    using sched_xD(2) [OF ok] v z by (simp add: dead_ok_def)
  then have "sched_x (insert c A) (set_state c FREE k)"
    using upd_state_x [OF ok np, of "\<lambda>x. x\<lparr>tk_state := FREE\<rparr>"] by simp
  then show ?thesis
    by (rule sched_x_close) simp_all
qed

lemma reparent_one_x:
  assumes ok: "sched_x A k" and v: "valid_tid c" "c \<noteq> 0"
  shows "sched_x A (reparent_one t c k)" and "calm t k (reparent_one t c k)"
proof -
  have "sched_x A (reparent_one t c k) \<and> calm t k (reparent_one t c k)"
  proof (cases "c \<noteq> t \<and> tk_state (kn_task k c) \<noteq> FREE \<and> tk_parent (kn_task k c) = t")
    case False
    then have "reparent_one t c k = k"
      unfolding reparent_one_def by (rule if_not_P)
    then show ?thesis
      using ok calm_refl by simp
  next
    case c: True
    show ?thesis
    proof (cases "tk_state (kn_task k c) = ZOMBIE")
      case z: True
      have e: "reparent_one t c k = gdt_tls_clear c ((set_state c FREE k)\<lparr>kn_num := kn_num k - 1\<rparr>)"
        using c z by (simp add: reparent_one_def)
      have sm: "same_sched (set_state c FREE k) (reparent_one t c k)"
        unfolding e by (rule same_sched_trans [OF num_same gdt_same(1)])
      have "sched_x A (reparent_one t c k)"
        using set_free_x [OF ok v(1)] z by (simp add: same_sched_x [OF sm] dead_def)
      moreover have "kn_task (reparent_one t c k) t = kn_task k t"
        using c by (simp add: e gdt_tls_clear_def)
      ultimately show ?thesis
        using z by (simp add: calm_def dead_def same_schedD [OF sm])
    next
      case nz: False
      have e: "reparent_one t c k = upd_task c (\<lambda>x. x\<lparr>tk_parent := 0\<rparr>) k"
        using c nz by (simp add: reparent_one_def)
      have "sched_x A (reparent_one t c k)"
      proof (cases "pinned k c")
        case False
        then show ?thesis
          unfolding e using pin_okD(1) [OF sched_xD(4) [OF ok]] by (intro upd_keep_x [OF ok]) simp_all
      next
        case True
        have P: "pinned (reparent_one t c k) = pinned k" "current (reparent_one t c k) = current k"
          "dead (reparent_one t c k) = dead k"
          by (auto simp: e fun_eq_iff pinned_def current_def dead_def)
        have rq: "tk_rq (kn_task (reparent_one t c k) u) = tk_rq (kn_task k u)"
          "tk_idle (kn_task (reparent_one t c k) u) = tk_idle (kn_task k u)"
          "tk_state (kn_task (reparent_one t c k) u) = tk_state (kn_task k u)"
          "tk_pending (kn_task (reparent_one t c k) u) = tk_pending (kn_task k u)"
          "tk_parent (kn_task (reparent_one t c k) u) = (if u = c then 0 else tk_parent (kn_task k u))" for u
          by (simp_all add: e)
        have kk: "kn_rq (reparent_one t c k) = kn_rq k" "kn_cur (reparent_one t c k) = kn_cur k"
          "kn_ncpu (reparent_one t c k) = kn_ncpu k"
          by (simp_all add: e)
        show ?thesis
          using ok unfolding sched_x_def rq_ok_def dead_ok_def cur_ok_def pin_ok_def run_ok_def P rq kk by auto
      qed
      then show ?thesis
        using c by (simp add: e calm_def dead_def)
    qed
  qed
  then show "sched_x A (reparent_one t c k)" "calm t k (reparent_one t c k)"
    by blast+
qed

lemma reparent_x:
  assumes "sched_x A k" and "\<forall>c \<in> set cs. valid_tid c \<and> c \<noteq> 0"
  shows "sched_x A (fold (reparent_one t) cs k)" and "calm t k (fold (reparent_one t) cs k)"
proof -
  have "sched_x A (fold (reparent_one t) cs k) \<and> calm t k (fold (reparent_one t) cs k)"
    using assms
  proof (induction cs arbitrary: k)
    case (Cons c cs)
    have "sched_x A (reparent_one t c k)" "calm t k (reparent_one t c k)"
      using reparent_one_x [OF Cons.prems(1)] Cons.prems(2) by auto
    then show ?case
      using Cons.IH [of "reparent_one t c k"] Cons.prems(2) calm_trans by auto
  qed (simp add: calm_refl)
  then show "sched_x A (fold (reparent_one t) cs k)" "calm t k (fold (reparent_one t) cs k)"
    by blast+
qed

lemma user_slots_valid: "\<forall>c \<in> set user_slots. valid_tid c \<and> c \<noteq> 0"
  unfolding user_slots_def set_upto valid_tid_def by auto

lemma slots_valid: "\<forall>c \<in> set slots. valid_tid c"
  unfolding slots_def set_upto valid_tid_def by auto

end
