(* ===== verification/Sched_Term.thy ===== *)
theory Sched_Term
  imports Sched_Steps
begin

text \<open>
  Termination, signals, sleeping, waiting and reaping keep the scheduler invariant, as long
  as the task they act on is not pinned to a core: the boot task and the idle tasks are
  never blocked, stopped or killed by the code that calls them.
\<close>

text \<open>What ending a task may change: its own state, and the state and the pending signals of
  tasks that were alive and stay alive.\<close>

definition ends :: "int \<Rightarrow> kern \<Rightarrow> kern \<Rightarrow> bool" where
  "ends t k k' \<longleftrightarrow> kn_cur k' = kn_cur k \<and> kn_ncpu k' = kn_ncpu k \<and> dead k' t \<and>
     (\<forall>u. u \<noteq> t \<longrightarrow> dead k' u = dead k u) \<and> (\<forall>u. tk_idle (kn_task k' u) = tk_idle (kn_task k u))"

lemma endsD:
  assumes "ends t k k'"
  shows "kn_cur k' = kn_cur k" "kn_ncpu k' = kn_ncpu k" "dead k' t" "u \<noteq> t \<Longrightarrow> dead k' u = dead k u"
    "tk_idle (kn_task k' u) = tk_idle (kn_task k u)"
  using assms by (simp_all add: ends_def)

lemma same_sched_ends: "same_sched a b \<Longrightarrow> ends t k a \<Longrightarrow> ends t k b"
  by (simp add: ends_def same_schedD same_sched_preds)

definition term_prefix :: "int \<Rightarrow> kern \<Rightarrow> kern" where
  "term_prefix t k = fold (reparent_one t) user_slots
     (task_cleanup t (rq_remove t (upd_task t (\<lambda>x. x\<lparr>tk_name := []\<rparr>) k)))"

lemma term_prefix_x:
  assumes ok: "sched_x A k" and v: "valid_tid t" and nd: "\<not> dead k t"
  shows "sched_x (insert t A) (term_prefix t k)" and "tk_rq (kn_task (term_prefix t k) t) < 0"
    and "kn_cur (term_prefix t k) = kn_cur k" and "kn_ncpu (term_prefix t k) = kn_ncpu k"
    and "tk_idle (kn_task (term_prefix t k) u) = tk_idle (kn_task k u)"
    and "dead (term_prefix t k) u = dead k u"
proof -
  define k1 where "k1 = upd_task t (\<lambda>x. x\<lparr>tk_name := []\<rparr>) k"
  define k2 where "k2 = task_cleanup t (rq_remove t k1)"
  have e: "term_prefix t k = fold (reparent_one t) user_slots k2"
    by (simp add: term_prefix_def k1_def k2_def)
  have s1: "same_sched k k1"
    unfolding k1_def by (rule upd_same) simp_all
  have ok1: "sched_x (insert t A) k1"
    using sched_x_weaken [OF ok, of "insert t A"] same_sched_x [OF s1] by auto
  note R = rq_remove_x [OF ok1, of t]
  have sr: "same_but_rq k1 (rq_remove t k1)"
    by (rule rq_remove_same)
  have s2: "same_sched (rq_remove t k1) k2"
    unfolding k2_def by (rule task_cleanup_same)
  have ok2: "sched_x (insert t A) k2"
    using R(1) same_sched_x [OF s2] by simp
  note P = reparent_x [OF ok2 user_slots_valid, of t, folded e]
  note C = calmD [OF P(2)]
  show "sched_x (insert t A) (term_prefix t k)"
    by (rule P(1))
  have rt: "tk_rq (kn_task (term_prefix t k) t) = tk_rq (kn_task (rq_remove t k1) t)"
    unfolding C same_schedD [OF s2] ..
  show "tk_rq (kn_task (term_prefix t k) t) < 0"
    unfolding rt by (rule R(2) [OF _ v]) simp
  show "kn_cur (term_prefix t k) = kn_cur k"
    unfolding C same_schedD [OF s2] same_but_rqD [OF sr] same_schedD [OF s1] ..
  show "kn_ncpu (term_prefix t k) = kn_ncpu k"
    unfolding C same_schedD [OF s2] same_but_rqD [OF sr] same_schedD [OF s1] ..
  show "tk_idle (kn_task (term_prefix t k) u) = tk_idle (kn_task k u)"
    unfolding C same_schedD [OF s2] same_but_rqD [OF sr] same_schedD [OF s1] ..
  show "dead (term_prefix t k) u = dead k u"
    unfolding C same_sched_preds [OF s2] same_but_rq_preds [OF sr] same_sched_preds [OF s1] ..
qed

text \<open>Making a live task READY and queueing it.\<close>

lemma wake_x:
  assumes ok: "sched_x A k" and v: "valid_tid p" and np: "\<not> pinned k p"
    and f: "\<And>x. tk_rq (f x) = tk_rq x" "\<And>x. tk_idle (f x) = tk_idle x" "\<And>x. tk_parent (f x) = tk_parent x"
    and st: "\<And>x. tk_state (f x) = READY"
  shows "sched_x A (rq_enqueue_wake p (upd_task p f k))"
proof (rule wake_close [OF _ _ _ v])
  show "sched_x (insert p A) (upd_task p f k)"
    by (rule upd_state_x [OF ok np f]) (simp add: st)
  show "tk_state (kn_task (upd_task p f k) p) = READY"
    by (simp add: st)
  show "\<not> pinned (upd_task p f k) p"
    using np f(2) by (simp add: pinned_def)
qed

text \<open>Taking a task off the queues.\<close>

lemma park_x:
  assumes ok: "sched_x A k" and np: "\<not> pinned k t"
    and f: "\<And>x. tk_rq (f x) = tk_rq x" "\<And>x. tk_idle (f x) = tk_idle x" "\<And>x. tk_parent (f x) = tk_parent x"
    and st: "\<And>x. tk_state (f x) \<in> {SLEEP, BLOCKED, STOPPED}"
  shows "sched_x A (rq_remove t (upd_task t f k))"
proof -
  have st': "tk_state (f x) \<notin> {FREE, ZOMBIE, RUNNING, READY}" for x
    using st [of x] by auto
  have 1: "sched_x (insert t A) (upd_task t f k)"
    using upd_state_x [OF ok np f] st' by auto
  have 2: "sched_x (insert t A) (rq_remove t (upd_task t f k))"
    by (rule rq_remove_x(1) [OF 1]) simp
  have "tk_state (kn_task (rq_remove t (upd_task t f k)) t) \<notin> {RUNNING, READY}"
    using st' by (auto simp: same_but_rqD [OF rq_remove_same])
  then show ?thesis
    by (intro sched_x_close [OF 2]) auto
qed

definition term_parent :: "int \<Rightarrow> kern \<Rightarrow> kern" where
  "term_parent p k =
     upd_task p (\<lambda>x. x\<lparr>tk_pending := tk_pending x OR sig_bit SIGCHLD\<rparr>)
       (if tk_waiting (kn_task k p) \<noteq> 0
        then rq_enqueue_wake p (upd_task p (\<lambda>x. x\<lparr>tk_waiting := 0, tk_state := READY\<rparr>) k) else k)"

lemma term_parent_x:
  assumes ok: "sched_x A k" and v: "valid_tid p" and np: "\<not> pinned k p" and nd: "\<not> dead k p"
  shows "sched_x A (term_parent p k)" and "ends t k k' \<Longrightarrow> t \<noteq> p \<Longrightarrow> k' = k \<Longrightarrow> ends t k (term_parent p k')"
    and "kn_cur (term_parent p k) = kn_cur k" and "kn_ncpu (term_parent p k) = kn_ncpu k"
    and "tk_idle (kn_task (term_parent p k) u) = tk_idle (kn_task k u)"
    and "dead (term_parent p k) u = dead k u"
proof -
  define k4 where "k4 = (if tk_waiting (kn_task k p) \<noteq> 0
        then rq_enqueue_wake p (upd_task p (\<lambda>x. x\<lparr>tk_waiting := 0, tk_state := READY\<rparr>) k) else k)"
  have e: "term_parent p k = upd_task p (\<lambda>x. x\<lparr>tk_pending := tk_pending x OR sig_bit SIGCHLD\<rparr>) k4"
    by (simp add: term_parent_def k4_def)
  have ok4: "sched_x A k4"
    unfolding k4_def using wake_x [OF ok v np, of "\<lambda>x. x\<lparr>tk_waiting := 0, tk_state := READY\<rparr>"] ok by simp
  have E: "kn_cur k4 = kn_cur k" "kn_ncpu k4 = kn_ncpu k" "tk_idle (kn_task k4 u) = tk_idle (kn_task k u)"
    "dead k4 u = dead k u" for u
    using nd by (auto simp: k4_def dead_def same_but_rqD [OF rq_enqueue_wake_same])
  have np4: "\<not> pinned k4 p"
    using np by (simp add: pinned_def E)
  show "sched_x A (term_parent p k)"
    unfolding e using pin_okD(5) [OF sched_xD(4) [OF ok4] v] by (intro upd_keep_x [OF ok4 np4]) simp_all
  show F: "kn_cur (term_parent p k) = kn_cur k" "kn_ncpu (term_parent p k) = kn_ncpu k"
    "tk_idle (kn_task (term_parent p k) u) = tk_idle (kn_task k u)" "dead (term_parent p k) u = dead k u" for u
    using E by (auto simp: e dead_def)
  show "ends t k k' \<Longrightarrow> t \<noteq> p \<Longrightarrow> k' = k \<Longrightarrow> ends t k (term_parent p k')"
    by (simp add: ends_def F)
qed

lemma terminate_task_cases:
  "terminate_task t code k =
     (if t \<le> 0 \<or> t \<ge> MAX_TASKS then k
      else if tk_state (kn_task k t) = FREE \<or> tk_state (kn_task k t) = ZOMBIE then k
      else
        (let k2 = term_prefix t k; p = tk_parent (kn_task k2 t)
         in if p \<ge> 1 \<and> p < MAX_TASKS \<and> p \<noteq> t \<and> tk_state (kn_task k2 p) \<noteq> FREE \<and> tk_state (kn_task k2 p) \<noteq> ZOMBIE
            then term_parent p (upd_task t (\<lambda>x. x\<lparr>tk_state := ZOMBIE, tk_exit := code mod 256, tk_zsince := kn_ms k2\<rparr>) k2)
            else gdt_tls_clear t ((set_state t FREE k2)\<lparr>kn_num := kn_num k2 - 1\<rparr>)))"
  by (simp add: terminate_task_def term_prefix_def term_parent_def Let_def)

lemma kill_x:
  assumes ok: "sched_x (insert t A) k" and np: "\<not> pinned k t" and neg: "tk_rq (kn_task k t) < 0"
    and f: "\<And>x. tk_rq (f x) = tk_rq x" "\<And>x. tk_idle (f x) = tk_idle x" "\<And>x. tk_parent (f x) = tk_parent x"
    and st: "\<And>x. tk_state (f x) \<in> {FREE, ZOMBIE}"
  shows "sched_x A (upd_task t f k)"
proof (rule sched_x_close)
  show "sched_x (insert t A) (upd_task t f k)"
    using upd_state_x [OF ok np f] neg by simp
  have "tk_state (f (kn_task k t)) \<in> {FREE, ZOMBIE}"
    by (rule st)
  then show "tk_state (kn_task (upd_task t f k) t) = RUNNING \<Longrightarrow> current (upd_task t f k) t"
    and "tk_state (kn_task (upd_task t f k) t) = READY \<Longrightarrow>
      0 \<le> tk_rq (kn_task (upd_task t f k) t) \<or> current (upd_task t f k) t"
    by auto
qed

lemma terminate_task_x:
  assumes ok: "sched_x A k" and np: "\<not> pinned k t"
  shows "sched_x A (terminate_task t code k)"
    and "valid_tid t \<Longrightarrow> ends t k (terminate_task t code k)"
proof -
  let ?r = "terminate_task t code k"
  have "sched_x A ?r \<and> (valid_tid t \<longrightarrow> ends t k ?r)"
  proof (cases "valid_tid t \<and> \<not> dead k t")
    case False
    then have "?r = k"
      using np by (auto simp: terminate_task_cases valid_tid_def slot_consts dead_def)
    then show ?thesis
      using ok False by (auto simp: ends_def)
  next
    case True
    then have v: "valid_tid t" and nd: "\<not> dead k t" and t0: "t \<noteq> 0"
      using np by (auto simp: pinned_def)
    define k2 where "k2 = term_prefix t k"
    note T = term_prefix_x [OF ok v nd, folded k2_def]
    define p where "p = tk_parent (kn_task k2 t)"
    have np2: "\<not> pinned k2 t"
      using np by (simp add: pinned_def T)
    define k3 where "k3 = upd_task t (\<lambda>x. x\<lparr>tk_state := ZOMBIE, tk_exit := code mod 256, tk_zsince := kn_ms k2\<rparr>) k2"
    define k5 where "k5 = set_state t FREE k2"
    let ?par = "p \<ge> 1 \<and> p < MAX_TASKS \<and> p \<noteq> t \<and> tk_state (kn_task k2 p) \<noteq> FREE \<and> tk_state (kn_task k2 p) \<noteq> ZOMBIE"
    have r: "?r = (if ?par then term_parent p k3 else gdt_tls_clear t (k5\<lparr>kn_num := kn_num k2 - 1\<rparr>))"
      using v nd t0
      by (auto simp: terminate_task_cases Let_def k2_def p_def k3_def k5_def valid_tid_def slot_consts dead_def)
    show ?thesis
    proof (cases ?par)
      case True
      have pv: "valid_tid p" "p \<noteq> t" "p \<noteq> 0" and pd: "\<not> dead k2 p"
        using True by (auto simp: valid_tid_def slot_consts dead_def)
      have ok3: "sched_x A k3"
        unfolding k3_def by (rule kill_x [OF T(1) np2 T(2)]) simp_all
      have e3: "ends t k k3"
        using T(3-6) by (simp add: ends_def k3_def dead_def)
      have "\<not> pinned k3 p"
        using pin_okD(5) [OF sched_xD(4) [OF T(1)] v] pv by (simp add: pinned_def k3_def p_def)
      moreover have "\<not> dead k3 p"
        using pd pv by (simp add: k3_def dead_def)
      ultimately show ?thesis
        using term_parent_x [OF ok3 pv(1)] e3 pv by (simp add: r True ends_def)
    next
      case False
      have ok5: "sched_x A k5"
        unfolding k5_def by (rule kill_x [OF T(1) np2 T(2)]) simp_all
      have sm: "same_sched k5 (gdt_tls_clear t (k5\<lparr>kn_num := kn_num k2 - 1\<rparr>))"
        by (rule same_sched_trans [OF num_same gdt_same(1)])
      have "ends t k k5"
        using T(3-6) by (simp add: ends_def k5_def dead_def)
      then show ?thesis
        using ok5 same_sched_x [OF sm] same_sched_ends [OF sm] by (simp add: r False)
    qed
  qed
  then show "sched_x A ?r" "valid_tid t \<Longrightarrow> ends t k ?r"
    by blast+
qed

end
