(* ===== verification/Sched_Ops.thy ===== *)
theory Sched_Ops
  imports Sched_Term
begin

text \<open>
  The remaining operations on the task table keep the scheduler invariant: setting states,
  sleeping and waking, the upkeep of a tick, sending and delivering signals, returning from
  a handler, waiting and reaping, and creating threads.
\<close>

subsection \<open>States, sleeping and waking\<close>

lemma task_set_state_x:
  assumes ok: "sched_x A k" and np: "\<not> pinned k t" and s: "s \<in> {READY, SLEEP, BLOCKED, STOPPED}"
  shows "sched_x A (task_set_state t s k)"
proof (cases "valid_tid t \<and> tk_state (kn_task k t) \<noteq> s \<and> \<not> (dead k t \<and> s = READY)")
  case False
  then have "task_set_state t s k = k"
    using s np by (auto simp: task_set_state_def valid_tid_def slot_consts dead_def Let_def pinned_def)
  then show ?thesis
    using ok by simp
next
  case True
  then have v: "valid_tid t" and ne: "tk_state (kn_task k t) \<noteq> s" and nd: "\<not> (dead k t \<and> s = READY)"
    by auto
  show ?thesis
  proof (cases "s = READY")
    case rd: True
    define k2 where "k2 = upd_task t (\<lambda>x. x\<lparr>tk_sleep := 0\<rparr>) (set_state t READY k)"
    have k2': "k2 = upd_task t (\<lambda>x. x\<lparr>tk_state := READY, tk_sleep := 0\<rparr>) k"
      by (simp add: k2_def upd_task_def)
    have e: "task_set_state t s k = (if \<not> task_current_anywhere t k2 then rq_enqueue_wake t k2 else k2)"
      using v ne nd rd np
      by (simp add: task_set_state_def valid_tid_def slot_consts dead_def Let_def pinned_def k2_def)
    show ?thesis
    proof (cases "current k2 t")
      case True
      have 1: "sched_x (insert t A) k2"
        unfolding k2' by (rule upd_state_x [OF ok np]) simp_all
      have "sched_x A k2"
        by (rule sched_x_close [OF 1]) (simp_all add: True)
      then show ?thesis
        by (simp add: e current_anywhere_iff True)
    next
      case False
      have "sched_x A (rq_enqueue_wake t k2)"
        unfolding k2' by (rule wake_x [OF ok v np]) simp_all
      then show ?thesis
        by (simp add: e current_anywhere_iff False)
    qed
  next
    case nr: False
    have e: "task_set_state t s k = rq_remove t (set_state t s k)"
      using v ne nr np s
      by (auto simp: task_set_state_def valid_tid_def slot_consts dead_def Let_def pinned_def)
    show ?thesis
      unfolding e by (rule park_x [OF ok np]) (use s nr in simp_all)
  qed
qed

lemma task_sleep_x:
  assumes ok: "sched_x A k" and np: "\<not> pinned k (kn_cur k cid)"
  shows "sched_x A (task_sleep cid n k)"
proof (cases "kn_cur k cid < 0 \<or> n \<le> 0")
  case False
  show ?thesis
    unfolding task_sleep_def if_not_P [OF False] by (rule park_x [OF ok np]) simp_all
qed (simp add: task_sleep_def ok)

lemma sleep_not_pinned:
  assumes "sched_x A k" and "valid_tid t" and "tk_state (kn_task k t) = SLEEP"
  shows "\<not> pinned k t"
  using pin_okD(3) [OF sched_xD(4) [OF assms(1)] assms(2)] assms(3) by auto

lemma free_not_pinned:
  assumes "sched_x A k" and "valid_tid t" and "dead k t"
  shows "\<not> pinned k t"
  using pin_okD(3) [OF sched_xD(4) [OF assms(1)] assms(2)] assms(3) by (auto simp: dead_def)

lemma pending_not_pinned:
  assumes "sched_x A k" and "valid_tid t" and "tk_pending (kn_task k t) \<noteq> 0"
  shows "\<not> pinned k t"
  using pin_okD(4) [OF sched_xD(4) [OF assms(1)] assms(2)] assms(3) by auto

lemma task_wake_x:
  assumes ok: "sched_x A k"
  shows "sched_x A (task_wake t k)"
proof (cases "valid_tid t \<and> tk_state (kn_task k t) = SLEEP")
  case True
  then have e: "task_wake t k = rq_enqueue_wake t (upd_task t (\<lambda>x. x\<lparr>tk_sleep := 0, tk_state := READY\<rparr>) k)"
    by (simp add: task_wake_def valid_tid_def slot_consts)
  show ?thesis
    unfolding e using True sleep_not_pinned [OF ok] by (intro wake_x [OF ok]) simp_all
next
  case False
  then have "task_wake t k = k"
    by (auto simp: task_wake_def valid_tid_def slot_consts)
  then show ?thesis
    using ok by simp
qed

subsection \<open>The upkeep of a tick\<close>

lemma sleep_one_x:
  assumes ok: "sched_x A k" and v: "valid_tid t"
  shows "sched_x A (sleep_one t k)"
proof (cases "tk_state (kn_task k t) = SLEEP")
  case True
  define k1 where "k1 = (if tk_sleep (kn_task k t) > 0 then upd_task t (\<lambda>x. x\<lparr>tk_sleep := tk_sleep x - TIMER_MS_PER_TICK\<rparr>) k else k)"
  have sm: "same_sched k k1"
    by (auto simp: k1_def intro!: upd_same)
  have ok1: "sched_x A k1"
    using ok same_sched_x [OF sm] by simp
  have e: "sleep_one t k = (if tk_sleep (kn_task k1 t) \<le> 0 then rq_enqueue_wake t (set_state t READY k1) else k1)"
    using True by (simp add: sleep_one_def Let_def k1_def)
  have "\<not> pinned k1 t"
    using sleep_not_pinned [OF ok v True] same_sched_preds [OF sm] by simp
  then have "sched_x A (rq_enqueue_wake t (set_state t READY k1))"
    by (intro wake_x [OF ok1 v]) simp_all
  then show ?thesis
    using ok1 by (simp add: e)
qed (simp add: sleep_one_def ok)

lemma sweep_one_x:
  assumes ok: "sched_x A k"
  shows "sched_x A (sweep_one t k)"
proof -
  have "sched_x A (rq_remove t k)" if "tk_state (kn_task k t) = ZOMBIE \<or> tk_state (kn_task k t) = FREE"
    using that by (intro rq_remove_x(1) [OF ok]) auto
  then show ?thesis
    using ok by (simp add: sweep_one_def)
qed

lemma fold_x:
  assumes "\<And>t k. P t \<Longrightarrow> sched_x A k \<Longrightarrow> sched_x A (f t k)" and "sched_x A k" and "\<forall>t \<in> set ts. P t"
  shows "sched_x A (fold f ts k)"
  using assms(2,3) by (induction ts arbitrary: k) (auto intro: assms(1))

lemma sweep_time_same: "same_sched k (k\<lparr>kn_sweep := m\<rparr>)"
  by (simp add: same_sched_def)

lemma sched_upkeep_x:
  assumes ok: "sched_x A k"
  shows "sched_x A (sched_upkeep cid k)"
proof -
  define k1 where "k1 = fold sleep_one slots k"
  have ok1: "sched_x A k1"
    unfolding k1_def by (rule fold_x [where P = valid_tid]) (auto intro: sleep_one_x ok slots_valid [rule_format])
  have "sched_x A (sched_integrity_sweep (k1\<lparr>kn_sweep := kn_ms k1\<rparr>))"
    unfolding sched_integrity_sweep_def
    by (rule fold_x [where P = "\<lambda>_. True"]) (use ok1 same_sched_x [OF sweep_time_same] in \<open>auto intro: sweep_one_x\<close>)
  then show ?thesis
    using ok ok1 by (simp add: sched_upkeep_def Let_def k1_def [symmetric])
qed

text \<open>The upkeep changes the running task only from SLEEP to READY.\<close>

definition mild :: "kern \<Rightarrow> kern \<Rightarrow> bool" where
  "mild k k' \<longleftrightarrow> kn_cur k' = kn_cur k \<and> kn_ncpu k' = kn_ncpu k \<and>
     (\<forall>u. dead k' u = dead k u \<and> tk_idle (kn_task k' u) = tk_idle (kn_task k u))"

lemma mild_trans: "mild a b \<Longrightarrow> mild b c \<Longrightarrow> mild a c"
  by (simp add: mild_def)

lemma mildD:
  assumes "mild k k'"
  shows "kn_cur k' = kn_cur k" "kn_ncpu k' = kn_ncpu k" "dead k' u = dead k u"
    "tk_idle (kn_task k' u) = tk_idle (kn_task k u)"
  using assms by (simp_all add: mild_def)

lemma same_but_rq_mild: "same_but_rq k k' \<Longrightarrow> mild k k'"
  by (simp add: mild_def same_but_rqD same_but_rq_preds)

lemma sleep_one_mild: "mild k (sleep_one t k)"
proof (cases "tk_state (kn_task k t) = SLEEP")
  case True
  define k1 where "k1 = (if tk_sleep (kn_task k t) > 0 then upd_task t (\<lambda>x. x\<lparr>tk_sleep := tk_sleep x - TIMER_MS_PER_TICK\<rparr>) k else k)"
  have "mild k k1" "mild k (set_state t READY k1)"
    using True by (auto simp: k1_def mild_def dead_def)
  moreover have "sleep_one t k = (if tk_sleep (kn_task k1 t) \<le> 0 then rq_enqueue_wake t (set_state t READY k1) else k1)"
    using True by (simp add: sleep_one_def Let_def k1_def)
  ultimately show ?thesis
    using mild_trans [OF _ same_but_rq_mild [OF rq_enqueue_wake_same]] by simp
qed (simp add: sleep_one_def mild_def)

lemma fold_mild:
  assumes "\<And>t k. mild k (f t k)"
  shows "mild k (fold f ts k)"
proof (induction ts arbitrary: k)
  case (Cons t ts)
  show ?case
    using mild_trans [OF assms Cons.IH] by simp
qed (simp add: mild_def)

lemma sweep_one_mild: "mild k (sweep_one t k)"
  by (simp add: sweep_one_def same_but_rq_mild rq_remove_same)

lemma mild_refl [simp]: "mild k k"
  by (simp add: mild_def)

lemma sched_upkeep_mild: "mild k (sched_upkeep cid k)"
proof -
  define k1 where "k1 = fold sleep_one slots k"
  have 1: "mild k k1"
    unfolding k1_def by (rule fold_mild) (rule sleep_one_mild)
  have 2: "mild k1 (k1\<lparr>kn_sweep := kn_ms k1\<rparr>)"
    by (simp add: mild_def dead_def)
  have 3: "mild (k1\<lparr>kn_sweep := kn_ms k1\<rparr>) (sched_integrity_sweep (k1\<lparr>kn_sweep := kn_ms k1\<rparr>))"
    unfolding sched_integrity_sweep_def by (rule fold_mild) (rule sweep_one_mild)
  show ?thesis
    using 1 mild_trans [OF 1 mild_trans [OF 2 3]] by (simp add: sched_upkeep_def Let_def k1_def [symmetric])
qed

subsection \<open>Sending signals\<close>

lemma upd_pending_x:
  assumes ok: "sched_x A k" and v: "valid_tid t" and np: "\<not> pinned k t"
    and f: "\<And>x. tk_rq (f x) = tk_rq x" "\<And>x. tk_idle (f x) = tk_idle x" "\<And>x. tk_state (f x) = tk_state x"
      "\<And>x. tk_parent (f x) = tk_parent x"
  shows "sched_x A (upd_task t f k)"
  using pin_okD(5) [OF sched_xD(4) [OF ok] v] f(4) by (intro upd_keep_x [OF ok np f(1-3)]) simp

lemma signal_handler_wake_x:
  assumes ok: "sched_x A k" and v: "valid_tid t" and np: "\<not> pinned k t"
  shows "sched_x A (signal_handler_wake t s k)"
proof -
  define k1 where "k1 = upd_task t (\<lambda>x. x\<lparr>tk_pending := tk_pending x OR sig_bit s\<rparr>) k"
  define k2 where "k2 = (if tk_sflags (kn_task k1 t) s AND SA_RESTART \<noteq> 0 \<and> tk_state (kn_task k1 t) = SLEEP
      then upd_task t (\<lambda>x. x\<lparr>tk_restart := word_of_int (tk_sleep x)\<rparr>) k1 else k1)"
  have ok1: "sched_x A k1"
    unfolding k1_def by (rule upd_pending_x [OF ok v np]) simp_all
  have sm: "same_sched k1 k2"
    by (auto simp: k2_def intro!: upd_same)
  have ok2: "sched_x A k2"
    using ok1 same_sched_x [OF sm] by simp
  have "\<not> pinned k1 t"
    using np by (simp add: k1_def pinned_def)
  then have np2: "\<not> pinned k2 t"
    using same_sched_preds [OF sm] by simp
  have "sched_x A (rq_enqueue_wake t (set_state t READY k2))"
    by (rule wake_x [OF ok2 v np2]) simp_all
  then show ?thesis
    using ok1 by (simp add: signal_handler_wake_def Let_def k1_def [symmetric] k2_def [symmetric])
qed

lemma if_x:
  "(b \<Longrightarrow> P x) \<Longrightarrow> (\<not> b \<Longrightarrow> P y) \<Longrightarrow> P (if b then x else y)"
  by simp

lemma signal_live_x:
  assumes ok: "sched_x A k" and v: "valid_tid t" and np: "\<not> pinned k t"
  shows "sched_x A (signal_live t s k)"
proof -
  define k1 where "k1 = upd_task t (\<lambda>x. x\<lparr>tk_pending := tk_pending x AND NOT stop_bits\<rparr>) k"
  have ok1: "sched_x A k1"
    unfolding k1_def by (rule upd_pending_x [OF ok v np]) simp_all
  have np1: "\<not> pinned k1 t"
    using np by (simp add: k1_def pinned_def)
  have stop: "sched_x A (rq_remove t (upd_task t (\<lambda>x. x\<lparr>tk_state := STOPPED, tk_pending := g x\<rparr>) k))" for g
    by (rule park_x [OF ok np]) simp_all
  have cont: "sched_x A (rq_enqueue_wake t (set_state t READY k1))"
    by (rule wake_x [OF ok1 v np1]) simp_all
  have pend: "sched_x A (upd_task t (\<lambda>x. x\<lparr>tk_pending := tk_pending x OR sig_bit s\<rparr>) k)"
    by (rule upd_pending_x [OF ok v np]) simp_all
  show ?thesis
    unfolding signal_live_def k1_def [symmetric] Let_def
    by (intro if_x [where P = "sched_x A"] terminate_task_x(1) [OF ok np] stop cont pend
        signal_handler_wake_x [OF ok v np] ok ok1)
qed

lemma task_signal_x:
  assumes ok: "sched_x A k" and np: "\<not> pinned k t"
  shows "sched_x A (snd (task_signal t s k))"
proof (cases "valid_tid t")
  case True
  then show ?thesis
    using ok signal_live_x [OF ok True np] by (simp add: task_signal_def)
qed (use ok in \<open>auto simp: task_signal_def valid_tid_def slot_consts\<close>)

lemma signal_live_idle:
  assumes ok: "sched_x A k" and np: "\<not> pinned k t" and v: "valid_tid t"
  shows "tk_idle (kn_task (signal_live t s k) u) = tk_idle (kn_task k u)"
proof -
  let ?P = "\<lambda>k'. tk_idle (kn_task k' u) = tk_idle (kn_task k u)"
  have T: "?P (terminate_task t c k)" for c
    using terminate_task_x(2) [OF ok np v] endsD(5) by blast
  have U: "?P (upd_task t f k)" if "\<And>x. tk_idle (f x) = tk_idle x" for f
    using that by simp
  have R: "?P (rq_remove t k')" "?P (rq_enqueue_wake t k')" if "?P k'" for k'
    using that by (simp_all add: same_but_rqD [OF rq_remove_same] same_but_rqD [OF rq_enqueue_wake_same])
  have "?P (signal_handler_wake t s k)"
    by (simp add: signal_handler_wake_def Let_def same_but_rqD [OF rq_enqueue_wake_same])
  then show ?thesis
    unfolding signal_live_def Let_def
    by (intro if_x [where P = ?P] T R) simp_all
qed

lemma task_signal_idle:
  assumes ok: "sched_x A k" and np: "\<not> pinned k t"
  shows "tk_idle (kn_task (snd (task_signal t s k)) u) = tk_idle (kn_task k u)"
proof (cases "valid_tid t")
  case True
  then show ?thesis
    using signal_live_idle [OF ok np True] by (simp add: task_signal_def)
qed (auto simp: task_signal_def valid_tid_def slot_consts)

lemma signal_all_x:
  assumes "sched_x A k" and "\<forall>t \<in> set ts. \<not> pinned k t"
  shows "sched_x A (snd (signal_all ts s n k))"
  using assms
proof (induction ts arbitrary: n k)
  case (Cons t ts)
  have np: "\<not> pinned k t"
    using Cons.prems by simp
  have "\<forall>u \<in> set ts. \<not> pinned (snd (task_signal t s k)) u"
    using Cons.prems task_signal_idle [OF Cons.prems(1) np] by (simp add: pinned_def)
  then show ?case
    using Cons.IH [OF task_signal_x [OF Cons.prems(1) np]] by (simp add: split_def Let_def)
qed simp

subsection \<open>Delivering signals\<close>

lemma and_not_less:
  fixes w :: u32
  assumes "w AND m \<noteq> 0"
  shows "unat (w AND NOT m) < unat w"
proof -
  have le: "w AND NOT m \<le> w"
    by (rule word_and_le2)
  have "w AND NOT m \<noteq> w"
  proof
    assume "w AND NOT m = w"
    then have "w AND m = (w AND NOT m) AND m"
      by (simp only:)
    then show False
      using assms by (simp add: and.assoc)
  qed
  then show ?thesis
    using le by (simp add: order_less_le word_less_nat_alt unat_arith_simps)
qed

text \<open>What delivering to the task \<open>t\<close> does: nothing the scheduler sees, or \<open>t\<close> dies, or one
  of its pending signals is consumed by entering a handler.\<close>

definition delivers :: "int \<Rightarrow> bool \<Rightarrow> kern \<Rightarrow> kern \<Rightarrow> bool" where
  "delivers t d k k' \<longleftrightarrow> kn_cur k' = kn_cur k \<and> kn_ncpu k' = kn_ncpu k \<and>
     (\<forall>u. tk_idle (kn_task k' u) = tk_idle (kn_task k u)) \<and>
     (if d then ends t k k' \<or> dead k' = dead k \<and> unat (tk_pending (kn_task k' t)) < unat (tk_pending (kn_task k t))
      else dead k' = dead k)"

lemma deliversD:
  assumes "delivers t d k k'"
  shows "kn_cur k' = kn_cur k" "kn_ncpu k' = kn_ncpu k" "tk_idle (kn_task k' u) = tk_idle (kn_task k u)"
    "\<not> d \<Longrightarrow> dead k' = dead k"
    "d \<Longrightarrow> ends t k k' \<or> dead k' = dead k \<and> unat (tk_pending (kn_task k' t)) < unat (tk_pending (kn_task k t))"
  using assms by (simp_all add: delivers_def)

lemma delivers_False: "delivers t False k k"
  by (simp add: delivers_def)

lemma delivers_pend:
  assumes d: "delivers t d (upd_task t (\<lambda>x. x\<lparr>tk_pending := tk_pending x AND m\<rparr>) k) k'"
  shows "delivers t d k k'"
proof -
  let ?k = "upd_task t (\<lambda>x. x\<lparr>tk_pending := tk_pending x AND m\<rparr>) k"
  have dd: "dead ?k = dead k" "kn_cur ?k = kn_cur k" "kn_ncpu ?k = kn_ncpu k"
    "tk_idle (kn_task ?k u) = tk_idle (kn_task k u)" for u
    by (auto simp: fun_eq_iff dead_def)
  have e: "ends t k k' = ends t ?k k'"
    by (simp only: ends_def dd)
  have "unat (tk_pending (kn_task ?k t)) \<le> unat (tk_pending (kn_task k t))"
    by (simp add: word_and_le2 flip: word_le_nat_alt)
  then show ?thesis
    using d unfolding delivers_def e dd by (auto split: if_splits)
qed

lemma term_delivers:
  assumes ok: "sched_x A k" and np: "\<not> pinned k t" and v: "valid_tid t"
  shows "sched_x A (put_frame a f (terminate_task t c k))"
    and "delivers t True k (put_frame a f (terminate_task t c k))"
proof -
  note E = same_sched_ends [OF put_frame_same terminate_task_x(2) [OF ok np v], of a f c]
  show "sched_x A (put_frame a f (terminate_task t c k))"
    using terminate_task_x(1) [OF ok np] by (simp add: same_sched_x [OF put_frame_same])
  show "delivers t True k (put_frame a f (terminate_task t c k))"
    using E endsD(1,2,5) [OF E] by (simp add: delivers_def)
qed

lemma enter_handler_same: "same_sched k (enter_handler a t s h k)"
proof -
  have 1: "same_sched k0 (k0\<lparr>kn_uframe := uf\<rparr>)" "same_sched k0 (k0\<lparr>kn_uword := uw\<rparr>)" for k0 uf uw
    by (simp_all add: same_sched_def)
  show ?thesis
    unfolding enter_handler_def Let_def
    by (rule same_sched_trans [OF _ put_frame_same], rule same_sched_trans [OF _ 1(2)],
        rule same_sched_trans [OF 1(1) upd_same]) simp_all
qed

lemma deliver_loop_x:
  assumes "sched_x A k" and "\<not> pinned k t" and v: "valid_tid t"
  shows "sched_x A (snd (deliver_loop ss a t k)) \<and>
    delivers t (fst (deliver_loop ss a t k)) k (snd (deliver_loop ss a t k))"
  using assms(1,2)
proof (induction ss arbitrary: k)
  case (Cons s ss)
  show ?case
  proof (cases "has_sig (tk_pending (kn_task k t)) s \<and>
      \<not> (has_sig (tk_blocked (kn_task k t)) s \<and> s \<noteq> SIGKILL \<and> s \<noteq> SIGSTOP \<and> s \<noteq> SIGCONT)")
    case False
    then have e: "deliver_loop (s # ss) a t k = deliver_loop ss a t k"
      by auto
    show ?thesis
      unfolding e by (rule Cons.IH [OF Cons.prems])
  next
    case True
    then have c1: "\<not> \<not> has_sig (tk_pending (kn_task k t)) s"
      and c2: "\<not> (has_sig (tk_blocked (kn_task k t)) s \<and> s \<noteq> SIGKILL \<and> s \<noteq> SIGSTOP \<and> s \<noteq> SIGCONT)"
      by blast+
    define k1 where "k1 = upd_task t (\<lambda>x. x\<lparr>tk_pending := tk_pending x AND NOT (sig_bit s)\<rparr>) k"
    define h where "h = tk_handler (kn_task k1 t) s"
    have ok1: "sched_x A k1"
      unfolding k1_def by (rule upd_pending_x [OF Cons.prems(1) v Cons.prems(2)]) simp_all
    have np1: "\<not> pinned k1 t"
      using Cons.prems(2) by (simp add: k1_def pinned_def)
    note IH = Cons.IH [OF ok1 np1]
    note pb = delivers_pend [of t _ "NOT (sig_bit s)" k, folded k1_def]
    note T = term_delivers [OF ok1 np1 v]
    have less: "unat (tk_pending (kn_task k1 t)) < unat (tk_pending (kn_task k t))"
      using True and_not_less by (simp add: k1_def has_sig_def)
    have dd: "dead k1 = dead k" "kn_cur k1 = kn_cur k" "kn_ncpu k1 = kn_ncpu k"
      "tk_idle (kn_task k1 u) = tk_idle (kn_task k u)" for u
      by (auto simp: k1_def fun_eq_iff dead_def)
    have sm: "same_sched k1 (enter_handler a t s h k1)"
      by (rule enter_handler_same)
    have H: "sched_x A (enter_handler a t s h k1)" "delivers t True k (enter_handler a t s h k1)"
      using ok1 less by (simp_all add: same_sched_x [OF sm] delivers_def same_schedD [OF sm] same_sched_preds [OF sm] dd)
    have e: "deliver_loop (s # ss) a t k =
       (if h = 1 then deliver_loop ss a t k1
        else if h = 0 then
          (if s = SIGCHLD then deliver_loop ss a t k1
           else (True, put_frame a (park_frame (terminate_task t (128 + s) k1) (kn_frame (terminate_task t (128 + s) k1) a))
                   (terminate_task t (128 + s) k1)))
        else if \<not> kn_uok k1 (tk_pd (kn_task k1 t)) (r_useresp (kn_frame k1 a) - 128) 128 then
          (True, put_frame a (park_frame (terminate_task t (128 + s) k1) (kn_frame (terminate_task t (128 + s) k1) a))
                   (terminate_task t (128 + s) k1))
        else (True, enter_handler a t s h k1))"
      unfolding deliver_loop.simps if_not_P [OF c1] if_not_P [OF c2] Let_def k1_def [symmetric] h_def [symmetric]
      by (rule refl)
    show ?thesis
      unfolding e
      by (rule if_x [where P = "\<lambda>r. sched_x A (snd r) \<and> delivers t (fst r) k (snd r)"]; (rule if_x)?;
          (rule if_x)?; simp add: IH pb T H)
  qed
qed (simp add: delivers_False)

lemma task_deliver_x:
  assumes ok: "sched_x A k" and v: "valid_cpu cid" and r: "task_deliver_signals cid a k = (d, k')"
  shows "sched_x A k'" and "delivers (kn_cur k cid) d k k'"
    and "d \<Longrightarrow> valid_tid (kn_cur k cid) \<and> \<not> dead k (kn_cur k cid)"
proof -
  define t where "t = kn_cur k cid"
  let ?g = "r_cs (kn_frame k a) AND 3 = 3 \<and> valid_tid t \<and> t \<noteq> 0 \<and> \<not> dead k t \<and> tk_pending (kn_task k t) \<noteq> 0 \<and> tk_sigesp (kn_task k t) = 0"
  have "sched_x A k' \<and> delivers t d k k' \<and> (d \<longrightarrow> valid_tid t \<and> \<not> dead k t)"
  proof (cases ?g)
    case False
    have "task_deliver_signals cid a k = (False, k)"
      using False by (auto simp: task_deliver_signals_def Let_def t_def valid_tid_def slot_consts dead_def)
    then show ?thesis
      using r ok delivers_False by simp
  next
    case True
    have "task_deliver_signals cid a k = deliver_loop signals_up a t k"
      using True by (auto simp: task_deliver_signals_def Let_def t_def valid_tid_def slot_consts dead_def)
    then show ?thesis
      using deliver_loop_x [OF ok pending_not_pinned [OF ok], of t signals_up a] True r by (metis fst_conv snd_conv)
  qed
  then show "sched_x A k'" "delivers (kn_cur k cid) d k k'"
    "d \<Longrightarrow> valid_tid (kn_cur k cid) \<and> \<not> dead k (kn_cur k cid)"
    by (simp_all add: t_def)
qed

lemma task_fault_x:
  assumes ok: "sched_x A k" and v: "valid_cpu cid" and np: "\<not> pinned k (kn_cur k cid)"
  shows "sched_x A (snd (task_fault_signal cid s a k))"
proof -
  define t where "t = kn_cur k cid"
  show ?thesis
  proof (cases "r_cs (kn_frame k a) AND 3 = 3 \<and> 0 < t \<and> valid_tid t \<and> 0 < s \<and> s < SIG_MAX")
    case False
    then have "task_fault_signal cid s a k = (False, k)"
      by (auto simp: task_fault_signal_def Let_def t_def valid_tid_def slot_consts)
    then show ?thesis
      using ok by simp
  next
    case True
    then have vt: "valid_tid t"
      by simp
    have npt: "\<not> pinned k t"
      using np by (simp add: t_def)
    define k1 where "k1 = upd_task t (\<lambda>x. x\<lparr>tk_pending := tk_pending x OR sig_bit s\<rparr>) k"
    obtain d k2 where dl: "task_deliver_signals cid a k1 = (d, k2)"
      by fastforce
    have ok1: "sched_x A k1"
      unfolding k1_def by (rule upd_pending_x [OF ok vt npt]) simp_all
    have cur: "kn_cur k1 cid = t"
      by (simp add: k1_def t_def)
    note D = task_deliver_x [OF ok1 v dl, unfolded cur]
    have "\<not> pinned k2 t"
      using npt deliversD(3) [OF D(2)] by (simp add: pinned_def k1_def)
    note T = term_delivers(1) [OF D(1) this vt] term_delivers(1) [OF ok npt vt]
    define c where "c = (tk_handler (kn_task k t) s = 0 \<or> tk_handler (kn_task k t) s = 1)"
    have e: "task_fault_signal cid s a k =
      (if c then
         (let k3 = terminate_task t (128 + s) k in (True, put_frame a (park_frame k3 (kn_frame k3 a)) k3))
       else if d then (True, k2)
       else (let k3 = terminate_task t (128 + s) k2 in (True, put_frame a (park_frame k3 (kn_frame k3 a)) k3)))"
      using True
      by (simp add: task_fault_signal_def Let_def t_def [symmetric] k1_def [symmetric] dl valid_tid_def slot_consts c_def [symmetric])
    show ?thesis
      unfolding e Let_def by (cases c; cases d) (simp_all add: T D(1))
  qed
qed

subsection \<open>Returning from a handler\<close>

lemma sigreturn_x:
  assumes ok: "sched_x A k" and np: "\<not> pinned k (kn_cur k cid)"
  shows "sched_x A (sys_sigreturn cid a k)"
proof -
  define t where "t = kn_cur k cid"
  define x where "x = kn_task k t"
  define esp where "esp = (if t < 0 \<or> t \<ge> MAX_TASKS then 0 else tk_sigesp x)"
  have se: "same_sched k0 (task_set_sig_frame_esp t w k0)" "same_sched k0 (task_set_blocked t w k0)" for w k0
    by (auto simp: task_set_sig_frame_esp_def task_set_blocked_def intro!: upd_same)
  have pf: "same_sched k0 (put_frame b f k0)" for b f k0
    by (rule put_frame_same)
  have fx: "sched_x A (put_frame a ((kn_frame k a)\<lparr>r_eax := - 1\<rparr>) (task_set_sig_frame_esp t 0 k))"
    using ok same_sched_x [OF pf] same_sched_x [OF se(1)] by simp
  define f where "f = kn_uframe k (tk_pd x) esp"
  define r where "r = (kn_frame (task_set_blocked t (sf_blocked f) k) a)\<lparr>r_eax := sf_eax f, r_ecx := sf_ecx f,
      r_edx := sf_edx f, r_ebx := sf_ebx f, r_esi := sf_esi f, r_edi := sf_edi f, r_ebp := sf_ebp f, r_eip := sf_eip f,
      r_cs := sf_cs f, r_eflags := (sf_eflags f AND NOT 0x72000) OR 0x200, r_useresp := sf_esp f, r_ss := sf_ss f\<rparr>"
  define k2 where "k2 = task_set_sig_frame_esp t 0 (put_frame a r (task_set_blocked t (sf_blocked f) k))"
  have sm: "same_sched k k2"
    unfolding k2_def by (rule same_sched_trans [OF same_sched_trans [OF se(2) pf] se(1)])
  have ok2: "sched_x A k2"
    using ok same_sched_x [OF sm] by simp
  have "\<not> pinned k2 (kn_cur k2 cid)"
    using np same_sched_preds [OF sm] same_schedD [OF sm] by simp
  then have "sched_x A (put_frame a (r\<lparr>r_eax := 0\<rparr>) (task_sleep cid n k2))" for n
    using task_sleep_x [OF ok2] same_sched_x [OF pf] by simp
  then show ?thesis
    unfolding sys_sigreturn_def Let_def t_def [symmetric] x_def [symmetric] esp_def [symmetric]
      f_def [symmetric] r_def [symmetric] k2_def [symmetric]
    using fx ok2 by (intro if_x [where P = "sched_x A"])
qed

subsection \<open>Waiting and reaping\<close>

lemma wait_scan_zombie:
  assumes "wait_scan ts self pid found k = (f, z)" and "z \<ge> 0"
  shows "z \<in> set ts" and "tk_state (kn_task k z) = ZOMBIE" and "tk_parent (kn_task k z) = self"
    and "pid > 0 \<Longrightarrow> z = pid"
proof -
  have "z \<in> set ts \<and> tk_state (kn_task k z) = ZOMBIE \<and> tk_parent (kn_task k z) = self \<and> (pid > 0 \<longrightarrow> z = pid)"
    using assms by (induction ts arbitrary: found) (auto split: if_splits)
  then show "z \<in> set ts" "tk_state (kn_task k z) = ZOMBIE" "tk_parent (kn_task k z) = self" "pid > 0 \<Longrightarrow> z = pid"
    by auto
qed

lemma reap_x:
  assumes ok: "sched_x A k" and v: "valid_tid z" and zb: "tk_state (kn_task k z) = ZOMBIE"
  shows "sched_x A ((set_state z FREE k)\<lparr>kn_num := n\<rparr>)"
  using set_free_x [OF ok v] zb same_sched_x [OF num_same] by (simp add: dead_def)

lemma task_waitpid_x:
  assumes ok: "sched_x A k" and np: "\<not> pinned k (kn_cur k cid)"
  shows "sched_x A (snd (task_waitpid cid pid options k))"
proof -
  define self where "self = kn_cur k cid"
  obtain found z where w: "wait_scan user_slots self pid False k = (found, z)"
    by fastforce
  have park: "sched_x A (rq_remove self (upd_task self (\<lambda>x. x\<lparr>tk_waiting := m, tk_state := BLOCKED\<rparr>) k))" for m
    by (rule park_x [OF ok]) (use np in \<open>simp_all add: self_def\<close>)
  have reap: "sched_x A (gdt_tls_clear z ((set_state z FREE k)\<lparr>kn_num := kn_num k - 1\<rparr>))" if "z \<ge> 0"
    using wait_scan_zombie [OF w that] user_slots_valid reap_x [OF ok] by (simp add: same_sched_x [OF gdt_same(1)])
  show ?thesis
    unfolding task_waitpid_def Let_def self_def [symmetric] w prod.case
    by (cases "self \<le> 0"; cases "z \<ge> 0"; cases found; cases "odd options") (simp_all add: ok park reap)
qed

lemma reap_deferred_same: "same_sched k (reap_deferred i k)"
proof (induction i k rule: reap_deferred.induct)
  case (1 i k)
  have dpd: "same_sched k (call c (k\<lparr>kn_dpd := d\<rparr>))" for c d
    by (simp add: same_sched_def call_def)
  obtain pd t where e: "kn_dpd k ! i = (pd, t)"
    by fastforce
  show ?case
    unfolding reap_deferred.simps [of i k] e prod.case Let_def
  proof (intro if_x [where P = "same_sched k"] same_sched_refl)
    show "same_sched k (reap_deferred (Suc i) k)" if "i < length (kn_dpd k)" "tk_state (kn_task k t) \<noteq> FREE"
      using 1(1) [OF that(1) e [symmetric] refl] that(2) by simp
    show "same_sched k (reap_deferred (Suc i) k)"
      if "i < length (kn_dpd k)" "\<not> tk_state (kn_task k t) \<noteq> FREE" "list_ex (\<lambda>c. kn_cur k c = t) cpus"
      using 1(2) [OF that(1) e [symmetric] refl] that(2,3) by simp
    show "same_sched k (reap_deferred i (call (FreeSpace pd) (k\<lparr>kn_dpd := butlast ((kn_dpd k)[i := last (kn_dpd k)])\<rparr>)))"
      if "i < length (kn_dpd k)" "\<not> tk_state (kn_task k t) \<noteq> FREE" "\<not> list_ex (\<lambda>c. kn_cur k c = t) cpus"
      using same_sched_trans [OF dpd 1(3) [OF that(1) e [symmetric] refl]] that(2,3) by simp
  qed
qed

lemma reap_zombies_x:
  assumes "sched_x A k" and "\<forall>t \<in> set ts. valid_tid t"
  shows "sched_x A (reap_zombies ts k)"
  using assms
proof (induction ts arbitrary: k)
  case (Cons t ts)
  have "sched_x A ((set_state t FREE k)\<lparr>kn_num := n\<rparr>)" if "tk_state (kn_task k t) = ZOMBIE" for n
    using reap_x [OF Cons.prems(1)] Cons.prems(2) that by simp
  then show ?case
    using Cons by (simp add: Let_def)
qed simp

lemma task_reap_zombies_x:
  assumes "sched_x A k"
  shows "sched_x A (task_reap_zombies k)"
  unfolding task_reap_zombies_def
  by (rule reap_zombies_x) (use assms same_sched_x [OF reap_deferred_same] user_slots_valid in auto)

end
