(* ===== verification/Sched_Main.thy ===== *)
theory Sched_Main
  imports Sched_Ops
begin

text \<open>
  The scheduler itself. \<open>sig_loop\<close> ends because every round consumes a pending signal of the
  task about to run or kills it; \<open>schedule\<close> therefore always returns, and it keeps the
  scheduler invariant. The kernel as a whole is the step relation \<open>kstep\<close>: any core may tick,
  and the running task may make the calls of the table, in any order.
\<close>

subsection \<open>The signal loop\<close>

definition live_slots :: "kern \<Rightarrow> int set" where
  "live_slots k = {t. valid_tid t \<and> \<not> dead k t}"

lemma finite_live: "finite (live_slots k)"
  by (rule finite_subset [of _ "{0..63}"]) (auto simp: live_slots_def valid_tid_def)

text \<open>The tick runs on a core that was started, and its task is the one it is about to
  resume.\<close>

definition running_ok :: "int \<Rightarrow> int \<Rightarrow> kern \<Rightarrow> bool" where
  "running_ok cid t k \<longleftrightarrow> sched_ok k \<and> valid_tid t \<and> kn_cur k cid = t \<and> 0 \<le> cid \<and> cid < kn_ncpu k"

lemma idle_runnable:
  assumes ok: "sched_x A k" and c: "0 \<le> cid" "cid < kn_ncpu k"
  shows "runnable_on cid (idle_of cid) k" and "idle_of cid = cid"
proof -
  note I = sched_xD [OF ok]
  have r: "cid < 16"
    using c rq_okD(2) [OF I(1)] by simp
  then show e: "idle_of cid = cid"
    using c by (auto simp: idle_of_def slot_consts)
  have p: "pinned k cid" and v: "valid_tid cid"
    using pin_okD(2) [OF I(4), of cid] c r by (cases "cid = 0"; simp add: pinned_def valid_tid_def)+
  have nd: "\<not> dead k cid"
    using pin_okD(3) [OF I(4) v p] by (auto simp: dead_def)
  have "kn_cur k d \<noteq> cid" if "valid_cpu d" "d \<noteq> cid" for d
    using cur_okD(3) [OF I(3) that(1)] p c that(2) by auto
  then show "runnable_on cid (idle_of cid) k"
    using v nd by (simp add: runnable_on_def e)
qed

lemma valid_cpu_started: "sched_x A k \<Longrightarrow> 0 \<le> cid \<Longrightarrow> cid < kn_ncpu k \<Longrightarrow> valid_cpu cid"
  using rq_okD(2) [OF sched_xD(1), of A k] by (simp add: valid_cpu_def)

lemma commit_running:
  assumes ok: "sched_ok k" and c: "0 \<le> cid" "cid < kn_ncpu k" and n: "runnable_on cid n k"
    and dd: "dead k (kn_cur k cid)"
  shows "running_ok cid n (sched_commit cid n k)"
proof -
  have "tk_state (kn_task k (kn_cur k cid)) \<noteq> RUNNING \<and> tk_state (kn_task k (kn_cur k cid)) \<noteq> READY"
    using dd by (auto simp: dead_def)
  then show ?thesis
    using sched_commit_x [OF ok valid_cpu_started [OF ok c] n] c n
    by (auto simp: running_ok_def runnable_on_def)
qed

text \<open>The state in which a round of the loop starts again.\<close>

lemma commit_live: "live_slots (sched_commit cid n k) \<subseteq> insert n (live_slots k)"
  by (auto simp: live_slots_def dead_def sched_commit_def Let_def vmm_switch_page_dir_def)

lemma rq_next_live:
  assumes "sched_x A k" "valid_cpu cid" "rq_next cid k = (n, k')"
  shows "live_slots k' = live_slots k"
  using rq_next_spec(4) [OF assms] by (simp add: live_slots_def dead_def)

text \<open>One round: either the loop stops, in a state that satisfies the invariant, or it goes
  round again with fewer live tasks or fewer pending signals.\<close>

lemma kill_round:
  assumes ok: "sched_ok k1" and c: "0 \<le> cid" "cid < kn_ncpu k1" and dd: "dead k1 (kn_cur k1 cid)"
    and r: "rq_next cid k1 = (n, k2)"
  shows "sched_ok k2" and "m = (if n < 0 then idle_of cid else n) \<Longrightarrow> running_ok cid m (sched_commit cid m k2)"
    and "m = (if n < 0 then idle_of cid else n) \<Longrightarrow> live_slots (sched_commit cid m k2) = live_slots k1"
    and "kn_cur k2 = kn_cur k1" and "live_slots k2 = live_slots k1" and "kn_ncpu k2 = kn_ncpu k1"
proof -
  have v: "valid_cpu cid"
    by (rule valid_cpu_started [OF ok c])
  note N = rq_next_spec [OF ok v r]
  show "sched_ok k2" "kn_cur k2 = kn_cur k1" "kn_ncpu k2 = kn_ncpu k1"
    by (rule N(1), rule N(3), rule N(6))
  have c2: "cid < kn_ncpu k2"
    using c N(6) by simp
  have dd2: "dead k2 (kn_cur k2 cid)"
    using dd N(3,4) by (simp add: dead_def)
  show lv: "live_slots k2 = live_slots k1"
    by (rule rq_next_live [OF ok v r])
  assume m: "m = (if n < 0 then idle_of cid else n)"
  have rm: "runnable_on cid m k2"
    using N(2) idle_runnable(1) [OF N(1) c(1) c2] by (simp add: m)
  show "running_ok cid m (sched_commit cid m k2)"
    by (rule commit_running [OF N(1) c(1) c2 rm dd2])
  have "tk_state (kn_task (sched_commit cid m k2) u) = (if u = m then RUNNING else tk_state (kn_task k2 u))" for u
    by (simp add: sched_commit_def Let_def vmm_switch_page_dir_def)
  then show "live_slots (sched_commit cid m k2) = live_slots k1"
    using rm unfolding lv [symmetric] by (auto simp: live_slots_def dead_def runnable_on_def)
qed

definition loop_ok :: "int \<Rightarrow> (int option \<times> kern) option \<Rightarrow> bool" where
  "loop_ok cid r \<longleftrightarrow> (\<exists>n k. r = Some (n, k) \<and> sched_ok k \<and> valid_tid (kn_cur k cid) \<and> (\<forall>m. n = Some m \<longrightarrow> m = kn_cur k cid))"

lemma less_lex:
  assumes "\<And>a b. (\<And>c d. c < a \<or> c = a \<and> d < b \<Longrightarrow> P c d) \<Longrightarrow> P a b"
  shows "P (a::nat) (b::nat)"
proof (induction a arbitrary: b rule: less_induct)
  case (less a)
  note outer = this
  show ?case
  proof (induction b rule: less_induct)
    case (less b)
    note inner = this
    show ?case
    proof (rule assms)
      fix c d
      assume "c < a \<or> c = a \<and> d < b"
      then show "P c d"
        using outer inner by blast
    qed
  qed
qed

lemma sig_loop_ok:
  assumes "running_ok cid nx k"
  shows "loop_ok cid (sig_loop cid cur nx k)"
  using assms
proof (induction "card (live_slots k)" "unat (tk_pending (kn_task k nx))" arbitrary: nx k rule: less_lex)
  case 1
  have ok: "sched_ok k" and vn: "valid_tid nx" and cu: "kn_cur k cid = nx" and c: "0 \<le> cid" "cid < kn_ncpu k"
    using 1(2) by (simp_all add: running_ok_def)
  note IH = 1(1)
  have stop: "loop_ok cid (Some (Some nx, k'))" if "sched_ok k'" "kn_cur k' = kn_cur k" for k'
    using that vn cu by (auto simp: loop_ok_def)
  show ?case
  proof (cases "tk_state (kn_task k nx) = RUNNING \<and> tk_pending (kn_task k nx) \<noteq> 0")
    case False
    then show ?thesis
      unfolding sig_loop.simps [of cid cur nx k] if_not_P [OF False] using stop [OF ok] by simp
  next
    case run: True
    obtain d k1 where dl: "task_deliver_signals cid (tk_esp (kn_task k nx)) k = (d, k1)"
      by fastforce
    note D = task_deliver_x [OF ok valid_cpu_started [OF ok c] dl, unfolded cu]
    note E = deliversD [OF D(2)]
    have e: "sig_loop cid cur nx k =
      (if \<not> d then Some (Some nx, k1)
       else if tk_state (kn_task k1 nx) = ZOMBIE then
         (case rq_next cid k1 of (n, k2) \<Rightarrow>
            if n < 0 then
              (if idle_of cid = cur then Some (None, k2)
               else sig_loop cid cur (idle_of cid) (sched_commit cid (idle_of cid) k2))
            else sig_loop cid cur n (sched_commit cid n k2))
       else sig_loop cid cur nx k1)"
      using run dl by (subst sig_loop.simps) simp
    show ?thesis
    proof (cases d)
      case False
      then show ?thesis
        using stop [OF D(1)] E(1) by (simp add: e)
    next
      case True
      have alive: "nx \<in> live_slots k"
        using D(3) True vn by (simp add: live_slots_def)
      have fewer: "live_slots k1 = live_slots k - {nx}" if "ends nx k k1"
      proof -
        have "dead k1 u = (u = nx \<or> dead k u)" for u
          using endsD(3) [OF that] endsD(4) [OF that, of u] by (cases "u = nx") auto
        then show ?thesis
          by (auto simp: live_slots_def)
      qed
      have dec: "card (live_slots k - {nx}) < card (live_slots k)"
        using alive finite_live by (rule card_Diff1_less [rotated])
      have c1: "cid < kn_ncpu k1" and cu1: "kn_cur k1 cid = nx"
        using c E(1,2) cu by simp_all
      show ?thesis
      proof (cases "tk_state (kn_task k1 nx) = ZOMBIE")
        case z: True
        then have dd: "dead k1 nx"
          by (simp add: dead_def)
        have en: "ends nx k k1"
          using E(5) [OF True] dd D(3) True by auto
        obtain n k2 where r: "rq_next cid k1 = (n, k2)"
          by fastforce
        define m where "m = (if n < 0 then idle_of cid else n)"
        note K = kill_round [OF D(1) c(1) c1 _ r, unfolded cu1, OF dd]
        have go: "loop_ok cid (sig_loop cid cur m (sched_commit cid m k2))"
          by (rule IH) (use K(2,3) [OF m_def] dec fewer [OF en] in simp_all)
        have halt: "loop_ok cid (Some (None, k2))"
          using K(1,4) cu1 vn by (simp add: loop_ok_def)
        show ?thesis
          using go halt True z by (cases "n < 0") (simp_all add: e r m_def)
      next
        case False
        have ru: "running_ok cid nx k1"
          using D(1) vn cu1 c1 c(1) by (simp add: running_ok_def)
        have "card (live_slots k1) < card (live_slots k) \<or>
            card (live_slots k1) = card (live_slots k) \<and> unat (tk_pending (kn_task k1 nx)) < unat (tk_pending (kn_task k nx))"
          using E(5) [OF True]
        proof (elim disjE conjE)
          assume "ends nx k k1"
          then show ?thesis
            using dec by (simp only: fewer simp_thms)
        next
          assume a: "dead k1 = dead k" "unat (tk_pending (kn_task k1 nx)) < unat (tk_pending (kn_task k nx))"
          then have "live_slots k1 = live_slots k"
            by (simp only: live_slots_def)
          then show ?thesis
            using a(2) by (simp only: simp_thms)
        qed
        then have "loop_ok cid (sig_loop cid cur nx k1)"
          by (rule IH [OF _ ru])
        then show ?thesis
          using True False by (simp add: e)
      qed
    qed
  qed
qed

subsection \<open>The whole entry\<close>

lemma fpu_switch_same: "same_sched k (fpu_switch cid cur d n k)"
  by (simp add: fpu_switch_def Let_def same_sched_def)

lemma sched_account_same: "same_sched k (sched_account cid cur d n k)"
proof -
  define k1 where "k1 = (if cur > 0 \<and> \<not> d \<and> \<not> tk_idle (kn_task k cur)
      then upd_task cur (\<lambda>x. x\<lparr>tk_cpu := tk_cpu x + 1\<rparr>) k else k)"
  have 1: "same_sched k k1"
    unfolding k1_def by (rule if_x) (auto intro: upd_same)
  have "same_sched k1 (sched_account cid cur d n k)"
    unfolding sched_account_def Let_def k1_def [symmetric] by (simp add: same_sched_def)
  with 1 show ?thesis
    by (rule same_sched_trans)
qed

definition sched_done :: "sched_out option \<Rightarrow> bool" where
  "sched_done r \<longleftrightarrow> (\<exists>e k. r = Some (Resume e k) \<and> sched_ok k)"

lemma schedI: "sched_ok k \<Longrightarrow> sched_done (Some (Resume e k))"
  by (simp add: sched_done_def)

lemma sched_switch_done:
  assumes ok: "sched_ok k" and c: "0 \<le> cid" "cid < kn_ncpu k"
    and n: "next < 0 \<or> runnable_on cid next k"
    and old: "valid_tid (kn_cur k cid) \<Longrightarrow> tk_state (kn_task k (kn_cur k cid)) \<noteq> RUNNING \<and>
        (tk_state (kn_task k (kn_cur k cid)) = READY \<longrightarrow> 0 \<le> tk_rq (kn_task k (kn_cur k cid)))"
  shows "sched_done (sched_switch cid cur dd esp next k)"
proof (cases "valid_tid next \<and> \<not> (next > 0 \<and> tk_idle (kn_task k next) \<and> cid \<noteq> next) \<and> \<not> (next > 0 \<and> dead k next)")
  case False
  have "sched_switch cid cur dd esp next k = Some (Resume esp k)"
    unfolding sched_switch_def using False by (auto simp: valid_tid_def slot_consts dead_def)
  then show ?thesis
    using ok by (simp add: schedI)
next
  case True
  then have v: "valid_tid next" and rn: "runnable_on cid next k"
    using n by (auto simp: valid_tid_def)
  define k1 where "k1 = sched_commit cid next k"
  note C = sched_commit_x [OF ok valid_cpu_started [OF ok c] rn old, folded k1_def]
  have ru: "running_ok cid next k1"
    using C c v by (simp add: running_ok_def)
  obtain m k2 where r: "(if tk_ring (kn_task k1 next) = 3 then sig_loop cid cur next k1 else Some (Some next, k1)) = Some (m, k2)"
    and ok2: "sched_ok k2"
  proof (cases "tk_ring (kn_task k1 next) = 3")
    case True
    obtain m k2 where "sig_loop cid cur next k1 = Some (m, k2)" "sched_ok k2"
      using sig_loop_ok [OF ru, of cur] unfolding loop_ok_def by blast
    then show ?thesis
      using that True by simp
  qed (use C(1) that in simp)
  have e: "sched_switch cid cur dd esp next k =
     (case Some (m, k2) of
              None \<Rightarrow> None
            | Some (None, k2) \<Rightarrow> Some (Resume esp k2)
            | Some (Some n, k2) \<Rightarrow>
                (let k3 = fpu_switch cid cur dd n k2 in Some (Resume (tk_esp (kn_task k3 n)) k3)))"
    unfolding sched_switch_def Let_def k1_def [symmetric] r
    using True by (auto simp: valid_tid_def slot_consts dead_def)
  show ?thesis
    unfolding e using ok2 same_sched_x [OF fpu_switch_same] by (cases m) (simp_all add: schedI Let_def)
qed

lemma schedule_done:
  assumes ok: "sched_ok k" and c: "0 \<le> cid" "cid < kn_ncpu k"
  shows "sched_done (schedule cid esp k)"
proof -
  define cur where "cur = kn_cur k cid"
  define k1 where "k1 = sched_upkeep cid k"
  have ok1: "sched_ok k1"
    unfolding k1_def by (rule sched_upkeep_x [OF ok])
  note M = mildD [OF sched_upkeep_mild [of k cid], folded k1_def]
  have v: "valid_cpu cid"
    by (rule valid_cpu_started [OF ok c])
  have cur1: "cur = kn_cur k1 cid"
    by (simp add: cur_def M(1))
  have pin: "tk_idle (kn_task k1 cur) \<Longrightarrow> 0 \<le> cur \<Longrightarrow> cid = cur"
    using cur_okD(3) [OF sched_xD(3) [OF ok1] v] by (simp add: pinned_def cur1)
  define k2 where "k2 = sched_save cid cur esp k1"
  note S = sched_save_x [OF ok1 v cur1, of esp, folded k2_def]
  obtain n k3 where r: "rq_next cid k2 = (n, k3)"
    by fastforce
  note N = rq_next_spec [OF S(1) v r]
  have cur3: "cur = kn_cur k3 cid"
    by (simp add: cur1 N(3) S(2))
  have c3: "cid < kn_ncpu k3"
    using c by (simp add: N(6) S(3) M(2))
  have old: "tk_state (kn_task k3 cur) \<noteq> RUNNING \<and> (tk_state (kn_task k3 cur) = READY \<longrightarrow> 0 \<le> tk_rq (kn_task k3 cur))"
    if "valid_tid cur"
    using S(6) [OF that] N(8) [OF _ that] N(4) by simp
  define dd where "dd = cur_dead cur k1"
  have fb: "m < 0 \<or> runnable_on cid m k3" if "sched_fallback cid cur k3 = Some m" for m
  proof (cases "m = cur \<and> 0 \<le> cur \<and> tk_state (kn_task k3 cur) = READY")
    case True
    have "cur < 64"
      using cur_okD(1) [OF sched_xD(3) [OF N(1)] v] cur3 by simp
    moreover have "kn_cur k3 d \<noteq> cur" if "valid_cpu d" "d \<noteq> cid" for d
      using cur_okD(2) [OF sched_xD(3) [OF N(1)] that(1) v] that(2) True cur3 by auto
    moreover have "pinned k3 cur \<Longrightarrow> cur = cid"
      using cur_okD(3) [OF sched_xD(3) [OF N(1)] v] True cur3 by simp
    ultimately show ?thesis
      using True by (simp add: runnable_on_def valid_tid_def dead_def)
  next
    case False
    have "tk_state (kn_task k3 cur) \<noteq> RUNNING" if "0 \<le> cur"
      using old that cur_okD(1) [OF sched_xD(3) [OF N(1)] v] cur3 by (simp add: valid_tid_def)
    then have "m = idle_of cid"
      using that False by (auto simp: sched_fallback_def split: if_splits)
    then show ?thesis
      using idle_runnable(1) [OF N(1) c(1) c3] by simp
  qed
  have sw: "sched_done (sched_switch cid cur dd esp m (sched_account cid cur dd m k3))" if "m < 0 \<or> runnable_on cid m k3" for m
  proof (rule sched_switch_done)
    note sm = sched_account_same [of k3 cid cur dd m]
    show "sched_ok (sched_account cid cur dd m k3)" "0 \<le> cid" "cid < kn_ncpu (sched_account cid cur dd m k3)"
      using N(1) c c3 by (simp_all add: same_sched_x [OF sm] same_schedD [OF sm])
    show "m < 0 \<or> runnable_on cid m (sched_account cid cur dd m k3)"
      using that by (simp add: runnable_on_def same_sched_preds [OF sm] same_schedD [OF sm])
    show "tk_state (kn_task (sched_account cid cur dd m k3) (kn_cur (sched_account cid cur dd m k3) cid)) \<noteq> RUNNING \<and>
        (tk_state (kn_task (sched_account cid cur dd m k3) (kn_cur (sched_account cid cur dd m k3) cid)) = READY \<longrightarrow>
         0 \<le> tk_rq (kn_task (sched_account cid cur dd m k3) (kn_cur (sched_account cid cur dd m k3) cid)))"
      if "valid_tid (kn_cur (sched_account cid cur dd m k3) cid)"
      using old that by (simp add: same_schedD [OF sm] cur3 [symmetric])
  qed
  have np: "\<not> (cur > 0 \<and> cur < MAX_TASKS \<and> tk_idle (kn_task k1 cur) \<and> cid \<noteq> cur)"
    using pin by auto
  have e: "schedule cid esp k =
    (if kn_num k1 \<le> 1 \<and> cur \<ge> 0 then Some (Resume esp k1)
     else case (if n \<ge> 0 then Some n else sched_fallback cid cur k3) of
                 None \<Rightarrow> Some (Resume esp k3)
               | Some next \<Rightarrow> sched_switch cid cur dd esp next (sched_account cid cur dd next k3))"
    unfolding schedule_def Let_def cur_def [symmetric] k1_def [symmetric] k2_def [symmetric] r prod.case
      if_not_P [OF np] dd_def [symmetric] by (rule refl)
  show ?thesis
  proof (cases "if n \<ge> 0 then Some n else sched_fallback cid cur k3")
    case None
    then show ?thesis
      using ok1 N(1) by (simp add: e schedI)
  next
    case (Some m)
    then have "m < 0 \<or> runnable_on cid m k3"
      using N(2) fb by (auto split: if_splits)
    then show ?thesis
      unfolding e Some using sw ok1 by (simp add: schedI)
  qed
qed

end
