(* ===== verification/Sched_Reach.thy ===== *)
theory Sched_Reach
  imports Sched_Main
begin

text \<open>
  Thread creation and the boot of the task table, and the kernel as a transition system:
  the invariant holds in every state that any interleaving of ticks and calls on the
  started cores can reach from \<open>init_tasking\<close>.
\<close>

subsection \<open>Creating a thread\<close>

text \<open>A dead slot that no core is on becomes a READY task.\<close>

lemma new_task_x:
  assumes ok: "sched_x A k" and v: "valid_tid i" and fr: "dead k i"
    and f: "\<And>x. tk_rq (f x) = -1" "\<And>x. \<not> tk_idle (f x)" "\<And>x. tk_state (f x) = READY"
      "\<And>x. \<not> tk_idle (kn_task k (tk_parent (f x)))"
  shows "sched_x (insert i A) (upd_task i f k)" and "\<not> pinned (upd_task i f k) i"
proof -
  let ?k = "upd_task i f k"
  note I = sched_xD [OF ok]
  have np: "\<not> pinned k i"
    by (rule free_not_pinned [OF ok v fr])
  have pin: "pinned ?k = pinned k"
    using np f(2) by (auto simp: fun_eq_iff pinned_def)
  then show "\<not> pinned ?k i"
    using np by simp
  have cur: "current ?k = current k"
    by (auto simp: fun_eq_iff current_def)
  have neg: "tk_rq (kn_task k i) < 0"
    using I(2) v fr by (simp add: dead_ok_def)
  have out: "i \<notin> set (kn_rq k c)" for c
    by (rule rq_room(2) [OF I(1) v neg])
  have rq: "tk_rq (kn_task ?k u) = (if u = i then -1 else tk_rq (kn_task k u))"
    "tk_idle (kn_task ?k u) = tk_idle (kn_task k u)" for u
    using f(1,2) np by (auto simp: pinned_def)
  have "rq_ok ?k"
    using I(1) out unfolding rq_ok_def rq by auto
  moreover have "dead_ok ?k"
    using I(2) f(3) unfolding dead_ok_def rq by (auto simp: dead_def)
  moreover have "cur_ok ?k"
    using I(3) unfolding cur_ok_def pin by simp
  moreover have "pin_ok ?k"
    using I(4) np f(4) unfolding pin_ok_def pin rq by auto
  moreover have "run_ok (insert i A) ?k"
    using I(5) unfolding run_ok_def cur rq by auto
  ultimately show "sched_x (insert i A) ?k"
    by (simp add: sched_x_def)
qed

lemma enqueue_new:
  assumes ok: "sched_x (insert i A) k" and v: "valid_tid i" and np: "\<not> pinned k i" and st: "tk_state (kn_task k i) = READY"
  shows "sched_x A (rq_enqueue (rq_least_loaded k) i k)"
proof -
  have "rq_enqueue_wake i k = rq_enqueue (rq_least_loaded k) i k"
    using v np by (simp add: rq_enqueue_wake_def slot_consts valid_tid_def pinned_def)
  then show ?thesis
    using wake_close [OF ok st np v] by simp
qed

lemma inherit_fds_same: "same_sched k (inherit_fds js me i k)"
proof (induction js me i k rule: inherit_fds.induct)
  case (2 j js me i k)
  let ?g = "tk_fd (kn_task k me) j"
  let ?k = "(upd_task i (\<lambda>x. x\<lparr>tk_fd := (tk_fd x)(j := ?g)\<rparr>) k)\<lparr>kn_gfd_ref := (kn_gfd_ref k)(?g := kn_gfd_ref k ?g + 1)\<rparr>"
  have sm: "same_sched k ?k"
    by (simp add: same_sched_def)
  show ?case
  proof (cases "0 \<le> ?g \<and> ?g < MAX_GLOBAL_FDS \<and> kn_gfd_use k ?g")
    case True
    have "inherit_fds (j # js) me i k = inherit_fds js me i ?k"
      using True by (simp add: Let_def)
    then show ?thesis
      using same_sched_trans [OF sm 2(1) [OF refl True]] by simp
  next
    case False
    have "inherit_fds (j # js) me i k = inherit_fds js me i k"
      unfolding inherit_fds.simps Let_def by (rule if_not_P [OF False])
    then show ?thesis
      using 2(2) [OF refl False] by simp
  qed
qed simp

lemma first_slotD:
  assumes "first_slot P ts = Some i"
  shows "i \<in> set ts" and "P i"
  using assms by (auto simp: first_slot_def find_Some_iff)

lemma tls_same: "same_sched k (if b then gdt_tls_update i tls k else k)"
  by (simp add: gdt_same)

lemma thread_create_x:
  assumes ok: "sched_x A k" and np: "\<not> tk_idle (kn_task k (kn_cur k cid))"
  shows "sched_x A (snd (thread_create_ex tsel cid entry prio pd stk tls k))"
proof -
  define me where "me = kn_cur k cid"
  define priority where "priority = (if prio < 0 \<or> prio > 2 then 1 else prio)"
  show ?thesis
  proof (cases "first_slot (\<lambda>i. tk_state (kn_task k i) = FREE \<and> \<not> slot_still_current i k) slots")
    case None
    then show ?thesis
      using ok by (simp add: thread_create_ex_def Let_def)
  next
    case (Some i)
    note F = first_slotD [OF Some]
    have v: "valid_tid i"
      using slots_valid F(1) by blast
    have fr: "dead k i"
      using F(2) by (simp add: dead_def)
    define user_esp where "user_esp = (if stk \<noteq> 0 then stk else kn_ustack k pd (USER_STACK_TOP - word_of_int (i + 1) * USER_STACK_SIZE))"
    define c where "c = kn_task k me"
    define k1 where "k1 = upd_task i (\<lambda>x. x\<lparr>tk_ring := 3, tk_heap := 0x08000000,
                               tk_dir := (if me \<ge> 0 then tk_dir c else 0), tk_priority := priority,
                               tk_nice := (if me \<ge> 0 then tk_nice c else 0), tk_cpu := 0, tk_pd := pd, tk_sleep := 0,
                               tk_wait := 0, tk_parent := (if me \<ge> 0 then me else 0), tk_exit := 0,
                               tk_pgrp := (if me \<ge> 0 then tk_pgrp c else 0),
                               tk_session := (if me \<ge> 0 then tk_session c else 0),
                               tk_uid := (if me \<ge> 0 then tk_uid c else ROOT_UID),
                               tk_gid := (if me \<ge> 0 then tk_gid c else 0),
                               tk_rlim := (if cur_valid cid k then tk_rlim c else rlimit_defaults),
                               tk_waiting := 0, tk_pending := 0, tk_blocked := 0, tk_restart := 0, tk_sigesp := 0,
                               tk_zsince := 0, tk_shm := 0\<rparr>) k"
    define k2 where "k2 = call (FreeBitmaps i) k1"
    define k3 where "k3 = upd_task i (\<lambda>x. x\<lparr>tk_fpu := kn_fpu0 k, tk_mmap := (\<lambda>j. (0, snd (tk_mmap x j))),
                               tk_handler := (\<lambda>_. 0), tk_fd := (\<lambda>_. -1)\<rparr>) k2"
    define k4 where "k4 = (if cur_valid cid k3 \<and> tk_state (kn_task k3 me) \<noteq> FREE
                              then inherit_fds [0..31] me i k3 else k3)"
    define k5 where "k5 = upd_task i (\<lambda>x. x\<lparr>tk_tls := tls\<rparr>) k4"
    define k6 where "k6 = (if tls \<noteq> 0 then gdt_tls_update i tls k5 else k5)"
    define esp where "esp = kstack_top k i - 72"
    define k7 where "k7 = put_frame esp (ring3_frame entry user_esp (if tls \<noteq> 0 then tsel i else 0x23))
                               (upd_task i (\<lambda>x. x\<lparr>tk_esp := esp, tk_watermark := 0, tk_rq := -1, tk_idle := False\<rparr>) k6)"
    define k8 where "k8 = set_state i READY (k7\<lparr>kn_num := kn_num k7 + 1\<rparr>)"
    define g :: "task \<Rightarrow> task" where "g = (\<lambda>x. x\<lparr>tk_state := READY, tk_rq := -1, tk_idle := False, tk_pending := 0,
        tk_parent := (if me \<ge> 0 then me else 0)\<rparr>)"
    have r: "thread_create_ex tsel cid entry prio pd stk tls k =
       (if me > 0 \<and> \<not> rlimit_nproc_allows me k then (-1, k)
        else if user_esp = 0 then (-1, k) else (i, rq_enqueue (rq_least_loaded k8) i k8))"
      unfolding thread_create_ex_def Let_def me_def [symmetric] Some option.case priority_def [symmetric]
          user_esp_def [symmetric] c_def [symmetric] k1_def [symmetric] k2_def [symmetric] k3_def [symmetric]
          k4_def [symmetric] k5_def [symmetric] k6_def [symmetric] esp_def [symmetric] k7_def [symmetric] k8_def [symmetric]
      by (rule refl)
    have s13: "same_sched k1 k3"
      unfolding k3_def k2_def by (rule same_sched_trans [OF call_same upd_same]) simp_all
    have s34: "same_sched k3 k4"
      unfolding k4_def by (simp add: inherit_fds_same)
    have s46: "same_sched k4 k6"
      unfolding k6_def k5_def by (rule same_sched_trans [OF upd_same tls_same]) simp_all
    have s16: "same_sched k1 k6"
      by (rule same_sched_trans [OF same_sched_trans [OF s13 s34] s46])
    have sm: "same_sched (upd_task i g k) k8"
      unfolding same_sched_def k8_def k7_def
      by (simp add: put_frame_def same_schedD [OF s16]) (simp add: k1_def g_def)
    have N: "sched_x (insert i A) (upd_task i g k)" "\<not> pinned (upd_task i g k) i"
      using new_task_x [OF ok v fr, of g] np pin_okD(1) [OF sched_xD(4) [OF ok]]
      by (simp_all add: g_def me_def)
    have "sched_x A (rq_enqueue (rq_least_loaded k8) i k8)"
      by (rule enqueue_new [OF _ v])
        (simp_all add: same_sched_x [OF sm] same_sched_preds [OF sm] same_schedD [OF sm] N, simp add: g_def)
    then show ?thesis
      using ok by (simp add: r)
  qed
qed

subsection \<open>Boot\<close>

text \<open>The table \<open>init_tasking\<close> builds, with \<open>m\<close> application cores whose LAPIC ids are
  \<open>1, ..., m\<close>: the idle task of a core is in the slot of the core's number, which
  \<open>schedule\<close> relies on.\<close>

definition boot_shape :: "int \<Rightarrow> kern \<Rightarrow> bool" where
  "boot_shape m k \<longleftrightarrow> kn_cur k 0 = 0 \<and> (\<forall>c. c \<noteq> 0 \<longrightarrow> kn_cur k c = -1) \<and>
     (\<forall>t. valid_tid t \<longrightarrow> tk_parent (kn_task k t) = 0 \<and> tk_pending (kn_task k t) = 0 \<and>
        tk_state (kn_task k t) = (if t = 0 then RUNNING else if t \<le> m then READY else FREE) \<and>
        tk_rq (kn_task k t) = (if t \<le> m then t else -1) \<and> tk_idle (kn_task k t) = (1 \<le> t \<and> t \<le> m)) \<and>
     (\<forall>c. kn_rq k c = (if 0 \<le> c \<and> c \<le> m then [c] else []))"

lemma boot_shapeD:
  assumes "boot_shape m k"
  shows "kn_cur k 0 = 0" "c \<noteq> 0 \<Longrightarrow> kn_cur k c = -1" "kn_rq k c = (if 0 \<le> c \<and> c \<le> m then [c] else [])"
    "valid_tid t \<Longrightarrow> tk_parent (kn_task k t) = 0" "valid_tid t \<Longrightarrow> tk_pending (kn_task k t) = 0"
    "valid_tid t \<Longrightarrow> tk_state (kn_task k t) = (if t = 0 then RUNNING else if t \<le> m then READY else FREE)"
    "valid_tid t \<Longrightarrow> tk_rq (kn_task k t) = (if t \<le> m then t else -1)"
    "valid_tid t \<Longrightarrow> tk_idle (kn_task k t) = (1 \<le> t \<and> t \<le> m)"
  using assms by (simp_all add: boot_shape_def)

lemma boot_cur: "boot_shape m k \<Longrightarrow> kn_cur k c = (if c = 0 then 0 else -1)"
  by (simp add: boot_shape_def)

lemma boot_shape_ok:
  assumes b: "boot_shape m k" and m: "0 \<le> m" "m < 16" and n: "kn_ncpu k = m + 1"
  shows "sched_ok k"
proof (rule sched_xI)
  note B = boot_shapeD [OF b]
  have v0: "valid_tid 0"
    by (simp add: valid_tid_def)
  have pin: "pinned k t = (t \<le> m)" if "valid_tid t" for t
    using that B(8) [OF that] m by (auto simp: pinned_def valid_tid_def)
  have cu: "current k t = (t = 0 \<or> t = -1)" for t
  proof
    assume "current k t"
    then show "t = 0 \<or> t = -1"
      by (auto simp: current_def boot_cur [OF b] split: if_splits)
  next
    have "current k 0"
      unfolding current_def valid_cpu_def by (rule exI [of _ 0]) (simp add: boot_cur [OF b])
    moreover have "current k (-1)"
      unfolding current_def valid_cpu_def by (rule exI [of _ 1]) (simp add: boot_cur [OF b])
    ultimately show "t = 0 \<or> t = -1 \<Longrightarrow> current k t"
      by auto
  qed
  show "rq_ok k"
    by (rule rq_okI) (use B(3,7) m n in \<open>auto simp: valid_tid_def split: if_splits\<close>)
  show "dead_ok k"
    using B(6,7) by (auto simp: dead_ok_def dead_def split: if_splits)
  have "\<forall>c. kn_cur k c = (if c = 0 then 0 else -1)"
    using B(1,2) by simp
  then show "cur_ok k"
    by (simp add: cur_ok_def)
  show "pin_ok k"
    unfolding pin_ok_def using B(4-6) B(8) [OF v0] n m pin B(8) by (auto simp: valid_tid_def)
  show "run_ok {} k"
    unfolding run_ok_def cu using B(6,7) by (auto simp: valid_tid_def)
qed

lemma find_append_None: "List.find P xs = None \<Longrightarrow> List.find P (xs @ ys) = List.find P ys"
  by (induction xs) (auto split: if_splits)

lemma find_upto:
  assumes "a \<le> i" "i \<le> b" "P i" "\<And>j. a \<le> j \<Longrightarrow> j < i \<Longrightarrow> \<not> P j"
  shows "List.find P [a..b] = Some (i::int)"
proof -
  have "[a..b] = [a..i - 1] @ i # [i + 1..b]"
    using assms(1,2) by (simp add: upto_split3)
  moreover have "List.find P [a..i - 1] = None"
    using assms(4) by (auto simp: find_None_iff)
  ultimately show ?thesis
    using assms(3) by (simp add: find_append_None)
qed

lemma create_idle_boot:
  assumes b: "boot_shape m k" and m: "0 \<le> m" "m < 15"
  shows "boot_shape (m + 1) (snd (create_idle_task (m + 1) k))" and "kn_ncpu (snd (create_idle_task (m + 1) k)) = kn_ncpu k"
proof -
  note B = boot_shapeD [OF b]
  define i where "i = m + 1"
  have i: "1 \<le> i" "i < 16" "i \<noteq> 0" "valid_tid i"
    using m by (auto simp: i_def valid_tid_def)
  have nc: "\<not> slot_still_current i k"
    using i by (auto simp: current_anywhere_iff current_def boot_cur [OF b])
  have fs: "first_slot (\<lambda>i. tk_state (kn_task k i) = FREE \<and> \<not> slot_still_current i k) user_slots = Some i"
    unfolding first_slot_def user_slots_def
    by (rule find_upto) (use i B(6) nc m in \<open>auto simp: i_def valid_tid_def\<close>)
  define esp where "esp = kstack_top k i - 64"
  define g :: "task \<Rightarrow> task" where "g = (\<lambda>x. x\<lparr>tk_ring := 0, tk_priority := 0, tk_nice := 0, tk_cpu := 0, tk_sleep := 0,
                         tk_wait := 0, tk_pd := tk_pd (kn_task k 0), tk_parent := 0, tk_exit := 0, tk_pgrp := 0,
                         tk_session := 0, tk_waiting := 0, tk_pending := 0, tk_blocked := 0, tk_restart := 0,
                         tk_sigesp := 0, tk_zsince := 0, tk_shm := 0, tk_fd := (\<lambda>_. -1),
                         tk_mmap := (\<lambda>j. (0, snd (tk_mmap x j))), tk_handler := (\<lambda>_. 0), tk_mask := (\<lambda>_. 0),
                         tk_sflags := (\<lambda>_. 0), tk_idle := True, tk_rq := -1, tk_rlim := rlimit_defaults,
                         tk_fpu := kn_fpu0 k, tk_esp := esp, tk_watermark := 0\<rparr>)"
  define k1 where "k1 = put_frame esp (ring0_frame (kn_apidle k)) (upd_task i g k)"
  define k2 where "k2 = set_state i READY (k1\<lparr>kn_num := kn_num k1 + 1\<rparr>)"
  have r: "snd (create_idle_task i k) = rq_enqueue i i k2"
    unfolding create_idle_task_def Let_def fs option.case esp_def [symmetric] g_def [symmetric] k1_def [symmetric] k2_def [symmetric]
    by simp
  have q: "kn_rq k2 c = kn_rq k c" "kn_cur k2 = kn_cur k" "kn_ncpu k2 = kn_ncpu k" for c
    by (simp_all add: k2_def k1_def put_frame_def)
  have t: "kn_task k2 u = (if u = i then (g (kn_task k i))\<lparr>tk_state := READY\<rparr> else kn_task k u)" for u
    by (simp add: k2_def k1_def put_frame_def)
  have e: "rq_enqueue i i k2 = upd_task i (\<lambda>x. x\<lparr>tk_rq := i\<rparr>) (k2\<lparr>kn_rq := (kn_rq k2)(i := [i])\<rparr>)"
    using i m by (simp add: rq_enqueue_def slot_consts t g_def q B(3) i_def Let_def)
  show "boot_shape (m + 1) (snd (create_idle_task (m + 1) k))"
    unfolding i_def [symmetric] r e boot_shape_def
    using B(1,2,4-8) i by (auto simp: q t g_def B(3) i_def)
  show "kn_ncpu (snd (create_idle_task (m + 1) k)) = kn_ncpu k"
    unfolding i_def [symmetric] r e by (simp add: q)
qed

lemma create_idles_boot:
  assumes "boot_shape 0 k" and "n \<le> 15"
  shows "boot_shape (int n) (fold (\<lambda>c s. snd (create_idle_task c s)) [1..int n] k) \<and>
    kn_ncpu (fold (\<lambda>c s. snd (create_idle_task c s)) [1..int n] k) = kn_ncpu k"
  using assms(2)
proof (induction n)
  case (Suc n)
  have e: "[1..int (Suc n)] = [1..int n] @ [int n + 1]"
    using upto_rec2 [of 1 "int n + 1"] by (simp add: add.commute)
  show ?case
    unfolding e fold_append using create_idle_boot [of "int n"] Suc by (simp add: add.commute)
qed (use assms(1) in simp)

text \<open>The kernel before \<open>init_tasking\<close>: no core has a task, every queue is empty.\<close>

definition kern_cold :: "kern \<Rightarrow> bool" where
  "kern_cold k \<longleftrightarrow> (\<forall>c. kn_cur k c = -1 \<and> kn_rq k c = []) \<and> 1 \<le> kn_ncpu k \<and> kn_ncpu k \<le> 16"

lemma init_slots:
  "kn_cur (fold init_slot ts k) = kn_cur k \<and> kn_rq (fold init_slot ts k) = kn_rq k \<and>
   kn_ncpu (fold init_slot ts k) = kn_ncpu k \<and>
   (\<forall>t \<in> set ts. tk_state (kn_task (fold init_slot ts k) t) = FREE \<and> tk_rq (kn_task (fold init_slot ts k) t) = -1 \<and>
      \<not> tk_idle (kn_task (fold init_slot ts k) t) \<and> tk_parent (kn_task (fold init_slot ts k) t) = 0 \<and>
      tk_pending (kn_task (fold init_slot ts k) t) = 0)"
proof (induction ts rule: rev_induct)
  case (snoc t ts)
  then show ?case
    by (auto simp: init_slot_def)
qed simp

lemma init_tasking_ok:
  assumes "kern_cold k"
  shows "sched_ok (init_tasking 0 [1..kn_ncpu k - 1] cr3 k)"
proof -
  define k1 where "k1 = fold init_slot slots k"
  define k4 where "k4 = (upd_task 0 (\<lambda>x. x\<lparr>tk_rq := 0, tk_idle := False\<rparr>) (task_set_launch_arg 0 ''idle''
     ((upd_task 0 (\<lambda>x. x\<lparr>tk_state := RUNNING, tk_ring := 0, tk_priority := 1, tk_wait := 0, tk_esp := 0,
                 tk_parent := 0, tk_shm := 0, tk_rlim := rlimit_defaults, tk_pd := cr3\<rparr>) k1)
        \<lparr>kn_cur := (kn_cur k1)(0 := 0), kn_num := 1\<rparr>)))\<lparr>kn_rq := (kn_rq k1)(0 := [0])\<rparr>"
  have e: "init_tasking 0 aps cr3 k = fold (\<lambda>c s. snd (create_idle_task c s)) aps k4" for aps
    by (simp add: init_tasking_def Let_def k1_def [symmetric] k4_def task_set_launch_arg_def slot_consts)
  note S = init_slots [of slots k, folded k1_def]
  have all: "tk_state (kn_task k1 t) = FREE" "tk_rq (kn_task k1 t) = -1" "\<not> tk_idle (kn_task k1 t)"
    "tk_parent (kn_task k1 t) = 0" "tk_pending (kn_task k1 t) = 0" if "valid_tid t" for t
    using S that by (auto simp: slots_def valid_tid_def)
  have b0: "boot_shape 0 k4"
    using S assms all unfolding boot_shape_def k4_def kern_cold_def
    by (auto simp: task_set_launch_arg_def slot_consts valid_tid_def)
  have n: "kn_ncpu k4 = kn_ncpu k"
    using S by (simp add: k4_def task_set_launch_arg_def slot_consts)
  obtain m where m: "kn_ncpu k - 1 = int m" "m \<le> 15"
    using assms by (auto simp: kern_cold_def intro: that [of "nat (kn_ncpu k - 1)"])
  have "boot_shape (int m) (init_tasking 0 [1..kn_ncpu k - 1] cr3 k)"
    "kn_ncpu (init_tasking 0 [1..kn_ncpu k - 1] cr3 k) = int m + 1"
    using create_idles_boot [OF b0 m(2)] n m by (simp_all add: e)
  then show ?thesis
    using m(2) by (intro boot_shape_ok [of "int m"]) simp_all
qed

subsection \<open>The kernel as a transition system\<close>

text \<open>The running task of a core that makes a system call: a user task, not a pinned one.\<close>

definition caller :: "kern \<Rightarrow> int \<Rightarrow> bool" where
  "caller k cid \<longleftrightarrow> 0 \<le> cid \<and> cid < kn_ncpu k \<and> \<not> pinned k (kn_cur k cid)"

text \<open>\<open>kstep\<close>: one operation under \<open>task_lock\<close>. \<open>quiet\<close> stands for everything that changes
  no field the scheduler reads: user code, time, the accessors of the task table, and the
  other components.\<close>

inductive kstep :: "kern \<Rightarrow> kern \<Rightarrow> bool" where
  tick: "0 \<le> cid \<Longrightarrow> cid < kn_ncpu k \<Longrightarrow> schedule cid esp k = Some (Resume e k') \<Longrightarrow> kstep k k'"
| state: "\<not> pinned k t \<Longrightarrow> s \<in> {READY, SLEEP, BLOCKED, STOPPED} \<Longrightarrow> kstep k (task_set_state t s k)"
| sleep: "caller k cid \<Longrightarrow> kstep k (task_sleep cid n k)"
| wake: "kstep k (task_wake t k)"
| signal: "\<not> pinned k t \<Longrightarrow> kstep k (snd (task_signal t s k))"
| exit: "caller k cid \<Longrightarrow> kstep k (task_exit_with_code cid code k)"
| deliver: "0 \<le> cid \<Longrightarrow> cid < kn_ncpu k \<Longrightarrow> kstep k (snd (task_deliver_signals cid a k))"
| fault: "caller k cid \<Longrightarrow> kstep k (snd (task_fault_signal cid s a k))"
| sigreturn: "caller k cid \<Longrightarrow> kstep k (sys_sigreturn cid a k)"
| wait: "caller k cid \<Longrightarrow> kstep k (snd (task_waitpid cid pid opts k))"
| reap: "kstep k (task_reap_zombies k)"
| create: "0 \<le> cid \<Longrightarrow> cid < kn_ncpu k \<Longrightarrow> \<not> tk_idle (kn_task k (kn_cur k cid)) \<Longrightarrow>
    kstep k (snd (thread_create_ex tsel cid entry prio pd stk tls k))"
| quiet: "same_sched k k' \<Longrightarrow> kstep k k'"

inductive_cases kstepE: "kstep k k'"

inductive kreach :: "kern \<Rightarrow> bool" where
  boot: "kern_cold k \<Longrightarrow> kreach (init_tasking 0 [1..kn_ncpu k - 1] cr3 k)"
| step: "kreach k \<Longrightarrow> kstep k k' \<Longrightarrow> kreach k'"

lemma kstep_ok:
  assumes "kstep k k'" and "sched_ok k"
  shows "sched_ok k'"
  using assms
proof (induction rule: kstep.induct)
  case (tick cid k esp e k')
  then show ?case
    using schedule_done [of k cid esp] by (simp add: sched_done_def)
next
  case (deliver cid k a)
  then show ?case
    using task_deliver_x(1) [OF deliver(3) valid_cpu_started [OF deliver(3,1,2)]] by (metis surj_pair snd_conv)
next
  case (exit k cid code)
  then show ?case
    using terminate_task_x(1) by (simp add: task_exit_with_code_def caller_def)
next
  case (fault k cid s a)
  then show ?case
    using task_fault_x valid_cpu_started by (simp add: caller_def)
qed (simp_all add: caller_def task_set_state_x task_sleep_x task_wake_x task_signal_x sigreturn_x
      task_waitpid_x task_reap_zombies_x thread_create_x same_sched_x)

lemma kreach_ok: "kreach k \<Longrightarrow> sched_ok k"
  by (induction rule: kreach.induct) (simp_all add: init_tasking_ok kstep_ok)

end
