(* ===== verification/Sched_Fair.thy ===== *)
theory Sched_Fair
  imports Sched_Steps
begin

text \<open>
  Aging: a READY task on a runqueue is chosen by \<open>rq_pick\<close> after a bounded number of picks.
  Every pick adds one to the wait of the tasks it passes over and clears the wait of the one
  it takes; priority and niceness are worth at most 39 points, so after 39 picks nobody can
  overtake the waiting task twice.
\<close>

definition base_score :: "task \<Rightarrow> int" where
  "base_score x = tk_priority x * 10 + half (10 - tk_nice x)"

lemma rq_score_base: "rq_score x = base_score x + tk_wait x"
  by (simp add: rq_score_def base_score_def)

definition sane_prio :: "task \<Rightarrow> bool" where
  "sane_prio x \<longleftrightarrow> 0 \<le> tk_priority x \<and> tk_priority x \<le> 2 \<and> -20 \<le> tk_nice x \<and> tk_nice x \<le> 19"

lemma base_score_range:
  assumes "sane_prio x"
  shows "-4 \<le> base_score x" "base_score x \<le> 35"
  using assms by (auto simp: base_score_def sane_prio_def half_def)

text \<open>Two kernels that differ only in how long tasks have waited.\<close>

definition same_but_wait :: "kern \<Rightarrow> kern \<Rightarrow> bool" where
  "same_but_wait k k' \<longleftrightarrow> (\<exists>w. k' = k\<lparr>kn_task := (\<lambda>u. (kn_task k u)\<lparr>tk_wait := w u\<rparr>)\<rparr>)"

lemma same_but_waitD:
  assumes "same_but_wait k k'"
  shows "kn_rq k' = kn_rq k" "kn_cur k' = kn_cur k" "tk_state (kn_task k' u) = tk_state (kn_task k u)"
    "tk_idle (kn_task k' u) = tk_idle (kn_task k u)" "tk_priority (kn_task k' u) = tk_priority (kn_task k u)"
    "tk_nice (kn_task k' u) = tk_nice (kn_task k u)" "base_score (kn_task k' u) = base_score (kn_task k u)"
    "sane_prio (kn_task k' u) = sane_prio (kn_task k u)" "rq_eligible c u k' = rq_eligible c u k"
  using assms
  by (auto simp: same_but_wait_def base_score_def sane_prio_def rq_eligible_def task_is_current_elsewhere_def)

lemma same_but_wait_refl: "same_but_wait k k"
  unfolding same_but_wait_def by (rule exI [of _ "\<lambda>u. tk_wait (kn_task k u)"]) simp

lemma same_but_wait_trans: "same_but_wait a b \<Longrightarrow> same_but_wait b c \<Longrightarrow> same_but_wait a c"
  by (auto simp: same_but_wait_def)

lemma same_but_wait_upd: "same_but_wait k (upd_task t (\<lambda>x. x\<lparr>tk_wait := g x\<rparr>) k)"
  unfolding same_but_wait_def
  by (rule exI [of _ "\<lambda>u. if u = t then g (kn_task k t) else tk_wait (kn_task k u)"])
    (auto simp: upd_task_def fun_eq_iff)

text \<open>What one pass over a queue of eligible tasks computes.\<close>

lemma rq_pick_loop_score:
  assumes "rq_pick_loop cid q b s k = (b', k')" and "distinct q" and "\<forall>u \<in> set q. rq_eligible cid u k"
  shows "same_but_wait k k'"
    and "tk_wait (kn_task k' u) = (if u \<in> set q then tk_wait (kn_task k u) + 1 else tk_wait (kn_task k u))"
    and "b' = b \<and> (\<forall>u \<in> set q. rq_score (kn_task k' u) \<le> s) \<or>
      b' \<in> set q \<and> s < rq_score (kn_task k' b') \<and> (\<forall>u \<in> set q. rq_score (kn_task k' u) \<le> rq_score (kn_task k' b'))"
proof -
  have "same_but_wait k k' \<and>
    (\<forall>u. tk_wait (kn_task k' u) = (if u \<in> set q then tk_wait (kn_task k u) + 1 else tk_wait (kn_task k u))) \<and>
    (b' = b \<and> (\<forall>u \<in> set q. rq_score (kn_task k' u) \<le> s) \<or>
      b' \<in> set q \<and> s < rq_score (kn_task k' b') \<and> (\<forall>u \<in> set q. rq_score (kn_task k' u) \<le> rq_score (kn_task k' b')))"
    using assms
  proof (induction q arbitrary: b s k)
    case Nil
    then show ?case
      by (simp add: same_but_wait_refl)
  next
    case (Cons t q)
    define k1 where "k1 = upd_task t (\<lambda>x. x\<lparr>tk_wait := tk_wait x + 1\<rparr>) k"
    have sm: "same_but_wait k k1"
      unfolding k1_def by (rule same_but_wait_upd)
    have el: "\<forall>u \<in> set q. rq_eligible cid u k1"
      using Cons.prems(3) by (simp add: same_but_waitD [OF sm])
    define b1 where "b1 = (if rq_score (kn_task k1 t) > s then t else b)"
    define s1 where "s1 = (if rq_score (kn_task k1 t) > s then rq_score (kn_task k1 t) else s)"
    have r: "rq_pick_loop cid q b1 s1 k1 = (b', k')"
      using Cons.prems(1,3) by (auto simp: Let_def k1_def [symmetric] b1_def s1_def)
    note IH = Cons.IH [OF r _ el]
    have d: "distinct q" "t \<notin> set q"
      using Cons.prems(2) by auto
    have w: "tk_wait (kn_task k' u) = (if u \<in> set (t # q) then tk_wait (kn_task k u) + 1 else tk_wait (kn_task k u))" for u
      using IH [OF d(1)] d(2) by (auto simp: k1_def)
    have sw: "same_but_wait k1 k'" "same_but_wait k k'"
      using IH [OF d(1)] sm same_but_wait_trans by blast+
    have st: "rq_score (kn_task k' t) = rq_score (kn_task k1 t)"
      using IH [OF d(1)] d(2) by (simp add: rq_score_base same_but_waitD [OF sw(1)])
    show ?case
      using IH [OF d(1)] w sw(2) st unfolding b1_def s1_def by (auto split: if_splits)
  qed
  then show "same_but_wait k k'"
    and "tk_wait (kn_task k' u) = (if u \<in> set q then tk_wait (kn_task k u) + 1 else tk_wait (kn_task k u))"
    and "b' = b \<and> (\<forall>u \<in> set q. rq_score (kn_task k' u) \<le> s) \<or>
      b' \<in> set q \<and> s < rq_score (kn_task k' b') \<and> (\<forall>u \<in> set q. rq_score (kn_task k' u) \<le> rq_score (kn_task k' b'))"
    by blast+
qed

lemma rq_pick_score:
  assumes r: "rq_pick cid k = (n, k')" and q: "distinct (kn_rq k cid)" "\<forall>u \<in> set (kn_rq k cid). 0 \<le> u \<and> rq_eligible cid u k"
  shows "same_but_wait k k'"
    and "u \<in> set (kn_rq k cid) \<Longrightarrow> tk_wait (kn_task k' u) = (if u = n then 0 else tk_wait (kn_task k u) + 1)"
    and "n = -1 \<and> (\<forall>u \<in> set (kn_rq k cid). rq_score (kn_task k u) \<le> -2) \<or>
      n \<in> set (kn_rq k cid) \<and> (\<forall>u \<in> set (kn_rq k cid). rq_score (kn_task k u) \<le> rq_score (kn_task k n))"
proof -
  obtain k1 where l: "rq_pick_loop cid (kn_rq k cid) (-1) (-1) k = (n, k1)"
    and k': "k' = (if n \<ge> 0 then upd_task n (\<lambda>x. x\<lparr>tk_wait := 0\<rparr>) k1 else k1)"
    using r by (auto simp: rq_pick_def split: prod.splits)
  have el: "\<forall>u \<in> set (kn_rq k cid). rq_eligible cid u k"
    using q(2) by blast
  note L = rq_pick_loop_score [OF l q(1) el]
  have sw: "same_but_wait k1 k'"
    by (simp add: k' same_but_wait_refl same_but_wait_upd [of k1 n "\<lambda>_. 0"])
  show "same_but_wait k k'"
    by (rule same_but_wait_trans [OF L(1) sw])
  show "tk_wait (kn_task k' u) = (if u = n then 0 else tk_wait (kn_task k u) + 1)" if "u \<in> set (kn_rq k cid)"
    using that q(2) L(2) [of u] by (auto simp: k')
  have sc: "rq_score (kn_task k1 u) = rq_score (kn_task k u) + 1" if "u \<in> set (kn_rq k cid)" for u
    using that L(2) [of u] by (simp add: rq_score_base same_but_waitD [OF L(1)])
  show "n = -1 \<and> (\<forall>u \<in> set (kn_rq k cid). rq_score (kn_task k u) \<le> -2) \<or>
      n \<in> set (kn_rq k cid) \<and> (\<forall>u \<in> set (kn_rq k cid). rq_score (kn_task k u) \<le> rq_score (kn_task k n))"
    using L(3) sc by fastforce
qed

text \<open>The queue as the core keeps picking from it.\<close>

primrec picks :: "int \<Rightarrow> nat \<Rightarrow> kern \<Rightarrow> int list \<times> kern" where
  "picks cid 0 k = ([], k)"
| "picks cid (Suc n) k = (let (ns, k1) = picks cid n k; (t, k2) = rq_pick cid k1 in (ns @ [t], k2))"

definition steady :: "int \<Rightarrow> kern \<Rightarrow> bool" where
  "steady cid k \<longleftrightarrow> distinct (kn_rq k cid) \<and>
     (\<forall>u \<in> set (kn_rq k cid). 0 \<le> u \<and> rq_eligible cid u k \<and> sane_prio (kn_task k u) \<and> 0 \<le> tk_wait (kn_task k u))"

lemma picks_spec:
  assumes st: "steady cid k" and t: "t \<in> set (kn_rq k cid)" and r: "picks cid n k = (ns, k')" and nt: "t \<notin> set ns"
  shows "same_but_wait k k' \<and> (\<forall>u \<in> set (kn_rq k cid). 0 \<le> tk_wait (kn_task k' u)) \<and>
    tk_wait (kn_task k' t) = tk_wait (kn_task k t) + int n \<and> length ns = n \<and>
    (\<forall>u \<in> set (drop 39 ns). u \<in> set (kn_rq k cid) - {t} \<and> tk_wait (kn_task k' u) \<le> int n - 40) \<and>
    distinct (drop 39 ns)"
  using r nt
proof (induction n arbitrary: ns k')
  case 0
  then show ?case
    using st t by (auto simp: same_but_wait_refl steady_def)
next
  case (Suc n)
  obtain ns1 k1 m where p: "picks cid n k = (ns1, k1)" and r: "rq_pick cid k1 = (m, k')" and ns: "ns = ns1 @ [m]"
    using Suc.prems(1) by (auto simp: Let_def split: prod.splits)
  have nt: "t \<notin> set ns1" "t \<noteq> m"
    using Suc.prems(2) by (auto simp: ns)
  note IH = Suc.IH [OF p nt(1)]
  have sw: "same_but_wait k k1"
    using IH by blast
  note W = same_but_waitD [OF sw]
  have "distinct (kn_rq k1 cid)" "\<forall>u \<in> set (kn_rq k1 cid). 0 \<le> u \<and> rq_eligible cid u k1"
    using st by (auto simp: W steady_def)
  note R = rq_pick_score [OF r this, unfolded W]
  have sw': "same_but_wait k k'"
    by (rule same_but_wait_trans [OF sw R(1)])
  have len: "length ns1 = n" and wt: "tk_wait (kn_task k1 t) = tk_wait (kn_task k t) + int n"
    using IH by blast+
  have wk: "0 \<le> tk_wait (kn_task k t)" and bt: "-4 \<le> base_score (kn_task k t)"
    using st t base_score_range by (auto simp: steady_def)
  have sct: "rq_score (kn_task k1 t) \<ge> int n - 4"
    using wt wk bt by (simp add: rq_score_base W)
  have late: "m \<in> set (kn_rq k cid) - {t} \<and> m \<notin> set (drop 39 ns1)" if n: "39 \<le> n"
  proof -
    have m: "m \<in> set (kn_rq k cid)" and le: "rq_score (kn_task k1 t) \<le> rq_score (kn_task k1 m)"
      using R(3) sct n t by auto
    have "tk_wait (kn_task k1 m) > int n - 40"
    proof -
      have "base_score (kn_task k m) \<le> 35"
        using st m base_score_range by (auto simp: steady_def)
      then show ?thesis
        using le sct by (simp add: rq_score_base W)
    qed
    then show ?thesis
      using IH m nt(2) by fastforce
  qed
  have dr: "drop 39 ns = drop 39 ns1 @ (if 39 \<le> n then [m] else [])"
    by (simp add: ns len)
  have w0: "\<forall>u \<in> set (kn_rq k cid). 0 \<le> tk_wait (kn_task k' u)"
    using R(2) IH by auto
  have wt': "tk_wait (kn_task k' t) = tk_wait (kn_task k t) + int (Suc n)"
    using R(2) t nt(2) wt by simp
  have old: "u \<in> set (kn_rq k cid) - {t} \<and> tk_wait (kn_task k' u) \<le> int (Suc n) - 40" if "u \<in> set (drop 39 ns1)" for u
  proof -
    have "drop 39 ns1 \<noteq> []"
      using that by (cases "drop 39 ns1") simp_all
    then have n: "39 < n"
      by (simp add: len)
    have u: "u \<in> set (kn_rq k cid) - {t}" "tk_wait (kn_task k1 u) \<le> int n - 40"
      using IH that by blast+
    have "tk_wait (kn_task k' u) \<le> int (Suc n) - 40"
      using R(2) [of u] u n by (cases "u = m") simp_all
    then show ?thesis
      using u(1) by blast
  qed
  have new: "tk_wait (kn_task k' m) \<le> int (Suc n) - 40" if "39 \<le> n"
    using R(2) [of m] late [OF that] that by auto
  show ?case
    using sw' w0 wt' len old new late IH unfolding dr by (auto simp: ns)
qed

text \<open>C17: Aging prevents starvation: on a runqueue of eligible tasks with priorities 0 to 2 and
  niceness -20 to 19, every task is chosen within 39 picks plus one per queued task, whatever the
  waits and priorities of the others are.\<close>

theorem rq_pick_fair:
  assumes "steady cid k" and "t \<in> set (kn_rq k cid)" and "n \<ge> 39 + length (kn_rq k cid)"
  shows "t \<in> set (fst (picks cid n k))"
proof (rule ccontr)
  obtain ns k' where p: "picks cid n k = (ns, k')"
    by fastforce
  assume "t \<notin> set (fst (picks cid n k))"
  then have S: "length ns = n" "set (drop 39 ns) \<subseteq> set (kn_rq k cid) - {t}" "distinct (drop 39 ns)"
    using picks_spec [OF assms(1,2) p] by (auto simp: p)
  have "length (drop 39 ns) \<le> card (set (kn_rq k cid) - {t})"
    using card_mono [OF _ S(2)] distinct_card [OF S(3)] by simp
  also have "\<dots> < card (set (kn_rq k cid))"
    using assms(2) by (intro psubset_card_mono) auto
  also have "\<dots> \<le> length (kn_rq k cid)"
    by (rule card_length)
  finally show False
    using S(1) assms(3) by simp
qed

end
