(* ===== verification/Task_Claims.thy ===== *)
theory Task_Claims
  imports Sched_Reach Sched_Fair
begin

text \<open>
  What the task table promises: the properties of the scheduler, of signals, of waiting, of
  limits and of the trusted-shell flag, each with a concrete instance.
\<close>

lemma upd_task_more [simp]:
  "kn_uframe (upd_task t f k) = kn_uframe k" "kn_uok (upd_task t f k) = kn_uok k" "kn_uword (upd_task t f k) = kn_uword k"
  "kn_ms (upd_task t f k) = kn_ms k" "kn_fg (upd_task t f k) = kn_fg k" "kn_kbase (upd_task t f k) = kn_kbase k"
  by (simp_all add: upd_task_def)

subsection \<open>A concrete kernel\<close>

definition task0 :: task where
  "task0 = \<lparr>tk_esp = 0, tk_watermark = 0, tk_state = FREE, tk_ring = 0, tk_priority = 0, tk_sleep = 0, tk_wait = 0,
     tk_rq = 0, tk_idle = False, tk_pd = 0, tk_fd = (\<lambda>_. 0), tk_launch = [], tk_name = [], tk_trusted = False, tk_dir = 0,
     tk_heap = 0, tk_parent = 0, tk_exit = 0, tk_pgrp = 0, tk_session = 0, tk_waiting = 0, tk_pending = 0,
     tk_handler = (\<lambda>_. 0), tk_mask = (\<lambda>_. 0), tk_sflags = (\<lambda>_. 0), tk_blocked = 0, tk_restart = 0, tk_sigesp = 0,
     tk_zsince = 0, tk_shm = 0, tk_cpu = 0, tk_nice = 0, tk_mmap = (\<lambda>_. (0, 0)), tk_uid = 0, tk_gid = 0, tk_tls = 0,
     tk_rlim = (\<lambda>_. (0, 0)), tk_fpu = []\<rparr>"

definition regs0 :: regs where
  "regs0 = \<lparr>r_gs = 0, r_fs = 0, r_ds = 0, r_edi = 0, r_esi = 0, r_ebp = 0, r_ebx = 0, r_edx = 0, r_ecx = 0, r_eax = 0,
     r_eip = 0, r_cs = 0x1B, r_eflags = 0x202, r_useresp = 0x1EFF0000, r_ss = 0x23\<rparr>"

definition sigframe0 :: sigframe where
  "sigframe0 = \<lparr>sf_sig = 0, sf_eax = 0, sf_ecx = 0, sf_edx = 0, sf_ebx = 0, sf_esi = 0, sf_edi = 0, sf_ebp = 0,
     sf_eip = 0, sf_cs = 0, sf_eflags = 0, sf_esp = 0, sf_ss = 0, sf_blocked = 0, sf_restart = 0, sf_restart_arg = 0\<rparr>"

definition cold :: kern where
  "cold = \<lparr>kn_task = (\<lambda>_. task0), kn_cur = (\<lambda>_. -1), kn_rq = (\<lambda>_. []), kn_num = 0, kn_ncpu = 2, kn_this = 0, kn_fg = 0,
     kn_fb = -1, kn_term_run = False, kn_term_tid = -1, kn_ms = 0, kn_sweep = 0, kn_reap_ms = 30000, kn_dpd = [],
     kn_clean_lo = 0, kn_clean_hi = 0, kn_frame = (\<lambda>_. regs0), kn_uframe = (\<lambda>_ _. sigframe0), kn_uword = (\<lambda>_ _. 0),
     kn_uok = (\<lambda>_ _ _. True), kn_ustack = (\<lambda>_ _. 0x1EFFF000), kn_calls = [], kn_gdt = (\<lambda>_. None),
     kn_gfd_use = (\<lambda>_. False), kn_gfd_ref = (\<lambda>_. 0), kn_tss = (\<lambda>_. 0), kn_cr3 = (\<lambda>_. 0x1000), kn_fpu = (\<lambda>_. []),
     kn_fpu0 = [], kn_kbase = 0x400000, kn_park = 0x300000, kn_apidle = 0x310000, kn_busy = (\<lambda>_. 0), kn_ticks = (\<lambda>_. 0),
     kn_load = (\<lambda>_. 0), kn_window = 100\<rparr>"

definition booted :: kern where
  "booted = init_tasking 0 [1] 0x1000 cold"

lemma booted_reach: "kreach booted"
  using kreach.boot [of cold "0x1000"] by (simp add: booted_def kern_cold_def cold_def)

subsection \<open>Scheduling\<close>



text \<open>C16: A tick on a started core always returns with a frame to resume: the loop that delivers
  signals to the task about to run ends, because every round kills a task or consumes one of its
  pending signals, and the panic for a core that runs another core's idle task is never
  reached. The core's task is then not the idle task of another core, and it is running nowhere
  else.\<close>

theorem schedule_returns:
  assumes "kreach k" and "0 \<le> cid" and "cid < kn_ncpu k"
  shows "\<exists>e k'. schedule cid esp k = Some (Resume e k') \<and> kreach k' \<and>
    \<not> (0 < kn_cur k' cid \<and> tk_idle (kn_task k' (kn_cur k' cid)) \<and> kn_cur k' cid \<noteq> cid)"
proof -
  have ok: "sched_ok k"
    by (rule kreach_ok [OF assms(1)])
  obtain e k' where r: "schedule cid esp k = Some (Resume e k')" and ok': "sched_ok k'"
    using schedule_done [OF ok assms(2,3), of esp] unfolding sched_done_def by blast
  have "kreach k'"
    by (rule kreach.step [OF assms(1) kstep.tick [OF assms(2,3) r]])
  moreover have "\<not> (0 < kn_cur k' cid \<and> tk_idle (kn_task k' (kn_cur k' cid)) \<and> kn_cur k' cid \<noteq> cid)"
    using cur_okD(3) [OF sched_xD(3) [OF ok'] valid_cpu_started [OF ok assms(2,3)]] by (auto simp: pinned_def)
  ultimately show ?thesis
    using r by blast
qed

lemma schedule_returns_witness: "\<exists>e k'. schedule 0 0x400000 booted = Some (Resume e k') \<and> kreach k'"
proof -
  have "kn_ncpu booted = 2"
    using create_idles_boot [of _ 1] by (simp add: booted_def init_tasking_def Let_def task_set_launch_arg_def
        slot_consts cold_def init_slots create_idle_task_def put_frame_def same_but_rqD(2) [OF rq_enqueue_same]
        split: option.split)
  then show ?thesis
    using schedule_returns [OF booted_reach, of 0 "0x400000"] by auto
qed

definition two_ready :: kern where
  "two_ready = cold\<lparr>kn_rq := (\<lambda>c. if c = 1 then [5, 6] else []), kn_task := (\<lambda>_. task0\<lparr>tk_state := READY\<rparr>)\<rparr>"

lemma rq_pick_fair_witness: "6 \<in> set (fst (picks 1 41 two_ready))"
proof -
  have "steady 1 two_ready"
    by (auto simp: steady_def two_ready_def cold_def task0_def sane_prio_def rq_eligible_def
        task_is_current_elsewhere_def list_ex_iff)
  then show ?thesis
    by (rule rq_pick_fair) (simp_all add: two_ready_def)
qed

subsection \<open>Signal frames\<close>

text \<open>C20: Whatever the program left in the signal frame, \<open>SYS_SIGRETURN\<close> never returns to kernel
  privilege: either the saved code segment, stack segment, flags and instruction pointer of the
  call stay as they were, or the task resumes with the user code and data selectors, interrupts
  on, and the bits of the flag mask clear.\<close>

theorem sigreturn_stays_in_ring3:
  "(let f = kn_frame k a; f' = kn_frame (sys_sigreturn cid a k) a
    in (r_cs f' = r_cs f \<and> r_ss f' = r_ss f \<and> r_eflags f' = r_eflags f \<and> r_eip f' = r_eip f \<and> r_useresp f' = r_useresp f) \<or>
       (r_cs f' = 0x1B \<and> r_ss f' = 0x23 \<and> r_eflags f' AND 0x200 = 0x200 \<and> r_eflags f' AND 0x72000 = 0))"
proof -
  have fr: "kn_frame (task_set_sig_frame_esp t w k') = kn_frame k'" "kn_frame (task_set_blocked t w k') = kn_frame k'"
    for t w k'
    by (simp_all add: task_set_sig_frame_esp_def task_set_blocked_def)
  have sl: "kn_frame (task_sleep cid n k') = kn_frame k'" for n k'
    using rq_remove_same by (simp add: task_sleep_def same_but_rq_def)
  have fl: "((w AND NOT 0x72000) OR 0x200) AND 0x200 = 0x200" "((w AND NOT 0x72000) OR 0x200) AND 0x72000 = 0" for w :: u32
    by (simp_all add: bit.conj_disj_distrib2 and.assoc)
  define P :: "kern \<Rightarrow> bool" where "P k' \<longleftrightarrow> (let f = kn_frame k a; f' = kn_frame k' a
    in (r_cs f' = r_cs f \<and> r_ss f' = r_ss f \<and> r_eflags f' = r_eflags f \<and> r_eip f' = r_eip f \<and> r_useresp f' = r_useresp f) \<or>
       (r_cs f' = 0x1B \<and> r_ss f' = 0x23 \<and> r_eflags f' AND 0x200 = 0x200 \<and> r_eflags f' AND 0x72000 = 0))" for k'
  have old: "P (put_frame a ((kn_frame k a)\<lparr>r_eax := w\<rparr>) k')" for w k'
    by (simp add: P_def Let_def put_frame_def)
  have user: "P k'" if "kn_frame k' a = R" "r_cs R = 0x1B" "r_ss R = 0x23" "r_eflags R = (w AND NOT 0x72000) OR 0x200" for k' R w
    unfolding P_def Let_def that fl by simp
  have "P (sys_sigreturn cid a k)"
    unfolding sys_sigreturn_def Let_def
    by (rule if_x [where P = P], rule old, rule if_x [where P = P], rule old, rule if_x [where P = P];
        rule user [OF refl]; simp add: fr sl put_frame_def)
  then show ?thesis
    by (simp only: P_def)
qed

lemma terminate_dead:
  assumes "0 < t" and "valid_tid t"
  shows "dead (terminate_task t code k) t"
proof (cases "dead k t")
  case True
  then show ?thesis
    by (auto simp: terminate_task_def dead_def)
next
  case False
  have "dead (term_parent p k') t" if "p \<noteq> t" "dead k' t" for p k'
    using that by (simp add: term_parent_def dead_def same_but_rqD [OF rq_enqueue_wake_same])
  moreover have "dead (gdt_tls_clear t (set_state t FREE k'\<lparr>kn_num := n\<rparr>)) t" for k' n
    by (simp add: dead_def same_schedD [OF gdt_same(1)])
  ultimately show ?thesis
    using assms False unfolding terminate_task_cases Let_def
    by (auto simp: valid_tid_def slot_consts dead_def [of k] dead_def [of "upd_task t f k'" for f k'])
qed

lemma deliver_loop_alive:
  assumes "deliver_loop ss a t k = (True, k')" and "\<not> dead k' t" and "0 < t" and "valid_tid t"
  shows "\<exists>s h w. s \<in> set ss \<and> k' = enter_handler a t s h (upd_task t (\<lambda>x. x\<lparr>tk_pending := w\<rparr>) k)"
  using assms(1)
proof (induction ss arbitrary: k)
  case (Cons s ss)
  define k1 where "k1 = upd_task t (\<lambda>x. x\<lparr>tk_pending := tk_pending x AND NOT (sig_bit s)\<rparr>) k"
  have skip: "?case" if "deliver_loop ss a t k = (True, k')"
    using Cons.IH [OF that] by auto
  have pass: "?case" if p: "deliver_loop ss a t k1 = (True, k')"
  proof -
    obtain s' h w where "s' \<in> set ss" "k' = enter_handler a t s' h (upd_task t (\<lambda>x. x\<lparr>tk_pending := w\<rparr>) k1)"
      using Cons.IH [OF p] by blast
    moreover have "upd_task t (\<lambda>x. x\<lparr>tk_pending := w\<rparr>) k1 = upd_task t (\<lambda>x. x\<lparr>tk_pending := w\<rparr>) k"
      by (simp add: k1_def upd_task_def)
    ultimately show ?thesis
      by auto
  qed
  have died: "dead (put_frame a f (terminate_task t c k1)) t" for f c
    using terminate_dead [OF assms(3,4)] by (simp add: dead_def same_schedD [OF put_frame_same])
  have enter: "?case" if "k' = enter_handler a t s h k1" for h
    using that unfolding k1_def upd_task_def by force
  show ?case
  proof (cases "has_sig (tk_pending (kn_task k t)) s \<and>
      \<not> (has_sig (tk_blocked (kn_task k t)) s \<and> s \<noteq> SIGKILL \<and> s \<noteq> SIGSTOP \<and> s \<noteq> SIGCONT)")
    case False
    then have "deliver_loop (s # ss) a t k = deliver_loop ss a t k"
      by auto
    then show ?thesis
      using skip Cons.prems(1) by simp
  next
    case True
    then have c1: "\<not> \<not> has_sig (tk_pending (kn_task k t)) s"
      and c2: "\<not> (has_sig (tk_blocked (kn_task k t)) s \<and> s \<noteq> SIGKILL \<and> s \<noteq> SIGSTOP \<and> s \<noteq> SIGCONT)"
      by blast+
    define h where "h = tk_handler (kn_task k1 t) s"
    have no: "k' \<noteq> put_frame a f (terminate_task t c k1)" for f c
      using died assms(2) by blast
    show ?thesis
      using Cons.prems(1)
      unfolding deliver_loop.simps if_not_P [OF c1] if_not_P [OF c2] Let_def k1_def [symmetric] h_def [symmetric]
      using pass no enter [of h] by (simp only: prod.inject split: if_splits) (metis no)+
  qed
qed simp

lemma sigreturn_frame:
  assumes "kn_cur k cid = t" and "valid_tid t" and "tk_sigesp (kn_task k t) = esp" and "esp \<noteq> 0"
    and "kn_uok k (tk_pd (kn_task k t)) esp 64" and "kn_uframe k (tk_pd (kn_task k t)) esp = f"
    and "sf_cs f = 0x1B" and "sf_ss f = 0x23" and "sf_restart f = 0"
  shows "kn_frame (sys_sigreturn cid a k) a = (kn_frame k a)\<lparr>r_eax := sf_eax f, r_ecx := sf_ecx f, r_edx := sf_edx f,
      r_ebx := sf_ebx f, r_esi := sf_esi f, r_edi := sf_edi f, r_ebp := sf_ebp f, r_eip := sf_eip f, r_cs := 0x1B,
      r_eflags := (sf_eflags f AND NOT 0x72000) OR 0x200, r_useresp := sf_esp f, r_ss := 0x23\<rparr>"
    and "tk_blocked (kn_task (sys_sigreturn cid a k) t) = sf_blocked f"
    and "tk_sigesp (kn_task (sys_sigreturn cid a k) t) = 0"
proof -
  have b: "\<not> t < 0" "\<not> t \<ge> MAX_TASKS"
    using assms(2) by (simp_all add: valid_tid_def slot_consts)
  have "sys_sigreturn cid a k = task_set_sig_frame_esp t 0 (put_frame a ((kn_frame k a)\<lparr>r_eax := sf_eax f, r_ecx := sf_ecx f, r_edx := sf_edx f,
      r_ebx := sf_ebx f, r_esi := sf_esi f, r_edi := sf_edi f, r_ebp := sf_ebp f, r_eip := sf_eip f, r_cs := sf_cs f,
      r_eflags := (sf_eflags f AND NOT 0x72000) OR 0x200, r_useresp := sf_esp f, r_ss := sf_ss f\<rparr>) (task_set_blocked t (sf_blocked f) k))"
    using assms b by (simp add: sys_sigreturn_def Let_def task_set_blocked_def)
  then show "kn_frame (sys_sigreturn cid a k) a = (kn_frame k a)\<lparr>r_eax := sf_eax f, r_ecx := sf_ecx f, r_edx := sf_edx f,
      r_ebx := sf_ebx f, r_esi := sf_esi f, r_edi := sf_edi f, r_ebp := sf_ebp f, r_eip := sf_eip f, r_cs := 0x1B,
      r_eflags := (sf_eflags f AND NOT 0x72000) OR 0x200, r_useresp := sf_esp f, r_ss := 0x23\<rparr>"
    and "tk_blocked (kn_task (sys_sigreturn cid a k) t) = sf_blocked f"
    and "tk_sigesp (kn_task (sys_sigreturn cid a k) t) = 0"
    using assms(7,8) b by (simp_all add: task_set_sig_frame_esp_def task_set_blocked_def put_frame_def)
qed


definition handling :: kern where
  "handling = cold\<lparr>kn_cur := (\<lambda>c. if c = 0 then 5 else -1), kn_task := (\<lambda>t. if t = 5
     then task0\<lparr>tk_state := RUNNING, tk_pending := 2, tk_handler := (\<lambda>_. 0x08001000), tk_blocked := 0x80\<rparr> else task0)\<rparr>"


subsection \<open>Exit and wait\<close>

lemma wait_scan_finds:
  assumes "z \<in> set ts" and "tk_state (kn_task k z) = ZOMBIE" and "tk_parent (kn_task k z) = self" and "0 < z"
  shows "wait_scan ts self z found k = (True, z)"
  using assms(1) by (induction ts arbitrary: found) (use assms in auto)

lemma wait_scan_none:
  assumes "tk_state (kn_task k z) = FREE" and "0 < z"
  shows "wait_scan ts self z found k = (found, -1)"
  by (induction ts arbitrary: found) (use assms in auto)

lemma cleanup_tasks [simp]:
  "kn_task (call c k) = kn_task k" "kn_task (term_release t k) = kn_task k" "kn_task (fb_cleanup_task t k) = kn_task k"
  "kn_task (sync_task_cleanup_defer t k) = kn_task k" "kn_task (gdt_tls_clear t k) = kn_task k"
  "kn_task (put_frame a f k) = kn_task k" "kn_task (deferred_pd_push pd t k) = kn_task k"
  by (simp_all add: call_def term_release_def fb_cleanup_task_def sync_task_cleanup_defer_def gdt_tls_clear_def
      put_frame_def deferred_pd_push_def Let_def)

lemma cleanup_waiting: "tk_waiting (kn_task (task_cleanup t k) u) = tk_waiting (kn_task k u)"
  by (simp add: task_cleanup_def release_space_def Let_def)

lemma reparent_waiting: "tk_waiting (kn_task (fold (reparent_one t) cs k) u) = tk_waiting (kn_task k u)"
  by (induction cs arbitrary: k) (simp_all add: reparent_one_def)

lemma term_prefix_parent:
  assumes ok: "sched_ok k" and v: "valid_tid t"
  shows "tk_parent (kn_task (term_prefix t k) t) = tk_parent (kn_task k t)"
    and "tk_waiting (kn_task (term_prefix t k) u) = tk_waiting (kn_task k u)"
proof -
  define k1 where "k1 = upd_task t (\<lambda>x. x\<lparr>tk_name := []\<rparr>) k"
  define k2 where "k2 = task_cleanup t (rq_remove t k1)"
  have e: "term_prefix t k = fold (reparent_one t) user_slots k2"
    by (simp add: term_prefix_def k1_def k2_def)
  have s1: "same_sched k k1"
    unfolding k1_def by (rule upd_same) simp_all
  have s2: "same_sched (rq_remove t k1) k2"
    unfolding k2_def by (rule task_cleanup_same)
  have ok1: "sched_x {t} k1"
    using sched_x_weaken [OF ok, of "{t}"] same_sched_x [OF s1] by auto
  have ok2: "sched_x {t} k2"
    using rq_remove_x(1) [OF ok1, of t] same_sched_x [OF s2] by simp
  show "tk_parent (kn_task (term_prefix t k) t) = tk_parent (kn_task k t)"
    using reparent_x(2) [OF ok2 user_slots_valid, of t, folded e]
    by (simp add: calmD(3) same_schedD [OF s2] same_but_rqD [OF rq_remove_same] same_schedD [OF s1])
  show "tk_waiting (kn_task (term_prefix t k) u) = tk_waiting (kn_task k u)"
    by (simp add: e k2_def reparent_waiting cleanup_waiting same_but_rqD [OF rq_remove_same] k1_def)
qed

text \<open>C18: The exit protocol: when a task with a live parent ends, it becomes a zombie that holds the
  low byte of its exit code, and a parent parked in wait is made READY; the parent's next
  \<open>task_waitpid\<close> on it returns exactly that code and frees the slot, and a second wait on the same
  slot no longer reports it.\<close>

theorem exit_status_reaped_once:
  assumes ok: "sched_ok k" and t: "valid_tid t" "\<not> pinned k t" "\<not> dead k t"
    and p: "p = tk_parent (kn_task k t)" "valid_tid p" "0 < p" "p \<noteq> t" "\<not> dead k p"
    and k1: "k1 = terminate_task t code k" and cur: "kn_cur k1 cid = p"
    and w: "task_waitpid cid t opts k1 = (res, k2)"
  shows "tk_state (kn_task k1 t) = ZOMBIE \<and>
    (tk_waiting (kn_task k p) \<noteq> 0 \<longrightarrow> tk_state (kn_task k1 p) = READY \<and> tk_waiting (kn_task k1 p) = 0) \<and>
    res = WReaped t (code mod 256) \<and> tk_state (kn_task k2 t) = FREE \<and> kn_num k2 = kn_num k1 - 1 \<and>
    fst (task_waitpid cid t opts k2) = WNoChild"
proof -
  define k0 where "k0 = term_prefix t k"
  define k3 where "k3 = upd_task t (\<lambda>x. x\<lparr>tk_state := ZOMBIE, tk_exit := code mod 256, tk_zsince := kn_ms k0\<rparr>) k0"
  have t0: "t \<noteq> 0"
    using t(2) by (auto simp: pinned_def)
  note T = term_prefix_x [OF ok t(1,3), folded k0_def]
  note TP = term_prefix_parent [OF ok t(1), folded k0_def]
  have pd: "\<not> dead k0 p"
    using p(5) T(6) by simp
  have e: "k1 = term_parent p k3"
    using t t0 p pd TP(1)
    by (simp add: k1 terminate_task_cases Let_def k0_def [symmetric] k3_def [symmetric] valid_tid_def slot_consts dead_def)
  have tk: "kn_task k1 t = kn_task k3 t" if "p \<noteq> t"
  proof -
    have "kn_task (rq_enqueue_wake p k') t = kn_task k' t" for k'
      using that by (simp add: rq_enqueue_wake_def rq_enqueue_def Let_def)
    then show ?thesis
      using that by (simp add: e term_parent_def)
  qed
  have z: "tk_state (kn_task k1 t) = ZOMBIE" "tk_exit (kn_task k1 t) = code mod 256" "tk_parent (kn_task k1 t) = p"
    using tk p(1,4) TP(1) by (simp_all add: k3_def)
  have wk: "tk_state (kn_task k1 p) = READY \<and> tk_waiting (kn_task k1 p) = 0" if "tk_waiting (kn_task k p) \<noteq> 0"
    using that p(4) TP(2) by (simp add: e term_parent_def k3_def same_but_rqD [OF rq_enqueue_wake_same])
  have ts: "t \<in> set user_slots"
    using t(1) t0 by (auto simp: user_slots_def valid_tid_def)
  have tp: "0 < t"
    using t(1) t0 by (auto simp: valid_tid_def)
  have f: "wait_scan user_slots p t False k1 = (True, t)"
    by (rule wait_scan_finds [OF ts z(1,3) tp])
  have r: "res = WReaped t (code mod 256)" "k2 = gdt_tls_clear t ((set_state t FREE k1)\<lparr>kn_num := kn_num k1 - 1\<rparr>)"
    using w cur p(3) f z(2) tp by (auto simp: task_waitpid_def Let_def)
  have s2: "tk_state (kn_task k2 t) = FREE" "kn_num k2 = kn_num k1 - 1" "kn_cur k2 cid = p"
    using cur by (simp_all add: r(2) gdt_tls_clear_def)
  have "wait_scan user_slots p t False k2 = (False, -1)"
    by (rule wait_scan_none [OF s2(1) tp])
  then have "fst (task_waitpid cid t opts k2) = WNoChild"
    using s2(3) p(3) by (simp add: task_waitpid_def Let_def)
  then show ?thesis
    using z(1) wk r(1) s2 by simp
qed

definition family :: kern where
  "family = cold\<lparr>kn_ncpu := 1, kn_cur := (\<lambda>c. if c = 0 then 4 else -1), kn_rq := (\<lambda>c. if c = 0 then [0] else []),
     kn_task := (\<lambda>t. if t = 0 then task0\<lparr>tk_state := READY\<rparr>
       else if t = 4 then task0\<lparr>tk_state := RUNNING, tk_rq := -1, tk_uid := 1000\<rparr>
       else if t = 5 then task0\<lparr>tk_state := BLOCKED, tk_rq := -1, tk_parent := 4, tk_trusted := True\<rparr>
       else task0\<lparr>tk_rq := -1\<rparr>)\<rparr>"

lemma family_ok: "sched_ok family"
proof (rule sched_xI)
  have cur: "kn_cur family c = (if c = 0 then 4 else -1)" "kn_rq family c = (if c = 0 then [0] else [])" for c
    by (simp_all add: family_def)
  have tk: "tk_state (kn_task family t) = (if t = 0 then READY else if t = 4 then RUNNING else if t = 5 then BLOCKED else FREE)"
    "tk_rq (kn_task family t) = (if t = 0 then 0 else -1)" "\<not> tk_idle (kn_task family t)"
    "tk_pending (kn_task family t) = 0" "tk_parent (kn_task family t) = (if t = 5 then 4 else 0)" for t
    by (simp_all add: family_def task0_def)
  have n: "kn_ncpu family = 1"
    by (simp add: family_def)
  have "current family 4"
    unfolding current_def by (rule exI [of _ 0]) (simp add: valid_cpu_def cur)
  then show "run_ok {} family"
    by (simp add: run_ok_def tk)
  show "rq_ok family"
  proof (rule rq_okI)
    show "1 \<le> kn_ncpu family" "kn_ncpu family \<le> 16" "distinct (kn_rq family c)" for c
      by (simp_all add: n cur)
    show "0 \<le> c \<and> c < 16 \<and> valid_tid t \<and> tk_rq (kn_task family t) = c" if "t \<in> set (kn_rq family c)" for c t
      using that by (cases "c = 0") (simp_all add: cur tk valid_tid_def)
    show "t \<in> set (kn_rq family (tk_rq (kn_task family t)))" if "0 \<le> tk_rq (kn_task family t)" for t
      using that by (cases "t = 0") (simp_all add: cur tk)
  qed
  show "dead_ok family"
    by (simp add: dead_ok_def dead_def tk)
  show "cur_ok family"
    by (simp add: cur_ok_def cur pinned_def tk)
  show "pin_ok family"
    by (simp add: pin_ok_def pinned_def tk n)
qed

lemma exit_status_reaped_once_witness:
  "fst (task_waitpid 0 5 0 (terminate_task 5 300 family)) = WReaped 5 44"
proof -
  have tk: "tk_state (kn_task family t) = (if t = 0 then READY else if t = 4 then RUNNING else if t = 5 then BLOCKED else FREE)"
    "\<not> tk_idle (kn_task family t)" "tk_parent (kn_task family t) = (if t = 5 then 4 else 0)" for t
    by (simp_all add: family_def task0_def)
  have np: "\<not> pinned family 5" and v: "valid_tid 5"
    by (simp_all add: pinned_def tk valid_tid_def)
  have "kn_cur (terminate_task 5 300 family) 0 = 4"
    using endsD(1) [OF terminate_task_x(2) [OF family_ok np v]] by (simp add: family_def)
  moreover have "\<not> dead family 5" "\<not> dead family 4" "4 = tk_parent (kn_task family 5)"
    by (simp_all add: tk dead_def)
  moreover have "valid_tid 4" "(0::int) < 4" "(4::int) \<noteq> 5"
    by (simp_all add: valid_tid_def)
  ultimately have "fst (task_waitpid 0 5 0 (terminate_task 5 300 family)) = WReaped 5 (300 mod 256)"
    using exit_status_reaped_once [OF family_ok v np _ _ _ _ _ _ refl _ prod.collapse [symmetric]] by blast
  then show ?thesis
    by simp
qed

subsection \<open>Trust and limits\<close>

lemma enqueue_trusted: "tk_trusted (kn_task (rq_enqueue c t k) u) = tk_trusted (kn_task k u)"
  "tk_uid (kn_task (rq_enqueue c t k) u) = tk_uid (kn_task k u)" "tk_pd (kn_task (rq_enqueue c t k) u) = tk_pd (kn_task k u)"
  by (simp_all add: rq_enqueue_def Let_def)

lemma inherit_trusted:
  "tk_trusted (kn_task (inherit_fds js me i k) u) = tk_trusted (kn_task k u)"
  "tk_uid (kn_task (inherit_fds js me i k) u) = tk_uid (kn_task k u)"
  "tk_pd (kn_task (inherit_fds js me i k) u) = tk_pd (kn_task k u)"
  by (induction js me i k rule: inherit_fds.induct) (simp_all add: Let_def)

lemma gdt_update_tasks [simp]: "kn_task (gdt_tls_update t b k) = kn_task k"
  by (simp add: gdt_tls_update_def)

lemma terminate_trusted: "tk_trusted (kn_task (terminate_task t code k) u) = tk_trusted (kn_task k u)"
proof -
  have cl: "tk_trusted (kn_task (task_cleanup t k) u) = tk_trusted (kn_task k u)" for k u
    by (simp add: task_cleanup_def release_space_def Let_def)
  have rp: "tk_trusted (kn_task (fold (reparent_one t) cs k) u) = tk_trusted (kn_task k u)" for cs k u
    by (induction cs arbitrary: k) (simp_all add: reparent_one_def)
  have pre: "tk_trusted (kn_task (term_prefix t k) u) = tk_trusted (kn_task k u)" for u
    by (simp add: term_prefix_def rp cl same_but_rqD [OF rq_remove_same])
  have par: "tk_trusted (kn_task (term_parent p k) u) = tk_trusted (kn_task k u)" for p k
    by (simp add: term_parent_def same_but_rqD [OF rq_enqueue_wake_same])
  show ?thesis
    by (simp add: terminate_task_cases Let_def par pre)
qed

text \<open>A new thread keeps the trusted-shell flag its slot was left with: the constructor sets
  uid, directory, limits and group from the creator but never the flag, and ending a task does
  not clear it. So a thread an unprivileged, untrusted task creates in the slot of a dead trusted
  shell passes the shell-host check.\<close>

theorem new_thread_inherits_stale_trust:
  assumes "thread_create_ex tsel cid entry prio pd stk tls k = (i, k')" and "i \<ge> 0"
  shows "task_is_trusted_shell i k' = task_is_trusted_shell i k \<and>
    (task_is_trusted_shell i k \<longrightarrow> caller_shell_host i k') \<and>
    task_is_trusted_shell t (terminate_task t code k) = task_is_trusted_shell t k"
proof -
  obtain j where j: "first_slot (\<lambda>i. tk_state (kn_task k i) = FREE \<and> \<not> slot_still_current i k) slots = Some j"
    using assms by (auto simp: thread_create_ex_def Let_def split: if_splits option.splits)
  define P :: "int \<times> kern \<Rightarrow> bool" where "P r \<longleftrightarrow> fst r \<ge> 0 \<longrightarrow> (\<forall>u. tk_trusted (kn_task (snd r) u) = tk_trusted (kn_task k u))" for r
  have no: "P (-1, k')" for k'
    by (simp add: P_def)
  have upd: "tk_trusted (kn_task (upd_task i f k) u) = tk_trusted (kn_task k u)" if "\<And>x. tk_trusted (f x) = tk_trusted x" for i f k u
    using that by simp
  have tls: "kn_task (if b then gdt_tls_update i t k else k) = kn_task k" "kn_task (k\<lparr>kn_num := n\<rparr>) = kn_task k" for b i t k n
    by simp_all
  have inh: "tk_trusted (kn_task (if b then inherit_fds js me i k else k) u) = tk_trusted (kn_task k u)" for b js me i k u
    by (simp add: inherit_trusted)
  have "P (thread_create_ex tsel cid entry prio pd stk tls k)"
    unfolding thread_create_ex_def Let_def j option.case
    by (rule if_x [where P = P], rule no, rule if_x [where P = P], rule no)
      (simp add: P_def enqueue_trusted inh upd tls del: upd_task_simps split del: if_split)
  then show ?thesis
    using assms by (simp add: P_def task_is_trusted_shell_def caller_shell_host_def terminate_trusted)
qed

definition after_shell :: kern where
  "after_shell = cold\<lparr>kn_ncpu := 1, kn_cur := (\<lambda>c. if c = 0 then 4 else -1),
     kn_task := (\<lambda>t. if t = 0 then task0\<lparr>tk_state := READY\<rparr>
       else if t = 1 then task0\<lparr>tk_rq := -1, tk_trusted := True\<rparr>
       else if t = 4 then task0\<lparr>tk_state := RUNNING, tk_rq := -1, tk_uid := 1000, tk_rlim := (\<lambda>_. (64, 64))\<rparr>
       else task0\<lparr>tk_rq := -1\<rparr>)\<rparr>"

lemma new_thread_inherits_stale_trust_witness:
  "\<not> task_is_trusted_shell 4 after_shell \<and> task_get_uid 4 after_shell = 1000 \<and>
   (\<exists>i k'. thread_create_ex (\<lambda>_. 0) 0 0x08000000 1 0x2000 0 0 after_shell = (i, k') \<and> caller_shell_host i k')"
proof -
  have al: "rlimit_nproc_allows 4 after_shell"
    by (simp add: rlimit_nproc_allows_def user_slots_def upto_rec1 after_shell_def task0_def ROOT_UID_def)
  have fs: "first_slot (\<lambda>i. tk_state (kn_task after_shell i) = FREE \<and> \<not> slot_still_current i after_shell) slots = Some 1"
    unfolding first_slot_def slots_def
    by (rule find_upto) (auto simp: after_shell_def task0_def slot_still_current_def list_ex_iff)
  obtain i k' where r: "thread_create_ex (\<lambda>_. 0) 0 0x08000000 1 0x2000 0 0 after_shell = (i, k')"
    by fastforce
  have "i = 1"
    using r al fs by (simp add: thread_create_ex_def Let_def after_shell_def [THEN arg_cong, of "\<lambda>k. kn_cur k 0"]
        after_shell_def [THEN arg_cong, of kn_ustack] cold_def del: upd_task_simps)
  then have "caller_shell_host i k'"
    using new_thread_inherits_stale_trust [OF r]
    by (simp add: task_is_trusted_shell_def after_shell_def slot_consts)
  moreover have "\<not> task_is_trusted_shell 4 after_shell" "task_get_uid 4 after_shell = 1000"
    by (simp_all add: task_is_trusted_shell_def after_shell_def task0_def task_get_uid_def slot_consts)
  ultimately show ?thesis
    using r by blast
qed

text \<open>C21: \<open>task_setrlimit\<close> keeps the limits of every task in order: the new soft limit is at most
  the hard one, the hard one fits in 31 bits, nobody but root raises a hard limit, only the
  caller's own entry for that resource changes, and a refused call changes nothing.\<close>

theorem setrlimit_bounds:
  assumes "task_setrlimit cid res want k = (rc, k')" and "t = (if cur_valid cid k then kn_cur k cid else 0)"
  shows "(rc = -1 \<and> k' = k) \<or>
    (rc = 0 \<and> 0 \<le> res \<and> res < 3 \<and> want = Some (tk_rlim (kn_task k' t) res) \<and>
     fst (tk_rlim (kn_task k' t) res) \<le> snd (tk_rlim (kn_task k' t) res) \<and> snd (tk_rlim (kn_task k' t) res) \<le> 0x7FFFFFFF \<and>
     (tk_uid (kn_task k t) = ROOT_UID \<or> snd (tk_rlim (kn_task k' t) res) \<le> snd (tk_rlim (kn_task k t) res)) \<and>
     (\<forall>u r. (u, r) = (t, res) \<or> tk_rlim (kn_task k' u) r = tk_rlim (kn_task k u) r) \<and>
     task_getrlimit cid res k' = want)"
proof (cases want)
  case None
  then show ?thesis
    using assms(1) by (simp add: task_setrlimit_def split: if_splits)
next
  case (Some w)
  obtain soft hard where w: "w = (soft, hard)"
    by fastforce
  have cv: "cur_valid cid (upd_task t f k) = cur_valid cid k" for f
    by (simp add: cur_valid_def)
  consider (no) "rc = -1" "k' = k" | (yes) "0 \<le> res" "res < 3" "\<not> hard > 0x7FFFFFFF" "\<not> soft > hard"
      "tk_uid (kn_task k t) = ROOT_UID \<or> \<not> hard > snd (tk_rlim (kn_task k t) res)"
      "rc = 0" "k' = upd_task t (\<lambda>x. x\<lparr>tk_rlim := (tk_rlim x)(res := (soft, hard))\<rparr>) k"
  proof (cases "0 \<le> res \<and> res < 3 \<and> \<not> hard > 0x7FFFFFFF \<and> \<not> soft > hard \<and>
      (tk_uid (kn_task k t) = ROOT_UID \<or> \<not> hard > snd (tk_rlim (kn_task k t) res))")
    case True
    then have "task_setrlimit cid res want k = (0, upd_task t (\<lambda>x. x\<lparr>tk_rlim := (tk_rlim x)(res := (soft, hard))\<rparr>) k)"
      unfolding task_setrlimit_def Some w assms(2) [symmetric] Let_def by auto
    then show ?thesis
      using True assms(1) yes by simp
  next
    case False
    then have "task_setrlimit cid res want k = (-1, k)"
      unfolding task_setrlimit_def Some w assms(2) [symmetric] Let_def by auto
    then show ?thesis
      using assms(1) no by simp
  qed
  then show ?thesis
  proof cases
    case yes
    have l: "tk_rlim (kn_task k' u) r = (if u = t \<and> r = res then (soft, hard) else tk_rlim (kn_task k u) r)" for u r
      by (simp add: yes(7))
    have g: "task_getrlimit cid res k' = Some (soft, hard)"
    proof -
      have "(if cur_valid cid k' then kn_cur k' cid else 0) = t"
        unfolding yes(7) cv upd_task_simps using assms(2) by simp
      then show ?thesis
        using yes(1,2) by (simp add: task_getrlimit_def l)
    qed
    have o: "\<forall>u r. (u, r) = (t, res) \<or> tk_rlim (kn_task k' u) r = tk_rlim (kn_task k u) r"
      by (simp add: l)
    show ?thesis
      using yes(1-6) o unfolding Some w g by (simp add: l not_less)
  qed simp
qed

lemma setrlimit_bounds_witness:
  "fst (task_setrlimit 0 2 (Some (16, 128)) after_shell) = -1 \<and> fst (task_setrlimit 0 2 (Some (16, 32)) after_shell) = 0"
proof -
  have "fst (task_setrlimit 0 2 (Some (16, 128)) after_shell) = -1"
    using setrlimit_bounds [of 0 2 "Some (16, 128)" after_shell _ _ 4, OF prod.collapse [symmetric]]
    by (auto simp: after_shell_def cur_valid_def slot_consts ROOT_UID_def)
  then show ?thesis
    by (simp add: task_setrlimit_def after_shell_def cur_valid_def slot_consts)
qed

subsection \<open>Two ways the code departs from its intent\<close>

text \<open>A job-control stop that was blocked when it was sent kills the task when it is unblocked:
  sent to a task with the default action it stops it, but left pending and delivered later it
  takes the default branch of the delivery loop, which terminates.\<close>

theorem deferred_stop_kills:
  assumes "t = kn_cur k cid" and "0 < t" and "valid_tid t" and "\<not> dead k t" and "r_cs (kn_frame k a) AND 3 = 3"
    and "tk_handler (kn_task k t) SIGTSTP = 0" and "tk_blocked (kn_task k t) = 0" and "tk_sigesp (kn_task k t) = 0"
    and "k' = upd_task t (\<lambda>x. x\<lparr>tk_pending := sig_bit SIGTSTP\<rparr>) k"
  shows "tk_state (kn_task (snd (task_signal t SIGTSTP k)) t) = STOPPED \<and>
    dead (snd (task_deliver_signals cid a k')) t"
proof
  have nd: "tk_state (kn_task k t) \<noteq> FREE" "tk_state (kn_task k t) \<noteq> ZOMBIE"
    using assms(4) by (auto simp: dead_def)
  have hs: "\<not> has_sig 0 s" for s
    by (simp add: has_sig_def)
  show "tk_state (kn_task (snd (task_signal t SIGTSTP k)) t) = STOPPED"
    using assms(2,3,6,7) nd
    by (simp add: task_signal_def signal_live_def slot_consts valid_tid_def SIGTSTP_def SIGKILL_def SIGSTOP_def
        SIGCONT_def SIGCHLD_def hs same_but_rqD [OF rq_remove_same])
  have pend: "has_sig (sig_bit SIGTSTP) s = (s = SIGTSTP)" if "s \<in> set signals_up" for s
    using that unfolding signals_up_def has_sig_def sig_bit_def SIGTSTP_def
    by (auto simp: upto_rec1)
  have loop: "deliver_loop ss a t k' = (if SIGTSTP \<in> set ss
      then (let k1 = upd_task t (\<lambda>x. x\<lparr>tk_pending := tk_pending x AND NOT (sig_bit SIGTSTP)\<rparr>) k';
                k2 = terminate_task t (128 + SIGTSTP) k1 in (True, put_frame a (park_frame k2 (kn_frame k2 a)) k2))
      else (False, k'))" if "set ss \<subseteq> set signals_up" for ss
    using that
  proof (induction ss)
    case (Cons s ss)
    then show ?case
      using assms(6,7) pend [of s] pend [of SIGTSTP] by (auto simp: assms(9) hs Let_def SIGTSTP_def SIGCHLD_def)
  qed simp
  have st: "SIGTSTP \<in> set signals_up"
    by (simp add: signals_up_def SIGTSTP_def)
  have "task_deliver_signals cid a k' = deliver_loop signals_up a t k'"
    using assms(1-5,8) nd by (simp add: task_deliver_signals_def Let_def assms(9) valid_tid_def slot_consts sig_bit_def SIGTSTP_def)
  then show "dead (snd (task_deliver_signals cid a k')) t"
    using terminate_dead [OF assms(2,3)] by (simp add: loop st Let_def dead_def same_schedD [OF put_frame_same])
qed

lemma deferred_stop_kills_witness:
  "dead (snd (task_deliver_signals 0 0x400000 (upd_task 4 (\<lambda>x. x\<lparr>tk_pending := sig_bit SIGTSTP\<rparr>) family))) 4"
proof -
  have "4 = kn_cur family 0" "(0::int) < 4" "valid_tid 4" "\<not> dead family 4" "r_cs (kn_frame family 0x400000) AND 3 = 3"
    "tk_handler (kn_task family 4) SIGTSTP = 0" "tk_blocked (kn_task family 4) = 0" "tk_sigesp (kn_task family 4) = 0"
    by (simp_all add: family_def task0_def valid_tid_def dead_def cold_def regs0_def)
  from deferred_stop_kills [OF this refl] show ?thesis
    by blast
qed

text \<open>Blocking revives the dead: \<open>task_set_state\<close> refuses to make a zombie READY, but lets its
  owner mark it BLOCKED (a task killed on another core while it is about to park in a wait), and
  the next wake-up then makes it READY, queued or still the running task of its core, although
  its address space, descriptors and children are gone.\<close>

theorem blocking_revives_zombie:
  assumes ok: "sched_ok k" and t: "valid_tid t" "tk_state (kn_task k t) = ZOMBIE"
    and k1: "k1 = task_set_state t BLOCKED k" and k2: "k2 = task_set_state t READY k1"
  shows "task_set_state t READY k = k \<and> tk_state (kn_task k1 t) = BLOCKED \<and>
    tk_state (kn_task k2 t) = READY \<and> ((\<exists>c. t \<in> set (kn_rq k2 c)) \<or> current k2 t)"
proof -
  have np: "\<not> pinned k t"
    by (rule free_not_pinned [OF ok t(1)]) (simp add: dead_def t(2))
  have idle: "\<not> tk_idle (kn_task k t)"
    using np by (simp add: pinned_def)
  have b: "\<not> (t < 0 \<or> t \<ge> MAX_TASKS)"
    using t(1) by (simp add: valid_tid_def slot_consts)
  have 0: "task_set_state t READY k = k"
    using b idle t(2) by (simp add: task_set_state_def Let_def)
  have e1: "k1 = rq_remove t (set_state t BLOCKED k)"
    using b idle t(2) by (simp add: k1 task_set_state_def Let_def)
  have s1: "tk_state (kn_task k1 t) = BLOCKED" and i1: "\<not> tk_idle (kn_task k1 t)"
    using idle by (simp_all add: e1 same_but_rqD [OF rq_remove_same])
  have ok1: "sched_ok k1" and np1: "\<not> pinned k1 t"
    using task_set_state_x [OF ok np] np i1 by (simp_all add: k1 pinned_def)
  have ok2: "sched_ok k2"
    unfolding k2 by (rule task_set_state_x [OF ok1 np1]) simp
  have s2: "tk_state (kn_task k2 t) = READY"
    using b i1 s1 by (simp add: k2 task_set_state_def Let_def same_but_rqD [OF rq_enqueue_wake_same])
  have "0 \<le> tk_rq (kn_task k2 t) \<or> current k2 t"
    using sched_xD(5) [OF ok2] t(1) s2 unfolding run_ok_def by blast
  then show ?thesis
    using 0 s1 s2 rq_okD(4) [OF sched_xD(1) [OF ok2] t(1)] by blast
qed

lemma blocking_revives_zombie_witness:
  "tk_state (kn_task (task_set_state 5 READY (task_set_state 5 BLOCKED (terminate_task 5 0 family))) 5) = READY"
proof -
  have v: "valid_tid 5" "\<not> pinned family 5" "\<not> dead family 5" "4 = tk_parent (kn_task family 5)" "valid_tid 4" "(0::int) < 4"
    "(4::int) \<noteq> 5" "\<not> dead family 4"
    by (simp_all add: family_def task0_def valid_tid_def dead_def pinned_def)
  have z: "tk_state (kn_task (terminate_task 5 0 family) 5) = ZOMBIE"
  proof -
    define k0 where "k0 = term_prefix 5 family"
    have "\<not> dead k0 4"
      using term_prefix_x(6) [OF family_ok v(1,3)] v(8) by (simp add: k0_def)
    moreover have "tk_parent (kn_task k0 5) = 4"
      using term_prefix_parent(1) [OF family_ok v(1)] v(4) by (simp add: k0_def)
    moreover have "kn_task (rq_enqueue_wake 4 k') 5 = kn_task k' 5" for k'
      by (simp add: rq_enqueue_wake_def rq_enqueue_def Let_def)
    ultimately show ?thesis
      using v(3) by (simp add: terminate_task_cases Let_def k0_def [symmetric] slot_consts dead_def term_parent_def)
  qed
  show ?thesis
    using blocking_revives_zombie [OF terminate_task_x(1) [OF family_ok v(2)] v(1) z refl refl] by blast
qed

end
