(* ===== verification/Sync.thy ===== *)
theory Sync
  imports Sched_Reach
begin

text \<open>
  Semaphores and futexes (\<open>src/sys/sync.c\<close>) on top of the task table. A queue of waiters is
  a list in arrival order; a futex waiter carries its own deadline (0 for none). Every
  operation runs under \<open>sync_lock\<close> with interrupts off and is one step on the pair of the
  sync tables and the kernel; a wait that parks ends its step there (\<open>Parked\<close>), and the
  spin until the task is no longer BLOCKED then makes the call return 0.
\<close>

definition MAX_SEMS :: int where
  "MAX_SEMS = 32"

definition MAX_FUTEX :: int where
  "MAX_FUTEX = 64"

definition MAX_WAITERS :: nat where
  "MAX_WAITERS = 32"

definition FUTEX_SWEEP_DIV_BASE :: int where
  "FUTEX_SWEEP_DIV_BASE = 1"

record sem =
  sm_use :: bool
  sm_count :: int
  sm_wait :: "int list"

record futex =
  fx_use :: bool
  fx_pd :: u32
  fx_addr :: u32
  fx_wait :: "(int \<times> u32) list"

record sync =
  sy_sem :: "int \<Rightarrow> sem"
  sy_fx :: "int \<Rightarrow> futex"
  sy_div :: int
  sy_tick :: int

definition sem_slots :: "int list" where
  "sem_slots = [0..31]"

definition fx_slots :: "int list" where
  "fx_slots = [0..63]"

definition upd_sem :: "int \<Rightarrow> (sem \<Rightarrow> sem) \<Rightarrow> sync \<Rightarrow> sync" where
  "upd_sem i f y = y\<lparr>sy_sem := (sy_sem y)(i := f (sy_sem y i))\<rparr>"

definition upd_fx :: "int \<Rightarrow> (futex \<Rightarrow> futex) \<Rightarrow> sync \<Rightarrow> sync" where
  "upd_fx i f y = y\<lparr>sy_fx := (sy_fx y)(i := f (sy_fx y i))\<rparr>"

text \<open>The static tables start zeroed.\<close>

definition sync_bss :: sync where
  "sync_bss = \<lparr>sy_sem = (\<lambda>_. \<lparr>sm_use = False, sm_count = 0, sm_wait = []\<rparr>),
     sy_fx = (\<lambda>_. \<lparr>fx_use = False, fx_pd = 0, fx_addr = 0, fx_wait = []\<rparr>), sy_div = FUTEX_SWEEP_DIV_BASE, sy_tick = 0\<rparr>"

definition sync_init :: "sync \<Rightarrow> sync" where
  "sync_init y =
     (let y1 = fold (\<lambda>i. upd_sem i (\<lambda>s. s\<lparr>sm_use := False, sm_count := 0, sm_wait := []\<rparr>)) sem_slots y
      in fold (\<lambda>i. upd_fx i (\<lambda>f. f\<lparr>fx_use := False, fx_wait := []\<rparr>)) fx_slots y1)"

section \<open>Waking a queue\<close>

text \<open>Idle tasks, task 0 and the dead are dropped without a wake.\<close>

definition wakeable :: "kern \<Rightarrow> int \<Rightarrow> bool" where
  "wakeable k t \<longleftrightarrow> t > 0 \<and> \<not> task_is_idle t k \<and> task_is_alive t k"

fun wake_one :: "int list \<Rightarrow> kern \<Rightarrow> bool \<times> int list \<times> kern" where
  "wake_one [] k = (False, [], k)"
| "wake_one (t # ts) k =
     (if \<not> wakeable k t then wake_one ts k else (True, ts, task_set_state t READY k))"

fun wake_one_f :: "(int \<times> u32) list \<Rightarrow> kern \<Rightarrow> bool \<times> (int \<times> u32) list \<times> kern" where
  "wake_one_f [] k = (False, [], k)"
| "wake_one_f ((t, d) # ts) k =
     (if \<not> wakeable k t then wake_one_f ts k else (True, ts, task_set_state t READY k))"

section \<open>Cleanup of dead waiters\<close>

definition purge_sem :: "int \<Rightarrow> int \<Rightarrow> sync \<Rightarrow> sync" where
  "purge_sem t i y =
     (if \<not> sm_use (sy_sem y i) \<or> sm_wait (sy_sem y i) = [] then y
      else upd_sem i (\<lambda>s. s\<lparr>sm_wait := filter (\<lambda>u. u \<noteq> t) (sm_wait s)\<rparr>) y)"

definition purge_fx :: "int \<Rightarrow> int \<Rightarrow> sync \<Rightarrow> sync" where
  "purge_fx t i y =
     (if \<not> fx_use (sy_fx y i) \<or> fx_wait (sy_fx y i) = [] then y
      else upd_fx i (\<lambda>f. f\<lparr>fx_wait := filter (\<lambda>w. fst w \<noteq> t) (fx_wait f)\<rparr>) y)"

definition sync_task_cleanup :: "int \<Rightarrow> kern \<Rightarrow> sync \<Rightarrow> sync" where
  "sync_task_cleanup t k y =
     (if t \<le> 0 \<or> t > 63 then y
      else if \<not> task_is_alive t k
      then fold (purge_fx t) fx_slots (fold (purge_sem t) sem_slots y)
      else y)"

text \<open>The drain walks the set bits of the two words from the lowest up.\<close>

definition pending_tids :: "u32 \<Rightarrow> u32 \<Rightarrow> int list" where
  "pending_tids lo hi =
     filter (\<lambda>t. bit lo (nat t)) [0..31] @ map (\<lambda>t. 32 + t) (filter (\<lambda>t. bit hi (nat t)) [0..31])"

definition sync_drain_pending :: "sync \<Rightarrow> kern \<Rightarrow> sync \<times> kern" where
  "sync_drain_pending y k =
     (let k1 = k\<lparr>kn_clean_lo := 0, kn_clean_hi := 0\<rparr>
      in (fold (\<lambda>t. sync_task_cleanup t k1) (pending_tids (kn_clean_lo k) (kn_clean_hi k)) y, k1))"

section \<open>Semaphores\<close>

datatype wait_out = Ret int | Parked

definition sem_create :: "int \<Rightarrow> sync \<Rightarrow> int \<times> sync" where
  "sem_create initial y =
     (case first_slot (\<lambda>i. \<not> sm_use (sy_sem y i)) sem_slots of
        None \<Rightarrow> (-1, y)
      | Some i \<Rightarrow> (i, upd_sem i (\<lambda>s. s\<lparr>sm_use := True, sm_count := (if initial < 0 then 0 else initial), sm_wait := []\<rparr>) y))"

definition sem_wait :: "int \<Rightarrow> int \<Rightarrow> sync \<Rightarrow> kern \<Rightarrow> wait_out \<times> sync \<times> kern" where
  "sem_wait cid i y k =
     (if i < 0 \<or> i \<ge> MAX_SEMS then (Ret (-1), y, k)
      else
        (let t = kn_cur k cid; s = sy_sem y i
         in if \<not> sm_use s then (Ret (-1), y, k)
            else if sm_count s > 0 then (Ret 0, upd_sem i (\<lambda>s. s\<lparr>sm_count := sm_count s - 1\<rparr>) y, k)
            else if length (sm_wait s) \<ge> MAX_WAITERS then (Ret (-2), y, k)
            else (Parked, upd_sem i (\<lambda>s. s\<lparr>sm_wait := sm_wait s @ [t]\<rparr>) y, task_set_state t BLOCKED k)))"

definition sem_post :: "int \<Rightarrow> sync \<Rightarrow> kern \<Rightarrow> int \<times> sync \<times> kern" where
  "sem_post i y k =
     (if i < 0 \<or> i \<ge> MAX_SEMS then (-1, y, k)
      else if \<not> sm_use (sy_sem y i) then (-1, y, k)
      else
        (let (woke, ws, k1) = wake_one (sm_wait (sy_sem y i)) k;
             y1 = upd_sem i (\<lambda>s. s\<lparr>sm_wait := ws\<rparr>) y
         in (0, if woke then y1
                else if sm_count (sy_sem y1 i) < 0x7FFFFFFF
                then upd_sem i (\<lambda>s. s\<lparr>sm_count := sm_count s + 1\<rparr>) y1 else y1, k1)))"

fun wake_all :: "int list \<Rightarrow> kern \<Rightarrow> kern" where
  "wake_all [] k = k"
| "wake_all (t # ts) k = wake_all ts (if wakeable k t then task_set_state t READY k else k)"

definition sem_destroy :: "int \<Rightarrow> sync \<Rightarrow> kern \<Rightarrow> int \<times> sync \<times> kern" where
  "sem_destroy i y k =
     (if i < 0 \<or> i \<ge> MAX_SEMS then (-1, y, k)
      else if \<not> sm_use (sy_sem y i) then (-1, y, k)
      else (0, upd_sem i (\<lambda>s. s\<lparr>sm_use := False, sm_wait := []\<rparr>) y, wake_all (sm_wait (sy_sem y i)) k))"

section \<open>Futexes\<close>

definition futex_find :: "u32 \<Rightarrow> u32 \<Rightarrow> sync \<Rightarrow> int option" where
  "futex_find pd a y = first_slot (\<lambda>i. fx_use (sy_fx y i) \<and> fx_pd (sy_fx y i) = pd \<and> fx_addr (sy_fx y i) = a) fx_slots"

definition futex_alloc :: "u32 \<Rightarrow> u32 \<Rightarrow> sync \<Rightarrow> int option \<times> sync" where
  "futex_alloc pd a y =
     (case futex_find pd a y of
        Some i \<Rightarrow> (Some i, y)
      | None \<Rightarrow>
          (case first_slot (\<lambda>i. \<not> fx_use (sy_fx y i)) fx_slots of
             None \<Rightarrow> (None, y)
           | Some i \<Rightarrow> (Some i, upd_fx i (\<lambda>f. f\<lparr>fx_use := True, fx_pd := pd, fx_addr := a, fx_wait := []\<rparr>) y)))"

definition futex_enqueue :: "int \<Rightarrow> int \<Rightarrow> u32 \<Rightarrow> sync \<Rightarrow> sync" where
  "futex_enqueue i t d y = upd_fx i (\<lambda>f. f\<lparr>fx_wait := fx_wait f @ [(t, d)]\<rparr>) y"

text \<open>The common body of the two waits; the word is read again under the lock, which the
  model's single step makes the same read.\<close>

definition futex_park :: "int \<Rightarrow> u32 \<Rightarrow> u32 \<Rightarrow> u32 \<Rightarrow> sync \<Rightarrow> kern \<Rightarrow> wait_out \<times> sync \<times> kern" where
  "futex_park cid a expected d y k =
     (let t = kn_cur k cid; pd = task_get_page_dir t k
      in if \<not> kn_uok k pd a 4 then (Ret (-2), y, k)
         else if kn_uword k pd a \<noteq> expected then (Ret (-1), y, k)
         else
           (case futex_alloc pd a y of
              (None, y1) \<Rightarrow> (Ret (-2), y1, k)
            | (Some i, y1) \<Rightarrow>
                if length (fx_wait (sy_fx y1 i)) \<ge> MAX_WAITERS then (Ret (-2), y1, k)
                else (Parked, futex_enqueue i t d y1, task_set_state t BLOCKED k)))"

definition futex_wait :: "int \<Rightarrow> u32 \<Rightarrow> u32 \<Rightarrow> sync \<Rightarrow> kern \<Rightarrow> wait_out \<times> sync \<times> kern" where
  "futex_wait cid a expected y k = futex_park cid a expected 0 y k"

definition futex_wait_timeout :: "int \<Rightarrow> u32 \<Rightarrow> u32 \<Rightarrow> u32 \<Rightarrow> sync \<Rightarrow> kern \<Rightarrow> wait_out \<times> sync \<times> kern" where
  "futex_wait_timeout cid a expected ms y k =
     futex_park cid a expected (kn_ms k + (if ms = 0 then 1 else ms)) y k"

text \<open>The loop of \<open>futex_wake\<close>: up to \<open>n\<close> wakes.\<close>

fun wake_up_to :: "nat \<Rightarrow> (int \<times> u32) list \<Rightarrow> kern \<Rightarrow> int \<times> (int \<times> u32) list \<times> kern" where
  "wake_up_to 0 ws k = (0, ws, k)"
| "wake_up_to (Suc n) ws k =
     (case wake_one_f ws k of
        (False, ws1, k1) \<Rightarrow> (0, ws1, k1)
      | (True, ws1, k1) \<Rightarrow> (case wake_up_to n ws1 k1 of (w, ws2, k2) \<Rightarrow> (w + 1, ws2, k2)))"

definition futex_wake :: "int \<Rightarrow> u32 \<Rightarrow> int \<Rightarrow> sync \<Rightarrow> kern \<Rightarrow> int \<times> sync \<times> kern" where
  "futex_wake cid a n y k =
     (if n \<le> 0 then (0, y, k)
      else
        (case futex_find (task_get_page_dir (kn_cur k cid) k) a y of
           None \<Rightarrow> (0, y, k)
         | Some i \<Rightarrow>
             (case wake_up_to (nat n) (fx_wait (sy_fx y i)) k of
                (w, ws, k1) \<Rightarrow> (w, upd_fx i (\<lambda>f. f\<lparr>fx_wait := ws, fx_use := (fx_use f \<and> ws \<noteq> [])\<rparr>) y, k1))))"

text \<open>Moving waiters one at a time. When both words are the same futex, the entry taken from
  the front goes to the back and the loop condition never changes, so the loop is a partial
  function.\<close>

partial_function (option) move_waiters :: "int \<Rightarrow> int \<Rightarrow> int \<Rightarrow> sync \<Rightarrow> (int \<times> sync) option" where
  "move_waiters src dst n y =
     (if fx_wait (sy_fx y src) \<noteq> [] \<and> length (fx_wait (sy_fx y dst)) < MAX_WAITERS
      then
        (let w = hd (fx_wait (sy_fx y src));
             y1 = upd_fx dst (\<lambda>f. f\<lparr>fx_wait := fx_wait f @ [w]\<rparr>) y;
             y2 = upd_fx src (\<lambda>f. f\<lparr>fx_wait := tl (fx_wait f)\<rparr>) y1
         in move_waiters src dst (n + 1) y2)
      else Some (n, y))"

definition futex_requeue :: "int \<Rightarrow> u32 \<Rightarrow> u32 \<Rightarrow> u32 \<Rightarrow> int \<Rightarrow> sync \<Rightarrow> kern \<Rightarrow> (int \<times> sync \<times> kern) option" where
  "futex_requeue cid a expected m max_wake0 y k =
     (let max_wake = (if max_wake0 < 0 then 0 else max_wake0);
          pd = task_get_page_dir (kn_cur k cid) k
      in if \<not> kn_uok k pd a 4 \<or> \<not> kn_uok k pd m 4 then Some (-2, y, k)
         else if kn_uword k pd a \<noteq> expected then Some (-1, y, k)
         else
           (case futex_find pd a y of
              None \<Rightarrow> Some (0, y, k)
            | Some src \<Rightarrow>
                (case (if m = a then (Some src, y) else futex_alloc pd m y) of
                   (None, y1) \<Rightarrow> Some (-2, y1, k)
                 | (Some dst, y1) \<Rightarrow>
                     (case wake_up_to (nat max_wake) (fx_wait (sy_fx y1 src)) k of
                        (w, ws, k1) \<Rightarrow>
                          (case move_waiters src dst 0 (upd_fx src (\<lambda>f. f\<lparr>fx_wait := ws\<rparr>) y1) of
                             None \<Rightarrow> None
                           | Some (mv, y2) \<Rightarrow>
                               Some (w + mv,
                                 if fx_wait (sy_fx y2 src) = [] \<and> src \<noteq> dst
                                 then upd_fx src (\<lambda>f. f\<lparr>fx_use := False\<rparr>) y2 else y2, k1))))))"

section \<open>The deadline sweep\<close>

definition expired :: "u32 \<Rightarrow> u32 \<Rightarrow> bool" where
  "expired now d \<longleftrightarrow> d \<noteq> 0 \<and> 0 \<le> sint (now - d)"

fun sweep_waiters :: "u32 \<Rightarrow> (int \<times> u32) list \<Rightarrow> kern \<Rightarrow> (int \<times> u32) list \<times> kern" where
  "sweep_waiters now [] k = ([], k)"
| "sweep_waiters now ((t, d) # ws) k =
     (if expired now d
      then sweep_waiters now ws (if wakeable k t then task_set_state t READY k else k)
      else (case sweep_waiters now ws k of (ws1, k1) \<Rightarrow> ((t, d) # ws1, k1)))"

definition sweep_fx :: "int \<Rightarrow> sync \<times> kern \<Rightarrow> sync \<times> kern" where
  "sweep_fx i yk =
     (case yk of (y, k) \<Rightarrow>
        if \<not> fx_use (sy_fx y i) then (y, k)
        else (case sweep_waiters (kn_ms k) (fx_wait (sy_fx y i)) k of
                (ws, k1) \<Rightarrow> (upd_fx i (\<lambda>f. f\<lparr>fx_wait := ws, fx_use := (ws \<noteq> [])\<rparr>) y, k1)))"

definition futex_sweep_div_set :: "int \<Rightarrow> sync \<Rightarrow> sync" where
  "futex_sweep_div_set v y = (if v \<ge> 1 \<and> v \<le> 50 then y\<lparr>sy_div := v\<rparr> else y)"

text \<open>\<open>busy\<close>: another core holds \<open>sync_lock\<close>, and the round is skipped.\<close>

definition futex_sweep :: "bool \<Rightarrow> sync \<Rightarrow> kern \<Rightarrow> sync \<times> kern" where
  "futex_sweep busy y0 k =
     (let y1 = (if sy_div y0 < 1 then y0\<lparr>sy_div := 1\<rparr> else y0);
          y2 = y1\<lparr>sy_tick := sy_tick y1 + 1\<rparr>
      in if sy_tick y2 < sy_div y2 then (y2, k)
         else (let y3 = y2\<lparr>sy_tick := 0\<rparr>
               in if busy then (y3, k) else fold sweep_fx fx_slots (y3, k)))"

end
