(* ===== verification/Sync_Props.thy ===== *)
theory Sync_Props
  imports Sync Task_Claims
begin

text \<open>
  Properties of semaphores and futexes: the table invariant over every interleaving with the
  scheduler, who gets a token, what a requeue moves, and the defects of the module.
\<close>

subsection \<open>The invariant\<close>

definition sem_ok :: "sem \<Rightarrow> bool" where
  "sem_ok s \<longleftrightarrow> (sm_use s \<longrightarrow> 0 \<le> sm_count s \<and> length (sm_wait s) \<le> MAX_WAITERS \<and> (sm_count s > 0 \<longrightarrow> sm_wait s = []))"

definition fx_ok :: "futex \<Rightarrow> bool" where
  "fx_ok f \<longleftrightarrow> length (fx_wait f) \<le> MAX_WAITERS"

definition valid_fx :: "int \<Rightarrow> bool" where
  "valid_fx i \<longleftrightarrow> 0 \<le> i \<and> i < 64"

definition keys_ok :: "sync \<Rightarrow> bool" where
  "keys_ok y \<longleftrightarrow> (\<forall>i j. valid_fx i \<longrightarrow> valid_fx j \<longrightarrow> fx_use (sy_fx y i) \<longrightarrow> fx_use (sy_fx y j) \<longrightarrow>
     fx_pd (sy_fx y i) = fx_pd (sy_fx y j) \<longrightarrow> fx_addr (sy_fx y i) = fx_addr (sy_fx y j) \<longrightarrow> i = j)"

definition sync_ok :: "sync \<Rightarrow> bool" where
  "sync_ok y \<longleftrightarrow> (\<forall>i. sem_ok (sy_sem y i)) \<and> (\<forall>i. fx_ok (sy_fx y i)) \<and> keys_ok y"

lemma sync_okD:
  assumes "sync_ok y"
  shows "sem_ok (sy_sem y i)" "fx_ok (sy_fx y i)" "keys_ok y"
  using assms by (simp_all add: sync_ok_def)

lemma upd_simps [simp]:
  "sy_sem (upd_sem i f y) = (sy_sem y)(i := f (sy_sem y i))" "sy_fx (upd_sem i f y) = sy_fx y"
  "sy_fx (upd_fx i g y) = (sy_fx y)(i := g (sy_fx y i))" "sy_sem (upd_fx i g y) = sy_sem y"
  "sy_div (upd_fx i g y) = sy_div y" "sy_tick (upd_fx i g y) = sy_tick y"
  by (simp_all add: upd_sem_def upd_fx_def)

lemma upd_sem_ok:
  assumes "sync_ok y" and "sem_ok (f (sy_sem y i))"
  shows "sync_ok (upd_sem i f y)"
  using assms by (auto simp: sync_ok_def keys_ok_def)

text \<open>A futex keeps its key, or gives it up.\<close>

lemma upd_fx_ok:
  assumes "sync_ok y" and "fx_ok (f (sy_fx y i))"
    and "fx_use (f (sy_fx y i)) \<Longrightarrow> fx_use (sy_fx y i) \<and> fx_pd (f (sy_fx y i)) = fx_pd (sy_fx y i) \<and>
      fx_addr (f (sy_fx y i)) = fx_addr (sy_fx y i)"
  shows "sync_ok (upd_fx i f y)"
  using assms unfolding sync_ok_def keys_ok_def by auto

lemma wake_one_le: "wake_one ws k = (b, ws', k') \<Longrightarrow> length ws' \<le> length ws \<and> (\<not> b \<longrightarrow> ws' = [])"
  by (induction ws k rule: wake_one.induct) (auto split: if_splits)

lemma wake_one_f_le: "wake_one_f ws k = (b, ws', k') \<Longrightarrow> length ws' \<le> length ws"
  by (induction ws k rule: wake_one_f.induct) (auto split: if_splits)

lemma wake_up_to_le: "wake_up_to n ws k = (w, ws', k') \<Longrightarrow> length ws' \<le> length ws"
proof (induction n ws k arbitrary: w ws' k' rule: wake_up_to.induct)
  case (2 n ws k)
  then show ?case
    using wake_one_f_le [of ws k] by (fastforce split: prod.splits bool.splits)
qed simp

lemma sweep_waiters_le: "sweep_waiters now ws k = (ws', k') \<Longrightarrow> length ws' \<le> length ws"
  by (induction now ws k arbitrary: ws' k' rule: sweep_waiters.induct) (fastforce split: if_splits prod.splits)+

lemma purge_ok: "sync_ok y \<Longrightarrow> sync_ok (purge_sem t i y)" "sync_ok y \<Longrightarrow> sync_ok (purge_fx t i y)"
proof -
  have "length (filter P xs) \<le> n" if "length xs \<le> n" for P :: "'a \<Rightarrow> bool" and xs n
    using that length_filter_le order_trans by blast
  note L = this
  show "sync_ok y \<Longrightarrow> sync_ok (purge_sem t i y)"
    using sync_okD(1) [of y i] by (auto simp: purge_sem_def sem_ok_def intro!: upd_sem_ok L)
  show "sync_ok y \<Longrightarrow> sync_ok (purge_fx t i y)"
    using sync_okD(2) [of y i] order_trans [OF length_filter_le]
    by (auto simp: purge_fx_def fx_ok_def intro!: upd_fx_ok)
qed

lemma fold_ok:
  assumes "\<And>i y. P y \<Longrightarrow> P (f i y)" and "P y"
  shows "P (fold f is y)"
  using assms(2) by (induction "is" arbitrary: y) (auto intro: assms(1))

lemma cleanup_ok: "sync_ok y \<Longrightarrow> sync_ok (sync_task_cleanup t k y)"
  unfolding sync_task_cleanup_def by (auto intro!: fold_ok [where P = sync_ok] purge_ok)

lemma drain_ok: "sync_ok y \<Longrightarrow> sync_ok (fst (sync_drain_pending y k))"
  by (auto simp: sync_drain_pending_def Let_def intro!: fold_ok [where P = sync_ok] cleanup_ok)

lemma sem_create_ok: "sync_ok y \<Longrightarrow> sync_ok (snd (sem_create n y))"
  by (auto simp: sem_create_def sem_ok_def split: option.split intro!: upd_sem_ok)

lemma sem_wait_ok: "sync_ok y \<Longrightarrow> sync_ok (fst (snd (sem_wait cid i y k)))"
  using sync_okD(1) [of y i] by (auto simp: sem_wait_def Let_def sem_ok_def intro!: upd_sem_ok)

lemma sem_post_ok:
  assumes "sync_ok y"
  shows "sync_ok (fst (snd (sem_post i y k)))"
proof -
  obtain b ws k1 where w: "wake_one (sm_wait (sy_sem y i)) k = (b, ws, k1)"
    by (metis prod_cases3)
  note L = wake_one_le [OF w]
  have s: "sem_ok (sy_sem y i)"
    by (rule sync_okD(1) [OF assms])
  have 1: "sync_ok (upd_sem i (\<lambda>s. s\<lparr>sm_wait := ws\<rparr>) y)"
    using s L by (intro upd_sem_ok [OF assms]) (auto simp: sem_ok_def)
  have 2: "sync_ok (upd_sem i (\<lambda>s. s\<lparr>sm_count := sm_count s + 1\<rparr>) (upd_sem i (\<lambda>s. s\<lparr>sm_wait := ws\<rparr>) y))" if "\<not> b"
    using s L that by (intro upd_sem_ok [OF 1]) (simp add: sem_ok_def)
  show ?thesis
    using assms 1 2 by (simp add: sem_post_def w Let_def)
qed

lemma sem_destroy_ok: "sync_ok y \<Longrightarrow> sync_ok (fst (snd (sem_destroy i y k)))"
  by (auto simp: sem_destroy_def sem_ok_def intro!: upd_sem_ok)

lemma futex_find_some:
  assumes "futex_find pd a y = Some i"
  shows "valid_fx i" "fx_use (sy_fx y i)" "fx_pd (sy_fx y i) = pd" "fx_addr (sy_fx y i) = a"
  using first_slotD [OF assms [unfolded futex_find_def]] by (auto simp: fx_slots_def valid_fx_def)

lemma futex_find_none:
  assumes "futex_find pd a y = None" and "valid_fx i" and "fx_use (sy_fx y i)"
  shows "\<not> (fx_pd (sy_fx y i) = pd \<and> fx_addr (sy_fx y i) = a)"
  using assms by (auto simp: futex_find_def first_slot_def find_None_iff fx_slots_def valid_fx_def)

lemma futex_alloc_ok:
  assumes ok: "sync_ok y" and r: "futex_alloc pd a y = (r, y1)"
  shows "sync_ok y1" and "r = Some i \<Longrightarrow> valid_fx i \<and> fx_use (sy_fx y1 i) \<and> fx_pd (sy_fx y1 i) = pd \<and> fx_addr (sy_fx y1 i) = a"
    and "j \<noteq> i \<Longrightarrow> r = Some i \<Longrightarrow> sy_fx y1 j = sy_fx y j"
    and "r = Some i \<Longrightarrow> fx_use (sy_fx y i) \<and> y1 = y \<or> \<not> fx_use (sy_fx y i) \<and> fx_wait (sy_fx y1 i) = []"
proof -
  have "sync_ok y1 \<and> (\<forall>i. r = Some i \<longrightarrow> valid_fx i \<and> fx_use (sy_fx y1 i) \<and> fx_pd (sy_fx y1 i) = pd \<and> fx_addr (sy_fx y1 i) = a \<and>
      (\<forall>j. j \<noteq> i \<longrightarrow> sy_fx y1 j = sy_fx y j) \<and> (fx_use (sy_fx y i) \<and> y1 = y \<or> \<not> fx_use (sy_fx y i) \<and> fx_wait (sy_fx y1 i) = []))"
  proof (cases "futex_find pd a y")
    case (Some i)
    then show ?thesis
      using r ok futex_find_some [OF Some] by (auto simp: futex_alloc_def)
  next
    case none: None
    show ?thesis
    proof (cases "first_slot (\<lambda>i. \<not> fx_use (sy_fx y i)) fx_slots")
      case None
      then show ?thesis
        using r ok none by (simp add: futex_alloc_def)
    next
      case (Some i)
      have i: "valid_fx i" "\<not> fx_use (sy_fx y i)"
        using first_slotD [OF Some] by (auto simp: fx_slots_def valid_fx_def)
      have e: "r = Some i" "y1 = upd_fx i (\<lambda>f. f\<lparr>fx_use := True, fx_pd := pd, fx_addr := a, fx_wait := []\<rparr>) y"
        using r none Some by (auto simp: futex_alloc_def)
      have "keys_ok y1"
        using sync_okD(3) [OF ok] futex_find_none [OF none] unfolding keys_ok_def e(2) by auto
      then have "sync_ok y1"
        using ok by (simp add: sync_ok_def e(2) fx_ok_def)
      then show ?thesis
        using i e by auto
    qed
  qed
  then show "sync_ok y1" and "r = Some i \<Longrightarrow> valid_fx i \<and> fx_use (sy_fx y1 i) \<and> fx_pd (sy_fx y1 i) = pd \<and> fx_addr (sy_fx y1 i) = a"
    and "j \<noteq> i \<Longrightarrow> r = Some i \<Longrightarrow> sy_fx y1 j = sy_fx y j"
    and "r = Some i \<Longrightarrow> fx_use (sy_fx y i) \<and> y1 = y \<or> \<not> fx_use (sy_fx y i) \<and> fx_wait (sy_fx y1 i) = []"
    by blast+
qed

lemma futex_park_ok:
  assumes "sync_ok y"
  shows "sync_ok (fst (snd (futex_park cid a e d y k)))"
proof -
  obtain r y1 where al: "futex_alloc (task_get_page_dir (kn_cur k cid) k) a y = (r, y1)"
    by fastforce
  note A = futex_alloc_ok [OF assms al]
  have "sync_ok (futex_enqueue i t d y1)" if "r = Some i" "length (fx_wait (sy_fx y1 i)) < MAX_WAITERS" for i t
    unfolding futex_enqueue_def using A(1,2) that by (intro upd_fx_ok) (auto simp: fx_ok_def)
  then show ?thesis
    using assms A(1) by (auto simp: futex_park_def Let_def al split: option.split)
qed

lemma futex_wake_ok:
  assumes "sync_ok y"
  shows "sync_ok (fst (snd (futex_wake cid a n y k)))"
proof -
  have "sync_ok (upd_fx i (\<lambda>f. f\<lparr>fx_wait := ws, fx_use := (fx_use f \<and> ws \<noteq> [])\<rparr>) y)"
    if "wake_up_to m (fx_wait (sy_fx y i)) k = (w, ws, k1)" for i w ws k1 m
    using wake_up_to_le [OF that] sync_okD(2) [OF assms, of i] by (intro upd_fx_ok [OF assms]) (auto simp: fx_ok_def)
  then show ?thesis
    using assms by (auto simp: futex_wake_def split: option.split prod.split)
qed

subsection \<open>Moving waiters\<close>

text \<open>Between two different queues the loop ends, and moves as many waiters as fit, in order,
  each with its deadline.\<close>

lemma move_waiters_spec:
  assumes "src \<noteq> dst" and "length (fx_wait (sy_fx y dst)) \<le> MAX_WAITERS"
    and "m = min (length (fx_wait (sy_fx y src))) (MAX_WAITERS - length (fx_wait (sy_fx y dst)))"
  shows "\<exists>y'. move_waiters src dst n y = Some (n + int m, y') \<and>
    y' = upd_fx src (\<lambda>f. f\<lparr>fx_wait := drop m (fx_wait (sy_fx y src))\<rparr>)
          (upd_fx dst (\<lambda>f. f\<lparr>fx_wait := fx_wait f @ take m (fx_wait (sy_fx y src))\<rparr>) y)"
  using assms(2,3)
proof (induction m arbitrary: n y)
  case 0
  have nc: "\<not> (fx_wait (sy_fx y src) \<noteq> [] \<and> length (fx_wait (sy_fx y dst)) < MAX_WAITERS)"
    using 0 by (auto simp: min_def split: if_splits)
  have "move_waiters src dst n y = Some (n, y)"
    unfolding move_waiters.simps [of src dst n y] if_not_P [OF nc] ..
  moreover have "upd_fx src (\<lambda>f. f\<lparr>fx_wait := fx_wait (sy_fx y src)\<rparr>) (upd_fx dst (\<lambda>f. f) y) = y"
    using assms(1) by (simp add: upd_fx_def)
  ultimately show ?case
    using assms(1) by (simp add: upd_fx_def)
next
  case (Suc m)
  define w where "w = hd (fx_wait (sy_fx y src))"
  define y2 where "y2 = upd_fx src (\<lambda>f. f\<lparr>fx_wait := tl (fx_wait f)\<rparr>) (upd_fx dst (\<lambda>f. f\<lparr>fx_wait := fx_wait f @ [w]\<rparr>) y)"
  have ne: "fx_wait (sy_fx y src) \<noteq> []" "length (fx_wait (sy_fx y dst)) < MAX_WAITERS"
    using Suc.prems by auto
  then have st: "fx_wait (sy_fx y src) = w # tl (fx_wait (sy_fx y src))"
    by (simp add: w_def)
  have s2: "fx_wait (sy_fx y2 src) = tl (fx_wait (sy_fx y src))" "fx_wait (sy_fx y2 dst) = fx_wait (sy_fx y dst) @ [w]"
    using assms(1) by (simp_all add: y2_def)
  have e: "move_waiters src dst n y = move_waiters src dst (n + 1) y2"
    using ne by (subst move_waiters.simps) (simp add: Let_def w_def y2_def)
  have "length (fx_wait (sy_fx y2 dst)) \<le> MAX_WAITERS"
    "m = min (length (fx_wait (sy_fx y2 src))) (MAX_WAITERS - length (fx_wait (sy_fx y2 dst)))"
    using Suc.prems ne by (simp_all add: s2)
  from Suc.IH [OF this, of "n + 1"] obtain y' where
    y': "move_waiters src dst (n + 1) y2 = Some (n + 1 + int m, y')"
    "y' = upd_fx src (\<lambda>f. f\<lparr>fx_wait := drop m (fx_wait (sy_fx y2 src))\<rparr>)
          (upd_fx dst (\<lambda>f. f\<lparr>fx_wait := fx_wait f @ take m (fx_wait (sy_fx y2 src))\<rparr>) y2)"
    by blast
  have "take (Suc m) (fx_wait (sy_fx y src)) = w # take m (tl (fx_wait (sy_fx y src)))"
    "drop (Suc m) (fx_wait (sy_fx y src)) = drop m (tl (fx_wait (sy_fx y src)))"
    by (subst st, simp)+
  then have "y' = upd_fx src (\<lambda>f. f\<lparr>fx_wait := drop (Suc m) (fx_wait (sy_fx y src))\<rparr>)
          (upd_fx dst (\<lambda>f. f\<lparr>fx_wait := fx_wait f @ take (Suc m) (fx_wait (sy_fx y src))\<rparr>) y)"
    using assms(1) unfolding y'(2) s2 by (simp add: upd_fx_def y2_def fun_eq_iff)
  then show ?case
    using y'(1) by (auto simp: e)
qed

text \<open>Onto itself the queue only rotates, and the loop never ends.\<close>

lemma move_self_diverges:
  assumes "fx_wait (sy_fx y i) \<noteq> []" and "length (fx_wait (sy_fx y i)) < MAX_WAITERS"
  shows "move_waiters i i n y = None"
proof (rule ccontr)
  assume "move_waiters i i n y \<noteq> None"
  then obtain r where "move_waiters i i n y = Some r"
    by blast
  then have "i = i \<longrightarrow> fx_wait (sy_fx y i) \<noteq> [] \<longrightarrow> length (fx_wait (sy_fx y i)) < MAX_WAITERS \<longrightarrow> False"
  proof (rule move_waiters.raw_induct [where P = "\<lambda>s d n y r. s = d \<longrightarrow> fx_wait (sy_fx y s) \<noteq> [] \<longrightarrow>
      length (fx_wait (sy_fx y s)) < MAX_WAITERS \<longrightarrow> False", rotated])
    fix f s d n y r
    assume IH: "\<And>s d n y r. f s d n y = Some r \<Longrightarrow> s = d \<longrightarrow> fx_wait (sy_fx y s) \<noteq> [] \<longrightarrow>
        length (fx_wait (sy_fx y s)) < MAX_WAITERS \<longrightarrow> False"
      and r: "(if fx_wait (sy_fx y s) \<noteq> [] \<and> length (fx_wait (sy_fx y d)) < MAX_WAITERS
          then let w = hd (fx_wait (sy_fx y s)); y1 = upd_fx d (\<lambda>f. f\<lparr>fx_wait := fx_wait f @ [w]\<rparr>) y;
                   y2 = upd_fx s (\<lambda>f. f\<lparr>fx_wait := tl (fx_wait f)\<rparr>) y1
               in f s d (n + 1) y2
          else Some (n, y)) = Some r"
    show "s = d \<longrightarrow> fx_wait (sy_fx y s) \<noteq> [] \<longrightarrow> length (fx_wait (sy_fx y s)) < MAX_WAITERS \<longrightarrow> False"
    proof (intro impI)
      assume c: "s = d" "fx_wait (sy_fx y s) \<noteq> []" "length (fx_wait (sy_fx y s)) < MAX_WAITERS"
      define y2 where "y2 = upd_fx s (\<lambda>f. f\<lparr>fx_wait := tl (fx_wait f)\<rparr>) (upd_fx d (\<lambda>f. f\<lparr>fx_wait := fx_wait f @ [hd (fx_wait (sy_fx y s))]\<rparr>) y)"
      have "f s d (n + 1) y2 = Some r"
        using r c by (simp add: Let_def y2_def)
      moreover have "fx_wait (sy_fx y2 s) \<noteq> []" "length (fx_wait (sy_fx y2 s)) < MAX_WAITERS"
        using c by (cases "fx_wait (sy_fx y s)"; simp add: y2_def)+
      ultimately show False
        using IH c(1) by blast
    qed
  qed
  then show False
    using assms by simp
qed

lemma futex_requeue_cases:
  assumes r: "futex_requeue cid a e m n y k = Some (c, y', k')" and ok: "sync_ok y"
  shows "sync_ok y'" and "sched_ok k \<Longrightarrow> (\<And>i ws w ws' k1. sched_ok k \<Longrightarrow> wake_up_to i ws k = (w, ws', k1) \<Longrightarrow> sched_ok k1) \<Longrightarrow> sched_ok k'"
proof -
  define pd where "pd = task_get_page_dir (kn_cur k cid) k"
  define mx where "mx = nat (if n < 0 then 0 else n)"
  have "sync_ok y' \<and> (k' = k \<or> (\<exists>i ws w ws'. wake_up_to i ws k = (w, ws', k')))"
  proof (cases "\<not> kn_uok k pd a 4 \<or> \<not> kn_uok k pd m 4 \<or> kn_uword k pd a \<noteq> e \<or> futex_find pd a y = None")
    case True
    then show ?thesis
      using r ok by (auto simp: futex_requeue_def Let_def pd_def [symmetric] split: if_splits)
  next
    case False
    then obtain src where f: "futex_find pd a y = Some src"
      by blast
    note S = futex_find_some [OF f]
    obtain dr y1 where al: "(if m = a then (Some src, y) else futex_alloc pd m y) = (dr, y1)"
      by fastforce
    have ok1: "sync_ok y1"
      using al ok futex_alloc_ok(1) [OF ok] by (auto split: if_splits)
    obtain w ws k1 where wk: "wake_up_to mx (fx_wait (sy_fx y1 src)) k = (w, ws, k1)"
      by (metis prod_cases3)
    show ?thesis
    proof (cases dr)
      case None
      then show ?thesis
        using r False f al ok1 by (simp add: futex_requeue_def Let_def pd_def [symmetric])
    next
      case (Some dst)
      define y2 where "y2 = upd_fx src (\<lambda>f. f\<lparr>fx_wait := ws\<rparr>) y1"
      have ok2: "sync_ok y2"
        unfolding y2_def using wake_up_to_le [OF wk] sync_okD(2) [OF ok1, of src]
        by (intro upd_fx_ok [OF ok1]) (auto simp: fx_ok_def)
      have rr: "(case move_waiters src dst 0 y2 of
                             None \<Rightarrow> None
                           | Some (mv, y2) \<Rightarrow>
                               Some (w + mv,
                                 if fx_wait (sy_fx y2 src) = [] \<and> src \<noteq> dst
                                 then upd_fx src (\<lambda>f. f\<lparr>fx_use := False\<rparr>) y2 else y2, k1)) = Some (c, y', k')"
        using r False f al Some wk by (simp add: futex_requeue_def Let_def pd_def [symmetric] mx_def [symmetric] y2_def)
      obtain mv y3 where mw: "move_waiters src dst 0 y2 = Some (mv, y3)"
        and y': "y' = (if fx_wait (sy_fx y3 src) = [] \<and> src \<noteq> dst then upd_fx src (\<lambda>f. f\<lparr>fx_use := False\<rparr>) y3 else y3)"
        and k': "k' = k1"
        using rr by (auto split: option.splits prod.splits)
      have ok3: "sync_ok y3"
      proof (cases "src = dst")
        case True
        have "\<not> (fx_wait (sy_fx y2 src) \<noteq> [] \<and> length (fx_wait (sy_fx y2 src)) < MAX_WAITERS)"
          using move_self_diverges [of y2 src 0] mw True by auto
        then have "move_waiters src dst 0 y2 = Some (0, y2)"
          using True by (subst move_waiters.simps) (simp only: if_False simp_thms)
        then show ?thesis
          using mw ok2 by simp
      next
        case False
        have lim: "length (fx_wait (sy_fx y2 dst)) \<le> MAX_WAITERS"
          using sync_okD(2) [OF ok2] by (simp add: fx_ok_def)
        define q where "q = min (length (fx_wait (sy_fx y2 src))) (MAX_WAITERS - length (fx_wait (sy_fx y2 dst)))"
        define y4 where "y4 = upd_fx dst (\<lambda>f. f\<lparr>fx_wait := fx_wait f @ take q (fx_wait (sy_fx y2 src))\<rparr>) y2"
        have "y3 = upd_fx src (\<lambda>f. f\<lparr>fx_wait := drop q (fx_wait (sy_fx y2 src))\<rparr>) y4"
          using move_waiters_spec [OF False lim q_def, of 0] mw by (auto simp: y4_def)
        moreover have "sync_ok y4"
          unfolding y4_def using lim by (intro upd_fx_ok [OF ok2]) (auto simp: fx_ok_def q_def)
        ultimately show ?thesis
          using sync_okD(2) [OF ok2, of src] by (auto simp: fx_ok_def intro!: upd_fx_ok)
      qed
      have "sync_ok (upd_fx src (\<lambda>f. f\<lparr>fx_use := False\<rparr>) y3)"
        using sync_okD(2) [OF ok3, of src] by (intro upd_fx_ok [OF ok3]) (simp_all add: fx_ok_def)
      then show ?thesis
        using ok3 y' k' wk by auto
    qed
  qed
  then show "sync_ok y'" and "sched_ok k \<Longrightarrow> (\<And>i ws w ws' k1. sched_ok k \<Longrightarrow> wake_up_to i ws k = (w, ws', k1) \<Longrightarrow> sched_ok k1) \<Longrightarrow> sched_ok k'"
    by blast+
qed

lemma sweep_fx_ok: "sync_ok (fst yk) \<Longrightarrow> sync_ok (fst (sweep_fx i yk))"
proof -
  assume ok: "sync_ok (fst yk)"
  obtain y k where yk: "yk = (y, k)"
    by fastforce
  obtain ws k1 where w: "sweep_waiters (kn_ms k) (fx_wait (sy_fx y i)) k = (ws, k1)"
    by fastforce
  have "sync_ok (upd_fx i (\<lambda>f. f\<lparr>fx_wait := ws, fx_use := (ws \<noteq> [])\<rparr>) y)" if "fx_use (sy_fx y i)"
    using sweep_waiters_le [OF w] sync_okD(2) [of y i] ok that unfolding yk
    by (intro upd_fx_ok) (auto simp: fx_ok_def)
  then show ?thesis
    using ok by (simp add: sweep_fx_def yk w)
qed

lemma sweep_ok:
  assumes "sync_ok y"
  shows "sync_ok (fst (futex_sweep busy y k))"
proof -
  have irr: "sync_ok (y\<lparr>sy_div := d\<rparr>) = sync_ok y" "sync_ok (y\<lparr>sy_tick := d\<rparr>) = sync_ok y" for d y
    by (simp_all add: sync_ok_def keys_ok_def)
  have "sync_ok (fst (fold sweep_fx fx_slots (y', k)))" if "sync_ok y'" for y'
    by (rule fold_ok [where P = "\<lambda>yk. sync_ok (fst yk)"]) (auto intro: sweep_fx_ok simp: that)
  then show ?thesis
    using assms by (simp add: futex_sweep_def Let_def irr)
qed

subsection \<open>The scheduler invariant\<close>

lemma wakeable_np: "wakeable k t \<Longrightarrow> \<not> pinned k t"
  by (auto simp: wakeable_def task_is_idle_def task_is_alive_def pinned_def split: if_splits)

lemma wake_sched:
  assumes "sched_ok k"
  shows "sched_ok (if wakeable k t then task_set_state t READY k else k)"
    and "wakeable k t \<Longrightarrow> sched_ok (task_set_state t READY k)"
  using assms task_set_state_x [OF assms wakeable_np] by auto

lemma wake_one_sched: "sched_ok k \<Longrightarrow> sched_ok (snd (snd (wake_one ws k)))"
  by (induction ws k rule: wake_one.induct) (simp_all add: wake_sched)

lemma wake_one_f_sched: "sched_ok k \<Longrightarrow> sched_ok (snd (snd (wake_one_f ws k)))"
  by (induction ws k rule: wake_one_f.induct) (simp_all add: wake_sched)

lemma wake_up_to_sched: "sched_ok k \<Longrightarrow> wake_up_to n ws k = (w, ws', k') \<Longrightarrow> sched_ok k'"
proof (induction n arbitrary: ws k w ws' k')
  case (Suc n)
  obtain b ws1 k1 where r: "wake_one_f ws k = (b, ws1, k1)"
    by (metis prod_cases3)
  have ok1: "sched_ok k1"
    using wake_one_f_sched [OF Suc.prems(1), of ws] r by simp
  obtain w2 ws2 k2 where r2: "wake_up_to n ws1 k1 = (w2, ws2, k2)"
    by (metis prod_cases3)
  show ?case
    using Suc.IH [OF ok1 r2] Suc.prems(2) ok1 r r2 by (cases b) auto
qed simp

lemma wake_all_sched: "sched_ok k \<Longrightarrow> sched_ok (wake_all ws k)"
  by (induction ws k rule: wake_all.induct) (simp_all add: wake_sched)

lemma sweep_waiters_sched: "sched_ok k \<Longrightarrow> sched_ok (snd (sweep_waiters now ws k))"
  by (induction now ws k rule: sweep_waiters.induct) (auto simp: wake_sched split: prod.split)

lemma sweep_sched:
  assumes "sched_ok k"
  shows "sched_ok (snd (futex_sweep busy y k))"
proof -
  have one: "sched_ok (snd (sweep_fx i yk))" if "sched_ok (snd yk)" for i yk
  proof -
    obtain y0 k0 where yk: "yk = (y0, k0)"
      by fastforce
    obtain ws k1 where w: "sweep_waiters (kn_ms k0) (fx_wait (sy_fx y0 i)) k0 = (ws, k1)"
      by fastforce
    show ?thesis
      using sweep_waiters_sched [of k0 "kn_ms k0" "fx_wait (sy_fx y0 i)"] that by (simp add: sweep_fx_def yk w)
  qed
  have "sched_ok (snd (fold sweep_fx fx_slots (y', k)))" for y'
    by (rule fold_ok [where P = "\<lambda>yk. sched_ok (snd yk)"]) (auto intro: one simp: assms)
  then show ?thesis
    using assms by (simp add: futex_sweep_def Let_def)
qed

subsection \<open>Every interleaving\<close>

inductive sstep :: "sync \<times> kern \<Rightarrow> sync \<times> kern \<Rightarrow> bool" where
  kernel: "kstep k k' \<Longrightarrow> sstep (y, k) (y, k')"
| create: "sstep (y, k) (snd (sem_create n y), k)"
| wait: "caller k cid \<Longrightarrow> sstep (y, k) (snd (sem_wait cid i y k))"
| post: "sstep (y, k) (snd (sem_post i y k))"
| destroy: "sstep (y, k) (snd (sem_destroy i y k))"
| fwait: "caller k cid \<Longrightarrow> sstep (y, k) (snd (futex_wait cid a e y k))"
| ftimed: "caller k cid \<Longrightarrow> sstep (y, k) (snd (futex_wait_timeout cid a e ms y k))"
| fwake: "sstep (y, k) (snd (futex_wake cid a n y k))"
| requeue: "futex_requeue cid a e m n y k = Some (c, y', k') \<Longrightarrow> sstep (y, k) (y', k')"
| sweep: "sstep (y, k) (futex_sweep busy y k)"
| drain: "sstep (y, k) (sync_drain_pending y k)"

inductive_cases sstepE: "sstep (y, k) (y', k')"

inductive sreach :: "sync \<Rightarrow> kern \<Rightarrow> bool" where
  init: "kern_cold k \<Longrightarrow> sreach (sync_init sync_bss) (init_tasking 0 [1..kn_ncpu k - 1] cr3 k)"
| step: "sreach y k \<Longrightarrow> sstep (y, k) (y', k') \<Longrightarrow> sreach y' k'"

lemma blocked_sched: "sched_ok k \<Longrightarrow> caller k cid \<Longrightarrow> sched_ok (task_set_state (kn_cur k cid) BLOCKED k)"
  by (rule task_set_state_x) (simp_all add: caller_def)

lemma sem_wait_sched: "sched_ok k \<Longrightarrow> caller k cid \<Longrightarrow> sched_ok (snd (snd (sem_wait cid i y k)))"
  by (simp add: sem_wait_def Let_def blocked_sched)

lemma futex_park_sched: "sched_ok k \<Longrightarrow> caller k cid \<Longrightarrow> sched_ok (snd (snd (futex_park cid a e d y k)))"
  by (simp add: futex_park_def Let_def blocked_sched split: option.split prod.split)

lemma sem_post_sched:
  assumes "sched_ok k"
  shows "sched_ok (snd (snd (sem_post i y k)))"
proof -
  obtain b ws k1 where w: "wake_one (sm_wait (sy_sem y i)) k = (b, ws, k1)"
    by (metis prod_cases3)
  have "sched_ok k1"
    using wake_one_sched [OF assms, of "sm_wait (sy_sem y i)"] w by simp
  then show ?thesis
    using assms by (simp add: sem_post_def w Let_def)
qed

lemma futex_wake_sched:
  assumes "sched_ok k"
  shows "sched_ok (snd (snd (futex_wake cid a n y k)))"
proof (cases "n \<le> 0 \<or> futex_find (task_get_page_dir (kn_cur k cid) k) a y = None")
  case False
  then obtain i where f: "futex_find (task_get_page_dir (kn_cur k cid) k) a y = Some i"
    by blast
  obtain w ws k1 where r: "wake_up_to (nat n) (fx_wait (sy_fx y i)) k = (w, ws, k1)"
    by (metis prod_cases3)
  show ?thesis
    using wake_up_to_sched [OF assms r] False f r by (simp add: futex_wake_def)
qed (use assms in \<open>auto simp: futex_wake_def\<close>)

lemma drain_same: "same_sched k (snd (sync_drain_pending y k))"
  by (simp add: sync_drain_pending_def Let_def same_sched_def)

lemma sstep_ok:
  assumes "sstep (y, k) (y', k')" and "sync_ok y" and "sched_ok k"
  shows "sync_ok y' \<and> sched_ok k'"
  using assms(1)
proof (cases rule: sstep.cases)
  case (requeue cid a e m n c)
  then show ?thesis
    using futex_requeue_cases [OF requeue assms(2)] assms(3) wake_up_to_sched by blast
next
  case (drain)
  then have "sched_ok k'"
    using same_sched_x [OF drain_same [of k y]] assms(3) by (metis snd_conv)
  then show ?thesis
    using drain_ok [OF assms(2), of k] drain by (metis fst_conv)
next
  case (sweep busy)
  then show ?thesis
    using sweep_ok [OF assms(2), of busy k] sweep_sched [OF assms(3), of busy y] by (metis fst_conv snd_conv)
next
  case (wait cid i)
  then show ?thesis
    using sem_wait_ok [OF assms(2), of cid i k] sem_wait_sched [OF assms(3), of cid i y] by (metis fst_conv snd_conv)
next
  case (post i)
  then show ?thesis
    using sem_post_ok [OF assms(2), of i k] sem_post_sched [OF assms(3), of i y] by (metis fst_conv snd_conv)
next
  case (destroy i)
  then show ?thesis
    using sem_destroy_ok [OF assms(2), of i k] wake_all_sched [OF assms(3)] assms
    by (auto simp: sem_destroy_def split: if_splits)
next
  case (fwait cid a e)
  then show ?thesis
    using futex_park_ok [OF assms(2), of cid a e 0 k] futex_park_sched [OF assms(3), of cid a e 0 y]
    unfolding futex_wait_def by (metis fst_conv snd_conv)
next
  case (ftimed cid a e ms)
  then show ?thesis
    using futex_park_ok [OF assms(2), of cid a e _ k] futex_park_sched [OF assms(3), of cid a e _ y]
    unfolding futex_wait_timeout_def by (metis fst_conv snd_conv)
next
  case (fwake cid a n)
  then show ?thesis
    using futex_wake_ok [OF assms(2), of cid a n k] futex_wake_sched [OF assms(3), of cid a n y] by (metis fst_conv snd_conv)
next
  case (create n)
  then show ?thesis
    using sem_create_ok [OF assms(2), of n] assms(3) by simp
next
  case kernel
  then show ?thesis
    using kstep_ok assms by blast
qed

lemma sync_init_ok: "sync_ok (sync_init sync_bss)"
proof -
  have "sync_ok sync_bss"
    by (simp add: sync_ok_def sem_ok_def fx_ok_def keys_ok_def sync_bss_def)
  then show ?thesis
    unfolding sync_init_def Let_def
    by (intro fold_ok [where P = sync_ok] upd_sem_ok upd_fx_ok) (simp_all add: sem_ok_def fx_ok_def)
qed

lemma sreach_ok:
  assumes "sreach y k"
  shows "sync_ok y \<and> sched_ok k"
  using assms
proof induction
  case (init k cr3)
  then show ?case
    by (simp add: sync_init_ok init_tasking_ok)
next
  case (step y k y' k')
  then show ?case
    using sstep_ok by blast
qed

text \<open>C22: In every interleaving of the synchronisation calls with ticks, signals and exits, the
  tables stay sound: a semaphore in use has a count that is never negative, no waiters while it
  has tokens, and at most 32 waiters, so no waiter sleeps on a free token; futex queues are within
  bounds and no two futexes share a word; and the scheduler invariant still holds, so no wake-up
  puts a task on two cores or loses it.\<close>

theorem sync_tables_sound:
  assumes "sreach y k" and "sm_use (sy_sem y i)"
  shows "0 \<le> sm_count (sy_sem y i) \<and> (sm_count (sy_sem y i) = 0 \<or> sm_wait (sy_sem y i) = []) \<and>
    length (sm_wait (sy_sem y i)) \<le> 32 \<and> length (fx_wait (sy_fx y j)) \<le> 32 \<and> keys_ok y \<and> sched_ok k"
proof -
  have S: "sync_ok y" "sched_ok k"
    using sreach_ok [OF assms(1)] by simp_all
  have "0 \<le> sm_count (sy_sem y i)" "length (sm_wait (sy_sem y i)) \<le> 32" "sm_count (sy_sem y i) > 0 \<longrightarrow> sm_wait (sy_sem y i) = []"
    using sync_okD(1) [OF S(1), of i] assms(2) by (simp_all add: sem_ok_def MAX_WAITERS_def)
  moreover from this have "sm_count (sy_sem y i) = 0 \<or> sm_wait (sy_sem y i) = []"
    by linarith
  moreover have "length (fx_wait (sy_fx y j)) \<le> 32"
    using sync_okD(2) [OF S(1), of j] by (simp add: fx_ok_def MAX_WAITERS_def)
  ultimately show ?thesis
    using S sync_okD(3) [OF S(1)] by blast
qed

definition one_sem :: sync where
  "one_sem = snd (sem_create 0 (sync_init sync_bss))"

lemma one_sem_reach: "sreach one_sem booted"
  using sreach.step [OF sreach.init [of cold "0x1000"] sstep.create]
  by (simp add: one_sem_def booted_def kern_cold_def cold_def)

lemma one_sem_slot: "sm_use (sy_sem one_sem 0)" "sm_count (sy_sem one_sem 0) = 0" "sm_wait (sy_sem one_sem 0) = []"
proof -
  have init: "\<not> sm_use (sy_sem (sync_init sync_bss) i)" for i
  proof -
    have 1: "\<not> sm_use (sy_sem (fold (\<lambda>i. upd_sem i (\<lambda>s. s\<lparr>sm_use := False, sm_count := 0, sm_wait := []\<rparr>)) is sync_bss) i)" for "is"
      by (rule fold_ok [where P = "\<lambda>y. \<not> sm_use (sy_sem y i)"]) (simp_all add: sync_bss_def)
    show ?thesis
      unfolding sync_init_def Let_def
      by (rule fold_ok [where P = "\<lambda>y. \<not> sm_use (sy_sem y i)"]) (simp_all add: 1)
  qed
  have "first_slot (\<lambda>i. \<not> sm_use (sy_sem (sync_init sync_bss) i)) sem_slots = Some 0"
    unfolding first_slot_def sem_slots_def by (rule find_upto) (simp_all add: init)
  then show "sm_use (sy_sem one_sem 0)" "sm_count (sy_sem one_sem 0) = 0" "sm_wait (sy_sem one_sem 0) = []"
    by (simp_all add: one_sem_def sem_create_def)
qed

lemma sync_tables_sound_witness: "sreach one_sem booted \<and> sm_use (sy_sem one_sem 0) \<and> keys_ok one_sem"
  using one_sem_reach one_sem_slot(1) sync_tables_sound [OF one_sem_reach one_sem_slot(1)] by blast

subsection \<open>Requeue\<close>

definition queue :: "u32 \<Rightarrow> u32 \<Rightarrow> sync \<Rightarrow> (int \<times> u32) list" where
  "queue pd a y = (case futex_find pd a y of None \<Rightarrow> [] | Some i \<Rightarrow> fx_wait (sy_fx y i))"

lemma find_key:
  assumes "keys_ok y" and "valid_fx i" and "fx_use (sy_fx y i)" and "fx_pd (sy_fx y i) = pd" and "fx_addr (sy_fx y i) = a"
  shows "futex_find pd a y = Some i"
proof (cases "futex_find pd a y")
  case None
  then show ?thesis
    using futex_find_none [OF None assms(2,3)] assms(4,5) by simp
next
  case (Some j)
  then show ?thesis
    using futex_find_some [OF Some] assms unfolding keys_ok_def by metis
qed


text \<open>Requeueing a word onto itself hangs: with a waiter left on a queue that is not full, the loop
  takes the head and appends it to the same queue for ever, with the lock held and interrupts
  off.\<close>

theorem requeue_onto_itself_hangs:
  assumes "pd = task_get_page_dir (kn_cur k cid) k" and "kn_uok k pd a 4" and "kn_uword k pd a = e"
    and "wake_up_to (nat n) (queue pd a y) k = (w, ws, k1)" and "ws \<noteq> []" and "length ws < 32" and "0 \<le> n"
  shows "futex_requeue cid a e a n y k = None"
proof -
  obtain i where f: "futex_find pd a y = Some i"
  proof (cases "futex_find pd a y")
    case None
    then have "ws = []"
      using wake_up_to_le [OF assms(4)] by (simp add: queue_def)
    then show ?thesis
      using assms(5) by simp
  qed
  have "move_waiters i i 0 (upd_fx i (\<lambda>f. f\<lparr>fx_wait := ws\<rparr>) y) = None"
    by (rule move_self_diverges) (use assms(5,6) in \<open>simp_all add: MAX_WAITERS_def\<close>)
  then show ?thesis
    using assms f by (simp add: futex_requeue_def Let_def queue_def)
qed

definition two_words :: sync where
  "two_words = sync_bss\<lparr>sy_fx := (\<lambda>i. if i = 0 then \<lparr>fx_use = True, fx_pd = 0, fx_addr = 0x08001000, fx_wait = [(4, 7), (5, 0)]\<rparr>
     else if i = 1 then \<lparr>fx_use = True, fx_pd = 0, fx_addr = 0x08002000, fx_wait = []\<rparr>
     else \<lparr>fx_use = False, fx_pd = 0, fx_addr = 0, fx_wait = []\<rparr>)\<rparr>"

lemma two_words_ok: "sync_ok two_words"
  by (simp add: sync_ok_def sem_ok_def fx_ok_def keys_ok_def two_words_def sync_bss_def MAX_WAITERS_def)

lemma two_words_find:
  "futex_find 0 0x08001000 two_words = Some 0" "futex_find 0 0x08002000 two_words = Some 1"
  using sync_okD(3) [OF two_words_ok]
  by (intro find_key; simp add: valid_fx_def; simp add: two_words_def)+

lemma family_user: "kn_uok family pd a n" "kn_uword family pd a = 0" "task_get_page_dir (kn_cur family 0) family = 0"
  by (simp_all add: family_def cold_def task_get_page_dir_def task0_def)


lemma requeue_onto_itself_hangs_witness:
  "futex_requeue 0 0x08001000 0 0x08001000 0 two_words family = None"
proof -
  have "queue 0 0x08001000 two_words = [(4, 7), (5, 0)]"
    by (simp add: queue_def two_words_find) (simp add: two_words_def)
  then show ?thesis
    using requeue_onto_itself_hangs [OF family_user(3) [symmetric] family_user(1,2), of 0 "0x08001000" two_words 0 "[(4, 7), (5, 0)]" family]
    by simp
qed

subsection \<open>A signal takes a semaphore without a token\<close>

text \<open>A handled signal breaks a semaphore wait: a task parked by \<open>sem_wait\<close> on an empty semaphore is
  made READY by the signal, so the wait returns 0 although no token was taken, while the task
  stays on the waiter list; the next \<open>sem_post\<close> gives its token to that stale entry, so it wakes
  nobody and the count stays zero.\<close>

theorem signalled_wait_returns_without_token:
  assumes t: "t = kn_cur k cid" "valid_tid t" "0 < t" "\<not> tk_idle (kn_task k t)" "\<not> dead k t"
    and w: "sem_wait cid i y k = (Parked, y1, k1)" "sm_wait (sy_sem y i) = []"
    and s: "s = 10" "tk_handler (kn_task k t) s \<noteq> 0" "tk_handler (kn_task k t) s \<noteq> 1" "\<not> has_sig (tk_blocked (kn_task k t)) s"
    and k2: "k2 = snd (task_signal t s k1)" and p: "sem_post i y1 k2 = (r, y2, k3)"
  shows "tk_state (kn_task k2 t) = READY \<and> sm_count (sy_sem y i) \<le> 0 \<and> sm_wait (sy_sem y1 i) = [t] \<and>
    r = 0 \<and> sm_count (sy_sem y2 i) = sm_count (sy_sem y i) \<and> sm_wait (sy_sem y2 i) = []"
proof -
  have b: "\<not> (t < 0 \<or> t \<ge> MAX_TASKS)"
    using t(2) by (simp add: valid_tid_def slot_consts)
  have W: "\<not> (i < 0 \<or> i \<ge> MAX_SEMS)" "sm_use (sy_sem y i)" "\<not> sm_count (sy_sem y i) > 0"
    "y1 = upd_sem i (\<lambda>s. s\<lparr>sm_wait := sm_wait s @ [t]\<rparr>) y" "k1 = task_set_state t BLOCKED k"
    using w(1) by (auto simp: sem_wait_def Let_def t(1) split: if_splits)
  have y1: "sy_sem y1 i = (sy_sem y i)\<lparr>sm_wait := [t]\<rparr>"
    using w(2) by (simp add: W(4))
  have nd: "tk_state (kn_task k t) \<noteq> FREE" "tk_state (kn_task k t) \<noteq> ZOMBIE"
    using t(5) by (auto simp: dead_def)
  have rm: "\<exists>r. kn_task (rq_remove t k') t = (kn_task k' t)\<lparr>tk_rq := r\<rparr>" for k'
    using rq_remove_same [of k' t] unfolding same_but_rq_def by blast
  have k1: "\<exists>r. kn_task k1 t = (kn_task k t)\<lparr>tk_state := BLOCKED, tk_rq := r\<rparr>"
  proof (cases "tk_state (kn_task k t) = BLOCKED")
    case True
    then have "k1 = k"
      using b t(4) by (simp add: W(5) task_set_state_def Let_def)
    then show ?thesis
      using True by (intro exI [of _ "tk_rq (kn_task k t)"]) simp
  next
    case False
    then have "k1 = rq_remove t (set_state t BLOCKED k)"
      using b t(4) nd by (simp add: W(5) task_set_state_def Let_def)
    then show ?thesis
      using rm [of "set_state t BLOCKED k"] by simp
  qed
  have k2': "k2 = signal_handler_wake t s k1"
    using k1 b t(3) s
    by (auto simp: k2 task_signal_def signal_live_def slot_consts SIGKILL_def SIGSTOP_def SIGCONT_def)
  have st: "tk_state (kn_task k2 t) = READY" "tk_idle (kn_task k2 t) = tk_idle (kn_task k t)"
    using k1 by (auto simp: k2' signal_handler_wake_def Let_def same_but_rqD [OF rq_enqueue_wake_same])
  have wk: "wakeable k2 t"
    using st t(3,4) b by (simp add: wakeable_def task_is_idle_def task_is_alive_def)
  then have "wake_one (sm_wait (sy_sem y1 i)) k2 = (True, [], task_set_state t READY k2)"
    by (simp add: y1)
  then have "r = 0" "sy_sem y2 i = (sy_sem y i)\<lparr>sm_wait := []\<rparr>"
    using p W(1,2) by (auto simp: sem_post_def y1)
  then show ?thesis
    using st W(3) y1 by simp
qed

definition waiting_kern :: kern where
  "waiting_kern = cold\<lparr>kn_cur := (\<lambda>c. if c = 0 then 5 else -1), kn_task := (\<lambda>t. if t = 5
     then task0\<lparr>tk_state := RUNNING, tk_handler := (\<lambda>_. 0x08001000)\<rparr> else task0)\<rparr>"

lemma signalled_wait_returns_without_token_witness:
  "(case sem_wait 0 0 one_sem waiting_kern of (out, y1, k1) \<Rightarrow>
      case sem_post 0 y1 (snd (task_signal 5 10 k1)) of (r, y2, k3) \<Rightarrow>
        out = Parked \<and> tk_state (kn_task (snd (task_signal 5 10 k1)) 5) = READY \<and> sm_count (sy_sem y2 0) = 0 \<and>
        sm_wait (sy_sem y2 0) = [])"
proof -
  obtain y1 k1 where w: "sem_wait 0 0 one_sem waiting_kern = (Parked, y1, k1)"
    using one_sem_slot by (auto simp: sem_wait_def Let_def MAX_SEMS_def MAX_WAITERS_def)
  obtain r y2 k3 where p: "sem_post 0 y1 (snd (task_signal 5 10 k1)) = (r, y2, k3)"
    by (metis prod_cases3)
  have "5 = kn_cur waiting_kern 0" "valid_tid 5" "(0::int) < 5" "\<not> tk_idle (kn_task waiting_kern 5)" "\<not> dead waiting_kern 5"
    "tk_handler (kn_task waiting_kern 5) 10 \<noteq> 0" "tk_handler (kn_task waiting_kern 5) 10 \<noteq> 1"
    "\<not> has_sig (tk_blocked (kn_task waiting_kern 5)) 10"
    by (simp_all add: waiting_kern_def task0_def valid_tid_def dead_def has_sig_def)
  then show ?thesis
    using signalled_wait_returns_without_token [OF _ _ _ _ _ w one_sem_slot(3) refl _ _ _ refl p] one_sem_slot(2)
    by (simp add: w p)
qed

end
