(* ===== verification/Fifo.thy ===== *)
theory Fifo
  imports Mectov_Prelude
begin

text \<open>
  The contract of the bounded queues of the kernel: the message queues of
  \<open>src/sys/ipc.c\<close>, the pipes of \<open>src/sys/fd.c\<close> and the two rings of a pseudo-terminal
  (\<open>src/sys/pty.c\<close>) are one interface, a put that fails when the queue is full and a get
  that fails when it is empty. The copy loops of the callers are proved against it once:
  what a loop accepts or delivers, and that a history of puts and gets delivers exactly
  what was accepted, in order.
\<close>

section \<open>The copy loops\<close>

text \<open>\<open>while (n < size) { if (full) break; put(buf[n++]); }\<close> and its count.\<close>

fun put_loop :: "('a \<Rightarrow> 'q \<Rightarrow> 'q option) \<Rightarrow> 'a list \<Rightarrow> 'q \<Rightarrow> nat \<times> 'q" where
  "put_loop put [] q = (0, q)"
| "put_loop put (x # xs) q =
     (case put x q of
        None \<Rightarrow> (0, q)
      | Some q1 \<Rightarrow> (let (n, q2) = put_loop put xs q1 in (Suc n, q2)))"

text \<open>\<open>while (n < size && !empty) buf[n++] = get();\<close> and what it stored.\<close>

primrec get_loop :: "('q \<Rightarrow> ('a \<times> 'q) option) \<Rightarrow> nat \<Rightarrow> 'q \<Rightarrow> 'a list \<times> 'q" where
  "get_loop get 0 q = ([], q)"
| "get_loop get (Suc n) q =
     (case get q of
        None \<Rightarrow> ([], q)
      | Some (x, q1) \<Rightarrow> (let (xs, q2) = get_loop get n q1 in (x # xs, q2)))"

section \<open>Histories\<close>

datatype 'a fifo_op = Puts "'a list" | Gets nat

text \<open>What a history of copy loops accepted, what it delivered, and the queue at its end.\<close>

fun fifo_run :: "('a \<Rightarrow> 'q \<Rightarrow> 'q option) \<Rightarrow> ('q \<Rightarrow> ('a \<times> 'q) option) \<Rightarrow> 'a fifo_op list \<Rightarrow> 'q
    \<Rightarrow> 'a list \<times> 'a list \<times> 'q" where
  "fifo_run put get [] q = ([], [], q)"
| "fifo_run put get (Puts xs # ops) q =
     (let (n, q1) = put_loop put xs q; (a, d, q2) = fifo_run put get ops q1 in (take n xs @ a, d, q2))"
| "fifo_run put get (Gets n # ops) q =
     (let (ys, q1) = get_loop get n q; (a, d, q2) = fifo_run put get ops q1 in (a, ys @ d, q2))"

section \<open>The contract and what follows from it\<close>

locale bounded_fifo =
  fixes items :: "'q \<Rightarrow> 'a list" and good :: "'q \<Rightarrow> bool" and cap :: nat
    and put :: "'a \<Rightarrow> 'q \<Rightarrow> 'q option" and get :: "'q \<Rightarrow> ('a \<times> 'q) option"
  assumes items_cap: "good q \<Longrightarrow> length (items q) \<le> cap"
    and put_full: "good q \<Longrightarrow> length (items q) = cap \<Longrightarrow> put x q = None"
    and put_room: "good q \<Longrightarrow> length (items q) < cap \<Longrightarrow>
      \<exists>q1. put x q = Some q1 \<and> good q1 \<and> items q1 = items q @ [x]"
    and get_empty: "good q \<Longrightarrow> items q = [] \<Longrightarrow> get q = None"
    and get_first: "good q \<Longrightarrow> items q = x # xs \<Longrightarrow>
      \<exists>q1. get q = Some (x, q1) \<and> good q1 \<and> items q1 = xs"
begin

lemma put_None_iff: "good q \<Longrightarrow> put x q = None \<longleftrightarrow> length (items q) = cap"
  using put_full put_room items_cap by (metis le_neq_implies_less option.distinct(1))

lemma put_SomeD: "good q \<Longrightarrow> put x q = Some q1 \<Longrightarrow> good q1 \<and> items q1 = items q @ [x] \<and> length (items q) < cap"
  using put_full put_room items_cap by (metis le_neq_implies_less option.distinct(1) option.inject)

lemma get_None_iff: "good q \<Longrightarrow> get q = None \<longleftrightarrow> items q = []"
  using get_empty get_first by (metis neq_Nil_conv option.distinct(1))

lemma get_SomeD: "good q \<Longrightarrow> get q = Some (x, q1) \<Longrightarrow> good q1 \<and> items q = x # items q1"
  using get_empty get_first by (metis neq_Nil_conv option.distinct(1) option.inject prod.inject)

text \<open>A put followed, after any number of gets that drain what was before it, by a get
  returns it.\<close>

lemma put_loop_spec:
  "good q \<Longrightarrow> put_loop put xs q = (n, q1) \<Longrightarrow>
     n = min (length xs) (cap - length (items q)) \<and> good q1 \<and> items q1 = items q @ take n xs"
proof (induction xs arbitrary: q n q1)
  case Nil
  then show ?case by simp
next
  case (Cons x xs)
  show ?case
  proof (cases "put x q")
    case None
    with Cons.prems put_None_iff show ?thesis by fastforce
  next
    case (Some q0)
    obtain m q2 where m: "put_loop put xs q0 = (m, q2)" by fastforce
    from put_SomeD [OF Cons.prems(1) Some] have q0: "good q0" "items q0 = items q @ [x]" "length (items q) < cap"
      by simp_all
    from Cons.IH [OF q0(1) m] q0 have
      "m = min (length xs) (cap - Suc (length (items q)))" "good q2" "items q2 = items q @ x # take m xs"
      by simp_all
    moreover from Cons.prems(2) Some m have "n = Suc m" "q1 = q2" by simp_all
    ultimately show ?thesis using q0(3) by simp
  qed
qed

lemma get_loop_spec:
  "good q \<Longrightarrow> get_loop get n q = (ys, q1) \<Longrightarrow>
     ys = take n (items q) \<and> good q1 \<and> items q1 = drop n (items q)"
proof (induction n arbitrary: q ys q1)
  case 0
  then show ?case by simp
next
  case (Suc n)
  show ?case
  proof (cases "get q")
    case None
    with Suc.prems get_None_iff show ?thesis by simp
  next
    case (Some p)
    then obtain x q0 where p: "get q = Some (x, q0)" by (cases p) simp
    obtain zs q2 where z: "get_loop get n q0 = (zs, q2)" by fastforce
    from get_SomeD [OF Suc.prems(1) p] have q0: "good q0" "items q = x # items q0" by simp_all
    from Suc.IH [OF q0(1) z] Suc.prems(2) p z q0(2) show ?thesis by simp
  qed
qed

text \<open>Everything accepted is delivered once, in order, or still in the queue.\<close>

lemma run_conserves:
  "good q \<Longrightarrow> fifo_run put get ops q = (a, d, q1) \<Longrightarrow> good q1 \<and> items q @ a = d @ items q1"
proof (induction ops arbitrary: q a d q1)
  case Nil
  then show ?case by simp
next
  case (Cons op ops)
  show ?case
  proof (cases op)
    case (Puts xs)
    obtain n q2 where p: "put_loop put xs q = (n, q2)" by fastforce
    obtain a' d' q3 where r: "fifo_run put get ops q2 = (a', d', q3)" by (cases "fifo_run put get ops q2") simp
    from put_loop_spec [OF Cons.prems(1) p] Cons.IH [OF _ r] Cons.prems(2) Puts p r show ?thesis by auto
  next
    case (Gets n)
    obtain ys q2 where p: "get_loop get n q = (ys, q2)" by fastforce
    obtain a' d' q3 where r: "fifo_run put get ops q2 = (a', d', q3)" by (cases "fifo_run put get ops q2") simp
    from get_loop_spec [OF Cons.prems(1) p] have g: "good q2" and i: "items q = ys @ items q2"
      by (simp_all add: append_take_drop_id)
    from Cons.IH [OF g r] have "good q3" "items q2 @ a' = d' @ items q3" by simp_all
    moreover from Cons.prems(2) Gets p r have "a = a'" "d = ys @ d'" "q1 = q3" by simp_all
    ultimately show ?thesis using i by simp
  qed
qed

text \<open>A write that fits, then a read of as many, into an empty queue is the identity.\<close>

lemma put_get_roundtrip:
  assumes "good q" and "items q = []" and "length xs \<le> cap"
    and "put_loop put xs q = (n, q1)" and "get_loop get (length xs) q1 = (ys, q2)"
  shows "n = length xs \<and> ys = xs \<and> items q2 = []"
  using put_loop_spec [OF assms(1,4)] get_loop_spec [OF _ assms(5)] assms(2,3) by simp

end

chapter \<open>A byte ring\<close>

text \<open>
  The byte ring that pipes (\<open>src/sys/fd.c\<close>) and pseudo-terminals (\<open>src/sys/pty.c\<close>) share: a
  buffer of 4096 bytes (\<open>PIPE_BUF_SIZE\<close>, \<open>PTY_BUF_SIZE\<close>), a read and a write position, and
  one slot that stays free so that equal positions mean empty. It meets the contract of
  \<open>Fifo\<close> with room for 4095 bytes.
\<close>

definition RING_SIZE :: nat where
  "RING_SIZE = 4096"

record ring =
  rb_buf :: "nat \<Rightarrow> u8"
  rb_r :: nat
  rb_w :: nat

definition ring_put :: "u8 \<Rightarrow> ring \<Rightarrow> ring option" where
  "ring_put b q =
     (let nw = (rb_w q + 1) mod RING_SIZE
      in if nw = rb_r q then None
         else Some (q\<lparr>rb_buf := (rb_buf q)(rb_w q := b), rb_w := nw\<rparr>))"

definition ring_get :: "ring \<Rightarrow> (u8 \<times> ring) option" where
  "ring_get q =
     (if rb_r q \<noteq> rb_w q
      then Some (rb_buf q (rb_r q), q\<lparr>rb_r := (if rb_r q + 1 \<ge> RING_SIZE then 0 else rb_r q + 1)\<rparr>)
      else None)"

definition ring_clear :: "ring \<Rightarrow> ring" where
  "ring_clear q = q\<lparr>rb_r := 0, rb_w := 0\<rparr>"

definition ring_readable :: "ring \<Rightarrow> bool" where
  "ring_readable q \<longleftrightarrow> rb_r q \<noteq> rb_w q"

definition ring_writable :: "ring \<Rightarrow> bool" where
  "ring_writable q \<longleftrightarrow> (rb_w q + 1) mod RING_SIZE \<noteq> rb_r q"

section \<open>Contents\<close>

definition ring_good :: "ring \<Rightarrow> bool" where
  "ring_good q \<longleftrightarrow> rb_r q < RING_SIZE \<and> rb_w q < RING_SIZE"

definition ring_fill :: "ring \<Rightarrow> nat" where
  "ring_fill q = (rb_w q + RING_SIZE - rb_r q) mod RING_SIZE"

definition ring_items :: "ring \<Rightarrow> u8 list" where
  "ring_items q = ring_slice (rb_buf q) RING_SIZE (rb_r q) (ring_fill q)"

lemma fill_mod:
  fixes r w n :: nat
  assumes "r < n" and "w < n"
  shows "(w + n - r) mod n = (if r \<le> w then w - r else w + n - r)"
proof (cases "r \<le> w")
  case True
  then have "w + n - r = (w - r) + n" by simp
  then have "(w + n - r) mod n = (w - r) mod n" by simp
  then show ?thesis using True assms by simp
qed (use assms in auto)

lemma ring_fill_eq:
  "ring_good q \<Longrightarrow> ring_fill q = (if rb_r q \<le> rb_w q then rb_w q - rb_r q else rb_w q + RING_SIZE - rb_r q)"
  by (simp add: ring_fill_def ring_good_def fill_mod)

lemma ring_fill_less: "ring_fill q < RING_SIZE"
  by (simp add: ring_fill_def RING_SIZE_def)

lemma length_ring_items [simp]: "length (ring_items q) = ring_fill q"
  by (simp add: ring_items_def)

lemma ring_end: "ring_good q \<Longrightarrow> (rb_r q + ring_fill q) mod RING_SIZE = rb_w q"
  by (auto simp: ring_fill_eq) (auto simp: ring_good_def)

lemma ring_empty_iff: "ring_good q \<Longrightarrow> ring_fill q = 0 \<longleftrightarrow> rb_r q = rb_w q"
  by (auto simp: ring_fill_eq ring_good_def)

lemma ring_full_iff:
  "ring_good q \<Longrightarrow> ring_fill q = RING_SIZE - 1 \<longleftrightarrow> (rb_w q + 1) mod RING_SIZE = rb_r q"
  by (auto simp: ring_fill_eq ring_good_def mod_if RING_SIZE_def split: if_splits)

lemma ring_put_room:
  assumes "ring_good q" and "ring_fill q < RING_SIZE - 1"
  shows "\<exists>q1. ring_put x q = Some q1 \<and> ring_good q1 \<and> ring_items q1 = ring_items q @ [x]"
proof -
  let ?nw = "(rb_w q + 1) mod RING_SIZE"
  let ?q1 = "q\<lparr>rb_buf := (rb_buf q)(rb_w q := x), rb_w := ?nw\<rparr>"
  have nf: "?nw \<noteq> rb_r q" using ring_full_iff [OF assms(1)] assms(2) by simp
  have g: "ring_good ?q1" using assms(1) by (simp add: ring_good_def RING_SIZE_def)
  have fill: "ring_fill ?q1 = Suc (ring_fill q)"
    using ring_fill_eq [OF g] ring_fill_eq [OF assms(1)] assms(1) nf
    by (auto simp: ring_good_def mod_if RING_SIZE_def split: if_splits)
  have w: "rb_w q = (rb_r q + ring_fill q) mod RING_SIZE" using ring_end [OF assms(1)] by simp
  have "ring_items ?q1 = ring_items q @ [x]"
    unfolding ring_items_def fill ring_slice_Suc
    using ring_slice_upd_outside [of "ring_fill q" "ring_fill q" RING_SIZE "rb_buf q" "rb_r q" x] ring_fill_less [of q]
    by (simp add: w [symmetric])
  moreover have "ring_put x q = Some ?q1" using nf by (simp add: ring_put_def)
  ultimately show ?thesis using g by blast
qed

lemma ring_get_first:
  assumes "ring_good q" and "ring_items q = x # xs"
  shows "\<exists>q1. ring_get q = Some (x, q1) \<and> ring_good q1 \<and> ring_items q1 = xs"
proof -
  let ?q1 = "q\<lparr>rb_r := (if rb_r q + 1 \<ge> RING_SIZE then 0 else rb_r q + 1)\<rparr>"
  have pos: "0 < ring_fill q" using assms(2) length_ring_items [of q] by simp
  have g: "ring_good ?q1" using assms(1) by (auto simp: ring_good_def RING_SIZE_def)
  have fill: "ring_fill ?q1 = ring_fill q - 1"
    using ring_fill_eq [OF g] ring_fill_eq [OF assms(1)] assms(1) pos
    by (auto simp: ring_good_def RING_SIZE_def split: if_splits)
  have "ring_items q = rb_buf q (rb_r q mod RING_SIZE) # ring_slice (rb_buf q) RING_SIZE (Suc (rb_r q) mod RING_SIZE) (ring_fill q - 1)"
    unfolding ring_items_def by (rule ring_slice_Cons [OF pos])
  moreover have "rb_r q mod RING_SIZE = rb_r q" "Suc (rb_r q) mod RING_SIZE = rb_r ?q1"
    using assms(1) by (auto simp: ring_good_def mod_if)
  ultimately have "x = rb_buf q (rb_r q)" "xs = ring_items ?q1"
    using assms(2) fill by (simp_all add: ring_items_def)
  moreover have "rb_r q \<noteq> rb_w q" using ring_empty_iff [OF assms(1)] pos by simp
  ultimately show ?thesis using g by (simp add: ring_get_def)
qed

interpretation rg: bounded_fifo ring_items ring_good "RING_SIZE - 1" ring_put ring_get
proof
  fix q :: ring and x :: u8
  show "ring_good q \<Longrightarrow> length (ring_items q) \<le> RING_SIZE - 1"
    using ring_fill_less [of q] by simp
  show "ring_good q \<Longrightarrow> length (ring_items q) = RING_SIZE - 1 \<Longrightarrow> ring_put x q = None"
    using ring_full_iff [of q] by (simp add: ring_put_def)
  show "ring_good q \<Longrightarrow> length (ring_items q) < RING_SIZE - 1 \<Longrightarrow>
      \<exists>q1. ring_put x q = Some q1 \<and> ring_good q1 \<and> ring_items q1 = ring_items q @ [x]"
    by (rule ring_put_room) simp_all
  show "ring_good q \<Longrightarrow> ring_items q = [] \<Longrightarrow> ring_get q = None"
    using ring_empty_iff [of q] length_ring_items [of q] by (simp add: ring_get_def)
  show "\<exists>q1. ring_get q = Some (x, q1) \<and> ring_good q1 \<and> ring_items q1 = xs"
    if "ring_good q" "ring_items q = x # xs" for xs
    using ring_get_first that by blast
qed

section \<open>The tests of \<open>poll\<close>\<close>

lemma ring_readable_iff: "ring_good q \<Longrightarrow> ring_readable q \<longleftrightarrow> ring_items q \<noteq> []"
  using ring_empty_iff [of q] length_ring_items [of q] by (simp add: ring_readable_def flip: length_0_conv)

lemma ring_writable_iff: "ring_good q \<Longrightarrow> ring_writable q \<longleftrightarrow> length (ring_items q) < RING_SIZE - 1"
  using ring_full_iff [of q] ring_fill_less [of q] by (auto simp: ring_writable_def)

lemma ring_clear_good [simp]: "ring_good (ring_clear q)" "ring_items (ring_clear q) = []"
  by (simp_all add: ring_good_def ring_clear_def RING_SIZE_def ring_items_def ring_fill_def)

end
