(* ===== verification/Ipc.thy ===== *)
theory Ipc
  imports Fifo Task
begin

text \<open>
  Message queues (\<open>src/sys/ipc.c\<close>): sixteen slots, each a ring of 256 messages with a key
  (0 for a free slot) and the last blocked sender and receiver. Every operation runs under
  \<open>ipc_lock\<close>. A send to a full queue and a receive from an empty one give the lock up
  and sleep for a tick: that ends their step (\<open>Asleep\<close>), and \<open>send_again\<close> and
  \<open>receive_again\<close> are the loop's next round. The kernel console is not modelled.
\<close>

section \<open>State\<close>

definition IPC_MAX_QUEUES :: int where
  "IPC_MAX_QUEUES = 16"

definition IPC_MSG_SIZE :: nat where
  "IPC_MSG_SIZE = 128"

definition IPC_QUEUE_DEPTH :: nat where
  "IPC_QUEUE_DEPTH = 256"

record ipc_message =
  im_sender :: u32
  im_type :: u32
  im_data :: "u8 list"
  im_len :: u32

record ipc_queue =
  iq_key :: u32
  iq_msg :: "nat \<Rightarrow> ipc_message"
  iq_head :: nat
  iq_tail :: nat
  iq_count :: nat
  iq_wsend :: int
  iq_wrecv :: int

record ipc =
  ip_q :: "nat \<Rightarrow> ipc_queue"
  ip_init :: bool

definition upd_queue :: "nat \<Rightarrow> (ipc_queue \<Rightarrow> ipc_queue) \<Rightarrow> ipc \<Rightarrow> ipc" where
  "upd_queue i f s = s\<lparr>ip_q := (ip_q s)(i := f (ip_q s i))\<rparr>"

text \<open>\<open>memset\<close> to zero.\<close>

definition queue_zero :: ipc_queue where
  "queue_zero = \<lparr>iq_key = 0, iq_msg = (\<lambda>_. \<lparr>im_sender = 0, im_type = 0, im_data = replicate IPC_MSG_SIZE 0, im_len = 0\<rparr>),
     iq_head = 0, iq_tail = 0, iq_count = 0, iq_wsend = 0, iq_wrecv = 0\<rparr>"

definition ipc_init :: "ipc \<Rightarrow> ipc" where
  "ipc_init s = (if ip_init s then s else \<lparr>ip_q = (\<lambda>_. queue_zero), ip_init = True\<rparr>)"

section \<open>Queues\<close>

definition ipc_queue_create :: "u32 \<Rightarrow> ipc \<Rightarrow> int \<times> ipc" where
  "ipc_queue_create key s =
     (if key = 0 then (0, s)
      else case first_idx (\<lambda>i. iq_key (ip_q s i) = key) 0 (nat IPC_MAX_QUEUES) of
             Some i \<Rightarrow> (int i + 1, s)
           | None \<Rightarrow>
               (case first_idx (\<lambda>i. iq_key (ip_q s i) = 0) 0 (nat IPC_MAX_QUEUES) of
                  Some i \<Rightarrow>
                    (int i + 1,
                     upd_queue i (\<lambda>q. q\<lparr>iq_key := key, iq_head := 0, iq_tail := 0, iq_count := 0,
                                      iq_wsend := -1, iq_wrecv := -1\<rparr>) s)
                | None \<Rightarrow> (0, s)))"

definition ipc_queue_destroy :: "int \<Rightarrow> ipc \<Rightarrow> ipc" where
  "ipc_queue_destroy qid s =
     (if qid < 1 \<or> qid > IPC_MAX_QUEUES then s
      else upd_queue (nat (qid - 1)) (\<lambda>q. q\<lparr>iq_key := 0, iq_count := 0, iq_wsend := -1, iq_wrecv := -1\<rparr>) s)"

definition queue_push :: "ipc_message \<Rightarrow> ipc_queue \<Rightarrow> ipc_queue option" where
  "queue_push m q =
     (if iq_count q \<ge> IPC_QUEUE_DEPTH then None
      else Some (q\<lparr>iq_msg := (iq_msg q)(iq_head q := m), iq_head := (iq_head q + 1) mod IPC_QUEUE_DEPTH,
                   iq_count := iq_count q + 1\<rparr>))"

definition queue_pop :: "ipc_queue \<Rightarrow> (ipc_message \<times> ipc_queue) option" where
  "queue_pop q =
     (if iq_count q = 0 then None
      else Some (iq_msg q (iq_tail q),
                 q\<lparr>iq_tail := (iq_tail q + 1) mod IPC_QUEUE_DEPTH, iq_count := iq_count q - 1\<rparr>))"

section \<open>Sending and receiving\<close>

text \<open>The result of a call, or the tick of sleep after which it tries again. \<open>data\<close> is the
  caller's buffer from the pointer on, \<open>None\<close> for a null pointer.\<close>

datatype 'r ipc_out = Done 'r | Asleep

definition make_message :: "int \<Rightarrow> u32 \<Rightarrow> u8 list option \<Rightarrow> u32 \<Rightarrow> ipc_message" where
  "make_message tid ty data len0 =
     (let len = (if len0 > of_nat IPC_MSG_SIZE then of_nat IPC_MSG_SIZE else len0);
          z = replicate IPC_MSG_SIZE 0
      in \<lparr>im_sender = word_of_int tid, im_type = ty,
          im_data = (case data of None \<Rightarrow> z | Some b \<Rightarrow> if len > 0 then blit 0 (take (unat len) b) z else z),
          im_len = len\<rparr>)"

text \<open>What a receiver stores through its pointers: sender, type, length and the payload.\<close>

definition message_out :: "ipc_message \<Rightarrow> u32 \<times> u32 \<times> u32 \<times> u8 list" where
  "message_out m = (im_sender m, im_type m, im_len m, take (unat (im_len m)) (im_data m))"

definition wake_receiver :: "nat \<Rightarrow> ipc \<Rightarrow> kern \<Rightarrow> ipc \<times> kern" where
  "wake_receiver i s k =
     (let w = iq_wrecv (ip_q s i)
      in if w \<ge> 0 then (upd_queue i (\<lambda>q. q\<lparr>iq_wrecv := -1\<rparr>) s, task_wake w k) else (s, k))"

definition wake_sender :: "nat \<Rightarrow> ipc \<Rightarrow> kern \<Rightarrow> ipc \<times> kern" where
  "wake_sender i s k =
     (let w = iq_wsend (ip_q s i)
      in if w \<ge> 0 then (upd_queue i (\<lambda>q. q\<lparr>iq_wsend := -1\<rparr>) s, task_wake w k) else (s, k))"

definition send_round :: "int \<Rightarrow> nat \<Rightarrow> ipc_message \<Rightarrow> ipc \<times> kern \<Rightarrow> int ipc_out \<times> ipc \<times> kern" where
  "send_round cid i m = (\<lambda>(s, k).
     case queue_push m (ip_q s i) of
       None \<Rightarrow> (Asleep, upd_queue i (\<lambda>q. q\<lparr>iq_wsend := kn_cur k cid\<rparr>) s, task_sleep cid 1 k)
     | Some q1 \<Rightarrow> (Done 0, wake_receiver i (upd_queue i (\<lambda>_. q1) s) k))"

definition ipc_send :: "int \<Rightarrow> int \<Rightarrow> u32 \<Rightarrow> u8 list option \<Rightarrow> u32 \<Rightarrow> ipc \<times> kern \<Rightarrow> int ipc_out \<times> ipc \<times> kern" where
  "ipc_send cid qid ty data len = (\<lambda>(s, k).
     if qid < 1 \<or> qid > IPC_MAX_QUEUES then (Done (-1), s, k)
     else if iq_key (ip_q s (nat (qid - 1))) = 0 then (Done (-1), s, k)
     else send_round cid (nat (qid - 1)) (make_message (kn_cur k cid) ty data len) (s, k))"

definition send_again :: "int \<Rightarrow> nat \<Rightarrow> ipc_message \<Rightarrow> ipc \<times> kern \<Rightarrow> int ipc_out \<times> ipc \<times> kern" where
  "send_again cid i m = (\<lambda>(s, k).
     if iq_key (ip_q s i) = 0 then (Done (-1), s, k) else send_round cid i m (s, k))"

definition receive_round ::
  "int \<Rightarrow> nat \<Rightarrow> ipc \<times> kern \<Rightarrow> (u32 \<times> u32 \<times> u32 \<times> u8 list) option ipc_out \<times> ipc \<times> kern" where
  "receive_round cid i = (\<lambda>(s, k).
     case queue_pop (ip_q s i) of
       None \<Rightarrow> (Asleep, upd_queue i (\<lambda>q. q\<lparr>iq_wrecv := kn_cur k cid\<rparr>) s, task_sleep cid 1 k)
     | Some (m, q1) \<Rightarrow> (Done (Some (message_out m)), wake_sender i (upd_queue i (\<lambda>_. q1) s) k))"

text \<open>\<open>None\<close> is the return value -1, \<open>Some\<close> a message and 0.\<close>

definition ipc_receive ::
  "int \<Rightarrow> int \<Rightarrow> ipc \<times> kern \<Rightarrow> (u32 \<times> u32 \<times> u32 \<times> u8 list) option ipc_out \<times> ipc \<times> kern" where
  "ipc_receive cid qid = (\<lambda>(s, k).
     if qid < 1 \<or> qid > IPC_MAX_QUEUES then (Done None, s, k)
     else if iq_key (ip_q s (nat (qid - 1))) = 0 then (Done None, s, k)
     else receive_round cid (nat (qid - 1)) (s, k))"

definition receive_again ::
  "int \<Rightarrow> nat \<Rightarrow> ipc \<times> kern \<Rightarrow> (u32 \<times> u32 \<times> u32 \<times> u8 list) option ipc_out \<times> ipc \<times> kern" where
  "receive_again cid i = (\<lambda>(s, k).
     if iq_key (ip_q s i) = 0 then (Done None, s, k) else receive_round cid i (s, k))"

definition ipc_try_send :: "int \<Rightarrow> int \<Rightarrow> u32 \<Rightarrow> u8 list option \<Rightarrow> u32 \<Rightarrow> ipc \<times> kern \<Rightarrow> int \<times> ipc \<times> kern" where
  "ipc_try_send cid qid ty data len = (\<lambda>(s, k).
     if qid < 1 \<or> qid > IPC_MAX_QUEUES then (-1, s, k)
     else
       (let i = nat (qid - 1)
        in if iq_key (ip_q s i) = 0 then (-1, s, k)
           else case queue_push (make_message (kn_cur k cid) ty data len) (ip_q s i) of
                  None \<Rightarrow> (-1, s, k)
                | Some q1 \<Rightarrow> (0, wake_receiver i (upd_queue i (\<lambda>_. q1) s) k)))"

definition ipc_try_receive ::
  "int \<Rightarrow> ipc \<times> kern \<Rightarrow> (u32 \<times> u32 \<times> u32 \<times> u8 list) option \<times> ipc \<times> kern" where
  "ipc_try_receive qid = (\<lambda>(s, k).
     if qid < 1 \<or> qid > IPC_MAX_QUEUES then (None, s, k)
     else
       (let i = nat (qid - 1)
        in if iq_key (ip_q s i) = 0 then (None, s, k)
           else case queue_pop (ip_q s i) of
                  None \<Rightarrow> (None, s, k)
                | Some (m, q1) \<Rightarrow> (Some (message_out m), wake_sender i (upd_queue i (\<lambda>_. q1) s) k)))"

end
