(* ===== verification/Ipc_Props.thy ===== *)
theory Ipc_Props
  imports Ipc
begin

text \<open>
  The message queues refine sixteen keyed channels, each a list of at most 256 messages:
  every call returns what the channels return, whoever is woken or put to sleep. The ring of
  a queue is an instance of the bounded queues of \<open>Fifo\<close>. The last part shows what a
  blocked sender does when its slot is given to another key while it sleeps.
\<close>

section \<open>The ring of a queue\<close>

definition queue_items :: "ipc_queue \<Rightarrow> ipc_message list" where
  "queue_items q = ring_slice (iq_msg q) IPC_QUEUE_DEPTH (iq_tail q) (iq_count q)"

definition queue_good :: "ipc_queue \<Rightarrow> bool" where
  "queue_good q \<longleftrightarrow> iq_count q \<le> IPC_QUEUE_DEPTH \<and> iq_tail q < IPC_QUEUE_DEPTH
     \<and> iq_head q = (iq_tail q + iq_count q) mod IPC_QUEUE_DEPTH"

lemma length_queue_items [simp]: "length (queue_items q) = iq_count q"
  by (simp add: queue_items_def)

interpretation iq: bounded_fifo queue_items queue_good IPC_QUEUE_DEPTH queue_push queue_pop
proof
  fix q :: ipc_queue and x :: ipc_message
  show "queue_good q \<Longrightarrow> length (queue_items q) \<le> IPC_QUEUE_DEPTH" by (simp add: queue_good_def)
  show "queue_good q \<Longrightarrow> length (queue_items q) = IPC_QUEUE_DEPTH \<Longrightarrow> queue_push x q = None"
    by (simp add: queue_push_def)
  show "queue_good q \<Longrightarrow> queue_items q = [] \<Longrightarrow> queue_pop q = None"
    using length_queue_items [of q] by (simp add: queue_pop_def)
  show "\<exists>q1. queue_push x q = Some q1 \<and> queue_good q1 \<and> queue_items q1 = queue_items q @ [x]"
    if g: "queue_good q" and l: "length (queue_items q) < IPC_QUEUE_DEPTH"
  proof -
    let ?q1 = "q\<lparr>iq_msg := (iq_msg q)(iq_head q := x), iq_head := (iq_head q + 1) mod IPC_QUEUE_DEPTH, iq_count := iq_count q + 1\<rparr>"
    have "queue_items ?q1 = queue_items q @ [x]"
      using g l by (simp add: queue_items_def queue_good_def ring_slice_Suc ring_slice_upd_outside)
    moreover have "queue_good ?q1" using g l by (simp add: queue_good_def mod_simps)
    ultimately show ?thesis using l by (simp add: queue_push_def)
  qed
  show "\<exists>q1. queue_pop q = Some (x, q1) \<and> queue_good q1 \<and> queue_items q1 = xs"
    if g: "queue_good q" and i: "queue_items q = x # xs" for xs
  proof -
    let ?q1 = "q\<lparr>iq_tail := (iq_tail q + 1) mod IPC_QUEUE_DEPTH, iq_count := iq_count q - 1\<rparr>"
    have pos: "0 < iq_count q" using i length_queue_items [of q] by simp
    have "queue_items q = iq_msg q (iq_tail q mod IPC_QUEUE_DEPTH) # queue_items ?q1"
      using ring_slice_Cons [OF pos] by (simp add: queue_items_def)
    then have "x = iq_msg q (iq_tail q)" "xs = queue_items ?q1"
      using g i by (simp_all add: queue_good_def)
    moreover have "queue_good ?q1"
      using g pos by (cases "iq_count q") (simp_all add: queue_good_def mod_simps)
    ultimately show ?thesis using pos by (simp add: queue_pop_def)
  qed
qed

section \<open>The abstract channels\<close>

text \<open>A channel table gives each slot its key and its messages, oldest first.\<close>

type_synonym chans = "nat \<Rightarrow> (u32 \<times> ipc_message list) option"

datatype iop =
    OpCreate u32
  | OpDestroy int
  | OpSend int u32 "u8 list option" u32
  | OpSendAgain nat ipc_message
  | OpReceive int
  | OpReceiveAgain nat
  | OpTrySend int u32 "u8 list option" u32
  | OpTryReceive int

datatype ipc_res =
    RQueue int
  | RUnit
  | RSent int
  | RGot "(u32 \<times> u32 \<times> u32 \<times> u8 list) option"
  | RAsleep

definition chan_create :: "u32 \<Rightarrow> chans \<Rightarrow> ipc_res \<times> chans" where
  "chan_create key c =
     (if key = 0 then (RQueue 0, c)
      else case first_idx (\<lambda>i. map_option fst (c i) = Some key) 0 16 of
             Some i \<Rightarrow> (RQueue (int i + 1), c)
           | None \<Rightarrow>
               (case first_idx (\<lambda>i. c i = None) 0 16 of
                  Some i \<Rightarrow> (RQueue (int i + 1), c(i \<mapsto> (key, [])))
                | None \<Rightarrow> (RQueue 0, c)))"

definition chan_send :: "nat \<Rightarrow> ipc_message \<Rightarrow> ipc_res \<Rightarrow> chans \<Rightarrow> ipc_res \<times> chans" where
  "chan_send i m full c =
     (case c i of
        None \<Rightarrow> (RSent (-1), c)
      | Some (key, ms) \<Rightarrow> if length ms < 256 then (RSent 0, c(i \<mapsto> (key, ms @ [m]))) else (full, c))"

definition chan_receive :: "nat \<Rightarrow> ipc_res \<Rightarrow> chans \<Rightarrow> ipc_res \<times> chans" where
  "chan_receive i dry c =
     (case c i of
        None \<Rightarrow> (RGot None, c)
      | Some (key, []) \<Rightarrow> (dry, c)
      | Some (key, m # ms) \<Rightarrow> (RGot (Some (message_out m)), c(i \<mapsto> (key, ms))))"

definition qid_ok :: "int \<Rightarrow> bool" where
  "qid_ok qid \<longleftrightarrow> 1 \<le> qid \<and> qid \<le> 16"

fun chan_op :: "int \<Rightarrow> iop \<Rightarrow> chans \<Rightarrow> ipc_res \<times> chans" where
  "chan_op tid (OpCreate key) c = chan_create key c"
| "chan_op tid (OpDestroy qid) c = (RUnit, if qid_ok qid then c(nat (qid - 1) := None) else c)"
| "chan_op tid (OpSend qid ty data len) c =
     (if qid_ok qid then chan_send (nat (qid - 1)) (make_message tid ty data len) RAsleep c else (RSent (-1), c))"
| "chan_op tid (OpSendAgain i m) c = chan_send i m RAsleep c"
| "chan_op tid (OpReceive qid) c =
     (if qid_ok qid then chan_receive (nat (qid - 1)) RAsleep c else (RGot None, c))"
| "chan_op tid (OpReceiveAgain i) c = chan_receive i RAsleep c"
| "chan_op tid (OpTrySend qid ty data len) c =
     (if qid_ok qid then chan_send (nat (qid - 1)) (make_message tid ty data len) (RSent (-1)) c else (RSent (-1), c))"
| "chan_op tid (OpTryReceive qid) c =
     (if qid_ok qid then chan_receive (nat (qid - 1)) (RGot None) c else (RGot None, c))"

fun chan_run :: "(int \<times> iop) list \<Rightarrow> chans \<Rightarrow> ipc_res list \<times> chans" where
  "chan_run [] c = ([], c)"
| "chan_run ((tid, op) # ops) c =
     (let (r, c1) = chan_op tid op c; (rs, c2) = chan_run ops c1 in (r # rs, c2))"

section \<open>The code's calls\<close>

definition sent_res :: "int ipc_out \<Rightarrow> ipc_res" where
  "sent_res r = (case r of Done v \<Rightarrow> RSent v | Asleep \<Rightarrow> RAsleep)"

definition got_res :: "(u32 \<times> u32 \<times> u32 \<times> u8 list) option ipc_out \<Rightarrow> ipc_res" where
  "got_res r = (case r of Done v \<Rightarrow> RGot v | Asleep \<Rightarrow> RAsleep)"

fun ipc_do :: "int \<Rightarrow> iop \<Rightarrow> ipc \<times> kern \<Rightarrow> ipc_res \<times> ipc \<times> kern" where
  "ipc_do cid (OpCreate key) (s, k) = (let (r, s1) = ipc_queue_create key s in (RQueue r, s1, k))"
| "ipc_do cid (OpDestroy qid) (s, k) = (RUnit, ipc_queue_destroy qid s, k)"
| "ipc_do cid (OpSend qid ty data len) sk = (let (r, sk1) = ipc_send cid qid ty data len sk in (sent_res r, sk1))"
| "ipc_do cid (OpSendAgain i m) sk = (let (r, sk1) = send_again cid i m sk in (sent_res r, sk1))"
| "ipc_do cid (OpReceive qid) sk = (let (r, sk1) = ipc_receive cid qid sk in (got_res r, sk1))"
| "ipc_do cid (OpReceiveAgain i) sk = (let (r, sk1) = receive_again cid i sk in (got_res r, sk1))"
| "ipc_do cid (OpTrySend qid ty data len) sk = (let (r, sk1) = ipc_try_send cid qid ty data len sk in (RSent r, sk1))"
| "ipc_do cid (OpTryReceive qid) sk = (let (r, sk1) = ipc_try_receive qid sk in (RGot r, sk1))"

fun ipc_run :: "(int \<times> iop) list \<Rightarrow> ipc \<times> kern \<Rightarrow> ipc_res list \<times> ipc \<times> kern" where
  "ipc_run [] sk = ([], sk)"
| "ipc_run ((cid, op) # ops) sk =
     (let (r, sk1) = ipc_do cid op sk; (rs, sk2) = ipc_run ops sk1 in (r # rs, sk2))"

definition ipc_ok :: "ipc \<Rightarrow> bool" where
  "ipc_ok s \<longleftrightarrow> (\<forall>i. iq_key (ip_q s i) \<noteq> 0 \<longrightarrow> queue_good (ip_q s i))"

definition chans_of :: "ipc \<Rightarrow> chans" where
  "chans_of s = (\<lambda>i. if iq_key (ip_q s i) = 0 then None else Some (iq_key (ip_q s i), queue_items (ip_q s i)))"

section \<open>The refinement\<close>

lemma waiting_irrelevant [simp]:
  "queue_good (q\<lparr>iq_wsend := v\<rparr>) = queue_good q" "queue_good (q\<lparr>iq_wrecv := v\<rparr>) = queue_good q"
  "queue_items (q\<lparr>iq_wsend := v\<rparr>) = queue_items q" "queue_items (q\<lparr>iq_wrecv := v\<rparr>) = queue_items q"
  by (simp_all add: queue_good_def queue_items_def)

lemma upd_queue_simps [simp]:
  "ip_q (upd_queue i f s) j = (if j = i then f (ip_q s i) else ip_q s j)"
  by (simp add: upd_queue_def)

lemma chans_waiting [simp]:
  "chans_of (upd_queue i (\<lambda>q. q\<lparr>iq_wsend := v\<rparr>) s) = chans_of s"
  "chans_of (upd_queue i (\<lambda>q. q\<lparr>iq_wrecv := v\<rparr>) s) = chans_of s"
  "ipc_ok (upd_queue i (\<lambda>q. q\<lparr>iq_wsend := v\<rparr>) s) = ipc_ok s"
  "ipc_ok (upd_queue i (\<lambda>q. q\<lparr>iq_wrecv := v\<rparr>) s) = ipc_ok s"
  by (auto simp: chans_of_def ipc_ok_def fun_eq_iff)

lemma wake_refines:
  "wake_receiver i s k = (s1, k1) \<Longrightarrow> chans_of s1 = chans_of s \<and> ipc_ok s1 = ipc_ok s"
  "wake_sender i s k = (s1, k1) \<Longrightarrow> chans_of s1 = chans_of s \<and> ipc_ok s1 = ipc_ok s"
  by (auto simp: wake_receiver_def wake_sender_def Let_def split: if_splits)

lemma chans_of_set_queue:
  "iq_key q1 = iq_key (ip_q s i) \<Longrightarrow> iq_key (ip_q s i) \<noteq> 0 \<Longrightarrow>
     chans_of (upd_queue i (\<lambda>_. q1) s) = (chans_of s)(i \<mapsto> (iq_key (ip_q s i), queue_items q1))"
  by (auto simp: chans_of_def fun_eq_iff)

lemma ipc_ok_set_queue: "ipc_ok s \<Longrightarrow> queue_good q1 \<Longrightarrow> ipc_ok (upd_queue i (\<lambda>_. q1) s)"
  by (auto simp: ipc_ok_def)

lemma push_key: "queue_push m q = Some q1 \<Longrightarrow> iq_key q1 = iq_key q"
  by (auto simp: queue_push_def split: if_splits)

lemma pop_key: "queue_pop q = Some (m, q1) \<Longrightarrow> iq_key q1 = iq_key q"
  by (auto simp: queue_pop_def split: if_splits)

lemma chan_get:
  "iq_key (ip_q s i) \<noteq> 0 \<Longrightarrow> chans_of s i = Some (iq_key (ip_q s i), queue_items (ip_q s i))"
  "iq_key (ip_q s i) = 0 \<Longrightarrow> chans_of s i = None"
  by (simp_all add: chans_of_def)

lemma push_refines:
  assumes "ipc_ok s" and "iq_key (ip_q s i) \<noteq> 0"
  shows "case queue_push m (ip_q s i) of
      None \<Rightarrow> chan_send i m full (chans_of s) = (full, chans_of s)
    | Some q1 \<Rightarrow> chan_send i m full (chans_of s) = (RSent 0, chans_of (upd_queue i (\<lambda>_. q1) s))
        \<and> ipc_ok (upd_queue i (\<lambda>_. q1) s)"
proof (cases "queue_push m (ip_q s i)")
  case None
  then show ?thesis using assms by (simp add: chan_send_def chan_get iq.put_None_iff queue_push_def IPC_QUEUE_DEPTH_def split: if_splits)
next
  case (Some q1)
  have g: "queue_good (ip_q s i)" using assms by (simp add: ipc_ok_def)
  from iq.put_SomeD [OF g Some] push_key [OF Some] show ?thesis
    using assms Some by (simp add: chan_send_def chan_get chans_of_set_queue ipc_ok_set_queue IPC_QUEUE_DEPTH_def)
qed

lemma pop_refines:
  assumes "ipc_ok s" and "iq_key (ip_q s i) \<noteq> 0"
  shows "case queue_pop (ip_q s i) of
      None \<Rightarrow> chan_receive i none (chans_of s) = (none, chans_of s)
    | Some (m, q1) \<Rightarrow> chan_receive i none (chans_of s) = (RGot (Some (message_out m)), chans_of (upd_queue i (\<lambda>_. q1) s))
        \<and> ipc_ok (upd_queue i (\<lambda>_. q1) s)"
proof (cases "queue_pop (ip_q s i)")
  case None
  have g: "queue_good (ip_q s i)" using assms by (simp add: ipc_ok_def)
  from None iq.get_None_iff [OF g] show ?thesis using assms by (simp add: chan_receive_def chan_get)
next
  case (Some p)
  then obtain m q1 where p: "queue_pop (ip_q s i) = Some (m, q1)" by (cases p) simp
  have g: "queue_good (ip_q s i)" using assms by (simp add: ipc_ok_def)
  from iq.get_SomeD [OF g p] pop_key [OF p] show ?thesis
    using assms p by (simp add: chan_receive_def chan_get chans_of_set_queue ipc_ok_set_queue)
qed

lemma send_round_refines:
  assumes "ipc_ok s" and "iq_key (ip_q s i) \<noteq> 0" and "send_round cid i m (s, k) = (r, s1, k1)"
  shows "chan_send i m RAsleep (chans_of s) = (sent_res r, chans_of s1) \<and> ipc_ok s1"
  using push_refines [OF assms(1,2), of m RAsleep] assms
  by (auto simp: send_round_def sent_res_def split: option.splits dest!: wake_refines)

lemma receive_round_refines:
  assumes "ipc_ok s" and "iq_key (ip_q s i) \<noteq> 0" and "receive_round cid i (s, k) = (r, s1, k1)"
  shows "chan_receive i RAsleep (chans_of s) = (got_res r, chans_of s1) \<and> ipc_ok s1"
  using pop_refines [OF assms(1,2), of RAsleep] assms
  by (auto simp: receive_round_def got_res_def split: option.splits dest!: wake_refines)

lemma create_refines:
  assumes "ipc_ok s" and "ipc_queue_create key s = (r, s1)"
  shows "chan_create key (chans_of s) = (RQueue r, chans_of s1) \<and> ipc_ok s1"
proof (cases "key = 0")
  case True
  then show ?thesis using assms by (simp add: chan_create_def ipc_queue_create_def)
next
  case False
  have e: "(\<lambda>i. map_option fst (chans_of s i) = Some key) = (\<lambda>i. iq_key (ip_q s i) = key)"
    using False by (auto simp: chans_of_def fun_eq_iff)
  have n: "(\<lambda>i. chans_of s i = None) = (\<lambda>i. iq_key (ip_q s i) = 0)" by (simp add: chans_of_def fun_eq_iff)
  let ?new = "\<lambda>q. q\<lparr>iq_key := key, iq_head := 0, iq_tail := 0, iq_count := 0, iq_wsend := -1, iq_wrecv := -1\<rparr>"
  have c: "chans_of (upd_queue i ?new s) = (chans_of s)(i \<mapsto> (key, []))" for i
    using False by (auto simp: chans_of_def queue_items_def fun_eq_iff)
  have o: "ipc_ok (upd_queue i ?new s)" for i
    using assms(1) by (auto simp: ipc_ok_def queue_good_def IPC_QUEUE_DEPTH_def)
  have u: "chan_create key (chans_of s) =
      (case first_idx (\<lambda>i. iq_key (ip_q s i) = key) 0 16 of
         Some i \<Rightarrow> (RQueue (int i + 1), chans_of s)
       | None \<Rightarrow>
           (case first_idx (\<lambda>i. iq_key (ip_q s i) = 0) 0 16 of
              Some i \<Rightarrow> (RQueue (int i + 1), (chans_of s)(i \<mapsto> (key, [])))
            | None \<Rightarrow> (RQueue 0, chans_of s)))"
    unfolding chan_create_def e n using False by simp
  show ?thesis
    using assms False c o unfolding u by (auto simp: ipc_queue_create_def IPC_MAX_QUEUES_def split: option.splits)
qed

lemma destroy_refines:
  "chans_of (ipc_queue_destroy qid s) = (if qid_ok qid then (chans_of s)(nat (qid - 1) := None) else chans_of s)"
  "ipc_ok s \<Longrightarrow> ipc_ok (ipc_queue_destroy qid s)"
  by (auto simp: ipc_queue_destroy_def qid_ok_def IPC_MAX_QUEUES_def chans_of_def ipc_ok_def fun_eq_iff)

lemma send_refines:
  assumes "ipc_ok s" and "ipc_send cid qid ty data len (s, k) = (r, s1, k1)"
  shows "chan_op (kn_cur k cid) (OpSend qid ty data len) (chans_of s) = (sent_res r, chans_of s1) \<and> ipc_ok s1"
  using assms send_round_refines [OF assms(1)]
  by (auto simp: ipc_send_def qid_ok_def IPC_MAX_QUEUES_def chan_send_def chan_get sent_res_def split: if_splits)

lemma receive_refines:
  assumes "ipc_ok s" and "ipc_receive cid qid (s, k) = (r, s1, k1)"
  shows "chan_op tid (OpReceive qid) (chans_of s) = (got_res r, chans_of s1) \<and> ipc_ok s1"
  using assms receive_round_refines [OF assms(1)]
  by (auto simp: ipc_receive_def qid_ok_def IPC_MAX_QUEUES_def chan_receive_def chan_get got_res_def split: if_splits)

lemma try_send_refines:
  assumes "ipc_ok s" and "ipc_try_send cid qid ty data len (s, k) = (r, s1, k1)"
  shows "chan_op (kn_cur k cid) (OpTrySend qid ty data len) (chans_of s) = (RSent r, chans_of s1) \<and> ipc_ok s1"
proof -
  let ?i = "nat (qid - 1)"
  show ?thesis
  proof (cases "qid_ok qid \<and> iq_key (ip_q s ?i) \<noteq> 0")
    case True
    then show ?thesis
      using push_refines [OF assms(1), of ?i "make_message (kn_cur k cid) ty data len" "RSent (-1)"] assms
      by (auto simp: ipc_try_send_def Let_def qid_ok_def IPC_MAX_QUEUES_def split: option.splits dest!: wake_refines)
  next
    case False
    then show ?thesis using assms
      by (auto simp: ipc_try_send_def qid_ok_def IPC_MAX_QUEUES_def chan_send_def chan_get split: if_splits)
  qed
qed

lemma try_receive_refines:
  assumes "ipc_ok s" and "ipc_try_receive qid (s, k) = (r, s1, k1)"
  shows "chan_op tid (OpTryReceive qid) (chans_of s) = (RGot r, chans_of s1) \<and> ipc_ok s1"
proof -
  let ?i = "nat (qid - 1)"
  show ?thesis
  proof (cases "qid_ok qid \<and> iq_key (ip_q s ?i) \<noteq> 0")
    case True
    then show ?thesis
      using pop_refines [OF assms(1), of ?i "RGot None"] assms
      by (auto simp: ipc_try_receive_def Let_def qid_ok_def IPC_MAX_QUEUES_def split: option.splits prod.splits dest!: wake_refines)
  next
    case False
    then show ?thesis using assms
      by (auto simp: ipc_try_receive_def qid_ok_def IPC_MAX_QUEUES_def chan_receive_def chan_get split: if_splits)
  qed
qed

lemma again_refines:
  "ipc_ok s \<Longrightarrow> send_again cid i m (s, k) = (r, s1, k1) \<Longrightarrow>
     chan_op tid (OpSendAgain i m) (chans_of s) = (sent_res r, chans_of s1) \<and> ipc_ok s1"
  "ipc_ok s \<Longrightarrow> receive_again cid i (s, k) = (r', s1, k1) \<Longrightarrow>
     chan_op tid (OpReceiveAgain i) (chans_of s) = (got_res r', chans_of s1) \<and> ipc_ok s1"
  using send_round_refines [of s i cid m k r s1 k1] receive_round_refines [of s i cid k r' s1 k1]
  by (auto simp: send_again_def receive_again_def chan_send_def chan_receive_def chan_get sent_res_def got_res_def
      split: if_splits)

lemma ipc_do_refines:
  assumes "ipc_ok s" and "ipc_do cid op (s, k) = (r, s1, k1)"
  shows "chan_op (kn_cur k cid) op (chans_of s) = (r, chans_of s1) \<and> ipc_ok s1"
  using assms
  by (cases op) (auto dest: create_refines send_refines receive_refines try_send_refines try_receive_refines again_refines
      simp: destroy_refines split: prod.splits)

lemma sleep_wake_cur [simp]:
  "kn_cur (task_sleep cid n k) = kn_cur k" "kn_cur (task_wake t k) = kn_cur k"
  by (simp_all add: task_sleep_def task_wake_def rq_remove_def rq_enqueue_wake_def rq_enqueue_def upd_task_def Let_def)

lemma wake_cur [simp]:
  "kn_cur (snd (wake_receiver i s k)) = kn_cur k" "kn_cur (snd (wake_sender i s k)) = kn_cur k"
  by (simp_all add: wake_receiver_def wake_sender_def Let_def)

lemma send_round_cur: "send_round cid i m (s, k) = (r, s1, k1) \<Longrightarrow> kn_cur k1 = kn_cur k"
  by (auto simp: send_round_def split: option.splits) (metis snd_conv wake_cur(1))

lemma receive_round_cur: "receive_round cid i (s, k) = (r, s1, k1) \<Longrightarrow> kn_cur k1 = kn_cur k"
  by (auto simp: receive_round_def split: option.splits) (metis snd_conv wake_cur(2))

lemma try_cur:
  "ipc_try_send cid qid ty data len (s, k) = (r, s1, k1) \<Longrightarrow> kn_cur k1 = kn_cur k"
  "ipc_try_receive qid (s, k) = (r', s1, k1) \<Longrightarrow> kn_cur k1 = kn_cur k"
  by (auto simp: ipc_try_send_def ipc_try_receive_def Let_def split: if_splits option.splits)
    (metis snd_conv wake_cur)+

lemma ipc_do_cur: "ipc_do cid op (s, k) = (r, s1, k1) \<Longrightarrow> kn_cur k1 = kn_cur k"
  by (cases op) (auto simp: ipc_send_def ipc_receive_def send_again_def receive_again_def
      dest: send_round_cur receive_round_cur try_cur split: prod.splits if_splits)

text \<open>The payload that arrives: the first 128 bytes at most, with sender, type and length.\<close>

lemma message_roundtrip:
  assumes "unat len \<le> length b"
  shows "message_out (make_message tid ty (Some b) len)
    = (word_of_int tid, ty, (if len > 128 then 128 else len), take (min 128 (unat len)) b)"
proof -
  have "unat len \<le> 128 \<longleftrightarrow> \<not> len > 128" by (simp add: word_less_nat_alt not_less)
  then show ?thesis using assms
    by (auto simp: message_out_def make_message_def IPC_MSG_SIZE_def Let_def blit_def min_def word_gt_0 unat_eq_zero)
qed

text \<open>C35: The message queues refine keyed channels. In every run of calls by any processors, from
  a consistent table, each call returns exactly what it returns on sixteen lists of at most 256
  messages: messages come out once, in the order they were accepted, of the queue they were sent
  to, with full and empty queues reported or slept on.\<close>

theorem ipc_refines_channels:
  assumes "ipc_ok s" and "ipc_run ops (s, k) = (rs, s1, k1)"
  shows "chan_run (map (\<lambda>(cid, op). (kn_cur k cid, op)) ops) (chans_of s) = (rs, chans_of s1) \<and> ipc_ok s1"
  using assms
proof (induction ops arbitrary: s k rs)
  case Nil
  then show ?case by simp
next
  case (Cons x ops)
  obtain cid op where x: "x = (cid, op)" by (cases x)
  obtain r s2 k2 where d: "ipc_do cid op (s, k) = (r, s2, k2)" by (cases "ipc_do cid op (s, k)") auto
  obtain rs2 where e: "ipc_run ops (s2, k2) = (rs2, s1, k1)" "rs = r # rs2"
    using Cons.prems(2) x d by (auto split: prod.splits)
  from ipc_do_refines [OF Cons.prems(1) d]
  have o: "chan_op (kn_cur k cid) op (chans_of s) = (r, chans_of s2)" "ipc_ok s2" by simp_all
  from Cons.IH [OF o(2) e(1)] o(1) ipc_do_cur [OF d] x e(2) show ?case by simp
qed

section \<open>A blocked sender and a reused slot\<close>

text \<open>A sender that sleeps on a full queue only looks whether its slot has a key when it wakes.
  When the queue is destroyed and the slot given to another key meanwhile, the message is delivered
  to that other queue and the send reports success.\<close>

theorem blocked_send_reaches_other_queue:
  assumes "ipc_ok s" and "1 \<le> qid" and "qid \<le> 16" and "iq_key (ip_q s (nat (qid - 1))) = a" and "a \<noteq> 0"
    and "iq_count (ip_q s (nat (qid - 1))) = 256" and "b \<noteq> 0" and "\<forall>i < 16. iq_key (ip_q s i) \<noteq> b"
    and "\<forall>i < nat (qid - 1). iq_key (ip_q s i) \<noteq> 0"
  shows "\<exists>s1 k1 s2 s3 k3. ipc_send cid qid ty data len (s, k) = (Asleep, s1, k1)
     \<and> ipc_queue_create b (ipc_queue_destroy qid s1) = (qid, s2)
     \<and> send_again cid (nat (qid - 1)) (make_message (kn_cur k cid) ty data len) (s2, k2) = (Done 0, s3, k3)
     \<and> chans_of s3 (nat (qid - 1)) = Some (b, [make_message (kn_cur k cid) ty data len])"
proof -
  let ?i = "nat (qid - 1)" and ?m = "make_message (kn_cur k cid) ty data len"
  let ?s1 = "upd_queue ?i (\<lambda>q. q\<lparr>iq_wsend := kn_cur k cid\<rparr>) s"
  let ?d = "ipc_queue_destroy qid ?s1"
  let ?s2 = "upd_queue ?i (\<lambda>q. q\<lparr>iq_key := b, iq_head := 0, iq_tail := 0, iq_count := 0, iq_wsend := -1, iq_wrecv := -1\<rparr>) ?d"
  have i: "?i < 16" "int ?i + 1 = qid" using assms(2,3) by auto
  have send: "ipc_send cid qid ty data len (s, k) = (Asleep, ?s1, task_sleep cid 1 k)"
    using assms(2-6) by (simp add: ipc_send_def IPC_MAX_QUEUES_def send_round_def queue_push_def IPC_QUEUE_DEPTH_def)
  have dk: "iq_key (ip_q ?d j) = (if j = ?i then 0 else iq_key (ip_q s j))" for j
    using assms(2,3) by (simp add: ipc_queue_destroy_def IPC_MAX_QUEUES_def)
  have "first_idx (\<lambda>j. iq_key (ip_q ?d j) = b) 0 16 = None"
    using assms(7,8) by (auto simp: dk first_idx_None)
  moreover have "first_idx (\<lambda>j. iq_key (ip_q ?d j) = 0) 0 16 = Some ?i"
  proof -
    obtain n where n: "first_idx (\<lambda>j. iq_key (ip_q ?d j) = 0) 0 16 = Some n"
      using first_idx_complete [of 0 ?i 16 "\<lambda>j. iq_key (ip_q ?d j) = 0"] i by (auto simp: dk)
    from first_idx_Some [OF n] assms(9) dk have "n = ?i"
      by (metis (mono_tags, lifting) le0 linorder_neqE_nat)
    then show ?thesis using n by simp
  qed
  ultimately have create: "ipc_queue_create b ?d = (qid, ?s2)"
    using assms(7) i(2) by (simp add: ipc_queue_create_def IPC_MAX_QUEUES_def)
  have k: "iq_key (ip_q ?s2 ?i) = b" "iq_count (ip_q ?s2 ?i) = 0" "queue_good (ip_q ?s2 ?i)" "iq_wrecv (ip_q ?s2 ?i) = -1"
    by (simp_all add: queue_good_def IPC_QUEUE_DEPTH_def)
  from iq.put_room [OF k(3), of ?m] obtain q1 where q1: "queue_push ?m (ip_q ?s2 ?i) = Some q1"
      "queue_items q1 = queue_items (ip_q ?s2 ?i) @ [?m]" by (auto simp: IPC_QUEUE_DEPTH_def)
  have q0: "queue_items (ip_q ?s2 ?i) = []" by (simp add: queue_items_def)
  have w: "iq_wrecv q1 = -1" "iq_key q1 = b" using q1(1) k by (auto simp: queue_push_def split: if_splits)
  have "send_again cid ?i ?m (?s2, k2) = (Done 0, upd_queue ?i (\<lambda>_. q1) ?s2, k2)"
    using q1(1) w(1) assms(7) k(1)
    by (simp add: send_again_def send_round_def wake_receiver_def del: upd_queue_simps) (simp add: upd_queue_def)
  moreover have "chans_of (upd_queue ?i (\<lambda>_. q1) ?s2) ?i = Some (b, [?m])"
    using w(2) assms(7) q1(2) q0 by (simp add: chans_of_def)
  ultimately show ?thesis using send create by blast
qed

section \<open>Instances\<close>

definition ipc_fresh :: ipc where
  "ipc_fresh = \<lparr>ip_q = (\<lambda>_. queue_zero), ip_init = True\<rparr>"

text \<open>A table whose first queue, key 7, is full.\<close>

definition ipc_packed :: ipc where
  "ipc_packed = upd_queue 0 (\<lambda>q. q\<lparr>iq_key := 7, iq_count := 256\<rparr>) ipc_fresh"

lemma fresh_ok: "ipc_ok ipc_fresh" "chans_of ipc_fresh = (\<lambda>_. None)"
  by (simp_all add: ipc_ok_def chans_of_def ipc_fresh_def queue_zero_def)

lemma packed_ok: "ipc_ok ipc_packed"
  by (simp add: ipc_ok_def ipc_packed_def ipc_fresh_def queue_zero_def queue_good_def IPC_QUEUE_DEPTH_def)

theorem ipc_refines_channels_witness:
  "\<forall>k. fst (ipc_run [(0, OpCreate 7), (1, OpTrySend 1 5 (Some [65, 66]) 2), (0, OpTryReceive 1), (0, OpTryReceive 1)]
       (ipc_fresh, k))
     = [RQueue 1, RSent 0, RGot (Some (word_of_int (kn_cur k 1), 5, 2, [65, 66])), RGot None]"
proof
  fix k :: kern
  let ?ops = "[(0, OpCreate 7), (1, OpTrySend 1 5 (Some [65, 66]) 2), (0, OpTryReceive 1), (0, OpTryReceive 1)]"
  obtain rs s1 k1 where r: "ipc_run ?ops (ipc_fresh, k) = (rs, s1, k1)" by (metis surj_pair)
  have "fst (chan_run (map (\<lambda>(cid, op). (kn_cur k cid, op)) ?ops) (chans_of ipc_fresh))
      = [RQueue 1, RSent 0, RGot (Some (word_of_int (kn_cur k 1), 5, 2, [65, 66])), RGot None]"
    by (simp add: fresh_ok chan_create_def first_idx.simps chan_send_def chan_receive_def qid_ok_def message_roundtrip
        split del: if_split)
  then show "fst (ipc_run ?ops (ipc_fresh, k))
      = [RQueue 1, RSent 0, RGot (Some (word_of_int (kn_cur k 1), 5, 2, [65, 66])), RGot None]"
    using ipc_refines_channels [OF fresh_ok(1) r] r by simp
qed

theorem blocked_send_reaches_other_queue_witness:
  "\<forall>k. \<exists>s1 k1 s2 s3 k3. ipc_send 0 1 5 None 0 (ipc_packed, k) = (Asleep, s1, k1)
     \<and> ipc_queue_create 9 (ipc_queue_destroy 1 s1) = (1, s2)
     \<and> send_again 0 0 (make_message (kn_cur k 0) 5 None 0) (s2, k) = (Done 0, s3, k3)
     \<and> chans_of s3 0 = Some (9, [make_message (kn_cur k 0) 5 None 0])"
proof
  fix k
  show "\<exists>s1 k1 s2 s3 k3. ipc_send 0 1 5 None 0 (ipc_packed, k) = (Asleep, s1, k1)
     \<and> ipc_queue_create 9 (ipc_queue_destroy 1 s1) = (1, s2)
     \<and> send_again 0 0 (make_message (kn_cur k 0) 5 None 0) (s2, k) = (Done 0, s3, k3)
     \<and> chans_of s3 0 = Some (9, [make_message (kn_cur k 0) 5 None 0])"
    using blocked_send_reaches_other_queue [OF packed_ok, of 1 7 9 0 5 None 0 k k]
    by (simp add: ipc_packed_def ipc_fresh_def queue_zero_def)
qed

end
