(* ===== verification/Pty.thy ===== *)
theory Pty
  imports Fifo Task_Create
begin

text \<open>
  The table of open descriptions (\<open>global_fds\<close> of \<open>src/sys/fd.c\<close>) and the
  pseudo-terminals that live in it (\<open>src/sys/pty.c\<close>). The flags \<open>in_use\<close> and the
  reference counts of the table are the fields \<open>kn_gfd_use\<close> and \<open>kn_gfd_ref\<close> of
  the kernel, which creating a task already shares; the rest of an entry is a \<open>gfd\<close>.
  The operations run under \<open>fd_lock\<close> and are functions on the world \<open>fdw\<close>, which
  carries a last component for the file system and the network.
\<close>

section \<open>State\<close>

definition MAX_PIPES :: int where
  "MAX_PIPES = 16"

definition MAX_PTYS :: int where
  "MAX_PTYS = 16"

definition POLLIN :: int where "POLLIN = 1"
definition POLLOUT :: int where "POLLOUT = 4"
definition POLLHUP :: int where "POLLHUP = 16"
definition POLLNVAL :: int where "POLLNVAL = 32"

datatype fd_type = FD_NONE | FD_FILE | FD_PIPE_READ | FD_PIPE_WRITE | FD_DEV | FD_SOCKET | FD_PTY

record gfd =
  gf_type :: fd_type
  gf_node :: int
  gf_pipe :: int
  gf_conn :: int
  gf_off :: int
  gf_flags :: int

record pipe =
  pp_use :: bool
  pp_ring :: ring
  pp_closed :: bool

record pty =
  pt_use :: bool
  pt_m2s :: ring
  pt_s2m :: ring
  pt_master :: int
  pt_slaves :: int

record 'e fdw =
  fw_gfd :: "int \<Rightarrow> gfd"
  fw_pipe :: "int \<Rightarrow> pipe"
  fw_pty :: "int \<Rightarrow> pty"
  fw_k :: kern
  fw_env :: 'e

definition upd_gfd :: "int \<Rightarrow> (gfd \<Rightarrow> gfd) \<Rightarrow> 'e fdw \<Rightarrow> 'e fdw" where
  "upd_gfd g f w = w\<lparr>fw_gfd := (fw_gfd w)(g := f (fw_gfd w g))\<rparr>"

definition upd_pipe :: "int \<Rightarrow> (pipe \<Rightarrow> pipe) \<Rightarrow> 'e fdw \<Rightarrow> 'e fdw" where
  "upd_pipe p f w = w\<lparr>fw_pipe := (fw_pipe w)(p := f (fw_pipe w p))\<rparr>"

definition upd_pty :: "int \<Rightarrow> (pty \<Rightarrow> pty) \<Rightarrow> 'e fdw \<Rightarrow> 'e fdw" where
  "upd_pty p f w = w\<lparr>fw_pty := (fw_pty w)(p := f (fw_pty w p))\<rparr>"

definition set_use :: "int \<Rightarrow> bool \<Rightarrow> 'e fdw \<Rightarrow> 'e fdw" where
  "set_use g b w = w\<lparr>fw_k := (fw_k w)\<lparr>kn_gfd_use := (kn_gfd_use (fw_k w))(g := b)\<rparr>\<rparr>"

definition set_ref :: "int \<Rightarrow> int \<Rightarrow> 'e fdw \<Rightarrow> 'e fdw" where
  "set_ref g n w = w\<lparr>fw_k := (fw_k w)\<lparr>kn_gfd_ref := (kn_gfd_ref (fw_k w))(g := n)\<rparr>\<rparr>"

abbreviation gfd_use :: "'e fdw \<Rightarrow> int \<Rightarrow> bool" where
  "gfd_use w g \<equiv> kn_gfd_use (fw_k w) g"

abbreviation gfd_ref :: "'e fdw \<Rightarrow> int \<Rightarrow> int" where
  "gfd_ref w g \<equiv> kn_gfd_ref (fw_k w) g"

text \<open>The first slot of the table that is not in use, or -1.\<close>

definition free_gfd :: "'e fdw \<Rightarrow> int" where
  "free_gfd w = (case first_idx (\<lambda>i. \<not> gfd_use w (int i)) 0 (nat MAX_GLOBAL_FDS) of Some i \<Rightarrow> int i | None \<Rightarrow> -1)"

section \<open>Pseudo-terminals\<close>

definition pty_init :: "'e fdw \<Rightarrow> 'e fdw" where
  "pty_init w = fold (\<lambda>i. upd_pty i (\<lambda>t. t\<lparr>pt_use := False\<rparr>)) [0..15] w"

text \<open>1 for a master, 0 for a slave, -1 for anything else.\<close>

definition pty_slot_is_master :: "int \<Rightarrow> 'e fdw \<Rightarrow> int" where
  "pty_slot_is_master g w =
     (if g < 0 \<or> g \<ge> MAX_GLOBAL_FDS \<or> \<not> gfd_use w g then -1
      else if gf_type (fw_gfd w g) \<noteq> FD_PTY then -1
      else gf_flags (fw_gfd w g) AND 1)"

definition pty_claim_gfd :: "int \<Rightarrow> bool \<Rightarrow> 'e fdw \<Rightarrow> int \<times> 'e fdw" where
  "pty_claim_gfd p master w =
     (if p < 0 \<or> p \<ge> MAX_PTYS \<or> \<not> pt_use (fw_pty w p) then (-1, w)
      else
        (let g = free_gfd w
         in if g < 0 then (-1, w)
            else (g, upd_gfd g (\<lambda>x. x\<lparr>gf_type := FD_PTY, gf_pipe := p, gf_flags := (if master then 1 else 0),
                                     gf_off := 0, gf_conn := -1\<rparr>) (set_ref g 1 (set_use g True w)))))"

definition ring_zero :: ring where
  "ring_zero = \<lparr>rb_buf = (\<lambda>_. 0), rb_r = 0, rb_w = 0\<rparr>"

definition pty_alloc_fd :: "'e fdw \<Rightarrow> int \<times> 'e fdw" where
  "pty_alloc_fd w =
     (case first_idx (\<lambda>i. \<not> pt_use (fw_pty w (int i))) 0 (nat MAX_PTYS) of
        None \<Rightarrow> (-1, w)
      | Some i \<Rightarrow>
          (let p = int i;
               w1 = upd_pty p (\<lambda>_. \<lparr>pt_use = True, pt_m2s = ring_zero, pt_s2m = ring_zero, pt_master = -1, pt_slaves = 0\<rparr>) w;
               (g, w2) = pty_claim_gfd p True w1
           in if g < 0 then (-1, upd_pty p (\<lambda>t. t\<lparr>pt_use := False\<rparr>) w2)
              else (g, upd_pty p (\<lambda>t. t\<lparr>pt_master := g\<rparr>) w2)))"

definition pty_open_slave :: "int \<Rightarrow> 'e fdw \<Rightarrow> int \<times> 'e fdw" where
  "pty_open_slave mg w =
     (if pty_slot_is_master mg w \<noteq> 1 then (-1, w)
      else
        (let p = gf_pipe (fw_gfd w mg)
         in if p < 0 \<or> \<not> pt_use (fw_pty w p) then (-1, w)
            else
              (let (g, w1) = pty_claim_gfd p False w
               in if g < 0 then (-1, w1)
                  else (g, upd_pty p (\<lambda>t. t\<lparr>pt_slaves := pt_slaves t + 1\<rparr>) w1))))"

text \<open>The result is the return value and the bytes stored in the caller's buffer.\<close>

definition pty_read :: "int \<Rightarrow> int \<Rightarrow> 'e fdw \<Rightarrow> int \<times> u8 list \<times> 'e fdw" where
  "pty_read g n w =
     (let m = pty_slot_is_master g w
      in if m < 0 then (-1, [], w)
         else
           (let p = gf_pipe (fw_gfd w g); t = fw_pty w p
            in if m \<noteq> 0
               then (let (bs, q) = get_loop ring_get (nat n) (pt_s2m t)
                     in (int (length bs), bs, upd_pty p (\<lambda>t. t\<lparr>pt_s2m := q\<rparr>) w))
               else (let (bs, q) = get_loop ring_get (nat n) (pt_m2s t)
                     in (int (length bs), bs, upd_pty p (\<lambda>t. t\<lparr>pt_m2s := q\<rparr>) w))))"

definition pty_write :: "int \<Rightarrow> u8 list \<Rightarrow> int \<Rightarrow> 'e fdw \<Rightarrow> int \<times> 'e fdw" where
  "pty_write g buf n w =
     (let m = pty_slot_is_master g w
      in if m < 0 then (-1, w)
         else
           (let p = gf_pipe (fw_gfd w g); t = fw_pty w p
            in if m \<noteq> 0
               then (let (c, q) = put_loop ring_put (take (nat n) buf) (pt_m2s t)
                     in (int c, upd_pty p (\<lambda>t. t\<lparr>pt_m2s := q\<rparr>) w))
               else (let (c, q) = put_loop ring_put (take (nat n) buf) (pt_s2m t)
                     in (int c, upd_pty p (\<lambda>t. t\<lparr>pt_s2m := q\<rparr>) w))))"

definition pty_close :: "int \<Rightarrow> 'e fdw \<Rightarrow> 'e fdw" where
  "pty_close g w =
     (let m = pty_slot_is_master g w
      in if m < 0 then w
         else
           (let p = gf_pipe (fw_gfd w g);
                w1 = (if m \<noteq> 0
                      then upd_pty p (\<lambda>t. let t1 = t\<lparr>pt_master := -1\<rparr> in if pt_slaves t1 \<le> 0 then t1\<lparr>pt_use := False\<rparr> else t1) w
                      else upd_pty p (\<lambda>t. let t1 = (if pt_slaves t > 0 then t\<lparr>pt_slaves := pt_slaves t - 1\<rparr> else t)
                                          in if pt_slaves t1 \<le> 0 \<and> pt_master t1 < 0 then t1\<lparr>pt_use := False\<rparr> else t1) w)
            in upd_gfd g (\<lambda>x. x\<lparr>gf_type := FD_NONE\<rparr>) (set_use g False w1)))"

definition pty_poll_events :: "int \<Rightarrow> int \<Rightarrow> 'e fdw \<Rightarrow> int" where
  "pty_poll_events p master w =
     (if p < 0 \<or> p \<ge> MAX_PTYS \<or> \<not> pt_use (fw_pty w p) then 0
      else
        (let t = fw_pty w p;
             (inq, outq) = (if master \<noteq> 0 then (pt_s2m t, pt_m2s t) else (pt_m2s t, pt_s2m t))
         in (if ring_readable inq then POLLIN else 0) OR (if ring_writable outq then POLLOUT else 0)))"

section \<open>The boot-time self-test\<close>

definition pty_leaked :: "'e fdw \<Rightarrow> bool" where
  "pty_leaked w = list_ex (\<lambda>i. pt_use (fw_pty w i)) [0..15]"

text \<open>\<open>Some True\<close> is PASS; \<open>None\<close> and \<open>Some False\<close> are the failures before and after
  both ends exist.\<close>

definition pty_selftest :: "'e fdw \<Rightarrow> bool option \<times> 'e fdw" where
  "pty_selftest w =
     (let (mg, w1) = pty_alloc_fd w
      in if mg < 0 then (None, w1)
         else
           (let (sl, w2) = pty_open_slave mg w1;
                stop = (\<lambda>v. (Some False, pty_close mg (pty_close sl v)))
            in if sl < 0 then (None, pty_close mg w2)
               else
                 (let (a, w3) = pty_write mg [72, 73] 2 w2
                  in if a \<noteq> 2 then stop w3
                     else
                       (let (r, got, w4) = pty_read sl 4 w3
                        in if r \<noteq> 2 \<or> got ! 0 \<noteq> 72 \<or> got ! 1 \<noteq> 73 then stop w4
                           else
                             (let (b, w5) = pty_write sl [79, 75] 2 w4
                              in if b \<noteq> 2 then stop w5
                                 else
                                   (let (r2, got2, w6) = pty_read mg 4 w5
                                    in if r2 \<noteq> 2 \<or> got2 ! 0 \<noteq> 79 \<or> got2 ! 1 \<noteq> 75 then stop w6
                                       else
                                         (let w7 = pty_close mg (pty_close sl w6)
                                          in (Some (\<not> pty_leaked w7), w7))))))))"

end
