(* ===== verification/Fd.thy ===== *)
theory Fd
  imports Pty
begin

text \<open>
  File descriptors (\<open>src/sys/fd.c\<close>): the per-task tables \<open>tk_fd\<close> map local numbers to
  entries of the global table, which are files, devices, pipe ends, pseudo-terminal ends or
  sockets. The file system and the network are reached through the interface \<open>fd_env\<close>,
  whose functions act on the last component of the world. A read of an empty pipe and a write
  to a full one give \<open>fd_lock\<close> up and halt until the next interrupt: that ends their step,
  and the call goes on with \<open>pipe_read_again\<close> and \<open>pipe_write_again\<close>.
\<close>

section \<open>The interface to files and sockets\<close>

definition VFS_FD_MAX_FILE :: int where
  "VFS_FD_MAX_FILE = 8 * 1024 * 1024"

definition O_APPEND :: int where "O_APPEND = 8"
definition S_IRUSR :: int where "S_IRUSR = 0x100"
definition S_IWUSR :: int where "S_IWUSR = 0x080"
definition SOCK_DGRAM :: int where "SOCK_DGRAM = 2"

record fs_node =
  fn_use :: bool
  fn_type :: fs_type
  fn_size :: int
  fn_parent :: int
  fn_sector :: int
  fn_name :: "u8 list"
  fn_mode :: u16
  fn_uid :: u16
  fn_gid :: u16

text \<open>The functions of \<open>src/sys/vfs.c\<close>, \<open>src/sys/mem.c\<close> and \<open>src/drivers/net.c\<close> that
  descriptors call: lookups, permission bits, whole-file and offset reads and writes, the
  buffer \<open>kmalloc\<close> hands out with what it holds, and the sockets.\<close>

record 'e fd_env =
  ev_get_node :: "string \<Rightarrow> 'e \<Rightarrow> int"
  ev_is_dir :: "int \<Rightarrow> 'e \<Rightarrow> bool"
  ev_node :: "int \<Rightarrow> 'e \<Rightarrow> fs_node"
  ev_perm :: "int \<Rightarrow> int \<Rightarrow> 'e \<Rightarrow> bool"
  ev_path :: "int \<Rightarrow> 'e \<Rightarrow> string option"
  ev_read :: "string \<Rightarrow> int \<Rightarrow> 'e \<Rightarrow> int \<times> u8 list \<times> 'e"
  ev_read_at :: "int \<Rightarrow> int \<Rightarrow> int \<Rightarrow> 'e \<Rightarrow> int \<times> u8 list \<times> 'e"
  ev_write :: "string \<Rightarrow> u8 list \<Rightarrow> 'e \<Rightarrow> int \<times> 'e"
  ev_write_at :: "int \<Rightarrow> int \<Rightarrow> u8 list \<Rightarrow> int \<Rightarrow> bool \<Rightarrow> 'e \<Rightarrow> int \<times> 'e"
  ev_alloc :: "nat \<Rightarrow> 'e \<Rightarrow> u8 list option"
  ev_udp_recv :: "int \<Rightarrow> 'e \<Rightarrow> int \<times> u8 list \<times> 'e"
  ev_udp_bind :: "u16 \<Rightarrow> 'e \<Rightarrow> 'e"
  ev_recv :: "int \<Rightarrow> int \<Rightarrow> 'e \<Rightarrow> int \<times> u8 list \<times> 'e"
  ev_send :: "int \<Rightarrow> u8 list \<Rightarrow> int \<Rightarrow> 'e \<Rightarrow> int \<times> 'e"
  ev_close :: "int \<Rightarrow> 'e \<Rightarrow> 'e"
  ev_accept :: "int \<Rightarrow> 'e \<Rightarrow> int \<times> 'e"
  ev_tcp_state :: "int \<Rightarrow> 'e \<Rightarrow> int"
  ev_accept_pending :: "int \<Rightarrow> 'e \<Rightarrow> bool"
  ev_tx_ready :: "int \<Rightarrow> 'e \<Rightarrow> bool"
  ev_rx_pending :: "int \<Rightarrow> 'e \<Rightarrow> bool"
  ev_eof :: "int \<Rightarrow> 'e \<Rightarrow> bool"

section \<open>The tables\<close>

definition fd_init :: "'e fdw \<Rightarrow> 'e fdw" where
  "fd_init w = fold (\<lambda>i. upd_pipe i (\<lambda>p. p\<lparr>pp_use := False\<rparr>)) [0..15] (fold (\<lambda>i. set_use i False) [0..255] w)"

definition task_get_fd :: "int \<Rightarrow> int \<Rightarrow> kern \<Rightarrow> int" where
  "task_get_fd t j k =
     (if t < 0 \<or> t \<ge> MAX_TASKS then -1
      else if j < 0 \<or> j \<ge> MAX_FDS_PER_TASK then -1
      else tk_fd (kn_task k t) j)"

definition task_set_fd :: "int \<Rightarrow> int \<Rightarrow> int \<Rightarrow> kern \<Rightarrow> kern" where
  "task_set_fd t j g k =
     (if t < 0 \<or> t \<ge> MAX_TASKS then k
      else if j < 0 \<or> j \<ge> MAX_FDS_PER_TASK then k
      else upd_task t (\<lambda>x. x\<lparr>tk_fd := (tk_fd x)(j := g)\<rparr>) k)"

definition set_fd :: "int \<Rightarrow> int \<Rightarrow> int \<Rightarrow> 'e fdw \<Rightarrow> 'e fdw" where
  "set_fd t j g w = w\<lparr>fw_k := task_set_fd t j g (fw_k w)\<rparr>"

definition alloc_global_fd :: "'e fdw \<Rightarrow> int \<times> 'e fdw" where
  "alloc_global_fd w =
     (let g = free_gfd w
      in if g < 0 then (-1, w) else (g, upd_gfd g (\<lambda>x. x\<lparr>gf_off := 0\<rparr>) (set_ref g 1 (set_use g True w))))"

text \<open>\<open>get_current_task()\<close> is the current task of processor \<open>cid\<close>.\<close>

definition task_map_fd :: "int \<Rightarrow> int \<Rightarrow> 'e fdw \<Rightarrow> int \<times> 'e fdw" where
  "task_map_fd cid g w =
     (let t = kn_cur (fw_k w) cid
      in if t < 0 then (-1, w)
         else if \<not> task_rlimit_nofile_ok cid (fw_k w) then (-1, w)
         else case first_idx (\<lambda>j. task_get_fd t (int j) (fw_k w) = -1) 0 (nat MAX_FDS_PER_TASK) of
                None \<Rightarrow> (-1, w)
              | Some j \<Rightarrow> (int j, set_fd t (int j) g w))"

text \<open>The entry behind a descriptor of the current task; \<open>None\<close> is the common -1.\<close>

definition open_gfd :: "int \<Rightarrow> int \<Rightarrow> 'e fdw \<Rightarrow> int option" where
  "open_gfd cid fd w =
     (let t = kn_cur (fw_k w) cid
      in if t < 0 then None
         else (let g = task_get_fd t fd (fw_k w) in if g < 0 \<or> \<not> gfd_use w g then None else Some g))"

section \<open>Opening and closing\<close>

definition do_sys_open :: "'e fd_env \<Rightarrow> int \<Rightarrow> string \<Rightarrow> int \<Rightarrow> 'e fdw \<Rightarrow> int \<times> 'e fdw" where
  "do_sys_open ev cid path mode w =
     (let node = ev_get_node ev path (fw_env w)
      in if node < 0 then (-1, w)
         else
           (let (g, w1) = alloc_global_fd w
            in if g < 0 then (-1, w1)
               else
                 (let ty = (if ev_is_dir ev node (fw_env w1) then FD_NONE else FD_FILE);
                      w2 = upd_gfd g (\<lambda>x. x\<lparr>gf_node := node, gf_type := ty, gf_flags := mode\<rparr>) w1;
                      (l, w3) = task_map_fd cid g w2
                  in if l < 0 then (-1, set_use g False w3) else (l, w3))))"

text \<open>Some open read end of pipe \<open>p\<close>.\<close>

definition read_end_open :: "int \<Rightarrow> 'e fdw \<Rightarrow> bool" where
  "read_end_open p w =
     (first_idx (\<lambda>i. gfd_use w (int i) \<and> gf_type (fw_gfd w (int i)) = FD_PIPE_READ \<and> gf_pipe (fw_gfd w (int i)) = p)
        0 (nat MAX_GLOBAL_FDS) \<noteq> None)"

definition last_ref_gone :: "'e fd_env \<Rightarrow> int \<Rightarrow> 'e fdw \<Rightarrow> 'e fdw" where
  "last_ref_gone ev g w =
     (let x = fw_gfd w g; p = gf_pipe x
      in if gf_type x = FD_PIPE_WRITE
         then (let w1 = upd_pipe p (\<lambda>q. q\<lparr>pp_closed := True\<rparr>) w
               in if read_end_open p w1 then w1 else upd_pipe p (\<lambda>q. q\<lparr>pp_use := False\<rparr>) w1)
         else if gf_type x = FD_PIPE_READ \<and> pp_closed (fw_pipe w p) then upd_pipe p (\<lambda>q. q\<lparr>pp_use := False\<rparr>) w
         else if gf_type x = FD_SOCKET \<and> gf_conn x \<ge> 0 then w\<lparr>fw_env := ev_close ev (gf_conn x) (fw_env w)\<rparr>
         else if gf_type x = FD_PTY then pty_close g w
         else w)"

definition fd_release_global :: "'e fd_env \<Rightarrow> int \<Rightarrow> 'e fdw \<Rightarrow> 'e fdw" where
  "fd_release_global ev g w =
     (let w1 = set_ref g (gfd_ref w g - 1) w
      in if gfd_ref w1 g = 0 then set_use g False (last_ref_gone ev g w1) else w1)"

definition do_sys_close :: "'e fd_env \<Rightarrow> int \<Rightarrow> int \<Rightarrow> 'e fdw \<Rightarrow> int \<times> 'e fdw" where
  "do_sys_close ev cid fd w =
     (case open_gfd cid fd w of
        None \<Rightarrow> (-1, w)
      | Some g \<Rightarrow> (0, fd_release_global ev g (set_fd (kn_cur (fw_k w) cid) fd (-1) w)))"

definition do_sys_dup2_tid :: "'e fd_env \<Rightarrow> int \<Rightarrow> int \<Rightarrow> int \<Rightarrow> int \<Rightarrow> 'e fdw \<Rightarrow> int \<times> 'e fdw" where
  "do_sys_dup2_tid ev cid t oldfd newfd w =
     (if t < 0 then (-1, w)
      else if oldfd < 0 \<or> oldfd \<ge> MAX_FDS_PER_TASK then (-1, w)
      else if newfd < 0 \<or> newfd \<ge> MAX_FDS_PER_TASK then (-1, w)
      else if oldfd = newfd then (newfd, w)
      else
        (let og = task_get_fd t oldfd (fw_k w)
         in if og < 0 \<or> \<not> gfd_use w og then (-1, w)
            else if t = kn_cur (fw_k w) cid \<and> task_get_fd t newfd (fw_k w) < 0 \<and> \<not> task_rlimit_nofile_ok cid (fw_k w)
            then (-1, w)
            else
              (let ng = task_get_fd t newfd (fw_k w);
                   w1 = (if ng \<ge> 0 \<and> gfd_use w ng then fd_release_global ev ng (set_fd t newfd (-1) w) else w);
                   w2 = set_ref og (gfd_ref w1 og + 1) w1
               in (newfd, set_fd t newfd og w2))))"

definition do_sys_dup2 :: "'e fd_env \<Rightarrow> int \<Rightarrow> int \<Rightarrow> int \<Rightarrow> 'e fdw \<Rightarrow> int \<times> 'e fdw" where
  "do_sys_dup2 ev cid oldfd newfd w =
     (let t = kn_cur (fw_k w) cid in if t < 0 then (-1, w) else do_sys_dup2_tid ev cid t oldfd newfd w)"

definition drop_fd :: "'e fd_env \<Rightarrow> int \<Rightarrow> int \<Rightarrow> 'e fdw \<Rightarrow> 'e fdw" where
  "drop_fd ev t j w =
     (let g = task_get_fd t j (fw_k w)
      in if g < 0 then w
         else (let w1 = set_fd t j (-1) w
               in if g < MAX_GLOBAL_FDS \<and> gfd_use w1 g then fd_release_global ev g w1 else w1))"

definition task_rewire_fds :: "'e fd_env \<Rightarrow> int \<Rightarrow> int \<Rightarrow> int \<Rightarrow> int \<Rightarrow> 'e fdw \<Rightarrow> 'e fdw" where
  "task_rewire_fds ev cid t infd outfd w =
     (if t < 0 then w
      else
        (let w1 = (if infd \<ge> 0 \<and> infd \<noteq> 0 then snd (do_sys_dup2_tid ev cid t infd 0 w) else w);
             w2 = (if outfd \<ge> 0 \<and> outfd \<noteq> 1 then snd (do_sys_dup2_tid ev cid t outfd 1 w1) else w1)
         in fold (\<lambda>j v. if j = 0 \<and> infd \<ge> 0 then v else if j = 1 \<and> outfd \<ge> 0 then v else drop_fd ev t j v) [0..31] w2))"

definition task_close_all_fds :: "'e fd_env \<Rightarrow> int \<Rightarrow> 'e fdw \<Rightarrow> 'e fdw" where
  "task_close_all_fds ev t w = fold (drop_fd ev t) [0..31] w"

end
