(* ===== verification/Fd_Io.thy ===== *)
theory Fd_Io
  imports Fd
begin

text \<open>
  Reading and writing descriptors, positions and metadata, pipes, the readiness calls
  \<open>poll\<close> and \<open>select\<close>, socket descriptors and the system calls on pseudo-terminals
  (\<open>src/sys/fd.c\<close>).
\<close>

section \<open>Pipes\<close>

definition do_sys_pipe :: "'e fd_env \<Rightarrow> int \<Rightarrow> 'e fdw \<Rightarrow> int \<times> int \<times> int \<times> 'e fdw" where
  "do_sys_pipe ev cid w =
     (case first_idx (\<lambda>i. \<not> pp_use (fw_pipe w (int i))) 0 (nat MAX_PIPES) of
        None \<Rightarrow> (-1, 0, 0, w)
      | Some i \<Rightarrow>
          (let p = int i; unuse = upd_pipe p (\<lambda>x. x\<lparr>pp_use := False\<rparr>);
               w1 = upd_pipe p (\<lambda>x. x\<lparr>pp_use := True, pp_ring := ring_clear (pp_ring x), pp_closed := False\<rparr>) w;
               (gr, w2) = alloc_global_fd w1
           in if gr < 0 then (-1, 0, 0, unuse w2)
              else
                (let (gw, w4) = alloc_global_fd (upd_gfd gr (\<lambda>x. x\<lparr>gf_type := FD_PIPE_READ, gf_pipe := p\<rparr>) w2)
                 in if gw < 0 then (-1, 0, 0, unuse (set_use gr False w4))
                    else
                      (let w5 = upd_gfd gw (\<lambda>x. x\<lparr>gf_type := FD_PIPE_WRITE, gf_pipe := p\<rparr>) w4;
                           (r0, w6) = task_map_fd cid gr w5;
                           (r1, w7) = task_map_fd cid gw w6
                       in if r0 < 0 \<or> r1 < 0
                          then
                            (let w8 = (if r0 \<ge> 0 then snd (do_sys_close ev cid r0 w7) else set_use gr False w7);
                                 w9 = (if r1 \<ge> 0 then snd (do_sys_close ev cid r1 w8) else set_use gw False w8)
                             in (-1, r0, r1, unuse w9))
                          else (0, r0, r1, w7)))))"

text \<open>A read is finished with a count and the bytes stored, or parked with the bytes so far.\<close>

datatype rd_out = RdDone int "u8 list" | RdPark "u8 list"
datatype wr_out = WrDone int | WrPark nat

definition pipe_read_loop :: "int \<Rightarrow> int \<Rightarrow> u8 list \<Rightarrow> 'e fdw \<Rightarrow> rd_out \<times> 'e fdw" where
  "pipe_read_loop p n got w =
     (let (bs, q) = get_loop ring_get (nat n - length got) (pp_ring (fw_pipe w p));
          w1 = upd_pipe p (\<lambda>x. x\<lparr>pp_ring := q\<rparr>) w;
          sofar = got @ bs
      in if int (length sofar) \<ge> n \<or> pp_closed (fw_pipe w1 p) then (RdDone (int (length sofar)) sofar, w1)
         else (RdPark sofar, w1))"

definition pipe_read_again :: "int \<Rightarrow> int \<Rightarrow> int \<Rightarrow> u8 list \<Rightarrow> 'e fdw \<Rightarrow> rd_out \<times> 'e fdw" where
  "pipe_read_again t fd n got w =
     (let g = task_get_fd t fd (fw_k w)
      in if g < 0 \<or> \<not> gfd_use w g then (RdDone (int (length got)) got, w)
         else pipe_read_loop (gf_pipe (fw_gfd w g)) n got w)"

text \<open>The writer keeps how many bytes of its buffer are written.\<close>

definition pipe_write_loop :: "int \<Rightarrow> u8 list \<Rightarrow> int \<Rightarrow> nat \<Rightarrow> 'e fdw \<Rightarrow> wr_out \<times> 'e fdw" where
  "pipe_write_loop p buf n done0 w =
     (let (c, q) = put_loop ring_put (take (nat n - done0) (drop done0 buf)) (pp_ring (fw_pipe w p));
          w1 = upd_pipe p (\<lambda>x. x\<lparr>pp_ring := q\<rparr>) w
      in if int (done0 + c) \<ge> n then (WrDone (int (done0 + c)), w1) else (WrPark (done0 + c), w1))"

definition pipe_write_again :: "int \<Rightarrow> int \<Rightarrow> u8 list \<Rightarrow> int \<Rightarrow> nat \<Rightarrow> 'e fdw \<Rightarrow> wr_out \<times> 'e fdw" where
  "pipe_write_again t fd buf n done0 w =
     (let g = task_get_fd t fd (fw_k w)
      in if g < 0 \<or> \<not> gfd_use w g then (WrDone (int done0), w)
         else pipe_write_loop (gf_pipe (fw_gfd w g)) buf n done0 w)"

section \<open>Reading\<close>

definition is_file :: "fd_type \<Rightarrow> bool" where
  "is_file t \<longleftrightarrow> t = FD_FILE \<or> t = FD_DEV"

definition offset_backed :: "fs_type \<Rightarrow> bool" where
  "offset_backed t \<longleftrightarrow> t = FS_FILE \<or> t = FS_EXT2_FILE \<or> t = FS_FAT32_FILE \<or> t = FS_RAM_FILE"

definition sock_ret :: "int \<Rightarrow> int" where
  "sock_ret r = (if r = -2 then -1 else r)"

definition file_read :: "'e fd_env \<Rightarrow> int \<Rightarrow> int \<Rightarrow> 'e fdw \<Rightarrow> rd_out \<times> 'e fdw" where
  "file_read ev g n w =
     (let node = gf_node (fw_gfd w g)
      in if gf_type (fw_gfd w g) = FD_FILE \<and> \<not> ev_perm ev node S_IRUSR (fw_env w) then (RdDone (-1) [], w)
         else if offset_backed (fn_type (ev_node ev node (fw_env w)))
         then
           (let off = gf_off (fw_gfd w g);
                (r, bs, e) = ev_read_at ev node off n (fw_env w);
                w1 = w\<lparr>fw_env := e\<rparr>
            in (RdDone r bs, if r \<ge> 0 then upd_gfd g (\<lambda>x. x\<lparr>gf_off := off + r\<rparr>) w1 else w1))
         else case ev_path ev node (fw_env w) of
                None \<Rightarrow> (RdDone (-1) [], w)
              | Some path \<Rightarrow> (let (r, bs, e) = ev_read ev path n (fw_env w) in (RdDone r bs, w\<lparr>fw_env := e\<rparr>)))"

definition do_sys_read :: "'e fd_env \<Rightarrow> int \<Rightarrow> int \<Rightarrow> int \<Rightarrow> 'e fdw \<Rightarrow> rd_out \<times> 'e fdw" where
  "do_sys_read ev cid fd n w =
     (case open_gfd cid fd w of
        None \<Rightarrow> (RdDone (-1) [], w)
      | Some g \<Rightarrow>
          (let x = fw_gfd w g
           in if is_file (gf_type x) then file_read ev g n w
              else if gf_type x = FD_PIPE_READ then pipe_read_loop (gf_pipe x) n [] w
              else if gf_type x = FD_PTY then (let (r, bs, w1) = pty_read g n w in (RdDone r bs, w1))
              else if gf_type x = FD_SOCKET
              then
                (if gf_flags x = SOCK_DGRAM
                 then (let (r, bs, e) = ev_udp_recv ev n (fw_env w) in (RdDone r bs, w\<lparr>fw_env := e\<rparr>))
                 else (let (r, bs, e) = ev_recv ev (gf_conn x) n (fw_env w) in (RdDone (sock_ret r) bs, w\<lparr>fw_env := e\<rparr>)))
              else (RdDone (-1) [], w)))"

section \<open>Writing\<close>

definition fill_zero :: "nat \<Rightarrow> nat \<Rightarrow> u8 list \<Rightarrow> u8 list" where
  "fill_zero a n xs = blit a (replicate n 0) xs"

text \<open>The read-modify-write of a whole file: \<open>buf0\<close> is the allocated buffer with what it
  holds, \<open>r\<close> and \<open>bs\<close> what the old contents read as.\<close>

definition splice_old :: "int \<Rightarrow> int \<Rightarrow> int \<Rightarrow> int \<Rightarrow> u8 list \<Rightarrow> u8 list \<Rightarrow> u8 list" where
  "splice_old oldsz newsz off r0 bs buf0 =
     (if oldsz > 0
      then (let r = (if r0 < 0 then 0 else r0); b1 = blit 0 (take (nat r) bs) buf0
            in if r < oldsz then fill_zero (nat r) (nat (oldsz - r)) b1 else b1)
      else if newsz > 0 then fill_zero 0 (nat (if off < newsz then off else newsz)) buf0
      else buf0)"

definition splice_new :: "int \<Rightarrow> int \<Rightarrow> int \<Rightarrow> u8 list \<Rightarrow> u8 list \<Rightarrow> u8 list" where
  "splice_new oldsz newsz off data b =
     (let b1 = (if off > oldsz
                then (let gap = (if off - oldsz > newsz - oldsz then newsz - oldsz else off - oldsz)
                      in fill_zero (nat oldsz) (nat gap) b)
                else b);
          b2 = blit (nat off) data b1
      in b2[nat newsz := 0])"

definition file_rewrite :: "'e fd_env \<Rightarrow> int \<Rightarrow> string \<Rightarrow> int \<Rightarrow> int \<Rightarrow> u8 list \<Rightarrow> int \<Rightarrow> 'e fdw \<Rightarrow> int \<times> 'e fdw" where
  "file_rewrite ev g path oldsz off buf n0 w =
     (if off < 0 \<or> n0 < 0 \<or> off > VFS_FD_MAX_FILE \<or> n0 > VFS_FD_MAX_FILE then (-1, w)
      else
        (let n = (if off + n0 > VFS_FD_MAX_FILE then VFS_FD_MAX_FILE - off else n0)
         in if off + n0 > VFS_FD_MAX_FILE \<and> n \<le> 0 then (-1, w)
            else
              (let s1 = (if off + n < oldsz then oldsz else off + n);
                   newsz = (if s1 > VFS_FD_MAX_FILE then VFS_FD_MAX_FILE else s1)
               in case ev_alloc ev (nat newsz + 1) (fw_env w) of
                    None \<Rightarrow> (-1, w)
                  | Some buf0 \<Rightarrow>
                      (let (r, bs, e1) = (if oldsz > 0 then ev_read ev path oldsz (fw_env w) else (0, [], fw_env w));
                           b1 = splice_old oldsz newsz off r bs buf0;
                           b2 = splice_new oldsz newsz off (take (nat n) buf) b1;
                           (v, e2) = ev_write ev path (take (nat newsz) b2) e1;
                           w1 = w\<lparr>fw_env := e2\<rparr>
                       in if v \<ge> 0 then (n, upd_gfd g (\<lambda>x. x\<lparr>gf_off := off + n\<rparr>) w1) else (v, w1)))))"

definition file_write :: "'e fd_env \<Rightarrow> int \<Rightarrow> u8 list \<Rightarrow> int \<Rightarrow> 'e fdw \<Rightarrow> int \<times> 'e fdw" where
  "file_write ev g buf n w =
     (let x = fw_gfd w g; node = gf_node x
      in if gf_type x = FD_FILE \<and> \<not> ev_perm ev node S_IWUSR (fw_env w) then (-1, w)
         else case ev_path ev node (fw_env w) of
                None \<Rightarrow> (-1, w)
              | Some path \<Rightarrow>
                  (let sz = fn_size (ev_node ev node (fw_env w));
                       sz1 = (if sz < 0 then 0 else sz);
                       oldsz = (if sz1 > VFS_FD_MAX_FILE then VFS_FD_MAX_FILE else sz1);
                       app = (gf_flags x AND O_APPEND \<noteq> 0);
                       off = (if app then oldsz else gf_off x)
                   in if fn_type (ev_node ev node (fw_env w)) = FS_RAM_FILE
                      then
                        (let (r, e) = ev_write_at ev node off buf n app (fw_env w);
                             w1 = w\<lparr>fw_env := e\<rparr>
                         in (r, if r \<ge> 0 then upd_gfd g (\<lambda>x. x\<lparr>gf_off := off + n\<rparr>) w1 else w1))
                      else file_rewrite ev g path oldsz off buf n w))"

definition do_sys_write :: "'e fd_env \<Rightarrow> int \<Rightarrow> int \<Rightarrow> u8 list \<Rightarrow> int \<Rightarrow> 'e fdw \<Rightarrow> wr_out \<times> 'e fdw" where
  "do_sys_write ev cid fd buf n w =
     (case open_gfd cid fd w of
        None \<Rightarrow> (WrDone (-1), w)
      | Some g \<Rightarrow>
          (let x = fw_gfd w g
           in if gf_type x = FD_PTY then (let (r, w1) = pty_write g buf n w in (WrDone r, w1))
              else if is_file (gf_type x) then (let (r, w1) = file_write ev g buf n w in (WrDone r, w1))
              else if gf_type x = FD_PIPE_WRITE then pipe_write_loop (gf_pipe x) buf n 0 w
              else if gf_type x = FD_SOCKET
              then
                (if gf_flags x = SOCK_DGRAM then (WrDone (-1), w)
                 else (let (r, e) = ev_send ev (gf_conn x) buf n (fw_env w) in (WrDone (sock_ret r), w\<lparr>fw_env := e\<rparr>)))
              else (WrDone (-1), w)))"

end
