(* ===== verification/Fd_Sys.thy ===== *)
theory Fd_Sys
  imports Fd_Io
begin

text \<open>
  The other descriptor calls of \<open>src/sys/fd.c\<close>: \<open>lseek\<close> and \<open>fstat\<close>, the readiness
  calls with their timeout in timer ticks, socket descriptors, and the system calls that make
  pseudo-terminals. \<open>poll\<close> and \<open>select\<close> are one pass over the descriptors, which ends the
  call or halts until the next interrupt.
\<close>

section \<open>Position and metadata\<close>

definition node_size :: "fs_node \<Rightarrow> int" where
  "node_size n = (if fn_use n then fn_size n else 0)"

definition do_sys_lseek :: "'e fd_env \<Rightarrow> int \<Rightarrow> int \<Rightarrow> int \<Rightarrow> int \<Rightarrow> 'e fdw \<Rightarrow> int \<times> 'e fdw" where
  "do_sys_lseek ev cid fd off whence w =
     (case open_gfd cid fd w of
        None \<Rightarrow> (-1, w)
      | Some g \<Rightarrow>
          (let x = fw_gfd w g
           in if \<not> is_file (gf_type x) then (-1, w)
              else
                (let pos = (if whence = 0 then Some off
                            else if whence = 1 then Some (gf_off x + off)
                            else if whence = 2 then Some (node_size (ev_node ev (gf_node x) (fw_env w)) + off)
                            else None)
                 in case pos of
                      None \<Rightarrow> (-1, w)
                    | Some p \<Rightarrow>
                        if p < 0 \<or> p > VFS_FD_MAX_FILE then (-1, w)
                        else (p, upd_gfd g (\<lambda>x. x\<lparr>gf_off := p\<rparr>) w))))"

record stat =
  st_size :: int
  st_type :: fs_type
  st_node :: int
  st_parent :: int
  st_sector :: int
  st_name :: "u8 list"
  st_mode :: u16
  st_uid :: u16
  st_gid :: u16

text \<open>The name as the caller reads it: up to the NUL, at most 31 bytes.\<close>

definition do_sys_fstat :: "'e fd_env \<Rightarrow> int \<Rightarrow> int \<Rightarrow> 'e fdw \<Rightarrow> stat option" where
  "do_sys_fstat ev cid fd w =
     (case open_gfd cid fd w of
        None \<Rightarrow> None
      | Some g \<Rightarrow>
          (let x = fw_gfd w g; i = gf_node x; n = ev_node ev i (fw_env w)
           in if \<not> is_file (gf_type x) then None
              else if \<not> fn_use n then None
              else Some \<lparr>st_size = fn_size n, st_type = fn_type n, st_node = i, st_parent = fn_parent n,
                         st_sector = fn_sector n, st_name = take 31 (takeWhile (\<lambda>b. b \<noteq> 0) (fn_name n)),
                         st_mode = fn_mode n, st_uid = fn_uid n, st_gid = fn_gid n\<rparr>))"

section \<open>Readiness\<close>

definition TCP_CLOSED :: int where "TCP_CLOSED = 0"
definition TCP_ESTABLISHED :: int where "TCP_ESTABLISHED = 2"
definition TCP_LISTEN :: int where "TCP_LISTEN = 7"

definition sock_events :: "'e fd_env \<Rightarrow> gfd \<Rightarrow> 'e \<Rightarrow> int" where
  "sock_events ev x e =
     (let c = gf_conn x; st = ev_tcp_state ev c e
      in if gf_flags x = SOCK_DGRAM then POLLIN OR POLLOUT
         else if c \<ge> 0 \<and> st = TCP_LISTEN then (if ev_accept_pending ev c e then POLLIN else 0)
         else if c \<ge> 0
         then (if st = TCP_ESTABLISHED
               then ((if ev_tx_ready ev c e then POLLOUT else 0) OR (if ev_rx_pending ev c e then POLLIN else 0))
                    OR (if ev_eof ev c e then POLLIN OR POLLHUP else 0)
               else if st = TCP_CLOSED then POLLHUP
               else 0)
         else 0)"

definition fd_poll_events :: "'e fd_env \<Rightarrow> int \<Rightarrow> int \<Rightarrow> 'e fdw \<Rightarrow> int" where
  "fd_poll_events ev t fd w =
     (let g = task_get_fd t fd (fw_k w)
      in if g < 0 \<or> \<not> gfd_use w g then POLLNVAL
         else
           (let x = fw_gfd w g; p = fw_pipe w (gf_pipe x)
            in case gf_type x of
                 FD_FILE \<Rightarrow> POLLIN OR POLLOUT
               | FD_DEV \<Rightarrow> POLLIN OR POLLOUT
               | FD_PIPE_READ \<Rightarrow> (if ring_readable (pp_ring p) then POLLIN
                                  else if pp_closed p then POLLIN OR POLLHUP else 0)
               | FD_PIPE_WRITE \<Rightarrow> (if ring_writable (pp_ring p) then POLLOUT else 0)
               | FD_PTY \<Rightarrow> pty_poll_events (gf_pipe x) (gf_flags x AND 1) w
               | FD_SOCKET \<Rightarrow> sock_events ev x (fw_env w)
               | FD_NONE \<Rightarrow> 0))"

text \<open>Milliseconds to timer ticks in 32 bits, clamped.\<close>

definition ms_to_ticks :: "u32 \<Rightarrow> u32 \<Rightarrow> u32" where
  "ms_to_ticks tps ms =
     (if tps = 0 then 0
      else
        (let sec = ms div 1000; rem = ms mod 1000;
             part = (if sec > 0xFFFFFFFF div tps then 0xFFFFFFFF else sec * tps);
             tail = rem * tps div 1000
         in if part > 0xFFFFFFFF - tail then 0xFFFFFFFF else part + tail))"

definition poll_deadline :: "u32 \<Rightarrow> u32 \<Rightarrow> int \<Rightarrow> int" where
  "poll_deadline tps start timeout = (if timeout < 0 then -1 else sint (start + ms_to_ticks tps (word_of_int timeout)))"

definition deadline_reached :: "int \<Rightarrow> u32 \<Rightarrow> bool" where
  "deadline_reached d now \<longleftrightarrow> d \<ge> 0 \<and> sint now \<ge> d"

text \<open>One pass over \<open>(fd, events)\<close>: the \<open>revents\<close> and how many are ready.\<close>

definition poll_one :: "int \<Rightarrow> int \<Rightarrow> int" where
  "poll_one e events = (if e = POLLNVAL then POLLNVAL else (e AND events) OR (e AND POLLHUP))"

definition poll_scan :: "'e fd_env \<Rightarrow> int \<Rightarrow> (int \<times> int) list \<Rightarrow> 'e fdw \<Rightarrow> int \<times> int list" where
  "poll_scan ev t fds w =
     (let revs = map (\<lambda>(fd, events). poll_one (fd_poll_events ev t fd w) events) fds
      in (int (length (filter (\<lambda>r. r \<noteq> 0) revs)), revs))"

definition poll_round ::
  "'e fd_env \<Rightarrow> int \<Rightarrow> (int \<times> int) list \<Rightarrow> int \<Rightarrow> int \<Rightarrow> u32 \<Rightarrow> 'e fdw \<Rightarrow> int option \<times> int list" where
  "poll_round ev t fds timeout d now w =
     (let (ready, revs) = poll_scan ev t fds w
      in (if ready > 0 then Some ready
          else if timeout = 0 then Some 0
          else if deadline_reached d now then Some 0
          else None, revs))"

text \<open>\<open>worlds\<close> is what each pass finds, with the tick it runs at. \<open>None\<close>: still waiting
  after the last of them.\<close>

fun poll_passes :: "'e fd_env \<Rightarrow> int \<Rightarrow> (int \<times> int) list \<Rightarrow> int \<Rightarrow> int \<Rightarrow> (u32 \<times> 'e fdw) list \<Rightarrow> (int \<times> int list) option" where
  "poll_passes ev t fds timeout d [] = None"
| "poll_passes ev t fds timeout d ((now, w) # ws) =
     (case poll_round ev t fds timeout d now w of
        (Some r, revs) \<Rightarrow> Some (r, revs)
      | (None, revs) \<Rightarrow> poll_passes ev t fds timeout d ws)"

definition do_sys_poll ::
  "'e fd_env \<Rightarrow> u32 \<Rightarrow> int \<Rightarrow> (int \<times> int) list \<Rightarrow> int \<Rightarrow> u32 \<Rightarrow> (u32 \<times> 'e fdw) list \<Rightarrow> (int \<times> int list) option" where
  "do_sys_poll ev tps t fds timeout start ws =
     (if t < 0 then Some (-1, [])
      else if int (length fds) > MAX_FDS_PER_TASK then Some (-1, [])
      else poll_passes ev t fds timeout (poll_deadline tps start timeout) ws)"

text \<open>One descriptor of \<open>select\<close> on the two sets and the count.\<close>

definition select_one :: "'e fd_env \<Rightarrow> int \<Rightarrow> 'e fdw \<Rightarrow> int \<Rightarrow> u32 \<times> u32 \<times> int \<Rightarrow> u32 \<times> u32 \<times> int" where
  "select_one ev t w fd = (\<lambda>(r, v, ready).
     let e = fd_poll_events ev t fd w;
         b = push_bit (nat fd) (1 :: u32);
         (r1, n1) = (if r AND b \<noteq> 0 then if e AND POLLIN \<noteq> 0 then (r, ready + 1) else (r AND NOT b, ready) else (r, ready));
         (v1, n2) = (if v AND b \<noteq> 0 then if e AND POLLOUT \<noteq> 0 then (v, n1 + 1) else (v AND NOT b, n1) else (v, n1))
     in (r1, v1, n2))"

fun select_passes ::
  "'e fd_env \<Rightarrow> int \<Rightarrow> int \<Rightarrow> u32 \<Rightarrow> u32 \<Rightarrow> int \<Rightarrow> int \<Rightarrow> (u32 \<times> 'e fdw) list \<Rightarrow> (int \<times> u32 \<times> u32) option" where
  "select_passes ev t n wr wv timeout d [] = None"
| "select_passes ev t n wr wv timeout d ((now, w) # ws) =
     (let (r, v, ready) = fold (select_one ev t w) [0..n - 1] (wr, wv, 0)
      in if ready > 0 \<or> timeout = 0 \<or> deadline_reached d now then Some (ready, r, v)
         else select_passes ev t n wr wv timeout d ws)"

definition do_sys_select ::
  "'e fd_env \<Rightarrow> u32 \<Rightarrow> int \<Rightarrow> int \<Rightarrow> u32 \<Rightarrow> u32 \<Rightarrow> int \<Rightarrow> u32 \<Rightarrow> (u32 \<times> 'e fdw) list \<Rightarrow> (int \<times> u32 \<times> u32) option" where
  "do_sys_select ev tps t n wr wv timeout start ws =
     (if t < 0 then Some (-1, wr, wv)
      else if n < 0 \<or> n > MAX_FDS_PER_TASK then Some (-1, wr, wv)
      else select_passes ev t n wr wv timeout (poll_deadline tps start timeout) ws)"

section \<open>Sockets\<close>

definition SOCK_STREAM :: int where "SOCK_STREAM = 1"

definition map_or_free :: "int \<Rightarrow> int \<Rightarrow> 'e fdw \<Rightarrow> int \<times> 'e fdw" where
  "map_or_free cid g w = (let (l, w1) = task_map_fd cid g w in if l < 0 then (-1, set_use g False w1) else (l, w1))"

definition sock_socket :: "int \<Rightarrow> int \<Rightarrow> 'e fdw \<Rightarrow> int \<times> 'e fdw" where
  "sock_socket cid ty w =
     (let (g, w1) = alloc_global_fd w
      in if g < 0 then (-1, w1)
         else map_or_free cid g
                (upd_gfd g (\<lambda>x. x\<lparr>gf_type := FD_SOCKET, gf_flags := ty, gf_conn := -1, gf_off := 0, gf_node := -1\<rparr>) w1))"

definition open_sock :: "int \<Rightarrow> int \<Rightarrow> 'e fdw \<Rightarrow> int option" where
  "open_sock cid fd w =
     (case open_gfd cid fd w of None \<Rightarrow> None | Some g \<Rightarrow> if gf_type (fw_gfd w g) = FD_SOCKET then Some g else None)"

definition sock_bind :: "'e fd_env \<Rightarrow> int \<Rightarrow> int \<Rightarrow> u16 \<Rightarrow> 'e fdw \<Rightarrow> int \<times> 'e fdw" where
  "sock_bind ev cid fd port w =
     (case open_sock cid fd w of
        None \<Rightarrow> (-1, w)
      | Some g \<Rightarrow>
          (let w1 = upd_gfd g (\<lambda>x. x\<lparr>gf_off := uint port\<rparr>) w
           in (0, if gf_flags (fw_gfd w g) = SOCK_DGRAM then w1\<lparr>fw_env := ev_udp_bind ev port (fw_env w1)\<rparr> else w1)))"

definition sock_get_conn :: "int \<Rightarrow> int \<Rightarrow> 'e fdw \<Rightarrow> int" where
  "sock_get_conn cid fd w = (case open_sock cid fd w of None \<Rightarrow> -2 | Some g \<Rightarrow> gf_conn (fw_gfd w g))"

definition sock_set_conn :: "int \<Rightarrow> int \<Rightarrow> int \<Rightarrow> 'e fdw \<Rightarrow> int \<times> 'e fdw" where
  "sock_set_conn cid fd c w =
     (case open_sock cid fd w of None \<Rightarrow> (-1, w) | Some g \<Rightarrow> (0, upd_gfd g (\<lambda>x. x\<lparr>gf_conn := c\<rparr>) w))"

definition sock_accept :: "'e fd_env \<Rightarrow> int \<Rightarrow> int \<Rightarrow> 'e fdw \<Rightarrow> int \<times> 'e fdw" where
  "sock_accept ev cid fd w =
     (let c = sock_get_conn cid fd w
      in if c < 0 then (-1, w)
         else
           (let (child, e) = ev_accept ev c (fw_env w); w1 = w\<lparr>fw_env := e\<rparr>
            in if child < 0 then (-1, w1)
               else if kn_cur (fw_k w1) cid < 0 then (-1, w1)
               else
                 (let (g, w2) = alloc_global_fd w1
                  in if g < 0 then (-1, w2)
                     else map_or_free cid g
                            (upd_gfd g (\<lambda>x. x\<lparr>gf_type := FD_SOCKET, gf_flags := SOCK_STREAM, gf_conn := child,
                                             gf_node := -1, gf_off := 0\<rparr>) w2))))"

section \<open>System calls on pseudo-terminals\<close>

definition map_or_close_pty :: "int \<Rightarrow> int \<Rightarrow> 'e fdw \<Rightarrow> int \<times> 'e fdw" where
  "map_or_close_pty cid g w =
     (let (l, w1) = task_map_fd cid g w
      in if l < 0 then (-1, upd_gfd g (\<lambda>x. x\<lparr>gf_type := FD_NONE\<rparr>) (set_use g False (pty_close g w1))) else (l, w1))"

definition do_sys_pty_alloc :: "int \<Rightarrow> 'e fdw \<Rightarrow> int \<times> 'e fdw" where
  "do_sys_pty_alloc cid w = (let (g, w1) = pty_alloc_fd w in if g < 0 then (-1, w1) else map_or_close_pty cid g w1)"

definition do_sys_pty_open :: "int \<Rightarrow> int \<Rightarrow> 'e fdw \<Rightarrow> int \<times> 'e fdw" where
  "do_sys_pty_open cid fd w =
     (case open_gfd cid fd w of
        None \<Rightarrow> (-1, w)
      | Some mg \<Rightarrow>
          if gf_type (fw_gfd w mg) \<noteq> FD_PTY \<or> gf_flags (fw_gfd w mg) AND 1 = 0 then (-1, w)
          else
            (let (g, w1) = pty_open_slave mg w in if g < 0 then (-1, w1) else map_or_close_pty cid g w1))"

end
