(* ===== verification/Fd_Refs.thy ===== *)
theory Fd_Refs
  imports Fd_Sys
begin

text \<open>
  Reference counts of the open descriptions. A cell is a pair of a task and a local number;
  \<open>ref_ok D\<close> says that every cell is empty or names an entry in use, and that the count of
  an entry in use is positive and exceeds the number of its cells by \<open>D\<close>, which is zero
  between calls and records a reference that is being made or dropped within one.
\<close>

definition fd_cells :: "(int \<times> int) set" where
  "fd_cells = {0..<64} \<times> {0..<32}"

definition fd_at :: "kern \<Rightarrow> int \<times> int \<Rightarrow> int" where
  "fd_at k c = tk_fd (kn_task k (fst c)) (snd c)"

definition fd_refs :: "kern \<Rightarrow> int \<Rightarrow> (int \<times> int) set" where
  "fd_refs k g = {c \<in> fd_cells. fd_at k c = g}"

definition ref_ok :: "(int \<Rightarrow> int) \<Rightarrow> kern \<Rightarrow> bool" where
  "ref_ok D k \<longleftrightarrow>
     (\<forall>c \<in> fd_cells. fd_at k c = -1 \<or> 0 \<le> fd_at k c \<and> fd_at k c < MAX_GLOBAL_FDS \<and> kn_gfd_use k (fd_at k c))
   \<and> (\<forall>g. 0 \<le> g \<longrightarrow> g < MAX_GLOBAL_FDS \<longrightarrow> kn_gfd_use k g \<longrightarrow>
          kn_gfd_ref k g = int (card (fd_refs k g)) + D g \<and> kn_gfd_ref k g > 0)"

lemma fd_consts: "MAX_FDS_PER_TASK = 32" "MAX_GLOBAL_FDS = 256" "MAX_PIPES = 16" "MAX_PTYS = 16" "MAX_TASKS = 64"
  by (simp_all add: MAX_FDS_PER_TASK_def MAX_GLOBAL_FDS_def MAX_PIPES_def MAX_PTYS_def MAX_TASKS_def)

lemma in_cells: "(t, j) \<in> fd_cells \<longleftrightarrow> 0 \<le> t \<and> t < 64 \<and> 0 \<le> j \<and> j < 32"
  by (auto simp: fd_cells_def)

lemma finite_refs [simp]: "finite (fd_refs k g)"
  by (simp add: fd_refs_def fd_cells_def)

lemma get_fd_at: "task_get_fd t j k = (if (t, j) \<in> fd_cells then fd_at k (t, j) else -1)"
  by (auto simp: task_get_fd_def in_cells fd_at_def fd_consts)

lemma fd_at_set: "(t, j) \<in> fd_cells \<Longrightarrow> fd_at (task_set_fd t j g k) c = (if c = (t, j) then g else fd_at k c)"
  by (cases c) (auto simp: task_set_fd_def in_cells fd_at_def fd_consts upd_task_def)

lemma set_fd_fields [simp]:
  "kn_gfd_use (task_set_fd t j g k) = kn_gfd_use k" "kn_gfd_ref (task_set_fd t j g k) = kn_gfd_ref k"
  "kn_cur (task_set_fd t j g k) = kn_cur k"
  by (simp_all add: task_set_fd_def upd_task_def)

lemma fd_at_fields [simp]:
  "fd_at (k\<lparr>kn_gfd_use := u\<rparr>) c = fd_at k c" "fd_at (k\<lparr>kn_gfd_ref := r\<rparr>) c = fd_at k c"
  by (simp_all add: fd_at_def)

lemma fd_refs_fields [simp]:
  "fd_refs (k\<lparr>kn_gfd_use := u\<rparr>) g = fd_refs k g" "fd_refs (k\<lparr>kn_gfd_ref := r\<rparr>) g = fd_refs k g"
  by (simp_all add: fd_refs_def)

lemma fd_refs_set:
  assumes "(t, j) \<in> fd_cells"
  shows "fd_refs (task_set_fd t j g k) h =
    (if h = g then insert (t, j) (fd_refs k h) else fd_refs k h - {(t, j)})"
  using assms by (auto simp: fd_refs_def fd_at_set)

lemma card_refs_set:
  assumes "(t, j) \<in> fd_cells"
  shows "int (card (fd_refs (task_set_fd t j g k) h)) =
    int (card (fd_refs k h)) + (if h = g then 1 else 0) - (if h = fd_at k (t, j) then 1 else 0)"
proof -
  have m: "(t, j) \<in> fd_refs k h \<longleftrightarrow> h = fd_at k (t, j)" using assms by (auto simp: fd_refs_def)
  show ?thesis
  proof (cases "(t, j) \<in> fd_refs k h")
    case True
    then have "0 < card (fd_refs k h)" using card_gt_0_iff finite_refs by blast
    then show ?thesis using True m assms by (auto simp: fd_refs_set insert_absorb of_nat_diff)
  next
    case False
    then show ?thesis using m assms by (auto simp: fd_refs_set)
  qed
qed

section \<open>Preservation\<close>

lemma ref_ok_entry:
  "ref_ok D k \<Longrightarrow> c \<in> fd_cells \<Longrightarrow> fd_at k c \<noteq> -1 \<Longrightarrow>
     0 \<le> fd_at k c \<and> fd_at k c < MAX_GLOBAL_FDS \<and> kn_gfd_use k (fd_at k c)"
  by (auto simp: ref_ok_def)

lemma ref_ok_unused: "ref_ok D k \<Longrightarrow> \<not> kn_gfd_use k g \<Longrightarrow> 0 \<le> g \<Longrightarrow> fd_refs k g = {}"
  by (fastforce simp: ref_ok_def fd_refs_def)

lemma ref_ok_cong:
  "(\<And>c. c \<in> fd_cells \<Longrightarrow> fd_at k1 c = fd_at k c) \<Longrightarrow> kn_gfd_use k1 = kn_gfd_use k \<Longrightarrow> kn_gfd_ref k1 = kn_gfd_ref k \<Longrightarrow>
     ref_ok D k1 = ref_ok D k"
proof -
  assume a: "\<And>c. c \<in> fd_cells \<Longrightarrow> fd_at k1 c = fd_at k c" "kn_gfd_use k1 = kn_gfd_use k" "kn_gfd_ref k1 = kn_gfd_ref k"
  then have "fd_refs k1 = fd_refs k" by (auto simp: fd_refs_def fun_eq_iff)
  then show ?thesis using a by (simp add: ref_ok_def)
qed

lemma ref_ok_adjust:
  "ref_ok D k \<Longrightarrow> (\<And>g. 0 \<le> g \<Longrightarrow> g < MAX_GLOBAL_FDS \<Longrightarrow> kn_gfd_use k g \<Longrightarrow> D1 g = D g) \<Longrightarrow> ref_ok D1 k"
  by (auto simp: ref_ok_def)

lemma ref_ok_set:
  assumes "ref_ok D k" and "(t, j) \<in> fd_cells"
    and "g = -1 \<or> 0 \<le> g \<and> g < MAX_GLOBAL_FDS \<and> kn_gfd_use k g"
  shows "ref_ok (\<lambda>h. D h - (if h = g then 1 else 0) + (if h = fd_at k (t, j) then 1 else 0)) (task_set_fd t j g k)"
  using assms by (auto simp: ref_ok_def card_refs_set fd_at_set)

lemma ref_ok_count:
  assumes "ref_ok D k" and "n > 0"
  shows "ref_ok (D(g := D g + n - kn_gfd_ref k g)) (k\<lparr>kn_gfd_ref := (kn_gfd_ref k)(g := n)\<rparr>)"
  using assms by (auto simp: ref_ok_def)

lemma ref_ok_free:
  assumes "ref_ok D k" and "fd_refs k g = {}" and "\<forall>h. h \<noteq> g \<longrightarrow> D1 h = D h" and "\<forall>h. h \<noteq> g \<longrightarrow> r h = kn_gfd_ref k h"
  shows "ref_ok D1 (k\<lparr>kn_gfd_ref := r, kn_gfd_use := (kn_gfd_use k)(g := False)\<rparr>)"
  using assms by (auto simp: ref_ok_def fd_refs_def)

lemma ref_ok_alloc:
  assumes "ref_ok D k" and "\<not> kn_gfd_use k g" and "0 \<le> g"
  shows "ref_ok (D(g := 1)) (k\<lparr>kn_gfd_use := (kn_gfd_use k)(g := True), kn_gfd_ref := (kn_gfd_ref k)(g := 1)\<rparr>)"
  using assms ref_ok_unused [OF assms] by (auto simp: ref_ok_def)

text \<open>What releasing an entry does to the kernel: one reference less, and the entry free with
  the last.\<close>

definition drop_ref :: "int \<Rightarrow> kern \<Rightarrow> kern" where
  "drop_ref g k =
     (let k1 = k\<lparr>kn_gfd_ref := (kn_gfd_ref k)(g := kn_gfd_ref k g - 1)\<rparr>
      in if kn_gfd_ref k1 g = 0 then k1\<lparr>kn_gfd_use := (kn_gfd_use k)(g := False)\<rparr> else k1)"

lemma fw_k_upd [simp]:
  "fw_k (upd_gfd g f w) = fw_k w" "fw_k (upd_pipe p h w) = fw_k w" "fw_k (upd_pty q l w) = fw_k w"
  "fw_k (set_use g b w) = (fw_k w)\<lparr>kn_gfd_use := (kn_gfd_use (fw_k w))(g := b)\<rparr>"
  "fw_k (set_ref g n w) = (fw_k w)\<lparr>kn_gfd_ref := (kn_gfd_ref (fw_k w))(g := n)\<rparr>"
  "fw_k (set_fd t j g w) = task_set_fd t j g (fw_k w)"
  by (simp_all add: upd_gfd_def upd_pipe_def upd_pty_def set_use_def set_ref_def set_fd_def)

lemma fw_k_pty_close:
  "fw_k (pty_close g w) = fw_k w \<or>
   fw_k (pty_close g w) = (fw_k w)\<lparr>kn_gfd_use := (kn_gfd_use (fw_k w))(g := False)\<rparr>"
  by (simp add: pty_close_def Let_def)

lemma fw_k_last_ref_gone:
  "(fw_k (last_ref_gone ev g w))\<lparr>kn_gfd_use := (kn_gfd_use (fw_k (last_ref_gone ev g w)))(g := False)\<rparr>
   = (fw_k w)\<lparr>kn_gfd_use := (kn_gfd_use (fw_k w))(g := False)\<rparr>"
  using fw_k_pty_close [of g w] by (auto simp: last_ref_gone_def Let_def)

lemma fw_k_release: "fw_k (fd_release_global ev g w) = drop_ref g (fw_k w)"
proof (cases "gfd_ref w g - 1 = 0")
  case True
  then show ?thesis
    using fw_k_last_ref_gone [of ev g "set_ref g (gfd_ref w g - 1) w"]
    by (simp add: fd_release_global_def drop_ref_def Let_def)
next
  case False
  then show ?thesis by (simp add: fd_release_global_def drop_ref_def Let_def)
qed

lemma fd_at_drop [simp]: "fd_at (drop_ref g k) c = fd_at k c" "kn_cur (drop_ref g k) = kn_cur k"
  by (simp_all add: drop_ref_def Let_def)

lemma ref_ok_drop:
  assumes "ref_ok D k" and "kn_gfd_use k g" and "0 \<le> g" and "g < MAX_GLOBAL_FDS" and "D g = 1"
  shows "ref_ok (D(g := 0)) (drop_ref g k)"
proof (cases "kn_gfd_ref k g = 1")
  case True
  then have "card (fd_refs k g) = 0" using assms by (auto simp: ref_ok_def)
  then have "fd_refs k g = {}" by simp
  then show ?thesis
    using ref_ok_free [OF assms(1), of g "D(g := 0)" "(kn_gfd_ref k)(g := 0)"] True by (simp add: drop_ref_def)
next
  case False
  then have "kn_gfd_ref k g - 1 > 0" using assms by (auto simp: ref_ok_def)
  from ref_ok_count [OF assms(1) this, of g] False assms(5) show ?thesis by (simp add: drop_ref_def fun_upd_def)
qed

lemma drop_ref_use: "kn_gfd_use (drop_ref g k) h = (kn_gfd_use k h \<and> (h = g \<longrightarrow> kn_gfd_ref k g \<noteq> 1))"
  by (simp add: drop_ref_def Let_def)

text \<open>Taking the descriptor out of its cell and releasing it.\<close>

lemma ref_ok_close:
  assumes "ref_ok D k" and "(t, j) \<in> fd_cells" and "fd_at k (t, j) = g" and "g \<noteq> -1" and "D g = 0"
  shows "ref_ok D (drop_ref g (task_set_fd t j (-1) k))"
proof -
  from ref_ok_entry [OF assms(1,2)] assms(3,4) have g: "0 \<le> g" "g < MAX_GLOBAL_FDS" "kn_gfd_use k g" by auto
  have e: "ref_ok (D(g := 1)) (task_set_fd t j (-1) k)"
    by (rule ref_ok_adjust [OF ref_ok_set [OF assms(1,2), of "-1"]]) (use assms g in auto)
  have "D(g := 0) = D" using assms(5) by auto
  then show ?thesis using ref_ok_drop [OF e, of g] g by simp
qed

text \<open>Sharing an entry: its count goes up and an empty cell names it.\<close>

lemma ref_ok_share:
  assumes "ref_ok (\<lambda>_. 0) k" and "(t, j) \<in> fd_cells" and "fd_at k (t, j) = -1"
    and "0 \<le> g" and "g < MAX_GLOBAL_FDS" and "kn_gfd_use k g"
  shows "ref_ok (\<lambda>_. 0) (task_set_fd t j g (k\<lparr>kn_gfd_ref := (kn_gfd_ref k)(g := kn_gfd_ref k g + 1)\<rparr>))"
proof -
  have "kn_gfd_ref k g + 1 > 0" using assms by (fastforce simp: ref_ok_def)
  from ref_ok_count [OF assms(1) this, of g]
  have c: "ref_ok ((\<lambda>_. 0)(g := 1)) (k\<lparr>kn_gfd_ref := (kn_gfd_ref k)(g := kn_gfd_ref k g + 1)\<rparr>)" by simp
  show ?thesis
    by (rule ref_ok_adjust [OF ref_ok_set [OF c assms(2), of g]]) (use assms in auto)
qed

text \<open>A fresh entry gets its cell, or is given back.\<close>

lemma ref_ok_map:
  assumes "ref_ok D k" and "D g = 1" and "(t, j) \<in> fd_cells" and "fd_at k (t, j) = -1"
    and "0 \<le> g" and "g < MAX_GLOBAL_FDS" and "kn_gfd_use k g"
  shows "ref_ok (D(g := 0)) (task_set_fd t j g k)"
  by (rule ref_ok_adjust [OF ref_ok_set [OF assms(1,3), of g]]) (use assms in auto)

lemma ref_ok_inherit:
  assumes "ref_ok (\<lambda>_. 0) k" and "me \<noteq> i" and "0 \<le> i" and "i < 64" and "distinct js" and "set js \<subseteq> {0..<32}"
    and "\<forall>j \<in> set js. fd_at k (i, j) = -1"
  shows "ref_ok (\<lambda>_. 0) (inherit_fds js me i k)"
  using assms
proof (induction js arbitrary: k)
  case Nil
  then show ?case by simp
next
  case (Cons j js)
  let ?g = "tk_fd (kn_task k me) j"
  let ?k = "task_set_fd i j ?g (k\<lparr>kn_gfd_ref := (kn_gfd_ref k)(?g := kn_gfd_ref k ?g + 1)\<rparr>)"
  have c: "(i, j) \<in> fd_cells" using Cons.prems by (simp add: in_cells)
  show ?case
  proof (cases "0 \<le> ?g \<and> ?g < MAX_GLOBAL_FDS \<and> kn_gfd_use k ?g")
    case True
    have "ref_ok (\<lambda>_. 0) ?k" using ref_ok_share [OF Cons.prems(1) c] Cons.prems(7) True by simp
    moreover have "\<forall>l \<in> set js. fd_at ?k (i, l) = -1"
      using Cons.prems(5,7) by (auto simp: fd_at_set [OF c])
    moreover have "(upd_task i (\<lambda>x. x\<lparr>tk_fd := (tk_fd x)(j := ?g)\<rparr>) k)\<lparr>kn_gfd_ref := (kn_gfd_ref k)(?g := kn_gfd_ref k ?g + 1)\<rparr> = ?k"
      using c by (simp add: task_set_fd_def in_cells fd_consts upd_task_def)
    then have "inherit_fds (j # js) me i k = inherit_fds js me i ?k"
      using True by (simp add: Let_def)
    ultimately show ?thesis using Cons.IH Cons.prems by simp
  next
    case False
    have "inherit_fds (j # js) me i k = inherit_fds js me i k"
      unfolding inherit_fds.simps Let_def by (rule if_not_P [OF False])
    then show ?thesis using Cons by simp
  qed
qed

chapter \<open>The ends\<close>

text \<open>
  The ends of pipes and pseudo-terminals. \<open>ends_of w P p\<close> are the entries in use that satisfy
  \<open>P\<close> and belong to object \<open>p\<close>; \<open>ends_ok\<close> relates them to the pipe and pty tables: an
  object in use has an end, a pipe is closed for writing exactly when its write end is gone,
  a pty counts its slaves and knows its master.
\<close>

definition ends_of :: "'e fdw \<Rightarrow> (gfd \<Rightarrow> bool) \<Rightarrow> int \<Rightarrow> int set" where
  "ends_of w P p = {g. 0 \<le> g \<and> g < MAX_GLOBAL_FDS \<and> gfd_use w g \<and> P (fw_gfd w g) \<and> gf_pipe (fw_gfd w g) = p}"

definition is_rd :: "gfd \<Rightarrow> bool" where "is_rd x \<longleftrightarrow> gf_type x = FD_PIPE_READ"
definition is_wr :: "gfd \<Rightarrow> bool" where "is_wr x \<longleftrightarrow> gf_type x = FD_PIPE_WRITE"
definition is_mst :: "gfd \<Rightarrow> bool" where "is_mst x \<longleftrightarrow> gf_type x = FD_PTY \<and> gf_flags x = 1"
definition is_slv :: "gfd \<Rightarrow> bool" where "is_slv x \<longleftrightarrow> gf_type x = FD_PTY \<and> gf_flags x = 0"

lemmas end_kinds = is_rd_def is_wr_def is_mst_def is_slv_def

definition pipe_ok :: "pipe \<Rightarrow> int set \<Rightarrow> int set \<Rightarrow> bool" where
  "pipe_ok x R W \<longleftrightarrow>
     (if pp_use x
      then ring_good (pp_ring x) \<and> card R \<le> 1 \<and> card W \<le> 1 \<and> (pp_closed x \<longleftrightarrow> W = {}) \<and> (R \<noteq> {} \<or> W \<noteq> {})
      else R = {} \<and> W = {})"

definition pty_ok :: "pty \<Rightarrow> int set \<Rightarrow> int set \<Rightarrow> bool" where
  "pty_ok t M S \<longleftrightarrow>
     (if pt_use t
      then ring_good (pt_m2s t) \<and> ring_good (pt_s2m t) \<and> M = (if pt_master t = -1 then {} else {pt_master t})
         \<and> pt_slaves t = int (card S) \<and> (M \<noteq> {} \<or> S \<noteq> {})
      else M = {} \<and> S = {})"

definition shape_ok :: "gfd \<Rightarrow> bool" where
  "shape_ok x \<longleftrightarrow>
     (gf_type x \<in> {FD_PIPE_READ, FD_PIPE_WRITE, FD_PTY} \<longrightarrow> 0 \<le> gf_pipe x \<and> gf_pipe x < 16)
   \<and> (gf_type x = FD_PTY \<longrightarrow> gf_flags x = 0 \<or> gf_flags x = 1)"

definition ends_ok :: "'e fdw \<Rightarrow> bool" where
  "ends_ok w \<longleftrightarrow>
     (\<forall>g. 0 \<le> g \<longrightarrow> g < MAX_GLOBAL_FDS \<longrightarrow> gfd_use w g \<longrightarrow> shape_ok (fw_gfd w g))
   \<and> (\<forall>p. 0 \<le> p \<longrightarrow> p < 16 \<longrightarrow> pipe_ok (fw_pipe w p) (ends_of w is_rd p) (ends_of w is_wr p) \<and> pty_ok (fw_pty w p) (ends_of w is_mst p) (ends_of w is_slv p))"

text \<open>An entry that is no end of anything.\<close>

definition plain :: "gfd \<Rightarrow> bool" where
  "plain x \<longleftrightarrow> gf_type x \<notin> {FD_PIPE_READ, FD_PIPE_WRITE, FD_PTY}"

lemma finite_ends [simp]: "finite (ends_of w P p)"
proof -
  have "ends_of w P p \<subseteq> {0..<256}" by (auto simp: ends_of_def fd_consts)
  then show ?thesis by (rule finite_subset) simp
qed

section \<open>Frame rules\<close>

lemma tables_upd [simp]:
  "fw_pipe (upd_gfd g f w) = fw_pipe w" "fw_pty (upd_gfd g f w) = fw_pty w"
  "fw_gfd (upd_gfd g f w) h = (if h = g then f (fw_gfd w g) else fw_gfd w h)"
  "fw_pipe (set_use g b w) = fw_pipe w" "fw_pty (set_use g b w) = fw_pty w" "fw_gfd (set_use g b w) = fw_gfd w"
  "fw_pipe (set_ref g n w) = fw_pipe w" "fw_pty (set_ref g n w) = fw_pty w" "fw_gfd (set_ref g n w) = fw_gfd w"
  "fw_pipe (set_fd t j g w) = fw_pipe w" "fw_pty (set_fd t j g w) = fw_pty w" "fw_gfd (set_fd t j g w) = fw_gfd w"
  "fw_pipe (upd_pty q l w) = fw_pipe w" "fw_gfd (upd_pty q l w) = fw_gfd w"
  "fw_pty (upd_pty q l w) p = (if p = q then l (fw_pty w q) else fw_pty w p)"
  "fw_pty (upd_pipe q m w) = fw_pty w" "fw_gfd (upd_pipe q m w) = fw_gfd w"
  "fw_pipe (upd_pipe q m w) p = (if p = q then m (fw_pipe w q) else fw_pipe w p)"
  by (simp_all add: upd_gfd_def upd_pipe_def upd_pty_def set_use_def set_ref_def set_fd_def)

lemma ends_frame [simp]:
  "ends_of (set_ref g n w) P p = ends_of w P p" "ends_of (set_fd t j g w) P p = ends_of w P p"
  "ends_of (upd_pty q l w) P p = ends_of w P p" "ends_of (upd_pipe q m w) P p = ends_of w P p"
  "ends_of (set_use g False w) P p = ends_of w P p - {g}"
  by (auto simp: ends_of_def)

lemma ends_env [simp]: "ends_of (w\<lparr>fw_env := e\<rparr>) P p = ends_of w P p"
  by (simp add: ends_of_def)

lemma ends_same_shape:
  assumes "gf_type (f (fw_gfd w g)) = gf_type (fw_gfd w g)" and "gf_pipe (f (fw_gfd w g)) = gf_pipe (fw_gfd w g)"
    and "gf_flags (f (fw_gfd w g)) = gf_flags (fw_gfd w g)"
  shows "ends_of (upd_gfd g f w) is_rd p = ends_of w is_rd p" "ends_of (upd_gfd g f w) is_wr p = ends_of w is_wr p"
    "ends_of (upd_gfd g f w) is_mst p = ends_of w is_mst p" "ends_of (upd_gfd g f w) is_slv p = ends_of w is_slv p"
  using assms by (auto simp: ends_of_def end_kinds)

lemma ends_ok_cong:
  assumes "fw_gfd v = fw_gfd w" and "gfd_use v = gfd_use w" and "fw_pipe v = fw_pipe w" and "fw_pty v = fw_pty w"
  shows "ends_ok v = ends_ok w"
  using assms by (simp add: ends_ok_def ends_of_def)

lemma ends_ok_frame [simp]:
  "ends_ok (set_ref g n w) = ends_ok w" "ends_ok (set_fd t j g w) = ends_ok w" "ends_ok (w\<lparr>fw_env := e\<rparr>) = ends_ok w"
  by (rule ends_ok_cong; simp add: fun_eq_iff)+

lemma ends_ok_upd_same:
  assumes "ends_ok w" and "gf_type (f (fw_gfd w g)) = gf_type (fw_gfd w g)"
    and "gf_pipe (f (fw_gfd w g)) = gf_pipe (fw_gfd w g)" and "gf_flags (f (fw_gfd w g)) = gf_flags (fw_gfd w g)"
  shows "ends_ok (upd_gfd g f w)"
  using assms ends_same_shape [of f w g]
  by (simp add: ends_ok_def shape_ok_def)

lemma ends_okD:
  assumes "ends_ok w"
  shows "0 \<le> p \<Longrightarrow> p < 16 \<Longrightarrow> pipe_ok (fw_pipe w p) (ends_of w is_rd p) (ends_of w is_wr p)"
    "0 \<le> p \<Longrightarrow> p < 16 \<Longrightarrow> pty_ok (fw_pty w p) (ends_of w is_mst p) (ends_of w is_slv p)"
    "0 \<le> g \<Longrightarrow> g < MAX_GLOBAL_FDS \<Longrightarrow> gfd_use w g \<Longrightarrow> shape_ok (fw_gfd w g)"
  using assms by (auto simp: ends_ok_def)

lemma pipe_ok_ring:
  "pp_use (f x) = pp_use x \<Longrightarrow> pp_closed (f x) = pp_closed x \<Longrightarrow>
     (ring_good (pp_ring x) \<Longrightarrow> ring_good (pp_ring (f x))) \<Longrightarrow>
     pipe_ok x R W \<Longrightarrow> pipe_ok (f x) R W"
  by (simp add: pipe_ok_def split: if_splits)

lemma pty_ok_ring:
  "pt_use (f t) = pt_use t \<Longrightarrow> pt_master (f t) = pt_master t \<Longrightarrow> pt_slaves (f t) = pt_slaves t \<Longrightarrow>
     (ring_good (pt_m2s t) \<Longrightarrow> ring_good (pt_m2s (f t))) \<Longrightarrow> (ring_good (pt_s2m t) \<Longrightarrow> ring_good (pt_s2m (f t))) \<Longrightarrow> pty_ok t M S \<Longrightarrow> pty_ok (f t) M S"
  by (simp add: pty_ok_def split: if_splits)

text \<open>Replacing the ring of a pipe or a pty by a well-formed one.\<close>

lemma ends_ok_ring:
  assumes "ends_ok w" and "pp_use (f (fw_pipe w p)) = pp_use (fw_pipe w p)"
    and "pp_closed (f (fw_pipe w p)) = pp_closed (fw_pipe w p)" 
    and "ring_good (pp_ring (fw_pipe w p)) \<Longrightarrow> ring_good (pp_ring (f (fw_pipe w p)))"
  shows "ends_ok (upd_pipe p f w)"
  using assms pipe_ok_ring [of f "fw_pipe w p"] by (auto simp: ends_ok_def)

lemma ends_ok_pty_ring:
  assumes "ends_ok w" and "pt_use (f (fw_pty w p)) = pt_use (fw_pty w p)" and "pt_master (f (fw_pty w p)) = pt_master (fw_pty w p)"
    and "pt_slaves (f (fw_pty w p)) = pt_slaves (fw_pty w p)"
    and "ring_good (pt_m2s (fw_pty w p)) \<Longrightarrow> ring_good (pt_m2s (f (fw_pty w p)))"
    and "ring_good (pt_s2m (fw_pty w p)) \<Longrightarrow> ring_good (pt_s2m (f (fw_pty w p)))"
  shows "ends_ok (upd_pty p f w)"
  using assms pty_ok_ring [of f "fw_pty w p"] by (auto simp: ends_ok_def)

section \<open>A new entry, and one that goes\<close>

definition claim :: "int \<Rightarrow> (gfd \<Rightarrow> gfd) \<Rightarrow> 'e fdw \<Rightarrow> 'e fdw" where
  "claim g f w = upd_gfd g f (set_ref g 1 (set_use g True w))"

lemma claim_fields [simp]:
  "fw_k (claim g f w) = (fw_k w)\<lparr>kn_gfd_use := (kn_gfd_use (fw_k w))(g := True), kn_gfd_ref := (kn_gfd_ref (fw_k w))(g := 1)\<rparr>"
  "fw_pipe (claim g f w) = fw_pipe w" "fw_pty (claim g f w) = fw_pty w"
  "fw_gfd (claim g f w) h = (if h = g then f (fw_gfd w g) else fw_gfd w h)"
  by (simp_all add: claim_def)

lemma ends_claim:
  assumes "\<not> gfd_use w g" and "0 \<le> g" and "g < MAX_GLOBAL_FDS"
  shows "ends_of (claim g f w) P p =
    (if P (f (fw_gfd w g)) \<and> gf_pipe (f (fw_gfd w g)) = p then insert g (ends_of w P p) else ends_of w P p)"
  using assms by (auto simp: ends_of_def)

lemma ends_ok_claim_plain:
  assumes "ends_ok w" and "\<not> gfd_use w g" and "0 \<le> g" and "g < MAX_GLOBAL_FDS" and "plain (f (fw_gfd w g))"
  shows "ends_ok (claim g f w)"
proof -
  have e: "ends_of (claim g f w) P p = ends_of w P p" if "P \<in> {is_rd, is_wr, is_mst, is_slv}" for P p
    using that assms by (auto simp: ends_claim [OF assms(2-4)] plain_def end_kinds)
  have "shape_ok (f (fw_gfd w g))" using assms(5) by (auto simp: plain_def shape_ok_def)
  then show ?thesis using assms by (simp add: ends_ok_def e)
qed

lemma ends_ok_unuse_plain:
  assumes "ends_ok w" and "plain (fw_gfd w g)"
  shows "ends_ok (set_use g False w)"
proof -
  have e: "ends_of (set_use g False w) P p = ends_of w P p" if "P \<in> {is_rd, is_wr, is_mst, is_slv}" for P p
    using that assms by (auto simp: plain_def end_kinds ends_of_def)
  have "gfd_use (set_use g False w) h \<longrightarrow> gfd_use w h" for h by simp
  then show ?thesis using assms by (simp add: ends_ok_def e del: ends_frame)
qed

lemma free_gfdD:
  assumes "free_gfd w = g" and "g \<ge> 0"
  shows "\<not> gfd_use w g \<and> g < MAX_GLOBAL_FDS"
  using assms first_idx_Some by (fastforce simp: free_gfd_def fd_consts split: option.splits)

lemma alloc_gfdD:
  assumes "alloc_global_fd w = (g, w1)"
  shows "if g < 0 then g = -1 \<and> w1 = w
    else \<not> gfd_use w g \<and> g < MAX_GLOBAL_FDS \<and> w1 = claim g (\<lambda>x. x\<lparr>gf_off := 0\<rparr>) w"
  using assms free_gfdD [of w g] by (auto simp: alloc_global_fd_def claim_def Let_def split: if_splits)

lemma upd_claim: "upd_gfd g f (claim g h w) = claim g (\<lambda>x. f (h x)) w"
  by (simp add: claim_def upd_gfd_def)

end
