(* ===== verification/Fd_Inv.thy ===== *)
theory Fd_Inv
  imports Fd_Refs
begin

text \<open>
  Every operation on descriptors keeps the invariant \<open>fd_ok\<close>: exact reference counts
  and well-formed ends (\<open>Fd_Refs\<close>). \<open>fd_mid g\<close> is the state inside a call
  that has claimed the entry \<open>g\<close> and not yet given it to a cell.
\<close>

definition fd_ok :: "'e fdw \<Rightarrow> bool" where
  "fd_ok w \<longleftrightarrow> ref_ok (\<lambda>_. 0) (fw_k w) \<and> ends_ok w"

definition fd_mid :: "int \<Rightarrow> 'e fdw \<Rightarrow> bool" where
  "fd_mid g w \<longleftrightarrow> ref_ok ((\<lambda>_. 0)(g := 1)) (fw_k w) \<and> ends_ok w \<and> gfd_use w g \<and> gfd_ref w g = 1
     \<and> 0 \<le> g \<and> g < MAX_GLOBAL_FDS"

section \<open>Releasing an end\<close>

lemma singleton_end: "finite A \<Longrightarrow> card A \<le> 1 \<Longrightarrow> g \<in> A \<Longrightarrow> A = {g}"
  by (metis One_nat_def card_le_Suc0_iff_eq is_singletonI' is_singleton_the_elem singletonD empty_iff)

lemma ends_ok_unuse_pipe:
  assumes "ends_ok w" and "gf_pipe (fw_gfd w g) = p" and "is_rd (fw_gfd w g) \<or> is_wr (fw_gfd w g)"
    and "pipe_ok (f (fw_pipe w p)) (ends_of w is_rd p - {g}) (ends_of w is_wr p - {g})"
  shows "ends_ok (set_use g False (upd_pipe p f w))"
proof -
  have o: "ends_of w P q - {g} = ends_of w P q" if "q \<noteq> p" for P q using that assms(2) by (auto simp: ends_of_def)
  have t: "ends_of w is_mst q - {g} = ends_of w is_mst q" "ends_of w is_slv q - {g} = ends_of w is_slv q" for q
    using assms(3) by (auto simp: ends_of_def end_kinds)
  show ?thesis using assms(1,4) by (auto simp: ends_ok_def t o)
qed

lemma ends_ok_unuse_pty:
  assumes "ends_ok w" and "gf_pipe (fw_gfd w g) = p" and "gf_type (fw_gfd w g) = FD_PTY"
    and "pty_ok (f (fw_pty w p)) (ends_of w is_mst p - {g}) (ends_of w is_slv p - {g})"
  shows "ends_ok (set_use g False (upd_pty p f w))"
proof -
  have o: "ends_of w P q - {g} = ends_of w P q" if "q \<noteq> p" for P q using that assms(2) by (auto simp: ends_of_def)
  have t: "ends_of w is_rd q - {g} = ends_of w is_rd q" "ends_of w is_wr q - {g} = ends_of w is_wr q" for q
    using assms(3) by (auto simp: ends_of_def end_kinds)
  show ?thesis using assms(1,4) by (auto simp: ends_ok_def t o)
qed

lemma read_end_open_iff: "read_end_open p w \<longleftrightarrow> ends_of w is_rd p \<noteq> {}"
proof -
  have "read_end_open p w \<longleftrightarrow>
      (\<exists>i < 256. gfd_use w (int i) \<and> gf_type (fw_gfd w (int i)) = FD_PIPE_READ \<and> gf_pipe (fw_gfd w (int i)) = p)"
    by (auto simp: read_end_open_def fd_consts first_idx_None)
  also have "\<dots> \<longleftrightarrow> (\<exists>g. g \<in> ends_of w is_rd p)"
  proof
    assume "\<exists>g. g \<in> ends_of w is_rd p"
    then obtain g where g: "g \<in> ends_of w is_rd p" by blast
    then have "nat g < 256 \<and> int (nat g) = g" by (auto simp: ends_of_def fd_consts)
    with g show "\<exists>i < 256. gfd_use w (int i) \<and> gf_type (fw_gfd w (int i)) = FD_PIPE_READ \<and> gf_pipe (fw_gfd w (int i)) = p"
      by (intro exI [of _ "nat g"]) (auto simp: ends_of_def is_rd_def)
  next
    assume "\<exists>i < 256. gfd_use w (int i) \<and> gf_type (fw_gfd w (int i)) = FD_PIPE_READ \<and> gf_pipe (fw_gfd w (int i)) = p"
    then obtain i where "i < 256" "gfd_use w (int i)" "gf_type (fw_gfd w (int i)) = FD_PIPE_READ" "gf_pipe (fw_gfd w (int i)) = p"
      by blast
    then have "int i \<in> ends_of w is_rd p" by (simp add: ends_of_def is_rd_def fd_consts)
    then show "\<exists>g. g \<in> ends_of w is_rd p" by blast
  qed
  finally show ?thesis by blast
qed

lemma end_in:
  "gfd_use w g \<Longrightarrow> 0 \<le> g \<Longrightarrow> g < MAX_GLOBAL_FDS \<Longrightarrow> P (fw_gfd w g) \<Longrightarrow> g \<in> ends_of w P (gf_pipe (fw_gfd w g))"
  by (simp add: ends_of_def)

lemma shape_pipe:
  assumes "ends_ok w" and "gfd_use w g" and "0 \<le> g" and "g < MAX_GLOBAL_FDS" and "\<not> plain (fw_gfd w g)"
  shows "0 \<le> gf_pipe (fw_gfd w g)" "gf_pipe (fw_gfd w g) < 16"
  using ends_okD(3) [OF assms(1,3,4,2)] assms(5) by (auto simp: plain_def shape_ok_def)

lemma ends_ok_pty_close:
  assumes "ends_ok w" and u: "gfd_use w g" "0 \<le> g" "g < MAX_GLOBAL_FDS" and ty: "gf_type (fw_gfd w g) = FD_PTY"
  shows "ends_ok (pty_close g w)" and "\<not> gfd_use (pty_close g w) g"
proof -
  let ?p = "gf_pipe (fw_gfd w g)"
  let ?t = "fw_pty w ?p"
  have p: "0 \<le> ?p" "?p < 16" using shape_pipe [OF assms(1) u] ty by (auto simp: plain_def)
  have pt: "pty_ok ?t (ends_of w is_mst ?p) (ends_of w is_slv ?p)" by (rule ends_okD(2) [OF assms(1) p])
  have fl: "gf_flags (fw_gfd w g) = 0 \<or> gf_flags (fw_gfd w g) = 1"
    using ends_okD(3) [OF assms(1) u(2,3,1)] ty by (auto simp: shape_ok_def)
  have sm: "pty_slot_is_master g w = gf_flags (fw_gfd w g)"
    using u ty fl by (auto simp: pty_slot_is_master_def)
  define fm where "fm = (\<lambda>t :: pty. let t1 = t\<lparr>pt_master := -1\<rparr> in if pt_slaves t1 \<le> 0 then t1\<lparr>pt_use := False\<rparr> else t1)"
  define fs where "fs = (\<lambda>t :: pty. let t1 = (if pt_slaves t > 0 then t\<lparr>pt_slaves := pt_slaves t - 1\<rparr> else t)
    in if pt_slaves t1 \<le> 0 \<and> pt_master t1 < 0 then t1\<lparr>pt_use := False\<rparr> else t1)"
  have e: "ends_ok (set_use g False (upd_pty ?p (if gf_flags (fw_gfd w g) \<noteq> 0 then fm else fs) w))"
  proof (rule ends_ok_unuse_pty [OF assms(1) refl ty])
    show "pty_ok ((if gf_flags (fw_gfd w g) \<noteq> 0 then fm else fs) ?t) (ends_of w is_mst ?p - {g}) (ends_of w is_slv ?p - {g})"
    proof (cases "gf_flags (fw_gfd w g) = 1")
      case True
      have g: "g \<in> ends_of w is_mst ?p" by (rule end_in [OF u]) (simp add: is_mst_def ty True)
      have "g \<notin> ends_of w is_slv ?p" using True by (simp add: ends_of_def is_slv_def)
      then have "ends_of w is_slv ?p - {g} = ends_of w is_slv ?p" by simp
      moreover have "ends_of w is_mst ?p = {g}" "pt_use ?t" using pt g by (auto simp: pty_ok_def split: if_splits)
      ultimately show ?thesis using pt True by (auto simp: pty_ok_def fm_def Let_def card_gt_0_iff)
    next
      case False
      then have z: "gf_flags (fw_gfd w g) = 0" using fl by simp
      have g: "g \<in> ends_of w is_slv ?p" by (rule end_in [OF u]) (simp add: is_slv_def ty z)
      have "g \<notin> ends_of w is_mst ?p" using z by (simp add: ends_of_def is_mst_def)
      then have m: "ends_of w is_mst ?p - {g} = ends_of w is_mst ?p" by simp
      have us: "pt_use ?t" using pt g by (cases "pt_use ?t") (auto simp: pty_ok_def)
      have c: "card (ends_of w is_slv ?p) > 0" using g by (auto simp: card_gt_0_iff)
      have mm: "pt_master ?t = -1 \<or> pt_master ?t \<ge> 0"
      proof (cases "pt_master ?t = -1")
        case False
        then have "pt_master ?t \<in> ends_of w is_mst ?p" using pt us by (simp add: pty_ok_def)
        then show ?thesis by (simp add: ends_of_def)
      qed simp
      have cd: "card (ends_of w is_slv ?p - {g}) = card (ends_of w is_slv ?p) - 1" using g by simp
      have ne: "ends_of w is_slv ?p - {g} = {} \<longleftrightarrow> card (ends_of w is_slv ?p) \<le> 1"
        using cd c by (metis Diff_eq_empty_iff One_nat_def card_0_eq diff_is_0_eq finite_Diff finite_ends)
      show ?thesis unfolding m using pt us c mm z cd ne
        by (auto simp: pty_ok_def fs_def Let_def of_nat_diff split: if_splits)
    qed
  qed
  have c: "pty_close g w = upd_gfd g (\<lambda>x. x\<lparr>gf_type := FD_NONE\<rparr>)
      (set_use g False (upd_pty ?p (if gf_flags (fw_gfd w g) \<noteq> 0 then fm else fs) w))"
    using sm fl unfolding pty_close_def fm_def fs_def by (auto simp: Let_def)
  have eq: "ends_ok (upd_gfd g f v) = ends_ok v" if "\<not> gfd_use v g" for f and v :: "'a fdw"
  proof -
    have "ends_of (upd_gfd g f v) P q = ends_of v P q" for P q using that by (auto simp: ends_of_def)
    moreover have "gfd_use v h \<Longrightarrow> fw_gfd (upd_gfd g f v) h = fw_gfd v h" for h using that by auto
    ultimately show ?thesis by (simp add: ends_ok_def del: tables_upd(3))
  qed
  show "ends_ok (pty_close g w)" unfolding c using e by (simp add: eq)
  show "\<not> gfd_use (pty_close g w) g" unfolding c by simp
qed

lemma unuse_unused: "\<not> gfd_use w g \<Longrightarrow> ends_ok w \<Longrightarrow> ends_ok (set_use g False w)"
  by (rule ends_ok_cong [THEN iffD1, of w]) (auto simp: fun_eq_iff)

lemma upd_pipe_twice: "upd_pipe p f (upd_pipe p h w) = upd_pipe p (\<lambda>x. f (h x)) w"
  by (simp add: upd_pipe_def)

lemma ends_ok_release:
  assumes "ends_ok w" and u: "gfd_use w g" "0 \<le> g" "g < MAX_GLOBAL_FDS"
  shows "ends_ok (fd_release_global ev g w)"
proof (cases "gfd_ref w g - 1 = 0")
  case False
  then show ?thesis using assms(1) by (simp add: fd_release_global_def)
next
  case True
  let ?w = "set_ref g (gfd_ref w g - 1) w"
  let ?x = "fw_gfd w g"
  let ?p = "gf_pipe ?x"
  have r: "fd_release_global ev g w = set_use g False (last_ref_gone ev g ?w)"
    using True by (simp add: fd_release_global_def)
  have ok: "ends_ok ?w" and u1: "gfd_use ?w g" using assms(1) u by simp_all
  consider "is_wr ?x" | "is_rd ?x" | "gf_type ?x = FD_PTY" | "plain ?x" by (auto simp: end_kinds plain_def)
  then show ?thesis
  proof cases
    case 1
    have p: "0 \<le> ?p" "?p < 16" using shape_pipe [OF assms(1) u] 1 by (auto simp: plain_def end_kinds)
    have pk: "pipe_ok (fw_pipe w ?p) (ends_of w is_rd ?p) (ends_of w is_wr ?p)" by (rule ends_okD(1) [OF assms(1) p])
    have g: "g \<in> ends_of w is_wr ?p" by (rule end_in [OF u]) (rule 1)
    have us: "pp_use (fw_pipe w ?p)" using pk g by (auto simp: pipe_ok_def split: if_splits)
    then have wr: "ends_of w is_wr ?p = {g}" using pk singleton_end [OF _ _ g] by (auto simp: pipe_ok_def)
    have "g \<notin> ends_of w is_rd ?p" using 1 by (simp add: ends_of_def end_kinds)
    then have rd: "ends_of w is_rd ?p - {g} = ends_of w is_rd ?p" by simp
    define f :: "pipe \<Rightarrow> pipe" where "f = (\<lambda>q. if ends_of w is_rd ?p \<noteq> {} then q\<lparr>pp_closed := True\<rparr> else q\<lparr>pp_closed := True, pp_use := False\<rparr>)"
    have "last_ref_gone ev g ?w = upd_pipe ?p f ?w"
      using 1 by (auto simp: last_ref_gone_def Let_def read_end_open_iff is_wr_def f_def upd_pipe_twice)
    moreover have "ends_ok (set_use g False (upd_pipe ?p f ?w))"
      by (rule ends_ok_unuse_pipe [OF ok]) (use 1 pk us wr rd in \<open>auto simp: f_def pipe_ok_def\<close>)
    ultimately show ?thesis using r by simp
  next
    case 2
    have p: "0 \<le> ?p" "?p < 16" using shape_pipe [OF assms(1) u] 2 by (auto simp: plain_def end_kinds)
    have pk: "pipe_ok (fw_pipe w ?p) (ends_of w is_rd ?p) (ends_of w is_wr ?p)" by (rule ends_okD(1) [OF assms(1) p])
    have g: "g \<in> ends_of w is_rd ?p" by (rule end_in [OF u]) (rule 2)
    have us: "pp_use (fw_pipe w ?p)" using pk g by (auto simp: pipe_ok_def split: if_splits)
    then have rd: "ends_of w is_rd ?p = {g}" using pk singleton_end [OF _ _ g] by (auto simp: pipe_ok_def)
    have "g \<notin> ends_of w is_wr ?p" using 2 by (simp add: ends_of_def end_kinds)
    then have wr: "ends_of w is_wr ?p - {g} = ends_of w is_wr ?p" by simp
    define f :: "pipe \<Rightarrow> pipe" where "f = (\<lambda>q. if pp_closed (fw_pipe w ?p) then q\<lparr>pp_use := False\<rparr> else q)"
    have "last_ref_gone ev g ?w = upd_pipe ?p f ?w"
      using 2 by (auto simp: last_ref_gone_def Let_def end_kinds f_def upd_pipe_def)
    moreover have "ends_ok (set_use g False (upd_pipe ?p f ?w))"
      by (rule ends_ok_unuse_pipe [OF ok]) (use 2 pk us wr rd in \<open>auto simp: f_def pipe_ok_def\<close>)
    ultimately show ?thesis using r by simp
  next
    case 3
    then have "last_ref_gone ev g ?w = pty_close g ?w" by (simp add: last_ref_gone_def Let_def)
    then show ?thesis
      using r unuse_unused ends_ok_pty_close [OF ok u1 u(2,3)] 3 by (metis tables_upd(9))
  next
    case 4
    have "ends_ok (last_ref_gone ev g ?w)" "fw_gfd (last_ref_gone ev g ?w) g = ?x"
      using 4 ok by (auto simp: last_ref_gone_def Let_def plain_def)
    then show ?thesis using r ends_ok_unuse_plain 4 by metis
  qed
qed

section \<open>Closing and sharing\<close>

lemma ends_ok_upd_unused: "\<not> gfd_use w g \<Longrightarrow> ends_ok (upd_gfd g f w) = ends_ok w"
proof -
  assume u: "\<not> gfd_use w g"
  have "ends_of (upd_gfd g f w) P q = ends_of w P q" for P q using u by (auto simp: ends_of_def)
  moreover have "gfd_use w h \<Longrightarrow> fw_gfd (upd_gfd g f w) h = fw_gfd w h" for h using u by auto
  ultimately show ?thesis by (simp add: ends_ok_def del: tables_upd(3))
qed

lemma fd_ok_env [simp]: "fd_ok (w\<lparr>fw_env := e\<rparr>) = fd_ok w"
  by (simp add: fd_ok_def)

lemma release_ok:
  assumes "fd_ok w" and "(t, j) \<in> fd_cells" and "fd_at (fw_k w) (t, j) = g" and "g \<noteq> -1"
  shows "fd_ok (fd_release_global ev g (set_fd t j (-1) w))"
proof -
  have r: "ref_ok (\<lambda>_. 0) (fw_k w)" and e: "ends_ok w" using assms(1) by (simp_all add: fd_ok_def)
  from ref_ok_entry [OF r assms(2)] assms(3,4) have g: "0 \<le> g" "g < MAX_GLOBAL_FDS" "gfd_use w g" by auto
  have "ends_ok (fd_release_global ev g (set_fd t j (-1) w))"
    by (rule ends_ok_release) (use e g in auto)
  then show ?thesis using ref_ok_close [OF r assms(2-4) refl] by (simp add: fd_ok_def fw_k_release)
qed

lemma open_gfdD:
  assumes "open_gfd cid fd w = Some g"
  shows "(kn_cur (fw_k w) cid, fd) \<in> fd_cells" "fd_at (fw_k w) (kn_cur (fw_k w) cid, fd) = g" "gfd_use w g" "0 \<le> g"
  using assms by (auto simp: open_gfd_def get_fd_at Let_def split: if_splits)

lemma open_gfd_range: "fd_ok w \<Longrightarrow> open_gfd cid fd w = Some g \<Longrightarrow> g < MAX_GLOBAL_FDS"
  using open_gfdD [of cid fd w g] ref_ok_entry [of "\<lambda>_. 0" "fw_k w"] by (fastforce simp: fd_ok_def)

lemma close_ok: "fd_ok w \<Longrightarrow> fd_ok (snd (do_sys_close ev cid fd w))"
  using release_ok open_gfdD by (fastforce simp: do_sys_close_def split: option.splits)

lemma dup2_ok:
  assumes "fd_ok w" and "t < 64"
  shows "fd_ok (snd (do_sys_dup2_tid ev cid t oldfd newfd w))"
proof -
  define og where "og = task_get_fd t oldfd (fw_k w)"
  define ng where "ng = task_get_fd t newfd (fw_k w)"
  define c where "c \<longleftrightarrow> t \<ge> 0 \<and> 0 \<le> oldfd \<and> oldfd < 32 \<and> 0 \<le> newfd \<and> newfd < 32 \<and> oldfd \<noteq> newfd \<and> og \<ge> 0
    \<and> gfd_use w og \<and> \<not> (t = kn_cur (fw_k w) cid \<and> ng < 0 \<and> \<not> task_rlimit_nofile_ok cid (fw_k w))"
  define w1 where "w1 = (if ng \<ge> 0 \<and> gfd_use w ng then fd_release_global ev ng (set_fd t newfd (-1) w) else w)"
  have eq: "do_sys_dup2_tid ev cid t oldfd newfd w =
      (if c then (newfd, set_fd t newfd og (set_ref og (gfd_ref w1 og + 1) w1))
       else do_sys_dup2_tid ev cid t oldfd newfd w)"
    by (auto simp: do_sys_dup2_tid_def c_def og_def ng_def w1_def Let_def fd_consts)
  show ?thesis
  proof (cases c)
    case False
    then show ?thesis using assms
      by (auto simp: do_sys_dup2_tid_def c_def og_def ng_def Let_def fd_consts)
  next
    case True
    have r: "ref_ok (\<lambda>_. 0) (fw_k w)" using assms by (simp add: fd_ok_def)
    have co: "(t, oldfd) \<in> fd_cells" and cn: "(t, newfd) \<in> fd_cells" using True assms by (simp_all add: c_def in_cells)
    have o: "fd_at (fw_k w) (t, oldfd) = og" and n: "fd_at (fw_k w) (t, newfd) = ng"
      using co cn by (simp_all add: og_def ng_def get_fd_at)
    have no: "oldfd \<noteq> newfd" using True by (simp add: c_def)
    have w1: "fd_ok w1 \<and> fd_at (fw_k w1) (t, newfd) = -1 \<and> fd_at (fw_k w1) (t, oldfd) = og"
    proof (cases "ng \<ge> 0 \<and> gfd_use w ng")
      case True
      then show ?thesis
        using release_ok [OF assms(1) cn n] no o by (simp add: w1_def fw_k_release fd_at_set [OF cn])
    next
      case False
      then have "ng = -1" using ref_ok_entry [OF r cn] n by auto
      then show ?thesis using False assms n o by (simp add: w1_def)
    qed
    then have r1: "ref_ok (\<lambda>_. 0) (fw_k w1)" by (simp add: fd_ok_def)
    have "og \<noteq> -1" using True by (simp add: c_def)
    then have g: "0 \<le> og" "og < MAX_GLOBAL_FDS" "gfd_use w1 og" using ref_ok_entry [OF r1 co] w1 by auto
    have "ref_ok (\<lambda>_. 0) (fw_k (set_fd t newfd og (set_ref og (gfd_ref w1 og + 1) w1)))"
      using ref_ok_share [OF r1 cn _ g] w1 by simp
    then show ?thesis using True eq w1 by (simp add: fd_ok_def)
  qed
qed

lemma drop_fd_ok: "fd_ok w \<Longrightarrow> fd_ok (drop_fd ev t j w)"
proof -
  assume ok: "fd_ok w"
  define g where "g = task_get_fd t j (fw_k w)"
  show ?thesis
  proof (cases "g < 0")
    case True
    then show ?thesis using ok by (simp add: drop_fd_def g_def)
  next
    case False
    then have c: "(t, j) \<in> fd_cells" "fd_at (fw_k w) (t, j) = g" by (auto simp: g_def get_fd_at split: if_splits)
    have "ref_ok (\<lambda>_. 0) (fw_k w)" using ok by (simp add: fd_ok_def)
    from ref_ok_entry [OF this c(1)] c(2) False have "g < MAX_GLOBAL_FDS" "gfd_use w g" by auto
    then show ?thesis using release_ok [OF ok c] False by (simp add: drop_fd_def g_def [symmetric])
  qed
qed

lemma fold_keeps: "I w \<Longrightarrow> (\<And>j w. I w \<Longrightarrow> I (f j w)) \<Longrightarrow> I (fold f js w)"
  by (induction js arbitrary: w) auto

lemma close_all_ok: "fd_ok w \<Longrightarrow> fd_ok (task_close_all_fds ev t w)"
  unfolding task_close_all_fds_def by (rule fold_keeps [of fd_ok]) (simp_all add: drop_fd_ok)

lemma rewire_ok:
  assumes "fd_ok w" and "t < 64"
  shows "fd_ok (task_rewire_fds ev cid t a b w)"
proof -
  have "fd_ok v \<Longrightarrow> fd_ok (snd (do_sys_dup2_tid ev cid t x y v))" for x y v
    using dup2_ok assms(2) by blast
  then show ?thesis using assms(1)
    by (auto simp: task_rewire_fds_def Let_def intro!: fold_keeps [of fd_ok] drop_fd_ok)
qed

section \<open>Opening\<close>

lemma claim_mid:
  assumes "fd_ok w" and "\<not> gfd_use w g" and "0 \<le> g" and "g < MAX_GLOBAL_FDS" and "ends_ok (claim g f v)" and "fw_k v = fw_k w"
  shows "fd_mid g (claim g f v)"
  using assms ref_ok_alloc [of "\<lambda>_. 0" "fw_k w" g] by (simp add: fd_mid_def fd_ok_def)

lemma mid_unused:
  assumes "fd_mid g w"
  shows "fd_refs (fw_k w) g = {}"
proof -
  have "int (card (fd_refs (fw_k w) g)) = 0" using assms by (auto simp: fd_mid_def ref_ok_def)
  then show ?thesis by simp
qed

lemma mid_free:
  assumes "fd_mid g w" and "ends_ok (set_use g False w)"
  shows "fd_ok (set_use g False w)"
  using assms ref_ok_free [of "(\<lambda>_. 0)(g := 1)" "fw_k w" g "\<lambda>_. 0" "kn_gfd_ref (fw_k w)"] mid_unused [OF assms(1)]
  by (simp add: fd_ok_def fd_mid_def)

lemma map_fd_ok:
  assumes "fd_mid g w" and "kn_cur (fw_k w) cid < 64" and "task_map_fd cid g w = (l, w1)"
  shows "if l < 0 then l = -1 \<and> w1 = w else fd_ok w1 \<and> w1 = set_fd (kn_cur (fw_k w) cid) l g w
    \<and> (kn_cur (fw_k w) cid, l) \<in> fd_cells \<and> fd_at (fw_k w) (kn_cur (fw_k w) cid, l) = -1"
proof (cases "l < 0")
  case True
  then show ?thesis using assms(3) by (auto simp: task_map_fd_def Let_def split: if_splits option.splits)
next
  case False
  let ?t = "kn_cur (fw_k w) cid"
  from False assms(3) obtain j where j: "first_idx (\<lambda>j. task_get_fd ?t (int j) (fw_k w) = -1) 0 32 = Some j"
      "l = int j" "w1 = set_fd ?t l g w" "?t \<ge> 0"
    by (auto simp: task_map_fd_def Let_def fd_consts split: if_splits option.splits)
  from first_idx_Some [OF j(1)] j(2) have jl: "l < 32" "task_get_fd ?t l (fw_k w) = -1" by auto
  have c: "(?t, l) \<in> fd_cells" using j jl assms(2) by (simp add: in_cells)
  then have a: "fd_at (fw_k w) (?t, l) = -1" using jl by (simp add: get_fd_at)
  have "ref_ok (\<lambda>_. 0) (fw_k w1)"
    using ref_ok_map [of "(\<lambda>_. 0)(g := 1)" "fw_k w" g ?t l] assms(1) c a j(3) by (simp add: fd_mid_def fun_upd_idem)
  then show ?thesis using False assms(1) j(3) c a by (simp add: fd_ok_def fd_mid_def)
qed

lemma map_or_free_ok:
  assumes "fd_mid g w" and "kn_cur (fw_k w) cid < 64" and "plain (fw_gfd w g)"
  shows "fd_ok (snd (map_or_free cid g w))"
proof -
  obtain l w1 where m: "task_map_fd cid g w = (l, w1)" by fastforce
  have "ends_ok (set_use g False w)" using assms by (simp add: ends_ok_unuse_plain fd_mid_def)
  then show ?thesis
    using map_fd_ok [OF assms(1,2) m] mid_free [OF assms(1)] m by (auto simp: map_or_free_def)
qed

text \<open>Claim an entry of a plain type and map it: \<open>open\<close>, \<open>socket\<close>, \<open>accept\<close>.\<close>

lemma alloc_plain:
  assumes "fd_ok w" and "alloc_global_fd w = (g, w1)" and "g \<ge> 0" and "\<And>x. plain (f x)"
  shows "fd_mid g (upd_gfd g f w1)" "plain (fw_gfd (upd_gfd g f w1) g)" "kn_cur (fw_k (upd_gfd g f w1)) = kn_cur (fw_k w)"
proof -
  from alloc_gfdD [OF assms(2)] assms(3) have g: "\<not> gfd_use w g" "g < MAX_GLOBAL_FDS" "w1 = claim g (\<lambda>x. x\<lparr>gf_off := 0\<rparr>) w"
    by auto
  have e: "ends_ok (claim g (\<lambda>x. f (x\<lparr>gf_off := 0\<rparr>)) w)"
    by (rule ends_ok_claim_plain) (use assms g in \<open>auto simp: fd_ok_def\<close>)
  show "fd_mid g (upd_gfd g f w1)"
    using claim_mid [OF assms(1) g(1) assms(3) g(2) e] g(3) by (simp add: upd_claim)
  show "plain (fw_gfd (upd_gfd g f w1) g)" "kn_cur (fw_k (upd_gfd g f w1)) = kn_cur (fw_k w)"
    using assms(4) g(3) by simp_all
qed

lemma alloc_map_ok:
  assumes "fd_ok w" and "kn_cur (fw_k w) cid < 64" and "alloc_global_fd w = (g, w1)" and "\<not> g < 0" and "\<And>x. plain (f x)"
  shows "fd_ok (snd (map_or_free cid g (upd_gfd g f w1)))"
proof -
  have g: "g \<ge> 0" using assms(4) by simp
  show ?thesis
    using map_or_free_ok [OF alloc_plain(1) [OF assms(1,3) g assms(5)] _ alloc_plain(2) [OF assms(1,3) g assms(5)]]
      alloc_plain(3) [OF assms(1,3) g assms(5)] assms(2) by simp
qed

lemma alloc_fail: "alloc_global_fd w = (g, w1) \<Longrightarrow> g < 0 \<Longrightarrow> w1 = w"
  using alloc_gfdD by fastforce

lemma open_ok:
  assumes "fd_ok w" and "kn_cur (fw_k w) cid < 64"
  shows "fd_ok (snd (do_sys_open ev cid path mode w))"
proof -
  obtain g w1 where a: "alloc_global_fd w = (g, w1)" by fastforce
  define node where "node = ev_get_node ev path (fw_env w)"
  define f where "f = (\<lambda>x. x\<lparr>gf_node := node, gf_type := (if ev_is_dir ev node (fw_env w1) then FD_NONE else FD_FILE), gf_flags := mode\<rparr> :: gfd)"
  have e: "do_sys_open ev cid path mode w =
      (if node < 0 then (-1, w) else if g < 0 then (-1, w1) else map_or_free cid g (upd_gfd g f w1))"
    by (simp add: do_sys_open_def a node_def f_def map_or_free_def Let_def)
  have "plain (f x)" for x by (simp add: f_def plain_def)
  from alloc_map_ok [OF assms a _ this] show ?thesis using alloc_fail [OF a] assms(1) by (simp add: e)
qed

lemma socket_ok:
  assumes "fd_ok w" and "kn_cur (fw_k w) cid < 64"
  shows "fd_ok (snd (sock_socket cid ty w))"
proof -
  obtain g w1 where a: "alloc_global_fd w = (g, w1)" by fastforce
  define f where "f = (\<lambda>x. x\<lparr>gf_type := FD_SOCKET, gf_flags := ty, gf_conn := -1, gf_off := 0, gf_node := -1\<rparr> :: gfd)"
  have e: "sock_socket cid ty w = (if g < 0 then (-1, w1) else map_or_free cid g (upd_gfd g f w1))"
    by (simp add: sock_socket_def a f_def)
  have "plain (f x)" for x by (simp add: f_def plain_def)
  from alloc_map_ok [OF assms a _ this] show ?thesis using alloc_fail [OF a] assms(1) by (simp add: e)
qed

lemma accept_ok:
  assumes "fd_ok w" and "kn_cur (fw_k w) cid < 64"
  shows "fd_ok (snd (sock_accept ev cid fd w))"
proof -
  obtain child e where c: "ev_accept ev (sock_get_conn cid fd w) (fw_env w) = (child, e)" by fastforce
  let ?w = "w\<lparr>fw_env := e\<rparr>"
  obtain g w2 where a: "alloc_global_fd ?w = (g, w2)" by fastforce
  define f where "f = (\<lambda>x. x\<lparr>gf_type := FD_SOCKET, gf_flags := SOCK_STREAM, gf_conn := child, gf_node := -1, gf_off := 0\<rparr> :: gfd)"
  have e: "sock_accept ev cid fd w =
      (if sock_get_conn cid fd w < 0 then (-1, w) else if child < 0 then (-1, ?w) else if kn_cur (fw_k w) cid < 0 then (-1, ?w)
       else if g < 0 then (-1, w2) else map_or_free cid g (upd_gfd g f w2))"
    by (simp add: sock_accept_def c a f_def Let_def)
  have ok: "fd_ok ?w" "kn_cur (fw_k ?w) cid < 64" using assms by simp_all
  have "plain (f x)" for x by (simp add: f_def plain_def)
  from alloc_map_ok [OF ok a _ this] show ?thesis using alloc_fail [OF a] assms(1) by (simp add: e)
qed

end
