(* ===== verification/Fd_Steps.thy ===== *)
theory Fd_Steps
  imports Fd_Inv
begin

text \<open>
  Pseudo-terminals, pipes and transfers keep the descriptor invariant; then the reachable
  states of the descriptor layer, under the system calls of any task on any processor, the
  inheritance of descriptors by new tasks and their loss by dying ones.
\<close>

section \<open>Pseudo-terminals\<close>

lemma pty_claimD:
  assumes "pty_claim_gfd p m w = (g, w1)"
  shows "if g < 0 then g = -1 \<and> w1 = w
    else \<not> gfd_use w g \<and> g < MAX_GLOBAL_FDS \<and> 0 \<le> p \<and> p < 16 \<and> pt_use (fw_pty w p)
       \<and> w1 = claim g (\<lambda>x. x\<lparr>gf_type := FD_PTY, gf_pipe := p, gf_flags := (if m then 1 else 0), gf_off := 0, gf_conn := -1\<rparr>) w"
  using assms free_gfdD [of w g] by (auto simp: pty_claim_gfd_def claim_def fd_consts Let_def split: if_splits)

lemma ends_ok_new_end:
  assumes ok: "ends_ok w" and g: "\<not> gfd_use w g" "0 \<le> g" "g < MAX_GLOBAL_FDS" and p: "0 \<le> p" "p < 16"
    and f: "gf_type (f (fw_gfd w g)) = FD_PTY" "gf_pipe (f (fw_gfd w g)) = p" "gf_flags (f (fw_gfd w g)) = fl" "fl = 0 \<or> fl = 1"
    and t: "pty_ok (h (fw_pty w p))
      (if fl = 1 then insert g (ends_of w is_mst p) else ends_of w is_mst p)
      (if fl = 0 then insert g (ends_of w is_slv p) else ends_of w is_slv p)"
  shows "ends_ok (upd_pty p h (claim g f w))" (is "ends_ok ?v")
proof -
  have e: "ends_of ?v is_rd q = ends_of w is_rd q" "ends_of ?v is_wr q = ends_of w is_wr q"
    "ends_of ?v is_mst q = (if fl = 1 \<and> q = p then insert g (ends_of w is_mst q) else ends_of w is_mst q)"
    "ends_of ?v is_slv q = (if fl = 0 \<and> q = p then insert g (ends_of w is_slv q) else ends_of w is_slv q)" for q
    using f by (auto simp: ends_claim [OF g] end_kinds)
  have s: "shape_ok (f (fw_gfd w g))" using f p by (simp add: shape_ok_def)
  show ?thesis unfolding ends_ok_def
  proof (intro conjI allI impI)
    fix h' assume "0 \<le> h'" "h' < MAX_GLOBAL_FDS" "gfd_use ?v h'"
    then show "shape_ok (fw_gfd ?v h')" using s ok by (auto simp: ends_ok_def split: if_splits)
  next
    fix q :: int assume q: "0 \<le> q" "q < 16"
    show "pipe_ok (fw_pipe ?v q) (ends_of ?v is_rd q) (ends_of ?v is_wr q)"
      unfolding e using ends_okD(1) [OF ok q] by simp
    show "pty_ok (fw_pty ?v q) (ends_of ?v is_mst q) (ends_of ?v is_slv q)"
      unfolding e using ends_okD(2) [OF ok q] t by (auto split: if_splits)
  qed
qed

lemma upd_pty_comm: "upd_pty p h (claim g f w) = claim g f (upd_pty p h w)"
  by (simp add: claim_def upd_gfd_def upd_pty_def set_ref_def set_use_def)

lemma upd_pty_twice: "upd_pty p f (upd_pty p h w) = upd_pty p (\<lambda>x. f (h x)) w"
  by (simp add: upd_pty_def)

lemma pty_alloc_ok:
  assumes "fd_ok w" and "pty_alloc_fd w = (g, w1)"
  shows "if g < 0 then fd_ok w1 else fd_mid g w1 \<and> gf_type (fw_gfd w1 g) = FD_PTY \<and> kn_cur (fw_k w1) = kn_cur (fw_k w)"
proof (cases "first_idx (\<lambda>i. \<not> pt_use (fw_pty w (int i))) 0 16")
  case None
  then show ?thesis using assms by (simp add: pty_alloc_fd_def fd_consts)
next
  case (Some i)
  define p where "p = int i"
  define z where "z = \<lparr>pt_use = True, pt_m2s = ring_zero, pt_s2m = ring_zero, pt_master = -1, pt_slaves = 0\<rparr>"
  have ok: "ends_ok w" using assms by (simp add: fd_ok_def)
  from first_idx_Some [OF Some] have p: "0 \<le> p" "p < 16" "\<not> pt_use (fw_pty w p)" by (auto simp: p_def)
  have em: "ends_of w is_mst p = {}" "ends_of w is_slv p = {}"
    using ends_okD(2) [OF ok p(1,2)] p(3) by (simp_all add: pty_ok_def)
  obtain g2 w2 where c: "pty_claim_gfd p True (upd_pty p (\<lambda>_. z) w) = (g2, w2)" by fastforce
  have r: "(g, w1) = (if g2 < 0 then (-1, upd_pty p (\<lambda>t. t\<lparr>pt_use := False\<rparr>) w2) else (g2, upd_pty p (\<lambda>t. t\<lparr>pt_master := g2\<rparr>) w2))"
    using assms(2) Some c by (auto simp: pty_alloc_fd_def fd_consts p_def z_def Let_def split: if_splits)
  show ?thesis
  proof (cases "g2 < 0")
    case True
    have "ends_ok (upd_pty p (\<lambda>_. z\<lparr>pt_use := False\<rparr>) w)"
      using ok em by (auto simp: ends_ok_def pty_ok_def)
    then show ?thesis using pty_claimD [OF c] r True assms(1) by (simp add: upd_pty_twice fd_ok_def)
  next
    case False
    define f where "f = (\<lambda>x. x\<lparr>gf_type := FD_PTY, gf_pipe := p, gf_flags := 1, gf_off := 0, gf_conn := -1\<rparr> :: gfd)"
    from pty_claimD [OF c] False have g: "\<not> gfd_use w g2" "0 \<le> g2" "g2 < MAX_GLOBAL_FDS"
        "w2 = claim g2 f (upd_pty p (\<lambda>_. z) w)" by (auto simp: f_def)
    have w1: "g = g2" "w1 = upd_pty p (\<lambda>_. z\<lparr>pt_master := g2\<rparr>) (claim g2 f w)"
      using r False g(4) by (simp_all add: upd_pty_comm [symmetric] upd_pty_twice)
    have "ring_good ring_zero" by (simp add: ring_good_def ring_zero_def RING_SIZE_def)
    then have "ends_ok w1" unfolding w1
      by (intro ends_ok_new_end [OF ok g(1-3) p(1,2), where fl = 1]) (use em g in \<open>auto simp: f_def z_def pty_ok_def\<close>)
    then have "fd_mid g w1"
      using claim_mid [OF assms(1) g(1-3), of f "upd_pty p (\<lambda>_. z\<lparr>pt_master := g2\<rparr>) w"] w1 by (simp add: upd_pty_comm)
    then show ?thesis using w1 g(2) by (simp add: f_def)
  qed
qed

lemma pty_open_ok:
  assumes "fd_ok w" and "pty_open_slave mg w = (g, w1)"
  shows "if g < 0 then fd_ok w1 else fd_mid g w1 \<and> gf_type (fw_gfd w1 g) = FD_PTY \<and> kn_cur (fw_k w1) = kn_cur (fw_k w)"
proof (cases "g < 0")
  case True
  obtain g2 w2 where c: "pty_claim_gfd (gf_pipe (fw_gfd w mg)) False w = (g2, w2)" by fastforce
  have "w1 = w \<or> g2 < 0 \<and> w1 = w2 \<or> g2 = g"
    using assms(2) c by (auto simp: pty_open_slave_def Let_def split: if_splits)
  then have "w1 = w"
  proof (elim disjE)
    assume "g2 = g"
    then show "w1 = w" using assms(2) c True pty_claimD [OF c] by (auto simp: pty_open_slave_def Let_def split: if_splits)
  qed (use pty_claimD [OF c] in auto)
  then show ?thesis using True assms(1) by simp
next
  case False
  define p where "p = gf_pipe (fw_gfd w mg)"
  have ok: "ends_ok w" using assms by (simp add: fd_ok_def)
  obtain g2 w2 where c: "pty_claim_gfd p False w = (g2, w2)" by fastforce
  have r: "g = g2" "w1 = upd_pty p (\<lambda>t. t\<lparr>pt_slaves := pt_slaves t + 1\<rparr>) w2"
    using assms(2) False c by (auto simp: pty_open_slave_def p_def Let_def split: if_splits)
  define f where "f = (\<lambda>x. x\<lparr>gf_type := FD_PTY, gf_pipe := p, gf_flags := 0, gf_off := 0, gf_conn := -1\<rparr> :: gfd)"
  from pty_claimD [OF c] False r have g: "\<not> gfd_use w g" "0 \<le> g" "g < MAX_GLOBAL_FDS" and p: "0 \<le> p" "p < 16"
      and u: "pt_use (fw_pty w p)" and w2: "w2 = claim g f w" by (auto simp: f_def)
  have "g \<notin> ends_of w is_slv p" using g(1) by (simp add: ends_of_def)
  then have "pty_ok (fw_pty w p\<lparr>pt_slaves := pt_slaves (fw_pty w p) + 1\<rparr>) (ends_of w is_mst p) (insert g (ends_of w is_slv p))"
    using ends_okD(2) [OF ok p] u by (simp add: pty_ok_def)
  then have "ends_ok w1" unfolding r(2) w2
    by (intro ends_ok_new_end [OF ok g p, where fl = 0]) (auto simp: f_def)
  then have "fd_mid g w1"
    using claim_mid [OF assms(1) g, of f "upd_pty p (\<lambda>t. t\<lparr>pt_slaves := pt_slaves t + 1\<rparr>) w"] r w2 by (simp add: upd_pty_comm)
  then show ?thesis using r w2 g(2) by (simp add: f_def)
qed

lemma map_or_close_ok:
  assumes "fd_mid g w" and "kn_cur (fw_k w) cid < 64" and "gf_type (fw_gfd w g) = FD_PTY"
  shows "fd_ok (snd (map_or_close_pty cid g w))"
proof -
  obtain l w1 where m: "task_map_fd cid g w = (l, w1)" by fastforce
  have u: "gfd_use w g" "0 \<le> g" "g < MAX_GLOBAL_FDS" "ends_ok w" using assms(1) by (simp_all add: fd_mid_def)
  let ?v = "upd_gfd g (\<lambda>x. x\<lparr>gf_type := FD_NONE\<rparr>) (set_use g False (pty_close g w))"
  have "ends_ok (set_use g False (pty_close g w))"
    using ends_ok_pty_close [OF u(4,1-3) assms(3)] unuse_unused by blast
  then have e: "ends_ok ?v" by (simp add: ends_ok_upd_unused)
  have "fw_k ?v = (fw_k w)\<lparr>kn_gfd_use := (kn_gfd_use (fw_k w))(g := False)\<rparr>"
    using fw_k_pty_close [of g w] by auto
  then have "ref_ok (\<lambda>_. 0) (fw_k ?v)"
    using ref_ok_free [of "(\<lambda>_. 0)(g := 1)" "fw_k w" g "\<lambda>_. 0" "kn_gfd_ref (fw_k w)"] mid_unused [OF assms(1)] assms(1)
    by (simp add: fd_mid_def)
  then have "fd_ok ?v" using e by (simp add: fd_ok_def)
  then show ?thesis using map_fd_ok [OF assms(1,2) m] m by (auto simp: map_or_close_pty_def)
qed

lemma sys_pty_ok:
  assumes "fd_ok w" and "kn_cur (fw_k w) cid < 64"
  shows "fd_ok (snd (do_sys_pty_alloc cid w))" and "fd_ok (snd (do_sys_pty_open cid fd w))"
proof -
  obtain g w1 where a: "pty_alloc_fd w = (g, w1)" by fastforce
  show "fd_ok (snd (do_sys_pty_alloc cid w))"
    using pty_alloc_ok [OF assms(1) a] map_or_close_ok [of g w1 cid] assms a by (auto simp: do_sys_pty_alloc_def split: if_splits)
  have "fd_ok (snd (let (g, w1) = pty_open_slave mg w in if g < 0 then (-1, w1) else map_or_close_pty cid g w1))" for mg
  proof -
    obtain h v where b: "pty_open_slave mg w = (h, v)" by fastforce
    show ?thesis
      using pty_open_ok [OF assms(1) b] map_or_close_ok [of h v cid] assms b by (auto split: if_splits)
  qed
  then show "fd_ok (snd (do_sys_pty_open cid fd w))"
    using assms(1) by (auto simp: do_sys_pty_open_def split: option.splits)
qed

section \<open>Pipes\<close>

lemma task_map_cases:
  assumes "kn_cur (fw_k w) cid < 64"
  obtains (full) "\<And>h. task_map_fd cid h w = (-1, w)"
  | (room) l where "l \<ge> 0" "(kn_cur (fw_k w) cid, l) \<in> fd_cells" "fd_at (fw_k w) (kn_cur (fw_k w) cid, l) = -1"
      "\<And>h. task_map_fd cid h w = (l, set_fd (kn_cur (fw_k w) cid) l h w)"
proof (cases "kn_cur (fw_k w) cid < 0 \<or> \<not> task_rlimit_nofile_ok cid (fw_k w)")
  case True
  then show thesis by (intro full) (auto simp: task_map_fd_def Let_def)
next
  case False
  show thesis
  proof (cases "first_idx (\<lambda>j. task_get_fd (kn_cur (fw_k w) cid) (int j) (fw_k w) = -1) 0 32")
    case None
    then show thesis using False by (intro full) (simp add: task_map_fd_def Let_def fd_consts)
  next
    case (Some j)
    from first_idx_Some [OF Some] have j: "j < 32" "task_get_fd (kn_cur (fw_k w) cid) (int j) (fw_k w) = -1" by auto
    have c: "(kn_cur (fw_k w) cid, int j) \<in> fd_cells" using j False assms by (simp add: in_cells)
    show thesis
      by (rule room [of "int j"]) (use j c False Some in \<open>auto simp: get_fd_at task_map_fd_def Let_def fd_consts\<close>)
  qed
qed

text \<open>Going back to the tables before: entries that were free may have changed.\<close>

lemma ends_ok_restore:
  assumes "ends_ok w" and "gfd_use v = gfd_use w" and "\<And>h. gfd_use w h \<Longrightarrow> fw_gfd v h = fw_gfd w h"
    and "\<not> pp_use (fw_pipe w p)" and "\<not> pp_use x" and "fw_pipe v = (fw_pipe w)(p := x)" and "fw_pty v = fw_pty w"
  shows "ends_ok v"
proof -
  have e: "ends_of v P q = ends_of w P q" for P q using assms(2,3) by (auto simp: ends_of_def)
  have "pipe_ok (fw_pipe w p) R W \<longleftrightarrow> pipe_ok x R W" for R W using assms(4,5) by (simp add: pipe_ok_def)
  then show ?thesis using assms by (auto simp: ends_ok_def e)
qed

lemma ends_ok_new_pipe:
  assumes ok: "ends_ok w" and a: "\<not> gfd_use w a" "0 \<le> a" "a < MAX_GLOBAL_FDS" and b: "\<not> gfd_use w b" "0 \<le> b" "b < MAX_GLOBAL_FDS"
    and ne: "a \<noteq> b" and p: "0 \<le> p" "p < 16" "\<not> pp_use (fw_pipe w p)" and x: "pp_use x" "\<not> pp_closed x" "ring_good (pp_ring x)"
    and f: "\<And>y. gf_type (f y) = FD_PIPE_READ \<and> gf_pipe (f y) = p" and h: "\<And>y. gf_type (h y) = FD_PIPE_WRITE \<and> gf_pipe (h y) = p"
  shows "ends_ok (claim b h (claim a f (upd_pipe p (\<lambda>_. x) w)))" (is "ends_ok ?v")
proof -
  have b': "\<not> gfd_use (claim a f (upd_pipe p (\<lambda>_. x) w)) b" using b ne by simp
  have a': "\<not> gfd_use (upd_pipe p (\<lambda>_. x) w) a" using a by simp
  have e: "ends_of ?v is_mst q = ends_of w is_mst q" "ends_of ?v is_slv q = ends_of w is_slv q"
    "ends_of ?v is_rd q = (if q = p then insert a (ends_of w is_rd q) else ends_of w is_rd q)"
    "ends_of ?v is_wr q = (if q = p then insert b (ends_of w is_wr q) else ends_of w is_wr q)" for q
    using f h by (auto simp: ends_claim [OF b' b(2,3)] ends_claim [OF a' a(2,3)] end_kinds)
  have z: "ends_of w is_rd p = {}" "ends_of w is_wr p = {}" using ends_okD(1) [OF ok p(1,2)] p(3) by (simp_all add: pipe_ok_def)
  have s: "shape_ok (f y)" "shape_ok (h y)" for y using f [of y] h [of y] p by (simp_all add: shape_ok_def)
  show ?thesis unfolding ends_ok_def
  proof (intro conjI allI impI)
    fix g assume "0 \<le> g" "g < MAX_GLOBAL_FDS" "gfd_use ?v g"
    then show "shape_ok (fw_gfd ?v g)" using s ok by (auto simp: ends_ok_def split: if_splits)
  next
    fix q :: int assume q: "0 \<le> q" "q < 16"
    show "pipe_ok (fw_pipe ?v q) (ends_of ?v is_rd q) (ends_of ?v is_wr q)"
      unfolding e using ends_okD(1) [OF ok q] z x by (auto simp: pipe_ok_def)
    show "pty_ok (fw_pty ?v q) (ends_of ?v is_mst q) (ends_of ?v is_slv q)"
      unfolding e using ends_okD(2) [OF ok q] by simp
  qed
qed

lemma claim_twice_ref:
  assumes "ref_ok (\<lambda>_. 0) (fw_k w)" and "\<not> gfd_use w a" "0 \<le> a" and "\<not> gfd_use (claim a f w) b" "0 \<le> b"
  shows "ref_ok ((\<lambda>_. 0)(a := 1, b := 1)) (fw_k (claim b h (claim a f w)))"
  using ref_ok_alloc [OF ref_ok_alloc [OF assms(1-3)], of b] assms(4,5) by simp

lemma pipe_ref_ok:
  fixes v :: "'e fdw"
  assumes r: "ref_ok ((\<lambda>_. 0)(a := 1, b := 1)) (fw_k v)" and ne: "a \<noteq> b"
    and g: "0 \<le> a" "a < MAX_GLOBAL_FDS" "0 \<le> b" "b < MAX_GLOBAL_FDS" and u: "gfd_use v a" "gfd_use v b"
    and c: "(t, i) \<in> fd_cells" "fd_at (fw_k v) (t, i) = -1"
  shows "ref_ok ((\<lambda>_. 0)(b := 1)) (task_set_fd t i a (fw_k v))"
proof -
  have "((\<lambda>_. 0 :: int)(a := 1, b := 1))(a := 0) = (\<lambda>_. 0)(b := 1)" using ne by auto
  then show ?thesis using ref_ok_map [OF r _ c g(1,2) u(1)] ne by simp
qed

lemma refs_none:
  assumes "ref_ok D (fw_k w)" and "gfd_use w g" and "0 \<le> g" and "g < MAX_GLOBAL_FDS" and "D g = gfd_ref w g"
  shows "fd_refs (fw_k w) g = {}"
proof -
  have "int (card (fd_refs (fw_k w) g)) = 0" using assms by (auto simp: ref_ok_def)
  then show ?thesis by simp
qed

lemma fd_ok_restore:
  assumes ok: "fd_ok w" and "gfd_use v = gfd_use w" and "\<And>h. gfd_use w h \<Longrightarrow> fw_gfd v h = fw_gfd w h"
    and "\<not> pp_use (fw_pipe w p)" and "\<not> pp_use (fw_pipe v p)" and "\<And>q. q \<noteq> p \<Longrightarrow> fw_pipe v q = fw_pipe w q"
    and "fw_pty v = fw_pty w" and "\<And>c. c \<in> fd_cells \<Longrightarrow> fd_at (fw_k v) c = fd_at (fw_k w) c"
    and "\<And>h. gfd_use w h \<Longrightarrow> gfd_ref v h = gfd_ref w h"
  shows "fd_ok v"
proof -
  have "ends_ok v"
    by (rule ends_ok_restore [OF _ assms(2) _ assms(4,5)]) (use assms in \<open>auto simp: fd_ok_def fun_eq_iff\<close>)
  moreover have "fd_refs (fw_k v) = fd_refs (fw_k w)" using assms(8) by (auto simp: fd_refs_def fun_eq_iff)
  then have "ref_ok (\<lambda>_. 0) (fw_k v)" using ok assms(2,8,9) by (auto simp: fd_ok_def ref_ok_def)
  ultimately show ?thesis by (simp add: fd_ok_def)
qed

lemma release_read_end:
  assumes "gfd_ref w g = 1" and "gf_type (fw_gfd w g) = FD_PIPE_READ" and "\<not> pp_closed (fw_pipe w (gf_pipe (fw_gfd w g)))"
  shows "fd_release_global ev g w = set_use g False (set_ref g 0 w)"
  using assms by (simp add: fd_release_global_def last_ref_gone_def Let_def)

lemma sys_pipe_ok:
  assumes ok: "fd_ok w" and cur: "kn_cur (fw_k w) cid < 64"
  shows "fd_ok (snd (snd (snd (do_sys_pipe ev cid w))))"
proof (cases "first_idx (\<lambda>i. \<not> pp_use (fw_pipe w (int i))) 0 16")
  case None
  then show ?thesis using ok by (simp add: do_sys_pipe_def fd_consts)
next
  case (Some n)
  define p where "p = int n"
  from first_idx_Some [OF Some] have p: "0 \<le> p" "p < 16" "\<not> pp_use (fw_pipe w p)" by (auto simp: p_def)
  define x where "x = (fw_pipe w p)\<lparr>pp_use := True, pp_ring := ring_clear (pp_ring (fw_pipe w p)), pp_closed := False\<rparr>"
  define unuse :: "'a fdw \<Rightarrow> 'a fdw" where "unuse = upd_pipe p (\<lambda>x. x\<lparr>pp_use := False\<rparr>)"
  define w1 where "w1 = upd_pipe p (\<lambda>_. x) w"
  have w1': "upd_pipe p (\<lambda>x. x\<lparr>pp_use := True, pp_ring := ring_clear (pp_ring x), pp_closed := False\<rparr>) w = w1"
    by (simp add: w1_def x_def upd_pipe_def)
  obtain gr w2 where a1: "alloc_global_fd w1 = (gr, w2)" by fastforce
  define f where "f = (\<lambda>y. y\<lparr>gf_off := 0, gf_type := FD_PIPE_READ, gf_pipe := p\<rparr> :: gfd)"
  define h where "h = (\<lambda>y. y\<lparr>gf_off := 0, gf_type := FD_PIPE_WRITE, gf_pipe := p\<rparr> :: gfd)"
  define c1 where "c1 = claim gr f w1"
  obtain gw w4 where a2: "alloc_global_fd (upd_gfd gr (\<lambda>x. x\<lparr>gf_type := FD_PIPE_READ, gf_pipe := p\<rparr>) w2) = (gw, w4)" by fastforce
  define w5 where "w5 = upd_gfd gw (\<lambda>x. x\<lparr>gf_type := FD_PIPE_WRITE, gf_pipe := p\<rparr>) w4"
  obtain r0 w6 where m1: "task_map_fd cid gr w5 = (r0, w6)" by fastforce
  obtain r1 w7 where m2: "task_map_fd cid gw w6 = (r1, w7)" by fastforce
  define w8 where "w8 = (if r0 \<ge> 0 then snd (do_sys_close ev cid r0 w7) else set_use gr False w7)"
  define w9 where "w9 = (if r1 \<ge> 0 then snd (do_sys_close ev cid r1 w8) else set_use gw False w8)"
  have eq: "snd (snd (snd (do_sys_pipe ev cid w))) =
      (if gr < 0 then unuse w2 else if gw < 0 then unuse (set_use gr False w4)
       else if r0 < 0 \<or> r1 < 0 then unuse w9 else w7)"
    using Some a1 a2 m1 m2
    by (simp add: do_sys_pipe_def fd_consts Let_def p_def [symmetric] w1' unuse_def [symmetric] w5_def [symmetric]
        w8_def [symmetric] w9_def [symmetric])
  show ?thesis
  proof (cases "gr < 0")
    case True
    have "fd_ok (unuse w1)"
      by (rule fd_ok_restore [OF ok _ _ p(3)]) (auto simp: unuse_def w1_def)
    then show ?thesis using eq True alloc_fail [OF a1] by simp
  next
    case gr: False
    from alloc_gfdD [OF a1] gr have g1: "\<not> gfd_use w gr" "gr < MAX_GLOBAL_FDS" and w2: "w2 = claim gr (\<lambda>x. x\<lparr>gf_off := 0\<rparr>) w1"
      by (auto simp: w1_def)
    have c1': "upd_gfd gr (\<lambda>x. x\<lparr>gf_type := FD_PIPE_READ, gf_pipe := p\<rparr>) w2 = c1"
      by (simp add: w2 upd_claim c1_def f_def)
    note a2 = a2 [unfolded c1']
    show ?thesis
    proof (cases "gw < 0")
      case True
      have "fd_ok (unuse (set_use gr False c1))"
        by (rule fd_ok_restore [OF ok _ _ p(3)]) (use g1 in \<open>auto simp: unuse_def w1_def c1_def fun_eq_iff\<close>)
      then show ?thesis using eq gr True alloc_fail [OF a2] by simp
    next
      case gw: False
      from alloc_gfdD [OF a2] gw have g2: "\<not> gfd_use c1 gw" "gw < MAX_GLOBAL_FDS" "\<not> gfd_use w gw" "gw \<noteq> gr"
        and w4: "w4 = claim gw (\<lambda>x. x\<lparr>gf_off := 0\<rparr>) c1"
        by (auto simp: w1_def c1_def split: if_splits)
      define c2 where "c2 = claim gw h c1"
      have w5: "w5 = c2" by (simp add: w5_def w4 upd_claim c2_def h_def)
      note m1 = m1 [unfolded w5]
      let ?D = "(\<lambda>_. 0)(gr := 1, gw := 1)"
      have r2: "ref_ok ?D (fw_k c2)"
        unfolding c2_def c1_def
        by (rule claim_twice_ref) (use ok g1 gr g2 gw in \<open>auto simp: w1_def c1_def fd_ok_def\<close>)
      have e2: "ends_ok c2" unfolding c2_def c1_def w1_def
        by (rule ends_ok_new_pipe) (use ok g1 gr g2 gw p in \<open>auto simp: x_def f_def h_def fd_ok_def\<close>)
      have u: "gfd_use c2 gr" "gfd_use c2 gw" "gfd_ref c2 gr = 1" "gfd_ref c2 gw = 1" using g2 by (simp_all add: c2_def c1_def)
      have cur2: "kn_cur (fw_k c2) cid < 64" using cur by (simp add: c2_def c1_def w1_def)
      have undo: "fd_ok (unuse v)"
        if "gfd_use v = gfd_use w" "\<And>g. gfd_use w g \<Longrightarrow> fw_gfd v g = fw_gfd w g" "\<And>q. q \<noteq> p \<Longrightarrow> fw_pipe v q = fw_pipe w q"
          "fw_pty v = fw_pty w" "\<And>c. c \<in> fd_cells \<Longrightarrow> fd_at (fw_k v) c = fd_at (fw_k w) c" "\<And>g. gfd_use w g \<Longrightarrow> gfd_ref v g = gfd_ref w g" for v
        by (rule fd_ok_restore [OF ok _ _ p(3)]) (use that in \<open>auto simp: unuse_def\<close>)
      show ?thesis
      proof (rule task_map_cases [OF cur2])
        assume full: "\<And>h. task_map_fd cid h c2 = (-1, c2)"
        then have "r0 = -1" "w6 = c2" "r1 = -1" "w7 = c2" using m1 m2 by auto
        then have "w9 = set_use gw False (set_use gr False c2)" by (simp add: w9_def w8_def)
        moreover have "fd_ok (unuse (set_use gw False (set_use gr False c2)))"
          by (rule undo) (use g1 g2 in \<open>auto simp: c2_def c1_def w1_def fun_eq_iff fd_at_def\<close>)
        ultimately show ?thesis using eq gr gw \<open>r0 = -1\<close> by simp
      next
        fix l
        let ?t = "kn_cur (fw_k c2) cid"
        assume l: "l \<ge> 0" "(?t, l) \<in> fd_cells" "fd_at (fw_k c2) (?t, l) = -1"
          and room: "\<And>h. task_map_fd cid h c2 = (l, set_fd ?t l h c2)"
        have w6: "r0 = l" "w6 = set_fd ?t l gr c2" using m1 room by auto
        have r6: "ref_ok ((\<lambda>_. 0)(gw := 1)) (fw_k w6)"
          using pipe_ref_ok [OF r2 _ _ g1(2) _ g2(2) u(1,2) l(2,3)] g2(4) gr gw w6 by simp
        have cur6: "kn_cur (fw_k w6) cid < 64" using w6 cur2 by simp
        show ?thesis
        proof (rule task_map_cases [OF cur6])
          assume full: "\<And>h. task_map_fd cid h w6 = (-1, w6)"
          then have r1: "r1 = -1" "w7 = w6" using m2 by auto
          have at: "fd_at (fw_k w6) (?t, l) = gr" using w6 l by (simp add: fd_at_set)
          have "open_gfd cid l w6 = Some gr"
            using at l gr u w6 by (simp add: open_gfd_def get_fd_at Let_def in_cells)
          then have "snd (do_sys_close ev cid l w6) = fd_release_global ev gr (set_fd ?t l (-1) w6)"
            using w6 by (simp add: do_sys_close_def)
          also have "\<dots> = set_use gr False (set_ref gr 0 (set_fd ?t l (-1) w6))"
            by (rule release_read_end) (use w6 u g2 in \<open>auto simp: c2_def c1_def w1_def f_def h_def x_def\<close>)
          finally have w9: "w9 = set_use gw False (set_use gr False (set_ref gr 0 (set_fd ?t l (-1) w6)))"
            using r1 w6(1) l(1) by (simp add: w9_def w8_def)
          have nc: "fd_at (fw_k w9) c = fd_at (fw_k w) c" for c
            using l(2,3) w6 by (cases "c = (?t, l)") (auto simp: w9 fd_at_set c2_def c1_def w1_def)
          have "fd_ok (unuse w9)"
            by (rule undo) (use g1 g2 nc in \<open>auto simp: w9 w6 c2_def c1_def w1_def fun_eq_iff\<close>)
          then show ?thesis using eq gr gw r1 by simp
        next
          fix l2
          let ?t2 = "kn_cur (fw_k w6) cid"
          assume l2: "l2 \<ge> 0" "(?t2, l2) \<in> fd_cells" "fd_at (fw_k w6) (?t2, l2) = -1"
            and room2: "\<And>h. task_map_fd cid h w6 = (l2, set_fd ?t2 l2 h w6)"
          have w7: "r1 = l2" "w7 = set_fd ?t2 l2 gw w6" using m2 room2 by auto
          have "ref_ok (((\<lambda>_. 0)(gw := 1))(gw := 0)) (task_set_fd ?t2 l2 gw (fw_k w6))"
            by (rule ref_ok_map [OF r6 _ l2(2,3)]) (use g2 gw u w6 in auto)
          then have "fd_ok w7" using w7 e2 w6 by (simp add: fd_ok_def fun_upd_idem)
          then show ?thesis using eq gr gw w6(1) l(1) w7(1) l2(1) by simp
        qed
      qed
    qed
  qed
qed

section \<open>Transfers\<close>

lemma fd_ok_same_entry:
  assumes "fd_ok w" and "\<And>x. gf_type (f x) = gf_type x \<and> gf_pipe (f x) = gf_pipe x \<and> gf_flags (f x) = gf_flags x"
  shows "fd_ok (upd_gfd g f w)"
  using assms ends_ok_upd_same [of w f g] by (simp add: fd_ok_def)

lemma fd_ok_off [simp]: "fd_ok w \<Longrightarrow> fd_ok (upd_gfd g (\<lambda>x. x\<lparr>gf_off := n\<rparr>) w)"
  by (rule fd_ok_same_entry) simp_all

lemma pipe_ring_ok:
  assumes "fd_ok w" and "ring_good (pp_ring (fw_pipe w p)) \<Longrightarrow> ring_good q"
  shows "fd_ok (upd_pipe p (\<lambda>x. x\<lparr>pp_ring := q\<rparr>) w)"
  using assms ends_ok_ring [of w "\<lambda>x. x\<lparr>pp_ring := q\<rparr>" p] by (simp add: fd_ok_def)

lemma pipe_read_loop_ok: "fd_ok w \<Longrightarrow> fd_ok (snd (pipe_read_loop p n got w))"
proof -
  assume ok: "fd_ok w"
  obtain bs q where g: "get_loop ring_get (nat n - length got) (pp_ring (fw_pipe w p)) = (bs, q)" by fastforce
  have "fd_ok (upd_pipe p (\<lambda>x. x\<lparr>pp_ring := q\<rparr>) w)"
    using pipe_ring_ok [OF ok, of p q] rg.get_loop_spec [OF _ g] by blast
  then show ?thesis by (simp add: pipe_read_loop_def g Let_def)
qed

lemma pipe_write_loop_ok: "fd_ok w \<Longrightarrow> fd_ok (snd (pipe_write_loop p buf n d w))"
proof -
  assume ok: "fd_ok w"
  obtain c q where g: "put_loop ring_put (take (nat n - d) (drop d buf)) (pp_ring (fw_pipe w p)) = (c, q)" by fastforce
  have "fd_ok (upd_pipe p (\<lambda>x. x\<lparr>pp_ring := q\<rparr>) w)"
    using pipe_ring_ok [OF ok, of p q] rg.put_loop_spec [OF _ g] by blast
  then show ?thesis by (simp add: pipe_write_loop_def g Let_def)
qed

lemma pty_ring_ok:
  assumes "fd_ok w"
  shows "(ring_good (pt_m2s (fw_pty w p)) \<Longrightarrow> ring_good q) \<Longrightarrow> fd_ok (upd_pty p (\<lambda>t. t\<lparr>pt_m2s := q\<rparr>) w)"
    "(ring_good (pt_s2m (fw_pty w p)) \<Longrightarrow> ring_good q) \<Longrightarrow> fd_ok (upd_pty p (\<lambda>t. t\<lparr>pt_s2m := q\<rparr>) w)"
  using assms ends_ok_pty_ring [of w "\<lambda>t. t\<lparr>pt_m2s := q\<rparr>" p] ends_ok_pty_ring [of w "\<lambda>t. t\<lparr>pt_s2m := q\<rparr>" p]
  by (simp_all add: fd_ok_def)

lemma pty_read_ok:
  assumes ok: "fd_ok w"
  shows "fd_ok (snd (snd (pty_read g n w)))"
proof -
  let ?t = "fw_pty w (gf_pipe (fw_gfd w g))"
  obtain b1 q1 where g1: "get_loop ring_get (nat n) (pt_s2m ?t) = (b1, q1)" by fastforce
  obtain b2 q2 where g2: "get_loop ring_get (nat n) (pt_m2s ?t) = (b2, q2)" by fastforce
  have "fd_ok (upd_pty (gf_pipe (fw_gfd w g)) (\<lambda>t. t\<lparr>pt_s2m := q1\<rparr>) w)"
    using pty_ring_ok(2) [OF ok] rg.get_loop_spec [OF _ g1] by blast
  moreover have "fd_ok (upd_pty (gf_pipe (fw_gfd w g)) (\<lambda>t. t\<lparr>pt_m2s := q2\<rparr>) w)"
    using pty_ring_ok(1) [OF ok] rg.get_loop_spec [OF _ g2] by blast
  ultimately show ?thesis using ok by (simp add: pty_read_def g1 g2 Let_def)
qed

lemma pty_write_ok:
  assumes ok: "fd_ok w"
  shows "fd_ok (snd (pty_write g buf n w))"
proof -
  let ?t = "fw_pty w (gf_pipe (fw_gfd w g))"
  obtain c1 q1 where g1: "put_loop ring_put (take (nat n) buf) (pt_m2s ?t) = (c1, q1)" by fastforce
  obtain c2 q2 where g2: "put_loop ring_put (take (nat n) buf) (pt_s2m ?t) = (c2, q2)" by fastforce
  have "fd_ok (upd_pty (gf_pipe (fw_gfd w g)) (\<lambda>t. t\<lparr>pt_m2s := q1\<rparr>) w)"
    using pty_ring_ok(1) [OF ok] rg.put_loop_spec [OF _ g1] by blast
  moreover have "fd_ok (upd_pty (gf_pipe (fw_gfd w g)) (\<lambda>t. t\<lparr>pt_s2m := q2\<rparr>) w)"
    using pty_ring_ok(2) [OF ok] rg.put_loop_spec [OF _ g2] by blast
  ultimately show ?thesis using ok by (simp add: pty_write_def g1 g2 Let_def)
qed

lemma file_read_ok: "fd_ok w \<Longrightarrow> fd_ok (snd (file_read ev g n w))"
  by (auto simp: file_read_def Let_def split: prod.splits option.splits)

lemma read_ok: "fd_ok w \<Longrightarrow> fd_ok (snd (do_sys_read ev cid fd n w))"
  using file_read_ok [of w ev _ n] pipe_read_loop_ok [of w] pty_read_ok [of w _ n]
  by (auto simp: do_sys_read_def Let_def split: prod.splits option.splits) (metis snd_conv)

lemma file_rewrite_ok: "fd_ok w \<Longrightarrow> fd_ok (snd (file_rewrite ev g path oldsz off buf n w))"
  by (auto simp: file_rewrite_def Let_def split: prod.splits option.splits)

lemma file_write_ok: "fd_ok w \<Longrightarrow> fd_ok (snd (file_write ev g buf n w))"
  using file_rewrite_ok [of w ev g] by (auto simp: file_write_def Let_def split: prod.splits option.splits)

lemma write_ok: "fd_ok w \<Longrightarrow> fd_ok (snd (do_sys_write ev cid fd buf n w))"
  using file_write_ok [of w ev _ buf n] pipe_write_loop_ok [of w] pty_write_ok [of w _ buf n]
  by (auto simp: do_sys_write_def Let_def split: prod.splits option.splits) (metis snd_conv)+

lemma lseek_ok: "fd_ok w \<Longrightarrow> fd_ok (snd (do_sys_lseek ev cid fd off whence w))"
  by (auto simp: do_sys_lseek_def Let_def split: option.splits)

lemma sock_small_ok:
  "fd_ok w \<Longrightarrow> fd_ok (snd (sock_bind ev cid fd port w))"
  "fd_ok w \<Longrightarrow> fd_ok (snd (sock_set_conn cid fd c w))"
  by (auto simp: sock_bind_def sock_set_conn_def Let_def split: option.splits intro!: fd_ok_same_entry)

section \<open>Reachable states\<close>

text \<open>\<open>FKernel\<close> is any step of the kernel that leaves the descriptor tables alone, and of the
  file system and the network; \<open>FInherit\<close> copies the descriptors of \<open>me\<close> into the empty table
  of a new task.\<close>

inductive fstep :: "'e fd_env \<Rightarrow> 'e fdw \<Rightarrow> 'e fdw \<Rightarrow> bool" for ev where
  FKernel: "(\<And>c. c \<in> fd_cells \<Longrightarrow> fd_at k (c) = fd_at (fw_k w) c) \<Longrightarrow> kn_gfd_use k = gfd_use w \<Longrightarrow> kn_gfd_ref k = gfd_ref w \<Longrightarrow>
      fstep ev w (w\<lparr>fw_k := k, fw_env := e\<rparr>)"
| FInherit: "me \<noteq> i \<Longrightarrow> 0 \<le> i \<Longrightarrow> i < 64 \<Longrightarrow> (\<And>j. 0 \<le> j \<Longrightarrow> j < 32 \<Longrightarrow> fd_at (fw_k w) (i, j) = -1) \<Longrightarrow>
      fstep ev w (w\<lparr>fw_k := inherit_fds [0..31] me i (fw_k w)\<rparr>)"
| FOpen: "kn_cur (fw_k w) cid < 64 \<Longrightarrow> fstep ev w (snd (do_sys_open ev cid path mode w))"
| FClose: "fstep ev w (snd (do_sys_close ev cid fd w))"
| FDup: "kn_cur (fw_k w) cid < 64 \<Longrightarrow> fstep ev w (snd (do_sys_dup2 ev cid oldfd newfd w))"
| FRewire: "t < 64 \<Longrightarrow> fstep ev w (task_rewire_fds ev cid t infd outfd w)"
| FCloseAll: "fstep ev w (task_close_all_fds ev t w)"
| FPipe: "kn_cur (fw_k w) cid < 64 \<Longrightarrow> fstep ev w (snd (snd (snd (do_sys_pipe ev cid w))))"
| FRead: "fstep ev w (snd (do_sys_read ev cid fd n w))"
| FReadAgain: "fstep ev w (snd (pipe_read_again t fd n got w))"
| FWrite: "fstep ev w (snd (do_sys_write ev cid fd buf n w))"
| FWriteAgain: "fstep ev w (snd (pipe_write_again t fd buf n d w))"
| FSeek: "fstep ev w (snd (do_sys_lseek ev cid fd off whence w))"
| FSocket: "kn_cur (fw_k w) cid < 64 \<Longrightarrow> fstep ev w (snd (sock_socket cid ty w))"
| FBind: "fstep ev w (snd (sock_bind ev cid fd port w))"
| FConn: "fstep ev w (snd (sock_set_conn cid fd c w))"
| FAccept: "kn_cur (fw_k w) cid < 64 \<Longrightarrow> fstep ev w (snd (sock_accept ev cid fd w))"
| FPtyAlloc: "kn_cur (fw_k w) cid < 64 \<Longrightarrow> fstep ev w (snd (do_sys_pty_alloc cid w))"
| FPtyOpen: "kn_cur (fw_k w) cid < 64 \<Longrightarrow> fstep ev w (snd (do_sys_pty_open cid fd w))"

lemma inherit_ends: "kn_gfd_use (inherit_fds js me i k) = kn_gfd_use k"
  by (induction js me i k rule: inherit_fds.induct) (simp_all add: Let_def upd_task_def)

lemma fstep_ok:
  assumes "fstep ev w w1" and "fd_ok w"
  shows "fd_ok w1"
  using assms
proof (cases rule: fstep.cases)
  case (FKernel k e)
  have "ends_ok w1 = ends_ok w" by (rule ends_ok_cong) (use FKernel in auto)
  moreover have "ref_ok (\<lambda>_. 0) k = ref_ok (\<lambda>_. 0) (fw_k w)" by (rule ref_ok_cong) (use FKernel in auto)
  ultimately show ?thesis using FKernel(1) assms(2) by (simp add: fd_ok_def)
next
  case (FInherit me i)
  have "ends_ok w1 = ends_ok w" by (rule ends_ok_cong) (use FInherit in \<open>auto simp: inherit_ends\<close>)
  moreover have "ref_ok (\<lambda>_. 0) (inherit_fds [0..31] me i (fw_k w))"
    by (rule ref_ok_inherit) (use FInherit assms(2) in \<open>auto simp: fd_ok_def\<close>)
  ultimately show ?thesis using FInherit(1) assms(2) by (simp add: fd_ok_def)
next
  case (FDup cid oldfd newfd)
  then show ?thesis using assms(2) dup2_ok by (auto simp: do_sys_dup2_def Let_def)
next
  case (FReadAgain t fd n got)
  then show ?thesis using assms(2) pipe_read_loop_ok by (auto simp: pipe_read_again_def Let_def)
next
  case (FWriteAgain t fd buf n d)
  then show ?thesis using assms(2) pipe_write_loop_ok by (auto simp: pipe_write_again_def Let_def)
qed (simp_all add: open_ok close_ok rewire_ok close_all_ok sys_pipe_ok read_ok write_ok lseek_ok socket_ok sock_small_ok
    accept_ok sys_pty_ok)

text \<open>At boot no entry, pipe or pty is in use and no task has a descriptor.\<close>

definition fd_boot :: "'e fdw \<Rightarrow> bool" where
  "fd_boot w \<longleftrightarrow> (\<forall>c \<in> fd_cells. fd_at (fw_k w) c = -1) \<and> (\<forall>g. \<not> gfd_use w g) \<and> (\<forall>p. \<not> pp_use (fw_pipe w p))
     \<and> (\<forall>p. \<not> pt_use (fw_pty w p))"

inductive freach :: "'e fd_env \<Rightarrow> 'e fdw \<Rightarrow> bool" for ev where
  FBoot: "fd_boot w \<Longrightarrow> freach ev w"
| FStep: "freach ev w \<Longrightarrow> fstep ev w w1 \<Longrightarrow> freach ev w1"

lemma fd_boot_ok: "fd_boot w \<Longrightarrow> fd_ok w"
  by (simp add: fd_boot_def fd_ok_def ref_ok_def ends_ok_def pipe_ok_def pty_ok_def ends_of_def)

lemma freach_ok: "freach ev w \<Longrightarrow> fd_ok w"
  by (induction rule: freach.induct) (auto intro: fd_boot_ok fstep_ok)

end
