(* ===== verification/Fd_Props.thy ===== *)
theory Fd_Props
  imports Fd_Steps Task_Claims
begin

text \<open>
  What descriptors promise: exact tables in every reachable state, end of file exactly when
  the last writer is gone, ordered delivery through pipes, pseudo-terminal round trips,
  readiness that agrees with what a transfer does, and the contents a write leaves in a file;
  then the two places where the code fails its own intention, timeouts that are never
  reached and files cut at the size of the write buffer.
\<close>

section \<open>A concrete world\<close>

definition env0 :: "unit fd_env" where
  "env0 = \<lparr>ev_get_node = (\<lambda>_ _. 3), ev_is_dir = (\<lambda>_ _. False),
     ev_node = (\<lambda>_ _. \<lparr>fn_use = True, fn_type = FS_EXT2_FILE, fn_size = 20000000, fn_parent = 0, fn_sector = 0, fn_name = [], fn_mode = 0, fn_uid = 0, fn_gid = 0\<rparr>),
     ev_perm = (\<lambda>_ _ _. True), ev_path = (\<lambda>_ _. Some ''f''), ev_read = (\<lambda>_ n e. (n, replicate (nat n) 1, e)),
     ev_read_at = (\<lambda>_ _ _ e. (0, [], e)), ev_write = (\<lambda>_ bs e. (int (length bs), e)), ev_write_at = (\<lambda>_ _ _ n _ e. (n, e)),
     ev_alloc = (\<lambda>n _. Some (replicate n 7)), ev_udp_recv = (\<lambda>_ e. (0, [], e)), ev_udp_bind = (\<lambda>_ e. e), ev_recv = (\<lambda>_ _ e. (0, [], e)),
     ev_send = (\<lambda>_ _ n e. (n, e)), ev_close = (\<lambda>_ e. e), ev_accept = (\<lambda>_ e. (-1, e)), ev_tcp_state = (\<lambda>_ _. 0),
     ev_accept_pending = (\<lambda>_ _. False), ev_tx_ready = (\<lambda>_ _. False), ev_rx_pending = (\<lambda>_ _. False), ev_eof = (\<lambda>_ _. False)\<rparr>"

definition gfd0 :: gfd where
  "gfd0 = \<lparr>gf_type = FD_NONE, gf_node = 0, gf_pipe = 0, gf_conn = 0, gf_off = 0, gf_flags = 0\<rparr>"

text \<open>Task 1, of root, runs on processor 0 and nobody has a descriptor.\<close>

definition fresh :: "unit fdw" where
  "fresh = \<lparr>fw_gfd = (\<lambda>_. gfd0), fw_pipe = (\<lambda>_. \<lparr>pp_use = False, pp_ring = ring_zero, pp_closed = False\<rparr>),
     fw_pty = (\<lambda>_. \<lparr>pt_use = False, pt_m2s = ring_zero, pt_s2m = ring_zero, pt_master = 0, pt_slaves = 0\<rparr>),
     fw_k = cold\<lparr>kn_cur := (\<lambda>_. 1), kn_task := (\<lambda>_. task0\<lparr>tk_fd := (\<lambda>_. -1)\<rparr>)\<rparr>, fw_env = ()\<rparr>"

lemma fresh_reach: "freach ev fresh"
  by (rule FBoot) (simp add: fd_boot_def fresh_def fd_at_def cold_def)

definition piped :: "unit fdw" where
  "piped = snd (snd (snd (do_sys_pipe env0 0 fresh)))"

lemma piped_reach: "freach env0 piped"
  unfolding piped_def by (rule FStep [OF fresh_reach FPipe]) (simp add: fresh_def cold_def)

lemma scan_0: "P 0 \<Longrightarrow> 0 < n \<Longrightarrow> first_idx P 0 n = Some 0"
  by (simp add: first_idx.simps)

lemma scan_1: "\<not> P 0 \<Longrightarrow> P 1 \<Longrightarrow> 1 < n \<Longrightarrow> first_idx P 0 n = Some 1"
  by (simp add: first_idx.simps [of P 0] first_idx.simps [of P "Suc 0"])

lemma fresh_simps:
  "fw_gfd fresh = (\<lambda>_. gfd0)" "fw_pipe fresh = (\<lambda>_. \<lparr>pp_use = False, pp_ring = ring_zero, pp_closed = False\<rparr>)"
  "gfd_use fresh = (\<lambda>_. False)" "kn_cur (fw_k fresh) = (\<lambda>_. 1)" "kn_task (fw_k fresh) = (\<lambda>_. task0\<lparr>tk_fd := (\<lambda>_. -1)\<rparr>)"
  by (simp_all add: fresh_def cold_def)

lemma nofile_root: "tk_uid (kn_task k (kn_cur k cid)) = ROOT_UID \<Longrightarrow> task_rlimit_nofile_ok cid k"
  by (simp add: task_rlimit_nofile_ok_def Let_def)

definition pipe_ends :: "unit fdw" where
  "pipe_ends = claim 1 (\<lambda>x. x\<lparr>gf_off := 0, gf_type := FD_PIPE_WRITE, gf_pipe := 0\<rparr>)
     (claim 0 (\<lambda>x. x\<lparr>gf_off := 0, gf_type := FD_PIPE_READ, gf_pipe := 0\<rparr>)
       (upd_pipe 0 (\<lambda>x. x\<lparr>pp_use := True, pp_ring := ring_clear (pp_ring x), pp_closed := False\<rparr>) fresh))"

lemma map_at:
  fixes w :: "unit fdw"
  assumes "kn_cur (fw_k w) 0 = 1" "tk_uid (kn_task (fw_k w) 1) = 0" "l = 0 \<or> l = 1 \<and> fd_at (fw_k w) (1, 0) \<noteq> -1" "fd_at (fw_k w) (1, l) = -1"
  shows "task_map_fd 0 g w = (l, set_fd 1 l g w)"
proof -
  have "task_rlimit_nofile_ok 0 (fw_k w)" by (rule nofile_root) (use assms in \<open>simp add: ROOT_UID_def\<close>)
  moreover have "first_idx (\<lambda>j. task_get_fd 1 (int j) (fw_k w) = -1) 0 32 = Some (nat l)"
    using assms(3)
  proof (elim disjE conjE)
    assume l: "l = 0"
    show ?thesis unfolding l nat_zero_as_int [symmetric] using assms(4) l
      by (simp only: nat_0, intro scan_0) (simp_all add: get_fd_at in_cells)
  next
    assume l: "l = 1" "fd_at (fw_k w) (1, 0) \<noteq> -1"
    have "nat l = 1" using l(1) by simp
    then show ?thesis using assms(4) l
      by (simp only:, intro scan_1) (simp_all add: get_fd_at in_cells)
  qed
  ultimately show ?thesis using assms by (auto simp: task_map_fd_def Let_def fd_consts)
qed

lemma piped_eq: "piped = set_fd 1 1 1 (set_fd 1 0 0 pipe_ends)"
proof -
  let ?w1 = "upd_pipe 0 (\<lambda>x. x\<lparr>pp_use := True, pp_ring := ring_clear (pp_ring x), pp_closed := False\<rparr>) fresh"
  let ?f = "\<lambda>x :: gfd. x\<lparr>gf_off := 0\<rparr>"
  have "free_gfd ?w1 = 0" by (simp add: free_gfd_def scan_0 fd_consts fresh_simps)
  then have a1: "alloc_global_fd ?w1 = (0, claim 0 ?f ?w1)" by (simp add: alloc_global_fd_def claim_def)
  let ?c1 = "claim 0 (\<lambda>x. x\<lparr>gf_off := 0, gf_type := FD_PIPE_READ, gf_pipe := 0\<rparr>) ?w1"
  have "free_gfd ?c1 = 1" by (simp add: free_gfd_def scan_1 fd_consts fresh_simps)
  then have a2: "alloc_global_fd ?c1 = (1, claim 1 ?f ?c1)" by (simp add: alloc_global_fd_def claim_def)
  have t: "kn_cur (fw_k pipe_ends) 0 = 1" "kn_task (fw_k pipe_ends) = (\<lambda>_. task0\<lparr>tk_fd := (\<lambda>_. -1)\<rparr>)"
    by (simp_all add: pipe_ends_def fresh_simps)
  have m1: "task_map_fd 0 0 pipe_ends = (0, set_fd 1 0 0 pipe_ends)"
    by (rule map_at) (simp_all add: t fd_at_def task0_def)
  have m2: "task_map_fd 0 1 (set_fd 1 0 0 pipe_ends) = (1, set_fd 1 1 1 (set_fd 1 0 0 pipe_ends))"
    by (rule map_at) (simp_all add: t fd_at_set in_cells fd_at_def task_set_fd_def fd_consts upd_task_def task0_def)
  have "first_idx (\<lambda>i. \<not> pp_use (fw_pipe fresh (int i))) 0 16 = Some 0" by (simp add: scan_0 fresh_simps)
  then show ?thesis
    unfolding piped_def using a1 a2 m1 m2
    by (simp add: do_sys_pipe_def fd_consts Let_def upd_claim pipe_ends_def)
qed

lemma ring_clear_fields: "rb_r (ring_clear q) = 0" "rb_w (ring_clear q) = 0"
  by (simp_all add: ring_clear_def)

lemma piped_simps:
  "kn_cur (fw_k piped) cid = 1" "gfd_use piped g = (g = 0 \<or> g = 1)"
  "fd_at (fw_k piped) (1, 0) = 0" "fd_at (fw_k piped) (1, 1) = 1"
  "gf_type (fw_gfd piped 0) = FD_PIPE_READ" "gf_type (fw_gfd piped 1) = FD_PIPE_WRITE"
  "gf_pipe (fw_gfd piped 0) = 0" "gf_pipe (fw_gfd piped 1) = 0" "pp_use (fw_pipe piped 0)"
  "ring_items (pp_ring (fw_pipe piped 0)) = []" "gfd_ref piped 0 = 1" "pp_closed (fw_pipe piped 0) = False"
  "rb_r (pp_ring (fw_pipe piped 0)) = 0" "rb_w (pp_ring (fw_pipe piped 0)) = 0"
  by (auto simp: ring_clear_fields piped_eq pipe_ends_def fresh_simps fd_at_set in_cells)

lemma piped_open: "open_gfd 0 0 piped = Some 0" "open_gfd 0 1 piped = Some 1"
  by (simp_all add: open_gfd_def Let_def get_fd_at in_cells piped_simps)

section \<open>The tables\<close>

text \<open>C24: In every reachable state the descriptor tables are well typed and exact: a local
  descriptor is empty or names an entry in use; an entry in use counts exactly the descriptors
  that name it, and there is one; a pipe or pty end belongs to an object in use; an object in use
  has an end; a pipe is closed for writing exactly when it has no write end; a pty knows its
  master and counts its slaves. So nothing leaks and nothing is used after it was freed.\<close>

theorem fd_tables_sound:
  assumes "freach ev w"
  shows "(\<forall>t j. 0 \<le> t \<and> t < 64 \<and> 0 \<le> j \<and> j < 32 \<longrightarrow>
        task_get_fd t j (fw_k w) = -1 \<or> (0 \<le> task_get_fd t j (fw_k w) \<and> task_get_fd t j (fw_k w) < 256 \<and> gfd_use w (task_get_fd t j (fw_k w))))
    \<and> (\<forall>g. 0 \<le> g \<and> g < 256 \<and> gfd_use w g \<longrightarrow>
        gfd_ref w g = int (card {(t, j). 0 \<le> t \<and> t < 64 \<and> 0 \<le> j \<and> j < 32 \<and> task_get_fd t j (fw_k w) = g}) \<and> gfd_ref w g > 0)
    \<and> (\<forall>g. 0 \<le> g \<and> g < 256 \<and> gfd_use w g \<and> gf_type (fw_gfd w g) \<in> {FD_PIPE_READ, FD_PIPE_WRITE} \<longrightarrow>
        0 \<le> gf_pipe (fw_gfd w g) \<and> gf_pipe (fw_gfd w g) < 16 \<and> pp_use (fw_pipe w (gf_pipe (fw_gfd w g))))
    \<and> (\<forall>g. 0 \<le> g \<and> g < 256 \<and> gfd_use w g \<and> gf_type (fw_gfd w g) = FD_PTY \<longrightarrow>
        0 \<le> gf_pipe (fw_gfd w g) \<and> gf_pipe (fw_gfd w g) < 16 \<and> pt_use (fw_pty w (gf_pipe (fw_gfd w g))))
    \<and> (\<forall>p. 0 \<le> p \<and> p < 16 \<and> pp_use (fw_pipe w p) \<longrightarrow>
        (pp_closed (fw_pipe w p) \<longleftrightarrow> ends_of w is_wr p = {}) \<and> ends_of w is_rd p \<union> ends_of w is_wr p \<noteq> {}
        \<and> rb_r (pp_ring (fw_pipe w p)) < 4096 \<and> rb_w (pp_ring (fw_pipe w p)) < 4096)
    \<and> (\<forall>p. 0 \<le> p \<and> p < 16 \<and> pt_use (fw_pty w p) \<longrightarrow>
        pt_slaves (fw_pty w p) = int (card (ends_of w is_slv p)) \<and> ends_of w is_mst p \<union> ends_of w is_slv p \<noteq> {}
        \<and> (pt_master (fw_pty w p) \<noteq> -1 \<longrightarrow> ends_of w is_mst p = {pt_master (fw_pty w p)}))"
    (is "?cells \<and> ?refs \<and> ?pipe_end \<and> ?pty_end \<and> ?pipes \<and> ?ptys")
proof -
  have ok: "ref_ok (\<lambda>_. 0) (fw_k w)" "ends_ok w" using freach_ok [OF assms] by (simp_all add: fd_ok_def)
  have cells: ?cells using ok(1) by (auto simp: get_fd_at in_cells ref_ok_def fd_consts)
  have e: "{(t, j). 0 \<le> t \<and> t < 64 \<and> 0 \<le> j \<and> j < 32 \<and> task_get_fd t j (fw_k w) = g} = fd_refs (fw_k w) g" for g
    by (auto simp: fd_refs_def get_fd_at in_cells)
  have refs: ?refs unfolding e using ok(1) by (auto simp: ref_ok_def fd_consts)
  have pipe_end: ?pipe_end
  proof (intro allI impI)
    fix g assume g: "0 \<le> g \<and> g < 256 \<and> gfd_use w g \<and> gf_type (fw_gfd w g) \<in> {FD_PIPE_READ, FD_PIPE_WRITE}"
    then have p: "0 \<le> gf_pipe (fw_gfd w g)" "gf_pipe (fw_gfd w g) < 16"
      using shape_pipe [OF ok(2)] by (auto simp: plain_def fd_consts)
    have "ends_of w is_rd (gf_pipe (fw_gfd w g)) \<noteq> {} \<or> ends_of w is_wr (gf_pipe (fw_gfd w g)) \<noteq> {}"
      using g end_in [of w g is_rd] end_in [of w g is_wr] by (auto simp: fd_consts end_kinds)
    with p ends_okD(1) [OF ok(2) p]
    show "0 \<le> gf_pipe (fw_gfd w g) \<and> gf_pipe (fw_gfd w g) < 16 \<and> pp_use (fw_pipe w (gf_pipe (fw_gfd w g)))"
      by (auto simp: pipe_ok_def split: if_splits)
  qed
  have pty_end: ?pty_end
  proof (intro allI impI)
    fix g assume g: "0 \<le> g \<and> g < 256 \<and> gfd_use w g \<and> gf_type (fw_gfd w g) = FD_PTY"
    then have p: "0 \<le> gf_pipe (fw_gfd w g)" "gf_pipe (fw_gfd w g) < 16"
      using shape_pipe [OF ok(2)] by (auto simp: plain_def fd_consts)
    have "shape_ok (fw_gfd w g)" using ends_okD(3) [OF ok(2)] g by (simp add: fd_consts)
    then have "ends_of w is_mst (gf_pipe (fw_gfd w g)) \<noteq> {} \<or> ends_of w is_slv (gf_pipe (fw_gfd w g)) \<noteq> {}"
      using g end_in [of w g is_mst] end_in [of w g is_slv] by (auto simp: fd_consts end_kinds shape_ok_def)
    with p ends_okD(2) [OF ok(2) p]
    show "0 \<le> gf_pipe (fw_gfd w g) \<and> gf_pipe (fw_gfd w g) < 16 \<and> pt_use (fw_pty w (gf_pipe (fw_gfd w g)))"
      by (auto simp: pty_ok_def split: if_splits)
  qed
  have pipes: ?pipes
  proof (intro allI impI)
    fix p assume p: "0 \<le> p \<and> p < 16 \<and> pp_use (fw_pipe w p)"
    then show "(pp_closed (fw_pipe w p) \<longleftrightarrow> ends_of w is_wr p = {}) \<and> ends_of w is_rd p \<union> ends_of w is_wr p \<noteq> {}
        \<and> rb_r (pp_ring (fw_pipe w p)) < 4096 \<and> rb_w (pp_ring (fw_pipe w p)) < 4096"
      using ends_okD(1) [OF ok(2), of p] by (auto simp: pipe_ok_def ring_good_def RING_SIZE_def)
  qed
  have ptys: ?ptys
  proof (intro allI impI)
    fix p assume p: "0 \<le> p \<and> p < 16 \<and> pt_use (fw_pty w p)"
    then show "pt_slaves (fw_pty w p) = int (card (ends_of w is_slv p)) \<and> ends_of w is_mst p \<union> ends_of w is_slv p \<noteq> {}
        \<and> (pt_master (fw_pty w p) \<noteq> -1 \<longrightarrow> ends_of w is_mst p = {pt_master (fw_pty w p)})"
      using ends_okD(2) [OF ok(2), of p] by (auto simp: pty_ok_def)
  qed
  show ?thesis using cells refs pipe_end pty_end pipes ptys by blast
qed

theorem fd_tables_sound_witness:
  "gfd_use piped 0 \<and> gfd_ref piped 0 = int (card {(t, j). 0 \<le> t \<and> t < 64 \<and> 0 \<le> j \<and> j < 32 \<and> task_get_fd t j (fw_k piped) = 0})"
  using fd_tables_sound [OF piped_reach] piped_simps(2) [of 0] by auto

section \<open>Pipes\<close>

text \<open>Some task has a descriptor of a write end of pipe \<open>p\<close>.\<close>

definition writer_left :: "int \<Rightarrow> 'e fdw \<Rightarrow> bool" where
  "writer_left p w \<longleftrightarrow>
     (\<exists>t j. 0 \<le> task_get_fd t j (fw_k w) \<and> gf_type (fw_gfd w (task_get_fd t j (fw_k w))) = FD_PIPE_WRITE
        \<and> gf_pipe (fw_gfd w (task_get_fd t j (fw_k w))) = p)"

lemma writer_left_iff:
  assumes "fd_ok w"
  shows "writer_left p w \<longleftrightarrow> ends_of w is_wr p \<noteq> {}"
proof
  assume "writer_left p w"
  then obtain t j where "0 \<le> task_get_fd t j (fw_k w)" "gf_type (fw_gfd w (task_get_fd t j (fw_k w))) = FD_PIPE_WRITE"
      "gf_pipe (fw_gfd w (task_get_fd t j (fw_k w))) = p"
    by (auto simp: writer_left_def)
  then have "task_get_fd t j (fw_k w) \<in> ends_of w is_wr p"
    using assms ref_ok_entry [of "\<lambda>_. 0" "fw_k w" "(t, j)"]
    by (auto simp: fd_ok_def get_fd_at ends_of_def is_wr_def split: if_splits)
  then show "ends_of w is_wr p \<noteq> {}" by blast
next
  assume "ends_of w is_wr p \<noteq> {}"
  then obtain g where g: "0 \<le> g" "g < MAX_GLOBAL_FDS" "gfd_use w g" "gf_type (fw_gfd w g) = FD_PIPE_WRITE" "gf_pipe (fw_gfd w g) = p"
    by (auto simp: ends_of_def is_wr_def)
  then have "card (fd_refs (fw_k w) g) > 0" using assms by (auto simp: fd_ok_def ref_ok_def)
  then obtain t j where "(t, j) \<in> fd_refs (fw_k w) g" by (metis card_gt_0_iff ex_in_conv surj_pair)
  then have "task_get_fd t j (fw_k w) = g" by (auto simp: fd_refs_def get_fd_at)
  with g show "writer_left p w" by (auto simp: writer_left_def)
qed

lemma open_read_end:
  assumes "fd_ok w" and "open_gfd cid fd w = Some g" and "gf_type (fw_gfd w g) = FD_PIPE_READ"
  shows "pipe_ok (fw_pipe w (gf_pipe (fw_gfd w g))) (ends_of w is_rd (gf_pipe (fw_gfd w g))) (ends_of w is_wr (gf_pipe (fw_gfd w g)))"
    and "pp_use (fw_pipe w (gf_pipe (fw_gfd w g)))"
proof -
  have e: "ends_ok w" using assms by (simp add: fd_ok_def)
  have u: "gfd_use w g" "0 \<le> g" "g < MAX_GLOBAL_FDS"
    using open_gfdD [OF assms(2)] open_gfd_range [OF assms(1,2)] by simp_all
  have p: "0 \<le> gf_pipe (fw_gfd w g)" "gf_pipe (fw_gfd w g) < 16"
    using shape_pipe [OF e u] assms(3) by (auto simp: plain_def)
  show ok: "pipe_ok (fw_pipe w (gf_pipe (fw_gfd w g))) (ends_of w is_rd (gf_pipe (fw_gfd w g))) (ends_of w is_wr (gf_pipe (fw_gfd w g)))"
    by (rule ends_okD(1) [OF e p])
  have "g \<in> ends_of w is_rd (gf_pipe (fw_gfd w g))" by (rule end_in [OF u]) (simp add: is_rd_def assms(3))
  then show "pp_use (fw_pipe w (gf_pipe (fw_gfd w g)))" using ok by (auto simp: pipe_ok_def split: if_splits)
qed

text \<open>C25: A read from a drained pipe returns end of file exactly when no task has a descriptor
  of its write end left, and parks exactly while one has: the reader neither hangs on a pipe
  nobody can write to nor gives up on one that somebody can.\<close>

theorem pipe_eof_exact:
  assumes "freach ev w" and "open_gfd cid fd w = Some g" and "gf_type (fw_gfd w g) = FD_PIPE_READ"
    and "ring_items (pp_ring (fw_pipe w (gf_pipe (fw_gfd w g)))) = []" and "0 < n"
  shows "fst (do_sys_read ev cid fd n w)
    = (if writer_left (gf_pipe (fw_gfd w g)) w then RdPark [] else RdDone 0 [])"
proof -
  let ?p = "gf_pipe (fw_gfd w g)"
  have ok: "fd_ok w" by (rule freach_ok [OF assms(1)])
  note pk = open_read_end [OF ok assms(2,3)]
  obtain bs q where gl: "get_loop ring_get (nat n) (pp_ring (fw_pipe w ?p)) = (bs, q)" by fastforce
  have "ring_good (pp_ring (fw_pipe w ?p))" using pk by (simp add: pipe_ok_def)
  from rg.get_loop_spec [OF this gl] assms(4) have "bs = []" by simp
  moreover have "pp_closed (fw_pipe w ?p) \<longleftrightarrow> \<not> writer_left ?p w"
    using pk writer_left_iff [OF ok] by (simp add: pipe_ok_def)
  ultimately show ?thesis
    using assms(2,3,5) gl by (simp add: do_sys_read_def is_file_def pipe_read_loop_def)
qed

theorem pipe_eof_exact_witness:
  "fst (do_sys_read env0 0 0 5 piped) = RdPark [] \<and> writer_left 0 piped"
proof -
  have "0 \<le> task_get_fd 1 1 (fw_k piped) \<and> gf_type (fw_gfd piped (task_get_fd 1 1 (fw_k piped))) = FD_PIPE_WRITE
      \<and> gf_pipe (fw_gfd piped (task_get_fd 1 1 (fw_k piped))) = 0"
    by (simp add: get_fd_at in_cells piped_simps)
  then have w: "writer_left 0 piped" unfolding writer_left_def by blast
  show ?thesis
    using pipe_eof_exact [OF piped_reach piped_open(1), of 5] w by (simp add: piped_simps)
qed

text \<open>A history of transfers on one pipe: fresh and resumed writes and reads, by any tasks. It
  yields what the writers handed over, what the readers got, and the world at its end.\<close>

datatype pipe_op =
    PWrite int int "u8 list"
  | PWriteMore int int "u8 list" nat
  | PRead int int int
  | PReadMore int int int "u8 list"

definition written :: "u8 list \<Rightarrow> nat \<Rightarrow> wr_out \<Rightarrow> u8 list" where
  "written buf d r = (case r of WrDone c \<Rightarrow> take (nat c - d) (drop d buf) | WrPark c \<Rightarrow> take (c - d) (drop d buf))"

definition received :: "nat \<Rightarrow> rd_out \<Rightarrow> u8 list" where
  "received d r = (case r of RdDone c bs \<Rightarrow> drop d bs | RdPark bs \<Rightarrow> drop d bs)"

fun pipe_do :: "'e fd_env \<Rightarrow> pipe_op \<Rightarrow> 'e fdw \<Rightarrow> u8 list \<times> u8 list \<times> 'e fdw" where
  "pipe_do ev (PWrite cid fd buf) w =
     (let (r, w1) = do_sys_write ev cid fd buf (int (length buf)) w in (written buf 0 r, [], w1))"
| "pipe_do ev (PWriteMore t fd buf d) w =
     (let (r, w1) = pipe_write_again t fd buf (int (length buf)) d w in (written buf d r, [], w1))"
| "pipe_do ev (PRead cid fd n) w = (let (r, w1) = do_sys_read ev cid fd n w in ([], received 0 r, w1))"
| "pipe_do ev (PReadMore t fd n got) w =
     (let (r, w1) = pipe_read_again t fd n got w in ([], received (length got) r, w1))"

fun pipe_hist :: "'e fd_env \<Rightarrow> pipe_op list \<Rightarrow> 'e fdw \<Rightarrow> u8 list \<times> u8 list \<times> 'e fdw" where
  "pipe_hist ev [] w = ([], [], w)"
| "pipe_hist ev (op # ops) w =
     (let (a, d, w1) = pipe_do ev op w; (as, ds, w2) = pipe_hist ev ops w1 in (a @ as, d @ ds, w2))"

definition on_end :: "fd_type \<Rightarrow> int \<Rightarrow> int \<Rightarrow> int \<Rightarrow> 'e fdw \<Rightarrow> bool" where
  "on_end ty p t fd w \<longleftrightarrow>
     (let g = task_get_fd t fd (fw_k w) in 0 \<le> t \<and> 0 \<le> g \<and> gfd_use w g \<and> gf_type (fw_gfd w g) = ty \<and> gf_pipe (fw_gfd w g) = p)"

fun op_on :: "int \<Rightarrow> 'e fdw \<Rightarrow> pipe_op \<Rightarrow> bool" where
  "op_on p w (PWrite cid fd buf) = on_end FD_PIPE_WRITE p (kn_cur (fw_k w) cid) fd w"
| "op_on p w (PWriteMore t fd buf d) = (on_end FD_PIPE_WRITE p t fd w \<and> d \<le> length buf)"
| "op_on p w (PRead cid fd n) = on_end FD_PIPE_READ p (kn_cur (fw_k w) cid) fd w"
| "op_on p w (PReadMore t fd n got) = on_end FD_PIPE_READ p t fd w"

lemma on_end_open: "on_end ty p (kn_cur (fw_k w) cid) fd w \<Longrightarrow>
    \<exists>g. open_gfd cid fd w = Some g \<and> gf_type (fw_gfd w g) = ty \<and> gf_pipe (fw_gfd w g) = p"
  by (auto simp: on_end_def open_gfd_def Let_def)

text \<open>One operation is a put or a get on the ring of the pipe.\<close>

lemma pipe_write_loop_fifo:
  assumes "ring_good (pp_ring (fw_pipe w p))" and "pipe_write_loop p buf (int (length buf)) d w = (r, w1)" and "d \<le> length buf"
  shows "\<exists>q. w1 = upd_pipe p (\<lambda>x. x\<lparr>pp_ring := q\<rparr>) w \<and> ring_good q
    \<and> ring_items q = ring_items (pp_ring (fw_pipe w p)) @ written buf d r"
proof -
  obtain c q where g: "put_loop ring_put (take (length buf - d) (drop d buf)) (pp_ring (fw_pipe w p)) = (c, q)" by fastforce
  from rg.put_loop_spec [OF assms(1) g] have s: "ring_good q" "c \<le> length buf - d"
      "ring_items q = ring_items (pp_ring (fw_pipe w p)) @ take c (drop d buf)"
    by (simp_all add: min_def)
  have "written buf d r = take c (drop d buf)" "w1 = upd_pipe p (\<lambda>x. x\<lparr>pp_ring := q\<rparr>) w"
    using assms(2) g s(2) by (auto simp: pipe_write_loop_def written_def Let_def nat_diff_distrib split: if_splits)
  with s show ?thesis by auto
qed

lemma pipe_read_loop_fifo:
  assumes "ring_good (pp_ring (fw_pipe w p))" and "pipe_read_loop p n got w = (r, w1)"
  shows "\<exists>q. w1 = upd_pipe p (\<lambda>x. x\<lparr>pp_ring := q\<rparr>) w \<and> ring_good q
    \<and> ring_items (pp_ring (fw_pipe w p)) = received (length got) r @ ring_items q"
proof -
  obtain bs q where g: "get_loop ring_get (nat n - length got) (pp_ring (fw_pipe w p)) = (bs, q)" by fastforce
  from rg.get_loop_spec [OF assms(1) g] have s: "ring_good q" "ring_items (pp_ring (fw_pipe w p)) = bs @ ring_items q"
    by (simp_all add: append_take_drop_id)
  have "received (length got) r = bs" "w1 = upd_pipe p (\<lambda>x. x\<lparr>pp_ring := q\<rparr>) w"
    using assms(2) g by (auto simp: pipe_read_loop_def received_def Let_def split: if_splits)
  with s show ?thesis by auto
qed

lemma pipe_do_fifo:
  assumes "ring_good (pp_ring (fw_pipe w p))" and "op_on p w op" and "pipe_do ev op w = (a, d, w1)"
  shows "\<exists>q. w1 = upd_pipe p (\<lambda>x. x\<lparr>pp_ring := q\<rparr>) w \<and> ring_good q
    \<and> ring_items (pp_ring (fw_pipe w p)) @ a = d @ ring_items q"
proof (cases op)
  case (PWrite cid fd buf)
  obtain g where g: "open_gfd cid fd w = Some g" "gf_type (fw_gfd w g) = FD_PIPE_WRITE" "gf_pipe (fw_gfd w g) = p"
    using on_end_open assms(2) PWrite by fastforce
  then have "do_sys_write ev cid fd buf (int (length buf)) w = pipe_write_loop p buf (int (length buf)) 0 w"
    by (simp add: do_sys_write_def is_file_def)
  then show ?thesis using assms(3) PWrite pipe_write_loop_fifo [OF assms(1), of buf 0] by (auto split: prod.splits)
next
  case (PWriteMore t fd buf dn)
  then have "pipe_write_again t fd buf (int (length buf)) dn w = pipe_write_loop p buf (int (length buf)) dn w"
    using assms(2) by (auto simp: on_end_def pipe_write_again_def Let_def)
  then show ?thesis using assms(2,3) PWriteMore pipe_write_loop_fifo [OF assms(1), of buf dn] by (auto split: prod.splits)
next
  case (PRead cid fd n)
  obtain g where g: "open_gfd cid fd w = Some g" "gf_type (fw_gfd w g) = FD_PIPE_READ" "gf_pipe (fw_gfd w g) = p"
    using on_end_open assms(2) PRead by fastforce
  then have "do_sys_read ev cid fd n w = pipe_read_loop p n [] w"
    by (simp add: do_sys_read_def is_file_def)
  then show ?thesis using assms(3) PRead pipe_read_loop_fifo [OF assms(1), of n "[]"] by (auto split: prod.splits)
next
  case (PReadMore t fd n got)
  then have "pipe_read_again t fd n got w = pipe_read_loop p n got w"
    using assms(2) by (auto simp: on_end_def pipe_read_again_def Let_def)
  then show ?thesis using assms(3) PReadMore pipe_read_loop_fifo [OF assms(1), of n got] by (auto split: prod.splits)
qed

lemma op_on_ring: "op_on p (upd_pipe q f w) op = op_on p w op"
  by (cases op) (simp_all add: on_end_def)

text \<open>C26: A pipe delivers what was written, in order and once. Over any history of writes and reads
  by any tasks through its ends, complete, partial or resumed after parking, the bytes that
  were in the pipe followed by the bytes the writers handed over are the bytes the readers got
  followed by the bytes still in the pipe.\<close>

theorem pipe_delivers_in_order:
  assumes "freach ev w" and "0 \<le> p" and "p < 16" and "pp_use (fw_pipe w p)" and "\<forall>op \<in> set ops. op_on p w op"
    and "pipe_hist ev ops w = (a, d, w1)"
  shows "ring_items (pp_ring (fw_pipe w p)) @ a = d @ ring_items (pp_ring (fw_pipe w1 p))"
proof -
  have "pipe_ok (fw_pipe w p) (ends_of w is_rd p) (ends_of w is_wr p)"
    using ends_okD(1) freach_ok [OF assms(1)] assms(2,3) by (auto simp: fd_ok_def)
  then have "ring_good (pp_ring (fw_pipe w p))" using assms(4) by (simp add: pipe_ok_def)
  then show ?thesis using assms(5,6)
  proof (induction ops arbitrary: w a d)
    case Nil
    then show ?case by simp
  next
    case (Cons op ops)
    obtain a1 d1 w2 where o: "pipe_do ev op w = (a1, d1, w2)" by (metis surj_pair)
    obtain a2 d2 w3 where r: "pipe_hist ev ops w2 = (a2, d2, w3)" by (metis surj_pair)
    have eq: "a = a1 @ a2" "d = d1 @ d2" "w1 = w3" using Cons.prems(3) o r by simp_all
    from Cons.prems(2) have "op_on p w op" by simp
    from pipe_do_fifo [OF Cons.prems(1) this o] obtain q where q: "w2 = upd_pipe p (\<lambda>x. x\<lparr>pp_ring := q\<rparr>) w"
        "ring_good q" "ring_items (pp_ring (fw_pipe w p)) @ a1 = d1 @ ring_items q" by blast
    have "ring_items q @ a2 = d2 @ ring_items (pp_ring (fw_pipe w3 p))"
      using Cons.IH [of w2 a2 d2] q Cons.prems(2) r eq(3) by (auto simp: op_on_ring)
    then show ?case using q(3) eq by (metis append_assoc)
  qed
qed

theorem pipe_delivers_in_order_witness:
  "fst (pipe_hist env0 [PWrite 0 1 [1, 2, 3], PRead 0 0 2] piped)
   = fst (snd (pipe_hist env0 [PWrite 0 1 [1, 2, 3], PRead 0 0 2] piped))
     @ ring_items (pp_ring (fw_pipe (snd (snd (pipe_hist env0 [PWrite 0 1 [1, 2, 3], PRead 0 0 2] piped))) 0))"
proof -
  have c: "\<forall>op \<in> set [PWrite 0 1 [1, 2, 3], PRead 0 0 2]. op_on 0 piped op"
    by (simp add: on_end_def Let_def get_fd_at in_cells piped_simps)
  obtain a d w1 where h: "pipe_hist env0 [PWrite 0 1 [1, 2, 3], PRead 0 0 2] piped = (a, d, w1)" by (metis surj_pair)
  show ?thesis
    using pipe_delivers_in_order [OF piped_reach _ _ piped_simps(9) c h] h by (simp add: piped_simps)
qed

section \<open>Pseudo-terminals\<close>

lemma open_pty:
  assumes "fd_ok w" and "open_gfd cid fd w = Some g" and "gf_type (fw_gfd w g) = FD_PTY"
  shows "pty_slot_is_master g w = gf_flags (fw_gfd w g)" "gf_flags (fw_gfd w g) = 0 \<or> gf_flags (fw_gfd w g) = 1"
    and "ring_good (pt_m2s (fw_pty w (gf_pipe (fw_gfd w g)))) \<and> ring_good (pt_s2m (fw_pty w (gf_pipe (fw_gfd w g))))"
proof -
  have e: "ends_ok w" using assms by (simp add: fd_ok_def)
  have u: "gfd_use w g" "0 \<le> g" "g < MAX_GLOBAL_FDS"
    using open_gfdD [OF assms(2)] open_gfd_range [OF assms(1,2)] by simp_all
  have sh: "shape_ok (fw_gfd w g)" by (rule ends_okD(3) [OF e u(2,3,1)])
  then show fl: "gf_flags (fw_gfd w g) = 0 \<or> gf_flags (fw_gfd w g) = 1" using assms(3) by (simp add: shape_ok_def)
  then show "pty_slot_is_master g w = gf_flags (fw_gfd w g)" using u assms(3) by (auto simp: pty_slot_is_master_def)
  have p: "0 \<le> gf_pipe (fw_gfd w g)" "gf_pipe (fw_gfd w g) < 16"
    using shape_pipe [OF e u] assms(3) by (auto simp: plain_def)
  have "g \<in> ends_of w is_mst (gf_pipe (fw_gfd w g)) \<or> g \<in> ends_of w is_slv (gf_pipe (fw_gfd w g))"
    using fl end_in [OF u, of is_mst] end_in [OF u, of is_slv] assms(3) by (auto simp: end_kinds)
  then show "ring_good (pt_m2s (fw_pty w (gf_pipe (fw_gfd w g)))) \<and> ring_good (pt_s2m (fw_pty w (gf_pipe (fw_gfd w g))))"
    using ends_okD(2) [OF e p] by (auto simp: pty_ok_def split: if_splits)
qed

text \<open>C27: What is typed on the master arrives on the slave and what the slave prints arrives on
  the master: a write of up to 4095 bytes into the drained direction, then a read of as many on the
  other end, both through the system calls, return the bytes unchanged.\<close>

theorem pty_roundtrip:
  assumes "freach ev w" and "open_gfd c1 f1 w = Some m" and "open_gfd c2 f2 w = Some s"
    and "gf_type (fw_gfd w m) = FD_PTY" and "gf_flags (fw_gfd w m) = 1"
    and "gf_type (fw_gfd w s) = FD_PTY" and "gf_flags (fw_gfd w s) = 0" and "gf_pipe (fw_gfd w s) = gf_pipe (fw_gfd w m)"
    and "ring_items (pt_m2s (fw_pty w (gf_pipe (fw_gfd w m)))) = []" and "ring_items (pt_s2m (fw_pty w (gf_pipe (fw_gfd w m)))) = []"
    and "length xs \<le> 4095"
  shows "(\<exists>w1. do_sys_write ev c1 f1 xs (int (length xs)) w = (WrDone (int (length xs)), w1)
         \<and> fst (do_sys_read ev c2 f2 (int (length xs)) w1) = RdDone (int (length xs)) xs)
     \<and> (\<exists>w1. do_sys_write ev c2 f2 xs (int (length xs)) w = (WrDone (int (length xs)), w1)
         \<and> fst (do_sys_read ev c1 f1 (int (length xs)) w1) = RdDone (int (length xs)) xs)"
proof -
  let ?p = "gf_pipe (fw_gfd w m)"
  have ok: "fd_ok w" by (rule freach_ok [OF assms(1)])
  note pm = open_pty [OF ok assms(2,4)]
  note ps = open_pty [OF ok assms(3,6)]
  have room: "length xs \<le> RING_SIZE - 1" using assms(11) by (simp add: RING_SIZE_def)
  have same: "open_gfd c f (upd_pty ?p h w) = open_gfd c f w" "pty_slot_is_master g (upd_pty ?p h w) = pty_slot_is_master g w"
    for c f g h by (simp_all add: open_gfd_def pty_slot_is_master_def Let_def)
  obtain n1 q1 where p1: "put_loop ring_put xs (pt_m2s (fw_pty w ?p)) = (n1, q1)" by fastforce
  obtain y1 r1 where g1: "get_loop ring_get (length xs) q1 = (y1, r1)" by fastforce
  from rg.put_get_roundtrip [OF _ assms(9) room p1 g1] pm(3) have r1: "n1 = length xs" "y1 = xs" by simp_all
  obtain n2 q2 where p2: "put_loop ring_put xs (pt_s2m (fw_pty w ?p)) = (n2, q2)" by fastforce
  obtain y2 r2 where g2: "get_loop ring_get (length xs) q2 = (y2, r2)" by fastforce
  from rg.put_get_roundtrip [OF _ assms(10) room p2 g2] pm(3) have r2: "n2 = length xs" "y2 = xs" by simp_all
  have "do_sys_write ev c1 f1 xs (int (length xs)) w = (WrDone (int (length xs)), upd_pty ?p (\<lambda>t. t\<lparr>pt_m2s := q1\<rparr>) w)"
    using assms(2,4,5) pm(1) p1 r1 by (simp add: do_sys_write_def pty_write_def)
  moreover have "fst (do_sys_read ev c2 f2 (int (length xs)) (upd_pty ?p (\<lambda>t. t\<lparr>pt_m2s := q1\<rparr>) w)) = RdDone (int (length xs)) xs"
    using assms(3,6-8) ps(1) g1 r1 by (simp add: do_sys_read_def is_file_def pty_read_def same Let_def)
  moreover have "do_sys_write ev c2 f2 xs (int (length xs)) w = (WrDone (int (length xs)), upd_pty ?p (\<lambda>t. t\<lparr>pt_s2m := q2\<rparr>) w)"
    using assms(3,6-8) ps(1) p2 r2 by (simp add: do_sys_write_def pty_write_def)
  moreover have "fst (do_sys_read ev c1 f1 (int (length xs)) (upd_pty ?p (\<lambda>t. t\<lparr>pt_s2m := q2\<rparr>) w)) = RdDone (int (length xs)) xs"
    using assms(2,4,5) pm(1) g2 r2 by (simp add: do_sys_read_def is_file_def pty_read_def same Let_def)
  ultimately show ?thesis by blast
qed

text \<open>Task 1 after it made a pty and opened its slave end.\<close>

definition ptyed :: "unit fdw" where
  "ptyed = snd (do_sys_pty_open 0 0 (snd (do_sys_pty_alloc 0 fresh)))"

definition one_pty :: "int \<Rightarrow> int \<Rightarrow> pty" where
  "one_pty m n = \<lparr>pt_use = True, pt_m2s = ring_zero, pt_s2m = ring_zero, pt_master = m, pt_slaves = n\<rparr>"

definition pty_gfd :: "int \<Rightarrow> gfd \<Rightarrow> gfd" where
  "pty_gfd fl x = x\<lparr>gf_type := FD_PTY, gf_pipe := 0, gf_flags := fl, gf_off := 0, gf_conn := -1\<rparr>"

definition mastered :: "unit fdw" where
  "mastered = set_fd 1 0 0 (upd_pty 0 (\<lambda>_. one_pty 0 0) (claim 0 (pty_gfd 1) fresh))"

definition slaved :: "unit fdw" where
  "slaved = set_fd 1 1 1 (upd_pty 0 (\<lambda>_. one_pty 0 1) (claim 1 (pty_gfd 0) mastered))"

lemma fresh_master: "do_sys_pty_alloc 0 fresh = (0, mastered)"
proof -
  have f: "fw_pty fresh = (\<lambda>_. \<lparr>pt_use = False, pt_m2s = ring_zero, pt_s2m = ring_zero, pt_master = 0, pt_slaves = 0\<rparr>)"
    by (simp add: fresh_def)
  have g: "free_gfd (upd_pty 0 h fresh) = 0" for h by (simp add: free_gfd_def scan_0 fd_consts fresh_simps)
  have "first_idx (\<lambda>i. \<not> pt_use (fw_pty fresh (int i))) 0 16 = Some 0" by (simp add: scan_0 f)
  then have a: "pty_alloc_fd fresh = (0, upd_pty 0 (\<lambda>_. one_pty 0 0) (claim 0 (pty_gfd 1) fresh))"
  proof -
    have c: "pty_claim_gfd 0 True (upd_pty 0 (\<lambda>_. t) fresh) = (0, claim 0 (pty_gfd 1) (upd_pty 0 (\<lambda>_. t) fresh))" if "pt_use t" for t
      using that by (simp add: pty_claim_gfd_def fd_consts g claim_def pty_gfd_def [abs_def])
    show ?thesis using \<open>first_idx _ 0 16 = Some 0\<close>
      by (simp add: pty_alloc_fd_def fd_consts c Let_def upd_pty_comm [symmetric] upd_pty_twice one_pty_def)
  qed
  show ?thesis
    unfolding do_sys_pty_alloc_def a map_or_close_pty_def mastered_def
    by (simp add: map_at fresh_simps fd_at_def task0_def)
qed

lemma master_slave: "do_sys_pty_open 0 0 mastered = (1, slaved)"
proof -
  have k: "kn_cur (fw_k mastered) 0 = 1" "fd_at (fw_k mastered) (1, 0) = 0" "fd_at (fw_k mastered) (1, 1) = -1"
      "tk_uid (kn_task (fw_k mastered) 1) = 0" "gfd_use mastered g = (g = 0)" "gf_type (fw_gfd mastered 0) = FD_PTY"
      "gf_flags (fw_gfd mastered 0) = 1" "gf_pipe (fw_gfd mastered 0) = 0" "fw_pty mastered 0 = one_pty 0 0" for g
    by (simp_all add: mastered_def fd_at_set in_cells fresh_simps pty_gfd_def) 
      (simp_all add: fd_at_def fresh_simps task_set_fd_def fd_consts upd_task_def task0_def)
  have o: "open_gfd 0 0 mastered = Some 0" by (simp add: open_gfd_def Let_def get_fd_at in_cells k)
  have "free_gfd mastered = 1" by (simp add: free_gfd_def scan_1 fd_consts k)
  then have a: "pty_open_slave 0 mastered = (1, upd_pty 0 (\<lambda>_. one_pty 0 1) (claim 1 (pty_gfd 0) mastered))"
  proof -
    assume f: "free_gfd mastered = 1"
    have "pty_claim_gfd 0 False mastered = (1, claim 1 (pty_gfd 0) mastered)"
      by (simp add: pty_claim_gfd_def fd_consts f k claim_def pty_gfd_def [abs_def] one_pty_def)
    moreover have "upd_pty 0 (\<lambda>t. t\<lparr>pt_slaves := pt_slaves t + 1\<rparr>) v = upd_pty 0 (\<lambda>_. one_pty 0 1) v"
      if "fw_pty v 0 = one_pty 0 0" for v :: "unit fdw" using that by (simp add: upd_pty_def one_pty_def)
    ultimately show ?thesis by (simp add: pty_open_slave_def pty_slot_is_master_def fd_consts k one_pty_def [of 0 0] Let_def)
  qed
  have "task_map_fd 0 1 (upd_pty 0 (\<lambda>_. one_pty 0 1) (claim 1 (pty_gfd 0) mastered)) = (1, slaved)"
    unfolding slaved_def by (rule map_at) (simp_all add: k)
  then show ?thesis using o a by (simp add: do_sys_pty_open_def k map_or_close_pty_def)
qed

lemma ptyed_eq: "ptyed = slaved"
  by (simp add: ptyed_def fresh_master master_slave)

lemma ptyed_reach: "freach env0 ptyed"
proof -
  have "freach env0 (snd (do_sys_pty_alloc 0 fresh))"
    by (rule FStep [OF fresh_reach FPtyAlloc]) (simp add: fresh_simps)
  moreover have "kn_cur (fw_k (snd (do_sys_pty_alloc 0 fresh))) 0 < 64"
    by (simp add: fresh_master mastered_def fresh_simps)
  ultimately show ?thesis unfolding ptyed_def by (rule FStep [OF _ FPtyOpen])
qed

theorem pty_roundtrip_witness:
  "\<exists>w1. do_sys_write env0 0 0 [104, 105] 2 ptyed = (WrDone 2, w1) \<and> fst (do_sys_read env0 0 1 2 w1) = RdDone 2 [104, 105]"
proof -
  have c: "gfd_use slaved g = (g = 0 \<or> g = 1)" "fd_at (fw_k slaved) (1, 0) = 0" "fd_at (fw_k slaved) (1, 1) = 1"
      "kn_cur (fw_k slaved) 0 = 1" "gf_type (fw_gfd slaved 0) = FD_PTY" "gf_type (fw_gfd slaved 1) = FD_PTY"
      "gf_flags (fw_gfd slaved 0) = 1" "gf_flags (fw_gfd slaved 1) = 0" "gf_pipe (fw_gfd slaved 0) = 0"
      "gf_pipe (fw_gfd slaved 1) = 0" "fw_pty slaved 0 = one_pty 0 1" for g
    by (auto simp: slaved_def mastered_def fd_at_set in_cells fresh_simps pty_gfd_def)
  have o: "open_gfd 0 0 ptyed = Some 0" "open_gfd 0 1 ptyed = Some 1"
    by (simp_all add: ptyed_eq open_gfd_def Let_def get_fd_at in_cells c)
  have z: "ring_items ring_zero = []" by (simp add: ring_items_def ring_fill_def ring_zero_def)
  show ?thesis
    using pty_roundtrip [OF ptyed_reach o, of "[104, 105]"] by (simp add: ptyed_eq c one_pty_def z)
qed

section \<open>Readiness\<close>

text \<open>C28: \<open>poll\<close> agrees with the transfers. On a read end \<open>POLLIN\<close> is reported exactly when a
  read of at least one byte returns some bytes or end of file at once, that is, when it does not
  park empty-handed; on a write end \<open>POLLOUT\<close> is reported exactly when a one-byte write completes.\<close>

theorem poll_matches_transfers:
  assumes "freach ev w" and "open_gfd cid fd w = Some g"
  shows "(gf_type (fw_gfd w g) = FD_PIPE_READ \<longrightarrow> 0 < n \<longrightarrow>
        (fd_poll_events ev (kn_cur (fw_k w) cid) fd w AND POLLIN \<noteq> 0 \<longleftrightarrow> fst (do_sys_read ev cid fd n w) \<noteq> RdPark []))
    \<and> (gf_type (fw_gfd w g) = FD_PIPE_WRITE \<longrightarrow>
        (fd_poll_events ev (kn_cur (fw_k w) cid) fd w AND POLLOUT \<noteq> 0 \<longleftrightarrow> fst (do_sys_write ev cid fd [b] 1 w) = WrDone 1))"
proof (intro conjI impI)
  have ok: "fd_ok w" by (rule freach_ok [OF assms(1)])
  have g: "task_get_fd (kn_cur (fw_k w) cid) fd (fw_k w) = g" "0 \<le> g" "gfd_use w g"
    using open_gfdD [OF assms(2)] by (auto simp: get_fd_at)
  let ?p = "gf_pipe (fw_gfd w g)" and ?x = "fw_pipe w (gf_pipe (fw_gfd w g))"
  {
    assume ty: "gf_type (fw_gfd w g) = FD_PIPE_READ" and n: "0 < n"
    note pk = open_read_end [OF ok assms(2) ty]
    then have rgd: "ring_good (pp_ring ?x)" by (simp add: pipe_ok_def)
    obtain bs q where gl: "get_loop ring_get (nat n) (pp_ring ?x) = (bs, q)" by fastforce
    from rg.get_loop_spec [OF rgd gl] n have bs: "bs = [] \<longleftrightarrow> ring_items (pp_ring ?x) = []" by auto
    have "fst (do_sys_read ev cid fd n w) = RdPark [] \<longleftrightarrow> bs = [] \<and> \<not> pp_closed ?x"
      using assms(2) ty gl n by (auto simp: do_sys_read_def is_file_def pipe_read_loop_def Let_def)
    moreover have "fd_poll_events ev (kn_cur (fw_k w) cid) fd w AND POLLIN \<noteq> 0 \<longleftrightarrow> bs \<noteq> [] \<or> pp_closed ?x"
      using g ty bs ring_readable_iff [OF rgd] by (simp add: fd_poll_events_def POLLIN_def POLLHUP_def Let_def)
    ultimately show "fd_poll_events ev (kn_cur (fw_k w) cid) fd w AND POLLIN \<noteq> 0 \<longleftrightarrow> fst (do_sys_read ev cid fd n w) \<noteq> RdPark []"
      by blast
  }
  {
    assume ty: "gf_type (fw_gfd w g) = FD_PIPE_WRITE"
    have "fst (do_sys_write ev cid fd [b] 1 w) = WrDone 1 \<longleftrightarrow> ring_put b (pp_ring ?x) \<noteq> None"
      using assms(2) ty by (auto simp: do_sys_write_def is_file_def pipe_write_loop_def Let_def split: option.splits)
    then show "fd_poll_events ev (kn_cur (fw_k w) cid) fd w AND POLLOUT \<noteq> 0 \<longleftrightarrow> fst (do_sys_write ev cid fd [b] 1 w) = WrDone 1"
      using g ty by (simp add: fd_poll_events_def POLLOUT_def ring_put_def ring_writable_def Let_def)
  }
qed

theorem poll_matches_transfers_witness:
  "fst (do_sys_read env0 0 0 1 piped) = RdPark [] \<and> fst (do_sys_write env0 0 1 [65] 1 piped) = WrDone 1"
  using poll_matches_transfers [OF piped_reach piped_open(1), of 1 65] poll_matches_transfers [OF piped_reach piped_open(2), of 1 65]
  by (simp add: piped_simps fd_poll_events_def get_fd_at in_cells ring_readable_def ring_writable_def POLLIN_def POLLOUT_def
      RING_SIZE_def Let_def)

section \<open>Timeouts\<close>

lemma sint_high: "2 ^ 31 \<le> uint (x :: u32) \<Longrightarrow> sint x < 0"
proof -
  assume h: "2 ^ 31 \<le> uint x"
  have l: "uint x < 2 ^ 32" using uint_lt2p [of x] by simp
  have d: "uint x div 2 ^ 31 = 1"
    by (rule int_div_pos_eq [where r = "uint x - 2 ^ 31"]) (use h l in auto)
  have "bit (uint x) 31" using d by (simp add: bit_iff_odd)
  then show "sint x < 0" by (simp add: sint_uint)
qed

text \<open>The deadline of \<open>poll\<close> and \<open>select\<close> is a signed comparison of wrapped ticks. When the
  tick counter plus the timeout reaches \<open>2^31\<close> (ticks are milliseconds: after 24.8 days of
  uptime) the deadline is negative, which the loop takes for ``no timeout'': with nothing ready a
  call with a finite timeout never returns, however many ticks pass.\<close>

theorem poll_timeout_lost:
  assumes "0 < timeout" and "0 \<le> t" and "length fds \<le> 32" and "2 ^ 31 \<le> uint (start + ms_to_ticks tps (word_of_int timeout))"
    and "\<forall>(now, w) \<in> set ws. fst (poll_scan ev t fds w) = 0"
  shows "do_sys_poll ev tps t fds timeout start ws = None"
proof -
  have "sint (start + ms_to_ticks tps (word_of_int timeout)) < 0"
    using assms(4) by (rule sint_high)
  then have d: "poll_deadline tps start timeout < 0" using assms(1) by (simp add: poll_deadline_def)
  have "poll_passes ev t fds timeout d ws = None" if "d < 0" for d
    using assms(5) that
  proof (induction ws)
    case (Cons x ws)
    obtain now w where x: "x = (now, w)" by fastforce
    obtain revs where s: "poll_scan ev t fds w = (0, revs)" using Cons.prems(1) x by (cases "poll_scan ev t fds w") auto
    then show ?case using Cons x assms(1) by (simp add: poll_round_def deadline_reached_def)
  qed simp
  from this [OF d] show ?thesis using assms(2,3) by (simp add: do_sys_poll_def fd_consts)
qed

theorem poll_timeout_lost_witness:
  "do_sys_poll env0 1000 1 [(0, POLLIN)] 1 0x7FFFFFFF [(0x7FFFFFFF, piped), (0x80000000, piped), (0xFFFFFFFF, piped)] = None"
proof (rule poll_timeout_lost)
  have "fd_poll_events env0 1 0 piped = 0"
    by (simp add: fd_poll_events_def get_fd_at in_cells piped_simps ring_readable_def Let_def)
  then have "fst (poll_scan env0 1 [(0, POLLIN)] piped) = 0"
    by (simp add: poll_scan_def poll_one_def POLLNVAL_def)
  then show "\<forall>(now, w) \<in> set [(0x7FFFFFFF :: u32, piped), (0x80000000, piped), (0xFFFFFFFF, piped)].
      fst (poll_scan env0 1 [(0, POLLIN)] w) = 0" by simp
qed (simp_all add: ms_to_ticks_def)

section \<open>Files\<close>

text \<open>What a file of contents \<open>old\<close> holds after \<open>data\<close> is written at \<open>off\<close>, in \<open>m\<close> bytes: the
  data where it goes, the old bytes elsewhere, zeros where there were none.\<close>

definition spliced :: "u8 list \<Rightarrow> nat \<Rightarrow> u8 list \<Rightarrow> nat \<Rightarrow> u8 list" where
  "spliced old off data m =
     map (\<lambda>i. if off \<le> i \<and> i < off + length data then data ! (i - off) else if i < length old then old ! i else 0) [0..<m]"

lemma nth_fill_zero:
  "a + n \<le> length xs \<Longrightarrow> i < length xs \<Longrightarrow> fill_zero a n xs ! i = (if a \<le> i \<and> i < a + n then 0 else xs ! i)"
  by (auto simp: fill_zero_def nth_blit)

lemma length_fill_zero: "a + n \<le> length xs \<Longrightarrow> length (fill_zero a n xs) = length xs"
  by (simp add: fill_zero_def length_blit)

lemma splice_old_spec:
  assumes "0 \<le> oldsz" and "oldsz \<le> newsz" and "0 \<le> off" and "r \<le> oldsz" and "length bs = nat r" and "length buf0 = nat newsz + 1"
    and "oldsz = 0 \<Longrightarrow> bs = []"
  shows "length (splice_old oldsz newsz off r bs buf0) = length buf0"
    and "i < nat newsz \<Longrightarrow> i < nat oldsz \<or> oldsz = 0 \<and> i < nat off \<Longrightarrow>
      splice_old oldsz newsz off r bs buf0 ! i = (if i < length bs then bs ! i else 0)"
proof -
  let ?r = "if r < 0 then 0 else r"
  have rr: "nat ?r = length bs" "?r \<le> oldsz" "take (nat ?r) bs = bs" using assms by auto
  have lb: "length (blit 0 bs buf0) = length buf0" using assms rr by (simp add: length_blit)
  show "length (splice_old oldsz newsz off r bs buf0) = length buf0"
    using assms rr lb by (auto simp: splice_old_def Let_def length_fill_zero)
  assume i: "i < nat newsz" "i < nat oldsz \<or> oldsz = 0 \<and> i < nat off"
  show "splice_old oldsz newsz off r bs buf0 ! i = (if i < length bs then bs ! i else 0)"
  proof (cases "oldsz > 0")
    case False
    then show ?thesis using assms i by (auto simp: splice_old_def nth_fill_zero)
  next
    case True
    have b: "blit 0 bs buf0 ! i = (if i < length bs then bs ! i else buf0 ! i)"
      using assms rr i by (simp add: nth_blit)
    have eq: "splice_old oldsz newsz off r bs buf0 =
        (if ?r < oldsz then fill_zero (length bs) (nat (oldsz - ?r)) (blit 0 bs buf0) else blit 0 bs buf0)"
      using True rr by (simp add: splice_old_def Let_def)
    have le: "length bs + nat (oldsz - ?r) = nat oldsz" using rr(1,2) by (simp split: if_splits)
    show ?thesis
    proof (cases "?r < oldsz")
      case True
      have "fill_zero (length bs) (nat (oldsz - ?r)) (blit 0 bs buf0) ! i = (if length bs \<le> i \<and> i < nat oldsz then 0 else blit 0 bs buf0 ! i)"
        using nth_fill_zero [of "length bs" "nat (oldsz - ?r)" "blit 0 bs buf0" i] le lb assms i by simp
      then show ?thesis using eq True b i \<open>oldsz > 0\<close> by auto
    next
      case False
      then have "length bs = nat oldsz" using rr(1,2) by (simp split: if_splits)
      then show ?thesis using eq False b i \<open>oldsz > 0\<close> by simp
    qed
  qed
qed

lemma splice_new_spec:
  assumes "0 \<le> oldsz" and "0 \<le> off" and "newsz = max oldsz (off + int (length data))" and "length b = nat newsz + 1"
    and "length old \<le> nat oldsz"
    and "\<And>i. i < nat newsz \<Longrightarrow> i < nat oldsz \<or> oldsz = 0 \<and> i < nat off \<Longrightarrow> b ! i = (if i < length old then old ! i else 0)"
  shows "take (nat newsz) (splice_new oldsz newsz off data b) = spliced old (nat off) data (nat newsz)"
proof -
  define gap where "gap = (if off - oldsz > newsz - oldsz then newsz - oldsz else off - oldsz)"
  define b1 where "b1 = (if off > oldsz then fill_zero (nat oldsz) (nat gap) b else b)"
  have l1: "length b1 = length b" using assms by (simp add: b1_def gap_def length_fill_zero)
  have n1: "b1 ! i = (if i < length old then old ! i else 0)" if "i < nat newsz" "i < nat off \<or> nat off + length data \<le> i" for i
  proof (cases "off > oldsz")
    case True
    have g: "nat oldsz + nat gap = nat off" using True assms(1,3) by (auto simp: gap_def)
    have "b1 ! i = (if nat oldsz \<le> i \<and> i < nat off then 0 else b ! i)"
      using nth_fill_zero [of "nat oldsz" "nat gap" b i] True g that assms(3,4) by (simp add: b1_def)
    moreover have "i < nat off" using that True assms(1,3) by auto
    ultimately show ?thesis using assms(5) assms(6) [OF that(1)] by auto
  next
    case False
    then have "i < nat oldsz" using that assms(1-3) by auto
    then show ?thesis using False assms(6) [OF that(1)] by (simp add: b1_def)
  qed
  have fits: "nat off + length data \<le> length b1" using l1 assms(2-4) by auto
  have eq: "splice_new oldsz newsz off data b = (blit (nat off) data b1)[nat newsz := 0]"
    by (simp add: splice_new_def b1_def gap_def Let_def)
  show ?thesis
  proof (rule nth_equalityI)
    show "length (take (nat newsz) (splice_new oldsz newsz off data b)) = length (spliced old (nat off) data (nat newsz))"
      using l1 assms(4) by (simp add: eq spliced_def length_blit [OF fits])
    fix i assume "i < length (take (nat newsz) (splice_new oldsz newsz off data b))"
    then have i: "i < nat newsz" by simp
    then have "take (nat newsz) (splice_new oldsz newsz off data b) ! i = blit (nat off) data b1 ! i" by (simp add: eq)
    also have "\<dots> = (if nat off \<le> i \<and> i < nat off + length data then data ! (i - nat off) else b1 ! i)"
      using nth_blit [OF fits] i l1 assms(4) by simp
    also have "\<dots> = spliced old (nat off) data (nat newsz) ! i"
      using n1 [OF i] i by (auto simp: spliced_def)
    finally show "take (nat newsz) (splice_new oldsz newsz off data b) ! i = spliced old (nat off) data (nat newsz) ! i" .
  qed
qed

lemma file_rewrite_splices_aux:
  assumes "0 \<le> off" and "off + int (length data) \<le> VFS_FD_MAX_FILE" and "0 \<le> oldsz" and "oldsz \<le> VFS_FD_MAX_FILE"
    and "newsz = max oldsz (off + int (length data))"
    and "ev_alloc ev (nat newsz + 1) (fw_env w) = Some buf0" and "length buf0 = nat newsz + 1"
    and "(if oldsz > 0 then ev_read ev path oldsz (fw_env w) else (0, [], fw_env w)) = (r, bs, e1)"
    and "r \<le> oldsz" and "length bs = nat r"
    and "ev_write ev path (spliced bs (nat off) data (nat newsz)) e1 = (v, e2)"
  shows "file_rewrite ev g path oldsz off data (int (length data)) w =
    (if v \<ge> 0 then (int (length data), upd_gfd g (\<lambda>x. x\<lparr>gf_off := off + int (length data)\<rparr>) (w\<lparr>fw_env := e2\<rparr>))
     else (v, w\<lparr>fw_env := e2\<rparr>))"
proof -
  have z: "oldsz = 0 \<Longrightarrow> bs = []" using assms(8) by simp
  have so: "oldsz \<le> newsz" "length bs \<le> nat oldsz" using assms(3,5,9,10) by simp_all
  note old = splice_old_spec [OF assms(3) so(1) assms(1,9,10,7) z]
  have "take (nat newsz) (splice_new oldsz newsz off data (splice_old oldsz newsz off r bs buf0)) = spliced bs (nat off) data (nat newsz)"
    by (rule splice_new_spec [OF assms(3,1,5) _ so(2)]) (use old assms(7) in auto)
  moreover have "(if (if off + int (length data) < oldsz then oldsz else off + int (length data)) > VFS_FD_MAX_FILE then VFS_FD_MAX_FILE
      else if off + int (length data) < oldsz then oldsz else off + int (length data)) = newsz"
    using assms(2,4,5) by auto
  moreover have "\<not> off > VFS_FD_MAX_FILE" "\<not> int (length data) > VFS_FD_MAX_FILE" "\<not> off + int (length data) > VFS_FD_MAX_FILE" "\<not> off < 0"
    using assms(1,2) by simp_all
  ultimately show ?thesis
    using assms(6,8,11) by (simp add: file_rewrite_def Let_def split del: if_split)
qed

text \<open>C29: A write through a descriptor leaves the spliced contents. Whatever the buffer from
  \<open>kmalloc\<close> held and however short the old contents read, the bytes handed to the file system are
  the old bytes outside the written range, zeros in the hole past the old end, and the caller's
  bytes in the range; the position moves behind them.\<close>

theorem file_rewrite_splices:
  assumes "0 \<le> off" and "off + int (length data) \<le> VFS_FD_MAX_FILE" and "0 \<le> oldsz" and "oldsz \<le> VFS_FD_MAX_FILE"
    and "newsz = max oldsz (off + int (length data))"
    and "ev_alloc ev (nat newsz + 1) (fw_env w) = Some buf0" and "length buf0 = nat newsz + 1"
    and "(if oldsz > 0 then ev_read ev path oldsz (fw_env w) else (0, [], fw_env w)) = (r, bs, e1)"
    and "r \<le> oldsz" and "length bs = nat r"
    and "ev_write ev path (spliced bs (nat off) data (nat newsz)) e1 = (v, e2)"
  shows "file_rewrite ev g path oldsz off data (int (length data)) w =
    (if v \<ge> 0 then (int (length data), upd_gfd g (\<lambda>x. x\<lparr>gf_off := off + int (length data)\<rparr>) (w\<lparr>fw_env := e2\<rparr>))
     else (v, w\<lparr>fw_env := e2\<rparr>))"
  by (rule file_rewrite_splices_aux [OF assms])

theorem file_rewrite_splices_witness:
  "fst (file_rewrite env0 0 ''f'' 2 4 [9, 8] 2 fresh) = 2 \<and> spliced [1, 1] 4 [9, 8] 6 = [1, 1, 0, 0, 9, 8]"
proof
  have "file_rewrite env0 0 ''f'' 2 4 [9, 8] (int (length [9, 8 :: u8])) fresh =
      (if (6 :: int) \<ge> 0 then (int (length [9, 8 :: u8]), upd_gfd 0 (\<lambda>x. x\<lparr>gf_off := 4 + int (length [9, 8 :: u8])\<rparr>) (fresh\<lparr>fw_env := ()\<rparr>))
       else (6, fresh\<lparr>fw_env := ()\<rparr>))"
  proof (rule file_rewrite_splices)
    show "ev_alloc env0 (nat 6 + 1) (fw_env fresh) = Some (replicate 7 7)" by (simp add: env0_def)
    show "(if (2 :: int) > 0 then ev_read env0 ''f'' 2 (fw_env fresh) else (0, [], fw_env fresh)) = (2, [1, 1], ())"
      by (simp add: env0_def numeral_2_eq_2)
    show "ev_write env0 ''f'' (spliced [1, 1] (nat 4) [9, 8] (nat 6)) () = (6, ())"
      by (simp add: env0_def spliced_def)
  qed (simp_all add: VFS_FD_MAX_FILE_def)
  then show "fst (file_rewrite env0 0 ''f'' 2 4 [9, 8] 2 fresh) = 2" by simp
  show "spliced [1, 1] 4 [9, 8] 6 = [1, 1, 0, 0, 9, 8]"
    by (simp add: spliced_def upt_rec)
qed

text \<open>The descriptor write caps the old size at the 8 MB of its buffer and then rewrites the
  whole file from it: writing one byte at the start of a larger file hands the file system
  exactly 8 MB, and everything behind is lost.\<close>

theorem big_file_truncated:
  assumes "open_gfd cid fd w = Some g" and "gf_type (fw_gfd w g) = FD_FILE" and "gf_off (fw_gfd w g) = 0"
    and "gf_flags (fw_gfd w g) AND O_APPEND = 0" and "ev_perm ev (gf_node (fw_gfd w g)) S_IWUSR (fw_env w)"
    and "ev_path ev (gf_node (fw_gfd w g)) (fw_env w) = Some path"
    and "fn_type (ev_node ev (gf_node (fw_gfd w g)) (fw_env w)) \<noteq> FS_RAM_FILE"
    and "fn_size (ev_node ev (gf_node (fw_gfd w g)) (fw_env w)) > VFS_FD_MAX_FILE"
    and "ev_alloc ev (nat VFS_FD_MAX_FILE + 1) (fw_env w) = Some buf0" and "length buf0 = nat VFS_FD_MAX_FILE + 1"
    and "ev_read ev path VFS_FD_MAX_FILE (fw_env w) = (r, bs, e1)" and "r \<le> VFS_FD_MAX_FILE" and "length bs = nat r"
  shows "\<exists>c. length c = nat VFS_FD_MAX_FILE \<and> int (length c) < fn_size (ev_node ev (gf_node (fw_gfd w g)) (fw_env w))
     \<and> fst (do_sys_write ev cid fd [b] 1 w) = WrDone (if fst (ev_write ev path c e1) \<ge> 0 then 1 else fst (ev_write ev path c e1))
     \<and> fw_env (snd (do_sys_write ev cid fd [b] 1 w)) = snd (ev_write ev path c e1)"
proof -
  let ?M = VFS_FD_MAX_FILE
  define c where "c = spliced bs 0 [b] (nat ?M)"
  obtain v e2 where wv: "ev_write ev path c e1 = (v, e2)" by fastforce
  have M: "0 < ?M" by (simp add: VFS_FD_MAX_FILE_def)
  have m1: "max ?M (0 + int (length [b])) = ?M" using M by simp
  have "file_rewrite ev g path ?M 0 [b] (int (length [b])) w =
    (if v \<ge> 0 then (int (length [b]), upd_gfd g (\<lambda>x. x\<lparr>gf_off := 0 + int (length [b])\<rparr>) (w\<lparr>fw_env := e2\<rparr>)) else (v, w\<lparr>fw_env := e2\<rparr>))"
    by (rule file_rewrite_splices_aux) (use assms M m1 wv in \<open>simp_all add: c_def\<close>)
  then have f: "file_write ev g [b] 1 w =
      (if v \<ge> 0 then (1, upd_gfd g (\<lambda>x. x\<lparr>gf_off := 1\<rparr>) (w\<lparr>fw_env := e2\<rparr>)) else (v, w\<lparr>fw_env := e2\<rparr>))"
    using assms M by (simp add: file_write_def Let_def)
  have "do_sys_write ev cid fd [b] 1 w = (let (r, w1) = file_write ev g [b] 1 w in (WrDone r, w1))"
    using assms(1,2) by (simp add: do_sys_write_def is_file_def)
  moreover have "length c = nat ?M" by (simp add: c_def spliced_def)
  ultimately show ?thesis using f wv assms(8) M by (intro exI [of _ c]) (simp add: upd_gfd_def)
qed

definition opened :: "unit fdw" where
  "opened = set_fd 1 0 0 (claim 0 (\<lambda>x. x\<lparr>gf_type := FD_FILE, gf_node := 3\<rparr>) fresh)"

theorem big_file_truncated_witness:
  "\<exists>c :: u8 list. length c = nat VFS_FD_MAX_FILE \<and> int (length c) < fn_size (ev_node env0 3 ()) \<and> fst (do_sys_write env0 0 0 [65] 1 opened) = WrDone 1"
proof -
  have o: "open_gfd 0 0 opened = Some 0"
    by (simp add: opened_def open_gfd_def Let_def get_fd_at in_cells fd_at_set fresh_simps)
  have g: "gf_type (fw_gfd opened 0) = FD_FILE" "gf_off (fw_gfd opened 0) = 0" "gf_flags (fw_gfd opened 0) AND O_APPEND = 0"
    by (simp_all add: opened_def fresh_simps gfd0_def)
  have e: "ev_perm env0 n b u" "ev_path env0 n u = Some ''f''" "fn_type (ev_node env0 n u) \<noteq> FS_RAM_FILE"
      "fn_size (ev_node env0 n u) = 20000000" "ev_alloc env0 m u = Some (replicate m 7)"
      "ev_read env0 p i u = (i, replicate (nat i) 1, u)" "fst (ev_write env0 p c u) = int (length c)" for n b u m p i c
    by (simp_all add: env0_def)
  from big_file_truncated [OF o g e(1) e(2) e(3) _ e(5) _ e(6), of 65]
  obtain c :: "u8 list" where "length c = nat VFS_FD_MAX_FILE" "fst (do_sys_write env0 0 0 [65] 1 opened) = WrDone 1"
    by (auto simp: e VFS_FD_MAX_FILE_def)
  then show ?thesis by (intro exI [of _ c]) (simp add: VFS_FD_MAX_FILE_def e)
qed

end
