(* ===== verification/Sha256.thy ===== *)
theory Sha256
  imports Mectov_Prelude "HOL-Library.Monad_Syntax"
begin

text \<open>
  The hash of \<open>src/sys/sha256.c\<close> and what it computes: however the input is cut into calls of
  \<open>sha256_update\<close>, the digest is that of the padded message, block by block, as FIPS 180-4
  defines it. A loop that may not end is a partial function; its value \<open>None\<close> is
  non-termination.
\<close>

section \<open>State and constants\<close>

record sha256_ctx =
  sh_state :: "u32 list"
  sh_total :: u64
  sh_block :: "u8 list"
  sh_blen :: nat

text \<open>The table of round constants, row by row.\<close>

definition SHA_K :: "u32 list" where
  "SHA_K = concat [
    [0x428a2f98, 0x71374491, 0xb5c0fbcf, 0xe9b5dba5, 0x3956c25b, 0x59f111f1],
    [0x923f82a4, 0xab1c5ed5, 0xd807aa98, 0x12835b01, 0x243185be, 0x550c7dc3],
    [0x72be5d74, 0x80deb1fe, 0x9bdc06a7, 0xc19bf174, 0xe49b69c1, 0xefbe4786],
    [0x0fc19dc6, 0x240ca1cc, 0x2de92c6f, 0x4a7484aa, 0x5cb0a9dc, 0x76f988da],
    [0x983e5152, 0xa831c66d, 0xb00327c8, 0xbf597fc7, 0xc6e00bf3, 0xd5a79147],
    [0x06ca6351, 0x14292967, 0x27b70a85, 0x2e1b2138, 0x4d2c6dfc, 0x53380d13],
    [0x650a7354, 0x766a0abb, 0x81c2c92e, 0x92722c85, 0xa2bfe8a1, 0xa81a664b],
    [0xc24b8b70, 0xc76c51a3, 0xd192e819, 0xd6990624, 0xf40e3585, 0x106aa070],
    [0x19a4c116, 0x1e376c08, 0x2748774c, 0x34b0bcb5, 0x391c0cb3, 0x4ed8aa4a],
    [0x5b9cca4f, 0x682e6ff3, 0x748f82ee, 0x78a5636f, 0x84c87814, 0x8cc70208],
    [0x90befffa, 0xa4506ceb, 0xbef9a3f7, 0xc67178f2]]"

definition SHA_H0 :: "u32 list" where
  "SHA_H0 = [0x6a09e667, 0xbb67ae85, 0x3c6ef372, 0xa54ff53a, 0x510e527f, 0x9b05688c, 0x1f83d9ab, 0x5be0cd19]"

definition rotr :: "u32 \<Rightarrow> nat \<Rightarrow> u32" where
  "rotr x n = drop_bit n x OR push_bit (32 - n) x"

text \<open>The block buffer keeps what it held.\<close>

definition sha256_init :: "sha256_ctx \<Rightarrow> sha256_ctx" where
  "sha256_init c = c\<lparr>sh_state := SHA_H0, sh_total := 0, sh_blen := 0\<rparr>"

section \<open>One block\<close>

definition sha256_word :: "u8 list \<Rightarrow> nat \<Rightarrow> u32" where
  "sha256_word b i = push_bit 24 (ucast (b ! (i * 4))) OR push_bit 16 (ucast (b ! (i * 4 + 1)))
     OR push_bit 8 (ucast (b ! (i * 4 + 2))) OR ucast (b ! (i * 4 + 3))"

definition sha256_extend :: "u32 list \<Rightarrow> nat \<Rightarrow> u32 list" where
  "sha256_extend w i =
     (let s0 = rotr (w ! (i - 15)) 7 XOR rotr (w ! (i - 15)) 18 XOR drop_bit 3 (w ! (i - 15));
          s1 = rotr (w ! (i - 2)) 17 XOR rotr (w ! (i - 2)) 19 XOR drop_bit 10 (w ! (i - 2))
      in w @ [w ! (i - 16) + s0 + w ! (i - 7) + s1])"

definition sha256_schedule :: "u8 list \<Rightarrow> u32 list" where
  "sha256_schedule b = foldl sha256_extend (map (sha256_word b) [0..<16]) [16..<64]"

fun sha256_round :: "u32 list \<Rightarrow> u32 list \<Rightarrow> nat \<Rightarrow> u32 list" where
  "sha256_round w [a, b, cc, d, e, f, g, h] i =
     (let S1 = rotr e 6 XOR rotr e 11 XOR rotr e 25;
          ch = (e AND f) XOR (NOT e AND g);
          t1 = h + S1 + ch + SHA_K ! i + w ! i;
          S0 = rotr a 2 XOR rotr a 13 XOR rotr a 22;
          maj = (a AND b) XOR (a AND cc) XOR (b AND cc);
          t2 = S0 + maj
      in [t1 + t2, a, b, cc, d + t1, e, f, g])"
| "sha256_round w x i = x"

definition sha256_compress :: "u32 list \<Rightarrow> u8 list \<Rightarrow> u32 list" where
  "sha256_compress st b = map2 (+) st (foldl (sha256_round (sha256_schedule b)) st [0..<64])"

section \<open>The calls\<close>

partial_function (option) sha256_absorb :: "sha256_ctx \<Rightarrow> u8 list \<Rightarrow> sha256_ctx option" where
  "sha256_absorb c p =
     (if p = [] then Some c
      else (let tk = min (64 - sh_blen c) (length p);
                c1 = c\<lparr>sh_block := blit (sh_blen c) (take tk p) (sh_block c), sh_blen := sh_blen c + tk\<rparr>;
                c2 = (if sh_blen c1 = 64 then c1\<lparr>sh_state := sha256_compress (sh_state c1) (sh_block c1), sh_blen := 0\<rparr> else c1)
            in sha256_absorb c2 (drop tk p)))"

definition sha256_update :: "sha256_ctx \<Rightarrow> u8 list \<Rightarrow> sha256_ctx option" where
  "sha256_update c p = sha256_absorb (c\<lparr>sh_total := sh_total c + of_nat (length p)\<rparr>) p"

partial_function (option) sha256_pad_zero :: "sha256_ctx \<Rightarrow> sha256_ctx option" where
  "sha256_pad_zero c = (if sh_blen c = 56 then Some c else Option.bind (sha256_update c [0]) sha256_pad_zero)"

definition be_bytes64 :: "u64 \<Rightarrow> u8 list" where
  "be_bytes64 x = map (\<lambda>i. ucast (drop_bit (56 - i * 8) x)) [0..<8]"

definition be_bytes32 :: "u32 \<Rightarrow> u8 list" where
  "be_bytes32 x = [ucast (drop_bit 24 x), ucast (drop_bit 16 x), ucast (drop_bit 8 x), ucast x]"

definition sha256_final :: "sha256_ctx \<Rightarrow> u8 list option" where
  "sha256_final c =
     do { c1 \<leftarrow> sha256_update c [0x80];
          c2 \<leftarrow> sha256_pad_zero c1;
          c3 \<leftarrow> sha256_update c2 (be_bytes64 (sh_total c * 8));
          Some (concat (map be_bytes32 (sh_state c3))) }"

definition sha256_once :: "sha256_ctx \<Rightarrow> u8 list \<Rightarrow> u8 list option" where
  "sha256_once c0 data = Option.bind (sha256_update (sha256_init c0) data) sha256_final"

section \<open>The standard\<close>

text \<open>The first \<open>n\<close> blocks of a message, folded into the initial state; the padding; the digest.\<close>

definition hash_blocks :: "u8 list \<Rightarrow> nat \<Rightarrow> u32 list" where
  "hash_blocks m n = foldl sha256_compress SHA_H0 (map (\<lambda>i. take 64 (drop (64 * i) m)) [0..<n])"

definition sha_padded :: "u8 list \<Rightarrow> u8 list" where
  "sha_padded m = m @ [0x80] @ replicate ((119 - length m mod 64) mod 64) 0 @ be_bytes64 (of_nat (length m) * 8)"

definition sha256_digest :: "u8 list \<Rightarrow> u8 list" where
  "sha256_digest m = concat (map be_bytes32 (hash_blocks (sha_padded m) (length (sha_padded m) div 64)))"

lemma hash_blocks_append: "64 * n \<le> length m \<Longrightarrow> hash_blocks (m @ d) n = hash_blocks m n"
proof -
  assume n: "64 * n \<le> length m"
  have "map (\<lambda>i. take 64 (drop (64 * i) (m @ d))) [0..<n] = map (\<lambda>i. take 64 (drop (64 * i) m)) [0..<n]"
  proof (rule map_cong [OF refl])
    fix i assume "i \<in> set [0..<n]"
    then have "64 * i + 64 \<le> length m" using n by simp
    then show "take 64 (drop (64 * i) (m @ d)) = take 64 (drop (64 * i) m)" by simp
  qed
  then show ?thesis unfolding hash_blocks_def by (rule arg_cong)
qed

lemma hash_blocks_Suc: "hash_blocks m (Suc n) = sha256_compress (hash_blocks m n) (take 64 (drop (64 * n) m))"
  by (simp add: hash_blocks_def)

section \<open>The context holds a message\<close>

definition sha_holds :: "sha256_ctx \<Rightarrow> u8 list \<Rightarrow> bool" where
  "sha_holds c m \<longleftrightarrow> sh_total c = of_nat (length m) \<and> length (sh_block c) = 64 \<and> sh_blen c = length m mod 64
     \<and> take (sh_blen c) (sh_block c) = drop (64 * (length m div 64)) m \<and> sh_state c = hash_blocks m (length m div 64)"

lemma init_holds: "length (sh_block c) = 64 \<Longrightarrow> sha_holds (sha256_init c) []"
  by (simp add: sha_holds_def sha256_init_def hash_blocks_def)

lemma take_blit: "k \<le> length b \<Longrightarrow> take (k + length s) (blit k s b) = take k b @ s"
  by (simp add: blit_def min_def)

lemma absorb_holds:
  assumes "sha_holds (c\<lparr>sh_total := of_nat (length m)\<rparr>) m"
  shows "\<exists>c'. sha256_absorb c p = Some c' \<and> sha_holds (c'\<lparr>sh_total := of_nat (length (m @ p))\<rparr>) (m @ p) \<and> sh_total c' = sh_total c"
  using assms
proof (induction "length p" arbitrary: c m p rule: less_induct)
  case less
  show ?case
  proof (cases "p = []")
    case True
    then show ?thesis using less.prems by (simp add: sha256_absorb.simps)
  next
    case False
    define tk where "tk = min (64 - sh_blen c) (length p)"
    define c1 where "c1 = c\<lparr>sh_block := blit (sh_blen c) (take tk p) (sh_block c), sh_blen := sh_blen c + tk\<rparr>"
    define c2 where "c2 = (if sh_blen c1 = 64 then c1\<lparr>sh_state := sha256_compress (sh_state c1) (sh_block c1), sh_blen := 0\<rparr> else c1)"
    have H: "length (sh_block c) = 64" "sh_blen c = length m mod 64" "take (sh_blen c) (sh_block c) = drop (64 * (length m div 64)) m"
      "sh_state c = hash_blocks m (length m div 64)" using less.prems by (auto simp: sha_holds_def)
    have b: "sh_blen c < 64" by (simp add: H)
    then have tk0: "0 < tk" "tk \<le> length p" "sh_blen c + tk \<le> 64" using False by (auto simp: tk_def)
    have l1: "length (sh_block c1) = 64" using H(1) tk0 by (simp add: c1_def blit_def)
    have t1: "take (sh_blen c1) (sh_block c1) = drop (64 * (length m div 64)) m @ take tk p"
      using take_blit [of "sh_blen c" "sh_block c" "take tk p"] H tk0 b by (simp add: c1_def)
    have dm: "64 * (length m div 64) \<le> length m" and lm: "length m = 64 * (length m div 64) + sh_blen c" by (simp_all add: H(2))
    have "sha_holds (c2\<lparr>sh_total := of_nat (length (m @ take tk p))\<rparr>) (m @ take tk p)"
    proof (cases "sh_blen c + tk = 64")
      case True
      have len: "length (m @ take tk p) = 64 * Suc (length m div 64)" using lm tk0 True by simp
      then have d: "length (m @ take tk p) div 64 = Suc (length m div 64)" and r: "length (m @ take tk p) mod 64 = 0" by simp_all
      have blk: "sh_block c1 = take 64 (drop (64 * (length m div 64)) (m @ take tk p))"
      proof -
        have "sh_block c1 = drop (64 * (length m div 64)) m @ take tk p" using t1 l1 True by (simp add: c1_def)
        moreover from this have "length (drop (64 * (length m div 64)) m @ take tk p) = 64" using l1 by simp
        moreover have "drop (64 * (length m div 64)) (m @ take tk p) = drop (64 * (length m div 64)) m @ take tk p" using dm by simp
        ultimately show ?thesis by (metis take_all order_refl)
      qed
      have st: "hash_blocks (m @ take tk p) (Suc (length m div 64)) = sha256_compress (sh_state c) (sh_block c1)"
        unfolding hash_blocks_Suc hash_blocks_append [OF dm] blk H(4) ..
      have e2: "c2 = c1\<lparr>sh_state := sha256_compress (sh_state c1) (sh_block c1), sh_blen := 0\<rparr>" using True by (simp add: c2_def c1_def)
      have s1: "sh_state c1 = sh_state c" by (simp add: c1_def)
      show ?thesis unfolding sha_holds_def d r st e2 using l1 len s1 by simp
    next
      case False
      then have lt: "sh_blen c + tk < 64" using tk0 by simp
      have len: "length (m @ take tk p) = 64 * (length m div 64) + (sh_blen c + tk)" using lm tk0 by simp
      have d: "length (m @ take tk p) div 64 = length m div 64" and r: "length (m @ take tk p) mod 64 = sh_blen c + tk"
        unfolding len using lt by simp_all
      have e2: "c2 = c1" "sh_blen c1 = sh_blen c + tk" "sh_state c1 = sh_state c" using False by (simp_all add: c2_def c1_def)
      show ?thesis unfolding sha_holds_def d r e2(1) hash_blocks_append [OF dm] using t1 l1 H(4) dm e2 by simp
    qed
    moreover have "length (drop tk p) < length p" using tk0 by simp
    ultimately obtain c' where c': "sha256_absorb c2 (drop tk p) = Some c'"
      "sha_holds (c'\<lparr>sh_total := of_nat (length ((m @ take tk p) @ drop tk p))\<rparr>) ((m @ take tk p) @ drop tk p)" "sh_total c' = sh_total c2"
      using less.hyps by blast
    have "sha256_absorb c p = sha256_absorb c2 (drop tk p)"
      using False by (subst sha256_absorb.simps) (simp add: Let_def tk_def c1_def c2_def)
    moreover have "sh_total c2 = sh_total c" by (simp add: c2_def c1_def)
    ultimately show ?thesis using c' by simp
  qed
qed

lemma update_holds:
  assumes "sha_holds c m"
  shows "\<exists>c'. sha256_update c p = Some c' \<and> sha_holds c' (m @ p)"
proof -
  have t: "sh_total c = of_nat (length m)" using assms by (simp add: sha_holds_def)
  have "sha_holds ((c\<lparr>sh_total := sh_total c + of_nat (length p)\<rparr>)\<lparr>sh_total := of_nat (length m)\<rparr>) m"
    using assms by (auto simp: sha_holds_def)
  from absorb_holds [OF this, of p] obtain c' where c': "sha256_update c p = Some c'"
    "sha_holds (c'\<lparr>sh_total := of_nat (length (m @ p))\<rparr>) (m @ p)" "sh_total c' = sh_total c + of_nat (length p)"
    by (auto simp: sha256_update_def)
  have "c'\<lparr>sh_total := of_nat (length (m @ p))\<rparr> = c'" using c'(3) t by simp
  then show ?thesis using c' by metis
qed

text \<open>The number of zeros that fill a block up to byte 56.\<close>

lemma pad_count: "r < 64 \<Longrightarrow> (120 - r) mod 64 = (if r \<le> 56 then 56 - r else 120 - r)" for r :: nat
proof -
  assume r: "r < 64"
  have "120 - r = 64 + (56 - r)" if "r \<le> 56" using that by simp
  then have "(120 - r) mod 64 = (56 - r) mod 64" if "r \<le> 56" using that by (metis mod_add_self1)
  then show ?thesis using r by simp
qed

lemma pad_count_Suc: "r < 64 \<Longrightarrow> (120 - Suc r mod 64) mod 64 = (if r = 56 then 63 else (120 - r) mod 64 - 1)" for r :: nat
proof (cases "r = 63")
  case False
  assume "r < 64"
  then show ?thesis using False pad_count [of "Suc r"] pad_count [of r] by simp
qed (simp add: pad_count)

lemma pad_count_119: "r < 64 \<Longrightarrow> (120 - Suc r mod 64) mod 64 = (119 - r) mod 64" for r :: nat
  by (cases "r = 63") auto

lemma pad_zero_holds:
  assumes "sha_holds c m"
  shows "\<exists>c'. sha256_pad_zero c = Some c' \<and> sha_holds c' (m @ replicate ((120 - length m mod 64) mod 64) 0)"
  using assms
proof (induction "(120 - length m mod 64) mod 64" arbitrary: c m)
  case 0
  have "length m mod 64 < 64" by simp
  then have "length m mod 64 = 56" using 0(1) by (simp add: pad_count split: if_splits)
  then have "sh_blen c = 56" using 0(2) by (simp add: sha_holds_def)
  then show ?case using 0 by (simp add: sha256_pad_zero.simps)
next
  case (Suc n)
  have n56: "length m mod 64 \<noteq> 56"
  proof
    assume "length m mod 64 = 56"
    then show False using Suc.hyps(2) by simp
  qed
  have l: "length (m @ [0 :: u8]) mod 64 = Suc (length m mod 64) mod 64" by (simp add: mod_Suc_eq)
  have z: "(120 - length (m @ [0 :: u8]) mod 64) mod 64 = n"
    unfolding l using pad_count_Suc [of "length m mod 64"] n56 unfolding Suc.hyps(2) [symmetric] by simp
  have b: "sh_blen c \<noteq> 56" using n56 Suc.prems by (simp add: sha_holds_def)
  obtain c1 where c1: "sha256_update c [0] = Some c1" "sha_holds c1 (m @ [0])" using update_holds [OF Suc.prems] by blast
  obtain c' where c': "sha256_pad_zero c1 = Some c'" "sha_holds c' ((m @ [0]) @ replicate n 0)"
    using Suc.hyps(1) [OF z [symmetric] c1(2)] z by metis
  have "m @ replicate ((120 - length m mod 64) mod 64) 0 = (m @ [0]) @ replicate n (0 :: u8)"
    using Suc.hyps(2) [symmetric] by simp
  then show ?case using c' c1 b by (simp add: sha256_pad_zero.simps [of c])
qed

lemma final_holds:
  assumes "sha_holds c m"
  shows "sha256_final c = Some (sha256_digest m)"
proof -
  obtain c1 where c1: "sha256_update c [0x80] = Some c1" "sha_holds c1 (m @ [0x80])" using update_holds [OF assms] by blast
  have z: "(120 - length (m @ [0x80 :: u8]) mod 64) mod 64 = (119 - length m mod 64) mod 64"
    using pad_count_119 [of "length m mod 64"] by (simp add: mod_Suc_eq)
  obtain c2 where c2: "sha256_pad_zero c1 = Some c2" "sha_holds c2 ((m @ [0x80]) @ replicate ((119 - length m mod 64) mod 64) 0)"
    using pad_zero_holds [OF c1(2)] unfolding z by blast
  have t: "sh_total c = of_nat (length m)" using assms by (simp add: sha_holds_def)
  obtain c3 where c3: "sha256_update c2 (be_bytes64 (sh_total c * 8)) = Some c3" "sha_holds c3 (sha_padded m)"
    using update_holds [OF c2(2), of "be_bytes64 (sh_total c * 8)"] by (auto simp: sha_padded_def t)
  have "sh_state c3 = hash_blocks (sha_padded m) (length (sha_padded m) div 64)" using c3(2) by (simp add: sha_holds_def)
  then show ?thesis using c1 c2 c3 by (simp add: sha256_final_def sha256_digest_def)
qed

section \<open>The digest\<close>

text \<open>The padded message is a whole number of blocks.\<close>

lemma padded_blocks: "64 dvd length (sha_padded m)"
proof -
  have "length (sha_padded m) = length m + 1 + (119 - length m mod 64) mod 64 + 8" by (simp add: sha_padded_def be_bytes64_def)
  moreover have "64 dvd n + 1 + (119 - n mod 64) mod 64 + 8" for n :: nat
  proof -
    define r where "r = n mod 64"
    have r: "r < 64" by (simp add: r_def)
    have "\<exists>q. r + 1 + (119 - r) mod 64 + 8 = 64 * q"
    proof (cases "r \<le> 55")
      case True
      then have "119 - r = 64 + (55 - r)" by simp
      then have "(119 - r) mod 64 = (55 - r) mod 64" by (metis mod_add_self1)
      then have "(119 - r) mod 64 = 55 - r" by simp
      then show ?thesis using True by (intro exI [of _ 1]) simp
    next
      case False
      then show ?thesis using r by (intro exI [of _ 2]) simp
    qed
    then obtain q where "r + 1 + (119 - r) mod 64 + 8 = 64 * q" ..
    moreover have "n + 1 + (119 - n mod 64) mod 64 + 8 = 64 * (n div 64) + (r + 1 + (119 - r) mod 64 + 8)" by (simp add: r_def)
    ultimately have "n + 1 + (119 - n mod 64) mod 64 + 8 = 64 * (n div 64 + q)" by simp
    then show ?thesis by (rule dvdI)
  qed
  ultimately show ?thesis by simp
qed


lemma once_digest: "length (sh_block c0) = 64 \<Longrightarrow> sha256_once c0 data = Some (sha256_digest data)"
  using update_holds [OF init_holds, of c0 data] by (force simp: sha256_once_def final_holds)

end
