(* ===== verification/Entropy.thy ===== *)
theory Entropy
  imports Mectov_Prelude
begin

text \<open>
  The random generator of \<open>src/sys/entropy.c\<close>: a pool of eight words that events are mixed
  into, and a ChaCha generator keyed from it. A reading of the time stamp counter is an
  argument. Every section under \<open>ent_lock\<close> is a step of its own; a request takes them one after
  another without events in between.
\<close>

section \<open>State\<close>

definition CHACHA_DOUBLE_ROUNDS :: nat where
  "CHACHA_DOUBLE_ROUNDS = 8"

definition POOL_WORDS :: nat where
  "POOL_WORDS = 8"

record entropy =
  en_pool :: "u32 list"
  en_mixed :: u32
  en_added :: u32
  en_key :: "u32 list"
  en_ctr :: "u32 list"
  en_seeded :: bool

section \<open>The ChaCha block\<close>

definition rotl32 :: "u32 \<Rightarrow> nat \<Rightarrow> u32" where
  "rotl32 x n = push_bit n x OR drop_bit (32 - n) x"

definition chacha_qr :: "nat \<Rightarrow> nat \<Rightarrow> nat \<Rightarrow> nat \<Rightarrow> u32 list \<Rightarrow> u32 list" where
  "chacha_qr a b c d w =
     (let a1 = w ! a + w ! b; d1 = rotl32 (w ! d XOR a1) 16;
          c1 = w ! c + d1; b1 = rotl32 (w ! b XOR c1) 12;
          a2 = a1 + b1; d2 = rotl32 (d1 XOR a2) 8;
          c2 = c1 + d2; b2 = rotl32 (b1 XOR c2) 7
      in w[a := a2, b := b2, c := c2, d := d2])"

definition chacha_double :: "u32 list \<Rightarrow> u32 list" where
  "chacha_double w =
     (chacha_qr 3 4 9 14 \<circ> chacha_qr 2 7 8 13 \<circ> chacha_qr 1 6 11 12 \<circ> chacha_qr 0 5 10 15
      \<circ> chacha_qr 3 7 11 15 \<circ> chacha_qr 2 6 10 14 \<circ> chacha_qr 1 5 9 13 \<circ> chacha_qr 0 4 8 12) w"

definition chacha_block :: "u32 list \<Rightarrow> u32 list \<Rightarrow> u32 list" where
  "chacha_block key ctr =
     (let x = [0x61707865, 0x3320646e, 0x79622d32, 0x6b206574] @ key @ ctr
      in map2 (+) ((chacha_double ^^ CHACHA_DOUBLE_ROUNDS) x) x)"

text \<open>The 128-bit counter, low word first.\<close>

fun ctr_next :: "u32 list \<Rightarrow> u32 list" where
  "ctr_next [] = []"
| "ctr_next (x # xs) = (x + 1) # (if x + 1 = 0 then ctr_next xs else xs)"

section \<open>The pool\<close>

definition entropy_reseed :: "entropy \<Rightarrow> entropy" where
  "entropy_reseed s =
     (let b = chacha_block (en_pool s) (en_ctr s); k = take 8 b
      in s\<lparr>en_key := k[0 := k ! 0 XOR b ! 8, 7 := k ! 7 XOR b ! 15], en_ctr := ctr_next (en_ctr s), en_mixed := 0, en_seeded := True\<rparr>)"

text \<open>\<open>va\<close> is the address of the lock variable.\<close>

definition entropy_init :: "u32 \<times> u32 \<times> u32 \<times> u32 \<times> u32 \<Rightarrow> u32 \<Rightarrow> entropy \<Rightarrow> entropy" where
  "entropy_init tsc va s =
     (case tsc of (t0, t1, t2, t3, t4) \<Rightarrow>
        if en_seeded s then s
        else entropy_reseed (s\<lparr>en_pool := [t0, t1 XOR 0x9E3779B9, t2 XOR en_added s, va, t3, 0x6A09E667, 0xBB67AE85, 0x3C6EF372],
                       en_ctr := [t4, 0, 0, 0]\<rparr>))"

definition entropy_add :: "u32 \<Rightarrow> u32 \<Rightarrow> entropy \<Rightarrow> entropy" where
  "entropy_add tsc counter s =
     (let i = unat (en_added s AND 7);
          p = (en_pool s)[i := en_pool s ! i XOR (tsc XOR (counter + 0x9E3779B9 + push_bit 15 (en_added s)))];
          s1 = s\<lparr>en_pool := tl p @ [hd p], en_added := en_added s + 1, en_mixed := en_mixed s + 1\<rparr>
      in if en_mixed s1 AND 7 = 0 then entropy_reseed s1 else s1)"

section \<open>Requests\<close>

fun generate_words :: "nat \<Rightarrow> entropy \<Rightarrow> u32 list \<times> entropy" where
  "generate_words n s =
     (if n = 0 then ([], s)
      else (let b = chacha_block (en_key s) (en_ctr s);
                (ws, s1) = generate_words (n - min 16 n)
                  (s\<lparr>en_ctr := ctr_next (en_ctr s), en_key := (en_key s)[0 := en_key s ! 0 XOR b ! 0]\<rparr>)
            in (take (min 16 n) b @ ws, s1)))"

declare generate_words.simps [simp del]

definition entropy_generate :: "nat \<Rightarrow> entropy \<Rightarrow> u32 list \<times> entropy" where
  "entropy_generate n s = (if en_seeded s then generate_words n s else ([], s))"

definition le_byte :: "u32 list \<Rightarrow> nat \<Rightarrow> u8" where
  "le_byte ws i = ucast (drop_bit (8 * (i mod 4)) (ws ! (i div 4)))"

text \<open>\<open>None\<close> stands for -1.\<close>

fun get_random_bytes :: "nat \<Rightarrow> entropy \<Rightarrow> u8 list option \<times> entropy" where
  "get_random_bytes n s =
     (if n = 0 then (Some [], s)
      else (let chunk = min n 64; (ws, s1) = entropy_generate ((chunk + 3) div 4) s
            in if \<not> en_seeded s1 then (None, s1)
               else (case get_random_bytes (n - chunk) s1 of
                       (None, s2) \<Rightarrow> (None, s2)
                     | (Some bs, s2) \<Rightarrow> (Some (map (le_byte ws) [0..<chunk] @ bs), s2))))"

declare get_random_bytes.simps [simp del]

text \<open>The retries of the code see the same pool; a caller that is still too early gets a mix of
  the clock that is never 0.\<close>

definition get_random_u32 :: "u32 \<Rightarrow> entropy \<Rightarrow> u32 \<times> entropy" where
  "get_random_u32 tsc s =
     (case get_random_bytes 4 s of
        (Some bs, s1) \<Rightarrow> (word_of_nat (foldr (\<lambda>b n. unat b + 256 * n) bs 0), s1)
      | (None, s1) \<Rightarrow>
          (let w = tsc XOR drop_bit 13 tsc XOR en_added s XOR 0x9E3779B9 in (if w \<noteq> 0 then w else 0xA5A5A5A5, s1)))"

section \<open>What a request returns\<close>

text \<open>The counter as a number.\<close>

definition ctr_value :: "u32 list \<Rightarrow> nat" where
  "ctr_value xs = foldr (\<lambda>x n. unat x + 2 ^ 32 * n) xs 0"

lemma ctr_value_simps [simp]: "ctr_value [] = 0" "ctr_value (x # xs) = unat x + 2 ^ 32 * ctr_value xs"
  by (simp_all add: ctr_value_def)

lemma length_ctr_next [simp]: "length (ctr_next xs) = length xs"
  by (induction xs) auto

lemma ctr_value_bound: "ctr_value xs < 2 ^ (32 * length xs)"
proof (induction xs)
  case (Cons x xs)
  have "unat x < 2 ^ 32" using unsigned_less [of x] by simp
  moreover have "Suc (ctr_value xs) * 2 ^ 32 \<le> 2 ^ (32 * length xs) * 2 ^ 32" using Cons by simp
  ultimately have "unat x + 2 ^ 32 * ctr_value xs < 2 ^ (32 * length xs) * 2 ^ 32" by (simp add: algebra_simps)
  then show ?case by (simp add: power_add mult.commute)
qed simp

text \<open>The carries of the code count modulo the size of the counter.\<close>

lemma ctr_next_value: "ctr_value (ctr_next xs) = Suc (ctr_value xs) mod 2 ^ (32 * length xs)"
proof (induction xs)
  case (Cons x xs)
  have p: "(2 :: nat) ^ (32 * length (x # xs)) = 2 ^ 32 * 2 ^ (32 * length xs)" by (simp add: power_add)
  show ?case
  proof (cases "x + 1 = 0")
    case True
    then have "x = -1" by (simp add: eq_neg_iff_add_eq_0)
    then have x: "unat x = 2 ^ 32 - 1" by (simp add: unsigned_minus_1_eq_mask mask_eq_exp_minus_1)
    have "ctr_value (ctr_next (x # xs)) = 2 ^ 32 * (Suc (ctr_value xs) mod 2 ^ (32 * length xs))" using True Cons by simp
    also have "\<dots> = (2 ^ 32 * Suc (ctr_value xs)) mod (2 ^ 32 * 2 ^ (32 * length xs))" by (rule mult_mod_right)
    also have "2 ^ 32 * Suc (ctr_value xs) = Suc (ctr_value (x # xs))" by (simp add: x)
    finally show ?thesis unfolding p .
  next
    case False
    then have x: "unat (x + 1) = Suc (unat x)" using unatSuc [of x] by (simp add: add.commute)
    have "Suc (ctr_value (x # xs)) < 2 ^ (32 * length (x # xs))"
      using ctr_value_bound [of "(x + 1) # xs"] x by simp
    then show ?thesis using False x by simp
  qed
qed simp

lemma length_qr [simp]: "length (chacha_qr a b c d w) = length w"
  by (simp add: chacha_qr_def Let_def)

lemma length_double [simp]: "length (chacha_double w) = length w"
  by (simp add: chacha_double_def)

lemma length_doubles [simp]: "length ((chacha_double ^^ n) w) = length w"
  by (induction n) simp_all

lemma length_chacha [simp]: "length (chacha_block k c) = 4 + length k + length c"
  by (simp add: chacha_block_def Let_def)

definition entropy_ok :: "entropy \<Rightarrow> bool" where
  "entropy_ok s \<longleftrightarrow> length (en_pool s) = 8 \<and> length (en_key s) = 8 \<and> length (en_ctr s) = 4"

lemma init_entropy_ok: "length (en_key s) = 8 \<Longrightarrow> \<not> en_seeded s \<Longrightarrow> entropy_ok (entropy_init tsc va s) \<and> en_seeded (entropy_init tsc va s)"
  by (auto simp: entropy_init_def entropy_reseed_def entropy_ok_def Let_def split: prod.split)

lemma add_entropy_ok: "entropy_ok s \<Longrightarrow> entropy_ok (entropy_add tsc c s)"
  by (auto simp: entropy_add_def entropy_reseed_def entropy_ok_def Let_def)

lemma generate_words_spec:
  assumes "entropy_ok s"
  shows "length (fst (generate_words n s)) = n \<and> entropy_ok (snd (generate_words n s)) \<and> en_seeded (snd (generate_words n s)) = en_seeded s
    \<and> ctr_value (en_ctr (snd (generate_words n s))) = (ctr_value (en_ctr s) + (n + 15) div 16) mod 2 ^ 128"
  using assms
proof (induction n s rule: generate_words.induct)
  case (1 n s)
  show ?case
  proof (cases "n = 0")
    case True
    then show ?thesis using 1(2) ctr_value_bound [of "en_ctr s"] by (simp add: generate_words.simps entropy_ok_def)
  next
    case False
    define b where "b = chacha_block (en_key s) (en_ctr s)"
    define s1 where "s1 = s\<lparr>en_ctr := ctr_next (en_ctr s), en_key := (en_key s)[0 := en_key s ! 0 XOR b ! 0]\<rparr>"
    have ok: "entropy_ok s1" using 1(2) by (simp add: entropy_ok_def s1_def)
    have l: "length b = 16" "length (en_ctr s) = 4" using 1(2) by (simp_all add: b_def entropy_ok_def)
    note IH = 1(1) [OF False b_def, folded s1_def, OF ok]
    have e: "generate_words n s = (take (min 16 n) b @ fst (generate_words (n - min 16 n) s1), snd (generate_words (n - min 16 n) s1))"
      using False by (subst generate_words.simps) (simp add: Let_def case_prod_beta b_def s1_def)
    have c: "ctr_value (en_ctr s1) = Suc (ctr_value (en_ctr s)) mod 2 ^ 128" using l by (simp add: s1_def ctr_next_value)
    have "Suc ((n - min 16 n + 15) div 16) = (n + 15) div 16" using False by (cases "n \<le> 16") (simp_all add: min_def)
    then show ?thesis using IH l unfolding e c by (simp add: s1_def mod_simps) (metis add_Suc_right add_Suc)
  qed
qed

lemma length_random: "fst (get_random_bytes n s) = Some bs \<Longrightarrow> length bs = n"
proof (induction n s arbitrary: bs rule: get_random_bytes.induct)
  case (1 n s)
  show ?case
  proof (cases "n = 0")
    case False
    obtain ws s1 where g: "entropy_generate ((min n 64 + 3) div 4) s = (ws, s1)" by fastforce
    have e: "fst (get_random_bytes n s) = (if \<not> en_seeded s1 then None
        else map_option (\<lambda>bs. map (le_byte ws) [0..<min n 64] @ bs) (fst (get_random_bytes (n - min n 64) s1)))"
      using False g by (subst get_random_bytes.simps) (simp add: Let_def split: prod.splits option.splits)
    then obtain cs where "en_seeded s1" "fst (get_random_bytes (n - min n 64) s1) = Some cs" "bs = map (le_byte ws) [0..<min n 64] @ cs"
      using 1(2) unfolding e by (auto split: if_splits)
    with 1(1) [OF False refl g [symmetric] refl] have "length cs = n - min n 64" by simp
    then show ?thesis using \<open>bs = _\<close> by simp
  qed (use 1 in \<open>simp add: get_random_bytes.simps\<close>)
qed

lemma random_bytes_spec:
  assumes "entropy_ok s" and "n = 0 \<or> en_seeded s"
  shows "\<exists>bs. fst (get_random_bytes n s) = Some bs \<and> length bs = n \<and> entropy_ok (snd (get_random_bytes n s))
      \<and> ctr_value (en_ctr (snd (get_random_bytes n s))) = (ctr_value (en_ctr s) + (n + 63) div 64) mod 2 ^ 128"
    using assms
  proof (induction n s rule: get_random_bytes.induct)
    case (1 n s)
    show ?case
    proof (cases "n = 0")
      case True
      then show ?thesis using 1(2) ctr_value_bound [of "en_ctr s"] by (simp add: get_random_bytes.simps entropy_ok_def)
    next
      case False
      define m where "m = min n 64"
      obtain ws s1 where g: "entropy_generate ((m + 3) div 4) s = (ws, s1)" by fastforce
      have sd: "en_seeded s" using 1(3) False by simp
      have G: "entropy_ok s1" "en_seeded s1" "ctr_value (en_ctr s1) = (ctr_value (en_ctr s) + ((m + 3) div 4 + 15) div 16) mod 2 ^ 128"
        using generate_words_spec [OF 1(2), of "(m + 3) div 4"] g sd by (simp_all add: entropy_generate_def)
      have one: "((m + 3) div 4 + 15) div 16 = 1"
      proof -
        have "0 < m" "m \<le> 64" using False by (simp_all add: m_def)
        then have "1 \<le> (m + 3) div 4" "(m + 3) div 4 \<le> 16" by linarith+
        then show ?thesis by linarith
      qed
      obtain bs where bs: "fst (get_random_bytes (n - m) s1) = Some bs" "length bs = n - m"
        "entropy_ok (snd (get_random_bytes (n - m) s1))"
        "ctr_value (en_ctr (snd (get_random_bytes (n - m) s1))) = (ctr_value (en_ctr s1) + (n - m + 63) div 64) mod 2 ^ 128"
        using 1(1) [OF False m_def g [symmetric, folded m_def] refl] G by auto
      have e: "get_random_bytes n s = (Some (map (le_byte ws) [0..<m] @ bs), snd (get_random_bytes (n - m) s1))"
        using False g G bs(1) by (subst get_random_bytes.simps) (cases "get_random_bytes (n - m) s1", simp add: Let_def m_def [symmetric])
      have "Suc ((n - m + 63) div 64) = (n + 63) div 64" using False by (cases "n \<le> 64") (simp_all add: m_def min_def)
      then show ?thesis using bs G unfolding e one by (simp add: m_def mod_simps) (metis add_Suc_right add_Suc)
    qed
  qed

text \<open>A seeded generator fills every request, block by block with a fresh value of the 128-bit
  counter for each; an unseeded one refuses.\<close>
theorem random_bytes_fresh:
  assumes "entropy_ok s"
  shows "if n = 0 \<or> en_seeded s
    then \<exists>bs. fst (get_random_bytes n s) = Some bs \<and> length bs = n
         \<and> ctr_value (en_ctr (snd (get_random_bytes n s))) = (ctr_value (en_ctr s) + (n + 63) div 64) mod 2 ^ 128
    else get_random_bytes n s = (None, s)"
proof -
  show ?thesis
  proof (cases "n = 0 \<or> en_seeded s")
    case True
    then show ?thesis using random_bytes_spec [OF assms True] by auto
  next
    case False
    then show ?thesis by (simp add: get_random_bytes.simps entropy_generate_def Let_def)
  qed
qed

theorem random_bytes_fresh_witness:
  "\<exists>bs. fst (get_random_bytes 100 (entropy_init (1, 2, 3, 4, 5) 6
       \<lparr>en_pool = [], en_mixed = 0, en_added = 0, en_key = replicate 8 0, en_ctr = [], en_seeded = False\<rparr>)) = Some bs \<and> length bs = 100"
proof -
  let ?s = "entropy_init (1, 2, 3, 4, 5) 6
    \<lparr>en_pool = [], en_mixed = 0, en_added = 0, en_key = replicate 8 0, en_ctr = [], en_seeded = False\<rparr>"
  have "entropy_ok ?s" "en_seeded ?s" using init_entropy_ok by simp_all
  then show ?thesis using random_bytes_fresh [of ?s 100] by auto
qed

end
