(* ===== verification/Pcache.thy ===== *)
theory Pcache
  imports Mectov_Prelude
begin

text \<open>
  The whole-file cache of \<open>src/sys/pcache.c\<close>: a table of \<open>PCACHE_ENTRIES\<close> file copies keyed by
  node, replaced by age. Every call holds \<open>pcache_lock\<close> from start to end and is one step. A
  heap buffer is the bytes it holds; \<open>kmalloc\<close> enters as the predicate \<open>mem\<close> on the size, the
  clock as the tick \<open>now\<close>.
\<close>

section \<open>State\<close>

definition PCACHE_MAX_FILE :: int where
  "PCACHE_MAX_FILE = 131072"

definition PCACHE_ENTRIES :: nat where
  "PCACHE_ENTRIES = 24"

record pcache_entry =
  pc_use :: bool
  pc_node :: int
  pc_size :: int
  pc_tick :: u32
  pc_data :: "nat \<Rightarrow> u8"

type_synonym pcache = "nat \<Rightarrow> pcache_entry"

definition no_entry :: pcache_entry where
  "no_entry = \<lparr>pc_use = False, pc_node = -1, pc_size = 0, pc_tick = 0, pc_data = (\<lambda>_. 0)\<rparr>"

definition pcache_init :: pcache where
  "pcache_init = (\<lambda>_. no_entry\<lparr>pc_node := 0\<rparr>)"

section \<open>Operations\<close>

text \<open>The copied bytes, \<open>None\<close> for -1; the hit refreshes the entry's age.\<close>

definition pcache_read :: "u32 \<Rightarrow> int \<Rightarrow> int \<Rightarrow> int \<Rightarrow> int \<Rightarrow> pcache \<Rightarrow> u8 list option \<times> pcache" where
  "pcache_read now node sz off len c =
     (if node < 0 \<or> sz \<le> 0 \<or> sz > PCACHE_MAX_FILE \<or> off < 0 \<or> len \<le> 0 then (None, c)
      else (case first_idx (\<lambda>i. pc_use (c i) \<and> pc_node (c i) = node \<and> pc_size (c i) = sz) 0 PCACHE_ENTRIES of
              None \<Rightarrow> (None, c)
            | Some i \<Rightarrow>
                if off \<ge> pc_size (c i) then (None, c)
                else (let n = (if pc_size (c i) - off > len then len else pc_size (c i) - off)
                      in (Some (map (\<lambda>k. pc_data (c i) (nat off + k)) [0..<nat n]), c(i := (c i)\<lparr>pc_tick := now\<rparr>)))))"

definition pcache_drop_slot :: "nat \<Rightarrow> pcache \<Rightarrow> pcache" where
  "pcache_drop_slot i c = c(i := (c i)\<lparr>pc_use := False, pc_node := -1, pc_size := 0, pc_data := (\<lambda>_. 0)\<rparr>)"

text \<open>The slot of the oldest entry.\<close>

definition pcache_oldest :: "pcache \<Rightarrow> nat" where
  "pcache_oldest c =
     snd (for_upto PCACHE_ENTRIES (\<lambda>i (oldest, best). if pc_tick (c i) < oldest then (pc_tick (c i), i) else (oldest, best)) (0xFFFFFFFF, 0))"

definition pcache_slot :: "int \<Rightarrow> pcache \<Rightarrow> nat" where
  "pcache_slot node c =
     (case first_idx (\<lambda>i. pc_use (c i) \<and> pc_node (c i) = node) 0 PCACHE_ENTRIES of
        Some i \<Rightarrow> i
      | None \<Rightarrow> (case first_idx (\<lambda>i. \<not> pc_use (c i)) 0 PCACHE_ENTRIES of
          Some i \<Rightarrow> i
        | None \<Rightarrow> pcache_oldest c))"

definition pcache_insert :: "(nat \<Rightarrow> bool) \<Rightarrow> u32 \<Rightarrow> int \<Rightarrow> (nat \<Rightarrow> u8) \<Rightarrow> int \<Rightarrow> pcache \<Rightarrow> pcache" where
  "pcache_insert mem now node data sz c =
     (if node < 0 \<or> sz < 0 then c
      else (let i = pcache_slot node c; c1 = pcache_drop_slot i c
            in if sz = 0 \<or> sz > PCACHE_MAX_FILE \<or> \<not> mem (nat sz) then c1
               else c1(i := \<lparr>pc_use = True, pc_node = node, pc_size = sz, pc_tick = now, pc_data = data\<rparr>)))"

definition pcache_invalidate :: "int \<Rightarrow> pcache \<Rightarrow> pcache" where
  "pcache_invalidate node c =
     (if node < 0 then c
      else (case first_idx (\<lambda>i. pc_use (c i) \<and> pc_node (c i) = node) 0 PCACHE_ENTRIES of
              None \<Rightarrow> c
            | Some i \<Rightarrow> pcache_drop_slot i c))"

definition pcache_invalidate_all :: "pcache \<Rightarrow> pcache" where
  "pcache_invalidate_all c = for_upto PCACHE_ENTRIES pcache_drop_slot c"

section \<open>One entry per node\<close>

definition pcache_ok :: "pcache \<Rightarrow> bool" where
  "pcache_ok c \<longleftrightarrow>
     (\<forall>i j. i < PCACHE_ENTRIES \<and> j < PCACHE_ENTRIES \<and> pc_use (c i) \<and> pc_use (c j) \<and> pc_node (c i) = pc_node (c j) \<longrightarrow> i = j)
     \<and> (\<forall>i < PCACHE_ENTRIES. pc_use (c i) \<longrightarrow> 0 \<le> pc_node (c i) \<and> 0 < pc_size (c i) \<and> pc_size (c i) \<le> PCACHE_MAX_FILE)"

text \<open>What the cache holds for a node: the size and the bytes.\<close>

definition cached :: "pcache \<Rightarrow> int \<Rightarrow> (int \<times> (nat \<Rightarrow> u8)) option" where
  "cached c node =
     (case first_idx (\<lambda>i. pc_use (c i) \<and> pc_node (c i) = node) 0 PCACHE_ENTRIES of
        None \<Rightarrow> None | Some i \<Rightarrow> Some (pc_size (c i), pc_data (c i)))"

lemma cached_slot:
  assumes "pcache_ok c" and "i < PCACHE_ENTRIES" and "pc_use (c i)"
  shows "cached c (pc_node (c i)) = Some (pc_size (c i), pc_data (c i))"
proof -
  have "first_idx (\<lambda>k. pc_use (c k) \<and> pc_node (c k) = pc_node (c i)) 0 PCACHE_ENTRIES = Some i"
    by (rule first_idx_unique) (use assms in \<open>auto simp: pcache_ok_def\<close>)
  then show ?thesis by (simp add: cached_def)
qed

lemma cached_iff:
  assumes "pcache_ok c"
  shows "cached c n = Some (z, d) \<longleftrightarrow> (\<exists>i < PCACHE_ENTRIES. pc_use (c i) \<and> pc_node (c i) = n \<and> pc_size (c i) = z \<and> pc_data (c i) = d)"
proof
  assume "cached c n = Some (z, d)"
  then show "\<exists>i < PCACHE_ENTRIES. pc_use (c i) \<and> pc_node (c i) = n \<and> pc_size (c i) = z \<and> pc_data (c i) = d"
    by (auto simp: cached_def split: option.splits dest!: first_idx_Some)
next
  assume "\<exists>i < PCACHE_ENTRIES. pc_use (c i) \<and> pc_node (c i) = n \<and> pc_size (c i) = z \<and> pc_data (c i) = d"
  then show "cached c n = Some (z, d)" using cached_slot [OF assms] by fastforce
qed

lemma pcache_init_ok [simp]: "pcache_ok pcache_init" "cached pcache_init n = None"
proof -
  show "pcache_ok pcache_init" by (simp add: pcache_ok_def pcache_init_def no_entry_def)
  have "first_idx (\<lambda>i. pc_use (pcache_init i) \<and> pc_node (pcache_init i) = n) 0 PCACHE_ENTRIES = None"
    unfolding first_idx_None by (simp add: pcache_init_def no_entry_def)
  then show "cached pcache_init n = None" by (simp add: cached_def)
qed

text \<open>Two caches that agree on a node's entry, up to its age.\<close>

lemma cached_le:
  assumes "pcache_ok c" and "pcache_ok c'" and "cached c n = Some x"
    and "\<And>i. i < PCACHE_ENTRIES \<Longrightarrow> pc_use (c i) \<Longrightarrow> pc_node (c i) = n \<Longrightarrow> pc_use (c' i) \<and> pc_node (c' i) = n \<and> pc_size (c' i) = pc_size (c i) \<and> pc_data (c' i) = pc_data (c i)"
  shows "cached c' n = Some x"
proof -
  obtain z d where x: "x = (z, d)" by fastforce
  then obtain i where i: "i < PCACHE_ENTRIES" "pc_use (c i)" "pc_node (c i) = n" "pc_size (c i) = z" "pc_data (c i) = d"
    using assms(3) cached_iff [OF assms(1)] by blast
  show ?thesis using assms(4) [OF i(1-3)] i(1,4,5) x cached_slot [OF assms(2) i(1)] by auto
qed

lemma cached_cong:
  assumes ok: "pcache_ok c" "pcache_ok c'"
    and "\<And>i. i < PCACHE_ENTRIES \<Longrightarrow> pc_use (c i) \<Longrightarrow> pc_node (c i) = n \<Longrightarrow> pc_use (c' i) \<and> pc_node (c' i) = n \<and> pc_size (c' i) = pc_size (c i) \<and> pc_data (c' i) = pc_data (c i)"
    and "\<And>i. i < PCACHE_ENTRIES \<Longrightarrow> pc_use (c' i) \<Longrightarrow> pc_node (c' i) = n \<Longrightarrow> pc_use (c i) \<and> pc_node (c i) = n \<and> pc_size (c i) = pc_size (c' i) \<and> pc_data (c i) = pc_data (c' i)"
  shows "cached c n = cached c' n"
proof -
  have a: "cached c' n = Some x" if "cached c n = Some x" for x by (rule cached_le [OF ok that]) (rule assms(3))
  have b: "cached c n = Some x" if "cached c' n = Some x" for x by (rule cached_le [OF ok(2,1) that]) (rule assms(4))
  show ?thesis
  proof (cases "cached c n")
    case None
    then show ?thesis using b by (cases "cached c' n") auto
  next
    case (Some x)
    then show ?thesis using a by simp
  qed
qed

lemma pcache_drop_ok: "pcache_ok c \<Longrightarrow> pcache_ok (pcache_drop_slot i c)"
  by (auto simp: pcache_ok_def pcache_drop_slot_def)

lemma pcache_invalidate_ok: "pcache_ok c \<Longrightarrow> pcache_ok (pcache_invalidate n c)"
  using pcache_drop_ok by (auto simp: pcache_invalidate_def split: option.split)

lemma cached_invalidate:
  assumes ok: "pcache_ok c" and n: "0 \<le> n"
  shows "cached (pcache_invalidate n c) m = (if m = n then None else cached c m)"
proof (cases "first_idx (\<lambda>i. pc_use (c i) \<and> pc_node (c i) = n) 0 PCACHE_ENTRIES")
  case None
  then show ?thesis using n by (auto simp: pcache_invalidate_def cached_def)
next
  case (Some i)
  note I = first_idx_Some [OF Some]
  have w: "pcache_invalidate n c = pcache_drop_slot i c" using Some n by (simp add: pcache_invalidate_def)
  have ok': "pcache_ok (pcache_drop_slot i c)" by (rule pcache_drop_ok [OF ok])
  show ?thesis
  proof (cases "m = n")
    case True
    have "\<nexists>j. j < PCACHE_ENTRIES \<and> pc_use (pcache_drop_slot i c j) \<and> pc_node (pcache_drop_slot i c j) = n"
      using I ok by (auto simp: pcache_drop_slot_def pcache_ok_def split: if_splits)
    then show ?thesis using True by (auto simp: w cached_def scan_simps split: option.split dest!: first_idx_Some)
  next
    case False
    have "cached (pcache_drop_slot i c) m = cached c m"
      by (rule cached_cong [OF ok' ok]) (use False I in \<open>auto simp: pcache_drop_slot_def\<close>)
    then show ?thesis using False w by simp
  qed
qed

lemma pcache_slot_bound: "pcache_slot n c < PCACHE_ENTRIES"
proof -
  have "snd (for_upto k (\<lambda>i (oldest, best). if pc_tick (c i) < oldest then (pc_tick (c i), i) else (oldest, best)) (0xFFFFFFFF, 0)) < PCACHE_ENTRIES"
    if "k \<le> PCACHE_ENTRIES" for k
    using that by (induction k) (auto simp: PCACHE_ENTRIES_def split: prod.split)
  from this [OF order_refl] have "pcache_oldest c < PCACHE_ENTRIES" by (simp add: pcache_oldest_def)
  then show ?thesis by (auto simp: pcache_slot_def split: option.split dest: first_idx_bound)
qed

text \<open>The chosen slot is the node's own, when it has one.\<close>

lemma pcache_slot_own:
  assumes "pcache_ok c" and "i < PCACHE_ENTRIES" and "pc_use (c i)" and "pc_node (c i) = n"
  shows "pcache_slot n c = i"
proof -
  have "first_idx (\<lambda>k. pc_use (c k) \<and> pc_node (c k) = n) 0 PCACHE_ENTRIES = Some i"
    by (rule first_idx_unique) (use assms in \<open>auto simp: pcache_ok_def\<close>)
  then show ?thesis by (simp add: pcache_slot_def)
qed

lemma pcache_insert_ok:
  assumes ok: "pcache_ok c"
  shows "pcache_ok (pcache_insert mem now n d z c)"
proof (cases "n < 0 \<or> z < 0")
  case True
  then show ?thesis using ok by (auto simp: pcache_insert_def)
next
  case False
  define i where "i = pcache_slot n c"
  have d: "pcache_ok (pcache_drop_slot i c)" by (rule pcache_drop_ok [OF ok])
  have none: "pc_node (c j) \<noteq> n" if "j < PCACHE_ENTRIES" "pc_use (c j)" "j \<noteq> i" for j
    using pcache_slot_own [OF ok that(1,2) refl] that(3) unfolding i_def by auto
  have "pcache_ok ((pcache_drop_slot i c)(i := \<lparr>pc_use = True, pc_node = n, pc_size = z, pc_tick = now, pc_data = d\<rparr>))"
    if "z \<noteq> 0" "z \<le> PCACHE_MAX_FILE"
  proof -
    let ?w = "(pcache_drop_slot i c)(i := \<lparr>pc_use = True, pc_node = n, pc_size = z, pc_tick = now, pc_data = d\<rparr>)"
    have o: "?w j = c j" if "j \<noteq> i" for j using that by (simp add: pcache_drop_slot_def)
    have u: "pc_node (?w i) = n" "pc_size (?w i) = z" by simp_all
    have "j = k" if "j < PCACHE_ENTRIES" "k < PCACHE_ENTRIES" "pc_use (?w j)" "pc_use (?w k)" "pc_node (?w j) = pc_node (?w k)" for j k
      using that none [of j] none [of k] o [of j] o [of k] u(1) ok unfolding pcache_ok_def by (cases "j = i"; cases "k = i") auto
    moreover have "0 \<le> pc_node (?w j) \<and> 0 < pc_size (?w j) \<and> pc_size (?w j) \<le> PCACHE_MAX_FILE" if "j < PCACHE_ENTRIES" "pc_use (?w j)" for j
      using that o [of j] u False \<open>z \<noteq> 0\<close> \<open>z \<le> PCACHE_MAX_FILE\<close> ok unfolding pcache_ok_def by (cases "j = i") auto
    ultimately show ?thesis unfolding pcache_ok_def by blast
  qed
  then show ?thesis using d False unfolding pcache_insert_def Let_def i_def [symmetric] by auto
qed

text \<open>Inserting replaces the node's copy; another node's copy stays or is evicted.\<close>

lemma cached_insert:
  assumes ok: "pcache_ok c" and n: "0 \<le> n" "0 \<le> z"
  shows "cached (pcache_insert mem now n d z c) n = (if z = 0 \<or> z > PCACHE_MAX_FILE \<or> \<not> mem (nat z) then None else Some (z, d))"
    and "m \<noteq> n \<Longrightarrow> cached (pcache_insert mem now n d z c) m \<in> {None, cached c m}"
proof -
  define i where "i = pcache_slot n c"
  define w where "w = pcache_insert mem now n d z c"
  have okw: "pcache_ok w" unfolding w_def by (rule pcache_insert_ok [OF ok])
  have ib: "i < PCACHE_ENTRIES" unfolding i_def by (rule pcache_slot_bound)
  have wi: "w = (if z = 0 \<or> z > PCACHE_MAX_FILE \<or> \<not> mem (nat z) then pcache_drop_slot i c
      else (pcache_drop_slot i c)(i := \<lparr>pc_use = True, pc_node = n, pc_size = z, pc_tick = now, pc_data = d\<rparr>))"
    unfolding w_def pcache_insert_def Let_def i_def using n by auto
  have none: "pc_node (c j) \<noteq> n" if "j < PCACHE_ENTRIES" "pc_use (c j)" "j \<noteq> i" for j
    using pcache_slot_own [OF ok that(1,2) refl] that(3) unfolding i_def by auto
  have o: "w j = c j" if "j \<noteq> i" for j using that by (simp add: wi pcache_drop_slot_def)
  show "cached (pcache_insert mem now n d z c) n = (if z = 0 \<or> z > PCACHE_MAX_FILE \<or> \<not> mem (nat z) then None else Some (z, d))"
  proof (cases "z = 0 \<or> z > PCACHE_MAX_FILE \<or> \<not> mem (nat z)")
    case True
    then have u: "\<not> pc_use (w i)" by (simp add: wi pcache_drop_slot_def)
    have "cached w n \<noteq> Some (z', d')" for z' d' unfolding cached_iff [OF okw] using u none o by metis
    then show ?thesis using True by (metis not_Some_eq prod.exhaust w_def)
  next
    case False
    then have "w i = \<lparr>pc_use = True, pc_node = n, pc_size = z, pc_tick = now, pc_data = d\<rparr>" unfolding wi by auto
    then have "cached w n = Some (z, d)" using cached_iff [OF okw] ib by force
    then show ?thesis using False by (simp add: w_def)
  qed
  assume m: "m \<noteq> n"
  have "cached w m = Some zd \<Longrightarrow> cached c m = Some zd" for zd
  proof -
    assume "cached w m = Some zd"
    then obtain z' d' where zd: "zd = (z', d')" "cached w m = Some (z', d')" by (cases zd) auto
    then obtain j where j: "j < PCACHE_ENTRIES" "pc_use (w j)" "pc_node (w j) = m" "pc_size (w j) = z'" "pc_data (w j) = d'"
      using cached_iff [OF okw] by blast
    have "j \<noteq> i"
    proof
      assume "j = i"
      then show False using j m by (auto simp: wi pcache_drop_slot_def split: if_splits)
    qed
    then show "cached c m = Some zd" using j o cached_iff [OF ok] zd(1) by metis
  qed
  then show "cached (pcache_insert mem now n d z c) m \<in> {None, cached c m}" unfolding w_def [symmetric] by (cases "cached w m") auto
qed

text \<open>A read hits exactly when the cached size is the asked one, and returns the cached bytes.\<close>

lemma pcache_read_spec:
  assumes ok: "pcache_ok c" and n: "0 \<le> n" and z: "0 < z" "z \<le> PCACHE_MAX_FILE" and o: "0 \<le> off" "off < z" "0 < len"
  shows "fst (pcache_read now n z off len c) =
      (case cached c n of Some (z', d) \<Rightarrow> if z' = z then Some (map (\<lambda>k. d (nat off + k)) [0..<nat (min len (z - off))]) else None | None \<Rightarrow> None)"
    and "pcache_ok (snd (pcache_read now n z off len c))" and "cached (snd (pcache_read now n z off len c)) m = cached c m"
proof -
  let ?P = "\<lambda>i. pc_use (c i) \<and> pc_node (c i) = n \<and> pc_size (c i) = z"
  have mn: "(if z - off > len then len else z - off) = min len (z - off)" by auto
  have "fst (pcache_read now n z off len c) =
      (case cached c n of Some (z', d) \<Rightarrow> if z' = z then Some (map (\<lambda>k. d (nat off + k)) [0..<nat (min len (z - off))]) else None | None \<Rightarrow> None)
    \<and> pcache_ok (snd (pcache_read now n z off len c)) \<and> cached (snd (pcache_read now n z off len c)) m = cached c m"
  proof (cases "first_idx ?P 0 PCACHE_ENTRIES")
    case None
    have "cached c n \<noteq> Some (z, d)" for d unfolding cached_iff [OF ok] using None by (auto simp: scan_simps)
    then have "(case cached c n of Some (z', d) \<Rightarrow> if z' = z then Some (map (\<lambda>k. d (nat off + k)) [0..<nat (min len (z - off))]) else None | None \<Rightarrow> None) = None"
      by (cases "cached c n") (auto split: prod.split)
    then show ?thesis using None n z o ok by (simp add: pcache_read_def)
  next
    case (Some i)
    note I = first_idx_Some [OF Some]
    have "cached c n = Some (z, pc_data (c i))" using cached_slot [OF ok, of i] I by auto
    moreover have "pcache_read now n z off len c = (Some (map (\<lambda>k. pc_data (c i) (nat off + k)) [0..<nat (min len (z - off))]), c(i := (c i)\<lparr>pc_tick := now\<rparr>))"
      using Some I n z o by (simp add: pcache_read_def Let_def mn [symmetric])
    moreover have e: "pc_use ((c(i := (c i)\<lparr>pc_tick := now\<rparr>)) j) = pc_use (c j)" "pc_node ((c(i := (c i)\<lparr>pc_tick := now\<rparr>)) j) = pc_node (c j)"
        "pc_size ((c(i := (c i)\<lparr>pc_tick := now\<rparr>)) j) = pc_size (c j)" "pc_data ((c(i := (c i)\<lparr>pc_tick := now\<rparr>)) j) = pc_data (c j)" for j
      by simp_all
    moreover have ok': "pcache_ok (c(i := (c i)\<lparr>pc_tick := now\<rparr>))" using ok unfolding pcache_ok_def e .
    moreover have "cached (c(i := (c i)\<lparr>pc_tick := now\<rparr>)) m = cached c m" by (rule cached_cong [OF ok' ok]) (simp_all only: e)
    ultimately show ?thesis by simp
  qed
  then show "fst (pcache_read now n z off len c) =
      (case cached c n of Some (z', d) \<Rightarrow> if z' = z then Some (map (\<lambda>k. d (nat off + k)) [0..<nat (min len (z - off))]) else None | None \<Rightarrow> None)"
    and "pcache_ok (snd (pcache_read now n z off len c))" and "cached (snd (pcache_read now n z off len c)) m = cached c m" by simp_all
qed

end
