(* ===== verification/Vfs.thy ===== *)
theory Vfs
  imports Pcache Ata
begin

text \<open>
  The virtual file system of \<open>src/sys/vfs.c\<close>: the node table, names and paths, creation and
  lookup.

  The node table is a function of the slot. A name, a path and a link target is the string
  before its NUL; bytes a free slot still holds are not observed. The disk image has three
  parts: the metadata sector, the node table (one node per sector) and the data sectors. The
  parameter record \<open>venv\<close> is everything outside this file that a call sees: the calling task,
  the task table behind \<open>/proc\<close>, open descriptors, the heap, which block transfers succeed, and
  the two foreign file systems with the mount table (\<open>ext2.c\<close>, \<open>fat32.c\<close>, \<open>vfs_mount.c\<close>).
  Every public call holds the reentrant \<open>vfs_lock\<close> from start to end and is one step.
\<close>

section \<open>State\<close>

definition MAX_NODES :: nat where
  "MAX_NODES = 2048"

definition MAX_PATH :: nat where
  "MAX_PATH = 256"

definition MAX_FILENAME :: nat where
  "MAX_FILENAME = 32"

definition VFS_SYMLINK_MAX :: nat where
  "VFS_SYMLINK_MAX = 120"

definition VFS_SYMLINK_HOPS_MAX :: nat where
  "VFS_SYMLINK_HOPS_MAX = 8"

definition VFS_NODE_START :: nat where
  "VFS_NODE_START = 1"

definition VFS_NODE_SECTORS :: nat where
  "VFS_NODE_SECTORS = 2048"

definition VFS_DATA_START :: nat where
  "VFS_DATA_START = VFS_NODE_START + VFS_NODE_SECTORS"

definition VFS_DISK_SECTORS :: nat where
  "VFS_DISK_SECTORS = 8192"

definition VFS_LAYOUT_VERSION :: nat where
  "VFS_LAYOUT_VERSION = 5"

definition USER_UID :: int where
  "USER_UID = 1000"

record vfs_node =
  nd_name :: string
  nd_type :: fs_type
  nd_parent :: int
  nd_size :: int
  nd_sector :: int
  nd_use :: bool
  nd_inode :: u32
  nd_uid :: int
  nd_gid :: int
  nd_mode :: u16
  nd_link :: string

record vfs_meta =
  mt_magic :: bool
  mt_version :: nat
  mt_dir :: int

record vfs =
  vf_node :: "nat \<Rightarrow> vfs_node"
  vf_cwd :: int
  vf_meta :: vfs_meta
  vf_tab :: "nat \<Rightarrow> vfs_node"
  vf_disk :: "nat \<Rightarrow> nat \<Rightarrow> u8"
  vf_pc :: pcache
  vf_ram :: "nat \<Rightarrow> (nat \<Rightarrow> u8) option"
  vf_cap :: "nat \<Rightarrow> int"
  vf_used :: u32

text \<open>\<open>ve_wr lba n\<close> is \<open>None\<close> when a write of \<open>n\<close> sectors succeeds and otherwise how many of them
  reached the medium; \<open>ve_sel\<close> says that the volume of a node can be selected.\<close>

record venv =
  ve_uid :: int
  ve_tid :: int
  ve_task :: "int \<Rightarrow> bool"
  ve_open :: "int \<Rightarrow> bool"
  ve_seeding :: bool
  ve_now :: u32
  ve_mem :: "nat \<Rightarrow> bool"
  ve_rd :: "nat \<Rightarrow> nat \<Rightarrow> bool"
  ve_wr :: "nat \<Rightarrow> nat \<Rightarrow> nat option"
  ve_sel :: "nat \<Rightarrow> bool"
  ve_ext2_create :: "u32 \<Rightarrow> string \<Rightarrow> bool \<Rightarrow> u32"
  ve_ext2_size :: "u32 \<Rightarrow> int"
  ve_ext2_rename :: "u32 \<Rightarrow> string \<Rightarrow> string \<Rightarrow> u32 \<Rightarrow> bool"
  ve_fat_create :: "int \<Rightarrow> string \<Rightarrow> bool \<Rightarrow> int"
  ve_fat_rename :: "int \<Rightarrow> string \<Rightarrow> string \<Rightarrow> bool"
  ve_proc_read :: "vfs_node \<Rightarrow> int \<Rightarrow> int \<times> u8 list"
  ve_proc_write :: "string \<Rightarrow> u8 list \<Rightarrow> int"
  ve_random :: "int \<Rightarrow> u8 list option"
  ve_ext2_read :: "u32 \<Rightarrow> int \<Rightarrow> int \<Rightarrow> int \<times> u8 list"
  ve_ext2_write :: "u32 \<Rightarrow> u8 list \<Rightarrow> int"
  ve_fat_read :: "int \<Rightarrow> int \<Rightarrow> int \<Rightarrow> int \<times> u8 list"
  ve_fat_write :: "int \<Rightarrow> u8 list \<Rightarrow> int"
  ve_fat_dirent :: "int \<Rightarrow> string \<Rightarrow> int \<Rightarrow> int \<Rightarrow> bool"

definition set_node :: "nat \<Rightarrow> vfs_node \<Rightarrow> vfs \<Rightarrow> vfs" where
  "set_node i n s = s\<lparr>vf_node := (vf_node s)(i := n)\<rparr>"

definition node_at :: "vfs \<Rightarrow> int \<Rightarrow> vfs_node" where
  "node_at s i = vf_node s (nat i)"

definition node_range :: "int \<Rightarrow> bool" where
  "node_range i \<longleftrightarrow> 0 \<le> i \<and> i < int MAX_NODES"

definition vfs_is_dir_type :: "fs_type \<Rightarrow> bool" where
  "vfs_is_dir_type t \<longleftrightarrow> t = FS_DIR \<or> t = FS_EXT2_DIR \<or> t = FS_FAT32_DIR \<or> t = FS_RAM_DIR"

definition vfs_is_ram_type :: "fs_type \<Rightarrow> bool" where
  "vfs_is_ram_type t \<longleftrightarrow> t = FS_RAM_DIR \<or> t = FS_RAM_FILE"

section \<open>Names and paths as strings\<close>

definition lower_char :: "char \<Rightarrow> char" where
  "lower_char c = (let n = of_char c :: nat in if 65 \<le> n \<and> n \<le> 90 then char_of (n + 32) else c)"

definition strtolower :: "string \<Rightarrow> string" where
  "strtolower s = map lower_char s"

definition copy_node_name :: "string \<Rightarrow> bool" where
  "copy_node_name n \<longleftrightarrow> n \<noteq> [] \<and> CHR ''/'' \<notin> set n \<and> length n < MAX_FILENAME"

text \<open>The components of a path, \<open>None\<close> for -1: \<open>cur\<close> is the component being read.\<close>

fun split_from :: "string \<Rightarrow> string \<Rightarrow> string list \<Rightarrow> string list option" where
  "split_from [] cur cs =
     (if cur = [] then Some cs else if Suc (length cs) \<ge> MAX_PATH div 2 then None else Some (cs @ [cur]))"
| "split_from (c # p) cur cs =
     (if c = CHR ''/'' then
        (if cur = [] then split_from p [] cs
         else if Suc (length cs) \<ge> MAX_PATH div 2 then None else split_from p [] (cs @ [cur]))
      else if length cur \<ge> MAX_FILENAME - 1 then None
      else split_from p (cur @ [c]) cs)"

definition split_path :: "string \<Rightarrow> string list option" where
  "split_path p = (if p = [] then Some [] else split_from (if hd p = CHR ''/'' then tl p else p) [] [])"

text \<open>The last component as \<open>mkdir\<close>, \<open>create\<close> and \<open>rename\<close> read it: trailing slashes are skipped
  and the name is cut to what the buffer takes.\<close>

definition path_base :: "string \<Rightarrow> string" where
  "path_base p =
     take (MAX_FILENAME - 1) (rev (takeWhile (\<lambda>c. c \<noteq> CHR ''/'') (dropWhile (\<lambda>c. c = CHR ''/'') (rev p))))"

section \<open>Absolute paths\<close>

text \<open>The names from a node up to the root, nearest first: at most 16. The loop of the code has no
  bound of its own; \<open>names_fuel\<close> is enough for every table without a cycle.\<close>

fun names_up :: "nat \<Rightarrow> vfs \<Rightarrow> int \<Rightarrow> nat \<Rightarrow> string list" where
  "names_up 0 s cur k = []"
| "names_up (Suc n) s cur k =
     (if 0 \<le> cur \<and> nd_use (node_at s cur) then
        (if cur \<noteq> 0 \<and> nd_name (node_at s cur) \<noteq> [] then
           nd_name (node_at s cur) # (if Suc k \<ge> 16 then [] else names_up n s (nd_parent (node_at s cur)) (Suc k))
         else names_up n s (nd_parent (node_at s cur)) k)
      else [])"

definition names_fuel :: nat where
  "names_fuel = Suc MAX_NODES"

fun join_names :: "nat \<Rightarrow> string \<Rightarrow> string list \<Rightarrow> string" where
  "join_names sz buf [] = buf"
| "join_names sz buf (n # ns) =
     (if length buf + length n \<ge> sz - 1 then buf
      else join_names sz (buf @ (if length buf > 1 then ''/'' else []) @ n) ns)"

text \<open>The result is the length of the path, -1 for a bad node.\<close>

definition vfs_get_abs_path :: "vfs \<Rightarrow> int \<Rightarrow> nat \<Rightarrow> int \<times> string" where
  "vfs_get_abs_path s i sz =
     (if \<not> node_range i \<or> \<not> nd_use (node_at s i) then (-1, ''?'')
      else (let p = join_names sz ''/'' (rev (names_up names_fuel s i 0)) in (int (length p), p)))"

definition vfs_resolve_path :: "vfs \<Rightarrow> string \<Rightarrow> nat \<Rightarrow> string" where
  "vfs_resolve_path s path sz =
     (if path = [] then snd (vfs_get_abs_path s (vf_cwd s) sz)
      else if hd path = CHR ''/'' then take (sz - 1) path
      else (let cur = snd (vfs_get_abs_path s (vf_cwd s) MAX_PATH)
            in if path = ''.'' then cur
               else if path = ''..'' then
                 (if vf_cwd s = 0 then ''/'' else snd (vfs_get_abs_path s (nd_parent (node_at s (vf_cwd s))) sz))
               else if cur = ''/'' then take (sz - 1) (''/'' @ path)
               else take (sz - 1) (cur @ (if last cur \<noteq> CHR ''/'' then ''/'' else []) @ path)))"

text \<open>The directory part of a path; \<open>None\<close> for a negative result.\<close>

definition vfs_get_parent :: "vfs \<Rightarrow> string \<Rightarrow> nat \<Rightarrow> string option" where
  "vfs_get_parent s path sz =
     (if path = [] then None
      else (let p = take 1 path @ rev (dropWhile (\<lambda>c. c = CHR ''/'') (rev (tl path)));
                d = rev (dropWhile (\<lambda>c. c \<noteq> CHR ''/'') (rev (butlast p)))
            in if d = [] then (let (rc, q) = vfs_get_abs_path s (vf_cwd s) sz in if rc < 0 then None else Some q)
               else if length d = 1 then Some ''/''
               else Some (take (sz - 1) (butlast d))))"

section \<open>Lookup in a directory\<close>

definition child_named :: "vfs \<Rightarrow> int \<Rightarrow> string \<Rightarrow> nat \<Rightarrow> bool" where
  "child_named s d name j \<longleftrightarrow>
     nd_use (vf_node s j) \<and> nd_parent (vf_node s j) = d \<and> strtolower (nd_name (vf_node s j)) = strtolower name"

definition slot_result :: "nat option \<Rightarrow> int" where
  "slot_result r = (case r of None \<Rightarrow> -1 | Some j \<Rightarrow> int j)"

definition vfs_walk_child :: "vfs \<Rightarrow> int \<Rightarrow> string \<Rightarrow> int" where
  "vfs_walk_child s cur c =
     (if \<not> node_range cur \<or> \<not> nd_use (node_at s cur) then -1
      else slot_result (first_idx (child_named s cur c) 0 MAX_NODES))"

definition vfs_find_in_dir :: "vfs \<Rightarrow> string \<Rightarrow> int \<Rightarrow> int" where
  "vfs_find_in_dir s name d =
     (if \<not> node_range d \<or> \<not> nd_use (node_at s d) \<or> \<not> vfs_is_dir_type (nd_type (node_at s d)) then -1
      else slot_result (first_idx (child_named s d name) 0 MAX_NODES))"

section \<open>Saving the table\<close>

text \<open>Sectors of the node table; a write that fails after \<open>k\<close> sectors has stored these.\<close>

definition store_nodes :: "nat \<Rightarrow> nat \<Rightarrow> vfs \<Rightarrow> vfs" where
  "store_nodes i n s = s\<lparr>vf_tab := (\<lambda>j. if i \<le> j \<and> j < i + n then vf_node s j else vf_tab s j)\<rparr>"

definition batch_at :: "nat \<Rightarrow> nat \<Rightarrow> nat" where
  "batch_at lba n = nat (block_batch_limit (of_nat lba) (int n))"

function node_table_write :: "venv \<Rightarrow> bool \<Rightarrow> nat \<Rightarrow> vfs \<Rightarrow> int \<times> vfs" where
  "node_table_write e buf i s =
     (if i < VFS_NODE_SECTORS then
        (let b = (if buf then batch_at (VFS_NODE_START + i) (VFS_NODE_SECTORS - i) else 1)
         in case ve_wr e (VFS_NODE_START + i) b of
              None \<Rightarrow> node_table_write e buf (i + b) (store_nodes i b s)
            | Some k \<Rightarrow> (-1, store_nodes i (min k b) s))
      else (0, s))"
  by pat_completeness auto

lemma batch_pos: "0 < batch_at lba n"
  using block_batch_limit_range [of "of_nat lba" "int n"] by (simp add: batch_at_def)

termination node_table_write
proof (relation "measure (\<lambda>(e, buf, i, s). VFS_NODE_SECTORS - i)")
  fix e :: venv and buf :: bool and i :: nat and s :: vfs and b :: nat
  assume "i < VFS_NODE_SECTORS" "b = (if buf then batch_at (VFS_NODE_START + i) (VFS_NODE_SECTORS - i) else 1)"
  moreover from this have "0 < b" using batch_pos by simp
  ultimately show "((e, buf, i + b, store_nodes i b s), e, buf, i, s) \<in> measure (\<lambda>(e, buf, i, s). VFS_NODE_SECTORS - i)"
    by (simp add: diff_less_mono2)
qed simp

declare node_table_write.simps [simp del]

definition vfs_node_table_write :: "venv \<Rightarrow> vfs \<Rightarrow> int \<times> vfs" where
  "vfs_node_table_write e s = node_table_write e (ve_mem e (128 * 512)) 0 s"

definition vfs_save :: "venv \<Rightarrow> vfs \<Rightarrow> int \<times> vfs" where
  "vfs_save e s =
     (if ve_wr e 0 1 \<noteq> None then (-1, s)
      else vfs_node_table_write e (s\<lparr>vf_meta := \<lparr>mt_magic = True, mt_version = VFS_LAYOUT_VERSION, mt_dir = vf_cwd s mod 65536\<rparr>\<rparr>))"

section \<open>Creating a node\<close>

definition pc_drop :: "int \<Rightarrow> vfs \<Rightarrow> vfs" where
  "pc_drop i s = s\<lparr>vf_pc := pcache_invalidate i (vf_pc s)\<rparr>"

definition default_mode :: "int \<Rightarrow> fs_type \<Rightarrow> u16" where
  "default_mode uid t = (if vfs_is_dir_type t then if uid = ROOT_UID then 0x1FF else 0x1ED else 0x1A4)"

definition save_unless_seeding :: "venv \<Rightarrow> vfs \<Rightarrow> vfs" where
  "save_unless_seeding e s = (if ve_seeding e then s else snd (vfs_save e s))"

text \<open>What a foreign parent directory makes of the new node, \<open>None\<close>: refused.\<close>

definition ext2_hook :: "venv \<Rightarrow> nat \<Rightarrow> vfs_node \<Rightarrow> string \<Rightarrow> fs_type \<Rightarrow> vfs_node \<Rightarrow> vfs_node option" where
  "ext2_hook e parent pn name ty n =
     (if nd_type pn = FS_EXT2_DIR \<and> (ty = FS_DIR \<or> ty = FS_FILE) then
        (if \<not> ve_sel e parent then None
         else (let ino = ve_ext2_create e (nd_inode pn) name (ty = FS_DIR)
               in if ino = 0 then None
                  else Some (n\<lparr>nd_type := (if ty = FS_DIR then FS_EXT2_DIR else FS_EXT2_FILE), nd_inode := ino, nd_size := ve_ext2_size e ino\<rparr>)))
      else Some n)"

definition fat32_hook :: "venv \<Rightarrow> nat \<Rightarrow> vfs_node \<Rightarrow> string \<Rightarrow> fs_type \<Rightarrow> vfs_node \<Rightarrow> vfs_node option" where
  "fat32_hook e parent pn name ty n =
     (if nd_type pn = FS_FAT32_DIR \<and> (ty = FS_DIR \<or> ty = FS_FILE) then
        (if \<not> ve_sel e parent then None
         else (let cl = ve_fat_create e (nd_sector pn) name (ty = FS_DIR)
               in if cl = 0 then None
                  else Some (n\<lparr>nd_type := (if ty = FS_DIR then FS_FAT32_DIR else FS_FAT32_FILE), nd_sector := cl\<rparr>)))
      else Some n)"

definition ram_hook :: "vfs_node \<Rightarrow> fs_type \<Rightarrow> vfs_node \<Rightarrow> vfs_node" where
  "ram_hook pn ty n =
     (if nd_type pn = FS_RAM_DIR \<and> (ty = FS_DIR \<or> ty = FS_FILE)
      then n\<lparr>nd_type := (if ty = FS_DIR then FS_RAM_DIR else FS_RAM_FILE)\<rparr> else n)"

definition new_node :: "venv \<Rightarrow> string \<Rightarrow> fs_type \<Rightarrow> int \<Rightarrow> vfs_node \<Rightarrow> vfs_node" where
  "new_node e name ty parent old =
     old\<lparr>nd_name := name, nd_type := ty, nd_parent := parent, nd_size := 0, nd_sector := 0, nd_use := True,
       nd_uid := ve_uid e mod 65536, nd_gid := 0, nd_mode := default_mode (ve_uid e) ty\<rparr>"

definition vfs_create_node :: "venv \<Rightarrow> string \<Rightarrow> fs_type \<Rightarrow> int \<Rightarrow> vfs \<Rightarrow> int \<times> vfs" where
  "vfs_create_node e name ty parent s =
     (if \<not> node_range parent \<or> \<not> nd_use (node_at s parent) \<or> \<not> vfs_is_dir_type (nd_type (node_at s parent)) \<or> name = [] then (-1, s)
      else if vfs_find_in_dir s name parent \<ge> 0 then (-2, s)
      else (case first_idx (\<lambda>i. \<not> nd_use (vf_node s i)) 0 MAX_NODES of
              None \<Rightarrow> (-1, s)
            | Some i \<Rightarrow>
                if \<not> copy_node_name name then (-1, s)
                else (let pn = node_at s parent;
                          n = new_node e name ty parent (vf_node s i);
                          s1 = pc_drop (int i) (set_node i n s)
                      in case ext2_hook e (nat parent) pn name ty n of
                           None \<Rightarrow> (-1, set_node i (n\<lparr>nd_use := False\<rparr>) s1)
                         | Some n2 \<Rightarrow> (case fat32_hook e (nat parent) pn name ty n2 of
                             None \<Rightarrow> (-1, set_node i (n2\<lparr>nd_use := False\<rparr>) s1)
                           | Some n3 \<Rightarrow> (int i, save_unless_seeding e (set_node i (ram_hook pn ty n3) s1))))))"

end
