(* ===== verification/Vfs_Walk.thy ===== *)
theory Vfs_Walk
  imports Vfs
begin

text \<open>
  Path lookup of \<open>src/sys/vfs.c\<close>: the walker with its symbolic links and the \<open>/proc\<close> nodes it
  makes on the way, and the calls that only look a path up.
\<close>

section \<open>Nodes of live tasks\<close>

text \<open>\<open>proc_itoa\<close>.\<close>

fun digits_of :: "nat \<Rightarrow> string" where
  "digits_of n = (if n < 10 then [char_of (48 + n)] else digits_of (n div 10) @ [char_of (48 + n mod 10)])"

declare digits_of.simps [simp del]

definition proc_itoa :: "int \<Rightarrow> string" where
  "proc_itoa v = (if v < 0 then ''-'' @ digits_of (nat (- v)) else digits_of (nat v))"

definition is_digit :: "char \<Rightarrow> bool" where
  "is_digit c \<longleftrightarrow> (let n = of_char c :: nat in 48 \<le> n \<and> n \<le> 57)"

text \<open>The number a name spells, \<open>None\<close> when it is none or beyond any task.\<close>

fun read_pid :: "string \<Rightarrow> nat \<Rightarrow> nat option" where
  "read_pid [] n = Some n"
| "read_pid (c # cs) n =
     (if \<not> is_digit c then None
      else (let m = n * 10 + (of_char c - 48) in if m > 0x7FFF then None else read_pid cs m))"

definition pid_of_name :: "string \<Rightarrow> nat option" where
  "pid_of_name c = (if c = [] then None else case read_pid c 0 of None \<Rightarrow> None | Some p \<Rightarrow> if p = 0 then None else Some p)"

definition add_if_missing :: "venv \<Rightarrow> string \<Rightarrow> int \<Rightarrow> vfs \<Rightarrow> vfs" where
  "add_if_missing e name d s = (if vfs_find_in_dir s name d < 0 then snd (vfs_create_node e name FS_PROC d s) else s)"

definition proc_pid_lookup :: "venv \<Rightarrow> int \<Rightarrow> string \<Rightarrow> bool \<Rightarrow> vfs \<Rightarrow> int \<times> vfs" where
  "proc_pid_lookup e cur c probe s =
     (case pid_of_name c of None \<Rightarrow> (-1, s)
      | Some pid \<Rightarrow>
         (let x = vfs_find_in_dir s c cur; n = node_at s x
          in if x \<ge> 0 then
               (if nd_type n = FS_DIR \<or> nd_type n = FS_PROC then
                  (if ve_task e (nd_sector n) then (x, s)
                   else (let s1 = set_node (nat x) (n\<lparr>nd_sector := int pid, nd_type := FS_DIR\<rparr>) s
                         in (x, add_if_missing e ''cmdline'' x (add_if_missing e ''status'' x s1))))
                else (-1, s))
             else if \<not> ve_task e (int pid) then (-1, s)
             else if probe then (-2, s)
             else (let (d, s1) = vfs_create_node e c FS_DIR cur s
                   in if d < 0 then (-1, s1)
                      else (let nd = node_at s1 d;
                                s2 = set_node (nat d) (nd\<lparr>nd_sector := int pid,
                                        nd_size := (if nd_size nd < int (length c) then int (length c) else nd_size nd)\<rparr>) s1;
                                s3 = snd (vfs_create_node e ''status'' FS_PROC d s2);
                                s4 = snd (vfs_create_node e ''cmdline'' FS_PROC d s3)
                            in (d, s4)))))"

definition vfs_proc_lazy_lookup :: "venv \<Rightarrow> int \<Rightarrow> string \<Rightarrow> bool \<Rightarrow> vfs \<Rightarrow> int \<times> vfs" where
  "vfs_proc_lazy_lookup e cur c probe s =
     (let root = vfs_find_in_dir s ''proc'' 0
      in if root < 0 \<or> cur \<noteq> root then (-1, s)
         else proc_pid_lookup e cur (if c = ''self'' then proc_itoa (ve_tid e) else c) probe s)"

section \<open>The walker\<close>

text \<open>One component: the node it leads to (negative: none) and the components left; a \<open>/proc\<close>
  directory may consume the component after it as well.\<close>

definition walk_next :: "venv \<Rightarrow> int \<Rightarrow> string \<Rightarrow> string list \<Rightarrow> vfs \<Rightarrow> int \<times> string list \<times> vfs" where
  "walk_next e cur c cs s =
     (let x = vfs_walk_child s cur c; n = node_at s cur;
          below = (\<lambda>y s. (let z = vfs_walk_child s y (hd cs) in if z < 0 \<or> tl cs \<noteq> [] then (-1, [], s) else (z, tl cs, s)))
      in if x \<ge> 0 then (x, cs, s)
         else if vfs_is_dir_type (nd_type n) \<and> nd_name n = ''proc'' \<and> nd_parent n = 0 then
           (let (y, s1) = vfs_proc_lazy_lookup e cur c False s
            in if y \<ge> 0 \<and> cs \<noteq> [] then below y s1 else (y, cs, s1))
         else if nd_type n = FS_PROC \<and> nd_sector n > 0 \<and> cs \<noteq> [] then below cur s
         else (-1, cs, s))"

text \<open>A walk ends in a node or a negative code, or starts over with a rewritten path.\<close>

datatype walk_out = Walked int | Again string nat

definition link_path :: "vfs \<Rightarrow> vfs_node \<Rightarrow> string option" where
  "link_path s n =
     (let t = nd_link n
      in if t = [] then None
         else if hd t = CHR ''/'' then Some (take (MAX_PATH - 1) t)
         else (let (rc, ap) = vfs_get_abs_path s (nd_parent n) MAX_PATH
               in if rc \<noteq> 0 then None
                  else if length ap \<ge> MAX_PATH - 2 then None
                  else Some (take (MAX_PATH - 1) (ap @ (if ap = ''/'' then [] else ''/'') @ t))))"

lemma walk_next_rest: "walk_next e cur c cs s = (x, r, s') \<Longrightarrow> length r \<le> length cs"
  by (auto simp: walk_next_def Let_def split: if_splits prod.splits)

function walk_comps :: "venv \<Rightarrow> bool \<Rightarrow> int \<Rightarrow> nat \<Rightarrow> string list \<Rightarrow> vfs \<Rightarrow> walk_out \<times> vfs" where
  "walk_comps e nofollow cur hops [] s = (Walked cur, s)"
| "walk_comps e nofollow cur hops (c # cs) s =
     (case walk_next e cur c cs s of
        (x, rest, s1) \<Rightarrow>
          if x < 0 then (Walked (-1), s1)
          else if rest = [] \<and> nofollow then (Walked x, s1)
          else if nd_type (node_at s1 x) = FS_SYMLINK then
            (if Suc hops > VFS_SYMLINK_HOPS_MAX then (Walked (-2), s1)
             else (case link_path s1 (node_at s1 x) of None \<Rightarrow> (Walked (-1), s1) | Some p \<Rightarrow> (Again p (Suc hops), s1)))
          else walk_comps e nofollow x hops rest s1)"
  by pat_completeness auto

termination walk_comps
proof (relation "measure (\<lambda>(e, nf, cur, hops, cs, s). length cs)", goal_cases)
  case (2 e nofollow cur hops c cs s x r1 rest s1)
  then have "walk_next e cur c cs s = (x, rest, s1)" by simp
  from walk_next_rest [OF this] show ?case by simp
qed simp

fun walk_restarts :: "nat \<Rightarrow> venv \<Rightarrow> bool \<Rightarrow> string \<Rightarrow> nat \<Rightarrow> vfs \<Rightarrow> int \<times> vfs" where
  "walk_restarts 0 e nofollow p hops s = (-2, s)"
| "walk_restarts (Suc k) e nofollow p hops s =
     (case split_path p of
        None \<Rightarrow> (-1, s)
      | Some cs \<Rightarrow>
          if cs = [] then (0, s)
          else (case walk_comps e nofollow 0 hops cs s of
                  (Walked n, s1) \<Rightarrow> (n, s1)
                | (Again q h, s1) \<Rightarrow> walk_restarts k e nofollow q h s1))"

definition vfs_walk_path :: "venv \<Rightarrow> string \<Rightarrow> bool \<Rightarrow> vfs \<Rightarrow> int \<times> vfs" where
  "vfs_walk_path e path nofollow s =
     (if path = [] then (vf_cwd s, s)
      else (let p = vfs_resolve_path s path MAX_PATH
            in if p = ''/'' then (0, s) else walk_restarts (Suc VFS_SYMLINK_HOPS_MAX) e nofollow p 0 s))"

definition vfs_get_node :: "venv \<Rightarrow> string \<Rightarrow> vfs \<Rightarrow> int \<times> vfs" where
  "vfs_get_node e path s = vfs_walk_path e path False s"

definition vfs_get_node_nofollow :: "venv \<Rightarrow> string \<Rightarrow> vfs \<Rightarrow> int \<times> vfs" where
  "vfs_get_node_nofollow e path s = vfs_walk_path e path True s"

section \<open>Plain descent\<close>

text \<open>\<open>vfs_find_path\<close>, and the descent to the directory of a new link: no links followed.\<close>

fun descend :: "vfs \<Rightarrow> int \<Rightarrow> string list \<Rightarrow> int" where
  "descend s cur [] = cur"
| "descend s cur (c # cs) =
     (let x = slot_result (first_idx (child_named s cur c) 0 MAX_NODES) in if x < 0 then -1 else descend s x cs)"

text \<open>The node and the value stored through \<open>parent_dir\<close> (\<open>None\<close>: left as it was).\<close>

definition vfs_find_path :: "vfs \<Rightarrow> string \<Rightarrow> int \<times> int option" where
  "vfs_find_path s path =
     (let p = vfs_resolve_path s path MAX_PATH
      in if p = ''/'' then (0, Some (-1))
         else (case split_path p of
                 None \<Rightarrow> (-1, Some (-1))
               | Some [] \<Rightarrow> (0, Some (-1))
               | Some cs \<Rightarrow>
                   (let d = descend s 0 (butlast cs)
                    in if d < 0 then (-1, None)
                       else (slot_result (first_idx (child_named s d (last cs)) 0 MAX_NODES), Some d))))"

fun link_dir :: "vfs \<Rightarrow> int \<Rightarrow> string list \<Rightarrow> int" where
  "link_dir s cur [] = cur"
| "link_dir s cur (c # cs) =
     (let x = vfs_walk_child s cur c
      in if x < 0 \<or> \<not> vfs_is_dir_type (nd_type (node_at s x)) then -1 else link_dir s x cs)"

section \<open>Queries\<close>

definition vfs_is_dir :: "vfs \<Rightarrow> int \<Rightarrow> bool" where
  "vfs_is_dir s i \<longleftrightarrow> node_range i \<and> nd_use (node_at s i)
     \<and> (nd_type (node_at s i) = FS_DIR \<or> nd_type (node_at s i) = FS_EXT2_DIR \<or> nd_type (node_at s i) = FS_FAT32_DIR)"

definition vfs_is_file :: "vfs \<Rightarrow> int \<Rightarrow> bool" where
  "vfs_is_file s i \<longleftrightarrow> node_range i \<and> nd_use (node_at s i)
     \<and> (nd_type (node_at s i) = FS_FILE \<or> nd_type (node_at s i) = FS_EXT2_FILE \<or> nd_type (node_at s i) = FS_FAT32_FILE)"

definition vfs_get_node_count :: "vfs \<Rightarrow> nat" where
  "vfs_get_node_count s = for_upto MAX_NODES (\<lambda>i c. if nd_use (vf_node s i) then Suc c else c) 0"

definition vfs_count_aliases :: "vfs \<Rightarrow> int \<Rightarrow> nat" where
  "vfs_count_aliases s i =
     (if \<not> node_range i \<or> \<not> nd_use (node_at s i) then 0
      else if nd_type (node_at s i) \<noteq> FS_FILE then 1
      else if nd_sector (node_at s i) \<le> 0 then 1
      else for_upto MAX_NODES (\<lambda>j c. if nd_use (vf_node s j) \<and> nd_type (vf_node s j) = FS_FILE \<and> nd_sector (vf_node s j) = nd_sector (node_at s i)
             then Suc c else c) 0)"

record vfs_stat_t =
  st_node :: vfs_node
  st_idx :: int
  st_nlink :: nat

text \<open>\<open>vfs_stat_follow\<close>, \<open>vfs_stat_nofollow\<close> and \<open>vfs_nlink\<close>; \<open>None\<close> for -1.\<close>

definition vfs_stat :: "venv \<Rightarrow> string \<Rightarrow> bool \<Rightarrow> vfs \<Rightarrow> vfs_stat_t option \<times> vfs" where
  "vfs_stat e path nofollow s =
     (let (n, s1) = vfs_walk_path e path nofollow s
      in if n < 0 then (None, s1)
         else (Some \<lparr>st_node = node_at s1 n, st_idx = n, st_nlink = vfs_count_aliases s1 n\<rparr>, s1))"

definition vfs_nlink :: "venv \<Rightarrow> string \<Rightarrow> bool \<Rightarrow> vfs \<Rightarrow> int \<times> vfs" where
  "vfs_nlink e path follow s =
     (let (n, s1) = vfs_walk_path e path (\<not> follow) s in if n < 0 then (-1, s1) else (int (vfs_count_aliases s1 n), s1))"

definition vfs_readlink :: "venv \<Rightarrow> string \<Rightarrow> nat \<Rightarrow> vfs \<Rightarrow> string option \<times> vfs" where
  "vfs_readlink e path sz s =
     (if sz = 0 then (None, s)
      else (let (n, s1) = vfs_walk_path e path True s
            in if n < 0 \<or> nd_type (node_at s1 n) \<noteq> FS_SYMLINK then (None, s1)
               else (Some (take sz (take VFS_SYMLINK_MAX (nd_link (node_at s1 n)))), s1)))"

end
