(* ===== verification/Vfs_Ops.thy ===== *)
theory Vfs_Ops
  imports Vfs_Walk
begin

text \<open>
  The namespace operations of \<open>src/sys/vfs.c\<close>: directories and files are made, linked, removed,
  renamed and re-owned, and the table is loaded from the image. The entries that \<open>ext2.c\<close> and
  \<open>fat32.c\<close> remove or update on their own volumes are not part of this state.
\<close>

section \<open>Directories and files\<close>

definition create_at :: "venv \<Rightarrow> string \<Rightarrow> fs_type \<Rightarrow> vfs \<Rightarrow> int \<times> vfs" where
  "create_at e path ty s =
     (case vfs_get_parent s path MAX_PATH of
        None \<Rightarrow> (-1, s)
      | Some pp \<Rightarrow>
         (let (parent, s1) = vfs_get_node e pp s
          in if parent < 0 then (-1, s1) else vfs_create_node e (path_base path) ty parent s1))"

definition vfs_mkdir :: "venv \<Rightarrow> string \<Rightarrow> vfs \<Rightarrow> int \<times> vfs" where
  "vfs_mkdir e path s = create_at e path FS_DIR s"

definition vfs_create_file :: "venv \<Rightarrow> string \<Rightarrow> vfs \<Rightarrow> int \<times> vfs" where
  "vfs_create_file e path s = create_at e path FS_FILE s"

section \<open>Links\<close>

text \<open>The directory and the name of a new link: an error code, or both.\<close>

definition new_link_place :: "venv \<Rightarrow> string \<Rightarrow> vfs \<Rightarrow> (int + int \<times> string) \<times> vfs" where
  "new_link_place e path s =
     (case split_path (vfs_resolve_path s path MAX_PATH) of
        None \<Rightarrow> (Inl (-1), s)
      | Some [] \<Rightarrow> (Inl (-1), s)
      | Some cs \<Rightarrow>
         (let d = link_dir s 0 (butlast cs)
          in if d < 0 then (Inl (-1), s)
             else if vfs_find_in_dir s (last cs) d \<ge> 0 then (Inl (-2), s)
             else (let (r, s1) = vfs_proc_lazy_lookup e d (last cs) True s
                   in if r = -2 then (Inl (-2), s1) else (Inr (d, last cs), s1))))"

definition vfs_symlink :: "venv \<Rightarrow> string \<Rightarrow> string \<Rightarrow> vfs \<Rightarrow> int \<times> vfs" where
  "vfs_symlink e target path s =
     (if target = [] \<or> length target \<ge> VFS_SYMLINK_MAX then (-1, s)
      else (case new_link_place e path s of
              (Inl err, s1) \<Rightarrow> (err, s1)
            | (Inr (d, name), s1) \<Rightarrow>
                (let (n, s2) = vfs_create_node e name FS_SYMLINK d s1
                 in if n < 0 then (n, s2) else (n, set_node (nat n) ((node_at s2 n)\<lparr>nd_link := target\<rparr>) s2))))"

definition PASSWD_PROTECT_PATH :: string where
  "PASSWD_PROTECT_PATH = ''/etc/passwd''"

text \<open>The protected-file test as it stands: it compares the result of \<open>vfs_get_abs_path\<close> with 0.\<close>

definition passwd_guard :: "int \<Rightarrow> int \<Rightarrow> vfs \<Rightarrow> bool" where
  "passwd_guard uid i s \<longleftrightarrow>
     uid \<noteq> ROOT_UID \<and> (let (rc, ap) = vfs_get_abs_path s i MAX_PATH in rc = 0 \<and> ap = PASSWD_PROTECT_PATH)"

definition vfs_hardlink_as :: "venv \<Rightarrow> string \<Rightarrow> string \<Rightarrow> int \<Rightarrow> vfs \<Rightarrow> int \<times> vfs" where
  "vfs_hardlink_as e old path uid s =
     (let (src, s1) = vfs_walk_path e old False s; sn = node_at s1 src
      in if src < 0 then (-1, s1)
         else if nd_type sn \<noteq> FS_FILE then (-3, s1)
         else if nd_sector sn \<le> 0 then (-4, s1)
         else if uid \<noteq> ROOT_UID \<and> nd_uid sn \<noteq> uid mod 65536 then (-8, s1)
         else if passwd_guard uid src s1 then (-8, s1)
         else (case new_link_place e path s1 of
                 (Inl err, s2) \<Rightarrow> (err, s2)
               | (Inr (d, name), s2) \<Rightarrow>
                   (let (n, s3) = vfs_create_node e name FS_FILE d s2
                    in if n < 0 then (-1, s3)
                       else (let f = node_at s3 src;
                                 s4 = set_node (nat n) ((node_at s3 n)\<lparr>nd_sector := nd_sector f, nd_size := nd_size f,
                                        nd_uid := nd_uid f, nd_gid := nd_gid f, nd_mode := nd_mode f\<rparr>) s3
                             in (0, snd (vfs_save e s4))))))"

definition vfs_hardlink :: "venv \<Rightarrow> string \<Rightarrow> string \<Rightarrow> vfs \<Rightarrow> int \<times> vfs" where
  "vfs_hardlink e old path s = vfs_hardlink_as e old path USER_UID s"

section \<open>Removing\<close>

definition tmpfs_free_node :: "nat \<Rightarrow> vfs \<Rightarrow> vfs" where
  "tmpfs_free_node i s =
     (let s1 = (if vf_ram s i \<noteq> None then s\<lparr>vf_used := vf_used s - of_int (vf_cap s i), vf_ram := (vf_ram s)(i := None)\<rparr> else s)
      in s1\<lparr>vf_cap := (vf_cap s1)(i := 0)\<rparr>)"

definition drop_node :: "nat \<Rightarrow> vfs \<Rightarrow> vfs" where
  "drop_node i s =
     (let s1 = tmpfs_free_node i (pc_drop (int i) s)
      in set_node i ((vf_node s1 i)\<lparr>nd_use := False, nd_size := 0, nd_sector := 0\<rparr>) s1)"

text \<open>Is \<open>t\<close> met on the way up from \<open>p\<close>?\<close>

fun descends :: "nat \<Rightarrow> vfs \<Rightarrow> int \<Rightarrow> int \<Rightarrow> bool" where
  "descends 0 s p t = False"
| "descends (Suc k) s p t =
     (0 \<le> p \<and> (p = t \<or> nd_use (node_at s p) \<and> descends k s (nd_parent (node_at s p)) t))"

definition below :: "vfs \<Rightarrow> int \<Rightarrow> nat \<Rightarrow> bool" where
  "below s t i = descends MAX_NODES s (nd_parent (vf_node s i)) t"

definition has_children :: "vfs \<Rightarrow> nat \<Rightarrow> bool" where
  "has_children s i \<longleftrightarrow> (\<exists>j < MAX_NODES. nd_use (vf_node s j) \<and> nd_parent (vf_node s j) = int i)"

text \<open>One pass over the table, dropping nodes one by one; passes are repeated until one drops
  nothing. \<open>rf\<close> abandons the whole removal.\<close>

record pass =
  ps_refused :: bool
  ps_changed :: bool
  ps_vfs :: vfs

definition sweep_node :: "(vfs \<Rightarrow> nat \<Rightarrow> bool) \<Rightarrow> (vfs \<Rightarrow> nat \<Rightarrow> bool) \<Rightarrow> nat \<Rightarrow> pass \<Rightarrow> pass" where
  "sweep_node rf dr i p =
     (let s = ps_vfs p
      in if ps_refused p \<or> \<not> nd_use (vf_node s i) then p
         else if rf s i then p\<lparr>ps_refused := True\<rparr>
         else if dr s i then p\<lparr>ps_changed := True, ps_vfs := drop_node i s\<rparr>
         else p)"

definition sweep :: "(vfs \<Rightarrow> nat \<Rightarrow> bool) \<Rightarrow> (vfs \<Rightarrow> nat \<Rightarrow> bool) \<Rightarrow> vfs \<Rightarrow> pass" where
  "sweep rf dr s = for_upto MAX_NODES (sweep_node rf dr) \<lparr>ps_refused = False, ps_changed = False, ps_vfs = s\<rparr>"

definition used :: "vfs \<Rightarrow> nat set" where
  "used s = {i. i < MAX_NODES \<and> nd_use (vf_node s i)}"

lemma drop_node_node [simp]:
  "vf_node (drop_node i s) = (vf_node s)(i := (vf_node s i)\<lparr>nd_use := False, nd_size := 0, nd_sector := 0\<rparr>)"
  by (simp add: drop_node_def tmpfs_free_node_def pc_drop_def set_node_def Let_def)

lemma used_drop: "used (drop_node i s) = used s - {i}"
  by (auto simp: used_def)

lemma finite_used [simp]: "finite (used s)"
  by (simp add: used_def)

lemma sweep_used:
  "used (ps_vfs (sweep rf dr s)) \<subseteq> used s
    \<and> (ps_changed (sweep rf dr s) \<longrightarrow> used (ps_vfs (sweep rf dr s)) \<noteq> used s)"
  unfolding sweep_def
proof (rule for_upto_invariant [where I = "\<lambda>p. used (ps_vfs p) \<subseteq> used s \<and> (ps_changed p \<longrightarrow> used (ps_vfs p) \<noteq> used s)"])
  fix i and p :: pass assume i: "i < MAX_NODES" and p: "used (ps_vfs p) \<subseteq> used s \<and> (ps_changed p \<longrightarrow> used (ps_vfs p) \<noteq> used s)"
  have "i \<in> used (ps_vfs p)" if "nd_use (vf_node (ps_vfs p) i)" using i that by (simp add: used_def)
  then show "used (ps_vfs (sweep_node rf dr i p)) \<subseteq> used s
      \<and> (ps_changed (sweep_node rf dr i p) \<longrightarrow> used (ps_vfs (sweep_node rf dr i p)) \<noteq> used s)"
    using p by (auto simp: sweep_node_def Let_def used_drop)
qed simp

function sweep_all :: "(vfs \<Rightarrow> nat \<Rightarrow> bool) \<Rightarrow> (vfs \<Rightarrow> nat \<Rightarrow> bool) \<Rightarrow> vfs \<Rightarrow> bool \<times> vfs" where
  "sweep_all rf dr s =
     (let p = sweep rf dr s
      in if ps_refused p then (True, ps_vfs p)
         else if ps_changed p then sweep_all rf dr (ps_vfs p)
         else (False, ps_vfs p))"
  by pat_completeness auto

termination sweep_all
proof (relation "measure (\<lambda>(r, d, s). card (used s))", goal_cases)
  case (2 rf dr s p)
  then have "used (ps_vfs p) \<subset> used s" using sweep_used [of rf dr s] by auto
  then show ?case by (simp add: psubset_card_mono)
qed simp

declare sweep_all.simps [simp del]

definition vfs_clear_children :: "int \<Rightarrow> vfs \<Rightarrow> vfs" where
  "vfs_clear_children d s =
     (if \<not> node_range d then s else snd (sweep_all (\<lambda>_ _. False) (\<lambda>s i. below s d i) s))"

definition all_digits :: "string \<Rightarrow> bool" where
  "all_digits n \<longleftrightarrow> n \<noteq> [] \<and> list_all is_digit n"

text \<open>The nodes that are never removed: code -7.\<close>

definition permanent :: "vfs \<Rightarrow> int \<Rightarrow> bool" where
  "permanent s i =
     (let n = node_at s i; p = nd_parent n
      in nd_type n = FS_PROC
       \<or> nd_type n = FS_DIR \<and> p = 0 \<and> nd_name n = ''proc''
       \<or> nd_type n = FS_RAM_DIR \<and> p = 0 \<and> nd_name n = ''tmp''
       \<or> nd_type n = FS_DIR \<and> p > 0 \<and> nd_use (node_at s p) \<and> nd_parent (node_at s p) = 0 \<and> nd_name (node_at s p) = ''proc''
           \<and> all_digits (nd_name n))"

definition vfs_delete_node_as :: "venv \<Rightarrow> string \<Rightarrow> int \<Rightarrow> vfs \<Rightarrow> int \<times> vfs" where
  "vfs_delete_node_as e path uid s =
     (let (i, s1) = vfs_get_node_nofollow e path s
      in if i < 0 then (-1, s1)
         else if i = 0 then (-3, s1)
         else if permanent s1 i then (-7, s1)
         else if passwd_guard uid i s1 then (-8, s1)
         else if ve_open e i then (-6, s1)
         else (let t = nd_type (node_at s1 i);
                   (refused, s2) = (if t = FS_DIR \<or> t = FS_EXT2_DIR \<or> t = FS_FAT32_DIR
                      then sweep_all (\<lambda>s j. below s i j \<and> passwd_guard uid (int j) s) (\<lambda>s j. below s i j \<and> \<not> has_children s j) s1
                      else (False, s1))
               in if refused then (-8, s2) else (0, snd (vfs_save e (drop_node (nat i) s2)))))"

definition vfs_delete_node :: "venv \<Rightarrow> string \<Rightarrow> vfs \<Rightarrow> int \<times> vfs" where
  "vfs_delete_node e path s = vfs_delete_node_as e path USER_UID s"

section \<open>Renaming\<close>

text \<open>The walk up from the new parent: \<open>None\<close> when it does not end, else whether \<open>t\<close> is on it.\<close>

fun chain_hits :: "nat \<Rightarrow> vfs \<Rightarrow> int \<Rightarrow> int \<Rightarrow> bool option" where
  "chain_hits 0 s p t = None"
| "chain_hits (Suc k) s p t =
     (if p \<le> 0 then Some False else if p = t then Some True else chain_hits k s (nd_parent (node_at s p)) t)"

definition backend_rename :: "venv \<Rightarrow> vfs \<Rightarrow> vfs_node \<Rightarrow> int \<Rightarrow> string \<Rightarrow> bool" where
  "backend_rename e s n new_parent name =
     (let p = nd_parent n
      in if nd_type n = FS_EXT2_FILE \<or> nd_type n = FS_EXT2_DIR then
           p = new_parent \<and> nd_type (node_at s p) = FS_EXT2_DIR \<and> ve_sel e (nat p)
             \<and> ve_ext2_rename e (nd_inode (node_at s p)) (nd_name n) name (nd_inode n)
         else if nd_type n = FS_FAT32_FILE \<or> nd_type n = FS_FAT32_DIR then
           p = new_parent \<and> nd_type (node_at s p) = FS_FAT32_DIR \<and> ve_sel e (nat p)
             \<and> ve_fat_rename e (nd_sector (node_at s p)) (nd_name n) name
         else True)"

definition vfs_rename_as :: "venv \<Rightarrow> string \<Rightarrow> string \<Rightarrow> int \<Rightarrow> vfs \<Rightarrow> int \<times> vfs" where
  "vfs_rename_as e old path uid s =
     (let (i, s1) = vfs_get_node_nofollow e old s
      in if i < 0 then (-1, s1)
         else if i = 0 then (-3, s1)
         else if passwd_guard uid i s1 then (-8, s1)
         else (case vfs_get_parent s1 path MAX_PATH of
                 None \<Rightarrow> (-1, s1)
               | Some pp \<Rightarrow>
                  (let name = path_base path; (np, s2) = vfs_get_node e pp s1
                   in if np < 0 then (-1, s2)
                      else if np = i \<or> chain_hits (Suc MAX_NODES) s2 np i \<noteq> Some False then (-4, s2)
                      else (let s3 = (if vfs_find_in_dir s2 name np \<ge> 0 then snd (vfs_delete_node_as e path uid s2) else s2);
                                n = node_at s3 i
                            in if \<not> backend_rename e s3 n np name then (-5, s3)
                               else (0, snd (vfs_save e (set_node (nat i) (n\<lparr>nd_parent := np, nd_name := take (MAX_FILENAME - 1) name\<rparr>) s3)))))))"

definition vfs_rename :: "venv \<Rightarrow> string \<Rightarrow> string \<Rightarrow> vfs \<Rightarrow> int \<times> vfs" where
  "vfs_rename e old path s = vfs_rename_as e old path USER_UID s"

section \<open>Ownership and permissions\<close>

definition vfs_check_perm :: "venv \<Rightarrow> vfs \<Rightarrow> int \<Rightarrow> u16 \<Rightarrow> bool" where
  "vfs_check_perm e s i want \<longleftrightarrow>
     node_range i \<and> nd_use (node_at s i)
     \<and> (let n = node_at s i; t = nd_type n
        in if t = FS_FAT32_FILE \<or> t = FS_FAT32_DIR \<or> t = FS_PROC \<or> t = FS_DEV then True
           else if ve_uid e = ROOT_UID then True
           else (let bits = (if ve_uid e = nd_uid n then drop_bit 6 (nd_mode n) AND 7 else nd_mode n AND 7)
                 in bits AND (drop_bit 6 want AND 7) \<noteq> 0))"

definition vfs_chmod :: "venv \<Rightarrow> string \<Rightarrow> u16 \<Rightarrow> vfs \<Rightarrow> int \<times> vfs" where
  "vfs_chmod e path mode s =
     (let (i, s1) = vfs_get_node e path s
      in if i < 0 \<or> \<not> node_range i \<or> \<not> nd_use (node_at s1 i) then (-1, s1)
         else if ve_uid e \<noteq> ROOT_UID \<and> ve_uid e \<noteq> nd_uid (node_at s1 i) then (-1, s1)
         else (0, save_unless_seeding e (set_node (nat i) ((node_at s1 i)\<lparr>nd_mode := mode AND 0x1FF\<rparr>) s1)))"

definition vfs_chown :: "venv \<Rightarrow> string \<Rightarrow> int \<Rightarrow> int \<Rightarrow> vfs \<Rightarrow> int \<times> vfs" where
  "vfs_chown e path uid gid s =
     (let (i, s1) = vfs_get_node e path s
      in if i < 0 \<or> \<not> node_range i \<or> \<not> nd_use (node_at s1 i) then (-1, s1)
         else if ve_uid e \<noteq> ROOT_UID then (-1, s1)
         else (0, save_unless_seeding e (set_node (nat i) ((node_at s1 i)\<lparr>nd_uid := uid mod 65536, nd_gid := gid mod 65536\<rparr>) s1)))"

definition vfs_set_mode :: "venv \<Rightarrow> string \<Rightarrow> u16 \<Rightarrow> vfs \<Rightarrow> int \<times> vfs" where
  "vfs_set_mode e path mode s =
     (let (i, s1) = vfs_get_node e path s
      in if i < 0 then (-1, s1)
         else (0, save_unless_seeding e (set_node (nat i) ((node_at s1 i)\<lparr>nd_mode := mode AND 0x1FF\<rparr>) s1)))"

text \<open>\<open>rwxr-xr-x\<close>.\<close>

definition vfs_format_mode :: "u16 \<Rightarrow> string" where
  "vfs_format_mode mode = map (\<lambda>i. if mode AND drop_bit i 0x100 \<noteq> 0 then ''rwxrwxrwx'' ! i else CHR ''-'') [0..<9]"

definition vfs_mode_char :: "fs_type \<Rightarrow> char" where
  "vfs_mode_char t = (if t = FS_DIR \<or> t = FS_EXT2_DIR \<or> t = FS_FAT32_DIR then CHR ''d''
     else if t = FS_DEV then CHR ''c'' else if t = FS_PROC then CHR ''p'' else if t = FS_SYMLINK then CHR ''l'' else CHR ''-'')"

section \<open>Loading the image\<close>

definition load_nodes :: "venv \<Rightarrow> vfs \<Rightarrow> vfs" where
  "load_nodes e s =
     (let n = (case first_idx (\<lambda>i. \<not> ve_rd e (VFS_NODE_START + i) 1) 0 VFS_NODE_SECTORS of None \<Rightarrow> VFS_NODE_SECTORS | Some i \<Rightarrow> i)
      in s\<lparr>vf_node := (\<lambda>j. if j < n then vf_tab s j else vf_node s j)\<rparr>)"

definition sane_node :: "nat \<Rightarrow> vfs \<Rightarrow> vfs" where
  "sane_node i s =
     (let n = (vf_node s i)\<lparr>nd_name := take (MAX_FILENAME - 1) (nd_name (vf_node s i))\<rparr>
      in set_node i (if nd_use n \<and> (nd_parent n < -1 \<or> nd_parent n \<ge> int MAX_NODES) then n\<lparr>nd_parent := 0\<rparr> else n) s)"

text \<open>The walk up from node \<open>i\<close> that looks for \<open>i\<close>: whether it was met, and the step counter.\<close>

function up_check :: "vfs \<Rightarrow> int \<Rightarrow> int \<Rightarrow> nat \<Rightarrow> bool \<times> nat" where
  "up_check s i p k =
     (if \<not> node_range p then (False, k)
      else if k > MAX_NODES then (False, Suc k)
      else if p = i then (True, Suc k)
      else if \<not> nd_use (node_at s p) then (False, Suc k)
      else up_check s i (nd_parent (node_at s p)) (Suc k))"
  by pat_completeness auto

termination up_check
  by (relation "measure (\<lambda>(s, i, p, k). Suc MAX_NODES - k)") auto

declare up_check.simps [simp del]

definition break_cycle :: "nat \<Rightarrow> vfs \<Rightarrow> vfs" where
  "break_cycle i s =
     (let n = vf_node s i; (hit, k) = up_check s (int i) (nd_parent n) 0
      in if nd_use n \<and> (hit \<or> k > MAX_NODES) then set_node i (n\<lparr>nd_parent := 0\<rparr>) s else s)"

definition vfs_load :: "venv \<Rightarrow> vfs \<Rightarrow> bool \<times> vfs" where
  "vfs_load e s =
     (if \<not> ve_rd e 0 1 \<or> \<not> mt_magic (vf_meta s) \<or> mt_version (vf_meta s) \<noteq> VFS_LAYOUT_VERSION then (False, s)
      else (let s1 = load_nodes e s
            in if \<exists>i < VFS_NODE_SECTORS. \<not> ve_rd e (VFS_NODE_START + i) 1 then (False, s1)
               else (let s2 = for_upto MAX_NODES break_cycle (for_upto MAX_NODES sane_node s1);
                         d = mt_dir (vf_meta s);
                         s3 = s2\<lparr>vf_cwd := (if \<not> node_range d \<or> \<not> nd_use (node_at s2 d) then 0 else d)\<rparr>
                     in (nd_use (vf_node s3 0), s3))))"

end
