(* ===== verification/Vfs_File.thy ===== *)
theory Vfs_File
  imports Vfs_Ops
begin

text \<open>
  File contents in \<open>src/sys/vfs.c\<close>: the RAM files, the sector allocator, and reading and
  writing a file through the page cache and the block layer.

  A result is the code's return value with the bytes it put into the caller's buffer; the
  terminating NUL that some paths add is left out. \<open>junk\<close> is what the buffers held before: a
  failed \<open>block_read\<close> leaves it there. A size argument is never negative.
\<close>

section \<open>RAM files\<close>

definition TMPFS_MAX_FILE :: int where
  "TMPFS_MAX_FILE = 262144"

definition VFS_TMPFS_MAX_BYTES :: u32 where
  "VFS_TMPFS_MAX_BYTES = 2097152"

definition ram_bytes :: "vfs \<Rightarrow> nat \<Rightarrow> nat \<Rightarrow> u8" where
  "ram_bytes s i = (case vf_ram s i of None \<Rightarrow> (\<lambda>_. 0) | Some b \<Rightarrow> b)"

definition tmpfs_grow :: "venv \<Rightarrow> nat \<Rightarrow> int \<Rightarrow> vfs \<Rightarrow> bool \<times> vfs" where
  "tmpfs_grow e i newsz s =
     (if newsz > TMPFS_MAX_FILE then (False, s)
      else if vf_cap s i \<ge> newsz then (True, s)
      else (let want = (newsz + 511) div 512 * 512; delta = want - vf_cap s i
            in if of_int delta > VFS_TMPFS_MAX_BYTES - vf_used s then (False, s)
               else if \<not> ve_mem e (nat want) then (False, s)
               else (let keep = min (nd_size (vf_node s i)) newsz;
                         b = (case vf_ram s i of None \<Rightarrow> (\<lambda>_. 0) | Some old \<Rightarrow> (\<lambda>k. if int k < keep then old k else 0));
                         used1 = (if vf_ram s i = None then vf_used s else vf_used s - of_int (vf_cap s i))
                     in (True, s\<lparr>vf_ram := (vf_ram s)(i := Some b), vf_cap := (vf_cap s)(i := want), vf_used := used1 + of_int want\<rparr>))))"

definition tmpfs_read_range :: "vfs \<Rightarrow> nat \<Rightarrow> int \<Rightarrow> int \<Rightarrow> u8 list" where
  "tmpfs_read_range s i off len =
     (case vf_ram s i of None \<Rightarrow> []
      | Some b \<Rightarrow> if off \<ge> nd_size (vf_node s i) then []
                  else map (\<lambda>k. b (nat off + k)) [0..<nat (min len (nd_size (vf_node s i) - off))])"

definition tmpfs_read_whole :: "vfs \<Rightarrow> nat \<Rightarrow> int \<Rightarrow> u8 list" where
  "tmpfs_read_whole s i max_size =
     (let z = min (nd_size (vf_node s i)) max_size in if z \<le> 0 then [] else tmpfs_read_range s i 0 z)"

definition set_ram :: "nat \<Rightarrow> (nat \<Rightarrow> u8) \<Rightarrow> int \<Rightarrow> vfs \<Rightarrow> vfs" where
  "set_ram i b z s =
     pc_drop (int i) (set_node i ((vf_node s i)\<lparr>nd_size := z\<rparr>) (s\<lparr>vf_ram := (vf_ram s)(i := map_option (\<lambda>_. b) (vf_ram s i))\<rparr>))"

definition tmpfs_write_whole :: "venv \<Rightarrow> nat \<Rightarrow> u8 list \<Rightarrow> vfs \<Rightarrow> int \<times> vfs" where
  "tmpfs_write_whole e i data s =
     (let z = int (length data)
      in if z > TMPFS_MAX_FILE then (-3, s)
         else (let (ok, s1) = tmpfs_grow e i z s
               in if \<not> ok then (-3, s1)
                  else (z, set_ram i (\<lambda>k. if k < length data then data ! k else ram_bytes s1 i k) z s1)))"

definition vfs_write_file_offset :: "venv \<Rightarrow> int \<Rightarrow> int \<Rightarrow> u8 list \<Rightarrow> bool \<Rightarrow> vfs \<Rightarrow> int \<times> vfs" where
  "vfs_write_file_offset e i offset data app s =
     (let n = node_at s i; off = (if app then nd_size n else offset); len0 = int (length data)
      in if \<not> node_range i \<or> \<not> nd_use n \<or> nd_type n \<noteq> FS_RAM_FILE then (-1, s)
         else if off < 0 \<or> off > TMPFS_MAX_FILE \<or> len0 > TMPFS_MAX_FILE then (-1, s)
         else (let len = (if off + len0 > TMPFS_MAX_FILE then TMPFS_MAX_FILE - off else len0); end' = off + len
               in if off + len0 > TMPFS_MAX_FILE \<and> len \<le> 0 then (-1, s)
                  else (let (ok, s1) = tmpfs_grow e (nat i) end' s
                        in if \<not> ok then (-3, s1)
                           else (let z = nd_size (node_at s1 i);
                                     b = (\<lambda>k. if off \<le> int k \<and> int k < end' then data ! (k - nat off)
                                              else if z \<le> int k \<and> int k < off then 0 else ram_bytes s1 (nat i) k)
                                 in (len, set_ram (nat i) b (if end' > z then end' else z) s1)))))"

definition vfs_tmpfs_free_subtree :: "int \<Rightarrow> vfs \<Rightarrow> vfs" where
  "vfs_tmpfs_free_subtree m s =
     (if \<not> node_range m then s
      else tmpfs_free_node (nat m)
        (for_upto MAX_NODES (\<lambda>i s. if 0 < i \<and> nd_use (vf_node s i) \<and> vfs_is_ram_type (nd_type (vf_node s i)) \<and> nd_parent (vf_node s i) = m
           then drop_node i s else s) s))"

definition tmpfs_free_all :: "vfs \<Rightarrow> vfs" where
  "tmpfs_free_all s = (for_upto MAX_NODES tmpfs_free_node s)\<lparr>vf_used := 0\<rparr>"

definition vfs_purge_stale_tmpfs :: "vfs \<Rightarrow> vfs" where
  "vfs_purge_stale_tmpfs s =
     for_upto MAX_NODES (\<lambda>i s. if 0 < i \<and> nd_use (vf_node s i) \<and> vfs_is_ram_type (nd_type (vf_node s i))
        then pc_drop (int i) (set_node i ((vf_node s i)\<lparr>nd_use := False, nd_size := 0, nd_sector := 0\<rparr>) s) else s) (tmpfs_free_all s)"

section \<open>The sector allocator\<close>

text \<open>Sectors a file of a size occupies: at least one.\<close>

definition nsec :: "int \<Rightarrow> int" where
  "nsec z = (let k = (z + 511) div 512 in if k < 1 then 1 else k)"

definition holds_sector :: "vfs_node \<Rightarrow> nat \<Rightarrow> bool" where
  "holds_sector n x \<longleftrightarrow> nd_use n \<and> nd_type n = FS_FILE \<and> nd_sector n > 0
     \<and> nd_sector n \<le> int x \<and> int x < nd_sector n + nsec (nd_size n)"

definition sector_map :: "vfs \<Rightarrow> int \<Rightarrow> nat \<Rightarrow> bool" where
  "sector_map s exclude x \<longleftrightarrow> x < VFS_DATA_START \<or> (\<exists>i < MAX_NODES. int i \<noteq> exclude \<and> holds_sector (vf_node s i) x)"

definition vfs_alloc_sectors :: "vfs \<Rightarrow> nat \<Rightarrow> int \<Rightarrow> int" where
  "vfs_alloc_sectors s needed exclude =
     slot_result (first_idx (\<lambda>i. \<forall>k < needed. \<not> sector_map s exclude (i + k)) VFS_DATA_START (Suc VFS_DISK_SECTORS - needed))"

section \<open>Block transfers\<close>

definition disk_byte :: "vfs \<Rightarrow> nat \<Rightarrow> nat \<Rightarrow> u8" where
  "disk_byte s sec i = vf_disk s (sec + i div 512) (i mod 512)"

text \<open>Sectors \<open>k\<close> to \<open>n\<close> of a run, batch by batch, into a buffer.\<close>

function read_secs :: "venv \<Rightarrow> vfs \<Rightarrow> nat \<Rightarrow> nat \<Rightarrow> nat \<Rightarrow> (nat \<Rightarrow> u8) \<Rightarrow> (nat \<Rightarrow> u8)" where
  "read_secs e s sec k n buf =
     (if k < n then
        (let b = batch_at (sec + k) (n - k)
         in read_secs e s sec (k + b) n
              (if ve_rd e (sec + k) b then (\<lambda>i. if k * 512 \<le> i \<and> i < (k + b) * 512 then disk_byte s sec i else buf i) else buf))
      else buf)"
  by pat_completeness auto

termination read_secs
proof (relation "measure (\<lambda>(e, s, sec, k, n, buf). n - k)", goal_cases)
  case (2 e s sec k n buf b)
  then show ?case using batch_pos [of "sec + k" "n - k"] by simp
qed simp

declare read_secs.simps [simp del]

definition read_span :: "venv \<Rightarrow> vfs \<Rightarrow> nat \<Rightarrow> nat \<Rightarrow> (nat \<Rightarrow> u8) \<Rightarrow> (nat \<Rightarrow> u8)" where
  "read_span e s sec z junk =
     (let full = z div 512; buf = read_secs e s sec 0 full junk
      in if z mod 512 > 0 \<and> ve_rd e (sec + full) 1
         then (\<lambda>i. if full * 512 \<le> i \<and> i < z then disk_byte s sec i else buf i) else buf)"

definition data_byte :: "u8 list \<Rightarrow> nat \<Rightarrow> u8" where
  "data_byte data i = (if i < length data then data ! i else 0)"

text \<open>\<open>n\<close> sectors from sector \<open>k\<close> of the data on, padded with zeros.\<close>

definition store_data :: "nat \<Rightarrow> nat \<Rightarrow> nat \<Rightarrow> u8 list \<Rightarrow> vfs \<Rightarrow> vfs" where
  "store_data start k n data s =
     s\<lparr>vf_disk := (\<lambda>x j. if start + k \<le> x \<and> x < start + k + n then data_byte data ((x - start) * 512 + j) else vf_disk s x j)\<rparr>"

function write_secs :: "venv \<Rightarrow> bool \<Rightarrow> nat \<Rightarrow> nat \<Rightarrow> nat \<Rightarrow> u8 list \<Rightarrow> vfs \<Rightarrow> bool \<times> vfs" where
  "write_secs e buf start k n data s =
     (if k < n then
        (let b = (if buf then batch_at (start + k) (n - k) else 1)
         in case ve_wr e (start + k) b of
              None \<Rightarrow> write_secs e buf start (k + b) n data (store_data start k b data s)
            | Some m \<Rightarrow> (False, store_data start k (min m b) data s))
      else (True, s))"
  by pat_completeness auto

termination write_secs
proof (relation "measure (\<lambda>(e, buf, start, k, n, data, s). n - k)", goal_cases)
  case (2 e buf start k n data s b)
  then have "0 < b" using batch_pos by simp
  then show ?case using 2 by (simp add: diff_less_mono2)
qed simp

declare write_secs.simps [simp del]

section \<open>Reading\<close>

definition buf_list :: "(nat \<Rightarrow> u8) \<Rightarrow> int \<Rightarrow> u8 list" where
  "buf_list b n = map b [0..<nat n]"

definition read_native :: "venv \<Rightarrow> int \<Rightarrow> int \<Rightarrow> (nat \<Rightarrow> u8) \<Rightarrow> vfs \<Rightarrow> (int \<times> u8 list) \<times> vfs" where
  "read_native e i max_size junk s =
     (let n = node_at s i; z = min (nd_size n) max_size
      in if z \<le> 0 then ((0, []), s)
         else (case pcache_read (ve_now e) i (nd_size n) 0 z (vf_pc s) of
                 (Some bs, pc) \<Rightarrow> ((int (length bs), bs), s\<lparr>vf_pc := pc\<rparr>)
               | (None, pc) \<Rightarrow>
                   (let s1 = s\<lparr>vf_pc := pc\<rparr>; sec = nd_sector n
                    in if sec \<le> 0 \<or> sec \<ge> int VFS_DISK_SECTORS then ((0, []), s1)
                       else (let z1 = min z ((int VFS_DISK_SECTORS - sec) * 512);
                                 b = read_span e s1 (nat sec) (nat z1) junk
                             in ((z1, buf_list b z1), s1\<lparr>vf_pc := pcache_insert (ve_mem e) (ve_now e) i b z1 (vf_pc s1)\<rparr>)))))"

definition vfs_read_file :: "venv \<Rightarrow> string \<Rightarrow> int \<Rightarrow> (nat \<Rightarrow> u8) \<Rightarrow> vfs \<Rightarrow> (int \<times> u8 list) \<times> vfs" where
  "vfs_read_file e path max_size junk s =
     (let (i, s1) = vfs_get_node e path s; n = node_at s1 i
      in if i < 0 \<or> max_size \<le> 0 then ((-1, []), s1)
         else (case nd_type n of
                 FS_PROC \<Rightarrow> (ve_proc_read e n max_size, s1)
               | FS_DEV \<Rightarrow>
                   (if nd_name n = ''zero'' then ((max_size, replicate (nat max_size) 0), s1)
                    else if nd_name n = ''null'' then ((0, []), s1)
                    else if nd_name n = ''random'' then
                      (case ve_random e max_size of Some bs \<Rightarrow> ((max_size, bs), s1) | None \<Rightarrow> ((0, []), s1))
                    else ((-2, []), s1))
               | FS_RAM_FILE \<Rightarrow> (let bs = tmpfs_read_whole s1 (nat i) max_size in ((int (length bs), bs), s1))
               | FS_EXT2_FILE \<Rightarrow> (if \<not> ve_sel e (nat i) then (-1, []) else ve_ext2_read e (nd_inode n) 0 max_size, s1)
               | FS_FAT32_FILE \<Rightarrow>
                   (if \<not> ve_sel e (nat i) then (-1, []) else ve_fat_read e (nd_sector n) 0 (min (nd_size n) max_size), s1)
               | FS_FILE \<Rightarrow> read_native e i max_size junk s1
               | _ \<Rightarrow> ((-2, []), s1)))"

text \<open>A window of a native file: a miss at offset 0 caches the whole file first.\<close>

definition read_window :: "venv \<Rightarrow> int \<Rightarrow> int \<Rightarrow> int \<Rightarrow> (nat \<Rightarrow> u8) \<Rightarrow> vfs \<Rightarrow> int \<times> u8 list" where
  "read_window e i off len junk s =
     (let sec = nd_sector (node_at s i) + off div 512
      in if sec < 0 \<or> sec \<ge> int VFS_DISK_SECTORS then (-1, [])
         else (let len1 = min len ((int VFS_DISK_SECTORS - sec) * 512);
                   in_off = nat (off mod 512);
                   head = (if in_off > 0 then min (512 - in_off) (nat len1) else 0);
                   hd_bytes = map (\<lambda>k. if ve_rd e (nat sec) 1 then vf_disk s (nat sec) (in_off + k) else junk k) [0..<head];
                   sec1 = (if in_off > 0 then nat sec + 1 else nat sec);
                   z = nat len1 - head
               in (len1, hd_bytes @ buf_list (read_span e s sec1 z (\<lambda>k. junk (head + k))) (int z))))"

definition vfs_read_file_offset :: "venv \<Rightarrow> int \<Rightarrow> int \<Rightarrow> int \<Rightarrow> (nat \<Rightarrow> u8) \<Rightarrow> vfs \<Rightarrow> (int \<times> u8 list) \<times> vfs" where
  "vfs_read_file_offset e i off len0 junk s =
     (let n = node_at s i; z = nd_size n; len = min len0 (z - off)
      in if \<not> node_range i \<or> \<not> nd_use n \<or> off < 0 \<or> len0 \<le> 0 then ((-1, []), s)
         else if nd_type n = FS_EXT2_FILE then
           ((if off \<ge> z then (0, []) else if \<not> ve_sel e (nat i) then (-1, []) else ve_ext2_read e (nd_inode n) off len), s)
         else if nd_type n = FS_FAT32_FILE then
           ((if off \<ge> z then (0, []) else if \<not> ve_sel e (nat i) then (-1, []) else ve_fat_read e (nd_sector n) off len), s)
         else if nd_type n = FS_RAM_FILE then
           (let bs = (if z - off \<le> 0 then [] else tmpfs_read_range s (nat i) off len) in ((int (length bs), bs), s))
         else if nd_type n \<noteq> FS_FILE then ((-1, []), s)
         else if off \<ge> z then ((0, []), s)
         else (case pcache_read (ve_now e) i z off len (vf_pc s) of
                 (Some bs, pc) \<Rightarrow> ((int (length bs), bs), s\<lparr>vf_pc := pc\<rparr>)
               | (None, pc) \<Rightarrow>
                   (let s1 = s\<lparr>vf_pc := pc\<rparr>; sec = nd_sector n; ok = (sec > 0 \<and> sec < int VFS_DISK_SECTORS);
                        pz = (if ok then min z ((int VFS_DISK_SECTORS - sec) * 512) else z)
                    in if off = 0 \<and> z \<le> PCACHE_MAX_FILE \<and> ve_mem e (nat z) \<and> ok \<and> pz > 0 then
                         (let b = read_span e s1 (nat sec) (nat pz) junk;
                              pc1 = pcache_insert (ve_mem e) (ve_now e) i b pz (vf_pc s1)
                          in case pcache_read (ve_now e) i pz off len pc1 of
                               (Some bs, pc2) \<Rightarrow> ((int (length bs), bs), s1\<lparr>vf_pc := pc2\<rparr>)
                             | (None, pc2) \<Rightarrow> (let s2 = s1\<lparr>vf_pc := pc2\<rparr> in (read_window e i off len junk s2, s2)))
                       else (read_window e i off len junk s1, s1))))"

section \<open>Writing\<close>

definition vfs_sync_aliases :: "int \<Rightarrow> vfs \<Rightarrow> vfs" where
  "vfs_sync_aliases i s =
     (if \<not> node_range i \<or> nd_type (node_at s i) \<noteq> FS_FILE then s
      else (let ds = nd_sector (node_at s i); z = nd_size (node_at s i)
            in for_upto MAX_NODES (\<lambda>j s.
                 if int j = i \<or> \<not> nd_use (vf_node s j) \<or> nd_type (vf_node s j) \<noteq> FS_FILE \<or> \<not> (ds > 0 \<and> nd_sector (vf_node s j) = ds) then s
                 else pc_drop (int j) (set_node j ((vf_node s j)\<lparr>nd_size := z\<rparr>) s)) s))"

text \<open>A native file: in place when the sectors suffice, else a new run of sectors.\<close>

definition write_native :: "venv \<Rightarrow> int \<Rightarrow> u8 list \<Rightarrow> vfs \<Rightarrow> int \<times> vfs" where
  "write_native e i data s =
     (let n = node_at s i; z = int (length data);
          start0 = (if nd_sector n > 0 \<and> nsec z > nsec (nd_size n) then 0 else nd_sector n);
          start = (if start0 = 0 then vfs_alloc_sectors s (nat (nsec z)) i else start0)
      in if start0 = 0 \<and> start < 0 then (-3, s)
         else (let s1 = set_node (nat i) (n\<lparr>nd_sector := start\<rparr>) s;
                   (ok, s2) = write_secs e (ve_mem e (128 * 512)) (nat start) 0 (nat ((z + 511) div 512)) data s1
               in if \<not> ok then (-1, s2)
                  else (let s3 = set_node (nat i) ((node_at s2 i)\<lparr>nd_size := z\<rparr>) s2;
                            s4 = s3\<lparr>vf_pc := pcache_insert (ve_mem e) (ve_now e) i (data_byte data) z (vf_pc s3)\<rparr>;
                            s5 = vfs_sync_aliases i s4
                        in if \<not> ve_seeding e \<and> (z \<noteq> nd_size n \<or> start \<noteq> nd_sector n) then
                             (let (rc, s6) = vfs_save e s5 in (if rc \<noteq> 0 then -1 else z, s6))
                           else (z, s5))))"

definition vfs_write_file :: "venv \<Rightarrow> string \<Rightarrow> u8 list \<Rightarrow> vfs \<Rightarrow> int \<times> vfs" where
  "vfs_write_file e path data s =
     (let (i, s1) = vfs_get_node e path s; n = node_at s1 i; z = int (length data);
          save = (\<lambda>r s. if ve_seeding e then (r, s) else (let (rc, s2) = vfs_save e s in (if rc \<noteq> 0 then -1 else r, s2)))
      in if i < 0 then (-1, s1)
         else (case nd_type n of
                 FS_DEV \<Rightarrow> (if nd_name n = ''null'' \<or> nd_name n = ''zero'' \<or> nd_name n = ''random'' then z else -2, s1)
               | FS_EXT2_FILE \<Rightarrow>
                   (if \<not> ve_sel e (nat i) then (-1, s1)
                    else (let r = ve_ext2_write e (nd_inode n) data
                          in if r \<ge> 0 then save r (set_node (nat i) (n\<lparr>nd_size := r\<rparr>) s1) else (r, s1)))
               | FS_PROC \<Rightarrow> (let r = ve_proc_write e (nd_name n) data in (if r \<noteq> -100 then r else -2, s1))
               | FS_FAT32_FILE \<Rightarrow>
                   (if \<not> ve_sel e (nat i) then (-1, s1)
                    else (let nc = ve_fat_write e (nd_sector n) data; p = nd_parent n
                          in if nc < 0 then (nc, s1)
                             else if p \<ge> 0 \<and> nd_type (node_at s1 p) = FS_FAT32_DIR \<and> \<not> ve_fat_dirent e (nd_sector (node_at s1 p)) (nd_name n) nc z
                             then (-1, s1)
                             else save z (set_node (nat i) (n\<lparr>nd_sector := nc, nd_size := z\<rparr>) s1)))
               | FS_RAM_FILE \<Rightarrow> tmpfs_write_whole e (nat i) data s1
               | FS_FILE \<Rightarrow> write_native e i data s1
               | _ \<Rightarrow> (-2, s1)))"

end
