(* ===== verification/Vfs_Disk.thy ===== *)
theory Vfs_Disk
  imports Vfs_File
begin

text \<open>
  The data sectors behind the files of \<open>src/sys/vfs.c\<close>: what a batched transfer does, which run
  the allocator finds, and the layout invariant: files own disjoint runs of data sectors unless
  they are names of one file, and the page cache agrees with the medium.
\<close>

section \<open>Transfers\<close>

lemma batch_le: "0 < n \<Longrightarrow> batch_at lba n \<le> n"
  using block_batch_limit_le [of "int n" "of_nat lba"] block_batch_limit_range [of "of_nat lba" "int n"]
  by (simp add: batch_at_def nat_le_iff)

lemma store_data_join:
  "store_data start (k + b) n data (store_data start k b data s) = store_data start k (b + n) data s"
proof -
  have "(\<lambda>x j. if start + (k + b) \<le> x \<and> x < start + (k + b) + n then data_byte data ((x - start) * 512 + j)
        else if start + k \<le> x \<and> x < start + k + b then data_byte data ((x - start) * 512 + j) else vf_disk s x j)
      = (\<lambda>x j. if start + k \<le> x \<and> x < start + k + (b + n) then data_byte data ((x - start) * 512 + j) else vf_disk s x j)"
    by (auto simp: fun_eq_iff)
  then show ?thesis unfolding store_data_def by (simp cong del: if_weak_cong)
qed

lemma store_data_none [simp]: "store_data start k 0 data s = s"
proof -
  have "(\<lambda>x j. if start + k \<le> x \<and> x < start + k + 0 then data_byte data ((x - start) * 512 + j) else vf_disk s x j) = vf_disk s"
    by (auto simp: fun_eq_iff)
  then show ?thesis unfolding store_data_def by simp
qed

lemma write_secs_done:
  assumes "write_secs e buf start k n data s = (True, s')" and "k \<le> n"
  shows "s' = store_data start k (n - k) data s"
  using assms
proof (induction e buf start k n data s rule: write_secs.induct)
  case (1 e buf start k n data s)
  define b where "b = (if buf then batch_at (start + k) (n - k) else 1)"
  show ?case
  proof (cases "k < n")
    case True
    then have b: "b \<le> n - k" using batch_le [of "n - k"] by (auto simp: b_def)
    from "1.prems"(1) True have w: "ve_wr e (start + k) b = None"
      "write_secs e buf start (k + b) n data (store_data start k b data s) = (True, s')"
      unfolding write_secs.simps [of e buf start k n] b_def [symmetric] Let_def by (auto split: option.splits)
    from "1.IH" [OF True b_def w] b True have "s' = store_data start (k + b) (n - (k + b)) data (store_data start k b data s)" by simp
    moreover have "b + (n - (k + b)) = n - k" using b True by simp
    ultimately show ?thesis by (simp add: store_data_join)
  next
    case False
    then show ?thesis using "1.prems" by (simp add: write_secs.simps)
  qed
qed

text \<open>A failed transfer still only touches the sectors of the run.\<close>

lemma write_secs_frame:
  "k \<le> n \<Longrightarrow> vf_node (snd (write_secs e buf start k n data s)) = vf_node s
    \<and> vf_pc (snd (write_secs e buf start k n data s)) = vf_pc s
    \<and> (\<forall>x j. x < start \<or> start + n \<le> x \<longrightarrow> vf_disk (snd (write_secs e buf start k n data s)) x j = vf_disk s x j)"
proof (induction e buf start k n data s rule: write_secs.induct)
  case (1 e buf start k n data s)
  define b where "b = (if buf then batch_at (start + k) (n - k) else 1)"
  show ?case
  proof (cases "k < n")
    case True
    then have b: "b \<le> n - k" using batch_le [of "n - k"] by (auto simp: b_def)
    show ?thesis
    proof (cases "ve_wr e (start + k) b")
      case None
      then show ?thesis
        using "1.IH" [OF True b_def None] b True unfolding write_secs.simps [of e buf start k n data s] b_def [symmetric] Let_def
        by (simp add: store_data_def)
    next
      case (Some m)
      have "k + min m b \<le> n" using b True by simp
      then show ?thesis using Some True unfolding write_secs.simps [of e buf start k n data s] b_def [symmetric] Let_def
        by (auto simp: store_data_def)
    qed
  next
    case False
    then show ?thesis by (simp add: write_secs.simps)
  qed
qed

definition reads_ok :: "venv \<Rightarrow> bool" where
  "reads_ok e \<longleftrightarrow> (\<forall>x n. ve_rd e x n)"

lemma read_secs_all:
  "reads_ok e \<Longrightarrow> k \<le> n \<Longrightarrow> read_secs e s sec k n buf i = (if k * 512 \<le> i \<and> i < n * 512 then disk_byte s sec i else buf i)"
proof (induction e s sec k n buf arbitrary: i rule: read_secs.induct)
  case (1 e s sec k n buf)
  show ?case
  proof (cases "k < n")
    case True
    define b where "b = batch_at (sec + k) (n - k)"
    have b: "k + b \<le> n" using True batch_le [of "n - k" "sec + k"] by (simp add: b_def)
    have rd: "ve_rd e (sec + k) b" using "1.prems" by (simp add: reads_ok_def)
    have c: "k * 512 \<le> (k + b) * 512" "(k + b) * 512 \<le> n * 512" using b by simp_all
    show ?thesis
      using "1.IH" [OF True b_def] "1.prems"(1) b c True rd unfolding read_secs.simps [of e s sec k n] b_def [symmetric] Let_def
      by auto
  next
    case False
    then have "k = n" using "1.prems" by simp
    then show ?thesis by (auto simp: read_secs.simps)
  qed
qed

lemma read_span_all:
  assumes "reads_ok e" and "i < z"
  shows "read_span e s sec z junk i = disk_byte s sec i"
proof -
  have rd: "ve_rd e (sec + z div 512) 1" using assms by (simp add: reads_ok_def)
  have "z = z div 512 * 512 + z mod 512" by simp
  then show ?thesis using assms rd by (auto simp: read_span_def Let_def read_secs_all)
qed

lemma disk_byte_store:
  assumes "i < n * 512"
  shows "disk_byte (store_data start 0 n data s) start i = data_byte data i"
proof -
  have "i div 512 < n" using assms by (simp add: less_mult_imp_div_less)
  then show ?thesis by (simp add: disk_byte_def store_data_def)
qed

section \<open>The allocator\<close>

lemma alloc_sectors_some:
  assumes "vfs_alloc_sectors s needed x = r" and "0 \<le> r"
  shows "VFS_DATA_START \<le> nat r" and "nat r + needed \<le> VFS_DISK_SECTORS"
    and "\<And>k. k < needed \<Longrightarrow> \<not> sector_map s x (nat r + k)"
    and "\<And>j. VFS_DATA_START \<le> j \<Longrightarrow> j < nat r \<Longrightarrow> \<exists>k < needed. sector_map s x (j + k)"
proof -
  have f: "first_idx (\<lambda>i. \<forall>k < needed. \<not> sector_map s x (i + k)) VFS_DATA_START (Suc VFS_DISK_SECTORS - needed) = Some (nat r)"
    using assms by (auto simp: vfs_alloc_sectors_def slot_result_def split: option.splits)
  note F = first_idx_Some [OF f]
  show "VFS_DATA_START \<le> nat r" "nat r + needed \<le> VFS_DISK_SECTORS" using F by auto
  show "\<not> sector_map s x (nat r + k)" if "k < needed" for k using F that by blast
  show "\<exists>k < needed. sector_map s x (j + k)" if "VFS_DATA_START \<le> j" "j < nat r" for j using F that by blast
qed

lemma alloc_sectors_none:
  "vfs_alloc_sectors s needed x < 0 \<longleftrightarrow>
     (\<forall>j. VFS_DATA_START \<le> j \<and> j + needed \<le> VFS_DISK_SECTORS \<longrightarrow> (\<exists>k < needed. sector_map s x (j + k)))"
proof -
  have "vfs_alloc_sectors s needed x < 0 \<longleftrightarrow>
      first_idx (\<lambda>i. \<forall>k < needed. \<not> sector_map s x (i + k)) VFS_DATA_START (Suc VFS_DISK_SECTORS - needed) = None"
    by (auto simp: vfs_alloc_sectors_def slot_result_def split: option.splits)
  also have "\<dots> \<longleftrightarrow> (\<forall>j. VFS_DATA_START \<le> j \<and> j < Suc VFS_DISK_SECTORS - needed \<longrightarrow> (\<exists>k < needed. sector_map s x (j + k)))"
    unfolding first_idx_None by blast
  also have "\<dots> \<longleftrightarrow> (\<forall>j. VFS_DATA_START \<le> j \<and> j + needed \<le> VFS_DISK_SECTORS \<longrightarrow> (\<exists>k < needed. sector_map s x (j + k)))"
    by (metis (no_types, lifting) add.commute less_Suc_eq_le less_diff_conv2 less_diff_conv)
  finally show ?thesis .
qed


section \<open>The layout\<close>

definition native :: "vfs \<Rightarrow> nat \<Rightarrow> bool" where
  "native s i \<longleftrightarrow> i < MAX_NODES \<and> nd_use (vf_node s i) \<and> nd_type (vf_node s i) = FS_FILE"

definition first_sec :: "vfs \<Rightarrow> nat \<Rightarrow> nat" where
  "first_sec s i = nat (nd_sector (vf_node s i))"

definition run_of :: "vfs \<Rightarrow> nat \<Rightarrow> nat set" where
  "run_of s i = {x. holds_sector (vf_node s i) x}"

definition file_at :: "vfs \<Rightarrow> nat \<Rightarrow> bool" where
  "file_at s i \<longleftrightarrow> 0 \<le> nd_size (vf_node s i)
     \<and> (nd_sector (vf_node s i) = 0 \<and> nd_size (vf_node s i) = 0
        \<or> int VFS_DATA_START \<le> nd_sector (vf_node s i) \<and> nd_sector (vf_node s i) + nsec (nd_size (vf_node s i)) \<le> int VFS_DISK_SECTORS)"

text \<open>Two names of one file.\<close>

definition same_file :: "vfs \<Rightarrow> nat \<Rightarrow> nat \<Rightarrow> bool" where
  "same_file s i j \<longleftrightarrow> nd_sector (vf_node s i) = nd_sector (vf_node s j) \<and> nd_size (vf_node s i) = nd_size (vf_node s j)"

definition cache_agrees :: "vfs \<Rightarrow> nat \<Rightarrow> bool" where
  "cache_agrees s i \<longleftrightarrow> (\<forall>z d. cached (vf_pc s) (int i) = Some (z, d) \<longrightarrow>
     z \<le> nd_size (vf_node s i) \<and> (\<forall>k < nat z. d k = disk_byte s (first_sec s i) k))"

text \<open>Different files own disjoint runs of data sectors.\<close>

definition span_ok :: "vfs \<Rightarrow> bool" where
  "span_ok s \<longleftrightarrow> (\<forall>i. native s i \<longrightarrow> file_at s i)
     \<and> (\<forall>i j. native s i \<and> native s j \<longrightarrow> same_file s i j \<or> run_of s i \<inter> run_of s j = {})"

definition layout_ok :: "vfs \<Rightarrow> bool" where
  "layout_ok s \<longleftrightarrow> pcache_ok (vf_pc s) \<and> span_ok s \<and> (\<forall>i. native s i \<longrightarrow> cache_agrees s i)"

text \<open>What a file holds.\<close>

definition content :: "vfs \<Rightarrow> nat \<Rightarrow> u8 list" where
  "content s i = map (disk_byte s (first_sec s i)) [0..<nat (nd_size (vf_node s i))]"

lemma length_content [simp]: "length (content s i) = nat (nd_size (vf_node s i))"
  by (simp add: content_def)

lemma nsec_bound: "0 \<le> z \<Longrightarrow> z \<le> nsec z * 512"
proof -
  have "z \<le> (z + 511) div 512 * 512" by linarith
  moreover have "(z + 511) div 512 \<le> nsec z" by (simp add: nsec_def Let_def)
  ultimately show ?thesis by linarith
qed

lemma nsec_pos: "1 \<le> nsec z"
  by (simp add: nsec_def Let_def)

lemma span_native:
  "native s i \<Longrightarrow> nd_sector (vf_node s i) > 0 \<Longrightarrow> run_of s i = {first_sec s i ..< first_sec s i + nat (nsec (nd_size (vf_node s i)))}"
  using nsec_pos [of "nd_size (vf_node s i)"] by (auto simp: run_of_def holds_sector_def native_def first_sec_def)

lemma content_sector:
  assumes "native s i" and "file_at s i" and "k < nat (nd_size (vf_node s i))"
  shows "first_sec s i + k div 512 \<in> run_of s i"
proof -
  have p: "nd_sector (vf_node s i) > 0" using assms(2,3) by (auto simp: file_at_def VFS_DATA_START_def VFS_NODE_START_def)
  have "int k < nsec (nd_size (vf_node s i)) * 512" using nsec_bound [of "nd_size (vf_node s i)"] assms(2,3) by (simp add: file_at_def)
  then have "int k div 512 < nsec (nd_size (vf_node s i))" by linarith
  then have "k div 512 < nat (nsec (nd_size (vf_node s i)))" by (simp add: zdiv_int zless_nat_eq_int_zless)
  then show ?thesis using span_native [OF assms(1) p] by simp
qed

text \<open>Bytes outside a file's run do not matter to it.\<close>

lemma disk_byte_frame:
  assumes "native s i" and "file_at s i" and "k < nat (nd_size (vf_node s i))"
    and "\<And>x j. x \<in> run_of s i \<Longrightarrow> vf_disk s' x j = vf_disk s x j"
  shows "disk_byte s' (first_sec s i) k = disk_byte s (first_sec s i) k"
  using assms(4) [OF content_sector [OF assms(1-3)]] by (simp add: disk_byte_def)


section \<open>Reading\<close>

lemma read_native_pc:
  "\<exists>pc. snd (read_native e (int i) m junk s) = s\<lparr>vf_pc := pc\<rparr>"
proof
  show "snd (read_native e (int i) m junk s) = s\<lparr>vf_pc := vf_pc (snd (read_native e (int i) m junk s))\<rparr>"
    unfolding read_native_def Let_def by (simp split: prod.splits option.splits)
qed

text \<open>Only the cache changes, and it still agrees: the layout stays.\<close>

lemma layout_ok_pc:
  assumes "layout_ok s" and "pcache_ok pc"
    and "\<And>i z d. native s i \<Longrightarrow> cached pc (int i) = Some (z, d) \<Longrightarrow>
       z \<le> nd_size (vf_node s i) \<and> (\<forall>k < nat z. d k = disk_byte s (first_sec s i) k)"
  shows "layout_ok (s\<lparr>vf_pc := pc\<rparr>)"
proof -
  have e: "native (s\<lparr>vf_pc := pc\<rparr>) = native s" "run_of (s\<lparr>vf_pc := pc\<rparr>) = run_of s" "file_at (s\<lparr>vf_pc := pc\<rparr>) = file_at s"
    "same_file (s\<lparr>vf_pc := pc\<rparr>) = same_file s" "first_sec (s\<lparr>vf_pc := pc\<rparr>) = first_sec s" "disk_byte (s\<lparr>vf_pc := pc\<rparr>) = disk_byte s"
    by (simp_all add: fun_eq_iff native_def run_of_def file_at_def same_file_def first_sec_def disk_byte_def)
  show ?thesis using assms unfolding layout_ok_def span_ok_def cache_agrees_def e by auto
qed

lemma content_pc [simp]: "content (s\<lparr>vf_pc := pc\<rparr>) i = content s i"
  by (simp add: content_def first_sec_def disk_byte_def)

text \<open>A hit gives the bytes of the medium.\<close>

lemma hit_content:
  assumes "layout_ok s" and "native s i" and "cached (vf_pc s) (int i) = Some (z, d)" and "k < nat z"
  shows "d k = content s i ! k" and "nat z \<le> length (content s i)"
proof -
  have "z \<le> nd_size (vf_node s i)" "\<forall>k < nat z. d k = disk_byte s (first_sec s i) k"
    using assms(1-3) by (auto simp: layout_ok_def span_ok_def cache_agrees_def)
  then show "d k = content s i ! k" "nat z \<le> length (content s i)" using assms(4) by (simp_all add: content_def nat_mono)
qed

lemma window_content:
  assumes "\<And>k. k < n \<Longrightarrow> f k = content s i ! (a + k)" and "a + n \<le> length (content s i)"
  shows "map f [0..<n] = take n (drop a (content s i))"
  by (rule nth_equalityI) (use assms in auto)

lemma prime_agrees:
  assumes ok: "layout_ok s" and i: "native s i" and z: "0 < z" "z \<le> nd_size (vf_node s i)" and rd: "reads_ok e"
    and that: "vf_disk s' = vf_disk s"
  shows "layout_ok (s\<lparr>vf_pc := pcache_insert mem now (int i) (read_span e s' (first_sec s i) (nat z) junk) z (vf_pc s)\<rparr>)"
proof (rule layout_ok_pc [OF ok])
  have pc: "pcache_ok (vf_pc s)" using ok by (simp add: layout_ok_def span_ok_def)
  show "pcache_ok (pcache_insert mem now (int i) (read_span e s' (first_sec s i) (nat z) junk) z (vf_pc s))"
    by (rule pcache_insert_ok [OF pc])
  fix j z' d
  assume j: "native s j" and c: "cached (pcache_insert mem now (int i) (read_span e s' (first_sec s i) (nat z) junk) z (vf_pc s)) (int j) = Some (z', d)"
  show "z' \<le> nd_size (vf_node s j) \<and> (\<forall>k < nat z'. d k = disk_byte s (first_sec s j) k)"
  proof (cases "j = i")
    case True
    have "z' = z" "d = read_span e s' (first_sec s i) (nat z) junk"
      using c True z cached_insert(1) [OF pc, of "int i" z mem now "read_span e s' (first_sec s i) (nat z) junk"] by (auto split: if_splits)
    then show ?thesis using True z rd that by (simp add: read_span_all disk_byte_def)
  next
    case False
    then have "cached (vf_pc s) (int j) = Some (z', d)"
      using c z cached_insert(2) [OF pc, of "int i" z "int j" mem now "read_span e s' (first_sec s i) (nat z) junk"] by auto
    then show ?thesis using ok j by (auto simp: layout_ok_def span_ok_def cache_agrees_def)
  qed
qed


text \<open>A lookup in the cache: a hit is a window of the file.\<close>

lemma pc_read_window:
  assumes ok: "layout_ok s" and i: "native s i" and o: "0 \<le> off" "off < nd_size (vf_node s i)" "0 < len"
    and r: "pcache_read now (int i) (nd_size (vf_node s i)) off len (vf_pc s) = (o1, pc1)"
  shows "layout_ok (s\<lparr>vf_pc := pc1\<rparr>)"
    and "o1 = Some bs \<Longrightarrow> bs = take (nat len) (drop (nat off) (content s i))"
proof -
  have pc: "pcache_ok (vf_pc s)" using ok by (simp add: layout_ok_def span_ok_def)
  have P: "pcache_ok pc1 \<and> (\<forall>x. cached pc1 x = cached (vf_pc s) x)
      \<and> (\<forall>bs. o1 = Some bs \<longrightarrow> bs = take (nat len) (drop (nat off) (content s i)))"
  proof (cases "nd_size (vf_node s i) \<le> PCACHE_MAX_FILE")
    case True
    have z: "0 < nd_size (vf_node s i)" using o by simp
    note R = pcache_read_spec [OF pc, of "int i", OF of_nat_0_le_iff z True o, where now = now, unfolded r]
    have "bs = take (nat len) (drop (nat off) (content s i))" if b: "o1 = Some bs" for bs
    proof -
      define n where "n = nat (min len (nd_size (vf_node s i) - off))"
      obtain d where d: "cached (vf_pc s) (int i) = Some (nd_size (vf_node s i), d)" "bs = map (\<lambda>k. d (nat off + k)) [0..<n]"
        using R(1) b by (auto simp: n_def split: option.splits if_splits)
      have n: "nat off + n \<le> length (content s i)" unfolding n_def length_content using o by linarith
      have "map (\<lambda>k. d (nat off + k)) [0..<n] = take n (drop (nat off) (content s i))"
      proof (rule window_content [OF _ n])
        fix k assume "k < n"
        then have "nat off + k < nat (nd_size (vf_node s i))" using n by simp
        then show "d (nat off + k) = content s i ! (nat off + k)" by (rule hit_content(1) [OF ok i d(1)])
      qed
      also have "\<dots> = take (nat len) (drop (nat off) (content s i))"
      proof (cases "len \<le> nd_size (vf_node s i) - off")
        case True
        then show ?thesis by (simp add: n_def)
      next
        case False
        then have "n = length (drop (nat off) (content s i))" "n \<le> nat len" unfolding n_def length_drop length_content using o by linarith+
        then show ?thesis by simp
      qed
      finally show ?thesis using d(2) by simp
    qed
    then show ?thesis using R(2,3) by auto
  next
    case False
    then show ?thesis using r pc by (auto simp: pcache_read_def split: if_splits)
  qed
  show "layout_ok (s\<lparr>vf_pc := pc1\<rparr>)"
    by (rule layout_ok_pc [OF ok]) (use P ok in \<open>auto simp: layout_ok_def span_ok_def cache_agrees_def\<close>)
  show "o1 = Some bs \<Longrightarrow> bs = take (nat len) (drop (nat off) (content s i))" using P by blast
qed

lemma disk_byte_shift: "disk_byte s (a + q) k = disk_byte s a (q * 512 + k)"
  by (simp add: disk_byte_def add.assoc)

lemma disk_byte_sector: "k < 512 \<Longrightarrow> disk_byte s a (k + q * 512) = vf_disk s (a + q) k"
  by (simp add: disk_byte_def)

lemma disk_byte_in:
  assumes "o0 mod 512 + k < 512"
  shows "disk_byte s a (o0 + k) = vf_disk s (a + o0 div 512) (o0 mod 512 + k)"
proof -
  have "o0 + k = (o0 mod 512 + k) + o0 div 512 * 512" by simp
  then show ?thesis using disk_byte_sector [OF assms, of s a "o0 div 512"] by (simp only:)
qed

lemma read_window_content:
  assumes i: "native s i" and fa: "file_at s i" and rd: "reads_ok e"
    and l: "0 < l" "int q + int l \<le> nd_size (vf_node s i)"
  shows "read_window e (int i) (int q) (int l) junk s = (int l, take l (drop q (content s i)))"
proof -
  have sec: "int VFS_DATA_START \<le> nd_sector (vf_node s i)" "nd_sector (vf_node s i) + nsec (nd_size (vf_node s i)) \<le> int VFS_DISK_SECTORS"
    using fa l by (auto simp: file_at_def)
  define f where "f = first_sec s i"
  have f: "nd_sector (vf_node s i) = int f" using sec by (simp add: f_def first_sec_def)
  define r where "r = q mod 512"
  define h where "h = (if r > 0 then min (512 - r) l else 0)"
  define x where "x = f + q div 512"
  define y where "y = (if r > 0 then x + 1 else x)"
  have r: "r < 512" "q = 512 * (q div 512) + r" by (simp_all add: r_def)
  have nn: "nd_size (vf_node s i) \<le> nsec (nd_size (vf_node s i)) * 512" using nsec_bound l by simp
  have xb: "int l \<le> (int VFS_DISK_SECTORS - int x) * 512"
  proof -
    have "(int VFS_DISK_SECTORS - int x) * 512 = int VFS_DISK_SECTORS * 512 - int f * 512 - int (512 * (q div 512))" by (simp add: x_def algebra_simps)
    moreover have "nsec (nd_size (vf_node s i)) * 512 \<le> int VFS_DISK_SECTORS * 512 - int f * 512" using sec f by (simp add: algebra_simps)
    moreover have "int (512 * (q div 512)) \<le> int q" using r(2) by linarith
    ultimately show ?thesis using nn l by linarith
  qed
  have x1: "x < VFS_DISK_SECTORS"
  proof (rule ccontr)
    assume "\<not> x < VFS_DISK_SECTORS"
    then have "(int VFS_DISK_SECTORS - int x) * 512 \<le> 0" by (intro mult_nonpos_nonneg) simp_all
    then show False using xb l by linarith
  qed
  have m: "min (int l) ((int VFS_DISK_SECTORS - int x) * 512) = int l" using xb by simp
  have hl: "h \<le> l" by (simp add: h_def)
  have w: "read_window e (int i) (int q) (int l) junk s =
      (int l, map (\<lambda>k. vf_disk s x (r + k)) [0..<h] @ map (read_span e s y (l - h) (\<lambda>k. junk (h + k))) [0..<l - h])"
  proof -
    have n1: "nd_sector (node_at s (int i)) + int q div 512 = int x" by (simp add: node_at_def f x_def)
    have n2: "nat (int q mod 512) = r" by (simp add: r_def nat_mod_distrib)
    have n3: "ve_rd e x 1" using rd by (simp add: reads_ok_def)
    show ?thesis
      unfolding read_window_def n1 n2 Let_def m nat_int
      using x1 n3 by (simp add: h_def [symmetric] y_def buf_list_def cong: if_cong)
  qed
  have c: "take l (drop q (content s i)) = map (\<lambda>k. disk_byte s f (q + k)) [0..<l]"
  proof (rule window_content [symmetric])
    have "q + l \<le> nat (nd_size (vf_node s i))" using l by linarith
    then show "q + l \<le> length (content s i)" by simp
    then show "disk_byte s f (q + k) = content s i ! (q + k)" if "k < l" for k using that by (simp add: content_def f_def)
  qed
  have "map (\<lambda>k. disk_byte s f (q + k)) [0..<l] = map (\<lambda>k. disk_byte s f (q + k)) [0..<h] @ map (\<lambda>k. disk_byte s f (q + (h + k))) [0..<l - h]"
    by (rule nth_equalityI) (use hl in \<open>auto simp: nth_append\<close>)
  moreover have "map (\<lambda>k. disk_byte s f (q + k)) [0..<h] = map (\<lambda>k. vf_disk s x (r + k)) [0..<h]"
    using r(1) disk_byte_in [of q _ s f] by (auto simp: h_def x_def r_def split: if_splits)
  moreover have "map (\<lambda>k. disk_byte s f (q + (h + k))) [0..<l - h] = map (read_span e s y (l - h) (\<lambda>k. junk (h + k))) [0..<l - h]"
  proof (rule map_cong [OF refl])
    fix k assume "k \<in> set [0..<l - h]"
    then have k: "k < l - h" by simp
    have "q + h + k = (y - f) * 512 + k" using k r by (auto simp: h_def y_def x_def)
    moreover have "f + (y - f) = y" by (simp add: y_def x_def)
    ultimately have "disk_byte s f (q + h + k) = disk_byte s y k" using disk_byte_shift [of s f "y - f" k] by simp
    then have "disk_byte s f (q + (h + k)) = disk_byte s y k" by (simp add: add.assoc)
    then show "disk_byte s f (q + (h + k)) = read_span e s y (l - h) (\<lambda>k. junk (h + k)) k" using k rd by (simp add: read_span_all)
  qed
  ultimately show ?thesis unfolding w c by simp
qed

lemma read_native_content:
  assumes ok: "layout_ok s" and i: "native s i" and rd: "reads_ok e" and m: "0 < m"
    and r: "read_native e (int i) m junk s = (res, s')"
  shows "res = (min (nd_size (vf_node s i)) m, take (nat m) (content s i))" and "layout_ok s'" and "\<exists>pc. s' = s\<lparr>vf_pc := pc\<rparr>"
proof -
  define z where "z = min (nd_size (vf_node s i)) m"
  have pc: "pcache_ok (vf_pc s)" and fa: "file_at s i" using ok i by (simp_all add: layout_ok_def span_ok_def)
  have z0: "0 \<le> z" using fa m by (simp add: z_def file_at_def)
  have tk: "take (nat m) (content s i) = take (nat z) (content s i)" using fa by (simp add: z_def min_def file_at_def)
  show "\<exists>pc. s' = s\<lparr>vf_pc := pc\<rparr>" using read_native_pc [of e i m junk s] r by simp
  have "res = (z, take (nat z) (content s i)) \<and> layout_ok s'"
  proof (cases "z = 0")
    case True
    then show ?thesis using r ok by (simp add: read_native_def node_at_def z_def [symmetric])
  next
    case False
    then have sz: "0 < nd_size (vf_node s i)" "0 < z" "z \<le> nd_size (vf_node s i)" using z0 m by (simp_all add: z_def)
    then have sec: "int VFS_DATA_START \<le> nd_sector (vf_node s i)" "nd_sector (vf_node s i) + nsec (nd_size (vf_node s i)) \<le> int VFS_DISK_SECTORS"
      using fa by (auto simp: file_at_def)
    have zc: "nat z \<le> length (content s i)" using sz by (simp add: nat_mono)
    obtain o1 pc1 where pr: "pcache_read (ve_now e) (int i) (nd_size (vf_node s i)) 0 z (vf_pc s) = (o1, pc1)" by fastforce
    have ok1: "layout_ok (s\<lparr>vf_pc := pc1\<rparr>)" by (rule pc_read_window(1) [OF ok i _ _ sz(2) pr]) (use sz in simp_all)
    have P: "bs = take (nat z) (content s i)" if "o1 = Some bs" for bs
      using pc_read_window(2) [OF ok i _ _ sz(2) pr that] sz by simp
    show ?thesis
    proof (cases o1)
      case (Some bs)
      have l: "int (length bs) = z" using P Some zc sz by simp
      have "res = (int (length bs), bs)" "s' = s\<lparr>vf_pc := pc1\<rparr>"
        using r Some pr sz unfolding read_native_def Let_def node_at_def z_def [symmetric] nat_int by simp_all
      then show ?thesis using ok1 P Some l by simp
    next
      case None
      define s1 where "s1 = s\<lparr>vf_pc := pc1\<rparr>"
      define b where "b = read_span e s1 (first_sec s i) (nat z) junk"
      have nn: "nd_size (vf_node s i) \<le> nsec (nd_size (vf_node s i)) * 512" using nsec_bound sz by simp
      have "z \<le> (int VFS_DISK_SECTORS - nd_sector (vf_node s i)) * 512" using sec nn sz by (simp add: algebra_simps)
      then have z1: "min z ((int VFS_DISK_SECTORS - nd_sector (vf_node s i)) * 512) = z" by simp
      have pos: "0 < nd_sector (vf_node s i)" "nd_sector (vf_node s i) < int VFS_DISK_SECTORS"
        using sec nsec_pos [of "nd_size (vf_node s i)"] by (auto simp: VFS_DATA_START_def VFS_NODE_START_def)
      have e: "res = (z, buf_list b z)" "s' = s1\<lparr>vf_pc := pcache_insert (ve_mem e) (ve_now e) (int i) b z (vf_pc s1)\<rparr>"
        using r None pr sz pos unfolding read_native_def Let_def node_at_def z_def [symmetric] nat_int
        by (simp_all add: z1 [simplified] b_def s1_def first_sec_def)
      have "buf_list b z = map b [0..<nat z]" by (simp add: buf_list_def)
      also have "\<dots> = take (nat z) (drop 0 (content s i))"
      proof (rule window_content)
        fix k assume k: "k < nat z"
        then have "k < nat (nd_size (vf_node s i))" using sz by linarith
        then show "b k = content s i ! (0 + k)" using k rd by (simp add: b_def read_span_all content_def s1_def disk_byte_def)
      qed (use zc in simp)
      finally have "buf_list b z = take (nat z) (content s i)" by simp
      moreover have "layout_ok s'"
        unfolding e(2) b_def s1_def
        using prime_agrees [OF ok1, of i z e s1 "ve_mem e" "ve_now e" junk] i sz rd
        by (simp add: s1_def native_def first_sec_def)
      ultimately show ?thesis using e by simp
    qed
  qed
  then show "res = (min (nd_size (vf_node s i)) m, take (nat m) (content s i))" "layout_ok s'" using tk by (simp_all add: z_def)
qed


lemma read_offset_content:
  assumes ok: "layout_ok s" and i: "native s i" and rd: "reads_ok e" and o: "0 \<le> off" "0 < len0"
    and r: "vfs_read_file_offset e (int i) off len0 junk s = (res, s')"
    and w: "w = take (nat len0) (drop (nat off) (content s i))"
  shows "res = (int (length w), w)" and "layout_ok s'" and "\<exists>pc. s' = s\<lparr>vf_pc := pc\<rparr>"
proof -
  define z where "z = nd_size (vf_node s i)"
  have i2: "node_range (int i)" "nd_use (vf_node s i)" "nd_type (vf_node s i) = FS_FILE" using i by (auto simp: native_def node_range_def)
  have fa: "file_at s i" using ok i by (simp add: layout_ok_def span_ok_def)
  have "res = (int (length w), w) \<and> layout_ok s' \<and> (\<exists>pc. s' = s\<lparr>vf_pc := pc\<rparr>)"
  proof (cases "z \<le> off")
    case True
    then have "res = (0, [])" "s' = s" using r i2 o by (simp_all add: vfs_read_file_offset_def Let_def node_at_def z_def)
    moreover have "w = []" using True w by (simp add: z_def nat_mono)
    moreover have "\<exists>pc. s = s\<lparr>vf_pc := pc\<rparr>" by (rule exI [of _ "vf_pc s"]) simp
    ultimately show ?thesis using ok by (simp only: list.size int_ops(1) simp_thms)
  next
    case False
    define len where "len = min len0 (z - off)"
    have l: "0 < len" "off + len \<le> z" using False o by (simp_all add: len_def)
    have z: "nd_size (vf_node s i) = z" "off < nd_size (vf_node s i)" "0 < z" using False o by (simp_all add: z_def)
    have wl: "w = take (nat len) (drop (nat off) (content s i))"
    proof (cases "len0 \<le> z - off")
      case True
      then show ?thesis by (simp add: w len_def)
    next
      case False
      then have "nat len = length (drop (nat off) (content s i))" "nat len \<le> nat len0" using l o z by (simp_all add: len_def nat_diff_distrib)
      then show ?thesis using w by simp
    qed
    have "length w = nat len" using l o z by (simp add: wl nat_le_iff nat_diff_distrib [symmetric])
    then have wn: "int (length w) = len" using l by simp
    have sec: "int VFS_DATA_START \<le> nd_sector (vf_node s i)" "nd_sector (vf_node s i) + nsec z \<le> int VFS_DISK_SECTORS"
      using fa z by (auto simp: file_at_def)
    have pos: "0 < nd_sector (vf_node s i) \<and> nd_sector (vf_node s i) < int VFS_DISK_SECTORS"
      using sec nsec_pos [of z] by (auto simp: VFS_DATA_START_def VFS_NODE_START_def)
    have nn: "z \<le> (int VFS_DISK_SECTORS - nd_sector (vf_node s i)) * 512" using sec nsec_bound [of z] z by (simp add: algebra_simps)
    have win: "read_window e (int i) off len junk (s\<lparr>vf_pc := pc\<rparr>) = (int (length w), w)" for pc
    proof -
      have "read_window e (int i) (int (nat off)) (int (nat len)) junk (s\<lparr>vf_pc := pc\<rparr>) = (int (nat len), take (nat len) (drop (nat off) (content (s\<lparr>vf_pc := pc\<rparr>) i)))"
        by (rule read_window_content) (use i fa rd l o z in \<open>simp_all add: native_def file_at_def\<close>)
      then show ?thesis using wl wn l o by simp
    qed
    obtain o1 pc1 where pr: "pcache_read (ve_now e) (int i) z off len (vf_pc s) = (o1, pc1)" by fastforce
    define s1 where "s1 = s\<lparr>vf_pc := pc1\<rparr>"
    have ok1: "layout_ok s1" unfolding s1_def by (rule pc_read_window(1) [OF ok i o(1) z(2) l(1)]) (use pr z in simp)
    have h1: "bs = w" if "o1 = Some bs" for bs
      using pc_read_window(2) [OF ok i o(1) z(2) l(1) _ that] pr z wl by simp
    have u: "vfs_read_file_offset e (int i) off len0 junk s =
        (case o1 of Some bs \<Rightarrow> ((int (length bs), bs), s1)
         | None \<Rightarrow>
            (if off = 0 \<and> z \<le> PCACHE_MAX_FILE \<and> ve_mem e (nat z) then
               (let b = read_span e s1 (first_sec s i) (nat z) junk; pc1 = pcache_insert (ve_mem e) (ve_now e) (int i) b z (vf_pc s1)
                in case pcache_read (ve_now e) (int i) z off len pc1 of
                     (Some bs, pc2) \<Rightarrow> ((int (length bs), bs), s1\<lparr>vf_pc := pc2\<rparr>)
                   | (None, pc2) \<Rightarrow> (let s2 = s1\<lparr>vf_pc := pc2\<rparr> in (read_window e (int i) off len junk s2, s2)))
             else (read_window e (int i) off len junk s1, s1)))"
      unfolding vfs_read_file_offset_def node_at_def nat_int Let_def z(1) len_def [symmetric]
      using i2 o z False pos nn by (simp add: pr s1_def first_sec_def min.absorb1 cong: if_cong option.case_cong)
    show ?thesis
    proof (cases o1)
      case (Some bs)
      then show ?thesis using r u h1 ok1 s1_def by auto
    next
      case None
      show ?thesis
      proof (cases "off = 0 \<and> z \<le> PCACHE_MAX_FILE \<and> ve_mem e (nat z)")
        case True
        define b where "b = read_span e s1 (first_sec s i) (nat z) junk"
        define s2 where "s2 = s1\<lparr>vf_pc := pcache_insert (ve_mem e) (ve_now e) (int i) b z (vf_pc s1)\<rparr>"
        have ii: "native s1 i" "nd_size (vf_node s1 i) = z" "first_sec s1 i = first_sec s i" using i z by (simp_all add: s1_def native_def first_sec_def)
        have ok2: "layout_ok s2" unfolding s2_def b_def ii(3) [symmetric]
          by (rule prime_agrees [OF ok1 ii(1)]) (use z ii rd in simp_all)
        have i3: "native s2 i" "nd_size (vf_node s2 i) = z" using ii by (simp_all add: s2_def native_def)
        have c2: "content s2 i = content s i" by (simp add: s2_def s1_def)
        obtain o2 pc2 where p2: "pcache_read (ve_now e) (int i) z off len (vf_pc s2) = (o2, pc2)" by fastforce
        have ok3: "layout_ok (s2\<lparr>vf_pc := pc2\<rparr>)" by (rule pc_read_window(1) [OF ok2 i3(1) o(1) _ l(1)]) (use p2 i3 z in simp_all)
        have h2: "bs = w" if "o2 = Some bs" for bs
          using pc_read_window(2) [OF ok2 i3(1) o(1) _ l(1) _ that] p2 i3 z wl c2 by simp
        have e3: "s2\<lparr>vf_pc := pc2\<rparr> = s\<lparr>vf_pc := pc2\<rparr>" "s1\<lparr>vf_pc := pc2\<rparr> = s\<lparr>vf_pc := pc2\<rparr>" by (simp_all add: s2_def s1_def)
        have p3: "pcache_read (ve_now e) (int i) z off len (pcache_insert (ve_mem e) (ve_now e) (int i) b z (vf_pc s1)) = (o2, pc2)"
          using p2 by (simp add: s2_def)
        show ?thesis
        proof (cases o2)
          case None
          then show ?thesis using r u \<open>o1 = None\<close> True p3 win ok3 e3 unfolding b_def Let_def by auto
        next
          case (Some bs)
          then show ?thesis using r u \<open>o1 = None\<close> True p3 h2 [OF Some] ok3 e3 unfolding b_def Let_def by auto
        qed
      next
        case False
        then have "res = read_window e (int i) off len junk s1" "s' = s1" using r u None by auto
        then show ?thesis using win ok1 by (auto simp: s1_def)
      qed
    qed
  qed
  then show "res = (int (length w), w)" "layout_ok s'" "\<exists>pc. s' = s\<lparr>vf_pc := pc\<rparr>" by simp_all
qed

end
