(* ===== verification/Vfs_Write.thy ===== *)
theory Vfs_Write
  imports Vfs_Disk
begin

text \<open>
  Writing a file in \<open>src/sys/vfs.c\<close>: which bytes, nodes and cache entries a write touches, and
  that the layout of the medium survives it.
\<close>

section \<open>What the saved table leaves alone\<close>

lemma node_table_write_frame:
  "vf_node (snd (node_table_write e buf i s)) = vf_node s \<and> vf_disk (snd (node_table_write e buf i s)) = vf_disk s
    \<and> vf_pc (snd (node_table_write e buf i s)) = vf_pc s \<and> vf_cwd (snd (node_table_write e buf i s)) = vf_cwd s
    \<and> vf_ram (snd (node_table_write e buf i s)) = vf_ram s \<and> vf_cap (snd (node_table_write e buf i s)) = vf_cap s
    \<and> vf_used (snd (node_table_write e buf i s)) = vf_used s"
proof (induction e buf i s rule: node_table_write.induct)
  case (1 e buf i s)
  define b where "b = (if buf then batch_at (VFS_NODE_START + i) (VFS_NODE_SECTORS - i) else 1)"
  show ?case
  proof (cases "i < VFS_NODE_SECTORS")
    case True
    show ?thesis
      using "1.IH" [OF True b_def] True unfolding node_table_write.simps [of e buf i s] b_def [symmetric] Let_def
      by (cases "ve_wr e (VFS_NODE_START + i) b") (simp_all add: store_nodes_def)
  next
    case False
    then show ?thesis by (simp add: node_table_write.simps)
  qed
qed

lemma vfs_save_frame [simp]:
  "vf_node (snd (vfs_save e s)) = vf_node s" "vf_disk (snd (vfs_save e s)) = vf_disk s" "vf_pc (snd (vfs_save e s)) = vf_pc s"
  "vf_cwd (snd (vfs_save e s)) = vf_cwd s" "vf_ram (snd (vfs_save e s)) = vf_ram s" "vf_cap (snd (vfs_save e s)) = vf_cap s"
  "vf_used (snd (vfs_save e s)) = vf_used s"
  by (simp_all add: vfs_save_def vfs_node_table_write_def node_table_write_frame)

lemma layout_cong:
  assumes "vf_node s' = vf_node s" and "vf_disk s' = vf_disk s" and "vf_pc s' = vf_pc s"
  shows "native s' = native s" and "span_ok s' = span_ok s" and "layout_ok s' = layout_ok s" and "content s' = content s" and "first_sec s' = first_sec s"
proof -
  have e: "native s' = native s" "run_of s' = run_of s" "file_at s' = file_at s" "same_file s' = same_file s" "first_sec s' = first_sec s"
    "disk_byte s' = disk_byte s"
    using assms by (simp_all add: fun_eq_iff native_def run_of_def file_at_def same_file_def first_sec_def disk_byte_def)
  then show "native s' = native s" "first_sec s' = first_sec s" by simp_all
  have "cache_agrees s' = cache_agrees s" unfolding cache_agrees_def assms e ..
  then show "span_ok s' = span_ok s" "layout_ok s' = layout_ok s" using assms e by (simp_all add: layout_ok_def span_ok_def)
  show "content s' = content s" using assms e by (simp add: fun_eq_iff content_def)
qed

section \<open>The other names of a file\<close>

definition other_name :: "vfs \<Rightarrow> nat \<Rightarrow> nat \<Rightarrow> bool" where
  "other_name s i j \<longleftrightarrow> j \<noteq> i \<and> native s j \<and> nd_sector (vf_node s i) > 0 \<and> nd_sector (vf_node s j) = nd_sector (vf_node s i)"

lemma sync_steps:
  assumes i: "native s i"
  defines "t \<equiv> vfs_sync_aliases (int i) s"
  shows "vf_node t = (\<lambda>j. if other_name s i j then (vf_node s j)\<lparr>nd_size := nd_size (vf_node s i)\<rparr> else vf_node s j)"
    and "vf_disk t = vf_disk s"
    and "pcache_ok (vf_pc s) \<Longrightarrow> pcache_ok (vf_pc t)"
    and "pcache_ok (vf_pc s) \<Longrightarrow> cached (vf_pc t) (int j) = (if other_name s i j then None else cached (vf_pc s) (int j))"
proof -
  define step where "step = (\<lambda>j u. if int j = int i \<or> \<not> nd_use (vf_node u j) \<or> nd_type (vf_node u j) \<noteq> FS_FILE
      \<or> \<not> (nd_sector (vf_node s i) > 0 \<and> nd_sector (vf_node u j) = nd_sector (vf_node s i)) then u
    else pc_drop (int j) (set_node j ((vf_node u j)\<lparr>nd_size := nd_size (vf_node s i)\<rparr>) u))"
  have t: "t = for_upto MAX_NODES step s"
    using i unfolding t_def vfs_sync_aliases_def step_def Let_def node_at_def nat_int by (simp add: node_range_def native_def)
  define I where "I = (\<lambda>n (u::vfs). vf_node u = (\<lambda>j. if j < n \<and> other_name s i j then (vf_node s j)\<lparr>nd_size := nd_size (vf_node s i)\<rparr> else vf_node s j)
    \<and> vf_disk u = vf_disk s \<and> (pcache_ok (vf_pc s) \<longrightarrow> pcache_ok (vf_pc u)
    \<and> (\<forall>j. cached (vf_pc u) (int j) = (if j < n \<and> other_name s i j then None else cached (vf_pc s) (int j)))))"
  have "I MAX_NODES t" unfolding t
  proof (rule for_upto_indexed)
    show "I 0 s" by (simp add: I_def)
  next
    fix n u assume n: "n < MAX_NODES" and u: "I n u"
    then have v: "vf_node u n = vf_node s n" by (simp add: I_def)
    have c: "step n u = (if other_name s i n then pc_drop (int n) (set_node n ((vf_node s n)\<lparr>nd_size := nd_size (vf_node s i)\<rparr>) u) else u)"
      using n by (auto simp: step_def v other_name_def native_def)
    show "I (Suc n) (step n u)"
    proof (cases "other_name s i n")
      case True
      then show ?thesis using u c unfolding I_def
        by (auto simp: pc_drop_def set_node_def fun_eq_iff less_Suc_eq pcache_invalidate_ok cached_invalidate)
    next
      case False
      then have "step n u = u" using c by simp
      then show ?thesis using u False unfolding I_def by (auto simp: fun_eq_iff less_Suc_eq)
    qed
  qed
  moreover have "j < MAX_NODES" if "other_name s i j" for j using that by (simp add: other_name_def native_def)
  ultimately show "vf_node t = (\<lambda>j. if other_name s i j then (vf_node s j)\<lparr>nd_size := nd_size (vf_node s i)\<rparr> else vf_node s j)"
    "vf_disk t = vf_disk s" "pcache_ok (vf_pc s) \<Longrightarrow> pcache_ok (vf_pc t)"
    "pcache_ok (vf_pc s) \<Longrightarrow> cached (vf_pc t) (int j) = (if other_name s i j then None else cached (vf_pc s) (int j))"
    unfolding I_def by (auto simp: fun_eq_iff)
qed

text \<open>A file and its other names move to a run that meets no other file.\<close>

lemma span_run:
  assumes ok: "span_ok s" and nt: "native t = native s" and z: "0 \<le> z"
    and st: "int VFS_DATA_START \<le> start" "start + nsec z \<le> int VFS_DISK_SECTORS"
    and f: "\<And>j. native s j \<Longrightarrow> nd_sector (vf_node t j) = start \<and> nd_size (vf_node t j) = z
      \<or> vf_node t j = vf_node s j \<and> (\<forall>x \<in> run_of s j. x < nat start \<or> nat start + nat (nsec z) \<le> x)"
  shows "span_ok t"
proof -
  define moved where "moved j \<longleftrightarrow> nd_sector (vf_node t j) = start \<and> nd_size (vf_node t j) = z" for j
  have s0: "0 < start" using st by (simp add: VFS_DATA_START_def VFS_NODE_START_def)
  have m: "run_of t j = {nat start ..< nat start + nat (nsec z)}" if "native s j" "moved j" for j
    using span_native [of t j] that s0 by (simp add: nt moved_def first_sec_def)
  have k: "vf_node t j = vf_node s j" "run_of t j = run_of s j" "run_of s j \<inter> {nat start ..< nat start + nat (nsec z)} = {}"
    if "native s j" "\<not> moved j" for j
    using f [OF that(1)] that(2) by (auto simp: moved_def run_of_def)
  have "file_at t j" if "native s j" for j
  proof (cases "moved j")
    case True
    then show ?thesis using st z by (simp add: moved_def file_at_def)
  next
    case False
    then show ?thesis using k [OF that] ok that by (simp add: span_ok_def file_at_def)
  qed
  moreover have "same_file t j l \<or> run_of t j \<inter> run_of t l = {}" if "native s j" "native s l" for j l
  proof (cases "moved j"; cases "moved l")
    assume "moved j" "moved l"
    then show ?thesis by (simp add: moved_def same_file_def)
  next
    assume "\<not> moved j" "\<not> moved l"
    then show ?thesis using ok that k(1,2) by (simp add: span_ok_def same_file_def)
  qed (use m k that in blast)+
  ultimately show ?thesis by (simp add: span_ok_def nt)
qed

section \<open>A write\<close>

text \<open>The state once the data sectors are written and the names are in step.\<close>

definition rewritten :: "venv \<Rightarrow> nat \<Rightarrow> int \<Rightarrow> u8 list \<Rightarrow> vfs \<Rightarrow> vfs" where
  "rewritten e i start data s =
     (let z = int (length data);
          s1 = set_node i ((vf_node s i)\<lparr>nd_sector := start\<rparr>) s;
          s2 = store_data (nat start) 0 (nat ((z + 511) div 512)) data s1;
          s3 = set_node i ((vf_node s2 i)\<lparr>nd_size := z\<rparr>) s2
      in vfs_sync_aliases (int i) (s3\<lparr>vf_pc := pcache_insert (ve_mem e) (ve_now e) (int i) (data_byte data) z (vf_pc s3)\<rparr>))"

lemma written_facts:
  fixes e :: venv and data :: "u8 list"
  assumes i: "native s i" and pc: "pcache_ok (vf_pc s)" and st: "0 < start"
  defines "t \<equiv> rewritten e i start data s"
  defines "z \<equiv> int (length data)"
  defines "other j \<equiv> j \<noteq> i \<and> native s j \<and> nd_sector (vf_node s j) = start"
  shows "vf_node t = (\<lambda>j. if j = i then (vf_node s i)\<lparr>nd_sector := start, nd_size := z\<rparr>
      else if other j then (vf_node s j)\<lparr>nd_size := z\<rparr> else vf_node s j)"
    and "vf_disk t = (\<lambda>x j. if nat start \<le> x \<and> x < nat start + nat ((z + 511) div 512) then data_byte data ((x - nat start) * 512 + j) else vf_disk s x j)"
    and "pcache_ok (vf_pc t)"
    and "cached (vf_pc t) (int i) \<in> {None, Some (z, data_byte data)}"
    and "other j \<Longrightarrow> cached (vf_pc t) (int j) = None"
    and "j \<noteq> i \<Longrightarrow> cached (vf_pc t) (int j) \<in> {None, cached (vf_pc s) (int j)}"
proof -
  define u where "u = (store_data (nat start) 0 (nat ((z + 511) div 512)) data s)\<lparr>vf_node := (vf_node s)(i := (vf_node s i)\<lparr>nd_sector := start, nd_size := z\<rparr>),
    vf_pc := pcache_insert (ve_mem e) (ve_now e) (int i) (data_byte data) z (vf_pc s)\<rparr>"
  have t: "t = vfs_sync_aliases (int i) u"
    unfolding t_def rewritten_def u_def z_def Let_def set_node_def store_data_def by (simp cong del: if_weak_cong)
  have ui: "native u i" using i by (simp add: u_def native_def)
  have zz: "0 \<le> z" by (simp add: z_def)
  have up: "pcache_ok (vf_pc u)" unfolding u_def by (simp add: pcache_insert_ok pc)
  have o: "other_name u i j = other j" for j using st i by (auto simp: other_name_def other_def u_def native_def)
  note A0 = sync_steps [OF ui, folded t, unfolded o]
  note A = A0(1,2) A0(3,4) [OF up]
  show "vf_node t = (\<lambda>j. if j = i then (vf_node s i)\<lparr>nd_sector := start, nd_size := z\<rparr>
      else if other j then (vf_node s j)\<lparr>nd_size := z\<rparr> else vf_node s j)"
    unfolding A(1) by (auto simp: fun_eq_iff u_def other_def)
  show "vf_disk t = (\<lambda>x j. if nat start \<le> x \<and> x < nat start + nat ((z + 511) div 512) then data_byte data ((x - nat start) * 512 + j) else vf_disk s x j)"
    unfolding A(2) by (simp add: u_def store_data_def)
  show "pcache_ok (vf_pc t)" by (rule A(3))
  have ci: "cached (vf_pc u) (int i) \<in> {None, Some (z, data_byte data)}"
    using cached_insert(1) [OF pc of_nat_0_le_iff zz, of "ve_mem e" "ve_now e" i "data_byte data"] by (simp add: u_def)
  have co: "cached (vf_pc u) (int j) \<in> {None, cached (vf_pc s) (int j)}" if "j \<noteq> i" for j
    using cached_insert(2) [OF pc of_nat_0_le_iff zz, of "int j" i] that by (simp add: u_def)
  show "cached (vf_pc t) (int i) \<in> {None, Some (z, data_byte data)}" using ci A(4) [of i] by (auto simp: other_def)
  show "other j \<Longrightarrow> cached (vf_pc t) (int j) = None" using A(4) [of j] by simp
  show "j \<noteq> i \<Longrightarrow> cached (vf_pc t) (int j) \<in> {None, cached (vf_pc s) (int j)}" using co [of j] A(4) [of j] by auto
qed

text \<open>Writing into a run that no other file uses.\<close>

lemma written_layout:
  fixes e :: venv and data :: "u8 list"
  assumes ok: "layout_ok s" and i: "native s i"
    and st: "int VFS_DATA_START \<le> start" "start + nsec (int (length data)) \<le> int VFS_DISK_SECTORS"
    and free: "\<And>j x. native s j \<Longrightarrow> j \<noteq> i \<Longrightarrow> nd_sector (vf_node s j) \<noteq> start \<Longrightarrow> x \<in> run_of s j
      \<Longrightarrow> x < nat start \<or> nat start + nat (nsec (int (length data))) \<le> x"
  defines "t \<equiv> rewritten e i start data s"
  shows "layout_ok t" and "native t = native s"
    and "native s j \<Longrightarrow> content t j = (if first_sec t j = nat start then data else content s j)"
    and "first_sec t i = nat start"
proof -
  define z where "z = int (length data)"
  define other where "other j \<longleftrightarrow> j \<noteq> i \<and> native s j \<and> nd_sector (vf_node s j) = start" for j
  have s0: "0 < start" using st by (simp add: VFS_DATA_START_def VFS_NODE_START_def)
  have pc: "pcache_ok (vf_pc s)" using ok by (simp add: layout_ok_def span_ok_def)
  note F = written_facts [OF i pc s0, where e = e and data = data, folded t_def z_def, folded other_def]
  have zz: "0 \<le> z" by (simp add: z_def)
  have nz: "z \<le> (z + 511) div 512 * 512" "(z + 511) div 512 \<le> nsec z" "0 \<le> (z + 511) div 512" using zz by (auto simp: nsec_def Let_def)
  have sec: "nd_sector (vf_node t j) = (if j = i then start else nd_sector (vf_node s j))" for j by (simp add: F(1))
  have siz: "nd_size (vf_node t j) = (if j = i \<or> other j then z else nd_size (vf_node s j))" for j by (simp add: F(1))
  show nat: "native t = native s" by (auto simp: fun_eq_iff native_def F(1))
  have fst: "first_sec t j = (if j = i \<or> other j then nat start else first_sec s j)" for j
    by (auto simp: first_sec_def sec other_def)
  then show "first_sec t i = nat start" by simp
  have same: "vf_node t j = vf_node s j" if "j \<noteq> i" "\<not> other j" for j using that by (simp add: F(1))
  have dat: "disk_byte t (nat start) k = data_byte data k" if "k < length data" for k
  proof -
    have "int k < (z + 511) div 512 * 512" using that nz z_def by linarith
    then have "k div 512 < nat ((z + 511) div 512)" by linarith
    then show ?thesis by (simp add: disk_byte_def F(2))
  qed
  have keep: "disk_byte t (first_sec s j) k = disk_byte s (first_sec s j) k"
    if "native s j" "j \<noteq> i" "\<not> other j" "k < nat (nd_size (vf_node s j))" for j k
  proof (rule disk_byte_frame [OF that(1) _ that(4)])
    show "file_at s j" using ok that by (simp add: layout_ok_def span_ok_def)
    fix x l assume "x \<in> run_of s j"
    then have "x < nat start \<or> nat start + nat (nsec z) \<le> x" using free [OF that(1,2)] that(1-3) by (simp add: z_def other_def)
    then show "vf_disk t x l = vf_disk s x l" using nz by (auto simp: F(2))
  qed
  have SP: "span_ok t"
  proof (rule span_run [OF _ nat zz st(1) st(2) [folded z_def]])
    show "span_ok s" using ok by (simp add: layout_ok_def)
    fix j assume j: "native s j"
    show "nd_sector (vf_node t j) = start \<and> nd_size (vf_node t j) = z
      \<or> vf_node t j = vf_node s j \<and> (\<forall>x \<in> run_of s j. x < nat start \<or> nat start + nat (nsec z) \<le> x)"
    proof (cases "j = i \<or> other j")
      case True
      then show ?thesis by (auto simp: sec siz other_def)
    next
      case False
      then show ?thesis using same free [OF j] j by (auto simp: z_def other_def)
    qed
  qed
  have FA: "cache_agrees t j" if j: "native s j" for j
  proof (cases "j = i \<or> other j")
    case True
    have "cached (vf_pc t) (int j) = Some (z', d) \<Longrightarrow> z' = z \<and> d = data_byte data" for z' d
      using True F(4) F(5) [of j] by auto
    then show ?thesis using True dat by (auto simp: cache_agrees_def siz fst z_def)
  next
    case False
    have o: "cache_agrees s j" using ok j by (simp add: layout_ok_def)
    have c: "z' \<le> nd_size (vf_node s j) \<and> (\<forall>k < nat z'. d k = disk_byte s (first_sec s j) k)"
      if "cached (vf_pc t) (int j) = Some (z', d)" for z' d
    proof -
      have "cached (vf_pc s) (int j) = Some (z', d)" using F(6) [of j] False that by simp
      then show ?thesis using o by (simp add: cache_agrees_def)
    qed
    show ?thesis unfolding cache_agrees_def
    proof (intro allI impI conjI)
      fix z' d assume "cached (vf_pc t) (int j) = Some (z', d)"
      note c = c [OF this]
      show "z' \<le> nd_size (vf_node t j)" using c False by (simp add: siz)
      fix k assume k: "k < nat z'"
      then have "k < nat (nd_size (vf_node s j))" using c by linarith
      then show "d k = disk_byte t (first_sec t j) k" using c k keep [OF j, of k] False by (simp add: fst)
    qed
  qed
  show "layout_ok t" unfolding layout_ok_def nat using F(3) FA SP by blast
  show "content t j = (if first_sec t j = nat start then data else content s j)" if j: "native s j"
  proof (cases "j = i \<or> other j")
    case True
    then have "content t j = data" unfolding content_def siz fst using dat
      by (auto simp: z_def data_byte_def intro!: nth_equalityI)
    then show ?thesis using True by (simp add: fst)
  next
    case False
    have "0 \<le> nd_sector (vf_node s j)" using ok j by (auto simp: layout_ok_def span_ok_def file_at_def)
    then have "first_sec s j \<noteq> nat start" using False j s0 by (auto simp: first_sec_def other_def)
    then have "first_sec t j \<noteq> nat start" using False by (simp add: fst)
    moreover have "content t j = content s j" unfolding content_def siz fst using False keep [OF j] by simp
    ultimately show ?thesis by simp
  qed
qed


lemma nsec_le: "a \<le> b \<Longrightarrow> nsec a \<le> nsec b"
proof -
  assume "a \<le> b"
  then have "(a + 511) div 512 \<le> (b + 511) div 512" by (intro zdiv_mono1) simp_all
  then show ?thesis by (auto simp: nsec_def Let_def)
qed

text \<open>The run a successful write uses: the file's own, or one that is free but for it.\<close>

lemma write_run:
  fixes data :: "u8 list"
  assumes ok: "span_ok s" and i: "native s i"
  defines "z \<equiv> int (length data)" and "n \<equiv> vf_node s i"
  defines "start0 \<equiv> (if nd_sector n > 0 \<and> nsec z > nsec (nd_size n) then 0 else nd_sector n)"
  defines "start \<equiv> (if start0 = 0 then vfs_alloc_sectors s (nat (nsec z)) (int i) else start0)"
  assumes g: "\<not> (start0 = 0 \<and> start < 0)"
  shows "int VFS_DATA_START \<le> start" and "start + nsec z \<le> int VFS_DISK_SECTORS"
    and "native s j \<Longrightarrow> j \<noteq> i \<Longrightarrow> nd_sector (vf_node s j) \<noteq> start \<Longrightarrow> x \<in> run_of s j \<Longrightarrow> x < nat start \<or> nat start + nat (nsec z) \<le> x"
    and "start0 = 0 \<Longrightarrow> native s j \<Longrightarrow> j \<noteq> i \<Longrightarrow> nd_sector (vf_node s j) \<noteq> start"
proof -
  have fa: "file_at s i" using ok i by (simp add: span_ok_def)
  have np: "1 \<le> nsec z" by (rule nsec_pos)
  have "int VFS_DATA_START \<le> start \<and> start + nsec z \<le> int VFS_DISK_SECTORS
      \<and> (native s j \<and> j \<noteq> i \<and> nd_sector (vf_node s j) \<noteq> start \<and> x \<in> run_of s j \<longrightarrow> x < nat start \<or> nat start + nat (nsec z) \<le> x)"
  proof (cases "start0 = 0")
    case True
    then have a: "vfs_alloc_sectors s (nat (nsec z)) (int i) = start" "0 \<le> start" using g by (simp_all add: start_def)
    note A = alloc_sectors_some [OF a]
    have "\<not> (nat start \<le> x \<and> x < nat start + nat (nsec z))" if "native s j" "j \<noteq> i" "x \<in> run_of s j"
    proof
      assume x: "nat start \<le> x \<and> x < nat start + nat (nsec z)"
      then have "\<not> sector_map s (int i) (nat start + (x - nat start))" by (intro A(3)) linarith
      then show False using x that by (auto simp: sector_map_def run_of_def native_def)
    qed
    then show ?thesis using A(1,2) a np by (auto simp: not_less not_le)
  next
    case False
    then have s: "start = nd_sector n" "start0 = nd_sector n" "\<not> (nd_sector n > 0 \<and> nsec z > nsec (nd_size n))"
      by (auto simp: start_def start0_def split: if_splits)
    then have p: "int VFS_DATA_START \<le> nd_sector n" "nd_sector n + nsec (nd_size n) \<le> int VFS_DISK_SECTORS"
      using fa False by (auto simp: file_at_def n_def)
    have le: "nsec z \<le> nsec (nd_size n)" using s(3) p(1) by (simp add: VFS_DATA_START_def VFS_NODE_START_def)
    have sp: "run_of s i = {nat start ..< nat start + nat (nsec (nd_size n))}"
      using span_native [OF i] p(1) by (simp add: s(1) n_def first_sec_def VFS_DATA_START_def VFS_NODE_START_def)
    have "x < nat start \<or> nat start + nat (nsec z) \<le> x" if "native s j" "j \<noteq> i" "nd_sector (vf_node s j) \<noteq> start" "x \<in> run_of s j"
    proof -
      have "\<not> same_file s i j" using that(3) s(1) by (simp add: same_file_def n_def)
      then have "x \<notin> run_of s i" using ok i that by (auto simp: span_ok_def)
      moreover have "nat (nsec z) \<le> nat (nsec (nd_size n))" using le by simp
      ultimately show ?thesis using sp by auto
    qed
    then show ?thesis using p le by (auto simp: s(1))
  qed
  then show "int VFS_DATA_START \<le> start" "start + nsec z \<le> int VFS_DISK_SECTORS"
    "native s j \<Longrightarrow> j \<noteq> i \<Longrightarrow> nd_sector (vf_node s j) \<noteq> start \<Longrightarrow> x \<in> run_of s j \<Longrightarrow> x < nat start \<or> nat start + nat (nsec z) \<le> x"
    by blast+
  show "nd_sector (vf_node s j) \<noteq> start" if z: "start0 = 0" and j: "native s j" "j \<noteq> i"
  proof
    assume e: "nd_sector (vf_node s j) = start"
    have a: "vfs_alloc_sectors s (nat (nsec z)) (int i) = start" "0 \<le> start" using g z by (simp_all add: start_def)
    have "int VFS_DATA_START \<le> start" using alloc_sectors_some(1) [OF a] a by linarith
    then have "holds_sector (vf_node s j) (nat start)"
      using e j nsec_pos [of "nd_size (vf_node s j)"] by (simp add: holds_sector_def native_def VFS_DATA_START_def VFS_NODE_START_def)
    then have "sector_map s (int i) (nat start + 0)" using j by (auto simp: sector_map_def native_def)
    then show False using alloc_sectors_some(3) [OF a, of 0] np by simp
  qed
qed

lemma write_native_content:
  assumes ok: "layout_ok s" and i: "native s i" and w: "write_native e (int i) data s = (r, s')" and r: "0 \<le> r"
  shows "r = int (length data)" and "layout_ok s'" and "native s' = native s"
    and "native s j \<Longrightarrow> content s' j = (if first_sec s' j = first_sec s' i then data else content s j)"
proof -
  define z where "z = int (length data)"
  define n where "n = vf_node s i"
  define start0 where "start0 = (if nd_sector n > 0 \<and> nsec z > nsec (nd_size n) then 0 else nd_sector n)"
  define start where "start = (if start0 = 0 then vfs_alloc_sectors s (nat (nsec z)) (int i) else start0)"
  define s1 where "s1 = set_node i (n\<lparr>nd_sector := start\<rparr>) s"
  obtain good s2 where ws: "write_secs e (ve_mem e (128 * 512)) (nat start) 0 (nat ((z + 511) div 512)) data s1 = (good, s2)" by fastforce
  have u: "write_native e (int i) data s =
      (if start0 = 0 \<and> start < 0 then (-3, s)
       else if \<not> good then (-1, s2)
       else (let s5 = vfs_sync_aliases (int i) ((set_node i ((vf_node s2 i)\<lparr>nd_size := z\<rparr>) s2)\<lparr>vf_pc :=
                    pcache_insert (ve_mem e) (ve_now e) (int i) (data_byte data) z (vf_pc s2)\<rparr>)
             in if \<not> ve_seeding e \<and> (z \<noteq> nd_size n \<or> start \<noteq> nd_sector n) then
                  (if fst (vfs_save e s5) \<noteq> 0 then -1 else z, snd (vfs_save e s5))
                else (z, s5)))"
    unfolding write_native_def Let_def node_at_def nat_int z_def [symmetric] n_def [symmetric] start0_def [symmetric]
      start_def [symmetric] s1_def [symmetric] ws
    by (simp add: case_prod_beta set_node_def)
  have g: "\<not> (start0 = 0 \<and> start < 0)" and good using u w r by (auto split: if_splits)
  then have s2: "s2 = store_data (nat start) 0 (nat ((z + 511) div 512)) data s1"
    using write_secs_done [of e _ "nat start" 0 _ data s1 s2] ws by simp
  have so: "span_ok s" using ok by (simp add: layout_ok_def)
  note R = write_run [OF so i, where data = data, folded z_def n_def, folded start0_def, folded start_def, OF g]
  define t where "t = rewritten e i start data s"
  have t: "vfs_sync_aliases (int i) ((set_node i ((vf_node s2 i)\<lparr>nd_size := z\<rparr>) s2)\<lparr>vf_pc :=
      pcache_insert (ve_mem e) (ve_now e) (int i) (data_byte data) z (vf_pc s2)\<rparr>) = t"
    unfolding t_def rewritten_def Let_def z_def [symmetric] n_def [symmetric] s1_def [symmetric] s2 [symmetric] by (simp add: set_node_def)
  have fr: "x < nat start \<or> nat start + nat (nsec (int (length data))) \<le> x"
    if "native s j" "j \<noteq> i" "nd_sector (vf_node s j) \<noteq> start" "x \<in> run_of s j" for j x
    using R(3) [OF that] by (simp add: z_def)
  note W = written_layout [OF ok i R(1,2) [unfolded z_def], where e = e, folded t_def]
  have L: "layout_ok t" "native t = native s" "first_sec t i = nat start" by (rule W(1) W(2) W(4), rule fr; assumption)+
  have LC: "content t j = (if first_sec t j = nat start then data else content s j)" if "native s j" for j
    by (rule W(3) [OF fr that]; assumption)
  have res: "r = z" and e: "vf_node s' = vf_node t" "vf_disk s' = vf_disk t" "vf_pc s' = vf_pc t"
    using w r \<open>good\<close> g unfolding u t Let_def by (auto split: if_splits)
  note C = layout_cong [OF e]
  show "r = int (length data)" using res by (simp add: z_def)
  show "layout_ok s'" "native s' = native s" using C(1,3) L(1,2) by simp_all
  show "native s j \<Longrightarrow> content s' j = (if first_sec s' j = first_sec s' i then data else content s j)"
    unfolding C(4,5) using L(3) LC by simp
qed

end
