(* ===== verification/Vfs_Tree.thy ===== *)
theory Vfs_Tree
  imports Vfs_Write
begin

text \<open>
  Parent chains of \<open>src/sys/vfs.c\<close>: when a walk up from a node ends, that \<open>names_fuel\<close> covers
  every walk that does, and what \<open>vfs_load\<close> makes of the chains of an image it does not trust.
\<close>

section \<open>Walks up\<close>

definition up :: "vfs \<Rightarrow> int \<Rightarrow> int" where
  "up s p = nd_parent (node_at s p)"

definition stops :: "vfs \<Rightarrow> int \<Rightarrow> bool" where
  "stops s p \<longleftrightarrow> p < 0 \<or> p < int MAX_NODES \<and> \<not> nd_use (node_at s p)"

text \<open>The walk from \<open>p\<close> stays in the table and comes to an end.\<close>

inductive chain_ends :: "vfs \<Rightarrow> int \<Rightarrow> bool" for s where
  stop: "stops s p \<Longrightarrow> chain_ends s p"
| up: "p < int MAX_NODES \<Longrightarrow> chain_ends s (up s p) \<Longrightarrow> chain_ends s p"

lemma ends_iter: "chain_ends s p \<Longrightarrow> \<exists>n. stops s ((up s ^^ n) p) \<and> (\<forall>k < n. node_range ((up s ^^ k) p))"
proof (induction rule: chain_ends.induct)
  case (stop p)
  then have "stops s ((up s ^^ 0) p)" by simp
  then show ?case by blast
next
  case (up p)
  then obtain n where n: "stops s ((up s ^^ n) (up s p))" "\<forall>k < n. node_range ((up s ^^ k) (up s p))" by blast
  show ?case
  proof (cases "stops s p")
    case True
    then have "stops s ((up s ^^ 0) p)" by simp
    then show ?thesis by blast
  next
    case False
    then have "node_range p" using up.hyps(1) by (simp add: stops_def node_range_def)
    then have "\<forall>k < Suc n. node_range ((up s ^^ k) p)" using n(2) by (auto simp: funpow_Suc_right less_Suc_eq_0_disj simp del: funpow.simps(2))
    moreover have "stops s ((up s ^^ Suc n) p)" using n(1) by (simp add: funpow_Suc_right del: funpow.simps(2))
    ultimately show ?thesis by blast
  qed
qed

lemma iter_stop_ends:
  "stops s ((up s ^^ n) p) \<Longrightarrow> (\<And>k. k < n \<Longrightarrow> (up s ^^ k) p < int MAX_NODES) \<Longrightarrow> chain_ends s p"
proof (induction n arbitrary: p)
  case 0
  then show ?case by (simp add: chain_ends.stop)
next
  case (Suc n)
  have "chain_ends s (up s p)"
  proof (rule Suc.IH)
    show "stops s ((up s ^^ n) (up s p))" using Suc.prems(1) by (simp add: funpow_Suc_right del: funpow.simps(2))
    show "(up s ^^ k) (up s p) < int MAX_NODES" if "k < n" for k
      using Suc.prems(2) [of "Suc k"] that by (simp add: funpow_Suc_right del: funpow.simps(2))
  qed
  moreover have "p < int MAX_NODES" using Suc.prems(2) [of 0] by simp
  ultimately show ?case by (rule chain_ends.up [rotated])
qed

text \<open>A walk that ends meets no node twice: it is no longer than the table.\<close>

lemma ends_bound:
  assumes "chain_ends s p"
  shows "\<exists>n \<le> MAX_NODES. stops s ((up s ^^ n) p)"
proof -
  define n where "n = (LEAST n. stops s ((up s ^^ n) p))"
  obtain m where m: "stops s ((up s ^^ m) p)" "\<forall>k < m. node_range ((up s ^^ k) p)" using ends_iter [OF assms] by blast
  have n: "stops s ((up s ^^ n) p)" unfolding n_def by (rule LeastI [of _ m]) (rule m(1))
  have least: "\<not> stops s ((up s ^^ k) p)" if "k < n" for k using that not_less_Least unfolding n_def by blast
  have "n \<le> m" unfolding n_def by (rule Least_le) (rule m(1))
  then have rng: "node_range ((up s ^^ k) p)" if "k < n" for k using m(2) that by simp
  have "inj_on (\<lambda>k. nat ((up s ^^ k) p)) {..<n}"
  proof (rule linorder_inj_onI')
    fix a b assume ab: "a \<in> {..<n}" "b \<in> {..<n}" "a < b"
    show "nat ((up s ^^ a) p) \<noteq> nat ((up s ^^ b) p)"
    proof
      assume "nat ((up s ^^ a) p) = nat ((up s ^^ b) p)"
      then have e: "(up s ^^ a) p = (up s ^^ b) p" using rng [of a] rng [of b] ab by (simp add: node_range_def eq_nat_nat_iff)
      have "n = (n - b) + b" using ab by simp
      then have "(up s ^^ n) p = (up s ^^ (n - b)) ((up s ^^ b) p)" by (metis comp_apply funpow_add)
      also have "\<dots> = (up s ^^ (n - b + a)) p" by (simp add: e [symmetric] funpow_add)
      finally have "stops s ((up s ^^ (n - b + a)) p)" using n by simp
      moreover have "n - b + a < n" using ab by simp
      ultimately show False using least by blast
    qed
  qed
  moreover have "(\<lambda>k. nat ((up s ^^ k) p)) ` {..<n} \<subseteq> {..<MAX_NODES}"
    using rng by (auto simp: node_range_def nat_less_iff)
  ultimately have "card {..<n} \<le> card {..<MAX_NODES}" by (meson card_inj_on_le finite_lessThan)
  then show ?thesis using n by auto
qed

text \<open>The path of a node does not depend on the fuel: the loop of the code ends.\<close>

lemma names_up_fuel:
  "stops s ((up s ^^ n) p) \<Longrightarrow> n < m \<Longrightarrow> n < m' \<Longrightarrow> names_up m s p k = names_up m' s p k"
proof (induction n arbitrary: p m m' k)
  case 0
  then show ?case by (cases m; cases m') (auto simp: stops_def)
next
  case (Suc n)
  then obtain a b where m: "m = Suc a" "m' = Suc b" by (metis Suc_less_eq2)
  have "stops s ((up s ^^ n) (up s p))" using Suc.prems(1) by (simp add: funpow_Suc_right del: funpow.simps(2))
  then have "names_up a s (up s p) k = names_up b s (up s p) k" for k
    by (rule Suc.IH) (use Suc.prems(2,3) m in simp_all)
  then show ?case by (cases "p = 0") (simp_all add: m up_def)
qed

section \<open>Chains the loader repairs\<close>

definition parents_in :: "vfs \<Rightarrow> bool" where
  "parents_in s \<longleftrightarrow> (\<forall>i < MAX_NODES. nd_use (vf_node s i) \<longrightarrow> -1 \<le> nd_parent (vf_node s i) \<and> nd_parent (vf_node s i) < int MAX_NODES)"

lemma up_in: "parents_in s \<Longrightarrow> node_range p \<Longrightarrow> nd_use (node_at s p) \<Longrightarrow> -1 \<le> up s p \<and> up s p < int MAX_NODES"
  by (auto simp: parents_in_def up_def node_at_def node_range_def)

text \<open>A walk that the check lets pass ends.\<close>

lemma up_check_ends:
  assumes "parents_in s" and "p < int MAX_NODES" and "up_check s i p k = (False, k')" and "k' \<le> MAX_NODES"
  shows "chain_ends s p"
  using assms
proof (induction s i p k rule: up_check.induct)
  case (1 s i p k)
  show ?case
  proof (cases "node_range p \<and> nd_use (node_at s p)")
    case False
    then have "stops s p" using "1.prems"(2) by (auto simp: stops_def node_range_def)
    then show ?thesis by (rule chain_ends.stop)
  next
    case True
    have k: "\<not> k > MAX_NODES" "p \<noteq> i" using "1.prems"(3,4) True by (auto simp: up_check.simps split: if_splits)
    then have "up_check s i (up s p) (Suc k) = (False, k')" using "1.prems"(3) True by (simp add: up_check.simps [of s i p k] up_def)
    moreover have "up s p < int MAX_NODES" using up_in [OF "1.prems"(1)] True by blast
    ultimately have "chain_ends s (up s p)" using "1.IH" [OF _ k] True "1.prems"(1,4) by (simp add: up_def)
    then show ?thesis by (rule chain_ends.up [rotated]) (use "1.prems"(2) in simp)
  qed
qed

text \<open>A change of parents in the nodes of a set keeps every chain that ended, when the changed
  nodes have chains that end.\<close>

lemma ends_redirect:
  assumes "chain_ends s p" and "\<And>q. stops s q \<Longrightarrow> chain_ends t q"
    and "\<And>q. node_range q \<Longrightarrow> up t q = up s q \<or> chain_ends t q"
  shows "chain_ends t p"
  using assms(1)
proof (induction rule: chain_ends.induct)
  case (stop p)
  then show ?case by (rule assms(2))
next
  case (up p)
  show ?case
  proof (cases "p < 0")
    case True
    then show ?thesis by (intro chain_ends.stop) (simp add: stops_def)
  next
    case False
    then show ?thesis using assms(3) [of p] up by (auto simp: node_range_def intro: chain_ends.up)
  qed
qed

lemma ends_parent: "node_range (int i) \<Longrightarrow> chain_ends s (nd_parent (vf_node s i)) \<Longrightarrow> chain_ends s (int i)"
  by (rule chain_ends.up) (simp_all add: node_range_def up_def node_at_def)

definition root_top :: "vfs \<Rightarrow> bool" where
  "root_top s \<longleftrightarrow> nd_parent (vf_node s 0) = -1"

definition chains_end :: "vfs \<Rightarrow> bool" where
  "chains_end s \<longleftrightarrow> (\<forall>i < MAX_NODES. chain_ends s (int i))"

lemma root_top_ends: "root_top s \<Longrightarrow> chain_ends s 0"
  using ends_parent [of 0 s] chain_ends.stop [of s "-1"] by (simp add: root_top_def node_range_def MAX_NODES_def stops_def)

lemma break_cycle_step:
  assumes i: "i < MAX_NODES" and p: "parents_in s" and r: "root_top s" and e: "\<And>j. j < i \<Longrightarrow> chain_ends s (int j)"
  defines "t \<equiv> break_cycle i s"
  shows "parents_in t" and "root_top t" and "j < Suc i \<Longrightarrow> chain_ends t (int j)"
    and "nd_use (vf_node t k) = nd_use (vf_node s k)"
proof -
  have ir: "node_range (int i)" using i by (simp add: node_range_def)
  obtain h c where u: "up_check s (int i) (nd_parent (vf_node s i)) 0 = (h, c)" by fastforce
  have "parents_in t \<and> root_top t \<and> (\<forall>j < Suc i. chain_ends t (int j)) \<and> nd_use (vf_node t k) = nd_use (vf_node s k)"
  proof (cases "nd_use (vf_node s i) \<and> (h \<or> c > MAX_NODES)")
    case True
    have "i \<noteq> 0"
    proof
      assume "i = 0"
      then have "up_check s (int i) (nd_parent (vf_node s i)) 0 = (False, 0)" using r by (simp add: root_top_def up_check.simps node_range_def)
      then show False using True u by simp
    qed
    have t: "t = set_node i ((vf_node s i)\<lparr>nd_parent := 0\<rparr>) s" using True u by (simp add: t_def break_cycle_def)
    have rt: "root_top t" using r \<open>i \<noteq> 0\<close> by (simp add: t root_top_def set_node_def)
    have ti: "chain_ends t (int i)" by (rule ends_parent [OF ir]) (use root_top_ends [OF rt] in \<open>simp add: t set_node_def\<close>)
    have "chain_ends t (int j)" if "j < i" for j
    proof (rule ends_redirect [OF e [OF that]])
      show "chain_ends t q" if "stops s q" for q using that by (intro chain_ends.stop) (auto simp: stops_def t set_node_def node_at_def)
      show "up t q = up s q \<or> chain_ends t q" if "node_range q" for q
        using that ti by (cases "q = int i") (auto simp: t set_node_def node_at_def up_def node_range_def)
    qed
    moreover have "parents_in t" using p by (auto simp: parents_in_def t set_node_def MAX_NODES_def)
    ultimately show ?thesis using rt ti by (auto simp: less_Suc_eq t set_node_def)
  next
    case False
    then have t: "t = s" using u by (auto simp: t_def break_cycle_def)
    have "chain_ends s (int i)"
    proof (cases "nd_use (vf_node s i)")
      case True
      then have "h = False" "c \<le> MAX_NODES" using False by auto
      then have "chain_ends s (nd_parent (vf_node s i))" using up_check_ends [OF p _ u [unfolded \<open>h = False\<close>]] p i True by (auto simp: parents_in_def)
      then show ?thesis by (rule ends_parent [OF ir])
    next
      case False
      then show ?thesis using i by (intro chain_ends.stop) (simp add: stops_def node_at_def)
    qed
    then show ?thesis using p r e t by (auto simp: less_Suc_eq)
  qed
  then show "parents_in t" "root_top t" "j < Suc i \<Longrightarrow> chain_ends t (int j)" "nd_use (vf_node t k) = nd_use (vf_node s k)" by blast+
qed

text \<open>Every chain ends once the pass is over, when the root has no parent.\<close>

lemma break_cycles:
  assumes "parents_in s" and "root_top s"
  shows "parents_in (for_upto MAX_NODES break_cycle s) \<and> root_top (for_upto MAX_NODES break_cycle s) \<and> chains_end (for_upto MAX_NODES break_cycle s)"
proof -
  let ?I = "\<lambda>n s. parents_in s \<and> root_top s \<and> (\<forall>j < n. chain_ends s (int j))"
  have "?I MAX_NODES (for_upto MAX_NODES break_cycle s)"
  proof (rule for_upto_indexed [where I = ?I])
    fix i s assume i: "i < MAX_NODES" and I: "?I i s"
    show "?I (Suc i) (break_cycle i s)" using break_cycle_step(1-3) [OF i, of s] I by blast
  qed (use assms in simp)
  then show ?thesis by (simp add: chains_end_def)
qed

lemma sane_nodes:
  "parents_in (for_upto MAX_NODES sane_node s)"
  "nd_parent (vf_node s 0) = -1 \<Longrightarrow> root_top (for_upto MAX_NODES sane_node s)"
proof -
  let ?I = "\<lambda>n t. (\<forall>i < n. nd_use (vf_node t i) \<longrightarrow> -1 \<le> nd_parent (vf_node t i) \<and> nd_parent (vf_node t i) < int MAX_NODES)
    \<and> (nd_parent (vf_node s 0) = -1 \<longrightarrow> root_top t)"
  have "?I MAX_NODES (for_upto MAX_NODES sane_node s)"
  proof (rule for_upto_indexed [where I = ?I])
    show "?I 0 s" by (simp add: root_top_def)
  next
    fix i t assume i: "i < MAX_NODES" and I: "?I i t"
    have n: "vf_node (sane_node i t) j = (if j = i then vf_node (sane_node i t) i else vf_node t j)" for j
      by (simp add: sane_node_def set_node_def Let_def)
    have "nd_use (vf_node (sane_node i t) i) \<longrightarrow> -1 \<le> nd_parent (vf_node (sane_node i t) i) \<and> nd_parent (vf_node (sane_node i t) i) < int MAX_NODES"
      by (auto simp: sane_node_def set_node_def Let_def MAX_NODES_def)
    moreover have "root_top t \<Longrightarrow> root_top (sane_node i t)"
      by (auto simp: root_top_def sane_node_def set_node_def Let_def)
    ultimately show "?I (Suc i) (sane_node i t)" using I n by (metis less_Suc_eq)
  qed
  then show "parents_in (for_upto MAX_NODES sane_node s)" "nd_parent (vf_node s 0) = -1 \<Longrightarrow> root_top (for_upto MAX_NODES sane_node s)"
    by (auto simp: parents_in_def)
qed

lemma ends_cwd: "chain_ends (s\<lparr>vf_cwd := d\<rparr>) p = chain_ends s p"
proof -
  have "chain_ends t p" if "chain_ends u p" "vf_node t = vf_node u" for t u
    by (rule ends_redirect [OF that(1)]) (auto simp: stops_def up_def node_at_def that(2) intro!: chain_ends.stop)
  then show ?thesis by (metis (no_types, lifting) vfs.select_convs(1) vfs.surjective vfs.update_convs(2))
qed

lemma load_chains:
  assumes l: "vfs_load e s = (True, s')" and r: "nd_parent (vf_tab s 0) = -1"
  shows "parents_in s'" and "root_top s'" and "chains_end s'" and "nd_use (vf_node s' 0)"
proof -
  define s1 where "s1 = load_nodes e s"
  define t where "t = for_upto MAX_NODES break_cycle (for_upto MAX_NODES sane_node s1)"
  have rd: "\<forall>i < VFS_NODE_SECTORS. ve_rd e (VFS_NODE_START + i) 1" and s': "\<exists>d. s' = t\<lparr>vf_cwd := d\<rparr>" and u: "nd_use (vf_node s' 0)"
    using l by (auto simp: vfs_load_def Let_def s1_def [symmetric] t_def [symmetric] split: if_splits)
  have "first_idx (\<lambda>i. \<not> ve_rd e (VFS_NODE_START + i) 1) 0 VFS_NODE_SECTORS = None" using rd by (simp add: scan_simps)
  then have "vf_node s1 0 = vf_tab s 0" by (simp add: s1_def load_nodes_def VFS_NODE_SECTORS_def)
  then have "parents_in t \<and> root_top t \<and> chains_end t" unfolding t_def using r by (intro break_cycles sane_nodes) simp_all
  then show "parents_in s'" "root_top s'" "chains_end s'" using s' by (auto simp: parents_in_def root_top_def chains_end_def ends_cwd)
  show "nd_use (vf_node s' 0)" by (rule u)
qed

end
