(* ===== verification/Vfs_Inv.thy ===== *)
theory Vfs_Inv
  imports Vfs_Tree
begin

text \<open>
  The invariant of the node table of \<open>src/sys/vfs.c\<close>: every parent chain ends, and different
  native files own disjoint runs of data sectors. It is shown for the changes to single nodes
  first, then for the walker, which may add \<open>/proc\<close> nodes, and for every call of the file.
\<close>

section \<open>The invariant\<close>

definition tree_ok :: "vfs \<Rightarrow> bool" where
  "tree_ok s \<longleftrightarrow> parents_in s \<and> root_top s \<and> nd_use (vf_node s 0) \<and> chains_end s"

definition vfs_inv :: "vfs \<Rightarrow> bool" where
  "vfs_inv s \<longleftrightarrow> tree_ok s \<and> span_ok s"

text \<open>A node that hangs on the root.\<close>

inductive anchored :: "vfs \<Rightarrow> int \<Rightarrow> bool" for s where
  root: "nd_use (vf_node s 0) \<Longrightarrow> anchored s 0"
| up: "node_range p \<Longrightarrow> nd_use (node_at s p) \<Longrightarrow> anchored s (up s p) \<Longrightarrow> anchored s p"

lemma anchored_used: "anchored s p \<Longrightarrow> node_range p \<and> nd_use (node_at s p)"
  by (induction rule: anchored.induct) (simp_all add: node_range_def MAX_NODES_def node_at_def)

lemma ends_cong:
  assumes "vf_node t = vf_node s"
  shows "chain_ends t = chain_ends s"
proof -
  have "chain_ends b p" if "chain_ends a p" "vf_node a = vf_node b" for a b p
    by (rule ends_redirect [OF that(1)]) (auto simp: stops_def up_def node_at_def that(2) intro!: chain_ends.stop)
  from this [of s _ t] this [of t _ s] show ?thesis using assms by (auto simp: fun_eq_iff)
qed

lemma span_cong:
  assumes "vf_node t = vf_node s"
  shows "span_ok t = span_ok s"
proof -
  have "native t = native s" "run_of t = run_of s" "file_at t = file_at s" "same_file t = same_file s"
    using assms by (simp_all add: fun_eq_iff native_def run_of_def file_at_def same_file_def)
  then show ?thesis by (simp add: span_ok_def)
qed

lemma inv_cong: "vf_node t = vf_node s \<Longrightarrow> vfs_inv t = vfs_inv s"
  using ends_cong [of t s] span_cong [of t s]
  by (simp add: vfs_inv_def tree_ok_def parents_in_def root_top_def chains_end_def)

section \<open>Changing one node\<close>

text \<open>The three kinds of change: the slot is freed, keeps its place in the tree, or is put to use
  below an anchored node.\<close>

lemma tree_set:
  assumes ok: "tree_ok s" and i: "i < MAX_NODES" and t: "vf_node t = (vf_node s)(i := n)"
    and c: "\<not> nd_use n \<and> i \<noteq> 0 \<or> nd_use n = nd_use (vf_node s i) \<and> nd_parent n = nd_parent (vf_node s i)
      \<or> \<not> nd_use (vf_node s i) \<and> anchored s (nd_parent n)"
  shows "tree_ok t"
proof -
  have P: "parents_in s" "root_top s" "nd_use (vf_node s 0)" "chains_end s" using ok by (simp_all add: tree_ok_def)
  have ir: "node_range (int i)" using i by (simp add: node_range_def)
  have upt: "up t q = (if q = int i then nd_parent n else up s q)" if "node_range q" for q
    using that by (auto simp: up_def node_at_def t node_range_def)
  have node: "node_at t q = (if q = int i then n else node_at s q)" if "node_range q" for q
    using that by (auto simp: node_at_def t node_range_def)
  have e: "chain_ends s q" if "node_range q" for q
    using P(4) that unfolding chains_end_def node_range_def by (metis int_nat_eq nat_less_iff)
  have neg: "chain_ends t q" if "q < 0" for q using that by (intro chain_ends.stop) (simp add: stops_def)
  have ti: "\<not> nd_use n \<Longrightarrow> chain_ends t (int i)" using i by (intro chain_ends.stop) (simp add: stops_def node_at_def t)
  have rt: "root_top t \<and> nd_use (vf_node t 0) \<and> parents_in t"
  proof -
    have "i = 0 \<longrightarrow> nd_use n \<and> nd_parent n = -1" using c P(2,3) by (auto simp: root_top_def)
    moreover have "nd_use n \<Longrightarrow> -1 \<le> nd_parent n \<and> nd_parent n < int MAX_NODES"
      using c P(1) i anchored_used [of s "nd_parent n"] by (auto simp: parents_in_def node_range_def)
    ultimately show ?thesis using P(1-3) by (auto simp: root_top_def parents_in_def t)
  qed
  have "chain_ends t (int i)"
  proof (cases "nd_use n")
    case True
    show ?thesis
    proof (cases "nd_use (vf_node s i)")
      case u: True
      then have same: "nd_parent n = nd_parent (vf_node s i)" using c True by auto
      show ?thesis
      proof (rule ends_redirect [OF e [OF ir]])
        fix q assume "stops s q"
        then show "chain_ends t q" using u node [of q]
          by (intro chain_ends.stop, cases "q = int i") (auto simp: stops_def node_range_def node_at_def)
      next
        fix q assume "node_range q"
        then show "up t q = up s q \<or> chain_ends t q" using upt same by (auto simp: up_def node_at_def)
      qed
    next
      case u: False
      then have a: "anchored s (nd_parent n)" using c True by auto
      have "chain_ends t p" if "anchored s p" for p
        using that
      proof (induction rule: anchored.induct)
        case root
        then show ?case using rt by (intro root_top_ends) simp
      next
        case (up p)
        then have "p \<noteq> int i" using u by (auto simp: node_at_def)
        then show ?case using up upt [of p] by (intro chain_ends.up [of p]) (auto simp: node_range_def)
      qed
      then have "chain_ends t (nd_parent (vf_node t i))" using a by (simp add: t)
      then show ?thesis by (rule ends_parent [OF ir])
    qed
  qed (rule ti)
  then have "chain_ends t q" if "node_range q" for q
  proof (intro ends_redirect [OF e [OF that]])
    fix q assume "stops s q"
    then show "chain_ends t q" using node [of q] \<open>chain_ends t (int i)\<close> neg
      by (cases "q = int i") (auto simp: stops_def node_range_def not_less intro!: chain_ends.stop)
  next
    fix q assume "node_range q"
    then show "up t q = up s q \<or> chain_ends t q" using upt \<open>chain_ends t (int i)\<close> by auto
  qed
  then have "chains_end t" by (simp add: chains_end_def node_range_def)
  then show ?thesis using rt by (simp add: tree_ok_def)
qed

text \<open>The files: the changed node is no native file, an empty one, or has the run of one.\<close>

lemma span_set:
  assumes ok: "span_ok s" and t: "vf_node t = (vf_node s)(i := n)"
    and c: "nd_use n \<and> nd_type n = FS_FILE \<Longrightarrow> nd_sector n = 0 \<and> nd_size n = 0
      \<or> (\<exists>j. native s j \<and> nd_sector n = nd_sector (vf_node s j) \<and> nd_size n = nd_size (vf_node s j))"
  shows "span_ok t"
proof -
  define like where "like = (\<lambda>k j. native s j \<and> nd_sector (vf_node t k) = nd_sector (vf_node s j) \<and> nd_size (vf_node t k) = nd_size (vf_node s j))"
  have nat: "nd_sector (vf_node t k) = 0 \<and> nd_size (vf_node t k) = 0 \<or> (\<exists>j. like k j)" if "native t k" for k
  proof (cases "k = i")
    case True
    then have "nd_use n \<and> nd_type n = FS_FILE" using that by (simp add: native_def t)
    then show ?thesis using c True by (auto simp: like_def t)
  next
    case False
    then have "like k k" using that by (simp add: like_def native_def t)
    then show ?thesis by blast
  qed
  have sp: "run_of t k = run_of s j" if "like k j" "native t k" for k j
    using that by (auto simp: like_def native_def run_of_def holds_sector_def)
  have e: "run_of t k = {}" if "nd_sector (vf_node t k) = 0" for k using that by (auto simp: run_of_def holds_sector_def)
  have "file_at t k" if "native t k" for k
    using nat [OF that] ok by (auto simp: file_at_def like_def span_ok_def)
  moreover have "same_file t k l \<or> run_of t k \<inter> run_of t l = {}" if "native t k" "native t l" for k l
  proof (cases "(\<exists>j. like k j) \<and> (\<exists>j. like l j)")
    case True
    then obtain a b where ab: "like k a" "like l b" by blast
    then have "same_file s a b \<or> run_of s a \<inter> run_of s b = {}" using ok by (auto simp: span_ok_def like_def)
    then show ?thesis using ab sp that by (auto simp: same_file_def like_def)
  next
    case False
    then show ?thesis using nat [OF that(1)] nat [OF that(2)] e by auto
  qed
  ultimately show ?thesis by (simp add: span_ok_def)
qed

lemma drop_inv:
  assumes ok: "vfs_inv s" and i: "i < MAX_NODES" "i \<noteq> 0" and t: "vf_node t = (vf_node s)(i := n)" and n: "\<not> nd_use n"
  shows "vfs_inv t"
  using tree_set [OF _ i(1) t] span_set [OF _ t] ok i n by (auto simp: vfs_inv_def)

lemma meta_inv:
  assumes ok: "vfs_inv s" and i: "i < MAX_NODES" and t: "vf_node t = (vf_node s)(i := n)"
    and n: "nd_use n = nd_use (vf_node s i)" "nd_parent n = nd_parent (vf_node s i)"
    and c: "nd_type n = FS_FILE \<Longrightarrow> nd_type (vf_node s i) = FS_FILE \<and> nd_sector n = nd_sector (vf_node s i) \<and> nd_size n = nd_size (vf_node s i)"
  shows "vfs_inv t"
proof -
  have "tree_ok t" using tree_set [OF _ i t] ok n by (auto simp: vfs_inv_def)
  moreover have "span_ok t"
  proof (rule span_set [OF _ t])
    show "span_ok s" using ok by (simp add: vfs_inv_def)
    assume "nd_use n \<and> nd_type n = FS_FILE"
    then have "native s i \<and> nd_sector n = nd_sector (vf_node s i) \<and> nd_size n = nd_size (vf_node s i)" using c i n by (simp add: native_def)
    then show "nd_sector n = 0 \<and> nd_size n = 0
      \<or> (\<exists>j. native s j \<and> nd_sector n = nd_sector (vf_node s j) \<and> nd_size n = nd_size (vf_node s j))" by blast
  qed
  ultimately show ?thesis by (simp add: vfs_inv_def)
qed


section \<open>Growing\<close>

text \<open>Nodes are added, no node moves and no file changes.\<close>

definition grow :: "vfs \<Rightarrow> vfs \<Rightarrow> bool" where
  "grow s t \<longleftrightarrow> vfs_inv t \<and> (\<forall>q. node_range q \<and> nd_use (node_at s q) \<longrightarrow> nd_use (node_at t q) \<and> up t q = up s q)
     \<and> (\<forall>q. native s q \<longrightarrow> native t q \<and> nd_sector (vf_node t q) = nd_sector (vf_node s q) \<and> nd_size (vf_node t q) = nd_size (vf_node s q))"

lemma grow_refl: "vfs_inv s \<Longrightarrow> grow s s"
  by (simp add: grow_def)

lemma grow_trans: "grow s t \<Longrightarrow> grow t u \<Longrightarrow> grow s u"
  by (simp add: grow_def)

lemma grow_inv: "grow s t \<Longrightarrow> vfs_inv t"
  by (simp add: grow_def)

lemma grow_anchored: "grow s t \<Longrightarrow> anchored s p \<Longrightarrow> anchored t p"
proof (rotate_tac, induction rule: anchored.induct)
  case root
  then show ?case by (simp add: grow_def vfs_inv_def tree_ok_def anchored.root)
next
  case (up p)
  then show ?case by (auto simp: grow_def intro: anchored.up)
qed

lemma grow_cong: "vf_node u = vf_node t \<Longrightarrow> grow s t \<Longrightarrow> grow s u"
  using inv_cong [of u t] by (simp add: grow_def node_at_def up_def native_def)

lemma root_anchored: "vfs_inv s \<Longrightarrow> anchored s 0"
  by (rule anchored.root) (simp add: vfs_inv_def tree_ok_def)

lemma meta_grow:
  assumes "vfs_inv s" and "i < MAX_NODES" and t: "vf_node t = (vf_node s)(i := n)"
    and n: "nd_use n = nd_use (vf_node s i)" "nd_parent n = nd_parent (vf_node s i)"
    and f: "nd_type n = FS_FILE \<or> nd_type (vf_node s i) = FS_FILE \<Longrightarrow>
      nd_type n = nd_type (vf_node s i) \<and> nd_sector n = nd_sector (vf_node s i) \<and> nd_size n = nd_size (vf_node s i)"
  shows "grow s t"
proof -
  have "vfs_inv t" by (rule meta_inv [OF assms(1,2) t n]) (use f in auto)
  moreover have "native t q \<and> nd_sector (vf_node t q) = nd_sector (vf_node s q) \<and> nd_size (vf_node t q) = nd_size (vf_node s q)" if "native s q" for q
    using that f n by (cases "q = i") (auto simp: native_def t)
  ultimately show ?thesis using n by (auto simp: grow_def up_def node_at_def t node_range_def)
qed

lemma find_in_dir_range: "vfs_find_in_dir s name d = x \<Longrightarrow> 0 \<le> x \<Longrightarrow> node_range x \<and> nd_use (node_at s x) \<and> nd_parent (node_at s x) = d"
  by (auto simp: vfs_find_in_dir_def slot_result_def node_range_def node_at_def child_named_def split: if_splits option.splits dest!: first_idx_Some)

text \<open>A node made below an anchored one.\<close>

lemma create_grow:
  assumes ok: "vfs_inv s" and p: "anchored s p" and c: "vfs_create_node e name ty p s = (r, t)"
  shows "grow s t" and "0 \<le> r \<Longrightarrow> anchored t r \<and> \<not> nd_use (node_at s r)
      \<and> (nd_type (node_at t r) = FS_FILE \<longrightarrow> nd_sector (node_at t r) = 0 \<and> nd_size (node_at t r) = 0)
      \<and> (nd_type (node_at t r) = FS_FILE \<longrightarrow> ty = FS_FILE)"
proof -
  define pn where "pn = node_at s p"
  have "grow s t \<and> (0 \<le> r \<longrightarrow> anchored t r \<and> \<not> nd_use (node_at s r)
      \<and> (nd_type (node_at t r) = FS_FILE \<longrightarrow> nd_sector (node_at t r) = 0 \<and> nd_size (node_at t r) = 0)
      \<and> (nd_type (node_at t r) = FS_FILE \<longrightarrow> ty = FS_FILE))"
  proof (cases "vfs_is_dir_type (nd_type (node_at s p)) \<and> name \<noteq> [] \<and> \<not> vfs_find_in_dir s name p \<ge> 0")
    case False
    then have "r < 0" "t = s" using c anchored_used [OF p] by (auto simp: vfs_create_node_def split: if_splits)
    then show ?thesis using grow_refl [OF ok] by simp
  next
    case True
    show ?thesis
    proof (cases "first_idx (\<lambda>i. \<not> nd_use (vf_node s i)) 0 MAX_NODES")
      case None
      then have "r < 0" "t = s" using c True by (auto simp: vfs_create_node_def split: if_splits)
      then show ?thesis using grow_refl [OF ok] by simp
    next
      case (Some i)
      have i: "i < MAX_NODES" "\<not> nd_use (vf_node s i)" using first_idx_Some [OF Some] by simp_all
      have i0: "i \<noteq> 0" using i(2) ok unfolding vfs_inv_def tree_ok_def by (cases "i = 0") simp_all
      define n where "n = new_node e name ty p (vf_node s i)"
      define s1 where "s1 = pc_drop (int i) (set_node i n s)"
      have v1: "vf_node s1 = (vf_node s)(i := n)" by (simp add: s1_def pc_drop_def set_node_def)
      have bad: "grow s u" if "vf_node u = (vf_node s)(i := n')" "\<not> nd_use n'" for u n'
        using drop_inv [OF ok i(1) i0 that] i(2) that by (auto simp: grow_def up_def node_at_def node_range_def native_def)
      have good: "grow s u \<and> anchored u (int i)"
        if u: "vf_node u = (vf_node s)(i := n')" and n': "nd_use n'" "nd_parent n' = p"
          and f: "nd_type n' = FS_FILE \<longrightarrow> nd_sector n' = 0 \<and> nd_size n' = 0" for u n'
      proof -
        have "tree_ok u" using tree_set [OF _ i(1) u] ok i p n' by (auto simp: vfs_inv_def)
        moreover have "span_ok u" using span_set [OF _ u] ok f by (auto simp: vfs_inv_def)
        ultimately have g: "grow s u" using i(2) by (auto simp: grow_def vfs_inv_def up_def node_at_def u node_range_def native_def)
        have "anchored u (int i)"
        proof (rule anchored.up)
          show "node_range (int i)" using i by (simp add: node_range_def)
          show "nd_use (node_at u (int i))" using n' by (simp add: node_at_def u)
          show "anchored u (up u (int i))" using grow_anchored [OF g p] n' by (simp add: up_def node_at_def u)
        qed
        then show ?thesis using g by simp
      qed
      show ?thesis
      proof (cases "copy_node_name name")
        case False
        then have "r < 0" "t = s" using c True Some by (auto simp: vfs_create_node_def split: if_splits)
        then show ?thesis using grow_refl [OF ok] by simp
      next
        case cn: True
        have c': "(case ext2_hook e (nat p) pn name ty n of None \<Rightarrow> (-1, set_node i (n\<lparr>nd_use := False\<rparr>) s1)
            | Some n2 \<Rightarrow> (case fat32_hook e (nat p) pn name ty n2 of None \<Rightarrow> (-1, set_node i (n2\<lparr>nd_use := False\<rparr>) s1)
            | Some n3 \<Rightarrow> (int i, save_unless_seeding e (set_node i (ram_hook pn ty n3) s1)))) = (r, t)"
          using c True cn Some anchored_used [OF p] unfolding pn_def n_def s1_def by (simp add: vfs_create_node_def Let_def)
        show ?thesis
        proof (cases "ext2_hook e (nat p) pn name ty n")
          case None
          then have "r < 0" "vf_node t = (vf_node s)(i := n\<lparr>nd_use := False\<rparr>)" using c' v1 by (auto simp: set_node_def)
          then show ?thesis using bad [of t "n\<lparr>nd_use := False\<rparr>"] by simp
        next
          case n2: (Some n2)
          show ?thesis
          proof (cases "fat32_hook e (nat p) pn name ty n2")
            case None
            then have "r < 0" "vf_node t = (vf_node s)(i := n2\<lparr>nd_use := False\<rparr>)" using c' v1 n2 by (auto simp: set_node_def)
            then show ?thesis using bad [of t "n2\<lparr>nd_use := False\<rparr>"] by simp
          next
            case n3: (Some n3)
            define n4 where "n4 = ram_hook pn ty n3"
            have r: "r = int i" and t: "vf_node t = (vf_node s)(i := n4)" using c' v1 n2 n3
              by (auto simp: set_node_def save_unless_seeding_def n4_def)
            have "nd_use n4 \<and> nd_parent n4 = p \<and> (nd_type n4 = FS_FILE \<longrightarrow> nd_sector n4 = 0 \<and> nd_size n4 = 0 \<and> ty = FS_FILE)"
              using n2 n3 by (auto simp: n4_def n_def new_node_def ext2_hook_def fat32_hook_def ram_hook_def Let_def split: if_splits)
            then show ?thesis using good [OF t] r i t by (simp add: node_at_def)
          qed
        qed
      qed
    qed
  qed
  then show "grow s t" "0 \<le> r \<Longrightarrow> anchored t r \<and> \<not> nd_use (node_at s r)
      \<and> (nd_type (node_at t r) = FS_FILE \<longrightarrow> nd_sector (node_at t r) = 0 \<and> nd_size (node_at t r) = 0)
      \<and> (nd_type (node_at t r) = FS_FILE \<longrightarrow> ty = FS_FILE)" by blast+
qed


section \<open>Walks\<close>

text \<open>A call that grows the table and yields an anchored node, if any.\<close>

definition walks :: "vfs \<Rightarrow> int \<times> vfs \<Rightarrow> bool" where
  "walks s r \<longleftrightarrow> grow s (snd r) \<and> (0 \<le> fst r \<longrightarrow> anchored (snd r) (fst r))"

lemma walks_none: "vfs_inv s \<Longrightarrow> x < 0 \<Longrightarrow> walks s (x, s)"
  by (simp add: walks_def grow_refl)

lemma walks_here: "vfs_inv s \<Longrightarrow> anchored s x \<Longrightarrow> walks s (x, s)"
  by (simp add: walks_def grow_refl)

lemma walks_grow: "grow s t \<Longrightarrow> walks t r \<Longrightarrow> walks s r"
  using grow_trans by (auto simp: walks_def)

lemma child_anchored:
  "anchored s d \<Longrightarrow> node_range x \<Longrightarrow> nd_use (node_at s x) \<Longrightarrow> nd_parent (node_at s x) = d \<Longrightarrow> anchored s x"
  by (rule anchored.up) (simp_all add: up_def)

lemma find_in_dir_anchored: "anchored s d \<Longrightarrow> 0 \<le> vfs_find_in_dir s name d \<Longrightarrow> anchored s (vfs_find_in_dir s name d)"
  using find_in_dir_range [OF refl] child_anchored by blast

lemma walk_child_anchored: "anchored s d \<Longrightarrow> 0 \<le> vfs_walk_child s d c \<Longrightarrow> anchored s (vfs_walk_child s d c)"
proof -
  assume a: "anchored s d" and x: "0 \<le> vfs_walk_child s d c"
  then obtain j where "vfs_walk_child s d c = int j" "j < MAX_NODES" "child_named s d c j"
    by (auto simp: vfs_walk_child_def slot_result_def split: if_splits option.splits dest!: first_idx_Some)
  then show ?thesis using child_anchored [OF a, of "int j"] by (simp add: node_range_def node_at_def child_named_def)
qed

lemma create_walks: "vfs_inv s \<Longrightarrow> anchored s p \<Longrightarrow> walks s (vfs_create_node e name ty p s)"
  using create_grow by (metis prod.collapse walks_def)

lemma add_if_missing_grow: "vfs_inv s \<Longrightarrow> anchored s d \<Longrightarrow> grow s (add_if_missing e name d s)"
  using create_walks grow_refl by (auto simp: add_if_missing_def walks_def)

lemma create_under: "grow s t \<Longrightarrow> anchored t d \<Longrightarrow> grow s (snd (vfs_create_node e name ty d t))"
  using create_walks grow_trans grow_inv by (metis walks_def)

lemma set_keep:
  assumes ok: "vfs_inv s" and x: "node_range x"
    and n: "nd_use n = nd_use (node_at s x)" "nd_parent n = nd_parent (node_at s x)"
      "nd_type n = FS_FILE \<or> nd_type (node_at s x) = FS_FILE \<Longrightarrow> nd_type n = nd_type (node_at s x) \<and> nd_sector n = nd_sector (node_at s x) \<and> nd_size n = nd_size (node_at s x)"
  shows "grow s (set_node (nat x) n s)"
  by (rule meta_grow [OF ok, of "nat x" _ n]) (use x n in \<open>auto simp: node_range_def set_node_def node_at_def nat_less_iff\<close>)

lemma proc_pid_walks:
  assumes ok: "vfs_inv s" and cur: "anchored s cur"
  shows "walks s (proc_pid_lookup e cur c probe s)"
proof (cases "pid_of_name c")
  case None
  then show ?thesis using walks_none [OF ok] by (simp add: proc_pid_lookup_def)
next
  case (Some pid)
  define x where "x = vfs_find_in_dir s c cur"
  show ?thesis
  proof (cases "0 \<le> x")
    case True
    define n where "n = node_at s x"
    have a: "anchored s x" using find_in_dir_anchored [OF cur] True unfolding x_def by simp
    define s1 where "s1 = set_node (nat x) (n\<lparr>nd_sector := int pid, nd_type := FS_DIR\<rparr>) s"
    have u: "proc_pid_lookup e cur c probe s =
        (if nd_type n = FS_DIR \<or> nd_type n = FS_PROC then
           (if ve_task e (nd_sector n) then (x, s) else (x, add_if_missing e ''cmdline'' x (add_if_missing e ''status'' x s1)))
         else (-1, s))"
      using Some True unfolding s1_def proc_pid_lookup_def Let_def x_def [symmetric] n_def [symmetric] by simp
    show ?thesis
    proof (cases "nd_type n = FS_DIR \<or> nd_type n = FS_PROC")
      case True
      have g1: "grow s s1" unfolding s1_def n_def by (rule set_keep [OF ok]) (use anchored_used [OF a] True n_def in auto)
      have g2: "grow s (add_if_missing e ''status'' x s1)"
        by (rule grow_trans [OF g1]) (rule add_if_missing_grow [OF grow_inv [OF g1] grow_anchored [OF g1 a]])
      have g3: "grow s (add_if_missing e ''cmdline'' x (add_if_missing e ''status'' x s1))"
        by (rule grow_trans [OF g2]) (rule add_if_missing_grow [OF grow_inv [OF g2] grow_anchored [OF g2 a]])
      show ?thesis using u walks_here [OF ok a] walks_none [OF ok] g3 grow_anchored [OF g3 a] by (simp add: walks_def)
    next
      case False
      then show ?thesis using u walks_none [OF ok, of "-1"] by simp
    qed
  next
    case False
    obtain d s1 where c1: "vfs_create_node e c FS_DIR cur s = (d, s1)" by fastforce
    have w1: "walks s (d, s1)" using create_walks [OF ok cur, of e c FS_DIR] by (simp add: c1)
    show ?thesis
    proof (cases "\<not> ve_task e (int pid) \<or> probe \<or> d < 0")
      case True
      then have "proc_pid_lookup e cur c probe s \<in> {(-1, s), (-2, s)} \<or> d < 0 \<and> proc_pid_lookup e cur c probe s = (-1, s1)"
        using Some False c1 by (auto simp: proc_pid_lookup_def x_def Let_def)
      then show ?thesis using walks_none [OF ok, of "-1"] walks_none [OF ok, of "-2"] w1 by (auto simp: walks_def)
    next
      case go: False
      then have d: "anchored s1 d" and g1: "grow s s1" using w1 by (auto simp: walks_def)
      have t: "nd_type (node_at s1 d) \<noteq> FS_FILE" using create_grow(2) [OF ok cur c1] go by auto
      define nd where "nd = node_at s1 d"
      define s2 where "s2 = set_node (nat d) (nd\<lparr>nd_sector := int pid, nd_size := (if nd_size nd < int (length c) then int (length c) else nd_size nd)\<rparr>) s1"
      have g2: "grow s s2" unfolding s2_def nd_def
        by (rule grow_trans [OF g1 set_keep [OF grow_inv [OF g1]]]) (use anchored_used [OF d] t in simp_all)
      have "grow s1 s2" unfolding s2_def nd_def by (rule set_keep [OF grow_inv [OF g1]]) (use anchored_used [OF d] t in simp_all)
      then have d2: "anchored s2 d" using d grow_anchored by blast
      define s3 where "s3 = snd (vfs_create_node e ''status'' FS_PROC d s2)"
      have g23: "grow s2 s3" unfolding s3_def by (rule create_under [OF grow_refl [OF grow_inv [OF g2]] d2])
      then have d3: "anchored s3 d" and g3: "grow s s3" using d2 g2 grow_anchored grow_trans by blast+
      define s4 where "s4 = snd (vfs_create_node e ''cmdline'' FS_PROC d s3)"
      have g34: "grow s3 s4" unfolding s4_def by (rule create_under [OF grow_refl [OF grow_inv [OF g3]] d3])
      then have d4: "anchored s4 d" and g4: "grow s s4" using d3 g3 grow_anchored grow_trans by blast+
      have "proc_pid_lookup e cur c probe s = (d, s4)"
        using Some False go c1 unfolding proc_pid_lookup_def Let_def x_def [symmetric]
        by (simp add: s4_def s3_def s2_def nd_def)
      then show ?thesis using d4 g4 by (simp add: walks_def)
    qed
  qed
qed

lemma lazy_walks: "vfs_inv s \<Longrightarrow> anchored s cur \<Longrightarrow> walks s (vfs_proc_lazy_lookup e cur c probe s)"
  using proc_pid_walks walks_none by (auto simp: vfs_proc_lazy_lookup_def Let_def)

lemma walk_next_walks:
  assumes ok: "vfs_inv s" and cur: "anchored s cur" and w: "walk_next e cur c cs s = (x, r, t)"
  shows "walks s (x, t)"
proof -
  have below: "walks s (x, t)" if y: "anchored u y" "grow s u"
    and e: "(let z = vfs_walk_child u y (hd cs) in if z < 0 \<or> tl cs \<noteq> [] then (-1, [], u) else (z, tl cs, u)) = (x, r, t)" for y u
  proof -
    have "walks u (x, t)" using e walk_child_anchored [OF y(1)] grow_inv [OF y(2)] walks_none walks_here
      by (auto simp: Let_def split: if_splits)
    then show ?thesis by (rule walks_grow [OF y(2)])
  qed
  obtain y u where l: "vfs_proc_lazy_lookup e cur c False s = (y, u)" by fastforce
  have L: "walks s (y, u)" using lazy_walks [OF ok cur, of e c False] by (simp add: l)
  let ?n = "node_at s cur"
  consider (a) "0 \<le> vfs_walk_child s cur c" | (b) "vfs_walk_child s cur c < 0" "vfs_is_dir_type (nd_type ?n) \<and> nd_name ?n = ''proc'' \<and> nd_parent ?n = 0"
    | (c) "vfs_walk_child s cur c < 0" "\<not> (vfs_is_dir_type (nd_type ?n) \<and> nd_name ?n = ''proc'' \<and> nd_parent ?n = 0)" by linarith
  then show ?thesis
  proof cases
    case a
    then show ?thesis using w walk_child_anchored [OF cur a] walks_here [OF ok] by (auto simp: walk_next_def Let_def)
  next
    case b
    show ?thesis
    proof (cases "0 \<le> y \<and> cs \<noteq> []")
      case True
      then have "(let z = vfs_walk_child u y (hd cs) in if z < 0 \<or> tl cs \<noteq> [] then (-1, [], u) else (z, tl cs, u)) = (x, r, t)"
        using w b l by (simp add: walk_next_def)
      then show ?thesis using below [of u y] L True by (auto simp: walks_def)
    next
      case False
      then have "x = y" "t = u" using w b l by (auto simp: walk_next_def Let_def)
      then show ?thesis using L by simp
    qed
  next
    case c
    show ?thesis
    proof (cases "nd_type ?n = FS_PROC \<and> nd_sector ?n > 0 \<and> cs \<noteq> []")
      case True
      then have "(let z = vfs_walk_child s cur (hd cs) in if z < 0 \<or> tl cs \<noteq> [] then (-1, [], s) else (z, tl cs, s)) = (x, r, t)"
        using w c by (auto simp: walk_next_def vfs_is_dir_type_def)
      then show ?thesis using below [of s cur] cur grow_refl [OF ok] by blast
    next
      case False
      then have "x = -1 \<and> t = s" using w c unfolding walk_next_def Let_def by (simp split: if_splits)
      then show ?thesis using walks_none [OF ok] by simp
    qed
  qed
qed

lemma walk_comps_walks:
  "vfs_inv s \<Longrightarrow> anchored s cur \<Longrightarrow> walk_comps e nf cur hops cs s = (out, t) \<Longrightarrow>
     grow s t \<and> (\<forall>x. out = Walked x \<longrightarrow> 0 \<le> x \<longrightarrow> anchored t x)"
proof (induction e nf cur hops cs s arbitrary: out t rule: walk_comps.induct)
  case (1 e nf cur hops s)
  then show ?case using grow_refl by auto
next
  case (2 e nf cur hops c cs s)
  obtain x rest s1 where w: "walk_next e cur c cs s = (x, rest, s1)" by (metis prod_cases3)
  have W: "grow s s1" "0 \<le> x \<longrightarrow> anchored s1 x" using walk_next_walks [OF "2.prems"(1,2) w] by (simp_all add: walks_def)
  show ?case
  proof (cases "x < 0 \<or> (rest = [] \<and> nf) \<or> nd_type (node_at s1 x) = FS_SYMLINK")
    case True
    then show ?thesis using "2.prems"(3) W w by (auto split: if_splits option.splits)
  next
    case False
    then have r: "walk_comps e nf x hops rest s1 = (out, t)" using "2.prems"(3) w by auto
    have "grow s1 t \<and> (\<forall>x. out = Walked x \<longrightarrow> 0 \<le> x \<longrightarrow> anchored t x)"
      by (rule "2.IH" [OF w [symmetric] refl _ _ _ grow_inv [OF W(1)] _ r]) (use False W in auto)
    then show ?thesis using W(1) grow_trans by blast
  qed
qed

lemma restarts_walks: "vfs_inv s \<Longrightarrow> walks s (walk_restarts k e nf p hops s)"
proof (induction k arbitrary: p hops s)
  case 0
  then show ?case using walks_none by simp
next
  case (Suc k)
  show ?case
  proof (cases "split_path p")
    case None
    then show ?thesis using walks_none [OF Suc.prems] by simp
  next
    case (Some cs)
    obtain out t where w: "walk_comps e nf 0 hops cs s = (out, t)" by fastforce
    have W: "grow s t \<and> (\<forall>x. out = Walked x \<longrightarrow> 0 \<le> x \<longrightarrow> anchored t x)"
      by (rule walk_comps_walks [OF Suc.prems root_anchored [OF Suc.prems] w])
    show ?thesis
    proof (cases out)
      case (Walked n)
      then show ?thesis using W w Some walks_here [OF Suc.prems root_anchored [OF Suc.prems]] by (auto simp: walks_def)
    next
      case (Again q h)
      have "walks t (walk_restarts k e nf q h t)" by (rule Suc.IH) (use W grow_inv in blast)
      then have "walks s (walk_restarts k e nf q h t)" using W walks_grow by blast
      then show ?thesis using w Some Again walks_here [OF Suc.prems root_anchored [OF Suc.prems]] by simp
    qed
  qed
qed

lemma path_walks: "vfs_inv s \<Longrightarrow> path \<noteq> [] \<Longrightarrow> walks s (vfs_walk_path e path nf s)"
  unfolding vfs_walk_path_def Let_def by (simp add: walks_here root_anchored restarts_walks del: walk_restarts.simps)

lemma path_grow: "vfs_inv s \<Longrightarrow> vfs_walk_path e path nf s = (x, t) \<Longrightarrow> grow s t"
  using path_walks [of s path e nf] grow_refl by (cases "path = []") (auto simp: walks_def vfs_walk_path_def)

end
