(* ===== verification/Vfs_Calls.thy ===== *)
theory Vfs_Calls
  imports Vfs_Inv
begin

text \<open>
  The calls of \<open>src/sys/vfs.c\<close> as steps: each of them keeps the invariant of the node table,
  whatever the environment answers -- transfers that fail, memory that runs out, foreign volumes
  that refuse.
\<close>

section \<open>Removing nodes\<close>

text \<open>Nodes are freed and no parent field changes.\<close>

definition prune :: "vfs \<Rightarrow> vfs \<Rightarrow> bool" where
  "prune s t \<longleftrightarrow> vfs_inv t \<and> (\<forall>q. up t q = up s q)"

lemma prune_refl: "vfs_inv s \<Longrightarrow> prune s s"
  by (simp add: prune_def)

lemma prune_trans: "prune s t \<Longrightarrow> prune t u \<Longrightarrow> prune s u"
  by (simp add: prune_def)

lemma prune_cong: "vf_node u = vf_node t \<Longrightarrow> prune s t \<Longrightarrow> prune s u"
  using inv_cong [of u t] by (simp add: prune_def up_def node_at_def)

lemma prune_set:
  assumes "vfs_inv s" and "i < MAX_NODES" and "i \<noteq> 0" and t: "vf_node t = (vf_node s)(i := n)"
    and n: "\<not> nd_use n" "nd_parent n = nd_parent (vf_node s i)"
  shows "prune s t"
  using drop_inv [OF assms(1-4) n(1)] n(2) by (auto simp: prune_def up_def node_at_def t)

lemma drop_node_prune: "vfs_inv s \<Longrightarrow> i < MAX_NODES \<Longrightarrow> i \<noteq> 0 \<Longrightarrow> prune s (drop_node i s)"
  by (rule prune_set [OF _ _ _ drop_node_node]) simp_all

lemma sweep_prune:
  assumes ok: "vfs_inv s" and dr: "\<And>t. vfs_inv t \<Longrightarrow> \<not> dr t 0"
  shows "prune s (ps_vfs (sweep rf dr s))"
  unfolding sweep_def
proof (rule for_upto_invariant [where I = "\<lambda>p. prune s (ps_vfs p)"])
  show "prune s (ps_vfs \<lparr>ps_refused = False, ps_changed = False, ps_vfs = s\<rparr>)" using prune_refl [OF ok] by simp
next
  fix i and p :: pass assume i: "i < MAX_NODES" and p: "prune s (ps_vfs p)"
  then have inv: "vfs_inv (ps_vfs p)" by (simp add: prune_def)
  show "prune s (ps_vfs (sweep_node rf dr i p))"
  proof (cases "dr (ps_vfs p) i")
    case True
    then have "i \<noteq> 0" using dr [OF inv] by (cases "i = 0") simp_all
    then show ?thesis using p prune_trans [OF p drop_node_prune [OF inv i]] by (simp add: sweep_node_def Let_def)
  next
    case False
    then show ?thesis using p by (simp add: sweep_node_def Let_def)
  qed
qed

lemma sweep_all_prune:
  assumes "vfs_inv s" and dr: "\<And>t. vfs_inv t \<Longrightarrow> \<not> dr t 0"
  shows "prune s (snd (sweep_all rf dr s))"
  using assms
proof (induction rf dr s rule: sweep_all.induct)
  case (1 rf dr s)
  have p: "prune s (ps_vfs (sweep rf dr s))" by (rule sweep_prune [OF "1.prems"(1)]) (rule "1.prems"(2))
  show ?case
  proof (cases "ps_refused (sweep rf dr s) \<or> \<not> ps_changed (sweep rf dr s)")
    case True
    then show ?thesis using p by (subst sweep_all.simps) (auto simp: Let_def)
  next
    case False
    then have "prune (ps_vfs (sweep rf dr s)) (snd (sweep_all rf dr (ps_vfs (sweep rf dr s))))"
      using "1.IH" [OF refl] p "1.prems"(2) by (simp add: prune_def)
    then show ?thesis using False p prune_trans by (subst sweep_all.simps) (simp add: Let_def)
  qed
qed

lemma root_below: "vfs_inv s \<Longrightarrow> \<not> below s t 0"
proof -
  assume "vfs_inv s"
  moreover have "\<not> descends k s (-1) t" for k by (cases k) simp_all
  ultimately show ?thesis by (simp add: below_def vfs_inv_def tree_ok_def root_top_def)
qed

lemma clear_children_inv: "vfs_inv s \<Longrightarrow> vfs_inv (vfs_clear_children d s)"
  using sweep_all_prune [of s "\<lambda>s i. below s d i" "\<lambda>_ _. False"] root_below
  by (simp add: vfs_clear_children_def prune_def)

lemma walks_inv: "walks s r \<Longrightarrow> vfs_inv (snd r)"
  by (simp add: walks_def grow_def)

text \<open>A removal adds the \<open>/proc\<close> nodes of its walk, then only frees.\<close>

lemma delete_grows_prunes:
  assumes ok: "vfs_inv s" and ne: "path \<noteq> []" and d: "vfs_delete_node_as e path uid s = (r, t)"
  shows "\<exists>m. grow s m \<and> prune m t"
proof -
  obtain i s1 where w: "vfs_walk_path e path True s = (i, s1)" by fastforce
  have g: "grow s s1" by (rule path_grow [OF ok w])
  have ok1: "vfs_inv s1" by (rule grow_inv [OF g])
  have "prune s1 t"
  proof (cases "t = s1")
    case True
    then show ?thesis using prune_refl [OF ok1] by simp
  next
    case False
    define rd where "rd = (if nd_type (node_at s1 i) = FS_DIR \<or> nd_type (node_at s1 i) = FS_EXT2_DIR \<or> nd_type (node_at s1 i) = FS_FAT32_DIR
      then sweep_all (\<lambda>s j. below s i j \<and> passwd_guard uid (int j) s) (\<lambda>s j. below s i j \<and> \<not> has_children s j) s1 else (False, s1))"
    have p: "prune s1 (snd rd)" using sweep_all_prune [OF ok1] root_below prune_refl [OF ok1] by (simp add: rd_def)
    have i: "\<not> i \<le> 0" and t: "t = (if fst rd then snd rd else snd (vfs_save e (drop_node (nat i) (snd rd))))"
      using d w False unfolding vfs_delete_node_as_def vfs_get_node_nofollow_def Let_def
      by (auto simp: rd_def split: if_splits prod.splits)
    have "anchored s1 i" using path_walks [OF ok ne, of e True] w i by (simp add: walks_def)
    then have "nat i < MAX_NODES" using anchored_used [of s1 i] by (simp add: node_range_def nat_less_iff)
    then have "prune (snd rd) (drop_node (nat i) (snd rd))" using drop_node_prune [of "snd rd" "nat i"] p i by (simp add: prune_def)
    then have "prune s1 (drop_node (nat i) (snd rd))" by (rule prune_trans [OF p])
    then show ?thesis using t p by (auto intro: prune_cong [OF vfs_save_frame(1)])
  qed
  then show ?thesis using g by blast
qed


lemma delete_inv: "vfs_inv s \<Longrightarrow> path \<noteq> [] \<Longrightarrow> vfs_inv (snd (vfs_delete_node_as e path uid s))"
  using delete_grows_prunes [of s path e uid] by (metis prod.collapse prune_def)

section \<open>Making and linking\<close>

lemma grow_save: "grow s t \<Longrightarrow> grow s (snd (vfs_save e t))"
  by (rule grow_cong [OF vfs_save_frame(1)])

lemma inv_save: "vfs_inv t \<Longrightarrow> vfs_inv (snd (vfs_save e t))"
  using inv_cong [OF vfs_save_frame(1)] by blast

lemma inv_save_unless: "vfs_inv t \<Longrightarrow> vfs_inv (save_unless_seeding e t)"
  using inv_save by (simp add: save_unless_seeding_def)

lemma join_names_slash: "hd buf = CHR ''/'' \<Longrightarrow> buf \<noteq> [] \<Longrightarrow> hd (join_names sz buf ns) = CHR ''/'' \<and> join_names sz buf ns \<noteq> []"
  by (induction sz buf ns rule: join_names.induct) auto

lemma abs_path_nonempty: "0 \<le> fst (vfs_get_abs_path s i sz) \<Longrightarrow> snd (vfs_get_abs_path s i sz) \<noteq> []"
  using join_names_slash [of "''/''" sz] by (auto simp: vfs_get_abs_path_def Let_def split: if_splits)

lemma get_parent_nonempty:
  assumes "vfs_get_parent s path sz = Some pp" and "2 \<le> sz"
  shows "pp \<noteq> []"
proof -
  define d where "d = rev (dropWhile (\<lambda>c. c \<noteq> CHR ''/'') (rev (butlast (take 1 path @ rev (dropWhile (\<lambda>c. c = CHR ''/'') (rev (tl path)))))))"
  have p: "(if d = [] then (let (rc, q) = vfs_get_abs_path s (vf_cwd s) sz in if rc < 0 then None else Some q)
      else if length d = 1 then Some ''/'' else Some (take (sz - 1) (butlast d))) = Some pp"
    using assms(1) unfolding vfs_get_parent_def Let_def d_def by (cases "path = []") (simp_all only: if_True if_False simp_thms option.distinct)
  show ?thesis
  proof (cases "length d \<le> 1")
    case True
    then show ?thesis using p abs_path_nonempty [of s "vf_cwd s" sz] by (cases d) (auto split: if_splits prod.splits)
  next
    case False
    then have "pp = take (sz - 1) (butlast d)" "d \<noteq> []" using p by (auto split: if_splits)
    moreover have "butlast d \<noteq> []"
    proof
      assume "butlast d = []"
      then have "length d - 1 = 0" using length_butlast [of d] by simp
      then show False using False by simp
    qed
    ultimately show ?thesis using assms(2) by auto
  qed
qed

lemma create_at_grow:
  assumes ok: "vfs_inv s"
  shows "grow s (snd (create_at e path ty s))"
proof (cases "vfs_get_parent s path MAX_PATH")
  case None
  then show ?thesis using grow_refl [OF ok] by (simp add: create_at_def)
next
  case (Some pp)
  have "pp \<noteq> []" by (rule get_parent_nonempty [OF Some]) (simp add: MAX_PATH_def)
  then have w: "walks s (vfs_get_node e pp s)" unfolding vfs_get_node_def by (rule path_walks [OF ok])
  obtain p s1 where g: "vfs_get_node e pp s = (p, s1)" by fastforce
  have g1: "grow s s1" using w g by (simp add: walks_def)
  show ?thesis
  proof (cases "p < 0")
    case True
    then show ?thesis using Some g g1 by (simp add: create_at_def)
  next
    case False
    then have "grow s (snd (vfs_create_node e (path_base path) ty p s1))" using w g by (intro create_under [OF g1]) (simp add: walks_def)
    then show ?thesis using Some g False by (simp add: create_at_def)
  qed
qed

lemma link_dir_anchored: "anchored s d \<Longrightarrow> 0 \<le> link_dir s d cs \<Longrightarrow> anchored s (link_dir s d cs)"
proof (induction cs arbitrary: d)
  case (Cons c cs)
  then show ?case using walk_child_anchored [OF Cons.prems(1)] by (auto simp: Let_def split: if_splits)
qed simp

lemma new_link_place_grow:
  assumes ok: "vfs_inv s" and n: "new_link_place e path s = (r, t)"
  shows "grow s t" and "r = Inr (d, name) \<Longrightarrow> anchored t d"
proof -
  have "grow s t \<and> (r = Inr (d, name) \<longrightarrow> anchored t d)"
  proof (cases "\<exists>err. r = Inl err \<and> t = s")
    case True
    then show ?thesis using grow_refl [OF ok] by auto
  next
    case False
    show ?thesis
    proof (cases "split_path (vfs_resolve_path s path MAX_PATH)")
      case None
      then show ?thesis using n False by (auto simp: new_link_place_def)
    next
      case (Some cs)
      define dd where "dd = link_dir s 0 (butlast cs)"
      obtain x u where l: "vfs_proc_lazy_lookup e dd (last cs) True s = (x, u)" by fastforce
      have "cs \<noteq> []" using n False Some by (cases cs) (auto simp: new_link_place_def)
      then have u: "new_link_place e path s = (if dd < 0 then (Inl (-1), s) else if vfs_find_in_dir s (last cs) dd \<ge> 0 then (Inl (-2), s)
          else if x = -2 then (Inl (-2), u) else (Inr (dd, last cs), u))"
        using Some l by (cases cs) (simp_all add: new_link_place_def dd_def)
      then have d0: "0 \<le> dd" and rt: "r = (if x = -2 then Inl (-2) else Inr (dd, last cs))" "t = u"
        using n False by (auto split: if_splits)
      have a: "anchored s dd" using link_dir_anchored [OF root_anchored [OF ok], of "butlast cs"] d0 by (simp add: dd_def)
      have g: "grow s t" using lazy_walks [OF ok a, of e "last cs" True] l rt by (simp add: walks_def)
      then show ?thesis using grow_anchored [OF g a] rt by (auto split: if_splits)
    qed
  qed
  then show "grow s t" "r = Inr (d, name) \<Longrightarrow> anchored t d" by blast+
qed

lemma symlink_grow:
  assumes ok: "vfs_inv s"
  shows "grow s (snd (vfs_symlink e target path s))"
proof (cases "target = [] \<or> length target \<ge> VFS_SYMLINK_MAX")
  case True
  then show ?thesis using grow_refl [OF ok] by (auto simp: vfs_symlink_def)
next
  case False
  obtain r s1 where n: "new_link_place e path s = (r, s1)" by fastforce
  have g1: "grow s s1" by (rule new_link_place_grow [OF ok n])
  show ?thesis
  proof (cases r)
    case (Inl err)
    then show ?thesis using False n g1 by (auto simp: vfs_symlink_def)
  next
    case (Inr dn)
    obtain d name where dn: "dn = (d, name)" by fastforce
    have d: "anchored s1 d" using new_link_place_grow(2) [OF ok n] Inr dn by blast
    obtain m s2 where c: "vfs_create_node e name FS_SYMLINK d s1 = (m, s2)" by fastforce
    have w: "walks s1 (m, s2)" using create_walks [OF grow_inv [OF g1] d] c by metis
    have g2: "grow s s2" using g1 w grow_trans by (auto simp: walks_def)
    have "grow s (set_node (nat m) ((node_at s2 m)\<lparr>nd_link := target\<rparr>) s2)" if "\<not> m < 0"
      by (rule grow_trans [OF g2 set_keep [OF grow_inv [OF g2]]]) (use that w anchored_used [of s2 m] in \<open>auto simp: walks_def\<close>)
    then show ?thesis using False n Inr dn c g2 by (auto simp: vfs_symlink_def)
  qed
qed

lemma hardlink_inv:
  assumes ok: "vfs_inv s" and ne: "old \<noteq> []"
  shows "vfs_inv (snd (vfs_hardlink_as e old path uid s))"
proof -
  obtain src s1 where w: "vfs_walk_path e old False s = (src, s1)" by fastforce
  have W: "grow s s1" "0 \<le> src \<Longrightarrow> anchored s1 src" using path_walks [OF ok ne, of e False] w by (simp_all add: walks_def)
  note ok1 = grow_inv [OF W(1)]
  obtain r s2 where n: "new_link_place e path s1 = (r, s2)" by fastforce
  have g2: "grow s1 s2" by (rule new_link_place_grow [OF ok1 n])
  note ok2 = grow_inv [OF g2]
  let ?out = "vfs_hardlink_as e old path uid s"
  consider (a) "snd ?out = s1" | (b) err where "r = Inl err" "snd ?out = s2"
    | (c) d name where "r = Inr (d, name)" "0 \<le> src" "nd_type (node_at s1 src) = FS_FILE"
        "snd ?out = (let (n, s3) = vfs_create_node e name FS_FILE d s2
          in if n < 0 then s3 else (let f = node_at s3 src;
               s4 = set_node (nat n) ((node_at s3 n)\<lparr>nd_sector := nd_sector f, nd_size := nd_size f,
                      nd_uid := nd_uid f, nd_gid := nd_gid f, nd_mode := nd_mode f\<rparr>) s3
             in snd (vfs_save e s4)))"
  proof -
    consider "src < 0 \<or> nd_type (node_at s1 src) \<noteq> FS_FILE \<or> nd_sector (node_at s1 src) \<le> 0
        \<or> uid \<noteq> ROOT_UID \<and> nd_uid (node_at s1 src) \<noteq> uid mod 65536 \<or> passwd_guard uid src s1"
      | "\<not> (src < 0 \<or> nd_type (node_at s1 src) \<noteq> FS_FILE \<or> nd_sector (node_at s1 src) \<le> 0
        \<or> uid \<noteq> ROOT_UID \<and> nd_uid (node_at s1 src) \<noteq> uid mod 65536 \<or> passwd_guard uid src s1)" by blast
    then show ?thesis
    proof cases
      case 1
      then have "snd ?out = s1" using w by (auto simp: vfs_hardlink_as_def Let_def)
      then show ?thesis by (rule a)
    next
      case 2
      show ?thesis
      proof (cases r)
        case (Inl err)
        then show ?thesis using 2 w n by (intro b) (auto simp: vfs_hardlink_as_def Let_def)
      next
        case (Inr dn)
        obtain d name where "dn = (d, name)" by fastforce
        then show ?thesis using 2 w n Inr by (intro c) (auto simp: vfs_hardlink_as_def Let_def split: prod.splits)
      qed
    qed
  qed
  then show ?thesis
  proof cases
    case a
    then show ?thesis using ok1 by simp
  next
    case b
    then show ?thesis using ok2 by simp
  next
    case c
    obtain m s3 where cn: "vfs_create_node e name FS_FILE d s2 = (m, s3)" by fastforce
    have d: "anchored s2 d" using new_link_place_grow(2) [OF ok1 n c(1)] .
    have w3: "walks s2 (m, s3)" using create_walks [OF ok2 d] cn by metis
    have g3: "grow s1 s3" using g2 w3 grow_trans by (auto simp: walks_def)
    note ok3 = grow_inv [OF g3]
    have "node_range src \<and> nd_use (node_at s1 src)" using W(2) [OF c(2)] by (rule anchored_used)
    then have "native s1 (nat src)" using c(2,3) by (simp add: native_def node_at_def node_range_def nat_less_iff)
    then have src: "native s3 (nat src)" using g3 by (simp add: grow_def)
    have "vfs_inv (set_node (nat m) ((node_at s3 m)\<lparr>nd_sector := nd_sector (node_at s3 src), nd_size := nd_size (node_at s3 src),
        nd_uid := nd_uid (node_at s3 src), nd_gid := nd_gid (node_at s3 src), nd_mode := nd_mode (node_at s3 src)\<rparr>) s3)" (is "vfs_inv ?s4")
      if m: "\<not> m < 0"
    proof -
      have mr: "nat m < MAX_NODES" "nd_use (node_at s3 m)" using anchored_used [of s3 m] w3 m by (auto simp: walks_def node_range_def nat_less_iff)
      have v: "vf_node ?s4 = (vf_node s3)(nat m := (node_at s3 m)\<lparr>nd_sector := nd_sector (node_at s3 src), nd_size := nd_size (node_at s3 src),
        nd_uid := nd_uid (node_at s3 src), nd_gid := nd_gid (node_at s3 src), nd_mode := nd_mode (node_at s3 src)\<rparr>)" by (simp add: set_node_def)
      have "tree_ok ?s4" by (rule tree_set [OF _ mr(1) v]) (use ok3 in \<open>simp_all add: vfs_inv_def node_at_def\<close>)
      moreover have "span_ok ?s4" by (rule span_set [OF _ v]) (use ok3 src in \<open>auto simp: vfs_inv_def node_at_def\<close>)
      ultimately show ?thesis by (simp add: vfs_inv_def)
    qed
    then show ?thesis using c(4) cn ok3 inv_save by (simp add: Let_def)
  qed
qed


section \<open>Renaming\<close>

text \<open>A node moves below an anchored node whose chain does not meet it.\<close>

lemma avoiding_ends:
  assumes "anchored s p" and "chain_hits k s p i = Some False" and "p \<noteq> i" and "0 < i"
    and rt: "root_top t" and u: "\<And>q. node_range q \<Longrightarrow> nd_use (node_at s q) \<Longrightarrow> q \<noteq> i \<Longrightarrow> up t q = up s q"
  shows "chain_ends t p"
  using assms(1-3)
proof (induction arbitrary: k rule: anchored.induct)
  case root
  show ?case by (rule root_top_ends [OF rt])
next
  case (up p)
  have p: "p < int MAX_NODES" "0 \<le> p" using up.hyps(1) by (simp_all add: node_range_def)
  show ?case
  proof (cases "p = 0")
    case True
    then show ?thesis using root_top_ends [OF rt] by simp
  next
    case False
    then obtain j where j: "chain_hits j s (up s p) i = Some False" using up.prems p by (cases k) (auto simp: up_def split: if_splits)
    have "up s p \<noteq> i" using j \<open>0 < i\<close> by (cases j) (auto split: if_splits)
    then have "chain_ends t (up s p)" by (rule up.IH [OF j])
    then show ?thesis using u [OF up.hyps(1,2)] up.prems(2) p by (simp add: chain_ends.up [of p])
  qed
qed

lemma reparent_inv:
  assumes ok: "vfs_inv s3" and i: "0 < i" "node_range i" and np: "anchored s2 np" "chain_hits k s2 np i = Some False" "np \<noteq> i"
    and u: "\<And>q. node_range q \<Longrightarrow> nd_use (node_at s2 q) \<Longrightarrow> up s3 q = up s2 q"
  shows "vfs_inv (set_node (nat i) ((node_at s3 i)\<lparr>nd_parent := np, nd_name := nm\<rparr>) s3)" (is "vfs_inv ?t")
proof -
  let ?t = "set_node (nat i) ((node_at s3 i)\<lparr>nd_parent := np, nd_name := nm\<rparr>) s3"
  have n: "nat i < MAX_NODES" "nat i \<noteq> 0" using i by (simp_all add: node_range_def nat_less_iff)
  have v: "vf_node ?t = (vf_node s3)(nat i := (node_at s3 i)\<lparr>nd_parent := np, nd_name := nm\<rparr>)" by (simp add: set_node_def)
  have P: "parents_in s3" "root_top s3" "nd_use (vf_node s3 0)" "chains_end s3" "span_ok s3"
    using ok by (simp_all add: vfs_inv_def tree_ok_def)
  have rt: "root_top ?t" using P(2) n by (simp add: root_top_def v)
  have upt: "up ?t q = (if q = i then np else up s3 q)" if "node_range q" for q
    using that i by (auto simp: up_def node_at_def set_node_def node_range_def eq_nat_nat_iff)
  have "chain_ends ?t np" by (rule avoiding_ends [OF np(1,2,3) i(1) rt]) (use upt u in simp)
  then have ei: "chain_ends ?t i" using upt [OF i(2)] i by (simp add: chain_ends.up [of i] node_range_def)
  have "chain_ends ?t q" if "q < int MAX_NODES" for q
  proof (rule ends_redirect)
    show "chain_ends s3 q" using P(4) that by (cases "0 \<le> q") (auto simp: chains_end_def stops_def intro: chain_ends.stop dest!: zero_le_imp_eq_int)
    show "chain_ends ?t q" if "stops s3 q" for q
      using that i by (intro chain_ends.stop) (auto simp: stops_def node_at_def set_node_def)
    show "up ?t q = up s3 q \<or> chain_ends ?t q" if "node_range q" for q using upt [OF that] ei by auto
  qed
  then have "chains_end ?t" by (simp add: chains_end_def)
  moreover have "parents_in ?t" using P(1) anchored_used [OF np(1)] by (auto simp: parents_in_def v node_range_def)
  moreover have "nd_use (vf_node ?t 0)" using P(3) n by (simp add: v)
  moreover have "span_ok ?t"
  proof (rule span_set [OF P(5) v])
    assume "nd_use ((node_at s3 i)\<lparr>nd_parent := np, nd_name := nm\<rparr>) \<and> nd_type ((node_at s3 i)\<lparr>nd_parent := np, nd_name := nm\<rparr>) = FS_FILE"
    then have "native s3 (nat i)" using n by (simp add: native_def node_at_def)
    then show "nd_sector ((node_at s3 i)\<lparr>nd_parent := np, nd_name := nm\<rparr>) = 0 \<and> nd_size ((node_at s3 i)\<lparr>nd_parent := np, nd_name := nm\<rparr>) = 0
      \<or> (\<exists>j. native s3 j \<and> nd_sector ((node_at s3 i)\<lparr>nd_parent := np, nd_name := nm\<rparr>) = nd_sector (vf_node s3 j)
        \<and> nd_size ((node_at s3 i)\<lparr>nd_parent := np, nd_name := nm\<rparr>) = nd_size (vf_node s3 j))"
      by (auto simp: node_at_def)
  qed
  ultimately show "vfs_inv ?t" using rt by (simp add: vfs_inv_def tree_ok_def)
qed

lemma rename_inv:
  assumes ok: "vfs_inv s" and ne: "old \<noteq> []"
  shows "vfs_inv (snd (vfs_rename_as e old path uid s))"
proof -
  obtain i s1 where w: "vfs_walk_path e old True s = (i, s1)" by fastforce
  have W: "grow s s1" "0 \<le> i \<Longrightarrow> anchored s1 i" using path_walks [OF ok ne, of e True] w by (simp_all add: walks_def)
  note ok1 = grow_inv [OF W(1)]
  show ?thesis
  proof (cases "i \<le> 0 \<or> passwd_guard uid i s1 \<or> vfs_get_parent s1 path MAX_PATH = None")
    case True
    then have "snd (vfs_rename_as e old path uid s) = s1" using w
      unfolding vfs_rename_as_def vfs_get_node_nofollow_def Let_def by auto
    then show ?thesis using ok1 by simp
  next
    case False
    then obtain pp where pp: "vfs_get_parent s1 path MAX_PATH = Some pp" by blast
    obtain np s2 where g: "vfs_walk_path e pp False s1 = (np, s2)" by fastforce
    have "pp \<noteq> []" by (rule get_parent_nonempty [OF pp]) (simp add: MAX_PATH_def)
    then have G: "grow s1 s2" "0 \<le> np \<Longrightarrow> anchored s2 np" using path_walks [OF ok1, of pp e False] g by (simp_all add: walks_def)
    note ok2 = grow_inv [OF G(1)]
    define s3 where "s3 = (if vfs_find_in_dir s2 (path_base path) np \<ge> 0 then snd (vfs_delete_node_as e path uid s2) else s2)"
    have pne: "path \<noteq> []" using pp by (auto simp: vfs_get_parent_def)
    have m: "\<exists>m. grow s2 m \<and> prune m s3"
    proof (cases "vfs_find_in_dir s2 (path_base path) np \<ge> 0")
      case True
      obtain r u where d: "vfs_delete_node_as e path uid s2 = (r, u)" by fastforce
      then show ?thesis using True delete_grows_prunes [OF ok2 pne d] by (simp add: s3_def)
    next
      case False
      then show ?thesis using grow_refl [OF ok2] prune_refl [OF ok2] by (auto simp: s3_def)
    qed
    then have ok3: "vfs_inv s3" by (auto simp: prune_def)
    show ?thesis
    proof (cases "np < 0 \<or> np = i \<or> chain_hits (Suc MAX_NODES) s2 np i \<noteq> Some False \<or> \<not> backend_rename e s3 (node_at s3 i) np (path_base path)")
      case True
      then have "snd (vfs_rename_as e old path uid s) \<in> {s2, s3}" using w False pp g
        unfolding vfs_rename_as_def vfs_get_node_nofollow_def vfs_get_node_def Let_def s3_def
        by (auto simp del: chain_hits.simps)
      then show ?thesis using ok2 ok3 by auto
    next
      case go: False
      have "snd (vfs_rename_as e old path uid s) =
          snd (vfs_save e (set_node (nat i) ((node_at s3 i)\<lparr>nd_parent := np, nd_name := take (MAX_FILENAME - 1) (path_base path)\<rparr>) s3))"
        using w False pp g go unfolding vfs_rename_as_def vfs_get_node_nofollow_def vfs_get_node_def Let_def s3_def
        by (simp del: chain_hits.simps)
      moreover have "vfs_inv (set_node (nat i) ((node_at s3 i)\<lparr>nd_parent := np, nd_name := take (MAX_FILENAME - 1) (path_base path)\<rparr>) s3)"
      proof (rule reparent_inv [OF ok3])
        show "0 < i" "node_range i" using False W(2) anchored_used [of s1 i] by auto
        show "anchored s2 np" "chain_hits (Suc MAX_NODES) s2 np i = Some False" "np \<noteq> i" using go G(2) by auto
        show "up s3 q = up s2 q" if "node_range q" "nd_use (node_at s2 q)" for q using m that by (auto simp: grow_def prune_def)
      qed
      ultimately show ?thesis using inv_save by simp
    qed
  qed
qed


section \<open>Owners, modes, RAM files\<close>

lemma set_meta_inv:
  assumes "vfs_inv s" and "node_range i"
    and "nd_use n = nd_use (node_at s i)" "nd_parent n = nd_parent (node_at s i)"
    and "nd_type n = FS_FILE \<or> nd_type (node_at s i) = FS_FILE \<Longrightarrow>
      nd_type n = nd_type (node_at s i) \<and> nd_sector n = nd_sector (node_at s i) \<and> nd_size n = nd_size (node_at s i)"
  shows "vfs_inv (set_node (nat i) n s)"
  by (rule grow_inv [OF set_keep [OF assms]])

lemma chmod_inv: "vfs_inv s \<Longrightarrow> vfs_inv (snd (vfs_chmod e path mode s))"
  using path_grow [of s e path False] grow_inv
  by (auto simp: vfs_chmod_def vfs_get_node_def Let_def split: prod.splits intro!: inv_save_unless set_meta_inv)

lemma chown_inv: "vfs_inv s \<Longrightarrow> vfs_inv (snd (vfs_chown e path uid gid s))"
  using path_grow [of s e path False] grow_inv
  by (auto simp: vfs_chown_def vfs_get_node_def Let_def split: prod.splits intro!: inv_save_unless set_meta_inv)

text \<open>A walk along a path that is not empty yields a used node of the table.\<close>

lemma path_node:
  assumes "vfs_inv s" and "path \<noteq> []" and "vfs_walk_path e path nf s = (i, t)"
  shows "vfs_inv t" and "\<not> i < 0 \<Longrightarrow> node_range i \<and> nd_use (node_at t i)"
  using path_walks [OF assms(1,2), of e nf] assms(3) anchored_used [of t i] grow_inv by (auto simp: walks_def)

lemma set_mode_inv: "vfs_inv s \<Longrightarrow> path \<noteq> [] \<Longrightarrow> vfs_inv (snd (vfs_set_mode e path mode s))"
  using path_node [of s path e False]
  by (auto simp: vfs_set_mode_def vfs_get_node_def Let_def split: prod.splits intro!: inv_save_unless set_meta_inv)

lemma grow_node [simp]: "vf_node (snd (tmpfs_grow e i z s)) = vf_node s"
  by (simp add: tmpfs_grow_def Let_def)

lemma set_ram_inv:
  assumes ok: "vfs_inv s" and i: "i < MAX_NODES" "nd_type (vf_node s i) = FS_RAM_FILE"
  shows "vfs_inv (set_ram i b z s)"
  by (rule meta_inv [OF ok i(1), of _ "(vf_node s i)\<lparr>nd_size := z\<rparr>"]) (use i in \<open>simp_all add: set_ram_def pc_drop_def set_node_def\<close>)

lemma ram_write_inv:
  assumes ok: "vfs_inv s" and i: "i < MAX_NODES" "nd_type (vf_node s i) = FS_RAM_FILE"
  shows "vfs_inv (snd (tmpfs_write_whole e i data s))"
proof -
  have "vfs_inv (snd (tmpfs_grow e i z s))" for z using ok inv_cong [OF grow_node] by blast
  then show ?thesis using set_ram_inv i ok by (simp add: tmpfs_write_whole_def Let_def case_prod_beta)
qed

lemma ram_offset_inv: "vfs_inv s \<Longrightarrow> vfs_inv (snd (vfs_write_file_offset e i off data app s))"
proof -
  assume ok: "vfs_inv s"
  have g: "vfs_inv (snd (tmpfs_grow e (nat i) z s))" for z using ok inv_cong [OF grow_node] by blast
  show ?thesis
  proof (cases "node_range i \<and> nd_type (node_at s i) = FS_RAM_FILE")
    case True
    then have "nat i < MAX_NODES" "nd_type (vf_node s (nat i)) = FS_RAM_FILE" by (simp_all add: node_range_def node_at_def nat_less_iff)
    then have r: "vfs_inv (set_ram (nat i) b z (snd (tmpfs_grow e (nat i) y s)))" for b z y using set_ram_inv g by simp
    show ?thesis unfolding vfs_write_file_offset_def Let_def case_prod_beta by (simp add: ok g r)
  next
    case False
    then have "snd (vfs_write_file_offset e i off data app s) = s" by (auto simp: vfs_write_file_offset_def Let_def)
    then show ?thesis using ok by simp
  qed
qed

lemma free_ram_node [simp]: "vf_node (tmpfs_free_node i s) = vf_node s"
  by (simp add: tmpfs_free_node_def Let_def)

lemma free_all_node [simp]: "vf_node (tmpfs_free_all s) = vf_node s"
proof -
  have "vf_node (for_upto MAX_NODES tmpfs_free_node s) = vf_node s"
    by (rule for_upto_invariant [where I = "\<lambda>t. vf_node t = vf_node s"]) simp_all
  then show ?thesis by (simp add: tmpfs_free_all_def)
qed

lemma free_subtree_inv: "vfs_inv s \<Longrightarrow> vfs_inv (vfs_tmpfs_free_subtree m s)"
proof -
  assume ok: "vfs_inv s"
  have "vfs_inv (for_upto MAX_NODES (\<lambda>i s. if 0 < i \<and> nd_use (vf_node s i) \<and> vfs_is_ram_type (nd_type (vf_node s i)) \<and> nd_parent (vf_node s i) = m
      then drop_node i s else s) s)"
    by (rule for_upto_invariant [where I = vfs_inv, OF ok]) (use drop_node_prune in \<open>auto simp: prune_def\<close>)
  then show ?thesis using ok inv_cong [OF free_ram_node] by (auto simp: vfs_tmpfs_free_subtree_def)
qed

lemma purge_inv: "vfs_inv s \<Longrightarrow> vfs_inv (vfs_purge_stale_tmpfs s)"
proof -
  assume ok: "vfs_inv s"
  show ?thesis unfolding vfs_purge_stale_tmpfs_def
  proof (rule for_upto_invariant [where I = vfs_inv])
    show "vfs_inv (tmpfs_free_all s)" using ok inv_cong [OF free_all_node] by blast
    fix i and t :: vfs assume i: "i < MAX_NODES" and t: "vfs_inv t"
    have "vfs_inv (pc_drop (int i) (set_node i ((vf_node t i)\<lparr>nd_use := False, nd_size := 0, nd_sector := 0\<rparr>) t))" if "0 < i"
      by (rule drop_inv [OF t i, of _ "(vf_node t i)\<lparr>nd_use := False, nd_size := 0, nd_sector := 0\<rparr>"])
        (use that in \<open>simp_all add: pc_drop_def set_node_def\<close>)
    then show "vfs_inv (if 0 < i \<and> nd_use (vf_node t i) \<and> vfs_is_ram_type (nd_type (vf_node t i))
        then pc_drop (int i) (set_node i ((vf_node t i)\<lparr>nd_use := False, nd_size := 0, nd_sector := 0\<rparr>) t) else t)" using t by simp
  qed
qed

section \<open>Reading and writing\<close>

lemma read_file_inv: "vfs_inv s \<Longrightarrow> vfs_inv (snd (vfs_read_file e path m junk s))"
proof -
  assume ok: "vfs_inv s"
  obtain i s1 where w: "vfs_walk_path e path False s = (i, s1)" by fastforce
  have ok1: "vfs_inv s1" by (rule grow_inv [OF path_grow [OF ok w]])
  have "vf_node (snd (read_native e i m junk s1)) = vf_node s1"
    by (simp add: read_native_def Let_def split: prod.splits option.splits)
  then have "vf_node (snd (vfs_read_file e path m junk s)) = vf_node s1"
    using w by (simp add: vfs_read_file_def vfs_get_node_def Let_def split: fs_type.splits option.splits)
  then show ?thesis using ok1 inv_cong by blast
qed

lemma read_offset_inv: "vfs_inv s \<Longrightarrow> vfs_inv (snd (vfs_read_file_offset e i off n junk s))"
proof -
  assume ok: "vfs_inv s"
  have "vf_node (snd (vfs_read_file_offset e i off n junk s)) = vf_node s"
    unfolding vfs_read_file_offset_def Let_def by (simp split: prod.splits option.splits)
  then show ?thesis using ok inv_cong by blast
qed

lemma tree_same:
  assumes ok: "tree_ok s" and e: "\<And>j. nd_use (vf_node t j) = nd_use (vf_node s j) \<and> nd_parent (vf_node t j) = nd_parent (vf_node s j)"
  shows "tree_ok t"
proof -
  have "chain_ends t q" if "chain_ends s q" for q
    by (rule ends_redirect [OF that]) (auto simp: stops_def up_def node_at_def e intro!: chain_ends.stop)
  then show ?thesis using ok by (auto simp: tree_ok_def parents_in_def root_top_def chains_end_def e)
qed

lemma write_native_inv:
  assumes ok: "vfs_inv s" and i: "native s i"
  shows "vfs_inv (snd (write_native e (int i) data s))"
proof -
  define z where "z = int (length data)"
  define n where "n = vf_node s i"
  define start0 where "start0 = (if nd_sector n > 0 \<and> nsec z > nsec (nd_size n) then 0 else nd_sector n)"
  define start where "start = (if start0 = 0 then vfs_alloc_sectors s (nat (nsec z)) (int i) else start0)"
  define s1 where "s1 = set_node i (n\<lparr>nd_sector := start\<rparr>) s"
  define ws where "ws = write_secs e (ve_mem e (128 * 512)) (nat start) 0 (nat ((z + 511) div 512)) data s1"
  define u where "u = (set_node i ((vf_node (snd ws) i)\<lparr>nd_size := z\<rparr>) (snd ws))\<lparr>vf_pc :=
    pcache_insert (ve_mem e) (ve_now e) (int i) (data_byte data) z (vf_pc (snd ws))\<rparr>"
  have so: "span_ok s" and to: "tree_ok s" using ok by (simp_all add: vfs_inv_def)
  have zz: "0 \<le> z" by (simp add: z_def)
  have v1: "vf_node s1 = (vf_node s)(i := n\<lparr>nd_sector := start\<rparr>)" by (simp add: s1_def set_node_def)
  have vw: "vf_node (snd ws) = vf_node s1" unfolding ws_def using write_secs_frame by simp
  have sp: "vf_pc (set_node i m t) = vf_pc t" for m t by (simp add: set_node_def)
  have out: "vf_node (snd (write_native e (int i) data s)) \<in>
      {vf_node s} \<union> (if start0 = 0 \<and> start < 0 then {} else {vf_node s1, vf_node (vfs_sync_aliases (int i) u)})"
    unfolding write_native_def Let_def node_at_def nat_int z_def [symmetric] n_def [symmetric] start0_def [symmetric]
      start_def [symmetric] s1_def [symmetric] ws_def [symmetric] case_prod_beta
    by (simp add: u_def vw sp)
  have main: "vfs_inv s1 \<and> vfs_inv (vfs_sync_aliases (int i) u)" if g: "\<not> (start0 = 0 \<and> start < 0)"
  proof -
    note R = write_run [OF so i, where data = data, folded z_def n_def, folded start0_def, folded start_def, OF g]
    have s0: "0 < start" using R(1) by (simp add: VFS_DATA_START_def VFS_NODE_START_def)
    have ui: "native u i" using i by (simp add: u_def set_node_def native_def vw v1 n_def)
    have on: "other_name u i j \<longleftrightarrow> j \<noteq> i \<and> native s j \<and> nd_sector (vf_node s j) = start" for j
      using s0 by (auto simp: other_name_def u_def set_node_def vw v1 native_def)
    have vt: "vf_node (vfs_sync_aliases (int i) u) = (\<lambda>j. if j = i then n\<lparr>nd_sector := start, nd_size := z\<rparr>
        else if native s j \<and> nd_sector (vf_node s j) = start then (vf_node s j)\<lparr>nd_size := z\<rparr> else vf_node s j)" (is "vf_node ?t = _")
      unfolding sync_steps(1) [OF ui] on by (auto simp: fun_eq_iff u_def set_node_def vw v1)
    have nt: "native ?t = native s" using i by (auto simp: fun_eq_iff native_def vt n_def)
    have "span_ok ?t"
      by (rule span_run [OF so nt zz R(1,2)]) (use R(3) in \<open>auto simp: vt\<close>)
    moreover have "tree_ok ?t" by (rule tree_same [OF to]) (simp add: vt n_def)
    moreover have "span_ok s1"
    proof (cases "start0 = 0")
      case False
      then have "start = nd_sector n" by (simp add: start_def start0_def split: if_splits)
      then have "vf_node s1 = vf_node s" by (simp add: v1 n_def)
      then show ?thesis using so span_cong by blast
    next
      case True
      have sz: "0 \<le> nd_size n" "nd_sector n = 0 \<longrightarrow> nd_size n = 0" using so i by (auto simp: span_ok_def file_at_def n_def VFS_DATA_START_def VFS_NODE_START_def)
      have le: "nsec (nd_size n) \<le> nsec z"
      proof (cases "nd_sector n = 0")
        case True
        then show ?thesis using sz zz by (intro nsec_le) simp
      next
        case False
        then show ?thesis using True by (auto simp: start0_def split: if_splits)
      qed
      have n1: "native s1 = native s" using i by (auto simp: fun_eq_iff native_def v1 n_def)
      show ?thesis
      proof (rule span_run [OF so n1 sz(1) R(1)])
        show "start + nsec (nd_size n) \<le> int VFS_DISK_SECTORS" using R(2) le by linarith
        fix j assume j: "native s j"
        show "nd_sector (vf_node s1 j) = start \<and> nd_size (vf_node s1 j) = nd_size n
          \<or> vf_node s1 j = vf_node s j \<and> (\<forall>x \<in> run_of s j. x < nat start \<or> nat start + nat (nsec (nd_size n)) \<le> x)"
        proof (cases "j = i")
          case True
          then show ?thesis by (simp add: v1)
        next
          case False
          have "nat (nsec (nd_size n)) \<le> nat (nsec z)" using le by simp
          then have "\<forall>x \<in> run_of s j. x < nat start \<or> nat start + nat (nsec (nd_size n)) \<le> x"
            using R(3) [OF j False R(4) [OF True j False]] add_left_mono order_trans by blast
          then show ?thesis using False by (simp add: v1)
        qed
      qed
    qed
    moreover have "tree_ok s1" by (rule tree_same [OF to]) (simp add: v1 n_def)
    ultimately show ?thesis by (simp add: vfs_inv_def)
  qed
  show ?thesis
  proof (cases "start0 = 0 \<and> start < 0")
    case True
    then have "vf_node (snd (write_native e (int i) data s)) = vf_node s" using out by simp
    from inv_cong [OF this] ok show ?thesis by simp
  next
    case False
    then have "vf_node (snd (write_native e (int i) data s)) \<in> {vf_node s, vf_node s1, vf_node (vfs_sync_aliases (int i) u)}"
      using out unfolding if_not_P [OF False] by blast
    moreover have "vfs_inv s" "vfs_inv s1" "vfs_inv (vfs_sync_aliases (int i) u)" using ok main [OF False] by simp_all
    ultimately show ?thesis
      using inv_cong [of "snd (write_native e (int i) data s)" s] inv_cong [of "snd (write_native e (int i) data s)" s1]
        inv_cong [of "snd (write_native e (int i) data s)" "vfs_sync_aliases (int i) u"] by blast
  qed
qed

lemma write_file_inv:
  assumes ok: "vfs_inv s" and ne: "path \<noteq> []"
  shows "vfs_inv (snd (vfs_write_file e path data s))"
proof -
  obtain i s1 where w: "vfs_walk_path e path False s = (i, s1)" by fastforce
  note P = path_node [OF ok ne w]
  define n where "n = node_at s1 i"
  show ?thesis
  proof (cases "i < 0")
    case True
    then show ?thesis using w P(1) by (simp add: vfs_write_file_def vfs_get_node_def Let_def)
  next
    case False
    then have i: "node_range i" "nd_use n" using P(2) by (simp_all add: n_def)
    then have nm: "nat i < MAX_NODES" "int (nat i) = i" by (simp_all add: node_range_def nat_less_iff)
    have ext: "vfs_inv (set_node (nat i) (n\<lparr>nd_size := r\<rparr>) s1)" if "nd_type n = FS_EXT2_FILE" for r
      unfolding n_def by (rule set_meta_inv [OF P(1) i(1)]) (use that n_def in simp_all)
    have fat: "vfs_inv (set_node (nat i) (n\<lparr>nd_sector := c, nd_size := r\<rparr>) s1)" if "nd_type n = FS_FAT32_FILE" for c r
      unfolding n_def by (rule set_meta_inv [OF P(1) i(1)]) (use that n_def in simp_all)
    have ram: "vfs_inv (snd (tmpfs_write_whole e (nat i) data s1))" if "nd_type n = FS_RAM_FILE"
      by (rule ram_write_inv [OF P(1) nm(1)]) (use that in \<open>simp add: n_def node_at_def\<close>)
    have nat: "vfs_inv (snd (write_native e i data s1))" if "nd_type n = FS_FILE"
      using write_native_inv [OF P(1), of "nat i" e data] that i nm by (simp add: native_def n_def node_at_def)
    show ?thesis
      unfolding vfs_write_file_def vfs_get_node_def w Let_def prod.case n_def [symmetric]
      using False P(1) ext fat ram nat by (cases "nd_type n") (simp_all add: case_prod_beta inv_save)
  qed
qed

section \<open>The calls as steps\<close>

text \<open>A call with a path and a node as its arguments, in any environment. Paths of existing
  nodes are not empty: the empty path would name the current directory by its number.\<close>

inductive vfs_step :: "vfs \<Rightarrow> vfs \<Rightarrow> bool" where
  do_mkdir: "vfs_step s (snd (vfs_mkdir e path s))"
| do_create: "vfs_step s (snd (vfs_create_file e path s))"
| do_symlink: "vfs_step s (snd (vfs_symlink e target path s))"
| do_hardlink: "old \<noteq> [] \<Longrightarrow> vfs_step s (snd (vfs_hardlink_as e old path uid s))"
| do_delete: "path \<noteq> [] \<Longrightarrow> vfs_step s (snd (vfs_delete_node_as e path uid s))"
| do_rename: "old \<noteq> [] \<Longrightarrow> vfs_step s (snd (vfs_rename_as e old path uid s))"
| do_chmod: "vfs_step s (snd (vfs_chmod e path mode s))"
| do_chown: "vfs_step s (snd (vfs_chown e path uid gid s))"
| do_set_mode: "path \<noteq> [] \<Longrightarrow> vfs_step s (snd (vfs_set_mode e path mode s))"
| do_write: "path \<noteq> [] \<Longrightarrow> vfs_step s (snd (vfs_write_file e path data s))"
| do_write_offset: "vfs_step s (snd (vfs_write_file_offset e i off data app s))"
| do_read: "vfs_step s (snd (vfs_read_file e path m junk s))"
| do_read_offset: "vfs_step s (snd (vfs_read_file_offset e i off n junk s))"
| do_lookup: "vfs_step s (snd (vfs_walk_path e path nofollow s))"
| do_clear: "vfs_step s (vfs_clear_children d s)"
| do_unmount_ram: "vfs_step s (vfs_tmpfs_free_subtree m s)"
| do_purge: "vfs_step s (vfs_purge_stale_tmpfs s)"
| do_save: "vfs_step s (snd (vfs_save e s))"
| do_chdir: "vfs_step s (s\<lparr>vf_cwd := d\<rparr>)"

lemma vfs_step_inv: "vfs_step s t \<Longrightarrow> vfs_inv s \<Longrightarrow> vfs_inv t"
proof (induction rule: vfs_step.induct)
  case (do_symlink s e target path)
  then show ?case using grow_inv symlink_grow by blast
next
  case (do_lookup s e path nofollow)
  then show ?case using path_grow grow_inv by (metis prod.collapse)
next
  case (do_chdir s d)
  then show ?case using inv_cong [of "s\<lparr>vf_cwd := d\<rparr>" s] by simp
qed (simp_all add: vfs_mkdir_def vfs_create_file_def grow_inv [OF create_at_grow] hardlink_inv rename_inv chmod_inv chown_inv
  set_mode_inv write_file_inv ram_offset_inv read_file_inv read_offset_inv clear_children_inv free_subtree_inv purge_inv inv_save
  delete_inv)

end
