(* ===== verification/Vfs_Props.thy ===== *)
theory Vfs_Props
  imports Vfs_Calls
begin

text \<open>A small file system, the start of the concrete runs, and what \<open>src/sys/vfs.c\<close> guarantees.\<close>

definition free_slot :: vfs_node where
  "free_slot = \<lparr>nd_name = [], nd_type = FS_FILE, nd_parent = 0, nd_size = 0, nd_sector = 0, nd_use = False, nd_inode = 0,
     nd_uid = 0, nd_gid = 0, nd_mode = 0, nd_link = []\<rparr>"

definition node_of :: "string \<Rightarrow> fs_type \<Rightarrow> int \<Rightarrow> vfs_node" where
  "node_of name ty p = free_slot\<lparr>nd_name := name, nd_type := ty, nd_parent := p, nd_use := True\<rparr>"

text \<open>The root with \<open>/etc/passwd\<close>, a file of three bytes and a RAM file.\<close>

definition demo_node :: "nat \<Rightarrow> vfs_node" where
  "demo_node i = (if i = 0 then node_of ''/'' FS_DIR (-1) else if i = 1 then node_of ''etc'' FS_DIR 0
     else if i = 2 then node_of ''passwd'' FS_FILE 1
     else if i = 3 then (node_of ''a'' FS_FILE 0)\<lparr>nd_sector := 2049, nd_size := 3\<rparr>
     else if i = 4 then node_of ''r'' FS_RAM_FILE 0 else free_slot)"

definition demo :: vfs where
  "demo = \<lparr>vf_node = demo_node, vf_cwd = 0, vf_meta = \<lparr>mt_magic = True, mt_version = 5, mt_dir = 0\<rparr>,
     vf_tab = demo_node, vf_disk = (\<lambda>_ _. 7), vf_pc = pcache_init, vf_ram = (\<lambda>_. None), vf_cap = (\<lambda>_. 0), vf_used = 0\<rparr>"

text \<open>An environment in which everything works and there are no other volumes.\<close>

definition calm_env :: venv where
  "calm_env = \<lparr>ve_uid = 1000, ve_tid = 1, ve_task = (\<lambda>_. False), ve_open = (\<lambda>_. False), ve_seeding = True, ve_now = 0,
     ve_mem = (\<lambda>_. True), ve_rd = (\<lambda>_ _. True), ve_wr = (\<lambda>_ _. None), ve_sel = (\<lambda>_. False),
     ve_ext2_create = (\<lambda>_ _ _. 0), ve_ext2_size = (\<lambda>_. 0), ve_ext2_rename = (\<lambda>_ _ _ _. False), ve_fat_create = (\<lambda>_ _ _. 0),
     ve_fat_rename = (\<lambda>_ _ _. False), ve_proc_read = (\<lambda>_ _. (0, [])), ve_proc_write = (\<lambda>_ _. -100), ve_random = (\<lambda>_. None),
     ve_ext2_read = (\<lambda>_ _ _. (0, [])), ve_ext2_write = (\<lambda>_ _. 0), ve_fat_read = (\<lambda>_ _ _. (0, [])), ve_fat_write = (\<lambda>_ _. 0),
     ve_fat_dirent = (\<lambda>_ _ _ _. True)\<rparr>"

lemma demo_simps [simp]:
  "vf_node demo = demo_node" "vf_cwd demo = 0" "vf_pc demo = pcache_init" "vf_tab demo = demo_node"
  "vf_ram demo = (\<lambda>_. None)" "vf_cap demo = (\<lambda>_. 0)" "vf_used demo = 0"
  by (simp_all add: demo_def)

lemma demo_used: "nd_use (demo_node i) \<longleftrightarrow> i < 5"
  by (auto simp: demo_node_def node_of_def free_slot_def)

lemma demo_child_a: "vfs_walk_child demo 0 ''a'' = 3" "vfs_find_in_dir demo ''a'' 0 = 3"
  by code_simp+

lemma demo_walk_a: "vfs_walk_path e ''/a'' nofollow demo = (3, demo)"
proof -
  have p: "vfs_resolve_path demo ''/a'' MAX_PATH = ''/a''" "split_path ''/a'' = Some [''a'']" by code_simp+
  have "walk_next e 0 ''a'' [] demo = (3, [], demo)" by (simp add: walk_next_def demo_child_a)
  then have "walk_comps e nofollow 0 0 [''a''] demo = (Walked 3, demo)"
    by (simp add: node_at_def demo_node_def node_of_def free_slot_def)
  then show ?thesis by (simp add: vfs_walk_path_def p)
qed

lemma demo_walk_passwd: "vfs_walk_path e ''/etc/passwd'' nofollow demo = (2, demo)"
proof -
  have p: "vfs_resolve_path demo ''/etc/passwd'' MAX_PATH = ''/etc/passwd''" "split_path ''/etc/passwd'' = Some [''etc'', ''passwd'']" by code_simp+
  have c: "vfs_walk_child demo 0 ''etc'' = 1" "vfs_walk_child demo 1 ''passwd'' = 2" by code_simp+
  have "walk_next e 0 ''etc'' [''passwd''] demo = (1, [''passwd''], demo)" "walk_next e 1 ''passwd'' [] demo = (2, [], demo)"
    by (simp_all add: walk_next_def c)
  then have "walk_comps e nofollow 0 0 [''etc'', ''passwd''] demo = (Walked 2, demo)"
    by (simp add: node_at_def demo_node_def node_of_def free_slot_def)
  then show ?thesis by (simp add: vfs_walk_path_def p)
qed

lemma demo_chain: "p < 5 \<Longrightarrow> chain_ends demo p"
proof -
  have u: "up demo 0 = -1" "up demo 1 = 0" "up demo 2 = 1" "up demo 3 = 0" "up demo 4 = 0"
    by (simp_all add: up_def node_at_def demo_node_def node_of_def)
  have n: "chain_ends demo q" if "q < 0" for q using that by (intro chain_ends.stop) (simp add: stops_def)
  have e0: "chain_ends demo 0" by (rule chain_ends.up) (simp_all add: u n MAX_NODES_def)
  have e1: "chain_ends demo 1" by (rule chain_ends.up) (simp_all add: u e0 MAX_NODES_def)
  have e: "chain_ends demo 2" "chain_ends demo 3" "chain_ends demo 4" by (rule chain_ends.up, simp_all add: u e0 e1 MAX_NODES_def)+
  assume "p < 5"
  then consider "p < 0" | "p = 0" | "p = 1" | "p = 2" | "p = 3" | "p = 4" by linarith
  then show ?thesis by cases (simp_all add: n e0 e1 e)
qed

lemma demo_native: "native demo i \<longleftrightarrow> i = 2 \<or> i = 3"
  by (auto simp: native_def demo_node_def node_of_def free_slot_def MAX_NODES_def)

lemma demo_layout: "layout_ok demo"
proof -
  have s: "run_of demo 2 = {}" by (simp add: run_of_def holds_sector_def demo_node_def node_of_def free_slot_def)
  have "file_at demo 2" "file_at demo 3"
    by (simp_all add: file_at_def demo_node_def node_of_def free_slot_def nsec_def VFS_DATA_START_def VFS_NODE_START_def
      VFS_NODE_SECTORS_def VFS_DISK_SECTORS_def)
  then show ?thesis using s by (auto simp: layout_ok_def span_ok_def demo_native cache_agrees_def same_file_def)
qed

lemma demo_inv: "vfs_inv demo"
proof -
  have "chain_ends demo (int i)" if "i < MAX_NODES" for i
  proof (cases "i < 5")
    case True
    then show ?thesis by (intro demo_chain) simp
  next
    case False
    then show ?thesis using that by (intro chain_ends.stop) (simp add: stops_def node_at_def demo_used)
  qed
  moreover have "parents_in demo" by (auto simp: parents_in_def demo_node_def node_of_def free_slot_def MAX_NODES_def)
  moreover have "root_top demo" by (simp add: root_top_def demo_node_def node_of_def)
  ultimately show ?thesis using demo_layout by (simp add: vfs_inv_def tree_ok_def chains_end_def layout_ok_def demo_used)
qed

chapter \<open>Reading and writing\<close>

text \<open>
  What \<open>src/sys/vfs.c\<close> guarantees: the invariant over any history of calls, the loader, reading
  and writing files. Concrete runs use the small file system above.
\<close>

section \<open>The node table\<close>

lemma chains_fuel:
  assumes "chains_end s" and "i < MAX_NODES" and "MAX_NODES < m"
  shows "names_up m s (int i) k = names_up names_fuel s (int i) k"
proof -
  have "chain_ends s (int i)" using assms(1,2) by (simp add: chains_end_def)
  then obtain n where n: "n \<le> MAX_NODES" "stops s ((up s ^^ n) (int i))" using ends_bound by blast
  show ?thesis by (rule names_up_fuel [OF n(2)]) (use n assms(3) in \<open>simp_all add: names_fuel_def\<close>)
qed

lemma steps_inv: "vfs_step\<^sup>*\<^sup>* s t \<Longrightarrow> vfs_inv s \<Longrightarrow> vfs_inv t"
  by (induction rule: rtranclp_induct) (simp_all add: vfs_step_inv)



text \<open>C34: An image whose root has no parent loads with every chain ending, whatever cycles and
  stray parents its other nodes have.\<close>

theorem load_repairs_chains:
  assumes "vfs_load e s = (True, t)" and "nd_parent (vf_tab s 0) = -1"
  shows "(\<forall>i < MAX_NODES. nd_use (vf_node t i) \<longrightarrow> -1 \<le> nd_parent (vf_node t i) \<and> nd_parent (vf_node t i) < int MAX_NODES)
    \<and> (\<forall>i < MAX_NODES. \<forall>m > MAX_NODES. \<forall>k. names_up m t (int i) k = names_up names_fuel t (int i) k)"
  using load_chains [OF assms] chains_fuel by (simp add: parents_in_def)


text \<open>The loader accepts every readable image of its layout with a root.\<close>

lemma sane_use: "nd_use (vf_node (for_upto n sane_node s) j) = nd_use (vf_node s j)"
  by (rule for_upto_invariant [where I = "\<lambda>t. nd_use (vf_node t j) = nd_use (vf_node s j)"]) (auto simp: sane_node_def set_node_def Let_def)

lemma break_use: "nd_use (vf_node (for_upto n break_cycle s) j) = nd_use (vf_node s j)"
  by (rule for_upto_invariant [where I = "\<lambda>t. nd_use (vf_node t j) = nd_use (vf_node s j)"])
    (auto simp: break_cycle_def set_node_def Let_def split: prod.split)

lemma load_accepts:
  assumes "reads_ok e" and "mt_magic (vf_meta s)" and "mt_version (vf_meta s) = VFS_LAYOUT_VERSION" and "nd_use (vf_tab s 0)"
  shows "fst (vfs_load e s)"
proof -
  have "first_idx (\<lambda>i. \<not> ve_rd e (VFS_NODE_START + i) 1) 0 VFS_NODE_SECTORS = None" using assms(1) by (simp add: scan_simps reads_ok_def)
  then have "vf_node (load_nodes e s) 0 = vf_tab s 0" by (simp add: load_nodes_def VFS_NODE_SECTORS_def)
  then have "nd_use (vf_node (for_upto MAX_NODES break_cycle (for_upto MAX_NODES sane_node (load_nodes e s))) 0)"
    using assms(4) by (simp add: break_use sane_use)
  then show ?thesis using assms(1-3) by (simp add: vfs_load_def reads_ok_def Let_def)
qed

text \<open>The demonstration image with \<open>etc\<close> and \<open>passwd\<close> as each other's parents.\<close>

definition knot :: vfs where
  "knot = demo\<lparr>vf_tab := demo_node(1 := (demo_node 1)\<lparr>nd_parent := 2\<rparr>)\<rparr>"

theorem load_repairs_chains_witness:
  "names_up 4096 (snd (vfs_load calm_env knot)) 1 0 = names_up names_fuel (snd (vfs_load calm_env knot)) 1 0"
proof -
  have "fst (vfs_load calm_env knot)"
    by (rule load_accepts) (simp_all add: reads_ok_def calm_env_def knot_def demo_def VFS_LAYOUT_VERSION_def demo_used)
  then have l: "vfs_load calm_env knot = (True, snd (vfs_load calm_env knot))" by (simp add: prod_eq_iff)
  have "nd_parent (vf_tab knot 0) = -1" by (simp add: knot_def demo_node_def node_of_def)
  from load_repairs_chains [OF l this, THEN conjunct2, rule_format, of 1 4096 0] show ?thesis by (simp add: MAX_NODES_def)
qed

section \<open>Contents\<close>




lemma write_secs_ok: "(\<And>x n. ve_wr e x n = None) \<Longrightarrow> fst (write_secs e buf start k n data s)"
proof (induction e buf start k n data s rule: write_secs.induct)
  case (1 e buf start k n data s)
  show ?case
  proof (cases "k < n")
    case True
    then show ?thesis using "1.IH" [OF True refl _ "1.prems"] "1.prems"
      unfolding write_secs.simps [of e buf start k n data s] Let_def by simp
  next
    case False
    then show ?thesis by (simp add: write_secs.simps)
  qed
qed


end
