(* ===== verification/Vfs_Ram.thy ===== *)
theory Vfs_Ram
  imports Vfs_Props
begin

text \<open>
  RAM files of \<open>src/sys/vfs.c\<close>: the budget kept in \<open>tmpfs_used\<close> and the contents of a file
  under offset writes.
\<close>

definition ram_ok :: "vfs \<Rightarrow> bool" where
  "ram_ok s \<longleftrightarrow> (\<forall>i < MAX_NODES. 0 \<le> vf_cap s i \<and> (vf_ram s i = None \<longrightarrow> vf_cap s i = 0))
     \<and> (\<Sum>i < MAX_NODES. vf_cap s i) \<le> 2097152 \<and> vf_used s = of_int (\<Sum>i < MAX_NODES. vf_cap s i)"

definition ram_content :: "vfs \<Rightarrow> nat \<Rightarrow> u8 list" where
  "ram_content s i = map (ram_bytes s i) [0..<nat (nd_size (vf_node s i))]"

definition ram_fits :: "vfs \<Rightarrow> nat \<Rightarrow> bool" where
  "ram_fits s i \<longleftrightarrow> 0 \<le> nd_size (vf_node s i) \<and> nd_size (vf_node s i) \<le> vf_cap s i"

lemma cap_sum_upd: "i < MAX_NODES \<Longrightarrow> (\<Sum>j < MAX_NODES. (f(i := c)) j) = (\<Sum>j < MAX_NODES. f j) - f i + (c :: int)"
proof -
  assume "i < MAX_NODES"
  then have i: "i \<in> {..<MAX_NODES}" by simp
  have "(\<Sum>j < MAX_NODES. (f(i := c)) j) = c + (\<Sum>j \<in> {..<MAX_NODES} - {i}. (f(i := c)) j)"
    by (subst sum.remove [OF _ i]) simp_all
  moreover have "(\<Sum>j \<in> {..<MAX_NODES} - {i}. (f(i := c)) j) = (\<Sum>j \<in> {..<MAX_NODES} - {i}. f j)"
    by (rule sum.cong) simp_all
  ultimately show ?thesis by (simp add: sum.remove [OF _ i, of f])
qed

lemma budget_left:
  assumes "0 \<le> a" and "a \<le> 2097152" and "0 \<le> d" and "d \<le> 2097152"
  shows "(of_int d :: u32) > VFS_TMPFS_MAX_BYTES - of_int a \<longleftrightarrow> d > 2097152 - a"
proof -
  have "VFS_TMPFS_MAX_BYTES - of_int a = (of_int (2097152 - a) :: u32)" by (simp add: VFS_TMPFS_MAX_BYTES_def)
  moreover have u: "uint (of_int m :: u32) = m" if "0 \<le> m" "m \<le> 2097152" for m :: int
    unfolding uint_word_of_int using that by (intro mod_pos_pos_trivial) simp_all
  moreover have "uint (of_int (2097152 - a) :: u32) = 2097152 - a" by (rule u) (use assms(1,2) in simp_all)
  moreover have "uint (of_int d :: u32) = d" using assms(3,4) by (rule u)
  ultimately show ?thesis by (simp add: word_less_def)
qed

text \<open>Growing keeps the budget and the bytes; a refusal changes nothing.\<close>

lemma tmpfs_grow_spec:
  assumes ok: "ram_ok s" and i: "i < MAX_NODES" and f: "ram_fits s i" and z: "0 \<le> z"
    and g: "tmpfs_grow e i z s = (good, t)"
  shows "ram_ok t" and "ram_fits t i" and "\<not> good \<Longrightarrow> t = s" and "good \<Longrightarrow> z \<le> vf_cap t i"
    and "good \<Longrightarrow> z = 0 \<or> vf_ram t i \<noteq> None"
    and "int k < nd_size (vf_node s i) \<Longrightarrow> ram_bytes t i k = ram_bytes s i k"
    and "j \<noteq> i \<Longrightarrow> vf_ram t j = vf_ram s j \<and> vf_cap t j = vf_cap s j"
proof -
  define want where "want = (z + 511) div 512 * 512"
  define delta where "delta = want - vf_cap s i"
  have c: "0 \<le> vf_cap s i" "vf_ram s i = None \<longrightarrow> vf_cap s i = 0" using ok i by (simp_all add: ram_ok_def)
  have sm: "0 \<le> (\<Sum>i < MAX_NODES. vf_cap s i)" using ok by (intro sum_nonneg) (simp add: ram_ok_def)
  have "ram_ok t \<and> ram_fits t i \<and> (\<not> good \<longrightarrow> t = s) \<and> (good \<longrightarrow> z \<le> vf_cap t i \<and> (z = 0 \<or> vf_ram t i \<noteq> None))
      \<and> (int k < nd_size (vf_node s i) \<longrightarrow> ram_bytes t i k = ram_bytes s i k)
      \<and> (j \<noteq> i \<longrightarrow> vf_ram t j = vf_ram s j \<and> vf_cap t j = vf_cap s j)"
  proof (cases "z > TMPFS_MAX_FILE \<or> vf_cap s i \<ge> z \<or> of_int delta > VFS_TMPFS_MAX_BYTES - vf_used s \<or> \<not> ve_mem e (nat want)")
    case True
    then have t: "t = s" "good \<longrightarrow> z \<le> vf_cap s i" using g by (auto simp: tmpfs_grow_def want_def delta_def Let_def split: if_splits)
    moreover have "z \<le> vf_cap s i \<Longrightarrow> z = 0 \<or> vf_ram s i \<noteq> None" using c z by auto
    ultimately show ?thesis using ok f by auto
  next
    case False
    have w: "z \<le> want" "want \<le> z + 511" unfolding want_def by linarith+
    have d: "0 \<le> delta" "delta \<le> 2097152" using False w c by (simp_all add: delta_def TMPFS_MAX_FILE_def)
    have u: "vf_used s = of_int (\<Sum>i < MAX_NODES. vf_cap s i)" using ok by (simp add: ram_ok_def)
    have room: "(\<Sum>i < MAX_NODES. vf_cap s i) + delta \<le> 2097152"
      using False budget_left [OF sm _ d] ok u by (auto simp: ram_ok_def)
    have k: "min (nd_size (vf_node s i)) z = nd_size (vf_node s i)" using False f by (auto simp: ram_fits_def)
    define b where "b = (case vf_ram s i of None \<Rightarrow> (\<lambda>_. 0) | Some old \<Rightarrow> (\<lambda>k. if int k < nd_size (vf_node s i) then old k else 0))"
    have r: "good" "vf_ram t = (vf_ram s)(i := Some b)" "vf_cap t = (vf_cap s)(i := want)" "vf_node t = vf_node s"
        "vf_used t = (if vf_ram s i = None then vf_used s else vf_used s - of_int (vf_cap s i)) + of_int want"
      using g False unfolding tmpfs_grow_def Let_def want_def [symmetric] delta_def [symmetric] k b_def by auto
    have su: "(\<Sum>j < MAX_NODES. vf_cap t j) = (\<Sum>j < MAX_NODES. vf_cap s j) + delta"
      unfolding r(3) cap_sum_upd [OF i] by (simp add: delta_def)
    have "vf_used t = of_int (\<Sum>j < MAX_NODES. vf_cap t j)" using c(2) by (auto simp: r(5) u su delta_def)
    moreover have "\<forall>j < MAX_NODES. 0 \<le> vf_cap s j \<and> (vf_ram s j = None \<longrightarrow> vf_cap s j = 0)" using ok unfolding ram_ok_def by blast
    then have "\<forall>j < MAX_NODES. 0 \<le> vf_cap t j \<and> (vf_ram t j = None \<longrightarrow> vf_cap t j = 0)" using w z by (simp add: r(2,3))
    ultimately have "ram_ok t" using room unfolding ram_ok_def su by blast
    moreover have "int k < nd_size (vf_node s i) \<longrightarrow> ram_bytes t i k = ram_bytes s i k"
      by (simp add: ram_bytes_def r(2) b_def split: option.split)
    ultimately show ?thesis using r w False f by (auto simp: ram_fits_def)
  qed
  then show "ram_ok t" "ram_fits t i" "\<not> good \<Longrightarrow> t = s" "good \<Longrightarrow> z \<le> vf_cap t i" "good \<Longrightarrow> z = 0 \<or> vf_ram t i \<noteq> None"
    "int k < nd_size (vf_node s i) \<Longrightarrow> ram_bytes t i k = ram_bytes s i k"
    "j \<noteq> i \<Longrightarrow> vf_ram t j = vf_ram s j \<and> vf_cap t j = vf_cap s j" by blast+
qed

definition ram_splice :: "u8 list \<Rightarrow> nat \<Rightarrow> u8 list \<Rightarrow> u8 list" where
  "ram_splice old off data =
     map (\<lambda>k. if off \<le> k \<and> k < off + length data then data ! (k - off) else if k < length old then old ! k else 0)
       [0..<max (length old) (off + length data)]"

lemma if_pick:
  "(B \<Longrightarrow> y = y') \<Longrightarrow> A = A' \<Longrightarrow> B = B' \<Longrightarrow> A \<or> B \<or> D \<Longrightarrow> C = (\<not> B) \<Longrightarrow>
    (if A then x else if C \<and> D then v else y) = (if A' then x else if B' then y' else v)"
  by auto

lemma nth_ram_splice:
  "k < max (length old) (off + length data) \<Longrightarrow> ram_splice old off data ! k =
    (if off \<le> k \<and> k < off + length data then data ! (k - off) else if k < length old then old ! k else 0)"
  by (simp add: ram_splice_def)

text \<open>C33: An offset write puts as many bytes as the limit of a file allows at their place, zeros in
  the hole below them, and keeps the budget; a refused write changes nothing.\<close>

theorem ram_write_splices:
  assumes ok: "ram_ok s" and f: "ram_fits s i" and i: "i < MAX_NODES" "nd_use (vf_node s i)" "nd_type (vf_node s i) = FS_RAM_FILE"
    and o: "0 \<le> off" and w: "vfs_write_file_offset e (int i) off data False s = (r, t)"
  shows "ram_ok t \<and> ram_fits t i
    \<and> (if r < 0 then t = s
       else r = min (int (length data)) (TMPFS_MAX_FILE - off)
         \<and> ram_content t i = ram_splice (ram_content s i) (nat off) (take (nat r) data)
         \<and> (\<forall>j. j \<noteq> i \<longrightarrow> ram_content t j = ram_content s j))"
proof -
  define len0 where "len0 = int (length data)"
  define len where "len = (if off + len0 > TMPFS_MAX_FILE then TMPFS_MAX_FILE - off else len0)"
  have n: "node_at s (int i) = vf_node s i" by (simp add: node_at_def)
  have ir: "node_range (int i)" using i by (simp add: node_range_def)
  show ?thesis
  proof (cases "off > TMPFS_MAX_FILE \<or> len0 > TMPFS_MAX_FILE \<or> off + len0 > TMPFS_MAX_FILE \<and> len \<le> 0")
    case True
    then have "r = -1 \<and> t = s" using w i ir o unfolding vfs_write_file_offset_def n Let_def len0_def len_def by (auto split: if_splits)
    then show ?thesis using ok f by simp
  next
    case False
    have l: "0 \<le> len" "len \<le> len0" "len = min len0 (TMPFS_MAX_FILE - off)" using False by (auto simp: len_def len0_def)
    obtain good s1 where g: "tmpfs_grow e i (off + len) s = (good, s1)" by fastforce
    note G = tmpfs_grow_spec [OF ok i(1) f _ g]
    have ol: "0 \<le> off + len" using o l by simp
    have n1: "vf_node s1 = vf_node s" using grow_node [of e i "off + len" s] by (simp add: g)
    define z where "z = nd_size (vf_node s i)"
    define b where "b = (\<lambda>k. if off \<le> int k \<and> int k < off + len then data ! (k - nat off)
      else if z \<le> int k \<and> int k < off then 0 else ram_bytes s1 i k)"
    have u: "(r, t) = (if \<not> good then (-3, s1) else (len, set_ram i b (if off + len > z then off + len else z) s1))"
      using w i ir o False g unfolding vfs_write_file_offset_def n Let_def nat_int len0_def [symmetric] if_False len_def [symmetric]
      by (auto simp: b_def z_def n1 node_at_def cong: if_cong)
    show ?thesis
    proof (cases good)
      case False
      then have "t = s" "r = -3" using u G(3) [OF ol] by simp_all
      then show ?thesis using ok f by simp
    next
      case True
      have t: "t = set_ram i b (max z (off + len)) s1" "r = len" using u True by (simp_all add: max_def)
      have tn: "vf_node t = (vf_node s)(i := (vf_node s i)\<lparr>nd_size := max z (off + len)\<rparr>)"
        by (simp add: t set_ram_def pc_drop_def set_node_def n1)
      have tr: "vf_ram t = (vf_ram s1)(i := map_option (\<lambda>_. b) (vf_ram s1 i))" "vf_cap t = vf_cap s1" "vf_used t = vf_used s1"
        by (simp_all add: t set_ram_def pc_drop_def set_node_def)
      have rt: "ram_ok t" using G(1) [OF ol] by (auto simp: ram_ok_def tr)
      have z0: "0 \<le> z" "z \<le> vf_cap s1 i" using G(2) [OF ol] f by (simp_all add: ram_fits_def z_def n1)
      have ft: "ram_fits t i" using G(4) [OF ol True] z0 by (simp add: ram_fits_def tn tr)
      have bt: "ram_bytes t i k = b k" if "int k < max z (off + len)" for k
      proof -
        have "vf_ram s1 i \<noteq> None"
        proof
          assume a: "vf_ram s1 i = None"
          then have "vf_cap s1 i = 0" using G(1) [OF ol] i by (simp add: ram_ok_def)
          then have "z = 0" using z0 by simp
          moreover have "off + len = 0" using G(5) [OF ol True] a by simp
          ultimately show False using that by simp
        qed
        then show ?thesis by (auto simp: ram_bytes_def tr)
      qed
      have lr: "length (take (nat r) data) = nat len" using l by (simp add: t len0_def nat_le_iff)
      have "ram_content t i = ram_splice (ram_content s i) (nat off) (take (nat r) data)"
      proof (rule nth_equalityI)
        have "nat (max z (off + len)) = max (nat z) (nat off + nat len)" using o l z0 by (auto simp: max_def nat_add_distrib)
        then show ll: "length (ram_content t i) = length (ram_splice (ram_content s i) (nat off) (take (nat r) data))"
          using lr by (simp add: ram_content_def ram_splice_def tn z_def)
        fix k assume "k < length (ram_content t i)"
        then have k: "int k < max z (off + len)" "k < length (ram_splice (ram_content s i) (nat off) (take (nat r) data))"
          using ll by (simp_all add: ram_content_def tn)
        have "ram_content t i ! k = b k" using bt [OF k(1)] k(1) by (simp add: ram_content_def tn)
        also have "\<dots> = (if nat off \<le> k \<and> k < nat off + nat len then data ! (k - nat off) else if k < nat z then ram_bytes s i k else 0)"
        proof -
          have "ram_bytes s1 i k = ram_bytes s i k" if "int k < z" using G(6) [OF ol] that by (simp add: z_def)
          moreover have "(off \<le> int k \<and> int k < off + len) = (nat off \<le> k \<and> k < nat off + nat len)" using o l by linarith
          moreover have "(int k < z) = (k < nat z)" using z0 by linarith
          moreover have "off \<le> int k \<and> int k < off + len \<or> int k < z \<or> int k < off" using k(1) by linarith
          moreover have "(z \<le> int k) = (\<not> int k < z)" by linarith
          ultimately show ?thesis unfolding b_def by (intro if_pick)
        qed
        also have "\<dots> = ram_splice (ram_content s i) (nat off) (take (nat r) data) ! k"
        proof -
          have t1: "take (nat r) data ! (k - nat off) = data ! (k - nat off)" if "nat off \<le> k \<and> k < nat off + nat len"
          proof -
            have "k - nat off < nat r" using that t(2) by linarith
            then show ?thesis by simp
          qed
          have l1: "length (ram_content s i) = nat z" by (simp add: ram_content_def z_def)
          have c1: "ram_content s i ! k = ram_bytes s i k" if "k < nat z" using that by (simp add: ram_content_def z_def)
          have "k < max (length (ram_content s i)) (nat off + length (take (nat r) data))" using k(2) unfolding ram_splice_def by simp
          from nth_ram_splice [OF this] show ?thesis unfolding lr l1 using t1 c1 by presburger
        qed
        finally show "ram_content t i ! k = ram_splice (ram_content s i) (nat off) (take (nat r) data) ! k" .
      qed
      moreover have "ram_content t j = ram_content s j" if "j \<noteq> i" for j
        using G(7) [OF ol that] that by (simp add: ram_content_def ram_bytes_def tn tr)
      ultimately show ?thesis using rt ft t(2) l by (simp add: len0_def)
    qed
  qed
qed

theorem ram_write_splices_witness:
  "ram_content (snd (vfs_write_file_offset calm_env 4 2 [5] False demo)) 4 = [0, 0, 5]"
proof -
  have ok: "ram_ok demo" by (simp add: ram_ok_def)
  have f: "ram_fits demo 4" by (simp add: ram_fits_def demo_node_def node_of_def free_slot_def)
  have n: "nd_use (vf_node demo 4)" "nd_type (vf_node demo 4) = FS_RAM_FILE" by (simp_all add: demo_node_def node_of_def free_slot_def)
  have c: "ram_content demo 4 = []" by (simp add: ram_content_def demo_node_def node_of_def free_slot_def)
  have r: "fst (vfs_write_file_offset calm_env (int 4) 2 [5] False demo) = 1" by code_simp
  have m: "4 < MAX_NODES" by (simp add: MAX_NODES_def)
  from ram_write_splices [OF ok f m n, of 2 calm_env "[5]", OF _ prod.collapse [symmetric]] r c
  show ?thesis by (simp add: ram_splice_def upt_rec)
qed

end
