(* ===== verification/Vfs_Findings.thy ===== *)
theory Vfs_Findings
  imports Vfs_Props Vfs_Ram
begin

text \<open>
  Where \<open>src/sys/vfs.c\<close> does not do what its comments say: the test for the protected password
  file, links with a relative target, a rename onto itself, a growing write that fails, and an
  image whose root is its own ancestor.
\<close>

section \<open>The length of a path is never 0\<close>

lemma join_names_length: "length buf \<le> length (join_names sz buf ns)"
  by (induction sz buf ns rule: join_names.induct) auto

lemma abs_path_code: "fst (vfs_get_abs_path s i sz) \<noteq> 0"
  using join_names_length [of "''/''" sz] by (auto simp: vfs_get_abs_path_def Let_def Suc_le_eq)

lemma passwd_guard_never: "\<not> passwd_guard uid i s"
  using abs_path_code [of s i MAX_PATH] by (auto simp: passwd_guard_def split: prod.splits)

text \<open>Any caller may remove the protected password file: the guard compares the length
  \<open>vfs_get_abs_path\<close> returns with 0.\<close>

theorem passwd_unprotected:
  assumes "vfs_get_node_nofollow e path s = (i, s1)" and "0 < i" and "snd (vfs_get_abs_path s1 i MAX_PATH) = PASSWD_PROTECT_PATH"
    and "nd_type (node_at s1 i) = FS_FILE" and "\<not> ve_open e i"
  shows "fst (vfs_delete_node_as e path uid s) = 0 \<and> \<not> nd_use (node_at (snd (vfs_delete_node_as e path uid s)) i)"
  using assms by (simp add: vfs_delete_node_as_def Let_def passwd_guard_never permanent_def node_at_def)

theorem passwd_unprotected_witness:
  "fst (vfs_delete_node_as calm_env ''/etc/passwd'' USER_UID demo) = 0
    \<and> \<not> nd_use (node_at (snd (vfs_delete_node_as calm_env ''/etc/passwd'' USER_UID demo)) 2)"
proof (rule passwd_unprotected)
  show "vfs_get_node_nofollow calm_env ''/etc/passwd'' demo = (2, demo)" by (simp add: vfs_get_node_nofollow_def demo_walk_passwd)
  show "snd (vfs_get_abs_path demo 2 MAX_PATH) = PASSWD_PROTECT_PATH" by code_simp
qed (simp_all add: node_at_def demo_node_def node_of_def free_slot_def calm_env_def)

text \<open>A link with a relative target leads nowhere, for the same reason.\<close>

theorem relative_link_dangles:
  assumes "walk_next e cur c cs s = (x, rest, s1)" and "0 \<le> x" and "nd_type (node_at s1 x) = FS_SYMLINK"
    and "nd_link (node_at s1 x) = t" and "t \<noteq> []" and "hd t \<noteq> CHR ''/''" and "hops < VFS_SYMLINK_HOPS_MAX"
  shows "fst (walk_comps e False cur hops (c # cs) s) = Walked (-1)"
proof -
  have "link_path s1 (node_at s1 x) = None"
    using assms(4-6) abs_path_code [of s1 "nd_parent (node_at s1 x)" MAX_PATH]
    by (simp add: link_path_def Let_def split: prod.split) auto
  then show ?thesis using assms(1-3,7) by simp
qed

section \<open>Renaming a file onto itself\<close>

text \<open>A rename whose new path names the file itself removes the file and reports success.\<close>

theorem rename_self_deletes:
  assumes "vfs_get_node_nofollow e path s = (i, s)" and "0 < i" and "nd_type (node_at s i) = FS_FILE" and "\<not> ve_open e i"
    and "vfs_get_parent s path MAX_PATH = Some pp" and "vfs_get_node e pp s = (d, s)" and "0 \<le> d" and "d \<noteq> i"
    and "chain_hits (Suc MAX_NODES) s d i = Some False" and "0 \<le> vfs_find_in_dir s (path_base path) d"
  shows "fst (vfs_rename_as e path path uid s) = 0 \<and> \<not> nd_use (node_at (snd (vfs_rename_as e path path uid s)) i)"
proof -
  have "vfs_delete_node_as e path uid s = (0, snd (vfs_save e (drop_node (nat i) s)))"
    using assms(1-4) by (simp add: vfs_delete_node_as_def Let_def passwd_guard_never permanent_def)
  then show ?thesis using assms
    by (simp add: vfs_rename_as_def Let_def passwd_guard_never backend_rename_def node_at_def set_node_def del: chain_hits.simps)
qed

theorem rename_self_deletes_witness:
  "fst (vfs_rename_as calm_env ''/a'' ''/a'' USER_UID demo) = 0
    \<and> \<not> nd_use (node_at (snd (vfs_rename_as calm_env ''/a'' ''/a'' USER_UID demo)) 3)"
proof (rule rename_self_deletes)
  show "vfs_get_node_nofollow calm_env ''/a'' demo = (3, demo)" by (simp add: vfs_get_node_nofollow_def demo_walk_a)
  show "vfs_get_parent demo ''/a'' MAX_PATH = Some ''/''" by code_simp
  have "vfs_resolve_path demo ''/'' MAX_PATH = ''/''" by code_simp
  then show "vfs_get_node calm_env ''/'' demo = (0, demo)" by (simp add: vfs_get_node_def vfs_walk_path_def)
  have "path_base ''/a'' = ''a''" by code_simp
  then show "0 \<le> vfs_find_in_dir demo (path_base ''/a'') 0" by (simp add: demo_child_a)
qed (simp_all add: node_at_def demo_node_def node_of_def free_slot_def calm_env_def)

section \<open>A growing write that fails\<close>

text \<open>A write that must move the file to a longer run and then meets a failing transfer reports
  failure, but the node already names the new run: the old contents are gone.\<close>

theorem failed_growth_loses_file:
  assumes "0 < nd_sector (vf_node s i)" and "nsec (int (length data)) > nsec (nd_size (vf_node s i))"
    and "vfs_alloc_sectors s (nat (nsec (int (length data)))) (int i) = start" and "0 < start"
    and "\<And>x n. ve_wr e x n = Some 0"
  shows "fst (write_native e (int i) data s) = -1
    \<and> content (snd (write_native e (int i) data s)) i = map (disk_byte s (nat start)) [0..<nat (nd_size (vf_node s i))]"
proof -
  define z where "z = int (length data)"
  define s1 where "s1 = set_node i ((vf_node s i)\<lparr>nd_sector := start\<rparr>) s"
  have "nsec 0 = 1" by (simp add: nsec_def)
  then have "0 < length data" using assms(2) nsec_pos [of "nd_size (vf_node s i)"] by (cases data) simp_all
  then have k: "0 < nat ((z + 511) div 512)" unfolding z_def by linarith
  have "write_secs e b (nat start) 0 (nat ((z + 511) div 512)) data s1 = (False, s1)" for b
    using k assms(5) by (subst write_secs.simps) simp
  then have "write_native e (int i) data s = (-1, s1)"
    using assms(1-4) unfolding write_native_def Let_def node_at_def nat_int z_def [symmetric]
    by (simp add: s1_def z_def)
  then show ?thesis by (simp add: content_def first_sec_def s1_def set_node_def disk_byte_def)
qed


text \<open>The sector after the three bytes of \<open>/a\<close> belongs to \<open>/etc/passwd\<close>.\<close>

definition tight :: vfs where
  "tight = demo\<lparr>vf_node := demo_node(2 := (demo_node 2)\<lparr>nd_sector := 2050, nd_size := 1\<rparr>), vf_disk := (\<lambda>x _. if x = 2049 then 7 else 9)\<rparr>"

theorem failed_growth_loses_file_witness:
  "content tight 3 = [7, 7, 7] \<and> content (snd (write_native (calm_env\<lparr>ve_wr := (\<lambda>_ _. Some 0)\<rparr>) 3 (replicate 600 1) tight)) 3 = [9, 9, 9]"
proof -
  have n3: "vf_node tight 3 = (node_of ''a'' FS_FILE 0)\<lparr>nd_sector := 2049, nd_size := 3\<rparr>" by (simp add: tight_def demo_node_def)
  have m: "sector_map tight 3 x \<longleftrightarrow> x < VFS_DATA_START \<or> x = 2050" for x
  proof -
    have "int i \<noteq> 3 \<and> holds_sector (vf_node tight i) x \<longleftrightarrow> i = 2 \<and> x = 2050" for i
      by (auto simp: holds_sector_def tight_def demo_node_def node_of_def free_slot_def nsec_def)
    then show ?thesis by (auto simp: sector_map_def MAX_NODES_def)
  qed
  have d: "VFS_DATA_START = 2049" by (simp add: VFS_DATA_START_def VFS_NODE_START_def VFS_NODE_SECTORS_def)
  have two: "(\<forall>k < 2. P k) \<longleftrightarrow> P 0 \<and> P 1" for P :: "nat \<Rightarrow> bool" by (auto simp: less_2_cases_iff)
  have "first_idx (\<lambda>i. \<forall>k < 2. \<not> sector_map tight 3 (i + k)) VFS_DATA_START (Suc VFS_DISK_SECTORS - 2) = Some 2051"
    unfolding m by (simp add: first_idx.simps d VFS_DISK_SECTORS_def two)
  then have a: "vfs_alloc_sectors tight (nat (nsec (int (length (replicate 600 (1 :: u8)))))) (int 3) = 2051"
    by (simp add: vfs_alloc_sectors_def slot_result_def nsec_def)
  have "fst (write_native (calm_env\<lparr>ve_wr := (\<lambda>_ _. Some 0)\<rparr>) (int 3) (replicate 600 1) tight) = -1
    \<and> content (snd (write_native (calm_env\<lparr>ve_wr := (\<lambda>_ _. Some 0)\<rparr>) (int 3) (replicate 600 1) tight)) 3
      = map (disk_byte tight (nat 2051)) [0..<nat (nd_size (vf_node tight 3))]"
    by (rule failed_growth_loses_file [OF _ _ a]) (simp_all add: n3 nsec_def)
  moreover have "vf_disk tight = (\<lambda>x _. if x = 2049 then 7 else 9)" by (simp add: tight_def)
  then have "map (disk_byte tight (nat 2051)) [0..<nat (nd_size (vf_node tight 3))] = [9, 9, 9]" and "content tight 3 = [7, 7, 7]"
    by (simp_all add: n3 content_def first_sec_def disk_byte_def upt_rec)
  ultimately show ?thesis by simp
qed

section \<open>A root below itself\<close>

text \<open>An image whose root names a parent outside the table, or itself, is accepted with a root
  that is its own parent: no walk up to it ever ends.\<close>

theorem root_cycle_survives:
  assumes "vfs_load e s = (True, t)" and "nd_use (vf_tab s 0)"
    and "nd_parent (vf_tab s 0) < -1 \<or> nd_parent (vf_tab s 0) \<ge> int MAX_NODES \<or> nd_parent (vf_tab s 0) = 0"
  shows "\<not> stops t ((up t ^^ n) 0)"
proof -
  define s1 where "s1 = load_nodes e s"
  define s2 where "s2 = for_upto MAX_NODES sane_node s1"
  define u where "u = for_upto MAX_NODES break_cycle s2"
  have rd: "\<forall>i < VFS_NODE_SECTORS. ve_rd e (VFS_NODE_START + i) 1" and t: "vf_node t = vf_node u"
    using assms(1) by (auto simp: vfs_load_def Let_def s1_def [symmetric] s2_def [symmetric] u_def [symmetric] split: if_splits)
  have "first_idx (\<lambda>i. \<not> ve_rd e (VFS_NODE_START + i) 1) 0 VFS_NODE_SECTORS = None" using rd by (simp add: scan_simps)
  then have n1: "vf_node s1 0 = vf_tab s 0" by (simp add: s1_def load_nodes_def VFS_NODE_SECTORS_def)
  define I where "I k w \<longleftrightarrow> nd_use (vf_node w 0) \<and> (if k = 0 then vf_node w 0 = vf_tab s 0 else nd_parent (vf_node w 0) = 0)" for k :: nat and w :: vfs
  have "I MAX_NODES s2" unfolding s2_def
  proof (rule for_upto_indexed [where I = I])
    show "I 0 s1" using assms(2) n1 by (simp add: I_def)
    show "I (Suc k) (sane_node k w)" if "I k w" for k w
      using that assms(3) by (cases "k = 0") (auto simp: I_def sane_node_def set_node_def Let_def)
  qed
  then have "nd_use (vf_node s2 0) \<and> nd_parent (vf_node s2 0) = 0" by (simp add: I_def MAX_NODES_def)
  then have "nd_use (vf_node u 0) \<and> nd_parent (vf_node u 0) = 0" unfolding u_def
    by (rule for_upto_invariant [where I = "\<lambda>w. nd_use (vf_node w 0) \<and> nd_parent (vf_node w 0) = 0"])
      (auto simp: break_cycle_def set_node_def Let_def split: prod.split)
  then have r: "nd_use (vf_node t 0)" "up t 0 = 0" by (simp_all add: t up_def node_at_def)
  have "(up t ^^ n) 0 = 0" by (induction n) (simp_all add: r(2))
  then show ?thesis using r(1) by (simp add: stops_def node_at_def)
qed

text \<open>The demonstration image with a root whose parent is 5000.\<close>

definition bad_root :: vfs where
  "bad_root = demo\<lparr>vf_tab := demo_node(0 := (demo_node 0)\<lparr>nd_parent := 5000\<rparr>)\<rparr>"

theorem root_cycle_survives_witness:
  "fst (vfs_load calm_env bad_root) \<and> \<not> stops (snd (vfs_load calm_env bad_root)) ((up (snd (vfs_load calm_env bad_root)) ^^ 9999) 0)"
proof -
  have f: "fst (vfs_load calm_env bad_root)"
    by (rule load_accepts) (simp_all add: reads_ok_def calm_env_def bad_root_def demo_def VFS_LAYOUT_VERSION_def demo_used)
  then have l: "vfs_load calm_env bad_root = (True, snd (vfs_load calm_env bad_root))" by (simp add: prod_eq_iff)
  have "\<not> stops (snd (vfs_load calm_env bad_root)) ((up (snd (vfs_load calm_env bad_root)) ^^ 9999) 0)"
    by (rule root_cycle_survives [OF l]) (simp_all add: bad_root_def demo_used MAX_NODES_def)
  then show ?thesis using f by simp
qed

end
