(* ===== verification/Passwd.thy ===== *)
theory Passwd
  imports Sha256 Entropy Vfs_Findings
begin

text \<open>
  The account password of \<open>src/sys/passwd.c\<close> with the \<open>passwd\<close> command of
  \<open>src/sys/shell/builtins/env_cmds/cmd_passwd.c\<close>, and the lock screen flag of
  \<open>src/sys/security.c\<close>. The password file lives in the modelled file system, the salt comes from
  the modelled generator. A password is the bytes before its NUL; \<open>c0\<close> is what the local hash
  context held, \<open>junk\<close> what the read buffer held. The file system calls of one operation follow
  one another without other tasks in between.
\<close>

section \<open>Format of the password file\<close>

definition PASSWD_PATH :: string where
  "PASSWD_PATH = ''/etc/passwd''"

definition PASSWD_DEFAULT :: string where
  "PASSWD_DEFAULT = ''mectov123''"

definition PASSWD_MAX_LEN :: nat where
  "PASSWD_MAX_LEN = 31"

definition SALT_BYTES :: nat where
  "SALT_BYTES = 8"

definition SALT_HEX :: nat where
  "SALT_HEX = SALT_BYTES * 2"

definition HASH_HEX :: nat where
  "HASH_HEX = 64"

definition LINE_LEN :: nat where
  "LINE_LEN = SALT_HEX + 1 + HASH_HEX"

definition str_bytes :: "string \<Rightarrow> u8 list" where
  "str_bytes s = map of_char s"

definition c_str :: "u8 list \<Rightarrow> u8 list" where
  "c_str bs = takeWhile (\<lambda>b. b \<noteq> 0) bs"

definition to_hex :: "u8 list \<Rightarrow> u8 list" where
  "to_hex bs = concat (map (\<lambda>b. [str_bytes ''0123456789abcdef'' ! unat (drop_bit 4 b), str_bytes ''0123456789abcdef'' ! unat (b AND 0xF)]) bs)"

definition hash_with_salt :: "sha256_ctx \<Rightarrow> u8 list \<Rightarrow> u8 list \<Rightarrow> u8 list option" where
  "hash_with_salt c0 salt pw =
     do { c1 \<leftarrow> sha256_update (sha256_init c0) salt; c2 \<leftarrow> sha256_update c1 pw; sha256_final c2 }"

section \<open>Checking and setting\<close>

text \<open>The bytes of the file without trailing white space.\<close>

definition read_passwd_file :: "venv \<Rightarrow> int \<Rightarrow> (nat \<Rightarrow> u8) \<Rightarrow> vfs \<Rightarrow> u8 list \<times> vfs" where
  "read_passwd_file e max_size junk s =
     (let ((n, bs), s1) = vfs_read_file e PASSWD_PATH max_size junk s
      in if n \<le> 0 then ([], s1) else (rev (dropWhile (\<lambda>b. b = 10 \<or> b = 13 \<or> b = 32) (rev (take (nat n) bs))), s1))"

definition sys_verify_password :: "venv \<Rightarrow> sha256_ctx \<Rightarrow> (nat \<Rightarrow> u8) \<Rightarrow> u8 list \<Rightarrow> vfs \<Rightarrow> bool option \<times> vfs" where
  "sys_verify_password e c0 junk pw s =
     (let (buf, s1) = read_passwd_file e (int LINE_LEN + 1) junk s; line = c_str buf;
          salt = takeWhile (\<lambda>b. b \<noteq> 58) line; rest = dropWhile (\<lambda>b. b \<noteq> 58) line
      in if buf = [] then (Some (pw = str_bytes PASSWD_DEFAULT), s1)
         else if rest = [] then (Some (pw = line), s1)
         else if length salt \<noteq> SALT_HEX \<or> length (tl rest) \<noteq> HASH_HEX then (Some False, s1)
         else (map_option (\<lambda>d. to_hex d = tl rest) (hash_with_salt c0 salt pw), s1))"

text \<open>The directory and the file are made when they are missing.\<close>

definition ensure_passwd_file :: "venv \<Rightarrow> vfs \<Rightarrow> bool \<times> vfs" where
  "ensure_passwd_file e s =
     (let (a, s1) = vfs_get_node e ''/etc'' s;
          (ok, s2) = (if a \<ge> 0 then (True, s1)
                      else (let (m, s2) = vfs_mkdir e ''/etc'' s1
                            in if m \<ge> 0 then (True, s2) else (let (b, s3) = vfs_get_node e ''/etc'' s2 in (b \<ge> 0, s3))))
      in if \<not> ok then (False, s2)
         else (let (f, s3) = vfs_get_node e PASSWD_PATH s2
               in if f \<ge> 0 then (True, s3) else (let (c, s4) = vfs_create_file e PASSWD_PATH s3 in (c \<ge> 0, s4))))"

definition sys_set_password :: "venv \<Rightarrow> sha256_ctx \<Rightarrow> u8 list \<Rightarrow> entropy \<Rightarrow> vfs \<Rightarrow> (int \<times> entropy \<times> vfs) option" where
  "sys_set_password e c0 pw en s =
     (let p = take PASSWD_MAX_LEN pw
      in if p = [] then Some (-1, en, s)
         else (case get_random_bytes SALT_BYTES en of
                 (None, en1) \<Rightarrow> Some (-1, en1, s)
               | (Some salt, en1) \<Rightarrow>
                   (case hash_with_salt c0 (to_hex salt) p of
                      None \<Rightarrow> None
                    | Some d \<Rightarrow>
                        (let (ok, s1) = ensure_passwd_file e s
                         in if \<not> ok then Some (-1, en1, s1)
                            else (let (r, s2) = vfs_write_file e PASSWD_PATH (to_hex salt @ [58] @ to_hex d) s1 in Some (r, en1, s2))))))"

text \<open>\<open>ensured\<close> is the static flag of the first call.\<close>

definition passwd_ensure_initialized :: "venv \<Rightarrow> sha256_ctx \<Rightarrow> (nat \<Rightarrow> u8) \<Rightarrow> bool \<Rightarrow> entropy \<Rightarrow> vfs \<Rightarrow> (bool \<times> entropy \<times> vfs) option" where
  "passwd_ensure_initialized e c0 junk ensured en s =
     (if ensured then Some (True, en, s)
      else (let (buf, s1) = read_passwd_file e (int LINE_LEN + 1) junk s
            in if buf \<noteq> [] then Some (True, en, s1)
               else map_option (\<lambda>(r, en1, s2). (True, en1, s2)) (sys_set_password e c0 (str_bytes PASSWD_DEFAULT) en s1)))"

section \<open>The command\<close>

datatype passwd_reply = PwUsage | PwWrong | PwEmpty | PwUpdated | PwFailed

text \<open>A word of the command line, without its quotes, and what follows it.\<close>

definition next_token :: "u8 list \<Rightarrow> u8 list option \<times> u8 list" where
  "next_token p =
     (let p1 = dropWhile (\<lambda>b. b = 32) p; tok = takeWhile (\<lambda>b. b \<noteq> 32) p1; n = length tok
      in if p1 = [] then (None, p)
         else (Some (if n \<ge> 2 \<and> (hd tok = 34 \<and> last tok = 34 \<or> hd tok = 39 \<and> last tok = 39) then butlast (tl tok) else tok),
               drop (Suc n) p1))"

text \<open>\<open>args\<close> is the command line after the name of the command.\<close>

definition cmd_passwd :: "venv \<Rightarrow> sha256_ctx \<Rightarrow> (nat \<Rightarrow> u8) \<Rightarrow> u8 list \<Rightarrow> entropy \<Rightarrow> vfs \<Rightarrow> (passwd_reply \<times> entropy \<times> vfs) option" where
  "cmd_passwd e c0 junk args en s =
     (let (old, rest) = next_token args; (new, _) = next_token rest
      in case (old, new) of
           (Some o1, Some n1) \<Rightarrow>
             (case sys_verify_password e c0 junk o1 s of
                (None, s1) \<Rightarrow> None
              | (Some False, s1) \<Rightarrow> Some (PwWrong, en, s1)
              | (Some True, s1) \<Rightarrow>
                  if n1 = [] then Some (PwEmpty, en, s1)
                  else map_option (\<lambda>(r, en1, s2). (if r = 0 then PwUpdated else PwFailed, en1, s2)) (sys_set_password e c0 n1 en s1))
         | _ \<Rightarrow> Some (PwUsage, en, s))"

section \<open>The lock screen flag\<close>

record lock_state =
  lk_pending :: bool
  lk_secs :: u32
  lk_last :: u32

definition lock_screen :: "lock_state \<Rightarrow> lock_state" where
  "lock_screen l = l\<lparr>lk_pending := True\<rparr>"

definition security_set_auto_lock :: "u32 \<Rightarrow> u32 \<Rightarrow> lock_state \<Rightarrow> lock_state" where
  "security_set_auto_lock secs now l = l\<lparr>lk_secs := secs, lk_last := now\<rparr>"

definition security_note_input :: "u32 \<Rightarrow> lock_state \<Rightarrow> lock_state" where
  "security_note_input now l = l\<lparr>lk_last := now\<rparr>"

definition security_reset_idle :: "u32 \<Rightarrow> lock_state \<Rightarrow> lock_state" where
  "security_reset_idle now l = l\<lparr>lk_last := now\<rparr>"

definition security_auto_lock_tick :: "u32 \<Rightarrow> lock_state \<Rightarrow> lock_state" where
  "security_auto_lock_tick now l =
     (if lk_secs l = 0 then l
      else if now - lk_last l \<ge> lk_secs l * 1000 then l\<lparr>lk_pending := True, lk_last := now\<rparr>
      else l)"

chapter \<open>What the password file promises\<close>

text \<open>
  What the account password promises: the hash routines always return, a password that was set
  is the one that verifies, and three places where the code fails its intention.
\<close>

section \<open>Hashing a password\<close>

lemma length_round: "length st = 8 \<Longrightarrow> length (sha256_round w st i) = 8"
  by (cases "(w, st, i)" rule: sha256_round.cases) (simp_all add: Let_def)

lemma length_rounds: "length st = 8 \<Longrightarrow> length (foldl (sha256_round w) st is) = 8"
  by (induction "is" arbitrary: st) (simp_all add: length_round)

lemma length_blocks: "length (hash_blocks m n) = 8"
proof -
  have "length (foldl sha256_compress st bs) = 8" if "length st = 8" for st bs
    using that by (induction bs arbitrary: st) (simp_all add: sha256_compress_def length_rounds)
  then show ?thesis by (simp add: hash_blocks_def SHA_H0_def)
qed

lemma length_digest [simp]: "length (sha256_digest m) = 32"
proof -
  have "length (concat (map be_bytes32 xs)) = 4 * length xs" for xs by (induction xs) (simp_all add: be_bytes32_def)
  then show ?thesis by (simp add: sha256_digest_def length_blocks)
qed

lemma hash_salt:
  assumes "length (sh_block c0) = 64"
  shows "hash_with_salt c0 salt pw = Some (sha256_digest (salt @ pw))"
proof -
  obtain c1 where c1: "sha256_update (sha256_init c0) salt = Some c1" "sha_holds c1 salt"
    using update_holds [OF init_holds [OF assms], of salt] by auto
  obtain c2 where c2: "sha256_update c1 pw = Some c2" "sha_holds c2 (salt @ pw)" using update_holds [OF c1(2)] by blast
  show ?thesis using c1 c2 final_holds by (simp add: hash_with_salt_def)
qed

section \<open>Hexadecimal text\<close>

lemma length_to_hex [simp]: "length (to_hex bs) = 2 * length bs"
  by (induction bs) (simp_all add: to_hex_def)

lemma hex_digits: "k < 16 \<Longrightarrow> str_bytes ''0123456789abcdef'' ! k \<in> {48, 49, 50, 51, 52, 53, 54, 55, 56, 57, 97, 98, 99, 100, 101, 102}"
proof -
  define L :: "u8 list" where "L = [48, 49, 50, 51, 52, 53, 54, 55, 56, 57, 97, 98, 99, 100, 101, 102]"
  have "str_bytes ''0123456789abcdef'' = L" by (simp add: str_bytes_def L_def)
  moreover assume "k < 16"
  then have "L ! k \<in> set L" by (intro nth_mem) (simp add: L_def)
  ultimately show ?thesis by (simp add: L_def)
qed

lemma hex_bytes:
  assumes "b \<in> set (to_hex bs)"
  shows "b \<in> {48, 49, 50, 51, 52, 53, 54, 55, 56, 57, 97, 98, 99, 100, 101, 102}"
proof -
  obtain x :: u8 where x: "b = str_bytes ''0123456789abcdef'' ! unat (drop_bit 4 x) \<or> b = str_bytes ''0123456789abcdef'' ! unat (x AND 0xF)"
    using assms by (simp add: to_hex_def) blast
  have u: "unat x < 256" by (rule less_le_trans [OF unsigned_less]) simp
  have "unat (drop_bit 4 x) = unat x div 16" by (simp add: drop_bit_eq_div unat_div)
  then have "unat (drop_bit 4 x) < 16" using u by (simp add: less_mult_imp_div_less)
  moreover have "unat (x AND 0xF) < 16"
  proof -
    have "x AND 0xF = take_bit 4 x" by (simp add: take_bit_eq_mask mask_eq_exp_minus_1)
    then show ?thesis by (simp add: unsigned_take_bit_eq take_bit_nat_less_exp [of 4, simplified])
  qed
  ultimately show ?thesis using x hex_digits by blast
qed

text \<open>A line of the file: printable, with the colon after the salt.\<close>

lemma c_str_hex: "c_str (to_hex a @ [58] @ to_hex b) = to_hex a @ [58] @ to_hex b"
  unfolding c_str_def by (rule takeWhile_eq_all_conv [THEN iffD2]) (auto dest!: hex_bytes)

lemma salt_part:
  "takeWhile (\<lambda>x. x \<noteq> 58) (to_hex a @ [58] @ to_hex b) = to_hex a" "dropWhile (\<lambda>x. x \<noteq> 58) (to_hex a @ [58] @ to_hex b) = [58] @ to_hex b"
proof -
  have "\<forall>x \<in> set (to_hex a). x \<noteq> 58" using hex_bytes by fastforce
  then show "takeWhile (\<lambda>x. x \<noteq> 58) (to_hex a @ [58] @ to_hex b) = to_hex a"
    "dropWhile (\<lambda>x. x \<noteq> 58) (to_hex a @ [58] @ to_hex b) = [58] @ to_hex b" by (simp_all add: takeWhile_append2 dropWhile_append2)
qed

lemma no_trailing_space:
  assumes "bs \<noteq> []"
  shows "rev (dropWhile (\<lambda>b. b = 10 \<or> b = 13 \<or> b = 32) (rev (xs @ to_hex bs))) = xs @ to_hex bs"
proof -
  have "to_hex bs \<noteq> []" using assms length_to_hex [of bs] by (metis length_0_conv mult_is_0 zero_neq_numeral)
  then obtain ys y where y: "to_hex bs = ys @ [y]" by (metis rev_exhaust)
  then have "y \<in> set (to_hex bs)" by simp
  from hex_bytes [OF this] show ?thesis by (auto simp: y)
qed

section \<open>The file in the tree\<close>

text \<open>Looking the file up by plain descent.\<close>

definition passwd_at :: "vfs \<Rightarrow> nat \<Rightarrow> nat \<Rightarrow> bool" where
  "passwd_at s d i \<longleftrightarrow> vfs_walk_child s 0 ''etc'' = int d \<and> nd_type (vf_node s d) = FS_DIR
     \<and> vfs_walk_child s (int d) ''passwd'' = int i \<and> native s i"

lemma passwd_lookup:
  assumes "passwd_at s d i"
  shows "vfs_get_node e ''/etc'' s = (int d, s)" and "vfs_get_node e PASSWD_PATH s = (int i, s)"
proof -
  have r: "vfs_resolve_path s ''/etc'' MAX_PATH = ''/etc''" "vfs_resolve_path s ''/etc/passwd'' MAX_PATH = ''/etc/passwd''"
    by (simp_all add: vfs_resolve_path_def MAX_PATH_def)
  have p: "split_path ''/etc'' = Some [''etc'']" "split_path ''/etc/passwd'' = Some [''etc'', ''passwd'']" by code_simp+
  have n: "walk_next e 0 ''etc'' cs s = (int d, cs, s)" "walk_next e (int d) ''passwd'' cs s = (int i, cs, s)" for cs
    using assms by (simp_all add: walk_next_def passwd_at_def)
  have "walk_comps e False 0 0 [''etc''] s = (Walked (int d), s)" "walk_comps e False 0 0 [''etc'', ''passwd''] s = (Walked (int i), s)"
    using assms by (simp_all add: n node_at_def passwd_at_def native_def)
  then show "vfs_get_node e ''/etc'' s = (int d, s)" "vfs_get_node e PASSWD_PATH s = (int i, s)"
    by (simp_all add: vfs_get_node_def vfs_walk_path_def PASSWD_PATH_def r p)
qed

text \<open>Writing a native file moves no name.\<close>

definition same_names :: "vfs \<Rightarrow> vfs \<Rightarrow> bool" where
  "same_names s t \<longleftrightarrow> (\<forall>j. nd_name (vf_node t j) = nd_name (vf_node s j) \<and> nd_use (vf_node t j) = nd_use (vf_node s j)
     \<and> nd_parent (vf_node t j) = nd_parent (vf_node s j) \<and> nd_type (vf_node t j) = nd_type (vf_node s j))"

lemma sync_names: "same_names s (vfs_sync_aliases i s)"
proof -
  have "same_names s (for_upto n f s)" if "\<And>j t. same_names s t \<Longrightarrow> same_names s (f j t)" for n f
    by (rule for_upto_invariant [where I = "same_names s"]) (use that in \<open>simp_all add: same_names_def\<close>)
  then show ?thesis unfolding vfs_sync_aliases_def Let_def by (auto simp: same_names_def set_node_def pc_drop_def)
qed

lemma write_native_names: "same_names s (snd (write_native e i data s))"
proof -
  define n where "n = node_at s i"
  define s1 where "s1 st = set_node (nat i) (n\<lparr>nd_sector := st\<rparr>) s" for st
  have 1: "same_names s (s1 st)" for st by (auto simp: same_names_def s1_def set_node_def n_def node_at_def)
  have 2: "same_names s (snd (write_secs e b st 0 m data (s1 q)))" for b st m q
    using 1 [of q] write_secs_frame by (simp add: same_names_def)
  have 3: "same_names s (t\<lparr>vf_pc := pc\<rparr>)" if "same_names s t" for t pc using that by (simp add: same_names_def)
  have 4: "same_names s (set_node (nat i) ((node_at t i)\<lparr>nd_size := z\<rparr>) t)" if "same_names s t" for t z
    using that by (auto simp: same_names_def set_node_def node_at_def)
  have 5: "same_names s (vfs_sync_aliases i t)" if "same_names s t" for t using that sync_names [of t i] by (simp add: same_names_def)
  have 6: "same_names s (snd (vfs_save e t))" if "same_names s t" for t using that by (simp add: same_names_def)
  have 0: "same_names s s" by (simp add: same_names_def)
  show ?thesis
    unfolding write_native_def Let_def n_def [symmetric] s1_def [symmetric] case_prod_beta using 0 2 by (auto intro!: 3 4 5 6)
qed

lemma passwd_at_names: "passwd_at s d i \<Longrightarrow> same_names s t \<Longrightarrow> passwd_at t d i"
proof -
  assume p: "passwd_at s d i" and n: "same_names s t"
  have e: "nd_name (vf_node t j) = nd_name (vf_node s j)" "nd_use (vf_node t j) = nd_use (vf_node s j)"
    "nd_parent (vf_node t j) = nd_parent (vf_node s j)" "nd_type (vf_node t j) = nd_type (vf_node s j)" for j
    using n by (simp_all add: same_names_def)
  have "child_named t = child_named s" by (simp add: fun_eq_iff child_named_def e)
  then have "vfs_walk_child t x c = vfs_walk_child s x c" for x c by (simp add: vfs_walk_child_def node_at_def e)
  then show ?thesis using p by (simp add: passwd_at_def native_def e)
qed

section \<open>Setting and checking\<close>

lemma verify_hex:
  assumes ok: "layout_ok s" and at: "passwd_at s d i" and c: "content s i = to_hex salt @ [58] @ to_hex h"
    and l: "length salt = SALT_BYTES" "length h = 32" and rd: "reads_ok e" and c0: "length (sh_block c0) = 64"
  shows "fst (sys_verify_password e c0 junk pw s) = Some (to_hex (sha256_digest (to_hex salt @ pw)) = to_hex h)"
proof -
  define line where "line = to_hex salt @ [58] @ to_hex h"
  have nat: "native s i" using at by (simp add: passwd_at_def)
  have len: "length line = 81" using l by (simp add: line_def SALT_BYTES_def)
  have sz: "nat (nd_size (vf_node s i)) = 81" using c len length_content [of s i] by (simp add: line_def)
  obtain res t where r: "read_native e (int i) 82 junk s = (res, t)" by fastforce
  have "res = (min (nd_size (vf_node s i)) 82, take (nat 82) (content s i))"
    by (rule read_native_content(1) [OF ok nat rd _ r]) simp
  then have "res = (81, line)" using sz len unfolding c line_def [symmetric] by simp
  moreover have "vfs_read_file e PASSWD_PATH 82 junk s = (res, t)"
    using nat by (simp add: vfs_read_file_def passwd_lookup [OF at] Let_def node_at_def native_def r)
  moreover have "h \<noteq> []" using l by auto
  ultimately have "read_passwd_file e 82 junk s = (line, t)"
    using no_trailing_space [of h "to_hex salt @ [58]"] l len by (simp add: read_passwd_file_def line_def)
  then have "read_passwd_file e 82 junk s = (to_hex salt @ [58] @ to_hex h, t)" by (simp add: line_def)
  moreover have "int LINE_LEN + 1 = 82" by (simp add: LINE_LEN_def SALT_HEX_def SALT_BYTES_def HASH_HEX_def)
  ultimately have "read_passwd_file e (int LINE_LEN + 1) junk s = (to_hex salt @ [58] @ to_hex h, t)" by (simp only:)
  then show ?thesis
    unfolding sys_verify_password_def Let_def by (simp only: prod.case c_str_hex salt_part) (simp add: hash_salt [OF c0] l SALT_HEX_def HASH_HEX_def)
qed

lemma set_password_cases [consumes 2, case_names refused written]:
  assumes at: "passwd_at s d i" and c0: "length (sh_block c0) = 64"
  obtains (refused) en1 where "sys_set_password e c0 pw en s = Some (-1, en1, s)" "pw = [] \<or> fst (get_random_bytes SALT_BYTES en) = None"
  | (written) salt en1 r t where "length salt = SALT_BYTES" "pw \<noteq> []" "sys_set_password e c0 pw en s = Some (r, en1, t)"
      "write_native e (int i) (to_hex salt @ [58] @ to_hex (sha256_digest (to_hex salt @ take PASSWD_MAX_LEN pw))) s = (r, t)"
proof (cases "pw = [] \<or> fst (get_random_bytes SALT_BYTES en) = None")
  case True
  moreover have "PASSWD_MAX_LEN \<noteq> 0" by (simp add: PASSWD_MAX_LEN_def)
  ultimately have "\<exists>en1. sys_set_password e c0 pw en s = Some (-1, en1, s)" by (cases "get_random_bytes SALT_BYTES en") (auto simp: sys_set_password_def Let_def)
  then show ?thesis using refused True by blast
next
  case False
  then obtain salt en1 where g: "get_random_bytes SALT_BYTES en = (Some salt, en1)" by (cases "get_random_bytes SALT_BYTES en") auto
  have "length salt = SALT_BYTES" by (rule length_random [of _ en]) (simp add: g)
  moreover obtain r t where w: "write_native e (int i) (to_hex salt @ [58] @ to_hex (sha256_digest (to_hex salt @ take PASSWD_MAX_LEN pw))) s = (r, t)"
    by fastforce
  moreover have "sys_set_password e c0 pw en s = Some (r, en1, t)"
  proof -
    have "ensure_passwd_file e s = (True, s)" by (simp add: ensure_passwd_file_def passwd_lookup [OF at])
    moreover have "vfs_write_file e PASSWD_PATH x s = write_native e (int i) x s" for x
      using at by (simp add: vfs_write_file_def passwd_lookup [OF at] Let_def node_at_def native_def passwd_at_def)
    moreover have "PASSWD_MAX_LEN \<noteq> 0" by (simp add: PASSWD_MAX_LEN_def)
    ultimately show ?thesis using False w by (simp add: sys_set_password_def Let_def hash_salt [OF c0] g)
  qed
  ultimately show ?thesis using False written by blast
qed

lemma new_password_verifies:
  assumes ok: "layout_ok s" and at: "passwd_at s d i" and c0: "length (sh_block c0) = 64" and l: "length salt = SALT_BYTES"
    and w: "write_native e (int i) (to_hex salt @ [58] @ to_hex (sha256_digest m)) s = (r, t)" and r: "0 \<le> r" and rd: "reads_ok e2"
  shows "fst (sys_verify_password e2 c0 junk pw2 t) = Some (to_hex (sha256_digest (to_hex salt @ pw2)) = to_hex (sha256_digest m))"
proof -
  have nat: "native s i" using at by (simp add: passwd_at_def)
  note W = write_native_content [OF ok nat w r]
  have "passwd_at t d i" using passwd_at_names [OF at] write_native_names [of s e "int i"] w by (metis snd_conv)
  moreover have "content t i = to_hex salt @ [58] @ to_hex (sha256_digest m)" using W(4) [OF nat] by simp
  ultimately show ?thesis by (rule verify_hex [OF W(2) _ _ l _ rd c0]) simp
qed


section \<open>The command never says that it succeeded\<close>

lemma fst_let: "(\<And>x. x = a \<Longrightarrow> fst (f x) \<in> S) \<Longrightarrow> fst (Let a f) \<in> S"
  by simp

lemma fst_split: "(\<And>x y. fst (f x y) \<in> S) \<Longrightarrow> fst (case p of (x, y) \<Rightarrow> f x y) \<in> S"
  by (cases p) simp

lemma fst_if: "fst a \<in> S \<Longrightarrow> fst b \<in> S \<Longrightarrow> fst (if c then a else b) \<in> S"
  by simp

lemma write_native_result: "fst (write_native e i data s) \<in> {-3, -1, int (length data)}"
  unfolding write_native_def by (intro fst_let fst_split fst_if) simp_all

lemma verify_state:
  assumes at: "passwd_at s d i"
  shows "passwd_at (snd (sys_verify_password e c0 junk pw s)) d i"
proof -
  define n where "n = int LINE_LEN + 1"
  have nat: "nd_type (vf_node s i) = FS_FILE" and n0: "0 < n" using at by (simp_all add: passwd_at_def native_def n_def)
  have "vfs_read_file e PASSWD_PATH n junk s = read_native e (int i) n junk s"
    unfolding vfs_read_file_def passwd_lookup(2) [OF at] Let_def prod.case using nat n0 by (simp add: node_at_def)
  then have "snd (read_passwd_file e n junk s) = snd (read_native e (int i) n junk s)"
    by (simp add: read_passwd_file_def case_prod_beta)
  moreover have "snd (sys_verify_password e c0 junk pw s) = snd (read_passwd_file e n junk s)"
    unfolding sys_verify_password_def Let_def n_def [symmetric] case_prod_beta by simp
  ultimately obtain pc where "snd (sys_verify_password e c0 junk pw s) = s\<lparr>vf_pc := pc\<rparr>"
    using read_native_pc [of e i n junk s] by auto
  then show ?thesis using passwd_at_names [OF at] by (simp add: same_names_def)
qed

text \<open>The \<open>passwd\<close> command compares the result of \<open>sys_set_password\<close> with 0; on success that is
  the length of the line, so the command reports a failure although the password is changed.\<close>
theorem passwd_command_misreports:
  assumes at: "passwd_at s d i" and c0: "length (sh_block c0) = 64"
    and c: "cmd_passwd e c0 junk args en s = Some (reply, en1, t)"
  shows "reply \<noteq> PwUpdated"
proof
  assume r: "reply = PwUpdated"
  obtain s1 n1 where s1: "passwd_at s1 d i" "sys_set_password e c0 n1 en s1 = Some (0, en1, t)"
    using c r verify_state [OF at, of e c0 junk]
    by (simp add: cmd_passwd_def split: prod.splits option.splits bool.splits if_splits) (metis snd_conv)
  show False using s1(1) c0
  proof (cases rule: set_password_cases [where e = e and pw = n1 and en = en])
    case (written salt en2 r2 t2)
    then have "r2 = 0" using s1(2) by simp
    then show False using written(4) write_native_result [of e "int i" "to_hex salt @ [58] @ to_hex (sha256_digest (to_hex salt @ take PASSWD_MAX_LEN n1))" s1]
      by simp
  qed (use s1 in simp)
qed

section \<open>Deleting the file\<close>

lemma drop_child:
  assumes at: "passwd_at s d i" and n: "strtolower (nd_name (vf_node s d)) = ''etc''"
    and u: "\<And>j. j < MAX_NODES \<Longrightarrow> child_named s (int d) ''passwd'' j \<Longrightarrow> j = i"
    and t: "vf_node t = (vf_node s)(i := m)" "\<not> nd_use m" and z: "i \<noteq> 0"
  shows "vfs_walk_child t 0 ''etc'' = int d" and "vfs_walk_child t (int d) ''passwd'' = -1" and "vf_node t d = vf_node s d"
proof -
  have dr: "slot_result (first_idx (child_named s 0 ''etc'') 0 MAX_NODES) = int d" "node_range 0" "nd_use (vf_node s 0)"
    and ir: "slot_result (first_idx (child_named s (int d) ''passwd'') 0 MAX_NODES) = int i" "node_range (int d)" "nd_use (vf_node s d)"
    using at by (simp_all add: passwd_at_def vfs_walk_child_def node_at_def split: if_splits)
  have ci: "child_named s (int d) ''passwd'' i" using ir(1) by (auto simp: slot_result_def split: option.splits dest!: first_idx_Some)
  have "strtolower ''passwd'' \<noteq> ''etc''" "strtolower ''etc'' = ''etc''" by code_simp+
  then have ne: "i \<noteq> d" "\<not> child_named s 0 ''etc'' i" using ci n by (auto simp: child_named_def)
  show D: "vf_node t d = vf_node s d" using ne t by simp
  have "child_named t 0 ''etc'' j = child_named s 0 ''etc'' j" for j using ne(2) t by (simp add: child_named_def)
  then have c0: "child_named t 0 ''etc'' = child_named s 0 ''etc''" by (simp add: fun_eq_iff)
  have "\<not> child_named t (int d) ''passwd'' j" if "j < MAX_NODES" for j using u [OF that] t by (auto simp: child_named_def)
  then have "first_idx (child_named t (int d) ''passwd'') 0 MAX_NODES = None" by (simp add: scan_simps)
  then show "vfs_walk_child t (int d) ''passwd'' = -1"
    using ir D by (simp add: vfs_walk_child_def node_at_def slot_result_def)
  show "vfs_walk_child t 0 ''etc'' = int d" using dr c0 z t by (simp add: vfs_walk_child_def node_at_def)
qed


section \<open>Instances\<close>

text \<open>The image \<open>tight\<close>, whose password file has a sector of its own, a context and a seeded
  generator.\<close>

definition some_ctx :: sha256_ctx where
  "some_ctx = \<lparr>sh_state = [], sh_total = 0, sh_block = replicate 64 0, sh_blen = 0\<rparr>"

definition some_rng :: entropy where
  "some_rng = entropy_init (1, 2, 3, 4, 5) 6
     \<lparr>en_pool = [], en_mixed = 0, en_added = 0, en_key = replicate 8 0, en_ctr = [], en_seeded = False\<rparr>"

lemma rng_bytes: "\<exists>salt. fst (get_random_bytes SALT_BYTES some_rng) = Some salt"
proof -
  have "entropy_ok some_rng" "en_seeded some_rng" using init_entropy_ok by (simp_all add: some_rng_def)
  then show ?thesis using random_bytes_spec [of some_rng SALT_BYTES] by blast
qed

lemma tight_at: "passwd_at tight 1 2"
proof -
  have c: "child_named tight = child_named demo" by (auto simp: fun_eq_iff child_named_def tight_def)
  have w: "vfs_walk_child demo 0 ''etc'' = 1" "vfs_walk_child demo 1 ''passwd'' = 2" by code_simp+
  have "vfs_walk_child tight x n = vfs_walk_child demo x n" for x n
    by (simp add: vfs_walk_child_def c) (auto simp: node_at_def tight_def)
  then show ?thesis using w by (simp add: passwd_at_def native_def tight_def demo_node_def node_of_def free_slot_def MAX_NODES_def)
qed

lemma tight_layout: "layout_ok tight"
proof -
  have n: "native tight i \<longleftrightarrow> i = 2 \<or> i = 3" for i by (auto simp: native_def tight_def demo_node_def node_of_def free_slot_def MAX_NODES_def)
  have s: "run_of tight 2 = {2050}" "run_of tight 3 = {2049}"
    by (auto simp: run_of_def holds_sector_def tight_def demo_node_def node_of_def free_slot_def nsec_def)
  have "file_at tight 2" "file_at tight 3"
    by (simp_all add: file_at_def tight_def demo_node_def node_of_def free_slot_def nsec_def VFS_DATA_START_def VFS_NODE_START_def
      VFS_NODE_SECTORS_def VFS_DISK_SECTORS_def)
  moreover have "vf_pc tight = pcache_init" by (simp add: tight_def)
  ultimately show ?thesis using s by (auto simp: layout_ok_def span_ok_def n cache_agrees_def same_file_def)
qed

lemma tight_set:
  "\<exists>salt en1 t. length salt = SALT_BYTES \<and> sys_set_password calm_env some_ctx [112, 119] some_rng (tight\<lparr>vf_pc := pc\<rparr>) = Some (81, en1, t)
     \<and> write_native calm_env 2 (to_hex salt @ [58] @ to_hex (sha256_digest (to_hex salt @ [112, 119]))) (tight\<lparr>vf_pc := pc\<rparr>) = (81, t)"
proof -
  have c0: "length (sh_block some_ctx) = 64" by (simp add: some_ctx_def)
  have w: "ve_wr calm_env x n = None" for x n by (simp add: calm_env_def)
  have sd: "ve_seeding calm_env" by (simp add: calm_env_def)
  have n2: "node_at (tight\<lparr>vf_pc := pc\<rparr>) (int 2) = (node_of ''passwd'' FS_FILE 1)\<lparr>nd_sector := 2050, nd_size := 1\<rparr>"
    by (simp add: node_at_def tight_def demo_node_def)
  have r: "fst (write_native calm_env (int 2) data (tight\<lparr>vf_pc := pc\<rparr>)) = 81" if "length data = 81" for data
    unfolding write_native_def n2 Let_def case_prod_beta using write_secs_ok [OF w] sd that
    by (simp add: nsec_def node_of_def free_slot_def)
  have "same_names tight (tight\<lparr>vf_pc := pc\<rparr>)" by (simp add: same_names_def)
  from passwd_at_names [OF tight_at this] c0 show ?thesis
  proof (cases rule: set_password_cases [where e = calm_env and pw = "[112, 119]" and en = some_rng])
    case (refused en1)
    then show ?thesis using rng_bytes by simp
  next
    case (written salt en1 q t)
    have "length (to_hex salt @ [58] @ to_hex (sha256_digest (to_hex salt @ take PASSWD_MAX_LEN [112, 119]))) = 81"
      using written(1) by (simp add: SALT_BYTES_def)
    from r [OF this] written have "q = 81" by simp
    then show ?thesis using written by (auto simp: PASSWD_MAX_LEN_def)
  qed
qed



text \<open>The password file of \<open>tight\<close> has the old format and holds the one byte 9: \<open>passwd\<close> with
  that byte and a new password changes it and reports a failure.\<close>
theorem passwd_command_misreports_witness:
  "\<exists>en1 t. cmd_passwd calm_env some_ctx (\<lambda>_. 0) [9, 32, 112, 119] some_rng tight = Some (PwFailed, en1, t)
     \<and> fst (sys_verify_password calm_env some_ctx (\<lambda>_. 0) [112, 119] t) = Some True"
proof -
  have c0: "length (sh_block some_ctx) = 64" by (simp add: some_ctx_def)
  have rd: "reads_ok calm_env" by (simp add: reads_ok_def calm_env_def)
  have nat: "native tight 2" using tight_at by (simp add: passwd_at_def)
  have z: "nd_size (vf_node tight 2) = 1" by (simp add: tight_def demo_node_def)
  have c: "content tight 2 = [9]"
    by (simp add: content_def z first_sec_def disk_byte_def) (simp add: tight_def demo_node_def)
  define m where "m = int LINE_LEN + 1"
  have m: "0 < m" by (simp add: m_def)
  obtain res t where r: "read_native calm_env (int 2) m (\<lambda>_. 0) tight = (res, t)" by fastforce
  note R = read_native_content [OF tight_layout nat rd m r]
  have "1 \<le> m" "nat m = Suc (nat (m - 1))" using m by simp_all
  then have res: "res = (1, [9])" using R(1) by (simp add: z c)
  obtain pc where t: "t = tight\<lparr>vf_pc := pc\<rparr>" using R(3) by blast
  have "vfs_read_file calm_env PASSWD_PATH m (\<lambda>_. 0) tight = (res, t)"
    using m nat unfolding vfs_read_file_def passwd_lookup(2) [OF tight_at] Let_def prod.case by (simp add: node_at_def native_def r [simplified])
  then have "read_passwd_file calm_env m (\<lambda>_. 0) tight = ([9], t)" by (simp add: read_passwd_file_def res)
  then have v: "sys_verify_password calm_env some_ctx (\<lambda>_. 0) [9] tight = (Some True, t)"
    by (simp add: sys_verify_password_def m_def [symmetric] c_str_def)
  obtain salt en1 u where w: "length salt = SALT_BYTES" "sys_set_password calm_env some_ctx [112, 119] some_rng t = Some (81, en1, u)"
    "write_native calm_env (int 2) (to_hex salt @ [58] @ to_hex (sha256_digest (to_hex salt @ [112, 119]))) t = (81, u)"
    using tight_set [of pc] t by auto
  have n: "next_token [9, 32, 112, 119] = (Some [9], [112, 119])" "next_token [112, 119] = (Some [112, 119], [])"
    by (simp_all add: next_token_def)
  obtain reply where k: "cmd_passwd calm_env some_ctx (\<lambda>_. 0) [9, 32, 112, 119] some_rng tight = Some (reply, en1, u)" "reply \<in> {PwUpdated, PwFailed}"
    using v w(2) by (simp add: cmd_passwd_def n)
  then have "reply = PwFailed" using passwd_command_misreports [OF tight_at c0 k(1)] by simp
  moreover have "fst (sys_verify_password calm_env some_ctx (\<lambda>_. 0) [112, 119] u) = Some True"
    using new_password_verifies [OF R(2) _ c0 w(1,3) _ rd, of 1 "\<lambda>_. 0" "[112, 119]"] passwd_at_names [OF tight_at, of t]
    by (simp add: t same_names_def)
  ultimately show ?thesis using k by blast
qed

end
