(* ===== verification/Shm.thy ===== *)
theory Shm
  imports Vmm Task
begin

text \<open>
  Shared memory segments of \<open>src/sys/shm.c\<close>: sixteen slots with a key, the frames of the segment
  and a count of the tasks that map it. \<open>ss_bits\<close> are the attachment bits of the task table,
  \<open>ss_vm\<close> is the machine with the frame allocator and the page tables. A section under
  \<open>shm_lock\<close> is one step. \<open>cid\<close> is the processor, \<open>d\<close> the page directory of the calling task
  and \<open>kspace\<close> whether it runs in kernel space.
\<close>

section \<open>State\<close>

definition SHM_MAX_SEGMENTS :: nat where
  "SHM_MAX_SEGMENTS = 16"

definition SHM_MAX_PAGES :: nat where
  "SHM_MAX_PAGES = 256"

definition SHM_BASE :: u32 where
  "SHM_BASE = 0x0A000000"

definition SHM_REGION :: u32 where
  "SHM_REGION = 0x00100000"

definition SHM_IPC_RMID :: int where
  "SHM_IPC_RMID = 0"

text \<open>\<open>sg_frames\<close> are the first \<open>nframes\<close> entries of the array.\<close>

record shm_segment =
  sg_key :: u32
  sg_size :: u32
  sg_frames :: "nat list"
  sg_destroyed :: bool
  sg_attach :: int

record shm_sys =
  ss_seg :: "nat \<Rightarrow> shm_segment"
  ss_bits :: "int \<Rightarrow> u32"
  ss_vm :: vmm

definition upd_seg :: "nat \<Rightarrow> (shm_segment \<Rightarrow> shm_segment) \<Rightarrow> shm_sys \<Rightarrow> shm_sys" where
  "upd_seg i f s = s\<lparr>ss_seg := (ss_seg s)(i := f (ss_seg s i))\<rparr>"

definition task_get_shm_bits :: "int \<Rightarrow> shm_sys \<Rightarrow> u32" where
  "task_get_shm_bits t s = (if t < 0 \<or> t \<ge> MAX_TASKS then 0 else ss_bits s t)"

definition task_set_shm_bits :: "int \<Rightarrow> u32 \<Rightarrow> shm_sys \<Rightarrow> shm_sys" where
  "task_set_shm_bits t b s = (if t < 0 \<or> t \<ge> MAX_TASKS then s else s\<lparr>ss_bits := (ss_bits s)(t := b)\<rparr>)"

section \<open>Frames of a segment\<close>

definition shm_free_frames :: "nat \<Rightarrow> nat \<Rightarrow> shm_sys \<Rightarrow> shm_sys" where
  "shm_free_frames cid i s =
     (upd_seg i (\<lambda>g. g\<lparr>sg_frames := []\<rparr>) s)
       \<lparr>ss_vm := fold (\<lambda>p v. if p \<noteq> 0 then phys_free cid p v else v) (sg_frames (ss_seg s i)) (ss_vm s)\<rparr>"

fun shm_alloc_frames :: "nat \<Rightarrow> nat \<Rightarrow> vmm \<Rightarrow> nat list \<times> vmm" where
  "shm_alloc_frames cid 0 v = ([], v)"
| "shm_alloc_frames cid (Suc n) v =
     (let (p, v1) = phys_alloc cid v
      in if p = 0 then ([], v1) else (let (ps, v2) = shm_alloc_frames cid n v1 in (p # ps, v2)))"

section \<open>The calls\<close>

definition shm_get :: "nat \<Rightarrow> u32 \<Rightarrow> u32 \<Rightarrow> shm_sys \<Rightarrow> int \<times> shm_sys" where
  "shm_get cid key bytes s =
     (if key = 0 \<or> bytes = 0 then (-1, s)
      else (case first_idx (\<lambda>i. sg_key (ss_seg s i) = key) 0 SHM_MAX_SEGMENTS of
              Some i \<Rightarrow> (int i + 1, s)
            | None \<Rightarrow>
                (let pages = unat ((bytes + 4095) div 4096)
                 in if pages > SHM_MAX_PAGES then (-1, s)
                    else (case first_idx (\<lambda>i. sg_key (ss_seg s i) = 0) 0 SHM_MAX_SEGMENTS of
                            None \<Rightarrow> (-1, s)
                          | Some i \<Rightarrow>
                              (let (ps, v1) = shm_alloc_frames cid pages (ss_vm s)
                               in if length ps < pages then (-1, s\<lparr>ss_vm := fold (phys_free cid) ps v1\<rparr>)
                                  else (int i + 1,
                                    (upd_seg i (\<lambda>_. \<lparr>sg_key = key, sg_size = of_nat (pages * 4096), sg_frames = ps, sg_destroyed = False, sg_attach = 0\<rparr>) s)
                                      \<lparr>ss_vm := fold (\<lambda>p. set_frame (p div 4096) (\<lambda>_. 0)) ps v1\<rparr>))))))"

text \<open>Frame by frame from the \<open>i\<close>-th page on: whether all were mapped, and how many.\<close>

fun shm_map :: "nat \<Rightarrow> nat \<Rightarrow> u32 \<Rightarrow> u64 \<Rightarrow> nat \<Rightarrow> nat list \<Rightarrow> vmm \<Rightarrow> bool \<times> nat \<times> vmm" where
  "shm_map cid d va fl i [] v = (True, i, v)"
| "shm_map cid d va fl i (p # ps) v =
     (let (r, v1) = vmm_map_page cid d (va + of_nat (i * 4096)) (of_nat p) fl v
      in if r \<noteq> 0 then (False, i, v1) else shm_map cid d va fl (Suc i) ps (v1\<lparr>vm_fr := bump_ref p (vm_fr v1)\<rparr>))"

text \<open>The table that holds the entry of an address, when there is one, and clearing the entry.\<close>

definition shm_table :: "nat \<Rightarrow> u32 \<Rightarrow> vmm \<Rightarrow> nat option" where
  "shm_table d va v =
     (if present (rd v d (pdpt_index va)) then
        (let pd = entry_frame (rd v d (pdpt_index va))
         in if present (rd v pd (pd_index va)) then Some (entry_frame (rd v pd (pd_index va))) else None)
      else None)"

definition shm_clear :: "nat \<Rightarrow> u32 \<Rightarrow> vmm \<Rightarrow> vmm" where
  "shm_clear d va v = (case shm_table d va v of None \<Rightarrow> v | Some t \<Rightarrow> set_entry t (pt_index va) 0 v)"

definition shm_rollback :: "nat \<Rightarrow> nat \<Rightarrow> u32 \<Rightarrow> nat list \<Rightarrow> vmm \<Rightarrow> vmm" where
  "shm_rollback cid d va ps v =
     fold (\<lambda>(j, p) v. phys_free cid p (shm_clear d (va + of_nat (j * 4096)) v)) (zip [0..<length ps] ps) v"

definition shm_va :: "nat \<Rightarrow> u32" where
  "shm_va i = SHM_BASE + of_nat i * SHM_REGION"

definition shm_flags :: "vmm \<Rightarrow> u64" where
  "shm_flags v = PAGE_PRESENT OR PAGE_RW OR PAGE_USER OR PAGE_SHARED OR (if vm_nx v then PAGE_NX else 0)"

text \<open>The result is the base address, 0 on failure.\<close>

definition shm_at :: "nat \<Rightarrow> bool \<Rightarrow> int \<Rightarrow> nat \<Rightarrow> int \<Rightarrow> shm_sys \<Rightarrow> u32 \<times> shm_sys" where
  "shm_at cid kspace t d shmid s =
     (if shmid < 1 \<or> shmid > int SHM_MAX_SEGMENTS \<or> kspace \<or> d = 0 then (0, s)
      else (let i = nat (shmid - 1); g = ss_seg s i; va = shm_va i
            in if sg_key g = 0 then (0, s)
               else if bit (task_get_shm_bits t s) i then (va, s)
               else (let (ok, n, v1) = shm_map cid d va (shm_flags (ss_vm s)) 0 (sg_frames g) (ss_vm s)
                     in if \<not> ok then (0, s\<lparr>ss_vm := shm_rollback cid d va (take n (sg_frames g)) v1\<rparr>)
                        else (let s1 = upd_seg i (\<lambda>g. g\<lparr>sg_attach := sg_attach g + 1\<rparr>) (s\<lparr>ss_vm := v1\<rparr>)
                              in (va, task_set_shm_bits t (task_get_shm_bits t s1 OR push_bit i 1) s1)))))"

definition shm_unmap :: "nat \<Rightarrow> nat \<Rightarrow> u32 \<Rightarrow> nat list \<Rightarrow> vmm \<Rightarrow> vmm" where
  "shm_unmap cid d va ps v =
     fold (\<lambda>(j, p) v. case shm_table d (va + of_nat (j * 4096)) v of
             None \<Rightarrow> v
           | Some t \<Rightarrow> if present (rd v t (pt_index (va + of_nat (j * 4096))))
               then phys_free cid p (set_entry t (pt_index (va + of_nat (j * 4096))) 0 v) else v) (zip [0..<length ps] ps) v"

text \<open>A destroyed segment without attachments gives its frames back.\<close>

definition shm_reap :: "nat \<Rightarrow> nat \<Rightarrow> shm_sys \<Rightarrow> shm_sys" where
  "shm_reap cid i s =
     (if sg_destroyed (ss_seg s i) \<and> sg_attach (ss_seg s i) = 0
      then upd_seg i (\<lambda>g. g\<lparr>sg_key := 0\<rparr>) (shm_free_frames cid i s) else s)"

definition drop_attach :: "shm_segment \<Rightarrow> shm_segment" where
  "drop_attach g = (if sg_attach g > 0 then g\<lparr>sg_attach := sg_attach g - 1\<rparr> else g)"

definition shm_dt :: "nat \<Rightarrow> bool \<Rightarrow> int \<Rightarrow> nat \<Rightarrow> u32 \<Rightarrow> shm_sys \<Rightarrow> int \<times> shm_sys" where
  "shm_dt cid kspace t d addr s =
     (if addr < SHM_BASE then (-1, s)
      else (let i = unat ((addr - SHM_BASE) div SHM_REGION)
            in if i \<ge> SHM_MAX_SEGMENTS \<or> addr \<noteq> shm_va i \<or> kspace then (-1, s)
               else if sg_key (ss_seg s i) = 0 then (-1, s)
               else if \<not> bit (task_get_shm_bits t s) i then (-1, s)
               else (let s1 = upd_seg i drop_attach (s\<lparr>ss_vm := shm_unmap cid d addr (sg_frames (ss_seg s i)) (ss_vm s)\<rparr>);
                         s2 = task_set_shm_bits t (task_get_shm_bits t s1 AND NOT (push_bit i 1)) s1
                     in (0, shm_reap cid i s2))))"

definition shm_ctl :: "nat \<Rightarrow> int \<Rightarrow> int \<Rightarrow> shm_sys \<Rightarrow> int \<times> shm_sys" where
  "shm_ctl cid shmid cmd s =
     (if shmid < 1 \<or> shmid > int SHM_MAX_SEGMENTS \<or> cmd \<noteq> SHM_IPC_RMID then (-1, s)
      else (let i = nat (shmid - 1)
            in if sg_key (ss_seg s i) = 0 then (-1, s)
               else (0, shm_reap cid i (upd_seg i (\<lambda>g. g\<lparr>sg_destroyed := True\<rparr>) s))))"

definition shm_task_exit :: "nat \<Rightarrow> int \<Rightarrow> shm_sys \<Rightarrow> shm_sys" where
  "shm_task_exit cid t s =
     (let bits = task_get_shm_bits t s
      in if bits = 0 then s
         else for_upto SHM_MAX_SEGMENTS (\<lambda>i s.
                if \<not> bit bits i \<or> sg_key (ss_seg s i) = 0 then s else shm_reap cid i (upd_seg i drop_attach s))
              (task_set_shm_bits t 0 s))"

text \<open>What \<open>task_fork\<close> does with the attachments.\<close>

definition fork_shm :: "int \<Rightarrow> int \<Rightarrow> shm_sys \<Rightarrow> shm_sys" where
  "fork_shm parent child s = s\<lparr>ss_bits := (ss_bits s)(child := ss_bits s parent)\<rparr>"

chapter \<open>The counts of attachments\<close>

text \<open>
  The counts of attachments: a live segment counts exactly the tasks whose bit is set, a free slot
  has no attached task, and a destroyed segment is kept only while some task is attached. The four
  calls and the exit of a task keep this; \<open>task_fork\<close> does not.
\<close>

section \<open>The invariant\<close>

definition attached :: "(int \<Rightarrow> u32) \<Rightarrow> nat \<Rightarrow> int set" where
  "attached b i = {t \<in> {0..<MAX_TASKS}. bit (b t) i}"

definition counted :: "shm_segment \<Rightarrow> int set \<Rightarrow> bool" where
  "counted g A \<longleftrightarrow> (if sg_key g = 0 then A = {} else sg_attach g = int (card A) \<and> (sg_destroyed g \<longrightarrow> A \<noteq> {}))"

definition shm_counts :: "shm_sys \<Rightarrow> bool" where
  "shm_counts s \<longleftrightarrow> (\<forall>i < SHM_MAX_SEGMENTS. counted (ss_seg s i) (attached (ss_bits s) i))"

lemma attached_finite [simp]: "finite (attached b i)"
  by (rule finite_subset [of _ "{0..<MAX_TASKS}"]) (auto simp: attached_def)

lemma attached_set: "0 \<le> t \<Longrightarrow> t < MAX_TASKS \<Longrightarrow>
    attached (b(t := x)) i = (if bit x i then insert t (attached b i) else attached b i - {t})"
  by (auto simp: attached_def)

lemma bit_set: "i < 32 \<Longrightarrow> bit (x OR push_bit i 1 :: u32) j \<longleftrightarrow> bit x j \<or> i = j"
  by (auto simp: bit_simps)

lemma bit_clear: "i < 32 \<Longrightarrow> bit (x AND NOT (push_bit i 1) :: u32) j \<longleftrightarrow> bit x j \<and> i \<noteq> j"
  by (auto simp: bit_simps dest: bit_imp_le_length)

section \<open>What the pieces do to the segments\<close>

lemma upd_seg_fields [simp]:
  "ss_seg (upd_seg i f s) = (ss_seg s)(i := f (ss_seg s i))" "ss_bits (upd_seg i f s) = ss_bits s"
  by (simp_all add: upd_seg_def)

lemma shm_free_fields [simp]:
  "ss_seg (shm_free_frames cid i s) = (ss_seg s)(i := (ss_seg s i)\<lparr>sg_frames := []\<rparr>)"
  "ss_bits (shm_free_frames cid i s) = ss_bits s"
  by (simp_all add: shm_free_frames_def)

definition reaped :: "shm_segment \<Rightarrow> shm_segment" where
  "reaped g = (if sg_destroyed g \<and> sg_attach g = 0 then g\<lparr>sg_frames := [], sg_key := 0\<rparr> else g)"

lemma shm_reap_fields [simp]:
  "ss_seg (shm_reap cid i s) = (ss_seg s)(i := reaped (ss_seg s i))" "ss_bits (shm_reap cid i s) = ss_bits s"
  by (simp_all add: shm_reap_def reaped_def)

text \<open>A task leaves a live segment.\<close>

lemma counted_leave:
  assumes "counted g A" and "t \<in> A" and "finite A" and "sg_key g \<noteq> 0"
  shows "counted (reaped (drop_attach g)) (A - {t})"
proof -
  have c: "sg_attach g = int (card A)" using assms by (simp add: counted_def)
  have "card A > 0" using assms(2,3) card_gt_0_iff by blast
  then have k: "int (card A) - 1 = int (card (A - {t}))" using assms(2,3) by simp
  have d: "drop_attach g = g\<lparr>sg_attach := int (card (A - {t}))\<rparr>" using c k \<open>card A > 0\<close> by (simp add: drop_attach_def)
  have "finite (A - {t})" using assms(3) by simp
  then have e: "card (A - {t}) = 0 \<longleftrightarrow> A - {t} = {}" by simp
  show ?thesis using assms(4) unfolding d by (simp add: counted_def reaped_def e)
qed

lemma counted_reaped: "counted g A \<Longrightarrow> sg_key g \<noteq> 0 \<Longrightarrow> finite A \<Longrightarrow> counted (reaped (g\<lparr>sg_destroyed := True\<rparr>)) A"
  by (auto simp: counted_def reaped_def)

lemma counts_upd:
  assumes "shm_counts s" and "i < SHM_MAX_SEGMENTS \<Longrightarrow> counted (f (ss_seg s i)) (attached (ss_bits w) i)"
    and "ss_seg w = (ss_seg s)(i := f (ss_seg s i))" and "\<And>j. j \<noteq> i \<Longrightarrow> attached (ss_bits w) j = attached (ss_bits s) j"
  shows "shm_counts w"
  using assms by (auto simp: shm_counts_def)

section \<open>The calls keep the counts\<close>

lemma shm_get_counts: "shm_counts s \<Longrightarrow> shm_counts (snd (shm_get cid key bytes s))"
proof -
  assume s: "shm_counts s"
  have e: "shm_counts (s\<lparr>ss_vm := v\<rparr>)" for v using s by (simp add: shm_counts_def)
  have n: "shm_counts ((upd_seg i (\<lambda>_. \<lparr>sg_key = key, sg_size = z, sg_frames = ps, sg_destroyed = False, sg_attach = 0\<rparr>) s)\<lparr>ss_vm := v\<rparr>)"
    if i: "first_idx (\<lambda>i. sg_key (ss_seg s i) = 0) 0 SHM_MAX_SEGMENTS = Some i" and k: "key \<noteq> 0" for i z ps v
  proof (rule counts_upd [OF s, where i = i])
    have "sg_key (ss_seg s i) = 0" "i < SHM_MAX_SEGMENTS" using first_idx_Some [OF i] by simp_all
    then have "attached (ss_bits s) i = {}" using s by (auto simp: shm_counts_def counted_def)
    then show "counted \<lparr>sg_key = key, sg_size = z, sg_frames = ps, sg_destroyed = False, sg_attach = 0\<rparr>
      (attached (ss_bits (upd_seg i (\<lambda>_. \<lparr>sg_key = key, sg_size = z, sg_frames = ps, sg_destroyed = False, sg_attach = 0\<rparr>) s\<lparr>ss_vm := v\<rparr>)) i)"
      using k by (simp add: counted_def)
  qed simp_all
  show ?thesis unfolding shm_get_def Let_def by (auto simp: s e n split: option.splits prod.splits)
qed

lemma shm_at_counts:
  assumes s: "shm_counts s" and t: "0 \<le> t" "t < MAX_TASKS"
  shows "shm_counts (snd (shm_at cid kspace t d shmid s))"
proof -
  have e: "shm_counts (s\<lparr>ss_vm := v\<rparr>)" for v using s by (simp add: shm_counts_def)
  have n: "shm_counts ((upd_seg i (\<lambda>g. g\<lparr>sg_attach := sg_attach g + 1\<rparr>) (s\<lparr>ss_vm := v\<rparr>))\<lparr>ss_bits := (ss_bits s)(t := ss_bits s t OR push_bit i 1)\<rparr>)"
    if i: "i < SHM_MAX_SEGMENTS" and k: "sg_key (ss_seg s i) \<noteq> 0" and b: "\<not> bit (ss_bits s t) i" for i v
  proof (rule counts_upd [OF s, where i = i])
    have i32: "i < 32" using i by (simp add: SHM_MAX_SEGMENTS_def)
    have c: "counted (ss_seg s i) (attached (ss_bits s) i)" using s i by (simp add: shm_counts_def)
    have nt: "t \<notin> attached (ss_bits s) i" using b by (simp add: attached_def)
    show "counted (ss_seg s i\<lparr>sg_attach := sg_attach (ss_seg s i) + 1\<rparr>)
      (attached (ss_bits (upd_seg i (\<lambda>g. g\<lparr>sg_attach := sg_attach g + 1\<rparr>) (s\<lparr>ss_vm := v\<rparr>)\<lparr>ss_bits := (ss_bits s)(t := ss_bits s t OR push_bit i 1)\<rparr>)) i)"
      using c k nt by (simp add: counted_def attached_set [OF t] bit_set [OF i32] del: push_bit_of_1)
    show "attached (ss_bits (upd_seg i (\<lambda>g. g\<lparr>sg_attach := sg_attach g + 1\<rparr>) (s\<lparr>ss_vm := v\<rparr>)\<lparr>ss_bits := (ss_bits s)(t := ss_bits s t OR push_bit i 1)\<rparr>)) j
      = attached (ss_bits s) j" if "j \<noteq> i" for j
      using that t by (auto simp: attached_set [OF t] bit_set [OF i32] attached_def simp del: push_bit_of_1)
  qed (simp_all add: upd_seg_def)
  show ?thesis using t unfolding shm_at_def Let_def
    by (auto simp: s e n task_get_shm_bits_def task_set_shm_bits_def simp del: push_bit_of_1 split: prod.splits)
qed

lemma shm_dt_counts:
  assumes s: "shm_counts s" and t: "0 \<le> t" "t < MAX_TASKS"
  shows "shm_counts (snd (shm_dt cid kspace t d addr s))"
proof -
  have n: "shm_counts (shm_reap cid i ((upd_seg i drop_attach (s\<lparr>ss_vm := v\<rparr>))\<lparr>ss_bits := (ss_bits s)(t := ss_bits s t AND NOT (push_bit i 1))\<rparr>))"
    if i: "i < SHM_MAX_SEGMENTS" and k: "sg_key (ss_seg s i) \<noteq> 0" and b: "bit (ss_bits s t) i" for i v
  proof (rule counts_upd [OF s, where i = i and f = "\<lambda>g. reaped (drop_attach g)"])
    have i32: "i < 32" using i by (simp add: SHM_MAX_SEGMENTS_def)
    have c: "counted (ss_seg s i) (attached (ss_bits s) i)" using s i by (simp add: shm_counts_def)
    have nt: "t \<in> attached (ss_bits s) i" using b t by (simp add: attached_def)
    show "counted (reaped (drop_attach (ss_seg s i)))
      (attached (ss_bits (shm_reap cid i ((upd_seg i drop_attach (s\<lparr>ss_vm := v\<rparr>))\<lparr>ss_bits := (ss_bits s)(t := ss_bits s t AND NOT (push_bit i 1))\<rparr>))) i)"
      using counted_leave [OF c nt attached_finite k] by (simp add: attached_set [OF t] bit_clear [OF i32] del: push_bit_of_1)
    show "attached (ss_bits (shm_reap cid i ((upd_seg i drop_attach (s\<lparr>ss_vm := v\<rparr>))\<lparr>ss_bits := (ss_bits s)(t := ss_bits s t AND NOT (push_bit i 1))\<rparr>))) j
      = attached (ss_bits s) j" if "j \<noteq> i" for j
      using that t by (auto simp: attached_set [OF t] bit_clear [OF i32] attached_def simp del: push_bit_of_1)
  qed (simp_all add: upd_seg_def)
  show ?thesis using t unfolding shm_dt_def Let_def
    by (auto simp: s n task_get_shm_bits_def task_set_shm_bits_def simp del: push_bit_of_1)
qed

lemma shm_ctl_counts: "shm_counts s \<Longrightarrow> shm_counts (snd (shm_ctl cid shmid cmd s))"
proof -
  assume s: "shm_counts s"
  have n: "shm_counts (shm_reap cid i (upd_seg i (\<lambda>g. g\<lparr>sg_destroyed := True\<rparr>) s))" if k: "sg_key (ss_seg s i) \<noteq> 0" for i
  proof (rule counts_upd [OF s, where i = i and f = "\<lambda>g. reaped (g\<lparr>sg_destroyed := True\<rparr>)"])
    assume "i < SHM_MAX_SEGMENTS"
    then have "counted (ss_seg s i) (attached (ss_bits s) i)" using s by (simp add: shm_counts_def)
    then show "counted (reaped (ss_seg s i\<lparr>sg_destroyed := True\<rparr>)) (attached (ss_bits (shm_reap cid i (upd_seg i (\<lambda>g. g\<lparr>sg_destroyed := True\<rparr>) s))) i)"
      using counted_reaped k by simp
  qed simp_all
  show ?thesis unfolding shm_ctl_def Let_def by (auto simp: s n)
qed

section \<open>The exit of a task\<close>

definition leave_one :: "nat \<Rightarrow> u32 \<Rightarrow> nat \<Rightarrow> shm_sys \<Rightarrow> shm_sys" where
  "leave_one cid b i s = (if \<not> bit b i \<or> sg_key (ss_seg s i) = 0 then s else shm_reap cid i (upd_seg i drop_attach s))"

lemma exit_loop: "shm_task_exit cid t s =
    (if task_get_shm_bits t s = 0 then s else for_upto SHM_MAX_SEGMENTS (leave_one cid (task_get_shm_bits t s)) (task_set_shm_bits t 0 s))"
  by (simp add: shm_task_exit_def leave_one_def [abs_def] Let_def)

definition left :: "u32 \<Rightarrow> nat \<Rightarrow> shm_segment \<Rightarrow> shm_segment" where
  "left b i g = (if \<not> bit b i \<or> sg_key g = 0 then g else reaped (drop_attach g))"

lemma leave_run: "ss_bits (for_upto n (leave_one cid b) s) = ss_bits s \<and>
    ss_seg (for_upto n (leave_one cid b) s) = (\<lambda>i. if i < n then left b i (ss_seg s i) else ss_seg s i)"
proof (induction n)
  case (Suc n)
  have "ss_bits (leave_one cid b n s) = ss_bits s \<and> ss_seg (leave_one cid b n s) = (ss_seg s)(n := left b n (ss_seg s n))" for s
    by (simp add: leave_one_def left_def)
  with Suc show ?case by (auto simp: less_Suc_eq)
qed simp

lemma exit_fields:
  assumes t: "0 \<le> t" "t < MAX_TASKS"
  shows "ss_bits (shm_task_exit cid t s) = (ss_bits s)(t := 0)"
    and "i < SHM_MAX_SEGMENTS \<Longrightarrow> ss_seg (shm_task_exit cid t s) i = left (ss_bits s t) i (ss_seg s i)"
  using t by (auto simp: exit_loop leave_run task_get_shm_bits_def task_set_shm_bits_def left_def)

lemma shm_exit_counts:
  assumes s: "shm_counts s" and t: "0 \<le> t" "t < MAX_TASKS"
  shows "shm_counts (shm_task_exit cid t s)"
  unfolding shm_counts_def
proof (intro allI impI)
  fix i assume i: "i < SHM_MAX_SEGMENTS"
  then have c: "counted (ss_seg s i) (attached (ss_bits s) i)" using s by (simp add: shm_counts_def)
  have a: "attached (ss_bits (shm_task_exit cid t s)) i = attached (ss_bits s) i - {t}"
    by (simp add: exit_fields [OF t] attached_set [OF t])
  show "counted (ss_seg (shm_task_exit cid t s) i) (attached (ss_bits (shm_task_exit cid t s)) i)"
  proof (cases "bit (ss_bits s t) i \<and> sg_key (ss_seg s i) \<noteq> 0")
    case True
    then have "t \<in> attached (ss_bits s) i" using t by (simp add: attached_def)
    from counted_leave [OF c this] True show ?thesis by (simp add: a exit_fields(2) [OF t i] left_def)
  next
    case False
    then have "t \<notin> attached (ss_bits s) i" using c by (auto simp: attached_def counted_def split: if_splits)
    then show ?thesis using c False by (auto simp add: a exit_fields(2) [OF t i] left_def)
  qed
qed

section \<open>Runs of the calls\<close>

text \<open>The calls of tasks in the order in which they take the lock.\<close>

datatype shm_call =
    ShmGet nat u32 u32
  | ShmAt nat bool int nat int
  | ShmDt nat bool int nat u32
  | ShmCtl nat int int
  | ShmExit nat int

fun shm_run :: "shm_call \<Rightarrow> shm_sys \<Rightarrow> shm_sys" where
  "shm_run (ShmGet cid key n) s = snd (shm_get cid key n s)"
| "shm_run (ShmAt cid k t d i) s = snd (shm_at cid k t d i s)"
| "shm_run (ShmDt cid k t d a) s = snd (shm_dt cid k t d a s)"
| "shm_run (ShmCtl cid i c) s = snd (shm_ctl cid i c s)"
| "shm_run (ShmExit cid t) s = shm_task_exit cid t s"

fun by_task :: "shm_call \<Rightarrow> bool" where
  "by_task (ShmAt cid k t d i) \<longleftrightarrow> 0 \<le> t \<and> t < MAX_TASKS"
| "by_task (ShmDt cid k t d a) \<longleftrightarrow> 0 \<le> t \<and> t < MAX_TASKS"
| "by_task (ShmExit cid t) \<longleftrightarrow> 0 \<le> t \<and> t < MAX_TASKS"
| "by_task _ \<longleftrightarrow> True"

text \<open>The table as the first call finds it.\<close>

definition shm_boot :: "vmm \<Rightarrow> shm_sys" where
  "shm_boot v = \<lparr>ss_seg = (\<lambda>_. \<lparr>sg_key = 0, sg_size = 0, sg_frames = [], sg_destroyed = False, sg_attach = 0\<rparr>), ss_bits = (\<lambda>_. 0), ss_vm = v\<rparr>"

lemma shm_run_counts: "by_task c \<Longrightarrow> shm_counts s \<Longrightarrow> shm_counts (shm_run c s)"
  by (cases c) (simp_all add: shm_get_counts shm_at_counts shm_dt_counts shm_ctl_counts shm_exit_counts)

lemma shm_boot_counts: "shm_counts (shm_boot v)"
  by (simp add: shm_counts_def shm_boot_def counted_def attached_def)

text \<open>C39: In every run of the calls from the empty table each live segment counts exactly the tasks
  attached to it, a free slot has none, and a destroyed segment stays only while one is.\<close>
theorem shm_attachments_counted: "list_all by_task cs \<Longrightarrow> shm_counts (fold shm_run cs (shm_boot v))"
proof -
  have "list_all by_task cs \<Longrightarrow> shm_counts s \<Longrightarrow> shm_counts (fold shm_run cs s)" for s
    by (induction cs arbitrary: s) (simp_all add: shm_run_counts)
  then show "list_all by_task cs \<Longrightarrow> ?thesis" using shm_boot_counts by blast
qed

section \<open>Fork\<close>

text \<open>The only task attached to a segment forks, the child exits and the segment is removed: the
  segment is given back although the parent is attached, and when a later segment gets the slot,
  the parent counts as attached to that one: \<open>shm_at\<close> reports success and maps nothing.\<close>
theorem fork_uncounted:
  assumes "shm_counts s" and i: "i < SHM_MAX_SEGMENTS" and k: "sg_key (ss_seg s i) \<noteq> 0" and a: "attached (ss_bits s) i = {p}"
    and c: "0 \<le> c" "c < MAX_TASKS" "c \<noteq> p" and w: "w = snd (shm_ctl cid (int i + 1) SHM_IPC_RMID (shm_task_exit cid c (fork_shm p c s)))"
  shows "sg_key (ss_seg w i) = 0 \<and> sg_frames (ss_seg w i) = [] \<and> bit (ss_bits w p) i
    \<and> (\<forall>key bytes u d. key \<noteq> 0 \<longrightarrow> d \<noteq> 0 \<longrightarrow> shm_get cid key bytes w = (int i + 1, u) \<longrightarrow> shm_at cid False p d (int i + 1) u = (shm_va i, u))"
proof -
  define f where "f = fork_shm p c s"
  define x where "x = shm_task_exit cid c f"
  have p: "0 \<le> p" "p < MAX_TASKS" "bit (ss_bits s p) i" using a by (auto simp: attached_def)
  have f: "ss_seg f = ss_seg s" "ss_bits f c = ss_bits s p" "ss_bits f p = ss_bits s p" using c(3) by (simp_all add: f_def fork_shm_def)
  have n: "sg_attach (ss_seg s i) = 1" using assms(1) i k by (simp add: shm_counts_def counted_def a)
  have g: "ss_seg x i = reaped (ss_seg s i\<lparr>sg_attach := 0\<rparr>)"
    using p(3) k n unfolding x_def by (simp add: exit_fields(2) [OF c(1,2) i] f left_def drop_attach_def)
  have b: "bit (ss_bits x p) i" using p(3) c(3) by (simp add: x_def exit_fields(1) [OF c(1,2)] f)
  have ix: "nat (int i + 1 - 1) = i" "int i + 1 \<le> int SHM_MAX_SEGMENTS" using i by simp_all
  have w': "w = (if sg_key (ss_seg x i) = 0 then x else shm_reap cid i (upd_seg i (\<lambda>g. g\<lparr>sg_destroyed := True\<rparr>) x))"
    using ix unfolding w x_def [symmetric] f_def [symmetric] shm_ctl_def Let_def ix(1) by simp
  have W: "sg_key (ss_seg w i) = 0 \<and> sg_frames (ss_seg w i) = []" "ss_bits w = ss_bits x"
    using k by (auto simp: w' g reaped_def)
  have A: "shm_at cid False p d (int i + 1) u = (shm_va i, u)" if "sg_key (ss_seg u i) \<noteq> 0" "ss_bits u = ss_bits x" "d \<noteq> 0" for u d
    using ix(2) that b p unfolding shm_at_def Let_def ix(1) by (simp add: task_get_shm_bits_def)
  have G: "sg_key (ss_seg u i) \<noteq> 0 \<and> ss_bits u = ss_bits w" if "shm_get cid key bytes w = (int i + 1, u)" "key \<noteq> 0" for key bytes u
    using that unfolding shm_get_def Let_def
    by (auto split: if_splits option.splits prod.splits dest: first_idx_holds)
  show ?thesis using W b A G by auto
qed

end
