(* ===== verification/Shm_Props.thy ===== *)
theory Shm_Props
  imports Shm Vmm_Props
begin

text \<open>
  Shared memory: attaching maps exactly the frames of the segment and detaching takes exactly
  them away, whatever the frame allocator does in between, a failed attachment leaves nothing
  behind, and the counts of attachments are right as long as no attached task forks.
\<close>

section \<open>The window of a segment\<close>

lemma unat_page: "i < SHM_MAX_SEGMENTS \<Longrightarrow> j < SHM_MAX_PAGES \<Longrightarrow> unat (page_of (shm_va i + of_nat (j * 4096))) = 0xA000 + i * 256 + j"
proof -
  assume i: "i < SHM_MAX_SEGMENTS" and j: "j < SHM_MAX_PAGES"
  define n where "n = 0x0A000000 + i * 0x100000 + j * 4096"
  have "shm_va i + of_nat (j * 4096) = of_nat n" by (simp add: n_def shm_va_def SHM_BASE_def SHM_REGION_def)
  moreover have "n < 2 ^ LENGTH(32)" using i j by (simp add: n_def SHM_MAX_SEGMENTS_def SHM_MAX_PAGES_def)
  ultimately have "unat (shm_va i + of_nat (j * 4096)) = n" by (simp add: unsigned_of_nat take_bit_nat_eq_self)
  then have "unat (shm_va i + of_nat (j * 4096)) = 0x0A000000 + i * 0x100000 + j * 4096" by (simp only: n_def)
  then show ?thesis by (simp add: page_of_def drop_bit_eq_div unat_div)
qed

lemma window_inj:
  "i < SHM_MAX_SEGMENTS \<Longrightarrow> j < SHM_MAX_PAGES \<Longrightarrow> k < SHM_MAX_PAGES \<Longrightarrow>
     page_of (shm_va i + of_nat (j * 4096)) = page_of (shm_va i + of_nat (k * 4096)) \<Longrightarrow> j = k"
  using unat_page [of i j] unat_page [of i k] by simp

section \<open>The table of an address\<close>

lemma shm_table_pt: "shm_table d va v = pt_of v d (pdpt_index va) (pd_index va)"
  by (simp add: shm_table_def pt_of_def pd_of_def Let_def)

lemma pte_table: "pte_at v d va = (case shm_table d va v of None \<Rightarrow> 0 | Some t \<Rightarrow> rd v t (pt_index va))"
  by (simp add: shm_table_pt pte_at_def pte_of_def)

text \<open>A frame of the segment as the page tables and the caller hold it.\<close>

definition seg_frame :: "vmm \<Rightarrow> nat multiset \<Rightarrow> nat \<Rightarrow> bool" where
  "seg_frame v E p \<longleftrightarrow> (\<exists>f. p = f * 4096 \<and> fr_reserved (vm_fr v) \<le> f \<and> f < 2 ^ 20 \<and> f \<in># E)"

lemma seg_frame_same: "same_boot v w \<Longrightarrow> seg_frame v E p \<Longrightarrow> seg_frame w E p"
  by (simp add: seg_frame_def same_boot_def)

lemma shm_entry:
  assumes "p = f * 4096" and "f < 2 ^ 20"
  shows "entry_frame (pte_of_flags (of_nat p) (shm_flags v)) = f"
    "has (pte_of_flags (of_nat p) (shm_flags v)) PAGE_USER" "\<not> has (pte_of_flags (of_nat p) (shm_flags v)) PAGE_DEV"
proof -
  show "entry_frame (pte_of_flags (of_nat p) (shm_flags v)) = f"
    using pte_of_flags_frame [of p "shm_flags v"] assms by simp
  show "has (pte_of_flags (of_nat p) (shm_flags v)) PAGE_USER" "\<not> has (pte_of_flags (of_nat p) (shm_flags v)) PAGE_DEV"
    unfolding pte_of_flags_has shm_flags_def by (simp_all add: pte_simps bit_or_iff)
qed

section \<open>Mapping the frames of a segment\<close>

text \<open>\<open>mapped v w D d va g n\<close>: in \<open>w\<close> the first \<open>n\<close> pages from \<open>va\<close> on are translated by
  \<open>g\<close>, and every other translation is as in \<open>v\<close>.\<close>

definition mapped :: "vmm \<Rightarrow> vmm \<Rightarrow> nat set \<Rightarrow> nat \<Rightarrow> u32 \<Rightarrow> (nat \<Rightarrow> u64) \<Rightarrow> nat \<Rightarrow> bool" where
  "mapped v w D d va g n \<longleftrightarrow>
     (\<forall>j < n. pte_at w d (va + of_nat (j * 4096)) = g j)
     \<and> (\<forall>d' \<in> D. \<forall>x. (\<forall>j < n. (d', page_of x) \<noteq> (d, page_of (va + of_nat (j * 4096)))) \<longrightarrow> pte_at w d' x = pte_at v d' x)"

lemma mapped_0: "mapped v w D d va g 0 \<longleftrightarrow> same_ptes v D w"
  by (auto simp: mapped_def same_ptes_def)

lemma map_one:
  assumes ok: "vm_ok v D E" and cid: "cid < MAX_CORES" and d: "d \<in> D" and p: "seg_frame v E p" and z: "pte_at v d va = 0"
    and m: "vmm_map_page cid d va (of_nat p) (shm_flags u) v = (r, w)"
  shows "r = 0 \<Longrightarrow> vm_ok (w\<lparr>vm_fr := bump_ref p (vm_fr w)\<rparr>) D E \<and> same_boot v (w\<lparr>vm_fr := bump_ref p (vm_fr w)\<rparr>)
      \<and> sets_pte v D d va (pte_of_flags (of_nat p) (shm_flags u)) (w\<lparr>vm_fr := bump_ref p (vm_fr w)\<rparr>)"
    and "r \<noteq> 0 \<Longrightarrow> vm_ok w D E \<and> same_boot v w \<and> same_ptes v D w"
proof -
  obtain f where f: "p = f * 4096" "fr_reserved (vm_fr v) \<le> f" "f < 2 ^ 20" "f \<in># E" using p by (auto simp: seg_frame_def)
  define e where "e = pte_of_flags (of_nat p) (shm_flags u)"
  note S = shm_entry [OF f(1,3), of u, folded e_def]
  have r: "ref_at v va e = {#f#}"
    by (rule ref_user [OF vm_okD(3) [OF ok] f(2) S(1) _ S(2,3)]) (simp add: e_def)
  have E: "E - {#f#} + {#f#} = E" using f(4) by simp
  then have ok': "vm_ok v D (E - {#f#} + ref_at v va e)" using ok r by simp
  note M = map_page_ok [OF ok' [unfolded e_def] cid d m, folded e_def, unfolded r E z]
  show "r \<noteq> 0 \<Longrightarrow> vm_ok w D E \<and> same_boot v w \<and> same_ptes v D w"
    using M(2) quietD(1,2) quiet_ptes by blast
  assume r0: "r = 0"
  have w: "vm_ok w D (E - {#f#})" "sets_pte v D d va e w" "same_boot v w" "data_kept v D (vrefs v D + E) w (vrefs w D + (E - {#f#}))"
    using M(1) [OF r0] by simp_all
  have nt: "\<not> is_table v D f" using table_unique(3) [OF ok] f(4) by (auto simp: is_table_def)
  have fw: "f \<in># vrefs w D + (E - {#f#})" "\<not> is_table w D f" using w(4) f(4) nt by (simp_all add: data_kept_def)
  have rw: "fr_reserved (vm_fr w) \<le> f" using w(3) f(2) by (simp add: same_boot_def)
  note B = share_step [OF w(1) rw fw refl]
  have "add_mset f (E - {#f#}) = E" using f(4) by simp
  moreover have "pte_at (w\<lparr>vm_fr := fr\<rparr>) d' x = pte_at w d' x" for d' x fr
    by (simp add: pte_at_def pte_of_def pt_of_def pd_of_def)
  ultimately show "vm_ok (w\<lparr>vm_fr := bump_ref p (vm_fr w)\<rparr>) D E \<and> same_boot v (w\<lparr>vm_fr := bump_ref p (vm_fr w)\<rparr>)
      \<and> sets_pte v D d va (pte_of_flags (of_nat p) (shm_flags u)) (w\<lparr>vm_fr := bump_ref p (vm_fr w)\<rparr>)"
    using B(1) same_boot_trans [OF w(3) B(2)] w(2) unfolding f(1) [symmetric] e_def [symmetric] by (simp add: sets_pte_def)
qed

text \<open>Addresses on the pages of a window, as far as they are apart.\<close>

definition pages_apart :: "u32 \<Rightarrow> nat \<Rightarrow> bool" where
  "pages_apart va n \<longleftrightarrow> (\<forall>j < n. \<forall>k < n. page_of (va + of_nat (j * 4096)) = page_of (va + of_nat (k * 4096)) \<longrightarrow> j = k)"

lemma pages_apartD: "pages_apart va n \<Longrightarrow> j < n \<Longrightarrow> k < n \<Longrightarrow> j \<noteq> k \<Longrightarrow> page_of (va + of_nat (j * 4096)) \<noteq> page_of (va + of_nat (k * 4096))"
  unfolding pages_apart_def by blast

lemma mapped_step:
  assumes m: "mapped v u D d va g i" and s: "sets_pte u D d (va + of_nat (i * 4096)) (g i) w"
    and a: "pages_apart va n" and i: "i < n" and d: "d \<in> D"
  shows "mapped v w D d va g (Suc i)"
  unfolding mapped_def
proof (intro conjI allI impI ballI)
  fix j assume j: "j < Suc i"
  show "pte_at w d (va + of_nat (j * 4096)) = g j"
  proof (cases "j = i")
    case True
    then show ?thesis using s by (simp add: sets_pte_def)
  next
    case False
    then have "page_of (va + of_nat (j * 4096)) \<noteq> page_of (va + of_nat (i * 4096))" using pages_apartD [OF a, of j i] i j by simp
    then have "pte_at w d (va + of_nat (j * 4096)) = pte_at u d (va + of_nat (j * 4096))" using s d by (simp add: sets_pte_def)
    then show ?thesis using m j False by (simp add: mapped_def)
  qed
next
  fix d' x assume d': "d' \<in> D" and ne: "\<forall>j < Suc i. (d', page_of x) \<noteq> (d, page_of (va + of_nat (j * 4096)))"
  then have "pte_at w d' x = pte_at u d' x" using s by (simp add: sets_pte_def)
  then show "pte_at w d' x = pte_at v d' x" using m d' ne by (simp add: mapped_def)
qed

definition seg_ptes :: "vmm \<Rightarrow> nat list \<Rightarrow> nat \<Rightarrow> u64" where
  "seg_ptes s ps j = pte_of_flags (of_nat (ps ! j)) (shm_flags s)"

lemma shm_map_run:
  assumes cid: "cid < MAX_CORES" and d: "d \<in> D" and a: "pages_apart va (length ps)" and z: "\<And>j. j < length ps \<Longrightarrow> pte_at v d (va + of_nat (j * 4096)) = 0"
  shows "vm_ok u D E \<Longrightarrow> same_boot v u \<Longrightarrow> mapped v u D d va (seg_ptes s ps) i \<Longrightarrow> (\<And>p. p \<in> set ps \<Longrightarrow> seg_frame v E p) \<Longrightarrow>
      i \<le> length ps \<Longrightarrow> qs = drop i ps \<Longrightarrow> shm_map cid d va (shm_flags s) i qs u = (good, n, w) \<Longrightarrow>
      vm_ok w D E \<and> same_boot v w \<and> mapped v w D d va (seg_ptes s ps) n \<and> n \<le> length ps \<and> (good \<longrightarrow> n = length ps)"
proof (induction qs arbitrary: i u)
  case Nil
  then show ?case by simp
next
  case (Cons q qs)
  have l: "i < length ps" using Cons.prems(6) by (cases "i < length ps") simp_all
  then have "q # qs = ps ! i # drop (Suc i) ps" using Cons.prems(6) Cons_nth_drop_Suc [OF l] by simp
  then have i: "i < length ps" "ps ! i = q" "qs = drop (Suc i) ps" using l by simp_all
  obtain r u1 where m: "vmm_map_page cid d (va + of_nat (i * 4096)) (of_nat q) (shm_flags s) u = (r, u1)" by fastforce
  have sf: "seg_frame u E q" by (rule seg_frame_same [OF Cons.prems(2) Cons.prems(4)]) (use i(1,2) in auto)
  have zu: "pte_at u d (va + of_nat (i * 4096)) = 0"
  proof -
    have "\<forall>j < i. (d, page_of (va + of_nat (i * 4096))) \<noteq> (d, page_of (va + of_nat (j * 4096)))"
      using pages_apartD [OF a, of i] i(1) by simp
    then have "pte_at u d (va + of_nat (i * 4096)) = pte_at v d (va + of_nat (i * 4096))"
      using Cons.prems(3) d unfolding mapped_def by blast
    then show ?thesis using z i(1) by simp
  qed
  note M = map_one [OF Cons.prems(1) cid d sf zu m]
  show ?case
  proof (cases "r = 0")
    case True
    define u2 where "u2 = u1\<lparr>vm_fr := bump_ref q (vm_fr u1)\<rparr>"
    have u2: "vm_ok u2 D E" "same_boot v u2" "sets_pte u D d (va + of_nat (i * 4096)) (seg_ptes s ps i) u2"
      using M(1) [OF True] same_boot_trans [OF Cons.prems(2)] i(2) by (simp_all add: u2_def seg_ptes_def)
    have "shm_map cid d va (shm_flags s) (Suc i) qs u2 = (good, n, w)" using Cons.prems(7) m True by (simp add: u2_def)
    from Cons.IH [OF u2(1,2) mapped_step [OF Cons.prems(3) u2(3) a i(1) d] Cons.prems(4) _ i(3) this] i(1) show ?thesis by simp
  next
    case False
    then have "\<not> good" "n = i" "w = u1" using Cons.prems(7) m by simp_all
    moreover have "mapped v u1 D d va (seg_ptes s ps) i"
      using Cons.prems(3) M(2) [OF False] d by (auto simp: mapped_def same_ptes_def)
    ultimately show ?thesis using M(2) [OF False] same_boot_trans [OF Cons.prems(2)] Cons.prems(5) by simp
  qed
qed

section \<open>Taking them away\<close>

lemma unmap_one:
  assumes ok: "vm_ok v D E" and cid: "cid < MAX_CORES" and d: "d \<in> D" and p: "seg_frame v E p"
    and e: "pte_at v d va = pte_of_flags (of_nat p) (shm_flags u)"
  shows "\<exists>t. shm_table d va v = Some t \<and> present (rd v t (pt_index va))
    \<and> vm_ok (phys_free cid p (set_entry t (pt_index va) 0 v)) D E \<and> same_boot v (phys_free cid p (set_entry t (pt_index va) 0 v))
    \<and> sets_pte v D d va 0 (phys_free cid p (set_entry t (pt_index va) 0 v))"
proof -
  obtain f where f: "p = f * 4096" "fr_reserved (vm_fr v) \<le> f" "f < 2 ^ 20" using p by (auto simp: seg_frame_def)
  note S = shm_entry [OF f(1,3), of u]
  have pr: "present (pte_at v d va)" by (simp add: e)
  then obtain t where t: "shm_table d va v = Some t" "pte_at v d va = rd v t (pt_index va)"
    by (auto simp: pte_table split: option.splits)
  have r: "ref_at v va (pte_at v d va) = {#f#}"
    unfolding e by (rule ref_user [OF vm_okD(3) [OF ok] f(2) S(1) _ S(2,3)]) simp
  have "vm_ok v D (E + ref_at v va 0)" using ok by simp
  note W = write_pte [OF this d t(1) [unfolded shm_table_pt] refl, unfolded r]
  have w: "vm_ok (set_entry t (pt_index va) 0 v) D (add_mset f E)" using W(1) by simp
  note F = free_step [OF w cid]
  have "pte_at (phys_free cid p x) d' y = pte_at x d' y" for x d' y
    by (simp add: pte_at_def pte_of_def pt_of_def pd_of_def phys_free_def)
  then show ?thesis using t pr F(1,2) same_boot_trans [OF W(2)] W(3) unfolding f(1) [symmetric]
    by (intro exI [of _ t]) (simp add: sets_pte_def)
qed

lemma unmap_run:
  assumes cid: "cid < MAX_CORES" and d: "d \<in> D" and a: "pages_apart va n" and n: "length ps = n"
    and F: "\<And>j p v t. shm_table d (va + of_nat (j * 4096)) v = Some t \<Longrightarrow> present (rd v t (pt_index (va + of_nat (j * 4096)))) \<Longrightarrow>
        F (j, p) v = phys_free cid p (set_entry t (pt_index (va + of_nat (j * 4096))) 0 v)"
    and e: "\<And>j. j < n \<Longrightarrow> pte_at v d (va + of_nat (j * 4096)) = seg_ptes s ps j" and sf: "\<And>p. p \<in> set ps \<Longrightarrow> seg_frame v E p"
  shows "vm_ok u D E \<Longrightarrow> same_boot v u \<Longrightarrow> mapped v u D d va (\<lambda>_. 0) i \<Longrightarrow> i \<le> n \<Longrightarrow> w = fold F (zip [i..<n] (drop i ps)) u \<Longrightarrow>
      vm_ok w D E \<and> same_boot v w \<and> mapped v w D d va (\<lambda>_. 0) n"
proof (induction "n - i" arbitrary: i u)
  case 0
  then show ?case by simp
next
  case (Suc k)
  then have i: "i < n" by simp
  have z: "zip [i..<n] (drop i ps) = (i, ps ! i) # zip [Suc i..<n] (drop (Suc i) ps)"
    using i n by (simp add: upt_conv_Cons Cons_nth_drop_Suc [symmetric])
  have "\<forall>j < i. (d, page_of (va + of_nat (i * 4096))) \<noteq> (d, page_of (va + of_nat (j * 4096)))" using pages_apartD [OF a, of i] i by simp
  then have "pte_at u d (va + of_nat (i * 4096)) = pte_at v d (va + of_nat (i * 4096))"
    using Suc.prems(3) d unfolding mapped_def by blast
  then have eu: "pte_at u d (va + of_nat (i * 4096)) = pte_of_flags (of_nat (ps ! i)) (shm_flags s)" using e [OF i] by (simp add: seg_ptes_def)
  have "seg_frame u E (ps ! i)" by (rule seg_frame_same [OF Suc.prems(2) sf]) (use i n in simp)
  from unmap_one [OF Suc.prems(1) cid d this eu] obtain t
    where t: "shm_table d (va + of_nat (i * 4096)) u = Some t" "present (rd u t (pt_index (va + of_nat (i * 4096))))"
      "vm_ok (F (i, ps ! i) u) D E" "same_boot u (F (i, ps ! i) u)" "sets_pte u D d (va + of_nat (i * 4096)) 0 (F (i, ps ! i) u)"
    using F by auto
  have k: "k = n - Suc i" "Suc i \<le> n" using Suc.hyps(2) i by simp_all
  show ?case
    by (rule Suc.hyps(1) [OF k(1) t(3) same_boot_trans [OF Suc.prems(2) t(4)] mapped_step [OF Suc.prems(3) t(5) a i d] k(2)])
      (use Suc.prems(5) z in simp)
qed

section \<open>Attaching and detaching\<close>

lemma window_apart: "i < SHM_MAX_SEGMENTS \<Longrightarrow> n \<le> SHM_MAX_PAGES \<Longrightarrow> pages_apart (shm_va i) n"
  unfolding pages_apart_def using window_inj by simp

lemma shm_flags_same: "shm_flags v = shm_flags w \<longleftrightarrow> vm_nx v = vm_nx w"
  by (auto simp: shm_flags_def dest: arg_cong [where f = "\<lambda>x. bit x 63"] simp: pte_simps bit_or_iff)

lemma mapped_back:
  assumes m: "mapped v u D d va g n" and k: "mapped u w D d va (\<lambda>_. 0) n" and z: "\<And>j. j < n \<Longrightarrow> pte_at v d (va + of_nat (j * 4096)) = 0"
  shows "same_ptes v D w"
proof -
  have "pte_at w d' x = pte_at v d' x" if d': "d' \<in> D" for d' x
  proof (cases "\<exists>j < n. (d', page_of x) = (d, page_of (va + of_nat (j * 4096)))")
    case True
    then obtain j where j: "j < n" "d' = d" "page_of x = page_of (va + of_nat (j * 4096))" by auto
    have e: "pte_at y d x = pte_at y d (va + of_nat (j * 4096))" for y using index_page [OF j(3)] by (simp add: pte_at_def)
    show ?thesis using k j z by (simp add: mapped_def e)
  next
    case False
    then show ?thesis using k m d' by (simp add: mapped_def)
  qed
  then show ?thesis by (simp add: same_ptes_def)
qed

text \<open>A live segment: its frames are held by the caller of the page tables.\<close>

definition seg_ok :: "vmm \<Rightarrow> nat multiset \<Rightarrow> shm_segment \<Rightarrow> bool" where
  "seg_ok v E g \<longleftrightarrow> sg_key g \<noteq> 0 \<and> length (sg_frames g) \<le> SHM_MAX_PAGES \<and> (\<forall>p \<in> set (sg_frames g). seg_frame v E p)"

text \<open>Attaching a segment to a space with nothing in the window either shows exactly its frames
  there, with one reference each for the page table, or leaves every translation and every
  reference as it was.\<close>

lemma shm_at_ok:
  assumes ok: "vm_ok (ss_vm s) D E" and cid: "cid < MAX_CORES" and d: "d \<in> D" and t: "0 \<le> t" "t < MAX_TASKS"
    and i: "i < SHM_MAX_SEGMENTS" and g: "seg_ok (ss_vm s) E (ss_seg s i)" and nb: "\<not> bit (ss_bits s t) i"
    and z: "\<And>j. j < length (sg_frames (ss_seg s i)) \<Longrightarrow> pte_at (ss_vm s) d (shm_va i + of_nat (j * 4096)) = 0"
    and a: "shm_at cid False t d (int i + 1) s = (r, w)"
  shows "vm_ok (ss_vm w) D E \<and> same_boot (ss_vm s) (ss_vm w)
    \<and> (if r = 0 then same_ptes (ss_vm s) D (ss_vm w) \<and> ss_seg w = ss_seg s \<and> ss_bits w = ss_bits s
       else r = shm_va i
         \<and> mapped (ss_vm s) (ss_vm w) D d (shm_va i) (seg_ptes (ss_vm s) (sg_frames (ss_seg s i))) (length (sg_frames (ss_seg s i)))
         \<and> ss_seg w = (ss_seg s)(i := (ss_seg s i)\<lparr>sg_attach := sg_attach (ss_seg s i) + 1\<rparr>)
         \<and> ss_bits w = (ss_bits s)(t := ss_bits s t OR push_bit i 1))"
proof -
  define ps where "ps = sg_frames (ss_seg s i)"
  define va where "va = shm_va i"
  have d0: "d \<noteq> 0" using table_range(4) [OF ok, of "Root d" d] d by simp
  have va0: "va \<noteq> 0"
  proof
    assume "va = 0"
    then have "page_of (va + of_nat (0 * 4096)) = 0" by (simp add: page_of_def)
    then show False using unat_page [OF i, of 0] by (simp add: va_def SHM_MAX_PAGES_def)
  qed
  have gk: "sg_key (ss_seg s i) \<noteq> 0" "length ps \<le> SHM_MAX_PAGES" and gf: "\<And>p. p \<in> set ps \<Longrightarrow> seg_frame (ss_vm s) E p"
    using g by (simp_all add: seg_ok_def ps_def)
  have ap: "pages_apart va (length ps)" unfolding va_def by (rule window_apart [OF i gk(2)])
  have zz: "pte_at (ss_vm s) d (va + of_nat (j * 4096)) = 0" if "j < length ps" for j using z that by (simp add: va_def ps_def)
  obtain good n v1 where m: "shm_map cid d va (shm_flags (ss_vm s)) 0 ps (ss_vm s) = (good, n, v1)" by (metis prod_cases3)
  have m0: "mapped (ss_vm s) (ss_vm s) D d va (seg_ptes (ss_vm s) ps) 0" by (simp add: mapped_0 same_ptes_def)
  have R: "vm_ok v1 D E \<and> same_boot (ss_vm s) v1 \<and> mapped (ss_vm s) v1 D d va (seg_ptes (ss_vm s) ps) n \<and> n \<le> length ps \<and> (good \<longrightarrow> n = length ps)"
    by (rule shm_map_run [OF cid d ap zz ok same_boot_refl m0 gf _ _ m]) simp_all
  have ix: "nat (int i + 1 - 1) = i" "int i + 1 \<le> int SHM_MAX_SEGMENTS" using i by simp_all
  have u: "(r, w) = (if \<not> good then (0, s\<lparr>ss_vm := shm_rollback cid d va (take n ps) v1\<rparr>)
      else (va, s\<lparr>ss_vm := v1, ss_seg := (ss_seg s)(i := (ss_seg s i)\<lparr>sg_attach := sg_attach (ss_seg s i) + 1\<rparr>),
                 ss_bits := (ss_bits s)(t := ss_bits s t OR push_bit i 1)\<rparr>))"
    using a i gk(1) d0 nb t m unfolding shm_at_def Let_def ix(1)
    by (simp add: ix(2) ps_def [symmetric] va_def [symmetric] task_get_shm_bits_def task_set_shm_bits_def upd_seg_def split: if_splits del: push_bit_of_1)
  show ?thesis
  proof (cases good)
    case True
    then show ?thesis using u R va0 by (auto simp: va_def ps_def)
  next
    case False
    define v2 where "v2 = shm_rollback cid d va (take n ps) v1"
    define F where "F = (\<lambda>(j, p) v. phys_free cid p (shm_clear d (va + of_nat (j * 4096)) v))"
    have n: "n \<le> length ps" using R by simp
    have an: "pages_apart va n" using ap n by (simp add: pages_apart_def)
    have v2: "v2 = fold F (zip [0..<n] (drop 0 (take n ps))) v1" using n by (simp add: v2_def shm_rollback_def F_def min_def)
    have "vm_ok v2 D E \<and> same_boot v1 v2 \<and> mapped v1 v2 D d va (\<lambda>_. 0) n"
    proof (rule unmap_run [OF cid d an _ _ _ _ _ same_boot_refl _ _ v2, where s = "ss_vm s"])
      show "F (j, p) v = phys_free cid p (set_entry t (pt_index (va + of_nat (j * 4096))) 0 v)"
        if "shm_table d (va + of_nat (j * 4096)) v = Some t" for j p v t using that by (simp add: F_def shm_clear_def)
      show "pte_at v1 d (va + of_nat (j * 4096)) = seg_ptes (ss_vm s) (take n ps) j" if "j < n" for j
        using R that by (simp add: mapped_def seg_ptes_def)
      show "seg_frame v1 E p" if "p \<in> set (take n ps)" for p
        using seg_frame_same [of "ss_vm s" v1 E p] R gf in_set_takeD [OF that] by blast
    qed (use R n in \<open>simp_all add: mapped_0 same_ptes_def\<close>)
    moreover have "same_ptes (ss_vm s) D v2" 
      by (rule mapped_back [of "ss_vm s" v1 D d va "seg_ptes (ss_vm s) ps" n v2]) (use R calculation zz n in simp_all)
    ultimately show ?thesis using u False R same_boot_trans [of "ss_vm s" v1 v2] by (simp add: v2_def)
  qed
qed

lemma shm_dt_ok:
  assumes ok: "vm_ok (ss_vm s) D E" and cid: "cid < MAX_CORES" and d: "d \<in> D" and t: "0 \<le> t" "t < MAX_TASKS"
    and i: "i < SHM_MAX_SEGMENTS" and g: "seg_ok (ss_vm s) E (ss_seg s i)" and b: "bit (ss_bits s t) i"
    and m: "\<And>j. j < length (sg_frames (ss_seg s i)) \<Longrightarrow> pte_at (ss_vm s) d (shm_va i + of_nat (j * 4096)) = seg_ptes u (sg_frames (ss_seg s i)) j"
    and l: "sg_attach (ss_seg s i) > 0" "\<not> (sg_destroyed (ss_seg s i) \<and> sg_attach (ss_seg s i) = 1)"
    and a: "shm_dt cid False t d (shm_va i) s = (r, w)"
  shows "r = 0 \<and> vm_ok (ss_vm w) D E \<and> mapped (ss_vm s) (ss_vm w) D d (shm_va i) (\<lambda>_. 0) (length (sg_frames (ss_seg s i)))
    \<and> ss_seg w = (ss_seg s)(i := (ss_seg s i)\<lparr>sg_attach := sg_attach (ss_seg s i) - 1\<rparr>)
    \<and> ss_bits w = (ss_bits s)(t := ss_bits s t AND NOT (push_bit i 1))"
proof -
  define ps where "ps = sg_frames (ss_seg s i)"
  define v2 where "v2 = shm_unmap cid d (shm_va i) ps (ss_vm s)"
  define F where "F = (\<lambda>(j, p) v. case shm_table d (shm_va i + of_nat (j * 4096)) v of None \<Rightarrow> v
      | Some tb \<Rightarrow> if present (rd v tb (pt_index (shm_va i + of_nat (j * 4096))))
         then phys_free cid p (set_entry tb (pt_index (shm_va i + of_nat (j * 4096))) 0 v) else v)"
  have gk: "sg_key (ss_seg s i) \<noteq> 0" "length ps \<le> SHM_MAX_PAGES" and gf: "\<And>p. p \<in> set ps \<Longrightarrow> seg_frame (ss_vm s) E p"
    using g by (simp_all add: seg_ok_def ps_def)
  have v: "v2 = fold F (zip [0..<length ps] (drop 0 ps)) (ss_vm s)" by (simp add: v2_def shm_unmap_def F_def)
  have "vm_ok v2 D E \<and> same_boot (ss_vm s) v2 \<and> mapped (ss_vm s) v2 D d (shm_va i) (\<lambda>_. 0) (length ps)"
    by (rule unmap_run [OF cid d window_apart [OF i gk(2)] refl _ _ gf ok same_boot_refl _ _ v, where s = u])
      (use m in \<open>simp_all add: F_def mapped_0 same_ptes_def ps_def\<close>)
  moreover have "unat ((shm_va i - SHM_BASE) div SHM_REGION) = i" "\<not> shm_va i < SHM_BASE"
  proof -
    have n: "0x0A000000 + i * 0x100000 < 2 ^ LENGTH(32)" "i * 0x100000 < 2 ^ LENGTH(32)" using i by (simp_all add: SHM_MAX_SEGMENTS_def)
    have e: "shm_va i = of_nat (0x0A000000 + i * 0x100000)" by (simp add: shm_va_def SHM_BASE_def SHM_REGION_def)
    have "unat (shm_va i) = 0x0A000000 + i * 0x100000" unfolding e using n(1) by (simp only: unsigned_of_nat take_bit_nat_eq_self of_nat_id)
    then show "\<not> shm_va i < SHM_BASE" by (simp add: word_less_nat_alt SHM_BASE_def)
    have e2: "of_nat i * SHM_REGION = of_nat (i * 0x100000)" by (simp add: SHM_REGION_def)
    have "unat (of_nat i * SHM_REGION) = i * 0x100000"
      unfolding e2 using n(2) by (simp only: unsigned_of_nat take_bit_nat_eq_self of_nat_id)
    then show "unat ((shm_va i - SHM_BASE) div SHM_REGION) = i" by (simp add: shm_va_def unat_div) (simp add: SHM_REGION_def)
  qed
  moreover have "ss_seg (shm_reap cid i x) = ss_seg x \<and> ss_bits (shm_reap cid i x) = ss_bits x \<and> ss_vm (shm_reap cid i x) = ss_vm x"
    if "\<not> (sg_destroyed (ss_seg x i) \<and> sg_attach (ss_seg x i) = 0)" for x using that by (auto simp: shm_reap_def)
  ultimately show ?thesis
    using a i gk(1) b t l unfolding shm_dt_def Let_def
    by (auto simp: task_get_shm_bits_def task_set_shm_bits_def upd_seg_def drop_attach_def v2_def ps_def shm_reap_def simp del: push_bit_of_1)
qed


text \<open>The small machine with a segment of one frame, 8, in the first slot; task 3 has the page
  directory of frame 4.\<close>

definition wseg :: shm_segment where
  "wseg = \<lparr>sg_key = 7, sg_size = 4096, sg_frames = [8 * 4096], sg_destroyed = False, sg_attach = 0\<rparr>"

definition wshm :: shm_sys where
  "wshm = (shm_boot wvm)\<lparr>ss_seg := (ss_seg (shm_boot wvm))(0 := wseg)\<rparr>"

lemma wshm_fields: "ss_vm wshm = wvm" "ss_seg wshm 0 = wseg" "ss_bits wshm = (\<lambda>_. 0)"
  by (simp_all add: wshm_def shm_boot_def)

lemma wseg_frame: "seg_frame wvm wrest (8 * 4096)"
  unfolding seg_frame_def by (rule exI [of _ 8]) (simp add: wvm_fr wrest_def)

lemma wseg_ok: "seg_ok wvm wrest wseg"
  unfolding seg_ok_def using wseg_frame by (simp add: wseg_def SHM_MAX_PAGES_def)

lemma wseg_index: "pdpt_index (shm_va 0) = 0" "pd_index (shm_va 0) = 80" "pt_index (shm_va 0) = 0"
  by (simp_all add: shm_va_def SHM_BASE_def SHM_REGION_def pdpt_index_def pd_index_def pt_index_def drop_bit_eq_div)

lemma wvm_dir: "present (rd wvm 4 0)" "entry_frame (rd wvm 4 0) = 5" "rd wvm 5 80 = 0"
  using wtab_walk by (simp_all add: wvm_def) (simp add: wtab_def wdir_def)

lemma wseg_free: "pte_at wvm 4 (shm_va 0) = 0"
  using wvm_dir by (simp add: pte_table shm_table_def wseg_index)

lemma wvm_maps: "fst (vmm_map_page 0 4 (shm_va 0) pa fl wvm) = 0"
proof -
  have "space_pd 0 4 (shm_va 0) True wvm = (5, wvm)" using wvm_dir by (simp add: space_pd_def wseg_index)
  moreover have "entry_frame (of_nat (31 * 4096) OR PAGE_PRESENT OR PAGE_RW) = 31" using walk_entry(4) [of 31] by simp
  ultimately have "fst (space_pt 0 4 (shm_va 0) True u wvm) = 31" for u
    using wvm_dir(3) by (simp add: space_pt_def wseg_index wvm_alloc Let_def widen_def entry_frame_flags)
  then show ?thesis by (simp add: vmm_map_page_def case_prod_beta)
qed


text \<open>Task 3 attaches to the segment, forks task 4 and the child exits.\<close>
theorem fork_uncounted_witness:
  "\<exists>s. attached (ss_bits s) 0 = {3} \<and> sg_frames (ss_seg s 0) = [8 * 4096]
     \<and> sg_frames (ss_seg (snd (shm_ctl 0 1 SHM_IPC_RMID (shm_task_exit 0 4 (fork_shm 3 4 s)))) 0) = []"
proof -
  define s where "s = wshm\<lparr>ss_bits := (\<lambda>_. 0)(3 := 1), ss_seg := (ss_seg wshm)(0 := wseg\<lparr>sg_attach := 1\<rparr>)\<rparr>"
  have a: "attached (ss_bits s) i = (if i = 0 then {3} else {})" for i by (auto simp: s_def attached_def MAX_TASKS_def bit_1_iff)
  have c: "shm_counts s" unfolding shm_counts_def a by (auto simp: s_def counted_def wseg_def wshm_def shm_boot_def)
  have i: "0 < SHM_MAX_SEGMENTS" "sg_key (ss_seg s 0) \<noteq> 0" "(0::int) \<le> 4" "4 < MAX_TASKS" "(4::int) \<noteq> 3"
    by (simp_all add: SHM_MAX_SEGMENTS_def s_def wseg_def MAX_TASKS_def)
  have "attached (ss_bits s) 0 = {3}" by (simp add: a)
  from fork_uncounted [OF c i(1,2) this i(3-5) refl] this show ?thesis
    by (intro exI [of _ s]) (simp add: s_def wseg_def)
qed

text \<open>Two tasks attach to a segment, the owner removes it and both leave.\<close>
theorem shm_attachments_counted_witness:
  "shm_counts (fold shm_run [ShmGet 0 7 100, ShmAt 0 False 3 4 1, ShmAt 0 False 5 6 1, ShmCtl 0 1 0, ShmExit 0 3,
     ShmDt 0 False 5 6 SHM_BASE] (shm_boot wvm))"
  by (rule shm_attachments_counted) (simp add: MAX_TASKS_def)

end
