(* ===== verification/Spec2Isabelle.thy ===== *)
theory Spec2Isabelle
  imports Klog Clipboard Blkcache Ata Phys_Findings Heap_Props Vmm_Findings Task_Claims Sync_Props Ipc_Props Fd_Props Passwd Shm_Props
begin

text \<open>
  \<^bold>\<open>Mectov OS: a verification library for its kernel\<close>

  Mectov OS is a 32-bit x86 kernel in C (\<open>src/\<close> of the repository) for several processors, with
  a file system, Ring 3 programs and a desktop. The library models the core of the kernel and
  proves what its components promise one another. Paths below are relative to \<open>src/\<close>.

  \<^bold>\<open>The program.\<close> \<open>sys/vmm.c\<close> hands out physical frames from buddy lists behind per-CPU caches
  and builds the page tables of the address spaces; \<open>sys/mem.c\<close> is the kernel heap. \<open>sys/task.c\<close>
  holds the task table, the run queues and the scheduler that every timer tick enters, and with
  \<open>sys/syscall_proc.c\<close> signals, exit and wait; the page fault handler of \<open>sys/idt.c\<close> resolves copy
  on write and demand pages and calls the mapping window of \<open>sys/task.c\<close>. Tasks meet in
  semaphores and futexes (\<open>sys/sync.c\<close>), message queues (\<open>sys/ipc.c\<close>), pipes (\<open>sys/fd.c\<close>) and
  pseudo-terminals (\<open>sys/pty.c\<close>), all of which block and wake tasks through the task table.
  Descriptors (\<open>sys/fd.c\<close>) lead to pipes, terminals, sockets and files. Files live in the node
  table of \<open>sys/vfs.c\<close>, their contents in RAM buffers or in runs of sectors that are read through
  the page cache \<open>sys/pcache.c\<close> and the block layer \<open>drivers/ata.c\<close>, which has a sector cache of its
  own (\<open>sys/blkcache.c\<close>).

  \<^bold>\<open>Conventions.\<close> A C integer that may wrap is a word of its width; counters and table indices
  whose bounds are proved are \<open>int\<close> or \<open>nat\<close>. A table with a fixed number of slots is a
  function of the slot, and the theorems state that only slots in range matter. A struct is a
  record, a function takes the state of its component and returns the new one with the result;
  \<open>-1\<close> and the other error codes are kept as integers where callers compare them and are
  \<open>None\<close> or \<open>Inl\<close> elsewhere. A section under a spinlock with interrupts off is one step; where
  the code releases the lock and halts, waits or is preempted, the step ends, and what other
  tasks do in between is a step relation (\<open>blk_step\<close>, \<open>kstep\<close>, \<open>sstep\<close>, \<open>fstep\<close>, \<open>vfs_step\<close>).
  Output on the serial line and the console is left out. What is not under \<open>src/\<close> or is not
  modelled (devices, the foreign file systems, the network) is an argument of the definitions.

  \<^bold>\<open>Theories, by component.\<close>

  \<^item> \<open>Mectov_Prelude\<close>: machine integers, linear scans (\<open>first_idx\<close>), counted loops (\<open>for_upto\<close>),
    circular slices and the rules that carry invariants through them. \<open>Fifo\<close>: the locale
    \<open>bounded_fifo\<close>, the contract of every bounded queue of the kernel; the byte ring of pipes and
    terminals in the same theory and \<open>Ipc_Props\<close> (message queues) interpret it.
  \<^item> Frames: \<open>Frames\<close> has doubly-linked lists over numbered nodes and models bitmap, buddy
    lists, per-CPU caches and reference counts,
    \<open>Phys\<close> their set-up, the boot self-test and the statistics. \<open>Frames_Inv\<close> states the
    partition of free frames by the lists, \<open>Frames_Alloc\<close> and \<open>Frames_Cache\<close> show that splitting,
    merging and caching keep it and derive the ownership contract \<open>frames_ok s M\<close> with \<open>M\<close> the
    multiset of frames held by callers; \<open>Frames_Pins\<close> adds what never changes.
    \<open>Phys_Props\<close> and \<open>Phys_Findings\<close> hold the properties.
  \<^item> Heap: \<open>Heap\<close> models blocks laid out in memory, \<open>Heap_Props\<close> the list they form, its
    invariant, and what \<open>kmalloc\<close>, \<open>kfree\<close> and \<open>krealloc\<close> do to allocations and contents.
  \<^item> Address spaces: \<open>Vmm\<close> models the table walk, mapping, unmapping, creation, clone and
    release; \<open>Vmm_Refs\<close> entries bit by bit, the account of frames under a directory and the
    invariant \<open>vm_ok\<close>; \<open>Vmm_Links\<close>, \<open>Vmm_Map\<close>, \<open>Vmm_New\<close>, \<open>Vmm_Space\<close>, \<open>Vmm_Create\<close>,
    \<open>Vmm_Clone\<close> and \<open>Vmm_Fork\<close> the contracts of the operations. \<open>Fault\<close> models the page fault handler, \<open>Fault_Cow\<close> the race of two
    processors on one page; \<open>Mmap\<close> models the mapping window, \<open>Mmap_Regions\<close> its table and gap
    search, \<open>Mmap_Fault\<close> demand pages and write-back. \<open>Vmm_Machine\<close> is a small machine for the
    concrete instances in \<open>Vmm_Props\<close> and \<open>Vmm_Findings\<close>. \<open>Shm\<close> models the shared memory
    segments and counts their attachments, \<open>Shm_Props\<close> shows what attaching and detaching do to
    the page tables and to the account of frames.
  \<^item> Tasks: \<open>Task\<close> (table, run queues, sleeping), \<open>Task_Create\<close> (construction, limits,
    trust), \<open>Signals\<close> (exit, signals, wait, the reaper) and \<open>Sched\<close> (the entry \<open>schedule\<close>) are the
    model. \<open>Sched_Inv\<close> states the invariant \<open>sched_ok\<close>; \<open>Sched_Steps\<close>, \<open>Sched_Term\<close>,
    \<open>Sched_Ops\<close> and \<open>Sched_Main\<close> show that every operation keeps it, \<open>Sched_Reach\<close> collects them
    in the transition system \<open>kreach\<close>, \<open>Sched_Fair\<close> bounds the wait on a run queue. \<open>Task_Claims\<close>
    holds the properties.
  \<^item> \<open>Sync\<close> and \<open>Sync_Props\<close>: semaphores and futexes over the task table. \<open>Ipc\<close> and
    \<open>Ipc_Props\<close>: message queues and their refinement of keyed channels.
  \<^item> Descriptors: \<open>Pty\<close> (terminals), \<open>Fd\<close> (tables, open, close, dup, pipe), \<open>Fd_Io\<close>
    (transfers) and \<open>Fd_Sys\<close> (seek, stat, poll, select, sockets) are the model. \<open>Fd_Refs\<close> counts
    references and the ends of pipes and terminals, \<open>Fd_Inv\<close> and \<open>Fd_Steps\<close> prove the
    invariant \<open>fd_ok\<close> for every call, \<open>Fd_Props\<close> holds the properties.
  \<^item> Storage: \<open>Blkcache\<close> is the sector cache with its interleavings (locale \<open>sector_cache\<close>,
    interpreted on the cache of the code), \<open>Ata\<close> the cached reads and writes with readahead.
  \<^item> Files: \<open>Pcache\<close> is the page cache; \<open>Vfs\<close> (nodes, names, paths, creation, saving),
    \<open>Vfs_Walk\<close> (lookup, links, \<open>/proc\<close>), \<open>Vfs_Ops\<close> (links, deletion, renaming, modes, loading)
    and \<open>Vfs_File\<close> (RAM files, sector allocation, reading, writing) are the model. \<open>Vfs_Disk\<close>
    says which bytes a transfer moves and which run a file has, \<open>Vfs_Write\<close> what a write
    changes, \<open>Vfs_Tree\<close> that parent chains end, \<open>Vfs_Inv\<close> and \<open>Vfs_Calls\<close> that every call keeps
    the node table sound, \<open>Vfs_Ram\<close> the contents and the budget of RAM files. A small image in
    \<open>Vfs_Props\<close> serves the instances there, in \<open>Vfs_Ram\<close> and in \<open>Vfs_Findings\<close>.
  \<^item> Accounts: \<open>Sha256\<close> models \<open>sys/sha256.c\<close> and shows that it computes the standard's digest
    however the input is cut, \<open>Entropy\<close> the generator of \<open>sys/entropy.c\<close> and the freshness of its
    counter, \<open>Passwd\<close> the password file of \<open>sys/passwd.c\<close>, the \<open>passwd\<close> command and the idle
    lock of \<open>sys/security.c\<close>, on top of the file system.
  \<^item> \<open>Klog\<close> and \<open>Clipboard\<close> are whole components with their properties.
\<close>

text \<open>
  \<^bold>\<open>Loops and bounds.\<close> Loops over fixed tables are \<open>for_upto\<close>, scans or folds over the
  slots. Merging buddies, the self-test walk, the deferred reaper, sector batches, the sweeps of
  a recursive deletion and the components of a path recurse with a measure. The heap walks
  (\<open>find_free_block\<close>, \<open>merge_forward\<close>, \<open>find_prev\<close>, \<open>stats_walk\<close>), the gap search
  (\<open>find_gap\<close>), the delivery loop of the scheduler (\<open>sig_loop\<close>), the requeue loop
  (\<open>move_waiters\<close>) and the loops of the hash (\<open>sha256_absorb\<close>, \<open>sha256_pad_zero\<close>) may run for ever on a bad state: they are partial functions whose value
  \<open>None\<close> is non-termination, and the properties show that they return in every good state
  (\<open>move_waiters\<close> does not when a futex is requeued onto itself). Only three loops carry fuel.
  The walk up to the root in \<open>vfs_get_abs_path\<close> has none in the code; \<open>names_fuel\<close> is one more
  than there are nodes, and with the invariant more fuel gives the same path. \<open>chain_hits\<close> and
  \<open>up_check\<close> have the bound of the code, \<open>MAX_NODES\<close> steps. A path walk restarts at most
  \<open>VFS_SYMLINK_HOPS_MAX + 1\<close> times, as each restart spends a hop. \<open>poll\<close> and \<open>select\<close> take the
  list of moments at which they look again.

  \<^bold>\<open>What the steps leave out.\<close>
  \<^item> Frames and spaces: a page directory is denoted by its frame number; the node words that
    the buddy lists keep inside free frames are not part of \<open>vm_mem\<close>; flushing the TLB, here and
    on other processors, and the calls with page directory 0, which mean the boot tables, are
    left out, and \<open>vmm_init\<close> has run. The copy on write fault has two steps, the allocation of
    the new frame and the section under \<open>vmm_lock\<close>.
  \<^item> Mapping window: one task's table beside its machine; files are a store whose operations
    may fail as \<open>mmap_env\<close> says; the dirty bitmap is a set of pages.
  \<^item> Tasks: the saved registers omit the words the interrupt stub pushes and drops; the
    processors 1 to n-1 are those with an idle task; \<open>waitpid\<close> has a place to store the status.
  \<^item> Descriptors: files and sockets are reached through the record \<open>fd_env\<close>; the error path of
    \<open>do_sys_pipe\<close> is one step; closing the descriptors of a dying task is an effect recorded by
    \<open>Signals\<close> and performed in \<open>Fd\<close>.
  \<^item> Files: the environment \<open>venv\<close> says who calls, which transfers fail and what FAT32, ext2,
    \<open>/proc\<close> and the random device return. The node table is persisted one node per sector;
    the node count of the metadata sector, the bytes a free slot still holds, the NUL after a
    string and the capacity of a cache entry are not observed. Sizes passed by callers are not
    negative, and the histories of \<open>vfs_step\<close> name nodes by nonempty paths.

  \<^bold>\<open>Not modelled.\<close> In modelled files: \<open>fork\<close>, \<open>exec\<close>, the sweeps over the mappings of all
  tasks, the seeding of a fresh disk image, directory listings and the text of \<open>/proc\<close>. Whole
  files: the mount table and the two foreign file systems, the system call switch, the
  program loader, the login screen, device registries, the network stack, the
  drivers other than the ATA entry points, processor start-up and interrupts, the window
  manager, the shell and the programs, and the vendored engines. They are formats, device
  registers, drawing, or glue over what is modelled.
\<close>

end
